(* ===== verification/Prelude.thy ===== *)
theory Prelude
  imports Main "HOL-Library.Word"
begin

text \<open>
  The vocabulary the component theories share: Python values and exceptions as HOL
  data, the list facts used by several components, and two interfaces.

  \<^item> Python's \<open>int\<close> is \<open>int\<close>; \<open>str\<close> values that are only compared are \<open>string\<close>, and
    texts whose code points matter are \<open>pystr\<close>, lists of code points; \<open>bytes\<close> are
    lists of 8-bit words.
  \<^item> A stateful method is a function from the state to a pair: the state it leaves
    behind and either the exception it raised (\<open>Inl\<close>) or its result (\<open>Inr\<close>). The
    state is there in both cases because a Python method that raises keeps the
    assignments it made before.
  \<^item> \<open>op_system\<close> is the interface of a component whose operations keep an invariant,
    \<open>watermark_system\<close> that of one which also keeps a high-water mark monotone.
\<close>

section \<open>Python data\<close>

type_synonym byte = "8 word"
type_synonym pystr = "nat list"
type_synonym ('e, 'a) result = "'e + 'a"

datatype py_error =
    ValueError string
  | TypeError string
  | RuntimeError string
  | KeyError
  | IndexError
  | AssertionError
  | ZeroDivisionError

text \<open>Values of the dictionaries that the code only stores and forwards.\<close>

datatype pyobj =
    PyNone
  | PyBool bool
  | PyInt int
  | PyStr string
  | PyList "pyobj list"
  | PyDict "(string \<times> pyobj) list"

type_synonym meta = "(string \<times> string) list"

text \<open>\<open>d[k] = v\<close> on a dictionary kept as an association list in insertion order.\<close>

definition dict_set :: "'k \<Rightarrow> 'v \<Rightarrow> ('k \<times> 'v) list \<Rightarrow> ('k \<times> 'v) list" where
  "dict_set k v d = (if k \<in> fst ` set d then map (\<lambda>(k', v'). (k', if k' = k then v else v')) d
                     else d @ [(k, v)])"

text \<open>\<open>dict.pop(key, None)\<close>.\<close>

definition dict_pop :: "'k \<Rightarrow> ('k \<times> 'v) list \<Rightarrow> ('k \<times> 'v) list" where
  "dict_pop k d = filter (\<lambda>(k', _). k' \<noteq> k) d"

lemma map_of_replace:
  "map_of (map (\<lambda>(k', v'). (k', if k' = k then v else v')) d) x =
     (if x = k \<and> map_of d k \<noteq> None then Some v else map_of d x)"
proof (cases "x = k")
  case True
  have "map_of (map (\<lambda>(k', v'). (k', if k' = k then v else v')) d) k = map_option (\<lambda>_. v) (map_of d k)"
    by (induction d) auto
  with True show ?thesis by (cases "map_of d k") simp_all
next
  case False
  then have "map_of (map (\<lambda>(k', v'). (k', if k' = k then v else v')) d) x = map_of d x"
    by (induction d) auto
  with False show ?thesis by simp
qed

lemma dict_set_lookup [simp]: "map_of (dict_set k v d) = (map_of d)(k \<mapsto> v)"
proof
  fix x
  have "k \<in> fst ` set d \<longleftrightarrow> map_of d k \<noteq> None" by (simp add: map_of_eq_None_iff)
  then show "map_of (dict_set k v d) x = ((map_of d)(k \<mapsto> v)) x"
    by (simp add: dict_set_def map_of_replace map_add_def split: option.split)
qed

lemma dict_set_fst: "map fst (dict_set k v d) = (if k \<in> fst ` set d then map fst d else map fst d @ [k])"
proof -
  have "map fst (map (\<lambda>(k', v'). (k', if k' = k then v else v')) d) = map fst d" by (induction d) auto
  then show ?thesis unfolding dict_set_def by simp
qed

lemma dict_set_keys [simp]: "fst ` set (dict_set k v d) = insert k (fst ` set d)"
  using arg_cong [OF dict_set_fst [of k v d], of set] by (auto split: if_splits)

lemma dict_set_length: "length (dict_set k v d) = (if k \<in> fst ` set d then length d else Suc (length d))"
  by (simp add: dict_set_def)

lemma distinct_dict_set [simp]: "distinct (map fst d) \<Longrightarrow> distinct (map fst (dict_set k v d))"
  by (simp add: dict_set_fst)

lemma dict_pop_keys [simp]: "fst ` set (dict_pop k d) = fst ` set d - {k}"
  by (auto simp: dict_pop_def image_iff)

lemma dict_pop_length: "length (dict_pop k d) \<le> length d"
  by (simp add: dict_pop_def)

lemma dict_pop_subset: "set (dict_pop k d) \<subseteq> set d"
  by (auto simp: dict_pop_def)

lemma dict_pop_lookup [simp]: "map_of (dict_pop k d) = (map_of d)(k := None)"
  by (induction d) (auto simp: dict_pop_def fun_eq_iff)

lemma distinct_dict_pop [simp]:
  "distinct (map fst d) \<Longrightarrow> distinct (map fst (dict_pop k d))"
  "distinct (map snd d) \<Longrightarrow> distinct (map snd (dict_pop k d))"
  by (auto simp: dict_pop_def distinct_map inj_on_def)

section \<open>Collections of facts\<close>

named_theorems inv_simps \<open>definitions of the component invariants\<close>

section \<open>Lists of consecutive integers\<close>

text \<open>\<open>consecutive a xs\<close>: the list is \<open>a, a + 1, ...\<close>.\<close>

fun consecutive :: "int \<Rightarrow> int list \<Rightarrow> bool" where
  "consecutive a [] = True"
| "consecutive a (x # xs) = (x = a \<and> consecutive (a + 1) xs)"

lemma consecutive_append [simp]:
  "consecutive a (xs @ ys) \<longleftrightarrow> consecutive a xs \<and> consecutive (a + int (length xs)) ys"
  by (induction xs arbitrary: a) (auto simp: algebra_simps)

lemma consecutive_nth: "consecutive a xs \<Longrightarrow> i < length xs \<Longrightarrow> xs ! i = a + int i"
proof (induction xs arbitrary: a i)
  case Nil
  then show ?case by simp
next
  case (Cons x xs)
  then show ?case by (cases i) auto
qed

lemma consecutive_bounds:
  "consecutive a xs \<Longrightarrow> x \<in> set xs \<Longrightarrow> a \<le> x \<and> x < a + int (length xs)"
  by (induction xs arbitrary: a) fastforce+

lemma consecutive_drop:
  "consecutive a xs \<Longrightarrow> n \<le> length xs \<Longrightarrow> consecutive (a + int n) (drop n xs)"
proof (induction n arbitrary: a xs)
  case (Suc n)
  then obtain y ys where xs: "xs = y # ys" by (cases xs) auto
  with Suc.prems have "consecutive (a + 1 + int n) (drop n ys)" by (intro Suc.IH) auto
  with xs show ?case by (simp add: algebra_simps)
qed simp

lemma consecutive_eq_upto: "consecutive a xs \<longleftrightarrow> xs = [a .. a + int (length xs) - 1]"
proof (induction xs arbitrary: a)
  case (Cons x xs)
  have "[a .. a + int (length (x # xs)) - 1] = a # [a + 1 .. a + 1 + int (length xs) - 1]"
    by (simp add: upto_rec1)
  with Cons show ?case by auto
qed simp

lemma consecutive_filter_greater:
  "consecutive a xs \<Longrightarrow> a \<le> k + 1 \<Longrightarrow> k + 1 \<le> a + int (length xs) \<Longrightarrow>
   filter (\<lambda>x. k < x) xs = drop (nat (k + 1 - a)) xs"
proof (induction xs arbitrary: a)
  case Nil
  then show ?case by simp
next
  case (Cons x xs)
  show ?case
  proof (cases "a \<le> k")
    case True
    with Cons.prems have "filter (\<lambda>x. k < x) xs = drop (nat (k + 1 - (a + 1))) xs"
      by (intro Cons.IH) auto
    moreover have "nat (k + 1 - a) = Suc (nat (k + 1 - (a + 1)))"
      using True by simp
    ultimately show ?thesis using True Cons.prems by simp
  next
    case False
    with Cons.prems have "\<forall>y \<in> set xs. k < y"
      by (fastforce dest: consecutive_bounds)
    with False Cons.prems show ?thesis by simp
  qed
qed

section \<open>Non-decreasing lists\<close>

text \<open>The running maximum of Python loops of the form \<open>last = max(last, v)\<close>.\<close>

fun running_max :: "int \<Rightarrow> int list \<Rightarrow> int list" where
  "running_max m [] = []"
| "running_max m (x # xs) = max m x # running_max (max m x) xs"

lemma length_running_max [simp]: "length (running_max m xs) = length xs"
  by (induction xs arbitrary: m) auto

lemma running_max_ge: "y \<in> set (running_max m xs) \<Longrightarrow> m \<le> y"
  by (induction xs arbitrary: m) force+

lemma sorted_running_max [simp]: "sorted (running_max m xs)"
  by (induction xs arbitrary: m) (auto dest: running_max_ge)

lemma running_max_id: "sorted xs \<Longrightarrow> \<forall>x \<in> set xs. m \<le> x \<Longrightarrow> running_max m xs = xs"
  by (induction xs arbitrary: m) (auto simp: max_def)

lemma running_max_le:
  "m \<le> b \<Longrightarrow> \<forall>x \<in> set xs. x \<le> b \<Longrightarrow> y \<in> set (running_max m xs) \<Longrightarrow> y \<le> b"
  by (induction xs arbitrary: m) (auto simp: max_def split: if_splits)

text \<open>\<open>max(lo, min(hi, v))\<close>.\<close>

definition clamp :: "'a::linorder \<Rightarrow> 'a \<Rightarrow> 'a \<Rightarrow> 'a" where
  "clamp lo hi v = max lo (min hi v)"

lemma clamp_lower [simp]: "lo \<le> clamp lo hi v"
  by (simp add: clamp_def)

lemma clamp_upper [simp]: "lo \<le> hi \<Longrightarrow> clamp lo hi v \<le> hi"
  by (simp add: clamp_def)

lemma clamp_id: "lo \<le> v \<Longrightarrow> v \<le> hi \<Longrightarrow> clamp lo hi v = v"
  by (simp add: clamp_def)

lemma clamp_mono: "v \<le> w \<Longrightarrow> clamp lo hi v \<le> clamp lo hi w"
  unfolding clamp_def by (intro max.mono min.mono) auto

section \<open>Interfaces: operations that keep an invariant\<close>

locale op_system =
  fixes exec :: "'op \<Rightarrow> 's \<Rightarrow> 's"
    and inv :: "'s \<Rightarrow> bool"
  assumes exec_inv: "inv s \<Longrightarrow> inv (exec op s)"
begin

lemma run_inv: "inv s \<Longrightarrow> inv (fold exec ops s)"
  by (induction ops arbitrary: s) (auto intro: exec_inv)

lemma run_prefix_inv: "inv s \<Longrightarrow> inv (fold exec (take n ops) s)"
  by (rule run_inv)

end

locale watermark_system = op_system exec inv
  for exec :: "'op \<Rightarrow> 's \<Rightarrow> 's" and inv :: "'s \<Rightarrow> bool" +
  fixes mark :: "'s \<Rightarrow> 'm::preorder"
  assumes exec_mark: "inv s \<Longrightarrow> mark s \<le> mark (exec op s)"
begin

lemma run_mark: "inv s \<Longrightarrow> mark s \<le> mark (fold exec ops s)"
proof (induction ops arbitrary: s)
  case Nil
  then show ?case by simp
next
  case (Cons op ops)
  from Cons.prems have "mark s \<le> mark (exec op s)" by (rule exec_mark)
  also have "\<dots> \<le> mark (fold exec ops (exec op s))"
    by (rule Cons.IH) (rule exec_inv [OF Cons.prems])
  finally show ?case by simp
qed

lemma run_mark_between:
  assumes "inv s" and "m \<le> n"
  shows "mark (fold exec (take m ops) s) \<le> mark (fold exec (take n ops) s)"
proof -
  have "take n ops = take m ops @ drop m (take n ops)"
    using assms(2) by (metis append_take_drop_id min.absorb1 take_take)
  then have "fold exec (take n ops) s = fold exec (drop m (take n ops)) (fold exec (take m ops) s)"
    by (metis fold_append comp_apply)
  then show ?thesis using run_mark [OF run_prefix_inv [OF assms(1)]] by simp
qed

end

end
