(* ===== verification/Delivery_Ledger.thy ===== *)
theory Delivery_Ledger
  imports Prelude
begin

text \<open>
  The replay ledger of \<open>engine/session/reliability.py\<close> and the output types of
  \<open>engine/session/types.py\<close>.

  One ledger belongs to one logical synthesis. Outputs are numbered and retained
  until acknowledged; a physical connection attaches with the cursor of what it
  already has and gets the rest replayed, and a newer attachment fences an older one.
  Every method of the class runs under one lock, so each is one step of the model.

  The queues of the attachments are Python objects shared with the transport tasks
  that read them, also after a newer attachment replaced them. They are kept in a
  store \<open>dl_queues\<close> indexed by the attachment's generation, which is unique. The size of
  a JSON rendering (\<open>json.dumps\<close>) is a parameter \<open>json_len\<close> of the definitions that
  charge the buffer.
\<close>

section \<open>Outputs of a logical session\<close>

record audio_format =
  encoding :: string
  sample_rate :: int
  channels :: int

datatype terminal_status = COMPLETED | CANCELLED | FAILED

datatype session_output =
    StartedOutput string audio_format meta
  | AudioOutput string "byte list" audio_format int int meta
  | EventOutput string string int string string meta
  | TerminalOutput string terminal_status string "(string \<times> pyobj) list" "(string \<times> pyobj) list"

fun is_terminal :: "session_output \<Rightarrow> bool" where
  "is_terminal (TerminalOutput _ _ _ _ _) = True"
| "is_terminal _ = False"

section \<open>Ledger state\<close>

text \<open>
  The codes of \<open>LedgerError\<close>, which are part of the wire contract. The human-readable
  messages are not modelled.
\<close>

datatype ledger_code =
    Invalid_cursor | Cursor_ahead | Cursor_expired | Cursor_mismatch | Session_terminal
  | Sample_gap | Sample_range_mismatch | Unsupported_audio_encoding | Audio_payload_alignment
  | Resume_buffer_exceeded | Attachment_overflow | Invalid_ack | Ack_regression
  | Terminal_not_ready | Stale_attachment

datatype ledger_error = LedgerError (err_code: ledger_code)

record reliable_delivery =
  delivery_seq :: int
  rd_payload :: session_output
  start_sample :: int
  end_sample :: int
  rd_retained :: int

record attachment_failure =
  af_code :: ledger_code

datatype ledger_message =
    Delivery reliable_delivery
  | AttachmentFence int
  | Failure attachment_failure

type_synonym queue_store = "int \<rightharpoonup> ledger_message list"

record delivery_ledger =
  dl_token :: string
  dl_config_fingerprint :: string
  dl_protocol :: string
  max_buffer_bytes :: int
  attachment_queue_maxsize :: int
  dl_records :: "reliable_delivery list"
  retained_bytes :: int
  next_delivery_seq :: int
  next_audio_sample :: int
  trimmed_through_seq :: int
  trimmed_audio_sample :: int
  acked_delivery_seq :: int
  acked_audio_sample :: int
  dl_generation :: int
  dl_attachment :: "int option"
  dl_terminal :: "session_output option"
  terminal_acked :: bool
  dl_failure :: "attachment_failure option"
  dl_queues :: queue_store

definition new_ledger ::
  "string \<Rightarrow> string \<Rightarrow> string \<Rightarrow> int \<Rightarrow> int \<Rightarrow> py_error + delivery_ledger" where
  "new_ledger tok fp proto max_bytes maxq =
     (if tok = '''' then Inl (ValueError ''token must not be empty'')
      else if fp = '''' then Inl (ValueError ''config_fingerprint must not be empty'')
      else if proto = '''' then Inl (ValueError ''protocol must not be empty'')
      else if max_bytes \<le> 0 \<or> maxq \<le> 0 then Inl (ValueError ''ledger limits must be positive'')
      else Inr \<lparr>dl_token = tok, dl_config_fingerprint = fp, dl_protocol = proto,
                max_buffer_bytes = max_bytes, attachment_queue_maxsize = maxq,
                dl_records = [], retained_bytes = 0, next_delivery_seq = 1,
                next_audio_sample = 0, trimmed_through_seq = 0, trimmed_audio_sample = 0,
                acked_delivery_seq = 0, acked_audio_sample = 0, dl_generation = 0,
                dl_attachment = None, dl_terminal = None, terminal_acked = False,
                dl_failure = None, dl_queues = Map.empty\<rparr>)"

definition last_delivery_seq :: "delivery_ledger \<Rightarrow> int" where
  "last_delivery_seq l = next_delivery_seq l - 1"

section \<open>Queues\<close>

text \<open>\<open>asyncio.Queue.put_nowait\<close>, with the overflow turned into a ledger error.\<close>

definition put_control ::
  "int \<Rightarrow> queue_store \<Rightarrow> int \<Rightarrow> ledger_message \<Rightarrow> ledger_error + queue_store" where
  "put_control maxq qs g m =
     (let q = (case qs g of None \<Rightarrow> [] | Some q \<Rightarrow> q)
      in if 0 < maxq \<and> maxq \<le> int (length q)
         then Inl (LedgerError Attachment_overflow)
         else Inr (qs(g \<mapsto> q @ [m])))"

text \<open>The replay loop of \<open>attach\<close>: records put before an overflow stay in the queue.\<close>

fun put_all ::
  "int \<Rightarrow> queue_store \<Rightarrow> int \<Rightarrow> ledger_message list \<Rightarrow> queue_store \<times> ledger_error option" where
  "put_all maxq qs g [] = (qs, None)"
| "put_all maxq qs g (m # ms) =
     (case put_control maxq qs g m of
        Inl e \<Rightarrow> (qs, Some e)
      | Inr qs' \<Rightarrow> put_all maxq qs' g ms)"

section \<open>Cursors\<close>

definition find_record :: "delivery_ledger \<Rightarrow> int \<Rightarrow> reliable_delivery option" where
  "find_record l s = find (\<lambda>r. delivery_seq r = s) (dl_records l)"

definition validate_cursor :: "delivery_ledger \<Rightarrow> int \<Rightarrow> int \<Rightarrow> ledger_error option" where
  "validate_cursor l seq sample =
     (if next_delivery_seq l - 1 < seq
      then Some (LedgerError Cursor_ahead)
      else if next_audio_sample l < sample
      then Some (LedgerError Cursor_ahead)
      else if seq < trimmed_through_seq l
      then Some (LedgerError Cursor_expired)
      else if sample < trimmed_audio_sample l
      then Some (LedgerError Cursor_expired)
      else case (if seq = trimmed_through_seq l then Some (trimmed_audio_sample l)
                 else map_option end_sample (find_record l seq)) of
             None \<Rightarrow> Some (LedgerError Cursor_expired)
           | Some expected \<Rightarrow>
               if sample \<noteq> expected
               then Some (LedgerError Cursor_mismatch)
               else None)"

definition require_generation :: "delivery_ledger \<Rightarrow> int \<Rightarrow> ledger_error option" where
  "require_generation l g =
     (if dl_attachment l \<noteq> Some g
      then Some (LedgerError Stale_attachment) else None)"

section \<open>Attaching and detaching\<close>

definition ledger_attach ::
  "int \<Rightarrow> int \<Rightarrow> delivery_ledger \<Rightarrow> delivery_ledger \<times> (ledger_error + int)" where
  "ledger_attach last_seq audio_through l =
     (if last_seq < 0 \<or> audio_through < 0
      then (l, Inl (LedgerError Invalid_cursor))
      else case dl_failure l of
        Some f \<Rightarrow> (l, Inl (LedgerError (af_code f)))
      | None \<Rightarrow>
        (case validate_cursor l last_seq audio_through of
           Some e \<Rightarrow> (l, Inl e)
         | None \<Rightarrow>
           (let old = dl_attachment l;
                g = dl_generation l + 1;
                l1 = l\<lparr>dl_generation := g, dl_attachment := Some g,
                       dl_queues := (dl_queues l)(g \<mapsto> [])\<rparr>;
                replay = map Delivery (filter (\<lambda>r. last_seq < delivery_seq r) (dl_records l))
            in case (case old of
                       None \<Rightarrow> Inr (dl_queues l1)
                     | Some o' \<Rightarrow> put_control (attachment_queue_maxsize l) (dl_queues l1) o'
                                   (AttachmentFence g)) of
                 Inl e \<Rightarrow> (l1, Inl e)
               | Inr qs \<Rightarrow>
                   (case put_all (attachment_queue_maxsize l) qs g replay of
                      (qs', None) \<Rightarrow> (l1\<lparr>dl_queues := qs'\<rparr>, Inr g)
                    | (qs', Some e) \<Rightarrow> (l1\<lparr>dl_queues := qs'\<rparr>, Inl e)))))"

definition ledger_detach :: "int \<Rightarrow> delivery_ledger \<Rightarrow> delivery_ledger \<times> bool" where
  "ledger_detach g l =
     (if dl_attachment l = Some g then (l\<lparr>dl_attachment := None\<rparr>, True) else (l, False))"

definition has_attachment :: "delivery_ledger \<Rightarrow> bool" where
  "has_attachment l \<longleftrightarrow> dl_attachment l \<noteq> None"

section \<open>Publishing\<close>

text \<open>The object \<open>_payload_size\<close> hands to \<open>json.dumps\<close>.\<close>

datatype payload_body =
    TerminalBody terminal_status string "(string \<times> pyobj) list" "(string \<times> pyobj) list"
  | ReprBody session_output

definition payload_size :: "(payload_body \<Rightarrow> nat) \<Rightarrow> session_output \<Rightarrow> int" where
  "payload_size json_len p =
     (case p of
        AudioOutput _ pcm _ _ _ _ \<Rightarrow> int (length pcm)
      | TerminalOutput _ st msg ms us \<Rightarrow> int (json_len (TerminalBody st msg ms us))
      | _ \<Rightarrow> int (json_len (ReprBody p)))"

definition encoding_widths :: "string \<rightharpoonup> int" where
  "encoding_widths = [''pcm_f32'' \<mapsto> 4, ''pcm_s16le'' \<mapsto> 2, ''pcm_s16'' \<mapsto> 2, ''pcm_u8'' \<mapsto> 1]"

text \<open>\<open>str.lower\<close> on the ASCII letters, all that the encoding names use.\<close>

definition lower_char :: "char \<Rightarrow> char" where
  "lower_char c = (let n = of_char c :: nat
                   in if 65 \<le> n \<and> n \<le> 90 then char_of (n + 32) else c)"

definition audio_sample_count :: "byte list \<Rightarrow> audio_format \<Rightarrow> ledger_error + int" where
  "audio_sample_count pcm fmt =
     (case encoding_widths (map lower_char (encoding fmt)) of
        None \<Rightarrow> Inl (LedgerError Unsupported_audio_encoding)
      | Some width \<Rightarrow>
          (let divisor = width * max 1 (channels fmt)
           in if int (length pcm) mod divisor \<noteq> 0
              then Inl (LedgerError Audio_payload_alignment)
              else Inr (int (length pcm) div divisor)))"

text \<open>The sample range of a payload: an error, or the range the record gets.\<close>

definition output_range :: "delivery_ledger \<Rightarrow> session_output \<Rightarrow> ledger_error + int \<times> int" where
  "output_range l p =
     (case p of
        AudioOutput _ pcm fmt s e _ \<Rightarrow>
          (if s < 0 \<or> e < s \<or> s \<noteq> next_audio_sample l
           then Inl (LedgerError Sample_gap)
           else case audio_sample_count pcm fmt of
                  Inl err \<Rightarrow> Inl err
                | Inr expected \<Rightarrow>
                    if e - s \<noteq> expected
                    then Inl (LedgerError Sample_range_mismatch)
                    else Inr (s, e))
      | _ \<Rightarrow> Inr (next_audio_sample l, next_audio_sample l))"

definition buffer_failure :: attachment_failure where
  "buffer_failure = \<lparr>af_code = Resume_buffer_exceeded\<rparr>"

definition ledger_publish ::
  "(payload_body \<Rightarrow> nat) \<Rightarrow> session_output \<Rightarrow> delivery_ledger \<Rightarrow>
   delivery_ledger \<times> (ledger_error + reliable_delivery)" where
  "ledger_publish json_len p l =
     (if dl_terminal l \<noteq> None
      then (l, Inl (LedgerError Session_terminal))
      else case output_range l p of
        Inl e \<Rightarrow> (l, Inl e)
      | Inr (s, e) \<Rightarrow>
        (let retained = payload_size json_len p
         in if max_buffer_bytes l < retained_bytes l + retained
            then (let l1 = l\<lparr>dl_failure := Some buffer_failure\<rparr>
                  in case dl_attachment l of
                       None \<Rightarrow> (l1, Inl (LedgerError (af_code buffer_failure)))
                     | Some g \<Rightarrow>
                         (case put_control (attachment_queue_maxsize l) (dl_queues l) g
                                 (Failure buffer_failure) of
                            Inl err \<Rightarrow> (l1, Inl err)
                          | Inr qs \<Rightarrow> (l1\<lparr>dl_queues := qs\<rparr>,
                                       Inl (LedgerError (af_code buffer_failure)))))
            else (let r = \<lparr>delivery_seq = next_delivery_seq l, rd_payload = p,
                           start_sample = s, end_sample = e, rd_retained = retained\<rparr>;
                      l1 = l\<lparr>dl_records := dl_records l @ [r],
                             retained_bytes := retained_bytes l + retained,
                             next_delivery_seq := next_delivery_seq l + 1,
                             next_audio_sample := max (next_audio_sample l) e,
                             dl_terminal := (if is_terminal p then Some p else dl_terminal l)\<rparr>
                  in case dl_attachment l of
                       None \<Rightarrow> (l1, Inr r)
                     | Some g \<Rightarrow>
                         (case put_control (attachment_queue_maxsize l) (dl_queues l) g (Delivery r) of
                            Inl err \<Rightarrow> (l1, Inl err)
                          | Inr qs \<Rightarrow> (l1\<lparr>dl_queues := qs\<rparr>, Inr r)))))"

section \<open>Acknowledgements\<close>

text \<open>The trimming loop: pop the acknowledged records from the left.\<close>

fun trim_loop ::
  "int \<Rightarrow> int \<Rightarrow> reliable_delivery list \<Rightarrow> int \<Rightarrow> int \<Rightarrow> int \<Rightarrow>
   reliable_delivery list \<times> int \<times> int \<times> int" where
  "trim_loop through audio [] bytes tseq taud = ([], bytes, tseq, taud)"
| "trim_loop through audio (r # rs) bytes tseq taud =
     (if through < delivery_seq r then (r # rs, bytes, tseq, taud)
      else if audio < end_sample r then (r # rs, bytes, tseq, taud)
      else trim_loop through audio rs (bytes - rd_retained r) (delivery_seq r)
             (max taud (end_sample r)))"

definition ledger_acknowledge ::
  "int \<Rightarrow> int \<Rightarrow> int \<Rightarrow> delivery_ledger \<Rightarrow> delivery_ledger \<times> (ledger_error + unit)" where
  "ledger_acknowledge g through audio l =
     (if through < 0 \<or> audio < 0
      then (l, Inl (LedgerError Invalid_ack))
      else case require_generation l g of
        Some e \<Rightarrow> (l, Inl e)
      | None \<Rightarrow>
        if through \<le> acked_delivery_seq l \<and> audio \<le> acked_audio_sample l then (l, Inr ())
        else case validate_cursor l through audio of
          Some e \<Rightarrow> (l, Inl e)
        | None \<Rightarrow>
          if through < acked_delivery_seq l
          then (l, Inl (LedgerError Ack_regression))
          else if audio < acked_audio_sample l
          then (l, Inl (LedgerError Ack_regression))
          else (case trim_loop through audio (dl_records l) (retained_bytes l)
                       (trimmed_through_seq l) (trimmed_audio_sample l) of
                  (rs, bytes, tseq, taud) \<Rightarrow>
                    (l\<lparr>acked_delivery_seq := through, acked_audio_sample := audio,
                       dl_records := rs, retained_bytes := bytes,
                       trimmed_through_seq := tseq, trimmed_audio_sample := taud\<rparr>, Inr ())))"

definition ledger_terminal_ack ::
  "int \<Rightarrow> delivery_ledger \<Rightarrow> delivery_ledger \<times> (ledger_error + unit)" where
  "ledger_terminal_ack g l =
     (case require_generation l g of
        Some e \<Rightarrow> (l, Inl e)
      | None \<Rightarrow>
          if dl_terminal l = None
          then (l, Inl (LedgerError Terminal_not_ready))
          else (l\<lparr>terminal_acked := True\<rparr>, Inr ()))"

section \<open>Closing and reading\<close>

definition ledger_close ::
  "bool \<Rightarrow> delivery_ledger \<Rightarrow> delivery_ledger \<times> (ledger_error + unit)" where
  "ledger_close fence l =
     (let l1 = l\<lparr>dl_attachment := None, dl_records := [], retained_bytes := 0\<rparr>
      in case dl_attachment l of
           None \<Rightarrow> (l1, Inr ())
         | Some g \<Rightarrow>
             if fence
             then (case put_control (attachment_queue_maxsize l) (dl_queues l) g
                          (AttachmentFence (dl_generation l + 1)) of
                     Inl e \<Rightarrow> (l1, Inl e)
                   | Inr qs \<Rightarrow> (l1\<lparr>dl_queues := qs\<rparr>, Inr ()))
             else (l1, Inr ()))"

definition audio_end_through_delivery :: "delivery_ledger \<Rightarrow> int \<Rightarrow> ledger_error + int" where
  "audio_end_through_delivery l seq =
     (if seq < 0 \<or> next_delivery_seq l - 1 < seq
      then Inl (LedgerError Cursor_ahead)
      else if seq = trimmed_through_seq l then Inr (trimmed_audio_sample l)
      else if seq < trimmed_through_seq l
      then Inl (LedgerError Cursor_expired)
      else if seq = next_delivery_seq l - 1 then Inr (next_audio_sample l)
      else case find_record l seq of
             Some r \<Rightarrow> Inr (end_sample r)
           | None \<Rightarrow> Inl (LedgerError Cursor_expired))"

text \<open>\<open>await attachment.queue.get()\<close> by the transport task of one attachment.\<close>

definition queue_get :: "int \<Rightarrow> delivery_ledger \<Rightarrow> delivery_ledger \<times> ledger_message option" where
  "queue_get g l =
     (case dl_queues l g of
        Some (m # ms) \<Rightarrow> (l\<lparr>dl_queues := (dl_queues l)(g \<mapsto> ms)\<rparr>, Some m)
      | _ \<Rightarrow> (l, None))"

section \<open>Invariant\<close>

text \<open>\<open>chain s rs\<close>: the sample ranges of the records follow each other from \<open>s\<close>.\<close>

fun chain :: "int \<Rightarrow> reliable_delivery list \<Rightarrow> bool" where
  "chain s [] = True"
| "chain s (r # rs) = (start_sample r = s \<and> s \<le> end_sample r \<and> chain (end_sample r) rs)"

fun chain_end :: "int \<Rightarrow> reliable_delivery list \<Rightarrow> int" where
  "chain_end s [] = s"
| "chain_end s (r # rs) = chain_end (end_sample r) rs"

text \<open>The sample at which the retained window starts, and its first sequence number.\<close>

definition window_start :: "delivery_ledger \<Rightarrow> int" where
  "window_start l = (if dl_records l = [] then next_audio_sample l
                     else start_sample (hd (dl_records l)))"

definition window_first :: "delivery_ledger \<Rightarrow> int" where
  "window_first l = next_delivery_seq l - int (length (dl_records l))"

definition records_ok :: "delivery_ledger \<Rightarrow> bool" where
  "records_ok l \<longleftrightarrow>
     consecutive (window_first l) (map delivery_seq (dl_records l)) \<and>
     chain (window_start l) (dl_records l) \<and>
     chain_end (window_start l) (dl_records l) = next_audio_sample l"

definition window_ok :: "delivery_ledger \<Rightarrow> bool" where
  "window_ok l \<longleftrightarrow>
     0 \<le> trimmed_through_seq l \<and> trimmed_through_seq l < window_first l \<and>
     0 \<le> trimmed_audio_sample l \<and> trimmed_audio_sample l \<le> window_start l"

definition bytes_ok :: "delivery_ledger \<Rightarrow> bool" where
  "bytes_ok l \<longleftrightarrow>
     0 < max_buffer_bytes l \<and>
     (\<forall>r \<in> set (dl_records l). 0 \<le> rd_retained r) \<and>
     retained_bytes l = sum_list (map rd_retained (dl_records l)) \<and>
     retained_bytes l \<le> max_buffer_bytes l"

definition attachment_ok :: "delivery_ledger \<Rightarrow> bool" where
  "attachment_ok l \<longleftrightarrow>
     0 < attachment_queue_maxsize l \<and>
     (\<forall>g. dl_attachment l = Some g \<longrightarrow> g = dl_generation l \<and> dl_queues l g \<noteq> None) \<and>
     (\<forall>g. dl_generation l < g \<longrightarrow> dl_queues l g = None) \<and>
     (\<forall>g q. dl_queues l g = Some q \<longrightarrow> int (length q) \<le> attachment_queue_maxsize l)"

definition terminal_ok :: "delivery_ledger \<Rightarrow> bool" where
  "terminal_ok l \<longleftrightarrow>
     (case dl_terminal l of
        None \<Rightarrow> (\<forall>r \<in> set (dl_records l). \<not> is_terminal (rd_payload r))
      | Some p \<Rightarrow> is_terminal p \<and>
          (dl_records l \<noteq> [] \<longrightarrow> rd_payload (last (dl_records l)) = p \<and>
             (\<forall>r \<in> set (butlast (dl_records l)). \<not> is_terminal (rd_payload r))))"

definition ledger_inv :: "delivery_ledger \<Rightarrow> bool" where
  "ledger_inv l \<longleftrightarrow>
     records_ok l \<and> window_ok l \<and> bytes_ok l \<and> attachment_ok l \<and> terminal_ok l"

text \<open>
  Until the ledger is closed, nothing is missing between what was trimmed and what is
  retained. \<open>close\<close> drops the records without moving the trim marks.
\<close>

definition ledger_open :: "delivery_ledger \<Rightarrow> bool" where
  "ledger_open l \<longleftrightarrow>
     trimmed_through_seq l + 1 = window_first l \<and> trimmed_audio_sample l = window_start l"

lemmas ledger_window_defs = window_start_def window_first_def
lemmas ledger_inv_parts = records_ok_def window_ok_def bytes_ok_def attachment_ok_def terminal_ok_def
declare ledger_inv_def [inv_simps]

section \<open>Facts about the helpers\<close>

lemma chain_append [simp]:
  "chain s (xs @ ys) \<longleftrightarrow> chain s xs \<and> chain (chain_end s xs) ys"
  by (induction xs arbitrary: s) auto

lemma chain_end_append [simp]: "chain_end s (xs @ ys) = chain_end (chain_end s xs) ys"
  by (induction xs arbitrary: s) auto

lemma chain_end_ge: "chain s xs \<Longrightarrow> s \<le> chain_end s xs"
  by (induction xs arbitrary: s) fastforce+

lemma chain_take: "chain s rs \<Longrightarrow> chain s (take n rs)"
  by (metis append_take_drop_id chain_append)

lemma chain_drop: "chain s rs \<Longrightarrow> chain (chain_end s (take n rs)) (drop n rs)"
  by (metis append_take_drop_id chain_append)

lemma chain_end_split [simp]: "chain_end (chain_end s (take n rs)) (drop n rs) = chain_end s rs"
  by (metis append_take_drop_id chain_end_append)

lemma window_start_append [simp]:
  "dl_records l \<noteq> [] \<Longrightarrow> dl_records l' = dl_records l @ rs \<Longrightarrow> window_start l' = window_start l"
  by (auto simp: window_start_def)

lemma put_controlE:
  assumes "put_control maxq qs g m = Inr qs'"
  obtains q where "qs' = qs(g \<mapsto> q @ [m])" and "qs g = Some q \<or> (qs g = None \<and> q = [])"
    and "0 < maxq \<Longrightarrow> int (length q) < maxq"
  using assms by (auto simp: put_control_def Let_def split: if_splits option.splits)

lemma put_control_Inl:
  "put_control maxq qs g m = Inl e \<Longrightarrow> e = LedgerError Attachment_overflow"
  by (auto simp: put_control_def Let_def split: if_splits)

text \<open>The replay loop appends a prefix of the messages, all of them exactly when they fit.\<close>

lemma put_all_spec:
  assumes "qs g = Some q" and "0 < maxq" and "int (length q) \<le> maxq"
  shows "put_all maxq qs g ms =
    (let n = min (length ms) (nat maxq - length q)
     in (qs(g \<mapsto> q @ take n ms),
         if int (length q + length ms) \<le> maxq then None
         else Some (LedgerError Attachment_overflow)))"
  using assms
proof (induction ms arbitrary: qs q)
  case Nil
  then show ?case by (auto simp: fun_upd_idem)
next
  case (Cons m ms)
  show ?case
  proof (cases "maxq \<le> int (length q)")
    case True
    then have "nat maxq - length q = 0" by simp
    with True Cons.prems show ?thesis
      by (auto simp: put_control_def Let_def fun_eq_iff)
  next
    case False
    let ?qs = "qs(g \<mapsto> q @ [m])"
    have "put_all maxq ?qs g ms =
      (let n = min (length ms) (nat maxq - length (q @ [m]))
       in (?qs(g \<mapsto> (q @ [m]) @ take n ms),
           if int (length (q @ [m]) + length ms) \<le> maxq then None
           else Some (LedgerError Attachment_overflow)))"
      using False Cons.prems(2) by (intro Cons.IH) auto
    moreover have "min (length (m # ms)) (nat maxq - length q)
        = Suc (min (length ms) (nat maxq - length (q @ [m])))"
      using False Cons.prems(2) by auto
    moreover have "put_control maxq qs g m = Inr ?qs"
      using False Cons.prems by (simp add: put_control_def Let_def)
    ultimately show ?thesis by (simp add: Let_def fun_eq_iff)
  qed
qed

lemma put_all_other: "g' \<noteq> g \<Longrightarrow> fst (put_all maxq qs g ms) g' = qs g'"
  by (induction ms arbitrary: qs)
    (auto simp: put_control_def Let_def split: sum.splits option.splits)

section \<open>Every operation keeps the invariant\<close>

lemma new_ledger_inv: "new_ledger tok fp proto mb mq = Inr l \<Longrightarrow> ledger_inv l \<and> ledger_open l"
  by (auto simp: new_ledger_def ledger_inv_def ledger_inv_parts ledger_window_defs ledger_open_def
      split: if_splits)

text \<open>A change of queues, attachment or failure leaves the record part alone.\<close>

lemma record_part_frame [simp]:
  "records_ok (l\<lparr>dl_queues := q\<rparr>) = records_ok l"
  "records_ok (l\<lparr>dl_attachment := at\<rparr>) = records_ok l"
  "records_ok (l\<lparr>dl_generation := g\<rparr>) = records_ok l"
  "records_ok (l\<lparr>dl_failure := f\<rparr>) = records_ok l"
  "records_ok (l\<lparr>terminal_acked := b\<rparr>) = records_ok l"
  "window_ok (l\<lparr>dl_queues := q\<rparr>) = window_ok l"
  "window_ok (l\<lparr>dl_attachment := at\<rparr>) = window_ok l"
  "window_ok (l\<lparr>dl_generation := g\<rparr>) = window_ok l"
  "window_ok (l\<lparr>dl_failure := f\<rparr>) = window_ok l"
  "window_ok (l\<lparr>terminal_acked := b\<rparr>) = window_ok l"
  "ledger_open (l\<lparr>dl_queues := q\<rparr>) = ledger_open l"
  "ledger_open (l\<lparr>dl_attachment := at\<rparr>) = ledger_open l"
  "ledger_open (l\<lparr>dl_generation := g\<rparr>) = ledger_open l"
  "ledger_open (l\<lparr>dl_failure := f\<rparr>) = ledger_open l"
  "ledger_open (l\<lparr>terminal_acked := b\<rparr>) = ledger_open l"
  by (simp_all add: records_ok_def window_ok_def ledger_window_defs ledger_open_def)

lemma content_part_frame [simp]:
  "bytes_ok (l\<lparr>dl_queues := q\<rparr>) = bytes_ok l"
  "bytes_ok (l\<lparr>dl_attachment := at\<rparr>) = bytes_ok l"
  "bytes_ok (l\<lparr>dl_generation := g\<rparr>) = bytes_ok l"
  "bytes_ok (l\<lparr>dl_failure := f\<rparr>) = bytes_ok l"
  "bytes_ok (l\<lparr>terminal_acked := b\<rparr>) = bytes_ok l"
  "terminal_ok (l\<lparr>dl_queues := q\<rparr>) = terminal_ok l"
  "terminal_ok (l\<lparr>dl_attachment := at\<rparr>) = terminal_ok l"
  "terminal_ok (l\<lparr>dl_generation := g\<rparr>) = terminal_ok l"
  "terminal_ok (l\<lparr>dl_failure := f\<rparr>) = terminal_ok l"
  "terminal_ok (l\<lparr>terminal_acked := b\<rparr>) = terminal_ok l"
  by (simp_all add: bytes_ok_def terminal_ok_def split: option.splits)

lemma attachment_ok_frame [simp]:
  "attachment_ok (l\<lparr>dl_failure := f\<rparr>) = attachment_ok l"
  "attachment_ok (l\<lparr>terminal_acked := b\<rparr>) = attachment_ok l"
  by (simp_all add: attachment_ok_def)

lemma attachment_ok_put:
  assumes "attachment_ok l" and "put_control (attachment_queue_maxsize l) (dl_queues l) g m = Inr qs"
    and "dl_queues l g \<noteq> None"
  shows "attachment_ok (l\<lparr>dl_queues := qs\<rparr>)"
  using assms(2)
proof (rule put_controlE)
  fix q
  assume "qs = (dl_queues l)(g \<mapsto> q @ [m])" and "dl_queues l g = Some q \<or> (dl_queues l g = None \<and> q = [])"
    and "0 < attachment_queue_maxsize l \<Longrightarrow> int (length q) < attachment_queue_maxsize l"
  with assms(1,3) show ?thesis by (auto simp: attachment_ok_def)
qed

lemma detach_inv: "ledger_inv l \<Longrightarrow> ledger_inv (fst (ledger_detach g l))"
  by (auto simp: ledger_detach_def ledger_inv_def attachment_ok_def)

lemma detach_open: "ledger_open (fst (ledger_detach g l)) = ledger_open l"
  by (simp add: ledger_detach_def)

lemma terminal_ack_inv: "ledger_inv l \<Longrightarrow> ledger_inv (fst (ledger_terminal_ack g l))"
  by (auto simp: ledger_terminal_ack_def ledger_inv_def split: option.splits)

lemma terminal_ack_open: "ledger_open (fst (ledger_terminal_ack g l)) = ledger_open l"
  by (simp add: ledger_terminal_ack_def split: option.splits)

lemma get_inv: "ledger_inv l \<Longrightarrow> ledger_inv (fst (queue_get g l))"
  by (fastforce simp: queue_get_def ledger_inv_def attachment_ok_def
      split: option.splits list.splits)

lemma get_open: "ledger_open (fst (queue_get g l)) = ledger_open l"
  by (simp add: queue_get_def split: option.splits list.splits)

text \<open>
  The ledger that \<open>attach\<close> leaves once the cursor is accepted: a new generation whose
  queue holds as many of the replayed records as fit.
\<close>

definition attached :: "queue_store \<Rightarrow> delivery_ledger \<Rightarrow> delivery_ledger" where
  "attached qs l = l\<lparr>dl_generation := dl_generation l + 1,
                     dl_attachment := Some (dl_generation l + 1), dl_queues := qs\<rparr>"

definition replay_after :: "int \<Rightarrow> delivery_ledger \<Rightarrow> ledger_message list" where
  "replay_after k l = map Delivery (filter (\<lambda>r. k < delivery_seq r) (dl_records l))"

lemma attach_cases:
  assumes "attachment_ok l" and "ledger_attach k a l = (l', res)"
  obtains (refused) e where "l' = l" and "res = Inl e"
  | (overflow) qs where "l' = attached qs l" and "attachment_ok l'"
      and "res = Inl (LedgerError Attachment_overflow)"
  | (ok) qs where "l' = attached qs l" and "attachment_ok l'" and "res = Inr (dl_generation l + 1)"
      and "0 \<le> k" and "0 \<le> a" and "validate_cursor l k a = None" and "dl_failure l = None"
      and "qs (dl_generation l + 1) = Some (replay_after k l)"
proof -
  let ?g = "dl_generation l + 1"
  let ?mq = "attachment_queue_maxsize l"
  let ?qs0 = "(dl_queues l)(?g \<mapsto> [])"
  let ?fence = "case dl_attachment l of None \<Rightarrow> Inr ?qs0
                | Some o' \<Rightarrow> put_control ?mq ?qs0 o' (AttachmentFence ?g)"
  show thesis
  proof (cases "k < 0 \<or> a < 0 \<or> dl_failure l \<noteq> None \<or> validate_cursor l k a \<noteq> None")
    case True
    then have "\<exists>e. l' = l \<and> res = Inl e"
      using assms(2) by (auto simp: ledger_attach_def split: if_splits option.splits)
    then show thesis by (auto intro: refused)
  next
    case False
    then have eq: "ledger_attach k a l =
        (case ?fence of Inl e \<Rightarrow> (attached ?qs0 l, Inl e)
         | Inr qs \<Rightarrow> (case put_all ?mq qs ?g (replay_after k l) of
              (qs', None) \<Rightarrow> (attached qs' l, Inr ?g)
            | (qs', Some e) \<Rightarrow> (attached qs' l, Inl e)))"
      by (simp add: ledger_attach_def attached_def replay_after_def Let_def
          split: sum.splits option.splits prod.splits)
    have base: "attachment_ok (attached ?qs0 l)"
      using assms(1) by (auto simp: attachment_ok_def attached_def)
    show thesis
    proof (cases ?fence)
      case (Inl e)
      then have "e = LedgerError Attachment_overflow"
        by (auto split: option.splits dest: put_control_Inl)
      with Inl eq assms(2) base show thesis by (intro overflow [of ?qs0]) auto
    next
      case (Inr qs)
      have okq: "attachment_ok (attached qs l)" and new: "qs ?g = Some []"
      proof -
        show "attachment_ok (attached qs l)"
        proof (cases "dl_attachment l")
          case None
          with Inr base show ?thesis by simp
        next
          case (Some o')
          with Inr have "put_control (attachment_queue_maxsize (attached ?qs0 l))
              (dl_queues (attached ?qs0 l)) o' (AttachmentFence ?g) = Inr qs"
            by (simp add: attached_def)
          moreover have "dl_queues (attached ?qs0 l) o' \<noteq> None"
            using assms(1) Some by (auto simp: attachment_ok_def attached_def)
          ultimately have "attachment_ok ((attached ?qs0 l)\<lparr>dl_queues := qs\<rparr>)"
            using base by (intro attachment_ok_put)
          then show ?thesis by (simp add: attached_def)
        qed
        show "qs ?g = Some []"
        proof (cases "dl_attachment l")
          case None
          with Inr show ?thesis by auto
        next
          case (Some o')
          then have "o' \<noteq> ?g" using assms(1) by (auto simp: attachment_ok_def)
          then show ?thesis using Inr Some by (auto elim: put_controlE)
        qed
      qed
      have mq: "0 < ?mq" using assms(1) by (simp add: attachment_ok_def)
      let ?n = "min (length (replay_after k l)) (nat ?mq - length ([] :: ledger_message list))"
      let ?qs1 = "qs(?g \<mapsto> [] @ take ?n (replay_after k l))"
      have pa: "put_all ?mq qs ?g (replay_after k l) =
          (?qs1, if int (length (replay_after k l)) \<le> ?mq then None
                 else Some (LedgerError Attachment_overflow))"
        using put_all_spec [of qs ?g "[]" ?mq "replay_after k l"] new mq by (simp add: Let_def)
      have ok1: "attachment_ok (attached ?qs1 l)"
        using okq mq by (auto simp: attachment_ok_def attached_def)
      show thesis
      proof (cases "int (length (replay_after k l)) \<le> ?mq")
        case True
        then have "?qs1 ?g = Some (replay_after k l)" by auto
        with True eq Inr pa assms(2) ok1 False show thesis
          by (intro ok [of ?qs1]) auto
      next
        case False
        with eq Inr pa assms(2) ok1 show thesis by (intro overflow [of ?qs1]) auto
      qed
    qed
  qed
qed

lemma attached_frame [simp]:
  "records_ok (attached qs l) = records_ok l" "window_ok (attached qs l) = window_ok l"
  "bytes_ok (attached qs l) = bytes_ok l" "terminal_ok (attached qs l) = terminal_ok l"
  "ledger_open (attached qs l) = ledger_open l"
  by (simp_all add: attached_def)

lemma attach_inv:
  assumes "ledger_inv l"
  shows "ledger_inv (fst (ledger_attach k a l))"
proof -
  from assms have "attachment_ok l" by (simp add: ledger_inv_def)
  then show ?thesis
    by (cases "ledger_attach k a l", rule attach_cases [of l k a])
      (use assms in \<open>auto simp: ledger_inv_def\<close>)
qed

lemma attach_open:
  assumes "ledger_inv l"
  shows "ledger_open (fst (ledger_attach k a l)) = ledger_open l"
proof -
  from assms have "attachment_ok l" by (simp add: ledger_inv_def)
  then show ?thesis
    by (cases "ledger_attach k a l", rule attach_cases [of l k a]) auto
qed

text \<open>The ledger with one more record, and the cases of \<open>publish\<close>.\<close>

definition publish_record ::
  "(payload_body \<Rightarrow> nat) \<Rightarrow> session_output \<Rightarrow> int \<times> int \<Rightarrow> delivery_ledger \<Rightarrow> reliable_delivery" where
  "publish_record json_len p rng l =
     \<lparr>delivery_seq = next_delivery_seq l, rd_payload = p, start_sample = fst rng,
      end_sample = snd rng, rd_retained = payload_size json_len p\<rparr>"

definition recorded :: "reliable_delivery \<Rightarrow> delivery_ledger \<Rightarrow> delivery_ledger" where
  "recorded r l =
     l\<lparr>dl_records := dl_records l @ [r], retained_bytes := retained_bytes l + rd_retained r,
       next_delivery_seq := next_delivery_seq l + 1,
       next_audio_sample := max (next_audio_sample l) (end_sample r),
       dl_terminal := (if is_terminal (rd_payload r) then Some (rd_payload r) else dl_terminal l)\<rparr>"

lemma output_range_start:
  "output_range l p = Inr rng \<Longrightarrow> fst rng = next_audio_sample l \<and> fst rng \<le> snd rng"
  by (auto simp: output_range_def split: session_output.splits if_splits sum.splits)

lemma publish_cases:
  assumes "attachment_ok l" and "ledger_publish json_len p l = (l', res)"
  obtains (refused) e where "l' = l" and "res = Inl e"
  | (full) qs e where "l' = l\<lparr>dl_failure := Some buffer_failure, dl_queues := qs\<rparr>"
      and "res = Inl e" and "attachment_ok l'"
      and "\<forall>g. dl_attachment l \<noteq> Some g \<longrightarrow> qs g = dl_queues l g"
      and "\<forall>g q. dl_queues l g = Some q \<longrightarrow>
            qs g = Some q \<or> qs g = Some (q @ [Failure buffer_failure])"
      and "max_buffer_bytes l < retained_bytes l + payload_size json_len p"
  | (overflow) rng g where "output_range l p = Inr rng" and "dl_attachment l = Some g"
      and "l' = recorded (publish_record json_len p rng l) l"
      and "res = Inl (LedgerError Attachment_overflow)"
      and "dl_terminal l = None" and "attachment_ok l'"
      and "retained_bytes l + payload_size json_len p \<le> max_buffer_bytes l"
  | (ok) rng qs where "output_range l p = Inr rng"
      and "l' = (recorded (publish_record json_len p rng l) l)\<lparr>dl_queues := qs\<rparr>"
      and "res = Inr (publish_record json_len p rng l)"
      and "dl_terminal l = None" and "attachment_ok l'"
      and "retained_bytes l + payload_size json_len p \<le> max_buffer_bytes l"
      and "\<forall>g. dl_attachment l \<noteq> Some g \<longrightarrow> qs g = dl_queues l g"
      and "\<forall>g q. dl_attachment l = Some g \<longrightarrow> dl_queues l g = Some q \<longrightarrow>
            qs g = Some (q @ [Delivery (publish_record json_len p rng l)])"
proof (cases "dl_terminal l \<noteq> None \<or> (\<exists>e. output_range l p = Inl e)")
  case True
  then have "\<exists>e. l' = l \<and> res = Inl e"
    using assms(2) by (auto simp: ledger_publish_def split: if_splits)
  then show thesis by (auto intro: refused)
next
  case False
  then obtain rng where noterm: "dl_terminal l = None" and rng: "output_range l p = Inr rng"
    by (cases "output_range l p") auto
  let ?r = "publish_record json_len p rng l"
  let ?mq = "attachment_queue_maxsize l"
  have rec_ok: "attachment_ok (recorded ?r l)"
    using assms(1) by (auto simp: attachment_ok_def recorded_def)
  have queues: "\<exists>q. dl_queues l g = Some q" if "dl_attachment l = Some g" for g
    using assms(1) that by (auto simp: attachment_ok_def)
  show thesis
  proof (cases "max_buffer_bytes l < retained_bytes l + payload_size json_len p")
    case True
    have "\<exists>qs e. l' = l\<lparr>dl_failure := Some buffer_failure, dl_queues := qs\<rparr> \<and> res = Inl e \<and>
      (qs = dl_queues l \<or> (\<exists>g. dl_attachment l = Some g \<and>
         put_control ?mq (dl_queues l) g (Failure buffer_failure) = Inr qs))"
      using assms(2) noterm rng True
      by (auto simp: ledger_publish_def Let_def split: prod.splits option.splits sum.splits
          intro!: exI [of _ "dl_queues l'"])
    then obtain qs e where l': "l' = l\<lparr>dl_failure := Some buffer_failure, dl_queues := qs\<rparr>"
      and res: "res = Inl e" and qs: "qs = dl_queues l \<or> (\<exists>g. dl_attachment l = Some g \<and>
         put_control ?mq (dl_queues l) g (Failure buffer_failure) = Inr qs)"
      by blast
    have "attachment_ok l'"
      using qs assms(1) unfolding l'
      by (auto dest: queues intro: attachment_ok_put [of "l\<lparr>dl_failure := _\<rparr>", simplified])
    with True l' res qs show thesis
      by (intro full [of qs e]) (auto elim!: put_controlE dest: queues)
  next
    case le: False
    show thesis
    proof (cases "dl_attachment l")
      case None
      with noterm rng le assms(2) rec_ok show thesis
        by (intro ok [of rng "dl_queues l"])
          (auto simp: ledger_publish_def Let_def recorded_def publish_record_def
            split: prod.splits)
    next
      case (Some g)
      show thesis
      proof (cases "put_control ?mq (dl_queues l) g (Delivery ?r)")
        case (Inl e)
        then have "e = LedgerError Attachment_overflow"
          by (rule put_control_Inl)
        with Inl noterm rng le assms(2) rec_ok Some show thesis
          by (intro overflow [of rng g])
            (auto simp: ledger_publish_def Let_def recorded_def publish_record_def
              split: prod.splits)
      next
        case (Inr qs)
        then have "attachment_ok ((recorded ?r l)\<lparr>dl_queues := qs\<rparr>)"
          using queues [OF Some]
          by (intro attachment_ok_put [OF rec_ok, of g]) (auto simp: recorded_def)
        moreover have "l' = (recorded ?r l)\<lparr>dl_queues := qs\<rparr>" and "res = Inr ?r"
          using Inr noterm rng le assms(2) Some
          by (auto simp: ledger_publish_def Let_def recorded_def publish_record_def
              split: prod.splits)
        ultimately show thesis
          using Inr noterm rng le Some by (intro ok [of rng qs]) (auto elim!: put_controlE)
      qed
    qed
  qed
qed

lemma payload_size_nonneg [simp]: "0 \<le> payload_size json_len p"
  by (simp add: payload_size_def split: session_output.splits)

lemma recorded_inv:
  assumes inv: "records_ok l" "window_ok l" "bytes_ok l" "terminal_ok l"
    and rng: "output_range l p = Inr rng" and "dl_terminal l = None"
    and "retained_bytes l + payload_size json_len p \<le> max_buffer_bytes l"
  defines "l' \<equiv> recorded (publish_record json_len p rng l) l"
  shows "records_ok l' \<and> window_ok l' \<and> bytes_ok l' \<and> terminal_ok l'"
proof -
  let ?r = "publish_record json_len p rng l"
  have start: "start_sample ?r = next_audio_sample l" "next_audio_sample l \<le> end_sample ?r"
    using output_range_start [OF rng] by (auto simp: publish_record_def)
  have ws: "window_start l' = window_start l"
    using start by (auto simp: l'_def window_start_def recorded_def publish_record_def)
  have wf: "window_first l' = window_first l"
    by (simp add: l'_def window_first_def recorded_def)
  have "records_ok l'"
    using inv(1) start unfolding records_ok_def ws wf
    by (auto simp: l'_def recorded_def window_first_def publish_record_def)
  moreover have "window_ok l'"
    using inv(2) unfolding window_ok_def ws wf by (simp add: l'_def recorded_def)
  moreover have "bytes_ok l'"
    using inv(3) assms(7) by (auto simp: bytes_ok_def l'_def recorded_def publish_record_def)
  moreover have "terminal_ok l'"
    using inv(4) assms(6)
    by (auto simp: terminal_ok_def l'_def recorded_def publish_record_def)
  ultimately show ?thesis by blast
qed

lemma recorded_open:
  assumes "output_range l p = Inr rng"
  shows "ledger_open (recorded (publish_record json_len p rng l) l) = ledger_open l"
  using output_range_start [OF assms]
  by (auto simp: ledger_open_def ledger_window_defs recorded_def publish_record_def)

lemma publish_inv:
  assumes "ledger_inv l"
  shows "ledger_inv (fst (ledger_publish json_len p l))"
proof -
  from assms have at: "attachment_ok l" and parts: "records_ok l" "window_ok l" "bytes_ok l" "terminal_ok l"
    by (simp_all add: ledger_inv_def)
  obtain l' res where pub: "ledger_publish json_len p l = (l', res)" by fastforce
  from at pub show ?thesis
  proof (cases rule: publish_cases)
    case (overflow rng g)
    from recorded_inv [OF parts overflow(1,5,7)] overflow pub show ?thesis
      by (simp add: ledger_inv_def)
  next
    case (ok rng qs)
    from recorded_inv [OF parts ok(1,4,6)] ok pub show ?thesis
      by (simp add: ledger_inv_def)
  qed (use assms pub in \<open>auto simp: ledger_inv_def\<close>)
qed

lemma publish_open:
  assumes "ledger_inv l"
  shows "ledger_open (fst (ledger_publish json_len p l)) = ledger_open l"
proof -
  from assms have at: "attachment_ok l" by (simp add: ledger_inv_def)
  obtain l' res where pub: "ledger_publish json_len p l = (l', res)" by fastforce
  from at pub show ?thesis
    by (cases rule: publish_cases) (auto simp: pub recorded_open)
qed

text \<open>The trimming loop drops a prefix and moves the trim marks to its end.\<close>

lemma trim_loop_spec:
  assumes "consecutive a (map delivery_seq rs)" and "chain s rs" and "taud \<le> s"
    and "trim_loop through audio rs bytes tseq taud = (rs', bytes', tseq', taud')"
  shows "\<exists>n \<le> length rs. rs' = drop n rs \<and> bytes' = bytes - sum_list (map rd_retained (take n rs)) \<and>
    tseq' = (if n = 0 then tseq else a + int n - 1) \<and>
    taud' = (if n = 0 then taud else chain_end s (take n rs))"
  using assms
proof (induction rs arbitrary: a s bytes tseq taud)
  case Nil
  then show ?case by auto
next
  case (Cons r rs)
  show ?case
  proof (cases "through < delivery_seq r \<or> audio < end_sample r")
    case True
    with Cons.prems(4) show ?thesis by (intro exI [of _ 0]) (auto split: if_splits)
  next
    case False
    have me: "max taud (end_sample r) = end_sample r"
      using Cons.prems(2,3) by auto
    have "\<exists>n \<le> length rs. rs' = drop n rs \<and>
        bytes' = bytes - rd_retained r - sum_list (map rd_retained (take n rs)) \<and>
        tseq' = (if n = 0 then delivery_seq r else a + 1 + int n - 1) \<and>
        taud' = (if n = 0 then end_sample r else chain_end (end_sample r) (take n rs))"
      using Cons.prems False me by (intro Cons.IH) (auto split: if_splits)
    then obtain n where n: "n \<le> length rs" "rs' = drop n rs"
        "bytes' = bytes - rd_retained r - sum_list (map rd_retained (take n rs))"
        "tseq' = (if n = 0 then delivery_seq r else a + 1 + int n - 1)"
        "taud' = (if n = 0 then end_sample r else chain_end (end_sample r) (take n rs))"
      by blast
    with Cons.prems(1) show ?thesis by (intro exI [of _ "Suc n"]) auto
  qed
qed

text \<open>With a matching audio cursor the loop stops exactly after the acknowledged record.\<close>

lemma trim_loop_through:
  assumes "consecutive a (map delivery_seq rs)" and "chain s rs"
    and "a - 1 \<le> through" and "through < a + int (length rs)"
    and "audio = chain_end s (take (nat (through + 1 - a)) rs)"
  shows "fst (trim_loop through audio rs bytes tseq taud) = drop (nat (through + 1 - a)) rs"
  using assms
proof (induction rs arbitrary: a s bytes tseq taud)
  case Nil
  then show ?case by simp
next
  case (Cons r rs)
  show ?case
  proof (cases "a \<le> through")
    case True
    then have n: "nat (through + 1 - a) = Suc (nat (through + 1 - (a + 1)))" by simp
    have "chain (end_sample r) (take (nat (through + 1 - (a + 1))) rs)"
      using Cons.prems(2) by (metis append_take_drop_id chain.simps(2) chain_append)
    from chain_end_ge [OF this] have "end_sample r \<le> audio"
      using Cons.prems(5) n by simp
    moreover have "fst (trim_loop through audio rs (bytes - rd_retained r) (delivery_seq r)
        (max taud (end_sample r))) = drop (nat (through + 1 - (a + 1))) rs"
      using Cons.prems True n by (intro Cons.IH) auto
    ultimately show ?thesis using True Cons.prems(1) n by simp
  next
    case False
    then have "nat (through + 1 - a) = 0" by simp
    with False Cons.prems show ?thesis by simp
  qed
qed

definition trimmed :: "nat \<Rightarrow> int \<Rightarrow> int \<Rightarrow> delivery_ledger \<Rightarrow> delivery_ledger" where
  "trimmed n through audio l =
     l\<lparr>acked_delivery_seq := through, acked_audio_sample := audio,
       dl_records := drop n (dl_records l),
       retained_bytes := retained_bytes l - sum_list (map rd_retained (take n (dl_records l))),
       trimmed_through_seq := (if n = 0 then trimmed_through_seq l else window_first l + int n - 1),
       trimmed_audio_sample := (if n = 0 then trimmed_audio_sample l
          else chain_end (window_start l) (take n (dl_records l)))\<rparr>"

lemma acknowledge_cases:
  assumes "ledger_inv l" and "ledger_acknowledge g through audio l = (l', res)"
  obtains (refused) e where "l' = l" and "res = Inl e"
  | (stale) "l' = l" and "res = Inr ()" and "through \<le> acked_delivery_seq l"
      and "audio \<le> acked_audio_sample l" and "dl_attachment l = Some g"
  | (ok) n where "l' = trimmed n through audio l" and "res = Inr ()"
      and "n \<le> length (dl_records l)" and "validate_cursor l through audio = None"
      and "acked_delivery_seq l \<le> through" and "acked_audio_sample l \<le> audio"
      and "dl_attachment l = Some g" and "0 \<le> through"
      and "dl_records l' = fst (trim_loop through audio (dl_records l) (retained_bytes l)
             (trimmed_through_seq l) (trimmed_audio_sample l))"
proof -
  note ack = assms(2) [unfolded ledger_acknowledge_def require_generation_def]
  consider (neg) "through < 0 \<or> audio < 0"
    | (fenced) "\<not> (through < 0 \<or> audio < 0)" "dl_attachment l \<noteq> Some g"
    | (old) "\<not> (through < 0 \<or> audio < 0)" "dl_attachment l = Some g"
        "through \<le> acked_delivery_seq l \<and> audio \<le> acked_audio_sample l"
    | (bad) e where "\<not> (through < 0 \<or> audio < 0)" "dl_attachment l = Some g"
        "\<not> (through \<le> acked_delivery_seq l \<and> audio \<le> acked_audio_sample l)"
        "validate_cursor l through audio = Some e \<or> through < acked_delivery_seq l \<or>
         audio < acked_audio_sample l"
    | (good) "\<not> (through < 0 \<or> audio < 0)" "dl_attachment l = Some g"
        "\<not> (through \<le> acked_delivery_seq l \<and> audio \<le> acked_audio_sample l)"
        "validate_cursor l through audio = None" "\<not> through < acked_delivery_seq l"
        "\<not> audio < acked_audio_sample l"
    by (cases "validate_cursor l through audio") blast+
  then show thesis
  proof cases
    case neg
    with ack show thesis by (intro refused) auto
  next
    case fenced
    with ack show thesis by (intro refused) auto
  next
    case old
    with ack show thesis by (intro stale) auto
  next
    case bad
    then have "\<exists>e. l' = l \<and> res = Inl e"
      using ack by (cases "validate_cursor l through audio") (auto split: if_splits)
    then show thesis by (auto intro: refused)
  next
    case good
    obtain rs bytes tseq taud where tl: "trim_loop through audio (dl_records l) (retained_bytes l)
        (trimmed_through_seq l) (trimmed_audio_sample l) = (rs, bytes, tseq, taud)"
      by (metis prod_cases4)
    from assms(1) have "consecutive (window_first l) (map delivery_seq (dl_records l))"
      and "chain (window_start l) (dl_records l)" and "trimmed_audio_sample l \<le> window_start l"
      by (auto simp: ledger_inv_def records_ok_def window_ok_def)
    from trim_loop_spec [OF this tl] obtain n where n: "n \<le> length (dl_records l)"
        "rs = drop n (dl_records l)"
        "bytes = retained_bytes l - sum_list (map rd_retained (take n (dl_records l)))"
        "tseq = (if n = 0 then trimmed_through_seq l else window_first l + int n - 1)"
        "taud = (if n = 0 then trimmed_audio_sample l
                 else chain_end (window_start l) (take n (dl_records l)))"
      by blast
    have "ledger_acknowledge g through audio l =
        (l\<lparr>acked_delivery_seq := through, acked_audio_sample := audio, dl_records := rs,
           retained_bytes := bytes, trimmed_through_seq := tseq, trimmed_audio_sample := taud\<rparr>, Inr ())"
      unfolding ledger_acknowledge_def require_generation_def using good tl by auto
    with assms(2) n have "l' = trimmed n through audio l" and "res = Inr ()"
      by (auto simp: trimmed_def)
    moreover have "dl_records (trimmed n through audio l) = rs" using n by (simp add: trimmed_def)
    ultimately show thesis using good tl n by (intro ok [of n]) simp_all
  qed
qed

lemma trimmed_window:
  assumes "records_ok l" and "n \<le> length (dl_records l)"
  shows "window_first (trimmed n through audio l) = window_first l + int n"
    and "window_start (trimmed n through audio l) = chain_end (window_start l) (take n (dl_records l))"
proof -
  show "window_first (trimmed n through audio l) = window_first l + int n"
    using assms(2) by (simp add: window_first_def trimmed_def)
  have "chain (chain_end (window_start l) (take n (dl_records l))) (drop n (dl_records l))"
    using assms(1) by (intro chain_drop) (simp add: records_ok_def)
  moreover have "chain_end (chain_end (window_start l) (take n (dl_records l))) (drop n (dl_records l))
      = next_audio_sample l"
    using assms(1) by (simp add: records_ok_def)
  ultimately show "window_start (trimmed n through audio l) = chain_end (window_start l) (take n (dl_records l))"
    by (cases "drop n (dl_records l)") (auto simp: window_start_def trimmed_def)
qed

lemma trimmed_inv:
  assumes inv: "ledger_inv l" and n: "n \<le> length (dl_records l)"
  shows "ledger_inv (trimmed n through audio l)"
proof -
  let ?l = "trimmed n through audio l"
  have rec: "records_ok l" and win: "window_ok l" and byt: "bytes_ok l"
    and att: "attachment_ok l" and ter: "terminal_ok l"
    using inv by (simp_all add: ledger_inv_def)
  note w = trimmed_window [OF rec n]
  have "records_ok ?l"
  proof -
    have "consecutive (window_first l + int n) (map delivery_seq (drop n (dl_records l)))"
      using rec n consecutive_drop [of "window_first l" "map delivery_seq (dl_records l)" n]
      by (simp add: records_ok_def drop_map)
    moreover have "chain (window_start ?l) (drop n (dl_records l))"
        "chain_end (window_start ?l) (drop n (dl_records l)) = next_audio_sample l"
      using rec unfolding w by (auto simp: records_ok_def intro: chain_drop)
    ultimately show ?thesis unfolding records_ok_def w(1) by (simp add: trimmed_def)
  qed
  moreover have "window_ok ?l"
  proof -
    have "chain (window_start l) (take n (dl_records l))"
      using rec by (auto simp: records_ok_def intro: chain_take)
    from chain_end_ge [OF this] win show ?thesis
      unfolding window_ok_def w by (auto simp: trimmed_def)
  qed
  moreover have "bytes_ok ?l"
  proof -
    have "sum_list (map rd_retained (dl_records l)) =
        sum_list (map rd_retained (take n (dl_records l))) + sum_list (map rd_retained (drop n (dl_records l)))"
      by (metis append_take_drop_id map_append sum_list_append)
    moreover have "0 \<le> sum_list (map rd_retained (take n (dl_records l)))"
      using byt by (intro sum_list_nonneg) (auto simp: bytes_ok_def dest: in_set_takeD)
    ultimately show ?thesis using byt
      by (auto simp: bytes_ok_def trimmed_def dest: in_set_dropD)
  qed
  moreover have "attachment_ok ?l"
    using att by (simp add: attachment_ok_def trimmed_def)
  moreover have "terminal_ok ?l"
    using ter by (auto simp: terminal_ok_def trimmed_def butlast_drop drop_butlast [symmetric]
        split: option.splits dest: in_set_dropD)
  ultimately show ?thesis by (simp add: ledger_inv_def)
qed

lemma acknowledge_inv:
  assumes "ledger_inv l"
  shows "ledger_inv (fst (ledger_acknowledge g through audio l))"
proof -
  obtain l' res where ack: "ledger_acknowledge g through audio l = (l', res)" by fastforce
  from assms ack show ?thesis
    by (cases rule: acknowledge_cases) (auto simp: ack assms trimmed_inv)
qed

lemma acknowledge_open:
  assumes "ledger_inv l" and "ledger_open l"
  shows "ledger_open (fst (ledger_acknowledge g through audio l))"
proof -
  obtain l' res where ack: "ledger_acknowledge g through audio l = (l', res)" by fastforce
  have rec: "records_ok l" using assms(1) by (simp add: ledger_inv_def)
  from assms(1) ack show ?thesis
  proof (cases rule: acknowledge_cases)
    case (ok n)
    have "ledger_open (trimmed n through audio l)"
      using assms(2) unfolding ledger_open_def trimmed_window [OF rec ok(3)]
      by (auto simp: trimmed_def)
    with ok(1) ack show ?thesis by simp
  qed (use ack assms in auto)
qed

lemma close_inv:
  assumes "ledger_inv l"
  shows "ledger_inv (fst (ledger_close fence l))"
proof -
  let ?l1 = "l\<lparr>dl_attachment := None, dl_records := [], retained_bytes := 0\<rparr>"
  have parts: "records_ok ?l1 \<and> window_ok ?l1 \<and> bytes_ok ?l1 \<and> terminal_ok ?l1"
    using assms chain_end_ge [of "window_start l" "dl_records l"]
    by (auto simp: ledger_inv_def records_ok_def window_ok_def bytes_ok_def terminal_ok_def
        ledger_window_defs split: option.splits)
  have att: "attachment_ok ?l1" using assms by (auto simp: ledger_inv_def attachment_ok_def)
  have "attachment_ok (?l1\<lparr>dl_queues := qs\<rparr>)"
    if "dl_attachment l = Some g"
      "put_control (attachment_queue_maxsize l) (dl_queues l) g (AttachmentFence (dl_generation l + 1)) = Inr qs"
    for g qs
    using assms that
    by (intro attachment_ok_put [OF att, of g]) (auto simp: ledger_inv_def attachment_ok_def)
  with parts att show ?thesis
    by (auto simp: ledger_close_def ledger_inv_def Let_def split: option.splits sum.splits)
qed

section \<open>Runs of the ledger\<close>

datatype ledger_op =
    Attach int int
  | Detach int
  | Publish session_output
  | Acknowledge int int int
  | TerminalAck int
  | Get int
  | Close bool

fun ledger_exec :: "(payload_body \<Rightarrow> nat) \<Rightarrow> ledger_op \<Rightarrow> delivery_ledger \<Rightarrow> delivery_ledger" where
  "ledger_exec jl (Attach k a) l = fst (ledger_attach k a l)"
| "ledger_exec jl (Detach g) l = fst (ledger_detach g l)"
| "ledger_exec jl (Publish p) l = fst (ledger_publish jl p l)"
| "ledger_exec jl (Acknowledge g k a) l = fst (ledger_acknowledge g k a l)"
| "ledger_exec jl (TerminalAck g) l = fst (ledger_terminal_ack g l)"
| "ledger_exec jl (Get g) l = fst (queue_get g l)"
| "ledger_exec jl (Close fence) l = fst (ledger_close fence l)"

fun is_close :: "ledger_op \<Rightarrow> bool" where
  "is_close (Close _) = True"
| "is_close _ = False"

lemma ledger_exec_inv: "ledger_inv l \<Longrightarrow> ledger_inv (ledger_exec jl op l)"
  by (cases op)
    (simp_all add: attach_inv detach_inv publish_inv acknowledge_inv terminal_ack_inv get_inv close_inv)

lemma ledger_exec_open:
  "ledger_inv l \<Longrightarrow> ledger_open l \<Longrightarrow> \<not> is_close op \<Longrightarrow> ledger_open (ledger_exec jl op l)"
  by (cases op)
    (simp_all add: attach_open detach_open publish_open acknowledge_open terminal_ack_open get_open)

lemma ledger_run_open:
  "ledger_inv l \<Longrightarrow> ledger_open l \<Longrightarrow> \<forall>op \<in> set ops. \<not> is_close op \<Longrightarrow>
   ledger_open (fold (ledger_exec jl) ops l)"
  by (induction ops arbitrary: l) (simp_all add: ledger_exec_inv ledger_exec_open)

lemma attach_marks:
  assumes "ledger_inv l"
  shows "dl_generation l \<le> dl_generation (fst (ledger_attach k a l)) \<and>
    next_delivery_seq (fst (ledger_attach k a l)) = next_delivery_seq l"
proof -
  obtain l' res where at: "ledger_attach k a l = (l', res)" by fastforce
  have "attachment_ok l" using assms by (simp add: ledger_inv_def)
  from this at show ?thesis by (cases rule: attach_cases) (simp_all add: at attached_def)
qed

lemma publish_marks:
  assumes "ledger_inv l"
  shows "dl_generation (fst (ledger_publish jl p l)) = dl_generation l \<and>
    next_delivery_seq l \<le> next_delivery_seq (fst (ledger_publish jl p l))"
proof -
  obtain l' res where pub: "ledger_publish jl p l = (l', res)" by fastforce
  have "attachment_ok l" using assms by (simp add: ledger_inv_def)
  from this pub show ?thesis by (cases rule: publish_cases) (simp_all add: pub recorded_def)
qed

lemma acknowledge_marks:
  assumes "ledger_inv l"
  shows "dl_generation (fst (ledger_acknowledge g k a l)) = dl_generation l \<and>
    next_delivery_seq (fst (ledger_acknowledge g k a l)) = next_delivery_seq l"
proof -
  obtain l' res where ack: "ledger_acknowledge g k a l = (l', res)" by fastforce
  from assms ack show ?thesis by (cases rule: acknowledge_cases) (simp_all add: ack trimmed_def)
qed

lemma other_marks:
  "dl_generation (fst (ledger_detach g l)) = dl_generation l"
  "next_delivery_seq (fst (ledger_detach g l)) = next_delivery_seq l"
  "dl_generation (fst (ledger_terminal_ack g l)) = dl_generation l"
  "next_delivery_seq (fst (ledger_terminal_ack g l)) = next_delivery_seq l"
  "dl_generation (fst (queue_get g l)) = dl_generation l"
  "next_delivery_seq (fst (queue_get g l)) = next_delivery_seq l"
  "dl_generation (fst (ledger_close b l)) = dl_generation l"
  "next_delivery_seq (fst (ledger_close b l)) = next_delivery_seq l"
  by (simp_all add: ledger_detach_def ledger_terminal_ack_def queue_get_def ledger_close_def Let_def
      split: option.split list.split sum.split)

lemma ledger_exec_generation: "ledger_inv l \<Longrightarrow> dl_generation l \<le> dl_generation (ledger_exec jl op l)"
  by (cases op) (simp_all add: attach_marks publish_marks acknowledge_marks other_marks)

lemma ledger_exec_next_seq:
  "ledger_inv l \<Longrightarrow> next_delivery_seq l \<le> next_delivery_seq (ledger_exec jl op l)"
  by (cases op) (simp_all add: attach_marks publish_marks acknowledge_marks other_marks)

text \<open>
  The two interfaces: generations only grow (so a fenced transport stays fenced), and
  delivery numbers are never reused.
\<close>

interpretation generations: watermark_system "ledger_exec jl" ledger_inv dl_generation
  by unfold_locales (auto intro: ledger_exec_inv ledger_exec_generation)

interpretation delivery_numbers: watermark_system "ledger_exec jl" ledger_inv next_delivery_seq
  by unfold_locales (auto intro: ledger_exec_next_seq)

end
