(* ===== verification/Delivery_Stream.thy ===== *)
theory Delivery_Stream
  imports Delivery_Ledger
begin

text \<open>
  What a client that attaches to the ledger of \<open>engine/session/reliability.py\<close> gets to
  see: the stream of its own queue, read while publishers, other attachments and
  acknowledgements go on. The theory shows that the stream continues the client's cursor
  without a gap or a repetition, that acknowledgements trim exactly what was acknowledged
  and that the terminal output is unique and last.
\<close>

section \<open>What an attachment receives\<close>

fun deliveries :: "ledger_message list \<Rightarrow> reliable_delivery list" where
  "deliveries [] = []"
| "deliveries (Delivery r # ms) = r # deliveries ms"
| "deliveries (_ # ms) = deliveries ms"

lemma deliveries_append [simp]: "deliveries (xs @ ys) = deliveries xs @ deliveries ys"
  by (induction xs rule: deliveries.induct) auto

lemma deliveries_map [simp]: "deliveries (map Delivery rs) = rs"
  by (induction rs) auto

definition queue_of :: "int \<Rightarrow> delivery_ledger \<Rightarrow> ledger_message list" where
  "queue_of g l = (case dl_queues l g of None \<Rightarrow> [] | Some q \<Rightarrow> q)"

text \<open>The messages the transport of generation \<open>g\<close> takes from its queue during a run.\<close>

fun observed ::
  "(payload_body \<Rightarrow> nat) \<Rightarrow> int \<Rightarrow> ledger_op list \<Rightarrow> delivery_ledger \<Rightarrow> ledger_message list" where
  "observed jl g [] l = []"
| "observed jl g (op # ops) l =
     (if op = Get g then (case snd (queue_get g l) of Some m \<Rightarrow> [m] | None \<Rightarrow> []) else [])
     @ observed jl g ops (ledger_exec jl op l)"

text \<open>No \<open>publish\<close> of the run found the queue of the current attachment full.\<close>

fun no_overflow ::
  "(payload_body \<Rightarrow> nat) \<Rightarrow> ledger_op list \<Rightarrow> delivery_ledger \<Rightarrow> bool" where
  "no_overflow jl [] l = True"
| "no_overflow jl (op # ops) l =
     ((case op of Publish p \<Rightarrow> (case snd (ledger_publish jl p l) of
                                 Inl e \<Rightarrow> e \<noteq> LedgerError Attachment_overflow | Inr _ \<Rightarrow> True)
       | _ \<Rightarrow> True)
      \<and> no_overflow jl ops (ledger_exec jl op l))"

lemma find_consecutive:
  "consecutive a (map delivery_seq rs) \<Longrightarrow> a \<le> k \<Longrightarrow> k < a + int (length rs) \<Longrightarrow>
   find (\<lambda>r. delivery_seq r = k) rs = Some (rs ! nat (k - a))"
proof (induction rs arbitrary: a)
  case Nil
  then show ?case by simp
next
  case (Cons r rs)
  show ?case
  proof (cases "a = k")
    case True
    with Cons.prems show ?thesis by simp
  next
    case False
    with Cons.prems have "nat (k - a) = Suc (nat (k - (a + 1)))" by simp
    with False Cons show ?thesis by simp
  qed
qed

lemma chain_end_take_Suc: "i < length rs \<Longrightarrow> chain_end s (take (Suc i) rs) = end_sample (rs ! i)"
  by (simp add: take_Suc_conv_app_nth)

text \<open>
  On an open ledger a cursor is valid exactly when its sequence number is the last trimmed
  one or a retained one and its sample is where that record ends.
\<close>

lemma validate_cursor_None:
  "validate_cursor l k a = None \<longleftrightarrow>
     k \<le> next_delivery_seq l - 1 \<and> a \<le> next_audio_sample l \<and>
     trimmed_through_seq l \<le> k \<and> trimmed_audio_sample l \<le> a \<and>
     (if k = trimmed_through_seq l then Some (trimmed_audio_sample l)
      else map_option end_sample (find_record l k)) = Some a"
  unfolding validate_cursor_def by (auto split: option.split if_splits)

lemma validate_cursor_iff:
  assumes inv: "ledger_inv l" and op: "ledger_open l"
  shows "validate_cursor l k a = None \<longleftrightarrow>
    window_first l - 1 \<le> k \<and> k < next_delivery_seq l \<and>
    a = chain_end (window_start l) (take (nat (k + 1 - window_first l)) (dl_records l))"
    (is "_ \<longleftrightarrow> ?low \<and> ?high \<and> a = ?at")
proof (cases "?low \<and> ?high")
  case False
  then show ?thesis using op by (auto simp: validate_cursor_None ledger_open_def)
next
  case bounds: True
  have con: "consecutive (window_first l) (map delivery_seq (dl_records l))"
    and ch: "chain (window_start l) (dl_records l)"
    and ce: "chain_end (window_start l) (dl_records l) = next_audio_sample l"
    using inv by (auto simp: ledger_inv_def records_ok_def)
  have at_le: "?at \<le> next_audio_sample l"
    using chain_end_ge [OF chain_drop [OF ch, of "nat (k + 1 - window_first l)"]] ce by simp
  have at_ge: "trimmed_audio_sample l \<le> ?at"
    using chain_end_ge [OF chain_take [OF ch, of "nat (k + 1 - window_first l)"]] op
    by (simp add: ledger_open_def)
  have lo: "trimmed_through_seq l \<le> k" using bounds op by (simp add: ledger_open_def)
  have "(if k = trimmed_through_seq l then Some (trimmed_audio_sample l)
         else map_option end_sample (find_record l k)) = Some ?at"
  proof (cases "k = trimmed_through_seq l")
    case True
    then have "nat (k + 1 - window_first l) = 0" using op by (simp add: ledger_open_def)
    with True show ?thesis using op by (simp add: ledger_open_def)
  next
    case False
    define i where "i = nat (k - window_first l)"
    have wk: "window_first l \<le> k" and kw: "k < window_first l + int (length (dl_records l))"
      using False bounds op by (auto simp: ledger_open_def window_first_def)
    then have i: "nat (k + 1 - window_first l) = Suc i" "i < length (dl_records l)"
      by (auto simp: i_def)
    have "find_record l k = Some (dl_records l ! i)"
      using find_consecutive [OF con wk kw] by (simp add: find_record_def i_def)
    with False i show ?thesis by (simp add: chain_end_take_Suc)
  qed
  then show ?thesis using at_le at_ge lo bounds unfolding validate_cursor_None by auto
qed

lemma replay_after_drop:
  assumes "ledger_inv l" and "window_first l - 1 \<le> k" and "k < next_delivery_seq l"
  shows "replay_after k l = map Delivery (drop (nat (k + 1 - window_first l)) (dl_records l))"
proof -
  have con: "consecutive (window_first l) (map delivery_seq (dl_records l))"
    using assms(1) by (auto simp: ledger_inv_def records_ok_def)
  have "filter (\<lambda>r. k < delivery_seq r) rs = drop (nat (k + 1 - a)) rs"
    if "consecutive a (map delivery_seq rs)" "a - 1 \<le> k" "k < a + int (length rs)" for rs a
    using that
  proof (induction rs arbitrary: a)
    case (Cons r rs)
    show ?case
    proof (cases "a \<le> k")
      case True
      then have n: "nat (k + 1 - a) = Suc (nat (k + 1 - (a + 1)))" by simp
      have "filter (\<lambda>r. k < delivery_seq r) rs = drop (nat (k + 1 - (a + 1))) rs"
        using Cons.prems True by (intro Cons.IH) auto
      with True Cons.prems(1) n show ?thesis by simp
    next
      case False
      then have "\<forall>r' \<in> set rs. k < delivery_seq r'"
        using Cons.prems by (fastforce dest: consecutive_bounds)
      with False Cons.prems show ?thesis by simp
    qed
  qed simp
  from this [OF con assms(2)] assms(3) show ?thesis
    by (simp add: replay_after_def window_first_def)
qed

section \<open>The log of everything published\<close>

text \<open>
  The abstract view of a ledger is the log of all records it ever accepted. \<open>log_step\<close> is
  what one operation appends to it: a publish that got past the checks appends its record,
  also when putting it on the attachment's queue fails afterwards.
\<close>

definition log_step ::
  "(payload_body \<Rightarrow> nat) \<Rightarrow> ledger_op \<Rightarrow> delivery_ledger \<Rightarrow> reliable_delivery list" where
  "log_step jl op l =
     (case op of
        Publish p \<Rightarrow> drop (length (dl_records l)) (dl_records (ledger_exec jl op l))
      | _ \<Rightarrow> [])"

fun published ::
  "(payload_body \<Rightarrow> nat) \<Rightarrow> ledger_op list \<Rightarrow> delivery_ledger \<Rightarrow> reliable_delivery list" where
  "published jl [] l = []"
| "published jl (op # ops) l = log_step jl op l @ published jl ops (ledger_exec jl op l)"

text \<open>The ledger as a window on the log: its records are what follows the trimmed part.\<close>

definition log_ok :: "reliable_delivery list \<Rightarrow> delivery_ledger \<Rightarrow> bool" where
  "log_ok log l \<longleftrightarrow>
     int (length log) + 1 = next_delivery_seq l \<and>
     dl_records l = drop (nat (window_first l - 1)) log \<and> 1 \<le> window_first l \<and>
     consecutive 1 (map delivery_seq log) \<and> chain 0 log \<and> chain_end 0 log = next_audio_sample l"

lemma new_log_ok: "new_ledger tok fp proto mb mq = Inr l \<Longrightarrow> log_ok [] l"
  by (auto simp: new_ledger_def log_ok_def window_first_def split: if_splits)

lemma log_ok_frame:
  assumes "log_ok log l" and "dl_records l' = dl_records l"
    and "next_delivery_seq l' = next_delivery_seq l" and "next_audio_sample l' = next_audio_sample l"
  shows "log_ok log l'"
  using assms by (simp add: log_ok_def window_first_def)

lemma log_ok_drop:
  assumes "log_ok log l" and "dl_records l' = drop n (dl_records l)" and "n \<le> length (dl_records l)"
    and "next_delivery_seq l' = next_delivery_seq l" and "next_audio_sample l' = next_audio_sample l"
  shows "log_ok log l'"
proof -
  have w: "window_first l' = window_first l + int n"
    using assms by (simp add: window_first_def)
  then have "nat (window_first l' - 1) = nat (window_first l - 1) + n"
    using assms(1) unfolding log_ok_def by arith
  then show ?thesis using assms w by (simp add: log_ok_def add.commute)
qed

lemma log_ok_record:
  fixes jl :: "payload_body \<Rightarrow> nat"
  assumes "log_ok log l" and "output_range l p = Inr rng"
  defines "r \<equiv> publish_record jl p rng l"
  assumes "dl_records l' = dl_records l @ [r]"
    and "next_delivery_seq l' = next_delivery_seq l + 1"
    and "next_audio_sample l' = max (next_audio_sample l) (end_sample r)"
  shows "log_ok (log @ [r]) l'"
proof -
  have r: "delivery_seq r = next_delivery_seq l" "start_sample r = next_audio_sample l"
    "next_audio_sample l \<le> end_sample r"
    using output_range_start [OF assms(2)] by (simp_all add: r_def publish_record_def)
  have w: "window_first l' = window_first l" using assms by (simp add: window_first_def)
  have "nat (window_first l - 1) \<le> length log"
    using assms(1) unfolding log_ok_def window_first_def by arith
  then show ?thesis using assms(1) assms(4-) r w by (auto simp: log_ok_def)
qed

lemma publish_log:
  assumes inv: "ledger_inv l" and log: "log_ok log l"
  shows "log_ok (log @ log_step jl (Publish p) l) (fst (ledger_publish jl p l))"
proof -
  obtain l' res where pub: "ledger_publish jl p l = (l', res)" by fastforce
  have "attachment_ok l" using inv by (simp add: ledger_inv_def)
  from this pub show ?thesis
  proof (cases rule: publish_cases)
    case (overflow rng g)
    from log_ok_record [OF log overflow(1), of l' jl] overflow pub show ?thesis
      by (simp add: log_step_def recorded_def)
  next
    case (ok rng qs)
    from log_ok_record [OF log ok(1), of l' jl] ok pub show ?thesis
      by (simp add: log_step_def recorded_def)
  qed (use log pub in \<open>auto simp: log_step_def intro!: log_ok_frame [OF log]\<close>)
qed

lemma attach_log:
  assumes inv: "ledger_inv l" and log: "log_ok log l"
  shows "log_ok log (fst (ledger_attach k a l))"
proof -
  obtain l' res where at: "ledger_attach k a l = (l', res)" by fastforce
  have "attachment_ok l" using inv by (simp add: ledger_inv_def)
  from this at show ?thesis
    by (cases rule: attach_cases) (auto simp: at attached_def log intro!: log_ok_frame [OF log])
qed

lemma acknowledge_log:
  assumes inv: "ledger_inv l" and log: "log_ok log l"
  shows "log_ok log (fst (ledger_acknowledge g t a l))"
proof -
  obtain l' res where ack: "ledger_acknowledge g t a l = (l', res)" by fastforce
  from inv ack show ?thesis
  proof (cases rule: acknowledge_cases)
    case (ok n)
    then show ?thesis by (intro log_ok_drop [OF log, where n = n]) (simp_all add: ack trimmed_def)
  qed (simp_all add: ack log)
qed

lemma close_log:
  assumes "log_ok log l"
  shows "log_ok log (fst (ledger_close fence l))"
  by (rule log_ok_drop [OF assms, where n = "length (dl_records l)"])
    (simp_all add: ledger_close_def Let_def split: option.split sum.split)

lemma exec_log:
  assumes "ledger_inv l" and "log_ok log l"
  shows "log_ok (log @ log_step jl op l) (ledger_exec jl op l)"
proof (cases op)
  case (Detach g)
  with assms(2) show ?thesis
    by (auto simp: log_step_def ledger_detach_def intro!: log_ok_frame [OF assms(2)])
next
  case (TerminalAck g)
  with assms(2) show ?thesis
    by (auto simp: log_step_def ledger_terminal_ack_def split: option.split intro!: log_ok_frame [OF assms(2)])
next
  case (Get g)
  with assms(2) show ?thesis
    by (auto simp: log_step_def queue_get_def split: option.split list.split intro!: log_ok_frame [OF assms(2)])
next
  case (Publish p)
  with publish_log [OF assms, of jl p] show ?thesis by simp
qed (use assms in \<open>simp_all add: log_step_def attach_log acknowledge_log close_log\<close>)

lemma run_log:
  "ledger_inv l \<Longrightarrow> log_ok log l \<Longrightarrow>
   log_ok (log @ published jl ops l) (fold (ledger_exec jl) ops l)"
proof (induction ops arbitrary: log l)
  case (Cons op ops)
  from Cons.IH [OF ledger_exec_inv [OF Cons.prems(1)] exec_log [OF Cons.prems]]
  show ?case by simp
qed simp

section \<open>The stream of one attachment\<close>

text \<open>
  What generation \<open>g\<close>, attached at delivery \<open>k\<close>, took or still finds in its queue is a prefix
  of the log after \<open>k\<close>, and all of it as long as \<open>g\<close> is the current attachment.
\<close>

definition stream_ok ::
  "int \<Rightarrow> int \<Rightarrow> reliable_delivery list \<Rightarrow> ledger_message list \<Rightarrow> delivery_ledger \<Rightarrow> bool" where
  "stream_ok k g log seen l \<longleftrightarrow>
     g \<le> dl_generation l \<and> nat k \<le> length log \<and>
     (\<exists>zs. drop (nat k) log = deliveries (seen @ queue_of g l) @ zs \<and>
           (dl_attachment l = Some g \<longrightarrow> zs = []))"

lemma attach_stream_ok:
  assumes inv: "ledger_inv l" and op: "ledger_open l" and log: "log_ok log l"
    and at: "ledger_attach k a l = (l1, Inr g)"
  shows "stream_ok k g log [] l1 \<and> a = chain_end 0 (take (nat k) log) \<and> 0 \<le> k"
proof -
  have "attachment_ok l" using inv by (simp add: ledger_inv_def)
  from this at show ?thesis
  proof (cases rule: attach_cases)
    case (ok qs)
    let ?n = "nat (k + 1 - window_first l)"
    from ok(6) have b: "window_first l - 1 \<le> k" "k < next_delivery_seq l"
      and a: "a = chain_end (window_start l) (take ?n (dl_records l))"
      by (simp_all add: validate_cursor_iff [OF inv op])
    let ?w = "nat (window_first l - 1)"
    have k: "nat k = ?w + ?n" "nat k \<le> length log" using b log by (auto simp: log_ok_def)
    have rec: "dl_records l = drop ?w log" and ch: "chain 0 log"
      and ce: "chain_end 0 log = next_audio_sample l" using log by (simp_all add: log_ok_def)
    have q: "queue_of g l1 = map Delivery (drop (nat k) log)"
      using ok(1,3,8) replay_after_drop [OF inv b] rec k(1)
      by (simp add: queue_of_def attached_def add.commute)
    have ws: "window_start l = chain_end 0 (take ?w log)"
      using chain_drop [OF ch, of ?w] rec ce chain_end_split [of 0 ?w log]
      by (cases "drop ?w log") (auto simp: window_start_def)
    have "take (nat k) log = take ?w log @ take ?n (dl_records l)"
      unfolding rec k(1) by (rule take_add)
    with a ws have "a = chain_end 0 (take (nat k) log)" by simp
    then show ?thesis using ok k(2) q by (auto simp: stream_ok_def attached_def)
  qed auto
qed

text \<open>A step that publishes nothing and moves no delivery keeps a stream intact.\<close>

lemma stream_ok_frame:
  assumes "stream_ok k g log seen l"
    and "deliveries (seen' @ queue_of g l') = deliveries (seen @ queue_of g l)"
    and "dl_generation l \<le> dl_generation l'"
    and "dl_attachment l' = Some g \<Longrightarrow> dl_attachment l = Some g"
  shows "stream_ok k g log seen' l'"
  using assms unfolding stream_ok_def by auto

lemma get_stream_ok:
  assumes "stream_ok k g log seen l"
  shows "stream_ok k g log
    (seen @ (if g' = g then (case snd (queue_get g l) of Some m \<Rightarrow> [m] | None \<Rightarrow> []) else []))
    (fst (queue_get g' l))"
proof (rule stream_ok_frame [OF assms])
  show "deliveries ((seen @ (if g' = g then (case snd (queue_get g l) of Some m \<Rightarrow> [m] | None \<Rightarrow> []) else []))
      @ queue_of g (fst (queue_get g' l))) = deliveries (seen @ queue_of g l)"
    by (rule arg_cong [where f = deliveries])
      (auto simp: queue_get_def queue_of_def split: option.splits list.splits)
qed (auto simp: queue_get_def split: option.splits list.splits)

lemma put_control_deliveries:
  assumes "put_control maxq (dl_queues l) g' m = Inr qs" and "deliveries [m] = []"
  shows "deliveries (queue_of g (l\<lparr>dl_queues := qs\<rparr>)) = deliveries (queue_of g l)"
  using assms(1)
proof (rule put_controlE)
  fix q
  assume "qs = (dl_queues l)(g' \<mapsto> q @ [m])"
    and "dl_queues l g' = Some q \<or> (dl_queues l g' = None \<and> q = [])"
  with assms(2) show ?thesis by (auto simp: queue_of_def)
qed

text \<open>A newer attachment only adds its fence to the queue of an older one.\<close>

lemma attach_other_deliveries:
  assumes "g \<le> dl_generation l"
  shows "deliveries (queue_of g (fst (ledger_attach k a l))) = deliveries (queue_of g l)"
proof -
  let ?g = "dl_generation l + 1"
  let ?qs0 = "(dl_queues l)(?g \<mapsto> [])"
  let ?fence = "case dl_attachment l of None \<Rightarrow> Inr ?qs0
                | Some o' \<Rightarrow> put_control (attachment_queue_maxsize l) ?qs0 o' (AttachmentFence ?g)"
  have ne: "g \<noteq> ?g" using assms by simp
  have q0: "queue_of g (l\<lparr>dl_queues := ?qs0\<rparr>) = queue_of g l" using ne by (simp add: queue_of_def)
  have fence: "deliveries (queue_of g (l\<lparr>dl_queues := qs\<rparr>)) = deliveries (queue_of g l)"
    if "?fence = Inr qs" for qs
    using that put_control_deliveries [of "attachment_queue_maxsize l" "l\<lparr>dl_queues := ?qs0\<rparr>" _ _ qs g] q0
    by (auto split: option.splits)
  have "queue_of g (l\<lparr>dl_queues := fst (put_all mq qs ?g ms)\<rparr>) = queue_of g (l\<lparr>dl_queues := qs\<rparr>)"
    for mq qs ms
    using put_all_other [OF ne] by (simp add: queue_of_def)
  then have rep: "deliveries (queue_of g (l\<lparr>dl_queues := qs'\<rparr>)) = deliveries (queue_of g l)"
    if "?fence = Inr qs" "put_all (attachment_queue_maxsize l) qs ?g ms = (qs', e)" for qs qs' ms e
    using fence [OF that(1)] that(2) by (metis fst_conv)
  have up: "queue_of g (l\<lparr>dl_generation := x, dl_attachment := y, dl_queues := z\<rparr>) =
      queue_of g (l\<lparr>dl_queues := z\<rparr>)" for x y z
    by (simp add: queue_of_def)
  show ?thesis
    unfolding ledger_attach_def Let_def
    using q0 rep ne
    by (auto simp: up split: option.split sum.split prod.split)
qed

lemma attach_keeps_stream:
  assumes inv: "ledger_inv l" and ok: "stream_ok k g log seen l"
  shows "stream_ok k g log seen (fst (ledger_attach k' a l))"
proof -
  obtain l' res where at: "ledger_attach k' a l = (l', res)" by fastforce
  have g: "g \<le> dl_generation l" using ok by (simp add: stream_ok_def)
  have "attachment_ok l" using inv by (simp add: ledger_inv_def)
  from this at have "dl_generation l \<le> dl_generation l' \<and> (dl_attachment l' = Some g \<longrightarrow> l' = l)"
    using g by (cases rule: attach_cases) (auto simp: attached_def)
  moreover have "deliveries (queue_of g l') = deliveries (queue_of g l)"
    using attach_other_deliveries [OF g, of k' a] at by simp
  ultimately show ?thesis by (intro stream_ok_frame [OF ok]) (auto simp: at)
qed

lemma full_deliveries:
  assumes "attachment_ok l" and "l' = l\<lparr>dl_failure := f, dl_queues := qs\<rparr>"
    and "\<forall>g. dl_attachment l \<noteq> Some g \<longrightarrow> qs g = dl_queues l g"
    and "\<forall>g q. dl_queues l g = Some q \<longrightarrow> qs g = Some q \<or> qs g = Some (q @ [Failure buffer_failure])"
  shows "deliveries (queue_of g l') = deliveries (queue_of g l)"
proof (cases "dl_queues l g")
  case None
  then have "dl_attachment l \<noteq> Some g" using assms(1) by (auto simp: attachment_ok_def)
  with assms(2,3) show ?thesis by (simp add: queue_of_def)
next
  case (Some q)
  with assms(4) have "qs g = Some q \<or> qs g = Some (q @ [Failure buffer_failure])" by simp
  with assms(2) Some show ?thesis by (auto simp: queue_of_def)
qed

lemma publish_keeps_stream:
  assumes inv: "ledger_inv l" and stream: "stream_ok k g log seen l"
    and no: "snd (ledger_publish jl p l) \<noteq> Inl (LedgerError Attachment_overflow)"
  shows "stream_ok k g (log @ log_step jl (Publish p) l) seen (fst (ledger_publish jl p l))"
proof -
  obtain l' res where pub: "ledger_publish jl p l = (l', res)" by fastforce
  have att: "attachment_ok l" using inv by (simp add: ledger_inv_def)
  from att pub show ?thesis
  proof (cases rule: publish_cases)
    case refused
    with stream pub show ?thesis by (simp add: log_step_def)
  next
    case (full qs e)
    have "stream_ok k g log seen l'"
      using full_deliveries [OF att full(1,4,5)] by (intro stream_ok_frame [OF stream]) (auto simp: full(1))
    with full(1) pub show ?thesis by (simp add: log_step_def)
  next
    case overflow
    with no pub show ?thesis by simp
  next
    case (ok rng qs)
    let ?r = "publish_record jl p rng l"
    have step: "log_step jl (Publish p) l = [?r]"
      using ok(2) pub by (simp add: log_step_def recorded_def)
    have gen: "dl_generation l' = dl_generation l" "dl_attachment l' = dl_attachment l"
      using ok(2) by (simp_all add: recorded_def)
    have "queue_of g l' = queue_of g l @ (if dl_attachment l = Some g then [Delivery ?r] else [])"
      using ok(2,7,8) att by (auto simp: queue_of_def attachment_ok_def)
    with stream gen step pub show ?thesis by (auto simp: stream_ok_def)
  qed
qed

lemma acknowledge_keeps_stream:
  assumes inv: "ledger_inv l" and ok: "stream_ok k g log seen l"
  shows "stream_ok k g log seen (fst (ledger_acknowledge g' t a l))"
proof -
  obtain l' res where ack: "ledger_acknowledge g' t a l = (l', res)" by fastforce
  from inv ack show ?thesis
    by (cases rule: acknowledge_cases)
      (auto simp: ack intro!: stream_ok_frame [OF ok] simp: trimmed_def queue_of_def)
qed

lemma close_deliveries:
  "deliveries (queue_of g (fst (ledger_close fence l))) = deliveries (queue_of g l)"
proof -
  have up: "queue_of g (l\<lparr>dl_attachment := x, dl_records := y, retained_bytes := z\<rparr>) = queue_of g l"
    and up': "queue_of g (l\<lparr>dl_attachment := x, dl_records := y, retained_bytes := z, dl_queues := qs\<rparr>) =
      queue_of g (l\<lparr>dl_queues := qs\<rparr>)" for x y z qs
    by (simp_all add: queue_of_def)
  show ?thesis
    by (simp add: ledger_close_def Let_def up up' put_control_deliveries split: option.split sum.split)
qed

lemma close_keeps_stream:
  assumes "stream_ok k g log seen l"
  shows "stream_ok k g log seen (fst (ledger_close fence l))"
proof (rule stream_ok_frame [OF assms])
  have "dl_attachment (fst (ledger_close fence l)) = None"
    by (simp add: ledger_close_def Let_def split: option.split sum.split)
  then show "dl_attachment (fst (ledger_close fence l)) = Some g \<Longrightarrow> dl_attachment l = Some g"
    by simp
qed (simp_all add: close_deliveries other_marks)

lemma exec_keeps_stream:
  assumes "ledger_inv l" and "stream_ok k g log seen l" and "no_overflow jl (op # ops) l"
  shows "stream_ok k g (log @ log_step jl op l)
    (seen @ (if op = Get g then (case snd (queue_get g l) of Some m \<Rightarrow> [m] | None \<Rightarrow> []) else []))
    (ledger_exec jl op l)"
proof (cases op)
  case (Publish p)
  with assms(3) have "snd (ledger_publish jl p l) \<noteq> Inl (LedgerError Attachment_overflow)"
    by (auto split: sum.splits)
  from publish_keeps_stream [OF assms(1,2) this] Publish show ?thesis by simp
next
  case (Get g')
  with get_stream_ok [OF assms(2), of g'] show ?thesis by (simp add: log_step_def)
next
  case (Detach g')
  with assms(2) show ?thesis
    by (auto intro!: stream_ok_frame [OF assms(2)] simp: ledger_detach_def queue_of_def log_step_def)
next
  case (TerminalAck g')
  with assms(2) show ?thesis
    by (auto intro!: stream_ok_frame [OF assms(2)] simp: ledger_terminal_ack_def queue_of_def log_step_def
        split: option.splits)
qed (use assms in \<open>simp_all add: log_step_def attach_keeps_stream acknowledge_keeps_stream close_keeps_stream\<close>)

lemma run_keeps_stream:
  assumes "ledger_inv l" and "stream_ok k g log seen l" and "no_overflow jl ops l"
  shows "stream_ok k g (log @ published jl ops l) (seen @ observed jl g ops l)
    (fold (ledger_exec jl) ops l)"
  using assms
proof (induction ops arbitrary: seen log l)
  case (Cons op ops)
  have "no_overflow jl ops (ledger_exec jl op l)" using Cons.prems(3) by simp
  from Cons.IH [OF ledger_exec_inv [OF Cons.prems(1)] exec_keeps_stream [OF Cons.prems] this]
  show ?case by (simp add: append_assoc)
qed simp

section \<open>Acknowledgements\<close>

text \<open>On an open ledger the acknowledged and the trimmed cursor are the same.\<close>

definition acks_ok :: "delivery_ledger \<Rightarrow> bool" where
  "acks_ok l \<longleftrightarrow>
     acked_delivery_seq l = trimmed_through_seq l \<and> acked_audio_sample l = trimmed_audio_sample l"

lemma acknowledge_trims:
  assumes inv: "ledger_inv l" and op: "ledger_open l" and acks: "acks_ok l"
    and ack: "ledger_acknowledge g t a l = (l', Inr ())"
  shows "acks_ok l' \<and> acked_delivery_seq l' = max t (acked_delivery_seq l) \<and>
    dl_records l' = filter (\<lambda>r. acked_delivery_seq l' < delivery_seq r) (dl_records l)"
  using inv ack
proof (cases rule: acknowledge_cases)
  case stale
  have "\<forall>r \<in> set (dl_records l). acked_delivery_seq l < delivery_seq r"
  proof
    fix r
    assume "r \<in> set (dl_records l)"
    then have "window_first l \<le> delivery_seq r"
      using inv consecutive_bounds [of "window_first l" "map delivery_seq (dl_records l)" "delivery_seq r"]
      by (simp add: ledger_inv_def records_ok_def)
    then show "acked_delivery_seq l < delivery_seq r"
      using op acks by (simp add: ledger_open_def acks_ok_def)
  qed
  with stale acks show ?thesis by (simp add: filter_id_conv)
next
  case (ok n)
  let ?m = "nat (t + 1 - window_first l)"
  have con: "consecutive (window_first l) (map delivery_seq (dl_records l))"
    and ch: "chain (window_start l) (dl_records l)"
    using inv by (auto simp: ledger_inv_def records_ok_def)
  from ok(4) have b: "window_first l - 1 \<le> t" "t < next_delivery_seq l"
    and a: "a = chain_end (window_start l) (take ?m (dl_records l))"
    by (simp_all add: validate_cursor_iff [OF inv op])
  have t: "t < window_first l + int (length (dl_records l))" using b by (simp add: window_first_def)
  have "dl_records l' = drop ?m (dl_records l)"
    using ok(9) trim_loop_through [OF con ch b(1) t a] by simp
  moreover have "dl_records l' = drop n (dl_records l)" using ok(1) by (simp add: trimmed_def)
  moreover have "?m \<le> length (dl_records l)" using t by simp
  ultimately have n: "n = ?m" using ok(3) by (metis diff_diff_cancel length_drop)
  have "map Delivery (filter (\<lambda>r. t < delivery_seq r) (dl_records l)) = map Delivery (dl_records l')"
    using replay_after_drop [OF inv b] ok(1) n by (simp add: replay_after_def trimmed_def)
  then have "filter (\<lambda>r. t < delivery_seq r) (dl_records l) = dl_records l'"
    by (simp add: inj_map_eq_map inj_def)
  moreover have "acks_ok l'"
    using ok(1) n a b op by (auto simp: acks_ok_def trimmed_def ledger_open_def)
  ultimately show ?thesis using ok(1,5) by (simp add: trimmed_def max_def)
qed auto

lemma exec_acks:
  assumes "ledger_inv l" and "ledger_open l" and "acks_ok l" and "\<not> is_close op"
  shows "acks_ok (ledger_exec jl op l)"
proof -
  have att: "attachment_ok l" using assms(1) by (simp add: ledger_inv_def)
  show ?thesis
  proof (cases op)
    case (Attach k a)
    obtain l' res where at: "ledger_attach k a l = (l', res)" by fastforce
    from att at show ?thesis
      by (cases rule: attach_cases) (use Attach at assms(3) in \<open>auto simp: acks_ok_def attached_def\<close>)
  next
    case (Publish p)
    obtain l' res where pub: "ledger_publish jl p l = (l', res)" by fastforce
    from att pub show ?thesis
      by (cases rule: publish_cases) (use Publish pub assms(3) in \<open>auto simp: acks_ok_def recorded_def\<close>)
  next
    case (Acknowledge g t a)
    obtain l' res where ack: "ledger_acknowledge g t a l = (l', res)" by fastforce
    show ?thesis
    proof (cases res)
      case Inl
      from assms(1) ack show ?thesis
        by (cases rule: acknowledge_cases) (use Acknowledge ack Inl assms(3) in auto)
    next
      case (Inr u)
      then show ?thesis using acknowledge_trims [OF assms(1-3)] ack Acknowledge by simp
    qed
  qed (use assms in \<open>auto simp: acks_ok_def ledger_detach_def ledger_terminal_ack_def queue_get_def
        split: option.splits list.splits\<close>)
qed

lemma run_acks:
  "ledger_inv l \<Longrightarrow> ledger_open l \<Longrightarrow> acks_ok l \<Longrightarrow> \<forall>op \<in> set ops. \<not> is_close op \<Longrightarrow>
   acks_ok (fold (ledger_exec jl) ops l)"
  by (induction ops arbitrary: l) (simp_all add: ledger_exec_inv ledger_exec_open exec_acks)

text \<open>A ledger that some run of operations other than \<open>close\<close> reaches.\<close>

definition reachable_open ::
  "(payload_body \<Rightarrow> nat) \<Rightarrow> delivery_ledger \<Rightarrow> ledger_op list \<Rightarrow> delivery_ledger \<Rightarrow> bool" where
  "reachable_open jl l0 ops l \<longleftrightarrow>
     (\<exists>tok fp proto mb mq. new_ledger tok fp proto mb mq = Inr l0) \<and>
     (\<forall>op \<in> set ops. \<not> is_close op) \<and> l = fold (ledger_exec jl) ops l0"

lemma reachable_openD:
  assumes "reachable_open jl l0 ops l"
  shows "ledger_inv l" and "ledger_open l" and "acks_ok l" and "log_ok (published jl ops l0) l"
proof -
  from assms obtain tok fp proto mb mq where new: "new_ledger tok fp proto mb mq = Inr l0"
    and ops: "\<forall>op \<in> set ops. \<not> is_close op" and l: "l = fold (ledger_exec jl) ops l0"
    by (auto simp: reachable_open_def)
  have l0: "ledger_inv l0" "ledger_open l0" "acks_ok l0"
    using new_ledger_inv [OF new] new by (auto simp: acks_ok_def new_ledger_def split: if_splits)
  show "ledger_inv l" unfolding l by (rule generations.run_inv [OF l0(1)])
  show "ledger_open l" unfolding l by (rule ledger_run_open [OF l0(1,2) ops])
  show "acks_ok l" unfolding l by (rule run_acks [OF l0 ops])
  show "log_ok (published jl ops l0) l"
    using run_log [OF l0(1) new_log_ok [OF new]] l by simp
qed

lemma attach_succeeds_iff:
  assumes "attachment_ok l"
  shows "(\<exists>l' g. ledger_attach k a l = (l', Inr g)) \<longleftrightarrow>
    0 \<le> k \<and> 0 \<le> a \<and> dl_failure l = None \<and> validate_cursor l k a = None \<and>
    int (length (replay_after k l)) \<le> attachment_queue_maxsize l \<and>
    (\<forall>g q. dl_attachment l = Some g \<longrightarrow> dl_queues l g = Some q \<longrightarrow>
       int (length q) < attachment_queue_maxsize l)"
  (is "?ok \<longleftrightarrow> ?k \<and> ?a \<and> ?nofail \<and> ?cursor \<and> ?fits \<and> ?room")
proof -
  let ?g = "dl_generation l + 1"
  let ?mq = "attachment_queue_maxsize l"
  let ?qs0 = "(dl_queues l)(?g \<mapsto> [])"
  let ?fence = "case dl_attachment l of None \<Rightarrow> Inr ?qs0
                | Some o' \<Rightarrow> put_control ?mq ?qs0 o' (AttachmentFence ?g)"
  have mq: "0 < ?mq" using assms by (simp add: attachment_ok_def)
  have fence: "(\<exists>qs. ?fence = Inr qs) \<longleftrightarrow> ?room"
    using assms by (cases "dl_attachment l") (auto simp: put_control_def Let_def attachment_ok_def)
  have own: "qs ?g = Some []" if "?fence = Inr qs" for qs
    using that assms by (cases "dl_attachment l") (auto simp: attachment_ok_def elim: put_controlE)
  have fits: "snd (put_all ?mq qs ?g (replay_after k l)) = None \<longleftrightarrow> ?fits" if "?fence = Inr qs" for qs
    using put_all_spec [of qs ?g "[]" ?mq "replay_after k l"] own [OF that] mq by (simp add: Let_def)
  show ?thesis
  proof (cases "?k \<and> ?a \<and> ?nofail \<and> ?cursor \<and> ?room")
    case False
    then show ?thesis
      using fence by (cases ?fence) (auto simp: ledger_attach_def Let_def split: option.splits if_splits)
  next
    case True
    with fence obtain qs where qs: "?fence = Inr qs" by blast
    obtain qs' e where put: "put_all ?mq qs ?g (replay_after k l) = (qs', e)" by fastforce
    have "?ok \<longleftrightarrow> e = None"
      using True qs put unfolding ledger_attach_def Let_def replay_after_def
      by (cases e) (simp_all cong: option.case_cong)
    then show ?thesis using True fits [OF qs] put by simp
  qed
qed

section \<open>Terminal output and fencing\<close>

lemma terminal_stays:
  assumes "ledger_inv l" and "dl_terminal l = Some p"
  shows "dl_terminal (ledger_exec jl op l) = Some p \<and> log_step jl op l = []"
proof -
  have att: "attachment_ok l" using assms(1) by (simp add: ledger_inv_def)
  show ?thesis
  proof (cases op)
    case (Attach k a)
    obtain l' res where at: "ledger_attach k a l = (l', res)" by fastforce
    from att at show ?thesis
      by (cases rule: attach_cases) (use Attach at assms in \<open>auto simp: attached_def log_step_def\<close>)
  next
    case (Acknowledge g t a)
    obtain l' res where ack: "ledger_acknowledge g t a l = (l', res)" by fastforce
    from assms(1) ack show ?thesis
      by (cases rule: acknowledge_cases) (use Acknowledge ack assms in \<open>auto simp: trimmed_def log_step_def\<close>)
  qed (use assms in \<open>auto simp: log_step_def ledger_publish_def ledger_detach_def ledger_terminal_ack_def
        queue_get_def ledger_close_def Let_def split: option.split list.split sum.split\<close>)
qed

lemma terminal_stays_run:
  "ledger_inv l \<Longrightarrow> dl_terminal l = Some p \<Longrightarrow>
   dl_terminal (fold (ledger_exec jl) ops l) = Some p \<and> published jl ops l = []"
  by (induction ops arbitrary: l) (simp_all add: terminal_stays ledger_exec_inv)

lemma ledger_exec_limits:
  "max_buffer_bytes (ledger_exec jl op l) = max_buffer_bytes l \<and>
   attachment_queue_maxsize (ledger_exec jl op l) = attachment_queue_maxsize l"
proof (cases op)
  case (Publish p)
  then show ?thesis
    by (simp add: ledger_publish_def Let_def split: option.split sum.split prod.split)
next
  case (Acknowledge g t a)
  then show ?thesis
    by (simp add: ledger_acknowledge_def split: option.split prod.split)
qed (simp_all add: ledger_attach_def ledger_detach_def ledger_terminal_ack_def queue_get_def ledger_close_def
      Let_def split: option.split sum.split prod.split list.split)

section \<open>Properties\<close>

text \<open>
  C1. Resuming. Take a ledger after any operations other than \<open>close\<close>, attach at a cursor
  \<open>(k, a)\<close> and let any operations follow (publishes, reads, acknowledgements, newer
  attachments, detaches, closes) none of which overflows the attachment's queue. What the
  attachment reads or still has queued is exactly the published log from record \<open>k + 1\<close> on:
  no gap, no repetition, no reordering; complete while the attachment is the current one,
  and a prefix of it once a newer one took over. The records of the log are numbered
  \<open>1, 2, ...\<close>, their sample ranges follow each other from \<open>0\<close>, and the cursor's sample is
  where record \<open>k\<close> ends, so the client's audio continues at the sample it had reached.
\<close>

theorem resume_delivers_log:
  assumes "reachable_open jl l0 ops0 l" and "ledger_attach k a l = (l1, Inr g)"
    and "no_overflow jl ops l1"
  shows "let log = published jl ops0 l0 @ published jl ops l1;
             l2 = fold (ledger_exec jl) ops l1;
             got = deliveries (observed jl g ops l1 @ queue_of g l2)
         in got = take (length got) (drop (nat k) log) \<and>
            (dl_attachment l2 = Some g \<longrightarrow> got = drop (nat k) log) \<and>
            map delivery_seq log = [1..int (length log)] \<and> chain 0 log \<and>
            a = chain_end 0 (take (nat k) log)"
proof -
  note l = reachable_openD [OF assms(1)]
  let ?log0 = "published jl ops0 l0"
  have att: "stream_ok k g ?log0 [] l1" "a = chain_end 0 (take (nat k) ?log0)"
    using attach_stream_ok [OF l(1,2,4) assms(2)] by simp_all
  have l1: "ledger_inv l1" "log_ok ?log0 l1"
    using attach_inv [OF l(1), of k a] attach_log [OF l(1,4), of k a] assms(2) by simp_all
  define log where "log = ?log0 @ published jl ops l1"
  define l2 where "l2 = fold (ledger_exec jl) ops l1"
  define got where "got = deliveries (observed jl g ops l1 @ queue_of g l2)"
  have "stream_ok k g log (observed jl g ops l1) l2"
    using run_keeps_stream [OF l1(1) att(1) assms(3)] by (simp add: log_def l2_def)
  then obtain zs where zs: "drop (nat k) log = got @ zs" "dl_attachment l2 = Some g \<longrightarrow> zs = []"
    by (auto simp: stream_ok_def got_def)
  have log: "log_ok log l2" using run_log [OF l1] by (simp add: log_def l2_def)
  have "a = chain_end 0 (take (nat k) log)" using att by (simp add: stream_ok_def log_def)
  moreover have "map delivery_seq log = [1..int (length log)]"
    using log consecutive_eq_upto [of 1 "map delivery_seq log"] by (simp add: log_ok_def)
  ultimately have "got = take (length got) (drop (nat k) log) \<and>
      (dl_attachment l2 = Some g \<longrightarrow> got = drop (nat k) log) \<and>
      map delivery_seq log = [1..int (length log)] \<and> chain 0 log \<and> a = chain_end 0 (take (nat k) log)"
    using zs log by (simp add: log_ok_def)
  then show ?thesis unfolding log_def l2_def got_def Let_def .
qed

text \<open>
  C9. Which cursors can resume. Before \<open>close\<close>, an attach succeeds exactly when the replay
  window has not failed, the delivery cursor lies between the last acknowledged and the last
  published record, the audio cursor is the sample at which that record ends, and the queues
  have room: the replayed records fit into a new queue and the old attachment's queue has
  room for its fence.
\<close>

theorem attach_succeeds_exactly:
  assumes "reachable_open jl l0 ops l"
  shows "(\<exists>l' g. ledger_attach k a l = (l', Inr g)) \<longleftrightarrow>
    dl_failure l = None \<and> acked_delivery_seq l \<le> k \<and> k \<le> last_delivery_seq l \<and>
    a = chain_end 0 (take (nat k) (published jl ops l0)) \<and>
    last_delivery_seq l - k \<le> attachment_queue_maxsize l \<and>
    (\<forall>g q. dl_attachment l = Some g \<longrightarrow> dl_queues l g = Some q \<longrightarrow>
       int (length q) < attachment_queue_maxsize l)"
proof -
  note l = reachable_openD [OF assms]
  let ?log = "published jl ops l0"
  let ?w = "nat (window_first l - 1)"
  have win: "window_ok l" and att: "attachment_ok l" using l(1) by (simp_all add: ledger_inv_def)
  have w: "window_first l = acked_delivery_seq l + 1" using l(2,3) by (simp add: ledger_open_def acks_ok_def)
  have rec: "dl_records l = drop ?w ?log" "1 \<le> window_first l" using l(4) by (simp_all add: log_ok_def)
  have ws: "window_start l = chain_end 0 (take ?w ?log)"
    using l(4) chain_drop [of 0 ?log ?w] chain_end_split [of 0 ?w ?log]
    by (cases "drop ?w ?log") (auto simp: window_start_def log_ok_def)
  have samples: "chain_end (window_start l) (take (nat (k + 1 - window_first l)) (dl_records l)) =
      chain_end 0 (take (nat k) ?log)" if "window_first l - 1 \<le> k"
  proof -
    have "nat k = ?w + nat (k + 1 - window_first l)" using that rec(2) by arith
    then have "take (nat k) ?log = take ?w ?log @ take (nat (k + 1 - window_first l)) (dl_records l)"
      unfolding rec(1) by (simp only: take_add)
    then show ?thesis by (simp add: ws)
  qed
  have cur: "validate_cursor l k a = None \<longleftrightarrow> acked_delivery_seq l \<le> k \<and> k \<le> last_delivery_seq l \<and>
      a = chain_end 0 (take (nat k) ?log)"
    using samples by (auto simp: validate_cursor_iff [OF l(1,2)] w last_delivery_seq_def)
  have nonneg: "0 \<le> chain_end 0 (take (nat k) ?log)"
    using l(4) chain_take chain_end_ge by (auto simp: log_ok_def)
  have len: "int (length (replay_after k l)) = last_delivery_seq l - k"
    if "acked_delivery_seq l \<le> k" "k \<le> last_delivery_seq l"
  proof -
    have "window_first l - 1 \<le> k" "k < next_delivery_seq l"
      using that w by (simp_all add: last_delivery_seq_def)
    then show ?thesis using replay_after_drop [OF l(1)] by (simp add: window_first_def last_delivery_seq_def)
  qed
  have "0 \<le> acked_delivery_seq l" using rec(2) w by simp
  then show ?thesis
    unfolding attach_succeeds_iff [OF att] cur using nonneg len by auto
qed

text \<open>
  C14. Acknowledging. Before \<open>close\<close>, an acknowledgement that succeeds releases exactly the
  records up to the acknowledged one, never a later one; the acknowledged cursor never moves
  back and is where the window is trimmed, and the bytes charged are those of the records
  still retained. The code's \<open>ack_regression\<close> error is never raised: a cursor behind the
  acknowledged one is already rejected as expired.
\<close>

theorem acknowledge_exact:
  assumes "reachable_open jl l0 ops l"
  shows "(\<forall>l'. ledger_acknowledge g t a l = (l', Inr ()) \<longrightarrow>
      acked_delivery_seq l' = max t (acked_delivery_seq l) \<and>
      trimmed_through_seq l' = acked_delivery_seq l' \<and>
      dl_records l' = filter (\<lambda>r. acked_delivery_seq l' < delivery_seq r) (dl_records l) \<and>
      retained_bytes l' = sum_list (map rd_retained (dl_records l'))) \<and>
    snd (ledger_acknowledge g t a l) \<noteq> Inl (LedgerError Ack_regression)"
proof -
  note l = reachable_openD [OF assms]
  have bytes: "bytes_ok (fst (ledger_acknowledge g t a l))"
    using acknowledge_inv [OF l(1)] by (simp add: ledger_inv_def)
  have "validate_cursor l t a \<noteq> Some (LedgerError Ack_regression)"
    by (simp add: validate_cursor_def split: option.split)
  moreover have "acked_delivery_seq l \<le> t \<and> acked_audio_sample l \<le> a" if "validate_cursor l t a = None"
    using that l(3) by (simp add: validate_cursor_None acks_ok_def)
  ultimately have "snd (ledger_acknowledge g t a l) \<noteq> Inl (LedgerError Ack_regression)"
    unfolding ledger_acknowledge_def require_generation_def
    by (simp split: option.split prod.split) force
  moreover have "acked_delivery_seq l' = max t (acked_delivery_seq l) \<and>
      trimmed_through_seq l' = acked_delivery_seq l' \<and>
      dl_records l' = filter (\<lambda>r. acked_delivery_seq l' < delivery_seq r) (dl_records l) \<and>
      retained_bytes l' = sum_list (map rd_retained (dl_records l'))"
    if "ledger_acknowledge g t a l = (l', Inr ())" for l'
    using acknowledge_trims [OF l(1-3) that] bytes that by (simp add: acks_ok_def bytes_ok_def)
  ultimately show ?thesis by blast
qed

text \<open>
  C17. Bounded retention. Whatever operations run, closes included, the bytes charged are the
  sizes of the retained records and stay within the configured window, and no attachment
  queue grows beyond its limit.
\<close>

theorem ledger_stays_bounded:
  assumes "new_ledger tok fp proto mb mq = Inr l0"
  shows "let l = fold (ledger_exec jl) ops l0
         in retained_bytes l = sum_list (map rd_retained (dl_records l)) \<and>
            0 \<le> retained_bytes l \<and> retained_bytes l \<le> mb \<and>
            (\<forall>g q. dl_queues l g = Some q \<longrightarrow> int (length q) \<le> mq)"
proof -
  have limits: "max_buffer_bytes (fold (ledger_exec jl) ops l) = max_buffer_bytes l \<and>
      attachment_queue_maxsize (fold (ledger_exec jl) ops l) = attachment_queue_maxsize l"
    for l by (induction ops arbitrary: l) (simp_all add: ledger_exec_limits)
  have "ledger_inv (fold (ledger_exec jl) ops l0)"
    using generations.run_inv new_ledger_inv [OF assms] by blast
  moreover have "max_buffer_bytes l0 = mb" "attachment_queue_maxsize l0 = mq"
    using assms by (auto simp: new_ledger_def split: if_splits)
  ultimately show ?thesis
    using limits [of l0] unfolding Let_def ledger_inv_def bytes_ok_def attachment_ok_def
    by (auto intro!: sum_list_nonneg)
qed

text \<open>
  C20. The terminal output is unique and last. Once a terminal output is recorded, no later
  operation publishes anything or replaces it, and every further publish is refused with
  \<open>session_terminal\<close> without changing the ledger.
\<close>

theorem terminal_is_last:
  assumes "new_ledger tok fp proto mb mq = Inr l0"
    and "dl_terminal (fold (ledger_exec jl) ops0 l0) = Some p"
  shows "let l1 = fold (ledger_exec jl) ops0 l0; l2 = fold (ledger_exec jl) ops l1
         in dl_terminal l2 = Some p \<and> published jl ops l1 = [] \<and>
            ledger_publish jl q l2 = (l2, Inl (LedgerError Session_terminal))"
proof -
  have "ledger_inv (fold (ledger_exec jl) ops0 l0)"
    using generations.run_inv new_ledger_inv [OF assms(1)] by blast
  from terminal_stays_run [OF this assms(2)] show ?thesis
    by (simp add: Let_def ledger_publish_def)
qed

text \<open>
  Fencing. Once a newer attachment took over, the older generation never becomes current
  again, whatever runs afterwards: each of its commands is refused as stale and changes nothing.
\<close>

theorem fenced_stays_fenced:
  assumes "new_ledger tok fp proto mb mq = Inr l0"
    and "g < dl_generation (fold (ledger_exec jl) ops0 l0)"
  shows "let l = fold (ledger_exec jl) ops (fold (ledger_exec jl) ops0 l0)
         in require_generation l g = Some (LedgerError Stale_attachment) \<and>
            (0 \<le> t \<and> 0 \<le> a \<longrightarrow>
               ledger_acknowledge g t a l = (l, Inl (LedgerError Stale_attachment))) \<and>
            ledger_terminal_ack g l = (l, Inl (LedgerError Stale_attachment)) \<and>
            ledger_detach g l = (l, False)"
proof -
  let ?l1 = "fold (ledger_exec jl) ops0 l0"
  let ?l = "fold (ledger_exec jl) ops ?l1"
  have inv1: "ledger_inv ?l1" using generations.run_inv new_ledger_inv [OF assms(1)] by blast
  have "dl_generation ?l1 \<le> dl_generation ?l" by (rule generations.run_mark [OF inv1])
  moreover have "attachment_ok ?l" using generations.run_inv [OF inv1] by (simp add: ledger_inv_def)
  ultimately have "dl_attachment ?l \<noteq> Some g" using assms(2) by (auto simp: attachment_ok_def)
  then show ?thesis
    by (simp add: Let_def require_generation_def ledger_acknowledge_def ledger_terminal_ack_def ledger_detach_def)
qed

section \<open>Witnesses\<close>

text \<open>
  A ledger with a window of 100 bytes and queues of 8: two audio records of two samples, an
  attachment that already has the first, then a third record, a read and an acknowledgement.
\<close>

definition ex_jl :: "payload_body \<Rightarrow> nat" where
  "ex_jl = (\<lambda>_. 10)"

definition ex_ledger :: delivery_ledger where
  "ex_ledger = (case new_ledger ''t'' ''f'' ''p'' 100 8 of Inr l \<Rightarrow> l)"

definition ex_audio :: "int \<Rightarrow> session_output" where
  "ex_audio s = AudioOutput ''s'' [0, 0] \<lparr>encoding = ''pcm_u8'', sample_rate = 24000, channels = 1\<rparr> s (s + 2) []"

definition ex_end :: session_output where
  "ex_end = TerminalOutput ''s'' COMPLETED '''' [] []"

definition ex_ops0 :: "ledger_op list" where
  "ex_ops0 = [Publish (ex_audio 0), Publish (ex_audio 2)]"

definition ex_l :: delivery_ledger where
  "ex_l = fold (ledger_exec ex_jl) ex_ops0 ex_ledger"

definition ex_l1 :: delivery_ledger where
  "ex_l1 = fst (ledger_attach 1 2 ex_l)"

definition ex_ops :: "ledger_op list" where
  "ex_ops = [Publish (ex_audio 4), Get 1, Acknowledge 1 2 4]"

lemma ex_new: "new_ledger ''t'' ''f'' ''p'' 100 8 = Inr ex_ledger"
  by (simp add: ex_ledger_def new_ledger_def)

lemma ex_run:
  "\<forall>op \<in> set ops. \<not> is_close op \<Longrightarrow>
   reachable_open ex_jl ex_ledger ops (fold (ledger_exec ex_jl) ops ex_ledger)"
  unfolding reachable_open_def using ex_new by blast

lemma ex_reachable: "reachable_open ex_jl ex_ledger ex_ops0 ex_l"
  unfolding ex_l_def by (rule ex_run) (simp add: ex_ops0_def)

lemma ex_attach: "ledger_attach 1 2 ex_l = (ex_l1, Inr 1)"
proof -
  have "snd (ledger_attach 1 2 ex_l) = Inr 1" by code_simp
  then show ?thesis by (metis ex_l1_def prod.collapse)
qed

theorem resume_delivers_log_witness:
  "map delivery_seq (deliveries (observed ex_jl 1 ex_ops ex_l1 @
     queue_of 1 (fold (ledger_exec ex_jl) ex_ops ex_l1))) = [2, 3] \<and>
   deliveries (observed ex_jl 1 ex_ops ex_l1 @ queue_of 1 (fold (ledger_exec ex_jl) ex_ops ex_l1)) =
     drop 1 (published ex_jl ex_ops0 ex_ledger @ published ex_jl ex_ops ex_l1)"
proof -
  have "no_overflow ex_jl ex_ops ex_l1" by code_simp
  note th = resume_delivers_log [OF ex_reachable ex_attach this]
  moreover have "dl_attachment (fold (ledger_exec ex_jl) ex_ops ex_l1) = Some 1" by code_simp
  moreover have "map delivery_seq (deliveries (observed ex_jl 1 ex_ops ex_l1 @
     queue_of 1 (fold (ledger_exec ex_jl) ex_ops ex_l1))) = [2, 3]" by code_simp
  ultimately show ?thesis unfolding Let_def by (metis nat_one_as_int nat_int of_nat_1)
qed

theorem attach_succeeds_exactly_witness: "\<exists>l' g. ledger_attach 1 2 ex_l = (l', Inr g)"
proof -
  have "dl_failure ex_l = None \<and> acked_delivery_seq ex_l \<le> 1 \<and> 1 \<le> last_delivery_seq ex_l"
    by code_simp
  moreover have "2 = chain_end 0 (take (nat 1) (published ex_jl ex_ops0 ex_ledger))" by code_simp
  moreover have "last_delivery_seq ex_l - 1 \<le> attachment_queue_maxsize ex_l" by code_simp
  moreover have "dl_attachment ex_l = None" by code_simp
  ultimately show ?thesis using attach_succeeds_exactly [OF ex_reachable, of 1 2] by simp
qed

theorem acknowledge_exact_witness:
  "\<exists>ops l. reachable_open ex_jl ex_ledger ops l \<and> length (dl_records l) = 2 \<and>
     snd (ledger_acknowledge 1 1 2 l) = Inr () \<and>
     dl_records (fst (ledger_acknowledge 1 1 2 l)) = filter (\<lambda>r. 1 < delivery_seq r) (dl_records l)"
proof (intro exI conjI)
  let ?ops = "ex_ops0 @ [Attach 0 0]"
  let ?l = "fold (ledger_exec ex_jl) ?ops ex_ledger"
  show r: "reachable_open ex_jl ex_ledger ?ops ?l"
    by (rule ex_run) (simp add: ex_ops0_def)
  show "length (dl_records ?l) = 2" by code_simp
  show s: "snd (ledger_acknowledge 1 1 2 ?l) = Inr ()" by code_simp
  then have "ledger_acknowledge 1 1 2 ?l = (fst (ledger_acknowledge 1 1 2 ?l), Inr ())"
    by (metis prod.collapse)
  moreover have "acked_delivery_seq ?l = 0" by code_simp
  ultimately show "dl_records (fst (ledger_acknowledge 1 1 2 ?l)) =
      filter (\<lambda>r. 1 < delivery_seq r) (dl_records ?l)"
    using acknowledge_exact [OF r, of 1 1 2] by auto
qed

theorem ledger_stays_bounded_witness:
  "retained_bytes ex_l = 4 \<and> retained_bytes ex_l = sum_list (map rd_retained (dl_records ex_l)) \<and>
   retained_bytes ex_l \<le> 100"
proof -
  have "retained_bytes ex_l = 4" by code_simp
  then show ?thesis
    using ledger_stays_bounded [OF ex_new, of ex_jl ex_ops0] unfolding ex_l_def Let_def by blast
qed

theorem terminal_is_last_witness:
  "ledger_publish ex_jl (ex_audio 4) (fold (ledger_exec ex_jl) [Attach 0 0, Publish (ex_audio 4)]
       (fold (ledger_exec ex_jl) (ex_ops0 @ [Publish ex_end]) ex_ledger)) =
   (fold (ledger_exec ex_jl) [Attach 0 0, Publish (ex_audio 4)]
       (fold (ledger_exec ex_jl) (ex_ops0 @ [Publish ex_end]) ex_ledger), Inl (LedgerError Session_terminal))"
proof -
  have "dl_terminal (fold (ledger_exec ex_jl) (ex_ops0 @ [Publish ex_end]) ex_ledger) = Some ex_end"
    by code_simp
  from terminal_is_last [OF ex_new this] show ?thesis unfolding Let_def by blast
qed

theorem fenced_stays_fenced_witness:
  "require_generation (fold (ledger_exec ex_jl) [Detach 2, Attach 0 0]
       (fold (ledger_exec ex_jl) [Attach 0 0, Attach 0 0] ex_ledger)) 1 = Some (LedgerError Stale_attachment)"
proof -
  have "(1::int) < dl_generation (fold (ledger_exec ex_jl) [Attach 0 0, Attach 0 0] ex_ledger)"
    by code_simp
  from fenced_stays_fenced [OF ex_new this] show ?thesis unfolding Let_def by blast
qed

end
