(* ===== verification/Session_Service.thy ===== *)
theory Session_Service
  imports Delivery_Ledger
begin

text \<open>
  The logical session of \<open>engine/session/service.py\<close>: \<open>SessionHandle\<close> (input idempotency, the
  output queue and its unique terminal) and the registry \<open>SessionService\<close>.

  The execution handle is code behind a protocol class. A call to it is an argument of the
  operation that makes it (\<open>None\<close>: it returned, \<open>Some e\<close>: it raised \<open>e\<close>), and the calls made
  are recorded in \<open>sh_calls\<close>, so that the theorems can speak of what the backend was told.

  The methods run as asyncio tasks. Code between two \<open>await\<close>s is one step of the model; a
  method that awaits in the middle is split there. A \<open>put\<close> on the full output queue waits:
  its output joins \<open>sh_putters\<close>, and any waiting put may be the next to find room, because
  a woken task can be overtaken before it runs.
\<close>

section \<open>Handle state\<close>

datatype session_code =
    Invalid_text_seq | Empty_text | Text_seq_conflict | Text_seq_gap | Invalid_final_seq
  | Final_seq_conflict | Final_seq_mismatch | Handle_terminal | Input_already_complete
  | Session_not_started | Duplicate_session | Session_not_found

datatype session_error =
    SessionProtocolError session_code
  | BackendRaised string

datatype execution_call =
    PushText string
  | CompleteInputCall
  | CancelCall string
  | CloseCall

record append_text_cmd =
  at_seq_no :: int
  at_text :: string
  at_client_timestamp_ms :: int

record complete_input_cmd =
  final_seq_no :: int
  ci_client_timestamp_ms :: int

record input_ack =
  ack_seq_no :: int
  ack_duplicate :: bool

record session_handle =
  sh_internal_session_id :: string
  sh_client_session_id :: string
  output_queue_maxsize :: int
  sh_outputs :: "session_output list"
  sh_putters :: "session_output list"
  sh_execution :: bool
  sh_calls :: "execution_call list"
  accepted_text :: "int \<rightharpoonup> string"
  next_seq :: int
  input_complete :: bool
  sh_terminal :: "session_output option"
  sh_closed :: bool
  sh_yielded :: "session_output list"
  sh_done :: bool

definition new_handle :: "string \<Rightarrow> string \<Rightarrow> int \<Rightarrow> session_handle" where
  "new_handle internal client maxq =
     \<lparr>sh_internal_session_id = internal, sh_client_session_id = client,
      output_queue_maxsize = maxq, sh_outputs = [], sh_putters = [], sh_execution = False,
      sh_calls = [], accepted_text = Map.empty, next_seq = 1, input_complete = False,
      sh_terminal = None, sh_closed = False, sh_yielded = [], sh_done = False\<rparr>"

definition accepted_text_seq :: "session_handle \<Rightarrow> int" where
  "accepted_text_seq h = next_seq h - 1"

definition call_execution :: "execution_call \<Rightarrow> session_handle \<Rightarrow> session_handle" where
  "call_execution c h = h\<lparr>sh_calls := sh_calls h @ [c]\<rparr>"

definition ensure_input_open :: "session_handle \<Rightarrow> session_error option" where
  "ensure_input_open h =
     (if sh_terminal h \<noteq> None then Some (SessionProtocolError Handle_terminal)
      else if input_complete h then Some (SessionProtocolError Input_already_complete)
      else if \<not> sh_execution h then Some (SessionProtocolError Session_not_started)
      else None)"

section \<open>Input\<close>

definition append_text ::
  "string option \<Rightarrow> append_text_cmd \<Rightarrow> session_handle \<Rightarrow> session_handle \<times> (session_error + input_ack)" where
  "append_text outcome cmd h =
     (if at_seq_no cmd \<le> 0 then (h, Inl (SessionProtocolError Invalid_text_seq))
      else if at_text cmd = [] then (h, Inl (SessionProtocolError Empty_text))
      else case ensure_input_open h of
        Some e \<Rightarrow> (h, Inl e)
      | None \<Rightarrow>
        (case accepted_text h (at_seq_no cmd) of
           Some previous \<Rightarrow>
             if previous \<noteq> at_text cmd then (h, Inl (SessionProtocolError Text_seq_conflict))
             else (h, Inr \<lparr>ack_seq_no = at_seq_no cmd, ack_duplicate = True\<rparr>)
         | None \<Rightarrow>
             if at_seq_no cmd \<noteq> next_seq h then (h, Inl (SessionProtocolError Text_seq_gap))
             else (let h1 = h\<lparr>accepted_text := (accepted_text h)(at_seq_no cmd \<mapsto> at_text cmd),
                              next_seq := next_seq h + 1\<rparr>;
                       h2 = call_execution (PushText (at_text cmd)) h1
                   in case outcome of
                        Some e \<Rightarrow> (h2, Inl (BackendRaised e))
                      | None \<Rightarrow> (h2, Inr \<lparr>ack_seq_no = at_seq_no cmd, ack_duplicate = False\<rparr>))))"

definition complete_input ::
  "string option \<Rightarrow> complete_input_cmd \<Rightarrow> session_handle \<Rightarrow> session_handle \<times> (session_error + input_ack)" where
  "complete_input outcome cmd h =
     (if final_seq_no cmd < 0 then (h, Inl (SessionProtocolError Invalid_final_seq))
      else if input_complete h
      then (if final_seq_no cmd \<noteq> next_seq h - 1 then (h, Inl (SessionProtocolError Final_seq_conflict))
            else (h, Inr \<lparr>ack_seq_no = final_seq_no cmd, ack_duplicate = True\<rparr>))
      else case ensure_input_open h of
        Some e \<Rightarrow> (h, Inl e)
      | None \<Rightarrow>
          if final_seq_no cmd \<noteq> next_seq h - 1 then (h, Inl (SessionProtocolError Final_seq_mismatch))
          else (let h1 = call_execution CompleteInputCall (h\<lparr>input_complete := True\<rparr>)
                in case outcome of
                     Some e \<Rightarrow> (h1, Inl (BackendRaised e))
                   | None \<Rightarrow> (h1, Inr \<lparr>ack_seq_no = final_seq_no cmd, ack_duplicate = False\<rparr>)))"

section \<open>Output\<close>

text \<open>\<open>await self._outputs.put(output)\<close>: put at once when there is room, wait otherwise.\<close>

definition outputs_full :: "session_handle \<Rightarrow> bool" where
  "outputs_full h \<longleftrightarrow> 0 < output_queue_maxsize h \<and> output_queue_maxsize h \<le> int (length (sh_outputs h))"

definition outputs_put :: "session_output \<Rightarrow> session_handle \<Rightarrow> session_handle" where
  "outputs_put o' h =
     (if outputs_full h then h\<lparr>sh_putters := sh_putters h @ [o']\<rparr>
      else h\<lparr>sh_outputs := sh_outputs h @ [o']\<rparr>)"

text \<open>The \<open>i\<close>-th waiting put runs again and finds room, or goes on waiting.\<close>

definition resume_putter :: "nat \<Rightarrow> session_handle \<Rightarrow> session_handle" where
  "resume_putter i h =
     (if i < length (sh_putters h) \<and> \<not> outputs_full h
      then h\<lparr>sh_outputs := sh_outputs h @ [sh_putters h ! i],
             sh_putters := take i (sh_putters h) @ drop (Suc i) (sh_putters h)\<rparr>
      else h)"

text \<open>
  \<open>_emit_terminal\<close>. A second call that waits for the lock held by the first finds the
  terminal set when it gets it.
\<close>

definition emit_terminal :: "session_output \<Rightarrow> session_handle \<Rightarrow> session_handle" where
  "emit_terminal o' h =
     (if sh_terminal h \<noteq> None then h else outputs_put o' (h\<lparr>sh_terminal := Some o'\<rparr>))"

definition emit :: "session_output \<Rightarrow> session_handle \<Rightarrow> session_handle" where
  "emit o' h =
     (if is_terminal o' then emit_terminal o' h
      else if sh_terminal h \<noteq> None \<or> sh_closed h then h
      else outputs_put o' h)"

text \<open>One iteration of the generator \<open>outputs()\<close>; it ends after the terminal output.\<close>

definition outputs_next :: "session_handle \<Rightarrow> session_handle" where
  "outputs_next h =
     (if sh_done h then h
      else case sh_outputs h of
        [] \<Rightarrow> h
      | o' # os \<Rightarrow> h\<lparr>sh_outputs := os, sh_yielded := sh_yielded h @ [o'], sh_done := is_terminal o'\<rparr>)"

text \<open>
  \<open>cancel\<close>: the part under the input lock (whose result says whether to go on), and after
  the call of the execution's \<open>cancel\<close> the emission of the terminal. An exception of that
  call ends the method before the terminal is emitted.
\<close>

definition cancel_begin :: "string \<Rightarrow> session_handle \<Rightarrow> session_handle \<times> bool" where
  "cancel_begin reason h =
     (if sh_terminal h \<noteq> None then (h, False)
      else (let h1 = h\<lparr>input_complete := True\<rparr>
            in (if sh_execution h then call_execution (CancelCall reason) h1 else h1, True)))"

definition cancelled_output :: "string \<Rightarrow> session_handle \<Rightarrow> session_output" where
  "cancelled_output reason h =
     TerminalOutput (sh_client_session_id h) CANCELLED reason
       (if reason = [] then [] else [(''cancel_reason'', PyStr reason)]) []"

definition cancel_end :: "string option \<Rightarrow> string \<Rightarrow> session_handle \<Rightarrow> session_handle" where
  "cancel_end outcome reason h =
     (case outcome of Some _ \<Rightarrow> h | None \<Rightarrow> emit_terminal (cancelled_output reason h) h)"

definition handle_close :: "session_handle \<Rightarrow> session_handle" where
  "handle_close h =
     (if sh_closed h then h
      else (let h1 = h\<lparr>sh_closed := True\<rparr>
            in if sh_execution h then call_execution CloseCall h1 else h1))"

text \<open>\<open>start\<close>, once the backend returned an execution handle.\<close>

definition handle_started :: "session_handle \<Rightarrow> session_handle" where
  "handle_started h = h\<lparr>sh_execution := True\<rparr>"

section \<open>Steps of a session\<close>

inductive handle_step :: "session_handle \<Rightarrow> session_handle \<Rightarrow> bool" where
  start: "handle_step h (handle_started h)"
| append: "handle_step h (fst (append_text outcome cmd h))"
| complete: "handle_step h (fst (complete_input outcome cmd h))"
| emit: "handle_step h (emit o' h)"
| resume: "handle_step h (resume_putter i h)"
| yield: "handle_step h (outputs_next h)"
| cancel_begin: "handle_step h (fst (cancel_begin reason h))"
| cancel_end: "handle_step h (cancel_end outcome reason h)"
| close: "handle_step h (handle_close h)"

inductive handle_reach :: "session_handle \<Rightarrow> session_handle \<Rightarrow> bool" where
  refl: "handle_reach h h"
| step: "handle_reach h h1 \<Longrightarrow> handle_step h1 h2 \<Longrightarrow> handle_reach h h2"

section \<open>Invariants\<close>

fun pushed_texts :: "execution_call list \<Rightarrow> string list" where
  "pushed_texts [] = []"
| "pushed_texts (PushText s # cs) = s # pushed_texts cs"
| "pushed_texts (_ # cs) = pushed_texts cs"

lemma pushed_texts_append [simp]: "pushed_texts (xs @ ys) = pushed_texts xs @ pushed_texts ys"
  by (induction xs rule: pushed_texts.induct) auto

text \<open>
  The accepted texts are numbered without a gap, and the backend got each of them once, in
  their order.
\<close>

definition input_ok :: "session_handle \<Rightarrow> bool" where
  "input_ok h \<longleftrightarrow>
     1 \<le> next_seq h \<and> dom (accepted_text h) = {1 ..< next_seq h} \<and>
     map Some (pushed_texts (sh_calls h)) = map (accepted_text h) [1 .. next_seq h - 1]"

text \<open>Every output that was emitted and neither dropped nor lost, in any of its places.\<close>

definition in_flight :: "session_handle \<Rightarrow> session_output list" where
  "in_flight h = sh_yielded h @ sh_outputs h @ sh_putters h"

definition output_ok :: "session_handle \<Rightarrow> bool" where
  "output_ok h \<longleftrightarrow>
     filter is_terminal (in_flight h) = (case sh_terminal h of None \<Rightarrow> [] | Some t \<Rightarrow> [t]) \<and>
     (case sh_terminal h of None \<Rightarrow> True | Some t \<Rightarrow> is_terminal t) \<and>
     (sh_done h \<longleftrightarrow> sh_terminal h \<noteq> None \<and> sh_yielded h \<noteq> [] \<and> last (sh_yielded h) = the (sh_terminal h)) \<and>
     (\<not> sh_done h \<longrightarrow> filter is_terminal (sh_yielded h) = []) \<and>
     0 < output_queue_maxsize h \<and> int (length (sh_outputs h)) \<le> output_queue_maxsize h"

lemmas append_text_defs = append_text_def call_execution_def ensure_input_open_def

lemma append_text_cases:
  assumes "append_text outcome cmd h = (h', res)"
  obtains (same) "h' = h"
  | (new) "h' = h\<lparr>accepted_text := (accepted_text h)(next_seq h \<mapsto> at_text cmd),
                  next_seq := next_seq h + 1, sh_calls := sh_calls h @ [PushText (at_text cmd)]\<rparr>"
      and "at_seq_no cmd = next_seq h" and "accepted_text h (next_seq h) = None"
      and "ensure_input_open h = None" and "at_text cmd \<noteq> []"
      and "res = (case outcome of Some e \<Rightarrow> Inl (BackendRaised e)
                  | None \<Rightarrow> Inr \<lparr>ack_seq_no = next_seq h, ack_duplicate = False\<rparr>)"
  using assms unfolding append_text_def call_execution_def Let_def
  by (auto split: if_splits option.splits)

lemma input_frame:
  assumes "input_ok h" and "accepted_text h' = accepted_text h" and "next_seq h' = next_seq h"
    and "pushed_texts (sh_calls h') = pushed_texts (sh_calls h)"
  shows "input_ok h'"
  using assms by (simp add: input_ok_def)

lemma append_input_ok:
  assumes "input_ok h"
  shows "input_ok (fst (append_text outcome cmd h))"
proof -
  obtain h' res where ap: "append_text outcome cmd h = (h', res)" by fastforce
  then show ?thesis
  proof (cases rule: append_text_cases)
    case same
    with assms ap show ?thesis by simp
  next
    case new
    have n: "1 \<le> next_seq h" using assms by (simp add: input_ok_def)
    have up: "[1 .. next_seq h] = [1 .. next_seq h - 1] @ [next_seq h]"
      using n by (simp add: upto_rec2)
    have "map ((accepted_text h)(next_seq h \<mapsto> at_text cmd)) [1 .. next_seq h - 1] =
        map (accepted_text h) [1 .. next_seq h - 1]"
      by (rule map_cong) auto
    moreover have "{1 ..< next_seq h + 1} = insert (next_seq h) {1 ..< next_seq h}" using n by auto
    ultimately show ?thesis using assms ap new(1) by (simp add: input_ok_def up)
  qed
qed

lemma step_input_ok:
  assumes "handle_step h h'" and "input_ok h"
  shows "input_ok h'"
  using assms(1)
proof (cases rule: handle_step.cases)
  case (append outcome cmd)
  with append_input_ok [OF assms(2)] show ?thesis by simp
qed (use assms(2) in \<open>auto intro!: input_frame [OF assms(2)] simp: handle_started_def complete_input_def
      call_execution_def emit_def emit_terminal_def outputs_put_def resume_putter_def outputs_next_def
      cancel_begin_def cancel_end_def handle_close_def Let_def split: option.splits list.splits\<close>)

lemma reach_input_ok: "handle_reach h h' \<Longrightarrow> input_ok h \<Longrightarrow> input_ok h'"
  by (induction rule: handle_reach.induct) (auto dest: step_input_ok)

lemma output_frame:
  assumes "output_ok h" and "sh_yielded h' = sh_yielded h" and "sh_outputs h' = sh_outputs h"
    and "sh_putters h' = sh_putters h" and "sh_terminal h' = sh_terminal h" and "sh_done h' = sh_done h"
    and "output_queue_maxsize h' = output_queue_maxsize h"
  shows "output_ok h'"
  using assms by (simp add: output_ok_def in_flight_def)

lemma put_in_flight:
  "filter is_terminal (in_flight (outputs_put o' h)) =
     filter is_terminal (in_flight h) @ filter is_terminal [o']"
  if "is_terminal o' \<longrightarrow> filter is_terminal (in_flight h) = []"
  using that by (auto simp: outputs_put_def in_flight_def)

lemma put_fields [simp]:
  "sh_yielded (outputs_put o' h) = sh_yielded h" "sh_terminal (outputs_put o' h) = sh_terminal h"
  "sh_done (outputs_put o' h) = sh_done h" "sh_closed (outputs_put o' h) = sh_closed h"
  "output_queue_maxsize (outputs_put o' h) = output_queue_maxsize h"
  by (simp_all add: outputs_put_def)

lemma put_bound:
  "int (length (sh_outputs h)) \<le> output_queue_maxsize h \<Longrightarrow> 0 < output_queue_maxsize h \<Longrightarrow>
   int (length (sh_outputs (outputs_put o' h))) \<le> output_queue_maxsize h"
  by (auto simp: outputs_put_def outputs_full_def)

lemma emit_terminal_ok:
  assumes "output_ok h" and "is_terminal o'"
  shows "output_ok (emit_terminal o' h)"
proof (cases "sh_terminal h")
  case (Some t)
  with assms show ?thesis by (simp add: emit_terminal_def)
next
  case None
  let ?h = "h\<lparr>sh_terminal := Some o'\<rparr>"
  have nt: "filter is_terminal (in_flight ?h) = []" and nd: "\<not> sh_done h"
    using assms(1) None by (simp_all add: output_ok_def in_flight_def)
  have "int (length (sh_outputs (outputs_put o' ?h))) \<le> output_queue_maxsize ?h"
    by (rule put_bound) (use assms in \<open>simp_all add: output_ok_def\<close>)
  moreover have "sh_yielded h \<noteq> [] \<Longrightarrow> last (sh_yielded h) \<noteq> o'"
    using nt assms(2) by (auto simp: in_flight_def filter_empty_conv)
  ultimately show ?thesis
    using None nt nd assms put_in_flight [of o' ?h]
    by (auto simp: emit_terminal_def output_ok_def)
qed

lemma emit_ok:
  assumes "output_ok h"
  shows "output_ok (emit o' h)"
proof (cases "is_terminal o'")
  case True
  with assms emit_terminal_ok show ?thesis by (simp add: emit_def)
next
  case False
  then show ?thesis
    using assms put_in_flight [of o' h] put_bound [of h o'] by (auto simp: emit_def output_ok_def)
qed

lemma filter_move:
  "filter P (xs @ ys @ x # zs) = us \<Longrightarrow> length us \<le> 1 \<Longrightarrow> filter P (xs @ x # ys @ zs) = us"
  by (cases "P x") (auto simp: append_eq_Cons_conv)

lemma resume_putter_ok:
  assumes "output_ok h"
  shows "output_ok (resume_putter i h)"
proof (cases "i < length (sh_putters h) \<and> \<not> outputs_full h")
  case True
  let ?p = "sh_putters h"
  let ?t = "case sh_terminal h of None \<Rightarrow> [] | Some t \<Rightarrow> [t]"
  have "?p = take i ?p @ ?p ! i # drop (Suc i) ?p" using True by (simp add: id_take_nth_drop)
  then have "filter is_terminal ((sh_yielded h @ sh_outputs h) @ take i ?p @ ?p ! i # drop (Suc i) ?p) = ?t"
    using assms unfolding output_ok_def in_flight_def by (metis append_assoc)
  then have "filter is_terminal ((sh_yielded h @ sh_outputs h) @ ?p ! i # take i ?p @ drop (Suc i) ?p) = ?t"
    by (rule filter_move) (simp split: option.split)
  then show ?thesis
    using assms True by (auto simp: output_ok_def resume_putter_def in_flight_def outputs_full_def)
qed (use assms in \<open>auto simp: resume_putter_def\<close>)

lemma outputs_next_ok:
  assumes "output_ok h"
  shows "output_ok (outputs_next h)"
proof (cases "sh_done h \<or> sh_outputs h = []")
  case True
  with assms show ?thesis by (auto simp: outputs_next_def)
next
  case False
  then obtain o' os where os: "sh_outputs h = o' # os" and nd: "\<not> sh_done h" by (cases "sh_outputs h") auto
  have "filter is_terminal (sh_yielded h) = []" and
    fl: "filter is_terminal (in_flight h) = (case sh_terminal h of None \<Rightarrow> [] | Some t \<Rightarrow> [t])"
    using assms nd by (auto simp: output_ok_def)
  then have fr: "filter is_terminal (o' # os @ sh_putters h) =
      (case sh_terminal h of None \<Rightarrow> [] | Some t \<Rightarrow> [t])"
    using os by (simp add: in_flight_def)
  then have "is_terminal o' \<Longrightarrow> sh_terminal h = Some o'" by (simp split: option.splits)
  moreover have "sh_terminal h = Some o' \<Longrightarrow> is_terminal o'"
    using assms by (simp add: output_ok_def)
  ultimately show ?thesis
    using assms os nd fl by (auto simp: output_ok_def outputs_next_def in_flight_def)
qed

lemma step_output_ok:
  assumes "handle_step h h'" and "output_ok h"
  shows "output_ok h'"
  using assms(1)
proof (cases rule: handle_step.cases)
  case (append outcome cmd)
  obtain h1 res where ap: "append_text outcome cmd h = (h1, res)" by fastforce
  then have "output_ok h1"
    by (cases rule: append_text_cases) (auto intro!: output_frame [OF assms(2)] assms(2))
  with append ap show ?thesis by simp
next
  case (cancel_end outcome reason)
  have "output_ok (emit_terminal (cancelled_output reason h) h)"
    by (rule emit_terminal_ok [OF assms(2)]) (simp add: cancelled_output_def)
  with cancel_end assms(2) show ?thesis by (simp add: cancel_end_def split: option.split)
qed (use assms(2) in \<open>auto intro!: output_frame [OF assms(2)] emit_ok resume_putter_ok outputs_next_ok
      simp: handle_started_def complete_input_def call_execution_def
      cancel_begin_def handle_close_def Let_def split: option.splits\<close>)

lemma reach_output_ok: "handle_reach h h' \<Longrightarrow> output_ok h \<Longrightarrow> output_ok h'"
  by (induction rule: handle_reach.induct) (auto dest: step_output_ok)

lemma new_handle_ok: "0 < maxq \<Longrightarrow> input_ok (new_handle i c maxq) \<and> output_ok (new_handle i c maxq)"
  by (simp add: new_handle_def input_ok_def output_ok_def in_flight_def)

section \<open>Later states\<close>

lemma step_accepted:
  assumes "handle_step h h'" and "input_ok h"
  shows "accepted_text h \<subseteq>\<^sub>m accepted_text h' \<and>
    (input_complete h \<longrightarrow> input_complete h') \<and>
    (sh_terminal h \<noteq> None \<longrightarrow> sh_terminal h' = sh_terminal h) \<and>
    (input_complete h \<or> sh_terminal h \<noteq> None \<longrightarrow> pushed_texts (sh_calls h') = pushed_texts (sh_calls h))"
  using assms(1)
proof (cases rule: handle_step.cases)
  case (append outcome cmd)
  obtain h1 res where ap: "append_text outcome cmd h = (h1, res)" by fastforce
  then show ?thesis
  proof (cases rule: append_text_cases)
    case same
    with append ap show ?thesis by simp
  next
    case new
    from new(4) have "\<not> input_complete h" "sh_terminal h = None"
      by (auto simp: ensure_input_open_def split: if_splits)
    with new append ap show ?thesis by (auto simp: map_le_def)
  qed
qed (auto simp: handle_started_def complete_input_def call_execution_def emit_def emit_terminal_def
      outputs_put_def resume_putter_def outputs_next_def cancel_begin_def cancel_end_def
      handle_close_def Let_def split: option.splits list.splits)

lemma reach_accepted:
  assumes "handle_reach h h'" and "input_ok h"
  shows "accepted_text h \<subseteq>\<^sub>m accepted_text h' \<and>
    (input_complete h \<longrightarrow> input_complete h') \<and>
    (sh_terminal h \<noteq> None \<longrightarrow> sh_terminal h' = sh_terminal h) \<and>
    (input_complete h \<or> sh_terminal h \<noteq> None \<longrightarrow> pushed_texts (sh_calls h') = pushed_texts (sh_calls h))"
  using assms
proof (induction rule: handle_reach.induct)
  case (refl h)
  then show ?case by simp
next
  case (step h h1 h2)
  from step_accepted [OF step.hyps(2) reach_input_ok [OF step.hyps(1) step.prems]] step.IH [OF step.prems]
  show ?case by (auto intro: map_le_trans)
qed

section \<open>Properties of one session\<close>

text \<open>
  C33. Input numbering. In every state a new session can reach, whatever the order of
  commands, emissions, reads and backend failures, the accepted sequence numbers are exactly
  \<open>1, ..., accepted_text_seq\<close> and the execution was given exactly the accepted texts, each
  once and in the order of their numbers.
\<close>

theorem accepted_text_pushed_once:
  assumes "handle_reach (new_handle i c maxq) h" and "0 < maxq"
  shows "0 \<le> accepted_text_seq h \<and> dom (accepted_text h) = {1 .. accepted_text_seq h} \<and>
    pushed_texts (sh_calls h) = map (\<lambda>k. the (accepted_text h k)) [1 .. accepted_text_seq h]"
proof -
  have ok: "input_ok h" using reach_input_ok [OF assms(1)] new_handle_ok [OF assms(2)] by blast
  then have "map the (map Some (pushed_texts (sh_calls h))) =
      map the (map (accepted_text h) [1 .. next_seq h - 1])"
    by (simp add: input_ok_def)
  then show ?thesis using ok by (auto simp: input_ok_def accepted_text_seq_def comp_def)
qed

text \<open>
  Retries are idempotent. Once a text is accepted under a number, then in any later
  state that still takes input, sending the same number with the same text is acknowledged
  as a duplicate and sending it with another text is refused as a conflict; neither changes
  the session nor reaches the execution.
\<close>

theorem append_retry_idempotent:
  assumes "handle_reach (new_handle i c maxq) h" and "0 < maxq"
    and "append_text None cmd h = (h1, Inr ack)"
    and "handle_reach h1 h2" and "ensure_input_open h2 = None"
    and "at_seq_no cmd' = at_seq_no cmd" and "at_text cmd' \<noteq> []"
  shows "append_text outcome cmd' h2 =
    (h2, if at_text cmd' = at_text cmd
         then Inr \<lparr>ack_seq_no = at_seq_no cmd, ack_duplicate = True\<rparr>
         else Inl (SessionProtocolError Text_seq_conflict))"
proof -
  have ok: "input_ok h" using reach_input_ok [OF assms(1)] new_handle_ok [OF assms(2)] by blast
  have "accepted_text h1 (at_seq_no cmd) = Some (at_text cmd)" and pos: "0 < at_seq_no cmd"
    using assms(3) by (auto simp: append_text_def call_execution_def Let_def split: if_splits option.splits)
  moreover have "input_ok h1" using append_input_ok [OF ok, of None cmd] assms(3) by simp
  ultimately have "accepted_text h2 (at_seq_no cmd) = Some (at_text cmd)"
    using reach_accepted [OF assms(4)] by (fastforce simp: map_le_def dom_def)
  with assms(5-7) pos show ?thesis by (auto simp: append_text_def)
qed

text \<open>
  C36. The terminal output is unique and last. In every reachable state the outputs that are
  yielded, queued or waiting to be queued hold no terminal before the session is terminal
  and exactly that one afterwards, so it is never lost or doubled; what a reader got
  has a terminal output only in the last place, and the output queue keeps its bound.
\<close>

theorem terminal_output_unique:
  assumes "handle_reach (new_handle i c maxq) h" and "0 < maxq"
  shows "filter is_terminal (sh_yielded h @ sh_outputs h @ sh_putters h) =
      (case sh_terminal h of None \<Rightarrow> [] | Some t \<Rightarrow> [t]) \<and>
    filter is_terminal (butlast (sh_yielded h)) = [] \<and>
    (sh_done h \<longleftrightarrow> (\<exists>t. sh_terminal h = Some t \<and> sh_yielded h \<noteq> [] \<and> last (sh_yielded h) = t)) \<and>
    int (length (sh_outputs h)) \<le> output_queue_maxsize h"
proof -
  have ok: "output_ok h" using reach_output_ok [OF assms(1)] new_handle_ok [OF assms(2)] by blast
  have "filter is_terminal (butlast (sh_yielded h)) = []"
  proof (cases "sh_done h")
    case True
    with ok obtain t where t: "sh_terminal h = Some t" "sh_yielded h \<noteq> []" "last (sh_yielded h) = t"
      "is_terminal t" by (auto simp: output_ok_def)
    then have "sh_yielded h = butlast (sh_yielded h) @ [t]" by (metis append_butlast_last_id)
    then have "filter is_terminal (sh_yielded h) = filter is_terminal (butlast (sh_yielded h)) @ [t]"
      using t(4) by (metis filter.simps filter_append)
    moreover have "filter is_terminal (sh_yielded h) @ filter is_terminal (sh_outputs h @ sh_putters h) = [t]"
      using ok t(1) by (simp add: output_ok_def in_flight_def)
    ultimately show ?thesis by (simp add: append_eq_Cons_conv)
  next
    case False
    with ok show ?thesis by (auto simp: output_ok_def filter_empty_conv dest: in_set_butlastD)
  qed
  with ok show ?thesis unfolding output_ok_def in_flight_def by auto
qed

text \<open>
  No input after the end. Once the input is complete (by \<open>complete_input\<close> or \<open>cancel\<close>)
  or the session is terminal, no later state ever passes another text to the execution and
  every well-formed append is refused with the code that says why.
\<close>

theorem input_closed_for_good:
  assumes "handle_reach (new_handle i c maxq) h" and "0 < maxq"
    and "input_complete h \<or> sh_terminal h \<noteq> None" and "handle_reach h h2"
    and "0 < at_seq_no cmd" and "at_text cmd \<noteq> []"
  shows "pushed_texts (sh_calls h2) = pushed_texts (sh_calls h) \<and>
    append_text outcome cmd h2 =
      (h2, Inl (SessionProtocolError
                 (if sh_terminal h2 \<noteq> None then Handle_terminal else Input_already_complete)))"
proof -
  have "input_ok h" using reach_input_ok [OF assms(1)] new_handle_ok [OF assms(2)] by blast
  from reach_accepted [OF assms(4) this] assms(3,5,6) show ?thesis
    by (auto simp: append_text_def ensure_input_open_def)
qed

text \<open>
  A text whose \<open>push_text\<close> call raised counts as accepted: the number is used up before
  the call, so the client's retry is acknowledged as a duplicate and never reaches the
  execution again, although the first attempt failed there.
\<close>

theorem failed_push_is_not_retried:
  assumes "append_text (Some e) cmd h = (h1, Inl (BackendRaised e))"
  shows "append_text outcome cmd h1 = (h1, Inr \<lparr>ack_seq_no = at_seq_no cmd, ack_duplicate = True\<rparr>)"
  using assms by (auto simp: append_text_def call_execution_def ensure_input_open_def Let_def
      split: if_splits option.splits)

section \<open>Witnesses\<close>

definition ex_cmd :: "int \<Rightarrow> string \<Rightarrow> append_text_cmd" where
  "ex_cmd n s = \<lparr>at_seq_no = n, at_text = s, at_client_timestamp_ms = 0\<rparr>"

definition ex_h0 :: session_handle where
  "ex_h0 = handle_started (new_handle ''i'' ''c'' 2)"

definition ex_h1 :: session_handle where
  "ex_h1 = fst (append_text None (ex_cmd 1 ''a'') ex_h0)"

definition ex_h2 :: session_handle where
  "ex_h2 = fst (append_text None (ex_cmd 2 ''b'') ex_h1)"

definition ex_h3 :: session_handle where
  "ex_h3 = outputs_next (cancel_end None '''' (fst (cancel_begin '''' ex_h2)))"

lemmas ex_defs = ex_h0_def ex_h1_def ex_h2_def ex_cmd_def handle_started_def new_handle_def
  append_text_def call_execution_def ensure_input_open_def

lemma ex_reach0: "handle_reach (new_handle ''i'' ''c'' 2) ex_h0"
  unfolding ex_h0_def by (intro handle_reach.step [OF handle_reach.refl] handle_step.start)

lemma ex_reach1: "handle_reach (new_handle ''i'' ''c'' 2) ex_h1"
  unfolding ex_h1_def by (rule handle_reach.step [OF ex_reach0 handle_step.append])

lemma ex_reach12: "handle_reach ex_h1 ex_h2"
  unfolding ex_h2_def by (rule handle_reach.step [OF handle_reach.refl handle_step.append])

lemma ex_reach2: "handle_reach (new_handle ''i'' ''c'' 2) ex_h2"
  unfolding ex_h2_def by (rule handle_reach.step [OF ex_reach1 handle_step.append])

lemma ex_reach3: "handle_reach (new_handle ''i'' ''c'' 2) ex_h3"
  unfolding ex_h3_def
  by (rule handle_reach.step [OF handle_reach.step [OF handle_reach.step [OF ex_reach2
      handle_step.cancel_begin] handle_step.cancel_end] handle_step.yield])

theorem accepted_text_pushed_once_witness:
  "accepted_text_seq ex_h2 = 2 \<and> pushed_texts (sh_calls ex_h2) = [''a'', ''b''] \<and>
   dom (accepted_text ex_h2) = {1 .. 2}"
proof -
  have "accepted_text_seq ex_h2 = 2" by (simp add: ex_defs accepted_text_seq_def)
  moreover have "pushed_texts (sh_calls ex_h2) = [''a'', ''b'']" by (simp add: ex_defs)
  ultimately show ?thesis using accepted_text_pushed_once [OF ex_reach2] by simp
qed

theorem append_retry_idempotent_witness:
  "append_text None (ex_cmd 1 ''a'') ex_h2 = (ex_h2, Inr \<lparr>ack_seq_no = 1, ack_duplicate = True\<rparr>)"
proof -
  have "append_text None (ex_cmd 1 ''a'') ex_h0 =
      (ex_h1, Inr \<lparr>ack_seq_no = 1, ack_duplicate = False\<rparr>)"
    by (simp add: ex_defs)
  moreover have "ensure_input_open ex_h2 = None" by (simp add: ex_defs)
  ultimately show ?thesis
    using append_retry_idempotent [OF ex_reach0 _ _ ex_reach12, of "ex_cmd 1 ''a''" _ "ex_cmd 1 ''a''" None]
    by (simp add: ex_cmd_def)
qed

theorem terminal_output_unique_witness:
  "sh_done ex_h3 \<and> length (filter is_terminal (sh_yielded ex_h3)) = 1"
proof -
  have d: "sh_done ex_h3" by (simp add: ex_h3_def ex_defs outputs_next_def cancel_end_def cancel_begin_def
        emit_terminal_def outputs_put_def outputs_full_def cancelled_output_def)
  from terminal_output_unique [OF ex_reach3] d have
    "filter is_terminal (sh_yielded ex_h3 @ sh_outputs ex_h3 @ sh_putters ex_h3) =
      (case sh_terminal ex_h3 of None \<Rightarrow> [] | Some t \<Rightarrow> [t])"
    "\<exists>t. sh_terminal ex_h3 = Some t \<and> sh_yielded ex_h3 \<noteq> [] \<and> last (sh_yielded ex_h3) = t" by auto
  moreover have "sh_outputs ex_h3 = [] \<and> sh_putters ex_h3 = []"
    by (simp add: ex_h3_def ex_defs outputs_next_def cancel_end_def cancel_begin_def
        emit_terminal_def outputs_put_def outputs_full_def cancelled_output_def)
  ultimately show ?thesis using d by auto
qed

theorem input_closed_for_good_witness:
  "append_text None (ex_cmd 3 ''c'') ex_h3 = (ex_h3, Inl (SessionProtocolError Handle_terminal))"
proof -
  have "sh_terminal ex_h3 \<noteq> None"
    by (simp add: ex_h3_def ex_defs outputs_next_def cancel_end_def cancel_begin_def
        emit_terminal_def outputs_put_def outputs_full_def cancelled_output_def)
  then show ?thesis
    using input_closed_for_good [OF ex_reach3 _ _ handle_reach.refl, of "ex_cmd 3 ''c''" None]
    by (simp add: ex_cmd_def)
qed

theorem failed_push_is_not_retried_witness:
  "append_text None (ex_cmd 1 ''a'') (fst (append_text (Some ''down'') (ex_cmd 1 ''a'') ex_h0)) =
   (fst (append_text (Some ''down'') (ex_cmd 1 ''a'') ex_h0), Inr \<lparr>ack_seq_no = 1, ack_duplicate = True\<rparr>)"
proof -
  have "append_text (Some ''down'') (ex_cmd 1 ''a'') ex_h0 =
      (fst (append_text (Some ''down'') (ex_cmd 1 ''a'') ex_h0), Inl (BackendRaised ''down''))"
    by (simp add: ex_defs)
  from failed_push_is_not_retried [OF this, of None] show ?thesis by (simp add: ex_cmd_def)
qed

end
