(* ===== verification/Session_Registry.thy ===== *)
theory Session_Registry
  imports Session_Service
begin

text \<open>
  The registry \<open>SessionService\<close> of \<open>engine/session/service.py\<close>. Handles are objects that the
  registry and its callers share, so they live in a heap and the registry maps session ids
  to heap indices; the dictionary keeps its insertion order, in which \<open>close\<close> visits the
  handles. \<open>create\<close> awaits the backend between registering the handle and using it, and is
  split there.
\<close>

record session_service =
  sv_output_queue_maxsize :: int
  sv_sessions :: "(string \<times> nat) list"
  sv_heap :: "session_handle list"
  sv_backend_closed :: bool

definition new_service :: "int \<Rightarrow> py_error + session_service" where
  "new_service maxq =
     (if maxq \<le> 0 then Inl (ValueError ''output_queue_maxsize must be positive'')
      else Inr \<lparr>sv_output_queue_maxsize = maxq, sv_sessions = [], sv_heap = [], sv_backend_closed = False\<rparr>)"

definition service_create_begin ::
  "string \<Rightarrow> string \<Rightarrow> session_service \<Rightarrow> session_service \<times> (session_error + nat)" where
  "service_create_begin internal client sv =
     (if map_of (sv_sessions sv) internal \<noteq> None
      then (sv, Inl (SessionProtocolError Duplicate_session))
      else (let i = length (sv_heap sv)
            in (sv\<lparr>sv_heap := sv_heap sv @ [new_handle internal client (sv_output_queue_maxsize sv)],
                   sv_sessions := sv_sessions sv @ [(internal, i)]\<rparr>, Inr i)))"

definition service_create_end ::
  "nat \<Rightarrow> string option \<Rightarrow> session_service \<Rightarrow> session_service \<times> (session_error + nat)" where
  "service_create_end i outcome sv =
     (let h = sv_heap sv ! i
      in case outcome of
           None \<Rightarrow> (sv\<lparr>sv_heap := (sv_heap sv)[i := handle_started h]\<rparr>, Inr i)
         | Some e \<Rightarrow> (sv\<lparr>sv_sessions := dict_pop (sh_internal_session_id h) (sv_sessions sv)\<rparr>,
                      Inl (BackendRaised e)))"

definition service_get :: "string \<Rightarrow> session_service \<Rightarrow> session_error + nat" where
  "service_get internal sv =
     (case map_of (sv_sessions sv) internal of
        None \<Rightarrow> Inl (SessionProtocolError Session_not_found)
      | Some i \<Rightarrow> Inr i)"

definition heap_close :: "nat \<Rightarrow> session_service \<Rightarrow> session_service" where
  "heap_close i sv = sv\<lparr>sv_heap := (sv_heap sv)[i := handle_close (sv_heap sv ! i)]\<rparr>"

text \<open>
  Closing a handle. \<open>outcome\<close> is what the execution's \<open>close\<close> does; it is only called when the
  handle is open and has an execution.
\<close>

definition close_raises :: "string option \<Rightarrow> session_handle \<Rightarrow> string option" where
  "close_raises outcome h = (if \<not> sh_closed h \<and> sh_execution h then outcome else None)"

definition service_close_session ::
  "string option \<Rightarrow> string \<Rightarrow> session_service \<Rightarrow> session_service \<times> session_error option" where
  "service_close_session outcome internal sv =
     (case map_of (sv_sessions sv) internal of
        None \<Rightarrow> (sv, None)
      | Some i \<Rightarrow>
          (heap_close i (sv\<lparr>sv_sessions := dict_pop internal (sv_sessions sv)\<rparr>),
           map_option BackendRaised (close_raises outcome (sv_heap sv ! i))))"

fun close_handles ::
  "(nat \<Rightarrow> string option) \<Rightarrow> nat list \<Rightarrow> session_service \<Rightarrow> session_service \<times> session_error option" where
  "close_handles outcomes [] sv = (sv, None)"
| "close_handles outcomes (i # is) sv =
     (case close_raises (outcomes i) (sv_heap sv ! i) of
        Some e \<Rightarrow> (heap_close i sv, Some (BackendRaised e))
      | None \<Rightarrow> close_handles outcomes is (heap_close i sv))"

definition service_close ::
  "(nat \<Rightarrow> string option) \<Rightarrow> session_service \<Rightarrow> session_service \<times> session_error option" where
  "service_close outcomes sv =
     (let is = map snd (sv_sessions sv)
      in case close_handles outcomes is (sv\<lparr>sv_sessions := []\<rparr>) of
           (sv1, Some e) \<Rightarrow> (sv1, Some e)
         | (sv1, None) \<Rightarrow> (sv1\<lparr>sv_backend_closed := True\<rparr>, None))"

section \<open>The registry invariant\<close>

definition service_ok :: "session_service \<Rightarrow> bool" where
  "service_ok sv \<longleftrightarrow>
     distinct (map fst (sv_sessions sv)) \<and> distinct (map snd (sv_sessions sv)) \<and>
     (\<forall>(k, i) \<in> set (sv_sessions sv). i < length (sv_heap sv) \<and> sh_internal_session_id (sv_heap sv ! i) = k)"

lemma handle_close_id [simp]: "sh_internal_session_id (handle_close h) = sh_internal_session_id h"
  by (simp add: handle_close_def call_execution_def Let_def)

datatype service_op =
    CreateBegin string string
  | CreateEnd nat "string option"
  | CloseSession "string option" string
  | CloseService "nat \<Rightarrow> string option"

fun service_exec :: "service_op \<Rightarrow> session_service \<Rightarrow> session_service" where
  "service_exec (CreateBegin i c) sv = fst (service_create_begin i c sv)"
| "service_exec (CreateEnd n oc) sv = fst (service_create_end n oc sv)"
| "service_exec (CloseSession oc i) sv = fst (service_close_session oc i sv)"
| "service_exec (CloseService ocs) sv = fst (service_close ocs sv)"

lemma service_ok_pop:
  "service_ok sv \<Longrightarrow> service_ok (sv\<lparr>sv_sessions := dict_pop k (sv_sessions sv)\<rparr>)"
  using dict_pop_subset [of k "sv_sessions sv"] by (auto simp: service_ok_def)

lemma service_ok_heap:
  assumes "service_ok sv" and "length hs = length (sv_heap sv)"
    and "\<forall>i < length hs. sh_internal_session_id (hs ! i) = sh_internal_session_id (sv_heap sv ! i)"
  shows "service_ok (sv\<lparr>sv_heap := hs\<rparr>)"
  using assms by (fastforce simp: service_ok_def)

lemma heap_update_id:
  "sh_internal_session_id h = sh_internal_session_id (hs ! i) \<Longrightarrow>
   sh_internal_session_id (hs[i := h] ! j) = sh_internal_session_id (hs ! j)"
  by (cases "length hs \<le> i") (simp_all add: list_update_beyond nth_list_update)

lemma heap_close_ok: "service_ok sv \<Longrightarrow> service_ok (heap_close i sv)"
  unfolding heap_close_def
  by (rule service_ok_heap) (simp_all add: heap_update_id)

lemma close_handles_sessions:
  "service_ok sv \<Longrightarrow> service_ok (fst (close_handles ocs is sv))"
  by (induction ocs "is" sv rule: close_handles.induct) (auto simp: heap_close_ok split: option.split)

lemma create_begin_ok:
  assumes "service_ok sv"
  shows "service_ok (fst (service_create_begin i c sv))"
proof (cases "map_of (sv_sessions sv) i")
  case None
  then have "i \<notin> fst ` set (sv_sessions sv)" by (simp add: map_of_eq_None_iff)
  moreover have "length (sv_heap sv) \<notin> snd ` set (sv_sessions sv)"
    using assms by (auto simp: service_ok_def)
  ultimately show ?thesis
    using assms None
    by (auto simp: service_create_begin_def Let_def service_ok_def nth_append new_handle_def)
qed (use assms in \<open>auto simp: service_create_begin_def\<close>)

lemma create_end_ok:
  assumes "service_ok sv"
  shows "service_ok (fst (service_create_end i outcome sv))"
proof (cases outcome)
  case None
  have "service_ok (sv\<lparr>sv_heap := (sv_heap sv)[i := handle_started (sv_heap sv ! i)]\<rparr>)"
    by (rule service_ok_heap [OF assms]) (simp_all add: heap_update_id handle_started_def)
  with None show ?thesis by (simp add: service_create_end_def Let_def)
qed (use service_ok_pop [OF assms] in \<open>simp add: service_create_end_def Let_def\<close>)

lemma service_exec_ok:
  assumes "service_ok sv"
  shows "service_ok (service_exec op sv)"
proof (cases op)
  case (CloseSession oc i)
  with assms show ?thesis
    by (simp add: service_close_session_def heap_close_ok service_ok_pop split: option.split)
next
  case (CloseService ocs)
  have "service_ok (sv\<lparr>sv_sessions := []\<rparr>)" by (simp add: service_ok_def)
  from close_handles_sessions [OF this, of ocs "map snd (sv_sessions sv)"] CloseService
  show ?thesis
    by (auto simp: service_close_def Let_def service_ok_def split: prod.split option.split)
qed (use assms create_begin_ok create_end_ok in auto)

interpretation registry: op_system service_exec service_ok
  by unfold_locales (rule service_exec_ok)

section \<open>Properties of the registry\<close>

text \<open>
  The registry. From a new service and after any operations, session ids and handles
  are in a one-to-one relation, every registered handle carries its own id, \<open>get\<close> returns the
  handle registered under an id, a second \<open>create\<close> of a live id is refused and changes
  nothing, and after \<open>close_session\<close> the id is unknown.
\<close>

theorem registry_consistent:
  assumes "new_service maxq = Inr sv0"
  shows "let sv = fold service_exec ops sv0
         in distinct (map fst (sv_sessions sv)) \<and> distinct (map snd (sv_sessions sv)) \<and>
            (\<forall>i. service_get k sv = Inr i \<longrightarrow>
               i < length (sv_heap sv) \<and> sh_internal_session_id (sv_heap sv ! i) = k \<and>
               service_create_begin k c sv = (sv, Inl (SessionProtocolError Duplicate_session))) \<and>
            service_get k (fst (service_close_session oc k sv)) = Inl (SessionProtocolError Session_not_found)"
proof -
  have "service_ok sv0" using assms by (auto simp: new_service_def service_ok_def split: if_splits)
  then have "service_ok (fold service_exec ops sv0)" by (rule registry.run_inv)
  moreover define sv where "sv = fold service_exec ops sv0"
  ultimately have ok: "service_ok sv" by simp
  have "i < length (sv_heap sv) \<and> sh_internal_session_id (sv_heap sv ! i) = k \<and>
      service_create_begin k c sv = (sv, Inl (SessionProtocolError Duplicate_session))"
    if "service_get k sv = Inr i" for i
  proof -
    have lk: "map_of (sv_sessions sv) k = Some i"
      using that by (simp add: service_get_def split: option.splits)
    show ?thesis using ok map_of_SomeD [OF lk] lk by (auto simp: service_ok_def service_create_begin_def)
  qed
  moreover have "service_get k (fst (service_close_session oc k sv)) =
      Inl (SessionProtocolError Session_not_found)"
    by (simp add: service_get_def service_close_session_def heap_close_def split: option.split)
  moreover have "distinct (map fst (sv_sessions sv)) \<and> distinct (map snd (sv_sessions sv))"
    using ok by (simp add: service_ok_def)
  ultimately show ?thesis unfolding sv_def Let_def by blast
qed

lemma step_no_close:
  assumes "handle_step h h'" and "sh_closed h" and "CloseCall \<notin> set (sh_calls h)"
  shows "sh_closed h' \<and> CloseCall \<notin> set (sh_calls h')"
  using assms(1)
proof (cases rule: handle_step.cases)
  case (append outcome cmd)
  obtain h1 res where ap: "append_text outcome cmd h = (h1, res)" by fastforce
  then show ?thesis by (cases rule: append_text_cases) (use append ap assms in auto)
qed (use assms in \<open>auto simp: handle_started_def complete_input_def call_execution_def emit_def emit_terminal_def
      outputs_put_def resume_putter_def outputs_next_def cancel_begin_def cancel_end_def
      handle_close_def Let_def split: option.splits list.splits\<close>)

text \<open>
  C39. A session that is closed while the backend is still starting it is never shut down:
  \<open>close\<close> finds no execution to close and marks the handle closed, the execution arrives
  afterwards, and no later \<open>close\<close> reaches it. Whatever steps follow, the execution's \<open>close\<close>
  is never called.
\<close>

theorem closed_while_starting_leaks:
  assumes "handle_reach (handle_started (handle_close (new_handle i c maxq))) h"
  shows "CloseCall \<notin> set (sh_calls h)"
proof -
  have "sh_closed h \<and> CloseCall \<notin> set (sh_calls h)"
    if "handle_reach h0 h" "sh_closed h0" "CloseCall \<notin> set (sh_calls h0)" for h0
    using that by (induction rule: handle_reach.induct) (auto dest: step_no_close)
  from this [OF assms] show ?thesis
    by (simp add: handle_started_def handle_close_def new_handle_def)
qed

theorem closed_while_starting_leaks_witness:
  "sh_execution (handle_started (handle_close (new_handle ''i'' ''c'' 1))) \<and>
   CloseCall \<notin> set (sh_calls (handle_close (handle_started (handle_close (new_handle ''i'' ''c'' 1)))))"
  using closed_while_starting_leaks [OF handle_reach.step [OF handle_reach.refl handle_step.close]]
  by (simp add: handle_started_def)

definition ex_sv0 :: session_service where
  "ex_sv0 = \<lparr>sv_output_queue_maxsize = 2, sv_sessions = [], sv_heap = [], sv_backend_closed = False\<rparr>"

theorem registry_consistent_witness:
  "service_get ''x'' (fold service_exec [CreateBegin ''x'' ''c'', CreateEnd 0 None] ex_sv0) = Inr 0 \<and>
   service_create_begin ''x'' ''d'' (fold service_exec [CreateBegin ''x'' ''c'', CreateEnd 0 None] ex_sv0) =
     (fold service_exec [CreateBegin ''x'' ''c'', CreateEnd 0 None] ex_sv0,
      Inl (SessionProtocolError Duplicate_session))"
proof -
  have "new_service 2 = Inr ex_sv0" by (simp add: new_service_def ex_sv0_def)
  moreover have "service_get ''x'' (fold service_exec [CreateBegin ''x'' ''c'', CreateEnd 0 None] ex_sv0) = Inr 0"
    by code_simp
  ultimately show ?thesis
    using registry_consistent [of 2 ex_sv0 "[CreateBegin ''x'' ''c'', CreateEnd 0 None]" "''x''" "''d''"]
    unfolding Let_def by blast
qed

end
