(* ===== verification/Resumable_Session.thy ===== *)
theory Resumable_Session
  imports Delivery_Stream Session_Registry
begin

text \<open>
  The resumable session of \<open>engine/session/resumable.py\<close>: one logical session, its replay
  ledger, the pump task that moves the session's outputs into the ledger, the two expiry
  timers, and the registry that hands out sessions by resume token.

  A pending timer is a field that says so; its firing is a step. Awaits that can be
  overtaken split a method into steps. Calls of the execution handle get their outcome as
  an argument, as in the session theory.
\<close>

section \<open>State\<close>

datatype resumable_code =
    LedgerCode ledger_code
  | Resume_session_initialization_failed
  | Resume_session_not_found
  | Invalid_playback_progress
  | Invalid_resume_token
  | Resume_token_conflict

datatype resumable_error =
    ResumableSessionError resumable_code
  | SessionRaised session_error
  | LedgerRaised ledger_error
  | InitRaised py_error
  | AssertFailed
  | StillWaiting

datatype pump_state = PumpIdle | PumpRunning | PumpDone

record resumable_session =
  rs_token :: string
  rs_config_fingerprint :: string
  rs_protocol :: string
  rs_internal_session_id :: string
  rs_client_session_id :: string
  rs_metadata :: "(string \<times> pyobj) list"
  rs_ledger :: delivery_ledger
  rs_handle :: "session_handle option"
  rs_ready :: bool
  rs_initialization_error :: "string option"
  played_through_sample :: int
  buffered_through_sample :: int
  rs_pump :: pump_state
  rs_grace_task :: "int option"
  rs_terminal_task :: bool
  rs_closed :: bool

definition new_resumable ::
  "string \<Rightarrow> string \<Rightarrow> string \<Rightarrow> string \<Rightarrow> string \<Rightarrow> (string \<times> pyobj) list \<Rightarrow> int \<Rightarrow> int \<Rightarrow>
   py_error + resumable_session" where
  "new_resumable token fp proto internal client md max_bytes maxq =
     (case new_ledger token fp proto max_bytes maxq of
        Inl e \<Rightarrow> Inl e
      | Inr l \<Rightarrow> Inr \<lparr>rs_token = token, rs_config_fingerprint = fp, rs_protocol = proto,
                     rs_internal_session_id = internal, rs_client_session_id = client,
                     rs_metadata = md, rs_ledger = l, rs_handle = None, rs_ready = False,
                     rs_initialization_error = None, played_through_sample = 0,
                     buffered_through_sample = 0, rs_pump = PumpIdle, rs_grace_task = None,
                     rs_terminal_task = False, rs_closed = False\<rparr>)"

definition rs_accepted_text_seq :: "resumable_session \<Rightarrow> int" where
  "rs_accepted_text_seq s = (case rs_handle s of Some h \<Rightarrow> accepted_text_seq h | None \<Rightarrow> 0)"

definition rs_input_closed :: "resumable_session \<Rightarrow> bool" where
  "rs_input_closed s = (case rs_handle s of Some h \<Rightarrow> input_complete h | None \<Rightarrow> False)"

definition resume_info :: "resumable_session \<Rightarrow> (string \<times> pyobj) list" where
  "resume_info s =
     fold (\<lambda>(k, v). dict_set k v) (rs_metadata s)
       [(''acked_text_seq'', PyInt (rs_accepted_text_seq s)),
        (''input_closed'', PyBool (rs_input_closed s)),
        (''last_delivery_seq'', PyInt (last_delivery_seq (rs_ledger s))),
        (''audio_through_sample'', PyInt (next_audio_sample (rs_ledger s)))]"

section \<open>Operations of one session\<close>

text \<open>\<open>initialize\<close>, with the outcome of \<open>service.create\<close>.\<close>

definition rs_initialize ::
  "string + session_handle \<Rightarrow> resumable_session \<Rightarrow> resumable_session \<times> string option" where
  "rs_initialize created s =
     (case created of
        Inl e \<Rightarrow> (s\<lparr>rs_initialization_error := Some e, rs_ready := True\<rparr>, Some e)
      | Inr h \<Rightarrow> (s\<lparr>rs_handle := Some h, rs_pump := PumpRunning, rs_ready := True\<rparr>, None))"

definition wait_ready :: "resumable_session \<Rightarrow> resumable_error option" where
  "wait_ready s =
     (if \<not> rs_ready s then Some StillWaiting
      else if rs_initialization_error s \<noteq> None
      then Some (ResumableSessionError Resume_session_initialization_failed)
      else None)"

definition wrap_ledger :: "ledger_error \<Rightarrow> resumable_error" where
  "wrap_ledger e = ResumableSessionError (LedgerCode (err_code e))"

definition rs_attach ::
  "int \<Rightarrow> int \<Rightarrow> resumable_session \<Rightarrow> resumable_session \<times> (resumable_error + int)" where
  "rs_attach last_seq audio_through s =
     (case wait_ready s of
        Some e \<Rightarrow> (s, Inl e)
      | None \<Rightarrow>
        if rs_closed s then (s, Inl (ResumableSessionError Resume_session_not_found))
        else (case ledger_attach last_seq audio_through (rs_ledger s) of
                (l, Inr g) \<Rightarrow> (s\<lparr>rs_grace_task := None, rs_ledger := l\<rparr>, Inr g)
              | (l, Inl e) \<Rightarrow> (s\<lparr>rs_grace_task := None, rs_ledger := l\<rparr>, Inl (wrap_ledger e))))"

text \<open>\<open>detach\<close>: the ledger's part, and the arming of the grace timer when the result asks for it.\<close>

definition rs_detach_begin :: "int \<Rightarrow> resumable_session \<Rightarrow> resumable_session \<times> bool \<times> bool" where
  "rs_detach_begin g s =
     (let (l, detached) = ledger_detach g (rs_ledger s)
      in (s\<lparr>rs_ledger := l\<rparr>, detached, detached \<and> dl_terminal l = None))"

definition rs_detach_end :: "int \<Rightarrow> resumable_session \<Rightarrow> resumable_session" where
  "rs_detach_end g s = s\<lparr>rs_grace_task := Some g\<rparr>"

definition rs_require_generation :: "int \<Rightarrow> resumable_session \<Rightarrow> resumable_error option" where
  "rs_require_generation g s = map_option wrap_ledger (require_generation (rs_ledger s) g)"

text \<open>A command that the current generation gives to the handle.\<close>

definition with_handle ::
  "int \<Rightarrow> (session_handle \<Rightarrow> session_handle \<times> (session_error + 'a)) \<Rightarrow> resumable_session \<Rightarrow>
   resumable_session \<times> (resumable_error + 'a)" where
  "with_handle g f s =
     (case rs_require_generation g s of
        Some e \<Rightarrow> (s, Inl e)
      | None \<Rightarrow>
        (case rs_handle s of
           None \<Rightarrow> (s, Inl AssertFailed)
         | Some h \<Rightarrow>
             (case f h of
                (h', Inl e) \<Rightarrow> (s\<lparr>rs_handle := Some h'\<rparr>, Inl (SessionRaised e))
              | (h', Inr a) \<Rightarrow> (s\<lparr>rs_handle := Some h'\<rparr>, Inr a))))"

definition rs_append_text ::
  "string option \<Rightarrow> int \<Rightarrow> int \<Rightarrow> string \<Rightarrow> resumable_session \<Rightarrow>
   resumable_session \<times> (resumable_error + input_ack)" where
  "rs_append_text outcome g seq_no txt s =
     with_handle g (append_text outcome
       \<lparr>at_seq_no = seq_no, at_text = txt, at_client_timestamp_ms = 0\<rparr>) s"

definition rs_complete_input ::
  "string option \<Rightarrow> int \<Rightarrow> int \<Rightarrow> resumable_session \<Rightarrow>
   resumable_session \<times> (resumable_error + input_ack)" where
  "rs_complete_input outcome g final s =
     with_handle g (complete_input outcome \<lparr>final_seq_no = final, ci_client_timestamp_ms = 0\<rparr>) s"

text \<open>\<open>SessionHandle.cancel\<close> run to its end: an exception of the execution's \<open>cancel\<close> is its result.\<close>

definition handle_cancel ::
  "string option \<Rightarrow> string \<Rightarrow> session_handle \<Rightarrow> session_handle \<times> (session_error + unit)" where
  "handle_cancel outcome reason h =
     (case cancel_begin reason h of
        (h1, False) \<Rightarrow> (h1, Inr ())
      | (h1, True) \<Rightarrow>
          (let oc = (if sh_execution h then outcome else None)
           in (cancel_end oc reason h1,
               case oc of Some e \<Rightarrow> Inl (BackendRaised e) | None \<Rightarrow> Inr ())))"

definition rs_cancel ::
  "string option \<Rightarrow> int \<Rightarrow> string \<Rightarrow> resumable_session \<Rightarrow> resumable_session \<times> (resumable_error + unit)" where
  "rs_cancel outcome g reason s = with_handle g (handle_cancel outcome reason) s"

definition rs_acknowledge ::
  "int \<Rightarrow> int \<Rightarrow> int \<Rightarrow> resumable_session \<Rightarrow> resumable_session \<times> (resumable_error + unit)" where
  "rs_acknowledge g through audio s =
     (case ledger_acknowledge g through audio (rs_ledger s) of
        (l, Inr u) \<Rightarrow> (s\<lparr>rs_ledger := l\<rparr>, Inr u)
      | (l, Inl e) \<Rightarrow> (s\<lparr>rs_ledger := l\<rparr>, Inl (wrap_ledger e)))"

text \<open>The session's part of \<open>terminal_ack\<close>; on success the registry removes the session.\<close>

definition rs_terminal_ack ::
  "int \<Rightarrow> int \<Rightarrow> int \<Rightarrow> resumable_session \<Rightarrow> resumable_session \<times> (resumable_error + unit)" where
  "rs_terminal_ack g through audio s =
     (case rs_acknowledge g through audio s of
        (s1, Inl e) \<Rightarrow> (s1, Inl e)
      | (s1, Inr _) \<Rightarrow>
          (case ledger_terminal_ack g (rs_ledger s1) of
             (l, Inr u) \<Rightarrow> (s1\<lparr>rs_ledger := l\<rparr>, Inr u)
           | (l, Inl e) \<Rightarrow> (s1\<lparr>rs_ledger := l\<rparr>, Inl (wrap_ledger e))))"

definition record_playback_progress ::
  "int \<Rightarrow> int \<Rightarrow> int \<Rightarrow> int \<Rightarrow> resumable_session \<Rightarrow> resumable_session \<times> (resumable_error + unit)" where
  "record_playback_progress g played buffered seen s =
     (case rs_require_generation g s of
        Some e \<Rightarrow> (s, Inl e)
      | None \<Rightarrow>
        if played < 0 \<or> buffered < 0 then (s, Inl (ResumableSessionError Invalid_playback_progress))
        else if buffered < played then (s, Inl (ResumableSessionError Invalid_playback_progress))
        else if played \<le> played_through_sample s \<and> buffered \<le> buffered_through_sample s then (s, Inr ())
        else if played < played_through_sample s \<or> buffered < buffered_through_sample s
        then (s, Inl (ResumableSessionError Invalid_playback_progress))
        else (case audio_end_through_delivery (rs_ledger s) seen of
                Inl e \<Rightarrow> (s, Inl (wrap_ledger e))
              | Inr limit \<Rightarrow>
                  if limit < buffered then (s, Inl (ResumableSessionError Invalid_playback_progress))
                  else (s\<lparr>played_through_sample := played, buffered_through_sample := buffered\<rparr>, Inr ())))"

text \<open>
  \<open>close\<close>: exceptions of the handle's \<open>cancel\<close> are swallowed; an exception of the ledger's
  \<open>close\<close> leaves the method before the pump is stopped and the execution closed.
\<close>

definition rs_close ::
  "string option \<Rightarrow> string option \<Rightarrow> bool \<Rightarrow> bool \<Rightarrow> resumable_session \<Rightarrow>
   resumable_session \<times> (resumable_error + unit)" where
  "rs_close cancel_outcome close_outcome fence cancel s =
     (if rs_closed s then (s, Inr ())
      else (let s1 = s\<lparr>rs_closed := True, rs_grace_task := None, rs_terminal_task := False\<rparr>;
                s2 = (case rs_handle s1 of
                        Some h \<Rightarrow> if cancel \<and> sh_terminal h = None
                                  then s1\<lparr>rs_handle := Some (fst (handle_cancel cancel_outcome
                                                    ''resume_session_expired'' h))\<rparr>
                                  else s1
                      | None \<Rightarrow> s1)
            in case ledger_close fence (rs_ledger s2) of
                 (l, Inl e) \<Rightarrow> (s2\<lparr>rs_ledger := l\<rparr>, Inl (LedgerRaised e))
               | (l, Inr _) \<Rightarrow>
                   (let s3 = s2\<lparr>rs_ledger := l, rs_pump := PumpDone\<rparr>
                    in case rs_handle s3 of
                         None \<Rightarrow> (s3, Inr ())
                       | Some h \<Rightarrow>
                           (s3\<lparr>rs_handle := Some (handle_close h)\<rparr>,
                            case close_raises close_outcome h of
                              None \<Rightarrow> Inr ()
                            | Some e \<Rightarrow> Inl (SessionRaised (BackendRaised e))))))"

text \<open>
  One round of \<open>_pump_outputs\<close>: take the next output of the handle, publish it, and arm the
  terminal timer when the ledger is terminal. A ledger error ends the pump and cancels the
  handle. The output observer only watches and is not modelled.
\<close>

definition pump_step ::
  "(payload_body \<Rightarrow> nat) \<Rightarrow> string option \<Rightarrow> resumable_session \<Rightarrow> resumable_session" where
  "pump_step json_len cancel_outcome s =
     (case rs_handle s of
        None \<Rightarrow> s
      | Some h \<Rightarrow>
          if rs_pump s \<noteq> PumpRunning \<or> sh_outputs h = [] \<or> sh_done h then s
          else (let o' = hd (sh_outputs h);
                    h1 = outputs_next h
                in case ledger_publish json_len o' (rs_ledger s) of
                     (l, Inl _) \<Rightarrow>
                       s\<lparr>rs_ledger := l, rs_pump := PumpDone,
                         rs_handle := Some (if sh_terminal h1 = None
                                            then fst (handle_cancel cancel_outcome ''resume_buffer_exceeded'' h1)
                                            else h1)\<rparr>
                   | (l, Inr _) \<Rightarrow>
                       s\<lparr>rs_ledger := l, rs_handle := Some h1,
                         rs_pump := (if is_terminal o' then PumpDone else PumpRunning),
                         rs_terminal_task := (dl_terminal l \<noteq> None \<or> rs_terminal_task s)\<rparr>))"

section \<open>Registry\<close>

text \<open>
  \<open>ResumableSessionRegistry\<close>: sessions are shared objects in a heap, the registry maps tokens
  to heap indices. The length of the grace period is not modelled: a pending timer may fire
  at any time.
\<close>

record resumable_registry =
  rr_max_buffer_bytes :: int
  rr_attachment_queue_maxsize :: int
  rr_sessions :: "(string \<times> nat) list"
  rr_heap :: "resumable_session list"

definition new_registry :: "int \<Rightarrow> int \<Rightarrow> resumable_registry" where
  "new_registry max_bytes maxq =
     \<lparr>rr_max_buffer_bytes = max 1 max_bytes, rr_attachment_queue_maxsize = max 1 maxq,
      rr_sessions = [], rr_heap = []\<rparr>"

text \<open>\<open>claim_start\<close> up to \<open>initialize\<close>: the index and whether the session is new.\<close>

definition claim_start_begin ::
  "string \<Rightarrow> string \<Rightarrow> string \<Rightarrow> string \<Rightarrow> string \<Rightarrow> (string \<times> pyobj) list \<Rightarrow> resumable_registry \<Rightarrow>
   resumable_registry \<times> (resumable_error + nat \<times> bool)" where
  "claim_start_begin token fp proto internal client md rr =
     (if token = [] then (rr, Inl (ResumableSessionError Invalid_resume_token))
      else case map_of (rr_sessions rr) token of
        Some i \<Rightarrow>
          (let current = rr_heap rr ! i
           in if rs_config_fingerprint current \<noteq> fp \<or> rs_protocol current \<noteq> proto
              then (rr, Inl (ResumableSessionError Resume_token_conflict))
              else (rr, Inr (i, False)))
      | None \<Rightarrow>
          (case new_resumable token fp proto internal client md (rr_max_buffer_bytes rr)
                  (rr_attachment_queue_maxsize rr) of
             Inl e \<Rightarrow> (rr, Inl (InitRaised e))
           | Inr s \<Rightarrow>
               (rr\<lparr>rr_heap := rr_heap rr @ [s],
                   rr_sessions := rr_sessions rr @ [(token, length (rr_heap rr))]\<rparr>,
                Inr (length (rr_heap rr), True))))"

definition rr_update :: "nat \<Rightarrow> resumable_session \<Rightarrow> resumable_registry \<Rightarrow> resumable_registry" where
  "rr_update i s rr = rr\<lparr>rr_heap := (rr_heap rr)[i := s]\<rparr>"

definition registry_remove ::
  "string option \<Rightarrow> string option \<Rightarrow> nat \<Rightarrow> bool \<Rightarrow> bool \<Rightarrow> resumable_registry \<Rightarrow>
   resumable_registry \<times> (resumable_error + bool)" where
  "registry_remove cancel_outcome close_outcome i fence cancel rr =
     (let s = rr_heap rr ! i
      in if map_of (rr_sessions rr) (rs_token s) \<noteq> Some i then (rr, Inr False)
         else (let rr1 = rr\<lparr>rr_sessions := dict_pop (rs_token s) (rr_sessions rr)\<rparr>
               in case rs_close cancel_outcome close_outcome fence cancel s of
                    (s', Inl e) \<Rightarrow> (rr_update i s' rr1, Inl e)
                  | (s', Inr _) \<Rightarrow> (rr_update i s' rr1, Inr True)))"

text \<open>The end of \<open>claim_start\<close>: a failed initialisation removes the session and is raised again.\<close>

definition claim_start_end ::
  "string + session_handle \<Rightarrow> nat \<Rightarrow> resumable_registry \<Rightarrow> resumable_registry \<times> (resumable_error + nat)" where
  "claim_start_end created i rr =
     (case rs_initialize created (rr_heap rr ! i) of
        (s, None) \<Rightarrow> (rr_update i s rr, Inr i)
      | (s, Some e) \<Rightarrow>
          (case registry_remove None None i True True (rr_update i s rr) of
             (rr1, Inl err) \<Rightarrow> (rr1, Inl err)
           | (rr1, Inr _) \<Rightarrow> (rr1, Inl (SessionRaised (BackendRaised e)))))"

definition registry_find :: "string \<Rightarrow> string option \<Rightarrow> resumable_registry \<Rightarrow> resumable_error + nat" where
  "registry_find token proto rr =
     (case map_of (rr_sessions rr) token of
        None \<Rightarrow> Inl (ResumableSessionError Resume_session_not_found)
      | Some i \<Rightarrow>
          if proto \<noteq> None \<and> proto \<noteq> Some (rs_protocol (rr_heap rr ! i))
          then Inl (ResumableSessionError Resume_session_not_found)
          else (case wait_ready (rr_heap rr ! i) of Some e \<Rightarrow> Inl e | None \<Rightarrow> Inr i))"

text \<open>The body of \<open>expire_detached\<close> after its sleep, and of the terminal timer.\<close>

definition expire_detached ::
  "string option \<Rightarrow> string option \<Rightarrow> nat \<Rightarrow> resumable_registry \<Rightarrow> resumable_registry" where
  "expire_detached cancel_outcome close_outcome i rr =
     (let s = rr_heap rr ! i
      in if rs_grace_task s = None then rr
         else if has_attachment (rs_ledger s) then rr_update i (s\<lparr>rs_grace_task := None\<rparr>) rr
         else fst (registry_remove cancel_outcome close_outcome i False True rr))"

definition terminal_expiry :: "string option \<Rightarrow> nat \<Rightarrow> resumable_registry \<Rightarrow> resumable_registry" where
  "terminal_expiry close_outcome i rr =
     (if rs_terminal_task (rr_heap rr ! i)
      then fst (registry_remove None close_outcome i True False rr) else rr)"

definition registry_terminal_ack ::
  "string option \<Rightarrow> nat \<Rightarrow> int \<Rightarrow> int \<Rightarrow> int \<Rightarrow> resumable_registry \<Rightarrow>
   resumable_registry \<times> (resumable_error + unit)" where
  "registry_terminal_ack close_outcome i g through audio rr =
     (case rs_terminal_ack g through audio (rr_heap rr ! i) of
        (s, Inl e) \<Rightarrow> (rr_update i s rr, Inl e)
      | (s, Inr _) \<Rightarrow>
          (case registry_remove None close_outcome i False False (rr_update i s rr) of
             (rr1, Inl e) \<Rightarrow> (rr1, Inl e)
           | (rr1, Inr _) \<Rightarrow> (rr1, Inr ())))"

fun close_sessions ::
  "(nat \<Rightarrow> string option) \<Rightarrow> (nat \<Rightarrow> string option) \<Rightarrow> nat list \<Rightarrow> resumable_registry \<Rightarrow>
   resumable_registry \<times> resumable_error option" where
  "close_sessions cancels closes [] rr = (rr, None)"
| "close_sessions cancels closes (i # is) rr =
     (case rs_close (cancels i) (closes i) True True (rr_heap rr ! i) of
        (s, Inl e) \<Rightarrow> (rr_update i s rr, Some e)
      | (s, Inr _) \<Rightarrow> close_sessions cancels closes is (rr_update i s rr))"

definition registry_close ::
  "(nat \<Rightarrow> string option) \<Rightarrow> (nat \<Rightarrow> string option) \<Rightarrow> resumable_registry \<Rightarrow>
   resumable_registry \<times> resumable_error option" where
  "registry_close cancels closes rr =
     close_sessions cancels closes (map snd (rr_sessions rr)) (rr\<lparr>rr_sessions := []\<rparr>)"

section \<open>Runs of one session\<close>

text \<open>
  The steps of a session: commands of transports, emissions of the backend, rounds of the
  pump, and reads of attachment queues. \<open>RsInit\<close> carries the error of \<open>service.create\<close>, or
  \<open>None\<close> when it returned a started handle with an output queue of the given size.
\<close>

datatype rs_op =
    RsInit "string option" int
  | RsAttach int int
  | RsDetachBegin int
  | RsDetachEnd int
  | RsAppend "string option" int int string
  | RsComplete "string option" int int
  | RsCancel "string option" int string
  | RsAck int int int
  | RsTerminalAck int int int
  | RsProgress int int int int
  | RsClose "string option" "string option" bool bool
  | RsPump "string option"
  | RsGet int
  | RsEmit session_output
  | RsResume nat

definition map_handle :: "(session_handle \<Rightarrow> session_handle) \<Rightarrow> resumable_session \<Rightarrow> resumable_session" where
  "map_handle f s = s\<lparr>rs_handle := map_option f (rs_handle s)\<rparr>"

fun rs_exec :: "(payload_body \<Rightarrow> nat) \<Rightarrow> rs_op \<Rightarrow> resumable_session \<Rightarrow> resumable_session" where
  "rs_exec jl (RsInit err maxq) s =
     (if rs_ready s then s
      else fst (rs_initialize (case err of
                  Some e \<Rightarrow> Inl e
                | None \<Rightarrow> Inr (handle_started (new_handle (rs_internal_session_id s)
                                  (rs_client_session_id s) maxq))) s))"
| "rs_exec jl (RsAttach k a) s = fst (rs_attach k a s)"
| "rs_exec jl (RsDetachBegin g) s = fst (rs_detach_begin g s)"
| "rs_exec jl (RsDetachEnd g) s = rs_detach_end g s"
| "rs_exec jl (RsAppend oc g n t) s = fst (rs_append_text oc g n t s)"
| "rs_exec jl (RsComplete oc g n) s = fst (rs_complete_input oc g n s)"
| "rs_exec jl (RsCancel oc g r) s = fst (rs_cancel oc g r s)"
| "rs_exec jl (RsAck g t a) s = fst (rs_acknowledge g t a s)"
| "rs_exec jl (RsTerminalAck g t a) s = fst (rs_terminal_ack g t a s)"
| "rs_exec jl (RsProgress g p b n) s = fst (record_playback_progress g p b n s)"
| "rs_exec jl (RsClose oc oc' fence cancel) s = fst (rs_close oc oc' fence cancel s)"
| "rs_exec jl (RsPump oc) s = pump_step jl oc s"
| "rs_exec jl (RsGet g) s = s\<lparr>rs_ledger := fst (queue_get g (rs_ledger s))\<rparr>"
| "rs_exec jl (RsEmit o') s = map_handle (emit o') s"
| "rs_exec jl (RsResume i) s = map_handle (resume_putter i) s"

fun is_rs_close :: "rs_op \<Rightarrow> bool" where
  "is_rs_close (RsClose _ _ _ _) = True"
| "is_rs_close _ = False"

text \<open>The ledger operations that a step performs.\<close>

definition pump_output :: "resumable_session \<Rightarrow> session_output option" where
  "pump_output s =
     (case rs_handle s of
        None \<Rightarrow> None
      | Some h \<Rightarrow> if rs_pump s \<noteq> PumpRunning \<or> sh_outputs h = [] \<or> sh_done h then None
                 else Some (hd (sh_outputs h)))"

fun rs_ledger_ops :: "rs_op \<Rightarrow> resumable_session \<Rightarrow> ledger_op list" where
  "rs_ledger_ops (RsAttach k a) s =
     (if wait_ready s = None \<and> \<not> rs_closed s then [Attach k a] else [])"
| "rs_ledger_ops (RsDetachBegin g) s = [Detach g]"
| "rs_ledger_ops (RsAck g t a) s = [Acknowledge g t a]"
| "rs_ledger_ops (RsTerminalAck g t a) s =
     (case snd (ledger_acknowledge g t a (rs_ledger s)) of
        Inl _ \<Rightarrow> [Acknowledge g t a] | Inr _ \<Rightarrow> [Acknowledge g t a, TerminalAck g])"
| "rs_ledger_ops (RsClose oc oc' fence cancel) s = (if rs_closed s then [] else [Close fence])"
| "rs_ledger_ops (RsPump oc) s = (case pump_output s of None \<Rightarrow> [] | Some o' \<Rightarrow> [Publish o'])"
| "rs_ledger_ops (RsGet g) s = [Get g]"
| "rs_ledger_ops _ s = []"

fun rs_trace :: "(payload_body \<Rightarrow> nat) \<Rightarrow> rs_op list \<Rightarrow> resumable_session \<Rightarrow> ledger_op list" where
  "rs_trace jl [] s = []"
| "rs_trace jl (op # ops) s = rs_ledger_ops op s @ rs_trace jl ops (rs_exec jl op s)"

lemma with_handle_ledger [simp]: "rs_ledger (fst (with_handle g f s)) = rs_ledger s"
  by (simp add: with_handle_def split: option.split sum.split prod.split)

lemma with_handle_pump [simp]: "rs_pump (fst (with_handle g f s)) = rs_pump s"
  by (simp add: with_handle_def split: option.split sum.split prod.split)

lemma rs_close_ledger:
  "rs_ledger (fst (rs_close oc oc' fence cancel s)) =
     (if rs_closed s then rs_ledger s else fst (ledger_close fence (rs_ledger s)))"
  unfolding rs_close_def Let_def
  by (cases "rs_handle s") (simp_all split: option.split sum.split prod.split)

lemma pump_ledger:
  "rs_ledger (pump_step jl oc s) =
     (case pump_output s of None \<Rightarrow> rs_ledger s | Some o' \<Rightarrow> fst (ledger_publish jl o' (rs_ledger s)))"
  by (simp add: pump_step_def pump_output_def Let_def split: option.split sum.split prod.split)

text \<open>A session's ledger goes through exactly the ledger operations of its steps.\<close>

lemma rs_exec_ledger: "rs_ledger (rs_exec jl op s) = fold (ledger_exec jl) (rs_ledger_ops op s) (rs_ledger s)"
proof (cases op)
  case (RsTerminalAck g t a)
  then show ?thesis
    by (simp add: rs_terminal_ack_def rs_acknowledge_def split: option.split sum.split prod.split)
next
  case (RsAttach k a)
  then show ?thesis by (simp add: rs_attach_def split: option.split sum.split prod.split)
next
  case (RsProgress g p b n)
  then show ?thesis by (simp add: record_playback_progress_def split: option.split sum.split)
qed (simp_all add: rs_initialize_def rs_detach_begin_def rs_detach_end_def rs_append_text_def rs_complete_input_def
      rs_cancel_def rs_acknowledge_def rs_close_ledger pump_ledger map_handle_def
      split: option.split sum.split prod.split)

lemma rs_run_ledger:
  "rs_ledger (fold (rs_exec jl) ops s) = fold (ledger_exec jl) (rs_trace jl ops s) (rs_ledger s)"
  by (induction ops arbitrary: s) (simp_all add: rs_exec_ledger)

lemma rs_trace_open:
  "\<forall>op \<in> set ops. \<not> is_rs_close op \<Longrightarrow> \<forall>op \<in> set (rs_trace jl ops s). \<not> is_close op"
proof (induction ops arbitrary: s)
  case (Cons op ops)
  then have "\<forall>o' \<in> set (rs_ledger_ops op s). \<not> is_close o'"
    by (cases op) (auto split: option.splits sum.splits if_splits)
  with Cons show ?case by auto
qed simp

section \<open>The pump\<close>

lemma yielded_frame [simp]:
  "sh_yielded (fst (append_text oc cmd h)) = sh_yielded h"
  "sh_yielded (fst (complete_input oc cmd' h)) = sh_yielded h"
  "sh_yielded (emit o' h) = sh_yielded h"
  "sh_yielded (resume_putter i h) = sh_yielded h"
  "sh_yielded (fst (cancel_begin r h)) = sh_yielded h"
  "sh_yielded (cancel_end oc r h) = sh_yielded h"
  "sh_yielded (handle_close h) = sh_yielded h"
  by (simp_all add: append_text_def complete_input_def call_execution_def emit_def emit_terminal_def
      resume_putter_def cancel_begin_def cancel_end_def handle_close_def Let_def
      split: option.split)

lemma handle_cancel_yielded [simp]: "sh_yielded (fst (handle_cancel oc r h)) = sh_yielded h"
proof -
  obtain h1 b where cb: "cancel_begin r h = (h1, b)" by fastforce
  then have "sh_yielded h1 = sh_yielded h" using yielded_frame(5) [of r h] by simp
  then show ?thesis by (cases b) (simp_all add: handle_cancel_def cb Let_def)
qed

text \<open>No \<open>publish\<close> of the run was refused.\<close>

fun publishes_ok :: "(payload_body \<Rightarrow> nat) \<Rightarrow> ledger_op list \<Rightarrow> delivery_ledger \<Rightarrow> bool" where
  "publishes_ok jl [] l = True"
| "publishes_ok jl (op # ops) l =
     ((case op of Publish p \<Rightarrow> \<not> isl (snd (ledger_publish jl p l)) | _ \<Rightarrow> True)
      \<and> publishes_ok jl ops (ledger_exec jl op l))"

lemma publishes_ok_append:
  "publishes_ok jl (xs @ ys) l \<longleftrightarrow> publishes_ok jl xs l \<and> publishes_ok jl ys (fold (ledger_exec jl) xs l)"
  by (induction xs arbitrary: l) simp_all

text \<open>
  What the pump published is what it took from the handle, except that the output whose
  publication failed may be missing at the end; \<open>acc\<close> says that none failed so far.
\<close>

definition rs_yielded :: "resumable_session \<Rightarrow> session_output list" where
  "rs_yielded s = (case rs_handle s of None \<Rightarrow> [] | Some h \<Rightarrow> sh_yielded h)"

definition pump_ok :: "bool \<Rightarrow> reliable_delivery list \<Rightarrow> resumable_session \<Rightarrow> bool" where
  "pump_ok acc log s \<longleftrightarrow>
     (rs_ready s \<or> rs_handle s = None) \<and>
     (\<exists>xs. rs_yielded s = map rd_payload log @ xs \<and> length xs \<le> 1 \<and> (rs_pump s \<noteq> PumpDone \<or> acc \<longrightarrow> xs = []))"

lemma with_handle_yielded:
  assumes "\<And>h. sh_yielded (fst (f h)) = sh_yielded h"
  shows "rs_yielded (fst (with_handle g f s)) = rs_yielded s"
proof (cases "rs_handle s")
  case (Some h)
  then show ?thesis using assms [of h]
    by (cases "f h") (auto simp: with_handle_def rs_yielded_def split: option.splits sum.splits)
qed (simp add: with_handle_def rs_yielded_def split: option.splits)

lemma pump_ok_frame:
  assumes "pump_ok acc log s" and "rs_yielded s' = rs_yielded s" and "rs_pump s' = rs_pump s \<or> rs_pump s' = PumpDone"
    and "rs_ready s' \<or> rs_handle s' = None"
  shows "pump_ok acc log s'"
  using assms unfolding pump_ok_def by auto

lemma publish_payload:
  assumes "ledger_inv l" and "ledger_publish jl p l = (l', res)"
  shows "map rd_payload (log_step jl (Publish p) l) = [p] \<or> (log_step jl (Publish p) l = [] \<and> isl res)"
proof -
  have "attachment_ok l" using assms(1) by (simp add: ledger_inv_def)
  from this assms(2) show ?thesis
    by (cases rule: publish_cases) (auto simp: log_step_def assms(2) recorded_def publish_record_def)
qed

lemma pump_step_ok:
  assumes inv: "ledger_inv (rs_ledger s)" and ok: "pump_ok acc log s"
  shows "pump_ok (acc \<and> publishes_ok jl (rs_ledger_ops (RsPump oc) s) (rs_ledger s))
           (log @ published jl (rs_ledger_ops (RsPump oc) s) (rs_ledger s)) (pump_step jl oc s)"
proof (cases "pump_output s")
  case None
  then have "pump_step jl oc s = s"
    by (auto simp: pump_output_def pump_step_def split: option.splits if_splits)
  with None ok show ?thesis by simp
next
  case (Some o')
  then obtain h os where h: "rs_handle s = Some h" "rs_pump s = PumpRunning" "sh_outputs h = o' # os" "\<not> sh_done h"
    by (auto simp: pump_output_def neq_Nil_conv split: option.splits if_splits)
  obtain l res where pub: "ledger_publish jl o' (rs_ledger s) = (l, res)" by fastforce
  have y: "sh_yielded (outputs_next h) = sh_yielded h @ [o']" using h by (simp add: outputs_next_def)
  have log: "sh_yielded h = map rd_payload log" "rs_ready s"
    using ok h by (auto simp: pump_ok_def rs_yielded_def)
  note pl = publish_payload [OF inv pub]
  show ?thesis
  proof (cases res)
    case (Inl e)
    then have "rs_yielded (pump_step jl oc s) = sh_yielded h @ [o']" "rs_pump (pump_step jl oc s) = PumpDone"
      "rs_ready (pump_step jl oc s)"
      using h pub y log(2) by (simp_all add: pump_step_def rs_yielded_def Let_def)
    then show ?thesis using log(1) pl Some Inl pub by (auto simp: pump_ok_def)
  next
    case (Inr r)
    then have "rs_yielded (pump_step jl oc s) = sh_yielded h @ [o']" "rs_ready (pump_step jl oc s)"
      using h pub y log(2) by (simp_all add: pump_step_def rs_yielded_def Let_def)
    then show ?thesis using log(1) pl Some Inr by (auto simp: pump_ok_def)
  qed
qed

lemma with_handle_ready:
  "rs_ready (fst (with_handle g f s)) = rs_ready s"
  "rs_handle (fst (with_handle g f s)) = None \<longleftrightarrow> rs_handle s = None"
  by (simp_all add: with_handle_def split: option.split sum.split prod.split)

lemma rs_close_fields:
  "rs_ready (fst (rs_close oc oc' fence cancel s)) = rs_ready s"
  "rs_pump (fst (rs_close oc oc' fence cancel s)) = rs_pump s \<or>
   rs_pump (fst (rs_close oc oc' fence cancel s)) = PumpDone"
  "rs_handle (fst (rs_close oc oc' fence cancel s)) = None \<longleftrightarrow> rs_handle s = None"
  unfolding rs_close_def Let_def
  by (cases "rs_handle s", simp_all split: option.split sum.split prod.split)+

lemma rs_close_yielded: "rs_yielded (fst (rs_close oc oc' fence cancel s)) = rs_yielded s"
  unfolding rs_close_def Let_def rs_yielded_def
  by (cases "rs_handle s") (auto split: sum.split prod.split)

lemma with_handle_pump_ok:
  assumes "pump_ok acc log s" and "\<And>h. sh_yielded (fst (f h)) = sh_yielded h"
  shows "pump_ok acc log (fst (with_handle g f s))"
proof (rule pump_ok_frame [OF assms(1)])
  show "rs_yielded (fst (with_handle g f s)) = rs_yielded s" by (rule with_handle_yielded [OF assms(2)])
  show "rs_ready (fst (with_handle g f s)) \<or> rs_handle (fst (with_handle g f s)) = None"
    using assms(1) with_handle_ready [of g f s] by (simp add: pump_ok_def)
qed simp

lemma rs_exec_pump:
  assumes inv: "ledger_inv (rs_ledger s)" and ok: "pump_ok acc log s"
  shows "pump_ok (acc \<and> publishes_ok jl (rs_ledger_ops op s) (rs_ledger s))
           (log @ published jl (rs_ledger_ops op s) (rs_ledger s)) (rs_exec jl op s)"
proof (cases "\<exists>oc. op = RsPump oc")
  case True
  then obtain oc where "op = RsPump oc" by blast
  with pump_step_ok [OF assms, of jl oc] show ?thesis by simp
next
  case False
  then have no: "published jl (rs_ledger_ops op s) (rs_ledger s) = []"
    by (cases op) (auto simp: log_step_def split: sum.split)
  have acc: "publishes_ok jl (rs_ledger_ops op s) (rs_ledger s)"
    using False by (cases op) (auto split: sum.split)
  have ready: "rs_ready s \<or> rs_handle s = None" using ok by (simp add: pump_ok_def)
  have "pump_ok acc log (rs_exec jl op s)"
  proof (cases op)
    case (RsInit err maxq)
    show ?thesis
    proof (cases "rs_ready s")
      case False
      with ok have "log = []" by (auto simp: pump_ok_def rs_yielded_def)
      moreover have "rs_handle s = None" using ready False by simp
      ultimately show ?thesis using RsInit False
        by (auto simp: pump_ok_def rs_yielded_def rs_initialize_def handle_started_def new_handle_def
            split: option.split)
    qed (use RsInit ok in simp)
  next
    case (RsAttach k a)
    with ok ready show ?thesis
      by (auto simp: rs_attach_def rs_yielded_def split: option.splits sum.split prod.split
          intro!: pump_ok_frame [OF ok])
  next
    case (RsTerminalAck g t a)
    with ok ready show ?thesis
      by (auto simp: rs_terminal_ack_def rs_acknowledge_def rs_yielded_def split: sum.split prod.split
          intro!: pump_ok_frame [OF ok])
  next
    case (RsAck g t a)
    with ok ready show ?thesis
      by (auto simp: rs_acknowledge_def rs_yielded_def split: sum.split prod.split
          intro!: pump_ok_frame [OF ok])
  next
    case (RsProgress g p b n)
    with ok ready show ?thesis
      by (auto simp: record_playback_progress_def rs_yielded_def split: option.split sum.split
          intro!: pump_ok_frame [OF ok])
  next
    case (RsClose oc oc' fence cancel)
    with ready show ?thesis
      using rs_close_fields [of oc oc' fence cancel s]
      by (intro pump_ok_frame [OF ok]) (simp_all add: rs_close_yielded)
  next
    case (RsAppend oc g n t)
    with ok show ?thesis by (simp add: rs_append_text_def with_handle_pump_ok)
  next
    case (RsComplete oc g n)
    with ok show ?thesis by (simp add: rs_complete_input_def with_handle_pump_ok)
  next
    case (RsCancel oc g r)
    with ok show ?thesis by (simp add: rs_cancel_def with_handle_pump_ok)
  qed (use False ok ready in \<open>auto intro!: pump_ok_frame [OF ok] simp: rs_detach_begin_def rs_detach_end_def
        map_handle_def rs_yielded_def split: prod.split option.splits\<close>)
  with no acc show ?thesis by simp
qed

lemma published_append:
  "published jl (xs @ ys) l = published jl xs l @ published jl ys (fold (ledger_exec jl) xs l)"
  by (induction xs arbitrary: l) simp_all

lemma observed_append:
  "observed jl g (xs @ ys) l = observed jl g xs l @ observed jl g ys (fold (ledger_exec jl) xs l)"
  by (induction xs arbitrary: l) simp_all

lemma rs_run_pump:
  assumes "ledger_inv (rs_ledger s)" and "pump_ok acc log s"
  shows "pump_ok (acc \<and> publishes_ok jl (rs_trace jl ops s) (rs_ledger s))
           (log @ published jl (rs_trace jl ops s) (rs_ledger s)) (fold (rs_exec jl) ops s)"
  using assms
proof (induction ops arbitrary: s log acc)
  case (Cons op ops)
  have "ledger_inv (rs_ledger (rs_exec jl op s))"
    unfolding rs_exec_ledger by (rule generations.run_inv [OF Cons.prems(1)])
  from Cons.IH [OF this rs_exec_pump [OF Cons.prems]] show ?case
    by (simp add: published_append publishes_ok_append rs_exec_ledger conj_assoc)
qed simp

lemma new_resumable_ok:
  assumes "new_resumable token fp proto internal client md mb mq = Inr s"
  shows "new_ledger token fp proto mb mq = Inr (rs_ledger s)" and "pump_ok True [] s"
    and "played_through_sample s = 0" and "buffered_through_sample s = 0"
  using assms by (auto simp: new_resumable_def pump_ok_def rs_yielded_def split: sum.splits)

lemma rs_attach_ok:
  assumes "rs_attach k a s = (s1, Inr g)"
  obtains l where "ledger_attach k a (rs_ledger s) = (l, Inr g)" and "s1 = s\<lparr>rs_grace_task := None, rs_ledger := l\<rparr>"
  using assms by (auto simp: rs_attach_def split: option.splits if_splits prod.splits sum.splits)

section \<open>Properties of a resumable session\<close>

text \<open>
  C5. End to end. A resumable session is created, runs any steps short of \<open>close\<close>, and a
  transport attaches at delivery \<open>k\<close>; any steps follow (commands, emissions, pump rounds, other
  attachments, even \<open>close\<close>) in which no attachment queue overflows. The payloads that the
  transport reads or has queued are the outputs that the logical session yielded, from output
  \<open>k + 1\<close> on, in their order and without a gap. While the attachment is current they are all of
  them, the terminal output of a finished session included, unless the ledger refused a
  publication: that ends the pump, and exactly the refused output, the last one, is missing.
\<close>

theorem resumed_client_gets_session_outputs:
  assumes "new_resumable token fp proto internal client md mb mq = Inr s0"
    and "\<forall>op \<in> set ops0. \<not> is_rs_close op"
    and "rs_attach k a (fold (rs_exec jl) ops0 s0) = (s1, Inr g)"
    and "no_overflow jl (rs_trace jl ops s1) (rs_ledger s1)"
  shows "let s2 = fold (rs_exec jl) ops s1;
             got = map rd_payload (deliveries (observed jl g (rs_trace jl ops s1) (rs_ledger s1)
                                               @ queue_of g (rs_ledger s2)));
             expected = drop (nat k) (rs_yielded s2)
         in got = take (length got) expected \<and>
            (dl_attachment (rs_ledger s2) = Some g \<longrightarrow>
               got = expected \<or>
               (rs_pump s2 = PumpDone \<and> (\<exists>refused. expected = got @ [refused]) \<and>
                \<not> (publishes_ok jl (rs_trace jl ops0 s0) (rs_ledger s0) \<and>
                   publishes_ok jl (rs_trace jl ops s1) (rs_ledger s1))))"
proof -
  note s0 = new_resumable_ok [OF assms(1)]
  let ?s = "fold (rs_exec jl) ops0 s0"
  let ?t0 = "rs_trace jl ops0 s0"
  have inv0: "ledger_inv (rs_ledger s0)" using new_ledger_inv [OF s0(1)] by simp
  have reach: "reachable_open jl (rs_ledger s0) ?t0 (rs_ledger ?s)"
    unfolding reachable_open_def rs_run_ledger using s0(1) rs_trace_open [OF assms(2)] by blast
  note l = reachable_openD [OF reach]
  from assms(3) obtain l1 where at: "ledger_attach k a (rs_ledger ?s) = (l1, Inr g)"
    and s1: "s1 = ?s\<lparr>rs_grace_task := None, rs_ledger := l1\<rparr>" by (rule rs_attach_ok)
  define log0 where "log0 = published jl ?t0 (rs_ledger s0)"
  have st: "stream_ok k g log0 [] l1" using attach_stream_ok [OF l(1,2,4) at] by (simp add: log0_def)
  have inv1: "ledger_inv l1" using attach_inv [OF l(1), of k a] at by simp
  define acc0 where "acc0 \<longleftrightarrow> publishes_ok jl ?t0 (rs_ledger s0)"
  define acc where "acc \<longleftrightarrow> acc0 \<and> publishes_ok jl (rs_trace jl ops s1) (rs_ledger s1)"
  have p1: "pump_ok acc0 log0 s1"
    using rs_run_pump [OF inv0 s0(2), of jl ops0]
    by (auto simp: s1 log0_def acc0_def pump_ok_def rs_yielded_def)
  define s2 where "s2 = fold (rs_exec jl) ops s1"
  define log where "log = log0 @ published jl (rs_trace jl ops s1) (rs_ledger s1)"
  have p2: "pump_ok acc log s2" using rs_run_pump [OF _ p1] inv1 by (simp add: log_def acc_def s2_def s1)
  define got where "got = deliveries (observed jl g (rs_trace jl ops s1) (rs_ledger s1) @ queue_of g (rs_ledger s2))"
  have "stream_ok k g log (observed jl g (rs_trace jl ops s1) (rs_ledger s1)) (rs_ledger s2)"
    using run_keeps_stream [OF inv1 st, of jl "rs_trace jl ops s1"] assms(4)
    by (simp add: s1 log_def s2_def rs_run_ledger)
  then obtain zs where k: "nat k \<le> length log" and zs: "drop (nat k) log = got @ zs"
    "dl_attachment (rs_ledger s2) = Some g \<longrightarrow> zs = []"
    by (auto simp: stream_ok_def got_def)
  from p2 obtain xs where xs: "rs_yielded s2 = map rd_payload log @ xs" "length xs \<le> 1"
    "rs_pump s2 \<noteq> PumpDone \<or> acc \<longrightarrow> xs = []" by (auto simp: pump_ok_def)
  have d: "drop (nat k) (rs_yielded s2) = map rd_payload got @ map rd_payload zs @ xs"
    using xs(1) k zs(1) by (simp add: drop_map)
  have "xs = [] \<or> (\<exists>x. xs = [x])" using xs(2) by (cases xs) auto
  with d zs(2) xs(3) have "map rd_payload got = take (length (map rd_payload got)) (drop (nat k) (rs_yielded s2)) \<and>
      (dl_attachment (rs_ledger s2) = Some g \<longrightarrow> map rd_payload got = drop (nat k) (rs_yielded s2) \<or>
         (rs_pump s2 = PumpDone \<and> (\<exists>x. drop (nat k) (rs_yielded s2) = map rd_payload got @ [x]) \<and> \<not> acc))"
    by auto
  then show ?thesis unfolding Let_def s2_def got_def acc_def acc0_def .
qed

text \<open>The playback marks, and the audio published so far, only grow.\<close>

definition playback_ok :: "resumable_session \<Rightarrow> bool" where
  "playback_ok s \<longleftrightarrow>
     ledger_inv (rs_ledger s) \<and> 0 \<le> played_through_sample s \<and>
     played_through_sample s \<le> buffered_through_sample s \<and>
     buffered_through_sample s \<le> next_audio_sample (rs_ledger s)"

lemma ledger_exec_samples:
  assumes "ledger_inv l"
  shows "next_audio_sample l \<le> next_audio_sample (ledger_exec jl op l)"
proof -
  have att: "attachment_ok l" using assms by (simp add: ledger_inv_def)
  show ?thesis
  proof (cases op)
    case (Attach k a)
    obtain l' res where at: "ledger_attach k a l = (l', res)" by fastforce
    from att at show ?thesis by (cases rule: attach_cases) (use Attach at in \<open>auto simp: attached_def\<close>)
  next
    case (Publish p)
    obtain l' res where pub: "ledger_publish jl p l = (l', res)" by fastforce
    from att pub show ?thesis by (cases rule: publish_cases) (use Publish pub in \<open>auto simp: recorded_def\<close>)
  next
    case (Acknowledge g t a)
    obtain l' res where ack: "ledger_acknowledge g t a l = (l', res)" by fastforce
    from assms ack show ?thesis
      by (cases rule: acknowledge_cases) (use Acknowledge ack in \<open>auto simp: trimmed_def\<close>)
  qed (auto simp: ledger_detach_def ledger_terminal_ack_def queue_get_def ledger_close_def Let_def
        split: option.split list.split sum.split)
qed

interpretation sample_marks: watermark_system "ledger_exec jl" ledger_inv next_audio_sample
  by unfold_locales (auto intro: ledger_exec_inv ledger_exec_samples)

lemma audio_end_bound:
  assumes "ledger_inv l" and "audio_end_through_delivery l n = Inr m"
  shows "m \<le> next_audio_sample l"
proof -
  have ch: "chain (window_start l) (dl_records l)" "chain_end (window_start l) (dl_records l) = next_audio_sample l"
    "trimmed_audio_sample l \<le> window_start l"
    using assms(1) by (auto simp: ledger_inv_def records_ok_def window_ok_def)
  have "end_sample r \<le> chain_end s rs" if "r \<in> set rs" "chain s rs" for r rs s
    using that by (induction rs arbitrary: s) (auto dest: chain_end_ge)
  then have "end_sample r \<le> next_audio_sample l" if "r \<in> set (dl_records l)" for r
    using that ch by metis
  then show ?thesis
    using assms(2) ch chain_end_ge [OF ch(1)]
    by (auto simp: audio_end_through_delivery_def find_record_def find_Some_iff
        split: if_splits option.splits)
qed

lemma with_handle_marks [simp]:
  "played_through_sample (fst (with_handle g f s)) = played_through_sample s"
  "buffered_through_sample (fst (with_handle g f s)) = buffered_through_sample s"
  by (simp_all add: with_handle_def split: option.split sum.split prod.split)

lemma rs_close_marks:
  "played_through_sample (fst (rs_close oc oc' fence cancel s)) = played_through_sample s"
  "buffered_through_sample (fst (rs_close oc oc' fence cancel s)) = buffered_through_sample s"
  unfolding rs_close_def Let_def
  by (cases "rs_handle s", simp_all split: option.split sum.split prod.split)+

lemma rs_exec_marks:
  "(\<forall>g p b n. op \<noteq> RsProgress g p b n) \<Longrightarrow>
   played_through_sample (rs_exec jl op s) = played_through_sample s \<and>
   buffered_through_sample (rs_exec jl op s) = buffered_through_sample s"
proof (cases op)
  case (RsClose oc oc' fence cancel)
  then show ?thesis using rs_close_marks by simp
next
  case (RsPump oc)
  then show ?thesis
    by (simp add: pump_step_def Let_def split: option.split sum.split prod.split)
qed (auto simp: rs_initialize_def rs_attach_def rs_detach_begin_def rs_detach_end_def rs_append_text_def
      rs_complete_input_def rs_cancel_def rs_acknowledge_def rs_terminal_ack_def map_handle_def
      split: option.split sum.split prod.split)

lemma rs_exec_playback:
  assumes ok: "playback_ok s"
  shows "playback_ok (rs_exec jl op s) \<and>
    played_through_sample s \<le> played_through_sample (rs_exec jl op s) \<and>
    buffered_through_sample s \<le> buffered_through_sample (rs_exec jl op s)"
proof -
  have inv: "ledger_inv (rs_ledger s)" using ok by (simp add: playback_ok_def)
  have inv': "ledger_inv (rs_ledger (rs_exec jl op s))"
    unfolding rs_exec_ledger by (rule generations.run_inv [OF inv])
  have le: "next_audio_sample (rs_ledger s) \<le> next_audio_sample (rs_ledger (rs_exec jl op s))"
    unfolding rs_exec_ledger by (rule sample_marks.run_mark [OF inv])
  show ?thesis
  proof (cases "\<exists>g p b n. op = RsProgress g p b n")
    case True
    then obtain g p b n where op: "op = RsProgress g p b n" by blast
    have lim: "m \<le> next_audio_sample (rs_ledger s)" if "audio_end_through_delivery (rs_ledger s) n = Inr m" for m
      by (rule audio_end_bound [OF inv that])
    show ?thesis
      unfolding op rs_exec.simps record_playback_progress_def
      using ok by (auto simp: playback_ok_def dest!: lim split: option.splits sum.splits)
  next
    case False
    with rs_exec_marks [of op jl s] ok inv' le show ?thesis by (simp add: playback_ok_def)
  qed
qed

lemma new_ledger_samples: "new_ledger tok fp proto mb mq = Inr l \<Longrightarrow> next_audio_sample l = 0"
  by (auto simp: new_ledger_def split: if_splits)

interpretation playback: watermark_system "rs_exec jl" playback_ok played_through_sample
  by unfold_locales (use rs_exec_playback in blast)+

text \<open>
  Playback progress. Whatever steps a session goes through, the reported playback
  position never moves back, never passes what the client reported as buffered, and what is
  buffered never passes the audio published.
\<close>

theorem playback_monotone_and_bounded:
  assumes "new_resumable token fp proto internal client md mb mq = Inr s0" and "m \<le> n"
  shows "played_through_sample (fold (rs_exec jl) (take m ops) s0) \<le>
           played_through_sample (fold (rs_exec jl) (take n ops) s0) \<and>
         (let s = fold (rs_exec jl) (take n ops) s0
          in 0 \<le> played_through_sample s \<and> played_through_sample s \<le> buffered_through_sample s \<and>
             buffered_through_sample s \<le> next_audio_sample (rs_ledger s))"
proof -
  have "playback_ok s0"
    using new_resumable_ok [OF assms(1)] new_ledger_inv new_ledger_samples by (simp add: playback_ok_def)
  from playback.run_mark_between [OF this assms(2)] playback.run_inv [OF this] show ?thesis
    by (auto simp: Let_def playback_ok_def)
qed

lemma rs_exec_unattached:
  assumes "dl_attachment (rs_ledger s) = None" and "rs_grace_task s = None"
    and "\<forall>k a. op \<noteq> RsAttach k a" and "\<forall>g. op \<noteq> RsDetachEnd g"
  shows "dl_attachment (rs_ledger (rs_exec jl op s)) = None \<and> rs_grace_task (rs_exec jl op s) = None"
proof
  have step: "dl_attachment (ledger_exec jl lop l) = None"
    if "dl_attachment l = None" "\<forall>k a. lop \<noteq> Attach k a" for lop l
    using that by (cases lop) (auto simp: ledger_detach_def ledger_publish_def ledger_acknowledge_def
        ledger_terminal_ack_def queue_get_def ledger_close_def require_generation_def Let_def
        split: option.split sum.split prod.split list.split)
  have run: "dl_attachment (fold (ledger_exec jl) lops l) = None"
    if "dl_attachment l = None" "\<forall>lop \<in> set lops. \<forall>k a. lop \<noteq> Attach k a" for lops l
    using that by (induction lops arbitrary: l) (simp_all add: step)
  have "\<forall>lop \<in> set (rs_ledger_ops op s). \<forall>k a. lop \<noteq> Attach k a"
    using assms(3) by (cases op) (auto split: option.split sum.split)
  then show "dl_attachment (rs_ledger (rs_exec jl op s)) = None"
    unfolding rs_exec_ledger by (rule run [OF assms(1)])
  have close: "rs_grace_task (fst (rs_close oc oc' f c s)) = None" for oc oc' f c
    unfolding rs_close_def Let_def using assms(2)
    by (cases "rs_handle s") (simp_all split: option.split sum.split prod.split)
  show "rs_grace_task (rs_exec jl op s) = None"
    using assms(2-4) close
    by (cases op) (auto simp: rs_initialize_def rs_detach_begin_def rs_append_text_def rs_complete_input_def
        rs_cancel_def rs_acknowledge_def rs_terminal_ack_def record_playback_progress_def pump_step_def
        map_handle_def with_handle_def Let_def split: option.split sum.split prod.split)
qed

text \<open>
  A failed resume disarms expiry. A detached session whose grace timer is pending gets
  an attach that the ledger refuses, for instance with a stale cursor. The attach cancels
  the timer before it asks the ledger, and nothing arms it again: whatever steps follow
  short of another attach, the session has neither an attachment nor a timer that could
  remove it.
\<close>

theorem failed_attach_disarms_expiry:
  assumes "wait_ready s = None" and "\<not> rs_closed s"
    and "dl_attachment (rs_ledger s) = None" and "rs_grace_task s = Some g"
    and "0 \<le> k" and "0 \<le> a" and "dl_failure (rs_ledger s) = None"
    and "validate_cursor (rs_ledger s) k a = Some e"
    and "\<forall>op \<in> set ops. (\<forall>k a. op \<noteq> RsAttach k a) \<and> (\<forall>g. op \<noteq> RsDetachEnd g)"
  shows "snd (rs_attach k a s) = Inl (wrap_ledger e) \<and>
    (let s2 = fold (rs_exec jl) ops (fst (rs_attach k a s))
     in rs_grace_task s2 = None \<and> dl_attachment (rs_ledger s2) = None \<and>
        snd (rs_detach_begin g' s2) = (False, False))"
proof -
  have run: "dl_attachment (rs_ledger (fold (rs_exec jl) ops s)) = None \<and>
      rs_grace_task (fold (rs_exec jl) ops s) = None"
    if "dl_attachment (rs_ledger s) = None" "rs_grace_task s = None" for s
    using that assms(9) by (induction ops arbitrary: s) (simp_all add: rs_exec_unattached)
  have at: "rs_attach k a s = (s\<lparr>rs_grace_task := None, rs_ledger := rs_ledger s\<rparr>, Inl (wrap_ledger e))"
    using assms(1,2,5-8) by (simp add: rs_attach_def ledger_attach_def)
  have "dl_attachment (rs_ledger (fold (rs_exec jl) ops (fst (rs_attach k a s)))) = None \<and>
      rs_grace_task (fold (rs_exec jl) ops (fst (rs_attach k a s))) = None"
    by (rule run) (use at assms in auto)
  with at show ?thesis by (simp add: Let_def rs_detach_begin_def ledger_detach_def)
qed

text \<open>
  Closing against a full queue. When a session is closed with a fence while the queue of
  its attachment is full, the ledger's \<open>close\<close> raises; the session counts as closed, but
  neither is the pump stopped nor the execution closed, and no later \<open>close\<close> does it.
\<close>

theorem close_with_full_queue_leaks:
  assumes "\<not> rs_closed s" and "rs_handle s = Some h" and "dl_attachment (rs_ledger s) = Some g"
    and "dl_queues (rs_ledger s) g = Some q" and "0 < attachment_queue_maxsize (rs_ledger s)"
    and "attachment_queue_maxsize (rs_ledger s) \<le> int (length q)"
  shows "let (s1, res) = rs_close oc oc' True False s
         in res = Inl (LedgerRaised (LedgerError Attachment_overflow)) \<and>
            rs_closed s1 \<and> rs_pump s1 = rs_pump s \<and> rs_handle s1 = Some h \<and>
            rs_close oc2 oc2' fence cancel s1 = (s1, Inr ())"
  using assms by (simp add: rs_close_def ledger_close_def put_control_def Let_def)

section \<open>Properties of the token registry\<close>

definition rr_ok :: "resumable_registry \<Rightarrow> bool" where
  "rr_ok rr \<longleftrightarrow>
     distinct (map fst (rr_sessions rr)) \<and> distinct (map snd (rr_sessions rr)) \<and>
     0 < rr_max_buffer_bytes rr \<and> 0 < rr_attachment_queue_maxsize rr \<and>
     (\<forall>(k, i) \<in> set (rr_sessions rr). i < length (rr_heap rr) \<and> rs_token (rr_heap rr ! i) = k)"

datatype rr_op =
    RrClaimBegin string string string string string "(string \<times> pyobj) list"
  | RrClaimEnd "string + session_handle" nat
  | RrRemove "string option" "string option" nat bool bool
  | RrExpire "string option" "string option" nat
  | RrTerminalExpiry "string option" nat
  | RrTerminalAck "string option" nat int int int
  | RrClose "nat \<Rightarrow> string option" "nat \<Rightarrow> string option"
  | RrSession nat rs_op

fun rr_exec :: "(payload_body \<Rightarrow> nat) \<Rightarrow> rr_op \<Rightarrow> resumable_registry \<Rightarrow> resumable_registry" where
  "rr_exec jl (RrClaimBegin t fp pr i c md) rr = fst (claim_start_begin t fp pr i c md rr)"
| "rr_exec jl (RrClaimEnd cr i) rr = fst (claim_start_end cr i rr)"
| "rr_exec jl (RrRemove oc oc' i f c) rr = fst (registry_remove oc oc' i f c rr)"
| "rr_exec jl (RrExpire oc oc' i) rr = expire_detached oc oc' i rr"
| "rr_exec jl (RrTerminalExpiry oc i) rr = terminal_expiry oc i rr"
| "rr_exec jl (RrTerminalAck oc i g t a) rr = fst (registry_terminal_ack oc i g t a rr)"
| "rr_exec jl (RrClose cs cs') rr = fst (registry_close cs cs' rr)"
| "rr_exec jl (RrSession i op) rr = rr_update i (rs_exec jl op (rr_heap rr ! i)) rr"

lemma rs_close_token [simp]: "rs_token (fst (rs_close oc oc' fence cancel s)) = rs_token s"
  unfolding rs_close_def Let_def
  by (cases "rs_handle s") (simp_all split: option.split sum.split prod.split)

lemma rs_exec_token [simp]: "rs_token (rs_exec jl op s) = rs_token s"
proof (cases op)
  case (RsPump oc)
  then show ?thesis by (simp add: pump_step_def Let_def split: option.split sum.split prod.split)
qed (auto simp: rs_initialize_def rs_attach_def rs_detach_begin_def rs_detach_end_def rs_append_text_def
      rs_complete_input_def rs_cancel_def rs_acknowledge_def rs_terminal_ack_def map_handle_def
      with_handle_def record_playback_progress_def Let_def
      split: option.split sum.split prod.split)

lemma rr_update_ok:
  assumes "rr_ok rr" and "rs_token s = rs_token (rr_heap rr ! i)"
  shows "rr_ok (rr_update i s rr)"
proof -
  have "rs_token ((rr_heap rr)[i := s] ! j) = rs_token (rr_heap rr ! j)" for j
    using assms(2) by (cases "length (rr_heap rr) \<le> i") (simp_all add: list_update_beyond nth_list_update)
  with assms(1) show ?thesis by (auto simp: rr_ok_def rr_update_def)
qed

lemma rr_pop_ok: "rr_ok rr \<Longrightarrow> rr_ok (rr\<lparr>rr_sessions := dict_pop k (rr_sessions rr)\<rparr>)"
  using dict_pop_subset [of k "rr_sessions rr"] by (auto simp: rr_ok_def)

lemma remove_ok:
  assumes "rr_ok rr"
  shows "rr_ok (fst (registry_remove oc oc' i f c rr))"
proof -
  let ?rr = "rr\<lparr>rr_sessions := dict_pop (rs_token (rr_heap rr ! i)) (rr_sessions rr)\<rparr>"
  obtain s res where cl: "rs_close oc oc' f c (rr_heap rr ! i) = (s, res)" by fastforce
  then have "rs_token s = rs_token (rr_heap ?rr ! i)"
    using rs_close_token [of oc oc' f c "rr_heap rr ! i"] by simp
  from rr_update_ok [OF rr_pop_ok [OF assms] this] assms cl show ?thesis
    by (cases res) (simp_all add: registry_remove_def Let_def)
qed

lemma close_sessions_ok: "rr_ok rr \<Longrightarrow> rr_ok (fst (close_sessions cs cs' is rr))"
proof (induction cs cs' "is" rr rule: close_sessions.induct)
  case (2 cs cs' i "is" rr)
  obtain s res where cl: "rs_close (cs i) (cs' i) True True (rr_heap rr ! i) = (s, res)" by fastforce
  then have "rr_ok (rr_update i s rr)"
    using "2.prems" rs_close_token [of "cs i" "cs' i" True True "rr_heap rr ! i"] by (simp add: rr_update_ok)
  with "2.IH" cl show ?case by (cases res) auto
qed simp

lemma new_resumable_token:
  "new_resumable t fp pr i c md mb mq = Inr s \<Longrightarrow>
   rs_token s = t \<and> rs_config_fingerprint s = fp \<and> rs_protocol s = pr"
  by (auto simp: new_resumable_def split: sum.splits)

lemma claim_begin_ok:
  assumes "rr_ok rr"
  shows "rr_ok (fst (claim_start_begin t fp pr i c md rr))"
proof (cases "map_of (rr_sessions rr) t")
  case None
  then have "t \<notin> fst ` set (rr_sessions rr)" by (simp add: map_of_eq_None_iff)
  moreover have "length (rr_heap rr) \<notin> snd ` set (rr_sessions rr)" using assms by (auto simp: rr_ok_def)
  ultimately show ?thesis
    using assms None new_resumable_token
    by (auto simp: claim_start_begin_def rr_ok_def nth_append split: sum.split)
qed (use assms in \<open>auto simp: claim_start_begin_def Let_def\<close>)

lemma claim_end_ok:
  assumes "rr_ok rr"
  shows "rr_ok (fst (claim_start_end cr i rr))"
proof -
  obtain s res where ini: "rs_initialize cr (rr_heap rr ! i) = (s, res)" by fastforce
  then have "rs_token s = rs_token (rr_heap rr ! i)" by (auto simp: rs_initialize_def split: sum.splits)
  then have up: "rr_ok (rr_update i s rr)" by (rule rr_update_ok [OF assms])
  show ?thesis
  proof (cases res)
    case None
    with up ini show ?thesis by (simp add: claim_start_end_def)
  next
    case (Some e)
    obtain rr1 r where rem: "registry_remove None None i True True (rr_update i s rr) = (rr1, r)" by fastforce
    then have "rr_ok rr1" using remove_ok [OF up, of None None i True True] by simp
    with Some ini rem show ?thesis by (cases r) (simp_all add: claim_start_end_def)
  qed
qed

lemma terminal_ack_registry_ok:
  assumes "rr_ok rr"
  shows "rr_ok (fst (registry_terminal_ack oc i g t a rr))"
proof -
  obtain s res where ta: "rs_terminal_ack g t a (rr_heap rr ! i) = (s, res)" by fastforce
  have "rs_token s = rs_token (rr_heap rr ! i)"
    using rs_exec_token [of "\<lambda>_. 0" "RsTerminalAck g t a" "rr_heap rr ! i"] ta by simp
  then have up: "rr_ok (rr_update i s rr)" by (rule rr_update_ok [OF assms])
  obtain rr1 r where rem: "registry_remove None oc i False False (rr_update i s rr) = (rr1, r)" by fastforce
  then have "rr_ok rr1" using remove_ok [OF up, of None oc i False False] by simp
  with up ta rem show ?thesis
    by (cases res; cases r) (simp_all add: registry_terminal_ack_def)
qed

lemma rr_exec_ok:
  assumes "rr_ok rr"
  shows "rr_ok (rr_exec jl op rr)"
proof (cases op)
  case (RrClose cs cs')
  have "rr_ok (rr\<lparr>rr_sessions := []\<rparr>)" using assms by (simp add: rr_ok_def)
  with RrClose show ?thesis by (simp add: registry_close_def close_sessions_ok)
qed (use assms in \<open>simp_all add: claim_begin_ok claim_end_ok remove_ok terminal_ack_registry_ok rr_update_ok
      expire_detached_def terminal_expiry_def Let_def\<close>)

interpretation tokens: op_system "rr_exec jl" rr_ok
  by unfold_locales (rule rr_exec_ok)

text \<open>
  Resume tokens. From an empty registry and after any operations: a token that is found
  names a session that carries this token and, if asked for, the protocol; claiming a live
  token never creates a second session, it gives the same session to a client with the
  same configuration and protocol and a conflict to any other; and once the session is
  removed, or all are, the token is unknown.
\<close>

theorem resume_tokens_consistent:
  fixes jl mb mq ops
  defines "rr \<equiv> fold (rr_exec jl) ops (new_registry mb mq)"
  shows "(\<forall>i. registry_find t p rr = Inr i \<longrightarrow>
            i < length (rr_heap rr) \<and> rs_token (rr_heap rr ! i) = t \<and>
            (p = None \<or> p = Some (rs_protocol (rr_heap rr ! i))) \<and>
            claim_start_begin t fp pr ii c md rr =
              (rr, if t = [] then Inl (ResumableSessionError Invalid_resume_token)
                   else if fp = rs_config_fingerprint (rr_heap rr ! i) \<and> pr = rs_protocol (rr_heap rr ! i)
                   then Inr (i, False) else Inl (ResumableSessionError Resume_token_conflict)) \<and>
            registry_find t p' (fst (registry_remove oc oc' i f cn rr)) =
              Inl (ResumableSessionError Resume_session_not_found)) \<and>
         registry_find t p (fst (registry_close cs cs' rr)) = Inl (ResumableSessionError Resume_session_not_found)"
proof -
  have "rr_ok (new_registry mb mq)" by (simp add: rr_ok_def new_registry_def max_def)
  then have ok: "rr_ok rr" unfolding rr_def by (rule tokens.run_inv)
  have sess: "rr_sessions (fst (close_sessions cs cs' is r)) = rr_sessions r" for "is" r
    by (induction cs cs' "is" r rule: close_sessions.induct)
      (auto simp: rr_update_def split: prod.split sum.split)
  then have all: "registry_find t p (fst (registry_close cs cs' rr)) =
      Inl (ResumableSessionError Resume_session_not_found)"
    by (simp add: registry_find_def registry_close_def)
  have "i < length (rr_heap rr) \<and> rs_token (rr_heap rr ! i) = t \<and>
      (p = None \<or> p = Some (rs_protocol (rr_heap rr ! i))) \<and>
      map_of (rr_sessions rr) t = Some i" if "registry_find t p rr = Inr i" for i
  proof -
    have lk: "map_of (rr_sessions rr) t = Some i"
      and pr: "p = None \<or> p = Some (rs_protocol (rr_heap rr ! i))"
      using that by (auto simp: registry_find_def split: option.splits if_splits)
    with ok map_of_SomeD [OF lk] show ?thesis by (auto simp: rr_ok_def)
  qed
  moreover have "registry_find t p' (fst (registry_remove oc oc' i f cn rr)) =
      Inl (ResumableSessionError Resume_session_not_found)"
    if "map_of (rr_sessions rr) t = Some i" "rs_token (rr_heap rr ! i) = t" for i
    using that
    by (cases "rs_close oc oc' f cn (rr_heap rr ! i)", cases "snd (rs_close oc oc' f cn (rr_heap rr ! i))")
      (simp_all add: registry_remove_def registry_find_def rr_update_def Let_def)
  moreover have "claim_start_begin t fp pr ii c md rr =
      (rr, if t = [] then Inl (ResumableSessionError Invalid_resume_token)
           else if fp = rs_config_fingerprint (rr_heap rr ! i) \<and> pr = rs_protocol (rr_heap rr ! i)
           then Inr (i, False) else Inl (ResumableSessionError Resume_token_conflict))"
    if "map_of (rr_sessions rr) t = Some i" for i
    using that by (auto simp: claim_start_begin_def Let_def)
  ultimately show ?thesis using all by blast
qed

section \<open>Witnesses\<close>

text \<open>
  A session with a window of 100 bytes and queues of 2: two outputs are pumped, a transport
  attaches behind the first, a third output follows, and the terminal output ends the session.
\<close>

definition ex_rs0 :: resumable_session where
  "ex_rs0 = (case new_resumable ''t'' ''f'' ''p'' ''i'' ''c'' [] 100 2 of Inr s \<Rightarrow> s)"

definition ex_rs_ops0 :: "rs_op list" where
  "ex_rs_ops0 = [RsInit None 4, RsEmit (ex_audio 0), RsPump None, RsEmit (ex_audio 2), RsPump None]"

definition ex_rs :: resumable_session where
  "ex_rs = fold (rs_exec ex_jl) ex_rs_ops0 ex_rs0"

definition ex_rs1 :: resumable_session where
  "ex_rs1 = fst (rs_attach 1 2 ex_rs)"

definition ex_completed :: session_output where
  "ex_completed = TerminalOutput ''s'' COMPLETED ''completed'' [] []"

definition ex_rs_ops :: "rs_op list" where
  "ex_rs_ops = [RsEmit (ex_audio 4), RsPump None, RsGet 1, RsProgress 1 2 4 2, RsEmit ex_completed, RsPump None]"

lemma ex_rs_new: "new_resumable ''t'' ''f'' ''p'' ''i'' ''c'' [] 100 2 = Inr ex_rs0"
  by (simp add: ex_rs0_def new_resumable_def new_ledger_def)

theorem resumed_client_gets_session_outputs_witness:
  "let s2 = fold (rs_exec ex_jl) ex_rs_ops ex_rs1
   in map rd_payload (deliveries (observed ex_jl 1 (rs_trace ex_jl ex_rs_ops ex_rs1) (rs_ledger ex_rs1)
        @ queue_of 1 (rs_ledger s2))) = [ex_audio 2, ex_audio 4, ex_completed] \<and>
      rs_yielded s2 = [ex_audio 0, ex_audio 2, ex_audio 4, ex_completed] \<and> rs_pump s2 = PumpDone"
proof -
  let ?s2 = "fold (rs_exec ex_jl) ex_rs_ops ex_rs1"
  have "snd (rs_attach 1 2 ex_rs) = Inr 1" by code_simp
  then have at: "rs_attach 1 2 (fold (rs_exec ex_jl) ex_rs_ops0 ex_rs0) = (ex_rs1, Inr 1)"
    by (metis ex_rs1_def ex_rs_def prod.collapse)
  have op: "\<forall>op \<in> set ex_rs_ops0. \<not> is_rs_close op" by code_simp
  have "no_overflow ex_jl (rs_trace ex_jl ex_rs_ops ex_rs1) (rs_ledger ex_rs1)" by code_simp
  note th = resumed_client_gets_session_outputs [OF ex_rs_new op at this, unfolded Let_def]
  have "dl_attachment (rs_ledger ?s2) = Some 1" and fin: "rs_pump ?s2 = PumpDone" by code_simp+
  moreover have "publishes_ok ex_jl (rs_trace ex_jl ex_rs_ops0 ex_rs0) (rs_ledger ex_rs0) \<and>
      publishes_ok ex_jl (rs_trace ex_jl ex_rs_ops ex_rs1) (rs_ledger ex_rs1)" by code_simp
  ultimately have "map rd_payload (deliveries (observed ex_jl 1 (rs_trace ex_jl ex_rs_ops ex_rs1) (rs_ledger ex_rs1)
      @ queue_of 1 (rs_ledger ?s2))) = drop (nat 1) (rs_yielded ?s2)" using th by blast
  moreover have "rs_yielded ?s2 = [ex_audio 0, ex_audio 2, ex_audio 4, ex_completed]" by code_simp
  ultimately show ?thesis using fin by (simp add: Let_def)
qed

theorem playback_monotone_and_bounded_witness:
  "played_through_sample (fold (rs_exec ex_jl) (take 10 (ex_rs_ops0 @ [RsAttach 1 2] @ ex_rs_ops)) ex_rs0) = 2 \<and>
   played_through_sample (fold (rs_exec ex_jl) (take 3 (ex_rs_ops0 @ [RsAttach 1 2] @ ex_rs_ops)) ex_rs0) \<le>
   played_through_sample (fold (rs_exec ex_jl) (take 10 (ex_rs_ops0 @ [RsAttach 1 2] @ ex_rs_ops)) ex_rs0)"
proof
  show "played_through_sample (fold (rs_exec ex_jl) (take 10 (ex_rs_ops0 @ [RsAttach 1 2] @ ex_rs_ops)) ex_rs0) = 2"
    by code_simp
  show "played_through_sample (fold (rs_exec ex_jl) (take 3 (ex_rs_ops0 @ [RsAttach 1 2] @ ex_rs_ops)) ex_rs0) \<le>
      played_through_sample (fold (rs_exec ex_jl) (take 10 (ex_rs_ops0 @ [RsAttach 1 2] @ ex_rs_ops)) ex_rs0)"
    by (rule conjunct1 [OF playback_monotone_and_bounded [OF ex_rs_new]]) simp
qed

definition ex_rs_detached :: resumable_session where
  "ex_rs_detached = fold (rs_exec ex_jl) (ex_rs_ops0 @ [RsAttach 1 2, RsDetachBegin 1, RsDetachEnd 1]) ex_rs0"

theorem failed_attach_disarms_expiry_witness:
  "rs_grace_task ex_rs_detached = Some 1 \<and>
   rs_grace_task (fold (rs_exec ex_jl) [RsPump None] (fst (rs_attach 1 99 ex_rs_detached))) = None"
proof -
  have "wait_ready ex_rs_detached = None" "\<not> rs_closed ex_rs_detached"
    "dl_attachment (rs_ledger ex_rs_detached) = None" and g: "rs_grace_task ex_rs_detached = Some 1"
    and "dl_failure (rs_ledger ex_rs_detached) = None"
    "validate_cursor (rs_ledger ex_rs_detached) 1 99 = Some (LedgerError Cursor_ahead)"
    by code_simp+
  then show ?thesis
    using failed_attach_disarms_expiry [of ex_rs_detached 1 1 99 _ "[RsPump None]" ex_jl]
    by (simp add: Let_def)
qed

definition ex_rs_full :: resumable_session where
  "ex_rs_full = fold (rs_exec ex_jl) (ex_rs_ops0 @ [RsAttach 0 0]) ex_rs0"

theorem close_with_full_queue_leaks_witness:
  "snd (rs_close None None True False ex_rs_full) = Inl (LedgerRaised (LedgerError Attachment_overflow)) \<and>
   rs_pump (fst (rs_close None None True False ex_rs_full)) = PumpRunning"
proof -
  have pre: "rs_closed ex_rs_full = False" "dl_attachment (rs_ledger ex_rs_full) = Some 1"
    "attachment_queue_maxsize (rs_ledger ex_rs_full) = 2" "map_option length (dl_queues (rs_ledger ex_rs_full) 1) = Some 2"
    "rs_handle ex_rs_full \<noteq> None" "rs_pump ex_rs_full = PumpRunning"
    by code_simp+
  then obtain h q where "rs_handle ex_rs_full = Some h" "dl_queues (rs_ledger ex_rs_full) 1 = Some q"
    "length q = 2" by auto
  from close_with_full_queue_leaks [OF _ this(1) _ this(2)] this(3) pre show ?thesis
    by (simp add: Let_def case_prod_beta)
qed

definition ex_rr :: resumable_registry where
  "ex_rr = fold (rr_exec ex_jl)
     [RrClaimBegin ''t'' ''f'' ''p'' ''i'' ''c'' [], RrSession 0 (RsInit None 4)] (new_registry 100 2)"

theorem resume_tokens_consistent_witness:
  "registry_find ''t'' (Some ''p'') ex_rr = Inr 0 \<and>
   claim_start_begin ''t'' ''other'' ''p'' ''i'' ''c'' [] ex_rr =
     (ex_rr, Inl (ResumableSessionError Resume_token_conflict))"
proof -
  have f: "registry_find ''t'' (Some ''p'') ex_rr = Inr 0" by code_simp
  have "rs_config_fingerprint (rr_heap ex_rr ! 0) = ''f''" by code_simp
  moreover have "claim_start_begin ''t'' ''other'' ''p'' ''i'' ''c'' [] ex_rr =
      (ex_rr, if ''t'' = [] then Inl (ResumableSessionError Invalid_resume_token)
         else if ''other'' = rs_config_fingerprint (rr_heap ex_rr ! 0) \<and> ''p'' = rs_protocol (rr_heap ex_rr ! 0)
         then Inr (0, False) else Inl (ResumableSessionError Resume_token_conflict))"
    using resume_tokens_consistent [of "''t''" "Some ''p''" ex_jl
        "[RrClaimBegin ''t'' ''f'' ''p'' ''i'' ''c'' [], RrSession 0 (RsInit None 4)]" 100 2] f
    unfolding ex_rr_def [symmetric] by blast
  ultimately show ?thesis using f by simp
qed

end
