(* ===== verification/Mlfq.thy ===== *)
theory Mlfq
  imports Prelude "HOL-Library.Multiset"
begin

text \<open>
  The multi-level feedback queue of \<open>engine/core/mlfq.py\<close>, which picks the segments of the
  next decode batch. The per-segment \<open>MLFQMeta\<close> objects are mutated in place by the scheduler
  and identified by \<open>id\<close>, so they live in a store indexed by their identity.
\<close>

section \<open>State and events\<close>

record mlfq_config =
  q1_threshold :: int
  q2_threshold :: int
  aging_interval :: int
  starvation_limit :: int

record mlfq_meta =
  mm_level :: int
  decode_steps :: int
  last_scheduled_at :: int
  steps_since_schedule :: int

record mlfq_scheduler =
  mq_cfg :: mlfq_config
  global_step :: int
  scheduled_this_step :: "nat set"
  mq_metas :: "nat \<Rightarrow> mlfq_meta"

definition default_config :: mlfq_config where
  "default_config = \<lparr>q1_threshold = 50, q2_threshold = 200, aging_interval = 100, starvation_limit = 50\<rparr>"

definition default_meta :: mlfq_meta where
  "default_meta = \<lparr>mm_level = 0, decode_steps = 0, last_scheduled_at = 0, steps_since_schedule = 0\<rparr>"

definition new_scheduler :: "mlfq_config option \<Rightarrow> mlfq_scheduler" where
  "new_scheduler cfg =
     \<lparr>mq_cfg = (case cfg of Some c \<Rightarrow> c | None \<Rightarrow> default_config), global_step = 0,
      scheduled_this_step = {}, mq_metas = (\<lambda>_. default_meta)\<rparr>"

definition meta_reset :: "mlfq_meta \<Rightarrow> mlfq_meta" where
  "meta_reset m = m\<lparr>mm_level := 0, decode_steps := 0, steps_since_schedule := 0\<rparr>"

definition map_meta :: "nat \<Rightarrow> (mlfq_meta \<Rightarrow> mlfq_meta) \<Rightarrow> mlfq_scheduler \<Rightarrow> mlfq_scheduler" where
  "map_meta i f q = q\<lparr>mq_metas := (mq_metas q)(i := f (mq_metas q i))\<rparr>"

definition on_segment_created :: "nat \<Rightarrow> mlfq_scheduler \<Rightarrow> mlfq_scheduler" where
  "on_segment_created i q = map_meta i meta_reset q"

definition on_segment_boundary :: "nat \<Rightarrow> mlfq_scheduler \<Rightarrow> mlfq_scheduler" where
  "on_segment_boundary i q = map_meta i meta_reset q"

definition step_meta :: "mlfq_config \<Rightarrow> mlfq_meta \<Rightarrow> mlfq_meta" where
  "step_meta cfg m =
     (let m1 = m\<lparr>decode_steps := decode_steps m + 1\<rparr>
      in if mm_level m1 = 0 \<and> q1_threshold cfg \<le> decode_steps m1 then m1\<lparr>mm_level := 1\<rparr>
         else if mm_level m1 = 1 \<and> q2_threshold cfg \<le> decode_steps m1 then m1\<lparr>mm_level := 2\<rparr>
         else m1)"

definition on_step_done :: "nat \<Rightarrow> mlfq_scheduler \<Rightarrow> mlfq_scheduler" where
  "on_step_done i q = map_meta i (step_meta (mq_cfg q)) q"

definition on_scheduled :: "nat \<Rightarrow> mlfq_scheduler \<Rightarrow> mlfq_scheduler" where
  "on_scheduled i q =
     (map_meta i (\<lambda>m. m\<lparr>last_scheduled_at := global_step q, steps_since_schedule := 0\<rparr>) q)
       \<lparr>scheduled_this_step := insert i (scheduled_this_step q)\<rparr>"

section \<open>Batch selection\<close>

definition bucket_of :: "mlfq_meta \<Rightarrow> int" where
  "bucket_of m = min 2 (max 0 (mm_level m))"

definition bucket :: "('seg \<Rightarrow> nat) \<Rightarrow> mlfq_scheduler \<Rightarrow> int \<Rightarrow> 'seg list \<Rightarrow> 'seg list" where
  "bucket get_meta q lev cands = filter (\<lambda>s. bucket_of (mq_metas q (get_meta s)) = lev) cands"

text \<open>The inner loop over one bucket, and the outer loop over the levels.\<close>

fun take_bucket ::
  "('seg \<Rightarrow> nat) \<Rightarrow> int \<Rightarrow> 'seg list \<Rightarrow> 'seg list \<Rightarrow> mlfq_scheduler \<Rightarrow> mlfq_scheduler \<times> 'seg list" where
  "take_bucket get_meta max_batch [] result q = (q, result)"
| "take_bucket get_meta max_batch (s # ss) result q =
     (if max_batch \<le> int (length result) then (q, result)
      else take_bucket get_meta max_batch ss (result @ [s]) (on_scheduled (get_meta s) q))"

fun take_levels ::
  "('seg \<Rightarrow> nat) \<Rightarrow> int \<Rightarrow> 'seg list list \<Rightarrow> 'seg list \<Rightarrow> mlfq_scheduler \<Rightarrow> mlfq_scheduler \<times> 'seg list" where
  "take_levels get_meta max_batch [] result q = (q, result)"
| "take_levels get_meta max_batch (b # bs) result q =
     (case take_bucket get_meta max_batch b result q of
        (q1, result1) \<Rightarrow>
          if max_batch \<le> int (length result1) then (q1, result1)
          else take_levels get_meta max_batch bs result1 q1)"

definition select_batch ::
  "('seg \<Rightarrow> nat) \<Rightarrow> 'seg list \<Rightarrow> int \<Rightarrow> mlfq_scheduler \<Rightarrow> mlfq_scheduler \<times> 'seg list" where
  "select_batch get_meta cands max_batch q =
     take_levels get_meta max_batch (map (\<lambda>lev. bucket get_meta q lev cands) [0, 1, 2]) [] q"

section \<open>Tick\<close>

definition age_meta :: "nat set \<Rightarrow> nat \<Rightarrow> mlfq_meta \<Rightarrow> mlfq_meta" where
  "age_meta scheduled i m =
     (if i \<notin> scheduled then m\<lparr>steps_since_schedule := steps_since_schedule m + 1\<rparr> else m)"

definition starved :: "mlfq_config \<Rightarrow> mlfq_meta \<Rightarrow> bool" where
  "starved cfg m \<longleftrightarrow> 2 \<le> mm_level m \<and> starvation_limit cfg \<le> steps_since_schedule m"

fun age_all :: "nat set \<Rightarrow> nat list \<Rightarrow> mlfq_scheduler \<Rightarrow> mlfq_scheduler" where
  "age_all scheduled [] q = q"
| "age_all scheduled (i # is) q = age_all scheduled is (map_meta i (age_meta scheduled i) q)"

fun boost_all :: "nat list \<Rightarrow> mlfq_scheduler \<Rightarrow> int \<Rightarrow> mlfq_scheduler \<times> int" where
  "boost_all [] q n = (q, n)"
| "boost_all (i # is) q n =
     (if starved (mq_cfg q) (mq_metas q i)
      then boost_all is (map_meta i (\<lambda>m. m\<lparr>mm_level := 0, steps_since_schedule := 0\<rparr>) q) (n + 1)
      else boost_all is q n)"

text \<open>\<open>all_metas\<close>: \<open>None\<close> and the empty list skip the aging in the same way.\<close>

definition tick :: "nat list \<Rightarrow> mlfq_scheduler \<Rightarrow> mlfq_scheduler \<times> int" where
  "tick metas q =
     (let q1 = (age_all (scheduled_this_step q) metas q)
                 \<lparr>scheduled_this_step := {}, global_step := global_step q + 1\<rparr>
      in if metas \<noteq> [] \<and> 0 < aging_interval (mq_cfg q) \<and>
            global_step q1 mod aging_interval (mq_cfg q) = 0
         then boost_all metas q1 0 else (q1, 0))"

section \<open>Selection is a stable priority order\<close>

lemma take_bucket_spec:
  "snd (take_bucket gm mb ss res q) = res @ take (nat mb - length res) ss \<and>
   fst (take_bucket gm mb ss res q) = fold (\<lambda>s. on_scheduled (gm s)) (take (nat mb - length res) ss) q"
proof (induction gm mb ss res q rule: take_bucket.induct)
  case (2 gm mb s ss res q)
  show ?case
  proof (cases "mb \<le> int (length res)")
    case True
    then show ?thesis by simp
  next
    case False
    then have "nat mb - length res = Suc (nat mb - length (res @ [s]))" by (simp add: Suc_diff_Suc)
    with False "2.IH" show ?thesis by simp
  qed
qed simp

lemma take_levels_spec:
  "snd (take_levels gm mb bs res q) = res @ take (nat mb - length res) (concat bs) \<and>
   fst (take_levels gm mb bs res q) =
     fold (\<lambda>s. on_scheduled (gm s)) (take (nat mb - length res) (concat bs)) q"
proof (induction gm mb bs res q rule: take_levels.induct)
  case (2 gm mb b bs res q)
  obtain q1 res1 where tb: "take_bucket gm mb b res q = (q1, res1)" by fastforce
  then have r: "res1 = res @ take (nat mb - length res) b"
    and q: "q1 = fold (\<lambda>s. on_scheduled (gm s)) (take (nat mb - length res) b) q"
    using take_bucket_spec [of gm mb b res q] by auto
  have n: "nat mb - length res1 = nat mb - length res - length b" using r by auto
  show ?case
  proof (cases "mb \<le> int (length res1)")
    case True
    then have "nat mb - length res - length b = 0" using n by simp
    with True tb r q show ?thesis by simp
  next
    case False
    with "2.IH" [OF tb [symmetric] False] tb r q n show ?thesis by simp
  qed
qed simp

lemma bucket_cases: "bucket_of m = 0 \<or> bucket_of m = 1 \<or> bucket_of m = 2"
  by (auto simp: bucket_of_def min_def max_def)

lemma on_scheduled_other: "i \<noteq> j \<Longrightarrow> mq_metas (on_scheduled i q) j = mq_metas q j"
  by (simp add: on_scheduled_def map_meta_def)

lemma fold_scheduled:
  "mq_metas (fold (\<lambda>s. on_scheduled (gm s)) ss q) j =
     (if j \<in> gm ` set ss
      then (mq_metas q j)\<lparr>last_scheduled_at := global_step q, steps_since_schedule := 0\<rparr>
      else mq_metas q j) \<and>
   scheduled_this_step (fold (\<lambda>s. on_scheduled (gm s)) ss q) = scheduled_this_step q \<union> gm ` set ss \<and>
   global_step (fold (\<lambda>s. on_scheduled (gm s)) ss q) = global_step q \<and>
   mq_cfg (fold (\<lambda>s. on_scheduled (gm s)) ss q) = mq_cfg q"
  by (induction ss arbitrary: q) (auto simp: on_scheduled_def map_meta_def)

text \<open>The three buckets one after the other are the candidates stably sorted by level.\<close>

lemma buckets_sort:
  "concat (map (\<lambda>lev. bucket gm q lev cands) [0, 1, 2]) =
   sort_key (\<lambda>s. bucket_of (mq_metas q (gm s))) cands"
proof -
  let ?f = "\<lambda>s. bucket_of (mq_metas q (gm s))"
  let ?b = "\<lambda>lev. filter (\<lambda>s. ?f s = lev) cands"
  have "sort_key ?f cands = ?b 0 @ ?b 1 @ ?b 2"
  proof (rule properties_for_sort_key)
    show "mset (?b 0 @ ?b 1 @ ?b 2) = mset cands"
    proof (induction cands)
      case (Cons s ss)
      then show ?case using bucket_cases [of "mq_metas q (gm s)"] by auto
    qed simp
    have "filter (\<lambda>x. ?f k = ?f x) (?b lev) = (if ?f k = lev then ?b lev else [])" for k lev
      by (auto simp: filter_empty_conv intro: filter_cong)
    moreover have "filter (\<lambda>x. ?f k = ?f x) cands = ?b (?f k)" for k
      by (rule filter_cong) auto
    ultimately show "filter (\<lambda>x. ?f k = ?f x) (?b 0 @ ?b 1 @ ?b 2) = filter (\<lambda>x. ?f k = ?f x) cands" for k
      using bucket_cases [of "mq_metas q (gm k)"] by auto
    have "sorted (map ?f (?b lev))" for lev by (induction cands) auto
    then show "sorted (map ?f (?b 0 @ ?b 1 @ ?b 2))" by (auto simp: sorted_append)
  qed
  then show ?thesis by (simp add: bucket_def)
qed

lemma select_batch_result:
  "snd (select_batch gm cands mb q) = take (nat mb) (sort_key (\<lambda>s. bucket_of (mq_metas q (gm s))) cands)"
  using take_levels_spec [of gm mb "map (\<lambda>lev. bucket gm q lev cands) [0, 1, 2]" "[]" q]
  unfolding select_batch_def buckets_sort by simp

lemma select_batch_fold:
  "fst (select_batch gm cands mb q) =
     fold (\<lambda>s. on_scheduled (gm s)) (snd (select_batch gm cands mb q)) q"
  using take_levels_spec [of gm mb "map (\<lambda>lev. bucket gm q lev cands) [0, 1, 2]" "[]" q]
  unfolding select_batch_def buckets_sort by simp

text \<open>
  Batch selection. The batch is the longest prefix of at most \<open>max_batch\<close> candidates in
  the order of their levels, first come first served within a level (a stable sort), and
  exactly the selected segments are marked as scheduled at the current step.
\<close>

theorem select_batch_is_stable_priority:
  "select_batch gm cands mb q =
     (let batch = take (nat mb) (sort_key (\<lambda>s. bucket_of (mq_metas q (gm s))) cands)
      in (fst (select_batch gm cands mb q), batch)) \<and>
   (let (q1, batch) = select_batch gm cands mb q
    in scheduled_this_step q1 = scheduled_this_step q \<union> gm ` set batch \<and>
       (\<forall>j. mq_metas q1 j =
          (if j \<in> gm ` set batch
           then (mq_metas q j)\<lparr>last_scheduled_at := global_step q, steps_since_schedule := 0\<rparr>
           else mq_metas q j)))"
proof -
  let ?batch = "take (nat mb) (sort_key (\<lambda>s. bucket_of (mq_metas q (gm s))) cands)"
  have "select_batch gm cands mb q = (fold (\<lambda>s. on_scheduled (gm s)) ?batch q, ?batch)"
    using select_batch_fold [of gm cands mb q] select_batch_result [of gm cands mb q] by (metis prod.collapse)
  then show ?thesis using fold_scheduled [of gm ?batch q] by (simp add: Let_def)
qed

section \<open>No starvation on the lowest level\<close>

datatype mlfq_op =
    MCreated nat
  | MBoundary nat
  | MStep nat
  | MSelect "nat list" int
  | MTick "nat list"

fun mlfq_exec :: "mlfq_op \<Rightarrow> mlfq_scheduler \<Rightarrow> mlfq_scheduler" where
  "mlfq_exec (MCreated i) q = on_segment_created i q"
| "mlfq_exec (MBoundary i) q = on_segment_boundary i q"
| "mlfq_exec (MStep i) q = on_step_done i q"
| "mlfq_exec (MSelect cands mb) q = fst (select_batch id cands mb q)"
| "mlfq_exec (MTick ms) q = fst (tick ms q)"

text \<open>An operation leaves segment \<open>i\<close> waiting: it is active but neither stepped nor picked.\<close>

fun waits :: "nat \<Rightarrow> mlfq_op \<Rightarrow> mlfq_scheduler \<Rightarrow> bool" where
  "waits i (MCreated j) q = (j \<noteq> i)"
| "waits i (MBoundary j) q = (j \<noteq> i)"
| "waits i (MStep j) q = (j \<noteq> i)"
| "waits i (MSelect cands mb) q = (i \<notin> set (snd (select_batch id cands mb q)))"
| "waits i (MTick ms) q = (i \<in> set ms)"

fun waits_throughout :: "nat \<Rightarrow> mlfq_op list \<Rightarrow> mlfq_scheduler \<Rightarrow> bool" where
  "waits_throughout i [] q = True"
| "waits_throughout i (op # ops) q = (waits i op q \<and> waits_throughout i ops (mlfq_exec op q))"

fun is_tick :: "mlfq_op \<Rightarrow> bool" where
  "is_tick (MTick _) = True"
| "is_tick _ = False"

definition ticks :: "mlfq_op list \<Rightarrow> nat" where
  "ticks ops = length (filter is_tick ops)"

lemma ticks_simps [simp]:
  "ticks [] = 0" "ticks (op # ops) = (if is_tick op then Suc (ticks ops) else ticks ops)"
  by (simp_all add: ticks_def)

lemma age_all_spec:
  "mq_cfg (age_all sch is q) = mq_cfg q \<and>
   mm_level (mq_metas (age_all sch is q) i) = mm_level (mq_metas q i) \<and>
   steps_since_schedule (mq_metas q i) \<le> steps_since_schedule (mq_metas (age_all sch is q) i) \<and>
   (i \<in> set is \<longrightarrow> i \<notin> sch \<longrightarrow>
      steps_since_schedule (mq_metas q i) + 1 \<le> steps_since_schedule (mq_metas (age_all sch is q) i))"
proof (induction sch "is" q rule: age_all.induct)
  case (2 sch j "is" q)
  have "steps_since_schedule (mq_metas q i) \<le>
      steps_since_schedule (mq_metas (map_meta j (age_meta sch j) q) i)"
    "mm_level (mq_metas (map_meta j (age_meta sch j) q) i) = mm_level (mq_metas q i)"
    "mq_cfg (map_meta j (age_meta sch j) q) = mq_cfg q"
    "j = i \<Longrightarrow> i \<notin> sch \<Longrightarrow> steps_since_schedule (mq_metas (map_meta j (age_meta sch j) q) i) =
       steps_since_schedule (mq_metas q i) + 1"
    by (auto simp: map_meta_def age_meta_def)
  with "2.IH" show ?case by auto
qed simp

lemma boost_all_spec:
  "mq_cfg (fst (boost_all is q n)) = mq_cfg q \<and>
   global_step (fst (boost_all is q n)) = global_step q \<and>
   scheduled_this_step (fst (boost_all is q n)) = scheduled_this_step q \<and>
   (mq_metas (fst (boost_all is q n)) i = mq_metas q i \<or> mm_level (mq_metas (fst (boost_all is q n)) i) = 0) \<and>
   (i \<in> set is \<longrightarrow> starved (mq_cfg q) (mq_metas q i) \<longrightarrow>
      mm_level (mq_metas (fst (boost_all is q n)) i) = 0)"
proof (induction "is" q n rule: boost_all.induct)
  case (2 j "is" q n)
  let ?q = "map_meta j (\<lambda>m. m\<lparr>mm_level := 0, steps_since_schedule := 0\<rparr>) q"
  have q: "mq_cfg ?q = mq_cfg q" "global_step ?q = global_step q"
    "scheduled_this_step ?q = scheduled_this_step q"
    "mq_metas ?q i = (if i = j then (mq_metas q j)\<lparr>mm_level := 0, steps_since_schedule := 0\<rparr> else mq_metas q i)"
    by (simp_all add: map_meta_def)
  show ?case
  proof (cases "starved (mq_cfg q) (mq_metas q j)")
    case True
    with "2.IH"(1) q show ?thesis by (cases "i = j") auto
  next
    case False
    with "2.IH"(2) show ?thesis by auto
  qed
qed simp

lemma tick_waiting:
  assumes "i \<in> set ms" and "2 \<le> mm_level (mq_metas q i)" and "i \<notin> scheduled_this_step q"
  shows "mq_cfg (fst (tick ms q)) = mq_cfg q \<and>
    (mm_level (mq_metas (fst (tick ms q)) i) = 0 \<or>
     (mm_level (mq_metas (fst (tick ms q)) i) = mm_level (mq_metas q i) \<and>
      i \<notin> scheduled_this_step (fst (tick ms q)) \<and> global_step (fst (tick ms q)) = global_step q + 1 \<and>
      steps_since_schedule (mq_metas q i) + 1 \<le> steps_since_schedule (mq_metas (fst (tick ms q)) i))) \<and>
    (0 < aging_interval (mq_cfg q) \<longrightarrow> (global_step q + 1) mod aging_interval (mq_cfg q) = 0 \<longrightarrow>
     starvation_limit (mq_cfg q) \<le> steps_since_schedule (mq_metas q i) + 1 \<longrightarrow>
     mm_level (mq_metas (fst (tick ms q)) i) = 0)"
proof -
  define q1 where "q1 = (age_all (scheduled_this_step q) ms q)\<lparr>scheduled_this_step := {}, global_step := global_step q + 1\<rparr>"
  have q1: "mq_cfg q1 = mq_cfg q" "global_step q1 = global_step q + 1" "scheduled_this_step q1 = {}"
    "mm_level (mq_metas q1 i) = mm_level (mq_metas q i)"
    "steps_since_schedule (mq_metas q i) + 1 \<le> steps_since_schedule (mq_metas q1 i)"
    using age_all_spec [of "scheduled_this_step q" ms q i] assms(1,3) by (simp_all add: q1_def)
  have ms: "ms \<noteq> []" using assms(1) by auto
  show ?thesis
  proof (cases "0 < aging_interval (mq_cfg q) \<and> (global_step q + 1) mod aging_interval (mq_cfg q) = 0")
    case True
    then have t: "tick ms q = boost_all ms q1 0" using ms by (simp add: tick_def Let_def q1_def)
    show ?thesis
      using boost_all_spec [of ms q1 0 i] q1 assms by (auto simp: t starved_def)
  next
    case False
    then have t: "tick ms q = (q1, 0)" by (auto simp: tick_def Let_def q1_def)
    show ?thesis using q1 False assms by (auto simp: t)
  qed
qed

lemma other_waiting:
  assumes "waits i op q" and "\<not> is_tick op"
  shows "mq_metas (mlfq_exec op q) i = mq_metas q i \<and> mq_cfg (mlfq_exec op q) = mq_cfg q \<and>
    global_step (mlfq_exec op q) = global_step q \<and>
    (i \<in> scheduled_this_step (mlfq_exec op q) \<longleftrightarrow> i \<in> scheduled_this_step q)"
proof (cases op)
  case (MSelect cands mb)
  obtain q1 batch where sel: "select_batch id cands mb q = (q1, batch)" by fastforce
  then show ?thesis
    using MSelect assms(1) select_batch_fold [of id cands mb q] fold_scheduled [of id batch q i] by simp
qed (use assms in \<open>auto simp: on_segment_created_def on_segment_boundary_def on_step_done_def map_meta_def\<close>)

lemma waiting_is_boosted:
  assumes "waits_throughout i ops q" and "2 \<le> mm_level (mq_metas q i)" and "i \<notin> scheduled_this_step q"
    and "0 < aging_interval (mq_cfg q)" and "1 \<le> k" and "k \<le> ticks ops"
    and "(global_step q + int k) mod aging_interval (mq_cfg q) = 0"
    and "starvation_limit (mq_cfg q) \<le> steps_since_schedule (mq_metas q i) + int k"
  shows "\<exists>n \<le> length ops. mm_level (mq_metas (fold mlfq_exec (take n ops) q) i) = 0"
  using assms
proof (induction ops arbitrary: q k)
  case Nil
  then show ?case by simp
next
  case (Cons op ops)
  let ?q = "mlfq_exec op q"
  have later: ?case if "\<exists>n \<le> length ops. mm_level (mq_metas (fold mlfq_exec (take n ops) ?q) i) = 0"
    using that by (metis Suc_le_mono fold_simps(2) length_Cons take_Suc_Cons)
  show ?case
  proof (cases "is_tick op")
    case False
    then have "mq_metas ?q i = mq_metas q i" "mq_cfg ?q = mq_cfg q" "global_step ?q = global_step q"
      "i \<notin> scheduled_this_step ?q"
      using other_waiting [of i op q] Cons.prems(1,3) by auto
    then show ?thesis using Cons.prems False by (intro later Cons.IH [of ?q k]) auto
  next
    case True
    then obtain ms where op: "op = MTick ms" by (cases op) auto
    have tw: "mq_cfg ?q = mq_cfg q \<and>
      (mm_level (mq_metas ?q i) = 0 \<or>
       (mm_level (mq_metas ?q i) = mm_level (mq_metas q i) \<and>
        i \<notin> scheduled_this_step ?q \<and> global_step ?q = global_step q + 1 \<and>
        steps_since_schedule (mq_metas q i) + 1 \<le> steps_since_schedule (mq_metas ?q i))) \<and>
      (0 < aging_interval (mq_cfg q) \<longrightarrow> (global_step q + 1) mod aging_interval (mq_cfg q) = 0 \<longrightarrow>
       starvation_limit (mq_cfg q) \<le> steps_since_schedule (mq_metas q i) + 1 \<longrightarrow> mm_level (mq_metas ?q i) = 0)"
      using tick_waiting [of i ms q] Cons.prems(1-3) by (simp add: op)
    show ?thesis
    proof (cases "mm_level (mq_metas ?q i) = 0")
      case True
      then show ?thesis by (intro exI [of _ 1]) simp
    next
      case False
      then have "k \<noteq> 1" using tw Cons.prems(4,7,8) by auto
      then have "1 \<le> k - 1" using Cons.prems(5) by simp
      then show ?thesis
        using False tw Cons.prems True by (intro later Cons.IH [of ?q "k - 1"]) (auto simp: algebra_simps)
    qed
  qed
qed

definition meta_ok :: "mlfq_meta \<Rightarrow> bool" where
  "meta_ok m \<longleftrightarrow> mm_level m \<in> {0, 1, 2} \<and> 0 \<le> steps_since_schedule m \<and> 0 \<le> decode_steps m"

definition metas_ok :: "mlfq_scheduler \<Rightarrow> bool" where
  "metas_ok q \<longleftrightarrow> (\<forall>i. meta_ok (mq_metas q i))"

lemma meta_ok_updates [simp]:
  "meta_ok m \<Longrightarrow> meta_ok (meta_reset m)"
  "meta_ok m \<Longrightarrow> meta_ok (step_meta cfg m)"
  "meta_ok m \<Longrightarrow> meta_ok (age_meta sch i m)"
  "meta_ok m \<Longrightarrow> meta_ok (m\<lparr>mm_level := 0, steps_since_schedule := 0\<rparr>)"
  "meta_ok m \<Longrightarrow> meta_ok (m\<lparr>last_scheduled_at := t, steps_since_schedule := 0\<rparr>)"
  by (auto simp: meta_ok_def meta_reset_def step_meta_def age_meta_def Let_def)

lemma map_meta_ok: "metas_ok q \<Longrightarrow> (\<And>m. meta_ok m \<Longrightarrow> meta_ok (f m)) \<Longrightarrow> metas_ok (map_meta i f q)"
  by (simp add: metas_ok_def map_meta_def)

lemma metas_ok_frame [simp]:
  "metas_ok (q\<lparr>scheduled_this_step := s\<rparr>) = metas_ok q" "metas_ok (q\<lparr>global_step := n\<rparr>) = metas_ok q"
  by (simp_all add: metas_ok_def)

lemma fold_scheduled_ok: "metas_ok q \<Longrightarrow> metas_ok (fold (\<lambda>s. on_scheduled (gm s)) ss q)"
  by (induction ss arbitrary: q) (auto simp: on_scheduled_def map_meta_ok)

lemma age_all_ok: "metas_ok q \<Longrightarrow> metas_ok (age_all sch is q)"
  by (induction sch "is" q rule: age_all.induct) (simp_all add: map_meta_ok)

lemma boost_all_ok: "metas_ok q \<Longrightarrow> metas_ok (fst (boost_all is q n))"
  by (induction "is" q n rule: boost_all.induct) (simp_all add: map_meta_ok)

lemma mlfq_exec_ok: "metas_ok q \<Longrightarrow> metas_ok (mlfq_exec op q)"
proof (cases op)
  case (MSelect cands mb)
  then show "metas_ok q \<Longrightarrow> metas_ok (mlfq_exec op q)"
    using fold_scheduled_ok [of q id "snd (select_batch id cands mb q)"] select_batch_fold [of id cands mb q]
    by simp
qed (simp_all add: on_segment_created_def on_segment_boundary_def on_step_done_def
      tick_def Let_def age_all_ok boost_all_ok map_meta_ok)

lemma mlfq_exec_cfg: "mq_cfg (mlfq_exec op q) = mq_cfg q"
proof (cases op)
  case (MSelect cands mb)
  then show ?thesis
    using select_batch_fold [of id cands mb q] fold_scheduled [of id "snd (select_batch id cands mb q)" q]
    by simp
qed (use age_all_spec boost_all_spec in \<open>simp_all add: on_segment_created_def on_segment_boundary_def
      on_step_done_def map_meta_def tick_def Let_def\<close>)

lemma mlfq_run_cfg: "mq_cfg (fold mlfq_exec ops q) = mq_cfg q"
  by (induction ops arbitrary: q) (simp_all add: mlfq_exec_cfg)

interpretation mlfq: op_system mlfq_exec metas_ok
  by unfold_locales (rule mlfq_exec_ok)

lemma new_scheduler_ok: "metas_ok (new_scheduler cfg)"
  by (simp add: metas_ok_def meta_ok_def new_scheduler_def default_meta_def)

lemma next_multiple:
  fixes g L n :: int
  assumes "0 < n"
  shows "\<exists>k. L \<le> k \<and> k \<le> L + n - 1 \<and> (g + k) mod n = 0"
proof (intro exI conjI)
  let ?k = "L + (- (g + L)) mod n"
  show "L \<le> ?k" using assms by simp
  show "?k \<le> L + n - 1" using pos_mod_bound [OF assms, of "- (g + L)"] by simp
  have "(g + ?k) mod n = ((g + L) + (- (g + L)) mod n) mod n" by (simp add: add.assoc)
  also have "\<dots> = ((g + L) + (- (g + L))) mod n" by (rule mod_add_right_eq)
  finally show "(g + ?k) mod n = 0" by simp
qed

text \<open>
  C27. No starvation on the lowest level. In any run of the scheduler, take a segment on level
  2 that is not in the current batch and then goes on waiting: it stays active, is not
  stepped and never picked, whatever the scheduler does for other segments. After at most
  \<open>max(1, starvation_limit) + aging_interval - 1\<close> ticks it has been raised to level 0.
\<close>

theorem waiting_segment_is_boosted:
  assumes "q = fold mlfq_exec ops0 (new_scheduler (Some cfg))"
    and "mm_level (mq_metas q i) = 2" and "i \<notin> scheduled_this_step q"
    and "waits_throughout i ops q" and "0 < aging_interval cfg"
    and "max 1 (starvation_limit cfg) + aging_interval cfg - 1 \<le> int (ticks ops)"
  shows "\<exists>n \<le> length ops. mm_level (mq_metas (fold mlfq_exec (take n ops) q) i) = 0"
proof -
  have cfg: "mq_cfg q = cfg" using assms(1) mlfq_run_cfg by (simp add: new_scheduler_def)
  have ss: "0 \<le> steps_since_schedule (mq_metas q i)"
    using mlfq.run_inv [OF new_scheduler_ok] assms(1) by (simp add: metas_ok_def meta_ok_def)
  obtain k where k: "max 1 (starvation_limit cfg) \<le> k" "k \<le> max 1 (starvation_limit cfg) + aging_interval cfg - 1"
    "(global_step q + k) mod aging_interval cfg = 0"
    using next_multiple [OF assms(5), of "max 1 (starvation_limit cfg)" "global_step q"] by auto
  show ?thesis
    by (rule waiting_is_boosted [of i ops q "nat k"])
      (use assms cfg k ss in \<open>auto simp: nat_le_iff le_nat_iff\<close>)
qed

lemma boost_all_low: "mm_level (mq_metas q i) < 2 \<Longrightarrow> mq_metas (fst (boost_all is q n)) i = mq_metas q i"
proof (induction "is" q n rule: boost_all.induct)
  case (2 j "is" q n)
  then show ?case by (cases "i = j") (auto simp: starved_def map_meta_def)
qed simp

text \<open>
  C40. The middle level has no such guarantee. A segment on level 1 that goes on waiting
  stays there for as long as it waits: neither aging nor anything else raises it.
\<close>

theorem middle_level_is_never_boosted:
  assumes "mm_level (mq_metas q i) = 1" and "waits_throughout i ops q"
  shows "mm_level (mq_metas (fold mlfq_exec ops q) i) = 1"
  using assms
proof (induction ops arbitrary: q)
  case (Cons op ops)
  have "mm_level (mq_metas (mlfq_exec op q) i) = 1"
  proof (cases "is_tick op")
    case False
    with other_waiting [of i op q] Cons.prems show ?thesis by simp
  next
    case True
    then obtain ms where op: "op = MTick ms" by (cases op) auto
    show ?thesis
      using age_all_spec [of "scheduled_this_step q" ms q i] Cons.prems(1)
      by (simp add: op tick_def Let_def boost_all_low)
  qed
  with Cons show ?case by simp
qed simp

section \<open>Witnesses\<close>

definition ex_cfg :: mlfq_config where
  "ex_cfg = \<lparr>q1_threshold = 1, q2_threshold = 2, aging_interval = 3, starvation_limit = 2\<rparr>"

text \<open>Segment 0 takes two steps, reaches level 2, and then segment 1 gets every batch.\<close>

definition ex_q :: mlfq_scheduler where
  "ex_q = fold mlfq_exec [MStep 0, MStep 0, MTick [0, 1]] (new_scheduler (Some ex_cfg))"

definition ex_wait :: "mlfq_op list" where
  "ex_wait = concat (replicate 4 [MSelect [1, 0] 1, MTick [0, 1]])"

theorem waiting_segment_is_boosted_witness:
  "\<exists>n \<le> length ex_wait. mm_level (mq_metas (fold mlfq_exec (take n ex_wait) ex_q) 0) = 0"
proof (rule waiting_segment_is_boosted [OF ex_q_def])
  show "mm_level (mq_metas ex_q 0) = 2" by code_simp
  show "0 \<notin> scheduled_this_step ex_q" by code_simp
  show "waits_throughout 0 ex_wait ex_q" by code_simp
  show "0 < aging_interval ex_cfg" by code_simp
  show "max 1 (starvation_limit ex_cfg) + aging_interval ex_cfg - 1 \<le> int (ticks ex_wait)" by code_simp
qed

definition ex_q_mid :: mlfq_scheduler where
  "ex_q_mid = fold mlfq_exec [MStep 0] (new_scheduler (Some ex_cfg))"

theorem middle_level_is_never_boosted_witness:
  "mm_level (mq_metas (fold mlfq_exec ex_wait ex_q_mid) 0) = 1"
proof (rule middle_level_is_never_boosted)
  show "mm_level (mq_metas ex_q_mid 0) = 1" by code_simp
  show "waits_throughout 0 ex_wait ex_q_mid" by code_simp
qed

theorem select_batch_is_stable_priority_witness:
  "snd (select_batch id [0, 1, 2 :: nat] 2 ex_q) = [1, 2]"
proof -
  have "take (nat 2) (sort_key (\<lambda>s. bucket_of (mq_metas ex_q (id s))) [0, 1, 2 :: nat]) = [1, 2]" by code_simp
  with conjunct1 [OF select_batch_is_stable_priority [of id "[0, 1, 2]" 2 ex_q]] show ?thesis
    by (metis snd_conv)
qed

end
