(* ===== verification/Native_Cursor.thy ===== *)
theory Native_Cursor
  imports Complex_Main Prelude
begin

text \<open>
  The label plans of \<open>engine/core/native_cursor.py\<close>: a plan lists the cursor labels of a text,
  the owner spans that tie them to the normalized and the raw text, and optionally the
  normalized span of every label. The constructors of the two dataclasses validate their
  fields; a construction is modelled by a function that returns the exception or the value.

  A cursor position \<open>mu\<close> is a Python float. The code only compares, clamps and rounds it up,
  which is exact, so finite floats are rationals.
\<close>

section \<open>Owner spans and plans\<close>

datatype pyfloat = Fin rat | NonFin

text \<open>An argument of \<open>float\<close>; \<open>BadFloat\<close> is one on which it raises \<open>TypeError\<close> or \<open>ValueError\<close>.\<close>

datatype float_arg = BadFloat | FloatOf pyfloat

record cursor_owner_span =
  owner_id :: int
  label_start :: int
  label_end :: int
  normalized_start :: int
  normalized_end :: int
  raw_start :: int
  raw_end :: int

definition owner_error :: "cursor_owner_span \<Rightarrow> py_error option" where
  "owner_error w =
     (if owner_id w < 0 then Some (ValueError ''owner_id must be non-negative'')
      else if label_start w < 0 \<or> label_end w < label_start w
      then Some (ValueError ''invalid label owner span'')
      else if normalized_start w < 0 \<or> normalized_end w < normalized_start w
      then Some (ValueError ''invalid normalized owner span'')
      else if raw_start w < 0 \<or> raw_end w < raw_start w
      then Some (ValueError ''invalid raw owner span'')
      else None)"

record cursor_label_plan =
  label_ids :: "int list"
  owner_spans :: "cursor_owner_span list"
  plan_revision :: int
  plan_final :: bool
  label_normalized_spans :: "(int \<times> int) list"

text \<open>The loops of \<open>CursorLabelPlan.__post_init__\<close>.\<close>

fun cover_error :: "int \<Rightarrow> int \<Rightarrow> cursor_owner_span list \<Rightarrow> py_error option" where
  "cover_error n previous_end [] =
     (if previous_end \<noteq> n then Some (ValueError ''owner spans must cover the complete label plan'') else None)"
| "cover_error n previous_end (w # ws) =
     (if label_start w \<noteq> previous_end
      then Some (ValueError ''owner spans must cover labels contiguously from zero'')
      else if label_end w \<le> label_start w
      then Some (ValueError ''owner spans must contain at least one label'')
      else cover_error n (label_end w) ws)"

fun label_spans_error :: "int \<Rightarrow> int \<Rightarrow> (int \<times> int) list \<Rightarrow> py_error option" where
  "label_spans_error last_start last_end [] = None"
| "label_spans_error last_start last_end ((s, e) # ss) =
     (if s < last_start \<or> e < last_end \<or> e \<le> s
      then Some (ValueError ''label spans must be nonempty and ordered'')
      else label_spans_error s e ss)"

text \<open>Python's \<open>xs[a:b]\<close> for \<open>0 \<le> a\<close>.\<close>

definition slice :: "int \<Rightarrow> int \<Rightarrow> 'a list \<Rightarrow> 'a list" where
  "slice a b xs = take (nat b - nat a) (drop (nat a) xs)"

definition provenance_error :: "(int \<times> int) list \<Rightarrow> cursor_owner_span list \<Rightarrow> py_error option" where
  "provenance_error spans ws =
     (if \<exists>w \<in> set ws. \<exists>(s, e) \<in> set (slice (label_start w) (label_end w) spans).
           s < normalized_start w \<or> normalized_end w < e
      then Some (ValueError ''label provenance must stay inside its owner'') else None)"

definition plan_error :: "cursor_label_plan \<Rightarrow> py_error option" where
  "plan_error p =
     (if plan_revision p < 0 then Some (ValueError ''plan revision must be non-negative'')
      else if \<exists>l \<in> set (label_ids p). l < 0
      then Some (ValueError ''cursor label ids must be non-negative integers'')
      else case cover_error (int (length (label_ids p))) 0 (owner_spans p) of
        Some e \<Rightarrow> Some e
      | None \<Rightarrow>
        if label_normalized_spans p = [] then None
        else if length (label_normalized_spans p) \<noteq> length (label_ids p)
        then Some (ValueError ''label spans must align one-to-one with labels'')
        else case label_spans_error 0 0 (label_normalized_spans p) of
          Some e \<Rightarrow> Some e
        | None \<Rightarrow> provenance_error (label_normalized_spans p) (owner_spans p))"

text \<open>A plan that its constructors accepted.\<close>

definition plan_ok :: "cursor_label_plan \<Rightarrow> bool" where
  "plan_ok p \<longleftrightarrow> plan_error p = None \<and> (\<forall>w \<in> set (owner_spans p). owner_error w = None)"

definition make_plan :: "cursor_label_plan \<Rightarrow> py_error + cursor_label_plan" where
  "make_plan p =
     (case List.find (\<lambda>w. owner_error w \<noteq> None) (owner_spans p) of
        Some w \<Rightarrow> Inl (the (owner_error w))
      | None \<Rightarrow> (case plan_error p of Some e \<Rightarrow> Inl e | None \<Rightarrow> Inr p))"

definition label_count :: "cursor_label_plan \<Rightarrow> int" where
  "label_count p = int (length (label_ids p))"

definition plan_active :: "cursor_label_plan \<Rightarrow> bool" where
  "plan_active p \<longleftrightarrow> label_ids p \<noteq> []"

definition empty_plan :: "int \<Rightarrow> bool \<Rightarrow> cursor_label_plan" where
  "empty_plan n fin =
     \<lparr>label_ids = [], owner_spans = [], plan_revision = n, plan_final = fin, label_normalized_spans = []\<rparr>"

section \<open>Re-anchoring a live position\<close>

definition owner_unchanged :: "cursor_owner_span \<Rightarrow> cursor_owner_span \<Rightarrow> bool" where
  "owner_unchanged old new \<longleftrightarrow>
     owner_id new = owner_id old \<and> raw_start new = raw_start old \<and> raw_end new = raw_end old \<and>
     label_start new = label_start old \<and> label_end old \<le> label_end new"

text \<open>The condition under which the position is kept: nothing before it changed.\<close>

definition live_prefix_unchanged :: "cursor_label_plan \<Rightarrow> cursor_label_plan \<Rightarrow> rat \<Rightarrow> bool" where
  "live_prefix_unchanged previous current position \<longleftrightarrow>
     (let prefix = \<lceil>position\<rceil>;
          live = filter (\<lambda>old. label_start old < prefix) (owner_spans previous)
      in prefix \<le> label_count current \<and>
         take (nat prefix) (label_ids previous) = take (nat prefix) (label_ids current) \<and>
         (\<forall>old \<in> set live. \<exists>new \<in> set (owner_spans current). owner_unchanged old new) \<and>
         \<not> (\<exists>old \<in> set live. of_int (label_end old) \<le> position) \<and>
         (label_normalized_spans previous = [] \<or> label_normalized_spans current = [] \<or>
          take (nat prefix) (label_normalized_spans previous) =
          take (nat prefix) (label_normalized_spans current)))"

text \<open>\<open>max(xs, default=0)\<close>.\<close>

definition max_or_zero :: "int list \<Rightarrow> int" where
  "max_or_zero xs = (if xs = [] then 0 else Max (set xs))"

text \<open>The boundary lookup: by owner identity, else by the confirmed raw and normalized frontier.\<close>

definition boundary_position :: "cursor_label_plan \<Rightarrow> cursor_label_plan \<Rightarrow> rat \<Rightarrow> int" where
  "boundary_position previous current position =
     (let completed_ids = map owner_id (filter (\<lambda>w. of_int (label_end w) \<le> position) (owner_spans previous))
      in if completed_ids = [] then 0
         else
           (let boundaries = map label_end
                  (filter (\<lambda>w. owner_id w \<in> set completed_ids) (owner_spans current))
            in if boundaries \<noteq> [] then max_or_zero boundaries
               else
                 (let completed = filter (\<lambda>w. owner_id w \<in> set completed_ids) (owner_spans previous);
                      raw_frontier = Max (set (map raw_end completed));
                      normalized_frontier = Max (set (map normalized_end completed))
                  in max_or_zero (map label_end
                       (filter (\<lambda>w. raw_end w \<le> raw_frontier \<and> normalized_end w \<le> normalized_frontier)
                          (owner_spans current))))))"

definition reanchor_cursor_mu ::
  "cursor_label_plan \<Rightarrow> cursor_label_plan \<Rightarrow> pyfloat \<Rightarrow> py_error + rat" where
  "reanchor_cursor_mu previous current previous_mu =
     (case previous_mu of
        NonFin \<Rightarrow> Inl (ValueError ''previous cursor mu must be finite'')
      | Fin mu \<Rightarrow>
        (let position = max 0 (min (of_int (label_count previous)) mu)
         in if \<not> plan_active current then Inr 0
            else if live_prefix_unchanged previous current position then Inr position
            else Inr (of_int (boundary_position previous current position))))"

section \<open>Slicing a plan to a segment\<close>

definition overlapping_labels :: "int \<Rightarrow> int \<Rightarrow> (int \<times> int) list \<Rightarrow> nat list" where
  "overlapping_labels start stop spans =
     filter (\<lambda>i. fst (spans ! i) < stop \<and> start < snd (spans ! i)) [0 ..< length spans]"

definition clip_owner :: "int \<Rightarrow> int \<Rightarrow> int \<Rightarrow> int \<Rightarrow> cursor_owner_span \<Rightarrow> cursor_owner_span" where
  "clip_owner first last' start stop w =
     \<lparr>owner_id = owner_id w,
      label_start = max (label_start w) first - first, label_end = min (label_end w) last' - first,
      normalized_start = max (normalized_start w) start, normalized_end = min (normalized_end w) stop,
      raw_start = raw_start w, raw_end = raw_end w\<rparr>"

definition slice_exact :: "int \<Rightarrow> int \<Rightarrow> cursor_label_plan \<Rightarrow> py_error + cursor_label_plan option" where
  "slice_exact start stop p =
     (let spans = label_normalized_spans p; indices = overlapping_labels start stop spans
      in if indices = [] then Inr (Some (empty_plan (plan_revision p) (plan_final p)))
         else (let first = int (hd indices); last' = int (last indices) + 1
               in if \<exists>(l, r) \<in> set (slice first last' spans). l < start \<or> stop < r then Inr None
                  else (case make_plan
                          \<lparr>label_ids = slice first last' (label_ids p),
                           owner_spans = map (clip_owner first last' start stop)
                             (filter (\<lambda>w. label_start w < last' \<and> first < label_end w) (owner_spans p)),
                           plan_revision = plan_revision p, plan_final = plan_final p,
                           label_normalized_spans = slice first last' spans\<rparr> of
                          Inl e \<Rightarrow> Inl e
                        | Inr q \<Rightarrow> Inr (Some q))))"

definition rebase_owner :: "int \<Rightarrow> cursor_owner_span \<Rightarrow> cursor_owner_span" where
  "rebase_owner base w = w\<lparr>label_start := label_start w - base, label_end := label_end w - base\<rparr>"

fun select_owners ::
  "int \<Rightarrow> int \<Rightarrow> cursor_owner_span list \<Rightarrow> cursor_owner_span list option" where
  "select_owners start stop [] = Some []"
| "select_owners start stop (w # ws) =
     (let overlaps = (normalized_start w < stop \<and> start < normalized_end w);
          inside = (start \<le> normalized_start w \<and> normalized_end w \<le> stop)
      in if overlaps \<and> \<not> inside then None
         else map_option (\<lambda>rest. if inside then w # rest else rest) (select_owners start stop ws))"

definition slice_legacy :: "int \<Rightarrow> int \<Rightarrow> cursor_label_plan \<Rightarrow> py_error + cursor_label_plan option" where
  "slice_legacy start stop p =
     (case select_owners start stop (owner_spans p) of
        None \<Rightarrow> Inr None
      | Some [] \<Rightarrow> Inr (Some (empty_plan (plan_revision p) (plan_final p)))
      | Some (w # ws) \<Rightarrow>
          (let a = label_start w; b = label_end (last (w # ws))
           in case make_plan
                \<lparr>label_ids = slice a b (label_ids p), owner_spans = map (rebase_owner a) (w # ws),
                 plan_revision = plan_revision p, plan_final = plan_final p,
                 label_normalized_spans = []\<rparr> of
                Inl e \<Rightarrow> Inl e
              | Inr q \<Rightarrow> Inr (Some q)))"

definition slice_cursor_label_plan ::
  "int \<Rightarrow> int \<Rightarrow> cursor_label_plan \<Rightarrow> py_error + cursor_label_plan option" where
  "slice_cursor_label_plan start stop p =
     (if start < 0 \<or> stop < start then Inl (ValueError ''invalid normalized segment bounds'')
      else if owner_spans p = [] then Inr (Some (empty_plan (plan_revision p) (plan_final p)))
      else if label_normalized_spans p \<noteq> [] then slice_exact start stop p
      else slice_legacy start stop p)"

section \<open>Facts about valid plans\<close>

lemma label_spans_error_iff:
  "label_spans_error a b ss = None \<longleftrightarrow>
     sorted (a # map fst ss) \<and> sorted (b # map snd ss) \<and> (\<forall>(s, e) \<in> set ss. s < e)"
proof (induction a b ss rule: label_spans_error.induct)
  case (2 a b s e ss)
  then show ?case by (auto simp: le_less_trans less_imp_le dest: order_trans)
qed simp

lemma cover_bounds:
  "cover_error n c ws = None \<Longrightarrow> c \<le> n \<and> (\<forall>w \<in> set ws. c \<le> label_start w \<and> label_start w < label_end w \<and> label_end w \<le> n)"
proof (induction n c ws rule: cover_error.induct)
  case (2 n c w ws)
  then show ?case by (fastforce split: if_splits)
qed (simp split: if_splits)

lemma plan_okD:
  assumes "plan_ok p"
  shows "0 \<le> plan_revision p" and "\<forall>l \<in> set (label_ids p). 0 \<le> l"
    and "cover_error (label_count p) 0 (owner_spans p) = None"
    and "\<forall>w \<in> set (owner_spans p). owner_error w = None"
    and "label_normalized_spans p \<noteq> [] \<Longrightarrow> length (label_normalized_spans p) = length (label_ids p) \<and>
      label_spans_error 0 0 (label_normalized_spans p) = None \<and>
      provenance_error (label_normalized_spans p) (owner_spans p) = None"
  using assms by (auto simp: plan_ok_def plan_error_def label_count_def not_less split: if_splits option.splits)

lemma make_plan_ok: "plan_ok p \<Longrightarrow> make_plan p = Inr p"
proof -
  assume ok: "plan_ok p"
  then have "List.find (\<lambda>w. owner_error w \<noteq> None) (owner_spans p) = None"
    unfolding find_None_iff by (auto simp: plan_ok_def)
  with ok show "make_plan p = Inr p" by (simp add: make_plan_def plan_ok_def)
qed

lemma make_plan_valid: "make_plan p = Inr q \<Longrightarrow> plan_ok q \<and> q = p"
  by (auto simp: make_plan_def plan_ok_def find_None_iff split: option.splits)

text \<open>
  Re-anchoring keeps the cursor inside the plan. For plans that passed validation, a
  finite position is always mapped to a position between zero and the number of labels of
  the new plan, and only a non-finite one is refused.
\<close>

theorem reanchor_within_plan:
  assumes "plan_ok current"
  shows "case reanchor_cursor_mu previous current mu of
           Inl _ \<Rightarrow> mu = NonFin
         | Inr pos \<Rightarrow> 0 \<le> pos \<and> pos \<le> of_int (label_count current)"
proof (cases mu)
  case NonFin
  then show ?thesis by (simp add: reanchor_cursor_mu_def)
next
  case (Fin m)
  have bounds: "0 \<le> max_or_zero (map label_end (filter P (owner_spans current))) \<and>
      max_or_zero (map label_end (filter P (owner_spans current))) \<le> label_count current" for P
  proof (cases "map label_end (filter P (owner_spans current)) = []")
    case True
    then show ?thesis by (simp add: max_or_zero_def label_count_def)
  next
    case False
    then have "max_or_zero (map label_end (filter P (owner_spans current))) \<in>
        set (map label_end (filter P (owner_spans current)))"
      unfolding max_or_zero_def by (simp only: if_False) (rule Max_in, auto simp: filter_empty_conv)
    then show ?thesis using cover_bounds [OF plan_okD(3) [OF assms]] by force
  qed
  let ?pos = "max 0 (min (of_int (label_count previous)) m)"
  have b: "0 \<le> boundary_position previous current ?pos \<and>
      boundary_position previous current ?pos \<le> label_count current"
    using bounds by (simp add: boundary_position_def Let_def label_count_def)
  have p: "0 \<le> ?pos \<and> (live_prefix_unchanged previous current ?pos \<longrightarrow> ?pos \<le> of_int (label_count current))"
    by (simp add: live_prefix_unchanged_def Let_def ceiling_le_iff)
  show ?thesis
  proof (cases "live_prefix_unchanged previous current ?pos")
    case True
    with p Fin show ?thesis by (simp add: reanchor_cursor_mu_def Let_def label_count_def)
  next
    case False
    with b Fin show ?thesis by (simp add: reanchor_cursor_mu_def Let_def label_count_def)
  qed
qed

lemma filter_interval:
  fixes P Q :: "nat \<Rightarrow> bool"
  assumes "\<And>i j. i \<le> j \<Longrightarrow> j < n \<Longrightarrow> P j \<Longrightarrow> P i" and "\<And>i j. i \<le> j \<Longrightarrow> j < n \<Longrightarrow> Q i \<Longrightarrow> Q j"
  shows "\<exists>a b. a \<le> b \<and> b \<le> n \<and> filter (\<lambda>i. P i \<and> Q i) [0 ..< n] = [a ..< b]"
  using assms
proof (induction n)
  case 0
  then show ?case by auto
next
  case (Suc n)
  have "\<exists>a b. a \<le> b \<and> b \<le> n \<and> filter (\<lambda>i. P i \<and> Q i) [0 ..< n] = [a ..< b]"
  proof (rule Suc.IH)
    show "\<And>i j. i \<le> j \<Longrightarrow> j < n \<Longrightarrow> P j \<Longrightarrow> P i" using Suc.prems(1) by (meson less_SucI)
    show "\<And>i j. i \<le> j \<Longrightarrow> j < n \<Longrightarrow> Q i \<Longrightarrow> Q j" using Suc.prems(2) by (meson less_SucI)
  qed
  then obtain a b where ab: "a \<le> b" "b \<le> n" "filter (\<lambda>i. P i \<and> Q i) [0 ..< n] = [a ..< b]" by blast
  show ?case
  proof (cases "P n \<and> Q n")
    case False
    with ab show ?thesis by (intro exI [of _ a] exI [of _ b]) auto
  next
    case True
    show ?thesis
    proof (cases "a = b")
      case True
      with ab \<open>P n \<and> Q n\<close> show ?thesis by (intro exI [of _ n] exI [of _ "Suc n"]) auto
    next
      case False
      then have "a \<in> set (filter (\<lambda>i. P i \<and> Q i) [0 ..< n])" using ab by simp
      then have "Q a" by simp
      have "b = n"
      proof (rule ccontr)
        assume "b \<noteq> n"
        then have "b < n" using ab by simp
        moreover have "P b" using Suc.prems(1) [of b n] True \<open>b < n\<close> by simp
        moreover have "Q b" using Suc.prems(2) [of a b] \<open>Q a\<close> ab(1) \<open>b < n\<close> by simp
        ultimately have "b \<in> set (filter (\<lambda>i. P i \<and> Q i) [0 ..< n])" by simp
        then show False using ab(3) by simp
      qed
      with ab True show ?thesis by (intro exI [of _ a] exI [of _ "Suc n"]) auto
    qed
  qed
qed

lemma overlapping_interval:
  assumes "label_spans_error 0 0 spans = None"
  shows "\<exists>a b. a \<le> b \<and> b \<le> length spans \<and> overlapping_labels start stop spans = [a ..< b]"
proof -
  have s: "sorted (map fst spans)" "sorted (map snd spans)"
    using assms by (simp_all add: label_spans_error_iff)
  have mono: "fst (spans ! i) \<le> fst (spans ! j)" "snd (spans ! i) \<le> snd (spans ! j)"
    if "i \<le> j" "j < length spans" for i j
    using sorted_nth_mono [OF s(1), of i j] sorted_nth_mono [OF s(2), of i j] that by simp_all
  show ?thesis unfolding overlapping_labels_def
    by (rule filter_interval) (use mono in \<open>fastforce+\<close>)
qed

lemma slice_nth: "0 \<le> a \<Longrightarrow> b \<le> int (length xs) \<Longrightarrow> slice a b xs = map (\<lambda>i. xs ! i) [nat a ..< nat b]"
  unfolding slice_def by (auto intro!: nth_equalityI)

lemma set_slice: "0 \<le> a \<Longrightarrow> b \<le> int (length xs) \<Longrightarrow> x \<in> set (slice a b xs) \<longleftrightarrow> (\<exists>i. a \<le> int i \<and> int i < b \<and> x = xs ! i)"
  by (auto simp: slice_nth image_iff Bex_def zless_nat_eq_int_zless nat_le_iff)

lemma clip_owner_labels:
  "label_start (clip_owner a b start stop w) = max (label_start w) a - a"
  "label_end (clip_owner a b start stop w) = min (label_end w) b - a"
  by (simp_all add: clip_owner_def)

lemma clip_cover:
  assumes "cover_error n c ws = None" and "a < b" and "b \<le> n" and "0 \<le> a"
  shows "cover_error (b - a) (max (min c b) a - a)
    (map (clip_owner a b start stop) (filter (\<lambda>w. label_start w < b \<and> a < label_end w) ws)) = None"
  using assms
proof (induction n c ws rule: cover_error.induct)
  case (1 n c)
  then show ?case by (simp split: if_splits)
next
  case (2 n c w ws)
  then have w: "label_start w = c" "c < label_end w" and rest: "cover_error n (label_end w) ws = None"
    by (auto split: if_splits)
  note IH = "2.IH" [OF _ _ rest "2.prems"(2-4)]
  show ?case
  proof (cases "c < b \<and> a < label_end w")
    case True
    then have e: "max (min (label_end w) b) a = min (label_end w) b" "min c b = c" using \<open>a < b\<close> by auto
    have lt: "max c a < min (label_end w) b" using True w \<open>a < b\<close> by simp
    have "cover_error (b - a) (min (label_end w) b - a) (map (clip_owner a b start stop)
        (filter (\<lambda>w. label_start w < b \<and> a < label_end w) ws)) = None"
      using IH w unfolding e by simp
    with True w lt show ?thesis unfolding e by (simp add: clip_owner_labels not_le)
  next
    case False
    then have "max (min c b) a - a = max (min (label_end w) b) a - a" using w \<open>a < b\<close> by auto
    moreover have "filter (\<lambda>w. label_start w < b \<and> a < label_end w) (w # ws) =
        filter (\<lambda>w. label_start w < b \<and> a < label_end w) ws" using False w by auto
    ultimately show ?thesis using IH w by simp
  qed
qed

lemma sliced_spans_ok:
  assumes "label_spans_error 0 0 spans = None"
  shows "label_spans_error 0 0 (slice a b spans) = None"
proof -
  have s: "sorted (map fst spans)" "sorted (map snd spans)" "\<forall>(x, y) \<in> set spans. x < y"
    "\<forall>x \<in> set spans. 0 \<le> fst x" "\<forall>x \<in> set spans. 0 \<le> snd x"
    using assms by (auto simp: label_spans_error_iff)
  have sub: "set (slice a b spans) \<subseteq> set spans"
    unfolding slice_def using set_take_subset set_drop_subset by (metis subset_trans)
  have "sorted (map fst (slice a b spans))" "sorted (map snd (slice a b spans))"
    unfolding slice_def take_map [symmetric] drop_map [symmetric] using s(1,2) by (simp_all add: sorted_wrt_take sorted_wrt_drop)
  with s(3-5) sub show ?thesis by (auto simp: label_spans_error_iff)
qed

text \<open>The labels of an owner have their spans inside the owner.\<close>

lemma owner_label_inside:
  assumes ok: "plan_ok p" and ne: "label_normalized_spans p \<noteq> []" and w: "w \<in> set (owner_spans p)"
    and i: "label_start w \<le> int i" "int i < label_end w"
  shows "normalized_start w \<le> fst (label_normalized_spans p ! i) \<and>
    snd (label_normalized_spans p ! i) \<le> normalized_end w"
proof -
  let ?s = "label_normalized_spans p"
  have len: "label_end w \<le> int (length ?s)" "0 \<le> label_start w"
    using cover_bounds [OF plan_okD(3) [OF ok]] w plan_okD(5) [OF ok ne] by (auto simp: label_count_def)
  have "?s ! i \<in> set (slice (label_start w) (label_end w) ?s)"
    using i len by (subst set_slice) auto
  moreover have "provenance_error ?s (owner_spans p) = None" using plan_okD(5) [OF ok ne] by simp
  ultimately show ?thesis using w by (force simp: provenance_error_def split: if_splits)
qed

lemma clipped_owner_ok:
  assumes ok: "plan_ok p" and ne: "label_normalized_spans p \<noteq> []" and w: "w \<in> set (owner_spans p)"
    and ab: "0 \<le> a" "a < b" and ov: "label_start w < b" "a < label_end w" and start: "0 \<le> start"
    and ins: "\<forall>i. a \<le> int i \<longrightarrow> int i < b \<longrightarrow>
      start \<le> fst (label_normalized_spans p ! i) \<and> snd (label_normalized_spans p ! i) \<le> stop"
  shows "owner_error (clip_owner a b start stop w) = None"
proof -
  let ?s = "label_normalized_spans p"
  have cov: "label_start w < label_end w" "0 \<le> label_start w" "label_end w \<le> int (length ?s)"
    using cover_bounds [OF plan_okD(3) [OF ok]] w plan_okD(5) [OF ok ne] by (auto simp: label_count_def)
  have oe: "owner_error w = None" using plan_okD(4) [OF ok] w by blast
  define i where "i = nat (max (label_start w) a)"
  have i: "label_start w \<le> int i" "int i < label_end w" "a \<le> int i" "int i < b"
    using cov ab ov by (auto simp: i_def)
  have "i < length ?s" using i(2) cov(3) by simp
  then have "fst (?s ! i) < snd (?s ! i)"
    using plan_okD(5) [OF ok ne] nth_mem [of i ?s] by (auto simp: label_spans_error_iff case_prod_beta)
  then have "max (normalized_start w) start \<le> min (normalized_end w) stop"
    using owner_label_inside [OF ok ne w i(1,2)] ins i(3,4) by force
  then show ?thesis
    using oe ab ov cov start by (auto simp: owner_error_def clip_owner_def split: if_splits)
qed

lemma clipped_provenance:
  assumes ok: "plan_ok p" and ne: "label_normalized_spans p \<noteq> []"
    and ab: "0 \<le> a" "a < b" "b \<le> int (length (label_normalized_spans p))"
    and ins: "\<forall>i. a \<le> int i \<longrightarrow> int i < b \<longrightarrow>
      start \<le> fst (label_normalized_spans p ! i) \<and> snd (label_normalized_spans p ! i) \<le> stop"
  shows "provenance_error (slice a b (label_normalized_spans p))
    (map (clip_owner a b start stop) (filter (\<lambda>w. label_start w < b \<and> a < label_end w) (owner_spans p))) = None"
proof -
  let ?s = "label_normalized_spans p"
  have "normalized_start (clip_owner a b start stop w) \<le> x \<and> y \<le> normalized_end (clip_owner a b start stop w)"
    if w: "w \<in> set (owner_spans p)" "label_start w < b" "a < label_end w"
      and xy: "(x, y) \<in> set (slice (label_start (clip_owner a b start stop w))
                       (label_end (clip_owner a b start stop w)) (slice a b ?s))" for w x y
  proof -
    have cov: "label_start w < label_end w" "0 \<le> label_start w"
      using cover_bounds [OF plan_okD(3) [OF ok]] w by auto
    have len: "int (length (slice a b ?s)) = b - a" using ab by (auto simp: slice_nth)
    from xy obtain j where j: "max (label_start w) a - a \<le> int j" "int j < min (label_end w) b - a"
      "(x, y) = slice a b ?s ! j"
      using cov ab w len by (subst (asm) set_slice) (auto simp: clip_owner_def)
    define i where "i = nat a + j"
    have ji: "slice a b ?s ! j = ?s ! i"
      using j ab by (simp add: slice_nth i_def nat_less_iff)
    have i: "label_start w \<le> int i" "int i < label_end w" "a \<le> int i" "int i < b"
      using j ab by (auto simp: i_def)
    from owner_label_inside [OF ok ne w(1) i(1,2)] ins i(3,4) j(3) ji show ?thesis
      by (metis (no_types, lifting) clip_owner_def cursor_owner_span.select_convs(4,5) fst_conv max.bounded_iff
          min.bounded_iff snd_conv)
  qed
  then show ?thesis unfolding provenance_error_def by (force split: if_splits)
qed

lemma sliced_plan_ok:
  assumes ok: "plan_ok p" and ne: "label_normalized_spans p \<noteq> []"
    and ab: "0 \<le> a" "a < b" "b \<le> label_count p" and start: "0 \<le> start"
    and ins: "\<forall>i. a \<le> int i \<longrightarrow> int i < b \<longrightarrow>
      start \<le> fst (label_normalized_spans p ! i) \<and> snd (label_normalized_spans p ! i) \<le> stop"
  shows "plan_ok \<lparr>label_ids = slice a b (label_ids p),
      owner_spans = map (clip_owner a b start stop)
        (filter (\<lambda>w. label_start w < b \<and> a < label_end w) (owner_spans p)),
      plan_revision = plan_revision p, plan_final = plan_final p,
      label_normalized_spans = slice a b (label_normalized_spans p)\<rparr>"
    (is "plan_ok ?q")
proof -
  let ?s = "label_normalized_spans p"
  have len: "length ?s = length (label_ids p)" and so: "label_spans_error 0 0 ?s = None"
    using plan_okD(5) [OF ok ne] by simp_all
  have b: "b \<le> int (length ?s)" "b \<le> int (length (label_ids p))"
    using ab(3) len by (simp_all add: label_count_def)
  have n: "length (slice a b (label_ids p)) = nat b - nat a" "length (slice a b ?s) = nat b - nat a"
    using ab b by (simp_all add: slice_nth)
  have "set (slice a b (label_ids p)) \<subseteq> set (label_ids p)"
    unfolding slice_def using set_take_subset set_drop_subset by (metis subset_trans)
  then have ids: "\<not> (\<exists>l \<in> set (slice a b (label_ids p)). l < 0)" using plan_okD(2) [OF ok] by force
  have "max (min 0 b) a - a = 0" "int (nat b - nat a) = b - a" using ab by auto
  then have cov: "cover_error (int (length (slice a b (label_ids p)))) 0 (owner_spans ?q) = None"
    using clip_cover [OF plan_okD(3) [OF ok] ab(2,3,1), of start stop] n by simp
  have own: "\<forall>w \<in> set (owner_spans ?q). owner_error w = None"
    using clipped_owner_ok [OF ok ne _ ab(1,2) _ _ start ins] by auto
  have prov: "provenance_error (slice a b ?s) (owner_spans ?q) = None"
    using clipped_provenance [OF ok ne ab(1,2) b(1) ins] by simp
  have "0 \<le> plan_revision p" by (rule plan_okD(1) [OF ok])
  with ids cov prov sliced_spans_ok [OF so] n have "plan_error ?q = None"
    unfolding plan_error_def by simp
  with own show ?thesis by (simp add: plan_ok_def)
qed

text \<open>
  Slicing a plan to a segment. For a plan that passed validation and carries the exact
  span of every label, slicing to a window \<open>[start, stop)\<close> of the normalized text never raises.
  It gives up (\<open>None\<close>) exactly when a label straddles an edge of the window; otherwise the
  result is again a valid plan, with exactly the labels that overlap the window, in their
  order and with their spans.
\<close>

theorem slice_plan_exact:
  assumes ok: "plan_ok p" and ne: "label_normalized_spans p \<noteq> []" and "0 \<le> start" and "start \<le> stop"
  shows "let is = overlapping_labels start stop (label_normalized_spans p)
         in (\<exists>i \<in> set is. fst (label_normalized_spans p ! i) < start \<or> stop < snd (label_normalized_spans p ! i))
            \<and> slice_cursor_label_plan start stop p = Inr None
          \<or> (\<forall>i \<in> set is. start \<le> fst (label_normalized_spans p ! i) \<and> snd (label_normalized_spans p ! i) \<le> stop)
            \<and> (\<exists>q. slice_cursor_label_plan start stop p = Inr (Some q) \<and> plan_ok q \<and>
                 label_ids q = map (\<lambda>i. label_ids p ! i) is \<and>
                 label_normalized_spans q = map (\<lambda>i. label_normalized_spans p ! i) is \<and>
                 plan_revision q = plan_revision p \<and> plan_final q = plan_final p)"
proof -
  let ?s = "label_normalized_spans p"
  let ?is = "overlapping_labels start stop ?s"
  have len: "length ?s = length (label_ids p)" and so: "label_spans_error 0 0 ?s = None"
    using plan_okD(5) [OF ok ne] by simp_all
  have "owner_spans p \<noteq> []"
    using plan_okD(3) [OF ok] ne len by (auto simp: label_count_def split: if_splits)
  then have sl: "slice_cursor_label_plan start stop p = slice_exact start stop p"
    using assms by (simp add: slice_cursor_label_plan_def)
  obtain a b where ab: "a \<le> b" "b \<le> length ?s" "?is = [a ..< b]"
    using overlapping_interval [OF so] by blast
  show ?thesis
  proof (cases "a = b")
    case True
    then have "?is = []" using ab by simp
    moreover have "plan_ok (empty_plan (plan_revision p) (plan_final p))"
      using plan_okD(1) [OF ok] by (simp add: plan_ok_def plan_error_def empty_plan_def)
    ultimately show ?thesis by (simp add: sl slice_exact_def Let_def empty_plan_def)
  next
    case False
    then have hd: "int (hd ?is) = int a" "int (last ?is) + 1 = int b" "?is \<noteq> []" using ab by auto
    have sp: "slice (int a) (int b) ?s = map (\<lambda>i. ?s ! i) ?is"
      "slice (int a) (int b) (label_ids p) = map (\<lambda>i. label_ids p ! i) ?is"
      using ab len by (simp_all add: slice_nth)
    show ?thesis
    proof (cases "\<exists>i \<in> set ?is. fst (?s ! i) < start \<or> stop < snd (?s ! i)")
      case True
      then have "\<exists>(l, r) \<in> set (slice (int a) (int b) ?s). l < start \<or> stop < r"
        unfolding sp set_map bex_simps case_prod_beta by simp
      then have "slice_exact start stop p = Inr None"
        unfolding slice_exact_def Let_def hd(1,2) using hd(3) by simp
      with True show ?thesis by (simp add: sl Let_def)
    next
      case False
      then have no: "\<not> (\<exists>(l, r) \<in> set (slice (int a) (int b) ?s). l < start \<or> stop < r)"
        unfolding sp set_map bex_simps case_prod_beta by simp
      have "\<forall>i. int a \<le> int i \<longrightarrow> int i < int b \<longrightarrow> start \<le> fst (?s ! i) \<and> snd (?s ! i) \<le> stop"
        using False ab(3) by (auto simp: not_less)
      then have q: "plan_ok \<lparr>label_ids = slice (int a) (int b) (label_ids p),
          owner_spans = map (clip_owner (int a) (int b) start stop)
            (filter (\<lambda>w. label_start w < int b \<and> int a < label_end w) (owner_spans p)),
          plan_revision = plan_revision p, plan_final = plan_final p,
          label_normalized_spans = slice (int a) (int b) ?s\<rparr>" (is "plan_ok ?q")
        by (intro sliced_plan_ok [OF ok ne]) (use \<open>a \<noteq> b\<close> ab len assms(3) in \<open>auto simp: label_count_def\<close>)
      have "slice_exact start stop p = Inr (Some ?q)"
        unfolding slice_exact_def Let_def hd(1,2) using hd(3) no make_plan_ok [OF q] by simp
      with False q sp show ?thesis by (auto simp: sl Let_def not_less)
    qed
  qed
qed

section \<open>Witnesses\<close>

text \<open>Two owners over three labels; the second owner is rewritten in the newer plan.\<close>

definition ex_owner :: "int \<Rightarrow> int \<Rightarrow> int \<Rightarrow> int \<Rightarrow> int \<Rightarrow> cursor_owner_span" where
  "ex_owner k a b s e =
     \<lparr>owner_id = k, label_start = a, label_end = b, normalized_start = s, normalized_end = e,
      raw_start = s, raw_end = e\<rparr>"

definition ex_plan :: cursor_label_plan where
  "ex_plan = \<lparr>label_ids = [7, 8, 9], owner_spans = [ex_owner 0 0 2 0 4, ex_owner 1 2 3 4 6],
              plan_revision = 0, plan_final = False, label_normalized_spans = [(0, 2), (2, 4), (4, 6)]\<rparr>"

definition ex_plan2 :: cursor_label_plan where
  "ex_plan2 = \<lparr>label_ids = [7, 8, 3], owner_spans = [ex_owner 0 0 2 0 4, ex_owner 5 2 3 4 6],
               plan_revision = 1, plan_final = True, label_normalized_spans = [(0, 2), (2, 4), (4, 6)]\<rparr>"

lemma ex_plans_ok: "plan_ok ex_plan" "plan_ok ex_plan2"
  by code_simp+

theorem reanchor_within_plan_witness:
  "reanchor_cursor_mu ex_plan ex_plan2 (Fin (5 / 2)) = Inr 2 \<and> (2 :: rat) \<le> of_int (label_count ex_plan2)"
proof -
  have "live_prefix_unchanged ex_plan ex_plan2 (5 / 2) = False" by code_simp
  moreover have "boundary_position ex_plan ex_plan2 (5 / 2) = 2" by code_simp
  moreover have "label_count ex_plan = 3" "plan_active ex_plan2" by code_simp+
  ultimately have "reanchor_cursor_mu ex_plan ex_plan2 (Fin (5 / 2)) = Inr 2"
    by (simp add: reanchor_cursor_mu_def Let_def)
  with reanchor_within_plan [OF ex_plans_ok(2), of "Fin (5 / 2)" ex_plan] show ?thesis by simp
qed

theorem slice_plan_exact_witness:
  "\<exists>q. slice_cursor_label_plan 2 6 ex_plan = Inr (Some q) \<and> plan_ok q \<and> label_ids q = [8, 9]"
proof -
  have ov: "overlapping_labels 2 6 (label_normalized_spans ex_plan) = [1, 2]" by code_simp
  have "label_normalized_spans ex_plan ! 1 = (2, 4)" "label_normalized_spans ex_plan ! 2 = (4, 6)"
    "label_ids ex_plan ! 1 = 8" "label_ids ex_plan ! 2 = 9" "label_normalized_spans ex_plan \<noteq> []"
    by code_simp+
  with slice_plan_exact [OF ex_plans_ok(1), of 2 6] ov show ?thesis by (simp add: Let_def) blast
qed

end
