(* ===== verification/Py_Text.thy ===== *)
theory Py_Text
  imports Complex_Main "HOL-Library.Code_Target_Nat" Prelude
begin

text \<open>
  The parts of Python's text handling that several components use: \<open>str\<close> of an integer and
  the \<open>:.kf\<close> format of a finite float (a rational, rounded half to even as Python formats the
  exact value of the float), the decimal reading of a digit string, \<open>str.isspace\<close> on code
  points, the strip methods built on it, and the binary search of the \<open>bisect\<close> module.
\<close>

section \<open>Numbers as text\<close>

definition digit_char :: "nat \<Rightarrow> char" where
  "digit_char d = char_of (48 + d)"

fun nat_str :: "nat \<Rightarrow> string" where
  "nat_str n = (if n < 10 then [digit_char n] else nat_str (n div 10) @ [digit_char (n mod 10)])"

declare nat_str.simps [simp del]

definition int_str :: "int \<Rightarrow> string" where
  "int_str i = (if i < 0 then CHR ''-'' # nat_str (nat (- i)) else nat_str (nat i))"

definition bool_str :: "bool \<Rightarrow> string" where
  "bool_str b = (if b then ''true'' else ''false'')"

definition round_half_even :: "rat \<Rightarrow> int" where
  "round_half_even x =
     (let f = \<lfloor>x\<rfloor>; d = x - of_int f
      in if d < 1 / 2 then f else if 1 / 2 < d then f + 1 else if even f then f else f + 1)"

definition zero_pad :: "nat \<Rightarrow> string \<Rightarrow> string" where
  "zero_pad k s = replicate (k - length s) (CHR ''0'') @ s"

definition fixed_str :: "nat \<Rightarrow> rat \<Rightarrow> string" where
  "fixed_str k x =
     (let m = nat (round_half_even (\<bar>x\<bar> * 10 ^ k))
      in (if x < 0 then ''-'' else '''') @ nat_str (m div 10 ^ k) @ ''.'' @ zero_pad k (nat_str (m mod 10 ^ k)))"

text \<open>Reading a string of ASCII digits with an optional sign, as \<open>int(s)\<close> does.\<close>

definition is_digit_char :: "char \<Rightarrow> bool" where
  "is_digit_char c \<longleftrightarrow> 48 \<le> (of_char c :: nat) \<and> (of_char c :: nat) \<le> 57"

definition digits_value :: "string \<Rightarrow> nat" where
  "digits_value s = foldl (\<lambda>v c. v * 10 + (of_char c - 48)) 0 s"

definition str_int :: "string \<Rightarrow> int option" where
  "str_int s =
     (let (neg, ds) = (if s \<noteq> [] \<and> hd s = CHR ''-'' then (True, tl s) else (False, s))
      in if ds = [] \<or> \<not> list_all is_digit_char ds then None
         else Some (if neg then - int (digits_value ds) else int (digits_value ds)))"

lemma digit_char_code [simp]: "d < 10 \<Longrightarrow> (of_char (digit_char d) :: nat) = 48 + d"
  by (simp add: digit_char_def)

lemma is_digit_char_digit [simp]: "d < 10 \<Longrightarrow> is_digit_char (digit_char d)"
  by (simp add: is_digit_char_def)

lemma nat_str_digits: "list_all is_digit_char (nat_str n)" and nat_str_nonempty [simp]: "nat_str n \<noteq> []"
  by (induction n rule: nat_str.induct; subst nat_str.simps; simp)+

lemma digits_value_nat_str [simp]: "digits_value (nat_str n) = n"
proof (induction n rule: nat_str.induct)
  case (1 n)
  show ?case
  proof (cases "n < 10")
    case True
    then show ?thesis by (simp add: nat_str.simps digits_value_def)
  next
    case False
    then have "digits_value (nat_str n) = digits_value (nat_str (n div 10)) * 10 + n mod 10"
      by (subst nat_str.simps) (simp add: digits_value_def)
    with 1 [OF False] show ?thesis by simp
  qed
qed

lemma str_int_int_str [simp]: "str_int (int_str i) = Some i"
proof -
  have "hd (nat_str n) \<noteq> CHR ''-''" for n
  proof -
    have "is_digit_char (hd (nat_str n))"
      using nat_str_digits [of n] nat_str_nonempty [of n] by (cases "nat_str n") auto
    then show ?thesis by (auto simp: is_digit_char_def)
  qed
  then show ?thesis using nat_str_digits by (simp add: str_int_def int_str_def)
qed

lemma int_str_inject [simp]: "int_str i = int_str j \<longleftrightarrow> i = j"
  by (metis option.inject str_int_int_str)

section \<open>White space\<close>

text \<open>The code points for which \<open>str.isspace\<close> holds.\<close>

definition py_isspace :: "nat \<Rightarrow> bool" where
  "py_isspace c \<longleftrightarrow>
     (9 \<le> c \<and> c \<le> 13) \<or> (28 \<le> c \<and> c \<le> 32) \<or> c = 0x85 \<or> c = 0xA0 \<or> c = 0x1680 \<or>
     (0x2000 \<le> c \<and> c \<le> 0x200A) \<or> c = 0x2028 \<or> c = 0x2029 \<or> c = 0x202F \<or> c = 0x205F \<or> c = 0x3000"

definition py_lstrip :: "pystr \<Rightarrow> pystr" where
  "py_lstrip s = dropWhile py_isspace s"

definition py_rstrip :: "pystr \<Rightarrow> pystr" where
  "py_rstrip s = rev (dropWhile py_isspace (rev s))"

definition py_strip :: "pystr \<Rightarrow> pystr" where
  "py_strip s = py_rstrip (py_lstrip s)"

lemma length_py_lstrip: "length (py_lstrip s) \<le> length s"
  unfolding py_lstrip_def by (rule length_dropWhile_le)

lemma length_py_rstrip: "length (py_rstrip s) \<le> length s"
  unfolding py_rstrip_def using length_dropWhile_le [of py_isspace "rev s"] by simp

lemma py_lstrip_drop: "py_lstrip s = drop (length s - length (py_lstrip s)) s"
  unfolding py_lstrip_def
  by (metis append_eq_conv_conj diff_add_inverse2 length_append takeWhile_dropWhile_id)

lemma py_rstrip_take: "py_rstrip s = take (length (py_rstrip s)) s"
proof -
  have "s = rev (takeWhile py_isspace (rev s) @ dropWhile py_isspace (rev s))" by simp
  then have "s = py_rstrip s @ rev (takeWhile py_isspace (rev s))"
    unfolding py_rstrip_def by (metis rev_append)
  then show ?thesis by (metis append_eq_conv_conj)
qed

section \<open>Binary search\<close>

text \<open>\<open>bisect.bisect_left(xs, v, lo, hi)\<close>.\<close>

function bisect_left :: "'a::linorder list \<Rightarrow> 'a \<Rightarrow> nat \<Rightarrow> nat \<Rightarrow> nat" where
  "bisect_left xs v lo hi =
     (if lo < hi then
        let mid = (lo + hi) div 2 in
        if xs ! mid < v then bisect_left xs v (mid + 1) hi else bisect_left xs v lo mid
      else lo)"
  by auto
termination
  by (relation "measure (\<lambda>(xs, v, lo, hi). hi - lo)") (auto simp: Let_def)

declare bisect_left.simps [simp del]

lemma bisect_left_spec:
  assumes "sorted xs" and "hi \<le> length xs" and "lo \<le> hi"
    and "\<forall>i < lo. xs ! i < v" and "\<forall>i < length xs. hi \<le> i \<longrightarrow> v \<le> xs ! i"
  shows "bisect_left xs v lo hi \<le> hi \<and> (\<forall>i < bisect_left xs v lo hi. xs ! i < v) \<and>
         (\<forall>i < length xs. bisect_left xs v lo hi \<le> i \<longrightarrow> v \<le> xs ! i)"
  using assms
proof (induction xs v lo hi rule: bisect_left.induct)
  case (1 xs v lo hi)
  show ?case
  proof (cases "lo < hi")
    case False
    then have "bisect_left xs v lo hi = lo" by (simp add: bisect_left.simps)
    with 1(3-7) False show ?thesis by simp
  next
    case True
    define m where "m = (lo + hi) div 2"
    have m: "lo \<le> m" "m < hi" using True by (auto simp: m_def)
    show ?thesis
    proof (cases "xs ! m < v")
      case below: True
      have "\<forall>i < m + 1. xs ! i < v"
      proof (intro allI impI)
        fix i assume "i < m + 1"
        then have "xs ! i \<le> xs ! m" using sorted_nth_mono [OF 1(3)] m 1(4) by simp
        with below show "xs ! i < v" by simp
      qed
      then have "bisect_left xs v (m + 1) hi \<le> hi \<and> (\<forall>i < bisect_left xs v (m + 1) hi. xs ! i < v) \<and>
         (\<forall>i < length xs. bisect_left xs v (m + 1) hi \<le> i \<longrightarrow> v \<le> xs ! i)"
        using m by (intro 1(1) [OF True m_def below 1(3,4) _ _ 1(7)]) auto
      moreover have "bisect_left xs v lo hi = bisect_left xs v (m + 1) hi"
        using True below by (subst bisect_left.simps) (simp add: Let_def m_def)
      ultimately show ?thesis by simp
    next
      case above: False
      have "\<forall>i < length xs. m \<le> i \<longrightarrow> v \<le> xs ! i"
      proof (intro allI impI)
        fix i assume "i < length xs" "m \<le> i"
        then have "xs ! m \<le> xs ! i" using sorted_nth_mono [OF 1(3)] by simp
        with above show "v \<le> xs ! i" by simp
      qed
      then have "bisect_left xs v lo m \<le> m \<and> (\<forall>i < bisect_left xs v lo m. xs ! i < v) \<and>
         (\<forall>i < length xs. bisect_left xs v lo m \<le> i \<longrightarrow> v \<le> xs ! i)"
        using m 1(4) by (intro 1(2) [OF True m_def above 1(3) _ _ 1(6)]) auto
      moreover have "bisect_left xs v lo hi = bisect_left xs v lo m"
        using True above by (subst bisect_left.simps) (simp add: Let_def m_def)
      ultimately show ?thesis using m by auto
    qed
  qed
qed

lemma bisect_left_sorted:
  assumes "sorted xs"
  shows "bisect_left xs v 0 (length xs) \<le> length xs"
    and "\<forall>i < bisect_left xs v 0 (length xs). xs ! i < v"
    and "\<forall>i < length xs. bisect_left xs v 0 (length xs) \<le> i \<longrightarrow> v \<le> xs ! i"
  using bisect_left_spec [OF assms, of "length xs" 0 v] by auto

end
