(* ===== verification/Text_Progress.thy ===== *)
theory Text_Progress
  imports Native_Cursor Py_Text
begin

text \<open>
  The progress estimators of \<open>engine/core/text_progress.py\<close>: the display coordinates of a
  cursor position, the projector that turns cursor positions into owner-level high-water
  marks, and the frame-ratio estimator.

  Comparisons, \<open>min\<close>, \<open>max\<close> and \<open>floor\<close> of floats are exact, so a finite float is a rational
  number here. Products, sums, differences and quotients of floats are rounded: the parameter
  \<open>rnd\<close> is the rounding of IEEE arithmetic, and a theorem that depends on it names what it uses.
\<close>

section \<open>Display coordinates\<close>

definition owner_at_value :: "rat \<Rightarrow> cursor_owner_span list \<Rightarrow> cursor_owner_span" where
  "owner_at_value v ws =
     (case List.find (\<lambda>w. v < of_int (label_end w)) ws of Some w \<Rightarrow> w | None \<Rightarrow> last ws)"

definition owner_fraction :: "(rat \<Rightarrow> rat) \<Rightarrow> rat \<Rightarrow> cursor_owner_span \<Rightarrow> rat" where
  "owner_fraction rnd v w =
     (if of_int (label_end w) \<le> v then 1
      else rnd (max 0 (rnd (v - of_int (label_start w))) / of_int (max 1 (label_end w - label_start w))))"

definition interpolate :: "(rat \<Rightarrow> rat) \<Rightarrow> rat \<Rightarrow> int \<Rightarrow> int \<Rightarrow> rat" where
  "interpolate rnd fraction a b = rnd (of_int a + rnd (fraction * of_int (b - a)))"

definition cursor_display_position ::
  "(rat \<Rightarrow> rat) \<Rightarrow> cursor_label_plan \<Rightarrow> rat \<Rightarrow> (rat \<times> rat) option" where
  "cursor_display_position rnd plan position =
     (if owner_spans plan = [] then None
      else let v = clamp 0 (of_int (label_count plan)) position;
               w = owner_at_value v (owner_spans plan);
               fraction = owner_fraction rnd v w
           in Some (interpolate rnd fraction (normalized_start w) (normalized_end w),
                    interpolate rnd fraction (raw_start w) (raw_end w)))"

text \<open>The binary search for the first normalized start that is not below the target.\<close>

function bisect_start :: "(int \<times> int) list \<Rightarrow> int \<Rightarrow> nat \<Rightarrow> nat \<Rightarrow> nat" where
  "bisect_start spans target left right =
     (if left < right then
        let middle = (left + right) div 2 in
        if fst (spans ! middle) < target then bisect_start spans target (middle + 1) right
        else bisect_start spans target left middle
      else left)"
  by auto
termination
  by (relation "measure (\<lambda>(spans, target, left, right). right - left)") (auto simp: Let_def)

function scan_candidate ::
  "(int \<times> int) list \<Rightarrow> int list \<Rightarrow> (int \<times> int) list \<Rightarrow> int list \<Rightarrow> int \<Rightarrow> nat \<Rightarrow> nat option" where
  "scan_candidate global_spans global_ids segment_spans segment_ids target candidate =
     (if candidate + length segment_spans \<le> length global_spans then
        if fst (global_spans ! candidate) \<noteq> target then None
        else if take (length segment_spans) (drop candidate global_spans) = segment_spans \<and>
                take (length segment_spans) (drop candidate global_ids) = segment_ids
        then Some candidate
        else scan_candidate global_spans global_ids segment_spans segment_ids target (candidate + 1)
      else None)"
  by auto
termination
  by (relation "measure (\<lambda>(gs, gi, ss, si, t, c). Suc (length gs) - c)") auto

declare bisect_start.simps [simp del] scan_candidate.simps [simp del]

definition segment_offset :: "cursor_label_plan \<Rightarrow> cursor_label_plan \<Rightarrow> nat option" where
  "segment_offset global_plan segment_plan =
     (let segment_spans = label_normalized_spans segment_plan;
          global_spans = label_normalized_spans global_plan;
          target_start = fst (segment_spans ! 0)
      in if length segment_spans \<le> length global_spans
         then scan_candidate global_spans (label_ids global_plan) segment_spans (label_ids segment_plan)
                target_start (bisect_start global_spans target_start 0 (length global_spans))
         else None)"

definition cursor_display_position_for_segment ::
  "(rat \<Rightarrow> rat) \<Rightarrow> cursor_label_plan option \<Rightarrow> cursor_label_plan \<Rightarrow> float_arg \<Rightarrow> (rat \<times> rat) option" where
  "cursor_display_position_for_segment rnd global_plan segment_plan position =
     (case position of
        BadFloat \<Rightarrow> None
      | FloatOf NonFin \<Rightarrow> None
      | FloatOf (Fin p) \<Rightarrow>
          let local_position = clamp 0 (of_int (label_count segment_plan)) p in
          if label_normalized_spans segment_plan = []
          then cursor_display_position rnd segment_plan local_position
          else case global_plan of
            None \<Rightarrow> None
          | Some g \<Rightarrow>
              if label_normalized_spans g = [] then None
              else case segment_offset g segment_plan of
                None \<Rightarrow> None
              | Some offset \<Rightarrow> cursor_display_position rnd g (rnd (of_nat offset + local_position)))"

section \<open>Estimates\<close>

record text_progress_estimate =
  tpe_segment_idx :: int
  tpe_source_frame_start :: int
  tpe_source_frame_end :: int
  text_token_start :: int
  text_token_end :: int
  text_token_count :: int
  expected_audio_frames :: rat
  ema_audio_frames_per_token :: rat
  tpe_progress :: rat
  tpe_basis :: string
  tpe_quality :: string
  tpe_final :: bool

definition text_progress_basis :: string where
  "text_progress_basis = ''ema_frame_ratio_v1''"

definition native_cursor_progress_basis :: string where
  "native_cursor_progress_basis = ''native_cursor_v1''"

definition estimate_to_meta :: "text_progress_estimate \<Rightarrow> meta" where
  "estimate_to_meta e =
     [(''progress_basis'', tpe_basis e),
      (''progress_quality'', tpe_quality e),
      (''source_frame_start'', int_str (tpe_source_frame_start e)),
      (''source_frame_end'', int_str (tpe_source_frame_end e)),
      (''text_token_start'', int_str (text_token_start e)),
      (''text_token_end'', int_str (text_token_end e)),
      (''text_token_count'', int_str (text_token_count e)),
      (''expected_audio_frames'', fixed_str 3 (expected_audio_frames e)),
      (''ema_audio_frames_per_token'', fixed_str 3 (ema_audio_frames_per_token e)),
      (''text_progress'', fixed_str 6 (tpe_progress e)),
      (''progress_final'', bool_str (tpe_final e))]"

record native_cursor_progress_estimate =
  ncp_segment_idx :: int
  ncp_source_frame_start :: int
  ncp_source_frame_end :: int
  normalized_codepoint_start :: int
  normalized_codepoint_end :: int
  raw_codepoint_start :: int
  raw_codepoint_end :: int
  label_position :: rat
  confidence :: rat
  ncp_progress :: rat
  display_normalized_position :: "rat option"
  display_raw_position :: "rat option"
  ncp_final :: bool
  ncp_basis :: string
  ncp_quality :: string

definition cursor_estimate_to_meta :: "native_cursor_progress_estimate \<Rightarrow> meta" where
  "cursor_estimate_to_meta e =
     [(''progress_basis'', ncp_basis e),
      (''progress_quality'', ncp_quality e),
      (''source_frame_start'', int_str (ncp_source_frame_start e)),
      (''source_frame_end'', int_str (ncp_source_frame_end e)),
      (''normalized_codepoint_start'', int_str (normalized_codepoint_start e)),
      (''normalized_codepoint_end'', int_str (normalized_codepoint_end e)),
      (''raw_codepoint_start'', int_str (raw_codepoint_start e)),
      (''raw_codepoint_end'', int_str (raw_codepoint_end e)),
      (''cursor_mu'', fixed_str 6 (label_position e)),
      (''cursor_confidence'', fixed_str 6 (confidence e)),
      (''text_progress'', fixed_str 6 (ncp_progress e)),
      (''progress_final'', bool_str (ncp_final e))] @
     (case (display_normalized_position e, display_raw_position e) of
        (Some n, Some r) \<Rightarrow>
          [(''display_normalized_position'', fixed_str 6 n), (''display_raw_position'', fixed_str 6 r)]
      | _ \<Rightarrow> [])"

section \<open>The cursor projector\<close>

record projector =
  pj_segment_idx :: int
  pj_plan :: cursor_label_plan
  last_normalized_end :: int
  last_raw_end :: int
  last_display_normalized :: rat
  last_display_raw :: rat
  last_mu :: rat

definition new_projector :: "int \<Rightarrow> cursor_label_plan \<Rightarrow> projector" where
  "new_projector idx plan =
     \<lparr>pj_segment_idx = idx, pj_plan = plan, last_normalized_end = 0, last_raw_end = 0,
      last_display_normalized = 0, last_display_raw = 0, last_mu = 0\<rparr>"

definition projector_update_plan ::
  "cursor_label_plan \<Rightarrow> projector \<Rightarrow> projector \<times> (py_error, unit) result" where
  "projector_update_plan plan s =
     (if plan_revision plan < plan_revision (pj_plan s)
      then (s, Inl (ValueError ''native cursor plan revision cannot move backwards''))
      else (s\<lparr>pj_plan := plan, last_mu := min (last_mu s) (of_int (label_count plan))\<rparr>, Inr ()))"

definition completed_owner_count :: "cursor_label_plan \<Rightarrow> rat \<Rightarrow> nat" where
  "completed_owner_count plan position =
     (if of_int (label_count plan) \<le> position then length (owner_spans plan)
      else length (filter (\<lambda>w. of_int (label_end w) \<le> position) (owner_spans plan)))"

text \<open>The first statements of \<open>update\<close>: the position that the call moves the cursor to.\<close>

definition cursor_target :: "float_arg option \<Rightarrow> bool \<Rightarrow> projector \<Rightarrow> (py_error, rat) result" where
  "cursor_target mu final s =
     (let n = of_int (label_count (pj_plan s));
          move = (\<lambda>p. if final then n else max (last_mu s) (clamp 0 n p))
      in case mu of
           None \<Rightarrow> Inr (move (last_mu s))
         | Some BadFloat \<Rightarrow> Inl (ValueError ''cursor mu must be numeric'')
         | Some (FloatOf NonFin) \<Rightarrow> Inl (ValueError ''cursor mu must be finite'')
         | Some (FloatOf (Fin p)) \<Rightarrow> Inr (move p))"

text \<open>The owner boundary and the display position that the position has reached.\<close>

definition advance_marks :: "rat \<Rightarrow> projector \<Rightarrow> projector" where
  "advance_marks position s =
     (let completed = completed_owner_count (pj_plan s) position;
          (n, r) = (if completed \<noteq> 0
                    then let w = owner_spans (pj_plan s) ! (completed - 1) in (normalized_end w, raw_end w)
                    else (last_normalized_end s, last_raw_end s))
      in s\<lparr>last_normalized_end := max (last_normalized_end s) n, last_raw_end := max (last_raw_end s) r\<rparr>)"

definition advance_display :: "(rat \<Rightarrow> rat) \<Rightarrow> rat \<Rightarrow> projector \<Rightarrow> projector \<times> (rat \<times> rat) option" where
  "advance_display rnd position s =
     (case cursor_display_position rnd (pj_plan s) position of
        None \<Rightarrow> (s, None)
      | Some (n, r) \<Rightarrow>
          let n' = max (last_display_normalized s) n; r' = max (last_display_raw s) r
          in (s\<lparr>last_display_normalized := n', last_display_raw := r'\<rparr>, Some (n', r')))"

record cursor_sample =
  cs_mu :: "float_arg option"
  cs_valid :: bool
  cs_confidence :: pyfloat
  cs_frame_start :: int
  cs_frame_end :: int
  cs_final :: bool

definition projector_update ::
  "(rat \<Rightarrow> rat) \<Rightarrow> cursor_sample \<Rightarrow> projector \<Rightarrow>
   projector \<times> (py_error, native_cursor_progress_estimate option) result" where
  "projector_update rnd c s =
     (if \<not> cs_valid c \<and> \<not> cs_final c then (s, Inr None)
      else if \<not> plan_active (pj_plan s) then (s, Inr None)
      else case cursor_target (cs_mu c) (cs_final c) s of
        Inl e \<Rightarrow> (s, Inl e)
      | Inr position \<Rightarrow>
          let s1 = s\<lparr>last_mu := position\<rparr> in
          (case cs_confidence c of
             NonFin \<Rightarrow> (s1, Inl (ValueError ''cursor confidence must be finite''))
           | Fin conf \<Rightarrow>
               let frame_start = max 0 (cs_frame_start c);
                   frame_end = max frame_start (cs_frame_end c);
                   s2 = advance_marks position s1;
                   (s3, display) = advance_display rnd position s2
               in if owner_spans (pj_plan s) = [] then (s3, Inl IndexError)
                  else
                    let total = max (normalized_end (last (owner_spans (pj_plan s)))) (last_normalized_end s3);
                        progress = (if total \<noteq> 0 then rnd (of_int (last_normalized_end s3) / of_int total) else 0)
                    in (s3, Inr (Some
                         \<lparr>ncp_segment_idx = pj_segment_idx s,
                          ncp_source_frame_start = frame_start, ncp_source_frame_end = frame_end,
                          normalized_codepoint_start = last_normalized_end s1,
                          normalized_codepoint_end = last_normalized_end s3,
                          raw_codepoint_start = last_raw_end s1, raw_codepoint_end = last_raw_end s3,
                          label_position = position, confidence = clamp 0 1 conf,
                          ncp_progress = clamp 0 1 progress,
                          display_normalized_position = map_option fst display,
                          display_raw_position = map_option snd display,
                          ncp_final = cs_final c, ncp_basis = native_cursor_progress_basis,
                          ncp_quality = ''native''\<rparr>))))"

definition owner_at :: "cursor_label_plan \<Rightarrow> rat \<Rightarrow> cursor_owner_span option" where
  "owner_at plan position =
     (case List.find (\<lambda>w. position < of_int (label_end w)) (owner_spans plan) of
        Some w \<Rightarrow> Some w
      | None \<Rightarrow> (if owner_spans plan = [] then None else Some (last (owner_spans plan))))"

section \<open>The frame-ratio estimator\<close>

record ema_estimator =
  ee_segment_idx :: int
  ema_ratio :: rat
  last_token_end :: int
  last_frame_end :: int

definition new_ema_estimator :: "int \<Rightarrow> pyfloat \<Rightarrow> (py_error, ema_estimator) result" where
  "new_ema_estimator idx ratio =
     (case ratio of
        NonFin \<Rightarrow> Inl (ValueError ''ema_ratio must be finite and positive'')
      | Fin r \<Rightarrow>
          if r \<le> 0 then Inl (ValueError ''ema_ratio must be finite and positive'')
          else Inr \<lparr>ee_segment_idx = idx, ema_ratio = r, last_token_end = 0, last_frame_end = 0\<rparr>)"

definition ema_token_end :: "(rat \<Rightarrow> rat) \<Rightarrow> int \<Rightarrow> int \<Rightarrow> bool \<Rightarrow> ema_estimator \<Rightarrow> int" where
  "ema_token_end rnd frame_end token_count final s =
     (let token_end = (if final then token_count
                       else if token_count = 0 then 0
                       else min token_count (max 0 \<lfloor>rnd (of_int frame_end / ema_ratio s)\<rfloor>))
      in min token_count (max (last_token_end s) token_end))"

definition ema_update ::
  "(rat \<Rightarrow> rat) \<Rightarrow> int \<Rightarrow> int \<Rightarrow> int \<Rightarrow> bool \<Rightarrow> ema_estimator \<Rightarrow> ema_estimator \<times> text_progress_estimate" where
  "ema_update rnd source_frame_start source_frame_end token_count_arg final s =
     (let frame_start = max 0 source_frame_start;
          frame_end = max (max frame_start source_frame_end) (last_frame_end s);
          token_count = max 0 token_count_arg;
          expected_frames = rnd (ema_ratio s * of_int token_count);
          token_end = ema_token_end rnd frame_end token_count final s;
          token_start = min (last_token_end s) token_end;
          progress = (if token_count \<noteq> 0 then rnd (of_int token_end / of_int token_count) else 0)
      in (s\<lparr>last_frame_end := frame_end, last_token_end := token_end\<rparr>,
          \<lparr>tpe_segment_idx = ee_segment_idx s, tpe_source_frame_start = frame_start,
           tpe_source_frame_end = frame_end, text_token_start = token_start, text_token_end = token_end,
           text_token_count = token_count, expected_audio_frames = expected_frames,
           ema_audio_frames_per_token = ema_ratio s, tpe_progress = clamp 0 1 progress,
           tpe_basis = text_progress_basis, tpe_quality = ''rough'', tpe_final = final\<rparr>))"

section \<open>Locating a segment in the session plan\<close>

text \<open>The reference: the first window of the session plan that equals the segment plan.\<close>

definition window_at :: "cursor_label_plan \<Rightarrow> cursor_label_plan \<Rightarrow> nat \<Rightarrow> bool" where
  "window_at g p i \<longleftrightarrow>
     i + length (label_normalized_spans p) \<le> length (label_normalized_spans g) \<and>
     take (length (label_normalized_spans p)) (drop i (label_normalized_spans g)) = label_normalized_spans p \<and>
     take (length (label_normalized_spans p)) (drop i (label_ids g)) = label_ids p"

lemma bisect_start_eq:
  "right \<le> length spans \<Longrightarrow> bisect_start spans t left right = bisect_left (map fst spans) t left right"
proof (induction spans t left right rule: bisect_start.induct)
  case (1 spans t left right)
  define m where "m = (left + right) div 2"
  show ?case
  proof (cases "left < right")
    case True
    then have "m < right" "m < length spans" using 1(3) by (auto simp: m_def)
    with 1(1) [OF True m_def] 1(2) [OF True m_def] 1(3) True show ?thesis
      by (subst bisect_start.simps, subst bisect_left.simps) (simp add: Let_def m_def [symmetric])
  qed (simp add: bisect_start.simps bisect_left.simps)
qed

lemma bisect_start_spec:
  assumes "sorted (map fst spans)"
  shows "(\<forall>i < bisect_start spans t 0 (length spans). fst (spans ! i) < t) \<and>
         (\<forall>i < length spans. bisect_start spans t 0 (length spans) \<le> i \<longrightarrow> t \<le> fst (spans ! i))"
  using bisect_left_sorted [OF assms, of t] by (simp add: bisect_start_eq)

lemma window_start:
  assumes "window_at g p i" and "label_normalized_spans p \<noteq> []"
  shows "fst (label_normalized_spans g ! i) = fst (label_normalized_spans p ! 0)"
proof -
  have "label_normalized_spans p ! 0 = take (length (label_normalized_spans p)) (drop i (label_normalized_spans g)) ! 0"
    using assms(1) by (simp add: window_at_def)
  also have "\<dots> = drop i (label_normalized_spans g) ! 0" using assms(2) by (intro nth_take) simp
  also have "\<dots> = label_normalized_spans g ! i" using assms(1) by (simp add: window_at_def)
  finally show ?thesis by simp
qed

lemma scan_candidate_spec:
  assumes "sorted (map fst (label_normalized_spans g))" and ne: "label_normalized_spans p \<noteq> []"
    and t: "t = fst (label_normalized_spans p ! 0)"
    and "\<forall>i < length (label_normalized_spans g). c \<le> i \<longrightarrow> t \<le> fst (label_normalized_spans g ! i)"
    and "\<forall>i < c. \<not> window_at g p i"
  shows "case scan_candidate (label_normalized_spans g) (label_ids g) (label_normalized_spans p) (label_ids p) t c of
           None \<Rightarrow> \<forall>i. \<not> window_at g p i
         | Some k \<Rightarrow> window_at g p k \<and> (\<forall>i < k. \<not> window_at g p i)"
  using assms(4,5)
proof (induction "Suc (length (label_normalized_spans g)) - c" arbitrary: c rule: less_induct)
  case less
  let ?scan = "scan_candidate (label_normalized_spans g) (label_ids g) (label_normalized_spans p) (label_ids p) t"
  show ?case
  proof (cases "c + length (label_normalized_spans p) \<le> length (label_normalized_spans g)")
    case False
    then have "\<not> window_at g p i" if "c \<le> i" for i using that by (simp add: window_at_def)
    with less.prems(2) have "\<forall>i. \<not> window_at g p i" by (meson leI)
    with False show ?thesis by (subst scan_candidate.simps) simp
  next
    case True
    with ne have c: "c < length (label_normalized_spans g)" by (cases "label_normalized_spans p") auto
    consider (stop) "fst (label_normalized_spans g ! c) \<noteq> t" | (hit) "window_at g p c"
      | (miss) "fst (label_normalized_spans g ! c) = t" "\<not> window_at g p c" by blast
    then show ?thesis
    proof cases
      case stop
      with less.prems(1) c have gt: "t < fst (label_normalized_spans g ! c)" by (simp add: order_less_le)
      have "\<not> window_at g p i" if "c \<le> i" for i
      proof
        assume w: "window_at g p i"
        then have "i < length (label_normalized_spans g)" using ne by (cases "label_normalized_spans p") (auto simp: window_at_def)
        then have "fst (label_normalized_spans g ! c) \<le> fst (label_normalized_spans g ! i)"
          using sorted_nth_mono [OF assms(1) that] c by simp
        with gt window_start [OF w ne] t show False by simp
      qed
      with less.prems(2) have "\<forall>i. \<not> window_at g p i" by (meson leI)
      with stop True show ?thesis by (subst scan_candidate.simps) simp
    next
      case hit
      with window_start [OF hit ne] t True less.prems(2) show ?thesis
        by (subst scan_candidate.simps) (simp add: window_at_def)
    next
      case miss
      have "?scan c = ?scan (c + 1)"
        using miss True by (subst scan_candidate.simps) (auto simp: window_at_def)
      moreover have "\<forall>i < c + 1. \<not> window_at g p i" using miss less.prems(2) by (auto simp: less_Suc_eq)
      ultimately show ?thesis using less.hyps [of "c + 1"] less.prems(1) c by simp
    qed
  qed
qed

text \<open>
  The binary search for a segment finds the first occurrence. For a valid session plan
  with exact label spans, the offset that the search computes is the first position of the
  plan at which the spans and the ids of the segment plan occur, and it reports none exactly
  when they occur nowhere.
\<close>

theorem segment_offset_is_first_window:
  assumes "plan_ok g" and "label_normalized_spans g \<noteq> []" and "label_normalized_spans p \<noteq> []"
  shows "segment_offset g p = List.find (window_at g p) [0 ..< Suc (length (label_normalized_spans g))]"
proof -
  let ?gs = "label_normalized_spans g" and ?t = "fst (label_normalized_spans p ! 0)"
  have srt: "sorted (map fst ?gs)" using plan_okD(5) [OF assms(1,2)] by (simp add: label_spans_error_iff)
  define c where "c = bisect_start ?gs ?t 0 (length ?gs)"
  have c: "\<forall>i < c. fst (?gs ! i) < ?t" "\<forall>i < length ?gs. c \<le> i \<longrightarrow> ?t \<le> fst (?gs ! i)"
    using bisect_start_spec [OF srt, of ?t] by (auto simp: c_def)
  have "\<forall>i < c. \<not> window_at g p i" using c(1) window_start [OF _ assms(3)] by fastforce
  note scan = scan_candidate_spec [OF srt assms(3) refl c(2) this]
  have long: "window_at g p i \<Longrightarrow> length (label_normalized_spans p) \<le> length ?gs \<and> i < Suc (length ?gs)" for i
    by (simp add: window_at_def)
  show ?thesis
  proof (cases "segment_offset g p")
    case None
    then have "\<forall>i. \<not> window_at g p i"
      using scan long by (auto simp: segment_offset_def Let_def c_def split: if_splits)
    then have "List.find (window_at g p) [0 ..< Suc (length ?gs)] = None" by (simp add: find_None_iff del: upt_Suc)
    with None show ?thesis by simp
  next
    case (Some k)
    then have k: "window_at g p k" "\<forall>i < k. \<not> window_at g p i"
      using scan by (auto simp: segment_offset_def Let_def c_def split: if_splits)
    then have "List.find (window_at g p) [0 ..< Suc (length ?gs)] = Some k"
      using long [OF k(1)] unfolding find_Some_iff
      by (intro exI [of _ k]) (auto simp del: upt_Suc)
    with Some show ?thesis by simp
  qed
qed

section \<open>The published ranges of a projector\<close>

text \<open>Half-open ranges that each start where the previous one ended.\<close>

fun tiles :: "int \<Rightarrow> (int \<times> int) list \<Rightarrow> bool" where
  "tiles a [] = True"
| "tiles a ((s, e) # rs) \<longleftrightarrow> s = a \<and> a \<le> e \<and> tiles e rs"

text \<open>
  A projector is only ever given plans that passed their constructor.
\<close>

datatype projector_op = SetPlan cursor_label_plan | Sample cursor_sample

definition projector_exec :: "(rat \<Rightarrow> rat) \<Rightarrow> projector_op \<Rightarrow> projector \<Rightarrow> projector" where
  "projector_exec rnd op s =
     (case op of
        SetPlan p \<Rightarrow> (case make_plan p of Inl _ \<Rightarrow> s | Inr q \<Rightarrow> fst (projector_update_plan q s))
      | Sample c \<Rightarrow> fst (projector_update rnd c s))"

definition projector_emit ::
  "(rat \<Rightarrow> rat) \<Rightarrow> projector_op \<Rightarrow> projector \<Rightarrow> native_cursor_progress_estimate list" where
  "projector_emit rnd op s =
     (case op of
        SetPlan _ \<Rightarrow> []
      | Sample c \<Rightarrow> (case snd (projector_update rnd c s) of Inr (Some e) \<Rightarrow> [e] | _ \<Rightarrow> []))"

fun projector_run ::
  "(rat \<Rightarrow> rat) \<Rightarrow> projector_op list \<Rightarrow> projector \<Rightarrow> native_cursor_progress_estimate list" where
  "projector_run rnd [] s = []"
| "projector_run rnd (op # ops) s =
     projector_emit rnd op s @ projector_run rnd ops (projector_exec rnd op s)"

definition projector_inv :: "projector \<Rightarrow> bool" where
  "projector_inv s \<longleftrightarrow>
     plan_ok (pj_plan s) \<and> 0 \<le> last_mu s \<and> last_mu s \<le> of_int (label_count (pj_plan s))"

text \<open>The four high-water marks as one point of a product order.\<close>

datatype mark_axis = NormalizedMark | RawMark | DisplayNormalizedMark | DisplayRawMark

fun projector_marks :: "projector \<Rightarrow> mark_axis \<Rightarrow> rat" where
  "projector_marks s NormalizedMark = of_int (last_normalized_end s)"
| "projector_marks s RawMark = of_int (last_raw_end s)"
| "projector_marks s DisplayNormalizedMark = last_display_normalized s"
| "projector_marks s DisplayRawMark = last_display_raw s"

lemma projector_marks_le:
  "projector_marks s \<le> projector_marks s' \<longleftrightarrow>
     last_normalized_end s \<le> last_normalized_end s' \<and> last_raw_end s \<le> last_raw_end s' \<and>
     last_display_normalized s \<le> last_display_normalized s' \<and> last_display_raw s \<le> last_display_raw s'"
proof
  assume le: "projector_marks s \<le> projector_marks s'"
  from le_funD [OF le, of NormalizedMark] le_funD [OF le, of RawMark]
    le_funD [OF le, of DisplayNormalizedMark] le_funD [OF le, of DisplayRawMark]
  show "last_normalized_end s \<le> last_normalized_end s' \<and> last_raw_end s \<le> last_raw_end s' \<and>
     last_display_normalized s \<le> last_display_normalized s' \<and> last_display_raw s \<le> last_display_raw s'"
    by simp
next
  assume "last_normalized_end s \<le> last_normalized_end s' \<and> last_raw_end s \<le> last_raw_end s' \<and>
     last_display_normalized s \<le> last_display_normalized s' \<and> last_display_raw s \<le> last_display_raw s'"
  then show "projector_marks s \<le> projector_marks s'"
    by (intro le_funI) (rename_tac a; case_tac a; simp)
qed

lemma advance_marks_simps [simp]:
  "pj_plan (advance_marks p s) = pj_plan s" "last_mu (advance_marks p s) = last_mu s"
  "last_display_normalized (advance_marks p s) = last_display_normalized s"
  "last_display_raw (advance_marks p s) = last_display_raw s"
  "last_normalized_end s \<le> last_normalized_end (advance_marks p s)"
  "last_raw_end s \<le> last_raw_end (advance_marks p s)"
  by (simp_all add: advance_marks_def Let_def split: prod.splits)

lemma advance_display_result:
  assumes "advance_display rnd p s = (s', d)"
  shows "pj_plan s' = pj_plan s" "last_mu s' = last_mu s"
    "last_normalized_end s' = last_normalized_end s" "last_raw_end s' = last_raw_end s"
    "last_display_normalized s \<le> last_display_normalized s'" "last_display_raw s \<le> last_display_raw s'"
    "d \<noteq> None \<Longrightarrow> d = Some (last_display_normalized s', last_display_raw s')"
    "d = None \<longleftrightarrow> owner_spans (pj_plan s) = []"
  using assms
  by (auto simp: advance_display_def cursor_display_position_def Let_def split: option.splits prod.splits if_splits)

lemma active_owners:
  assumes "plan_ok p" and "plan_active p"
  shows "owner_spans p \<noteq> []"
proof
  assume "owner_spans p = []"
  with plan_okD(3) [OF assms(1)] assms(2) show False
    by (simp add: label_count_def plan_active_def split: if_splits)
qed

text \<open>What one sample does: it either leaves the marks alone or moves them and publishes them.\<close>

definition publishes :: "projector \<Rightarrow> projector \<Rightarrow> native_cursor_progress_estimate \<Rightarrow> bool" where
  "publishes s s' e \<longleftrightarrow>
     normalized_codepoint_start e = last_normalized_end s \<and> normalized_codepoint_end e = last_normalized_end s' \<and>
     raw_codepoint_start e = last_raw_end s \<and> raw_codepoint_end e = last_raw_end s' \<and>
     display_normalized_position e = Some (last_display_normalized s') \<and>
     display_raw_position e = Some (last_display_raw s') \<and>
     label_position e = last_mu s' \<and>
     0 \<le> ncp_progress e \<and> ncp_progress e \<le> 1 \<and> 0 \<le> confidence e \<and> confidence e \<le> 1 \<and>
     0 \<le> ncp_source_frame_start e \<and> ncp_source_frame_start e \<le> ncp_source_frame_end e"

lemma cursor_target_bounds:
  assumes "projector_inv s" and "cursor_target mu fin s = Inr p"
  shows "last_mu s \<le> p \<and> p \<le> of_int (label_count (pj_plan s))"
  using assms
  by (auto simp: cursor_target_def projector_inv_def Let_def label_count_def
      split: option.splits float_arg.splits pyfloat.splits if_splits)

lemma projector_update_result:
  assumes upd: "projector_update rnd c s = (s', r)" and inv: "projector_inv s"
  shows "projector_inv s' \<and> pj_plan s' = pj_plan s \<and> last_mu s \<le> last_mu s' \<and>
         (case r of Inr (Some e) \<Rightarrow> publishes s s' e \<and> projector_marks s \<le> projector_marks s'
          | _ \<Rightarrow> projector_marks s' = projector_marks s \<and> r \<noteq> Inl IndexError)"
proof -
  have same: "projector_marks (s\<lparr>last_mu := p\<rparr>) = projector_marks s" for p
    by (intro ext) (rename_tac a; case_tac a; simp)
  consider (idle) "s' = s" "r = Inr None"
    | (bad) er where "s' = s" "r = Inl er" "cursor_target (cs_mu c) (cs_final c) s = Inl er"
    | (go) p where "plan_active (pj_plan s)" "cursor_target (cs_mu c) (cs_final c) s = Inr p"
    using upd by (fastforce simp: projector_update_def split: if_splits sum.splits)
  then show ?thesis
  proof cases
    case idle
    with inv show ?thesis by simp
  next
    case bad
    then have "er \<noteq> IndexError"
      by (auto simp: cursor_target_def Let_def split: option.splits float_arg.splits pyfloat.splits)
    with bad inv show ?thesis by simp
  next
    case go
    note ow = active_owners [OF _ go(1)]
    have inv': "projector_inv (s\<lparr>last_mu := p\<rparr>)" "last_mu s \<le> p" and ok: "plan_ok (pj_plan s)"
      using cursor_target_bounds [OF inv go(2)] inv by (auto simp: projector_inv_def)
    show ?thesis
    proof (cases "cs_valid c \<or> cs_final c")
      case False
      with upd have "s' = s" "r = Inr None" by (auto simp: projector_update_def)
      with inv show ?thesis by simp
    next
      case act: True
      show ?thesis
      proof (cases "cs_confidence c")
        case NonFin
        with upd go act have "s' = s\<lparr>last_mu := p\<rparr>" "r = Inl (ValueError ''cursor confidence must be finite'')"
          by (auto simp: projector_update_def Let_def)
        with inv' show ?thesis by (simp add: same)
      next
        case (Fin conf)
        define s2 where "s2 = advance_marks p (s\<lparr>last_mu := p\<rparr>)"
        obtain s3 d where dsp: "advance_display rnd p s2 = (s3, d)" by fastforce
        note res = advance_display_result [OF dsp]
        have d: "d = Some (last_display_normalized s3, last_display_raw s3)"
          using res(7,8) ow [OF ok] by (simp add: s2_def)
        have s3: "s' = s3" "\<exists>e. r = Inr (Some e) \<and> publishes s s3 e"
          using upd go act Fin ow [OF ok] res(2) d
          by (auto simp: projector_update_def Let_def dsp publishes_def s2_def [symmetric] clamp_lower)
            (auto simp: s2_def)
        moreover have "projector_marks s \<le> projector_marks s3"
          using advance_marks_simps(5,6) [of "s\<lparr>last_mu := p\<rparr>" p] res by (simp add: projector_marks_le s2_def)
        moreover have "pj_plan s3 = pj_plan s" "last_mu s3 = p" using res(1,2) by (simp_all add: s2_def)
        ultimately show ?thesis using inv' by (auto simp: projector_inv_def)
      qed
    qed
  qed
qed

lemma projector_update_plan_result:
  assumes "projector_update_plan q s = (s', r)" and "projector_inv s" and "plan_ok q"
  shows "projector_inv s' \<and> projector_marks s' = projector_marks s"
proof -
  have "projector_marks (s\<lparr>pj_plan := q, last_mu := m\<rparr>) = projector_marks s" for m
    by (intro ext) (rename_tac a; case_tac a; simp)
  with assms show ?thesis
    by (auto simp: projector_update_plan_def projector_inv_def label_count_def split: if_splits)
qed

lemma projector_exec_inv: "projector_inv s \<Longrightarrow> projector_inv (projector_exec rnd op s)"
  and projector_exec_marks: "projector_inv s \<Longrightarrow> projector_marks s \<le> projector_marks (projector_exec rnd op s)"
proof -
  assume inv: "projector_inv s"
  have "projector_inv (projector_exec rnd op s) \<and> projector_marks s \<le> projector_marks (projector_exec rnd op s)"
  proof (cases op)
    case (SetPlan p)
    show ?thesis
    proof (cases "make_plan p")
      case (Inl e)
      with SetPlan inv show ?thesis by (simp add: projector_exec_def)
    next
      case (Inr q)
      obtain s' r where u: "projector_update_plan q s = (s', r)" by fastforce
      from make_plan_valid [OF Inr] have "plan_ok q" by blast
      from projector_update_plan_result [OF u inv this] SetPlan Inr u
      show ?thesis by (simp add: projector_exec_def)
    qed
  next
    case (Sample c)
    obtain s' r where u: "projector_update rnd c s = (s', r)" by fastforce
    from projector_update_result [OF u inv] have "projector_inv s' \<and> projector_marks s \<le> projector_marks s'"
      by (auto split: sum.splits option.splits)
    with u Sample show ?thesis by (simp add: projector_exec_def)
  qed
  then show "projector_inv (projector_exec rnd op s)"
    and "projector_marks s \<le> projector_marks (projector_exec rnd op s)" by auto
qed

interpretation pj: watermark_system "projector_exec rnd" projector_inv projector_marks for rnd
  by unfold_locales (auto intro: projector_exec_inv projector_exec_marks)

lemma projector_step:
  assumes inv: "projector_inv s"
  shows "(projector_emit rnd op s = [] \<and> projector_marks (projector_exec rnd op s) = projector_marks s) \<or>
         (\<exists>e. projector_emit rnd op s = [e] \<and> publishes s (projector_exec rnd op s) e)"
proof (cases op)
  case (SetPlan p)
  show ?thesis
  proof (cases "make_plan p")
    case (Inl e)
    with SetPlan show ?thesis by (simp add: projector_exec_def projector_emit_def)
  next
    case (Inr q)
    obtain s' r where u: "projector_update_plan q s = (s', r)" by fastforce
    from make_plan_valid [OF Inr] have "plan_ok q" by blast
    from projector_update_plan_result [OF u inv this] SetPlan Inr u
    show ?thesis by (simp add: projector_exec_def projector_emit_def)
  qed
next
  case (Sample c)
  obtain s' r where u: "projector_update rnd c s = (s', r)" by fastforce
  from projector_update_result [OF u inv] Sample u show ?thesis
    by (auto simp: projector_emit_def projector_exec_def split: sum.splits option.splits)
qed

lemma marks_eqD:
  assumes "projector_marks s = projector_marks s'"
  shows "last_normalized_end s = last_normalized_end s'" "last_raw_end s = last_raw_end s'"
    "last_display_normalized s = last_display_normalized s'" "last_display_raw s = last_display_raw s'"
  using fun_cong [OF assms, of NormalizedMark] fun_cong [OF assms, of RawMark]
    fun_cong [OF assms, of DisplayNormalizedMark] fun_cong [OF assms, of DisplayRawMark]
  by simp_all

definition normalized_range :: "native_cursor_progress_estimate \<Rightarrow> int \<times> int" where
  "normalized_range e = (normalized_codepoint_start e, normalized_codepoint_end e)"

definition raw_range :: "native_cursor_progress_estimate \<Rightarrow> int \<times> int" where
  "raw_range e = (raw_codepoint_start e, raw_codepoint_end e)"

text \<open>The display coordinates of an estimate; the code always publishes both.\<close>

definition display_of :: "native_cursor_progress_estimate \<Rightarrow> rat \<times> rat" where
  "display_of e = (the (display_normalized_position e), the (display_raw_position e))"

definition display_shown :: "native_cursor_progress_estimate \<Rightarrow> bool" where
  "display_shown e \<longleftrightarrow> display_normalized_position e \<noteq> None \<and> display_raw_position e \<noteq> None"

definition estimate_in_range :: "native_cursor_progress_estimate \<Rightarrow> bool" where
  "estimate_in_range e \<longleftrightarrow>
     0 \<le> ncp_progress e \<and> ncp_progress e \<le> 1 \<and> 0 \<le> confidence e \<and> confidence e \<le> 1 \<and>
     0 \<le> ncp_source_frame_start e \<and> ncp_source_frame_start e \<le> ncp_source_frame_end e"

lemma projector_run_published:
  assumes "projector_inv s"
  shows "tiles (last_normalized_end s) (map normalized_range (projector_run rnd ops s)) \<and>
         tiles (last_raw_end s) (map raw_range (projector_run rnd ops s)) \<and>
         sorted (last_display_normalized s # map (fst \<circ> display_of) (projector_run rnd ops s)) \<and>
         sorted (last_display_raw s # map (snd \<circ> display_of) (projector_run rnd ops s)) \<and>
         (\<forall>e \<in> set (projector_run rnd ops s). display_shown e \<and> estimate_in_range e)"
  using assms
proof (induction ops arbitrary: s)
  case (Cons op ops)
  let ?s' = "projector_exec rnd op s"
  note IH = Cons.IH [OF projector_exec_inv [OF Cons.prems], of rnd op]
  note le = projector_exec_marks [OF Cons.prems, of rnd op, unfolded projector_marks_le]
  from projector_step [OF Cons.prems, of rnd op] show ?case
  proof (elim disjE exE conjE)
    assume "projector_emit rnd op s = []" "projector_marks ?s' = projector_marks s"
    with IH marks_eqD [of ?s' s] show ?thesis by simp
  next
    fix e assume e: "projector_emit rnd op s = [e]" "publishes s ?s' e"
    have e': "normalized_range e = (last_normalized_end s, last_normalized_end ?s')"
      "raw_range e = (last_raw_end s, last_raw_end ?s')"
      "display_of e = (last_display_normalized ?s', last_display_raw ?s')"
      "display_shown e" "estimate_in_range e"
      using e(2) by (auto simp: publishes_def normalized_range_def raw_range_def display_of_def
          display_shown_def estimate_in_range_def)
    from IH le show ?thesis unfolding projector_run.simps e(1) by (auto simp: e')
  qed
qed simp

text \<open>
  C31. The published progress of a segment never goes back and has no gaps. Whatever cursor
  samples and plan revisions a fresh projector receives, in whatever order, the normalized and
  the raw ranges it publishes each start where the previous one ended, beginning at zero; the
  display positions never decrease; and progress and confidence always stay between zero and
  one.
\<close>

theorem projector_progress_tiles:
  assumes "plan_ok plan"
  shows "let es = projector_run rnd ops (new_projector idx plan) in
         tiles 0 (map normalized_range es) \<and> tiles 0 (map raw_range es) \<and>
         sorted (map (fst \<circ> display_of) es) \<and> sorted (map (snd \<circ> display_of) es) \<and>
         list_all (\<lambda>e. display_shown e \<and> estimate_in_range e) es"
proof -
  have "projector_inv (new_projector idx plan)"
    using assms by (simp add: projector_inv_def new_projector_def label_count_def)
  from projector_run_published [OF this, of rnd ops] show ?thesis
    by (simp add: new_projector_def Let_def list_all_iff)
qed

text \<open>
  A final sample confirms everything. With a valid plan, a final sample whose position and
  confidence are usable always publishes an estimate that ends at or after the last owner, moves
  the position to the number of labels and, where there is text, reports progress one.
\<close>

theorem final_sample_completes:
  assumes "projector_inv s" and "plan_active (pj_plan s)" and "cs_final c"
    and "cs_mu c = None \<or> cs_mu c = Some (FloatOf (Fin m))" and "cs_confidence c = Fin conf" and "rnd 1 = 1"
    and "0 < normalized_end (last (owner_spans (pj_plan s)))"
  shows "\<exists>s' e. projector_update rnd c s = (s', Inr (Some e)) \<and>
           label_position e = of_int (label_count (pj_plan s)) \<and>
           normalized_end (last (owner_spans (pj_plan s))) \<le> normalized_codepoint_end e \<and>
           raw_end (last (owner_spans (pj_plan s))) \<le> raw_codepoint_end e \<and> ncp_progress e = 1"
proof -
  let ?n = "of_int (label_count (pj_plan s)) :: rat"
  have ow: "owner_spans (pj_plan s) \<noteq> []"
    using active_owners assms(1,2) by (simp add: projector_inv_def)
  have target: "cursor_target (cs_mu c) (cs_final c) s = Inr ?n"
    using assms(3,4) by (auto simp: cursor_target_def Let_def)
  define s2 where "s2 = advance_marks ?n (s\<lparr>last_mu := ?n\<rparr>)"
  obtain s3 d where dsp: "advance_display rnd ?n s2 = (s3, d)" by fastforce
  note res = advance_display_result [OF dsp]
  have n2: "last_normalized_end s3 = max (last_normalized_end s) (normalized_end (last (owner_spans (pj_plan s))))"
    "last_raw_end s3 = max (last_raw_end s) (raw_end (last (owner_spans (pj_plan s))))"
    using ow by (simp_all add: res s2_def advance_marks_def completed_owner_count_def Let_def last_conv_nth)
  show ?thesis
    using assms(2,3,5,6,7) ow target n2
    by (auto simp: projector_update_def Let_def dsp s2_def [symmetric] clamp_def max_def)
qed

section \<open>The frame-ratio estimator\<close>

record ema_sample =
  es_frame_start :: int
  es_frame_end :: int
  es_token_count :: int
  es_final :: bool

definition ema_step :: "(rat \<Rightarrow> rat) \<Rightarrow> ema_sample \<Rightarrow> ema_estimator \<Rightarrow> ema_estimator \<times> text_progress_estimate" where
  "ema_step rnd x s = ema_update rnd (es_frame_start x) (es_frame_end x) (es_token_count x) (es_final x) s"

fun ema_run :: "(rat \<Rightarrow> rat) \<Rightarrow> ema_sample list \<Rightarrow> ema_estimator \<Rightarrow> text_progress_estimate list" where
  "ema_run rnd [] s = []"
| "ema_run rnd (x # xs) s = snd (ema_step rnd x s) # ema_run rnd xs (fst (ema_step rnd x s))"

definition token_range :: "text_progress_estimate \<Rightarrow> int \<times> int" where
  "token_range e = (text_token_start e, text_token_end e)"

definition token_estimate_ok :: "text_progress_estimate \<Rightarrow> bool" where
  "token_estimate_ok e \<longleftrightarrow>
     text_token_end e \<le> text_token_count e \<and> (tpe_final e \<longrightarrow> text_token_end e = text_token_count e) \<and>
     0 \<le> tpe_progress e \<and> tpe_progress e \<le> 1 \<and> tpe_source_frame_start e \<le> tpe_source_frame_end e"

lemma ema_update_result:
  assumes "ema_step rnd x s = (s', e)" and "0 \<le> last_token_end s"
    and "last_token_end s \<le> max 0 (es_token_count x)"
  shows "token_range e = (last_token_end s, last_token_end s')" "last_token_end s \<le> last_token_end s'"
    "last_token_end s' \<le> max 0 (es_token_count x)" "last_frame_end s \<le> last_frame_end s'"
    "tpe_source_frame_end e = last_frame_end s'" "token_estimate_ok e"
proof -
  define fe where "fe = max (max (max 0 (es_frame_start x)) (es_frame_end x)) (last_frame_end s)"
  define t where "t = ema_token_end rnd fe (max 0 (es_token_count x)) (es_final x) s"
  have t: "last_token_end s \<le> t" "t \<le> max 0 (es_token_count x)" "es_final x \<Longrightarrow> t = max 0 (es_token_count x)"
  proof -
    obtain te where te: "t = min (max 0 (es_token_count x)) (max (last_token_end s) te)"
      "es_final x \<Longrightarrow> te = max 0 (es_token_count x)"
      by (rule that [OF trans [OF t_def ema_token_end_def [unfolded Let_def]]]) simp
    show "last_token_end s \<le> t" "t \<le> max 0 (es_token_count x)"
      unfolding te(1) using assms(3) by (auto intro: min.boundedI)
    show "t = max 0 (es_token_count x)" if "es_final x"
      unfolding te(1) te(2) [OF that] by (simp only: min.absorb1 max.cobounded2)
  qed
  have eqs: "s' = fst (ema_step rnd x s)" "e = snd (ema_step rnd x s)" using assms(1) by simp_all
  have s': "last_token_end s' = t" "last_frame_end s' = fe"
    and e: "text_token_start e = min (last_token_end s) t" "text_token_end e = t"
    "text_token_count e = max 0 (es_token_count x)" "tpe_source_frame_end e = fe" "tpe_final e = es_final x"
    "0 \<le> tpe_progress e" "tpe_progress e \<le> 1" "tpe_source_frame_start e = max 0 (es_frame_start x)"
    unfolding eqs by (simp_all add: ema_step_def ema_update_def Let_def t_def fe_def)
  show "token_range e = (last_token_end s, last_token_end s')" "last_token_end s \<le> last_token_end s'"
    "last_token_end s' \<le> max 0 (es_token_count x)" "tpe_source_frame_end e = last_frame_end s'"
    unfolding token_range_def e s' using t by (auto simp: min_absorb1)
  have "last_frame_end s \<le> fe" "max 0 (es_frame_start x) \<le> fe"
    unfolding fe_def by (auto intro: max.coboundedI1)
  with t e s' show "last_frame_end s \<le> last_frame_end s'" "token_estimate_ok e"
    unfolding token_estimate_ok_def by auto
qed

lemma ema_run_published:
  assumes "0 \<le> last_token_end s" and "sorted (last_token_end s # map (\<lambda>x. max 0 (es_token_count x)) xs)"
  shows "tiles (last_token_end s) (map token_range (ema_run rnd xs s)) \<and>
         sorted (last_frame_end s # map tpe_source_frame_end (ema_run rnd xs s)) \<and>
         list_all token_estimate_ok (ema_run rnd xs s)"
  using assms
proof (induction xs arbitrary: s)
  case (Cons x xs)
  obtain s' e where st: "ema_step rnd x s = (s', e)" by fastforce
  have "last_token_end s \<le> max 0 (es_token_count x)" using Cons.prems(2) by simp
  note res = ema_update_result [OF st Cons.prems(1) this]
  have "sorted (last_token_end s' # map (\<lambda>x. max 0 (es_token_count x)) xs)"
    using Cons.prems(2) res(3) by fastforce
  with Cons.IH [of s'] res(2) Cons.prems(1) have
    IH: "tiles (last_token_end s') (map token_range (ema_run rnd xs s'))"
      "sorted (last_frame_end s' # map tpe_source_frame_end (ema_run rnd xs s'))"
      "list_all token_estimate_ok (ema_run rnd xs s')" by auto
  have run: "ema_run rnd (x # xs) s = e # ema_run rnd xs s'" using st by simp
  have "sorted (last_frame_end s # map tpe_source_frame_end (e # ema_run rnd xs s'))"
    using IH(2) res(4,5) by (auto intro: order_trans)
  then show ?case unfolding run using IH(1,3) res(1,2,6) by simp
qed simp

text \<open>
  The frame-ratio estimate is monotone while text is appended. When the token counts that
  an estimator is given never decrease, the token ranges it publishes each start where the last
  one ended, never exceed the token count, reach it on a final sample, and the frame ends never
  decrease.
\<close>

theorem ema_progress_tiles:
  assumes "new_ema_estimator idx ratio = Inr s" and "sorted (map es_token_count xs)"
  shows "tiles 0 (map token_range (ema_run rnd xs s)) \<and>
         sorted (map tpe_source_frame_end (ema_run rnd xs s)) \<and> list_all token_estimate_ok (ema_run rnd xs s)"
proof -
  have s: "last_token_end s = 0" using assms(1) by (auto simp: new_ema_estimator_def split: pyfloat.splits if_splits)
  have "sorted (map (\<lambda>x. max 0 (es_token_count x)) xs)" using assms(2)
    by (induction xs) (auto intro: max.coboundedI2)
  then have "sorted (last_token_end s # map (\<lambda>x. max 0 (es_token_count x)) xs)" by (auto simp: s)
  from ema_run_published [OF _ this, of rnd] s show ?thesis by simp
qed

section \<open>Witnesses\<close>

text \<open>A segment plan that is the tail of \<open>ex_plan\<close>, and samples with a revision in between.\<close>

definition ex_tail_plan :: cursor_label_plan where
  "ex_tail_plan = \<lparr>label_ids = [8, 9], owner_spans = [ex_owner 0 0 1 0 4, ex_owner 1 1 2 4 6],
                   plan_revision = 0, plan_final = False, label_normalized_spans = [(2, 4), (4, 6)]\<rparr>"

definition ex_sample :: "rat \<Rightarrow> bool \<Rightarrow> cursor_sample" where
  "ex_sample m fin = \<lparr>cs_mu = Some (FloatOf (Fin m)), cs_valid = True, cs_confidence = Fin (1 / 2),
                      cs_frame_start = 0, cs_frame_end = 3, cs_final = fin\<rparr>"

theorem segment_offset_is_first_window_witness:
  "segment_offset ex_plan ex_tail_plan = Some 1 \<and> window_at ex_plan ex_tail_plan 1"
proof -
  have "label_normalized_spans ex_plan \<noteq> []" "label_normalized_spans ex_tail_plan \<noteq> []" by code_simp+
  note eq = segment_offset_is_first_window [OF ex_plans_ok(1) this]
  have "List.find (window_at ex_plan ex_tail_plan) [0 ..< Suc (length (label_normalized_spans ex_plan))] = Some 1"
    by code_simp
  with eq have "segment_offset ex_plan ex_tail_plan = Some 1" by (rule trans)
  moreover have "window_at ex_plan ex_tail_plan 1" by code_simp
  ultimately show ?thesis by simp
qed

definition ex_progress :: "native_cursor_progress_estimate list" where
  "ex_progress = projector_run id [Sample (ex_sample 2 False), SetPlan ex_plan2, Sample (ex_sample 1 False),
                                   Sample (ex_sample 3 True)] (new_projector 0 ex_plan)"

theorem projector_progress_tiles_witness:
  "map normalized_range ex_progress = [(0, 4), (4, 4), (4, 6)] \<and> tiles 0 (map normalized_range ex_progress)"
proof -
  have "map normalized_range ex_progress = [(0, 4), (4, 4), (4, 6)]" by code_simp
  with projector_progress_tiles [OF ex_plans_ok(1), where rnd = id and idx = 0] show ?thesis
    unfolding ex_progress_def Let_def by simp
qed

theorem final_sample_completes_witness:
  "\<exists>s' e. projector_update id (ex_sample 1 True) (new_projector 0 ex_plan) = (s', Inr (Some e)) \<and>
     ncp_progress e = 1 \<and> 6 \<le> normalized_codepoint_end e"
proof -
  have "projector_inv (new_projector 0 ex_plan)" "plan_active (pj_plan (new_projector 0 ex_plan))"
    "normalized_end (last (owner_spans (pj_plan (new_projector 0 ex_plan)))) = 6"
    by code_simp+
  from final_sample_completes [OF this(1,2), of "ex_sample 1 True" 1 "1 / 2" id] this(3)
  show ?thesis by (simp add: ex_sample_def) blast
qed

definition ex_ema :: "ema_sample list" where
  "ex_ema = [\<lparr>es_frame_start = 0, es_frame_end = 4, es_token_count = 5, es_final = False\<rparr>,
             \<lparr>es_frame_start = 4, es_frame_end = 9, es_token_count = 6, es_final = True\<rparr>]"

theorem ema_progress_tiles_witness:
  "\<exists>s. new_ema_estimator 0 (Fin 2) = Inr s \<and> map token_range (ema_run id ex_ema s) = [(0, 2), (2, 6)] \<and>
     tiles 0 (map token_range (ema_run id ex_ema s))"
proof -
  define s where "s = \<lparr>ee_segment_idx = 0, ema_ratio = 2, last_token_end = 0, last_frame_end = 0\<rparr>"
  have s: "new_ema_estimator 0 (Fin 2) = Inr s" by (simp add: new_ema_estimator_def s_def)
  have "sorted (map es_token_count ex_ema)" by (simp add: ex_ema_def)
  from ema_progress_tiles [OF s this, of id] have "tiles 0 (map token_range (ema_run id ex_ema s))" by simp
  moreover have "map token_range (ema_run id ex_ema s) = [(0, 2), (2, 6)]" unfolding s_def by code_simp
  ultimately show ?thesis using s by (intro exI [of _ s]) simp
qed

end
