(* ===== verification/Text_Normalization.thy ===== *)
theory Text_Normalization
  imports Py_Text
begin

text \<open>
  The text clean-up of \<open>engine/text_normalization.py\<close> and the canonical normalizer
  \<open>_normalize_tts_text\<close> of \<open>engine/frontend/interface.py\<close>. Texts are lists of code points. The
  loops of the source walk an index; the definitions walk the suffix of the text that starts
  there, so \<open>text[i]\<close> is the head of the suffix and \<open>i += n\<close> is \<open>drop n\<close>.
\<close>

section \<open>Emoji\<close>

definition in_ranges :: "nat \<Rightarrow> (nat \<times> nat) list \<Rightarrow> bool" where
  "in_ranges codepoint ranges \<longleftrightarrow> list_ex (\<lambda>(a, b). a \<le> codepoint \<and> codepoint \<le> b) ranges"

definition emoji_ranges :: "(nat \<times> nat) list" where
  "emoji_ranges = [(0x1F000, 0x1FAFF), (0x2600, 0x27BF)]"

definition emoji_component_ranges :: "(nat \<times> nat) list" where
  "emoji_component_ranges = [(0xFE00, 0xFE0F), (0xE0020, 0xE007F), (0xE0100, 0xE01EF)]"

definition emoji_component_codepoints :: "nat list" where
  "emoji_component_codepoints = [0x200D, 0x20E3]"

definition emoji_codepoints :: "nat list" where
  "emoji_codepoints = [0x00A9, 0x00AE, 0x203C, 0x2049, 0x2122, 0x2139, 0x3030, 0x303D, 0x3297, 0x3299]"

definition is_emoji_char :: "nat \<Rightarrow> bool" where
  "is_emoji_char c \<longleftrightarrow>
     c \<in> set emoji_codepoints \<or> c \<in> set emoji_component_codepoints \<or>
     in_ranges c emoji_ranges \<or> in_ranges c emoji_component_ranges"

text \<open>\<open>ch.isascii() and ch.isalnum()\<close>; the empty string, which the code uses for ``no character'',
  is \<open>None\<close>.\<close>

definition ascii_alnum :: "nat \<Rightarrow> bool" where
  "ascii_alnum c \<longleftrightarrow> (48 \<le> c \<and> c \<le> 57) \<or> (65 \<le> c \<and> c \<le> 90) \<or> (97 \<le> c \<and> c \<le> 122)"

definition is_ascii_word_char :: "nat option \<Rightarrow> bool" where
  "is_ascii_word_char ch = (case ch of None \<Rightarrow> False | Some c \<Rightarrow> ascii_alnum c)"

text \<open>\<open>ch in "0123456789#*"\<close>.\<close>

definition keycap_base :: "nat \<Rightarrow> bool" where
  "keycap_base c \<longleftrightarrow> (48 \<le> c \<and> c \<le> 57) \<or> c = 35 \<or> c = 42"

fun keycap_sequence_len :: "pystr \<Rightarrow> nat" where
  "keycap_sequence_len (b # k # rest) =
     (if \<not> keycap_base b then 0
      else if k = 0x20E3 then 2
      else if k = 0xFE0F \<and> rest \<noteq> [] \<and> hd rest = 0x20E3 then 3 else 0)"
| "keycap_sequence_len _ = 0"

lemma keycap_sequence_len_le: "keycap_sequence_len t \<le> length t"
proof (cases t rule: keycap_sequence_len.cases)
  case (1 b k rest)
  then show ?thesis by (cases rest) auto
qed auto

text \<open>The loop that runs over emoji code points and keycap sequences.\<close>

function skip_emoji :: "pystr \<Rightarrow> pystr" where
  "skip_emoji [] = []"
| "skip_emoji (c # cs) =
     (let k = keycap_sequence_len (c # cs)
      in if k \<noteq> 0 then skip_emoji (drop k (c # cs))
         else if \<not> is_emoji_char c then c # cs
         else skip_emoji cs)"
  by pat_completeness auto
termination
  by (relation "measure length") auto

declare skip_emoji.simps(2) [simp del]

lemma length_skip_emoji: "length (skip_emoji t) \<le> length t"
proof (induction t rule: skip_emoji.induct)
  case (2 c cs)
  show ?case
    using 2(1) [OF refl] 2(2) [OF refl] by (subst skip_emoji.simps) (auto simp: Let_def)
qed simp

definition next_non_emoji_char :: "pystr \<Rightarrow> nat option" where
  "next_non_emoji_char t = (case skip_emoji t of [] \<Rightarrow> None | c # _ \<Rightarrow> Some c)"

definition incomplete_emoji_suffix_len :: "pystr \<Rightarrow> nat" where
  "incomplete_emoji_suffix_len t =
     (if t = [] then 0
      else if keycap_base (last t) then 1
      else if 2 \<le> length t \<and> last t = 0xFE0F \<and> keycap_base (t ! (length t - 2)) then 2
      else 0)"

definition split_pending_emoji :: "pystr \<Rightarrow> pystr \<times> pystr" where
  "split_pending_emoji t =
     (let hold = incomplete_emoji_suffix_len t
      in if hold = 0 then (t, [])
         else let cut = length t - hold in (take cut t, drop cut t))"

text \<open>The separating space that replaces an emoji between two ASCII words.\<close>

definition push_separator :: "pystr \<Rightarrow> nat option \<Rightarrow> pystr" where
  "push_separator out next_ch =
     (if out \<noteq> [] \<and> ascii_alnum (last out) \<and> is_ascii_word_char next_ch then out @ [32] else out)"

function strip_loop :: "pystr \<Rightarrow> pystr \<Rightarrow> pystr" where
  "strip_loop out [] = out"
| "strip_loop out (c # cs) =
     (let k = keycap_sequence_len (c # cs)
      in if k \<noteq> 0
         then strip_loop (push_separator out (next_non_emoji_char (drop k (c # cs)))) (drop k (c # cs))
         else if \<not> is_emoji_char c then strip_loop (out @ [c]) cs
         else strip_loop (push_separator out (next_non_emoji_char cs)) (skip_emoji cs))"
  by pat_completeness auto
termination
  by (relation "measure (length \<circ> snd)") (auto simp: less_Suc_eq_le length_skip_emoji)

declare strip_loop.simps(2) [simp del]

definition strip_emoji :: "pystr \<Rightarrow> pystr" where
  "strip_emoji t = strip_loop [] t"

section \<open>The canonical normalizer\<close>

text \<open>\<open>str.translate\<close> with the table that deletes line breaks and ideographic spaces.\<close>

definition translate_whitespace :: "pystr \<Rightarrow> pystr" where
  "translate_whitespace t =
     map (\<lambda>c. if c = 9 then 32 else c) (filter (\<lambda>c. c \<noteq> 10 \<and> c \<noteq> 13 \<and> c \<noteq> 0x3000) t)"

text \<open>\<open>"  " in text\<close> and \<open>text.replace("  ", " ")\<close>.\<close>

fun has_double_space :: "pystr \<Rightarrow> bool" where
  "has_double_space (a # b # cs) \<longleftrightarrow> (a = 32 \<and> b = 32) \<or> has_double_space (b # cs)"
| "has_double_space _ = False"

fun replace_double_space :: "pystr \<Rightarrow> pystr" where
  "replace_double_space (a # b # cs) =
     (if a = 32 \<and> b = 32 then 32 # replace_double_space cs else a # replace_double_space (b # cs))"
| "replace_double_space t = t"

lemma length_replace_double_space: "length (replace_double_space t) \<le> length t"
  by (induction t rule: replace_double_space.induct) auto

lemma replace_double_space_shrinks: "has_double_space t \<Longrightarrow> length (replace_double_space t) < length t"
proof (induction t rule: replace_double_space.induct)
  case (1 a b cs)
  then show ?case using length_replace_double_space [of cs] by auto
qed auto

function collapse_spaces :: "pystr \<Rightarrow> pystr" where
  "collapse_spaces t = (if has_double_space t then collapse_spaces (replace_double_space t) else t)"
  by auto
termination
  by (relation "measure length") (auto simp: replace_double_space_shrinks)

declare collapse_spaces.simps [simp del]

definition normalize_tts_text :: "pystr \<Rightarrow> pystr" where
  "normalize_tts_text t = collapse_spaces (strip_emoji (translate_whitespace t))"

section \<open>What emoji stripping keeps\<close>

text \<open>The reference: emoji and keycap sequences are dropped, everything else is kept.\<close>

function keep_chars :: "pystr \<Rightarrow> pystr" where
  "keep_chars [] = []"
| "keep_chars (c # cs) =
     (let k = keycap_sequence_len (c # cs)
      in if k \<noteq> 0 then keep_chars (drop k (c # cs))
         else if is_emoji_char c then keep_chars cs
         else c # keep_chars cs)"
  by pat_completeness auto
termination
  by (relation "measure length") auto

declare keep_chars.simps(2) [simp del]

text \<open>A packet leaves no keycap sequence open before \<open>u\<close>.\<close>

definition no_straddle :: "pystr \<Rightarrow> pystr \<Rightarrow> bool" where
  "no_straddle e u \<longleftrightarrow> incomplete_emoji_suffix_len e = 0 \<or> (u \<noteq> [] \<and> keycap_base (hd u))"

lemma keycap_base_not_component [simp]: "keycap_base 0x20E3 = False" "keycap_base 0xFE0F = False"
  by (simp_all add: keycap_base_def)

lemma incomplete_drop:
  assumes "incomplete_emoji_suffix_len t = 0"
  shows "incomplete_emoji_suffix_len (drop k t) = 0"
proof (cases "k < length t")
  case True
  have "2 \<le> length (drop k t) \<Longrightarrow> drop k t ! (length (drop k t) - 2) = t ! (length t - 2)"
    using True by (simp add: nth_drop algebra_simps)
  with assms True show ?thesis
    by (auto simp: incomplete_emoji_suffix_len_def last_drop split: if_splits)
qed (simp add: incomplete_emoji_suffix_len_def)

lemma no_straddle_drop: "no_straddle e u \<Longrightarrow> no_straddle (drop k e) u"
  using incomplete_drop by (auto simp: no_straddle_def)

lemma keycap_sequence_len_append:
  assumes "no_straddle (c # cs) u"
  shows "keycap_sequence_len ((c # cs) @ u) = keycap_sequence_len (c # cs)"
proof (cases cs)
  case Nil
  then show ?thesis
    using assms by (cases u) (auto simp: no_straddle_def incomplete_emoji_suffix_len_def split: if_splits)
next
  case (Cons k rest)
  show ?thesis
  proof (cases rest)
    case Nil
    with Cons show ?thesis
      using assms by (cases u) (auto simp: no_straddle_def incomplete_emoji_suffix_len_def split: if_splits)
  qed (use Cons in simp)
qed

lemma keep_chars_append: "no_straddle e u \<Longrightarrow> keep_chars (e @ u) = keep_chars e @ keep_chars u"
proof (induction e rule: keep_chars.induct)
  case (2 c cs)
  let ?k = "keycap_sequence_len (c # cs)"
  note len = keycap_sequence_len_append [OF 2(4)]
  have le: "?k \<le> length (c # cs)" by (rule keycap_sequence_len_le)
  have cs: "no_straddle cs u" using no_straddle_drop [OF 2(4), of 1] by simp
  show ?case
  proof (cases "?k = 0")
    case True
    with 2(2,3) [OF refl] len cs show ?thesis
      by (simp add: keep_chars.simps(2) [of c "cs @ u"] keep_chars.simps(2) [of c cs])
  next
    case False
    have "drop ?k ((c # cs) @ u) = drop ?k (c # cs) @ u" unfolding drop_append using le by simp
    with 2(1) [OF refl False no_straddle_drop [OF 2(4)]] len False show ?thesis
      by (simp add: keep_chars.simps(2) [of c "cs @ u"] keep_chars.simps(2) [of c cs])
  qed
qed simp

lemma keep_chars_skip_emoji [simp]: "keep_chars (skip_emoji t) = keep_chars t"
proof (induction t rule: skip_emoji.induct)
  case (2 c cs)
  then show ?case by (simp add: skip_emoji.simps(2) keep_chars.simps(2) [of c cs] Let_def)
qed simp

lemma keep_chars_no_emoji: "c \<in> set (keep_chars t) \<Longrightarrow> \<not> is_emoji_char c \<and> c \<in> set t"
proof (induction t rule: keep_chars.induct)
  case (2 a cs)
  from 2(4) show ?case
    using 2(1) [OF refl] 2(2,3) [OF refl] set_drop_subset [of "keycap_sequence_len (a # cs)" "a # cs"]
    by (auto simp: keep_chars.simps(2) [of a cs] Let_def split: if_splits)
qed simp

lemmas emoji_defs = is_emoji_char_def in_ranges_def emoji_ranges_def emoji_component_ranges_def
  emoji_component_codepoints_def emoji_codepoints_def

lemma emoji_keycap [simp]: "is_emoji_char 0x20E3" and space_not_emoji [simp]: "\<not> is_emoji_char 32"
  by (simp_all add: emoji_defs)

lemma keycap_sequence_len_plain:
  assumes "\<forall>c \<in> set t. \<not> is_emoji_char c"
  shows "keycap_sequence_len t = 0"
proof (cases t rule: keycap_sequence_len.cases)
  case (1 b k rest)
  with assms show ?thesis by (cases rest) auto
qed auto

lemma keep_chars_id: "\<forall>c \<in> set t. \<not> is_emoji_char c \<Longrightarrow> keep_chars t = t"
proof (induction t rule: keep_chars.induct)
  case (2 a cs)
  note keycap_sequence_len_plain [OF 2(4)]
  with 2 show ?case by (simp add: keep_chars.simps(2) [of a cs])
qed simp

lemma filter_push_separator [simp]:
  "filter (\<lambda>c. c \<noteq> 32) (push_separator out nx) = filter (\<lambda>c. c \<noteq> 32) out"
  by (simp add: push_separator_def)

lemma strip_loop_keeps:
  "filter (\<lambda>c. c \<noteq> 32) (strip_loop out t) =
     filter (\<lambda>c. c \<noteq> 32) out @ filter (\<lambda>c. c \<noteq> 32) (keep_chars t)"
proof (induction out t rule: strip_loop.induct)
  case (2 out c cs)
  then show ?case
    by (simp add: strip_loop.simps(2) keep_chars.simps(2) [of c cs] Let_def del: drop_Suc_Cons)
qed simp

lemma strip_loop_chars: "set (strip_loop out t) \<subseteq> set out \<union> {32} \<union> set (keep_chars t)"
proof (induction out t rule: strip_loop.induct)
  case (2 out c cs)
  have sep: "set (push_separator out nx) \<subseteq> set out \<union> {32}" for nx by (auto simp: push_separator_def)
  show ?case
    using 2(1) [OF refl] 2(2,3) [OF refl] sep
    by (simp add: strip_loop.simps(2) keep_chars.simps(2) [of c cs] Let_def del: drop_Suc_Cons) blast
qed auto

lemma strip_loop_id: "\<forall>c \<in> set t. \<not> is_emoji_char c \<Longrightarrow> strip_loop out t = out @ t"
proof (induction out t rule: strip_loop.induct)
  case (2 out a cs)
  note keycap_sequence_len_plain [OF 2(4)]
  with 2 show ?case by (simp add: strip_loop.simps(2))
qed simp

lemma strip_emoji_no_emoji: "c \<in> set (strip_emoji t) \<Longrightarrow> \<not> is_emoji_char c"
proof -
  assume "c \<in> set (strip_emoji t)"
  then consider "c = 32" | "c \<in> set (keep_chars t)" using strip_loop_chars [of "[]" t] by (auto simp: strip_emoji_def)
  then show ?thesis by cases (simp, use keep_chars_no_emoji in blast)
qed

text \<open>
  The carry of the streaming front end: a packet is prefixed with the held suffix of the last
  one, the body is passed on, and what is still held when the input ends is flushed.
\<close>

fun carry_packets :: "pystr \<Rightarrow> pystr list \<Rightarrow> pystr list" where
  "carry_packets carry [] = (if carry = [] then [] else [carry])"
| "carry_packets carry (p # ps) =
     (let (body, carry') = split_pending_emoji (carry @ p) in body # carry_packets carry' ps)"

lemma split_pending_emoji_append:
  assumes "split_pending_emoji t = (body, hold)"
  shows "t = body @ hold" and "no_straddle body (hold @ u)"
proof -
  from assms show "t = body @ hold"
    by (auto simp: split_pending_emoji_def Let_def split: if_splits)
  show "no_straddle body (hold @ u)"
  proof (cases "incomplete_emoji_suffix_len t = 0")
    case True
    with assms show ?thesis by (auto simp: split_pending_emoji_def no_straddle_def)
  next
    case False
    then have len: "t \<noteq> []" "incomplete_emoji_suffix_len t \<le> length t"
      and base: "keycap_base (t ! (length t - incomplete_emoji_suffix_len t))"
      by (auto simp: incomplete_emoji_suffix_len_def last_conv_nth Suc_le_eq split: if_splits)
    have hold: "hold = drop (length t - incomplete_emoji_suffix_len t) t"
      using assms False by (auto simp: split_pending_emoji_def Let_def)
    have "length t - incomplete_emoji_suffix_len t < length t" using False len by simp
    with base hold show ?thesis by (auto simp: no_straddle_def hd_drop_conv_nth)
  qed
qed

lemma carry_packets_keep: "concat (map keep_chars (carry_packets carry ps)) = keep_chars (carry @ concat ps)"
proof (induction ps arbitrary: carry)
  case (Cons p ps)
  obtain body hold where sp: "split_pending_emoji (carry @ p) = (body, hold)" by fastforce
  note t = split_pending_emoji_append [OF sp]
  have "keep_chars (carry @ concat (p # ps)) = keep_chars (body @ hold @ concat ps)"
    using t(1) by (metis append.assoc concat.simps(2))
  also have "\<dots> = keep_chars body @ keep_chars (hold @ concat ps)" by (rule keep_chars_append [OF t(2)])
  finally show ?case using Cons.IH [of hold] sp by simp
qed simp

lemma carry_packets_concat: "concat (carry_packets carry ps) = carry @ concat ps"
proof (induction ps arbitrary: carry)
  case (Cons p ps)
  obtain body hold where sp: "split_pending_emoji (carry @ p) = (body, hold)" by fastforce
  have "carry @ concat (p # ps) = body @ hold @ concat ps"
    using split_pending_emoji_append(1) [OF sp] by (metis append.assoc concat.simps(2))
  with Cons.IH [of hold] sp show ?case by simp
qed simp

lemma strip_emoji_keeps:
  "filter (\<lambda>c. c \<noteq> 32) (strip_emoji t) = filter (\<lambda>c. c \<noteq> 32) (keep_chars t)"
  by (simp add: strip_emoji_def strip_loop_keeps)

text \<open>
  Packet boundaries never change what is spoken. However a text is cut into packets, even
  in the middle of an emoji or keycap sequence, the bodies that the carry passes on add up to
  the text, and stripping the emoji of each body keeps exactly the characters, other than the
  spaces around removed emoji, that stripping the whole text keeps.
\<close>

theorem packets_do_not_leak_emoji:
  "concat (carry_packets [] ps) = concat ps \<and>
   filter (\<lambda>c. c \<noteq> 32) (concat (map strip_emoji (carry_packets [] ps))) =
   filter (\<lambda>c. c \<noteq> 32) (strip_emoji (concat ps))"
proof -
  have "filter (\<lambda>c. c \<noteq> 32) (concat (map strip_emoji xs)) = filter (\<lambda>c. c \<noteq> 32) (concat (map keep_chars xs))" for xs
    by (induction xs) (simp_all add: strip_emoji_keeps)
  then show ?thesis
    using carry_packets_concat [of "[]" ps] carry_packets_keep [of "[]" ps] by (simp add: strip_emoji_keeps)
qed

section \<open>The normalizer is a projection\<close>

text \<open>The reference of the replacement loop: one pass that merges runs of spaces.\<close>

fun squeeze :: "pystr \<Rightarrow> pystr" where
  "squeeze (a # b # cs) = (if a = 32 \<and> b = 32 then squeeze (b # cs) else a # squeeze (b # cs))"
| "squeeze t = t"

lemma squeeze_space: "squeeze (32 # t) = (if t \<noteq> [] \<and> hd t = 32 then squeeze t else 32 # squeeze t)"
  by (cases t) auto

lemma hd_squeeze [simp]: "hd (squeeze (a # t)) = a"
  by (induction "a # t" arbitrary: a t rule: squeeze.induct) auto

lemma squeeze_Cons_other: "a \<noteq> 32 \<Longrightarrow> squeeze (a # t) = a # squeeze t"
  by (cases t) auto

lemma hd_replace_double_space [simp]: "hd (replace_double_space (a # t)) = a"
  by (cases t) auto

lemma replace_double_space_nonempty [simp]: "replace_double_space (a # t) \<noteq> []"
  by (cases t) auto

lemma squeeze_replace: "squeeze (replace_double_space t) = squeeze t"
proof (induction t rule: replace_double_space.induct)
  case (1 a b cs)
  show ?case
  proof (cases "a = 32 \<and> b = 32")
    case True
    then have "squeeze (replace_double_space (a # b # cs)) = squeeze (32 # replace_double_space cs)" by simp
    also have "\<dots> = squeeze (32 # cs)"
      using 1(1) [OF True] by (cases cs) (auto simp: squeeze_space)
    finally show ?thesis using True by simp
  next
    case False
    then show ?thesis
      using 1(2) [OF False] by (cases "a = 32") (auto simp: squeeze_space squeeze_Cons_other)
  qed
qed simp_all

lemma squeeze_id: "\<not> has_double_space t \<Longrightarrow> squeeze t = t"
  by (induction t rule: has_double_space.induct) auto

lemma collapse_spaces_squeeze: "collapse_spaces t = squeeze t \<and> \<not> has_double_space (collapse_spaces t)"
proof (induction t rule: collapse_spaces.induct)
  case (1 t)
  then show ?case by (subst (1 2) collapse_spaces.simps) (auto simp: squeeze_replace squeeze_id)
qed

lemma set_squeeze: "set (squeeze t) \<subseteq> set t"
  by (induction t rule: squeeze.induct) auto

definition clean_char :: "nat \<Rightarrow> bool" where
  "clean_char c \<longleftrightarrow> \<not> is_emoji_char c \<and> c \<notin> {9, 10, 13, 0x3000}"

lemma normalize_tts_text_chars: "c \<in> set (normalize_tts_text t) \<Longrightarrow> clean_char c"
proof -
  assume "c \<in> set (normalize_tts_text t)"
  then have c: "c \<in> set (strip_emoji (translate_whitespace t))"
    using set_squeeze by (auto simp: normalize_tts_text_def collapse_spaces_squeeze)
  then have "c = 32 \<or> c \<in> set (translate_whitespace t)"
    using strip_loop_chars [of "[]" "translate_whitespace t"] keep_chars_no_emoji by (auto simp: strip_emoji_def)
  with strip_emoji_no_emoji [OF c] show ?thesis by (auto simp: clean_char_def translate_whitespace_def)
qed

lemma translate_whitespace_id: "\<forall>c \<in> set t. clean_char c \<Longrightarrow> translate_whitespace t = t"
  unfolding translate_whitespace_def clean_char_def by (induction t) auto

text \<open>
  Normalized text is canonical. The result of the normalizer holds no emoji, line break,
  tab or ideographic space and no two adjacent spaces, normalizing it again changes nothing,
  and the loop that replaces double spaces computes the single pass that merges runs of spaces.
\<close>

theorem normalize_tts_text_canonical:
  "list_all clean_char (normalize_tts_text t) \<and> \<not> has_double_space (normalize_tts_text t) \<and>
   normalize_tts_text (normalize_tts_text t) = normalize_tts_text t \<and>
   normalize_tts_text t = squeeze (strip_emoji (translate_whitespace t))"
proof -
  let ?n = "normalize_tts_text t"
  have clean: "\<forall>c \<in> set ?n. clean_char c" using normalize_tts_text_chars by blast
  then have "strip_emoji (translate_whitespace ?n) = ?n"
    by (simp add: translate_whitespace_id strip_emoji_def strip_loop_id clean_char_def)
  moreover have nd: "\<not> has_double_space ?n" unfolding normalize_tts_text_def using collapse_spaces_squeeze by blast
  ultimately have "normalize_tts_text ?n = ?n"
    by (simp add: normalize_tts_text_def [of ?n] collapse_spaces_squeeze squeeze_id)
  with clean nd show ?thesis by (simp add: list_all_iff normalize_tts_text_def collapse_spaces_squeeze)
qed

end
