(* ===== verification/Text_Journal.thy ===== *)
theory Text_Journal
  imports Text_Normalization
begin

text \<open>
  The session-global text coordinates of \<open>engine/core/text_journal.py\<close>: a journal keeps the raw
  input, its canonical form and the two boundary maps between them. \<open>normalize\<close>, the frontend
  normalizer that a journal is created with, is the argument \<open>nrm\<close> of the operations that call
  it. An operation returns the journal it leaves behind and the exception or the result.
\<close>

section \<open>Boundary maps\<close>

definition monotonic :: "int list \<Rightarrow> int list" where
  "monotonic xs = running_max 0 xs"

definition inverse_boundary :: "int list \<Rightarrow> int \<Rightarrow> int" where
  "inverse_boundary n2r b =
     (let index = bisect_left n2r b 0 (length n2r)
      in if index < length n2r \<and> n2r ! index = b then int index else max 0 (int index - 1))"

definition inverse_boundaries :: "pystr \<Rightarrow> int list \<Rightarrow> int list" where
  "inverse_boundaries raw n2r = map (\<lambda>b. inverse_boundary n2r (int b)) [0 ..< Suc (length raw)]"

section \<open>Provenance of normalized characters\<close>

definition char_at :: "pystr \<Rightarrow> nat \<Rightarrow> nat option" where
  "char_at s i = (if i < length s then Some (s ! i) else None)"

text \<open>
  The end of an emoji or keycap run. Inside the loop the source calls itself at a keycap base,
  which is no emoji code point, so that the call is the keycap test of \<open>skip_emoji\<close>.
\<close>

definition removed_sequence_end :: "pystr \<Rightarrow> nat \<Rightarrow> nat" where
  "removed_sequence_end raw start =
     (case drop start raw of
        [] \<Rightarrow> start
      | c # cs \<Rightarrow>
          if keycap_sequence_len (c # cs) \<noteq> 0 then start + keycap_sequence_len (c # cs)
          else if \<not> is_emoji_char c then start
          else start + 1 + (length cs - length (skip_emoji cs)))"

text \<open>\<open>raw.find(char, start)\<close>.\<close>

definition find_char :: "pystr \<Rightarrow> nat \<Rightarrow> nat \<Rightarrow> nat option" where
  "find_char raw c start = List.find (\<lambda>i. raw ! i = c) [start ..< length raw]"

record walk =
  char_spans :: "(nat \<times> nat) list"
  raw_cursor :: nat
  pending_deleted :: "nat option"

definition pending_or :: "walk \<Rightarrow> nat \<Rightarrow> nat" where
  "pending_or w i = (case pending_deleted w of Some p \<Rightarrow> p | None \<Rightarrow> i)"

definition consume :: "nat \<Rightarrow> walk \<Rightarrow> walk" where
  "consume stop w =
     w\<lparr>char_spans := char_spans w @ [(pending_or w (raw_cursor w), stop)], raw_cursor := stop,
       pending_deleted := None\<rparr>"

definition match_char :: "pystr \<Rightarrow> nat \<Rightarrow> walk \<Rightarrow> walk" where
  "match_char raw c w =
     (let cur = raw_cursor w in
      if cur < length raw \<and> raw ! cur = c then consume (cur + 1) w
      else case find_char raw c cur of
        Some m \<Rightarrow> consume (m + 1) w
      | None \<Rightarrow>
          if cur < length raw \<and> (c \<noteq> 32 \<or> py_isspace (raw ! cur) \<or> is_emoji_char (raw ! cur))
          then consume (cur + 1) w
          else let point = pending_or w cur
               in w\<lparr>char_spans := char_spans w @ [(point, point)], pending_deleted := None\<rparr>)"

definition walk_char :: "pystr \<Rightarrow> nat \<Rightarrow> walk \<Rightarrow> walk" where
  "walk_char raw c w =
     (let cur = raw_cursor w; removed_end = removed_sequence_end raw cur in
      if cur < removed_end then
        let next_raw = char_at raw removed_end;
            previous_raw = (if 0 < cur then char_at raw (cur - 1) else None)
        in if c = 32 \<and> is_ascii_word_char previous_raw \<and> is_ascii_word_char next_raw
           then consume removed_end w
           else match_char raw c (w\<lparr>pending_deleted := Some (pending_or w cur), raw_cursor := removed_end\<rparr>)
      else match_char raw c w)"

definition walk_chars :: "pystr \<Rightarrow> pystr \<Rightarrow> walk" where
  "walk_chars raw normalized =
     (let w = fold (walk_char raw) normalized \<lparr>char_spans = [], raw_cursor = 0, pending_deleted = None\<rparr>
      in if raw_cursor w < length raw
         then w\<lparr>pending_deleted := Some (pending_or w (raw_cursor w)), raw_cursor := length raw\<rparr>
         else w)"

text \<open>A folded run of white space belongs to its normalized space.\<close>

definition extend_space :: "pystr \<Rightarrow> nat \<Rightarrow> nat \<times> nat \<Rightarrow> nat \<times> nat" where
  "extend_space raw c sp =
     (case sp of (start, stop) \<Rightarrow>
        if py_isspace c \<and> start < length raw \<and> py_isspace (raw ! start)
        then (start, stop + length (takeWhile py_isspace (drop stop raw)))
        else (start, stop))"

fun span_ends :: "int \<Rightarrow> (nat \<times> nat) list \<Rightarrow> int list" where
  "span_ends prev [] = []"
| "span_ends prev ((start, stop) # ss) =
     (let e = max (max prev (int start)) (int stop) in e # span_ends e ss)"

definition provenance_map :: "pystr \<Rightarrow> pystr \<Rightarrow> bool \<Rightarrow> int list" where
  "provenance_map raw normalized include_trailing_deleted =
     (let w = walk_chars raw normalized;
          spans = map2 (extend_space raw) normalized (char_spans w);
          n2r = 0 # span_ends 0 spans;
          k = length n2r - 1;
          n2r' = (if normalized \<noteq> [] then
                    if include_trailing_deleted then n2r[k := int (length raw)]
                    else case pending_deleted w of
                      Some p \<Rightarrow> n2r[k := max (n2r ! (k - 1)) (int p)]
                    | None \<Rightarrow> n2r
                  else if include_trailing_deleted then n2r[0 := int (length raw)] else n2r)
      in monotonic n2r')"

section \<open>The journal\<close>

record journal =
  raw_text :: pystr
  normalized_text :: pystr
  normalized_to_raw :: "int list"
  raw_to_normalized :: "int list"
  input_final :: bool
  strip_leading_whitespace :: bool

definition new_journal :: "bool \<Rightarrow> journal" where
  "new_journal strip =
     \<lparr>raw_text = [], normalized_text = [], normalized_to_raw = [0], raw_to_normalized = [0],
      input_final = False, strip_leading_whitespace = strip\<rparr>"

definition set_maps :: "int list \<Rightarrow> journal \<Rightarrow> journal" where
  "set_maps n2r j =
     j\<lparr>normalized_to_raw := n2r, raw_to_normalized := inverse_boundaries (raw_text j) n2r\<rparr>"

definition install_projection ::
  "pystr \<Rightarrow> pystr \<Rightarrow> int list option \<Rightarrow> journal \<Rightarrow> journal \<times> (py_error, unit) result" where
  "install_projection raw normalized n2r j =
     (let checked =
            (case n2r of
               None \<Rightarrow>
                 if length raw \<noteq> length normalized
                 then Inl (ValueError ''normalized_to_raw is required when raw and spoken lengths differ'')
                 else Inr (map int [0 ..< Suc (length normalized)])
             | Some xs \<Rightarrow>
                 if length xs \<noteq> length normalized + 1
                 then Inl (ValueError ''normalized_to_raw must have len(normalized_text) + 1 entries'')
                 else Inr xs)
      in case checked of
           Inl e \<Rightarrow> (j, Inl e)
         | Inr bs \<Rightarrow>
             if bs \<noteq> [] \<and> (hd bs < 0 \<or> int (length raw) < last bs)
             then (j, Inl (ValueError ''normalized_to_raw boundaries exceed raw text''))
             else if list_ex (\<lambda>(l, r). r < l) (zip bs (tl bs))
             then (j, Inl (ValueError ''normalized_to_raw boundaries must be monotonic''))
             else ((set_maps (if bs = [] then [int (length raw)] else bs)
                      (j\<lparr>raw_text := raw, normalized_text := normalized\<rparr>))\<lparr>input_final := True\<rparr>, Inr ()))"

definition update_raw_source :: "pystr \<Rightarrow> journal \<Rightarrow> journal \<times> (py_error, unit) result" where
  "update_raw_source raw j =
     (if input_final j then (j, Inl (ValueError ''cannot update a finalized text projection''))
      else let bs = map (clamp 0 (int (length raw)))
                      (if normalized_to_raw j = [] then [0] else normalized_to_raw j)
           in (set_maps (monotonic bs) (j\<lparr>raw_text := raw\<rparr>), Inr ()))"

type_synonym output_item = "int \<times> int \<times> int \<times> int"

fun place_boundaries ::
  "nat \<Rightarrow> int \<Rightarrow> int \<Rightarrow> output_item list \<Rightarrow> int option list \<Rightarrow> int option list option" where
  "place_boundaries n join stop [] bs = Some bs"
| "place_boundaries n join stop ((rs, re, os, oe) # items) bs =
     (if 0 \<le> os \<and> os < oe \<and> oe \<le> int n \<and> join \<le> rs \<and> rs \<le> re \<and> re \<le> stop
      then place_boundaries n join stop items (bs[nat os := Some rs, nat oe := Some re])
      else None)"

fun fill_boundaries :: "int \<Rightarrow> int option list \<Rightarrow> int list" where
  "fill_boundaries current [] = []"
| "fill_boundaries current (b # bs) =
     (let c = (case b of None \<Rightarrow> current | Some x \<Rightarrow> max current x) in c # fill_boundaries c bs)"

definition boundaries_from_output_mapping ::
  "pystr \<Rightarrow> int \<Rightarrow> int \<Rightarrow> output_item list option \<Rightarrow> int list option" where
  "boundaries_from_output_mapping delta join stop output_mapping =
     (case output_mapping of
        None \<Rightarrow> None
      | Some items \<Rightarrow>
          if items = [] \<or> delta = [] then None
          else case place_boundaries (length delta) join stop items (Some join # replicate (length delta) None) of
            None \<Rightarrow> None
          | Some bs \<Rightarrow>
              let filled = fill_boundaries join bs;
                  final_boundary = last filled
              in Some (butlast filled @
                       [max (if final_boundary = 0 then join else final_boundary) stop]))"

text \<open>The source span of a commit: the union of its mapping, or the fence of the controller.\<close>

definition commit_span :: "int \<Rightarrow> int \<Rightarrow> int \<Rightarrow> (int \<times> int) list option \<Rightarrow> int \<times> int" where
  "commit_span n raw_start raw_end mapping =
     (case mapping of
        Some (m # ms) \<Rightarrow>
          let start = clamp 0 n (Min (set (map (max 0 \<circ> fst) (m # ms))))
          in (start, max start (min n (Max (set (map (max 0 \<circ> snd) (m # ms))))))
      | _ \<Rightarrow> let start = clamp 0 n raw_start in (start, max start (min n raw_end)))"

definition spoken_delta :: "(pystr \<Rightarrow> pystr) \<Rightarrow> pystr \<Rightarrow> journal \<Rightarrow> pystr" where
  "spoken_delta nrm spoken j =
     (let old = normalized_text j;
          delta = (if spoken \<noteq> [] then nrm spoken else [])
      in if strip_leading_whitespace j \<and> old = [] then py_lstrip delta
         else if old \<noteq> [] \<and> delta \<noteq> [] \<and> py_isspace (last old) then py_lstrip delta
         else delta)"

definition spoken_suffix ::
  "pystr \<Rightarrow> pystr \<Rightarrow> pystr \<Rightarrow> int \<Rightarrow> int \<Rightarrow> int \<Rightarrow> output_item list option \<Rightarrow> int list" where
  "spoken_suffix source spoken delta start stop join output_mapping =
     (case boundaries_from_output_mapping delta join stop output_mapping of
        Some bs \<Rightarrow> bs
      | None \<Rightarrow>
          if spoken = take (nat stop - nat start) (drop (nat start) source) \<and> length delta = length spoken
          then join # [start + 1 .. stop]
          else replicate (length delta) join @ [stop])"

definition append_spoken ::
  "(pystr \<Rightarrow> pystr) \<Rightarrow> pystr \<Rightarrow> int \<Rightarrow> int \<Rightarrow> pystr \<Rightarrow> (int \<times> int) list option \<Rightarrow> output_item list option \<Rightarrow>
   journal \<Rightarrow> journal \<times> (py_error, pystr \<times> nat) result" where
  "append_spoken nrm source raw_start raw_end spoken mapping output_mapping j =
     (if input_final j then (j, Inl (ValueError ''cannot append to a finalized text projection''))
      else
        let delta = spoken_delta nrm spoken j;
            n = int (length source);
            (start, stop) = commit_span n raw_start raw_end mapping;
            old_bs = (if normalized_to_raw j = [] then [0] else normalized_to_raw j)
        in if length old_bs \<noteq> length (normalized_text j) + 1
           then (j, Inl (ValueError ''normalized_to_raw is out of sync with normalized_text''))
           else
             let join = max (last old_bs) start;
                 bs = (if delta \<noteq> [] then butlast old_bs @ spoken_suffix source spoken delta start stop join output_mapping
                       else butlast old_bs @ [max (last old_bs) stop])
             in (set_maps (monotonic (map (clamp 0 n) bs))
                   (j\<lparr>raw_text := source, normalized_text := normalized_text j @ delta\<rparr>),
                 Inr (delta, length (normalized_text j))))"

definition finalize_projection :: "journal \<Rightarrow> journal" where
  "finalize_projection j =
     (let n2r = normalized_to_raw j;
          n2r' = (if n2r = [] then [] else butlast n2r @ [max (last n2r) (int (length (raw_text j)))])
      in set_maps n2r' (j\<lparr>input_final := True\<rparr>))"

text \<open>\<open>_project\<close>: the canonical text and its raw boundaries.\<close>

definition leading_space :: "bool \<Rightarrow> pystr \<Rightarrow> nat" where
  "leading_space strip s = (if strip then length s - length (py_lstrip s) else 0)"

definition project :: "(pystr \<Rightarrow> pystr) \<Rightarrow> pystr \<Rightarrow> bool \<Rightarrow> journal \<Rightarrow> pystr \<times> int list" where
  "project nrm committed_raw include_trailing_deleted j =
     (let raw_prefix = leading_space (strip_leading_whitespace j) (raw_text j);
          untrimmed = nrm (drop raw_prefix committed_raw);
          normalized_prefix = leading_space (strip_leading_whitespace j) untrimmed;
          untrimmed_to_raw = provenance_map (drop raw_prefix (raw_text j)) untrimmed include_trailing_deleted
      in (drop normalized_prefix untrimmed,
          map (\<lambda>b. int raw_prefix + b) (drop normalized_prefix untrimmed_to_raw)))"

definition journal_append ::
  "(pystr \<Rightarrow> pystr) \<Rightarrow> pystr \<Rightarrow> journal \<Rightarrow> journal \<times> (py_error, pystr \<times> nat) result" where
  "journal_append nrm raw_delta j =
     (let old = normalized_text j;
          j1 = j\<lparr>raw_text := raw_text j @ raw_delta\<rparr>;
          committed_raw = (if input_final j then raw_text j1 else fst (split_pending_emoji (raw_text j1)));
          (normalized, n2r) = project nrm committed_raw (input_final j) j1
      in if take (length old) normalized \<noteq> old
         then (j1, Inl (ValueError ''canonical text normalization rewrote committed text''))
         else (set_maps n2r (j1\<lparr>normalized_text := normalized\<rparr>),
               Inr (drop (length old) normalized, length old)))"

definition journal_finish :: "(pystr \<Rightarrow> pystr) \<Rightarrow> journal \<Rightarrow> journal" where
  "journal_finish nrm j =
     (let j1 = j\<lparr>input_final := True\<rparr>;
          (normalized, n2r) = project nrm (raw_text j1) True j1
      in set_maps n2r (j1\<lparr>normalized_text := normalized\<rparr>))"

definition trim_normalized :: "journal \<Rightarrow> journal \<times> (py_error, pystr) result" where
  "trim_normalized j =
     (let text = normalized_text j; n2r = normalized_to_raw j;
          start = length text - length (py_lstrip text);
          stop = length (py_rstrip text)
      in if start = 0 \<and> stop = length text then (j, Inr text)
         else if length n2r \<le> start \<or> length n2r \<le> stop then (j, Inl IndexError)
         else
           let raw_start = n2r ! start; raw_end = n2r ! stop;
               bs = take (stop + 1 - start) (drop start n2r);
               text' = take (stop - start) (drop start text)
           in (set_maps (map (clamp raw_start raw_end) bs) (j\<lparr>normalized_text := text'\<rparr>), Inr text'))"

definition journal_raw_span :: "int \<Rightarrow> int \<Rightarrow> journal \<Rightarrow> (py_error, int \<times> int) result" where
  "journal_raw_span normalized_start normalized_end_arg j =
     (let n = int (length (normalized_text j));
          start = max 0 (min normalized_start n);
          stop = max start (min normalized_end_arg n);
          n2r = normalized_to_raw j
      in if length n2r \<le> nat start \<or> length n2r \<le> nat stop then Inl IndexError
         else Inr (n2r ! nat start, n2r ! nat stop))"

section \<open>Valid boundary maps\<close>

definition map_ok :: "nat \<Rightarrow> nat \<Rightarrow> int list \<Rightarrow> bool" where
  "map_ok n m bs \<longleftrightarrow> length bs = Suc m \<and> sorted bs \<and> (\<forall>b \<in> set bs. 0 \<le> b \<and> b \<le> int n)"

definition journal_ok :: "journal \<Rightarrow> bool" where
  "journal_ok j \<longleftrightarrow> map_ok (length (raw_text j)) (length (normalized_text j)) (normalized_to_raw j)"

lemma map_ok_monotonic:
  assumes "length bs = Suc m" and "\<forall>b \<in> set bs. b \<le> int n"
  shows "map_ok n m (monotonic bs)"
  using assms running_max_le [of 0 "int n" bs] by (auto simp: map_ok_def monotonic_def dest: running_max_ge)

lemma map_ok_clamped: "length bs = Suc m \<Longrightarrow> map_ok n m (monotonic (map (clamp 0 (int n)) bs))"
  by (rule map_ok_monotonic) auto

lemma set_maps_simps [simp]:
  "raw_text (set_maps bs j) = raw_text j" "normalized_text (set_maps bs j) = normalized_text j"
  "normalized_to_raw (set_maps bs j) = bs" "input_final (set_maps bs j) = input_final j"
  "raw_to_normalized (set_maps bs j) = inverse_boundaries (raw_text j) bs"
  by (simp_all add: set_maps_def)

lemma journal_ok_set_maps:
  "journal_ok (set_maps bs j) \<longleftrightarrow> map_ok (length (raw_text j)) (length (normalized_text j)) bs"
  by (simp add: journal_ok_def)

subsection \<open>The provenance walk\<close>

definition walk_ok :: "pystr \<Rightarrow> nat \<Rightarrow> walk \<Rightarrow> bool" where
  "walk_ok raw k w \<longleftrightarrow>
     length (char_spans w) = k \<and> raw_cursor w \<le> length raw \<and>
     (\<forall>p. pending_deleted w = Some p \<longrightarrow> p \<le> length raw) \<and>
     (\<forall>(a, b) \<in> set (char_spans w). a \<le> length raw \<and> b \<le> length raw)"

lemma removed_sequence_end_le: "start \<le> length raw \<Longrightarrow> removed_sequence_end raw start \<le> length raw"
proof (cases "drop start raw")
  case (Cons c cs)
  assume "start \<le> length raw"
  with Cons have len: "start + Suc (length cs) = length raw"
    by (metis diff_add_inverse2 le_add_diff_inverse length_Cons length_drop)
  show ?thesis
    using keycap_sequence_len_le [of "c # cs"] len
    by (auto simp: removed_sequence_end_def Cons)
qed (simp add: removed_sequence_end_def)

lemma find_char_le: "find_char raw c cur = Some m \<Longrightarrow> m < length raw"
  by (auto simp: find_char_def find_Some_iff)

lemma consume_ok: "walk_ok raw k w \<Longrightarrow> stop \<le> length raw \<Longrightarrow> walk_ok raw (Suc k) (consume stop w)"
  by (auto simp: walk_ok_def consume_def pending_or_def split: option.splits)

lemma match_char_ok: "walk_ok raw k w \<Longrightarrow> walk_ok raw (Suc k) (match_char raw c w)"
proof -
  assume ok: "walk_ok raw k w"
  have point: "walk_ok raw (Suc k)
      (w\<lparr>char_spans := char_spans w @ [(pending_or w (raw_cursor w), pending_or w (raw_cursor w))],
         pending_deleted := None\<rparr>)"
    using ok by (auto simp: walk_ok_def pending_or_def split: option.splits)
  show ?thesis
    using consume_ok [OF ok] point find_char_le
    by (auto simp: match_char_def Let_def Suc_le_eq split: option.split)
qed

lemma walk_char_ok: "walk_ok raw k w \<Longrightarrow> walk_ok raw (Suc k) (walk_char raw c w)"
proof -
  assume ok: "walk_ok raw k w"
  let ?e = "removed_sequence_end raw (raw_cursor w)"
  have e: "?e \<le> length raw" using ok by (intro removed_sequence_end_le) (simp add: walk_ok_def)
  have "walk_ok raw k (w\<lparr>pending_deleted := Some (pending_or w (raw_cursor w)), raw_cursor := ?e\<rparr>)"
    using ok e by (auto simp: walk_ok_def pending_or_def split: option.splits)
  from match_char_ok [OF this] match_char_ok [OF ok] consume_ok [OF ok e] show ?thesis
    unfolding walk_char_def Let_def by (simp only: if_split simp_thms)
qed

lemma walk_fold_ok: "walk_ok raw k w \<Longrightarrow> walk_ok raw (k + length cs) (fold (walk_char raw) cs w)"
proof (induction cs arbitrary: k w)
  case (Cons c cs)
  from Cons.IH [OF walk_char_ok [OF Cons.prems]] show ?case by simp
qed simp

lemma walk_chars_ok: "walk_ok raw (length normalized) (walk_chars raw normalized)"
proof -
  have "walk_ok raw 0 \<lparr>char_spans = [], raw_cursor = 0, pending_deleted = None\<rparr>" by (simp add: walk_ok_def)
  from walk_fold_ok [OF this, of normalized] show ?thesis
    by (auto simp: walk_chars_def Let_def walk_ok_def pending_or_def split: option.splits)
qed

lemma length_span_ends [simp]: "length (span_ends prev ss) = length ss"
  by (induction prev ss rule: span_ends.induct) (auto simp: Let_def)

lemma span_ends_le:
  "prev \<le> n \<Longrightarrow> \<forall>(a, b) \<in> set ss. int a \<le> n \<and> int b \<le> n \<Longrightarrow> x \<in> set (span_ends prev ss) \<Longrightarrow> x \<le> n"
  by (induction prev ss rule: span_ends.induct) (auto simp: Let_def)

lemma extend_space_le:
  assumes "a \<le> length raw" and "b \<le> length raw"
  shows "case extend_space raw c (a, b) of (a', b') \<Rightarrow> a' \<le> length raw \<and> b' \<le> length raw"
proof -
  have "length (takeWhile py_isspace (drop b raw)) \<le> length raw - b"
    using length_takeWhile_le [of py_isspace "drop b raw"] by simp
  with assms show ?thesis by (auto simp: extend_space_def)
qed

lemma provenance_map_ok: "map_ok (length raw) (length normalized) (provenance_map raw normalized fin)"
proof -
  define w where "w = walk_chars raw normalized"
  note w = walk_chars_ok [of raw normalized, folded w_def, unfolded walk_ok_def]
  define spans where "spans = map2 (extend_space raw) normalized (char_spans w)"
  have len: "length spans = length normalized" using w by (simp add: spans_def)
  have "\<forall>(a, b) \<in> set spans. int a \<le> int (length raw) \<and> int b \<le> int (length raw)"
  proof clarify
    fix a b assume "(a, b) \<in> set spans"
    then obtain c x y where xy: "(x, y) \<in> set (char_spans w)" "(a, b) = extend_space raw c (x, y)"
      unfolding spans_def by (auto dest: set_zip_rightD)
    then have "x \<le> length raw" "y \<le> length raw" using w by auto
    from extend_space_le [OF this, of c] xy(2) show "int a \<le> int (length raw) \<and> int b \<le> int (length raw)"
      by (metis (no_types, lifting) case_prod_conv of_nat_le_iff)
  qed
  then have ends: "\<forall>x \<in> set (0 # span_ends 0 spans). x \<le> int (length raw)"
    using span_ends_le [of 0 "int (length raw)" spans] by auto
  have upd: "\<forall>x \<in> set ((0 # span_ends 0 spans)[k := v]). x \<le> int (length raw)" if "v \<le> int (length raw)" for k v
    using ends that set_update_subset_insert [of "0 # span_ends 0 spans" k v] by blast
  have prev: "max ((0 # span_ends 0 spans) ! (length spans - 1)) (int p) \<le> int (length raw)"
    if "pending_deleted w = Some p" for p
    using that w ends nth_mem [of "length spans - 1" "0 # span_ends 0 spans"] by auto
  have pend: "\<forall>x \<in> set ((0 # span_ends 0 spans)[length normalized :=
       max ((0 # span_ends 0 spans) ! (length normalized - Suc 0)) (int p)]). x \<le> int (length raw)"
    if "pending_deleted w = Some p" for p
    using upd [OF prev [OF that]] by (simp add: len del: list_update.simps nth_Cons')
  show ?thesis
    unfolding provenance_map_def Let_def w_def [symmetric] spans_def [symmetric]
    using len upd [OF order_refl] pend ends
    by (intro map_ok_monotonic) (simp_all del: list_update.simps nth_Cons' split: option.split)
qed

subsection \<open>The operations keep the maps valid\<close>

lemma leading_space_le: "leading_space strip s \<le> length s"
  by (simp add: leading_space_def)

lemma project_ok:
  assumes "project nrm committed fin j = (normalized, n2r)"
  shows "map_ok (length (raw_text j)) (length normalized) n2r"
proof -
  define p where "p = leading_space (strip_leading_whitespace j) (raw_text j)"
  define u where "u = nrm (drop p committed)"
  define q where "q = leading_space (strip_leading_whitespace j) u"
  define bs where "bs = provenance_map (drop p (raw_text j)) u fin"
  have le: "p \<le> length (raw_text j)" "q \<le> length u" by (simp_all add: p_def q_def leading_space_le)
  have eq: "normalized = drop q u" "n2r = map (\<lambda>b. int p + b) (drop q bs)"
    using assms by (simp_all add: project_def Let_def p_def u_def q_def bs_def)
  have "map_ok (length (raw_text j) - p) (length u) bs"
    unfolding bs_def using provenance_map_ok [of "drop p (raw_text j)" u fin] by simp
  then have bs: "length bs = Suc (length u)" "sorted bs" "\<forall>b \<in> set bs. 0 \<le> b \<and> b \<le> int (length (raw_text j) - p)"
    by (simp_all add: map_ok_def)
  have "sorted (map (\<lambda>b. int p + b) (drop q bs))"
    using sorted_wrt_drop [OF bs(2), of q] by (simp add: sorted_map)
  moreover have "\<forall>b \<in> set (drop q bs). 0 \<le> int p + b \<and> int p + b \<le> int (length (raw_text j))"
    using bs(3) le(1) by (fastforce dest: in_set_dropD)
  ultimately show ?thesis using bs(1) le(2) by (simp add: map_ok_def eq Suc_diff_le)
qed

lemma journal_append_ok: "journal_ok j \<Longrightarrow> journal_ok (fst (journal_append nrm d j))"
proof -
  assume ok: "journal_ok j"
  define j1 where "j1 = j\<lparr>raw_text := raw_text j @ d\<rparr>"
  define committed where
    "committed = (if input_final j then raw_text j1 else fst (split_pending_emoji (raw_text j1)))"
  obtain normalized n2r where pr: "project nrm committed (input_final j) j1 = (normalized, n2r)" by fastforce
  have "journal_ok j1" using ok by (force simp: journal_ok_def map_ok_def j1_def)
  with project_ok [OF pr] pr show ?thesis
    by (simp add: journal_append_def Let_def j1_def [symmetric] committed_def [symmetric] journal_ok_set_maps)
qed

lemma journal_finish_ok: "journal_ok (journal_finish nrm j)"
proof -
  obtain normalized n2r where pr: "project nrm (raw_text (j\<lparr>input_final := True\<rparr>)) True (j\<lparr>input_final := True\<rparr>) = (normalized, n2r)"
    by fastforce
  with project_ok [OF pr] show ?thesis by (simp add: journal_finish_def Let_def journal_ok_set_maps)
qed

lemma sorted_zip_tl: "list_ex (\<lambda>(l, r). r < l) (zip bs (tl bs)) \<longleftrightarrow> \<not> sorted bs" for bs :: "int list"
proof (induction bs)
  case (Cons a bs)
  then show ?case by (cases bs) fastforce+
qed simp

lemma sorted_last: "sorted bs \<Longrightarrow> b \<in> set bs \<Longrightarrow> b \<le> last bs" for bs :: "int list"
  by (induction bs) auto

lemma sorted_hd: "sorted bs \<Longrightarrow> b \<in> set bs \<Longrightarrow> hd bs \<le> b" for bs :: "int list"
  by (cases bs) auto

lemma install_projection_ok: "journal_ok j \<Longrightarrow> journal_ok (fst (install_projection raw normalized n2r j))"
proof -
  assume ok: "journal_ok j"
  have good: "journal_ok (set_maps bs j')" if "\<not> list_ex (\<lambda>(l, r). r < l) (zip bs (tl bs))"
    "\<not> (bs \<noteq> [] \<and> (hd bs < 0 \<or> int (length (raw_text j')) < last bs))"
    "length bs = Suc (length (normalized_text j'))" for bs j'
    using that sorted_last [of bs] sorted_hd [of bs]
    by (fastforce simp: journal_ok_set_maps map_ok_def sorted_zip_tl)
  let ?j = "j\<lparr>raw_text := raw, normalized_text := normalized\<rparr>"
  have fin: "journal_ok (k\<lparr>input_final := True\<rparr>) \<longleftrightarrow> journal_ok k" for k by (simp add: journal_ok_def)
  show ?thesis
  proof (cases n2r)
    case None
    then show ?thesis
      using ok good [of "map int [0 ..< Suc (length normalized)]" ?j]
      by (simp add: install_projection_def Let_def fin del: upt_Suc)
  next
    case (Some bs)
    then show ?thesis
      using ok good [of bs ?j] by (auto simp: install_projection_def Let_def fin)
  qed
qed

lemma update_raw_source_ok: "journal_ok j \<Longrightarrow> journal_ok (fst (update_raw_source raw j))"
  by (auto simp: update_raw_source_def Let_def journal_ok_set_maps map_ok_clamped)
    (auto simp: journal_ok_def map_ok_def intro!: map_ok_clamped [unfolded map_ok_def])

lemma length_place_boundaries: "place_boundaries n join stop items bs = Some bs' \<Longrightarrow> length bs' = length bs"
  by (induction n join stop items bs rule: place_boundaries.induct) (auto split: if_splits)

lemma length_fill_boundaries [simp]: "length (fill_boundaries c bs) = length bs"
  by (induction c bs rule: fill_boundaries.induct) (auto simp: Let_def)

lemma commit_span_bounds:
  assumes "commit_span n a b mapping = (start, stop)" and "0 \<le> n"
  shows "0 \<le> start" "start \<le> stop" "stop \<le> n"
proof -
  obtain x y where "start = clamp 0 n x" "stop = max (clamp 0 n x) (min n y)"
    using assms(1) by (auto simp: commit_span_def Let_def split: option.splits list.splits)
  with assms(2) show "0 \<le> start" "start \<le> stop" "stop \<le> n" by simp_all
qed

lemma length_spoken_suffix:
  assumes "0 \<le> start" "start \<le> stop" "stop \<le> int (length source)"
  shows "length (spoken_suffix source spoken delta start stop join om) = Suc (length delta)"
proof (cases "boundaries_from_output_mapping delta join stop om")
  case None
  with assms show ?thesis by (auto simp: spoken_suffix_def nat_diff_distrib)
next
  case (Some bs)
  then have "length bs = Suc (length delta)"
    by (auto simp: boundaries_from_output_mapping_def Let_def dest!: length_place_boundaries
        split: option.splits if_splits)
  with Some show ?thesis by (simp add: spoken_suffix_def)
qed

lemma append_spoken_ok: "journal_ok j \<Longrightarrow> journal_ok (fst (append_spoken nrm source a b spoken mp om j))"
proof -
  assume ok: "journal_ok j"
  then have n2r: "length (normalized_to_raw j) = Suc (length (normalized_text j))" "normalized_to_raw j \<noteq> []"
    by (auto simp: journal_ok_def map_ok_def)
  obtain start stop where sp: "commit_span (int (length source)) a b mp = (start, stop)" by fastforce
  note bounds = commit_span_bounds [OF sp, simplified]
  show ?thesis
    using n2r
    by (simp add: append_spoken_def sp Let_def ok journal_ok_set_maps length_spoken_suffix [OF bounds]
        map_ok_clamped)
qed

lemma finalize_projection_ok:
  assumes "journal_ok j" shows "journal_ok (finalize_projection j)"
proof -
  let ?n = "normalized_to_raw j" and ?len = "int (length (raw_text j))"
  have ne: "?n \<noteq> []" and len: "length ?n = Suc (length (normalized_text j))"
    using assms by (auto simp: journal_ok_def map_ok_def)
  have "last ?n \<le> ?len" using assms ne by (simp add: journal_ok_def map_ok_def)
  moreover have "sorted (butlast ?n)" "\<forall>b \<in> set (butlast ?n). 0 \<le> b \<and> b \<le> ?len"
    using assms by (auto simp: journal_ok_def map_ok_def sorted_butlast dest: in_set_butlastD)
  ultimately show ?thesis
    using ne len by (simp add: finalize_projection_def Let_def journal_ok_set_maps map_ok_def sorted_append)
qed

section \<open>Coordinates of a journal\<close>

datatype journal_op =
    Install pystr pystr "int list option"
  | UpdateRaw pystr
  | Spoken pystr int int pystr "(int \<times> int) list option" "output_item list option"
  | Finalize
  | Append pystr
  | Finish
  | Trim

fun journal_exec :: "(pystr \<Rightarrow> pystr) \<Rightarrow> journal_op \<Rightarrow> journal \<Rightarrow> journal" where
  "journal_exec nrm (Install raw normalized n2r) j = fst (install_projection raw normalized n2r j)"
| "journal_exec nrm (UpdateRaw raw) j = fst (update_raw_source raw j)"
| "journal_exec nrm (Spoken source a b spoken mp om) j = fst (append_spoken nrm source a b spoken mp om j)"
| "journal_exec nrm Finalize j = finalize_projection j"
| "journal_exec nrm (Append d) j = fst (journal_append nrm d j)"
| "journal_exec nrm Finish j = journal_finish nrm j"
| "journal_exec nrm Trim j = fst (trim_normalized j)"

lemma journal_exec_ok: "journal_ok j \<Longrightarrow> op \<noteq> Trim \<Longrightarrow> journal_ok (journal_exec nrm op j)"
  by (cases op) (simp_all add: install_projection_ok update_raw_source_ok append_spoken_ok
      finalize_projection_ok journal_append_ok journal_finish_ok)

lemma new_journal_ok: "journal_ok (new_journal strip)"
  by (simp add: journal_ok_def map_ok_def new_journal_def)

lemma journal_raw_span_inside:
  assumes "journal_ok j"
  shows "\<exists>l r. journal_raw_span a b j = Inr (l, r) \<and> 0 \<le> l \<and> l \<le> r \<and> r \<le> int (length (raw_text j))"
proof -
  define n where "n = int (length (normalized_text j))"
  define s where "s = max 0 (min a n)"
  define t where "t = max s (min b n)"
  have st: "0 \<le> s" "s \<le> t" "t \<le> n" by (auto simp: s_def t_def n_def)
  have len: "length (normalized_to_raw j) = Suc (nat n)" and srt: "sorted (normalized_to_raw j)"
    and bnd: "\<forall>x \<in> set (normalized_to_raw j). 0 \<le> x \<and> x \<le> int (length (raw_text j))"
    using assms by (auto simp: journal_ok_def map_ok_def n_def)
  have i: "nat s < length (normalized_to_raw j)" "nat t < length (normalized_to_raw j)" "nat s \<le> nat t"
    using st len by auto
  have "journal_raw_span a b j = Inr (normalized_to_raw j ! nat s, normalized_to_raw j ! nat t)"
    unfolding journal_raw_span_def Let_def n_def [symmetric] s_def [symmetric] t_def [symmetric] using i by simp
  then show ?thesis
    using bnd nth_mem [OF i(1)] nth_mem [OF i(2)] sorted_nth_mono [OF srt i(3,2)] by simp
qed

subsection \<open>The inverse map\<close>

definition journal_synced :: "journal \<Rightarrow> bool" where
  "journal_synced j \<longleftrightarrow> raw_to_normalized j = inverse_boundaries (raw_text j) (normalized_to_raw j)"

lemma set_maps_synced [simp]: "journal_synced (set_maps bs j)"
  by (simp add: journal_synced_def)

lemma inverse_boundary_round_trip:
  assumes "sorted bs" and "i < length bs" and "0 \<le> bs ! i"
  shows "0 \<le> inverse_boundary bs (bs ! i)" "inverse_boundary bs (bs ! i) \<le> int i"
    "bs ! nat (inverse_boundary bs (bs ! i)) = bs ! i"
proof -
  define k where "k = bisect_left bs (bs ! i) 0 (length bs)"
  note sp = bisect_left_sorted [OF assms(1), of "bs ! i", folded k_def]
  have k: "k \<le> i" using sp(2) assms(2) by (meson leI less_irrefl)
  then have "bs ! k = bs ! i"
    using sp(3) assms sorted_nth_mono [OF assms(1) k assms(2)] by (simp add: order_antisym)
  moreover from this k assms(2) have "inverse_boundary bs (bs ! i) = int k"
    by (simp add: inverse_boundary_def k_def [symmetric])
  ultimately show "0 \<le> inverse_boundary bs (bs ! i)" "inverse_boundary bs (bs ! i) \<le> int i"
    "bs ! nat (inverse_boundary bs (bs ! i)) = bs ! i" using k by simp_all
qed

text \<open>A boundary maps to the last normalized boundary at or before it.\<close>

lemma inverse_boundary_mono:
  assumes "sorted bs" and "a \<le> b"
  shows "inverse_boundary bs a \<le> inverse_boundary bs b"
proof -
  define k where "k = bisect_left bs a 0 (length bs)"
  define l where "l = bisect_left bs b 0 (length bs)"
  note ka = bisect_left_sorted [OF assms(1), of a, folded k_def]
    and lb = bisect_left_sorted [OF assms(1), of b, folded l_def]
  have "k \<le> l"
  proof (rule ccontr)
    assume "\<not> k \<le> l"
    then have "bs ! l < a" "b \<le> bs ! l" using ka lb by auto
    with assms(2) show False by simp
  qed
  moreover have "l < length bs \<and> bs ! l = b" if "k = l" "k < length bs" "bs ! k = a"
    using that lb(3) assms(2) ka by fastforce
  ultimately show ?thesis
    by (cases "k = l") (auto simp: inverse_boundary_def k_def [symmetric] l_def [symmetric])
qed

lemma journal_exec_synced:
  assumes "journal_synced j" and "\<forall>d. op = Append d \<longrightarrow> \<not> isl (snd (journal_append nrm d j))"
  shows "journal_synced (journal_exec nrm op j)"
proof -
  have fin: "journal_synced (k\<lparr>input_final := b\<rparr>) \<longleftrightarrow> journal_synced k" for k b by (simp add: journal_synced_def)
  show ?thesis
  proof (cases op)
    case (Install raw normalized n2r)
    with assms(1) show ?thesis
      by (auto simp: install_projection_def Let_def fin simp del: upt_Suc split: sum.split)
  next
    case (UpdateRaw raw)
    with assms(1) show ?thesis by (simp add: update_raw_source_def Let_def)
  next
    case (Spoken source a b spoken mp om)
    with assms(1) show ?thesis by (simp add: append_spoken_def Let_def split: prod.split)
  next
    case Finalize
    then show ?thesis by (simp add: finalize_projection_def Let_def)
  next
    case (Append d)
    with assms(2) have "\<not> isl (snd (journal_append nrm d j))" by simp
    with Append show ?thesis by (auto simp: journal_append_def Let_def split: prod.splits if_splits)
  next
    case Finish
    then show ?thesis by (simp add: journal_finish_def Let_def split: prod.split)
  next
    case Trim
    with assms(1) show ?thesis by (simp add: trim_normalized_def Let_def)
  qed
qed

text \<open>
  C35. The two boundary maps invert each other. In a journal with valid, synchronized maps every
  normalized boundary maps to a raw boundary whose image is a normalized boundary at or before
  it with the same raw position, and the raw-to-normalized map never decreases. Every operation
  but an append that raises keeps the maps synchronized.
\<close>

theorem boundary_maps_round_trip:
  assumes "journal_ok j" and "journal_synced j"
  shows "(\<forall>i \<le> length (normalized_text j).
            let b = normalized_to_raw j ! i; k = raw_to_normalized j ! nat b
            in 0 \<le> k \<and> k \<le> int i \<and> normalized_to_raw j ! nat k = b) \<and>
         sorted (raw_to_normalized j) \<and>
         (\<forall>op. (\<forall>d. op = Append d \<longrightarrow> \<not> isl (snd (journal_append nrm d j))) \<longrightarrow>
               journal_synced (journal_exec nrm op j))"
proof (intro conjI)
  let ?bs = "normalized_to_raw j"
  have ok: "length ?bs = Suc (length (normalized_text j))" "sorted ?bs"
    "\<forall>x \<in> set ?bs. 0 \<le> x \<and> x \<le> int (length (raw_text j))"
    using assms(1) by (auto simp: journal_ok_def map_ok_def)
  have r2n: "raw_to_normalized j ! nat b = inverse_boundary ?bs b" if "0 \<le> b" "b \<le> int (length (raw_text j))" for b
  proof -
    have "nat b < Suc (length (raw_text j))" using that by simp
    with assms(2) that show ?thesis by (simp add: journal_synced_def inverse_boundaries_def del: upt_Suc)
  qed
  show "\<forall>i \<le> length (normalized_text j).
           let b = normalized_to_raw j ! i; k = raw_to_normalized j ! nat b
           in 0 \<le> k \<and> k \<le> int i \<and> normalized_to_raw j ! nat k = b"
  proof (intro allI impI)
    fix i assume "i \<le> length (normalized_text j)"
    then have i: "i < length ?bs" using ok(1) by simp
    then have "0 \<le> ?bs ! i" "?bs ! i \<le> int (length (raw_text j))" using ok(3) nth_mem by auto
    with inverse_boundary_round_trip [OF ok(2) i] r2n show
      "let b = normalized_to_raw j ! i; k = raw_to_normalized j ! nat b
       in 0 \<le> k \<and> k \<le> int i \<and> normalized_to_raw j ! nat k = b" by (simp add: Let_def)
  qed
  show "sorted (raw_to_normalized j)"
    using assms(2) inverse_boundary_mono [OF ok(2)]
    by (simp add: journal_synced_def inverse_boundaries_def sorted_iff_nth_mono del: upt_Suc)
qed (use journal_exec_synced [OF assms(2)] in blast)

subsection \<open>Packets\<close>

fun append_packets :: "(pystr \<Rightarrow> pystr) \<Rightarrow> pystr list \<Rightarrow> journal \<Rightarrow> (journal \<times> pystr list) option" where
  "append_packets nrm [] j = Some (j, [])"
| "append_packets nrm (d # ds) j =
     (case journal_append nrm d j of
        (j', Inl _) \<Rightarrow> None
      | (j', Inr (delta, _)) \<Rightarrow> map_option (\<lambda>(k, deltas). (k, delta # deltas)) (append_packets nrm ds j'))"

text \<open>The projection that an append to the raw text \<open>r\<close> installs.\<close>

definition journal_project :: "(pystr \<Rightarrow> pystr) \<Rightarrow> journal \<Rightarrow> pystr \<Rightarrow> pystr \<times> int list" where
  "journal_project nrm j r =
     project nrm (if input_final j then r else fst (split_pending_emoji r)) (input_final j) (j\<lparr>raw_text := r\<rparr>)"

lemma journal_project_cong:
  "input_final j = input_final k \<Longrightarrow> strip_leading_whitespace j = strip_leading_whitespace k \<Longrightarrow>
   journal_project nrm j r = journal_project nrm k r"
  by (simp add: journal_project_def project_def)

lemma journal_append_Inr:
  "journal_append nrm d j = (j', Inr (x, n)) \<longleftrightarrow>
     (let p = journal_project nrm j (raw_text j @ d)
      in take (length (normalized_text j)) (fst p) = normalized_text j \<and>
         j' = set_maps (snd p) (j\<lparr>raw_text := raw_text j @ d, normalized_text := fst p\<rparr>) \<and>
         x = drop (length (normalized_text j)) (fst p) \<and> n = length (normalized_text j))"
  by (cases "journal_project nrm j (raw_text j @ d)")
    (auto simp: journal_append_def journal_project_def Let_def split: if_splits)

lemma journal_append_twice:
  assumes "journal_append nrm d j = (j1, Inr (x, n))" and "journal_append nrm e j1 = (j2, Inr (y, m))"
  shows "journal_append nrm (d @ e) j = (j2, Inr (x @ y, n))"
proof -
  define p where "p = journal_project nrm j (raw_text j @ d)"
  define q where "q = journal_project nrm j (raw_text j @ d @ e)"
  note d = assms(1) [unfolded journal_append_Inr Let_def, folded p_def]
  then have j1: "j1 = set_maps (snd p) (j\<lparr>raw_text := raw_text j @ d, normalized_text := fst p\<rparr>)" by blast
  have "journal_project nrm j1 (raw_text j1 @ e) = q"
    unfolding q_def by (simp add: j1, rule journal_project_cong) (simp_all add: set_maps_def)
  note e = assms(2) [unfolded journal_append_Inr Let_def this]
  obtain z where z: "fst q = fst p @ z" 
  proof (rule that)
    show "fst q = fst p @ drop (length (fst p)) (fst q)"
      using e by (simp add: j1) (metis append_take_drop_id)
  qed
  obtain w where w: "fst p = normalized_text j @ w" using d by (metis append_take_drop_id)
  show ?thesis
    unfolding journal_append_Inr Let_def q_def [symmetric]
    using d e z w by (simp add: j1 set_maps_def)
qed

text \<open>
  Packet boundaries do not change the coordinates. When a sequence of packets is appended
  without an exception, appending their concatenation at once is accepted too, leaves exactly the
  same journal, texts and both maps, and returns the concatenation of the canonical deltas.
\<close>

theorem packets_append_as_one:
  assumes "append_packets nrm ds j = Some (j', deltas)" and "ds \<noteq> []"
  shows "journal_append nrm (concat ds) j = (j', Inr (concat deltas, length (normalized_text j)))"
  using assms
proof (induction ds arbitrary: j deltas)
  case (Cons d ds)
  obtain j1 r where st: "journal_append nrm d j = (j1, r)" by fastforce
  from Cons.prems(1) st obtain x n rest where x: "r = Inr (x, n)"
    "append_packets nrm ds j1 = Some (j', rest)" "deltas = x # rest"
    by (auto split: sum.splits)
  have n: "n = length (normalized_text j)"
    using st x(1) by (auto simp: journal_append_def Let_def split: prod.splits if_splits)
  show ?case
  proof (cases "ds = []")
    case True
    with x st n show ?thesis by simp
  next
    case False
    from journal_append_twice [OF st [unfolded x(1)] Cons.IH [OF x(2) False]] x(3) n show ?thesis by simp
  qed
qed simp

subsection \<open>Commits and trimming\<close>

lemma take_running_max: "take (length xs) (running_max m (xs @ ys)) = running_max m xs"
  by (induction xs arbitrary: m) auto

lemma monotonic_keeps_prefix:
  assumes "map_ok n m bs" and "n \<le> n'" and "k < length bs"
    and "i < k"
  shows "monotonic (map (clamp 0 (int n')) (take k bs @ ys)) ! i = bs ! i"
proof -
  let ?f = "clamp 0 (int n')"
  have id: "map ?f (take k bs) = take k bs"
    using assms(1,2) by (intro map_idI) (auto simp: map_ok_def intro!: clamp_id dest!: in_set_takeD)
  have "running_max 0 (take k bs) = take k bs"
    using assms(1) by (intro running_max_id) (auto simp: map_ok_def sorted_wrt_take dest: in_set_takeD)
  then have "take k (monotonic (map ?f (take k bs @ ys))) = take k bs"
    using take_running_max [of "take k bs" 0 "map ?f ys"] assms(3) by (simp add: monotonic_def id)
  then have "take k (monotonic (map ?f (take k bs @ ys))) ! i = take k bs ! i" by simp
  with assms(4) show ?thesis by simp
qed

text \<open>
  Spoken commits are append-only. A commit that is accepted extends the canonical text by
  the returned delta, at the returned offset, and, when the raw source has not shrunk, leaves
  every boundary of the text before it where it was; a finalized journal refuses it unchanged.
\<close>

theorem spoken_commit_append_only:
  assumes "journal_ok j"
  shows "case append_spoken nrm source a b spoken mp om j of
           (j', Inl e) \<Rightarrow> j' = j \<and> input_final j
         | (j', Inr (delta, k)) \<Rightarrow>
             \<not> input_final j \<and> normalized_text j' = normalized_text j @ delta \<and> k = length (normalized_text j) \<and>
             raw_text j' = source \<and>
             (length (raw_text j) \<le> length source \<longrightarrow>
              (\<forall>i < k. normalized_to_raw j' ! i = normalized_to_raw j ! i))"
proof -
  let ?n = "normalized_to_raw j"
  have ok: "map_ok (length (raw_text j)) (length (normalized_text j)) ?n" using assms by (simp add: journal_ok_def)
  then have len: "length ?n = Suc (length (normalized_text j))" "?n \<noteq> []" by (auto simp: map_ok_def)
  then have bl: "butlast ?n = take (length (normalized_text j)) ?n" by (simp add: butlast_conv_take)
  obtain start stop where sp: "commit_span (int (length source)) a b mp = (start, stop)" by fastforce
  have keep: "monotonic (map (clamp 0 (int (length source))) (butlast ?n @ ys)) ! i = ?n ! i"
    if "length (raw_text j) \<le> length source" "i < length (normalized_text j)" for ys i
    unfolding bl using monotonic_keeps_prefix [OF ok that(1) _ that(2)] len(1) by simp
  show ?thesis
  proof (cases "input_final j")
    case True
    then show ?thesis by (simp add: append_spoken_def)
  next
    case False
    then show ?thesis
      using len keep by (simp add: append_spoken_def Let_def sp del: map_append)
  qed
qed

lemma py_strip_slice:
  assumes "list_ex (\<lambda>c. \<not> py_isspace c) t"
  shows "length t - length (py_lstrip t) \<le> length (py_rstrip t)"
    and "py_strip t = take (length (py_rstrip t) - (length t - length (py_lstrip t)))
                        (drop (length t - length (py_lstrip t)) t)"
proof -
  define a where "a = takeWhile py_isspace t"
  define r where "r = py_lstrip t"
  have t: "t = a @ r" by (simp add: a_def r_def py_lstrip_def)
  obtain x where x: "x \<in> set t" "\<not> py_isspace x" using assms by (auto simp: list_ex_iff)
  moreover have "set t = set a \<union> set r" using arg_cong [OF t, of set] by simp
  moreover have "x \<notin> set a" using x(2) set_takeWhileD unfolding a_def by fastforce
  ultimately have x: "x \<in> set r" "\<not> py_isspace x" by auto
  then have "dropWhile py_isspace (rev r @ rev a) = dropWhile py_isspace (rev r) @ rev a"
    by (intro dropWhile_append1 [of x]) auto
  then have "py_rstrip (a @ r) = a @ py_rstrip r" by (simp add: py_rstrip_def)
  then have "py_rstrip t = a @ py_rstrip r" unfolding t [symmetric] .
  moreover have "length t - length (py_lstrip t) = length a" using arg_cong [OF t, of length] r_def by simp
  moreover have "drop (length a) t = r" by (metis append_eq_conv_conj t)
  ultimately show "length t - length (py_lstrip t) \<le> length (py_rstrip t)"
    and "py_strip t = take (length (py_rstrip t) - (length t - length (py_lstrip t)))
                        (drop (length t - length (py_lstrip t)) t)"
    using py_rstrip_take [of r] by (simp_all add: py_strip_def r_def [symmetric])
qed

lemma trim_visible:
  assumes "journal_ok j" and "list_ex (\<lambda>c. \<not> py_isspace c) (normalized_text j)"
  shows "\<exists>j'. trim_normalized j = (j', Inr (py_strip (normalized_text j))) \<and> journal_ok j' \<and>
           raw_text j' = raw_text j \<and> normalized_text j' = py_strip (normalized_text j) \<and>
           (\<forall>i \<le> length (normalized_text j').
              normalized_to_raw j' ! i =
              normalized_to_raw j ! (length (normalized_text j) - length (py_lstrip (normalized_text j)) + i))"
proof -
  let ?t = "normalized_text j" and ?n = "normalized_to_raw j"
  define start where "start = length ?t - length (py_lstrip ?t)"
  define stop where "stop = length (py_rstrip ?t)"
  have ok: "length ?n = Suc (length ?t)" "sorted ?n" "\<forall>b \<in> set ?n. 0 \<le> b \<and> b \<le> int (length (raw_text j))"
    using assms(1) by (auto simp: journal_ok_def map_ok_def)
  have le: "start \<le> length ?t" "stop \<le> length ?t" by (simp_all add: start_def stop_def length_py_rstrip)
  note strip = py_strip_slice [OF assms(2), folded start_def stop_def]
  show ?thesis
  proof (cases "start = 0 \<and> stop = length ?t")
    case whole: True
    then have "trim_normalized j = (j, Inr (py_strip ?t))"
      using strip(2) by (simp add: trim_normalized_def Let_def start_def stop_def)
    with whole assms(1) strip(2) show ?thesis by (simp add: start_def [symmetric])
  next
    case False
    define bs where "bs = take (Suc stop - start) (drop start ?n)"
    have nth: "bs ! i = ?n ! (start + i)" if "i \<le> stop - start" for i
      using that strip(1) le ok(1) by (simp add: bs_def Suc_diff_le)
    have len: "length bs = Suc (stop - start)" using ok(1) le strip(1) by (simp add: bs_def Suc_diff_le)
    have "clamp (?n ! start) (?n ! stop) b = b" if "b \<in> set bs" for b
    proof -
      obtain i where i: "i \<le> stop - start" "b = ?n ! (start + i)"
        using \<open>b \<in> set bs\<close> nth len by (metis in_set_conv_nth less_Suc_eq_le)
      then show ?thesis using ok(1) le strip(1) by (auto intro!: clamp_id sorted_nth_mono [OF ok(2)])
    qed
    then have "map (clamp (?n ! start) (?n ! stop)) bs = bs" by (simp add: map_idI)
    then have tr: "trim_normalized j = (set_maps bs (j\<lparr>normalized_text := py_strip ?t\<rparr>), Inr (py_strip ?t))"
      unfolding trim_normalized_def Let_def start_def [symmetric] stop_def [symmetric]
      using False ok(1) le strip(2) by (auto simp: bs_def)
    have ln: "length (py_strip ?t) = stop - start" using strip(2) le by simp
    have "sorted bs" "\<forall>b \<in> set bs. 0 \<le> b \<and> b \<le> int (length (raw_text j))"
      using ok(2,3) by (auto simp: bs_def sorted_wrt_take sorted_wrt_drop dest!: in_set_takeD in_set_dropD)
    then have "journal_ok (set_maps bs (j\<lparr>normalized_text := py_strip ?t\<rparr>))"
      by (simp add: journal_ok_set_maps map_ok_def len ln)
    with tr nth ln show ?thesis by (simp add: start_def [symmetric])
  qed
qed

lemma trim_blank:
  assumes "journal_ok j" and "normalized_text j \<noteq> []" and "\<not> list_ex (\<lambda>c. \<not> py_isspace c) (normalized_text j)"
  shows "trim_normalized j = (set_maps [] (j\<lparr>normalized_text := []\<rparr>), Inr [])"
proof -
  let ?t = "normalized_text j"
  from assms(3) have "dropWhile py_isspace ?t = []" "dropWhile py_isspace (rev ?t) = []"
    by (auto simp: list_ex_iff dropWhile_eq_Nil_conv)
  then have "py_lstrip ?t = []" "py_rstrip ?t = []" unfolding py_lstrip_def py_rstrip_def by (simp_all only: rev.simps)
  moreover have "Suc 0 - length ?t = 0" using assms(2) by (cases ?t) auto
  moreover have "length (normalized_to_raw j) = Suc (length ?t)"
    using assms(1) by (simp add: journal_ok_def map_ok_def)
  ultimately show ?thesis using assms(2) by (simp add: trim_normalized_def Let_def)
qed

text \<open>
  Trimming white space keeps the offsets, unless nothing is left. For a text with a visible
  character the trimmed text is the stripped text, its maps are valid, and boundary \<open>i\<close> of the
  trimmed text has the raw position of the boundary it had before. For a blank text the map
  becomes empty and every later lookup of a raw range raises.
\<close>

theorem trim_keeps_offsets:
  assumes "journal_ok j" and "normalized_text j \<noteq> []"
  shows "if list_ex (\<lambda>c. \<not> py_isspace c) (normalized_text j)
         then \<exists>j'. trim_normalized j = (j', Inr (py_strip (normalized_text j))) \<and> journal_ok j' \<and>
                (\<forall>i \<le> length (normalized_text j').
                   normalized_to_raw j' ! i =
                   normalized_to_raw j ! (length (normalized_text j) - length (py_lstrip (normalized_text j)) + i))
         else \<exists>j'. trim_normalized j = (j', Inr []) \<and> normalized_to_raw j' = [] \<and>
                (\<forall>a b. journal_raw_span a b j' = Inl IndexError)"
proof (cases "list_ex (\<lambda>c. \<not> py_isspace c) (normalized_text j)")
  case True
  with trim_visible [OF assms(1) True] show ?thesis by auto
next
  case False
  with trim_blank [OF assms False] show ?thesis by (simp add: journal_raw_span_def Let_def)
qed

text \<open>
  What a run leaves behind: valid maps, or, after a trim of a blank text, an empty text with an
  empty map, which every later operation but the finalization and a refused one repairs.
\<close>

definition map_lost :: "journal \<Rightarrow> bool" where
  "map_lost j \<longleftrightarrow> normalized_text j = [] \<and> normalized_to_raw j = []"

lemma trim_exec:
  assumes "journal_ok j"
  shows "if normalized_text j \<noteq> [] \<and> list_all py_isspace (normalized_text j)
         then map_lost (journal_exec nrm Trim j) else journal_ok (journal_exec nrm Trim j)"
proof (cases "list_ex (\<lambda>c. \<not> py_isspace c) (normalized_text j)")
  case True
  with trim_visible [OF assms True] show ?thesis by (auto simp: list_all_iff list_ex_iff)
next
  case blank: False
  show ?thesis
  proof (cases "normalized_text j = []")
    case True
    then have "trim_normalized j = (j, Inr [])" by (simp add: trim_normalized_def py_lstrip_def py_rstrip_def)
    with True assms show ?thesis by simp
  next
    case False
    with trim_blank [OF assms False blank] blank show ?thesis
      by (simp add: map_lost_def list_all_iff list_ex_iff)
  qed
qed

lemma lost_exec:
  assumes "map_lost j"
  shows "journal_ok (journal_exec nrm op j) \<or> map_lost (journal_exec nrm op j)"
proof -
  let ?k = "j\<lparr>normalized_to_raw := [0]\<rparr>"
  have k: "journal_ok ?k" and j: "normalized_text j = []" "normalized_to_raw j = []"
    using assms by (simp_all add: journal_ok_def map_ok_def map_lost_def)
  show ?thesis
  proof (cases op)
    case (Install raw normalized n2r)
    have "journal_exec nrm op j = (if isl (snd (install_projection raw normalized n2r ?k)) then j
        else journal_exec nrm op ?k)"
      by (auto simp: Install install_projection_def Let_def set_maps_def split: sum.split)
    with assms install_projection_ok [OF k] Install show ?thesis by simp
  next
    case (UpdateRaw raw)
    have "journal_exec nrm op j = (if input_final j then j else journal_exec nrm op ?k)"
      by (simp add: UpdateRaw update_raw_source_def Let_def set_maps_def j)
    with assms update_raw_source_ok [OF k] UpdateRaw show ?thesis by simp
  next
    case (Spoken source a b spoken mp om)
    have "journal_exec nrm op j = (if input_final j then j else journal_exec nrm op ?k)"
      by (simp add: Spoken append_spoken_def spoken_delta_def Let_def set_maps_def j split: prod.split)
    with assms append_spoken_ok [OF k] Spoken show ?thesis by simp
  next
    case Finalize
    then show ?thesis by (simp add: finalize_projection_def Let_def map_lost_def j)
  next
    case (Append d)
    have "journal_exec nrm op j = journal_exec nrm op ?k"
      by (simp add: Append journal_append_def project_def Let_def set_maps_def j)
    with journal_append_ok [OF k] Append show ?thesis by simp
  next
    case Finish
    then show ?thesis by (simp add: journal_finish_ok)
  next
    case Trim
    then show ?thesis using assms by (simp add: trim_normalized_def py_lstrip_def py_rstrip_def map_lost_def)
  qed
qed

interpretation jr: op_system "journal_exec nrm" "\<lambda>j. journal_ok j \<or> map_lost j" for nrm
  by unfold_locales (metis journal_exec_ok lost_exec trim_exec)

lemma lost_by_trim:
  assumes "normalized_to_raw (fold (journal_exec nrm) ops (new_journal strip)) = []"
  shows "\<exists>before after. ops = before @ Trim # after \<and>
           normalized_text (fold (journal_exec nrm) before (new_journal strip)) \<noteq> [] \<and>
           list_all py_isspace (normalized_text (fold (journal_exec nrm) before (new_journal strip)))"
  using assms
proof (induction ops rule: rev_induct)
  case Nil
  then show ?case by (simp add: new_journal_def)
next
  case (snoc op ops)
  let ?j = "fold (journal_exec nrm) ops (new_journal strip)"
  have ok: "journal_ok k \<Longrightarrow> normalized_to_raw k \<noteq> []" for k by (auto simp: journal_ok_def map_ok_def)
  consider "journal_ok ?j" | "map_lost ?j" using jr.run_inv new_journal_ok by blast
  then show ?case
  proof cases
    case 1
    from snoc.prems have "\<not> journal_ok (journal_exec nrm op ?j)" using ok by auto
    with 1 have "op = Trim" using journal_exec_ok by blast
    moreover from this \<open>\<not> journal_ok _\<close> trim_exec [OF 1, of nrm]
    have "normalized_text ?j \<noteq> [] \<and> list_all py_isspace (normalized_text ?j)" by (auto split: if_splits)
    ultimately show ?thesis by blast
  next
    case 2
    with snoc.IH obtain before after where "ops = before @ Trim # after"
      "normalized_text (fold (journal_exec nrm) before (new_journal strip)) \<noteq> [] \<and>
       list_all py_isspace (normalized_text (fold (journal_exec nrm) before (new_journal strip)))"
      by (auto simp: map_lost_def)
    then have "ops @ [op] = before @ Trim # (after @ [op])" by simp
    with \<open>_ \<and> _\<close> show ?thesis by blast
  qed
qed

text \<open>
  C32. A journal can be asked where spoken text came from. After any sequence of operations on a
  fresh journal, the outer trim included, whatever the normalizer does and whether or not
  operations failed on the way, either every normalized range has an ordered raw range inside the
  raw text, or the boundary map is empty. The second case is exactly the one in which every
  lookup raises; the canonical text is then empty and some trim of the run met a non-empty text
  of white space only.
\<close>

theorem journal_raw_span_total:
  "let j = fold (journal_exec nrm) ops (new_journal strip)
   in if normalized_to_raw j \<noteq> []
      then \<forall>a b. \<exists>l r. journal_raw_span a b j = Inr (l, r) \<and> 0 \<le> l \<and> l \<le> r \<and> r \<le> int (length (raw_text j))
      else normalized_text j = [] \<and> (\<forall>a b. journal_raw_span a b j = Inl IndexError) \<and>
           (\<exists>before after. ops = before @ Trim # after \<and>
              (let k = fold (journal_exec nrm) before (new_journal strip)
               in normalized_text k \<noteq> [] \<and> list_all py_isspace (normalized_text k)))"
proof -
  let ?j = "fold (journal_exec nrm) ops (new_journal strip)"
  have "journal_ok ?j \<or> map_lost ?j" using jr.run_inv new_journal_ok by blast
  then show ?thesis
  proof
    assume ok: "journal_ok ?j"
    then have "normalized_to_raw ?j \<noteq> []" by (auto simp: journal_ok_def map_ok_def)
    with journal_raw_span_inside [OF ok] show ?thesis by (simp add: Let_def)
  next
    assume lost: "map_lost ?j"
    then have "journal_raw_span a b ?j = Inl IndexError" for a b
      by (simp add: journal_raw_span_def map_lost_def)
    with lost lost_by_trim [of nrm ops strip] show ?thesis by (simp add: Let_def map_lost_def)
  qed
qed

section \<open>Witnesses\<close>

text \<open>The input ``a  b'' in two packets that are cut between the two spaces.\<close>

definition ex_packets :: "pystr list" where
  "ex_packets = [[97, 32], [32, 98]]"

definition ex_journal :: journal where
  "ex_journal = \<lparr>raw_text = [97, 32, 32, 98], normalized_text = [97, 32, 98], normalized_to_raw = [0, 1, 3, 4],
     raw_to_normalized = [0, 1, 1, 2, 3], input_final = False, strip_leading_whitespace = False\<rparr>"

lemma ex_journal_valid: "journal_ok ex_journal" "journal_synced ex_journal"
  by code_simp+

lemma ex_append_packets:
  "append_packets normalize_tts_text ex_packets (new_journal False) = Some (ex_journal, [[97, 32], [98]])"
  by code_simp

theorem boundary_maps_round_trip_witness:
  "normalized_to_raw ex_journal = [0, 1, 3, 4] \<and> raw_to_normalized ex_journal = [0, 1, 1, 2, 3] \<and>
   sorted (raw_to_normalized ex_journal)"
  using boundary_maps_round_trip [OF ex_journal_valid, of normalize_tts_text] by (simp add: ex_journal_def)

theorem packets_append_as_one_witness:
  "journal_append normalize_tts_text [97, 32, 32, 98] (new_journal False) = (ex_journal, Inr ([97, 32, 98], 0))"
  using packets_append_as_one [OF ex_append_packets] by (simp add: ex_packets_def new_journal_def)

text \<open>The verbalization of ``9%'' is committed, then the full stop that follows it.\<close>

definition ex_spoken :: journal where
  "ex_spoken = fst (append_spoken normalize_tts_text [57, 37] 0 2 [78, 80] None None (new_journal False))"

lemma ex_spoken_ok: "journal_ok ex_spoken"
  by code_simp

theorem spoken_commit_append_only_witness:
  "\<exists>j'. append_spoken normalize_tts_text [57, 37, 46] 2 3 [46] None None ex_spoken = (j', Inr ([46], 2)) \<and>
     normalized_to_raw j' = [0, 0, 2, 3] \<and> normalized_text j' = [78, 80, 46]"
proof -
  have "snd (append_spoken normalize_tts_text [57, 37, 46] 2 3 [46] None None ex_spoken) = Inr ([46], 2)"
    "normalized_to_raw (fst (append_spoken normalize_tts_text [57, 37, 46] 2 3 [46] None None ex_spoken)) = [0, 0, 2, 3]"
    "normalized_text ex_spoken = [78, 80]" by code_simp+
  with spoken_commit_append_only [OF ex_spoken_ok, where nrm = normalize_tts_text
      and source = "[57, 37, 46]" and a = 2 and b = 3 and spoken = "[46]" and mp = None and om = None]
  show ?thesis by (auto split: prod.splits)
qed

definition ex_padded :: journal where
  "ex_padded = fst (install_projection [32, 97, 32] [32, 97, 32] None (new_journal False))"

theorem trim_keeps_offsets_witness:
  "\<exists>j'. trim_normalized ex_padded = (j', Inr [97]) \<and> journal_ok j' \<and> normalized_to_raw j' = [1, 2]"
proof -
  have "journal_ok ex_padded" "normalized_text ex_padded \<noteq> []" "list_ex (\<lambda>c. \<not> py_isspace c) (normalized_text ex_padded)"
    "py_strip (normalized_text ex_padded) = [97]" "normalized_to_raw (fst (trim_normalized ex_padded)) = [1, 2]"
    by code_simp+
  with trim_keeps_offsets [of ex_padded] show ?thesis by (auto split: prod.splits)
qed

definition ex_trim_ops :: "journal_op list" where
  "ex_trim_ops = [Append [32, 97], Append [32, 32, 98, 32], Finish, Trim]"

text \<open>
  The full-text path on `` a  b '': two packets, the final projection and the outer trim; and the
  same path on a single space, whose map is lost.
\<close>

theorem journal_raw_span_total_witness:
  "journal_raw_span 1 9 (fold (journal_exec normalize_tts_text) ex_trim_ops (new_journal False)) = Inr (2, 5) \<and>
   journal_raw_span 0 0 (fold (journal_exec normalize_tts_text) [Append [32], Finish, Trim] (new_journal False))
   = Inl IndexError"
proof -
  have "normalized_to_raw (fold (journal_exec normalize_tts_text) [Append [32], Finish, Trim] (new_journal False)) = []"
    by code_simp
  then have "journal_raw_span 0 0 (fold (journal_exec normalize_tts_text) [Append [32], Finish, Trim] (new_journal False))
   = Inl IndexError"
    using journal_raw_span_total [of normalize_tts_text "[Append [32], Finish, Trim]" False] by (simp only: Let_def if_False simp_thms)
  moreover have "journal_raw_span 1 9 (fold (journal_exec normalize_tts_text) ex_trim_ops (new_journal False)) = Inr (2, 5)"
    by code_simp
  ultimately show ?thesis by blast
qed

end
