(* ===== verification/Cursor_Plan.thy ===== *)
theory Cursor_Plan
  imports Native_Cursor
begin

text \<open>
  \<open>CursorLabelPlanAdapter\<close> of \<open>engine/core/cursor_plan_adapter.py\<close>, which turns the committed
  records of the streaming text normalizer into label plans.

  The labelizer is injected and a parameter of the model: with or without spans, \<open>None\<close> where
  it raises. Commits are duck-typed in the source; the record has the attributes the adapter
  reads, and an attribute that may be missing is an option. Values are integers by type, so
  the integer checks of \<open>_integer\<close> never fail here.
\<close>

section \<open>Commits and labelizers\<close>

record text_commit =
  tc_commit_id :: int
  tc_span_id :: int
  tc_raw_start :: int
  tc_raw_end :: int
  tc_mapping :: "(int \<times> int) list"
  tc_raw_text :: "pystr option"
  tc_span_kind :: "string option"
  tc_tts_text :: pystr

datatype labelizer =
    WithSpans "pystr \<Rightarrow> (int list \<times> (int \<times> int) list) option"
  | Plain "pystr \<Rightarrow> int list option"

definition owner_id_of :: "text_commit \<Rightarrow> nat \<Rightarrow> int" where
  "owner_id_of c ordinal =
     (if 0 < tc_commit_id c then tc_commit_id c
      else if 0 < tc_span_id c then tc_span_id c
      else int ordinal + 1)"

definition raw_span :: "text_commit \<Rightarrow> py_error + int \<times> int" where
  "raw_span c =
     (let s = tc_raw_start c; e = tc_raw_end c; m = tc_mapping c
      in if s < 0 \<or> e < s then Inl (ValueError ''commit raw span is invalid'')
         else if m = [] then Inr (s, e)
         else if \<exists>(ms, me) \<in> set m. ms < s \<or> me < ms \<or> e < me
         then Inl (ValueError ''commit mapping must stay inside the commit raw span'')
         else Inr (Min (set (map fst m)), Max (set (map snd m))))"

definition is_literal_commit :: "text_commit \<Rightarrow> pystr \<Rightarrow> int \<Rightarrow> int \<Rightarrow> bool" where
  "is_literal_commit c spoken rs re \<longleftrightarrow> tc_raw_text c = Some spoken \<and> re - rs = int (length spoken)"

definition literal_owner_id :: "int \<Rightarrow> nat \<Rightarrow> int" where
  "literal_owner_id oid ordinal = or (push_bit 32 oid) (int ordinal + 1)"

definition is_alnum_ascii :: "nat \<Rightarrow> bool" where
  "is_alnum_ascii c \<longleftrightarrow> (48 \<le> c \<and> c \<le> 57) \<or> (65 \<le> c \<and> c \<le> 90) \<or> (97 \<le> c \<and> c \<le> 122)"

definition is_character_aligned_identifier :: "text_commit \<Rightarrow> pystr \<Rightarrow> int \<Rightarrow> int \<Rightarrow> bool" where
  "is_character_aligned_identifier c spoken rs re \<longleftrightarrow>
     (tc_span_kind c = Some ''id_card'' \<or> tc_span_kind c = Some ''identifier'') \<and>
     (case tc_raw_text c of
        None \<Rightarrow> False
      | Some raw \<Rightarrow> raw \<noteq> [] \<and> (\<forall>ch \<in> set raw. is_alnum_ascii ch) \<and>
                   re - rs = int (length raw) \<and> length raw = length spoken)"

section \<open>Projecting one commit\<close>

text \<open>
  The labels of a spoken text and their spans relative to it. Every exception in this part
  is turned into one \<open>ValueError\<close>.
\<close>

definition labelize_commit :: "labelizer \<Rightarrow> pystr \<Rightarrow> py_error + int list \<times> (int \<times> int) list" where
  "labelize_commit lab spoken =
     (case lab of
        WithSpans f \<Rightarrow>
          (case f spoken of
             None \<Rightarrow> Inl (ValueError ''cursor labelizer failed'')
           | Some (labels, spans) \<Rightarrow>
               if length spans \<noteq> length labels \<or>
                  (\<exists>(l, r) \<in> set spans. \<not> (0 \<le> l \<and> l < r \<and> r \<le> int (length spoken)))
               then Inl (ValueError ''cursor labelizer failed'')
               else Inr (labels, spans))
      | Plain f \<Rightarrow>
          (case f spoken of
             None \<Rightarrow> Inl (ValueError ''cursor labelizer failed'')
           | Some labels \<Rightarrow> Inr (labels, [])))"

text \<open>The owners of a literal commit, one per label; the outer ones absorb the raw edges.\<close>

fun literal_owners ::
  "int \<Rightarrow> int \<Rightarrow> int \<Rightarrow> int \<Rightarrow> int \<Rightarrow> nat \<Rightarrow> nat \<Rightarrow> (int \<times> int) list \<Rightarrow> int set \<Rightarrow>
   py_error + cursor_owner_span list \<times> int set" where
  "literal_owners oid lstart cursor rs re n k [] seen = Inr ([], seen)"
| "literal_owners oid lstart cursor rs re n k ((l, r) # spans) seen =
     (let sub = literal_owner_id oid k
      in if sub \<in> seen then Inl (ValueError ''duplicate cursor owner id'')
         else
           (let w = \<lparr>owner_id = sub, label_start = lstart + int k, label_end = lstart + int k + 1,
                     normalized_start = cursor + l, normalized_end = cursor + r,
                     raw_start = (if k = 0 then rs else rs + l),
                     raw_end = (if Suc k = n then re else rs + r)\<rparr>
            in case owner_error w of
                 Some e \<Rightarrow> Inl e
               | None \<Rightarrow>
                   (case literal_owners oid lstart cursor rs re n (Suc k) spans (insert sub seen) of
                      Inl e \<Rightarrow> Inl e
                    | Inr (ws, seen') \<Rightarrow> Inr (w # ws, seen'))))"

text \<open>
  One round of the loop for a non-empty spoken text: the new labels, spans and owners, and
  the owner ids seen so far. \<open>nlabels\<close> is the number of labels before the commit.
\<close>

definition commit_step ::
  "labelizer \<Rightarrow> nat \<Rightarrow> text_commit \<Rightarrow> pystr \<Rightarrow> int \<Rightarrow> int \<Rightarrow> int set \<Rightarrow>
   py_error + int list \<times> (int \<times> int) list \<times> cursor_owner_span list \<times> int set" where
  "commit_step lab ordinal c spoken cursor nlabels seen =
     (let oid = owner_id_of c ordinal
      in if oid \<in> seen then Inl (ValueError ''duplicate cursor owner id'')
         else
           (case raw_span c of
              Inl e \<Rightarrow> Inl e
            | Inr (rs, re) \<Rightarrow>
              (case labelize_commit lab spoken of
                 Inl e \<Rightarrow> Inl e
               | Inr (labels, spans) \<Rightarrow>
                   if \<exists>l \<in> set labels. l < 0 then Inl (ValueError ''cursor label ids must be non-negative'')
                   else
                     (let abs_spans = map (\<lambda>(l, r). (cursor + l, cursor + r)) spans;
                          stop = cursor + int (length spoken);
                          seen1 = insert oid seen
                      in if labels = [] then Inr ([], abs_spans, [], seen1)
                         else if (is_literal_commit c spoken rs re \<or>
                                  is_character_aligned_identifier c spoken rs re) \<and> spans \<noteq> []
                         then (case literal_owners oid nlabels cursor rs re (length spans) 0 spans seen1 of
                                 Inl e \<Rightarrow> Inl e
                               | Inr (ws, seen2) \<Rightarrow> Inr (labels, abs_spans, ws, seen2))
                         else
                           (let w = \<lparr>owner_id = oid, label_start = nlabels,
                                     label_end = nlabels + int (length labels),
                                     normalized_start = cursor, normalized_end = stop,
                                     raw_start = rs, raw_end = re\<rparr>
                            in case owner_error w of
                                 Some e \<Rightarrow> Inl e
                               | None \<Rightarrow> Inr (labels, abs_spans, [w], seen1))))))"

fun project_commits ::
  "labelizer \<Rightarrow> nat \<Rightarrow> (text_commit \<times> pystr) list \<Rightarrow> int \<Rightarrow> int \<Rightarrow> int set \<Rightarrow>
   py_error + int list \<times> (int \<times> int) list \<times> cursor_owner_span list \<times> int set" where
  "project_commits lab ordinal [] cursor nlabels seen = Inr ([], [], [], seen)"
| "project_commits lab ordinal ((c, spoken) # cs) cursor nlabels seen =
     (if spoken = [] then project_commits lab (Suc ordinal) cs cursor nlabels seen
      else
        (case commit_step lab ordinal c spoken cursor nlabels seen of
           Inl e \<Rightarrow> Inl e
         | Inr (labels, spans, ws, seen1) \<Rightarrow>
             (case project_commits lab (Suc ordinal) cs (cursor + int (length spoken))
                     (nlabels + int (length labels)) seen1 of
                Inl e \<Rightarrow> Inl e
              | Inr (labels', spans', ws', seen2) \<Rightarrow>
                  Inr (labels @ labels', spans @ spans', ws @ ws', seen2))))"

section \<open>Checking the committed prefix\<close>

definition check_committed_prefix ::
  "cursor_label_plan \<Rightarrow> cursor_label_plan option \<Rightarrow> int \<Rightarrow> py_error option" where
  "check_committed_prefix plan previous n =
     (if n < 0 then Some (ValueError ''committed_label_count must be non-negative'')
      else case previous of
        None \<Rightarrow> None
      | Some prev \<Rightarrow>
          if n = 0 then None
          else if int (length (label_ids prev)) < n
          then Some (ValueError ''committed_label_count exceeds previous plan'')
          else if int (length (label_ids plan)) < n
          then Some (ValueError ''cursor plan rewrites committed labels'')
          else if take (nat n) (label_ids plan) \<noteq> take (nat n) (label_ids prev)
          then Some (ValueError ''cursor plan rewrites committed labels'')
          else if take (nat n) (label_normalized_spans plan) \<noteq> take (nat n) (label_normalized_spans prev)
          then Some (ValueError ''cursor plan rewrites committed label provenance'')
          else if filter (\<lambda>w. label_start w < n) (owner_spans prev) \<noteq>
                  filter (\<lambda>w. label_start w < n) (owner_spans plan)
          then Some (ValueError ''cursor plan rewrites committed owner spans'')
          else None)"

section \<open>The adapter\<close>

record plan_adapter =
  last_revision :: int
  cached_commits :: "text_commit list"
  cached_spoken_texts :: "pystr list"
  cached_plan :: "cursor_label_plan option"
  cached_normalized_origin :: int
  cached_normalized_length :: int

definition new_adapter :: plan_adapter where
  "new_adapter = \<lparr>last_revision = -1, cached_commits = [], cached_spoken_texts = [],
                  cached_plan = None, cached_normalized_origin = 0, cached_normalized_length = 0\<rparr>"

definition adapter_reset :: "plan_adapter \<Rightarrow> plan_adapter" where
  "adapter_reset a = new_adapter"

definition cache_projection ::
  "text_commit list \<Rightarrow> pystr list \<Rightarrow> cursor_label_plan \<Rightarrow> int \<Rightarrow> plan_adapter \<Rightarrow> plan_adapter" where
  "cache_projection commits spoken plan origin a =
     a\<lparr>cached_commits := commits, cached_spoken_texts := spoken, cached_plan := Some plan,
       cached_normalized_origin := origin,
       cached_normalized_length := origin + sum_list (map (\<lambda>s. int (length s)) spoken)\<rparr>"

text \<open>The full projection of \<open>build\<close>, up to the validated plan.\<close>

definition full_plan ::
  "labelizer \<Rightarrow> text_commit list \<Rightarrow> pystr list \<Rightarrow> int \<Rightarrow> int \<Rightarrow> bool \<Rightarrow> py_error + cursor_label_plan" where
  "full_plan lab commits spoken base revision final =
     (case project_commits lab 0 (zip commits spoken) base 0 {} of
        Inl e \<Rightarrow> Inl e
      | Inr (labels, spans, ws, _) \<Rightarrow>
          make_plan \<lparr>label_ids = labels, owner_spans = ws, plan_revision = revision,
                     plan_final = final, label_normalized_spans = spans\<rparr>)"

text \<open>\<open>spoken_texts\<close> when given, else the commits' own \<open>tts_text\<close>.\<close>

definition effective_spoken :: "text_commit list \<Rightarrow> pystr list option \<Rightarrow> pystr list" where
  "effective_spoken commits spoken_texts =
     (case spoken_texts of Some s \<Rightarrow> s | None \<Rightarrow> map tc_tts_text commits)"

definition shift_owner :: "int \<Rightarrow> cursor_owner_span \<Rightarrow> cursor_owner_span" where
  "shift_owner n w = w\<lparr>label_start := label_start w + n, label_end := label_end w + n\<rparr>"

text \<open>
  \<open>_build_incremental\<close>. Whether \<open>previous\<close> is the cached object itself is a question of identity
  and an argument. The nested adapter starts empty, so its own \<open>build\<close> is the full one with
  the checks on its base and revision.
\<close>

definition build_incremental ::
  "labelizer \<Rightarrow> text_commit list \<Rightarrow> pystr list \<Rightarrow> int \<Rightarrow> bool \<Rightarrow> cursor_label_plan option \<Rightarrow> bool \<Rightarrow> int \<Rightarrow>
   plan_adapter \<Rightarrow> plan_adapter \<times> (py_error + cursor_label_plan option)" where
  "build_incremental lab commits spoken revision final previous prev_is_cached n a =
     (let k = length (cached_commits a)
      in case cached_plan a of
           None \<Rightarrow> (a, Inr None)
         | Some cached \<Rightarrow>
             if \<not> prev_is_cached \<or> length commits < k \<or> take k commits \<noteq> cached_commits a \<or>
                take k spoken \<noteq> cached_spoken_texts a
             then (a, Inr None)
             else if cached_normalized_length a < 0
             then (a, Inl (ValueError ''normalized_base must be non-negative''))
             else if revision < -1 then (a, Inl (ValueError ''cursor plan revision cannot move backwards''))
             else
               (case full_plan lab (drop k commits) (drop k spoken) (cached_normalized_length a) revision final of
                  Inl e \<Rightarrow> (a, Inl e)
                | Inr suffix \<Rightarrow>
                    if set (map owner_id (owner_spans cached)) \<inter> set (map owner_id (owner_spans suffix)) \<noteq> {}
                    then (a, Inr None)
                    else
                      (case make_plan
                         \<lparr>label_ids = label_ids cached @ label_ids suffix,
                          owner_spans = owner_spans cached @
                            map (shift_owner (int (length (label_ids cached)))) (owner_spans suffix),
                          plan_revision = revision, plan_final = final,
                          label_normalized_spans = label_normalized_spans cached @ label_normalized_spans suffix\<rparr> of
                         Inl e \<Rightarrow> (a, Inl e)
                       | Inr plan \<Rightarrow>
                           (case check_committed_prefix plan previous n of
                              Some e \<Rightarrow> (a, Inl e)
                            | None \<Rightarrow>
                                (cache_projection commits spoken plan (cached_normalized_origin a)
                                   (a\<lparr>last_revision := revision\<rparr>), Inr (Some plan))))))"

definition plan_build ::
  "labelizer \<Rightarrow> text_commit list \<Rightarrow> pystr list option \<Rightarrow> int \<Rightarrow> int \<Rightarrow> bool \<Rightarrow>
   cursor_label_plan option \<Rightarrow> bool \<Rightarrow> int \<Rightarrow> plan_adapter \<Rightarrow>
   plan_adapter \<times> (py_error + cursor_label_plan)" where
  "plan_build lab commits spoken_texts base revision final previous prev_is_cached n a =
     (if base < 0 then (a, Inl (ValueError ''normalized_base must be non-negative''))
      else if revision < last_revision a
      then (a, Inl (ValueError ''cursor plan revision cannot move backwards''))
      else if (case spoken_texts of Some s \<Rightarrow> length s \<noteq> length commits | None \<Rightarrow> False)
      then (a, Inl (ValueError ''spoken_texts must align one-to-one with commits''))
      else
        (let spoken = effective_spoken commits spoken_texts
         in case build_incremental lab commits spoken revision final previous prev_is_cached n a of
              (a1, Inl e) \<Rightarrow> (a1, Inl e)
            | (a1, Inr (Some plan)) \<Rightarrow> (a1, Inr plan)
            | (a1, Inr None) \<Rightarrow>
                (case full_plan lab commits spoken base revision final of
                   Inl e \<Rightarrow> (a1, Inl e)
                 | Inr plan \<Rightarrow>
                     (case check_committed_prefix plan previous n of
                        Some e \<Rightarrow> (a1, Inl e)
                      | None \<Rightarrow>
                          (cache_projection commits spoken plan base (a1\<lparr>last_revision := revision\<rparr>),
                           Inr plan)))))"

section \<open>The projection of a suffix\<close>

lemma owner_error_shift:
  "owner_error (shift_owner n w) = None \<Longrightarrow> 0 \<le> label_start w \<Longrightarrow> owner_error w = None"
  by (auto simp: owner_error_def shift_owner_def split: if_splits)

lemma literal_owners_shift:
  "literal_owners oid (m + n) cur rs re tot k spans seen' = Inr (W, out') \<Longrightarrow> seen \<subseteq> seen' \<Longrightarrow> 0 \<le> m \<Longrightarrow>
   \<exists>W0 out. literal_owners oid m cur rs re tot k spans seen = Inr (W0, out) \<and>
     W = map (shift_owner n) W0 \<and> out \<subseteq> out'"
proof (induction spans arbitrary: k seen seen' W out')
  case Nil
  then show ?case by auto
next
  case (Cons lr spans)
  obtain l r where lr: "lr = (l, r)" by fastforce
  let ?w = "\<lambda>m. \<lparr>owner_id = literal_owner_id oid k, label_start = m + int k, label_end = m + int k + 1,
     normalized_start = cur + l, normalized_end = cur + r,
     raw_start = (if k = 0 then rs else rs + l), raw_end = (if Suc k = tot then re else rs + r)\<rparr>"
  from Cons.prems(1) obtain W' where nin: "literal_owner_id oid k \<notin> seen'"
    and w: "owner_error (?w (m + n)) = None"
    and rest: "literal_owners oid (m + n) cur rs re tot (Suc k) spans (insert (literal_owner_id oid k) seen') = Inr (W', out')"
    and W: "W = ?w (m + n) # W'"
    by (auto simp: lr Let_def split: if_splits option.splits sum.splits)
  have sh: "?w (m + n) = shift_owner n (?w m)" by (simp add: shift_owner_def algebra_simps)
  have "owner_error (?w m) = None" using owner_error_shift [of n "?w m"] w sh Cons.prems(3) by simp
  moreover obtain W0 out where "literal_owners oid m cur rs re tot (Suc k) spans (insert (literal_owner_id oid k) seen) = Inr (W0, out)"
    "W' = map (shift_owner n) W0" "out \<subseteq> out'"
    using Cons.IH [OF rest, of "insert (literal_owner_id oid k) seen"] Cons.prems(2,3) by auto
  moreover have "literal_owner_id oid k \<notin> seen" using nin Cons.prems(2) by blast
  ultimately show ?case using W sh by (simp add: lr Let_def)
qed

lemma literal_owners_ids:
  "literal_owners oid m cur rs re tot k spans seen = Inr (W, out) \<Longrightarrow>
   out = seen \<union> owner_id ` set W \<and> seen \<inter> owner_id ` set W = {}"
proof (induction spans arbitrary: k seen W out)
  case (Cons lr spans)
  obtain l r where "lr = (l, r)" by fastforce
  with Cons show ?case by (fastforce simp: Let_def split: if_splits option.splits sum.splits)
qed simp

lemma commit_step_shift:
  assumes "commit_step lab ord c sp cur (m + n) seen' = Inr (L, S, W, out')" and "seen \<subseteq> seen'" and "0 \<le> m"
    and "0 < tc_commit_id c \<or> 0 < tc_span_id c"
  shows "\<exists>W0 out. commit_step lab ord' c sp cur m seen = Inr (L, S, W0, out) \<and>
    W = map (shift_owner n) W0 \<and> out \<subseteq> out'"
proof -
  have oid: "owner_id_of c ord' = owner_id_of c ord" using assms(4) by (auto simp: owner_id_of_def)
  let ?o = "owner_id_of c ord"
  from assms(1) obtain rs re spans where
    nin: "?o \<notin> seen'" and raw: "raw_span c = Inr (rs, re)"
    and lab: "labelize_commit lab sp = Inr (L, spans)" and pos: "\<not> (\<exists>l \<in> set L. l < 0)"
    by (auto simp: commit_step_def Let_def split: if_splits sum.splits option.splits)
  have nin': "?o \<notin> seen" using nin assms(2) by blast
  let ?lit = "(is_literal_commit c sp rs re \<or> is_character_aligned_identifier c sp rs re) \<and> spans \<noteq> []"
  note st = assms(1) [unfolded commit_step_def Let_def raw lab sum.case prod.case if_not_P [OF nin] if_not_P [OF pos]]
  show ?thesis
  proof (cases "L = []")
    case True
    with st assms(2) nin' pos show ?thesis
      by (auto simp: commit_step_def Let_def oid raw lab)
  next
    case ne: False
    show ?thesis
    proof (cases ?lit)
      case True
      with st ne obtain W' out1 where lo: "literal_owners ?o (m + n) cur rs re (length spans) 0 spans (insert ?o seen') = Inr (W', out1)"
        and eq: "S = map (\<lambda>(l, r). (cur + l, cur + r)) spans" "W = W'" "out' = out1"
        by (auto split: sum.splits)
      from literal_owners_shift [OF lo, of "insert ?o seen"] assms(2,3) obtain W0 out where
        "literal_owners ?o m cur rs re (length spans) 0 spans (insert ?o seen) = Inr (W0, out)"
        "W' = map (shift_owner n) W0" "out \<subseteq> out1" by auto
      with True ne eq nin' pos show ?thesis by (auto simp: commit_step_def Let_def oid raw lab)
    next
      case False
      let ?w = "\<lambda>m. \<lparr>owner_id = ?o, label_start = m, label_end = m + int (length L), normalized_start = cur,
        normalized_end = cur + int (length sp), raw_start = rs, raw_end = re\<rparr>"
      from st ne False have w: "owner_error (?w (m + n)) = None"
        and eq: "S = map (\<lambda>(l, r). (cur + l, cur + r)) spans" "W = [?w (m + n)]" "out' = insert ?o seen'"
        by (auto split: option.splits)
      have sh: "?w (m + n) = shift_owner n (?w m)" by (simp add: shift_owner_def)
      have "owner_error (?w m) = None" using owner_error_shift [of n "?w m"] w sh assms(3) by simp
      with False ne eq sh nin' pos assms(2) show ?thesis
        by (auto simp: commit_step_def Let_def oid raw lab)
    qed
  qed
qed

lemma commit_step_ids:
  assumes "commit_step lab ord c sp cur m seen = Inr (L, S, W, out)"
  shows "seen \<union> owner_id ` set W \<subseteq> out \<and> seen \<inter> owner_id ` set W = {}"
proof -
  have lit: "(\<forall>x \<in> seen. x \<in> o') \<and> (\<forall>w \<in> set V. owner_id w \<in> o' \<and> owner_id w \<notin> seen)"
    if "literal_owners oid m cur rs re tot k spans (insert oid seen) = Inr (V, o')" for oid rs re tot k spans V o'
    using literal_owners_ids [OF that] by auto
  have "(\<forall>x \<in> seen. x \<in> out) \<and> (\<forall>w \<in> set W. owner_id w \<in> out \<and> owner_id w \<notin> seen)"
    using assms
    by (auto simp: commit_step_def Let_def split: if_splits sum.splits option.splits dest!: lit)
  then show ?thesis by auto
qed

lemma commit_step_spans:
  assumes "commit_step lab ord c sp cur m seen = Inr (L, S, W, out)"
  shows "case lab of WithSpans _ \<Rightarrow> length S = length L | Plain _ \<Rightarrow> S = []"
  using assms
  by (auto simp: commit_step_def Let_def labelize_commit_def
      split: if_splits sum.splits option.splits labelizer.splits prod.splits)

lemma project_shift:
  "project_commits lab ord cs cur (m + n) seen' = Inr (L, S, W, out') \<Longrightarrow> seen \<subseteq> seen' \<Longrightarrow> 0 \<le> m \<Longrightarrow>
   \<forall>(c, sp) \<in> set cs. 0 < tc_commit_id c \<or> 0 < tc_span_id c \<Longrightarrow>
   \<exists>W0 out. project_commits lab ord' cs cur m seen = Inr (L, S, W0, out) \<and>
     W = map (shift_owner n) W0 \<and> out \<subseteq> out'"
proof (induction cs arbitrary: ord ord' cur m seen seen' L S W out')
  case Nil
  then show ?case by auto
next
  case (Cons cp cs)
  obtain c sp where cp: "cp = (c, sp)" by fastforce
  show ?case
  proof (cases "sp = []")
    case True
    with Cons.prems Cons.IH [of "Suc ord" cur m seen' L S W out' seen "Suc ord'"] show ?thesis
      by (simp add: cp)
  next
    case False
    with Cons.prems(1) obtain L1 S1 W1 seen1 L2 S2 W2 where
      st: "commit_step lab ord c sp cur (m + n) seen' = Inr (L1, S1, W1, seen1)"
      and rest: "project_commits lab (Suc ord) cs (cur + int (length sp)) (m + n + int (length L1)) seen1 = Inr (L2, S2, W2, out')"
      and eq: "L = L1 @ L2" "S = S1 @ S2" "W = W1 @ W2"
      by (auto simp: cp split: sum.splits)
    have "0 < tc_commit_id c \<or> 0 < tc_span_id c" using Cons.prems(4) by (simp add: cp)
    from commit_step_shift [OF st Cons.prems(2,3) this, of ord'] obtain V1 s1 where
      v1: "commit_step lab ord' c sp cur m seen = Inr (L1, S1, V1, s1)" "W1 = map (shift_owner n) V1" "s1 \<subseteq> seen1"
      by blast
    have "project_commits lab (Suc ord) cs (cur + int (length sp)) ((m + int (length L1)) + n) seen1 = Inr (L2, S2, W2, out')"
      using rest by (simp add: algebra_simps)
    from Cons.IH [OF this v1(3), of "Suc ord'"] Cons.prems(3,4) obtain V2 s2 where
      "project_commits lab (Suc ord') cs (cur + int (length sp)) (m + int (length L1)) s1 = Inr (L2, S2, V2, s2)"
      "W2 = map (shift_owner n) V2" "s2 \<subseteq> out'"
      by fastforce
    with v1 False eq show ?thesis by (simp add: cp)
  qed
qed

lemma project_ids:
  "project_commits lab ord cs cur m seen = Inr (L, S, W, out) \<Longrightarrow>
   seen \<union> owner_id ` set W \<subseteq> out \<and> seen \<inter> owner_id ` set W = {}"
proof (induction cs arbitrary: ord cur m seen L S W out)
  case (Cons cp cs)
  obtain c sp where cp: "cp = (c, sp)" by fastforce
  show ?case
  proof (cases "sp = []")
    case True
    with Cons.prems Cons.IH show ?thesis by (simp add: cp)
  next
    case False
    with Cons.prems obtain L1 S1 W1 seen1 L2 S2 W2 where
      st: "commit_step lab ord c sp cur m seen = Inr (L1, S1, W1, seen1)"
      and rest: "project_commits lab (Suc ord) cs (cur + int (length sp)) (m + int (length L1)) seen1 = Inr (L2, S2, W2, out)"
      and eq: "W = W1 @ W2"
      by (auto simp: cp split: sum.splits)
    from commit_step_ids [OF st] Cons.IH [OF rest] eq show ?thesis by auto
  qed
qed simp

lemma project_spans:
  "project_commits lab ord cs cur m seen = Inr (L, S, W, out) \<Longrightarrow>
   case lab of WithSpans _ \<Rightarrow> length S = length L | Plain _ \<Rightarrow> S = []"
proof (induction cs arbitrary: ord cur m seen L S W out)
  case (Cons cp cs)
  obtain c sp where cp: "cp = (c, sp)" by fastforce
  show ?case
  proof (cases "sp = []")
    case True
    with Cons.prems Cons.IH show ?thesis by (simp add: cp)
  next
    case False
    with Cons.prems obtain L1 S1 W1 seen1 L2 S2 W2 where
      st: "commit_step lab ord c sp cur m seen = Inr (L1, S1, W1, seen1)"
      and rest: "project_commits lab (Suc ord) cs (cur + int (length sp)) (m + int (length L1)) seen1 = Inr (L2, S2, W2, out)"
      and eq: "L = L1 @ L2" "S = S1 @ S2"
      by (auto simp: cp split: sum.splits)
    from commit_step_spans [OF st] Cons.IH [OF rest] eq show ?thesis by (auto split: labelizer.splits)
  qed
qed (simp split: labelizer.split)

lemma project_append:
  "project_commits lab ord (xs @ ys) cur m seen = Inr (L, S, W, out) \<Longrightarrow>
   \<exists>L1 S1 W1 mid L2 S2 W2.
     project_commits lab ord xs cur m seen = Inr (L1, S1, W1, mid) \<and>
     project_commits lab (ord + length xs) ys (cur + sum_list (map (\<lambda>x. int (length (snd x))) xs))
       (m + int (length L1)) mid = Inr (L2, S2, W2, out) \<and>
     L = L1 @ L2 \<and> S = S1 @ S2 \<and> W = W1 @ W2"
proof (induction xs arbitrary: ord cur m seen L S W out)
  case Nil
  then show ?case by simp
next
  case (Cons cp xs)
  obtain c sp where cp: "cp = (c, sp)" by fastforce
  show ?case
  proof (cases "sp = []")
    case True
    with Cons.prems Cons.IH [of "Suc ord" cur m seen L S W out] show ?thesis by (simp add: cp)
  next
    case False
    with Cons.prems obtain L1 S1 W1 seen1 L2 S2 W2 where
      st: "commit_step lab ord c sp cur m seen = Inr (L1, S1, W1, seen1)"
      and rest: "project_commits lab (Suc ord) (xs @ ys) (cur + int (length sp)) (m + int (length L1)) seen1 = Inr (L2, S2, W2, out)"
      and eq: "L = L1 @ L2" "S = S1 @ S2" "W = W1 @ W2"
      by (auto simp: cp split: sum.splits)
    from Cons.IH [OF rest] obtain A B C mid A' B' C' where ih:
      "project_commits lab (Suc ord) xs (cur + int (length sp)) (m + int (length L1)) seen1 = Inr (A, B, C, mid)"
      "project_commits lab (Suc ord + length xs) ys (cur + int (length sp) + sum_list (map (\<lambda>x. int (length (snd x))) xs))
         (m + int (length L1) + int (length A)) mid = Inr (A', B', C', out)"
      "L2 = A @ A'" "S2 = B @ B'" "W2 = C @ C'" by blast
    show ?thesis
      by (intro exI [of _ "L1 @ A"] exI [of _ "S1 @ B"] exI [of _ "W1 @ C"] exI [of _ mid] exI [of _ A'] exI [of _ B'] exI [of _ C'])
        (use st ih False eq in \<open>simp add: cp algebra_simps\<close>)
  qed
qed

section \<open>The incremental projection\<close>

lemma cover_suffix: "cover_error N c (xs @ ys) = None \<Longrightarrow> cover_error M c xs = None \<Longrightarrow> cover_error N M ys = None"
  by (induction xs arbitrary: c) (auto split: if_splits)

lemma cover_shift: "cover_error (N + n) (c + n) (map (shift_owner n) ws) = cover_error N c ws"
  by (induction N c ws rule: cover_error.induct) (auto simp: shift_owner_def)

lemma slice_suffix:
  "0 \<le> a \<Longrightarrow> slice (a + int (length xs)) (b + int (length xs)) (xs @ ys) = slice a b ys"
proof -
  assume "0 \<le> a"
  then have "nat (a + int (length xs)) = nat a + length xs"
    "nat (b + int (length xs)) - (nat a + length xs) = nat b - nat a" by arith+
  then show ?thesis by (simp add: slice_def)
qed

lemma shift_owner_normalized:
  "normalized_start (shift_owner n w) = normalized_start w" "normalized_end (shift_owner n w) = normalized_end w"
  by (simp_all add: shift_owner_def)

lemma provenance_iff:
  "provenance_error spans ws = None \<longleftrightarrow>
     (\<forall>w \<in> set ws. \<forall>x \<in> set (slice (label_start w) (label_end w) spans).
        normalized_start w \<le> fst x \<and> snd x \<le> normalized_end w)"
  unfolding provenance_error_def case_prod_beta by (simp add: not_less) (meson not_le)

lemma suffix_plan_ok:
  assumes full: "plan_ok \<lparr>label_ids = L1 @ L2, owner_spans = W1 @ map (shift_owner (int (length L1))) V2,
      plan_revision = r, plan_final = f, label_normalized_spans = S1 @ S2\<rparr>"
    and pre: "cover_error (int (length L1)) 0 W1 = None"
    and sp: "(length S1 = length L1 \<and> length S2 = length L2) \<or> (S1 = [] \<and> S2 = [])"
  shows "plan_ok \<lparr>label_ids = L2, owner_spans = V2, plan_revision = r, plan_final = f, label_normalized_spans = S2\<rparr>"
proof -
  let ?n = "int (length L1)"
  have cov: "cover_error (int (length L2)) 0 V2 = None"
  proof -
    have "cover_error (int (length (L1 @ L2))) ?n (map (shift_owner ?n) V2) = None"
      using cover_suffix [OF _ pre] plan_okD(3) [OF full] by (simp add: label_count_def)
    then show ?thesis using cover_shift [of "int (length L2)" ?n 0 V2] by (simp add: add.commute)
  qed
  have own: "\<forall>w \<in> set V2. owner_error w = None"
  proof
    fix w
    assume w: "w \<in> set V2"
    then have "owner_error (shift_owner ?n w) = None" using plan_okD(4) [OF full] by simp
    then show "owner_error w = None" by (rule owner_error_shift) (use cover_bounds [OF cov] w in simp)
  qed
  have prov: "label_spans_error 0 0 S2 = None \<and> provenance_error S2 V2 = None" if ne: "S2 \<noteq> []"
  proof -
    have S: "label_spans_error 0 0 (S1 @ S2) = None" "provenance_error (S1 @ S2) (W1 @ map (shift_owner ?n) V2) = None"
      and len: "length S1 = length L1"
      using plan_okD(5) [OF full] ne sp by auto
    have "slice (label_start (shift_owner ?n w)) (label_end (shift_owner ?n w)) (S1 @ S2) =
        slice (label_start w) (label_end w) S2" if "w \<in> set V2" for w
      using cover_bounds [OF cov] that slice_suffix [of "label_start w" S1 "label_end w" S2] len
      by (auto simp: shift_owner_def)
    then have "provenance_error S2 V2 = None"
      using S(2) shift_owner_normalized [of ?n] unfolding provenance_iff by (auto simp: ball_Un)
    then show ?thesis using S(1) by (auto simp: label_spans_error_iff sorted_append)
  qed
  have "\<not> (\<exists>l \<in> set L2. l < 0)" "\<not> r < 0" using plan_okD(1,2) [OF full] by force+
  with cov prov sp own show ?thesis
    by (auto simp: plan_ok_def plan_error_def split: option.split)
qed

text \<open>The cache of an adapter holds what the full projection of its commits gives.\<close>

definition adapter_ok :: "labelizer \<Rightarrow> int \<Rightarrow> plan_adapter \<Rightarrow> bool" where
  "adapter_ok lab base a \<longleftrightarrow>
     0 \<le> base \<and> length (cached_spoken_texts a) = length (cached_commits a) \<and>
     cached_normalized_length a = base + sum_list (map (\<lambda>s. int (length s)) (cached_spoken_texts a)) \<and>
     cached_normalized_origin a = base \<and>
     (\<exists>p r f. cached_plan a = Some p \<and> full_plan lab (cached_commits a) (cached_spoken_texts a) base r f = Inr p)"

lemma full_planD:
  assumes "full_plan lab cs sp base r f = Inr p"
  obtains L S W out where "project_commits lab 0 (zip cs sp) base 0 {} = Inr (L, S, W, out)"
    and "p = \<lparr>label_ids = L, owner_spans = W, plan_revision = r, plan_final = f, label_normalized_spans = S\<rparr>"
    and "plan_ok p"
  using assms make_plan_valid by (fastforce simp: full_plan_def split: sum.splits)

lemma sum_zip_length:
  "length cs = length sp \<Longrightarrow>
   sum_list (map (\<lambda>x. int (length (snd x))) (zip cs sp)) = sum_list (map (\<lambda>s. int (length s)) sp)"
  by (induction cs sp rule: list_induct2) auto

text \<open>
  C30. The incremental plan is the full one. An adapter whose cache holds a full projection is
  asked to extend it by further commits, with the cached plan as the previous one, and every
  commit carries an id of its own. Whenever rebuilding everything would succeed and keep the
  committed prefix, the incremental path returns exactly the rebuilt plan, without
  labelizing the old commits again, and leaves a cache with the same property behind.
\<close>

theorem incremental_plan_is_full_plan:
  assumes ok: "adapter_ok lab base a"
    and cs: "cs = cached_commits a @ cs2" and sp: "sp = cached_spoken_texts a @ sp2"
    and len: "length sp2 = length cs2"
    and ids: "\<forall>c \<in> set cs. 0 < tc_commit_id c \<or> 0 < tc_span_id c"
    and full: "full_plan lab cs sp base r f = Inr p"
    and rev: "last_revision a \<le> r"
    and com: "check_committed_prefix p (cached_plan a) n = None"
  shows "case plan_build lab cs (Some sp) base r f (cached_plan a) True n a of
           (a', res) \<Rightarrow> res = Inr p \<and> last_revision a' = r \<and> cached_plan a' = Some p \<and>
                       cached_commits a' = cs \<and> adapter_ok lab base a'"
proof -
  from ok obtain p1 r1 f1 where p1: "cached_plan a = Some p1"
    "full_plan lab (cached_commits a) (cached_spoken_texts a) base r1 f1 = Inr p1"
    and base: "0 \<le> base" "length (cached_spoken_texts a) = length (cached_commits a)"
    "cached_normalized_length a = base + sum_list (map (\<lambda>s. int (length s)) (cached_spoken_texts a))"
    "cached_normalized_origin a = base"
    by (auto simp: adapter_ok_def)
  from full obtain L S W out where
    pr: "project_commits lab 0 (zip cs sp) base 0 {} = Inr (L, S, W, out)"
    and p: "p = \<lparr>label_ids = L, owner_spans = W, plan_revision = r, plan_final = f, label_normalized_spans = S\<rparr>"
    and pok: "plan_ok p" by (rule full_planD)
  from p1(2) obtain L0 S0 W0 out0 where
    pr0: "project_commits lab 0 (zip (cached_commits a) (cached_spoken_texts a)) base 0 {} = Inr (L0, S0, W0, out0)"
    and p0: "p1 = \<lparr>label_ids = L0, owner_spans = W0, plan_revision = r1, plan_final = f1, label_normalized_spans = S0\<rparr>"
    and p1ok: "plan_ok p1" by (rule full_planD)
  let ?b = "cached_normalized_length a"
  have z: "zip cs sp = zip (cached_commits a) (cached_spoken_texts a) @ zip cs2 sp2"
    using base(2) by (simp add: cs sp)
  obtain L2 S2 W2 where
    pr2: "project_commits lab (length (zip (cached_commits a) (cached_spoken_texts a))) (zip cs2 sp2) ?b
        (0 + int (length L0)) out0 = Inr (L2, S2, W2, out)"
    and eq: "L = L0 @ L2" "S = S0 @ S2" "W = W0 @ W2"
    using project_append [OF pr [unfolded z]] pr0 base(2,3) sum_zip_length [of "cached_commits a" "cached_spoken_texts a"]
    by auto
  have "\<forall>(c, s) \<in> set (zip cs2 sp2). 0 < tc_commit_id c \<or> 0 < tc_span_id c"
    using ids by (auto simp: cs dest: set_zip_leftD)
  from project_shift [OF pr2, of "{}" 0] this obtain V2 o2 where
    v2: "project_commits lab 0 (zip cs2 sp2) ?b 0 {} = Inr (L2, S2, V2, o2)" "W2 = map (shift_owner (int (length L0))) V2"
    by auto
  have spans: "(length S0 = length L0 \<and> length S2 = length L2) \<or> (S0 = [] \<and> S2 = [])"
    using project_spans [OF pr0] project_spans [OF pr2] by (auto split: labelizer.splits)
  have cov0: "cover_error (int (length L0)) 0 W0 = None" using plan_okD(3) [OF p1ok] by (simp add: p0 label_count_def)
  let ?suf = "\<lparr>label_ids = L2, owner_spans = V2, plan_revision = r, plan_final = f, label_normalized_spans = S2\<rparr>"
  have "plan_ok ?suf"
    by (rule suffix_plan_ok [OF _ cov0 spans]) (use pok eq v2(2) in \<open>simp add: p\<close>)
  then have suf: "full_plan lab cs2 sp2 ?b r f = Inr ?suf"
    using v2(1) by (simp add: full_plan_def make_plan_ok)
  have "owner_id ` set W0 \<inter> owner_id ` set W2 = {}"
    using project_ids [OF pr0] project_ids [OF pr2] by blast
  moreover have "owner_id ` set W2 = owner_id ` set V2" by (auto simp: v2(2) shift_owner_def image_image)
  ultimately have disj: "set (map owner_id (owner_spans p1)) \<inter> set (map owner_id (owner_spans ?suf)) = {}"
    by (simp add: p0)
  have pl: "\<lparr>label_ids = label_ids p1 @ label_ids ?suf,
      owner_spans = owner_spans p1 @ map (shift_owner (int (length (label_ids p1)))) (owner_spans ?suf),
      plan_revision = r, plan_final = f,
      label_normalized_spans = label_normalized_spans p1 @ label_normalized_spans ?suf\<rparr> = p"
    by (simp add: p p0 eq v2(2))
  have nonneg: "0 \<le> ?b" using base(1,3) by (auto intro!: add_nonneg_nonneg sum_list_nonneg)
  have r: "0 \<le> r" using plan_okD(1) [OF pok] by (simp add: p)
  let ?a' = "cache_projection cs sp p base (a\<lparr>last_revision := r\<rparr>)"
  have "build_incremental lab cs sp r f (cached_plan a) True n a = (?a', Inr (Some p))"
    unfolding build_incremental_def Let_def p1(1) option.case
    using nonneg r base(2,4) suf disj pl make_plan_ok [OF pok] com [unfolded p1(1)] by (simp add: cs sp)
  then have "plan_build lab cs (Some sp) base r f (cached_plan a) True n a = (?a', Inr p)"
    using base(1,2) rev len by (simp add: plan_build_def effective_spoken_def cs sp)
  moreover have "adapter_ok lab base ?a'"
    using base(1,2) len full by (auto simp: adapter_ok_def cache_projection_def cs sp)
  ultimately show ?thesis by (simp add: cache_projection_def)
qed

lemma check_committed_prefixD:
  assumes "check_committed_prefix p prev n = None" and "prev = Some q" and "0 < n"
  shows "take (nat n) (label_ids p) = take (nat n) (label_ids q) \<and>
    take (nat n) (label_normalized_spans p) = take (nat n) (label_normalized_spans q) \<and>
    filter (\<lambda>w. label_start w < n) (owner_spans p) = filter (\<lambda>w. label_start w < n) (owner_spans q) \<and>
    n \<le> label_count p"
  using assms by (auto simp: check_committed_prefix_def label_count_def split: if_splits)

lemma incremental_result:
  assumes "build_incremental lab cs sp r f prev same n a = (a', Inr (Some p))"
  shows "check_committed_prefix p prev n = None \<and> plan_ok p \<and> plan_revision p = r \<and> last_revision a' = r"
  using assms
  by (auto simp: build_incremental_def Let_def cache_projection_def
      split: option.splits if_splits sum.splits dest!: make_plan_valid)

lemma incremental_fallback:
  assumes "build_incremental lab cs sp r f prev same n a = (a', res)" and "res = Inr None \<or> isl res"
  shows "a' = a"
  using assms by (auto simp: build_incremental_def Let_def split: option.splits if_splits sum.splits)

text \<open>
  A plan never rewrites what was committed. Whatever path a build takes, a plan that it
  returns agrees with the previous plan on the committed labels, their spans and the owners
  that start before the committed count; it carries the requested revision, and revisions
  never go backwards in one adapter.
\<close>

theorem build_keeps_committed_prefix:
  assumes "plan_build lab cs sp base r f prev same n a = (a', Inr p)"
  shows "plan_ok p \<and> plan_revision p = r \<and> last_revision a \<le> r \<and> last_revision a' = r \<and>
    (\<forall>q. prev = Some q \<longrightarrow> 0 < n \<longrightarrow>
       take (nat n) (label_ids p) = take (nat n) (label_ids q) \<and>
       take (nat n) (label_normalized_spans p) = take (nat n) (label_normalized_spans q) \<and>
       filter (\<lambda>w. label_start w < n) (owner_spans p) = filter (\<lambda>w. label_start w < n) (owner_spans q))"
proof -
  let ?sp = "effective_spoken cs sp"
  obtain a1 res where inc: "build_incremental lab cs ?sp r f prev same n a = (a1, res)" by fastforce
  have guards: "\<not> base < 0" "\<not> r < last_revision a"
    using assms by (auto simp: plan_build_def split: if_splits)
  have "check_committed_prefix p prev n = None \<and> plan_ok p \<and> plan_revision p = r \<and> last_revision a' = r"
  proof (cases "\<exists>q. res = Inr (Some q)")
    case True
    then obtain q where q: "res = Inr (Some q)" by blast
    then have "a' = a1" "p = q" using assms inc by (auto simp: plan_build_def Let_def split: if_splits)
    with incremental_result [OF inc [unfolded q]] show ?thesis by simp
  next
    case False
    then show ?thesis
      using assms inc
      by (auto simp: plan_build_def Let_def full_plan_def cache_projection_def
          split: if_splits option.splits sum.splits dest!: make_plan_valid)
  qed
  with check_committed_prefixD [of p prev n] guards show ?thesis by auto
qed

section \<open>Witnesses\<close>

text \<open>A labelizer with one label per character, and commits of one character each.\<close>

definition ex_labelizer :: labelizer where
  "ex_labelizer = WithSpans (\<lambda>s. Some (map int s, map (\<lambda>i. (int i, int i + 1)) [0 ..< length s]))"

definition ex_commit :: "int \<Rightarrow> int \<Rightarrow> pystr \<Rightarrow> text_commit" where
  "ex_commit k pos s = \<lparr>tc_commit_id = k, tc_span_id = 0, tc_raw_start = pos, tc_raw_end = pos + int (length s),
     tc_mapping = [], tc_raw_text = Some s, tc_span_kind = None, tc_tts_text = s\<rparr>"

definition ex_built :: "plan_adapter \<times> (py_error + cursor_label_plan)" where
  "ex_built = plan_build ex_labelizer [ex_commit 1 0 [97, 98]] None 0 0 False None False 0 new_adapter"

definition ex_p0 :: cursor_label_plan where
  "ex_p0 = (case snd ex_built of Inr p \<Rightarrow> p)"

definition ex_p1 :: cursor_label_plan where
  "ex_p1 = (case full_plan ex_labelizer [ex_commit 1 0 [97, 98], ex_commit 2 2 [99]] [[97, 98], [99]] 0 1 False of Inr p \<Rightarrow> p)"

lemma ex_adapter:
  "adapter_ok ex_labelizer 0 (fst ex_built) \<and> cached_plan (fst ex_built) = Some ex_p0 \<and>
   cached_commits (fst ex_built) = [ex_commit 1 0 [97, 98]] \<and> cached_spoken_texts (fst ex_built) = [[97, 98]] \<and>
   last_revision (fst ex_built) = 0"
proof -
  have f: "full_plan ex_labelizer [ex_commit 1 0 [97, 98]] [[97, 98]] 0 0 False = Inr ex_p0" by code_simp
  have "cached_plan (fst ex_built) = Some ex_p0" "cached_commits (fst ex_built) = [ex_commit 1 0 [97, 98]]"
    "cached_spoken_texts (fst ex_built) = [[97, 98]]" "last_revision (fst ex_built) = 0"
    "cached_normalized_length (fst ex_built) = 2" "cached_normalized_origin (fst ex_built) = 0"
    by code_simp+
  with f show ?thesis by (auto simp: adapter_ok_def)
qed

theorem incremental_plan_is_full_plan_witness:
  "snd (plan_build ex_labelizer [ex_commit 1 0 [97, 98], ex_commit 2 2 [99]] (Some [[97, 98], [99]]) 0 1 False
     (cached_plan (fst ex_built)) True 2 (fst ex_built)) = Inr ex_p1 \<and> label_ids ex_p1 = [97, 98, 99]"
proof -
  have full: "full_plan ex_labelizer [ex_commit 1 0 [97, 98], ex_commit 2 2 [99]] [[97, 98], [99]] 0 1 False = Inr ex_p1"
    by code_simp
  have com: "check_committed_prefix ex_p1 (Some ex_p0) 2 = None" by code_simp
  have "label_ids ex_p1 = [97, 98, 99]" by code_simp
  moreover have "case plan_build ex_labelizer [ex_commit 1 0 [97, 98], ex_commit 2 2 [99]] (Some [[97, 98], [99]]) 0 1 False
     (cached_plan (fst ex_built)) True 2 (fst ex_built) of
      (a', res) \<Rightarrow> res = Inr ex_p1 \<and> last_revision a' = 1 \<and> cached_plan a' = Some ex_p1 \<and>
        cached_commits a' = [ex_commit 1 0 [97, 98], ex_commit 2 2 [99]] \<and> adapter_ok ex_labelizer 0 a'"
    by (rule incremental_plan_is_full_plan [where ?cs2.0 = "[ex_commit 2 2 [99]]" and ?sp2.0 = "[[99]]"])
      (use ex_adapter full com in \<open>auto simp: ex_commit_def\<close>)
  ultimately show ?thesis by (simp add: case_prod_beta)
qed

theorem build_keeps_committed_prefix_witness:
  "plan_ok ex_p0 \<and> plan_revision ex_p0 = 0"
proof -
  have "snd ex_built = Inr ex_p0" by code_simp
  then have "plan_build ex_labelizer [ex_commit 1 0 [97, 98]] None 0 0 False None False 0 new_adapter = (fst ex_built, Inr ex_p0)"
    unfolding ex_built_def [symmetric] by (metis prod.collapse)
  from build_keeps_committed_prefix [OF this] show ?thesis by simp
qed

end
