(* ===== verification/Text_Coordinates.thy ===== *)
theory Text_Coordinates
  imports Text_Progress Text_Journal Cursor_Plan
begin

text \<open>
  The coordinates of \<open>engine/core/text_coordinates.py\<close>, which turn a token frontier of one segment
  into normalized and raw code point ranges, and \<open>_spoken_projection\<close> of
  \<open>engine/frontend/interface.py\<close>, which builds the final projection of a full text from its
  commits. Both rest on the journal: the first looks up raw positions in it, the second
  runs a temporary one and its result is what \<open>install_projection\<close> receives.
\<close>

section \<open>Token coordinates\<close>

record codec_token_progress =
  ct_segment_idx :: int
  ct_source_frame_start :: int
  ct_source_frame_end :: int
  ct_token_end :: int

definition make_codec_token_progress :: "codec_token_progress \<Rightarrow> (py_error, codec_token_progress) result" where
  "make_codec_token_progress e =
     (if list_ex (\<lambda>v. v < 0) [ct_segment_idx e, ct_source_frame_start e, ct_source_frame_end e, ct_token_end e]
      then Inl (ValueError ''codec/token coordinates must be nonnegative integers'')
      else if ct_source_frame_end e < ct_source_frame_start e then Inl (ValueError ''codec interval is reversed'')
      else Inr e)"

text \<open>The provenance of a token.\<close>

record token_span =
  ts_normalized_start :: int
  ts_normalized_end :: int
  ts_raw_start :: int
  ts_raw_end :: int

record segment_coordinates =
  co_spans :: "token_span list"
  co_journal :: "journal option"

definition make_coordinates :: "token_span list \<Rightarrow> journal option \<Rightarrow> (py_error, segment_coordinates) result" where
  "make_coordinates spans j =
     (if spans = [] then Inl (ValueError ''token provenance is required'')
      else Inr \<lparr>co_spans = spans, co_journal = j\<rparr>)"

fun token_end_at :: "token_span list \<Rightarrow> int \<Rightarrow> nat" where
  "token_end_at [] n = 0"
| "token_end_at (t # ts) n = (if n < ts_normalized_end t then 0 else Suc (token_end_at ts n))"

definition token_end_from_labels ::
  "segment_coordinates \<Rightarrow> pyfloat \<Rightarrow> (int \<times> int) list \<Rightarrow> (py_error, nat) result" where
  "token_end_from_labels co mu spans =
     (case mu of
        NonFin \<Rightarrow> Inl (ValueError ''cursor mu must be finite'')
      | Fin position \<Rightarrow>
          let completed = min (length spans) (nat (max 0 \<lfloor>position\<rfloor>))
          in if completed = 0 then Inr 0
             else Inr (token_end_at (co_spans co) (snd (spans ! (completed - 1)))))"

definition boundary :: "segment_coordinates \<Rightarrow> int \<Rightarrow> (py_error, int \<times> int) result" where
  "boundary co token_end =
     (if token_end < 0 \<or> int (length (co_spans co)) < token_end
      then Inl (ValueError ''token frontier exceeds segment provenance'')
      else
        let t = (if token_end \<noteq> 0 then co_spans co ! nat (token_end - 1) else co_spans co ! 0);
            normalized = (if token_end \<noteq> 0 then ts_normalized_end t else ts_normalized_start t)
        in case co_journal co of
             Some j \<Rightarrow> map_sum id (\<lambda>(l, r). (normalized, l)) (journal_raw_span normalized normalized j)
           | None \<Rightarrow> Inr (normalized, if token_end \<noteq> 0 then ts_raw_end t else ts_raw_start t))"

record projection =
  pt_segment_idx :: int
  pt_token_end :: int
  pt_normalized_end :: "int option"
  pt_raw_end :: "int option"
  pt_frame_end :: int

definition new_projection :: "int \<Rightarrow> projection" where
  "new_projection idx =
     \<lparr>pt_segment_idx = idx, pt_token_end = 0, pt_normalized_end = None, pt_raw_end = None, pt_frame_end = 0\<rparr>"

definition projection_project ::
  "codec_token_progress \<Rightarrow> segment_coordinates \<Rightarrow> projection \<Rightarrow> projection \<times> (py_error, meta) result" where
  "projection_project est co s =
     (if ct_segment_idx est \<noteq> pt_segment_idx s then (s, Inl (ValueError ''progress belongs to another segment''))
      else
        let token_end = max (pt_token_end s) (ct_token_end est) in
        case boundary co token_end of
          Inl e \<Rightarrow> (s, Inl e)
        | Inr (n, r) \<Rightarrow>
            (case boundary co 0 of
               Inl e \<Rightarrow> (s, Inl e)
             | Inr (base_n, base_r) \<Rightarrow>
                 let n0 = (case pt_normalized_end s of None \<Rightarrow> base_n | Some x \<Rightarrow> x);
                     r0 = (case pt_raw_end s of None \<Rightarrow> base_r | Some x \<Rightarrow> x);
                     n1 = max n0 n;
                     r1 = max r0 r;
                     f0 = max (pt_frame_end s) (ct_source_frame_start est);
                     f1 = max f0 (ct_source_frame_end est)
                 in (s\<lparr>pt_token_end := token_end, pt_normalized_end := Some n1, pt_raw_end := Some r1,
                       pt_frame_end := f1\<rparr>,
                     Inr [(''source_frame_start'', int_str f0),
                          (''source_frame_end'', int_str f1),
                          (''text_token_start'', int_str (pt_token_end s)),
                          (''text_token_end'', int_str token_end),
                          (''text_token_count'', int_str (int (length (co_spans co)))),
                          (''normalized_codepoint_start'', int_str n0),
                          (''normalized_codepoint_end'', int_str n1),
                          (''raw_codepoint_start'', int_str r0),
                          (''raw_codepoint_end'', int_str r1)])))"

section \<open>The projection of a full text\<close>

definition spoken_commit_step ::
  "pystr \<Rightarrow> text_commit \<Rightarrow> pystr \<times> int list \<times> int \<Rightarrow> pystr \<times> int list \<times> int" where
  "spoken_commit_step source c acc =
     (case acc of (spoken, bs, previous_raw_end) \<Rightarrow>
        let v = tc_tts_text c; n = int (length source) in
        if v = [] then acc
        else
          let rs0 = max 0 (min n (tc_raw_start c));
              re0 = max rs0 (min n (tc_raw_end c));
              rs = max previous_raw_end rs0;
              re = max rs re0;
              bs1 = (if bs = [] then [rs] else butlast bs @ [max (last bs) rs]);
              source_slice = take (nat re - nat rs) (drop (nat rs) source);
              bs2 = (if v = source_slice then bs1 @ [rs + 1 .. re]
                     else bs1 @ replicate (length v - 1) rs @ [re])
          in (spoken @ v, bs2, re))"

definition spoken_projection :: "pystr \<Rightarrow> text_commit list \<Rightarrow> (py_error, pystr \<times> int list) result" where
  "spoken_projection source commits =
     (case fold (spoken_commit_step source) commits ([], [], 0) of (spoken, bs, _) \<Rightarrow>
        if spoken = [] then Inr ([], [int (length source)])
        else case journal_append normalize_tts_text spoken (new_journal True) of
          (j1, Inl e) \<Rightarrow> Inl e
        | (j1, Inr _) \<Rightarrow>
            (case trim_normalized (journal_finish normalize_tts_text j1) of
               (j2, Inl e) \<Rightarrow> Inl e
             | (j2, Inr normalized) \<Rightarrow>
                 Inr (normalized,
                      map (\<lambda>b. bs ! nat (max 0 (min (int (length bs) - 1) b))) (normalized_to_raw j2))))"

section \<open>Published token ranges\<close>

definition meta_int :: "string \<Rightarrow> meta \<Rightarrow> int" where
  "meta_int k m = (case map_of m k of Some v \<Rightarrow> the (str_int v) | None \<Rightarrow> 0)"

fun projection_run ::
  "(codec_token_progress \<times> segment_coordinates) list \<Rightarrow> projection \<Rightarrow> meta list" where
  "projection_run [] s = []"
| "projection_run ((est, co) # xs) s =
     (case projection_project est co s of
        (s', Inl _) \<Rightarrow> projection_run xs s'
      | (s', Inr m) \<Rightarrow> m # projection_run xs s')"

abbreviation token_range_of :: "meta \<Rightarrow> int \<times> int" where
  "token_range_of m \<equiv> (meta_int ''text_token_start'' m, meta_int ''text_token_end'' m)"

abbreviation normalized_range_of :: "meta \<Rightarrow> int \<times> int" where
  "normalized_range_of m \<equiv> (meta_int ''normalized_codepoint_start'' m, meta_int ''normalized_codepoint_end'' m)"

abbreviation raw_range_of :: "meta \<Rightarrow> int \<times> int" where
  "raw_range_of m \<equiv> (meta_int ''raw_codepoint_start'' m, meta_int ''raw_codepoint_end'' m)"

abbreviation frame_range_of :: "meta \<Rightarrow> int \<times> int" where
  "frame_range_of m \<equiv> (meta_int ''source_frame_start'' m, meta_int ''source_frame_end'' m)"

text \<open>Ranges that do not overlap and never go back.\<close>

fun ascending :: "int \<Rightarrow> (int \<times> int) list \<Rightarrow> bool" where
  "ascending a [] = True"
| "ascending a ((l, r) # rs) \<longleftrightarrow> a \<le> l \<and> l \<le> r \<and> ascending r rs"

text \<open>Tiling from a start that the first range fixes.\<close>

definition tiles_from :: "int option \<Rightarrow> (int \<times> int) list \<Rightarrow> bool" where
  "tiles_from a rs \<longleftrightarrow> rs = [] \<or> tiles (case a of None \<Rightarrow> fst (hd rs) | Some x \<Rightarrow> x) rs"

lemma projection_project_Inr:
  assumes "projection_project est co s = (s', Inr m)"
  obtains n0 r0 t n1 r1 f0 f1 c where
    "s' = s\<lparr>pt_token_end := t, pt_normalized_end := Some n1, pt_raw_end := Some r1, pt_frame_end := f1\<rparr>"
    and "m = [(''source_frame_start'', int_str f0), (''source_frame_end'', int_str f1),
                 (''text_token_start'', int_str (pt_token_end s)), (''text_token_end'', int_str t),
                 (''text_token_count'', int_str c),
                 (''normalized_codepoint_start'', int_str n0), (''normalized_codepoint_end'', int_str n1),
                 (''raw_codepoint_start'', int_str r0), (''raw_codepoint_end'', int_str r1)]"
    and "pt_token_end s \<le> t" "n0 \<le> n1" "r0 \<le> r1" "pt_frame_end s \<le> f0" "f0 \<le> f1"
    and "\<forall>x. pt_normalized_end s = Some x \<longrightarrow> n0 = x" "\<forall>x. pt_raw_end s = Some x \<longrightarrow> r0 = x"
proof -
  obtain n r bn br where eq: "ct_segment_idx est = pt_segment_idx s"
    "boundary co (max (pt_token_end s) (ct_token_end est)) = Inr (n, r)" "boundary co 0 = Inr (bn, br)"
    using assms by (auto simp: projection_project_def Let_def split: if_splits sum.splits prod.splits)
  show ?thesis
    by (rule that, rule sym, insert assms eq) (auto simp: projection_project_def Let_def)
qed

lemma projection_project_result:
  assumes "projection_project est co s = (s', r)"
  shows "case r of
           Inl _ \<Rightarrow> s' = s
         | Inr m \<Rightarrow>
             token_range_of m = (pt_token_end s, pt_token_end s') \<and> pt_token_end s \<le> pt_token_end s' \<and>
             (\<exists>n0 r0. normalized_range_of m = (n0, the (pt_normalized_end s')) \<and> n0 \<le> the (pt_normalized_end s') \<and>
               raw_range_of m = (r0, the (pt_raw_end s')) \<and> r0 \<le> the (pt_raw_end s') \<and>
               (\<forall>x. pt_normalized_end s = Some x \<longrightarrow> n0 = x) \<and> (\<forall>x. pt_raw_end s = Some x \<longrightarrow> r0 = x)) \<and>
             pt_normalized_end s' \<noteq> None \<and> pt_raw_end s' \<noteq> None \<and>
             (\<exists>f0. frame_range_of m = (f0, pt_frame_end s') \<and> pt_frame_end s \<le> f0 \<and> f0 \<le> pt_frame_end s')"
proof (cases r)
  case (Inl e)
  with assms show ?thesis by (auto simp: projection_project_def Let_def split: if_splits sum.splits prod.splits)
next
  case (Inr m)
  obtain n0 r0 t n1 r1 f0 f1 c where
    s': "s' = s\<lparr>pt_token_end := t, pt_normalized_end := Some n1, pt_raw_end := Some r1, pt_frame_end := f1\<rparr>"
    and m: "m = [(''source_frame_start'', int_str f0), (''source_frame_end'', int_str f1),
                 (''text_token_start'', int_str (pt_token_end s)), (''text_token_end'', int_str t),
                 (''text_token_count'', int_str c),
                 (''normalized_codepoint_start'', int_str n0), (''normalized_codepoint_end'', int_str n1),
                 (''raw_codepoint_start'', int_str r0), (''raw_codepoint_end'', int_str r1)]"
    and le: "pt_token_end s \<le> t" "n0 \<le> n1" "r0 \<le> r1" "pt_frame_end s \<le> f0" "f0 \<le> f1"
    and starts: "\<forall>x. pt_normalized_end s = Some x \<longrightarrow> n0 = x" "\<forall>x. pt_raw_end s = Some x \<longrightarrow> r0 = x"
    by (rule projection_project_Inr [OF assms [unfolded Inr]])
  show ?thesis using le starts by (simp add: Inr s' m meta_int_def)
qed

lemma projection_run_ranges:
  "tiles (pt_token_end s) (map token_range_of (projection_run xs s)) \<and>
   tiles_from (pt_normalized_end s) (map normalized_range_of (projection_run xs s)) \<and>
   tiles_from (pt_raw_end s) (map raw_range_of (projection_run xs s)) \<and>
   ascending (pt_frame_end s) (map frame_range_of (projection_run xs s))"
proof (induction xs arbitrary: s)
  case (Cons x xs)
  obtain est co where x: "x = (est, co)" by fastforce
  obtain s' r where pr: "projection_project est co s = (s', r)" by fastforce
  note res = projection_project_result [OF pr]
  show ?case
  proof (cases r)
    case (Inl e)
    with res pr x Cons.IH [of s] show ?thesis by simp
  next
    case (Inr m)
    have run: "projection_run (x # xs) s = m # projection_run xs s'" using Inr pr x by simp
    from res Inr obtain n1 r1 where ends: "pt_normalized_end s' = Some n1" "pt_raw_end s' = Some r1" by auto
    with Cons.IH [of s'] have IH: "tiles n1 (map normalized_range_of (projection_run xs s'))"
      "tiles r1 (map raw_range_of (projection_run xs s'))"
      by (auto simp: tiles_from_def)
    show ?thesis
      unfolding run using res Inr IH ends Cons.IH [of s']
      by (auto simp: tiles_from_def split: option.splits)
  qed
qed (simp add: tiles_from_def)

text \<open>
  Progress stays gapless across estimators. Whatever token estimates and coordinates a
  segment's projection receives, also with refused ones in between, the integers that it writes
  into the wire metadata read back as token ranges that tile from zero, normalized and raw ranges
  that each start where the last one ended, and frame ranges that never go back.
\<close>

theorem projection_metadata_tiles:
  "let ms = projection_run xs (new_projection idx) in
   tiles 0 (map token_range_of ms) \<and> tiles_from None (map normalized_range_of ms) \<and>
   tiles_from None (map raw_range_of ms) \<and> ascending 0 (map frame_range_of ms)"
  using projection_run_ranges [of "new_projection idx" xs] by (simp add: new_projection_def Let_def)

lemma boundary_error:
  assumes "make_coordinates spans j = Inr co" and "\<forall>k. j = Some k \<longrightarrow> journal_ok k"
  shows "(\<exists>e. boundary co t = Inl e) \<longleftrightarrow> t < 0 \<or> int (length spans) < t"
proof -
  have co: "co_spans co = spans" "co_journal co = j"
    using assms(1) by (auto simp: make_coordinates_def split: if_splits)
  show ?thesis
  proof (cases "t < 0 \<or> int (length spans) < t")
    case True
    then show ?thesis by (auto simp: boundary_def co)
  next
    case False
    have "\<exists>v. boundary co t = Inr v"
    proof (cases j)
      case None
      with False show ?thesis by (auto simp: boundary_def co Let_def)
    next
      case (Some k)
      with assms(2) have ok: "journal_ok k" by simp
      have "\<exists>l r. journal_raw_span n n k = Inr (l, r)" for n using journal_raw_span_inside [OF ok] by blast
      then obtain f g where "\<And>n. journal_raw_span n n k = Inr (f n, g n)" by metis
      with False Some show ?thesis by (auto simp: boundary_def co Let_def)
    qed
    with False show ?thesis by auto
  qed
qed

text \<open>
  A projection fails for two reasons only. With coordinates that their constructor accepted
  and a journal with valid maps, a projection raises exactly when the estimate belongs to another
  segment or its token frontier exceeds the provenance, and then it changes nothing.
\<close>

theorem projection_fails_exactly:
  assumes "make_coordinates spans j = Inr co" and "\<forall>k. j = Some k \<longrightarrow> journal_ok k"
    and "make_codec_token_progress est = Inr est'"
  shows "(isl (snd (projection_project est' co s)) \<longleftrightarrow>
            ct_segment_idx est \<noteq> pt_segment_idx s \<or> int (length spans) < max (pt_token_end s) (ct_token_end est)) \<and>
         (isl (snd (projection_project est' co s)) \<longrightarrow> fst (projection_project est' co s) = s)"
proof (intro conjI impI)
  have est: "est' = est" "0 \<le> ct_token_end est"
    using assms(3) by (auto simp: make_codec_token_progress_def split: if_splits)
  define t where "t = max (pt_token_end s) (ct_token_end est)"
  have t: "\<not> t < 0" using est(2) by (simp add: t_def)
  have b: "(\<exists>e. boundary co t = Inl e) \<longleftrightarrow> int (length spans) < t" "\<not> (\<exists>e. boundary co 0 = Inl e)"
    using boundary_error [OF assms(1,2)] t by auto
  then obtain n0 r0 where b0: "boundary co 0 = Inr (n0, r0)" by (cases "boundary co 0") auto
  show "isl (snd (projection_project est' co s)) \<longleftrightarrow>
           ct_segment_idx est \<noteq> pt_segment_idx s \<or> int (length spans) < max (pt_token_end s) (ct_token_end est)"
    using b(1) b0 unfolding est projection_project_def Let_def t_def [symmetric]
    by (cases "boundary co t") auto
  assume "isl (snd (projection_project est' co s))"
  then show "fst (projection_project est' co s) = s"
    using projection_project_result [of est' co s] by (cases "projection_project est' co s") (auto split: sum.splits)
qed

section \<open>The final projection is always accepted\<close>

definition commits_ok :: "pystr \<Rightarrow> pystr \<times> int list \<times> int \<Rightarrow> bool" where
  "commits_ok source acc \<longleftrightarrow>
     (case acc of (spoken, bs, prev) \<Rightarrow>
        0 \<le> prev \<and> prev \<le> int (length source) \<and>
        (if spoken = [] then bs = [] \<and> prev = 0
         else map_ok (length source) (length spoken) bs \<and> last bs = prev))"

lemma map_ok_append:
  assumes "map_ok n m bs" and "last bs \<le> x" and "x \<le> int n"
  shows "map_ok n m (butlast bs @ [x])"
proof (cases bs rule: rev_cases)
  case Nil
  with assms(1) show ?thesis by (simp add: map_ok_def)
next
  case (snoc as a)
  with assms show ?thesis by (force simp: map_ok_def sorted_append)
qed

lemma map_ok_extend:
  assumes "map_ok n m (bs @ [x])" and "sorted (x # ys)" and "\<forall>y \<in> set ys. y \<le> int n"
  shows "map_ok n (m + length ys) (bs @ [x] @ ys)"
  using assms by (auto simp: map_ok_def sorted_append dest: order_trans)

lemma spoken_commit_step_ok:
  assumes "commits_ok source acc"
  shows "commits_ok source (spoken_commit_step source c acc)"
proof (cases "tc_tts_text c = []")
  case True
  with assms show ?thesis by (simp add: spoken_commit_step_def Let_def split: prod.splits)
next
  case False
  obtain spoken bs prev where acc: "acc = (spoken, bs, prev)" by (cases acc)
  define n where "n = int (length source)"
  define rs where "rs = max prev (max 0 (min n (tc_raw_start c)))"
  define re where "re = max rs (max (max 0 (min n (tc_raw_start c))) (min n (tc_raw_end c)))"
  define v where "v = tc_tts_text c"
  define bs0 where "bs0 = (if bs = [] then [] else butlast bs)"
  have prev: "0 \<le> prev" "prev \<le> n" using assms by (auto simp: commits_ok_def acc n_def)
  have r: "0 \<le> rs" "prev \<le> rs" "rs \<le> re" "re \<le> n" using prev by (auto simp: rs_def re_def n_def)
  have bs1: "(if bs = [] then [rs] else butlast bs @ [max (last bs) rs]) = bs0 @ [rs]"
    using assms r by (auto simp: commits_ok_def acc bs0_def split: if_splits)
  have ok1: "map_ok (length source) (length spoken) (bs0 @ [rs])"
  proof (cases "spoken = []")
    case True
    then show ?thesis using assms r by (simp add: commits_ok_def acc bs0_def map_ok_def n_def)
  next
    case ne: False
    then have "map_ok (length source) (length spoken) bs" "last bs = prev" "bs \<noteq> []"
      using assms by (auto simp: commits_ok_def acc map_ok_def)
    with map_ok_append [OF this(1), of rs] r show ?thesis by (simp add: bs0_def n_def)
  qed
  define ys where "ys = (if v = take (nat re - nat rs) (drop (nat rs) source) then [rs + 1 .. re]
                         else replicate (length v - 1) rs @ [re])"
  have "nat re - nat rs \<le> length source - nat rs" using r by (simp add: n_def)
  then have "length (take (nat re - nat rs) (drop (nat rs) source)) = nat re - nat rs" by simp
  then have len: "length ys = length v"
    using False r by (cases "v = take (nat re - nat rs) (drop (nat rs) source)")
      (auto simp: ys_def v_def nat_diff_distrib)
  have "sorted (rs # ys)" "\<forall>y \<in> set ys. y \<le> int (length source)"
    using r by (auto simp: ys_def n_def sorted_append)
  note ok2 = map_ok_extend [OF ok1 this]
  have "ys \<noteq> []" using len False by (auto simp: v_def)
  then have lst: "last ys = re" using r by (auto simp: ys_def upto_rec2)
  have "spoken_commit_step source c acc = (spoken @ v, bs0 @ [rs] @ ys, re)"
    unfolding spoken_commit_step_def acc Let_def prod.case n_def [symmetric] rs_def [symmetric]
      re_def [symmetric] bs1 v_def [symmetric] using False by (simp add: ys_def v_def)
  with ok2 len lst \<open>ys \<noteq> []\<close> r False show ?thesis by (simp add: commits_ok_def n_def v_def)
qed

interpretation cr: op_system "spoken_commit_step source" "commits_ok source" for source
  by unfold_locales (rule spoken_commit_step_ok)

lemma install_projection_accepts:
  assumes "map_ok (length raw) (length t) ms"
  shows "\<exists>j'. install_projection raw t (Some ms) j = (j', Inr ()) \<and>
     journal_ok j' \<and> normalized_text j' = t \<and> raw_text j' = raw \<and> input_final j'"
proof -
  have ms: "length ms = Suc (length t)" "sorted ms" "\<forall>b \<in> set ms. 0 \<le> b \<and> b \<le> int (length raw)" "ms \<noteq> []"
    using assms by (auto simp: map_ok_def)
  then have "\<not> hd ms < 0" "\<not> int (length raw) < last ms" by (auto simp: not_less)
  then have "install_projection raw t (Some ms) j =
      ((set_maps ms (j\<lparr>raw_text := raw, normalized_text := t\<rparr>))\<lparr>input_final := True\<rparr>, Inr ())"
    using ms sorted_zip_tl [of ms] by (simp add: install_projection_def)
  with assms show ?thesis by (simp add: journal_ok_def set_maps_def)
qed

lemma commits_fold_ok: "commits_ok source (fold (spoken_commit_step source) commits ([], [], 0))"
proof -
  have "commits_ok source acc \<Longrightarrow> commits_ok source (fold (spoken_commit_step source) cs acc)" for cs acc
    by (rule cr.run_inv)
  then show ?thesis by (simp add: commits_ok_def)
qed

text \<open>A map of the spoken text composed with the map of the commits.\<close>

lemma map_ok_compose:
  assumes "map_ok n m bs" and "map_ok m k ts"
  shows "map_ok n k (map (\<lambda>b. bs ! nat (max 0 (min (int (length bs) - 1) b))) ts)"
proof -
  have bs: "length bs = Suc m" "sorted bs" "\<forall>b \<in> set bs. 0 \<le> b \<and> b \<le> int n"
    and ts: "length ts = Suc k" "sorted ts" "\<forall>b \<in> set ts. 0 \<le> b \<and> b \<le> int m"
    using assms by (auto simp: map_ok_def)
  have idx: "bs ! nat (max 0 (min (int (length bs) - 1) b)) = bs ! nat b \<and> nat b < length bs" if "b \<in> set ts" for b
  proof -
    have "0 \<le> b" "b \<le> int (length bs) - 1" using ts(3) that bs(1) by auto
    then have "max 0 (min (int (length bs) - 1) b) = b" by simp
    then show ?thesis using \<open>0 \<le> b\<close> \<open>b \<le> int (length bs) - 1\<close> by simp
  qed
  have "sorted (map (\<lambda>b. bs ! nat b) ts)"
    unfolding sorted_map by (rule sorted_wrt_mono_rel [OF _ ts(2)])
      (use idx in \<open>auto intro!: sorted_nth_mono [OF bs(2)]\<close>)
  then have "map_ok n k (map (\<lambda>b. bs ! nat b) ts)" using ts(1) bs(3) idx by (auto simp: map_ok_def)
  moreover have "map (\<lambda>b. bs ! nat (max 0 (min (int (length bs) - 1) b))) ts = map (\<lambda>b. bs ! nat b) ts"
    using idx by simp
  ultimately show ?thesis by (simp only:)
qed

lemma visible_after_strip: "drop (leading_space True s) s = py_lstrip s"
  using py_lstrip_drop [of s] by (simp add: leading_space_def)

lemma py_lstrip_visible: "py_lstrip s \<noteq> [] \<Longrightarrow> list_ex (\<lambda>c. \<not> py_isspace c) (py_lstrip s)"
  unfolding py_lstrip_def by (metis hd_dropWhile hd_in_set list_ex_iff)

text \<open>The temporary journal neither raises nor loses its map.\<close>

lemma temporary_journal:
  "\<exists>j1 v j2 t. journal_append nrm spoken (new_journal True) = (j1, Inr v) \<and>
     trim_normalized (journal_finish nrm j1) = (j2, Inr t) \<and> map_ok (length spoken) (length t) (normalized_to_raw j2)"
proof -
  define p where "p = journal_project nrm (new_journal True) spoken"
  have app: "journal_append nrm spoken (new_journal True) =
      (set_maps (snd p) (new_journal True\<lparr>raw_text := spoken, normalized_text := fst p\<rparr>), Inr (fst p, 0))"
    unfolding journal_append_Inr Let_def by (simp add: new_journal_def p_def)
  define j1 where "j1 = set_maps (snd p) (new_journal True\<lparr>raw_text := spoken, normalized_text := fst p\<rparr>)"
  define k where "k = journal_finish nrm j1"
  have j1: "raw_text j1 = spoken" "strip_leading_whitespace j1"
    by (simp_all add: j1_def set_maps_def new_journal_def)
  have ok: "journal_ok k" unfolding k_def by (rule journal_finish_ok)
  have raw: "raw_text k = spoken" and norm: "\<exists>u. normalized_text k = py_lstrip u"
    unfolding k_def using j1 visible_after_strip
    by (auto simp: journal_finish_def Let_def project_def split: prod.split)
  show ?thesis
  proof (cases "normalized_text k = []")
    case True
    then have "trim_normalized k = (k, Inr [])" by (simp add: trim_normalized_def py_lstrip_def py_rstrip_def)
    with app ok raw True show ?thesis unfolding j1_def [symmetric] k_def [symmetric]
      by (auto simp: journal_ok_def k_def [symmetric])
  next
    case False
    with norm have "list_ex (\<lambda>c. \<not> py_isspace c) (normalized_text k)" using py_lstrip_visible by auto
    from trim_visible [OF ok this] obtain j2 where j2: "trim_normalized k = (j2, Inr (py_strip (normalized_text k)))"
      "journal_ok j2" "raw_text j2 = spoken" "normalized_text j2 = py_strip (normalized_text k)"
      using raw by auto
    with app show ?thesis unfolding j1_def [symmetric]
      by (auto simp: journal_ok_def k_def [symmetric])
  qed
qed

text \<open>
  The final projection of a full text is always installed. For any source and commits, also
  with stale or overlapping coordinates, building the projection raises nothing and the journal
  accepts the text and the boundary map it is given, so the finished journal is valid.
\<close>

theorem spoken_projection_installs:
  "\<exists>text ms j'. spoken_projection source commits = Inr (text, ms) \<and>
     install_projection source text (Some ms) j = (j', Inr ()) \<and>
     journal_ok j' \<and> normalized_text j' = text \<and> raw_text j' = source \<and> input_final j'"
proof -
  obtain spoken bs prev where f: "fold (spoken_commit_step source) commits ([], [], 0) = (spoken, bs, prev)"
    by (metis prod_cases3)
  note ok = commits_fold_ok [of source commits, unfolded f commits_ok_def, simplified]
  have install: "\<exists>j'. install_projection source t (Some ms) j = (j', Inr ()) \<and>
     journal_ok j' \<and> normalized_text j' = t \<and> raw_text j' = source \<and> input_final j'"
    if "map_ok (length source) (length t) ms" for t ms
    using install_projection_accepts [OF that] by blast
  show ?thesis
  proof (cases "spoken = []")
    case True
    then have "spoken_projection source commits = Inr ([], [int (length source)])"
      by (simp add: spoken_projection_def f)
    with install [of "[]" "[int (length source)]"] show ?thesis by (auto simp: map_ok_def)
  next
    case False
    with ok have bs: "map_ok (length source) (length spoken) bs" by simp
    from temporary_journal [of normalize_tts_text spoken] obtain j1 v j2 t where
      tj: "journal_append normalize_tts_text spoken (new_journal True) = (j1, Inr v)"
        "trim_normalized (journal_finish normalize_tts_text j1) = (j2, Inr t)"
        "map_ok (length spoken) (length t) (normalized_to_raw j2)" by blast
    have "spoken_projection source commits = Inr (t, map (\<lambda>b. bs ! nat (max 0 (min (int (length bs) - 1) b))) (normalized_to_raw j2))"
      using False by (simp add: spoken_projection_def f tj)
    with install [OF map_ok_compose [OF bs tj(3)]] show ?thesis by blast
  qed
qed

section \<open>Witnesses\<close>

definition ex_coordinates :: segment_coordinates where
  "ex_coordinates = \<lparr>co_spans = [\<lparr>ts_normalized_start = 0, ts_normalized_end = 2, ts_raw_start = 0, ts_raw_end = 3\<rparr>],
                     co_journal = Some ex_journal\<rparr>"

definition ex_estimate :: "int \<Rightarrow> codec_token_progress" where
  "ex_estimate t = \<lparr>ct_segment_idx = 0, ct_source_frame_start = 0, ct_source_frame_end = 4, ct_token_end = t\<rparr>"

theorem projection_fails_exactly_witness:
  "\<not> isl (snd (projection_project (ex_estimate 1) ex_coordinates (new_projection 0))) \<and>
   isl (snd (projection_project (ex_estimate 2) ex_coordinates (new_projection 0)))"
proof -
  have co: "make_coordinates (co_spans ex_coordinates) (Some ex_journal) = Inr ex_coordinates"
    by (simp add: make_coordinates_def ex_coordinates_def)
  have j: "\<forall>k. Some ex_journal = Some k \<longrightarrow> journal_ok k" using ex_journal_valid(1) by simp
  have e: "make_codec_token_progress (ex_estimate 1) = Inr (ex_estimate 1)"
    "make_codec_token_progress (ex_estimate 2) = Inr (ex_estimate 2)"
    by (simp_all add: make_codec_token_progress_def ex_estimate_def)
  show ?thesis
    using projection_fails_exactly [OF co j e(1), of "new_projection 0"]
      projection_fails_exactly [OF co j e(2), of "new_projection 0"]
    by (simp add: ex_estimate_def new_projection_def ex_coordinates_def)
qed

end
