(* ===== verification/Audio_Reorder.thy ===== *)
theory Audio_Reorder
  imports Native_Cursor "HOL-Library.AList" "HOL-Library.Product_Lexorder"
begin

text \<open>
  The reorder buffer of \<open>engine/frontend/spliter/reorder.py\<close>: segments of one session decode in
  parallel, and the buffer lets their audio out in text order. A segment is a pair of a group and
  a local index, compared lexicographically as Python compares tuples.

  The dictionaries are association lists with distinct keys, the set of finished segments is a
  list without duplicates. The buffer moves its chunks and never looks into them, so their type is
  a parameter. The clock is read with every operation: \<open>clock\<close> is its value then,
  and \<open>rnd\<close> the rounding of float arithmetic, as in the progress estimators.
\<close>

section \<open>The buffer\<close>

type_synonym segment_key = "int \<times> int"

record 'c reorder =
  next_group :: int
  next_local :: int
  buffers :: "(segment_key \<times> 'c list) list"
  done_segments :: "segment_key list"
  final_locals :: "(int \<times> int) list"
  stall_timeout_sec :: rat
  stall_started_at :: "rat option"
  stall_key :: "segment_key option"

definition new_reorder :: "float_arg \<Rightarrow> (py_error, 'c reorder) result" where
  "new_reorder timeout =
     (let err = Inl (ValueError ''stall_timeout_sec must be a finite nonnegative number'')
      in case timeout of
           BadFloat \<Rightarrow> err
         | FloatOf NonFin \<Rightarrow> err
         | FloatOf (Fin t) \<Rightarrow>
             if t < 0 then err
             else Inr \<lparr>next_group = 0, next_local = 0, buffers = [], done_segments = [], final_locals = [],
                       stall_timeout_sec = t, stall_started_at = None, stall_key = None\<rparr>)"

definition next_emit_segment :: "'c reorder \<Rightarrow> segment_key" where
  "next_emit_segment r = (next_group r, next_local r)"

definition buffered_chunks :: "'c reorder \<Rightarrow> nat" where
  "buffered_chunks r = sum_list (map (length \<circ> snd) (buffers r))"

definition stall_elapsed_ms :: "(rat \<Rightarrow> rat) \<Rightarrow> rat \<Rightarrow> 'c reorder \<Rightarrow> rat" where
  "stall_elapsed_ms rnd clock r =
     (case stall_started_at r of None \<Rightarrow> 0 | Some t \<Rightarrow> max 0 (rnd (rnd (clock - t) * 1000)))"

record reorder_pending =
  rp_next_emit :: segment_key
  rp_buffered_keys :: nat
  rp_buffered_chunks :: nat
  rp_stall_key :: "segment_key option"
  rp_stall_elapsed_ms :: rat
  rp_stall_timeout_ms :: rat

definition pending_state :: "(rat \<Rightarrow> rat) \<Rightarrow> rat \<Rightarrow> 'c reorder \<Rightarrow> reorder_pending" where
  "pending_state rnd clock r =
     \<lparr>rp_next_emit = next_emit_segment r, rp_buffered_keys = length (buffers r),
      rp_buffered_chunks = buffered_chunks r, rp_stall_key = stall_key r,
      rp_stall_elapsed_ms = stall_elapsed_ms rnd clock r,
      rp_stall_timeout_ms = rnd (stall_timeout_sec r * 1000)\<rparr>"

record reorder_stall =
  blocked_segment :: segment_key
  elapsed_sec :: rat
  rs_buffered_keys :: nat
  rs_buffered_chunks :: nat

definition check_stall :: "(rat \<Rightarrow> rat) \<Rightarrow> rat option \<Rightarrow> rat \<Rightarrow> 'c reorder \<Rightarrow> reorder_stall option" where
  "check_stall rnd now clock r =
     (case stall_started_at r of
        None \<Rightarrow> None
      | Some t \<Rightarrow>
          if stall_timeout_sec r \<le> 0 then None
          else
            let elapsed = max 0 (rnd ((case now of None \<Rightarrow> clock | Some x \<Rightarrow> x) - t))
            in if elapsed < stall_timeout_sec r then None
               else Some \<lparr>blocked_segment = (case stall_key r of Some k \<Rightarrow> k | None \<Rightarrow> next_emit_segment r),
                          elapsed_sec = elapsed, rs_buffered_keys = length (buffers r),
                          rs_buffered_chunks = buffered_chunks r\<rparr>)"

definition refresh_stall_clock :: "rat \<Rightarrow> 'c reorder \<Rightarrow> 'c reorder" where
  "refresh_stall_clock clock r =
     (let current = next_emit_segment r in
      if \<not> list_ex (\<lambda>(k, cs). current < k \<and> cs \<noteq> []) (buffers r)
      then r\<lparr>stall_started_at := None, stall_key := None\<rparr>
      else if stall_key r \<noteq> Some current \<or> stall_started_at r = None
      then r\<lparr>stall_key := Some current, stall_started_at := Some clock\<rparr>
      else r)"

text \<open>One round of the drain loop at a finished segment: the playhead moves past it.\<close>

definition pass_segment :: "'c reorder \<Rightarrow> 'c reorder" where
  "pass_segment r =
     (let key = next_emit_segment r;
          r1 = r\<lparr>buffers := AList.delete key (buffers r), done_segments := removeAll key (done_segments r)\<rparr>
      in case map_of (final_locals r) (next_group r) of
           Some f \<Rightarrow>
             if f \<le> next_local r
             then r1\<lparr>final_locals := AList.delete (next_group r) (final_locals r),
                     next_group := next_group r + 1, next_local := 0\<rparr>
             else r1\<lparr>next_local := next_local r + 1\<rparr>
         | None \<Rightarrow> r1\<lparr>next_local := next_local r + 1\<rparr>)"

lemma pass_segment_simps [simp]:
  "done_segments (pass_segment r) = removeAll (next_emit_segment r) (done_segments r)"
  "buffers (pass_segment r) = AList.delete (next_emit_segment r) (buffers r)"
  by (auto simp: pass_segment_def Let_def split: option.split)

type_synonym 'c drained = "(segment_key \<times> 'c list \<times> bool) list"

definition buffer_of :: "segment_key \<Rightarrow> 'c reorder \<Rightarrow> 'c list" where
  "buffer_of k r = (case map_of (buffers r) k of Some cs \<Rightarrow> cs | None \<Rightarrow> [])"

function drain_loop :: "'c reorder \<Rightarrow> 'c reorder \<times> 'c drained" where
  "drain_loop r =
     (let key = next_emit_segment r; chunks = buffer_of key r in
      if key \<in> set (done_segments r)
      then let (r', out) = drain_loop (pass_segment r) in (r', (key, chunks, True) # out)
      else if map_of (buffers r) key = None then (r, [])
      else (r\<lparr>buffers := AList.update key [] (buffers r)\<rparr>, if chunks \<noteq> [] then [(key, chunks, False)] else []))"
  by auto
termination
  by (relation "measure (length \<circ> done_segments)") (auto intro: length_removeAll_less)

declare drain_loop.simps [simp del]

definition try_drain_ex :: "rat \<Rightarrow> 'c reorder \<Rightarrow> 'c reorder \<times> 'c drained" where
  "try_drain_ex clock r = (let (r', out) = drain_loop r in (refresh_stall_clock clock r', out))"

definition drained_chunks :: "'c drained \<Rightarrow> 'c list" where
  "drained_chunks out = concat (map (fst \<circ> snd) out)"

definition reorder_push :: "rat \<Rightarrow> int \<Rightarrow> int \<Rightarrow> 'c \<Rightarrow> 'c reorder \<Rightarrow> 'c reorder \<times> 'c list" where
  "reorder_push clock group_idx local_idx audio r =
     (let key = (group_idx, local_idx);
          r1 = r\<lparr>buffers := AList.update key (buffer_of key r @ [audio]) (buffers r)\<rparr>
      in if key = next_emit_segment r
         then let (r2, out) = try_drain_ex clock r1 in (r2, drained_chunks out)
         else (refresh_stall_clock clock r1, []))"

definition mark_done_ex :: "rat \<Rightarrow> int \<Rightarrow> int \<Rightarrow> bool \<Rightarrow> 'c reorder \<Rightarrow> 'c reorder \<times> 'c drained" where
  "mark_done_ex clock group_idx local_idx group_final r =
     (let r1 = r\<lparr>done_segments := List.insert (group_idx, local_idx) (done_segments r)\<rparr>;
          r2 = (if group_final then r1\<lparr>final_locals := AList.update group_idx local_idx (final_locals r1)\<rparr> else r1)
      in try_drain_ex clock r2)"

definition mark_done :: "rat \<Rightarrow> int \<Rightarrow> int \<Rightarrow> bool \<Rightarrow> 'c reorder \<Rightarrow> 'c reorder \<times> 'c list" where
  "mark_done clock group_idx local_idx group_final r =
     (let (r', out) = mark_done_ex clock group_idx local_idx group_final r in (r', drained_chunks out))"

definition discard :: "rat \<Rightarrow> int \<Rightarrow> int \<Rightarrow> 'c reorder \<Rightarrow> 'c reorder \<times> nat" where
  "discard clock group_idx local_idx r =
     (let key = (group_idx, local_idx)
      in (refresh_stall_clock clock (r\<lparr>buffers := AList.delete key (buffers r)\<rparr>), length (buffer_of key r)))"

definition reorder_reset :: "'c reorder \<Rightarrow> 'c reorder" where
  "reorder_reset r =
     r\<lparr>next_group := 0, next_local := 0, buffers := [], done_segments := [], final_locals := [],
       stall_started_at := None, stall_key := None\<rparr>"

section \<open>Draining\<close>

text \<open>The drained chunks with the segment they belong to.\<close>

definition attributed :: "'c drained \<Rightarrow> (segment_key \<times> 'c) list" where
  "attributed out = concat (map (\<lambda>(k, cs, _). map (Pair k) cs) out)"

definition chunks_of :: "segment_key \<Rightarrow> (segment_key \<times> 'c) list \<Rightarrow> 'c list" where
  "chunks_of k es = map snd (filter (\<lambda>x. fst x = k) es)"

lemma attributed_simps [simp]:
  "attributed [] = []" "attributed ((k, cs, b) # out) = map (Pair k) cs @ attributed out"
  by (simp_all add: attributed_def)

lemma drained_chunks_attributed: "drained_chunks out = map snd (attributed out)"
  by (induction out) (auto simp: drained_chunks_def comp_def)

lemma chunks_of_append [simp]: "chunks_of k (xs @ ys) = chunks_of k xs @ chunks_of k ys"
  by (simp add: chunks_of_def)

lemma chunks_of_Nil [simp]: "chunks_of k [] = []"
  by (simp add: chunks_of_def)

lemma chunks_of_pairs [simp]: "chunks_of k (map (Pair k') cs) = (if k = k' then cs else [])"
  by (auto simp: chunks_of_def filter_map comp_def)

lemma chunks_of_none: "k \<notin> fst ` set es \<Longrightarrow> chunks_of k es = []"
  by (force simp: chunks_of_def filter_empty_conv)

lemma sorted_const: "sorted (map (\<lambda>x. n) cs)"
  by (induction cs) auto

lemma next_pass_segment: "next_emit_segment r < next_emit_segment (pass_segment r)"
  by (auto simp: pass_segment_def next_emit_segment_def Let_def less_prod_def split: option.split)

lemma buffer_of_delete: "buffer_of k (r\<lparr>buffers := AList.delete k' (buffers r)\<rparr>) = (if k = k' then [] else buffer_of k r)"
  by (simp add: buffer_of_def AList.delete_conv)

lemma buffer_of_update: "buffer_of k (r\<lparr>buffers := AList.update k' cs (buffers r)\<rparr>) = (if k = k' then cs else buffer_of k r)"
  by (simp add: buffer_of_def AList.update_conv)

lemma buffer_of_pass: "buffer_of k (pass_segment r) = (if k = next_emit_segment r then [] else buffer_of k r)"
  by (simp add: buffer_of_def AList.delete_conv)

lemma drain_loop_cases:
  obtains (pass) r' out where "next_emit_segment r \<in> set (done_segments r)" "drain_loop (pass_segment r) = (r', out)"
      "drain_loop r = (r', (next_emit_segment r, buffer_of (next_emit_segment r) r, True) # out)"
  | (stop) "next_emit_segment r \<notin> set (done_segments r)" "buffer_of (next_emit_segment r) r = []" "drain_loop r = (r, [])"
  | (emit) "next_emit_segment r \<notin> set (done_segments r)"
      "fst (drain_loop r) = r\<lparr>buffers := AList.update (next_emit_segment r) [] (buffers r)\<rparr>"
      "attributed (snd (drain_loop r)) = map (Pair (next_emit_segment r)) (buffer_of (next_emit_segment r) r)"
proof (cases "next_emit_segment r \<in> set (done_segments r)")
  case True
  obtain r' out where d: "drain_loop (pass_segment r) = (r', out)" by fastforce
  with True have "drain_loop r = (r', (next_emit_segment r, buffer_of (next_emit_segment r) r, True) # out)"
    by (subst drain_loop.simps) (simp add: Let_def)
  with True d show ?thesis by (rule pass)
next
  case False
  show ?thesis
  proof (cases "map_of (buffers r) (next_emit_segment r)")
    case None
    with False show ?thesis by (intro stop) (simp_all add: drain_loop.simps [of r] buffer_of_def Let_def)
  next
    case (Some cs)
    with False show ?thesis by (intro emit) (simp_all add: drain_loop.simps [of r] buffer_of_def Let_def)
  qed
qed

lemma drain_loop_order:
  assumes "drain_loop r = (r', out)"
  shows "next_emit_segment r \<le> next_emit_segment r' \<and> sorted (map fst (attributed out)) \<and>
         (\<forall>k \<in> fst ` set (attributed out). next_emit_segment r \<le> k \<and> k \<le> next_emit_segment r') \<and>
         next_emit_segment r' \<notin> set (done_segments r')"
  using assms
proof (induction r arbitrary: r' out rule: drain_loop.induct)
  case (1 r)
  show ?case
  proof (cases r rule: drain_loop_cases)
    case (pass r1 out1)
    define n where "n = next_emit_segment r"
    define m where "m = next_emit_segment (pass_segment r)"
    have IH: "m \<le> next_emit_segment r1" "sorted (map fst (attributed out1))"
      "\<forall>k \<in> fst ` set (attributed out1). m \<le> k \<and> k \<le> next_emit_segment r1"
      "next_emit_segment r1 \<notin> set (done_segments r1)"
      using 1(1) [OF refl refl pass(1,2)] by (auto simp: m_def)
    have nm: "n < m" unfolding n_def m_def by (rule next_pass_segment)
    have r': "r' = r1" "attributed out = map (Pair n) (buffer_of n r) @ attributed out1"
      using pass(3) 1(2) by (auto simp: n_def)
    have le: "n \<le> k" if "k \<in> fst ` set (attributed out1)" for k using IH(3) nm that by (meson less_imp_le order_trans)
    have n: "n \<le> next_emit_segment r1" using IH(1) nm by (meson less_imp_le order_trans)
    have "sorted (map fst (attributed out))" unfolding r'(2) using IH(2) le by (auto simp: sorted_append comp_def sorted_const)
    moreover have "\<forall>k \<in> fst ` set (attributed out). n \<le> k \<and> k \<le> next_emit_segment r1"
    proof
      fix k assume "k \<in> fst ` set (attributed out)"
      then have "k = n \<or> k \<in> fst ` set (attributed out1)" unfolding r'(2) by (auto simp: image_Un)
      then show "n \<le> k \<and> k \<le> next_emit_segment r1" using IH(3) le n by blast
    qed
    ultimately show ?thesis using IH(4) n unfolding r'(1) n_def [symmetric] by blast
  next
    case stop
    with 1(2) show ?thesis by simp
  next
    case emit
    have "r' = r\<lparr>buffers := AList.update (next_emit_segment r) [] (buffers r)\<rparr>"
      "attributed out = map (Pair (next_emit_segment r)) (buffer_of (next_emit_segment r) r)"
      using emit(2,3) 1(2) by auto
    with emit(1) show ?thesis by (auto simp: next_emit_segment_def comp_def sorted_const)
  qed
qed

lemma drain_loop_fifo:
  assumes "drain_loop r = (r', out)"
  shows "buffer_of k r = chunks_of k (attributed out) @ buffer_of k r'"
  using assms
proof (induction r arbitrary: r' out rule: drain_loop.induct)
  case (1 r)
  show ?case
  proof (cases r rule: drain_loop_cases)
    case (pass r1 out1)
    from 1(1) [OF refl refl pass(1,2)] pass(3) 1(2) show ?thesis
      by (auto simp: buffer_of_pass split: if_splits)
  next
    case stop
    with 1(2) show ?thesis by simp
  next
    case emit
    have "r' = r\<lparr>buffers := AList.update (next_emit_segment r) [] (buffers r)\<rparr>"
      "attributed out = map (Pair (next_emit_segment r)) (buffer_of (next_emit_segment r) r)"
      using emit(2,3) 1(2) by auto
    then show ?thesis by (auto simp: buffer_of_update)
  qed
qed

section \<open>Runs of the buffer\<close>

datatype 'c reorder_op =
    Push rat segment_key 'c
  | Done rat segment_key bool
  | Discard rat segment_key

fun reorder_step :: "'c reorder_op \<Rightarrow> 'c reorder \<Rightarrow> 'c reorder \<times> 'c list" where
  "reorder_step (Push t (g, l) c) r = reorder_push t g l c r"
| "reorder_step (Done t (g, l) fin) r = mark_done t g l fin r"
| "reorder_step (Discard t (g, l)) r = (fst (discard t g l r), [])"

fun reorder_outputs :: "'c reorder_op list \<Rightarrow> 'c reorder \<Rightarrow> 'c list" where
  "reorder_outputs [] r = []"
| "reorder_outputs (op # ops) r = (let (r', out) = reorder_step op r in out @ reorder_outputs ops r')"

text \<open>The state in which an operation drains, if it does, and what it then lets out.\<close>

fun reorder_prepare :: "'c reorder_op \<Rightarrow> 'c reorder \<Rightarrow> 'c reorder" where
  "reorder_prepare (Push t k c) r = r\<lparr>buffers := AList.update k (buffer_of k r @ [c]) (buffers r)\<rparr>"
| "reorder_prepare (Done t k fin) r =
     (let r1 = r\<lparr>done_segments := List.insert k (done_segments r)\<rparr>
      in if fin then r1\<lparr>final_locals := AList.update (fst k) (snd k) (final_locals r1)\<rparr> else r1)"
| "reorder_prepare (Discard t k) r = r\<lparr>buffers := AList.delete k (buffers r)\<rparr>"

fun reorder_drains :: "'c reorder_op \<Rightarrow> 'c reorder \<Rightarrow> bool" where
  "reorder_drains (Push t k c) r \<longleftrightarrow> k = next_emit_segment r"
| "reorder_drains (Done t k fin) r = True"
| "reorder_drains (Discard t k) r = False"

definition reorder_emits :: "'c reorder_op \<Rightarrow> 'c reorder \<Rightarrow> (segment_key \<times> 'c) list" where
  "reorder_emits op r = (if reorder_drains op r then attributed (snd (drain_loop (reorder_prepare op r))) else [])"

definition reorder_core :: "'c reorder_op \<Rightarrow> 'c reorder \<Rightarrow> 'c reorder" where
  "reorder_core op r =
     (if reorder_drains op r then fst (drain_loop (reorder_prepare op r)) else reorder_prepare op r)"

text \<open>Two states that agree but for the stall clock.\<close>

definition same_queue :: "'c reorder \<Rightarrow> 'c reorder \<Rightarrow> bool" where
  "same_queue r s \<longleftrightarrow>
     next_group r = next_group s \<and> next_local r = next_local s \<and> buffers r = buffers s \<and>
     done_segments r = done_segments s \<and> final_locals r = final_locals s"

lemma same_queue_refresh [simp]: "same_queue (refresh_stall_clock t r) r"
  by (simp add: same_queue_def refresh_stall_clock_def Let_def)

lemma same_queueD:
  assumes "same_queue r s"
  shows "next_emit_segment r = next_emit_segment s" "buffer_of k r = buffer_of k s"
    "done_segments r = done_segments s" "final_locals r = final_locals s" "next_group r = next_group s"
  using assms by (simp_all add: same_queue_def next_emit_segment_def buffer_of_def)

lemma reorder_step_core:
  "same_queue (fst (reorder_step op r)) (reorder_core op r) \<and> snd (reorder_step op r) = map snd (reorder_emits op r)"
proof (cases op)
  case (Push t k c)
  obtain g l where "k = (g, l)" by fastforce
  with Push show ?thesis
    by (auto simp: reorder_push_def try_drain_ex_def reorder_core_def reorder_emits_def Let_def
        drained_chunks_attributed split: prod.split)
next
  case (Done t k fin)
  obtain g l where "k = (g, l)" by fastforce
  with Done show ?thesis
    by (auto simp: mark_done_def mark_done_ex_def try_drain_ex_def reorder_core_def reorder_emits_def Let_def
        drained_chunks_attributed split: prod.split)
next
  case (Discard t k)
  obtain g l where "k = (g, l)" by fastforce
  with Discard show ?thesis by (simp add: discard_def reorder_core_def reorder_emits_def Let_def)
qed

fun reorder_log :: "'c reorder_op list \<Rightarrow> 'c reorder \<Rightarrow> (segment_key \<times> 'c) list" where
  "reorder_log [] r = []"
| "reorder_log (op # ops) r = reorder_emits op r @ reorder_log ops (fst (reorder_step op r))"

lemma reorder_outputs_log: "reorder_outputs ops r = map snd (reorder_log ops r)"
proof (induction ops arbitrary: r)
  case (Cons op ops)
  obtain r' out where st: "reorder_step op r = (r', out)" by fastforce
  with reorder_step_core [of op r] Cons.IH [of r'] show ?case by simp
qed simp

fun pushed_by :: "'c reorder_op \<Rightarrow> (segment_key \<times> 'c) list" where
  "pushed_by (Push t k c) = [(k, c)]"
| "pushed_by _ = []"

definition pushes :: "'c reorder_op list \<Rightarrow> (segment_key \<times> 'c) list" where
  "pushes ops = concat (map pushed_by ops)"

fun discards :: "segment_key \<Rightarrow> 'c reorder_op \<Rightarrow> bool" where
  "discards k (Discard t k') \<longleftrightarrow> k = k'"
| "discards k _ = False"

lemma prepare_next [simp]: "next_emit_segment (reorder_prepare op r) = next_emit_segment r"
  by (cases op) (simp_all add: next_emit_segment_def Let_def)

lemma prepare_buffer:
  "\<not> discards k op \<Longrightarrow> buffer_of k (reorder_prepare op r) = buffer_of k r @ chunks_of k (pushed_by op)"
proof (cases op)
  case (Push t k' c)
  then show ?thesis by (auto simp: buffer_of_update chunks_of_def)
next
  case (Done t k' fin)
  then show ?thesis by (simp add: buffer_of_def Let_def)
qed (auto simp: buffer_of_delete)

lemma reorder_core_effect:
  "next_emit_segment r \<le> next_emit_segment (reorder_core op r) \<and> sorted (map fst (reorder_emits op r)) \<and>
   (\<forall>k \<in> fst ` set (reorder_emits op r). next_emit_segment r \<le> k \<and> k \<le> next_emit_segment (reorder_core op r)) \<and>
   (\<not> discards k op \<longrightarrow>
    buffer_of k r @ chunks_of k (pushed_by op) = chunks_of k (reorder_emits op r) @ buffer_of k (reorder_core op r))"
proof (cases "reorder_drains op r")
  case True
  obtain r' out where d: "drain_loop (reorder_prepare op r) = (r', out)" by fastforce
  show ?thesis
    using drain_loop_order [OF d] drain_loop_fifo [OF d, of k] prepare_buffer [of k op r] True d
    by (simp add: reorder_core_def reorder_emits_def)
next
  case False
  then show ?thesis using prepare_buffer [of k op r] by (simp add: reorder_core_def reorder_emits_def)
qed

abbreviation reorder_exec :: "'c reorder_op \<Rightarrow> 'c reorder \<Rightarrow> 'c reorder" where
  "reorder_exec op r \<equiv> fst (reorder_step op r)"

lemma reorder_step_effect:
  shows "next_emit_segment r \<le> next_emit_segment (reorder_exec op r)" "sorted (map fst (reorder_emits op r))"
    "\<forall>k \<in> fst ` set (reorder_emits op r). next_emit_segment r \<le> k \<and> k \<le> next_emit_segment (reorder_exec op r)"
    "\<not> discards k op \<Longrightarrow>
      buffer_of k r @ chunks_of k (pushed_by op) = chunks_of k (reorder_emits op r) @ buffer_of k (reorder_exec op r)"
  using reorder_core_effect [of r op k] same_queueD [OF conjunct1 [OF reorder_step_core [of op r]]] by simp_all

lemma reorder_log_order:
  "sorted (map fst (reorder_log ops r)) \<and> (\<forall>k \<in> fst ` set (reorder_log ops r). next_emit_segment r \<le> k)"
proof (induction ops arbitrary: r)
  case (Cons op ops)
  define r' where "r' = fst (reorder_step op r)"
  note eff = reorder_step_effect [where r = r and op = op, folded r'_def]
  note IH = Cons.IH [of r']
  have "a \<le> b" if "a \<in> fst ` set (reorder_emits op r)" "b \<in> fst ` set (reorder_log ops r')" for a b
    using that eff(3) IH by (meson order_trans)
  then have "sorted (map fst (reorder_log (op # ops) r))"
    using eff(2) IH by (auto simp: sorted_append r'_def [symmetric])
  moreover have "next_emit_segment r \<le> k" if "k \<in> fst ` set (reorder_log ops r')" for k
    using that eff(1) IH by (meson order_trans)
  ultimately show ?case using eff(3) by (auto simp: r'_def [symmetric] image_Un)
qed simp

lemma reorder_log_fifo:
  "\<forall>op \<in> set ops. \<not> discards k op \<Longrightarrow>
   buffer_of k r @ chunks_of k (pushes ops) =
   chunks_of k (reorder_log ops r) @ buffer_of k (fold reorder_exec ops r)"
proof (induction ops arbitrary: r)
  case (Cons op ops)
  have "buffer_of k r @ chunks_of k (pushes (op # ops)) =
      (buffer_of k r @ chunks_of k (pushed_by op)) @ chunks_of k (pushes ops)"
    by (simp add: pushes_def)
  also have "\<dots> = chunks_of k (reorder_emits op r) @ buffer_of k (fst (reorder_step op r)) @ chunks_of k (pushes ops)"
    using reorder_step_effect(4) [of k op r] Cons.prems by simp
  also have "\<dots> = chunks_of k (reorder_emits op r) @ chunks_of k (reorder_log ops (fst (reorder_step op r))) @
      buffer_of k (fold reorder_exec ops (fst (reorder_step op r)))"
    using Cons.IH Cons.prems by simp
  finally show ?case by simp
qed (simp add: pushes_def)

text \<open>
  C18. Audio leaves in text order. Whatever pushes, completions and discards arrive, in any
  order, the chunks that the buffer returns are attributed to segments that never go back in the
  text, and the chunks of a segment that was not discarded are returned first in, first out:
  those returned followed by those still held are exactly those pushed.
\<close>

theorem audio_in_text_order:
  assumes "new_reorder timeout = Inr r"
  shows "reorder_outputs ops r = map snd (reorder_log ops r) \<and> sorted (map fst (reorder_log ops r)) \<and>
         (\<forall>k. list_all (\<lambda>op. \<not> discards k op) ops \<longrightarrow>
              chunks_of k (pushes ops) = chunks_of k (reorder_log ops r) @ buffer_of k (fold reorder_exec ops r))"
proof (intro conjI allI impI)
  fix k assume "list_all (\<lambda>op. \<not> discards k op) ops"
  moreover have "buffer_of k r = []"
    using assms by (auto simp: new_reorder_def buffer_of_def Let_def split: float_arg.splits pyfloat.splits if_splits)
  ultimately show "chunks_of k (pushes ops) = chunks_of k (reorder_log ops r) @ buffer_of k (fold reorder_exec ops r)"
    using reorder_log_fifo [of ops k r] by (simp add: list_all_iff)
qed (simp_all add: reorder_outputs_log reorder_log_order)

section \<open>Complete runs\<close>

text \<open>The segments of a text whose group \<open>g\<close> has \<open>sizes ! g\<close> segments, in text order.\<close>

definition text_keys :: "nat list \<Rightarrow> segment_key list" where
  "text_keys sizes = concat (map (\<lambda>g. map (\<lambda>l. (int g, int l)) [0 ..< sizes ! g]) [0 ..< length sizes])"

fun done_keys :: "'c reorder_op list \<Rightarrow> segment_key list" where
  "done_keys [] = []"
| "done_keys (Done t k fin # ops) = k # done_keys ops"
| "done_keys (op # ops) = done_keys ops"

text \<open>
  The operations of a complete run: they concern the segments of the text, a completion is
  flagged as the last of its group exactly for the last segment, nothing is pushed to a
  completed segment and nothing is discarded.
\<close>

fun run_ok :: "nat list \<Rightarrow> segment_key list \<Rightarrow> 'c reorder_op list \<Rightarrow> bool" where
  "run_ok sizes marked [] \<longleftrightarrow> True"
| "run_ok sizes marked (Push t k c # ops) \<longleftrightarrow>
     k \<in> set (text_keys sizes) \<and> k \<notin> set marked \<and> run_ok sizes marked ops"
| "run_ok sizes marked (Done t k fin # ops) \<longleftrightarrow>
     k \<in> set (text_keys sizes) \<and> k \<notin> set marked \<and> (fin \<longleftrightarrow> snd k + 1 = int (sizes ! nat (fst k))) \<and>
     run_ok sizes (k # marked) ops"
| "run_ok sizes marked (Discard t k # ops) \<longleftrightarrow> False"

lemma in_text_keys:
  "k \<in> set (text_keys sizes) \<longleftrightarrow>
     0 \<le> fst k \<and> fst k < int (length sizes) \<and> 0 \<le> snd k \<and> snd k < int (sizes ! nat (fst k))"
proof
  assume "k \<in> set (text_keys sizes)"
  then show "0 \<le> fst k \<and> fst k < int (length sizes) \<and> 0 \<le> snd k \<and> snd k < int (sizes ! nat (fst k))"
    by (auto simp: text_keys_def)
next
  have mem: "(int a, int b) \<in> set (text_keys sizes)" if "a < length sizes" "b < sizes ! a" for a b
    using that by (auto simp: text_keys_def intro!: bexI [of _ a])
  assume k: "0 \<le> fst k \<and> fst k < int (length sizes) \<and> 0 \<le> snd k \<and> snd k < int (sizes ! nat (fst k))"
  then have "(int (nat (fst k)), int (nat (snd k))) \<in> set (text_keys sizes)" by (intro mem) (auto simp: nat_less_iff)
  with k show "k \<in> set (text_keys sizes)" by simp
qed

definition schedule_ok :: "nat list \<Rightarrow> segment_key list \<Rightarrow> 'c reorder \<Rightarrow> bool" where
  "schedule_ok sizes marked r \<longleftrightarrow>
     set (done_segments r) = {k \<in> set marked. next_emit_segment r \<le> k} \<and>
     (\<forall>k \<in> set (text_keys sizes). k < next_emit_segment r \<longrightarrow> k \<in> set marked) \<and>
     (\<forall>g. map_of (final_locals r) g =
        (if next_group r \<le> g \<and> (g, int (sizes ! nat g) - 1) \<in> set marked then Some (int (sizes ! nat g) - 1) else None)) \<and>
     (next_emit_segment r \<in> set (text_keys sizes) \<or> next_emit_segment r = (int (length sizes), 0)) \<and>
     (\<forall>k. buffer_of k r \<noteq> [] \<longrightarrow> k \<in> set (text_keys sizes) \<and> next_emit_segment r \<le> k)"

lemma schedule_ok_same: "same_queue r s \<Longrightarrow> schedule_ok sizes marked r \<longleftrightarrow> schedule_ok sizes marked s"
  by (simp add: schedule_ok_def same_queueD)

text \<open>Passing a segment moves the playhead to the next segment of the text.\<close>

lemma pass_segment_next:
  assumes "schedule_ok sizes marked r" and "next_emit_segment r \<in> set marked"
    and "set marked \<subseteq> set (text_keys sizes)"
  shows "next_emit_segment (pass_segment r) =
           (if next_local r + 1 = int (sizes ! nat (next_group r)) then (next_group r + 1, 0)
            else (next_group r, next_local r + 1))"
    and "map_of (final_locals (pass_segment r)) g =
           (if next_local r + 1 = int (sizes ! nat (next_group r)) \<and> g = next_group r then None
            else map_of (final_locals r) g)"
proof -
  let ?g = "next_group r" and ?l = "next_local r"
  have fin: "map_of (final_locals r) ?g =
      (if (?g, int (sizes ! nat ?g) - 1) \<in> set marked then Some (int (sizes ! nat ?g) - 1) else None)"
    using assms(1) by (simp add: schedule_ok_def)
  have l: "?l < int (sizes ! nat ?g)" "(?g, ?l) \<in> set marked"
    using assms(2,3) by (auto simp: next_emit_segment_def in_text_keys)
  have "next_emit_segment (pass_segment r) =
           (if ?l + 1 = int (sizes ! nat ?g) then (?g + 1, 0) else (?g, ?l + 1)) \<and>
         map_of (final_locals (pass_segment r)) g =
           (if ?l + 1 = int (sizes ! nat ?g) \<and> g = ?g then None else map_of (final_locals r) g)"
  proof (cases "?l + 1 = int (sizes ! nat ?g)")
    case True
    then have "int (sizes ! nat ?g) - 1 = ?l" by simp
    with l(2) fin have "map_of (final_locals r) ?g = Some ?l" by simp
    with True show ?thesis by (simp add: pass_segment_def next_emit_segment_def AList.delete_conv Let_def)
  next
    case False
    then have "\<not> f \<le> ?l" if "map_of (final_locals r) ?g = Some f" for f
      using that fin l(1) by (auto split: if_splits)
    with False show ?thesis by (auto simp: pass_segment_def next_emit_segment_def Let_def split: option.split)
  qed
  then show "next_emit_segment (pass_segment r) =
           (if ?l + 1 = int (sizes ! nat ?g) then (?g + 1, 0) else (?g, ?l + 1))"
    and "map_of (final_locals (pass_segment r)) g =
           (if ?l + 1 = int (sizes ! nat ?g) \<and> g = ?g then None else map_of (final_locals r) g)"
    by blast+
qed

lemma pass_segment_successor:
  assumes "schedule_ok sizes marked r" and "next_emit_segment r \<in> set marked"
    and "set marked \<subseteq> set (text_keys sizes)" and "k \<in> set (text_keys sizes)"
  shows "next_emit_segment (pass_segment r) \<le> k \<longleftrightarrow> next_emit_segment r < k"
proof -
  obtain g l where k: "k = (g, l)" by fastforce
  have kk: "0 \<le> l" "l < int (sizes ! nat g)" using assms(4) by (auto simp: k in_text_keys)
  show ?thesis
    unfolding pass_segment_next(1) [OF assms(1-3)] using kk
    by (cases g "next_group r" rule: linorder_cases) (auto simp: k next_emit_segment_def less_eq_prod_def less_prod_def)
qed

lemma pass_segment_ok:
  assumes ok: "schedule_ok sizes marked r" and nx: "next_emit_segment r \<in> set (done_segments r)"
    and sub: "set marked \<subseteq> set (text_keys sizes)" and pos: "list_all (\<lambda>n. 0 < n) sizes"
  shows "schedule_ok sizes marked (pass_segment r)"
proof -
  have mk: "next_emit_segment r \<in> set marked" using ok nx by (auto simp: schedule_ok_def)
  note nxt = pass_segment_next [OF ok mk sub] and succ = pass_segment_successor [OF ok mk sub]
  let ?n = "next_emit_segment r" and ?m = "next_emit_segment (pass_segment r)"
  have in_keys: "?n \<in> set (text_keys sizes)" using mk sub by blast
  have d: "set (done_segments (pass_segment r)) = {k \<in> set marked. ?m \<le> k}"
  proof (intro set_eqI)
    fix k
    have "k \<in> set (done_segments (pass_segment r)) \<longleftrightarrow> k \<in> set marked \<and> ?n < k"
      using ok by (auto simp: schedule_ok_def)
    then show "k \<in> set (done_segments (pass_segment r)) \<longleftrightarrow> k \<in> {k \<in> set marked. ?m \<le> k}"
      using succ [of k] sub by blast
  qed
  have before: "\<forall>k \<in> set (text_keys sizes). k < ?m \<longrightarrow> k \<in> set marked"
  proof (intro ballI impI)
    fix k assume k: "k \<in> set (text_keys sizes)" "k < ?m"
    then have "\<not> ?n < k" using succ [OF k(1)] by auto
    then have "k = ?n \<or> k < ?n" by auto
    then show "k \<in> set marked" using ok mk k(1) by (auto simp: schedule_ok_def)
  qed
  have fin: "\<forall>g. map_of (final_locals (pass_segment r)) g =
      (if next_group (pass_segment r) \<le> g \<and> (g, int (sizes ! nat g) - 1) \<in> set marked
       then Some (int (sizes ! nat g) - 1) else None)"
  proof
    fix g
    have old: "map_of (final_locals r) g =
        (if next_group r \<le> g \<and> (g, int (sizes ! nat g) - 1) \<in> set marked then Some (int (sizes ! nat g) - 1) else None)"
      using ok by (simp add: schedule_ok_def)
    have "next_group (pass_segment r) = (if next_local r + 1 = int (sizes ! nat (next_group r)) then next_group r + 1 else next_group r)"
      using nxt(1) by (auto simp: next_emit_segment_def split: if_splits)
    then show "map_of (final_locals (pass_segment r)) g =
      (if next_group (pass_segment r) \<le> g \<and> (g, int (sizes ! nat g) - 1) \<in> set marked
       then Some (int (sizes ! nat g) - 1) else None)"
      unfolding nxt(2) old by auto
  qed
  have range: "?m \<in> set (text_keys sizes) \<or> ?m = (int (length sizes), 0)"
  proof -
    have b: "0 \<le> next_group r" "next_group r < int (length sizes)" "0 \<le> next_local r"
      "next_local r < int (sizes ! nat (next_group r))"
      using in_keys by (auto simp: next_emit_segment_def in_text_keys)
    have "0 < sizes ! nat (next_group r + 1)" if "next_group r + 1 < int (length sizes)"
      using pos that b(1) by (auto simp: list_all_length)
    then show ?thesis unfolding nxt(1) using b by (auto simp: in_text_keys)
  qed
  have buf: "\<forall>k. buffer_of k (pass_segment r) \<noteq> [] \<longrightarrow> k \<in> set (text_keys sizes) \<and> ?m \<le> k"
  proof (intro allI impI)
    fix k assume "buffer_of k (pass_segment r) \<noteq> []"
    then have "k \<noteq> ?n" "buffer_of k r \<noteq> []" by (auto simp: buffer_of_pass split: if_splits)
    moreover have "\<forall>k. buffer_of k r \<noteq> [] \<longrightarrow> k \<in> set (text_keys sizes) \<and> ?n \<le> k"
      using ok unfolding schedule_ok_def by blast
    ultimately have "k \<in> set (text_keys sizes)" "?n < k" by (metis, metis order_le_neq_trans)
    then show "k \<in> set (text_keys sizes) \<and> ?m \<le> k" using succ by blast
  qed
  show ?thesis unfolding schedule_ok_def using d before fin range buf by blast
qed

lemma drain_loop_schedule:
  assumes "drain_loop r = (r', out)" and "schedule_ok sizes marked r"
    and sub: "set marked \<subseteq> set (text_keys sizes)" and pos: "list_all (\<lambda>n. 0 < n) sizes"
  shows "schedule_ok sizes marked r'"
  using assms(1,2)
proof (induction r arbitrary: r' out rule: drain_loop.induct)
  case (1 r)
  show ?case
  proof (cases r rule: drain_loop_cases)
    case (pass r1 out1)
    from 1(1) [OF refl refl pass(1,2) pass_segment_ok [OF 1(3) pass(1) sub pos]] pass(3) 1(2)
    show ?thesis by simp
  next
    case stop
    with 1(2,3) show ?thesis by simp
  next
    case emit
    have "r' = r\<lparr>buffers := AList.update (next_emit_segment r) [] (buffers r)\<rparr>"
      using emit(2) 1(2) by auto
    moreover have "schedule_ok sizes marked (r\<lparr>buffers := AList.update (next_emit_segment r) [] (buffers r)\<rparr>)"
      using 1(3) unfolding schedule_ok_def buffer_of_update by (simp add: next_emit_segment_def)
    ultimately show ?thesis by simp
  qed
qed

lemma push_schedule:
  assumes "schedule_ok sizes marked r" and "k \<in> set (text_keys sizes)" and "k \<notin> set marked"
  shows "schedule_ok sizes marked (reorder_prepare (Push t k c) r)"
proof -
  have "next_emit_segment r \<le> k" using assms unfolding schedule_ok_def by (meson not_less)
  with assms(1,2) show ?thesis
    unfolding schedule_ok_def by (simp add: buffer_of_update) (simp add: next_emit_segment_def)
qed

lemma done_schedule:
  assumes "schedule_ok sizes marked r" and "k \<in> set (text_keys sizes)" and "k \<notin> set marked"
    and "fin \<longleftrightarrow> snd k + 1 = int (sizes ! nat (fst k))"
  shows "schedule_ok sizes (k # marked) (reorder_prepare (Done t k fin) r)"
proof -
  obtain g l where k: "k = (g, l)" by fastforce
  have le: "next_emit_segment r \<le> k" using assms(1-3) unfolding schedule_ok_def by (meson not_less)
  let ?p = "reorder_prepare (Done t k fin) r"
  have same: "next_emit_segment ?p = next_emit_segment r" "\<And>x. buffer_of x ?p = buffer_of x r" "next_group ?p = next_group r"
    by (simp_all add: Let_def next_emit_segment_def buffer_of_def)
  have d: "set (done_segments ?p) = {x \<in> set (k # marked). next_emit_segment r \<le> x}"
    using assms(1) le by (auto simp: schedule_ok_def Let_def)
  have "next_group r \<le> g" using le by (auto simp: k next_emit_segment_def less_eq_prod_def)
  then have f: "\<forall>x. map_of (final_locals ?p) x =
      (if next_group r \<le> x \<and> (x, int (sizes ! nat x) - 1) \<in> set (k # marked) then Some (int (sizes ! nat x) - 1) else None)"
    using assms(1,4) by (auto simp: schedule_ok_def Let_def k AList.update_conv)
  show ?thesis unfolding schedule_ok_def same d using assms(1) f unfolding schedule_ok_def by auto
qed

lemma run_schedule:
  assumes "run_ok sizes marked ops" and "schedule_ok sizes marked r" and "set marked \<subseteq> set (text_keys sizes)"
    and "list_all (\<lambda>n. 0 < n) sizes" and "next_emit_segment r \<notin> set (done_segments r)"
  shows "schedule_ok sizes (rev (done_keys ops) @ marked) (fold reorder_exec ops r) \<and>
         next_emit_segment (fold reorder_exec ops r) \<notin> set (done_segments (fold reorder_exec ops r))"
  using assms
proof (induction ops arbitrary: marked r)
  case (Cons op ops)
  define r' where "r' = reorder_exec op r"
  have sq: "same_queue r' (reorder_core op r)" unfolding r'_def using reorder_step_core by blast
  obtain d out where dr: "drain_loop (reorder_prepare op r) = (d, out)" by fastforce
  show ?case
  proof (cases op)
    case (Push t k c)
    have k: "k \<in> set (text_keys sizes)" "k \<notin> set marked" "run_ok sizes marked ops" using Cons.prems(1) Push by auto
    note pr = push_schedule [OF Cons.prems(2) k(1,2), of t c, folded Push]
    have "schedule_ok sizes marked (reorder_core op r) \<and>
        next_emit_segment (reorder_core op r) \<notin> set (done_segments (reorder_core op r))"
    proof (cases "reorder_drains op r")
      case True
      then show ?thesis using drain_loop_schedule [OF dr pr Cons.prems(3,4)] drain_loop_order [OF dr] dr
        by (simp add: reorder_core_def)
    next
      case False
      then show ?thesis using pr Cons.prems(5) Push by (simp add: reorder_core_def next_emit_segment_def)
    qed
    then have "schedule_ok sizes marked r'" "next_emit_segment r' \<notin> set (done_segments r')"
      using schedule_ok_same [OF sq] same_queueD [OF sq] by auto
    from Cons.IH [OF k(3) this(1) Cons.prems(3,4) this(2)] Push show ?thesis by (simp add: r'_def)
  next
    case (Done t k fin)
    have k: "k \<in> set (text_keys sizes)" "k \<notin> set marked" "fin \<longleftrightarrow> snd k + 1 = int (sizes ! nat (fst k))"
      "run_ok sizes (k # marked) ops" using Cons.prems(1) Done by auto
    have sub: "set (k # marked) \<subseteq> set (text_keys sizes)" using k(1) Cons.prems(3) by simp
    note pr = done_schedule [OF Cons.prems(2) k(1-3), of t, folded Done]
    have "schedule_ok sizes (k # marked) (reorder_core op r)"
      "next_emit_segment (reorder_core op r) \<notin> set (done_segments (reorder_core op r))"
      using drain_loop_schedule [OF dr pr sub Cons.prems(4)] drain_loop_order [OF dr] dr Done
      by (simp_all add: reorder_core_def)
    then have "schedule_ok sizes (k # marked) r'" "next_emit_segment r' \<notin> set (done_segments r')"
      using schedule_ok_same [OF sq] same_queueD [OF sq] by auto
    from Cons.IH [OF k(4) this(1) sub Cons.prems(4) this(2)] Done show ?thesis by (simp add: r'_def)
  next
    case (Discard t k)
    with Cons.prems(1) show ?thesis by simp
  qed
qed simp

text \<open>A list sorted by key is the concatenation of its groups.\<close>

lemma sorted_groups:
  fixes ks :: "segment_key list"
  assumes "sorted (map fst xs)" and "sorted_wrt (<) ks" and "fst ` set xs \<subseteq> set ks"
  shows "xs = concat (map (\<lambda>k. filter (\<lambda>x. fst x = k) xs) ks)"
  using assms
proof (induction ks arbitrary: xs)
  case (Cons k ks)
  define as where "as = takeWhile (\<lambda>x. fst x = k) xs"
  define bs where "bs = dropWhile (\<lambda>x. fst x = k) xs"
  have xs: "xs = as @ bs" by (simp add: as_def bs_def)
  have a: "\<forall>x \<in> set as. fst x = k" unfolding as_def by (auto dest: set_takeWhileD)
  have srt: "sorted (map fst bs)" using Cons.prems(1) unfolding xs by (simp add: sorted_append)
  have b: "fst x \<noteq> k" if "x \<in> set bs" for x
  proof (cases bs)
    case (Cons y ys)
    have y: "fst y \<noteq> k" using hd_dropWhile [of "\<lambda>x. fst x = k" xs] Cons by (simp add: bs_def [symmetric])
    have "fst y \<in> set (k # ks)" using Cons.prems(3) Cons xs by auto
    with y Cons.prems(2) have "k < fst y" by auto
    moreover have "fst y \<le> fst x" using srt that Cons by auto
    ultimately show ?thesis by auto
  qed (use that in simp)
  have fk: "filter (\<lambda>x. fst x = k) xs = as" using a b by (auto simp: xs filter_empty_conv)
  have rest: "filter (\<lambda>x. fst x = k') xs = filter (\<lambda>x. fst x = k') bs" if "k' \<in> set ks" for k'
    using that Cons.prems(2) a by (fastforce simp: xs filter_empty_conv)
  have "fst ` set bs \<subseteq> set ks"
  proof
    fix y assume "y \<in> fst ` set bs"
    then obtain x where x: "x \<in> set bs" "y = fst x" by blast
    then have "fst x \<in> set (k # ks)" using Cons.prems(3) xs by (metis Un_iff image_eqI set_append subsetD)
    with b x show "y \<in> set ks" by auto
  qed
  then have "bs = concat (map (\<lambda>k. filter (\<lambda>x. fst x = k) bs) ks)"
    using Cons.IH [OF srt] Cons.prems(2) by simp
  also have "\<dots> = concat (map (\<lambda>k. filter (\<lambda>x. fst x = k) xs) ks)"
    using rest by (metis (no_types, lifting) map_eq_conv)
  finally show ?case using fk xs by simp
qed simp

lemma text_keys_sorted: "sorted_wrt (<) (text_keys sizes)"
proof -
  let ?f = "\<lambda>g. map (\<lambda>l. (int g, int l)) [0 ..< sizes ! g]"
  have "sorted_wrt (<) (concat (map ?f [0 ..< n]))" for n
  proof (induction n)
    case (Suc n)
    have "sorted_wrt (<) (?f n)" unfolding sorted_wrt_map
      by (rule sorted_wrt_mono_rel [OF _ sorted_wrt_upt]) (simp add: less_prod_def)
    moreover have "x < y" if "x \<in> set (concat (map ?f [0 ..< n]))" "y \<in> set (?f n)" for x y
      using that by (auto simp: less_prod_def)
    ultimately show ?case using Suc by (simp add: sorted_wrt_append)
  qed simp
  then show ?thesis unfolding text_keys_def .
qed

lemma new_reorder_schedule:
  assumes "new_reorder timeout = Inr r" and "list_all (\<lambda>n. 0 < n) sizes"
  shows "schedule_ok sizes [] r" "next_emit_segment r \<notin> set (done_segments r)" "\<And>k. buffer_of k r = []"
proof -
  have r: "next_emit_segment r = (0, 0)" "done_segments r = []" "final_locals r = []" "\<And>k. buffer_of k r = []"
    using assms(1) by (auto simp: new_reorder_def next_emit_segment_def buffer_of_def Let_def
        split: float_arg.splits pyfloat.splits if_splits)
  have "(0, 0) \<in> set (text_keys sizes) \<or> (0, 0) = (int (length sizes), 0 :: int)"
    using assms(2) by (cases sizes) (auto simp: in_text_keys)
  moreover have "\<not> k < (0, 0)" if "k \<in> set (text_keys sizes)" for k
    using that by (auto simp: in_text_keys less_prod_def)
  ultimately show "schedule_ok sizes [] r" using r by (auto simp: schedule_ok_def)
  show "next_emit_segment r \<notin> set (done_segments r)" "\<And>k. buffer_of k r = []" using r by auto
qed

lemma complete_run_in_order:
  assumes "new_reorder timeout = Inr r" and "list_all (\<lambda>n. 0 < n) sizes"
    and "run_ok sizes [] ops" and "set (done_keys ops) = set (text_keys sizes)"
  shows "reorder_outputs ops r = concat (map (\<lambda>k. chunks_of k (pushes ops)) (text_keys sizes)) \<and>
         next_emit_segment (fold reorder_exec ops r) = (int (length sizes), 0)"
proof -
  let ?e = "fold reorder_exec ops r" and ?ks = "text_keys sizes"
  note new = new_reorder_schedule [OF assms(1,2)]
  have fin: "schedule_ok sizes (rev (done_keys ops) @ []) ?e" "next_emit_segment ?e \<notin> set (done_segments ?e)"
    using run_schedule [OF assms(3) new(1) _ assms(2) new(2)] by auto
  then have nx: "next_emit_segment ?e = (int (length sizes), 0)"
    using assms(4) by (auto simp: schedule_ok_def)
  have empty: "buffer_of k ?e = []" for k
  proof (rule ccontr)
    assume "buffer_of k ?e \<noteq> []"
    then have "k \<in> set ?ks" "(int (length sizes), 0) \<le> k"
      using fin(1) nx unfolding schedule_ok_def by metis+
    then show False by (auto simp: in_text_keys less_eq_prod_def)
  qed
  have nodisc: "\<forall>op \<in> set os. \<not> discards k op" if "run_ok sizes m os" for k m os
    using that by (induction sizes m os rule: run_ok.induct) auto
  have fifo: "chunks_of k (pushes ops) = chunks_of k (reorder_log ops r)" for k
    using reorder_log_fifo [OF nodisc [OF assms(3)], of k r] empty new(3) by simp
  have pk: "fst ` set (pushes os) \<subseteq> set ?ks" if "run_ok sizes m os" for m os
    using that by (induction sizes m os rule: run_ok.induct) (auto simp: pushes_def)
  have "fst x \<in> set ?ks" if "x \<in> set (reorder_log ops r)" for x
  proof (rule ccontr)
    assume "fst x \<notin> set ?ks"
    then have "chunks_of (fst x) (pushes ops) = []" using pk [OF assms(3)] by (intro chunks_of_none) blast
    then have "chunks_of (fst x) (reorder_log ops r) = []" using fifo by simp
    then have "\<forall>y \<in> set (reorder_log ops r). fst y \<noteq> fst x" by (simp add: chunks_of_def filter_empty_conv)
    then have "fst x \<noteq> fst x" using that by (rule bspec)
    then show False by (rule notE) (rule refl)
  qed
  then have "reorder_log ops r = concat (map (\<lambda>k. filter (\<lambda>x. fst x = k) (reorder_log ops r)) ?ks)"
    using reorder_log_order [of ops r] text_keys_sorted by (intro sorted_groups) auto
  from arg_cong [OF this, of "map snd"]
  have "map snd (reorder_log ops r) = concat (map (\<lambda>k. chunks_of k (reorder_log ops r)) ?ks)"
    unfolding chunks_of_def map_concat map_map comp_def .
  with fifo nx show ?thesis by (simp add: reorder_outputs_log)
qed

text \<open>
  C12. Reordering is invisible in the result. When the segments of a text decode in parallel and
  their chunks and completions arrive in any interleaving, as long as each segment's chunks come
  before its completion and every segment completes, the buffer has returned the chunks of all
  segments in text order when the last completion has been handled, with nothing left behind.
\<close>

theorem reorder_complete:
  assumes "new_reorder timeout = Inr r" and "list_all (\<lambda>n. 0 < n) sizes"
    and "run_ok sizes [] ops" and "set (done_keys ops) = set (text_keys sizes)"
  shows "reorder_outputs ops r = concat (map (\<lambda>k. chunks_of k (pushes ops)) (text_keys sizes)) \<and>
         next_emit_segment (fold reorder_exec ops r) = (int (length sizes), 0)"
  using assms by (rule complete_run_in_order)

section \<open>Witnesses\<close>

text \<open>Two groups, of two segments and of one; the second group is finished first.\<close>

definition ex_interleaved :: "byte list reorder_op list" where
  "ex_interleaved = [Push 0 (1, 0) [3], Push 0 (0, 1) [2], Done 1 (1, 0) True, Push 1 (0, 0) [1],
                     Done 2 (0, 1) True, Push 2 (0, 0) [4], Done 3 (0, 0) False]"

definition ex_reorder :: "byte list reorder" where
  "ex_reorder = \<lparr>next_group = 0, next_local = 0, buffers = [], done_segments = [], final_locals = [],
                 stall_timeout_sec = 10, stall_started_at = None, stall_key = None\<rparr>"

lemma ex_reorder_new: "new_reorder (FloatOf (Fin 10)) = Inr ex_reorder"
  by (simp add: new_reorder_def ex_reorder_def)

theorem reorder_complete_witness:
  "reorder_outputs ex_interleaved ex_reorder = [[1], [4], [2], [3]] \<and>
   text_keys [2, 1] = [(0, 0), (0, 1), (1, 0)]"
proof -
  have "list_all (\<lambda>n. 0 < n) [2, 1 :: nat]" "run_ok [2, 1] [] ex_interleaved"
    "set (done_keys ex_interleaved) = set (text_keys [2, 1])"
    "concat (map (\<lambda>k. chunks_of k (pushes ex_interleaved)) (text_keys [2, 1])) = [[1], [4], [2], [3]]"
    "text_keys [2, 1] = [(0, 0), (0, 1), (1, 0)]"
    by code_simp+
  with reorder_complete [OF ex_reorder_new] show ?thesis by metis
qed

theorem audio_in_text_order_witness:
  "sorted (map fst (reorder_log ex_interleaved ex_reorder)) \<and>
   chunks_of (0, 1) (pushes ex_interleaved) =
   chunks_of (0, 1) (reorder_log ex_interleaved ex_reorder) @ buffer_of (0, 1) (fold reorder_exec ex_interleaved ex_reorder)"
proof -
  have "list_all (\<lambda>op. \<not> discards (0, 1) op) ex_interleaved" by code_simp
  with audio_in_text_order [OF ex_reorder_new, of ex_interleaved] show ?thesis by blast
qed

section \<open>The coordinates of a segment\<close>

record order_meta =
  group_idx :: int
  local_idx :: int
  group_final :: bool

end
