(* ===== verification/Guarded_Delivery.thy ===== *)
theory Guarded_Delivery
  imports Audio_Reorder "HOL-Library.Multiset"
begin

text \<open>
  The two buffers between the reorder stage and the client, and the estimator one of them asks:
  \<open>DeliveryHoldWindow\<close> and \<open>PrefixGateGuardBypass\<close> of \<open>engine/frontend/hold_window.py\<close>,
  \<open>SemanticStartGate\<close> of \<open>engine/frontend/text_commitment/start_gate.py\<close> and
  \<open>AudioCreditEstimator\<close> of \<open>engine/frontend/text_commitment/throughput.py\<close>.

  A chunk is the \<open>AttributedAudioChunk\<close> of \<open>engine/core/types.py\<close>, PCM bytes with the segment
  and the source frames they come from. The clock is an argument of the operations that read it,
  and \<open>rnd\<close> the rounding of float arithmetic.
\<close>

section \<open>Chunks\<close>

record attributed_chunk =
  pcm_bytes :: "byte list"
  progress_event :: "pyobj option"
  chunk_segment :: int
  source_frame_start :: int
  source_frame_end :: int

definition chunk_len :: "attributed_chunk \<Rightarrow> int" where
  "chunk_len c = int (length (pcm_bytes c))"

definition bytes_in :: "attributed_chunk list \<Rightarrow> int" where
  "bytes_in cs = sum_list (map chunk_len cs)"

abbreviation audible :: "attributed_chunk \<Rightarrow> bool" where
  "audible c \<equiv> pcm_bytes c \<noteq> []"

lemma bytes_in_simps [simp]:
  "bytes_in [] = 0" "bytes_in (c # cs) = chunk_len c + bytes_in cs" "bytes_in (xs @ ys) = bytes_in xs + bytes_in ys"
  by (simp_all add: bytes_in_def)

lemma bytes_in_rev [simp]: "bytes_in (rev cs) = bytes_in cs"
  by (induction cs) auto

lemma chunk_len_nonneg [simp]: "0 \<le> chunk_len c"
  by (simp add: chunk_len_def)

lemma bytes_in_nonneg [simp]: "0 \<le> bytes_in cs"
  by (induction cs) auto

lemma audible_pos: "audible c \<Longrightarrow> 0 < chunk_len c"
  by (simp add: chunk_len_def)

section \<open>The prefix gate bypass\<close>

record prefix_bypass =
  waiting_for_first_effective :: bool
  bypassed_audio_bytes :: int
  bypassed_chunks :: int
  first_effective_audio_bytes :: int

definition new_bypass :: prefix_bypass where
  "new_bypass = \<lparr>waiting_for_first_effective = True, bypassed_audio_bytes = 0, bypassed_chunks = 0,
                 first_effective_audio_bytes = 0\<rparr>"

abbreviation should_bypass :: "prefix_bypass \<Rightarrow> bool" where
  "should_bypass b \<equiv> waiting_for_first_effective b"

definition record_bypass :: "int \<Rightarrow> prefix_bypass \<Rightarrow> prefix_bypass" where
  "record_bypass audio_bytes b =
     (if \<not> waiting_for_first_effective b \<or> audio_bytes \<le> 0 then b
      else b\<lparr>bypassed_chunks := bypassed_chunks b + 1,
             bypassed_audio_bytes := bypassed_audio_bytes b + audio_bytes\<rparr>)"

definition mark_first_effective :: "int \<Rightarrow> prefix_bypass \<Rightarrow> prefix_bypass" where
  "mark_first_effective audio_bytes b =
     b\<lparr>first_effective_audio_bytes := max 0 audio_bytes, waiting_for_first_effective := False\<rparr>"

section \<open>The hold window\<close>

record hold_window =
  window_sec :: rat
  hw_bytes_per_sec :: rat
  clock_start :: "rat option"
  released_bytes :: int
  held :: "attributed_chunk list"
  held_bytes :: int

definition new_hold :: "rat \<Rightarrow> rat \<Rightarrow> hold_window" where
  "new_hold w bps = \<lparr>window_sec = w, hw_bytes_per_sec = bps, clock_start = None, released_bytes = 0,
                     held = [], held_bytes = 0\<rparr>"

definition hw_push :: "attributed_chunk list \<Rightarrow> hold_window \<Rightarrow> hold_window" where
  "hw_push chunks h =
     fold (\<lambda>c h. if audible c then h\<lparr>held := held h @ [c], held_bytes := held_bytes h + chunk_len c\<rparr> else h)
       chunks h"

definition record_external_release :: "rat \<Rightarrow> int \<Rightarrow> hold_window \<Rightarrow> hold_window" where
  "record_external_release now audio_bytes h =
     (let n = max 0 audio_bytes
      in if n \<le> 0 then h
         else h\<lparr>clock_start := (case clock_start h of None \<Rightarrow> Some now | Some t \<Rightarrow> Some t),
                released_bytes := released_bytes h + n\<rparr>)"

text \<open>The \<open>while\<close> loop of \<open>release_due\<close>: the chunks released and those that stay.\<close>

fun release_loop :: "rat \<Rightarrow> int \<Rightarrow> attributed_chunk list \<Rightarrow> attributed_chunk list \<times> attributed_chunk list" where
  "release_loop budget released [] = ([], [])"
| "release_loop budget released (c # cs) =
     (if of_int released < budget
      then let (out, rest) = release_loop budget (released + chunk_len c) cs in (c # out, rest)
      else ([], c # cs))"

definition release_budget :: "(rat \<Rightarrow> rat) \<Rightarrow> rat \<Rightarrow> hold_window \<Rightarrow> rat" where
  "release_budget rnd now h =
     (let start = (case clock_start h of None \<Rightarrow> now | Some t \<Rightarrow> t)
      in rnd (rnd (rnd (now - start) + window_sec h) * hw_bytes_per_sec h))"

definition hw_release_due :: "(rat \<Rightarrow> rat) \<Rightarrow> rat \<Rightarrow> hold_window \<Rightarrow> hold_window \<times> attributed_chunk list" where
  "hw_release_due rnd now h =
     (if held h = [] then (h, [])
      else let (out, rest) = release_loop (release_budget rnd now h) (released_bytes h) (held h)
           in (h\<lparr>clock_start := (case clock_start h of None \<Rightarrow> Some now | Some t \<Rightarrow> Some t),
                 released_bytes := released_bytes h + bytes_in out, held := rest,
                 held_bytes := held_bytes h - bytes_in out\<rparr>, out))"

definition hw_flush :: "hold_window \<Rightarrow> hold_window \<times> attributed_chunk list" where
  "hw_flush h =
     (h\<lparr>held := [], released_bytes := released_bytes h + bytes_in (held h), held_bytes := 0\<rparr>, held h)"

definition hw_discard :: "hold_window \<Rightarrow> hold_window \<times> int" where
  "hw_discard h = (h\<lparr>held := [], held_bytes := 0\<rparr>, int (length (held h)))"

text \<open>The loop of \<open>discard_tail\<close> on the reversed hold: what stays, and what was popped, oldest first.\<close>

fun pop_tail :: "int \<Rightarrow> attributed_chunk list \<Rightarrow> attributed_chunk list \<times> attributed_chunk list" where
  "pop_tail remaining [] = ([], [])"
| "pop_tail remaining (c # cs) =
     (if 0 < remaining then let (keep, gone) = pop_tail (remaining - chunk_len c) cs in (keep, gone @ [c])
      else (rev (c # cs), []))"

definition hw_discard_tail :: "int \<Rightarrow> hold_window \<Rightarrow> hold_window \<times> int" where
  "hw_discard_tail discard_bytes h =
     (let (keep, gone) = pop_tail discard_bytes (rev (held h))
      in (h\<lparr>held := keep, held_bytes := held_bytes h - bytes_in gone\<rparr>, int (length gone)))"

section \<open>The semantic start gate\<close>

record start_gate =
  sg_bytes_per_sec :: rat
  min_audio_ms :: rat
  max_hold_ms :: rat
  sg_started_at :: "rat option"
  sg_held :: "attributed_chunk list"
  sg_held_bytes :: int
  sg_released :: bool

definition new_start_gate :: "rat \<Rightarrow> rat \<Rightarrow> rat \<Rightarrow> start_gate" where
  "new_start_gate bps min_ms max_ms =
     \<lparr>sg_bytes_per_sec = max bps 1, min_audio_ms = max min_ms 0, max_hold_ms = max max_ms 0,
      sg_started_at = None, sg_held = [], sg_held_bytes = 0, sg_released = False\<rparr>"

definition held_audio_ms :: "(rat \<Rightarrow> rat) \<Rightarrow> start_gate \<Rightarrow> rat" where
  "held_audio_ms rnd g = rnd (rnd (of_int (sg_held_bytes g) / sg_bytes_per_sec g) * 1000)"

definition sg_drain :: "start_gate \<Rightarrow> start_gate \<times> attributed_chunk list" where
  "sg_drain g = (g\<lparr>sg_held := [], sg_held_bytes := 0\<rparr>, sg_held g)"

definition sg_push_one :: "rat \<Rightarrow> attributed_chunk \<Rightarrow> start_gate \<Rightarrow> start_gate" where
  "sg_push_one now c g =
     (if \<not> audible c then g
      else let g1 = g\<lparr>sg_started_at := (case sg_started_at g of None \<Rightarrow> Some now | Some t \<Rightarrow> Some t)\<rparr>
           in if sg_released g1 then g1
              else g1\<lparr>sg_held := sg_held g1 @ [c], sg_held_bytes := sg_held_bytes g1 + chunk_len c\<rparr>)"

definition sg_push :: "rat \<Rightarrow> attributed_chunk list \<Rightarrow> start_gate \<Rightarrow> start_gate" where
  "sg_push now chunks g = fold (sg_push_one now) chunks g"

definition sg_release_due ::
  "(rat \<Rightarrow> rat) \<Rightarrow> rat \<Rightarrow> bool \<Rightarrow> rat \<Rightarrow> start_gate \<Rightarrow> start_gate \<times> attributed_chunk list" where
  "sg_release_due rnd now semantic_pending safe_wait_ms g =
     (if sg_held g = [] then (g, [])
      else if sg_released g then sg_drain g
      else let elapsed = (case sg_started_at g of None \<Rightarrow> 0 | Some t \<Rightarrow> rnd (rnd (now - t) * 1000));
               timed_out = (max_hold_ms g \<le> elapsed);
               enough_audio = (min_audio_ms g \<le> held_audio_ms rnd g);
               enough_credit = (min (max_hold_ms g) (held_audio_ms rnd g) \<le> safe_wait_ms)
           in if timed_out \<or> (\<not> semantic_pending \<and> (enough_audio \<or> enough_credit))
              then sg_drain (g\<lparr>sg_released := True\<rparr>)
              else (g, []))"

definition sg_flush :: "start_gate \<Rightarrow> start_gate \<times> attributed_chunk list" where
  "sg_flush g = sg_drain (g\<lparr>sg_released := True\<rparr>)"

text \<open>
  The loop of \<open>discard_segment\<close> over the reversed hold: the kept chunks, newest first, and the
  dropped ones, oldest first. The source counts the dropped chunks; the model names them.
\<close>

fun discard_loop ::
  "int \<Rightarrow> bool \<Rightarrow> int \<Rightarrow> attributed_chunk list \<Rightarrow> attributed_chunk list \<times> attributed_chunk list" where
  "discard_loop seg all remaining [] = ([], [])"
| "discard_loop seg all remaining (c # cs) =
     (if chunk_segment c \<noteq> seg
      then let (kept, gone) = discard_loop seg all remaining cs in (c # kept, gone)
      else if all \<or> 0 < remaining
      then let (kept, gone) = discard_loop seg all (remaining - chunk_len c) cs in (kept, gone @ [c])
      else let (kept, gone) = discard_loop seg all remaining cs in (c # kept, gone))"

definition sg_discard_segment ::
  "int \<Rightarrow> bool \<Rightarrow> int \<Rightarrow> start_gate \<Rightarrow> start_gate \<times> attributed_chunk list" where
  "sg_discard_segment seg discard_all discard_bytes g =
     (if sg_held g = [] then (g, [])
      else let (kept, gone) = discard_loop seg discard_all (max discard_bytes 0) (rev (sg_held g))
           in (g\<lparr>sg_held := rev kept, sg_held_bytes := bytes_in (rev kept)\<rparr>, gone))"

section \<open>The audio credit estimator\<close>

record credit_estimator =
  codec_frame_rate :: rat
  reserve_ms :: rat
  ce_raw :: int
  ce_norm :: int
  ce_frames :: int
  generated_ms :: rat
  played_ms :: rat
  ce_started_at :: rat
  service_ms :: rat
  recovery_ms :: rat
  jitter_ms :: rat

definition new_estimator :: "(rat \<Rightarrow> rat) \<Rightarrow> rat \<Rightarrow> rat \<Rightarrow> rat \<Rightarrow> credit_estimator" where
  "new_estimator rnd rate reserve now =
     \<lparr>codec_frame_rate = max rate (rnd (1 / 1000)), reserve_ms = max reserve 0, ce_raw = 0, ce_norm = 0,
      ce_frames = 0, generated_ms = 0, played_ms = 0, ce_started_at = now, service_ms = 0,
      recovery_ms = 0, jitter_ms = 0\<rparr>"

definition observe_raw_tokens :: "int \<Rightarrow> credit_estimator \<Rightarrow> credit_estimator" where
  "observe_raw_tokens n e = e\<lparr>ce_raw := ce_raw e + max n 0\<rparr>"

definition observe_normalized_tokens :: "int \<Rightarrow> rat option \<Rightarrow> credit_estimator \<Rightarrow> credit_estimator" where
  "observe_normalized_tokens n service e =
     (let e1 = e\<lparr>ce_norm := ce_norm e + max n 0\<rparr>
      in case service of
           None \<Rightarrow> e1
         | Some ms \<Rightarrow> if 0 \<le> ms then e1\<lparr>service_ms := ms\<rparr> else e1)"

definition observe_codec_frames :: "(rat \<Rightarrow> rat) \<Rightarrow> int \<Rightarrow> credit_estimator \<Rightarrow> credit_estimator" where
  "observe_codec_frames rnd frames e =
     (let n = max frames 0
      in e\<lparr>ce_frames := ce_frames e + n,
           generated_ms := rnd (generated_ms e + rnd (rnd (of_int n * 1000) / codec_frame_rate e))\<rparr>)"

definition observe_played_audio :: "rat \<Rightarrow> credit_estimator \<Rightarrow> credit_estimator" where
  "observe_played_audio elapsed e = e\<lparr>played_ms := max (played_ms e) elapsed\<rparr>"

definition set_reserves :: "(rat \<Rightarrow> rat) \<Rightarrow> rat \<Rightarrow> rat \<Rightarrow> rat \<Rightarrow> credit_estimator \<Rightarrow> credit_estimator" where
  "set_reserves rnd recovery jitter network e =
     e\<lparr>recovery_ms := max recovery 0, jitter_ms := rnd (max jitter 0 + max network 0)\<rparr>"

record rate_metrics =
  rm_raw_tokens :: int
  rm_normalized_tokens :: int
  rm_codec_frames :: int
  generated_audio_ms :: rat
  estimated_played_audio_ms :: rat
  audio_credit_ms :: rat
  lambda_raw :: rat
  lambda_norm :: rat
  t_service_ms :: rat
  r_audio_ms_per_s :: rat
  safe_wait_ms :: rat

definition estimator_snapshot :: "(rat \<Rightarrow> rat) \<Rightarrow> rat \<Rightarrow> credit_estimator \<Rightarrow> rate_metrics" where
  "estimator_snapshot rnd now e =
     (let elapsed_s = max (rnd (now - ce_started_at e)) (rnd (1 / 1000));
          raw_rate = rnd (of_int (ce_raw e) / elapsed_s);
          expansion = (if ce_raw e \<noteq> 0 then rnd (of_int (ce_norm e) / of_int (ce_raw e)) else 0);
          norm_rate = rnd (expansion * raw_rate);
          k = (if ce_norm e \<noteq> 0 then rnd (of_int (ce_frames e) / of_int (ce_norm e)) else 0);
          effective = (if 0 < service_ms e then min norm_rate (rnd (1000 / service_ms e)) else norm_rate);
          r_audio = rnd (rnd (rnd (effective * k) * 1000) / codec_frame_rate e);
          credit = rnd (rnd (generated_ms e - played_ms e) - reserve_ms e);
          safe_wait = max 0 (rnd (rnd (credit - recovery_ms e) - jitter_ms e))
      in \<lparr>rm_raw_tokens = ce_raw e, rm_normalized_tokens = ce_norm e, rm_codec_frames = ce_frames e,
          generated_audio_ms = generated_ms e, estimated_played_audio_ms = played_ms e,
          audio_credit_ms = credit, lambda_raw = raw_rate, lambda_norm = norm_rate,
          t_service_ms = service_ms e, r_audio_ms_per_s = r_audio, safe_wait_ms = safe_wait\<rparr>)"

section \<open>Stages that keep the order\<close>

lemma filter_keep: "xs = ys @ filter P zs \<Longrightarrow> filter P xs = filter P (ys @ zs)"
  by simp

text \<open>
  What the delivery path asks of a buffer between the reorder stage and the client: chunks come
  out in the order in which they went in, none is lost, and finishing empties it. \<open>keep\<close> says
  which chunks matter: a buffer may drop a chunk without audio.
\<close>

locale fifo_stage =
  fixes feed :: "'t \<Rightarrow> 'c list \<Rightarrow> 's \<Rightarrow> 's \<times> 'c list"
    and finish :: "'s \<Rightarrow> 's \<times> 'c list"
    and pending :: "'s \<Rightarrow> 'c list"
    and keep :: "'c \<Rightarrow> bool"
    and stage_inv :: "'s \<Rightarrow> bool"
  assumes feed_law: "stage_inv s \<Longrightarrow> feed t cs s = (s', out) \<Longrightarrow>
      stage_inv s' \<and> filter keep (out @ pending s') = filter keep (pending s @ cs)"
    and finish_law: "stage_inv s \<Longrightarrow> finish s = (s', out) \<Longrightarrow>
      stage_inv s' \<and> pending s' = [] \<and> filter keep out = filter keep (pending s)"
begin

fun feed_all :: "('t \<times> 'c list) list \<Rightarrow> 's \<Rightarrow> 's \<times> 'c list" where
  "feed_all [] s = (s, [])"
| "feed_all ((t, cs) # ins) s =
     (let (s1, out1) = feed t cs s; (s2, out2) = feed_all ins s1 in (s2, out1 @ out2))"

lemma feed_all_law:
  "stage_inv s \<Longrightarrow> feed_all ins s = (s', out) \<Longrightarrow>
   stage_inv s' \<and> filter keep (out @ pending s') = filter keep (pending s @ concat (map snd ins))"
proof (induction ins arbitrary: s s' out)
  case (Cons i ins)
  obtain t cs where i: "i = (t, cs)" by fastforce
  obtain s1 out1 where f: "feed t cs s = (s1, out1)" by fastforce
  obtain s2 out2 where r: "feed_all ins s1 = (s2, out2)" by fastforce
  have 1: "stage_inv s1" "filter keep (out1 @ pending s1) = filter keep (pending s @ cs)"
    using feed_law [OF Cons.prems(1) f] by auto
  have 2: "stage_inv s2" "filter keep (out2 @ pending s2) = filter keep (pending s1 @ concat (map snd ins))"
    using Cons.IH [OF 1(1) r] by auto
  have "s' = s2" "out = out1 @ out2" using Cons.prems(2) by (auto simp: i f r)
  with 1(2) 2 show ?case by (simp add: i)
qed simp

text \<open>A complete session: everything fed comes out, in order.\<close>

lemma session_law:
  assumes "stage_inv s" and "pending s = []" and "feed_all ins s = (s1, out1)" and "finish s1 = (s2, out2)"
  shows "filter keep (out1 @ out2) = filter keep (concat (map snd ins)) \<and> pending s2 = []"
  using feed_all_law [OF assms(1,3)] finish_law [OF _ assms(4)] assms(2) by simp

end

section \<open>The hold window\<close>

lemma hw_push_state: "hw_push cs h = h\<lparr>held := held h @ filter audible cs, held_bytes := held_bytes h + bytes_in (filter audible cs)\<rparr>"
  unfolding hw_push_def by (induction cs arbitrary: h) auto

lemma release_loop_split:
  "release_loop b r cs = (out, rest) \<Longrightarrow>
   cs = out @ rest \<and> (out \<noteq> [] \<longrightarrow> of_int (r + bytes_in (butlast out)) < b) \<and>
   (rest \<noteq> [] \<longrightarrow> b \<le> of_int (r + bytes_in out))"
proof (induction b r cs arbitrary: out rest rule: release_loop.induct)
  case (2 b r c cs)
  show ?case
  proof (cases "of_int r < b")
    case True
    obtain out1 rest1 where l: "release_loop b (r + chunk_len c) cs = (out1, rest1)" by fastforce
    have o: "out = c # out1" "rest = rest1" using 2(2) True l by auto
    show ?thesis
      using 2(1) [OF True l] True by (cases "out1 = []") (auto simp: o algebra_simps)
  qed (use 2(2) in auto)
qed simp

lemma pop_tail_split:
  "pop_tail n cs = (kept, gone) \<Longrightarrow>
   rev cs = kept @ gone \<and> (gone \<noteq> [] \<longrightarrow> bytes_in (tl gone) < n) \<and> (kept \<noteq> [] \<longrightarrow> n \<le> bytes_in gone)"
proof (induction n cs arbitrary: kept gone rule: pop_tail.induct)
  case (2 n c cs)
  show ?case
  proof (cases "0 < n")
    case True
    obtain k1 g1 where l: "pop_tail (n - chunk_len c) cs = (k1, g1)" by fastforce
    have o: "kept = k1" "gone = g1 @ [c]" using 2(2) True l by auto
    show ?thesis using 2(1) [OF True l] True by (cases "g1 = []") (auto simp: o)
  qed (use 2(2) in auto)
qed simp

definition hold_ok :: "hold_window \<Rightarrow> bool" where
  "hold_ok h \<longleftrightarrow> held_bytes h = bytes_in (held h) \<and> list_all audible (held h)"

definition hold_feed :: "(rat \<Rightarrow> rat) \<Rightarrow> rat \<Rightarrow> attributed_chunk list \<Rightarrow> hold_window \<Rightarrow> hold_window \<times> attributed_chunk list" where
  "hold_feed rnd now cs h = hw_release_due rnd now (hw_push cs h)"

lemma hw_release_due_split:
  assumes "hw_release_due rnd now h = (h', out)"
  shows "held h = out @ held h'" "released_bytes h' = released_bytes h + bytes_in out"
    "held_bytes h' = held_bytes h - bytes_in out"
    "out \<noteq> [] \<Longrightarrow> of_int (released_bytes h + bytes_in (butlast out)) < release_budget rnd now h"
    "held h' \<noteq> [] \<Longrightarrow> release_budget rnd now h \<le> of_int (released_bytes h')"
proof -
  obtain o1 r1 where l: "release_loop (release_budget rnd now h) (released_bytes h) (held h) = (o1, r1)" by fastforce
  show "held h = out @ held h'" "released_bytes h' = released_bytes h + bytes_in out"
    "held_bytes h' = held_bytes h - bytes_in out"
    "out \<noteq> [] \<Longrightarrow> of_int (released_bytes h + bytes_in (butlast out)) < release_budget rnd now h"
    "held h' \<noteq> [] \<Longrightarrow> release_budget rnd now h \<le> of_int (released_bytes h')"
    using release_loop_split [OF l] assms l by (auto simp: hw_release_due_def Let_def split: if_splits)
qed

lemma hw_release_due_ok: "hold_ok h \<Longrightarrow> hw_release_due rnd now h = (h', out) \<Longrightarrow> hold_ok h' \<and> list_all audible out"
  using hw_release_due_split(1,3) [of rnd now h h' out] by (auto simp: hold_ok_def)

lemma hw_push_ok: "hold_ok h \<Longrightarrow> hold_ok (hw_push cs h)"
  by (auto simp: hold_ok_def hw_push_state list_all_iff)

interpretation hold_stage: fifo_stage "hold_feed rnd" hw_flush held audible hold_ok
proof unfold_locales
  fix s t cs s' out assume a: "hold_ok s" "hold_feed rnd t cs s = (s', out)"
  have "held (hw_push cs s) = out @ held s'"
    using a(2) by (intro hw_release_due_split(1)) (simp add: hold_feed_def)
  then have "filter audible (out @ held s') = filter audible (held s @ cs)"
    by (intro filter_keep) (simp add: hw_push_state)
  moreover have "hold_ok s'"
    using a hw_release_due_ok hw_push_ok unfolding hold_feed_def by blast
  ultimately show "hold_ok s' \<and> filter audible (out @ held s') = filter audible (held s @ cs)" by blast
next
  fix s s' out assume "hold_ok s" "hw_flush s = (s', out)"
  then show "hold_ok s' \<and> held s' = [] \<and> filter audible out = filter audible (held s)"
    by (auto simp: hw_flush_def hold_ok_def)
qed

section \<open>The start gate\<close>

definition gate_ok :: "start_gate \<Rightarrow> bool" where
  "gate_ok g \<longleftrightarrow> sg_held_bytes g = bytes_in (sg_held g) \<and> list_all audible (sg_held g) \<and>
                (sg_released g \<longrightarrow> sg_held g = []) \<and> (sg_held g \<noteq> [] \<longrightarrow> sg_started_at g \<noteq> None)"

text \<open>The way the delivery path uses the gate: once it is open, chunks go past it.\<close>

definition gate_feed ::
  "(rat \<Rightarrow> rat) \<Rightarrow> rat \<times> bool \<times> rat \<Rightarrow> attributed_chunk list \<Rightarrow> start_gate \<Rightarrow> start_gate \<times> attributed_chunk list" where
  "gate_feed rnd t cs g =
     (case t of (now, pend, safe_wait) \<Rightarrow>
        if sg_released g then (g, cs) else sg_release_due rnd now pend safe_wait (sg_push now cs g))"

lemma sg_push_one_closed:
  assumes "\<not> sg_released g"
  shows "sg_held (sg_push_one now c g) = sg_held g @ filter audible [c]" "\<not> sg_released (sg_push_one now c g)"
    "gate_ok g \<Longrightarrow> gate_ok (sg_push_one now c g)"
  using assms by (cases "sg_started_at g"; simp add: sg_push_one_def gate_ok_def Let_def)+

lemma sg_push_closed:
  assumes "\<not> sg_released g"
  shows "sg_held (sg_push now cs g) = sg_held g @ filter audible cs \<and> \<not> sg_released (sg_push now cs g) \<and>
         (gate_ok g \<longrightarrow> gate_ok (sg_push now cs g))"
  using assms
proof (induction cs arbitrary: g)
  case (Cons c cs)
  note one = sg_push_one_closed [OF Cons.prems, of now c]
  have "sg_push now (c # cs) g = sg_push now cs (sg_push_one now c g)" by (simp add: sg_push_def)
  with Cons.IH [OF one(2)] one show ?case by auto
qed (simp add: sg_push_def)

lemma sg_release_due_split:
  assumes "gate_ok g" and "sg_release_due rnd now pend w g = (g', out)"
  shows "sg_held g = out @ sg_held g' \<and> gate_ok g' \<and> (sg_released g \<longrightarrow> sg_released g')"
  using assms by (auto simp: sg_release_due_def sg_drain_def gate_ok_def Let_def split: if_splits)

interpretation gate_stage: fifo_stage "gate_feed rnd" sg_flush sg_held audible gate_ok
proof unfold_locales
  fix s t cs s' out assume a: "gate_ok s" "gate_feed rnd t cs s = (s', out)"
  obtain now pend w where t: "t = (now, pend, w)" by (cases t)
  show "gate_ok s' \<and> filter audible (out @ sg_held s') = filter audible (sg_held s @ cs)"
  proof (cases "sg_released s")
    case False
    note p = sg_push_closed [OF False, of now cs]
    have "sg_release_due rnd now pend w (sg_push now cs s) = (s', out)" using a(2) False by (simp add: gate_feed_def t)
    from sg_release_due_split [OF _ this] p a(1)
    have "gate_ok s'" "out @ sg_held s' = sg_held s @ filter audible cs" by auto
    then show ?thesis using filter_keep by blast
  qed (use a in \<open>auto simp: gate_feed_def t gate_ok_def\<close>)
next
  fix s s' out assume "gate_ok s" "sg_flush s = (s', out)"
  then show "gate_ok s' \<and> sg_held s' = [] \<and> filter audible out = filter audible (sg_held s)"
    by (auto simp: sg_flush_def sg_drain_def gate_ok_def)
qed

section \<open>What a verdict takes\<close>

text \<open>
  A verdict cuts a buffer into what stays and what goes, both oldest first. It either takes
  everything, or the newest chunks up to its bytes: without the oldest dropped chunk they weigh
  less, and unless nothing stays they weigh at least as much.
\<close>

definition tail_cut :: "bool \<Rightarrow> int \<Rightarrow> attributed_chunk list \<Rightarrow> attributed_chunk list \<Rightarrow> bool" where
  "tail_cut all n kept gone \<longleftrightarrow>
     (if all then kept = [] else (gone = [] \<or> bytes_in (tl gone) < n) \<and> (kept = [] \<or> n \<le> bytes_in gone))"

lemma pop_tail_cut: "pop_tail n cs = (kept, gone) \<Longrightarrow> rev cs = kept @ gone \<and> tail_cut False n kept gone"
  using pop_tail_split by (auto simp: tail_cut_def)

lemma discard_loop_own: "list_all (\<lambda>c. chunk_segment c = seg) (snd (discard_loop seg all n cs))"
  by (induction seg all n cs rule: discard_loop.induct) (auto split: prod.splits)

lemma discard_loop_mset: "mset cs = mset (fst (discard_loop seg all n cs)) + mset (snd (discard_loop seg all n cs))"
  by (induction seg all n cs rule: discard_loop.induct) (auto split: prod.splits)

lemma discard_loop_done: "n \<le> 0 \<Longrightarrow> discard_loop seg False n cs = (cs, [])"
  by (induction cs) auto

lemma discard_loop_cut:
  "tail_cut all n (filter (\<lambda>c. chunk_segment c = seg) (fst (discard_loop seg all n cs))) (snd (discard_loop seg all n cs))"
proof (induction seg all n cs rule: discard_loop.induct)
  case (2 seg all n c cs)
  show ?case
  proof (cases "chunk_segment c = seg \<and> (all \<or> 0 < n)")
    case True
    obtain k g where l: "discard_loop seg all (n - chunk_len c) cs = (k, g)" by fastforce
    have "tail_cut all (n - chunk_len c) (filter (\<lambda>c. chunk_segment c = seg) k) g" using 2(2) True l by simp
    then show ?thesis using True l by (cases g) (auto simp: tail_cut_def)
  next
    case False
    show ?thesis
    proof (cases "chunk_segment c = seg")
      case True
      with False have "\<not> all" "n \<le> 0" by auto
      then show ?thesis using discard_loop_done [of n seg "c # cs"] by (simp add: tail_cut_def del: discard_loop.simps)
    qed (use 2(1) in \<open>auto split: prod.splits\<close>)
  qed
qed (simp add: tail_cut_def)

lemma sg_discard_cut:
  assumes "sg_discard_segment seg all n g = (g', gone)" and "all \<or> 0 < n"
  shows "list_all (\<lambda>c. chunk_segment c = seg) gone" "mset (sg_held g) = mset (sg_held g') + mset gone"
    "tail_cut all n (filter (\<lambda>c. chunk_segment c = seg) (sg_held g')) gone"
proof -
  define m where "m = max n 0"
  obtain k x where l: "discard_loop seg all m (rev (sg_held g)) = (k, x)" by fastforce
  have "list_all (\<lambda>c. chunk_segment c = seg) x" "mset (sg_held g) = mset k + mset x"
    "tail_cut all m (filter (\<lambda>c. chunk_segment c = seg) k) x"
    using discard_loop_own [of seg all m "rev (sg_held g)"] discard_loop_mset [of "rev (sg_held g)" seg all m]
      discard_loop_cut [of all m seg "rev (sg_held g)"] by (simp_all add: l)
  moreover have "tail_cut all n (filter P (rev k)) x" if "tail_cut all m (filter P k) x" for P
    using that assms(2) by (auto simp: tail_cut_def m_def rev_filter [symmetric])
  moreover have "tail_cut all n [] []" by (simp add: tail_cut_def)
  moreover have "sg_held g' = (if sg_held g = [] then [] else rev k)" "gone = (if sg_held g = [] then [] else x)"
    using assms(1) l by (auto simp: sg_discard_segment_def m_def)
  ultimately show "list_all (\<lambda>c. chunk_segment c = seg) gone" "mset (sg_held g) = mset (sg_held g') + mset gone"
    "tail_cut all n (filter (\<lambda>c. chunk_segment c = seg) (sg_held g')) gone" by auto
qed

lemma sg_discard_ok:
  assumes "gate_ok g" and "sg_discard_segment seg all n g = (g', gone)"
  shows "gate_ok g'" "sg_released g' = sg_released g" "set (sg_held g') \<subseteq> set (sg_held g)"
proof -
  have sub: "set (fst (discard_loop seg all m cs)) \<subseteq> set cs" for m cs
    by (induction seg all m cs rule: discard_loop.induct) (auto split: prod.splits)
  have "set (fst (discard_loop seg all (max n 0) (rev (sg_held g)))) \<subseteq> set (sg_held g)" using sub by force
  with assms show "gate_ok g'" "sg_released g' = sg_released g" "set (sg_held g') \<subseteq> set (sg_held g)"
    by (auto simp: sg_discard_segment_def gate_ok_def list_all_iff split: if_splits prod.splits)
qed

section \<open>What the hold window promises\<close>

text \<open>
  C22. The playhead-relative window is tight. A release lets out a prefix of what is held. Every
  chunk it lets out, up to the start of the last one, lies within the bytes that the client can
  have played by now plus the window, so the overshoot is less than one chunk; and when something
  stays behind, the budget is used up. The byte counters follow.
\<close>

theorem release_is_tight:
  assumes "hold_ok h" and "hw_release_due rnd now h = (h', out)"
  shows "held h = out @ held h' \<and> hold_ok h' \<and> released_bytes h' = released_bytes h + bytes_in out \<and>
         (out = [] \<or> of_int (released_bytes h') < release_budget rnd now h + of_int (chunk_len (last out))) \<and>
         (held h' = [] \<or> release_budget rnd now h \<le> of_int (released_bytes h'))"
proof -
  note s = hw_release_due_split [OF assms(2)]
  have "of_int (released_bytes h') < release_budget rnd now h + of_int (chunk_len (last out))" if "out \<noteq> []"
  proof -
    have "out = butlast out @ [last out]" using that by simp
    then have "bytes_in out = bytes_in (butlast out) + chunk_len (last out)" by (metis add.right_neutral bytes_in_simps)
    with s(2,4) that show ?thesis by simp
  qed
  with s hw_release_due_ok [OF assms] show ?thesis by blast
qed

definition ex_chunk :: "int \<Rightarrow> nat \<Rightarrow> attributed_chunk" where
  "ex_chunk seg n = \<lparr>pcm_bytes = replicate n 1, progress_event = None, chunk_segment = seg,
                     source_frame_start = 0, source_frame_end = 0\<rparr>"

definition ex_hold :: hold_window where
  "ex_hold = hw_push [ex_chunk 0 4, ex_chunk 0 4, ex_chunk 0 4] (new_hold (1/2) 10)"

lemma ex_hold_simps:
  "held ex_hold = [ex_chunk 0 4, ex_chunk 0 4, ex_chunk 0 4]" "released_bytes ex_hold = 0" "hold_ok ex_hold"
  by (simp_all add: ex_hold_def hw_push_state new_hold_def ex_chunk_def hold_ok_def chunk_len_def)

theorem release_is_tight_witness:
  "snd (hw_release_due id 7 ex_hold) = [ex_chunk 0 4, ex_chunk 0 4] \<and>
   held ex_hold = snd (hw_release_due id 7 ex_hold) @ held (fst (hw_release_due id 7 ex_hold)) \<and>
   5 \<le> released_bytes (fst (hw_release_due id 7 ex_hold))"
proof -
  have r: "hw_release_due id 7 ex_hold =
      (ex_hold\<lparr>clock_start := Some 7, released_bytes := 8, held := [ex_chunk 0 4], held_bytes := 4\<rparr>,
       [ex_chunk 0 4, ex_chunk 0 4])"
    by (simp add: hw_release_due_def ex_hold_def hw_push_state new_hold_def ex_chunk_def chunk_len_def release_budget_def)
  from release_is_tight [OF ex_hold_simps(3) r]
  show ?thesis unfolding r by (simp add: release_budget_def ex_hold_def hw_push_state new_hold_def ex_chunk_def)
qed

text \<open>
  An abort verdict drops the newest audio only, and no more chunks than it must: what stays is
  a prefix of what was held, the dropped chunks without the oldest of them weigh less than the
  condemned bytes, and unless everything went, they weigh at least that much.
\<close>

theorem discard_tail_exact:
  assumes "hold_ok h" and "hw_discard_tail n h = (h', k)"
  shows "\<exists>gone. held h = held h' @ gone \<and> k = int (length gone) \<and> hold_ok h' \<and>
           released_bytes h' = released_bytes h \<and>
           (gone = [] \<or> bytes_in (tl gone) < n) \<and> (held h' = [] \<or> n \<le> bytes_in gone)"
proof -
  obtain kept gone where p: "pop_tail n (rev (held h)) = (kept, gone)" by fastforce
  have "h' = h\<lparr>held := kept, held_bytes := held_bytes h - bytes_in gone\<rparr>" "k = int (length gone)"
    using assms(2) by (auto simp: hw_discard_tail_def p)
  then show ?thesis
    using pop_tail_split [OF p] assms(1) by (intro exI [of _ gone]) (auto simp: hold_ok_def)
qed

theorem discard_tail_exact_witness:
  "\<exists>gone. held ex_hold = held (fst (hw_discard_tail 5 ex_hold)) @ gone \<and> length gone = 2 \<and> 5 \<le> bytes_in gone"
proof -
  have r: "hw_discard_tail 5 ex_hold = (ex_hold\<lparr>held := [ex_chunk 0 4], held_bytes := 4\<rparr>, 2)"
    by (simp add: hw_discard_tail_def ex_hold_def hw_push_state new_hold_def ex_chunk_def chunk_len_def)
  obtain gone where g: "held ex_hold = held (fst (hw_discard_tail 5 ex_hold)) @ gone" "2 = int (length gone)"
      "held (fst (hw_discard_tail 5 ex_hold)) = [] \<or> 5 \<le> bytes_in gone"
    using discard_tail_exact [OF ex_hold_simps(3) r] unfolding r by auto
  then show ?thesis unfolding r by auto
qed

text \<open>The start gate never holds audio longer than its limit.\<close>

lemma gate_opens_in_time:
  assumes "gate_ok g" and "sg_held g \<noteq> []" and "sg_started_at g = Some t"
    and "max_hold_ms g \<le> rnd (rnd (now - t) * 1000)"
  shows "snd (sg_release_due rnd now pend w g) = sg_held g \<and> sg_released (fst (sg_release_due rnd now pend w g))"
  using assms by (auto simp: sg_release_due_def sg_drain_def gate_ok_def)

lemma safe_wait_nonneg: "0 \<le> safe_wait_ms (estimator_snapshot rnd now e)"
  by (simp add: estimator_snapshot_def Let_def)

end
