(* ===== verification/Result_Consumer.thy ===== *)
theory Result_Consumer
  imports Guarded_Delivery Py_Text "HOL-Library.Sublist"
begin

text \<open>
  The delivery path of \<open>FrontendInterface._consume_results\<close> in \<open>engine/frontend/interface.py\<close>: the
  results of the engine go through the reorder buffer, the hold window and the start gate to the
  client, the verdict on a finished segment is applied to that segment's own audio, and the final
  marker of a segment waits for its turn.

  The state holds the stages and the dictionaries of the coroutine; \<open>cs_log\<close> is the sequence of
  calls that the coroutine makes to \<open>on_audio\<close>, \<open>on_event\<close>, \<open>on_done\<close> and to the reset of the
  voice detector, with an entry for every chunk it condemns. The environment supplies the
  readings of the clock (\<open>clock_at i\<close> is the i-th), whether the committer has pending text then,
  and the byte count with which the gateway marks the first effective chunk while it handles the
  audio sent so far. A section that runs under a lock is one step; the tickers and the stall
  watchdog are steps of their own. Text progress and ratio feedback are modelled in their own
  theories; here a result carries the events that they prepare.
\<close>

section \<open>State\<close>

record verdict =
  v_eos_reason :: string
  v_discard_bytes :: int
  v_discard_all :: bool
  v_keep_frames :: int
  v_seg_idx :: int

record end_metrics =
  em_eos_reason :: string
  em_discard_all_audio :: bool
  em_audio_steps :: int
  em_abort_tail_frames :: int
  em_text_tokens :: int
  em_ema :: rat

type_synonym end_events = "pyobj \<times> pyobj option"

datatype client_item =
    SendAudio attributed_chunk
  | SendEvent pyobj
  | ResetVad
  | CondemnHeld verdict "attributed_chunk list" "attributed_chunk list"
  | CondemnGate verdict "attributed_chunk list" "attributed_chunk list"
  | SendDone
  | SendError string
  | CancelSession string

record delivery_env =
  rounding :: "rat \<Rightarrow> rat"
  clock_at :: "nat \<Rightarrow> rat"
  pending_raw_at :: "nat \<Rightarrow> bool"
  marks_effective :: "attributed_chunk list \<Rightarrow> int option"

record consumer =
  cs_reorder :: "attributed_chunk reorder"
  cs_hold :: "hold_window option"
  cs_gate :: "start_gate option"
  cs_bypass :: "prefix_bypass option"
  cs_estimator :: "credit_estimator option"
  cs_order :: "(int \<times> order_meta) list"
  cs_verdicts :: "(segment_key \<times> verdict) list"
  cs_vad_resets :: "segment_key list"
  cs_end_events :: "(segment_key \<times> end_events) list"
  cs_end_meta :: "(int \<times> segment_key \<times> int) list"
  cs_progress_frames :: "(int \<times> int) list"
  cs_prefill_seen :: "int list"
  cs_log :: "client_item list"
  cs_reads :: nat
  cs_cancelled :: bool
  cs_finished :: bool

definition engine_sample_rate :: int where
  "engine_sample_rate = 24000"

definition frame_bytes :: int where
  "frame_bytes = engine_sample_rate * 4 * 80 div 1000"

fun audio_of :: "client_item list \<Rightarrow> attributed_chunk list" where
  "audio_of [] = []"
| "audio_of (SendAudio c # items) = c # audio_of items"
| "audio_of (_ # items) = audio_of items"

lemma audio_of_append [simp]: "audio_of (xs @ ys) = audio_of xs @ audio_of ys"
  by (induction xs rule: audio_of.induct) auto

lemma audio_of_send [simp]: "audio_of (map SendAudio cs) = cs"
  by (induction cs) auto

section \<open>Building the stages\<close>

text \<open>
  A float option of the request: absent, present but empty (\<open>None\<close> or the empty string), a
  number, a string that parses as a finite float, or something else. The delivery mode is the
  string after \<open>strip().lower()\<close>, \<open>opt_gate\<close> whether the gate option reads as true.
\<close>

datatype float_opt = AbsentOpt | EmptyOpt | NumberOpt rat | ParsedOpt rat | BadOpt

record delivery_options =
  opt_delivery :: "string option"
  opt_window_ms :: float_opt
  opt_gate :: bool
  opt_min_ms :: float_opt
  opt_max_ms :: float_opt

fun window_option :: "rat \<Rightarrow> float_opt \<Rightarrow> rat" where
  "window_option d (NumberOpt x) = (if x = 0 then d else x)"
| "window_option d (ParsedOpt x) = x"
| "window_option d _ = d"

definition guarded_hold_for :: "(rat \<Rightarrow> rat) \<Rightarrow> bool \<Rightarrow> rat \<Rightarrow> delivery_options \<Rightarrow> hold_window option" where
  "guarded_hold_for rnd default_guarded default_ms opts =
     (let mode = (case opt_delivery opts of Some m \<Rightarrow> m | None \<Rightarrow> (if default_guarded then ''guarded'' else ''firehose''))
      in if mode \<noteq> ''guarded'' then None
         else let window_ms = min (max (window_option default_ms (opt_window_ms opts)) 100) 10000
              in Some (new_hold (rnd (window_ms / 1000)) (of_int (engine_sample_rate * 4))))"

fun gate_option :: "rat \<Rightarrow> float_opt \<Rightarrow> rat option" where
  "gate_option d AbsentOpt = Some d"
| "gate_option d (NumberOpt x) = Some x"
| "gate_option d (ParsedOpt x) = Some x"
| "gate_option d _ = None"

definition semantic_start_gate_for :: "bool \<Rightarrow> delivery_options \<Rightarrow> start_gate option" where
  "semantic_start_gate_for has_bypass opts =
     (if has_bypass \<or> \<not> opt_gate opts then None
      else let (lo, hi) = (case (gate_option 160 (opt_min_ms opts), gate_option 300 (opt_max_ms opts)) of
                             (Some a, Some b) \<Rightarrow> (a, b)
                           | _ \<Rightarrow> (160, 300))
           in Some (new_start_gate (of_int (engine_sample_rate * 4)) lo hi))"

section \<open>Sending\<close>

definition log_item :: "client_item \<Rightarrow> consumer \<Rightarrow> consumer" where
  "log_item i s = s\<lparr>cs_log := cs_log s @ [i]\<rparr>"

definition next_read :: "consumer \<Rightarrow> consumer" where
  "next_read s = s\<lparr>cs_reads := cs_reads s + 1\<rparr>"

definition clock_now :: "delivery_env \<Rightarrow> consumer \<Rightarrow> rat" where
  "clock_now E s = clock_at E (cs_reads s)"

definition send_one :: "delivery_env \<Rightarrow> attributed_chunk \<Rightarrow> consumer \<Rightarrow> consumer" where
  "send_one E c s =
     (let s1 = log_item (SendAudio c) s
      in case (cs_bypass s1, marks_effective E (audio_of (cs_log s1))) of
           (Some b, Some n) \<Rightarrow> s1\<lparr>cs_bypass := Some (mark_first_effective n b)\<rparr>
         | _ \<Rightarrow> s1)"

definition send_now :: "delivery_env \<Rightarrow> attributed_chunk list \<Rightarrow> consumer \<Rightarrow> consumer" where
  "send_now E chunks s = fold (send_one E) chunks s"

definition current_safe_wait :: "delivery_env \<Rightarrow> consumer \<Rightarrow> rat" where
  "current_safe_wait E s =
     (case cs_estimator s of None \<Rightarrow> 0
      | Some e \<Rightarrow> safe_wait_ms (estimator_snapshot (rounding E) (clock_now E s) e))"

definition send_chunks :: "delivery_env \<Rightarrow> attributed_chunk list \<Rightarrow> consumer \<Rightarrow> consumer" where
  "send_chunks E chunks s =
     (if chunks = [] then s
      else case cs_gate s of
        None \<Rightarrow> send_now E chunks s
      | Some g \<Rightarrow>
          if sg_released g then send_now E chunks s
          else let g1 = sg_push (clock_now E s) chunks g; s1 = next_read s;
                   (g2, released) = sg_release_due (rounding E) (clock_now E s1) (pending_raw_at E (cs_reads s1))
                                      (current_safe_wait E s1) g1
               in send_now E released (next_read s1\<lparr>cs_gate := Some g2\<rparr>))"

definition release_semantic_due :: "delivery_env \<Rightarrow> bool \<Rightarrow> consumer \<Rightarrow> consumer" where
  "release_semantic_due E force s =
     (case cs_gate s of
        None \<Rightarrow> s
      | Some g \<Rightarrow>
          let (g1, released) =
                (if force then sg_flush g
                 else sg_release_due (rounding E) (clock_now E s) (pending_raw_at E (cs_reads s)) (current_safe_wait E s) g)
          in send_now E released (next_read s\<lparr>cs_gate := Some g1\<rparr>))"

definition release_hold :: "delivery_env \<Rightarrow> consumer \<Rightarrow> consumer" where
  "release_hold E s =
     (case cs_hold s of
        None \<Rightarrow> s
      | Some h \<Rightarrow>
          let (h1, released) = hw_release_due (rounding E) (clock_now E s) h
          in send_chunks E released (next_read s\<lparr>cs_hold := Some h1\<rparr>))"

definition flush_hold :: "delivery_env \<Rightarrow> consumer \<Rightarrow> consumer" where
  "flush_hold E s =
     (case cs_hold s of
        None \<Rightarrow> s
      | Some h \<Rightarrow> let (h1, flushed) = hw_flush h in send_chunks E flushed (s\<lparr>cs_hold := Some h1\<rparr>))"

definition bypassing :: "consumer \<Rightarrow> bool" where
  "bypassing s = (case cs_bypass s of None \<Rightarrow> False | Some b \<Rightarrow> should_bypass b)"

definition deliver_one :: "delivery_env \<Rightarrow> attributed_chunk \<Rightarrow> consumer \<Rightarrow> consumer" where
  "deliver_one E c s =
     (case cs_bypass s of
        Some b \<Rightarrow>
          if should_bypass b
          then let s1 = send_chunks E [c] (s\<lparr>cs_bypass := Some (record_bypass (chunk_len c) b)\<rparr>)
               in if bypassing s1 then s1
                  else next_read (s1\<lparr>cs_hold := map_option (record_external_release (clock_now E s1)
                                  (case cs_bypass s1 of Some b1 \<Rightarrow> first_effective_audio_bytes b1 | None \<Rightarrow> 0)) (cs_hold s1)\<rparr>)
          else release_hold E (s\<lparr>cs_hold := map_option (hw_push [c]) (cs_hold s)\<rparr>)
      | None \<Rightarrow> release_hold E (s\<lparr>cs_hold := map_option (hw_push [c]) (cs_hold s)\<rparr>))"

definition deliver :: "delivery_env \<Rightarrow> attributed_chunk list \<Rightarrow> consumer \<Rightarrow> consumer" where
  "deliver E chunks s =
     (if cs_hold s = None then send_chunks E chunks s else fold (deliver_one E) chunks s)"

section \<open>Verdicts\<close>

definition hold_verdict :: "(rat \<Rightarrow> rat) \<Rightarrow> int \<Rightarrow> end_metrics \<Rightarrow> verdict" where
  "hold_verdict rnd seg m =
     (let abort = em_eos_reason m \<in> {''loop_abort'', ''silence_abort'', ''length_abort''};
          keep0 = max 0 (em_audio_steps m - em_abort_tail_frames m);
          keep1 = (if 0 < em_ema m \<and> 0 < em_text_tokens m
                   then min keep0 (\<lfloor>rnd (rnd (em_ema m * of_int (em_text_tokens m)) * rnd (115 / 100))\<rfloor> + 2)
                   else keep0)
      in \<lparr>v_eos_reason = em_eos_reason m,
          v_discard_bytes = (if abort then max 0 ((em_audio_steps m - keep1) * frame_bytes) else 0),
          v_discard_all = em_discard_all_audio m,
          v_keep_frames = (if abort then keep1 else - 1),
          v_seg_idx = seg\<rparr>)"

definition condemns :: "verdict \<Rightarrow> bool" where
  "condemns v \<longleftrightarrow> v_discard_all v \<or> 0 < v_discard_bytes v"

definition ends_abort :: "string \<Rightarrow> bool" where
  "ends_abort r \<longleftrightarrow> suffix ''_abort'' r"

definition reset_vad :: "verdict \<Rightarrow> consumer \<Rightarrow> consumer" where
  "reset_vad v s =
     (if cs_bypass s \<noteq> None \<and> (condemns v \<or> ends_abort (v_eos_reason v)) then log_item ResetVad s else s)"

definition condemn_gate :: "verdict \<Rightarrow> consumer \<Rightarrow> consumer" where
  "condemn_gate v s =
     (case cs_gate s of
        None \<Rightarrow> s
      | Some g \<Rightarrow>
          if condemns v
          then let (g1, gone) = sg_discard_segment (v_seg_idx v) (v_discard_all v) (v_discard_bytes v) g
               in log_item (CondemnGate v (sg_held g1) gone) (s\<lparr>cs_gate := Some g1\<rparr>)
          else s)"

definition condemn_hold :: "verdict \<Rightarrow> consumer \<Rightarrow> consumer" where
  "condemn_hold v s =
     (case cs_hold s of
        None \<Rightarrow> s
      | Some h \<Rightarrow>
          let h1 = (if v_discard_all v then fst (hw_discard h)
                    else if 0 < v_discard_bytes v then fst (hw_discard_tail (v_discard_bytes v) h)
                    else h)
          in s\<lparr>cs_hold := Some h1,
               cs_log := cs_log s @ (if condemns v then [CondemnHeld v (held h1) (drop (length (held h1)) (held h))]
                                     else [])\<rparr>)"

definition settle_hold :: "delivery_env \<Rightarrow> verdict \<Rightarrow> consumer \<Rightarrow> consumer" where
  "settle_hold E v s = flush_hold E (condemn_hold v (condemn_gate v (reset_vad v s)))"

section \<open>Final markers\<close>

definition emit_end_events :: "end_events \<Rightarrow> consumer \<Rightarrow> consumer" where
  "emit_end_events ev s =
     (let s1 = log_item (SendEvent (fst ev)) s in case snd ev of None \<Rightarrow> s1 | Some p \<Rightarrow> log_item (SendEvent p) s1)"

definition publish_segment_end :: "segment_key \<Rightarrow> consumer \<Rightarrow> consumer" where
  "publish_segment_end key s =
     (case map_of (cs_end_events s) key of
        None \<Rightarrow> s
      | Some ev \<Rightarrow>
          emit_end_events ev (s\<lparr>cs_end_events := AList.delete key (cs_end_events s),
                                cs_end_meta := filter (\<lambda>(i, k, n). k \<noteq> key) (cs_end_meta s)\<rparr>))"

definition publish_ready_segment_end :: "int \<Rightarrow> int \<Rightarrow> consumer \<Rightarrow> consumer" where
  "publish_ready_segment_end seg frame_end s =
     (case map_of (cs_end_meta s) seg of
        None \<Rightarrow> s
      | Some (key, expected) \<Rightarrow>
          if 0 < expected \<and> 0 < frame_end \<and> frame_end < expected then s else publish_segment_end key s)"

definition publish_ready_chunk_ends :: "attributed_chunk list \<Rightarrow> consumer \<Rightarrow> consumer" where
  "publish_ready_chunk_ends chunks s =
     fold (\<lambda>c. publish_ready_segment_end (chunk_segment c) (source_frame_end c)) chunks s"

definition progress_frames :: "int \<Rightarrow> consumer \<Rightarrow> int" where
  "progress_frames seg s = (case map_of (cs_progress_frames s) seg of None \<Rightarrow> 0 | Some n \<Rightarrow> n)"

text \<open>The marker of a drained segment is published when its frames have all been seen.\<close>

definition publish_drained :: "segment_key \<Rightarrow> consumer \<Rightarrow> consumer" where
  "publish_drained key s =
     (if map_of (cs_end_events s) key = None then s
      else case List.find (\<lambda>(i, k, n). k = key) (cs_end_meta s) of
             None \<Rightarrow> s
           | Some (i, _) \<Rightarrow> if 0 \<le> i then publish_ready_segment_end i (progress_frames i s) s else s)"


section \<open>Engine results\<close>

datatype engine_result =
    AudioChunk int "byte list" "pyobj option" "int option" "int option"
  | PrefillDone int pyobj
  | SegmentRetry int
  | SegmentEnd int end_metrics "end_events option" "int option"
  | WarningResult pyobj
  | SessionDone
  | ErrorResult string

definition order_of :: "int \<Rightarrow> consumer \<Rightarrow> order_meta" where
  "order_of seg s =
     (case map_of (cs_order s) seg of
        Some m \<Rightarrow> m
      | None \<Rightarrow> \<lparr>group_idx = seg, local_idx = 0, group_final = True\<rparr>)"

definition key_of_meta :: "order_meta \<Rightarrow> segment_key" where
  "key_of_meta m = (group_idx m, local_idx m)"

text \<open>The frame bookkeeping at the start of \<open>_make_text_progress_event\<close>.\<close>

definition note_frames :: "int \<Rightarrow> int option \<Rightarrow> bool \<Rightarrow> consumer \<Rightarrow> consumer" where
  "note_frames seg frame_end fin s =
     (let old = progress_frames seg s;
          fe = (case frame_end of Some n \<Rightarrow> n | None \<Rightarrow> old + (if fin then 0 else 1))
      in s\<lparr>cs_progress_frames := AList.update seg (max old fe) (cs_progress_frames s)\<rparr>)"

definition observe_frames :: "delivery_env \<Rightarrow> byte list \<Rightarrow> consumer \<Rightarrow> consumer" where
  "observe_frames E audio s =
     (if audio = [] then s
      else s\<lparr>cs_estimator := map_option (observe_codec_frames (rounding E)
               (max 1 (round_half_even (rounding E (of_int (int (length audio)) / of_int frame_bytes))))) (cs_estimator s)\<rparr>)"

definition zero_or :: "int option \<Rightarrow> int" where
  "zero_or x = (case x of Some n \<Rightarrow> n | None \<Rightarrow> 0)"

definition attributed_chunk_of ::
  "int \<Rightarrow> byte list \<Rightarrow> pyobj option \<Rightarrow> int option \<Rightarrow> int option \<Rightarrow> attributed_chunk" where
  "attributed_chunk_of seg audio progress fs fe =
     \<lparr>pcm_bytes = audio, progress_event = progress, chunk_segment = seg,
      source_frame_start = zero_or fs, source_frame_end = zero_or fe\<rparr>"

definition on_audio_chunk ::
  "delivery_env \<Rightarrow> int \<Rightarrow> byte list \<Rightarrow> pyobj option \<Rightarrow> int option \<Rightarrow> int option \<Rightarrow> consumer \<Rightarrow> consumer" where
  "on_audio_chunk E seg audio progress fs fe s =
     (let s1 = note_frames seg fe False (observe_frames E audio s);
          m = order_of seg s1;
          (r, ready) = reorder_push (clock_now E s1) (group_idx m) (local_idx m)
                         (attributed_chunk_of seg audio progress fs fe) (cs_reorder s1)
      in publish_ready_chunk_ends ready (deliver E ready (next_read s1\<lparr>cs_reorder := r\<rparr>)))"

definition on_prefill_done :: "int \<Rightarrow> pyobj \<Rightarrow> consumer \<Rightarrow> consumer" where
  "on_prefill_done seg ev s =
     (if seg \<in> set (cs_prefill_seen s) then s
      else log_item (SendEvent ev) (s\<lparr>cs_prefill_seen := seg # cs_prefill_seen s\<rparr>))"

definition on_segment_retry :: "delivery_env \<Rightarrow> int \<Rightarrow> consumer \<Rightarrow> consumer" where
  "on_segment_retry E seg s =
     (let m = order_of seg s
      in next_read s\<lparr>cs_reorder := fst (discard (clock_now E s) (group_idx m) (local_idx m) (cs_reorder s)),
                cs_progress_frames := AList.delete seg (cs_progress_frames s)\<rparr>)"

text \<open>The verdict of a finished segment: settled at once for the playhead, kept for later otherwise.\<close>

definition record_verdict :: "delivery_env \<Rightarrow> verdict \<Rightarrow> segment_key \<Rightarrow> consumer \<Rightarrow> consumer" where
  "record_verdict E v key s =
     (if cs_hold s \<noteq> None
      then if next_emit_segment (cs_reorder s) = key then settle_hold E v s
           else s\<lparr>cs_verdicts := AList.update key v (cs_verdicts s)\<rparr>
      else let s1 = condemn_gate v s
           in if cs_bypass s1 \<noteq> None \<and> (condemns v \<or> ends_abort (v_eos_reason v))
              then s1\<lparr>cs_vad_resets := List.insert key (cs_vad_resets s1)\<rparr> else s1)"

definition queue_end_events :: "int \<Rightarrow> segment_key \<Rightarrow> int \<Rightarrow> end_events option \<Rightarrow> consumer \<Rightarrow> consumer" where
  "queue_end_events seg key steps prepared s =
     (case prepared of
        None \<Rightarrow> s
      | Some ev \<Rightarrow> s\<lparr>cs_end_events := AList.update key ev (cs_end_events s),
                    cs_end_meta := AList.update seg (key, max 0 steps) (cs_end_meta s)\<rparr>)"

text \<open>One entry of the segment-attributed drain, without and with a hold window.\<close>

definition drain_firehose :: "delivery_env \<Rightarrow> segment_key \<times> attributed_chunk list \<times> bool \<Rightarrow> consumer \<Rightarrow> consumer" where
  "drain_firehose E d s =
     (case d of (key, chunks, fully_passed) \<Rightarrow>
        let s1 = (if chunks \<noteq> [] then publish_ready_chunk_ends chunks (deliver E chunks s) else s);
            s2 = (if fully_passed \<and> key \<in> set (cs_vad_resets s1) \<and> cs_bypass s1 \<noteq> None
                  then log_item ResetVad (s1\<lparr>cs_vad_resets := removeAll key (cs_vad_resets s1)\<rparr>) else s1)
        in publish_drained key s2)"

definition drain_guarded :: "delivery_env \<Rightarrow> segment_key \<times> attributed_chunk list \<times> bool \<Rightarrow> consumer \<Rightarrow> consumer" where
  "drain_guarded E d s =
     (case d of (key, chunks, fully_passed) \<Rightarrow>
        let s1 = (if chunks \<noteq> [] then publish_ready_chunk_ends chunks (deliver E chunks s) else s);
            s2 = publish_drained key s1
        in if fully_passed
           then case map_of (cs_verdicts s2) key of
                  Some v \<Rightarrow> settle_hold E v (s2\<lparr>cs_verdicts := AList.delete key (cs_verdicts s2)\<rparr>)
                | None \<Rightarrow> s2
           else s2)"

text \<open>A finished segment up to the drain: its verdict, the feedback and its queued final marker.\<close>

definition prepare_segment_end ::
  "delivery_env \<Rightarrow> int \<Rightarrow> end_metrics \<Rightarrow> end_events option \<Rightarrow> int option \<Rightarrow> consumer \<Rightarrow> consumer" where
  "prepare_segment_end E seg m prepared fe s =
     (let key = key_of_meta (order_of seg s);
          s1 = record_verdict E (hold_verdict (rounding E) seg m) key (s\<lparr>cs_order := AList.delete seg (cs_order s)\<rparr>);
          s2 = s1\<lparr>cs_estimator := map_option (observe_normalized_tokens (em_text_tokens m) None) (cs_estimator s1)\<rparr>;
          s3 = (if prepared = None then s2 else note_frames seg fe (\<not> ends_abort (em_eos_reason m)) s2)
      in queue_end_events seg key (em_audio_steps m) prepared s3)"

definition on_segment_end ::
  "delivery_env \<Rightarrow> int \<Rightarrow> end_metrics \<Rightarrow> end_events option \<Rightarrow> int option \<Rightarrow> consumer \<Rightarrow> consumer" where
  "on_segment_end E seg m prepared fe s =
     (let om = order_of seg s;
          s1 = prepare_segment_end E seg m prepared fe s;
          (r, out) = mark_done_ex (clock_now E s1) (group_idx om) (local_idx om) (group_final om) (cs_reorder s1);
          s2 = next_read s1\<lparr>cs_reorder := r\<rparr>;
          s3 = fold (if cs_hold s2 = None then drain_firehose E else drain_guarded E) out s2
      in s3\<lparr>cs_progress_frames := AList.delete seg (cs_progress_frames s3)\<rparr>)"

definition finish_delivery :: "delivery_env \<Rightarrow> client_item \<Rightarrow> consumer \<Rightarrow> consumer" where
  "finish_delivery E item s =
     (log_item item (release_semantic_due E True (flush_hold E s)))\<lparr>cs_finished := True\<rparr>"

fun on_result :: "delivery_env \<Rightarrow> engine_result \<Rightarrow> consumer \<Rightarrow> consumer" where
  "on_result E (AudioChunk seg audio p fs fe) s = on_audio_chunk E seg audio p fs fe s"
| "on_result E (PrefillDone seg ev) s = on_prefill_done seg ev s"
| "on_result E (SegmentRetry seg) s = on_segment_retry E seg s"
| "on_result E (SegmentEnd seg m prepared fe) s = on_segment_end E seg m prepared fe s"
| "on_result E (WarningResult ev) s = log_item (SendEvent ev) s"
| "on_result E SessionDone s = finish_delivery E SendDone s"
| "on_result E (ErrorResult msg) s = finish_delivery E (SendError msg) s"

section \<open>The coroutine and its tickers\<close>

text \<open>
  What can happen next: the dispatcher registers a segment, the queue yields a result, the hold
  ticker or the gate ticker fires, the watchdog looks at the reorder buffer.
\<close>

datatype consumer_op =
    Register int order_meta
  | Result engine_result
  | HoldTick
  | GateTick
  | ReorderWatch pyobj

definition hold_tick :: "delivery_env \<Rightarrow> consumer \<Rightarrow> consumer" where
  "hold_tick E s =
     (case cs_hold s of None \<Rightarrow> s | Some h \<Rightarrow> if held_bytes h \<noteq> 0 then release_hold E s else s)"

definition reorder_watch :: "delivery_env \<Rightarrow> pyobj \<Rightarrow> consumer \<Rightarrow> consumer" where
  "reorder_watch E ev s =
     (if cs_cancelled s \<or> stall_timeout_sec (cs_reorder s) \<le> 0 then s
      else case check_stall (rounding E) None (clock_now E s) (cs_reorder s) of
        None \<Rightarrow> next_read s
      | Some st \<Rightarrow> log_item (CancelSession ''audio_reorder_stall_timeout'')
                    (log_item (SendEvent ev) (next_read s\<lparr>cs_cancelled := True\<rparr>)))"

fun consumer_step :: "delivery_env \<Rightarrow> consumer_op \<Rightarrow> consumer \<Rightarrow> consumer" where
  "consumer_step E (Register seg m) s = s\<lparr>cs_order := AList.update seg m (cs_order s)\<rparr>"
| "consumer_step E (Result r) s = (if cs_finished s then s else on_result E r s)"
| "consumer_step E HoldTick s = (if cs_finished s then s else hold_tick E s)"
| "consumer_step E GateTick s = (if cs_finished s then s else release_semantic_due E False s)"
| "consumer_step E (ReorderWatch ev) s = (if cs_finished s then s else reorder_watch E ev s)"

definition new_consumer ::
  "attributed_chunk reorder \<Rightarrow> hold_window option \<Rightarrow> start_gate option \<Rightarrow> prefix_bypass option \<Rightarrow>
   credit_estimator option \<Rightarrow> consumer" where
  "new_consumer r h g b e =
     \<lparr>cs_reorder = r, cs_hold = h, cs_gate = g, cs_bypass = b, cs_estimator = e, cs_order = [], cs_verdicts = [],
      cs_vad_resets = [], cs_end_events = [], cs_end_meta = [], cs_progress_frames = [], cs_prefill_seen = [],
      cs_log = [], cs_reads = 0, cs_cancelled = False, cs_finished = False\<rparr>"

section \<open>What is on its way\<close>

text \<open>The chunks that verdicts dropped from the gate and from the window, with the segment judged.\<close>

fun condemned :: "client_item list \<Rightarrow> (int \<times> attributed_chunk) list" where
  "condemned [] = []"
| "condemned (CondemnHeld v kept gone # items) = map (Pair (v_seg_idx v)) gone @ condemned items"
| "condemned (CondemnGate v kept gone # items) = map (Pair (v_seg_idx v)) gone @ condemned items"
| "condemned (_ # items) = condemned items"

lemma condemned_append [simp]: "condemned (xs @ ys) = condemned xs @ condemned ys"
  by (induction xs rule: condemned.induct) auto

lemma condemned_map [simp]: "condemned (map SendAudio cs) = []"
  by (induction cs) auto

definition dropped :: "consumer \<Rightarrow> attributed_chunk list" where
  "dropped s = map snd (condemned (cs_log s))"

text \<open>
  What a logged verdict may take: the newest audio of the window, and the newest audio of its own
  segment in the gate, as much as the verdict says.
\<close>

fun cut_ok :: "client_item \<Rightarrow> bool" where
  "cut_ok (CondemnHeld v kept gone) \<longleftrightarrow> tail_cut (v_discard_all v) (v_discard_bytes v) kept gone"
| "cut_ok (CondemnGate v kept gone) \<longleftrightarrow>
     list_all (\<lambda>c. chunk_segment c = v_seg_idx v) gone \<and>
     tail_cut (v_discard_all v) (v_discard_bytes v) (filter (\<lambda>c. chunk_segment c = v_seg_idx v) kept) gone"
| "cut_ok _ \<longleftrightarrow> True"

definition cuts_ok :: "consumer \<Rightarrow> bool" where
  "cuts_ok s \<longleftrightarrow> list_all cut_ok (cs_log s)"

lemma cut_ok_send [simp]: "list_all cut_ok (map SendAudio cs)"
  by (simp add: list_all_iff)

definition sent :: "consumer \<Rightarrow> attributed_chunk list" where
  "sent s = audio_of (cs_log s)"

definition gate_held :: "consumer \<Rightarrow> attributed_chunk list" where
  "gate_held s = (case cs_gate s of None \<Rightarrow> [] | Some g \<Rightarrow> sg_held g)"

definition window_held :: "consumer \<Rightarrow> attributed_chunk list" where
  "window_held s = (case cs_hold s of None \<Rightarrow> [] | Some h \<Rightarrow> held h)"

text \<open>The audio that left the reorder buffer and was not condemned, in the order the client hears it.\<close>

definition stream :: "consumer \<Rightarrow> attributed_chunk list" where
  "stream s = sent s @ gate_held s @ window_held s"

definition stages_ok :: "consumer \<Rightarrow> bool" where
  "stages_ok s \<longleftrightarrow> (\<forall>g. cs_gate s = Some g \<longrightarrow> gate_ok g) \<and> (\<forall>h. cs_hold s = Some h \<longrightarrow> hold_ok h) \<and>
     (cs_bypass s \<noteq> None \<longrightarrow> cs_gate s = None) \<and> (bypassing s \<longrightarrow> window_held s = [])"

text \<open>The parts of the state that sending does not touch, and those that the markers do not touch.\<close>

definition control :: "consumer \<Rightarrow> attributed_chunk reorder \<times> (segment_key \<times> verdict) list \<times> segment_key list \<times> (int \<times> order_meta) list \<times> bool" where
  "control s = (cs_reorder s, cs_verdicts s, cs_vad_resets s, cs_order s, cs_hold s = None)"

definition flow :: "consumer \<Rightarrow> attributed_chunk list \<times> (int \<times> attributed_chunk) list \<times> bool \<times> start_gate option \<times> hold_window option \<times> prefix_bypass option" where
  "flow s = (sent s, condemned (cs_log s), cuts_ok s, cs_gate s, cs_hold s, cs_bypass s)"

lemma control_simps [simp]:
  "control (s\<lparr>cs_log := a\<rparr>) = control s" "control (s\<lparr>cs_bypass := b\<rparr>) = control s"
  "control (s\<lparr>cs_gate := g\<rparr>) = control s" "control (s\<lparr>cs_reads := n\<rparr>) = control s" "control (next_read s) = control s"
  "control (log_item i s) = control s" "control (s\<lparr>cs_end_events := e1, cs_end_meta := e2\<rparr>) = control s"
  "control (s\<lparr>cs_estimator := e\<rparr>) = control s" "control (s\<lparr>cs_progress_frames := f\<rparr>) = control s"
  by (simp_all add: control_def next_read_def log_item_def)

lemma flow_simps [simp]:
  "flow (next_read s) = flow s" "flow (s\<lparr>cs_end_events := e1, cs_end_meta := e2\<rparr>) = flow s"
  "flow (s\<lparr>cs_estimator := e\<rparr>) = flow s" "flow (s\<lparr>cs_progress_frames := f\<rparr>) = flow s"
  "flow (s\<lparr>cs_reorder := r\<rparr>) = flow s" "flow (s\<lparr>cs_verdicts := v\<rparr>) = flow s" "flow (s\<lparr>cs_order := ord\<rparr>) = flow s"
  "flow (s\<lparr>cs_vad_resets := vr\<rparr>) = flow s" "flow (log_item (SendEvent ev) s) = flow s" "flow (log_item ResetVad s) = flow s"
  by (simp_all add: flow_def sent_def cuts_ok_def next_read_def log_item_def)

lemma flow_eq:
  assumes "flow s' = flow s"
  shows "stream s' = stream s" "stages_ok s' = stages_ok s" "condemned (cs_log s') = condemned (cs_log s)"
    "sent s' = sent s" "cs_hold s' = cs_hold s" "cs_gate s' = cs_gate s" "cs_bypass s' = cs_bypass s"
    "window_held s' = window_held s" "bypassing s' = bypassing s" "cuts_ok s' = cuts_ok s" "dropped s' = dropped s"
  using assms by (simp_all add: flow_def dropped_def stream_def stages_ok_def gate_held_def window_held_def bypassing_def)

lemma bypassing_simps [simp]:
  "bypassing (s\<lparr>cs_gate := g\<rparr>) = bypassing s" "bypassing (next_read s) = bypassing s" "bypassing (s\<lparr>cs_hold := h\<rparr>) = bypassing s"
  by (simp_all add: bypassing_def next_read_def)

lemma next_read_simps [simp]:
  "cs_gate (next_read s) = cs_gate s" "cs_hold (next_read s) = cs_hold s" "cs_bypass (next_read s) = cs_bypass s" "cs_log (next_read s) = cs_log s"
  "cs_reorder (next_read s) = cs_reorder s" "cs_verdicts (next_read s) = cs_verdicts s" "cs_vad_resets (next_read s) = cs_vad_resets s"
  "cs_order (next_read s) = cs_order s"
  by (simp_all add: next_read_def)

section \<open>Sending keeps the order\<close>

lemma send_one_effect:
  "cs_log (send_one E c s) = cs_log s @ [SendAudio c]" "control (send_one E c s) = control s"
  "cs_gate (send_one E c s) = cs_gate s" "cs_hold (send_one E c s) = cs_hold s" "cs_reads (send_one E c s) = cs_reads s"
  "bypassing (send_one E c s) \<Longrightarrow> bypassing s" "cs_bypass (send_one E c s) = None \<longleftrightarrow> cs_bypass s = None"
  by (auto simp: send_one_def log_item_def bypassing_def mark_first_effective_def Let_def split: option.splits)

lemma send_now_effect:
  "cs_log (send_now E cs s) = cs_log s @ map SendAudio cs" "control (send_now E cs s) = control s"
  "cs_gate (send_now E cs s) = cs_gate s" "cs_hold (send_now E cs s) = cs_hold s"
  "bypassing (send_now E cs s) \<Longrightarrow> bypassing s" "cs_bypass (send_now E cs s) = None \<longleftrightarrow> cs_bypass s = None"
proof -
  have "cs_log (send_now E cs s) = cs_log s @ map SendAudio cs \<and> control (send_now E cs s) = control s \<and>
    cs_gate (send_now E cs s) = cs_gate s \<and> cs_hold (send_now E cs s) = cs_hold s \<and>
    (bypassing (send_now E cs s) \<longrightarrow> bypassing s) \<and> (cs_bypass (send_now E cs s) = None \<longleftrightarrow> cs_bypass s = None)"
    unfolding send_now_def
  proof (induction cs arbitrary: s)
    case (Cons c cs)
    show ?case using Cons.IH [of "send_one E c s"] send_one_effect [of E c s] by simp
  qed simp
  then show "cs_log (send_now E cs s) = cs_log s @ map SendAudio cs" "control (send_now E cs s) = control s"
    "cs_gate (send_now E cs s) = cs_gate s" "cs_hold (send_now E cs s) = cs_hold s"
    "bypassing (send_now E cs s) \<Longrightarrow> bypassing s" "cs_bypass (send_now E cs s) = None \<longleftrightarrow> cs_bypass s = None"
    by blast+
qed

text \<open>What every way of sending guarantees: \<open>moves cs s s'\<close> says that \<open>cs\<close> joined the stream.\<close>

definition moves :: "attributed_chunk list \<Rightarrow> consumer \<Rightarrow> consumer \<Rightarrow> bool" where
  "moves cs s s' \<longleftrightarrow> stages_ok s' \<and> control s' = control s \<and> condemned (cs_log s') = condemned (cs_log s) \<and>
     cuts_ok s' = cuts_ok s \<and> (cs_bypass s' = None \<longleftrightarrow> cs_bypass s = None) \<and> (bypassing s' \<longrightarrow> bypassing s) \<and>
     filter audible (stream s') = filter audible (stream s @ cs)"

lemma moves_refl: "stages_ok s \<Longrightarrow> moves [] s s"
  by (simp add: moves_def)

lemma moves_trans: "moves cs s s1 \<Longrightarrow> moves cs' s1 s2 \<Longrightarrow> moves (cs @ cs') s s2"
  unfolding moves_def by auto

lemma send_chunks_effect:
  assumes "stages_ok s"
  shows "(\<forall>g. cs_gate (send_chunks E cs s) = Some g \<longrightarrow> gate_ok g) \<and>
     (cs_gate (send_chunks E cs s) = None \<longleftrightarrow> cs_gate s = None) \<and>
     control (send_chunks E cs s) = control s \<and> cs_hold (send_chunks E cs s) = cs_hold s \<and>
     condemned (cs_log (send_chunks E cs s)) = condemned (cs_log s) \<and>
     cuts_ok (send_chunks E cs s) = cuts_ok s \<and>
     (cs_bypass (send_chunks E cs s) = None \<longleftrightarrow> cs_bypass s = None) \<and>
     (bypassing (send_chunks E cs s) \<longrightarrow> bypassing s) \<and>
     filter audible (sent (send_chunks E cs s) @ gate_held (send_chunks E cs s)) =
       filter audible (sent s @ gate_held s @ cs)"
proof (cases "cs = []")
  case True
  then show ?thesis using assms by (simp add: send_chunks_def stages_ok_def)
next
  case ne: False
  have direct: ?thesis if "send_chunks E cs s = send_now E cs s" "gate_held s = []"
    using that assms by (simp add: send_now_effect sent_def cuts_ok_def stages_ok_def gate_held_def)
  show ?thesis
  proof (cases "cs_gate s")
    case None
    with ne show ?thesis by (intro direct) (simp_all add: send_chunks_def gate_held_def)
  next
    case (Some g)
    have gok: "gate_ok g" using assms Some by (simp add: stages_ok_def)
    show ?thesis
    proof (cases "sg_released g")
      case True
      with ne Some gok show ?thesis by (intro direct) (simp_all add: send_chunks_def gate_held_def gate_ok_def)
    next
      case False
      define t where "t = next_read s"
      define u where "u = (clock_now E t, pending_raw_at E (cs_reads t), current_safe_wait E t)"
      obtain g2 out where r: "sg_release_due (rounding E) (clock_now E t) (pending_raw_at E (cs_reads t))
          (current_safe_wait E t) (sg_push (clock_now E s) cs g) = (g2, out)" by fastforce
      note p = sg_push_closed [OF False, of "clock_now E s" cs]
      have g2: "gate_ok g2" "out @ sg_held g2 = sg_held g @ filter audible cs"
        using sg_release_due_split [OF _ r] p gok by auto
      have sc: "send_chunks E cs s = send_now E out (next_read t\<lparr>cs_gate := Some g2\<rparr>)"
        using ne Some False r by (simp add: send_chunks_def t_def)
      show ?thesis unfolding sc using g2 Some filter_keep [OF g2(2)]
        by (auto simp: send_now_effect t_def sent_def cuts_ok_def gate_held_def dest: send_now_effect(5))
    qed
  qed
qed

text \<open>Audio that comes out of the hold window and goes on, with the window in its new state.\<close>

lemma send_from_hold:
  assumes ok: "stages_ok s" and s1: "cs_hold s1 = Some h'" "cs_gate s1 = cs_gate s" "cs_bypass s1 = cs_bypass s"
      "cs_log s1 = cs_log s" "control s1 = control s"
    and h': "hold_ok h'" "filter audible (out @ held h') = filter audible (window_held s @ cs)"
    and by': "bypassing s \<Longrightarrow> held h' = []"
  shows "moves cs s (send_chunks E out s1)"
proof -
  have bp: "bypassing s1 = bypassing s" using s1(3) by (simp add: bypassing_def)
  have ok1: "stages_ok s1" using ok s1 h'(1) by' by (auto simp: stages_ok_def window_held_def bp)
  note e = send_chunks_effect [OF ok1, of E out]
  define s2 where "s2 = send_chunks E out s1"
  have st: "sent s1 = sent s" "gate_held s1 = gate_held s" using s1 by (simp_all add: sent_def gate_held_def)
  have w: "window_held s2 = held h'" using e s1(1) by (simp add: s2_def window_held_def)
  have "filter audible (stream s2) = filter audible (sent s2 @ gate_held s2) @ filter audible (held h')"
    by (simp add: stream_def w)
  also have "\<dots> = filter audible (sent s @ gate_held s) @ filter audible (out @ held h')"
    using e by (simp add: s2_def st)
  also have "\<dots> = filter audible (stream s @ cs)" unfolding h'(2) by (simp add: stream_def)
  finally have "filter audible (stream s2) = filter audible (stream s @ cs)" .
  moreover have "stages_ok s2"
    using e ok1 h'(1) by' bp unfolding stages_ok_def s2_def [symmetric] w by (auto simp: s1)
  ultimately show ?thesis
    using e s1 bp unfolding moves_def s2_def [symmetric] by (auto simp: cuts_ok_def)
qed

lemma release_hold_moves:
  assumes "stages_ok s"
  shows "moves [] s (release_hold E s)"
proof (cases "cs_hold s")
  case (Some h)
  obtain h1 out where r: "hw_release_due (rounding E) (clock_now E s) h = (h1, out)" by fastforce
  have hok: "hold_ok h" using assms Some by (simp add: stages_ok_def)
  have "moves [] s (send_chunks E out (next_read s\<lparr>cs_hold := Some h1\<rparr>))"
  proof (rule send_from_hold [OF assms])
    show "hold_ok h1" using hw_release_due_ok [OF hok r] by simp
    show "filter audible (out @ held h1) = filter audible (window_held s @ [])"
      using hw_release_due_split(1) [OF r] by (simp add: window_held_def Some)
    show "held h1 = []" if "bypassing s"
      using that assms hw_release_due_split(1) [OF r] by (auto simp: stages_ok_def window_held_def Some)
  qed (simp_all add: control_def Some)
  then show ?thesis by (simp add: release_hold_def Some r)
qed (simp add: release_hold_def moves_refl assms)

lemma flush_hold_moves:
  assumes "stages_ok s"
  shows "moves [] s (flush_hold E s) \<and> window_held (flush_hold E s) = []"
proof (cases "cs_hold s")
  case (Some h)
  have hok: "hold_ok h" using assms Some by (simp add: stages_ok_def)
  obtain h1 out where f: "hw_flush h = (h1, out)" by fastforce
  have law: "hold_ok h1" "held h1 = []" "out = held h" using f hok by (auto simp: hw_flush_def hold_ok_def)
  have s1: "stages_ok (s\<lparr>cs_hold := Some h1\<rparr>)" using assms law by (auto simp: stages_ok_def window_held_def)
  have "moves [] s (send_chunks E out (s\<lparr>cs_hold := Some h1\<rparr>))"
    by (rule send_from_hold [where h' = h1, OF assms]) (simp_all add: control_def window_held_def Some law)
  then show ?thesis
    using law send_chunks_effect [OF s1, of E out] by (simp add: flush_hold_def Some f window_held_def)
qed (simp add: flush_hold_def moves_refl assms window_held_def)

lemma release_semantic_moves:
  assumes "stages_ok s"
  shows "moves [] s (release_semantic_due E force s) \<and> (force \<longrightarrow> gate_held (release_semantic_due E force s) = []) \<and>
         cs_hold (release_semantic_due E force s) = cs_hold s"
proof (cases "cs_gate s")
  case (Some g)
  have gok: "gate_ok g" using assms Some by (simp add: stages_ok_def)
  define x where "x = (if force then sg_flush g else sg_release_due (rounding E) (clock_now E s)
      (pending_raw_at E (cs_reads s)) (current_safe_wait E s) g)"
  obtain g1 out where g: "x = (g1, out)" by fastforce
  have law: "gate_ok g1" "filter audible (out @ sg_held g1) = filter audible (sg_held g)" "force \<longrightarrow> sg_held g1 = []"
    using gate_stage.finish_law [OF gok, of g1 out] sg_release_due_split [OF gok, of _ _ _ _ g1 out] g
    by (auto simp: x_def split: if_splits)
  have eq: "release_semantic_due E force s = send_now E out (next_read s\<lparr>cs_gate := Some g1\<rparr>)"
    using g by (simp add: release_semantic_due_def Some x_def)
  have nb: "cs_bypass s = None" using assms Some by (auto simp: stages_ok_def)
  then have b0: "\<not> bypassing (release_semantic_due E force s)" unfolding eq
    by (auto simp: bypassing_def dest!: send_now_effect(5) [unfolded bypassing_def])
  show ?thesis
    using assms law nb b0 unfolding eq
    by (simp add: moves_def stages_ok_def send_now_effect stream_def sent_def cuts_ok_def gate_held_def window_held_def Some)
qed (simp add: release_semantic_due_def moves_refl assms gate_held_def)

lemma deliver_one_moves:
  assumes "stages_ok s" and "cs_hold s \<noteq> None"
  shows "moves [c] s (deliver_one E c s)"
proof -
  obtain h where h: "cs_hold s = Some h" using assms(2) by blast
  have hok: "hold_ok h" using assms(1) h by (simp add: stages_ok_def)
  show ?thesis
  proof (cases "bypassing s")
    case True
    then obtain b where b: "cs_bypass s = Some b" "should_bypass b" by (auto simp: bypassing_def split: option.splits)
    have e: "held h = []" using assms(1) True h by (auto simp: stages_ok_def window_held_def)
    define s0 where "s0 = s\<lparr>cs_bypass := Some (record_bypass (chunk_len c) b)\<rparr>"
    define s1 where "s1 = send_chunks E [c] s0"
    have by0: "bypassing s0" using b by (simp add: s0_def bypassing_def record_bypass_def)
    have ok0: "stages_ok s0" using assms(1) e by0 by (auto simp: s0_def stages_ok_def window_held_def b h)
    have m: "moves [c] s0 s1" unfolding s1_def
      by (rule send_from_hold [where h' = h, OF ok0]) (simp_all add: s0_def h hok e window_held_def)
    have st0: "stream s0 = stream s" "control s0 = control s" "cs_log s0 = cs_log s" "cs_bypass s0 \<noteq> None"
      by (simp_all add: s0_def stream_def sent_def gate_held_def window_held_def)
    have d: "deliver_one E c s = (if bypassing s1 then s1
        else next_read (s1\<lparr>cs_hold := map_option (record_external_release (clock_now E s1)
               (case cs_bypass s1 of Some b1 \<Rightarrow> first_effective_audio_bytes b1 | None \<Rightarrow> 0)) (cs_hold s1)\<rparr>))"
      using b by (simp add: deliver_one_def s1_def s0_def Let_def)
    have rec: "held (record_external_release t n h') = held h'" "hold_ok (record_external_release t n h') = hold_ok h'" for t n h'
      by (simp_all add: record_external_release_def hold_ok_def Let_def)
    have "moves [c] s0 (deliver_one E c s)"
    proof (cases "bypassing s1")
      case False
      define s2 where "s2 = deliver_one E c s"
      have s2: "s2 = next_read (s1\<lparr>cs_hold := map_option (record_external_release (clock_now E s1)
               (case cs_bypass s1 of Some b1 \<Rightarrow> first_effective_audio_bytes b1 | None \<Rightarrow> 0)) (cs_hold s1)\<rparr>)"
        using d False by (simp add: s2_def)
      have w: "window_held s2 = window_held s1" "gate_held s2 = gate_held s1" "sent s2 = sent s1" "bypassing s2 = bypassing s1"
        "control s2 = control s1" "cs_log s2 = cs_log s1" "cs_bypass s2 = cs_bypass s1" "cs_gate s2 = cs_gate s1"
        unfolding s2 by (auto simp: window_held_def gate_held_def sent_def control_def rec split: option.split)
      have "stages_ok s2" using m False unfolding moves_def stages_ok_def w
        by (auto simp: s2 rec)
      then show ?thesis using m unfolding s2_def [symmetric] moves_def stream_def cuts_ok_def w by simp
    qed (use m d in simp)
    with st0 b True by0 show ?thesis by (simp add: moves_def cuts_ok_def)
  next
    case False
    define s1 where "s1 = s\<lparr>cs_hold := Some (hw_push [c] h)\<rparr>"
    have "deliver_one E c s = release_hold E s1"
      using False by (auto simp: deliver_one_def s1_def h bypassing_def split: option.splits)
    moreover have ok1: "stages_ok s1"
      using assms(1) False hw_push_ok [OF hok] by (auto simp: stages_ok_def s1_def)
    moreover have "control s1 = control s" "cs_log s1 = cs_log s" "cs_bypass s1 = cs_bypass s" "bypassing s1 = bypassing s"
      by (simp_all add: s1_def control_def h)
    moreover have "filter audible (stream s1) = filter audible (stream s @ [c])"
      by (simp add: stream_def sent_def gate_held_def window_held_def s1_def h hw_push_state)
    ultimately show ?thesis using release_hold_moves [OF ok1, of E] unfolding moves_def cuts_ok_def by simp
  qed
qed

lemma deliver_moves:
  assumes "stages_ok s"
  shows "moves cs s (deliver E cs s)"
proof (cases "cs_hold s = None")
  case True
  have e: "window_held s = []" by (simp add: True window_held_def)
  show ?thesis
    using send_chunks_effect [OF assms, of E cs] assms True
    by (auto simp: deliver_def moves_def stages_ok_def stream_def window_held_def)
next
  case False
  have "moves cs s (fold (deliver_one E) cs s)" using assms False
  proof (induction cs arbitrary: s)
    case (Cons c cs)
    have m: "moves [c] s (deliver_one E c s)" by (rule deliver_one_moves [OF Cons.prems])
    then have "cs_hold (deliver_one E c s) \<noteq> None" using Cons.prems(2) by (auto simp: moves_def control_def)
    with m have "moves cs (deliver_one E c s) (fold (deliver_one E) cs (deliver_one E c s))"
      by (intro Cons.IH) (simp_all add: moves_def)
    with m show ?case using moves_trans [OF m] by simp
  qed (simp add: moves_refl)
  with False show ?thesis by (auto simp: deliver_def)
qed

section \<open>Markers and verdicts\<close>

lemma publish_segment_end_effect:
  "flow (publish_segment_end key s) = flow s" "control (publish_segment_end key s) = control s"
  by (auto simp: publish_segment_end_def emit_end_events_def Let_def split: option.split)

lemma publish_ready_effect:
  "flow (publish_ready_segment_end seg fe s) = flow s" "control (publish_ready_segment_end seg fe s) = control s"
  by (auto simp: publish_ready_segment_end_def publish_segment_end_effect split: option.split)

lemma publish_chunks_effect:
  "flow (publish_ready_chunk_ends cs s) = flow s" "control (publish_ready_chunk_ends cs s) = control s"
proof -
  have "flow (publish_ready_chunk_ends cs s) = flow s \<and> control (publish_ready_chunk_ends cs s) = control s"
    unfolding publish_ready_chunk_ends_def
    by (induction cs arbitrary: s) (simp_all add: publish_ready_effect)
  then show "flow (publish_ready_chunk_ends cs s) = flow s" "control (publish_ready_chunk_ends cs s) = control s" by blast+
qed

lemma publish_drained_effect:
  "flow (publish_drained key s) = flow s" "control (publish_drained key s) = control s"
  by (auto simp: publish_drained_def publish_ready_effect split: option.split)

lemma moves_same:
  assumes "moves cs s s1" and "flow s2 = flow s1" and "control s2 = control s1"
  shows "moves cs s s2"
  using assms(1) unfolding moves_def flow_eq [OF assms(2)] assms(3) .

lemma moves_from:
  assumes "moves cs s1 s2" and "flow s1 = flow s" and "control s1 = control s"
  shows "moves cs s s2"
  using assms(1) unfolding moves_def flow_eq [OF assms(2)] assms(3) .

lemma note_frames_effect [simp]:
  "flow (note_frames seg fe fin s) = flow s" "control (note_frames seg fe fin s) = control s"
  by (simp_all add: note_frames_def Let_def)

lemma discard_loop_subseq: "subseq (fst (discard_loop seg all n cs)) cs"
  by (induction seg all n cs rule: discard_loop.induct) (auto split: prod.splits)

lemma subseq_reverse: "subseq xs ys \<Longrightarrow> subseq (rev xs) (rev ys)"
  by (induction rule: list_emb.induct) (auto intro: subseq_rev_drop_many list_emb_append_mono)

lemma sg_discard_subseq:
  assumes "sg_discard_segment seg all n g = (g', gone)"
  shows "subseq (sg_held g') (sg_held g)"
proof -
  have "subseq (rev (fst (discard_loop seg all (max n 0) (rev (sg_held g))))) (sg_held g)"
    using subseq_reverse [of "fst (discard_loop seg all (max n 0) (rev (sg_held g)))" "rev (sg_held g)"]
      discard_loop_subseq [of seg all "max n 0" "rev (sg_held g)"] by simp
  then show ?thesis using assms by (auto simp: sg_discard_segment_def split: if_splits prod.splits)
qed

lemma hw_discard_tail_ok: "hold_ok h \<Longrightarrow> hold_ok (fst (hw_discard_tail n h))"
proof -
  assume h: "hold_ok h"
  obtain k g where p: "pop_tail n (rev (held h)) = (k, g)" by fastforce
  then show ?thesis using pop_tail_split [OF p] h by (simp add: hold_ok_def hw_discard_tail_def)
qed

text \<open>A verdict: the window loses a suffix, the gate some chunks of the segment, and the rest goes on.\<close>

definition window_after :: "verdict \<Rightarrow> attributed_chunk list \<Rightarrow> attributed_chunk list" where
  "window_after v cs =
     (if v_discard_all v then [] else if 0 < v_discard_bytes v then fst (pop_tail (v_discard_bytes v) (rev cs)) else cs)"

lemma window_after_prefix: "\<exists>gone. cs = window_after v cs @ gone"
proof -
  obtain k g where p: "pop_tail (v_discard_bytes v) (rev cs) = (k, g)" by fastforce
  have "cs = k @ g" using pop_tail_split [OF p] by simp
  then show ?thesis using p by (simp add: window_after_def)
qed

lemma window_after_cut:
  assumes "condemns v"
  shows "tail_cut (v_discard_all v) (v_discard_bytes v) (window_after v cs) (drop (length (window_after v cs)) cs)"
proof (cases "v_discard_all v")
  case False
  obtain k g where p: "pop_tail (v_discard_bytes v) (rev cs) = (k, g)" by fastforce
  note c = pop_tail_cut [OF p]
  moreover have "window_after v cs = k" using False assms p by (simp add: window_after_def condemns_def)
  ultimately show ?thesis using False by (metis append_eq_conv_conj rev_rev_ident)
qed (simp add: window_after_def tail_cut_def)

lemma condemn_hold_effect:
  assumes "stages_ok s"
  shows "stages_ok (condemn_hold v s)" "control (condemn_hold v s) = control s" "sent (condemn_hold v s) = sent s"
    "gate_held (condemn_hold v s) = gate_held s" "window_held (condemn_hold v s) = window_after v (window_held s)"
    "condemned (cs_log (condemn_hold v s)) =
       condemned (cs_log s) @ map (Pair (v_seg_idx v)) (drop (length (window_after v (window_held s))) (window_held s))"
    "bypassing (condemn_hold v s) = bypassing s" "cs_bypass (condemn_hold v s) = cs_bypass s"
    "cuts_ok (condemn_hold v s) = cuts_ok s"
proof -
  have "stages_ok (condemn_hold v s) \<and> control (condemn_hold v s) = control s \<and> sent (condemn_hold v s) = sent s \<and>
    gate_held (condemn_hold v s) = gate_held s \<and> window_held (condemn_hold v s) = window_after v (window_held s) \<and>
    condemned (cs_log (condemn_hold v s)) =
       condemned (cs_log s) @ map (Pair (v_seg_idx v)) (drop (length (window_after v (window_held s))) (window_held s)) \<and>
    bypassing (condemn_hold v s) = bypassing s \<and> cs_bypass (condemn_hold v s) = cs_bypass s \<and>
    cuts_ok (condemn_hold v s) = cuts_ok s"
  proof (cases "cs_hold s")
    case None
    have "window_after v [] = []" using window_after_prefix [of "[]" v] by simp
    with None assms show ?thesis by (simp add: condemn_hold_def window_held_def)
  next
    case (Some h)
    define h1 where "h1 = (if v_discard_all v then fst (hw_discard h)
                    else if 0 < v_discard_bytes v then fst (hw_discard_tail (v_discard_bytes v) h)
                    else h)"
    have hh: "held h1 = window_after v (held h)"
      by (simp add: h1_def window_after_def hw_discard_def hw_discard_tail_def split: prod.split)
    obtain g where g: "held h = held h1 @ g" using window_after_prefix [of "held h" v] hh by metis
    have hok: "hold_ok h" using assms Some by (simp add: stages_ok_def)
    then have ok1: "hold_ok h1"
      using hw_discard_tail_ok [OF hok] by (auto simp: h1_def hold_ok_def hw_discard_def)
    define items where "items = (if condemns v then [CondemnHeld v (held h1) (drop (length (held h1)) (held h))] else [])"
    define s1 where "s1 = s\<lparr>cs_hold := Some h1, cs_log := cs_log s @ items\<rparr>"
    have drop: "drop (length (held h1)) (held h) = []" if "\<not> condemns v"
      using that by (simp add: hh window_after_def condemns_def)
    have it: "audio_of items = []" "condemned items = map (Pair (v_seg_idx v)) (drop (length (held h1)) (held h))"
      "list_all cut_ok items"
      using drop window_after_cut [of v "held h"] by (auto simp: items_def hh)
    have c: "condemn_hold v s = s1" unfolding condemn_hold_def Some s1_def items_def h1_def by (simp add: Let_def)
    have f: "cs_hold s1 = Some h1" "cs_gate s1 = cs_gate s" "cs_bypass s1 = cs_bypass s" "sent s1 = sent s"
      "condemned (cs_log s1) = condemned (cs_log s) @ map (Pair (v_seg_idx v)) (drop (length (held h1)) (held h))"
      "control s1 = control s" "cuts_ok s1 = cuts_ok s"
      by (simp_all add: s1_def sent_def control_def cuts_ok_def it Some)
    have "held h1 = []" if "bypassing s" using that assms g by (simp add: stages_ok_def window_held_def Some)
    then have "stages_ok s1" using assms ok1 by (simp add: stages_ok_def f window_held_def bypassing_def)
    then show ?thesis unfolding c by (simp add: f gate_held_def window_held_def bypassing_def Some hh)
  qed
  then show "stages_ok (condemn_hold v s)" "control (condemn_hold v s) = control s" "sent (condemn_hold v s) = sent s"
    "gate_held (condemn_hold v s) = gate_held s" "window_held (condemn_hold v s) = window_after v (window_held s)"
    "condemned (cs_log (condemn_hold v s)) =
       condemned (cs_log s) @ map (Pair (v_seg_idx v)) (drop (length (window_after v (window_held s))) (window_held s))"
    "bypassing (condemn_hold v s) = bypassing s" "cs_bypass (condemn_hold v s) = cs_bypass s"
    "cuts_ok (condemn_hold v s) = cuts_ok s"
    by blast+
qed

text \<open>
  \<open>follows clean cs s s'\<close>: the stream of \<open>s'\<close> is that of \<open>s\<close> with \<open>cs\<close> behind it, less exactly what
  was condemned on the way, and nothing was condemned if \<open>clean\<close> holds.
\<close>

definition follows :: "bool \<Rightarrow> attributed_chunk list \<Rightarrow> consumer \<Rightarrow> consumer \<Rightarrow> bool" where
  "follows clean cs s s' \<longleftrightarrow> stages_ok s' \<and>
     subseq (filter audible (stream s')) (filter audible (stream s @ cs)) \<and>
     (clean \<longrightarrow> filter audible (stream s') = filter audible (stream s @ cs)) \<and>
     mset (filter audible (stream s' @ dropped s')) = mset (filter audible (stream s @ cs @ dropped s)) \<and>
     (cuts_ok s \<longrightarrow> cuts_ok s')"

lemma follows_refl: "stages_ok s \<Longrightarrow> follows clean [] s s"
  by (simp add: follows_def)

lemma follows_weaken: "follows c cs s s' \<Longrightarrow> (c' \<Longrightarrow> c) \<Longrightarrow> follows c' cs s s'"
  by (auto simp: follows_def)

lemma follows_same:
  assumes "follows c cs s s1" and "flow s2 = flow s1"
  shows "follows c cs s s2"
  using assms(1) unfolding follows_def flow_eq [OF assms(2)] .

lemma follows_from:
  assumes "follows c cs s1 s2" and "flow s1 = flow s"
  shows "follows c cs s s2"
  using assms(1) unfolding follows_def flow_eq [OF assms(2)] .

lemma moves_follows: "moves cs s s' \<Longrightarrow> follows clean cs s s'"
  by (simp add: moves_def follows_def dropped_def)

lemma follows_trans:
  assumes "follows c1 cs s s1" and "follows c2 cs' s1 s2"
  shows "follows (c1 \<and> c2) (cs @ cs') s s2"
proof -
  have "subseq (filter audible (stream s1 @ cs')) (filter audible ((stream s @ cs) @ cs'))"
    using assms(1) unfolding follows_def filter_append [of _ _ cs'] by (intro list_emb_append_mono) auto
  moreover have "subseq (filter audible (stream s2)) (filter audible (stream s1 @ cs'))" using assms(2) by (simp add: follows_def)
  ultimately have "subseq (filter audible (stream s2)) (filter audible (stream s @ cs @ cs'))"
    using subseq_order.order_trans by fastforce
  moreover have "mset (filter audible (stream s2 @ dropped s2)) = mset (filter audible (stream s @ (cs @ cs') @ dropped s))"
    using assms by (simp add: follows_def ac_simps)
  ultimately show ?thesis using assms by (auto simp: follows_def)
qed

lemma condemn_gate_effect:
  assumes "stages_ok s"
  shows "stages_ok (condemn_gate v s)" "control (condemn_gate v s) = control s" "sent (condemn_gate v s) = sent s"
    "window_held (condemn_gate v s) = window_held s" "subseq (gate_held (condemn_gate v s)) (gate_held s)"
    "\<exists>gone. condemned (cs_log (condemn_gate v s)) = condemned (cs_log s) @ map (Pair (v_seg_idx v)) gone \<and>
            list_all (\<lambda>c. chunk_segment c = v_seg_idx v) gone \<and>
            mset (gate_held s) = mset (gate_held (condemn_gate v s)) + mset gone"
    "\<not> condemns v \<Longrightarrow> condemn_gate v s = s" "cuts_ok (condemn_gate v s) = cuts_ok s"
proof -
  show "\<not> condemns v \<Longrightarrow> condemn_gate v s = s" by (simp add: condemn_gate_def split: option.split)
  have "stages_ok (condemn_gate v s) \<and> control (condemn_gate v s) = control s \<and> sent (condemn_gate v s) = sent s \<and>
    window_held (condemn_gate v s) = window_held s \<and> subseq (gate_held (condemn_gate v s)) (gate_held s) \<and>
    (\<exists>gone. condemned (cs_log (condemn_gate v s)) = condemned (cs_log s) @ map (Pair (v_seg_idx v)) gone \<and>
            list_all (\<lambda>c. chunk_segment c = v_seg_idx v) gone \<and>
            mset (gate_held s) = mset (gate_held (condemn_gate v s)) + mset gone) \<and>
    cuts_ok (condemn_gate v s) = cuts_ok s"
  proof (cases "\<exists>g. cs_gate s = Some g \<and> condemns v")
    case True
    then obtain g where g: "cs_gate s = Some g" "condemns v" by blast
    obtain g1 gone where d: "sg_discard_segment (v_seg_idx v) (v_discard_all v) (v_discard_bytes v) g = (g1, gone)" by fastforce
    have gok: "gate_ok g" using assms g by (simp add: stages_ok_def)
    have c: "condemn_gate v s = log_item (CondemnGate v (sg_held g1) gone) (s\<lparr>cs_gate := Some g1\<rparr>)"
      using g d by (simp add: condemn_gate_def)
    note cut = sg_discard_cut [OF d g(2) [unfolded condemns_def]]
    show ?thesis
      using assms g(1) sg_discard_ok(1) [OF gok d] sg_discard_subseq [OF d] cut unfolding c
      by (simp add: stages_ok_def log_item_def sent_def cuts_ok_def window_held_def gate_held_def control_def bypassing_def) blast
  qed (use assms in \<open>auto simp: condemn_gate_def split: option.split\<close>)
  then show "stages_ok (condemn_gate v s)" "control (condemn_gate v s) = control s" "sent (condemn_gate v s) = sent s"
    "window_held (condemn_gate v s) = window_held s" "subseq (gate_held (condemn_gate v s)) (gate_held s)"
    "\<exists>gone. condemned (cs_log (condemn_gate v s)) = condemned (cs_log s) @ map (Pair (v_seg_idx v)) gone \<and>
            list_all (\<lambda>c. chunk_segment c = v_seg_idx v) gone \<and>
            mset (gate_held s) = mset (gate_held (condemn_gate v s)) + mset gone"
    "cuts_ok (condemn_gate v s) = cuts_ok s" by blast+
qed

lemma reset_vad_effect: "flow (reset_vad v s) = flow s" "control (reset_vad v s) = control s"
  by (simp_all add: reset_vad_def)

lemma settle_hold_effect:
  assumes "stages_ok s"
  shows "follows (\<not> condemns v) [] s (settle_hold E v s)" "window_held (settle_hold E v s) = []"
    "\<exists>gone. condemned (cs_log (settle_hold E v s)) =
         condemned (cs_log s) @ map (Pair (v_seg_idx v)) (gone @ drop (length (window_after v (window_held s))) (window_held s)) \<and>
       list_all (\<lambda>c. chunk_segment c = v_seg_idx v) gone"
    "control (settle_hold E v s) = control s"
proof -
  define s1 where "s1 = reset_vad v s"
  define s2 where "s2 = condemn_gate v s1"
  define s3 where "s3 = condemn_hold v s2"
  note f = flow_eq [OF reset_vad_effect(1) [of v s], folded s1_def]
  have ok1: "stages_ok s1" using assms f by simp
  note g = condemn_gate_effect [OF ok1, of v, folded s2_def]
  note h = condemn_hold_effect [OF g(1), of v, folded s3_def]
  have s: "settle_hold E v s = flush_hold E s3" by (simp add: settle_hold_def s1_def s2_def s3_def)
  note m = flush_hold_moves [OF h(1), of E, folded s]
  obtain gone where gone: "window_held s2 = window_held s3 @ gone"
    using window_after_prefix [of "window_held s2" v] h(5) by metis
  have st: "stream s = sent s2 @ gate_held s1 @ window_held s3 @ gone" "stream s3 = sent s2 @ gate_held s2 @ window_held s3"
    using f(1) gone g(3,4) h(3,4) by (simp_all add: stream_def)
  have sub: "subseq (stream s3) (stream s)"
    unfolding st using g(5) by (intro list_emb_append_mono subseq_rev_drop_many) auto
  have eq: "stream s3 = stream s" if "\<not> condemns v"
  proof -
    have "s2 = s1" using g(7) that by simp
    moreover have "window_held s3 = window_held s2" using h(5) that by (simp add: window_after_def condemns_def)
    ultimately show ?thesis using st gone by simp
  qed
  from g(6) obtain gs where gs: "condemned (cs_log s2) = condemned (cs_log s1) @ map (Pair (v_seg_idx v)) gs"
    "list_all (\<lambda>c. chunk_segment c = v_seg_idx v) gs" "mset (gate_held s1) = mset (gate_held s2) + mset gs" by blast
  have cond: "condemned (cs_log s3) = condemned (cs_log s) @ map (Pair (v_seg_idx v)) (gs @ gone)"
    using h(5,6) gs(1) f(3) gone by simp
  then have dr: "dropped s3 = dropped s @ gs @ gone" by (simp add: dropped_def comp_def)
  have "mset (stream s) = mset (stream s3) + mset (gs @ gone)" unfolding st using gs(3) by simp
  then have ms: "mset (filter audible (stream s3 @ dropped s3)) = mset (filter audible (stream s @ dropped s))"
    by (simp add: mset_filter dr)
  have fl: "follows (\<not> condemns v) [] s s3"
    using sub eq ms subseq_filter [OF sub, of audible] h(1,9) g(8) f(10) by (simp add: follows_def)
  from follows_trans [OF this moves_follows [OF conjunct1 [OF m], of True]]
  show "follows (\<not> condemns v) [] s (settle_hold E v s)" by simp
  show "window_held (settle_hold E v s) = []" using m by simp
  show "\<exists>gone. condemned (cs_log (settle_hold E v s)) =
         condemned (cs_log s) @ map (Pair (v_seg_idx v)) (gone @ drop (length (window_after v (window_held s))) (window_held s)) \<and>
       list_all (\<lambda>c. chunk_segment c = v_seg_idx v) gone"
  proof (intro exI conjI)
    have "condemned (cs_log (settle_hold E v s)) = condemned (cs_log s3)" using m by (simp add: moves_def)
    moreover have "gone = drop (length (window_after v (window_held s))) (window_held s)"
      using gone h(5) g(4) f(8) by (metis append_eq_conv_conj)
    ultimately show "condemned (cs_log (settle_hold E v s)) =
         condemned (cs_log s) @ map (Pair (v_seg_idx v)) (gs @ drop (length (window_after v (window_held s))) (window_held s))"
      using cond by simp
  qed (rule gs(2))
  show "control (settle_hold E v s) = control s"
    using m h(2) g(2) reset_vad_effect(2) [of v s] by (simp add: moves_def s1_def)
qed


definition clean_verdicts :: "consumer \<Rightarrow> bool" where
  "clean_verdicts s \<longleftrightarrow> list_all (\<lambda>(k, v). \<not> condemns v) (cs_verdicts s)"

lemma control_eq:
  assumes "control s' = control s"
  shows "cs_reorder s' = cs_reorder s" "cs_verdicts s' = cs_verdicts s" "cs_vad_resets s' = cs_vad_resets s"
    "cs_order s' = cs_order s" "cs_hold s' = None \<longleftrightarrow> cs_hold s = None"
  using assms by (auto simp: control_def)

lemma deliver_publish_moves:
  assumes "stages_ok s"
  shows "moves cs s (if cs \<noteq> [] then publish_ready_chunk_ends cs (deliver E cs s) else s)"
  using moves_same [OF deliver_moves [OF assms, of cs E] publish_chunks_effect] moves_refl [OF assms] by simp

lemma drain_guarded_effect:
  assumes "stages_ok s"
  shows "follows (clean_verdicts s) cs s (drain_guarded E (key, cs, fp) s)"
    "cs_reorder (drain_guarded E (key, cs, fp) s) = cs_reorder s"
    "cs_order (drain_guarded E (key, cs, fp) s) = cs_order s"
    "cs_verdicts (drain_guarded E (key, cs, fp) s) = (if fp then AList.delete key (cs_verdicts s) else cs_verdicts s)"
    "cs_hold (drain_guarded E (key, cs, fp) s) = None \<longleftrightarrow> cs_hold s = None"
proof -
  define s1 where "s1 = (if cs \<noteq> [] then publish_ready_chunk_ends cs (deliver E cs s) else s)"
  define s2 where "s2 = publish_drained key s1"
  have m2: "moves cs s s2"
    unfolding s2_def s1_def by (rule moves_same [OF deliver_publish_moves [OF assms] publish_drained_effect])
  have c2: "control s2 = control s" "stages_ok s2" using m2 by (simp_all add: moves_def)
  note ce = control_eq [OF c2(1)]
  have d: "drain_guarded E (key, cs, fp) s =
      (if fp then case map_of (cs_verdicts s2) key of
                  Some v \<Rightarrow> settle_hold E v (s2\<lparr>cs_verdicts := AList.delete key (cs_verdicts s2)\<rparr>)
                | None \<Rightarrow> s2
       else s2)"
    unfolding drain_guarded_def s2_def s1_def by (simp add: Let_def)
  have "follows (clean_verdicts s) cs s (drain_guarded E (key, cs, fp) s) \<and>
    cs_reorder (drain_guarded E (key, cs, fp) s) = cs_reorder s \<and> cs_order (drain_guarded E (key, cs, fp) s) = cs_order s \<and>
    cs_verdicts (drain_guarded E (key, cs, fp) s) = (if fp then AList.delete key (cs_verdicts s) else cs_verdicts s) \<and>
    (cs_hold (drain_guarded E (key, cs, fp) s) = None \<longleftrightarrow> cs_hold s = None)"
  proof (cases "fp \<and> map_of (cs_verdicts s2) key \<noteq> None")
    case True
    then obtain v where v: "map_of (cs_verdicts s2) key = Some v" "fp" by blast
    define s3 where "s3 = s2\<lparr>cs_verdicts := AList.delete key (cs_verdicts s2)\<rparr>"
    have fl: "flow s3 = flow s2" by (simp add: s3_def)
    have ok3: "stages_ok s3" using c2(2) flow_eq(2) [OF fl] by simp
    note e = settle_hold_effect [OF ok3, where v = v and E = E]
    have eq: "drain_guarded E (key, cs, fp) s = settle_hold E v s3" unfolding d s3_def using v by simp
    have "follows (\<not> condemns v) [] s2 (settle_hold E v s3)" by (rule follows_from [OF e(1) fl])
    from follows_trans [OF moves_follows [OF m2, of True] this]
    have "follows (\<not> condemns v) cs s (settle_hold E v s3)" by simp
    moreover have "\<not> condemns v" if "clean_verdicts s"
      using that map_of_SomeD [OF v(1)] ce(2) by (auto simp: clean_verdicts_def list_all_iff)
    ultimately have "follows (clean_verdicts s) cs s (settle_hold E v s3)" by (rule follows_weaken)
    moreover note ce3 = control_eq [OF e(4)]
    ultimately show ?thesis unfolding eq ce3 using v ce by (simp add: s3_def)
  next
    case False
    then have "drain_guarded E (key, cs, fp) s = s2" unfolding d by auto
    moreover have "map_of (cs_verdicts s) key = None" if fp using False that ce(2) by simp
    then have "AList.delete key (cs_verdicts s) = cs_verdicts s" if fp
      using that by (intro AList.delete_id) (auto simp: map_of_eq_None_iff)
    ultimately show ?thesis using moves_follows [OF m2] ce by simp
  qed
  then show "follows (clean_verdicts s) cs s (drain_guarded E (key, cs, fp) s)"
    "cs_reorder (drain_guarded E (key, cs, fp) s) = cs_reorder s"
    "cs_order (drain_guarded E (key, cs, fp) s) = cs_order s"
    "cs_verdicts (drain_guarded E (key, cs, fp) s) = (if fp then AList.delete key (cs_verdicts s) else cs_verdicts s)"
    "cs_hold (drain_guarded E (key, cs, fp) s) = None \<longleftrightarrow> cs_hold s = None" by blast+
qed

lemma drain_firehose_effect:
  assumes "stages_ok s"
  shows "follows True cs s (drain_firehose E (key, cs, fp) s)"
    "cs_reorder (drain_firehose E (key, cs, fp) s) = cs_reorder s"
    "cs_order (drain_firehose E (key, cs, fp) s) = cs_order s"
    "cs_verdicts (drain_firehose E (key, cs, fp) s) = cs_verdicts s"
    "cs_hold (drain_firehose E (key, cs, fp) s) = None \<longleftrightarrow> cs_hold s = None"
proof -
  define s1 where "s1 = (if cs \<noteq> [] then publish_ready_chunk_ends cs (deliver E cs s) else s)"
  define s2 where "s2 = (if fp \<and> key \<in> set (cs_vad_resets s1) \<and> cs_bypass s1 \<noteq> None
                  then log_item ResetVad (s1\<lparr>cs_vad_resets := removeAll key (cs_vad_resets s1)\<rparr>) else s1)"
  have m1: "moves cs s s1" unfolding s1_def by (rule deliver_publish_moves [OF assms])
  have f2: "flow s2 = flow s1" by (simp add: s2_def)
  have o2: "cs_reorder s2 = cs_reorder s1" "cs_order s2 = cs_order s1" "cs_verdicts s2 = cs_verdicts s1" "cs_hold s2 = cs_hold s1"
    by (simp_all add: s2_def log_item_def)
  have d: "drain_firehose E (key, cs, fp) s = publish_drained key s2"
    unfolding drain_firehose_def s2_def s1_def by (simp add: Let_def)
  have f: "flow (drain_firehose E (key, cs, fp) s) = flow s1" unfolding d publish_drained_effect f2 ..
  show "follows True cs s (drain_firehose E (key, cs, fp) s)"
    by (rule follows_same [OF moves_follows [OF m1] f])
  note ce = control_eq [OF publish_drained_effect(2) [of key s2], folded d]
  have "control s1 = control s" using m1 by (simp add: moves_def)
  note ce1 = control_eq [OF this]
  show "cs_reorder (drain_firehose E (key, cs, fp) s) = cs_reorder s"
    "cs_order (drain_firehose E (key, cs, fp) s) = cs_order s"
    "cs_verdicts (drain_firehose E (key, cs, fp) s) = cs_verdicts s"
    "cs_hold (drain_firehose E (key, cs, fp) s) = None \<longleftrightarrow> cs_hold s = None"
    unfolding ce o2 ce1 by (rule refl)+
qed


lemma set_delete_subset: "set (AList.delete k al) \<subseteq> set al"
  by (simp add: AList.delete_eq)

lemma drained_chunks_simps [simp]: "drained_chunks [] = []" "drained_chunks ((k, cs, b) # out) = cs @ drained_chunks out"
  by (simp_all add: drained_chunks_def)

lemma drain_fold_effect:
  assumes "stages_ok s"
  shows "follows (cs_hold s = None \<or> clean_verdicts s) (drained_chunks out) s
           (fold (if cs_hold s = None then drain_firehose E else drain_guarded E) out s) \<and>
         cs_reorder (fold (if cs_hold s = None then drain_firehose E else drain_guarded E) out s) = cs_reorder s \<and>
         cs_order (fold (if cs_hold s = None then drain_firehose E else drain_guarded E) out s) = cs_order s \<and>
         (clean_verdicts s \<longrightarrow> clean_verdicts (fold (if cs_hold s = None then drain_firehose E else drain_guarded E) out s)) \<and>
         (cs_hold (fold (if cs_hold s = None then drain_firehose E else drain_guarded E) out s) = None \<longleftrightarrow> cs_hold s = None)"
  using assms
proof (induction out arbitrary: s)
  case Nil
  then show ?case by (simp add: follows_refl)
next
  case (Cons d out)
  obtain k cs fp where d: "d = (k, cs, fp)" by (cases d)
  define D where "D = (if cs_hold s = None then drain_firehose E else drain_guarded E)"
  define s1 where "s1 = D d s"
  have one: "follows (cs_hold s = None \<or> clean_verdicts s) cs s s1" "cs_reorder s1 = cs_reorder s" "cs_order s1 = cs_order s"
    "clean_verdicts s \<longrightarrow> clean_verdicts s1" "cs_hold s1 = None \<longleftrightarrow> cs_hold s = None"
  proof -
    have "follows (cs_hold s = None \<or> clean_verdicts s) cs s s1 \<and> cs_reorder s1 = cs_reorder s \<and> cs_order s1 = cs_order s \<and>
      (clean_verdicts s \<longrightarrow> clean_verdicts s1) \<and> (cs_hold s1 = None \<longleftrightarrow> cs_hold s = None)"
    proof (cases "cs_hold s = None")
      case True
      have s1: "s1 = drain_firehose E (k, cs, fp) s" by (simp add: s1_def D_def d True)
      note e = drain_firehose_effect [OF Cons.prems, where cs = cs and E = E and key = k and fp = fp, folded s1]
      show ?thesis using e follows_weaken [OF e(1)] by (simp add: clean_verdicts_def)
    next
      case False
      then have s1: "s1 = drain_guarded E (k, cs, fp) s" by (auto simp: s1_def D_def d)
      note e = drain_guarded_effect [OF Cons.prems, where cs = cs and E = E and key = k and fp = fp, folded s1]
      have "follows (cs_hold s = None \<or> clean_verdicts s) cs s s1" by (rule follows_weaken [OF e(1)]) (use False in auto)
      moreover have "clean_verdicts s \<longrightarrow> clean_verdicts s1"
        using e(4) set_delete_subset [of k "cs_verdicts s"] by (auto simp: clean_verdicts_def list_all_iff)
      ultimately show ?thesis using e by simp
    qed
    then show "follows (cs_hold s = None \<or> clean_verdicts s) cs s s1" "cs_reorder s1 = cs_reorder s" "cs_order s1 = cs_order s"
      "clean_verdicts s \<longrightarrow> clean_verdicts s1" "cs_hold s1 = None \<longleftrightarrow> cs_hold s = None" by blast+
  qed
  have D1: "D = (if cs_hold s1 = None then drain_firehose E else drain_guarded E)" using one(5) by (simp add: D_def)
  have ok1: "stages_ok s1" using one(1) by (simp add: follows_def)
  note IH = Cons.IH [OF ok1, folded D1]
  have f: "fold D (d # out) s = fold D out s1" by (simp add: s1_def)
  have "follows (cs_hold s = None \<or> clean_verdicts s) (cs @ drained_chunks out) s (fold D out s1)"
    by (rule follows_weaken [OF follows_trans [OF one(1) conjunct1 [OF IH]]]) (use one(4,5) in auto)
  then show ?case unfolding D_def [symmetric] f using IH one by (simp add: d)
qed

section \<open>The client hears what the reorder buffer lets out\<close>

text \<open>The operation on the reorder buffer that a step performs.\<close>

fun result_ops :: "delivery_env \<Rightarrow> engine_result \<Rightarrow> consumer \<Rightarrow> attributed_chunk reorder_op list" where
  "result_ops E (AudioChunk seg audio p fs fe) s =
     [Push (clock_now E s) (key_of_meta (order_of seg s)) (attributed_chunk_of seg audio p fs fe)]"
| "result_ops E (SegmentRetry seg) s = [Discard (clock_now E s) (key_of_meta (order_of seg s))]"
| "result_ops E (SegmentEnd seg m prepared fe) s =
     [Done (clock_now E (prepare_segment_end E seg m prepared fe s)) (key_of_meta (order_of seg s))
        (group_final (order_of seg s))]"
| "result_ops E _ s = []"

fun step_ops :: "delivery_env \<Rightarrow> consumer_op \<Rightarrow> consumer \<Rightarrow> attributed_chunk reorder_op list" where
  "step_ops E (Result r) s = (if cs_finished s then [] else result_ops E r s)"
| "step_ops E _ s = []"

fun run_reorder_ops :: "delivery_env \<Rightarrow> consumer_op list \<Rightarrow> consumer \<Rightarrow> attributed_chunk reorder_op list" where
  "run_reorder_ops E [] s = []"
| "run_reorder_ops E (op # ops) s = step_ops E op s @ run_reorder_ops E ops (consumer_step E op s)"

fun clean_op :: "delivery_env \<Rightarrow> consumer_op \<Rightarrow> bool" where
  "clean_op E (Result (SegmentEnd seg m prepared fe)) \<longleftrightarrow> \<not> condemns (hold_verdict (rounding E) seg m)"
| "clean_op E _ \<longleftrightarrow> True"

definition step_ok :: "bool \<Rightarrow> attributed_chunk reorder_op list \<Rightarrow> consumer \<Rightarrow> consumer \<Rightarrow> bool" where
  "step_ok clean rops s s' \<longleftrightarrow>
     follows (clean \<and> clean_verdicts s) (reorder_outputs rops (cs_reorder s)) s s' \<and>
     cs_reorder s' = fold reorder_exec rops (cs_reorder s) \<and> (clean \<and> clean_verdicts s \<longrightarrow> clean_verdicts s')"

lemma step_okI:
  assumes "moves [] s s'"
  shows "step_ok clean [] s s'"
  using moves_follows [OF assms] assms control_eq [of s' s] by (simp add: step_ok_def moves_def clean_verdicts_def)

lemma order_of_simps [simp]:
  "order_of seg (note_frames g fe fin s) = order_of seg s" "order_of seg (observe_frames E a s) = order_of seg s"
  "clock_now E (note_frames g fe fin s) = clock_now E s" "clock_now E (observe_frames E' a s) = clock_now E s"
  by (simp_all add: order_of_def note_frames_def observe_frames_def clock_now_def Let_def)

lemma observe_frames_effect [simp]: "flow (observe_frames E a s) = flow s" "control (observe_frames E a s) = control s"
  by (simp_all add: observe_frames_def)

lemma on_audio_chunk_ok:
  assumes "stages_ok s"
  shows "step_ok True (result_ops E (AudioChunk seg audio p fs fe) s) s (on_audio_chunk E seg audio p fs fe s)"
proof -
  define s1 where "s1 = note_frames seg fe False (observe_frames E audio s)"
  define m where "m = order_of seg s"
  define c where "c = attributed_chunk_of seg audio p fs fe"
  obtain r ready where r: "reorder_push (clock_now E s) (group_idx m) (local_idx m) c (cs_reorder s) = (r, ready)" by fastforce
  define s2 where "s2 = next_read s1\<lparr>cs_reorder := r\<rparr>"
  have c1: "control s1 = control s" "flow s1 = flow s" by (simp_all add: s1_def)
  have e: "on_audio_chunk E seg audio p fs fe s = publish_ready_chunk_ends ready (deliver E ready s2)"
    using r by (simp add: on_audio_chunk_def s1_def [symmetric] s2_def m_def c_def control_eq [OF c1(1)])
      (simp add: s1_def)
  have f2: "flow s2 = flow s" using c1 by (simp add: s2_def)
  have ok2: "stages_ok s2" using assms flow_eq(2) [OF f2] by simp
  have mv: "moves ready s2 (on_audio_chunk E seg audio p fs fe s)"
    unfolding e by (rule moves_same [OF deliver_moves [OF ok2] publish_chunks_effect])
  then have "control (on_audio_chunk E seg audio p fs fe s) = control s2" by (simp add: moves_def)
  note ce = control_eq [OF this]
  have v: "cs_verdicts s2 = cs_verdicts s" "cs_reorder s2 = r" using control_eq [OF c1(1)] by (simp_all add: s2_def)
  have out: "reorder_outputs (result_ops E (AudioChunk seg audio p fs fe) s) (cs_reorder s) = ready"
    "fold reorder_exec (result_ops E (AudioChunk seg audio p fs fe) s) (cs_reorder s) = r"
    using r by (simp_all add: key_of_meta_def m_def c_def)
  have "follows True ready s (on_audio_chunk E seg audio p fs fe s)"
    by (rule follows_from [OF moves_follows [OF mv] f2])
  then show ?thesis
    unfolding step_ok_def out ce v clean_verdicts_def by (simp add: follows_weaken)
qed

lemma record_verdict_effect:
  assumes "stages_ok s"
  shows "follows (\<not> condemns v) [] s (record_verdict E v key s) \<and>
     cs_reorder (record_verdict E v key s) = cs_reorder s \<and>
     (\<not> condemns v \<and> clean_verdicts s \<longrightarrow> clean_verdicts (record_verdict E v key s)) \<and>
     (cs_hold (record_verdict E v key s) = None \<longleftrightarrow> cs_hold s = None)"
proof (cases "cs_hold s = None")
  case True
  note e = condemn_gate_effect [OF assms, of v]
  define s1 where "s1 = condemn_gate v s"
  define s2 where "s2 = record_verdict E v key s"
  have s2: "s2 = (if cs_bypass s1 \<noteq> None \<and> (condemns v \<or> ends_abort (v_eos_reason v))
              then s1\<lparr>cs_vad_resets := List.insert key (cs_vad_resets s1)\<rparr> else s1)"
    using True by (simp add: s2_def record_verdict_def s1_def Let_def)
  have f: "flow s2 = flow s1" by (simp add: s2)
  have o: "cs_reorder s2 = cs_reorder s1" "cs_verdicts s2 = cs_verdicts s1" "cs_hold s2 = cs_hold s1" by (simp_all add: s2)
  have "subseq (stream s1) (stream s)"
    unfolding stream_def s1_def e(3,4) using e(5) by (intro list_emb_append_mono) auto
  moreover from e(6) obtain gone where gone: "condemned (cs_log s1) = condemned (cs_log s) @ map (Pair (v_seg_idx v)) gone"
    "mset (gate_held s) = mset (gate_held s1) + mset gone" unfolding s1_def by blast
  have dr: "dropped s1 = dropped s @ gone" by (simp add: dropped_def comp_def gone(1))
  have "mset (stream s) = mset (stream s1) + mset gone"
    using e(3,4) gone(2) by (simp add: stream_def s1_def)
  then have "mset (filter audible (stream s1 @ dropped s1)) = mset (filter audible (stream s @ dropped s))"
    by (simp add: mset_filter dr)
  ultimately have "follows (\<not> condemns v) [] s s1"
    using e(1,7,8) subseq_filter by (auto simp: follows_def s1_def)
  from follows_same [OF this f] show ?thesis
    unfolding s2_def [symmetric] o clean_verdicts_def using control_eq [OF e(2)] by (simp add: s1_def)
next
  case False
  show ?thesis
  proof (cases "next_emit_segment (cs_reorder s) = key")
    case True
    have r: "record_verdict E v key s = settle_hold E v s" using False True by (auto simp: record_verdict_def)
    note e = settle_hold_effect [OF assms, where v = v and E = E]
    show ?thesis unfolding r clean_verdicts_def using e(1) control_eq [OF e(4)] by simp
  next
    case key: False
    have r: "record_verdict E v key s = s\<lparr>cs_verdicts := AList.update key v (cs_verdicts s)\<rparr>"
      using False key by (auto simp: record_verdict_def)
    have "follows (\<not> condemns v) [] s (s\<lparr>cs_verdicts := AList.update key v (cs_verdicts s)\<rparr>)"
      by (rule follows_same [OF follows_refl [OF assms]]) simp
    moreover have "set (AList.update key v al) \<subseteq> insert (key, v) (set al)" for al :: "(segment_key \<times> verdict) list"
      by (induction al) auto
    ultimately show ?thesis unfolding r by (fastforce simp: clean_verdicts_def list_all_iff)
  qed
qed

lemma prepare_segment_end_effect:
  fixes E :: delivery_env and seg :: int and m :: end_metrics and prepared :: "end_events option" and fe :: "int option"
  assumes "stages_ok s"
  defines "v \<equiv> hold_verdict (rounding E) seg m" and "s' \<equiv> prepare_segment_end E seg m prepared fe s"
  shows "follows (\<not> condemns v) [] s s'" "cs_reorder s' = cs_reorder s"
    "\<not> condemns v \<and> clean_verdicts s \<longrightarrow> clean_verdicts s'" "cs_hold s' = None \<longleftrightarrow> cs_hold s = None"
proof -
  define s0 where "s0 = s\<lparr>cs_order := AList.delete seg (cs_order s)\<rparr>"
  define s1 where "s1 = record_verdict E v (key_of_meta (order_of seg s)) s0"
  have f0: "flow s0 = flow s" by (simp add: s0_def)
  have ok0: "stages_ok s0" using assms(1) flow_eq(2) [OF f0] by simp
  have s0: "cs_reorder s0 = cs_reorder s" "cs_verdicts s0 = cs_verdicts s" "cs_hold s0 = cs_hold s" by (simp_all add: s0_def)
  note e = record_verdict_effect [OF ok0, of v E "key_of_meta (order_of seg s)", folded s1_def]
  have f: "flow s' = flow s1" "control s' = control s1"
    unfolding s'_def prepare_segment_end_def s0_def [symmetric] v_def [symmetric]
    by (simp_all add: queue_end_events_def Let_def s1_def split: option.split)
  show "follows (\<not> condemns v) [] s s'"
    by (rule follows_same [OF follows_from [OF conjunct1 [OF e] f0] f(1)])
  show "cs_reorder s' = cs_reorder s" "\<not> condemns v \<and> clean_verdicts s \<longrightarrow> clean_verdicts s'"
    "cs_hold s' = None \<longleftrightarrow> cs_hold s = None"
    using e control_eq [OF f(2)] by (simp_all add: clean_verdicts_def s0)
qed

lemma on_segment_end_ok:
  assumes "stages_ok s"
  shows "step_ok (\<not> condemns (hold_verdict (rounding E) seg m)) (result_ops E (SegmentEnd seg m prepared fe) s) s
           (on_segment_end E seg m prepared fe s)"
proof -
  define om where "om = order_of seg s"
  define v where "v = hold_verdict (rounding E) seg m"
  define s1 where "s1 = prepare_segment_end E seg m prepared fe s"
  note p = prepare_segment_end_effect [OF assms, where E = E and seg = seg and m = m and prepared = prepared and fe = fe,
      folded s1_def v_def]
  obtain r out where r: "mark_done_ex (clock_now E s1) (group_idx om) (local_idx om) (group_final om) (cs_reorder s1) = (r, out)"
    by fastforce
  define s2 where "s2 = next_read s1\<lparr>cs_reorder := r\<rparr>"
  have f2: "flow s2 = flow s1" by (simp add: s2_def)
  have ok2: "stages_ok s2" using p(1) flow_eq(2) [OF f2] by (simp add: follows_def)
  define s3 where "s3 = fold (if cs_hold s2 = None then drain_firehose E else drain_guarded E) out s2"
  note d = drain_fold_effect [OF ok2, of out E, folded s3_def]
  define s4 where "s4 = on_segment_end E seg m prepared fe s"
  have s4: "s4 = s3\<lparr>cs_progress_frames := AList.delete seg (cs_progress_frames s3)\<rparr>"
    unfolding s4_def on_segment_end_def om_def [symmetric] s1_def [symmetric] Let_def r by (simp add: s3_def s2_def)
  have f4: "flow s4 = flow s3" by (simp add: s4)
  have v2: "clean_verdicts s2 \<longleftrightarrow> clean_verdicts s1" "cs_reorder s2 = r" by (simp_all add: clean_verdicts_def s2_def)
  have out: "reorder_outputs (result_ops E (SegmentEnd seg m prepared fe) s) (cs_reorder s) = drained_chunks out"
    "fold reorder_exec (result_ops E (SegmentEnd seg m prepared fe) s) (cs_reorder s) = r"
    using r p(2) by (simp_all add: key_of_meta_def om_def mark_done_def s1_def)
  have "follows (cs_hold s2 = None \<or> clean_verdicts s2) (drained_chunks out) s1 s4"
    by (rule follows_same [OF follows_from [OF conjunct1 [OF d] f2] f4])
  from follows_weaken [OF follows_trans [OF p(1) this], of "\<not> condemns v \<and> clean_verdicts s"]
  have "follows (\<not> condemns v \<and> clean_verdicts s) (drained_chunks out) s s4" using p(3) v2(1) by simp
  moreover have "cs_reorder s4 = r" using d v2(2) by (simp add: s4)
  moreover have "clean_verdicts s4 \<longleftrightarrow> clean_verdicts s3" by (simp add: s4 clean_verdicts_def)
  ultimately show ?thesis
    unfolding step_ok_def out s4_def [symmetric] v_def [symmetric] using d p(3) v2(1) by simp
qed

lemma finish_delivery_moves:
  assumes "stages_ok s" and "item = SendDone \<or> item = SendError msg"
  shows "moves [] s (finish_delivery E item s) \<and> gate_held (finish_delivery E item s) = [] \<and>
         window_held (finish_delivery E item s) = []"
proof -
  define s1 where "s1 = flush_hold E s"
  define s2 where "s2 = release_semantic_due E True s1"
  define s3 where "s3 = finish_delivery E item s"
  have m1: "moves [] s s1" "window_held s1 = []" using flush_hold_moves [OF assms(1), of E] by (simp_all add: s1_def)
  then have ok1: "stages_ok s1" by (simp add: moves_def)
  have m2: "moves [] s1 s2" "gate_held s2 = []" "cs_hold s2 = cs_hold s1"
    using release_semantic_moves [OF ok1, of E True] by (simp_all add: s2_def)
  have s3: "s3 = (log_item item s2)\<lparr>cs_finished := True\<rparr>" by (simp add: s3_def finish_delivery_def s1_def s2_def)
  have "audio_of [item] = []" "condemned [item] = []" "cut_ok item" using assms(2) by auto
  then have f: "flow s3 = flow s2" "control s3 = control s2" by (simp_all add: s3 flow_def sent_def cuts_ok_def log_item_def control_def)
  have "moves [] s s3" using moves_same [OF _ f] moves_trans [OF m1(1) m2(1)] by simp
  moreover have "gate_held s3 = []" "window_held s3 = []"
    using m1(2) m2(2,3) flow_eq [OF f(1)] by (simp_all add: gate_held_def window_held_def)
  ultimately show ?thesis by (simp add: s3_def)
qed

lemma on_segment_retry_ok:
  assumes "stages_ok s"
  shows "step_ok True (result_ops E (SegmentRetry seg) s) s (on_segment_retry E seg s)"
proof -
  define s' where "s' = on_segment_retry E seg s"
  have f: "flow s' = flow s" "cs_verdicts s' = cs_verdicts s"
    by (simp_all add: s'_def on_segment_retry_def Let_def flow_def sent_def cuts_ok_def)
  have "follows True [] s s'" by (rule follows_same [OF follows_refl [OF assms] f(1)])
  then show ?thesis unfolding step_ok_def s'_def [symmetric] clean_verdicts_def f(2)
    by (auto simp: s'_def on_segment_retry_def Let_def key_of_meta_def intro: follows_weaken)
qed

lemma consumer_step_ok:
  assumes "stages_ok s"
  shows "step_ok (clean_op E op) (step_ops E op s) s (consumer_step E op s)"
proof -
  have same: "step_ok c [] s s'" if "flow s' = flow s" "control s' = control s" for c s'
    by (rule step_okI [OF moves_same [OF moves_refl [OF assms] that]])
  show ?thesis
  proof (cases op)
    case (Register seg m)
    then show ?thesis using follows_same [OF follows_refl [OF assms], of "s\<lparr>cs_order := AList.update seg m (cs_order s)\<rparr>"]
      by (simp add: step_ok_def clean_verdicts_def)
  next
    case (Result r)
    show ?thesis
    proof (cases "cs_finished s")
      case False
      show ?thesis
      proof (cases r)
        case (PrefillDone seg ev)
        have "flow (on_prefill_done seg ev s) = flow s" "control (on_prefill_done seg ev s) = control s"
          by (simp_all add: on_prefill_done_def flow_def sent_def cuts_ok_def log_item_def control_def)
        with Result PrefillDone False show ?thesis by (simp add: same)
      qed (use Result False on_audio_chunk_ok [OF assms] on_segment_end_ok [OF assms] on_segment_retry_ok [OF assms] same
          finish_delivery_moves [OF assms] in \<open>simp_all add: step_okI\<close>)
    qed (use Result same in simp)
  next
    case HoldTick
    then show ?thesis using same step_okI [OF release_hold_moves [OF assms, of E]]
      by (auto simp: hold_tick_def split: option.split)
  next
    case GateTick
    then show ?thesis using same step_okI release_semantic_moves [OF assms, of E False] by auto
  next
    case (ReorderWatch ev)
    have "flow (reorder_watch E ev s) = flow s" "control (reorder_watch E ev s) = control s"
      by (auto simp: reorder_watch_def flow_def sent_def cuts_ok_def log_item_def control_def next_read_def split: option.split)
    with ReorderWatch show ?thesis by (simp add: same)
  qed
qed


lemma run_consumer_ok:
  assumes "stages_ok s"
  shows "step_ok (list_all (clean_op E) ops) (run_reorder_ops E ops s) s (fold (consumer_step E) ops s)"
  using assms
proof (induction ops arbitrary: s)
  case Nil
  then show ?case by (simp add: step_ok_def follows_refl)
next
  case (Cons op ops)
  define s1 where "s1 = consumer_step E op s"
  note one = consumer_step_ok [OF Cons.prems, of E op, folded s1_def]
  have ok1: "stages_ok s1" using one by (simp add: step_ok_def follows_def)
  note IH = Cons.IH [OF ok1]
  define s2 where "s2 = fold (consumer_step E) ops s1"
  have app: "reorder_outputs (xs @ ys) r = reorder_outputs xs r @ reorder_outputs ys (fold reorder_exec xs r)"
    for xs ys :: "attributed_chunk reorder_op list" and r
    by (induction xs arbitrary: r) (auto split: prod.split)
  have f: "follows ((clean_op E op \<and> clean_verdicts s) \<and> list_all (clean_op E) ops \<and> clean_verdicts s1)
      (reorder_outputs (step_ops E op s) (cs_reorder s) @ reorder_outputs (run_reorder_ops E ops s1) (cs_reorder s1)) s s2"
    using follows_trans one IH unfolding step_ok_def s2_def by blast
  have "follows (list_all (clean_op E) (op # ops) \<and> clean_verdicts s)
      (reorder_outputs (run_reorder_ops E (op # ops) s) (cs_reorder s)) s s2"
  proof -
    have "reorder_outputs (run_reorder_ops E (op # ops) s) (cs_reorder s) =
        reorder_outputs (step_ops E op s) (cs_reorder s) @ reorder_outputs (run_reorder_ops E ops s1) (cs_reorder s1)"
      using one by (simp add: app s1_def [symmetric] step_ok_def)
    then show ?thesis using follows_weaken [OF f] one by (auto simp: step_ok_def)
  qed
  then show ?case using one IH unfolding step_ok_def by (simp add: s1_def s2_def)
qed

lemma guarded_hold_new:
  assumes "guarded_hold_for rnd dg dm opts = Some h"
  shows "\<exists>w. h = new_hold w 96000"
  using assms by (auto simp: guarded_hold_for_def Let_def engine_sample_rate_def split: if_splits)

lemma new_consumer_ok:
  assumes "h = None \<or> h = Some (new_hold w bps)" and "g = semantic_start_gate_for (b \<noteq> None) opts"
    and "b = None \<or> b = Some new_bypass"
  shows "stages_ok (new_consumer r h g b e)" "stream (new_consumer r h g b e) = []" "clean_verdicts (new_consumer r h g b e)"
    "cuts_ok (new_consumer r h g b e)" "dropped (new_consumer r h g b e) = []"
proof -
  show "cuts_ok (new_consumer r h g b e)" "dropped (new_consumer r h g b e) = []"
    by (simp_all add: cuts_ok_def dropped_def new_consumer_def)
  have "hold_ok (new_hold w bps)" by (simp add: new_hold_def hold_ok_def)
  moreover have "held (new_hold w bps) = []" by (simp add: new_hold_def)
  moreover have "gate_ok g'" "sg_held g' = []" if "g = Some g'" for g'
    using that assms(2) by (auto simp: semantic_start_gate_for_def new_start_gate_def gate_ok_def Let_def split: if_splits prod.splits)
  moreover have "b \<noteq> None \<longrightarrow> g = None" using assms(2) by (simp add: semantic_start_gate_for_def)
  ultimately show "stages_ok (new_consumer r h g b e)" "stream (new_consumer r h g b e) = []"
      "clean_verdicts (new_consumer r h g b e)"
    using assms(1) by (auto simp: stages_ok_def new_consumer_def stream_def sent_def gate_held_def window_held_def
        clean_verdicts_def split: option.split)
qed


text \<open>
  A session that ends hands everything over: after the terminal result the gate and the hold
  window are empty, whatever was held is in front of the terminal notice, and later ticks and
  results change nothing.
\<close>

theorem done_flushes_everything:
  assumes "stages_ok s" and "\<not> cs_finished s" and "r = SessionDone \<or> r = ErrorResult msg"
    and "s' = consumer_step E (Result r) s"
  shows "gate_held s' = [] \<and> window_held s' = [] \<and> filter audible (sent s') = filter audible (stream s) \<and>
         last (cs_log s') \<in> {SendDone, SendError msg} \<and>
         (\<forall>op. consumer_step E op s' = s' \<or> (\<exists>seg m. op = Register seg m))"
proof -
  define item where "item = (if r = SessionDone then SendDone else SendError msg)"
  have it: "item = SendDone \<or> item = SendError msg" by (simp add: item_def)
  have s': "s' = finish_delivery E item s" using assms(2-4) by (auto simp: item_def)
  note m = finish_delivery_moves [OF assms(1) it, of E, folded s']
  have "cs_finished s'" "last (cs_log s') = item" by (simp_all add: s' finish_delivery_def log_item_def)
  moreover have "consumer_step E op s' = s' \<or> (\<exists>seg m. op = Register seg m)" for op
    using calculation(1) by (cases op) auto
  moreover have "filter audible (sent s') = filter audible (stream s)" using m by (auto simp: moves_def stream_def)
  ultimately show ?thesis using m it by auto
qed

section \<open>A verdict condemns its own segment only\<close>

text \<open>
  \<open>K\<close> gives the place of a segment in the text. A run is keyed by \<open>K\<close> if every result about a
  segment finds the segment registered at its place.
\<close>

fun keyed_result :: "(int \<Rightarrow> segment_key) \<Rightarrow> engine_result \<Rightarrow> consumer \<Rightarrow> bool" where
  "keyed_result K (AudioChunk seg a p fs fe) s \<longleftrightarrow> key_of_meta (order_of seg s) = K seg"
| "keyed_result K (SegmentEnd seg m prepared fe) s \<longleftrightarrow> key_of_meta (order_of seg s) = K seg"
| "keyed_result K _ s \<longleftrightarrow> True"

fun keyed_step :: "(int \<Rightarrow> segment_key) \<Rightarrow> consumer_op \<Rightarrow> consumer \<Rightarrow> bool" where
  "keyed_step K (Result r) s \<longleftrightarrow> keyed_result K r s"
| "keyed_step K _ s \<longleftrightarrow> True"

fun keyed_run :: "(int \<Rightarrow> segment_key) \<Rightarrow> delivery_env \<Rightarrow> consumer_op list \<Rightarrow> consumer \<Rightarrow> bool" where
  "keyed_run K E [] s \<longleftrightarrow> True"
| "keyed_run K E (op # ops) s \<longleftrightarrow> keyed_step K op s \<and> keyed_run K E ops (consumer_step E op s)"

definition placed :: "(int \<Rightarrow> segment_key) \<Rightarrow> segment_key \<Rightarrow> attributed_chunk list \<Rightarrow> bool" where
  "placed K k cs \<longleftrightarrow> list_all (\<lambda>c. K (chunk_segment c) = k) cs"

definition own_condemned :: "(int \<Rightarrow> segment_key) \<Rightarrow> consumer \<Rightarrow> bool" where
  "own_condemned K s \<longleftrightarrow> list_all (\<lambda>(seg, c). K (chunk_segment c) = K seg) (condemned (cs_log s))"

definition buffers_placed :: "(int \<Rightarrow> segment_key) \<Rightarrow> attributed_chunk reorder \<Rightarrow> bool" where
  "buffers_placed K r \<longleftrightarrow> (\<forall>k. placed K k (buffer_of k r))"

definition verdicts_placed :: "(int \<Rightarrow> segment_key) \<Rightarrow> consumer \<Rightarrow> bool" where
  "verdicts_placed K s \<longleftrightarrow> (\<forall>k v. map_of (cs_verdicts s) k = Some v \<longrightarrow> K (v_seg_idx v) = k)"

definition own_inv :: "(int \<Rightarrow> segment_key) \<Rightarrow> consumer \<Rightarrow> bool" where
  "own_inv K s \<longleftrightarrow>
     stages_ok s \<and> cs_hold s \<noteq> None \<and> own_condemned K s \<and> buffers_placed K (cs_reorder s) \<and> verdicts_placed K s \<and>
     buffer_of (next_emit_segment (cs_reorder s)) (cs_reorder s) = [] \<and>
     next_emit_segment (cs_reorder s) \<notin> set (done_segments (cs_reorder s)) \<and>
     (\<forall>k \<in> set (done_segments (cs_reorder s)). map_of (cs_verdicts s) k \<noteq> None) \<and>
     placed K (next_emit_segment (cs_reorder s)) (window_held s)"

lemma placed_simps [simp]: "placed K k []" "placed K k (xs @ ys) \<longleftrightarrow> placed K k xs \<and> placed K k ys"
  "placed K k (c # cs) \<longleftrightarrow> K (chunk_segment c) = k \<and> placed K k cs"
  by (simp_all add: placed_def)

text \<open>What delivering chunks does to the window: it can only hold what it held and what came.\<close>

lemma hw_release_sub: "hw_release_due rnd t h = (h', out) \<Longrightarrow> set (held h') \<subseteq> set (held h)"
  using hw_release_due_split(1) by fastforce

lemma release_hold_window: "stages_ok s \<Longrightarrow> set (window_held (release_hold E s)) \<subseteq> set (window_held s)"
proof (cases "cs_hold s")
  case (Some h)
  assume ok: "stages_ok s"
  obtain h1 out where r: "hw_release_due (rounding E) (clock_now E s) h = (h1, out)" by fastforce
  have hok: "hold_ok h" using ok Some by (simp add: stages_ok_def)
  have ok1: "stages_ok (next_read s\<lparr>cs_hold := Some h1\<rparr>)"
    using ok hw_release_due_ok [OF hok r] hw_release_due_split(1) [OF r] by (auto simp: stages_ok_def window_held_def Some)
  show ?thesis using send_chunks_effect [OF ok1, of E out] hw_release_sub [OF r]
    by (simp add: release_hold_def Some r window_held_def)
qed (simp add: release_hold_def)

lemma deliver_one_window:
  assumes "stages_ok s" and "cs_hold s \<noteq> None"
  shows "set (window_held (deliver_one E c s)) \<subseteq> insert c (set (window_held s))"
proof -
  obtain h where h: "cs_hold s = Some h" using assms(2) by blast
  have hok: "hold_ok h" using assms(1) h by (simp add: stages_ok_def)
  show ?thesis
  proof (cases "bypassing s")
    case True
    then obtain b where b: "cs_bypass s = Some b" "should_bypass b" by (auto simp: bypassing_def split: option.splits)
    define s0 where "s0 = s\<lparr>cs_bypass := Some (record_bypass (chunk_len c) b)\<rparr>"
    have ok0: "stages_ok s0"
      using assms(1) True b by (auto simp: s0_def stages_ok_def window_held_def)
    have "cs_hold (send_chunks E [c] s0) = cs_hold s" using send_chunks_effect [OF ok0, of E "[c]"] by (simp add: s0_def)
    then show ?thesis
      using b by (auto simp: deliver_one_def s0_def [symmetric] Let_def window_held_def h record_external_release_def)
  next
    case False
    define s1 where "s1 = s\<lparr>cs_hold := Some (hw_push [c] h)\<rparr>"
    have "deliver_one E c s = release_hold E s1"
      using False by (auto simp: deliver_one_def s1_def h bypassing_def split: option.splits)
    moreover have ok1: "stages_ok s1"
      using assms(1) False hw_push_ok [OF hok] by (auto simp: stages_ok_def s1_def)
    ultimately show ?thesis using release_hold_window [OF ok1, of E]
      by (auto simp: s1_def window_held_def h hw_push_state split: if_splits)
  qed
qed

lemma deliver_window:
  assumes "stages_ok s" and "cs_hold s \<noteq> None"
  shows "set (window_held (deliver E cs s)) \<subseteq> set (window_held s) \<union> set cs"
proof -
  have "set (window_held (fold (deliver_one E) cs s)) \<subseteq> set (window_held s) \<union> set cs" using assms
  proof (induction cs arbitrary: s)
    case (Cons c cs)
    have m: "moves [c] s (deliver_one E c s)" by (rule deliver_one_moves [OF Cons.prems])
    then have ok1: "stages_ok (deliver_one E c s)" "cs_hold (deliver_one E c s) \<noteq> None"
      using Cons.prems(2) by (auto simp: moves_def control_def)
    show ?case using Cons.IH [OF ok1] deliver_one_window [OF Cons.prems, of E c] by auto
  qed simp
  with assms(2) show ?thesis by (auto simp: deliver_def)
qed

lemma placed_subset: "placed K k ys \<Longrightarrow> set xs \<subseteq> set ys \<Longrightarrow> placed K k xs"
  by (auto simp: placed_def list_all_iff)

definition passed :: "segment_key \<Rightarrow> 'c drained \<Rightarrow> bool" where
  "passed k out \<longleftrightarrow> list_ex (\<lambda>(k', cs, fp). k' = k \<and> fp) out"

text \<open>The entries of a drain: in order, all passed but perhaps the last, which is the new playhead.\<close>

definition drain_ok :: "attributed_chunk reorder \<Rightarrow> attributed_chunk reorder \<Rightarrow> attributed_chunk drained \<Rightarrow> bool" where
  "drain_ok r r' out \<longleftrightarrow>
     list_all (\<lambda>(k, cs, fp). cs = buffer_of k r \<and> next_emit_segment r \<le> k \<and> (fp \<longrightarrow> k \<in> set (done_segments r))) out \<and>
     sorted_wrt (<) (map fst out) \<and> list_all (\<lambda>(k, cs, fp). fp) (butlast out) \<and>
     (out \<noteq> [] \<and> \<not> snd (snd (last out)) \<longrightarrow> fst (last out) = next_emit_segment r') \<and>
     list_all (\<lambda>k. k \<in> set (done_segments r) \<and> \<not> passed k out) (done_segments r') \<and>
     buffer_of (next_emit_segment r') r' = [] \<and> next_emit_segment r' \<notin> set (done_segments r')"

lemma drain_loop_ok:
  fixes r :: "attributed_chunk reorder"
  shows "drain_loop r = (r', out) \<Longrightarrow> drain_ok r r' out"
proof (induction r arbitrary: r' out rule: drain_loop.induct)
  case (1 r)
  let ?n = "next_emit_segment r"
  show ?case
  proof (cases "?n \<in> set (done_segments r)")
    case True
    obtain r1 out1 where d: "drain_loop (pass_segment r) = (r1, out1)" by fastforce
    have o: "r' = r1" "out = (?n, buffer_of ?n r, True) # out1"
      using 1(2) True d by (auto simp: drain_loop.simps [of r] Let_def)
    have IH: "drain_ok (pass_segment r) r1 out1" by (rule 1(1) [OF refl refl True d])
    let ?m = "next_emit_segment (pass_segment r)"
    have nm: "?n < ?m" by (rule next_pass_segment)
    have keys: "?n < k" if "(k, cs, fp) \<in> set out1" for k cs fp
    proof -
      have "?m \<le> k" using IH that by (auto simp: drain_ok_def list_all_iff)
      with nm show ?thesis by (rule less_le_trans)
    qed
    have ent: "cs = buffer_of k r \<and> ?n \<le> k \<and> (fp \<longrightarrow> k \<in> set (done_segments r))" if "(k, cs, fp) \<in> set out1" for k cs fp
    proof -
      have "cs = buffer_of k (pass_segment r)" "fp \<longrightarrow> k \<in> set (done_segments (pass_segment r))"
        using IH that by (auto simp: drain_ok_def list_all_iff)
      with keys [OF that] show ?thesis by (auto simp: buffer_of_pass)
    qed
    have 1: "list_all (\<lambda>(k, cs, fp). cs = buffer_of k r \<and> ?n \<le> k \<and> (fp \<longrightarrow> k \<in> set (done_segments r))) out"
      using ent True by (auto simp: o list_all_iff)
    have 2: "sorted_wrt (<) (map fst out)" using IH keys by (auto simp: o drain_ok_def)
    have 3: "list_all (\<lambda>(k, cs, fp). fp) (butlast out)" using IH by (auto simp: o drain_ok_def)
    have 4: "out \<noteq> [] \<and> \<not> snd (snd (last out)) \<longrightarrow> fst (last out) = next_emit_segment r'"
      using IH by (auto simp: o drain_ok_def)
    have 5: "list_all (\<lambda>k. k \<in> set (done_segments r) \<and> \<not> passed k out) (done_segments r')"
      using IH by (auto simp: o drain_ok_def list_all_iff passed_def)
    show ?thesis unfolding drain_ok_def using 1 2 3 4 5 IH by (simp add: o drain_ok_def)
  next
    case False
    show ?thesis
    proof (cases "map_of (buffers r) ?n")
      case None
      with 1(2) False have o: "r' = r" "out = []" by (auto simp: drain_loop.simps [of r] Let_def)
      then show ?thesis using False None by (simp add: drain_ok_def buffer_of_def list_all_iff passed_def)
    next
      case (Some cs)
      with 1(2) False have o: "r' = r\<lparr>buffers := AList.update ?n [] (buffers r)\<rparr>"
        "out = (if buffer_of ?n r \<noteq> [] then [(?n, buffer_of ?n r, False)] else [])"
        by (auto simp: drain_loop.simps [of r] Let_def)
      have "next_emit_segment r' = ?n" "done_segments r' = done_segments r" "buffer_of ?n r' = []"
        unfolding o by (simp_all add: next_emit_segment_def buffer_of_update)
      then show ?thesis using False by (simp add: drain_ok_def o(2) list_all_iff passed_def)
    qed
  qed
qed

text \<open>A verdict on audio at its own place: the gate part is of its segment, the window part of its place.\<close>

lemma own_condemned_step:
  assumes "\<exists>gone. condemned l' = condemned l @ map (Pair seg) (gone @ cs) \<and> list_all (\<lambda>c. chunk_segment c = seg) gone"
    and "placed K (K seg) cs" and "list_all (\<lambda>(seg, c). K (chunk_segment c) = K seg) (condemned l)"
  shows "list_all (\<lambda>(seg, c). K (chunk_segment c) = K seg) (condemned l')"
  using assms by (auto simp: list_all_iff placed_def)

lemma drain_guarded_own:
  fixes E :: delivery_env
  assumes ok: "stages_ok s" "cs_hold s \<noteq> None" and v: "verdicts_placed K s" "own_condemned K s"
    and w: "window_held s = []" and cs: "placed K key cs" and fp: "fp \<Longrightarrow> map_of (cs_verdicts s) key \<noteq> None \<or> cs = []"
  defines "s' \<equiv> drain_guarded E (key, cs, fp) s"
  shows "own_condemned K s'" "verdicts_placed K s'" "placed K key (window_held s')" "fp \<Longrightarrow> window_held s' = []"
proof -
  define s1 where "s1 = (if cs \<noteq> [] then publish_ready_chunk_ends cs (deliver E cs s) else s)"
  define s2 where "s2 = publish_drained key s1"
  have m2: "moves cs s s2"
    unfolding s2_def s1_def by (rule moves_same [OF deliver_publish_moves [OF ok(1)] publish_drained_effect])
  have c2: "control s2 = control s" "stages_ok s2" "condemned (cs_log s2) = condemned (cs_log s)"
    using m2 by (simp_all add: moves_def)
  note ce = control_eq [OF c2(1)]
  have "window_held s2 = window_held s1" unfolding s2_def by (rule flow_eq(8) [OF publish_drained_effect(1)])
  also have "\<dots> = (if cs \<noteq> [] then window_held (deliver E cs s) else [])"
    using flow_eq(8) [OF publish_chunks_effect(1) [of cs "deliver E cs s"]] w by (simp add: s1_def)
  finally have w2: "set (window_held s2) \<subseteq> set cs" using deliver_window [OF ok, of E cs] w by (simp split: if_splits)
  then have p2: "placed K key (window_held s2)" by (rule placed_subset [OF cs])
  have d: "s' = (if fp then case map_of (cs_verdicts s2) key of
                  Some v \<Rightarrow> settle_hold E v (s2\<lparr>cs_verdicts := AList.delete key (cs_verdicts s2)\<rparr>)
                | None \<Rightarrow> s2
       else s2)"
    unfolding s'_def drain_guarded_def s2_def s1_def by (simp add: Let_def)
  have "own_condemned K s' \<and> verdicts_placed K s' \<and> placed K key (window_held s') \<and> (fp \<longrightarrow> window_held s' = [])"
  proof (cases "fp \<and> map_of (cs_verdicts s2) key \<noteq> None")
    case True
    then obtain u where u: "map_of (cs_verdicts s2) key = Some u" "fp" by blast
    define s3 where "s3 = s2\<lparr>cs_verdicts := AList.delete key (cs_verdicts s2)\<rparr>"
    have fl: "flow s3 = flow s2" by (simp add: s3_def)
    have ok3: "stages_ok s3" using c2(2) flow_eq(2) [OF fl] by simp
    note e = settle_hold_effect [OF ok3, where v = u and E = E]
    have eq: "s' = settle_hold E u s3" using u by (simp add: d s3_def)
    have ku: "K (v_seg_idx u) = key" using v(1) u(1) unfolding ce(2) verdicts_placed_def by blast
    have "placed K key (drop n (window_held s3))" for n
      using p2 flow_eq(8) [OF fl] set_drop_subset placed_subset by metis
    then have "own_condemned K s'"
      using own_condemned_step [OF e(3)] v(2) ku flow_eq(3) [OF fl] c2(3) by (simp add: eq own_condemned_def)
    moreover have "verdicts_placed K s'"
      using v(1) control_eq(2) [OF e(4)] ce(2) by (auto simp: eq verdicts_placed_def s3_def AList.delete_conv)
    ultimately show ?thesis using e(2) by (simp add: eq)
  next
    case False
    then have "s' = s2" unfolding d by auto
    moreover have "window_held s2 = []" if fp
      using fp that False ce(2) w2 by auto
    ultimately show ?thesis
      using v p2 c2(3) ce(2) by (auto simp: own_condemned_def verdicts_placed_def)
  qed
  then show "own_condemned K s'" "verdicts_placed K s'" "placed K key (window_held s')" "fp \<Longrightarrow> window_held s' = []"
    by blast+
qed


lemma drain_guarded_fold_own:
  fixes E :: delivery_env
  assumes "stages_ok s" and "cs_hold s \<noteq> None" and "verdicts_placed K s" and "own_condemned K s" and "window_held s = []"
    and "list_all (\<lambda>(k, cs, fp). placed K k cs \<and> (fp \<longrightarrow> map_of (cs_verdicts s) k \<noteq> None \<or> cs = [])) out"
    and "sorted_wrt (<) (map fst out)" and "list_all (\<lambda>(k, cs, fp). fp) (butlast out)"
  shows "own_condemned K (fold (drain_guarded E) out s) \<and> verdicts_placed K (fold (drain_guarded E) out s) \<and>
     (window_held (fold (drain_guarded E) out s) = [] \<or>
      (out \<noteq> [] \<and> \<not> snd (snd (last out)) \<and> placed K (fst (last out)) (window_held (fold (drain_guarded E) out s)))) \<and>
     (\<forall>k. \<not> passed k out \<longrightarrow>
          map_of (cs_verdicts (fold (drain_guarded E) out s)) k = map_of (cs_verdicts s) k)"
  using assms
proof (induction out arbitrary: s)
  case Nil
  then show ?case by simp
next
  case (Cons d out)
  obtain k cs fp where d: "d = (k, cs, fp)" by (cases d)
  define s1 where "s1 = drain_guarded E d s"
  have pk: "placed K k cs" "fp \<Longrightarrow> map_of (cs_verdicts s) k \<noteq> None \<or> cs = []" using Cons.prems(6) by (auto simp: d)
  note own = drain_guarded_own [where E = E and fp = fp, OF Cons.prems(1-5) pk, folded d s1_def]
  note eff = drain_guarded_effect [OF Cons.prems(1), where E = E and key = k and cs = cs and fp = fp, folded d s1_def]
  have ok1: "stages_ok s1" "cs_hold s1 \<noteq> None" using eff(1,5) Cons.prems(2) by (simp_all add: follows_def)
  have vk: "map_of (cs_verdicts s1) k' = map_of (cs_verdicts s) k'" if "\<not> (k' = k \<and> fp)" for k'
    using that by (auto simp: eff(4) AList.delete_conv)
  show ?case
  proof (cases "out = []")
    case True
    have "\<forall>k'. \<not> passed k' [d] \<longrightarrow> map_of (cs_verdicts s1) k' = map_of (cs_verdicts s) k'"
      using vk by (simp add: passed_def d)
    then show ?thesis using own True by (cases fp) (simp_all add: d s1_def)
  next
    case False
    then have fp: "fp" using Cons.prems(8) by (simp add: d)
    have lt: "k < k'" if "(k', cs', fp') \<in> set out" for k' cs' fp' using Cons.prems(7) that by (force simp: d)
    have all: "list_all (\<lambda>(k, cs, fp). placed K k cs \<and> (fp \<longrightarrow> map_of (cs_verdicts s1) k \<noteq> None \<or> cs = [])) out"
    proof -
      have "placed K k' cs' \<and> (fp' \<longrightarrow> map_of (cs_verdicts s1) k' \<noteq> None \<or> cs' = [])" if "(k', cs', fp') \<in> set out" for k' cs' fp'
      proof -
        have "k' \<noteq> k" using lt [OF that] by simp
        then have "map_of (cs_verdicts s1) k' = map_of (cs_verdicts s) k'" by (intro vk) simp
        with that Cons.prems(6) show ?thesis by (auto simp: list_all_iff)
      qed
      note ent = this
      show ?thesis unfolding list_all_iff
      proof
        fix x assume "x \<in> set out"
        moreover obtain a b c where "x = (a, b, c)" by (cases x)
        ultimately show "case x of (k, cs, fp) \<Rightarrow> placed K k cs \<and> (fp \<longrightarrow> map_of (cs_verdicts s1) k \<noteq> None \<or> cs = [])"
          using ent [of a b c] by simp
      qed
    qed
    have IH: "own_condemned K (fold (drain_guarded E) out s1) \<and> verdicts_placed K (fold (drain_guarded E) out s1) \<and>
     (window_held (fold (drain_guarded E) out s1) = [] \<or>
      (out \<noteq> [] \<and> \<not> snd (snd (last out)) \<and> placed K (fst (last out)) (window_held (fold (drain_guarded E) out s1)))) \<and>
     (\<forall>k. \<not> passed k out \<longrightarrow>
          map_of (cs_verdicts (fold (drain_guarded E) out s1)) k = map_of (cs_verdicts s1) k)"
      using own fp all Cons.prems(7,8) False ok1 by (intro Cons.IH) (simp_all add: d)
    have IHv: "map_of (cs_verdicts (fold (drain_guarded E) out s1)) k' = map_of (cs_verdicts s1) k'" if "\<not> passed k' out" for k'
      using IH that by blast
    have v: "\<forall>k'. \<not> passed k' (d # out) \<longrightarrow>
        map_of (cs_verdicts (fold (drain_guarded E) out s1)) k' = map_of (cs_verdicts s) k'"
    proof (intro allI impI)
      fix k' assume n: "\<not> passed k' (d # out)"
      then have "\<not> passed k' out" "\<not> (k' = k \<and> fp)" by (auto simp: passed_def d)
      then show "map_of (cs_verdicts (fold (drain_guarded E) out s1)) k' = map_of (cs_verdicts s) k'"
        using IHv vk by metis
    qed
    have f: "fold (drain_guarded E) (d # out) s = fold (drain_guarded E) out s1" by (simp add: s1_def)
    have w: "window_held (fold (drain_guarded E) out s1) = [] \<or> (d # out \<noteq> [] \<and> \<not> snd (snd (last (d # out))) \<and>
        placed K (fst (last (d # out))) (window_held (fold (drain_guarded E) out s1)))"
      using IH False by auto
    show ?thesis unfolding f using IH v w by blast
  qed
qed


lemma own_invD:
  assumes "own_inv K s"
  shows "stages_ok s" "cs_hold s \<noteq> None" "own_condemned K s" "buffers_placed K (cs_reorder s)" "verdicts_placed K s"
    "buffer_of (next_emit_segment (cs_reorder s)) (cs_reorder s) = []"
    "next_emit_segment (cs_reorder s) \<notin> set (done_segments (cs_reorder s))"
    "\<forall>k \<in> set (done_segments (cs_reorder s)). map_of (cs_verdicts s) k \<noteq> None"
    "placed K (next_emit_segment (cs_reorder s)) (window_held s)"
  using assms unfolding own_inv_def by blast+

text \<open>Steps that leave the reorder buffer and the verdicts alone and put nothing new into the window.\<close>

lemma own_inv_moves:
  assumes "own_inv K s" and "moves cs s s'" and "set (window_held s') \<subseteq> set (window_held s)"
  shows "own_inv K s'"
proof -
  note d = own_invD [OF assms(1)]
  have c: "control s' = control s" "stages_ok s'" "condemned (cs_log s') = condemned (cs_log s)"
    using assms(2) by (simp_all add: moves_def)
  note ce = control_eq [OF c(1)]
  have "placed K (next_emit_segment (cs_reorder s)) (window_held s')" by (rule placed_subset [OF d(9) assms(3)])
  moreover have "own_condemned K s'" "verdicts_placed K s'"
    using d(3,5) c(3) unfolding own_condemned_def verdicts_placed_def ce by simp_all
  ultimately show ?thesis
    unfolding own_inv_def ce using d c(2) by blast
qed

lemma own_inv_same:
  assumes "own_inv K s" and "flow s' = flow s" and "control s' = control s"
  shows "own_inv K s'"
  by (rule own_inv_moves [OF assms(1) moves_same [OF moves_refl [OF own_invD(1) [OF assms(1)]] assms(2,3)]])
    (use flow_eq(8) [OF assms(2)] in simp)

lemma buffers_placedD: "buffers_placed K r \<Longrightarrow> placed K k (buffer_of k r)"
  unfolding buffers_placed_def by blast

lemma buffers_placed_fifo:
  assumes "buffers_placed K r" and "drain_loop r = (r', out)"
  shows "buffers_placed K r'"
  unfolding buffers_placed_def
proof
  fix k
  have "placed K k (buffer_of k r)" using assms(1) unfolding buffers_placed_def by blast
  then show "placed K k (buffer_of k r')" using drain_loop_fifo [OF assms(2), of k] by simp
qed

lemma on_audio_chunk_own:
  assumes inv: "own_inv K s" and key: "key_of_meta (order_of seg s) = K seg"
  shows "own_inv K (on_audio_chunk E seg audio p fs fe s)"
proof -
  note d = own_invD [OF inv]
  define s1 where "s1 = note_frames seg fe False (observe_frames E audio s)"
  define c where "c = attributed_chunk_of seg audio p fs fe"
  define k where "k = K seg"
  define n where "n = next_emit_segment (cs_reorder s)"
  define r0 where "r0 = (cs_reorder s)\<lparr>buffers := AList.update k (buffer_of k (cs_reorder s) @ [c]) (buffers (cs_reorder s))\<rparr>"
  obtain r ready where r: "reorder_push (clock_now E s) (group_idx (order_of seg s)) (local_idx (order_of seg s)) c (cs_reorder s) = (r, ready)"
    by fastforce
  have kk: "(group_idx (order_of seg s), local_idx (order_of seg s)) = k" using key by (simp add: key_of_meta_def k_def)
  have cp: "K (chunk_segment c) = k" by (simp add: c_def attributed_chunk_of_def k_def)
  have n0: "next_emit_segment r0 = n" "done_segments r0 = done_segments (cs_reorder s)"
    by (simp_all add: r0_def n_def next_emit_segment_def)
  have bp0: "buffers_placed K r0" unfolding buffers_placed_def
  proof
    fix k' show "placed K k' (buffer_of k' r0)"
      using buffers_placedD [OF d(4)] cp unfolding r0_def buffer_of_update by auto
  qed
  have res: "buffers_placed K r \<and> next_emit_segment r = n \<and> done_segments r = done_segments (cs_reorder s) \<and>
      buffer_of n r = [] \<and> placed K n ready"
  proof (cases "k = n")
    case True
    obtain r1 out where dl: "drain_loop r0 = (r1, out)" by fastforce
    note ok = drain_loop_ok [OF dl]
    have "n \<notin> set (done_segments r0)" using d(7) n0 by (simp add: n_def)
    then have o: "r1 = (if map_of (buffers r0) n = None then r0 else r0\<lparr>buffers := AList.update n [] (buffers r0)\<rparr>)"
      "out = (if map_of (buffers r0) n = None \<or> buffer_of n r0 = [] then [] else [(n, buffer_of n r0, False)])"
      using dl n0(1) by (auto simp: drain_loop.simps [of r0] Let_def split: if_splits)
    have "same_queue r r1" "ready = drained_chunks out"
      using r kk True dl by (auto simp: reorder_push_def Let_def try_drain_ex_def r0_def n_def)
    note sq = same_queueD [OF this(1)]
    have nx: "next_emit_segment r1 = n" "done_segments r1 = done_segments r0" unfolding o using n0 by (simp_all add: next_emit_segment_def)
    have "placed K n (buffer_of n r0)" using bp0 unfolding buffers_placed_def by blast
    then have "placed K n ready" using \<open>ready = drained_chunks out\<close> by (simp add: o(2))
    moreover have "buffers_placed K r" using buffers_placed_fifo [OF bp0 dl] unfolding buffers_placed_def sq .
    ultimately show ?thesis using sq nx n0(2) ok by (simp add: drain_ok_def)
  next
    case False
    have "same_queue r r0" "ready = []"
      using r kk False by (auto simp: reorder_push_def Let_def r0_def n_def)
    note sq = same_queueD [OF this(1)]
    have "buffer_of n r0 = []" using d(6) False unfolding r0_def buffer_of_update n_def by simp
    then show ?thesis using sq n0 bp0 \<open>ready = []\<close> unfolding buffers_placed_def by simp
  qed
  define s2 where "s2 = next_read s1\<lparr>cs_reorder := r\<rparr>"
  have c1: "control s1 = control s" "flow s1 = flow s" by (simp_all add: s1_def)
  have f2: "flow s2 = flow s" using c1 by (simp add: s2_def)
  note fe2 = flow_eq [OF f2]
  have o2: "cs_reorder s2 = r" "cs_verdicts s2 = cs_verdicts s" using control_eq [OF c1(1)] by (simp_all add: s2_def)
  have ok2: "stages_ok s2" "cs_hold s2 \<noteq> None" using d(1,2) fe2 by simp_all
  define s3 where "s3 = on_audio_chunk E seg audio p fs fe s"
  have s3: "s3 = publish_ready_chunk_ends ready (deliver E ready s2)"
    using r by (simp add: s3_def on_audio_chunk_def s1_def [symmetric] s2_def c_def control_eq [OF c1(1)])
      (simp add: s1_def)
  have mv: "moves ready s2 s3" unfolding s3 by (rule moves_same [OF deliver_moves [OF ok2(1)] publish_chunks_effect])
  then have c3: "control s3 = control s2" "stages_ok s3" "condemned (cs_log s3) = condemned (cs_log s)"
    using fe2 by (simp_all add: moves_def)
  note ce = control_eq [OF c3(1)]
  have "set (window_held s3) \<subseteq> set (window_held s @ ready)"
    using deliver_window [OF ok2, of E ready] fe2(8) flow_eq(8) [OF publish_chunks_effect(1) [of ready "deliver E ready s2"]]
    by (simp add: s3)
  moreover have "placed K n (window_held s @ ready)" using d(9) res by (simp add: n_def)
  ultimately have "placed K n (window_held s3)" using placed_subset by blast
  moreover have "own_condemned K s3" "verdicts_placed K s3"
    using d(3,5) c3(3) unfolding own_condemned_def verdicts_placed_def ce o2 by simp_all
  moreover have "\<forall>k\<in>set (done_segments r). map_of (cs_verdicts s) k \<noteq> None" using res d(8) by simp
  ultimately show ?thesis
    unfolding own_inv_def s3_def [symmetric] ce o2 using res c3(2) ok2(2) d(7) unfolding n_def by simp
qed


lemma prepare_segment_end_own:
  fixes E :: delivery_env and seg :: int and m :: end_metrics and prepared :: "end_events option" and fe :: "int option"
  assumes inv: "own_inv K s" and key: "key_of_meta (order_of seg s) = K seg"
  defines "s' \<equiv> prepare_segment_end E seg m prepared fe s" and "n \<equiv> next_emit_segment (cs_reorder s)"
  shows "stages_ok s'" "cs_hold s' \<noteq> None" "cs_reorder s' = cs_reorder s" "own_condemned K s'" "verdicts_placed K s'"
    "K seg = n \<Longrightarrow> window_held s' = [] \<and> cs_verdicts s' = cs_verdicts s"
    "K seg \<noteq> n \<Longrightarrow> window_held s' = window_held s \<and> map_of (cs_verdicts s') = (map_of (cs_verdicts s))(K seg \<mapsto> hold_verdict (rounding E) seg m)"
proof -
  note d = own_invD [OF inv]
  define v where "v = hold_verdict (rounding E) seg m"
  define s0 where "s0 = s\<lparr>cs_order := AList.delete seg (cs_order s)\<rparr>"
  define s1 where "s1 = record_verdict E v (K seg) s0"
  have vs: "v_seg_idx v = seg" by (simp add: v_def hold_verdict_def Let_def)
  have f0: "flow s0 = flow s" by (simp add: s0_def)
  note fe0 = flow_eq [OF f0]
  have ok0: "stages_ok s0" using d(1) fe0 by simp
  have s0: "cs_reorder s0 = cs_reorder s" "cs_verdicts s0 = cs_verdicts s" "cs_hold s0 = cs_hold s" by (simp_all add: s0_def)
  note p = prepare_segment_end_effect [OF d(1), where E = E and seg = seg and m = m and prepared = prepared and fe = fe, folded s'_def]
  show "stages_ok s'" "cs_hold s' \<noteq> None" "cs_reorder s' = cs_reorder s" using p d(2) by (simp_all add: follows_def)
  have f: "flow s' = flow s1" "control s' = control s1"
    unfolding s'_def prepare_segment_end_def s0_def [symmetric] v_def [symmetric] key
    by (simp_all add: queue_end_events_def Let_def s1_def split: option.split)
  note fe1 = flow_eq [OF f(1)] and ce1 = control_eq [OF f(2)]
  have "own_condemned K s' \<and> verdicts_placed K s' \<and>
    (K seg = n \<longrightarrow> window_held s' = [] \<and> cs_verdicts s' = cs_verdicts s) \<and>
    (K seg \<noteq> n \<longrightarrow> window_held s' = window_held s \<and> map_of (cs_verdicts s') = (map_of (cs_verdicts s))(K seg \<mapsto> v))"
  proof (cases "K seg = n")
    case True
    have s1: "s1 = settle_hold E v s0" using True d(2) by (auto simp: s1_def record_verdict_def s0 n_def)
    note e = settle_hold_effect [OF ok0, where v = v and E = E, folded s1]
    have "placed K n (drop i (window_held s0))" for i
      using d(9) fe0(8) set_drop_subset placed_subset unfolding n_def by metis
    then have "own_condemned K s1"
      using own_condemned_step [OF e(3)] d(3) fe0(3) True vs by (simp add: own_condemned_def)
    then have "own_condemned K s'" unfolding own_condemned_def fe1 .
    moreover have "cs_verdicts s' = cs_verdicts s" using ce1(2) control_eq(2) [OF e(4)] s0(2) by simp
    moreover have "verdicts_placed K s'" using d(5) unfolding verdicts_placed_def calculation(2) .
    ultimately show ?thesis using True e(2) fe1(8) by simp
  next
    case False
    have s1: "s1 = s0\<lparr>cs_verdicts := AList.update (K seg) v (cs_verdicts s0)\<rparr>"
      using False d(2) by (auto simp: s1_def record_verdict_def s0 n_def)
    have f1: "flow s1 = flow s" unfolding s1 using f0 by simp
    have mv: "map_of (cs_verdicts s') = (map_of (cs_verdicts s))(K seg \<mapsto> v)"
      unfolding ce1(2) s1 by (simp add: s0 AList.update_conv')
    have "own_condemned K s'" using d(3) flow_eq(3) [OF f1] unfolding own_condemned_def fe1 by simp
    moreover have "verdicts_placed K s'"
      using d(5) vs unfolding verdicts_placed_def mv by (metis fun_upd_apply option.inject)
    ultimately show ?thesis using False mv fe1(8) flow_eq(8) [OF f1] by simp
  qed
  then show "own_condemned K s'" "verdicts_placed K s'"
    "K seg = n \<Longrightarrow> window_held s' = [] \<and> cs_verdicts s' = cs_verdicts s"
    "K seg \<noteq> n \<Longrightarrow> window_held s' = window_held s \<and> map_of (cs_verdicts s') = (map_of (cs_verdicts s))(K seg \<mapsto> hold_verdict (rounding E) seg m)"
    unfolding v_def by blast+
qed

lemma on_segment_end_own:
  assumes inv: "own_inv K s" and key: "key_of_meta (order_of seg s) = K seg"
  shows "own_inv K (on_segment_end E seg m prepared fe s)"
proof -
  note d = own_invD [OF inv]
  define om where "om = order_of seg s"
  define n where "n = next_emit_segment (cs_reorder s)"
  define s1 where "s1 = prepare_segment_end E seg m prepared fe s"
  note p = prepare_segment_end_own [OF inv key, where E = E and m = m and prepared = prepared and fe = fe,
      folded s1_def n_def]
  define r0 where "r0 = reorder_prepare (Done (clock_now E s1) (K seg) (group_final om)) (cs_reorder s)"
  obtain r1 out where dl: "drain_loop r0 = (r1, out)" by fastforce
  define r where "r = refresh_stall_clock (clock_now E s1) r1"
  have kk: "group_idx om = fst (K seg)" "local_idx om = snd (K seg)"
    unfolding om_def key [symmetric] key_of_meta_def by simp_all
  have md: "mark_done_ex (clock_now E s1) (group_idx om) (local_idx om) (group_final om) (cs_reorder s1) = (r, out)"
    using dl p(3) unfolding kk by (simp add: mark_done_ex_def try_drain_ex_def r0_def r_def Let_def)
  have r0: "next_emit_segment r0 = n" "set (done_segments r0) = insert (K seg) (set (done_segments (cs_reorder s)))"
    "\<And>k. buffer_of k r0 = buffer_of k (cs_reorder s)"
    by (auto simp: r0_def n_def next_emit_segment_def Let_def buffer_of_def)
  have bp0: "buffers_placed K r0" using d(4) unfolding buffers_placed_def r0(3) .
  note ok = drain_loop_ok [OF dl]
  have sq: "same_queue r r1" by (simp add: r_def)
  note sqd = same_queueD [OF sq]
  define s2 where "s2 = next_read s1\<lparr>cs_reorder := r\<rparr>"
  have f2: "flow s2 = flow s1" by (simp add: s2_def)
  note fe2 = flow_eq [OF f2]
  have v2: "cs_verdicts s2 = cs_verdicts s1" by (simp add: s2_def)
  have ok2: "stages_ok s2" "cs_hold s2 \<noteq> None" "own_condemned K s2" "verdicts_placed K s2"
    using p(1,2,4,5) fe2 unfolding own_condemned_def verdicts_placed_def v2 by simp_all
  define s3 where "s3 = fold (drain_guarded E) out s2"
  have hne: "(if cs_hold s2 = None then drain_firehose E else drain_guarded E) = drain_guarded E" using ok2(2) by auto
  note de = drain_fold_effect [OF ok2(1), of out E, unfolded hne, folded s3_def]
  have e: "on_segment_end E seg m prepared fe s = s3\<lparr>cs_progress_frames := AList.delete seg (cs_progress_frames s3)\<rparr>"
    unfolding on_segment_end_def om_def [symmetric] s1_def [symmetric] Let_def md
    using hne by (simp add: s3_def s2_def)
  have main: "own_condemned K s3 \<and> verdicts_placed K s3 \<and> placed K (next_emit_segment r) (window_held s3) \<and>
      (\<forall>k \<in> set (done_segments r). map_of (cs_verdicts s3) k \<noteq> None)"
  proof (cases "K seg = n")
    case True
    have w: "window_held s2 = []" using p(6) [OF True] fe2(8) by simp
    have vs: "cs_verdicts s2 = cs_verdicts s" using p(6) [OF True] v2 by simp
    have ent: "list_all (\<lambda>(k, cs, fp). placed K k cs \<and> (fp \<longrightarrow> map_of (cs_verdicts s2) k \<noteq> None \<or> cs = [])) out"
      unfolding list_all_iff
    proof
      fix x assume x: "x \<in> set out"
      obtain k cs fp where xk: "x = (k, cs, fp)" by (cases x)
      have "cs = buffer_of k r0" "fp \<longrightarrow> k \<in> set (done_segments r0)"
        using ok x by (auto simp: drain_ok_def list_all_iff xk)
      then have "placed K k cs" "fp \<longrightarrow> k = n \<or> k \<in> set (done_segments (cs_reorder s))" "k = n \<longrightarrow> cs = []"
        using buffers_placedD [OF bp0, of k] r0(2,3) d(6) True by (auto simp: n_def)
      then show "case x of (k, cs, fp) \<Rightarrow> placed K k cs \<and> (fp \<longrightarrow> map_of (cs_verdicts s2) k \<noteq> None \<or> cs = [])"
        using d(8) unfolding vs by (auto simp: xk)
    qed
    have so: "sorted_wrt (<) (map fst out)" "list_all (\<lambda>(k, cs, fp). fp) (butlast out)" using ok by (simp_all add: drain_ok_def)
    note fo = drain_guarded_fold_own [OF ok2(1,2,4,3) w ent so, where E = E, folded s3_def]
    have pl: "placed K (next_emit_segment r) (window_held s3)"
    proof (cases "window_held s3 = []")
      case False
      then have l: "out \<noteq> []" "\<not> snd (snd (last out))" "placed K (fst (last out)) (window_held s3)" using fo by blast+
      moreover have "fst (last out) = next_emit_segment r1" using ok l by (simp add: drain_ok_def)
      ultimately show ?thesis unfolding sqd by simp
    qed simp
    have pn: "passed n out"
    proof -
      have "n \<in> set (done_segments r0)" using r0(2) True by simp
      then have "\<exists>cs out'. out = (n, cs, True) # out'" using dl r0(1) by (auto simp: drain_loop.simps [of r0] Let_def split: prod.splits)
      then show ?thesis by (auto simp: passed_def)
    qed
    have dn: "map_of (cs_verdicts s3) k \<noteq> None" if k: "k \<in> set (done_segments r)" for k
    proof -
      have "k \<in> set (done_segments r0)" "\<not> passed k out" using ok k unfolding sqd by (auto simp: drain_ok_def list_all_iff)
      moreover from this pn have "k \<noteq> n" by blast
      ultimately have "k \<in> set (done_segments (cs_reorder s))" "\<not> passed k out" using r0(2) True by auto
      moreover have "map_of (cs_verdicts s3) k = map_of (cs_verdicts s2) k" using fo calculation(2) by blast
      ultimately show ?thesis using d(8) vs by simp
    qed
    show ?thesis using fo pl dn by blast
  next
    case False
    have nd: "n \<notin> set (done_segments r0)" using d(7) False r0(2) by (simp add: n_def)
    have bn: "buffer_of n r0 = []" using d(6) r0(3) by (simp add: n_def)
    have o: "out = []" "next_emit_segment r1 = n" "done_segments r1 = done_segments r0"
      using dl nd bn r0(1) by (auto simp: drain_loop.simps [of r0] Let_def next_emit_segment_def split: if_splits)
    have s3: "s3 = s2" by (simp add: s3_def o(1))
    have "placed K (next_emit_segment r) (window_held s3)"
      using p(7) [OF False] fe2(8) d(9) unfolding sqd o(2) s3 n_def by simp
    moreover have "map_of (cs_verdicts s3) k \<noteq> None" if "k \<in> set (done_segments r)" for k
      using that p(7) [OF False] d(8) r0(2) unfolding sqd o(3) s3 v2 by auto
    ultimately show ?thesis using ok2 unfolding s3 by blast
  qed
  have "buffers_placed K r" using buffers_placed_fifo [OF bp0 dl] unfolding buffers_placed_def sqd .
  then have "own_inv K s3"
    using main ok de ok2(2) unfolding own_inv_def sqd [symmetric] drain_ok_def
    by (simp add: s2_def follows_def sqd)
  then show ?thesis unfolding e by (rule own_inv_same) simp_all
qed

lemma on_segment_retry_own:
  assumes inv: "own_inv K s"
  shows "own_inv K (on_segment_retry E seg s)"
proof -
  note d = own_invD [OF inv]
  define s' where "s' = on_segment_retry E seg s"
  define k where "k = key_of_meta (order_of seg s)"
  have "same_queue (cs_reorder s') ((cs_reorder s)\<lparr>buffers := AList.delete k (buffers (cs_reorder s))\<rparr>)"
    by (simp add: s'_def on_segment_retry_def discard_def Let_def k_def key_of_meta_def)
  note sq = same_queueD [OF this]
  have nx: "next_emit_segment (cs_reorder s') = next_emit_segment (cs_reorder s)" unfolding sq by (simp add: next_emit_segment_def)
  have dn: "done_segments (cs_reorder s') = done_segments (cs_reorder s)" unfolding sq by simp
  have bf: "buffer_of k' (cs_reorder s') = (if k' = k then [] else buffer_of k' (cs_reorder s))" for k'
    unfolding sq by (rule buffer_of_delete)
  have f: "flow s' = flow s" "cs_verdicts s' = cs_verdicts s"
    by (simp_all add: s'_def on_segment_retry_def Let_def flow_def sent_def cuts_ok_def)
  note fe = flow_eq [OF f(1)]
  have "buffers_placed K (cs_reorder s')" unfolding buffers_placed_def bf using buffers_placedD [OF d(4)] by auto
  moreover have "own_condemned K s'" "verdicts_placed K s'" using d(3,5) unfolding own_condemned_def verdicts_placed_def fe f(2) .
  ultimately show ?thesis
    unfolding s'_def [symmetric] own_inv_def nx dn fe f(2) using d bf [of "next_emit_segment (cs_reorder s)"] by simp
qed

lemma consumer_step_own:
  assumes inv: "own_inv K s" and key: "keyed_step K op s"
  shows "own_inv K (consumer_step E op s)"
proof -
  note ok = own_invD(1) [OF inv]
  have same: "own_inv K s'" if "flow s' = flow s" "control s' = control s" for s' by (rule own_inv_same [OF inv that])
  have fin: "own_inv K (finish_delivery E item s)" if "item = SendDone \<or> item = SendError msg" for item msg
    using finish_delivery_moves [OF ok that, of E] by (intro own_inv_moves [OF inv]) auto
  show ?thesis
  proof (cases op)
    case (Register seg m)
    define s' where "s' = s\<lparr>cs_order := AList.update seg m (cs_order s)\<rparr>"
    have "flow s' = flow s" by (simp add: s'_def)
    note fe = flow_eq [OF this]
    have "cs_reorder s' = cs_reorder s" "cs_verdicts s' = cs_verdicts s" by (simp_all add: s'_def)
    then show ?thesis using inv unfolding Register consumer_step.simps s'_def [symmetric]
        own_inv_def own_condemned_def verdicts_placed_def fe by simp
  next
    case (Result r)
    show ?thesis
    proof (cases "cs_finished s")
      case False
      show ?thesis
      proof (cases r)
        case (PrefillDone seg ev)
        have "flow (on_prefill_done seg ev s) = flow s" "control (on_prefill_done seg ev s) = control s"
          by (simp_all add: on_prefill_done_def flow_def sent_def cuts_ok_def log_item_def control_def)
        with Result PrefillDone False show ?thesis by (simp add: same)
      qed (use Result False key on_audio_chunk_own [OF inv] on_segment_end_own [OF inv] on_segment_retry_own [OF inv] same
          fin in simp_all)
    qed (use Result same in simp)
  next
    case HoldTick
    then show ?thesis
      using inv own_inv_moves [OF inv release_hold_moves [OF ok, of E] release_hold_window [OF ok]]
      by (auto simp: hold_tick_def split: option.split)
  next
    case GateTick
    have "window_held (release_semantic_due E False s) = window_held s"
      using release_semantic_moves [OF ok, of E False] by (simp add: window_held_def)
    then show ?thesis
      using inv own_inv_moves [OF inv, of "[]" "release_semantic_due E False s"] release_semantic_moves [OF ok, of E False] GateTick by simp
  next
    case (ReorderWatch ev)
    have "flow (reorder_watch E ev s) = flow s" "control (reorder_watch E ev s) = control s"
      by (auto simp: reorder_watch_def flow_def sent_def cuts_ok_def log_item_def control_def next_read_def split: option.split)
    with ReorderWatch inv show ?thesis by (simp add: same)
  qed
qed

lemma run_own: "own_inv K s \<Longrightarrow> keyed_run K E ops s \<Longrightarrow> own_inv K (fold (consumer_step E) ops s)"
  by (induction ops arbitrary: s) (auto intro: consumer_step_own)

text \<open>
  C13. Guarded delivery never condemns the audio of another segment. Segments finish out of order,
  a verdict waits until its segment's audio has moved into the hold window, and the start gate
  behind the window can still hold audio of earlier segments; when a verdict is applied, every
  chunk it drops, from the gate or from the window, belongs to the segment that was judged, and
  between two steps the window only holds audio of the segment at the playhead.
\<close>

theorem condemned_audio_is_own:
  assumes "h = new_hold w bps" and "g = semantic_start_gate_for (b \<noteq> None) opts"
    and "b = None \<or> b = Some new_bypass" and "new_reorder timeout = Inr r"
    and "keyed_run K E ops (new_consumer r (Some h) g b e)" and "inj K"
    and "s' = fold (consumer_step E) ops (new_consumer r (Some h) g b e)"
  shows "list_all (\<lambda>(seg, c). chunk_segment c = seg) (condemned (cs_log s')) \<and>
         list_all (\<lambda>c. K (chunk_segment c) = next_emit_segment (cs_reorder s')) (window_held s')"
proof -
  define s where "s = new_consumer r (Some h) g b e"
  have r: "buffers r = []" "done_segments r = []"
    using assms(4) by (auto simp: new_reorder_def Let_def split: float_arg.splits pyfloat.splits if_splits)
  have ok: "stages_ok s" "stream s = []"
    using new_consumer_ok [of "Some h" w bps g b opts r e] assms(1-3) by (simp_all add: s_def)
  have "cs_reorder s = r" "cs_hold s = Some h" "cs_verdicts s = []" "cs_log s = []" by (simp_all add: s_def new_consumer_def)
  then have "own_inv K s"
    using ok r by (simp add: own_inv_def own_condemned_def buffers_placed_def verdicts_placed_def buffer_of_def stream_def)
  then have inv: "own_inv K s'" using run_own assms(5,7) unfolding s_def by blast
  have "list_all (\<lambda>(seg, c). chunk_segment c = seg) (condemned (cs_log s'))"
    using own_invD(3) [OF inv] assms(6) by (auto simp: own_condemned_def list_all_iff inj_eq)
  then show ?thesis using own_invD(9) [OF inv] by (simp add: placed_def)
qed

section \<open>Audio that is condemned twice, and a marker that comes early\<close>

lemma pop_tail_done: "r \<le> 0 \<Longrightarrow> pop_tail r cs = (rev cs, [])"
  by (cases cs) auto

text \<open>
  With guarded delivery and the start gate together, an abort verdict is charged twice. Take a
  segment with audio in both buffers and a verdict on so few bytes that the newest chunk of the
  hold window covers them. That chunk goes, and the newest chunk of the gate goes as well: audio
  from the middle of the segment that the verdict did not condemn.
\<close>

theorem condemned_bytes_charged_twice:
  assumes "stages_ok s" and "cs_gate s = Some g" and "sg_held g = gs @ [a]" and "cs_hold s = Some h" and "held h = hs @ [b]"
    and "chunk_segment a = v_seg_idx v" and "0 < v_discard_bytes v" and "v_discard_bytes v \<le> chunk_len a"
    and "v_discard_bytes v \<le> chunk_len b" and "\<not> v_discard_all v"
  shows "filter audible (stream (settle_hold E v s)) = filter audible (sent s @ gs @ hs) \<and>
         filter audible (stream s) = filter audible (sent s @ gs @ [a] @ hs @ [b])"
proof -
  define s1 where "s1 = reset_vad v s"
  define s2 where "s2 = condemn_gate v s1"
  define s3 where "s3 = condemn_hold v s2"
  note f = flow_eq [OF reset_vad_effect(1) [of v s], folded s1_def]
  have ok1: "stages_ok s1" using assms(1) f by simp
  note eg = condemn_gate_effect [OF ok1, of v, folded s2_def]
  note eh = condemn_hold_effect [OF eg(1), of v, folded s3_def]
  have "snd (sg_discard_segment (v_seg_idx v) False (v_discard_bytes v) g) = [a] \<and>
      sg_held (fst (sg_discard_segment (v_seg_idx v) False (v_discard_bytes v) g)) = gs"
    using assms(3,6-8) by (simp add: sg_discard_segment_def discard_loop_done)
  then have gh: "gate_held s2 = gs"
    using f(6) assms(2,7,10) by (auto simp: s2_def condemn_gate_def condemns_def gate_held_def log_item_def split: prod.splits)
  have "window_held s1 = hs @ [b]" using f(8) assms(4,5) by (simp add: window_held_def)
  then have wh: "window_held s3 = hs"
    unfolding eh(5) eg(4) using assms(7,9,10) by (simp add: window_after_def pop_tail_done)
  have "settle_hold E v s = flush_hold E s3" by (simp add: settle_hold_def s1_def s2_def s3_def)
  moreover have "stream s3 = sent s @ gs @ hs" using eh(3,4) eg(3) f(4) gh wh by (simp add: stream_def)
  ultimately have "filter audible (stream (settle_hold E v s)) = filter audible (sent s @ gs @ hs)"
    using flush_hold_moves [OF eh(1), of E] by (simp add: moves_def)
  moreover have "stream s = sent s @ gs @ [a] @ hs @ [b]"
    using assms(2-5) by (simp add: stream_def gate_held_def window_held_def)
  ultimately show ?thesis by simp
qed

definition ex_env :: delivery_env where
  "ex_env = \<lparr>rounding = id, clock_at = \<lambda>i. of_nat i / 100, pending_raw_at = \<lambda>_. True, marks_effective = \<lambda>_. None\<rparr>"

definition ex_options :: delivery_options where
  "ex_options = \<lparr>opt_delivery = None, opt_window_ms = NumberOpt 100, opt_gate = True, opt_min_ms = AbsentOpt, opt_max_ms = AbsentOpt\<rparr>"

definition ex_verdict :: verdict where
  "ex_verdict = \<lparr>v_eos_reason = ''loop_abort'', v_discard_bytes = 4, v_discard_all = False, v_keep_frames = 3, v_seg_idx = 0\<rparr>"

definition ex_gate :: start_gate where
  "ex_gate = sg_push 0 [ex_chunk 0 4, ex_chunk 0 5] (new_start_gate 96000 160 300)"

definition ex_r :: "attributed_chunk reorder" where
  "ex_r = \<lparr>next_group = 0, next_local = 0, buffers = [], done_segments = [], final_locals = [], stall_timeout_sec = 10,
           stall_started_at = None, stall_key = None\<rparr>"

definition ex_two_stage :: consumer where
  "ex_two_stage = new_consumer (ex_r) (Some ex_hold) (Some ex_gate) None None"

lemma ex_gate_simps:
  "gate_ok ex_gate" "sg_held ex_gate = [ex_chunk 0 4] @ [ex_chunk 0 5]"
  by (simp_all add: ex_gate_def sg_push_def sg_push_one_def new_start_gate_def gate_ok_def ex_chunk_def chunk_len_def Let_def)

theorem condemned_bytes_charged_twice_witness:
  "filter audible (stream (settle_hold ex_env ex_verdict ex_two_stage)) = [ex_chunk 0 4, ex_chunk 0 4, ex_chunk 0 4] \<and>
   filter audible (stream ex_two_stage) = [ex_chunk 0 4, ex_chunk 0 5, ex_chunk 0 4, ex_chunk 0 4, ex_chunk 0 4]"
proof -
  have "stages_ok ex_two_stage"
    using ex_gate_simps(1) ex_hold_simps(3) by (simp add: stages_ok_def ex_two_stage_def new_consumer_def bypassing_def)
  moreover have "cs_gate ex_two_stage = Some ex_gate" "cs_hold ex_two_stage = Some ex_hold" "sent ex_two_stage = []"
    by (simp_all add: ex_two_stage_def new_consumer_def sent_def)
  moreover have "held ex_hold = [ex_chunk 0 4, ex_chunk 0 4] @ [ex_chunk 0 4]" by (simp add: ex_hold_simps)
  ultimately show ?thesis
    using condemned_bytes_charged_twice [of ex_two_stage ex_gate "[ex_chunk 0 4]" "ex_chunk 0 5" ex_hold
        "[ex_chunk 0 4, ex_chunk 0 4]" "ex_chunk 0 4" ex_verdict ex_env] ex_gate_simps(2)
    by (simp add: ex_verdict_def ex_chunk_def chunk_len_def)
qed

definition ex_meta :: "int \<Rightarrow> bool \<Rightarrow> order_meta" where
  "ex_meta l fin = \<lparr>group_idx = 0, local_idx = l, group_final = fin\<rparr>"

definition ex_end :: "string \<Rightarrow> int \<Rightarrow> int \<Rightarrow> end_metrics" where
  "ex_end reason steps tail = \<lparr>em_eos_reason = reason, em_discard_all_audio = False, em_audio_steps = steps,
     em_abort_tail_frames = tail, em_text_tokens = 0, em_ema = 0\<rparr>"

fun item_label :: "client_item \<Rightarrow> string \<times> int" where
  "item_label (SendAudio c) = (''audio'', chunk_segment c)"
| "item_label (SendEvent (PyInt i)) = (''segment_end'', i)"
| "item_label (CondemnHeld v kept gone) = (''condemn'', v_seg_idx v)"
| "item_label SendDone = (''done'', 0)"
| "item_label _ = (''other'', 0)"

definition ex_still :: delivery_env where
  "ex_still = \<lparr>rounding = id, clock_at = \<lambda>i. 0, pending_raw_at = \<lambda>_. False, marks_effective = \<lambda>_. None\<rparr>"

definition ex_ops :: "string \<Rightarrow> consumer_op list" where
  "ex_ops reason = [Register 0 (ex_meta 0 False), Register 1 (ex_meta 1 True),
     Result (AudioChunk 1 [2, 2, 2, 2] None None (Some 1)), Result (AudioChunk 1 [3, 3, 3, 3] None None (Some 2)),
     Result (SegmentEnd 1 (ex_end reason 2 1) (Some (PyInt 1, None)) None),
     Result (AudioChunk 0 [1, 1, 1, 1] None None (Some 1)), HoldTick,
     Result (SegmentEnd 0 (ex_end ''codec_eos'' 1 0) (Some (PyInt 0, None)) None), Result SessionDone]"

definition ex_start :: consumer where
  "ex_start = new_consumer ex_r (Some (new_hold (1 / 10) 40)) None None None"

text \<open>
  The final marker of a segment can overtake its audio. The markers are meant to be published
  after the held audio of the segment has been settled; for a segment that finished ahead of the
  playhead the drain publishes the marker first and settles the hold window after it. In a run with
  two segments, the second one done first, its marker reaches the client before any of its audio.
\<close>

theorem end_marker_overtakes_audio:
  "map item_label (cs_log (fold (consumer_step ex_still) (ex_ops ''codec_eos'') ex_start)) =
     [(''audio'', 0), (''segment_end'', 0), (''segment_end'', 1), (''audio'', 1), (''audio'', 1), (''done'', 0)]"
  by code_simp

lemma ex_start_new:
  "new_reorder (FloatOf (Fin 10)) = Inr ex_r" "semantic_start_gate_for (None \<noteq> None) (ex_options\<lparr>opt_gate := False\<rparr>) = None"
  by (simp_all add: new_reorder_def ex_r_def semantic_start_gate_for_def ex_options_def)

text \<open>
  Two segments behind window and gate: the first is in the gate when the second one loops. Of the
  second segment one chunk is in the gate as well and one in the window; the verdict takes both,
  and the first segment is heard.
\<close>

definition ex_gated :: consumer where
  "ex_gated = new_consumer ex_r (Some (new_hold (1 / 10) 40)) (Some (new_start_gate 96000 160 300)) None None"

definition ex_gated_ops :: "consumer_op list" where
  "ex_gated_ops = [Register 0 (ex_meta 0 False), Register 1 (ex_meta 1 True),
     Result (AudioChunk 0 [1, 1, 1, 1] None None (Some 1)), Result (SegmentEnd 0 (ex_end ''codec_eos'' 1 0) None None),
     Result (AudioChunk 1 [2, 2, 2, 2] None None (Some 1)), HoldTick, Result (AudioChunk 1 [3, 3, 3, 3] None None (Some 2)),
     Result (SegmentEnd 1 (ex_end ''loop_abort'' 2 1) None None), Result SessionDone]"

definition ex_gated_cuts :: "client_item list \<Rightarrow> (string \<times> int \<times> int list \<times> int list) list" where
  "ex_gated_cuts items = concat (map (\<lambda>i. case i of
       CondemnGate v kept gone \<Rightarrow> [(''gate'', v_seg_idx v, map chunk_segment kept, map chunk_segment gone)]
     | CondemnHeld v kept gone \<Rightarrow> [(''hold'', v_seg_idx v, map chunk_segment kept, map chunk_segment gone)]
     | _ \<Rightarrow> []) items)"

lemma ex_gated_new: "semantic_start_gate_for (None \<noteq> None) ex_options = Some (new_start_gate 96000 160 300)"
  by (simp add: semantic_start_gate_for_def ex_options_def engine_sample_rate_def)

lemma ex_gated_run:
  "ex_gated_cuts (cs_log (fold (consumer_step ex_env) ex_gated_ops ex_gated)) = [(''gate'', 1, [0], [1]), (''hold'', 1, [], [1])]"
  "map chunk_segment (sent (fold (consumer_step ex_env) ex_gated_ops ex_gated)) = [0]"
  "map fst (condemned (cs_log (fold (consumer_step ex_env) ex_gated_ops ex_gated))) = [1, 1]"
  "map chunk_segment (reorder_outputs (run_reorder_ops ex_env ex_gated_ops ex_gated) ex_r) = [0, 1, 1]"
  by code_simp+


theorem done_flushes_everything_witness:
  "window_held ex_two_stage \<noteq> [] \<and> gate_held (consumer_step ex_still (Result SessionDone) ex_two_stage) = [] \<and>
   window_held (consumer_step ex_still (Result SessionDone) ex_two_stage) = [] \<and>
   filter audible (sent (consumer_step ex_still (Result SessionDone) ex_two_stage)) = filter audible (stream ex_two_stage)"
proof -
  have "stages_ok ex_two_stage"
    using ex_gate_simps(1) ex_hold_simps(3) by (simp add: stages_ok_def ex_two_stage_def new_consumer_def bypassing_def)
  moreover have "\<not> cs_finished ex_two_stage" "window_held ex_two_stage \<noteq> []"
    by (simp_all add: ex_two_stage_def new_consumer_def window_held_def ex_hold_simps)
  ultimately show ?thesis
    using done_flushes_everything [of ex_two_stage SessionDone "''''"
        "consumer_step ex_still (Result SessionDone) ex_two_stage" ex_still] by blast
qed

theorem condemned_audio_is_own_witness:
  "let s' = fold (consumer_step ex_env) ex_gated_ops ex_gated
   in list_all (\<lambda>(seg, c). chunk_segment c = seg) (condemned (cs_log s')) \<and>
      map fst (condemned (cs_log s')) = [1, 1] \<and>
      ex_gated_cuts (cs_log s') = [(''gate'', 1, [0], [1]), (''hold'', 1, [], [1])]"
proof -
  have k: "keyed_run (Pair 0) ex_env ex_gated_ops ex_gated" by code_simp
  have i: "inj (Pair (0 :: int) :: int \<Rightarrow> segment_key)" by (simp add: inj_def)
  have "list_all (\<lambda>(seg, c). chunk_segment c = seg) (condemned (cs_log (fold (consumer_step ex_env) ex_gated_ops ex_gated)))"
    using condemned_audio_is_own [OF refl ex_gated_new [symmetric] disjI1 [OF refl] ex_start_new(1)
        k [unfolded ex_gated_def] i refl] unfolding ex_gated_def by blast
  then show ?thesis using ex_gated_run by (simp add: Let_def)
qed

end
