(* ===== verification/Split_Driver.thy ===== *)
theory Split_Driver
  imports Native_Cursor
begin

text \<open>
  The guard-based state machine of \<open>engine/frontend/spliter/core.py\<close> and the token-driven machine
  that \<open>driver.py\<close> builds from it: it cuts a token stream into segments at punctuation, with
  thresholds that \<open>compute_thresholds\<close> derives from the KV budget.

  Guards, actions and callbacks are Python callables that may read and write their owner; they are
  functions of the event and of a context \<open>'c\<close>, here the fields of the driver. \<open>step\<close> is one call;
  the loop of \<open>feed\<close> may in general run forever and is a partial function, which is proved to
  return on the driver's table.
\<close>

section \<open>The generic machine\<close>

record ('s, 'e, 'c, 'r) rule =
  rule_target :: 's
  rule_guard :: "'e \<Rightarrow> 'c \<Rightarrow> bool"
  rule_action :: "('e \<Rightarrow> 'c \<Rightarrow> 'c \<times> 'r option) option"
  rule_name :: string

definition always :: "'e \<Rightarrow> 'c \<Rightarrow> bool" where
  "always e c = True"

type_synonym ('s, 'e, 'c) callback = "'s \<Rightarrow> 's \<Rightarrow> 'e \<Rightarrow> 'c \<Rightarrow> 'c"

record ('s, 'e, 'c, 'r) fsm =
  fsm_state :: 's
  fsm_initial :: 's
  fsm_table :: "('s \<times> ('s, 'e, 'c, 'r) rule list) list"
  fsm_on_enter :: "('s \<times> ('s, 'e, 'c) callback) list"
  fsm_on_exit :: "('s \<times> ('s, 'e, 'c) callback) list"

definition new_fsm :: "'s \<Rightarrow> ('s, 'e, 'c, 'r) fsm" where
  "new_fsm initial =
     \<lparr>fsm_state = initial, fsm_initial = initial, fsm_table = [], fsm_on_enter = [], fsm_on_exit = []\<rparr>"

definition from_table ::
  "'s \<Rightarrow> ('s \<times> ('s, 'e, 'c, 'r) rule list) list \<Rightarrow> ('s \<times> ('s, 'e, 'c) callback) list \<Rightarrow>
   ('s \<times> ('s, 'e, 'c) callback) list \<Rightarrow> ('s, 'e, 'c, 'r) fsm" where
  "from_table initial table on_enter on_exit =
     (new_fsm initial)\<lparr>fsm_table := table, fsm_on_enter := on_enter, fsm_on_exit := on_exit\<rparr>"

definition rules_of :: "'s \<Rightarrow> ('s, 'e, 'c, 'r) fsm \<Rightarrow> ('s, 'e, 'c, 'r) rule list" where
  "rules_of s f = (case map_of (fsm_table f) s of Some rs \<Rightarrow> rs | None \<Rightarrow> [])"

definition fsm_when :: "'s \<Rightarrow> ('s, 'e, 'c, 'r) rule \<Rightarrow> ('s, 'e, 'c, 'r) fsm \<Rightarrow> ('s, 'e, 'c, 'r) fsm" where
  "fsm_when s r f = f\<lparr>fsm_table := dict_set s (rules_of s f @ [r]) (fsm_table f)\<rparr>"

definition fsm_enter_with :: "'s \<Rightarrow> ('s, 'e, 'c) callback \<Rightarrow> ('s, 'e, 'c, 'r) fsm \<Rightarrow> ('s, 'e, 'c, 'r) fsm" where
  "fsm_enter_with s cb f = f\<lparr>fsm_on_enter := dict_set s cb (fsm_on_enter f)\<rparr>"

definition fsm_exit_with :: "'s \<Rightarrow> ('s, 'e, 'c) callback \<Rightarrow> ('s, 'e, 'c, 'r) fsm \<Rightarrow> ('s, 'e, 'c, 'r) fsm" where
  "fsm_exit_with s cb f = f\<lparr>fsm_on_exit := dict_set s cb (fsm_on_exit f)\<rparr>"

definition fsm_step ::
  "'e \<Rightarrow> ('s, 'e, 'c, 'r) fsm \<times> 'c \<Rightarrow> (('s, 'e, 'c, 'r) fsm \<times> 'c) \<times> 's \<times> 'r option" where
  "fsm_step e fc =
     (case fc of (f, c) \<Rightarrow>
        let old = fsm_state f in
        case List.find (\<lambda>r. rule_guard r e c) (rules_of old f) of
          None \<Rightarrow> ((f, c), old, None)
        | Some r \<Rightarrow>
            let new = rule_target r;
                c1 = (case map_of (fsm_on_exit f) old of Some cb \<Rightarrow> cb old new e c | None \<Rightarrow> c);
                (c2, res) = (case rule_action r of Some a \<Rightarrow> a e c1 | None \<Rightarrow> (c1, None));
                f1 = f\<lparr>fsm_state := new\<rparr>;
                c3 = (case map_of (fsm_on_enter f) new of Some cb \<Rightarrow> cb old new e c2 | None \<Rightarrow> c2)
            in ((f1, c3), new, res))"

definition fsm_reset :: "('s, 'e, 'c, 'r) fsm \<Rightarrow> ('s, 'e, 'c, 'r) fsm" where
  "fsm_reset f = f\<lparr>fsm_state := fsm_initial f\<rparr>"

definition transitions_from :: "'s \<Rightarrow> ('s, 'e, 'c, 'r) fsm \<Rightarrow> (string \<times> 's) list" where
  "transitions_from s f = map (\<lambda>r. (rule_name r, rule_target r)) (rules_of s f)"

section \<open>Thresholds\<close>

record split_thresholds =
  min_tokens_l1 :: int
  min_tokens_l2 :: int
  min_tokens_l3 :: int
  force_split_at :: int

text \<open>\<open>rnd\<close> is the rounding of float arithmetic.\<close>

definition compute_thresholds ::
  "(rat \<Rightarrow> rat) \<Rightarrow> int \<Rightarrow> pyfloat \<Rightarrow> int \<Rightarrow> pyfloat \<Rightarrow> pyfloat \<Rightarrow> pyfloat \<Rightarrow> (py_error, split_thresholds) result" where
  "compute_thresholds rnd remaining_kv ema_ratio safety_margin l1 l2 l3 =
     (case (l1, l2, l3) of
        (Fin r1, Fin r2, Fin r3) \<Rightarrow>
          if \<not> (0 < r1 \<and> r1 \<le> r2 \<and> r2 \<le> r3 \<and> r3 \<le> 1)
          then Inl (ValueError ''split capacity ratios must satisfy 0 < L1 <= L2 <= L3 <= 1'')
          else if safety_margin < 0 then Inl (ValueError ''safety_margin must be nonnegative'')
          else
            (case ema_ratio of
               NonFin \<Rightarrow> Inl (ValueError ''ema_ratio must be finite and at least 1.0'')
             | Fin ema \<Rightarrow>
                 if ema < 1 then Inl (ValueError ''ema_ratio must be finite and at least 1.0'')
                 else
                   let usable_kv = remaining_kv - safety_margin;
                       cap = \<lfloor>rnd (of_int usable_kv / ema)\<rfloor>
                   in if cap < 1
                      then Inl (ValueError ''remaining KV budget cannot accommodate one predicted text token after the safety margin'')
                      else Inr \<lparr>min_tokens_l1 = \<lceil>rnd (of_int cap * r1)\<rceil>, min_tokens_l2 = \<lceil>rnd (of_int cap * r2)\<rceil>,
                                min_tokens_l3 = \<lceil>rnd (of_int cap * r3)\<rceil>, force_split_at = cap\<rparr>)
      | _ \<Rightarrow> Inl (ValueError ''split capacity ratios must be finite''))"

section \<open>Events, states and actions\<close>

datatype spliter_event_type =
  UNKNOWN | START | END | START_TOKEN | END_TOKEN | NORMAL_TOKEN | PUNCTUATION_TOKEN

record spliter_event =
  ev_type :: spliter_event_type
  ev_token :: int
  ev_text :: pystr
  punct_level :: int

datatype spliter_state =
  HALT | IDLE | PREFILL | TEXT_INPUTING | WAITING_TEXT | PAD_TEXT_EOS | PAD_TEXT_NOP | KVCACHE_OVERFLOW

datatype action_type = APrefill | ADecode | AFlushEos | AFlushNop

record action_result =
  ar_type :: action_type
  ar_token :: int

definition transient :: "spliter_state \<Rightarrow> bool" where
  "transient s \<longleftrightarrow> s \<in> {PREFILL, PAD_TEXT_EOS, PAD_TEXT_NOP}"

text \<open>The fields of \<open>StreamingDriver\<close> besides its machine.\<close>

record driver_ctx =
  thresholds :: split_thresholds
  is_final :: bool
  token_count :: int

subsection \<open>Guards\<close>

definition meets_split_threshold :: "spliter_event \<Rightarrow> int \<Rightarrow> driver_ctx \<Rightarrow> bool" where
  "meets_split_threshold e n c \<longleftrightarrow>
     (punct_level e = 1 \<and> min_tokens_l1 (thresholds c) \<le> n) \<or>
     (punct_level e = 2 \<and> min_tokens_l2 (thresholds c) \<le> n) \<or>
     (punct_level e = 3 \<and> min_tokens_l3 (thresholds c) \<le> n)"

definition evt :: "spliter_event_type list \<Rightarrow> spliter_event \<Rightarrow> driver_ctx \<Rightarrow> bool" where
  "evt ts e c \<longleftrightarrow> ev_type e \<in> set ts"

definition normal_overflow :: "spliter_event \<Rightarrow> driver_ctx \<Rightarrow> bool" where
  "normal_overflow e c \<longleftrightarrow> ev_type e = NORMAL_TOKEN \<and> force_split_at (thresholds c) \<le> token_count c + 1"

definition normal_no_overflow :: "spliter_event \<Rightarrow> driver_ctx \<Rightarrow> bool" where
  "normal_no_overflow e c \<longleftrightarrow> ev_type e = NORMAL_TOKEN \<and> token_count c + 1 < force_split_at (thresholds c)"

definition punct_should_split :: "spliter_event \<Rightarrow> driver_ctx \<Rightarrow> bool" where
  "punct_should_split e c \<longleftrightarrow>
     ev_type e = PUNCTUATION_TOKEN \<and>
     (force_split_at (thresholds c) \<le> token_count c + 1 \<or> meets_split_threshold e (token_count c + 1) c)"

definition punct_no_split :: "spliter_event \<Rightarrow> driver_ctx \<Rightarrow> bool" where
  "punct_no_split e c \<longleftrightarrow> ev_type e = PUNCTUATION_TOKEN \<and> \<not> punct_should_split e c"

definition prefill_should_split :: "spliter_event \<Rightarrow> driver_ctx \<Rightarrow> bool" where
  "prefill_should_split e c \<longleftrightarrow>
     force_split_at (thresholds c) \<le> token_count c \<or>
     (ev_type e = PUNCTUATION_TOKEN \<and> meets_split_threshold e (token_count c) c)"

definition check_final :: "spliter_event \<Rightarrow> driver_ctx \<Rightarrow> bool" where
  "check_final e c = is_final c"

subsection \<open>Actions\<close>

type_synonym driver_action = "spliter_event \<Rightarrow> driver_ctx \<Rightarrow> driver_ctx \<times> action_result option"

definition act_nop :: driver_action where
  "act_nop e c = (c, None)"

definition act_reset_context :: driver_action where
  "act_reset_context e c = (c\<lparr>is_final := False, token_count := 0\<rparr>, None)"

definition act_prefill :: driver_action where
  "act_prefill e c = (c\<lparr>token_count := 1\<rparr>, Some \<lparr>ar_type = APrefill, ar_token = ev_token e\<rparr>)"

definition act_set_final :: driver_action where
  "act_set_final e c = (c\<lparr>is_final := True\<rparr>, None)"

definition act_decode :: driver_action where
  "act_decode e c = (c\<lparr>token_count := token_count c + 1\<rparr>, Some \<lparr>ar_type = ADecode, ar_token = ev_token e\<rparr>)"

definition act_flush_eos :: driver_action where
  "act_flush_eos e c = (c\<lparr>token_count := 0\<rparr>, Some \<lparr>ar_type = AFlushEos, ar_token = - 1\<rparr>)"

definition act_flush_nop :: driver_action where
  "act_flush_nop e c = (c\<lparr>token_count := 0\<rparr>, Some \<lparr>ar_type = AFlushNop, ar_token = - 1\<rparr>)"

section \<open>The driver\<close>

type_synonym driver_rule = "(spliter_state, spliter_event, driver_ctx, action_result) rule"
type_synonym driver_fsm = "(spliter_state, spliter_event, driver_ctx, action_result) fsm"
type_synonym driver = "driver_fsm \<times> driver_ctx"

definition mk_rule ::
  "spliter_state \<Rightarrow> (spliter_event \<Rightarrow> driver_ctx \<Rightarrow> bool) \<Rightarrow> driver_action \<Rightarrow> string \<Rightarrow> driver_rule" where
  "mk_rule tgt g a n = \<lparr>rule_target = tgt, rule_guard = g, rule_action = Some a, rule_name = n\<rparr>"

definition driver_table :: "(spliter_state \<times> driver_rule list) list" where
  "driver_table =
     [(IDLE,
       [mk_rule HALT (evt [END]) act_nop ''idle->halt'',
        mk_rule IDLE (evt [START]) act_reset_context ''idle:start'',
        mk_rule PREFILL (evt [START_TOKEN, NORMAL_TOKEN, PUNCTUATION_TOKEN]) act_prefill ''idle->prefill'',
        mk_rule IDLE (evt [END_TOKEN]) act_nop ''idle:end_tok_ignore'',
        mk_rule IDLE (evt [UNKNOWN]) act_nop ''idle:unknown'']),
      (PREFILL,
       [mk_rule PAD_TEXT_EOS prefill_should_split act_nop ''prefill->pad_eos(threshold)'',
        mk_rule TEXT_INPUTING always act_nop ''prefill->input'']),
      (TEXT_INPUTING,
       [mk_rule PAD_TEXT_EOS (evt [END]) act_set_final ''input->pad_eos(final)'',
        mk_rule PAD_TEXT_NOP (evt [END_TOKEN]) act_decode ''input->pad_nop'',
        mk_rule PAD_TEXT_EOS normal_overflow act_decode ''input->pad_eos(overflow)'',
        mk_rule TEXT_INPUTING normal_no_overflow act_decode ''input:normal'',
        mk_rule PAD_TEXT_EOS punct_should_split act_decode ''input->pad_eos(punct)'',
        mk_rule TEXT_INPUTING punct_no_split act_decode ''input:punct_acc'',
        mk_rule TEXT_INPUTING (evt [START_TOKEN, START, UNKNOWN]) act_nop ''input:ignore'']),
      (PAD_TEXT_EOS,
       [mk_rule HALT check_final act_flush_eos ''pad_eos->halt'',
        mk_rule IDLE always act_flush_eos ''pad_eos->idle'']),
      (PAD_TEXT_NOP,
       [mk_rule HALT check_final act_flush_nop ''pad_nop->halt'',
        mk_rule IDLE always act_flush_nop ''pad_nop->idle''])]"

definition build_fsm :: driver_fsm where
  "build_fsm = from_table IDLE driver_table [] []"

definition new_driver :: "split_thresholds \<Rightarrow> driver" where
  "new_driver th = (build_fsm, \<lparr>thresholds = th, is_final = False, token_count = 0\<rparr>)"

definition result_list :: "'r option \<Rightarrow> 'r list" where
  "result_list r = (case r of None \<Rightarrow> [] | Some x \<Rightarrow> [x])"

partial_function (option) feed_loop ::
  "spliter_event \<Rightarrow> spliter_state \<Rightarrow> driver \<Rightarrow> (driver \<times> action_result list) option" where
  "feed_loop e s d =
     (if transient s
      then case fsm_step e d of
             (d', s', r) \<Rightarrow>
               if s' = s then Some (d', result_list r)
               else Option.bind (feed_loop e s' d') (\<lambda>(d'', rs). Some (d'', result_list r @ rs))
      else Some (d, []))"

definition driver_feed :: "spliter_event \<Rightarrow> driver \<Rightarrow> (driver \<times> action_result list) option" where
  "driver_feed e d =
     (case fsm_step e d of
        (d', s', r) \<Rightarrow> Option.bind (feed_loop e s' d') (\<lambda>(d'', rs). Some (d'', result_list r @ rs)))"

definition driver_reset :: "driver \<Rightarrow> driver" where
  "driver_reset d = (case d of (f, c) \<Rightarrow> (fsm_reset f, c\<lparr>is_final := False, token_count := 0\<rparr>))"

section \<open>The driver as a segment machine\<close>

text \<open>The driver in state \<open>s\<close> with context \<open>c\<close>; every driver that \<open>feed\<close> reaches has this form.\<close>

definition driver_in :: "spliter_state \<Rightarrow> driver_ctx \<Rightarrow> driver" where
  "driver_in s c = (build_fsm\<lparr>fsm_state := s\<rparr>, c)"

lemma new_driver_in: "new_driver th = driver_in IDLE \<lparr>thresholds = th, is_final = False, token_count = 0\<rparr>"
  by (simp add: new_driver_def driver_in_def build_fsm_def from_table_def new_fsm_def)

lemma driver_in_fields [simp]:
  "fsm_state (fst (driver_in s c)) = s" "snd (driver_in s c) = c"
  by (simp_all add: driver_in_def)

lemmas driver_actions = act_nop_def act_reset_context_def act_prefill_def act_set_final_def act_decode_def
  act_flush_eos_def act_flush_nop_def

lemmas driver_guards = evt_def normal_overflow_def normal_no_overflow_def punct_should_split_def
  punct_no_split_def check_final_def always_def

lemmas driver_eval = fsm_step_def driver_in_def build_fsm_def from_table_def new_fsm_def rules_of_def
  driver_table_def mk_rule_def

lemma step_prefill:
  "fsm_step e (driver_in PREFILL c) =
     (if prefill_should_split e c then (driver_in PAD_TEXT_EOS c, PAD_TEXT_EOS, None)
      else (driver_in TEXT_INPUTING c, TEXT_INPUTING, None))"
  by (simp add: driver_eval driver_actions always_def)

lemma step_pad_eos:
  "fsm_step e (driver_in PAD_TEXT_EOS c) =
     (let s = (if is_final c then HALT else IDLE)
      in (driver_in s (c\<lparr>token_count := 0\<rparr>), s, Some \<lparr>ar_type = AFlushEos, ar_token = - 1\<rparr>))"
  by (simp add: driver_eval driver_actions driver_guards)

lemma step_pad_nop:
  "fsm_step e (driver_in PAD_TEXT_NOP c) =
     (let s = (if is_final c then HALT else IDLE)
      in (driver_in s (c\<lparr>token_count := 0\<rparr>), s, Some \<lparr>ar_type = AFlushNop, ar_token = - 1\<rparr>))"
  by (simp add: driver_eval driver_actions driver_guards)

lemma step_halt:
  "fsm_step e (driver_in HALT c) = (driver_in HALT c, HALT, None)"
  "fsm_step e (driver_in WAITING_TEXT c) = (driver_in WAITING_TEXT c, WAITING_TEXT, None)"
  "fsm_step e (driver_in KVCACHE_OVERFLOW c) = (driver_in KVCACHE_OVERFLOW c, KVCACHE_OVERFLOW, None)"
  by (simp_all add: driver_eval)

lemma step_idle:
  "fsm_step e (driver_in IDLE c) =
     (case ev_type e of
        END \<Rightarrow> (driver_in HALT c, HALT, None)
      | START \<Rightarrow> (driver_in IDLE (c\<lparr>is_final := False, token_count := 0\<rparr>), IDLE, None)
      | END_TOKEN \<Rightarrow> (driver_in IDLE c, IDLE, None)
      | UNKNOWN \<Rightarrow> (driver_in IDLE c, IDLE, None)
      | _ \<Rightarrow> (driver_in PREFILL (c\<lparr>token_count := 1\<rparr>), PREFILL, Some \<lparr>ar_type = APrefill, ar_token = ev_token e\<rparr>))"
  by (cases "ev_type e") (simp_all add: driver_eval driver_actions driver_guards)

definition counted :: "driver_ctx \<Rightarrow> driver_ctx" where
  "counted c = c\<lparr>token_count := token_count c + 1\<rparr>"

lemma step_text:
  "fsm_step e (driver_in TEXT_INPUTING c) =
     (let decode = Some \<lparr>ar_type = ADecode, ar_token = ev_token e\<rparr>;
          split = (force_split_at (thresholds c) \<le> token_count c + 1 \<or>
                   (ev_type e = PUNCTUATION_TOKEN \<and> meets_split_threshold e (token_count c + 1) c));
          s = (if split then PAD_TEXT_EOS else TEXT_INPUTING)
      in case ev_type e of
        END \<Rightarrow> (driver_in PAD_TEXT_EOS (c\<lparr>is_final := True\<rparr>), PAD_TEXT_EOS, None)
      | END_TOKEN \<Rightarrow> (driver_in PAD_TEXT_NOP (counted c), PAD_TEXT_NOP, decode)
      | NORMAL_TOKEN \<Rightarrow> (driver_in s (counted c), s, decode)
      | PUNCTUATION_TOKEN \<Rightarrow> (driver_in s (counted c), s, decode)
      | _ \<Rightarrow> (driver_in TEXT_INPUTING c, TEXT_INPUTING, None))"
  by (cases "ev_type e") (auto simp: driver_eval driver_actions driver_guards counted_def Let_def)

lemmas driver_steps = step_prefill step_pad_eos step_pad_nop step_halt step_idle step_text

text \<open>What one event does, without the transient states.\<close>

definition flushed :: "action_type \<Rightarrow> driver_ctx \<Rightarrow> (spliter_state \<times> driver_ctx) \<times> action_result list" where
  "flushed a c = ((if is_final c then HALT else IDLE, c\<lparr>token_count := 0\<rparr>), [\<lparr>ar_type = a, ar_token = - 1\<rparr>])"

definition segment_full :: "spliter_event \<Rightarrow> driver_ctx \<Rightarrow> bool" where
  "segment_full e c \<longleftrightarrow>
     force_split_at (thresholds c) \<le> token_count c \<or>
     (ev_type e = PUNCTUATION_TOKEN \<and> meets_split_threshold e (token_count c) c)"

definition take_token :: "action_type \<Rightarrow> spliter_event \<Rightarrow> driver_ctx \<Rightarrow> (spliter_state \<times> driver_ctx) \<times> action_result list" where
  "take_token a e c =
     (let (sc, rs) = (if segment_full e c then flushed AFlushEos c else ((TEXT_INPUTING, c), []))
      in (sc, \<lparr>ar_type = a, ar_token = ev_token e\<rparr> # rs))"

fun segment_step ::
  "spliter_event \<Rightarrow> spliter_state \<times> driver_ctx \<Rightarrow> (spliter_state \<times> driver_ctx) \<times> action_result list" where
  "segment_step e (IDLE, c) =
     (case ev_type e of
        END \<Rightarrow> ((HALT, c), [])
      | START \<Rightarrow> ((IDLE, c\<lparr>is_final := False, token_count := 0\<rparr>), [])
      | END_TOKEN \<Rightarrow> ((IDLE, c), [])
      | UNKNOWN \<Rightarrow> ((IDLE, c), [])
      | _ \<Rightarrow> take_token APrefill e (c\<lparr>token_count := 1\<rparr>))"
| "segment_step e (TEXT_INPUTING, c) =
     (case ev_type e of
        END \<Rightarrow> flushed AFlushEos (c\<lparr>is_final := True\<rparr>)
      | END_TOKEN \<Rightarrow>
          (let (sc, rs) = flushed AFlushNop (counted c) in (sc, \<lparr>ar_type = ADecode, ar_token = ev_token e\<rparr> # rs))
      | NORMAL_TOKEN \<Rightarrow> take_token ADecode e (counted c)
      | PUNCTUATION_TOKEN \<Rightarrow> take_token ADecode e (counted c)
      | _ \<Rightarrow> ((TEXT_INPUTING, c), []))"
| "segment_step e sc = (sc, [])"

lemma feed_loop_stable: "\<not> transient s \<Longrightarrow> feed_loop e s d = Some (d, [])"
  by (simp add: feed_loop.simps)

lemma not_transient [simp]: "\<not> transient IDLE" "\<not> transient HALT" "\<not> transient TEXT_INPUTING"
    "\<not> transient WAITING_TEXT" "\<not> transient KVCACHE_OVERFLOW"
  and transient [simp]: "transient PREFILL" "transient PAD_TEXT_EOS" "transient PAD_TEXT_NOP"
  by (simp_all add: transient_def)

lemma feed_loop_pad:
  "feed_loop e PAD_TEXT_EOS (driver_in PAD_TEXT_EOS c) = (case flushed AFlushEos c of ((s, c'), rs) \<Rightarrow> Some (driver_in s c', rs))"
  "feed_loop e PAD_TEXT_NOP (driver_in PAD_TEXT_NOP c) = (case flushed AFlushNop c of ((s, c'), rs) \<Rightarrow> Some (driver_in s c', rs))"
  by (simp_all add: feed_loop.simps [of e PAD_TEXT_EOS] feed_loop.simps [of e PAD_TEXT_NOP] driver_steps
      feed_loop_stable flushed_def result_list_def Let_def)

lemma feed_loop_prefill:
  "feed_loop e PREFILL (driver_in PREFILL c) =
     (if segment_full e c then case flushed AFlushEos c of ((s, c'), rs) \<Rightarrow> Some (driver_in s c', rs)
      else Some (driver_in TEXT_INPUTING c, []))"
  by (simp add: feed_loop.simps [of e PREFILL] driver_steps feed_loop_pad feed_loop_stable result_list_def
      prefill_should_split_def segment_full_def split: prod.split)

lemma driver_feed_eq:
  assumes "\<not> transient s"
  shows "driver_feed e (driver_in s c) = (case segment_step e (s, c) of ((s', c'), rs) \<Rightarrow> Some (driver_in s' c', rs))"
proof (cases s)
  case IDLE
  then show ?thesis
    by (cases "ev_type e")
      (simp_all add: driver_feed_def driver_steps feed_loop_stable feed_loop_prefill take_token_def result_list_def
        split: prod.split)
next
  case TEXT_INPUTING
  have full: "segment_full e (counted c) \<longleftrightarrow> force_split_at (thresholds c) \<le> token_count c + 1 \<or>
      ev_type e = PUNCTUATION_TOKEN \<and> meets_split_threshold e (token_count c + 1) c"
    by (simp add: segment_full_def counted_def meets_split_threshold_def)
  show ?thesis
    unfolding TEXT_INPUTING
    by (cases "ev_type e")
      (simp_all add: driver_feed_def driver_steps feed_loop_stable feed_loop_pad take_token_def result_list_def full Let_def
        split: prod.split)
qed (use assms in \<open>simp_all add: driver_feed_def driver_steps feed_loop_stable result_list_def\<close>)

section \<open>Runs of the driver\<close>

fun driver_run :: "spliter_event list \<Rightarrow> driver \<Rightarrow> (driver \<times> action_result list) option" where
  "driver_run [] d = Some (d, [])"
| "driver_run (e # es) d =
     (case driver_feed e d of
        None \<Rightarrow> None
      | Some (d', rs) \<Rightarrow> map_option (\<lambda>(d'', rs'). (d'', rs @ rs')) (driver_run es d'))"

fun segment_run ::
  "spliter_event list \<Rightarrow> spliter_state \<times> driver_ctx \<Rightarrow> (spliter_state \<times> driver_ctx) \<times> action_result list" where
  "segment_run [] sc = (sc, [])"
| "segment_run (e # es) sc =
     (let (sc', rs) = segment_step e sc; (sc'', rs') = segment_run es sc' in (sc'', rs @ rs'))"

lemma segment_step_stable: "\<not> transient s \<Longrightarrow> segment_step e (s, c) = ((s', c'), rs) \<Longrightarrow> \<not> transient s'"
  by (cases s) (auto simp: take_token_def flushed_def split: spliter_event_type.splits if_splits)

lemma driver_run_eq:
  "\<not> transient s \<Longrightarrow>
   driver_run es (driver_in s c) = (case segment_run es (s, c) of ((s', c'), rs) \<Rightarrow> Some (driver_in s' c', rs)) \<and>
   \<not> transient (fst (fst (segment_run es (s, c))))"
proof (induction es arbitrary: s c)
  case (Cons e es)
  obtain s' c' rs where st: "segment_step e (s, c) = ((s', c'), rs)" by (metis prod.exhaust)
  obtain s2 c2 rs2 where run: "segment_run es (s', c') = ((s2, c2), rs2)" by (metis prod.exhaust)
  from Cons.IH [OF segment_step_stable [OF Cons.prems st], of c'] driver_feed_eq [OF Cons.prems, of e c] st run
  show ?case by simp
qed simp

text \<open>
  C37. Feeding the driver always returns. The loop of \<open>feed\<close> leaves the transient states for every
  event and every driver that is not already in one, whatever its thresholds, and so a whole event
  stream is processed; the result is that of the machine without transient states.
\<close>

theorem driver_always_returns:
  "\<exists>s c rs. driver_run es (new_driver th) = Some (driver_in s c, rs) \<and> \<not> transient s \<and>
     segment_run es (IDLE, \<lparr>thresholds = th, is_final = False, token_count = 0\<rparr>) = ((s, c), rs)"
  using driver_run_eq [of IDLE es "\<lparr>thresholds = th, is_final = False, token_count = 0\<rparr>"]
  by (auto simp: new_driver_in split: prod.splits)

subsection \<open>Segments\<close>

text \<open>
  A checker of action lists: a segment is a prefill, then decodes, then a flush, and holds at most
  \<open>cap\<close> tokens; the second argument counts the tokens of the open segment.
\<close>

fun check_segments :: "int \<Rightarrow> int \<Rightarrow> action_result list \<Rightarrow> int option" where
  "check_segments cap n [] = Some n"
| "check_segments cap n (a # as) =
     (case ar_type a of
        APrefill \<Rightarrow> if n = 0 \<and> 1 \<le> cap then check_segments cap 1 as else None
      | ADecode \<Rightarrow> if 1 \<le> n \<and> n < cap then check_segments cap (n + 1) as else None
      | _ \<Rightarrow> if 1 \<le> n then check_segments cap 0 as else None)"

lemma check_segments_append:
  "check_segments cap n (xs @ ys) = Option.bind (check_segments cap n xs) (\<lambda>m. check_segments cap m ys)"
  by (induction cap n xs rule: check_segments.induct) (auto split: action_type.splits)

definition is_token :: "action_result \<Rightarrow> bool" where
  "is_token a \<longleftrightarrow> ar_type a = APrefill \<or> ar_type a = ADecode"

definition driver_inv :: "split_thresholds \<Rightarrow> spliter_state \<times> driver_ctx \<Rightarrow> bool" where
  "driver_inv th sc \<longleftrightarrow>
     (case sc of (s, c) \<Rightarrow>
        thresholds c = th \<and>
        (s = TEXT_INPUTING \<and> 1 \<le> token_count c \<and> token_count c < force_split_at th \<and> \<not> is_final c \<or>
         s = IDLE \<and> token_count c = 0 \<and> \<not> is_final c \<or> s = HALT \<and> token_count c = 0))"

lemma take_token_inv:
  assumes "thresholds c = th" and "1 \<le> token_count c" and "token_count c \<le> force_split_at th" and "\<not> is_final c"
    and "take_token a e c = (sc, rs)"
  shows "driver_inv th sc \<and> (\<exists>fl. rs = \<lparr>ar_type = a, ar_token = ev_token e\<rparr> # fl \<and> filter is_token fl = [] \<and>
     check_segments (force_split_at th) (token_count c) fl = Some (token_count (snd sc)))"
  using assms by (auto simp: take_token_def flushed_def driver_inv_def segment_full_def is_token_def split: if_splits)

lemma segment_step_inv:
  assumes "driver_inv th sc" and "1 \<le> force_split_at th" and "segment_step e sc = (sc', rs)"
  shows "driver_inv th sc' \<and> check_segments (force_split_at th) (token_count (snd sc)) rs = Some (token_count (snd sc'))"
proof -
  obtain s c where sc: "sc = (s, c)" by fastforce
  have th: "thresholds c = th" using assms(1) by (simp add: sc driver_inv_def)
  consider (idle) "s = IDLE" "token_count c = 0" "\<not> is_final c"
    | (inputing) "s = TEXT_INPUTING" "1 \<le> token_count c" "token_count c < force_split_at th" "\<not> is_final c"
    | (halt) "s = HALT" "token_count c = 0" using assms(1) by (auto simp: sc driver_inv_def)
  then show ?thesis
  proof cases
    case halt
    with assms sc show ?thesis by auto
  next
    case idle
    have tk: ?thesis if "take_token APrefill e (c\<lparr>token_count := 1\<rparr>) = (sc', rs)"
      using take_token_inv [OF _ _ _ _ that, of th] idle th assms(2) by (auto simp: sc)
    show ?thesis
      using assms(1,3) idle tk by (cases "ev_type e") (auto simp: sc driver_inv_def)
  next
    case inputing
    have tk: ?thesis if "take_token ADecode e (counted c) = (sc', rs)"
      using take_token_inv [OF _ _ _ _ that, of th] inputing th assms(2) by (auto simp: sc counted_def)
    show ?thesis
      using assms(1,3) inputing tk th by (cases "ev_type e") (auto simp: sc driver_inv_def flushed_def counted_def)
  qed
qed

lemma segment_run_inv:
  assumes "driver_inv th sc" and "1 \<le> force_split_at th" and "segment_run es sc = (sc', rs)"
  shows "driver_inv th sc' \<and> check_segments (force_split_at th) (token_count (snd sc)) rs = Some (token_count (snd sc'))"
  using assms
proof (induction es arbitrary: sc rs)
  case (Cons e es)
  obtain sc1 r1 where st: "segment_step e sc = (sc1, r1)" by fastforce
  obtain r2 where run: "segment_run es sc1 = (sc', r2)" "rs = r1 @ r2"
    using Cons.prems(3) st by (auto split: prod.splits)
  note one = segment_step_inv [OF Cons.prems(1,2) st]
  from Cons.IH [OF conjunct1 [OF one] Cons.prems(2) run(1)] one run(2) show ?case
    by (simp add: check_segments_append)
qed simp

definition text_event :: "spliter_event \<Rightarrow> bool" where
  "text_event e \<longleftrightarrow> ev_type e = NORMAL_TOKEN \<or> ev_type e = PUNCTUATION_TOKEN"

definition end_event :: spliter_event where
  "end_event = \<lparr>ev_type = END, ev_token = - 1, ev_text = [], punct_level = 0\<rparr>"

lemma segment_step_token:
  assumes "driver_inv th (s, c)" and "s \<noteq> HALT" and "1 \<le> force_split_at th" and "text_event e"
    and "segment_step e (s, c) = ((s', c'), rs)"
  shows "s' \<noteq> HALT \<and> map ar_token (filter is_token rs) = [ev_token e]"
proof -
  have s: "s = IDLE \<or> s = TEXT_INPUTING" "\<not> is_final c" using assms(1,2) by (auto simp: driver_inv_def)
  have tk: ?thesis if "take_token a e k = ((s', c'), rs)" "\<not> is_final k" "a = APrefill \<or> a = ADecode" for a k
    using that by (auto simp: take_token_def flushed_def is_token_def split: if_splits)
  from s(1) show ?thesis
  proof
    assume "s = IDLE"
    with assms(4,5) tk [of APrefill "c\<lparr>token_count := 1\<rparr>"] s(2) show ?thesis by (auto simp: text_event_def)
  next
    assume "s = TEXT_INPUTING"
    with assms(4,5) tk [of ADecode "counted c"] s(2) show ?thesis by (auto simp: text_event_def counted_def)
  qed
qed

lemma segment_run_tokens:
  assumes "driver_inv th (s, c)" and "s \<noteq> HALT" and "1 \<le> force_split_at th" and "list_all text_event es"
    and "segment_run es (s, c) = ((s', c'), rs)"
  shows "s' \<noteq> HALT \<and> map ar_token (filter is_token rs) = map ev_token es"
  using assms
proof (induction es arbitrary: s c rs)
  case (Cons e es)
  obtain s1 c1 r1 where st: "segment_step e (s, c) = ((s1, c1), r1)" by (metis prod.exhaust)
  obtain r2 where run: "segment_run es (s1, c1) = ((s', c'), r2)" "rs = r1 @ r2"
    using Cons.prems(5) st by (auto split: prod.splits)
  have tk: "text_event e" "list_all text_event es" using Cons.prems(4) by auto
  note one = segment_step_token [OF Cons.prems(1-3) tk(1) st]
  have "driver_inv th (s1, c1)" using segment_step_inv [OF Cons.prems(1,3) st] by simp
  from Cons.IH [OF this _ Cons.prems(3) tk(2) run(1)] one run(2) show ?case by simp
qed simp

text \<open>
  C16. Segmentation keeps every token and respects the capacity. For a stream of text tokens that
  ends, the driver halts, the tokens of its prefill and decode actions are those of the stream in
  order, and the actions form segments, each opened by one prefill, closed by one flush and holding
  at most \<open>force_split_at\<close> tokens, with none left open.
\<close>

theorem driver_segments_tokens:
  assumes "1 \<le> force_split_at th" and "list_all text_event es"
  shows "\<exists>c rs. driver_run (es @ [end_event]) (new_driver th) = Some (driver_in HALT c, rs) \<and>
           map ar_token (filter is_token rs) = map ev_token es \<and> check_segments (force_split_at th) 0 rs = Some 0"
proof -
  define c0 where "c0 = \<lparr>thresholds = th, is_final = False, token_count = 0\<rparr>"
  have inv: "driver_inv th (IDLE, c0)" by (simp add: driver_inv_def c0_def)
  obtain s c rs where run: "segment_run es (IDLE, c0) = ((s, c), rs)" by (metis prod.exhaust)
  have inv': "driver_inv th (s, c)" and chk: "check_segments (force_split_at th) 0 rs = Some (token_count c)"
    using segment_run_inv [OF inv assms(1) run] by (simp_all add: c0_def)
  have tk: "s \<noteq> HALT" "map ar_token (filter is_token rs) = map ev_token es"
    using segment_run_tokens [OF inv _ assms run] by auto
  obtain s' c' fl where last: "segment_step end_event (s, c) = ((s', c'), fl)" by (metis prod.exhaust)
  have fin: "s' = HALT" "filter is_token fl = []"
    using last inv' tk(1) by (auto simp: driver_inv_def end_event_def flushed_def is_token_def)
  have "check_segments (force_split_at th) (token_count c) fl = Some (token_count c')"
    "driver_inv th (s', c')" using segment_step_inv [OF inv' assms(1) last] by simp_all
  then have chk': "check_segments (force_split_at th) 0 (rs @ fl) = Some 0"
    using chk fin(1) by (simp add: check_segments_append driver_inv_def)
  have "segment_run (xs @ [e]) sc = (let (sc', r) = segment_run xs sc; (sc'', r') = segment_step e sc' in (sc'', r @ r'))"
    for xs e sc by (induction xs arbitrary: sc) (auto split: prod.splits)
  then have "segment_run (es @ [end_event]) (IDLE, c0) = ((HALT, c'), rs @ fl)"
    using run last fin(1) by simp
  then have "driver_run (es @ [end_event]) (new_driver th) = Some (driver_in HALT c', rs @ fl)"
    using driver_run_eq [of IDLE "es @ [end_event]" c0] by (simp add: new_driver_in c0_def)
  with tk(2) fin(2) chk' show ?thesis by auto
qed

subsection \<open>Thresholds\<close>

text \<open>What the theorem uses of float rounding: it is monotone and exact on the
  integers that a float holds exactly.\<close>

definition sound_rounding :: "(rat \<Rightarrow> rat) \<Rightarrow> bool" where
  "sound_rounding rnd \<longleftrightarrow> mono rnd \<and> (\<forall>n. \<bar>n\<bar> \<le> 2 ^ 53 \<longrightarrow> rnd (of_int n) = of_int n)"

lemma compute_thresholds_Inr:
  assumes "compute_thresholds rnd kv ema margin l1 l2 l3 = Inr th"
  obtains r q1 q2 q3 where "ema = Fin r" "l1 = Fin q1" "l2 = Fin q2" "l3 = Fin q3" "1 \<le> r" "0 \<le> margin"
    "0 < q1" "q1 \<le> q2" "q2 \<le> q3" "q3 \<le> 1" "1 \<le> force_split_at th"
    "force_split_at th = \<lfloor>rnd (of_int (kv - margin) / r)\<rfloor>"
    "min_tokens_l1 th = \<lceil>rnd (of_int (force_split_at th) * q1)\<rceil>"
    "min_tokens_l2 th = \<lceil>rnd (of_int (force_split_at th) * q2)\<rceil>"
    "min_tokens_l3 th = \<lceil>rnd (of_int (force_split_at th) * q3)\<rceil>"
  using assms by (auto simp: compute_thresholds_def Let_def not_less not_le split: pyfloat.splits if_splits)

text \<open>
  The thresholds are ordered and never exceed the budget. Thresholds that are computed
  satisfy L1 \<open>\<le>\<close> L2 \<open>\<le>\<close> L3 \<open>\<le>\<close> the forced split, the forced split is at least one token and at most the
  KV budget less the safety margin, and a larger planning ratio never gives a larger capacity.
\<close>

theorem thresholds_ordered:
  assumes "sound_rounding rnd" and "compute_thresholds rnd kv (Fin ema) margin l1 l2 l3 = Inr th"
    and "kv - margin \<le> 2 ^ 53"
  shows "min_tokens_l1 th \<le> min_tokens_l2 th \<and> min_tokens_l2 th \<le> min_tokens_l3 th \<and>
         min_tokens_l3 th \<le> force_split_at th \<and> 1 \<le> force_split_at th \<and> force_split_at th \<le> kv - margin \<and>
         (\<forall>ema' th'. ema \<le> ema' \<and> compute_thresholds rnd kv (Fin ema') margin l1 l2 l3 = Inr th' \<longrightarrow>
            force_split_at th' \<le> force_split_at th)"
proof -
  have mono: "rnd x \<le> rnd y" if "x \<le> y" for x y using assms(1) that by (auto simp: sound_rounding_def mono_def)
  have int: "rnd (of_int n) = of_int n" if "0 \<le> n" "n \<le> kv - margin \<or> n = 0" for n
  proof -
    have "\<bar>n\<bar> \<le> 2 ^ 53" using assms(3) that by auto
    then show ?thesis using assms(1) by (simp only: sound_rounding_def)
  qed
  from assms(2) obtain q1 q2 q3 where q: "1 \<le> ema" "0 < q1" "q1 \<le> q2" "q2 \<le> q3" "q3 \<le> 1" "1 \<le> force_split_at th"
    and th: "force_split_at th = \<lfloor>rnd (of_int (kv - margin) / ema)\<rfloor>"
    "min_tokens_l1 th = \<lceil>rnd (of_int (force_split_at th) * q1)\<rceil>"
    "min_tokens_l2 th = \<lceil>rnd (of_int (force_split_at th) * q2)\<rceil>"
    "min_tokens_l3 th = \<lceil>rnd (of_int (force_split_at th) * q3)\<rceil>"
    by (rule compute_thresholds_Inr) auto
  let ?f = "of_int (force_split_at th) :: rat"
  have pos: "0 \<le> ?f" using q(6) by simp
  have tiers: "\<lceil>rnd (?f * x)\<rceil> \<le> \<lceil>rnd (?f * y)\<rceil>" if "x \<le> y" for x y
    by (intro ceiling_mono mono mult_left_mono that pos)
  have anti: "\<lfloor>rnd (of_int (kv - margin) / b)\<rfloor> \<le> \<lfloor>rnd (of_int (kv - margin) / a)\<rfloor>"
    if "0 \<le> kv - margin" "1 \<le> a" "a \<le> b" for a b :: rat
    using that by (intro floor_mono mono divide_left_mono) auto
  have usable: "0 \<le> kv - margin"
  proof (rule ccontr)
    assume "\<not> 0 \<le> kv - margin"
    then have "of_int (kv - margin) / ema \<le> (of_int 0 :: rat)" using q(1) by (simp add: divide_nonpos_pos)
    from mono [OF this] int [of 0] have "rnd (of_int (kv - margin) / ema) \<le> 0" by simp
    then show False using th(1) q(6) by (simp add: le_floor_iff)
  qed
  have "\<lfloor>rnd (of_int (kv - margin) / 1)\<rfloor> = kv - margin" using int [of "kv - margin"] usable by simp
  then have budget: "force_split_at th \<le> kv - margin" using anti [OF usable _ q(1)] th(1) by simp
  have "\<lceil>rnd (?f * 1)\<rceil> = force_split_at th" using int [of "force_split_at th"] budget q(6) by simp
  then have top: "min_tokens_l3 th \<le> force_split_at th" using tiers [OF q(5)] th(4) by simp
  have "force_split_at th' \<le> force_split_at th"
    if "ema \<le> ema'" "compute_thresholds rnd kv (Fin ema') margin l1 l2 l3 = Inr th'" for ema' th'
    by (rule compute_thresholds_Inr [OF that(2)]) (use anti [OF usable q(1) that(1)] th(1) in simp)
  with tiers [OF q(3)] tiers [OF q(4)] top q(6) budget th show ?thesis by auto
qed

section \<open>Witnesses\<close>

definition ex_thresholds :: split_thresholds where
  "ex_thresholds = \<lparr>min_tokens_l1 = 2, min_tokens_l2 = 3, min_tokens_l3 = 3, force_split_at = 3\<rparr>"

theorem thresholds_ordered_witness:
  "compute_thresholds id 14 (Fin 2) 8 (Fin (1 / 2)) (Fin (4 / 5)) (Fin 1) = Inr ex_thresholds \<and>
   min_tokens_l3 ex_thresholds \<le> force_split_at ex_thresholds"
proof -
  have r: "sound_rounding id" by (simp add: sound_rounding_def mono_def)
  have c: "compute_thresholds id 14 (Fin 2) 8 (Fin (1 / 2)) (Fin (4 / 5)) (Fin 1) = Inr ex_thresholds"
    by code_simp
  with thresholds_ordered [OF r c] show ?thesis by simp
qed

definition ex_tokens :: "spliter_event list" where
  "ex_tokens = map (\<lambda>(t, k, p). \<lparr>ev_type = k, ev_token = t, ev_text = [], punct_level = p\<rparr>)
     [(10, NORMAL_TOKEN, 0), (11, PUNCTUATION_TOKEN, 1), (12, NORMAL_TOKEN, 0), (13, NORMAL_TOKEN, 0), (14, NORMAL_TOKEN, 0),
      (15, NORMAL_TOKEN, 0)]"

theorem driver_segments_tokens_witness:
  "\<exists>c rs. driver_run (ex_tokens @ [end_event]) (new_driver ex_thresholds) = Some (driver_in HALT c, rs) \<and>
     map ar_token (filter is_token rs) = [10, 11, 12, 13, 14, 15] \<and> check_segments 3 0 rs = Some 0"
  using driver_segments_tokens [of ex_thresholds ex_tokens]
  by (simp add: ex_thresholds_def ex_tokens_def text_event_def)

end
