(* ===== verification/Split_Ratio.thy ===== *)
theory Split_Ratio
  imports Split_Driver Py_Text
begin

text \<open>
  The ratio controller of \<open>engine/frontend/spliter/ratio.py\<close>: a duration estimate that follows
  completed segments and a safety ratio that only tightens, from which the capacity of the next
  segment is computed. \<open>rnd\<close> is the rounding of float arithmetic; no theorem here restricts it.
  Products and sums of ratios are assumed not to overflow to infinity.
\<close>

section \<open>Outcomes\<close>

datatype ratio_outcome = CODEC_EOS | KV_OVERFLOW | LOOP_ABORT | LENGTH_ABORT | IGNORED_FAILURE

text \<open>
  \<open>str.lower\<close> as far as a comparison with an ASCII name can tell: ASCII capitals, and the Kelvin
  sign, the one other code point whose lower case is an ASCII letter.
\<close>

definition py_lower :: "pystr \<Rightarrow> pystr" where
  "py_lower s = map (\<lambda>c. if 65 \<le> c \<and> c \<le> 90 then c + 32 else if c = 0x212A then 107 else c) s"

definition codes :: "string \<Rightarrow> pystr" where
  "codes s = map of_char s"

definition from_eos_reason :: "pystr \<Rightarrow> bool \<Rightarrow> ratio_outcome" where
  "from_eos_reason eos_reason overflow =
     (let reason = py_lower (py_strip eos_reason)
      in if overflow \<or> reason = codes ''kv_overflow'' then KV_OVERFLOW
         else if reason = codes ''codec_eos'' \<or> reason = [] then CODEC_EOS
         else if reason = codes ''loop_abort'' then LOOP_ABORT
         else if reason = codes ''length_abort'' then LENGTH_ABORT
         else IGNORED_FAILURE)"

definition from_retry_reason :: "pystr \<Rightarrow> ratio_outcome" where
  "from_retry_reason retry_reason =
     (let reason = py_lower (py_strip retry_reason)
      in if reason = codes ''loop'' then LOOP_ABORT
         else if reason = codes ''length'' then LENGTH_ABORT
         else IGNORED_FAILURE)"

section \<open>The controller\<close>

record ratio_observation =
  ro_outcome :: ratio_outcome
  observed_ratio :: rat
  duration_before :: rat
  duration_after :: rat
  safety_before :: rat
  safety_after :: rat
  duration_sample_accepted :: bool
  safety_tightened :: bool
  ro_text_tokens :: int
  ro_audio_steps :: int

record ratio_controller =
  duration_initial :: rat
  safety_initial :: rat
  duration_alpha :: rat
  failure_alpha :: rat
  min_ratio :: rat
  max_ratio :: rat
  min_duration_tokens :: int
  failure_multiplier :: rat
  duration_ratio :: rat
  safety_ratio :: rat

definition float_val :: "pyfloat \<Rightarrow> rat" where
  "float_val v = (case v of Fin x \<Rightarrow> x | NonFin \<Rightarrow> 0)"

definition new_controller ::
  "pyfloat \<Rightarrow> pyfloat \<Rightarrow> pyfloat \<Rightarrow> pyfloat \<Rightarrow> pyfloat \<Rightarrow> pyfloat \<Rightarrow> int \<Rightarrow> pyfloat \<Rightarrow> (py_error, ratio_controller) result" where
  "new_controller dur0 saf0 dur_alpha fail_alpha lo hi min_tokens mult =
     (let d0 = float_val dur0; s0 = float_val saf0; da = float_val dur_alpha; fa = float_val fail_alpha;
          l = float_val lo; h = float_val hi; m = float_val mult
      in if list_ex (\<lambda>v. v = NonFin) [dur0, saf0, dur_alpha, fail_alpha, lo, hi, mult]
         then Inl (ValueError ''ratio controller values must be finite'')
         else if l < 1 \<or> h < l then Inl (ValueError ''ratio bounds must satisfy 1 <= min_ratio <= max_ratio'')
         else if \<not> (0 \<le> da \<and> da \<le> 1) then Inl (ValueError ''duration_alpha must be between 0 and 1'')
         else if \<not> (0 \<le> fa \<and> fa \<le> 1) then Inl (ValueError ''failure_alpha must be between 0 and 1'')
         else if min_tokens < 1 then Inl (ValueError ''min_duration_tokens must be positive'')
         else if m < 1 then Inl (ValueError ''failure_multiplier must be at least 1'')
         else if h < d0 then Inl (ValueError ''duration_initial must not exceed max_ratio'')
         else if h < s0 then Inl (ValueError ''safety_initial must not exceed max_ratio'')
         else
           let d = clamp l h d0; s = clamp l h (max s0 d)
           in Inr \<lparr>duration_initial = d, safety_initial = s, duration_alpha = da, failure_alpha = fa,
                   min_ratio = l, max_ratio = h, min_duration_tokens = min_tokens, failure_multiplier = m,
                   duration_ratio = d, safety_ratio = s\<rparr>)"

definition rc_clamp :: "ratio_controller \<Rightarrow> rat \<Rightarrow> rat" where
  "rc_clamp r v = clamp (min_ratio r) (max_ratio r) v"

definition set_duration_ratio :: "pyfloat \<Rightarrow> ratio_controller \<Rightarrow> ratio_controller \<times> (py_error, unit) result" where
  "set_duration_ratio ratio r =
     (case ratio of
        NonFin \<Rightarrow> (r, Inl (ValueError ''duration ratio must be finite and positive''))
      | Fin v \<Rightarrow>
          if v \<le> 0 then (r, Inl (ValueError ''duration ratio must be finite and positive''))
          else let d = rc_clamp r v in (r\<lparr>duration_ratio := d, safety_ratio := max (safety_ratio r) d\<rparr>, Inr ()))"

text \<open>The safety snapshot that a failure backs off from.\<close>

definition failure_base :: "pyfloat option \<Rightarrow> ratio_controller \<Rightarrow> rat" where
  "failure_base snapshot r =
     (case snapshot of
        Some (Fin b) \<Rightarrow> if b \<le> 0 then safety_ratio r else b
      | _ \<Rightarrow> safety_ratio r)"

definition backed_off_safety ::
  "(rat \<Rightarrow> rat) \<Rightarrow> rat \<Rightarrow> ratio_outcome \<Rightarrow> pyfloat option \<Rightarrow> ratio_controller \<Rightarrow> rat" where
  "backed_off_safety rnd obs outcome snapshot r =
     (let base = failure_base snapshot r;
          lower_bound = (if outcome = KV_OVERFLOW then obs else 0);
          target = max (rnd (base * failure_multiplier r)) lower_bound;
          backed_off = rnd (rnd (rnd (1 - failure_alpha r) * base) + rnd (failure_alpha r * target))
      in max (max (safety_ratio r) (rc_clamp r lower_bound)) (rc_clamp r backed_off))"

definition observe ::
  "(rat \<Rightarrow> rat) \<Rightarrow> int \<Rightarrow> int \<Rightarrow> ratio_outcome \<Rightarrow> pyfloat option \<Rightarrow> ratio_controller \<Rightarrow>
   ratio_controller \<times> ratio_observation" where
  "observe rnd audio_steps text_tokens outcome snapshot r =
     (let steps = max 0 audio_steps;
          tokens = max 0 text_tokens;
          obs = (if 0 < steps \<and> 0 < tokens then rnd (of_int steps / of_int tokens) else 0);
          accepted = (outcome = CODEC_EOS \<and> 0 < steps \<and> min_duration_tokens r \<le> tokens);
          r' = (if outcome = CODEC_EOS then
                  if accepted
                  then r\<lparr>duration_ratio := rc_clamp r
                           (rnd (rnd (rnd (1 - duration_alpha r) * duration_ratio r) + rnd (duration_alpha r * obs))),
                         safety_ratio := max (safety_ratio r) (rc_clamp r obs)\<rparr>
                  else r
                else if outcome \<in> {KV_OVERFLOW, LOOP_ABORT, LENGTH_ABORT}
                then r\<lparr>safety_ratio := backed_off_safety rnd obs outcome snapshot r\<rparr>
                else r)
      in (r', \<lparr>ro_outcome = outcome, observed_ratio = obs, duration_before = duration_ratio r,
               duration_after = duration_ratio r', safety_before = safety_ratio r, safety_after = safety_ratio r',
               duration_sample_accepted = accepted, safety_tightened = (safety_ratio r < safety_ratio r'),
               ro_text_tokens = tokens, ro_audio_steps = steps\<rparr>))"

definition controller_reset :: "ratio_controller \<Rightarrow> ratio_controller" where
  "controller_reset r = r\<lparr>duration_ratio := duration_initial r, safety_ratio := safety_initial r\<rparr>"

section \<open>The safety ratio only tightens\<close>

definition controller_ok :: "ratio_controller \<Rightarrow> bool" where
  "controller_ok r \<longleftrightarrow>
     1 \<le> min_ratio r \<and> min_ratio r \<le> max_ratio r \<and>
     min_ratio r \<le> duration_ratio r \<and> duration_ratio r \<le> max_ratio r \<and>
     min_ratio r \<le> safety_ratio r \<and> safety_ratio r \<le> max_ratio r"

datatype ratio_op = SetDuration pyfloat | Observe int int ratio_outcome "pyfloat option"

fun ratio_exec :: "(rat \<Rightarrow> rat) \<Rightarrow> ratio_op \<Rightarrow> ratio_controller \<Rightarrow> ratio_controller" where
  "ratio_exec rnd (SetDuration v) r = fst (set_duration_ratio v r)"
| "ratio_exec rnd (Observe steps tokens outcome snapshot) r = fst (observe rnd steps tokens outcome snapshot r)"

lemma rc_clamp_bounds:
  assumes "controller_ok r"
  shows "min_ratio r \<le> rc_clamp r v" "rc_clamp r v \<le> max_ratio r"
  using assms by (auto simp: rc_clamp_def controller_ok_def)

lemma new_controller_ok: "new_controller d s da fa lo hi n m = Inr r \<Longrightarrow> controller_ok r"
  by (auto simp: new_controller_def Let_def controller_ok_def not_less split: if_splits)

lemma safety_update_ok:
  assumes "controller_ok r" and "safety_ratio r \<le> v" and "v \<le> max_ratio r"
  shows "controller_ok (r\<lparr>safety_ratio := v\<rparr>)"
  using assms by (auto simp: controller_ok_def)

lemma backed_off_safety_bounds:
  assumes "controller_ok r"
  shows "safety_ratio r \<le> backed_off_safety rnd obs outcome snapshot r"
    "backed_off_safety rnd obs outcome snapshot r \<le> max_ratio r"
proof -
  obtain x y where "backed_off_safety rnd obs outcome snapshot r = max (max (safety_ratio r) (rc_clamp r x)) (rc_clamp r y)"
    unfolding backed_off_safety_def Let_def by blast
  with rc_clamp_bounds(2) [OF assms] assms show "safety_ratio r \<le> backed_off_safety rnd obs outcome snapshot r"
    "backed_off_safety rnd obs outcome snapshot r \<le> max_ratio r"
    by (simp_all add: controller_ok_def)
qed

lemma ratio_exec_ok:
  assumes ok: "controller_ok r"
  shows "controller_ok (ratio_exec rnd op r)" "safety_ratio r \<le> safety_ratio (ratio_exec rnd op r)"
proof -
  note b = rc_clamp_bounds [OF ok]
  have two: "controller_ok (r\<lparr>duration_ratio := rc_clamp r v, safety_ratio := max (safety_ratio r) (rc_clamp r w)\<rparr>)" for v w
    using b [of v] b [of w] ok by (auto simp: controller_ok_def le_max_iff_disj)
  have "controller_ok (ratio_exec rnd op r) \<and> safety_ratio r \<le> safety_ratio (ratio_exec rnd op r)"
  proof (cases op)
    case (SetDuration v)
    with ok two show ?thesis by (auto simp: set_duration_ratio_def Let_def split: pyfloat.split)
  next
    case (Observe steps tokens outcome snapshot)
    have backs: "controller_ok (r\<lparr>safety_ratio := backed_off_safety rnd obs outcome snapshot r\<rparr>)" for obs
      using backed_off_safety_bounds [OF ok] by (intro safety_update_ok [OF ok])
    show ?thesis
      unfolding Observe using ok two backs backed_off_safety_bounds(1) [OF ok]
      by (cases outcome) (simp_all add: observe_def Let_def)
  qed
  then show "controller_ok (ratio_exec rnd op r)" "safety_ratio r \<le> safety_ratio (ratio_exec rnd op r)" by auto
qed

interpretation rc: watermark_system "ratio_exec rnd" controller_ok safety_ratio for rnd
  by unfold_locales (auto intro: ratio_exec_ok)

text \<open>
  The planning ratio only tightens. Whatever outcomes and duration updates a controller
  receives, both ratios stay between the configured bounds and the safety ratio never decreases
  from one point of the history to a later one.
\<close>

theorem safety_ratio_monotone:
  assumes "new_controller d s da fa lo hi n m = Inr r" and "i \<le> j"
  shows "controller_ok (fold (ratio_exec rnd) (take j ops) r) \<and>
         safety_ratio (fold (ratio_exec rnd) (take i ops) r) \<le> safety_ratio (fold (ratio_exec rnd) (take j ops) r)"
  using rc.run_prefix_inv [OF new_controller_ok [OF assms(1)]]
    rc.run_mark_between [OF new_controller_ok [OF assms(1)] assms(2)] by blast

text \<open>
  Failures of one planning epoch do not compound. A failure that is reported again for a
  segment with the same safety snapshot leaves the controller as the first report left it, and
  after a KV overflow the safety ratio is at least the observed ratio within the bounds.
\<close>

theorem failures_do_not_compound:
  assumes "outcome \<in> {KV_OVERFLOW, LOOP_ABORT, LENGTH_ABORT}" and "0 < b"
  shows "let r1 = fst (observe rnd steps tokens outcome (Some (Fin b)) r) in
         fst (observe rnd steps tokens outcome (Some (Fin b)) r1) = r1 \<and>
         duration_ratio r1 = duration_ratio r \<and>
         (outcome = KV_OVERFLOW \<and> 0 < steps \<and> 0 < tokens \<longrightarrow>
          rc_clamp r (rnd (of_int steps / of_int tokens)) \<le> safety_ratio r1)"
proof -
  define obs where "obs = (if 0 < steps \<and> 0 < tokens then rnd (of_int steps / of_int tokens) else 0)"
  have upd: "fst (observe rnd steps tokens outcome (Some (Fin b)) k) =
      k\<lparr>safety_ratio := backed_off_safety rnd obs outcome (Some (Fin b)) k\<rparr>" for k
  proof -
    have "outcome \<noteq> CODEC_EOS" using assms(1) by auto
    moreover have "(if 0 < max 0 steps \<and> 0 < max 0 tokens then rnd (of_int (max 0 steps) / of_int (max 0 tokens)) else 0) = obs"
      by (simp add: obs_def max_def)
    ultimately show ?thesis using assms(1) unfolding observe_def Let_def by simp
  qed
  define lb where "lb = (if outcome = KV_OVERFLOW then obs else 0)"
  define y where "y = rc_clamp r (rnd (rnd (rnd (1 - failure_alpha r) * b) +
      rnd (failure_alpha r * max (rnd (b * failure_multiplier r)) lb)))"
  have base: "failure_base (Some (Fin b)) k = b" for k using assms(2) by (simp add: failure_base_def)
  have xy: "backed_off_safety rnd obs outcome (Some (Fin b)) (r\<lparr>safety_ratio := v\<rparr>) = max (max v (rc_clamp r lb)) y" for v
    unfolding backed_off_safety_def Let_def base lb_def [symmetric] by (simp add: y_def rc_clamp_def)
  have r1: "fst (observe rnd steps tokens outcome (Some (Fin b)) r) =
      r\<lparr>safety_ratio := max (max (safety_ratio r) (rc_clamp r lb)) y\<rparr>"
    using upd [of r] xy [of "safety_ratio r"] by simp
  have r2: "fst (observe rnd steps tokens outcome (Some (Fin b)) (r\<lparr>safety_ratio := max (max (safety_ratio r) (rc_clamp r lb)) y\<rparr>)) =
      r\<lparr>safety_ratio := max (max (safety_ratio r) (rc_clamp r lb)) y\<rparr>"
    unfolding upd xy by (simp add: max.assoc max.commute max.left_commute)
  have "rc_clamp r lb \<le> max (max (safety_ratio r) (rc_clamp r lb)) y" by (simp add: le_max_iff_disj)
  moreover have "lb = rnd (of_int steps / of_int tokens)" if "outcome = KV_OVERFLOW" "0 < steps" "0 < tokens"
    using that by (simp add: lb_def obs_def)
  ultimately show ?thesis unfolding Let_def r1 r2 by (simp add: le_max_iff_disj)
qed

section \<open>Witnesses\<close>

definition ex_controller :: ratio_controller where
  "ex_controller = \<lparr>duration_initial = 4, safety_initial = 5, duration_alpha = 1 / 4, failure_alpha = 1 / 2, min_ratio = 1,
     max_ratio = 12, min_duration_tokens = 2, failure_multiplier = 2, duration_ratio = 4, safety_ratio = 5\<rparr>"

definition ex_ratio_ops :: "ratio_op list" where
  "ex_ratio_ops = [Observe 20 10 CODEC_EOS None, Observe 30 5 KV_OVERFLOW (Some (Fin 5)), SetDuration (Fin 3)]"

lemma ex_controller_new:
  "new_controller (Fin 4) (Fin 5) (Fin (1 / 4)) (Fin (1 / 2)) (Fin 1) (Fin 12) 2 (Fin 2) = Inr ex_controller"
  by (simp add: new_controller_def ex_controller_def clamp_def float_val_def Let_def)

theorem safety_ratio_monotone_witness:
  "safety_ratio (fold (ratio_exec id) (take 3 ex_ratio_ops) ex_controller) = 15 / 2 \<and>
   safety_ratio (fold (ratio_exec id) (take 1 ex_ratio_ops) ex_controller) \<le>
   safety_ratio (fold (ratio_exec id) (take 3 ex_ratio_ops) ex_controller)"
proof -
  have "safety_ratio (fold (ratio_exec id) (take 3 ex_ratio_ops) ex_controller) = 15 / 2" by code_simp
  with safety_ratio_monotone [OF ex_controller_new, of 1 3 id ex_ratio_ops] show ?thesis by simp
qed

theorem failures_do_not_compound_witness:
  "fst (observe id 0 0 LOOP_ABORT (Some (Fin 5)) (fst (observe id 0 0 LOOP_ABORT (Some (Fin 5)) ex_controller))) =
   fst (observe id 0 0 LOOP_ABORT (Some (Fin 5)) ex_controller) \<and>
   safety_ratio (fst (observe id 0 0 LOOP_ABORT (Some (Fin 5)) ex_controller)) = 15 / 2"
proof -
  have "safety_ratio (fst (observe id 0 0 LOOP_ABORT (Some (Fin 5)) ex_controller)) = 15 / 2" by code_simp
  with failures_do_not_compound [of LOOP_ABORT 5 id 0 0 ex_controller] show ?thesis by (simp add: Let_def)
qed

end
