(* ===== verification/Pre_Split.thy ===== *)
theory Pre_Split
  imports Split_Ratio
begin

text \<open>
  The planning half of \<open>engine/frontend/spliter/spliter.py\<close>: the punctuation level of a token text,
  the bin packing \<open>pre_split\<close> of a fully known token sequence, and the pending tokens built from it
  under one capacity plan.

  The Unicode general category of a character (\<open>unicodedata.category\<close>) is a parameter \<open>cat\<close>.
  Recording of split decisions, an observability side channel that is off by default, is left out.
\<close>

section \<open>Punctuation levels\<close>

definition LEVEL1_PUNCTIONS :: "pystr list" where
  "LEVEL1_PUNCTIONS = [[0x3002], [0xFF01], [0xFF1F], [46], [33], [63]]"

definition LEVEL2_PUNCTIONS :: "pystr list" where
  "LEVEL2_PUNCTIONS = LEVEL1_PUNCTIONS @ [[0xFF0C], [0x3001], [0xFF1B], [0xFF1A], [44], [59], [58]]"

definition LEVEL3_PUNCTIONS :: "pystr list" where
  "LEVEL3_PUNCTIONS = LEVEL2_PUNCTIONS @
     [[10], [13], [9], [12], [11], [0x2026], [0x2026, 0x2026], [0x2014], [0x2014, 0x2014]]"

text \<open>The order of a Python set is unspecified; only membership in the result is used.\<close>

definition tier_puncts :: "pystr list \<Rightarrow> pystr list list \<Rightarrow> pystr list" where
  "tier_puncts puncts lower_tiers =
     sort_key (\<lambda>p. - int (length p)) (remdups (filter (\<lambda>p. p \<notin> set (concat lower_tiers)) puncts))"

definition LEVEL1_TERMINALS :: "pystr list" where
  "LEVEL1_TERMINALS = tier_puncts LEVEL1_PUNCTIONS []"

definition LEVEL2_TERMINALS :: "pystr list" where
  "LEVEL2_TERMINALS = tier_puncts LEVEL2_PUNCTIONS [LEVEL1_PUNCTIONS]"

definition LEVEL3_TERMINALS :: "pystr list" where
  "LEVEL3_TERMINALS = tier_puncts LEVEL3_PUNCTIONS [LEVEL2_PUNCTIONS]"

definition py_str_isspace :: "pystr \<Rightarrow> bool" where
  "py_str_isspace s \<longleftrightarrow> s \<noteq> [] \<and> list_all py_isspace s"

definition LEVEL3_BREAK_WHITESPACE :: "pystr list" where
  "LEVEL3_BREAK_WHITESPACE = filter py_str_isspace LEVEL3_TERMINALS"

definition PUNCT_TERMINALS_BY_LEVEL :: "(int \<times> pystr list) list" where
  "PUNCT_TERMINALS_BY_LEVEL = [(1, LEVEL1_TERMINALS), (2, LEVEL2_TERMINALS), (3, LEVEL3_TERMINALS)]"

definition is_trailing_punct_closer :: "(nat \<Rightarrow> string) \<Rightarrow> nat \<Rightarrow> bool" where
  "is_trailing_punct_closer cat ch \<longleftrightarrow> ch \<in> {39, 34, 0xFF07, 0xFF02} \<or> cat ch \<in> {''Pe'', ''Pf''}"

definition ends_with :: "pystr \<Rightarrow> pystr \<Rightarrow> bool" where
  "ends_with t p \<longleftrightarrow> length p \<le> length t \<and> drop (length t - length p) t = p"

definition match_terminal_punct :: "pystr \<Rightarrow> int" where
  "match_terminal_punct t =
     (case List.find (\<lambda>(level, puncts). list_ex (ends_with t) puncts) PUNCT_TERMINALS_BY_LEVEL of
        Some (level, _) \<Rightarrow> level
      | None \<Rightarrow> 0)"

text \<open>The scan from the right end: what is left of the (reversed) text and whether a line break was seen.\<close>

fun skip_closers :: "(nat \<Rightarrow> string) \<Rightarrow> pystr \<Rightarrow> bool \<Rightarrow> pystr \<times> bool" where
  "skip_closers cat [] saw = ([], saw)"
| "skip_closers cat (ch # cs) saw =
     (if py_isspace ch then skip_closers cat cs (saw \<or> [ch] \<in> set LEVEL3_BREAK_WHITESPACE)
      else if is_trailing_punct_closer cat ch then skip_closers cat cs saw
      else (ch # cs, saw))"

definition classify_punct_level :: "(nat \<Rightarrow> string) \<Rightarrow> pystr \<Rightarrow> int" where
  "classify_punct_level cat t =
     (if t = [] then 0
      else case skip_closers cat (rev t) False of
             (rest, saw) \<Rightarrow>
               if rest = [] then (if saw then 3 else 0)
               else let level = match_terminal_punct (rev rest)
                    in if level \<noteq> 0 then level else if saw then 3 else 0)"

section \<open>Tokens\<close>

record segment_token =
  token_id :: int
  st_text :: pystr
  st_level :: int
  normalized_start :: int
  normalized_end :: int
  raw_start :: int
  raw_end :: int

text \<open>What a caller passes: a token, or the legacy tuple \<open>(token_id, text[, punct_level])\<close>.\<close>

datatype token_arg = TokenArg segment_token | TupleArg int pystr "int option"

definition coerce_token :: "(nat \<Rightarrow> string) \<Rightarrow> token_arg \<Rightarrow> segment_token" where
  "coerce_token cat a =
     (case a of
        TokenArg t \<Rightarrow> t
      | TupleArg i t lv \<Rightarrow>
          \<lparr>token_id = i, st_text = t,
           st_level = (case lv of Some l \<Rightarrow> l | None \<Rightarrow> classify_punct_level cat t),
           normalized_start = 0, normalized_end = 0, raw_start = 0, raw_end = 0\<rparr>)"

definition coerce_tokens :: "(nat \<Rightarrow> string) \<Rightarrow> token_arg list \<Rightarrow> segment_token list" where
  "coerce_tokens cat as = map (coerce_token cat) as"

definition make_event :: "segment_token \<Rightarrow> spliter_event" where
  "make_event t =
     (if 0 < st_level t
      then \<lparr>ev_type = PUNCTUATION_TOKEN, ev_token = token_id t, ev_text = st_text t, punct_level = st_level t\<rparr>
      else \<lparr>ev_type = NORMAL_TOKEN, ev_token = token_id t, ev_text = st_text t, punct_level = 0\<rparr>)"

section \<open>Packing\<close>

text \<open>The dictionary \<open>last\<close>: the latest index of each tier in \<open>current\<close>.\<close>

record last_puncts =
  last1 :: int
  last2 :: int
  last3 :: int

definition no_puncts :: last_puncts where
  "no_puncts = \<lparr>last1 = - 1, last2 = - 1, last3 = - 1\<rparr>"

definition note_punct :: "int \<Rightarrow> segment_token \<Rightarrow> last_puncts \<Rightarrow> last_puncts" where
  "note_punct j t l =
     (if st_level t = 1 then l\<lparr>last1 := j\<rparr>
      else if st_level t = 2 then l\<lparr>last2 := j\<rparr>
      else if st_level t = 3 then l\<lparr>last3 := j\<rparr>
      else l)"

fun scan_puncts :: "int \<Rightarrow> segment_token list \<Rightarrow> last_puncts \<Rightarrow> last_puncts" where
  "scan_puncts j [] l = l"
| "scan_puncts j (t # ts) l = scan_puncts (j + 1) ts (note_punct j t l)"

record packer =
  pk_segments :: "segment_token list list"
  pk_current :: "segment_token list"
  pk_last :: last_puncts

definition flush_at :: "int \<Rightarrow> packer \<Rightarrow> packer" where
  "flush_at pos p =
     (let rest = drop (nat (pos + 1)) (pk_current p)
      in \<lparr>pk_segments = pk_segments p @ [take (nat (pos + 1)) (pk_current p)], pk_current = rest,
          pk_last = scan_puncts 0 rest no_puncts\<rparr>)"

definition pack_token :: "int \<Rightarrow> segment_token \<Rightarrow> packer \<Rightarrow> packer" where
  "pack_token capacity t p0 =
     (let cur = pk_current p0 @ [t];
          n = int (length cur);
          p = p0\<lparr>pk_current := cur, pk_last := note_punct (n - 1) t (pk_last p0)\<rparr>
      in if capacity \<le> n
         then if 0 \<le> last1 (pk_last p) then flush_at (last1 (pk_last p)) p
              else if 0 \<le> last2 (pk_last p) then flush_at (last2 (pk_last p)) p
              else if 0 \<le> last3 (pk_last p) then flush_at (last3 (pk_last p)) p
              else \<lparr>pk_segments = pk_segments p @ [cur], pk_current = [], pk_last = no_puncts\<rparr>
         else p)"

definition pre_split :: "split_thresholds \<Rightarrow> segment_token list \<Rightarrow> segment_token list list" where
  "pre_split th ts =
     (if ts = [] then []
      else let p = fold (pack_token (force_split_at th)) ts \<lparr>pk_segments = [], pk_current = [], pk_last = no_puncts\<rparr>
           in pk_segments p @ (if pk_current p \<noteq> [] then [pk_current p] else []))"

section \<open>Packing is greedy and exact\<close>

text \<open>The length of the part of a list that ends with its last token of level \<open>k\<close> (0 without one).\<close>

definition latest_end :: "int \<Rightarrow> segment_token list \<Rightarrow> nat" where
  "latest_end k ts = length (dropWhile (\<lambda>t. st_level t \<noteq> k) (rev ts))"

text \<open>Where to cut a window: after its last sentence end, else its last clause end, else its last
  weak break, else at its end.\<close>

definition best_cut :: "segment_token list \<Rightarrow> nat" where
  "best_cut w = (case filter (\<lambda>n. 0 < n) [latest_end 1 w, latest_end 2 w, latest_end 3 w] of n # _ \<Rightarrow> n | [] \<Rightarrow> length w)"

lemma latest_end_le: "latest_end k ts \<le> length ts"
  unfolding latest_end_def by (metis length_dropWhile_le length_rev)

lemma latest_end_snoc [simp]:
  "latest_end k [] = 0"
  "latest_end k (ts @ [t]) = (if st_level t = k then Suc (length ts) else latest_end k ts)"
  by (simp_all add: latest_end_def)

lemma best_cut_bounds: "w \<noteq> [] \<Longrightarrow> 1 \<le> best_cut w \<and> best_cut w \<le> length w"
  using latest_end_le [of 1 w] latest_end_le [of 2 w] latest_end_le [of 3 w]
  by (auto simp: best_cut_def Suc_le_eq)

fun greedy_pack :: "nat \<Rightarrow> segment_token list \<Rightarrow> segment_token list list" where
  "greedy_pack cap ts =
     (if ts = [] then []
      else if length ts < cap then [ts]
      else let k = max 1 (best_cut (take cap ts)) in take k ts # greedy_pack cap (drop k ts))"

declare greedy_pack.simps [simp del]

lemma greedy_pack_packs:
  assumes "1 \<le> cap"
  shows "concat (greedy_pack cap ts) = ts \<and> (\<forall>seg \<in> set (greedy_pack cap ts). seg \<noteq> [] \<and> length seg \<le> cap)"
  using assms
proof (induction cap ts rule: greedy_pack.induct)
  case (1 cap ts)
  show ?case
  proof (cases "ts = [] \<or> length ts < cap")
    case True
    then show ?thesis by (subst (1 2) greedy_pack.simps) auto
  next
    case False
    define k where "k = best_cut (take cap ts)"
    have "take cap ts \<noteq> []" using False "1.prems" by auto
    from best_cut_bounds [OF this] have k: "1 \<le> k" "k \<le> cap" unfolding k_def by auto
    then have kmax: "k = max 1 (best_cut (take cap ts))" by (simp add: k_def)
    have e: "greedy_pack cap ts = take k ts # greedy_pack cap (drop k ts)"
      using False by (subst greedy_pack.simps) (simp add: Let_def kmax [symmetric] del: One_nat_def)
    have "concat (greedy_pack cap (drop k ts)) = drop k ts \<and>
        (\<forall>seg \<in> set (greedy_pack cap (drop k ts)). seg \<noteq> [] \<and> length seg \<le> cap)"
      by (rule "1.IH" [OF _ _ kmax "1.prems"]) (use False in auto)
    with k False show ?thesis unfolding e by auto
  qed
qed

definition puncts_of :: "segment_token list \<Rightarrow> last_puncts" where
  "puncts_of ts = scan_puncts 0 ts no_puncts"

lemma scan_puncts_snoc:
  "scan_puncts j (ts @ [t]) l = note_punct (j + int (length ts)) t (scan_puncts j ts l)"
  by (induction ts arbitrary: j l) (simp_all add: algebra_simps)

lemma puncts_of_snoc: "puncts_of (ts @ [t]) = note_punct (int (length ts)) t (puncts_of ts)"
  by (simp add: puncts_of_def scan_puncts_snoc)

lemma puncts_of_eq:
  "puncts_of ts = \<lparr>last1 = int (latest_end 1 ts) - 1, last2 = int (latest_end 2 ts) - 1, last3 = int (latest_end 3 ts) - 1\<rparr>"
proof (induction ts rule: rev_induct)
  case Nil
  then show ?case by (simp add: puncts_of_def no_puncts_def)
next
  case (snoc t ts)
  then show ?case by (simp add: puncts_of_snoc note_punct_def)
qed

lemma pack_token_cut:
  fixes t :: segment_token and p :: packer
  assumes "pk_last p = puncts_of (pk_current p)"
  defines "cur \<equiv> pk_current p @ [t]"
  shows "pack_token cap t p =
     (if cap \<le> int (length cur)
      then \<lparr>pk_segments = pk_segments p @ [take (best_cut cur) cur], pk_current = drop (best_cut cur) cur,
            pk_last = puncts_of (drop (best_cut cur) cur)\<rparr>
      else p\<lparr>pk_current := cur, pk_last := puncts_of cur\<rparr>)"
proof -
  have l: "note_punct (int (length cur) - 1) t (pk_last p) = puncts_of cur"
    by (simp add: cur_def assms(1) puncts_of_snoc)
  have l1: "last1 (puncts_of cur) = int (latest_end 1 cur) - 1" "last2 (puncts_of cur) = int (latest_end 2 cur) - 1"
    "last3 (puncts_of cur) = int (latest_end 3 cur) - 1" by (simp_all add: puncts_of_eq)
  have nil: "puncts_of [] = no_puncts" by (simp add: puncts_of_def)
  have f: "flush_at (int n - 1) q = \<lparr>pk_segments = pk_segments q @ [take n (pk_current q)],
      pk_current = drop n (pk_current q), pk_last = puncts_of (drop n (pk_current q))\<rparr>" for n q
    by (simp add: flush_at_def puncts_of_def Let_def)
  show ?thesis
    unfolding pack_token_def cur_def [symmetric] Let_def l
    by (auto simp: f l1 best_cut_def nil)
qed

lemma pack_tokens_greedy:
  fixes ts :: "segment_token list" and p :: packer and cap :: int
  assumes "pk_last p = puncts_of (pk_current p)" and "int (length (pk_current p)) < cap"
  defines "q \<equiv> fold (pack_token cap) ts p"
  shows "pk_segments q @ (if pk_current q \<noteq> [] then [pk_current q] else []) =
         pk_segments p @ greedy_pack (nat cap) (pk_current p @ ts)"
  using assms(1,2) unfolding q_def
proof (induction ts arbitrary: p)
  case Nil
  then show ?case by (subst greedy_pack.simps) auto
next
  case (Cons t ts)
  let ?cur = "pk_current p @ [t]" and ?p = "pack_token cap t p"
  note cut = pack_token_cut [OF Cons.prems(1), of cap t]
  show ?case
  proof (cases "cap \<le> int (length ?cur)")
    case False
    with cut have e: "?p = p\<lparr>pk_current := ?cur, pk_last := puncts_of ?cur\<rparr>" by simp
    show ?thesis using Cons.IH [of ?p] False unfolding fold_Cons comp_apply e by simp
  next
    case True
    then have cap: "nat cap = length ?cur" using Cons.prems(2) by simp
    have k: "1 \<le> best_cut ?cur" "best_cut ?cur \<le> length ?cur" using best_cut_bounds [of ?cur] by auto
    have "greedy_pack (nat cap) (?cur @ ts) =
        take (best_cut ?cur) ?cur # greedy_pack (nat cap) (drop (best_cut ?cur) ?cur @ ts)"
    proof -
      have "take (nat cap) (?cur @ ts) = ?cur" "max 1 (best_cut ?cur) = best_cut ?cur" using cap k by simp_all
      moreover have "take (best_cut ?cur) (?cur @ ts) = take (best_cut ?cur) ?cur"
        "drop (best_cut ?cur) (?cur @ ts) = drop (best_cut ?cur) ?cur @ ts" using k(2) by (simp_all only: take_append drop_append) simp_all
      moreover have "?cur @ ts \<noteq> []" "\<not> length (?cur @ ts) < nat cap" using cap by simp_all
      ultimately show ?thesis by (subst greedy_pack.simps) (simp only: Let_def if_False)
    qed
    moreover have "int (length (drop (best_cut ?cur) ?cur)) < cap" using cap k True by simp
    moreover have e: "?p = \<lparr>pk_segments = pk_segments p @ [take (best_cut ?cur) ?cur], pk_current = drop (best_cut ?cur) ?cur,
        pk_last = puncts_of (drop (best_cut ?cur) ?cur)\<rparr>" using cut True by simp
    ultimately show ?thesis using Cons.IH [of ?p] unfolding fold_Cons comp_apply e by simp
  qed
qed

lemma pre_split_greedy:
  assumes "1 \<le> force_split_at th"
  shows "pre_split th ts = greedy_pack (nat (force_split_at th)) ts"
proof (cases "ts = []")
  case True
  then show ?thesis by (simp add: pre_split_def greedy_pack.simps)
next
  case False
  then show ?thesis
    using pack_tokens_greedy [of "\<lparr>pk_segments = [], pk_current = [], pk_last = no_puncts\<rparr>" "force_split_at th" ts] assms
    by (simp add: pre_split_def puncts_of_def)
qed

lemma pre_split_exact:
  assumes "1 \<le> force_split_at th"
  shows "concat (pre_split th ts) = ts"
    and "\<forall>seg \<in> set (pre_split th ts). seg \<noteq> [] \<and> int (length seg) \<le> force_split_at th"
  unfolding pre_split_greedy [OF assms]
  using greedy_pack_packs [of "nat (force_split_at th)" ts] assms by (auto simp: le_nat_iff)

text \<open>
  C28. Offline packing is exact, bounded and cuts where it should. With a capacity of at least one
  token, \<open>pre_split\<close> is greedy packing: as long as a capacity's worth of tokens remains, the next
  group is the part of that window up to its last sentence end, failing that its last clause end,
  failing that its last weak break, and the whole window only when it has no punctuation. Every
  token is in exactly one group, in order, and every group is non-empty and within the capacity.
\<close>

theorem pre_split_packs:
  assumes "1 \<le> force_split_at th"
  shows "pre_split th ts = greedy_pack (nat (force_split_at th)) ts \<and> concat (pre_split th ts) = ts \<and>
         (\<forall>seg \<in> set (pre_split th ts). seg \<noteq> [] \<and> int (length seg) \<le> force_split_at th)"
  using pre_split_greedy [OF assms] pre_split_exact [OF assms] by blast

definition ex_token :: "int \<Rightarrow> int \<Rightarrow> segment_token" where
  "ex_token i lv = \<lparr>token_id = i, st_text = [], st_level = lv, normalized_start = 0, normalized_end = 0, raw_start = 0, raw_end = 0\<rparr>"

definition ex_script :: "segment_token list" where
  "ex_script = map (\<lambda>(i, lv). ex_token i lv) [(1, 0), (2, 2), (3, 0), (4, 0), (5, 0), (6, 0), (7, 1), (8, 0)]"

theorem pre_split_packs_witness:
  "map (map token_id) (pre_split ex_thresholds ex_script) = [[1, 2], [3, 4, 5], [6, 7], [8]] \<and>
   concat (pre_split ex_thresholds ex_script) = ex_script"
proof -
  have "map (map token_id) (pre_split ex_thresholds ex_script) = [[1, 2], [3, 4, 5], [6, 7], [8]]" by code_simp
  moreover have "1 \<le> force_split_at ex_thresholds" by (simp add: ex_thresholds_def)
  ultimately show ?thesis using pre_split_packs by blast
qed

section \<open>Pending tokens under a capacity plan\<close>

text \<open>
  Plans are compared by object identity: every plan object has its own \<open>plan_id\<close>, drawn from a
  counter, so two plans are the same object exactly when their records are equal.
\<close>

record presplit_plan =
  plan_id :: nat
  plan_safety :: rat
  plan_thresholds :: split_thresholds

record pending_token =
  pt_token :: segment_token
  pt_key :: "int option"
  pt_boundary :: bool
  pt_before :: bool
  pt_forced :: bool
  pt_plan :: "presplit_plan option"

definition plan_cap :: "presplit_plan \<Rightarrow> int" where
  "plan_cap p = force_split_at (plan_thresholds p)"

definition stream_pending :: "segment_token \<Rightarrow> pending_token" where
  "stream_pending t = \<lparr>pt_token = t, pt_key = None, pt_boundary = False, pt_before = False, pt_forced = False, pt_plan = None\<rparr>"

definition planned_pending :: "presplit_plan \<Rightarrow> int \<Rightarrow> bool \<Rightarrow> segment_token \<Rightarrow> pending_token" where
  "planned_pending plan key b t =
     \<lparr>pt_token = t, pt_key = Some key, pt_boundary = b, pt_before = False, pt_forced = False, pt_plan = Some plan\<rparr>"

fun plan_groups ::
  "presplit_plan \<Rightarrow> int \<Rightarrow> segment_token list list \<Rightarrow> (py_error, pending_token list \<times> int) result" where
  "plan_groups plan key [] = Inr ([], key)"
| "plan_groups plan key (seg # segs) =
     (if seg = [] then plan_groups plan key segs
      else if plan_cap plan < int (length seg)
      then Inl (RuntimeError ''pre-split group exceeds its immutable capacity contract'')
      else case plan_groups plan (key + 1) segs of
             Inl e \<Rightarrow> Inl e
           | Inr (pts, k) \<Rightarrow>
               Inr (map (\<lambda>(i, t). planned_pending plan key (i = length seg - 1) t) (List.enumerate 0 seg) @ pts, k))"

definition build_planned_pending ::
  "presplit_plan \<Rightarrow> int \<Rightarrow> segment_token list \<Rightarrow> (py_error, pending_token list \<times> int) result" where
  "build_planned_pending plan first_group_key ts =
     plan_groups plan first_group_key (pre_split (plan_thresholds plan) ts)"

subsection \<open>Replanning\<close>

fun carry_marks :: "pending_token list \<Rightarrow> pending_token list \<Rightarrow> pending_token list" where
  "carry_marks (old # olds) (new # news) =
     new\<lparr>pt_before := pt_before old, pt_forced := pt_forced old,
         pt_boundary := pt_boundary new \<or> pt_forced old\<rparr> # carry_marks olds news"
| "carry_marks olds news = news"

fun regroup ::
  "presplit_plan \<Rightarrow> int \<Rightarrow> pending_token list \<Rightarrow> pending_token list \<Rightarrow> (py_error, pending_token list \<times> int) result" where
  "regroup plan key current_group [] =
     (if current_group = [] then Inr ([], key)
      else Inl (RuntimeError ''unterminated pre-split group in pending queue''))"
| "regroup plan key current_group (pt # pts) =
     (let cur = current_group @ [pt]
      in if \<not> pt_boundary pt then regroup plan key cur pts
         else case regroup plan (key + 1) [] pts of
                Inl e \<Rightarrow> Inl e
              | Inr (rest, k) \<Rightarrow>
                  Inr (map (\<lambda>(i, q). \<lparr>pt_token = pt_token q, pt_key = Some key,
                                      pt_boundary = (i = length cur - 1 \<or> pt_forced q), pt_before = pt_before q,
                                      pt_forced = pt_forced q, pt_plan = Some plan\<rparr>) (List.enumerate 0 cur) @ rest, k))"

text \<open>The packet that starts at the head of the queue: the planned tokens that share its plan object.\<close>

definition in_packet :: "presplit_plan \<Rightarrow> pending_token \<Rightarrow> bool" where
  "in_packet plan pt \<longleftrightarrow> pt_key pt \<noteq> None \<and> pt_plan pt = Some plan"

definition replan_block ::
  "presplit_plan \<Rightarrow> nat \<Rightarrow> int \<Rightarrow> presplit_plan \<Rightarrow> pending_token list \<Rightarrow> (py_error, pending_token list \<times> int) result" where
  "replan_block live new_id next_key old_plan block =
     (if plan_cap live < plan_cap old_plan
      then case build_planned_pending (live\<lparr>plan_id := new_id\<rparr>) next_key (map pt_token block) of
             Inl e \<Rightarrow> Inl e
           | Inr (news, k) \<Rightarrow> Inr (carry_marks block news, k)
      else regroup old_plan next_key [] block)"

function replan ::
  "presplit_plan \<Rightarrow> nat \<Rightarrow> int \<Rightarrow> pending_token list \<Rightarrow> (py_error, pending_token list \<times> int \<times> nat) result" where
  "replan live new_id next_key [] = Inr ([], next_key, new_id)"
| "replan live new_id next_key (head # rest) =
     (case pt_key head of
        None \<Rightarrow>
          (case replan live new_id next_key rest of
             Inl e \<Rightarrow> Inl e
           | Inr (out, k, n) \<Rightarrow> Inr (head # out, k, n))
      | Some _ \<Rightarrow>
          (case pt_plan head of
             None \<Rightarrow> Inl (RuntimeError ''pre-split group is missing its capacity contract'')
           | Some old_plan \<Rightarrow>
               (case replan_block live new_id next_key old_plan (head # takeWhile (in_packet old_plan) rest) of
                  Inl e \<Rightarrow> Inl e
                | Inr (out1, k1) \<Rightarrow>
                    (case replan live (Suc new_id) k1 (dropWhile (in_packet old_plan) rest) of
                       Inl e \<Rightarrow> Inl e
                     | Inr (out2, k2, n) \<Rightarrow> Inr (out1 @ out2, k2, n)))))"
  by pat_completeness auto

termination
  by (relation "measure (\<lambda>(_, _, _, pts). length pts)") (auto simp: le_imp_less_Suc length_dropWhile_le)

section \<open>Well-formed queues\<close>

text \<open>
  A queue of streaming tokens and whole planned groups: a planned token carries its plan, a group
  runs to a token marked \<open>boundary\<close> with one key and one plan, and has at most as many tokens as the
  plan allows. The first argument is the group that is open and the number of its tokens before
  the queue.
\<close>

fun wf_pending :: "(int \<times> presplit_plan \<times> int) option \<Rightarrow> pending_token list \<Rightarrow> bool" where
  "wf_pending st [] \<longleftrightarrow> st = None"
| "wf_pending st (pt # pts) \<longleftrightarrow>
     (case pt_key pt of
        None \<Rightarrow> st = None \<and> pt_plan pt = None \<and> wf_pending None pts
      | Some k \<Rightarrow>
          (case pt_plan pt of
             None \<Rightarrow> False
           | Some p \<Rightarrow>
               let n = (case st of None \<Rightarrow> 0 | Some (_, _, m) \<Rightarrow> m)
               in (case st of None \<Rightarrow> True | Some (k', p', _) \<Rightarrow> k = k' \<and> p = p') \<and> 0 \<le> n \<and> n < plan_cap p \<and>
                  wf_pending (if pt_boundary pt then None else Some (k, p, n + 1)) pts))"

lemma wf_pending_weaken: "wf_pending (Some (k, p, n)) pts \<Longrightarrow> 0 \<le> m \<Longrightarrow> m \<le> n \<Longrightarrow> wf_pending (Some (k, p, m)) pts"
  by (induction pts arbitrary: n m) (auto simp: Let_def split: option.splits if_splits)

lemma wf_pending_reopen: "wf_pending (Some (k, p, n)) pts \<Longrightarrow> wf_pending None pts"
proof (cases pts)
  case (Cons pt rest)
  assume wf: "wf_pending (Some (k, p, n)) pts"
  have "wf_pending (Some (k, p, 1)) rest" if "wf_pending (Some (k, p, n + 1)) rest" "0 \<le> n"
    by (rule wf_pending_weaken [OF that(1)]) (use that(2) in auto)
  with wf Cons show ?thesis by (auto simp: Let_def split: option.splits if_splits)
qed simp

lemma wf_pending_append: "wf_pending st xs \<Longrightarrow> wf_pending None ys \<Longrightarrow> wf_pending st (xs @ ys)"
  by (induction st xs rule: wf_pending.induct) (auto simp: Let_def split: option.splits)

text \<open>Marks: a queue with more boundaries and other marks, but the same tokens, keys and plans.\<close>

definition same_work :: "pending_token \<Rightarrow> pending_token \<Rightarrow> bool" where
  "same_work a b \<longleftrightarrow> pt_token b = pt_token a \<and> pt_key b = pt_key a \<and> pt_plan b = pt_plan a \<and> (pt_boundary a \<longrightarrow> pt_boundary b)"

lemma wf_pending_mark:
  "list_all2 same_work xs ys \<Longrightarrow> wf_pending st xs \<Longrightarrow> wf_pending st ys"
proof (induction xs ys arbitrary: st rule: list_all2_induct)
  case (Cons x xs y ys)
  have w: "wf_pending None ys" if "wf_pending (Some (k, p, n)) xs" for k p n
    using Cons.IH [OF that] by (rule wf_pending_reopen)
  from Cons.hyps(1) Cons.prems Cons.IH w show ?case
    by (auto simp: same_work_def Let_def split: option.splits if_splits)
qed simp

lemma wf_group_open:
  assumes "xs \<noteq> []" and "\<forall>x \<in> set xs. pt_key x = Some k \<and> pt_plan x = Some p" and "pt_boundary (last xs)"
    and "0 \<le> n" and "n + int (length xs) \<le> plan_cap p"
  shows "wf_pending (Some (k, p, n)) xs"
  using assms
proof (induction xs arbitrary: n)
  case (Cons x xs)
  show ?case
  proof (cases "xs = []")
    case False
    with Cons.IH [of "n + 1"] Cons.prems have w: "wf_pending (Some (k, p, n + 1)) xs" by simp
    with wf_pending_reopen [OF w] Cons.prems show ?thesis by simp
  qed (use Cons.prems in simp)
qed simp

lemma wf_group:
  assumes "xs \<noteq> []" and "\<forall>x \<in> set xs. pt_key x = Some k \<and> pt_plan x = Some p" and "pt_boundary (last xs)"
    and "int (length xs) \<le> plan_cap p"
  shows "wf_pending None xs"
  using wf_group_open [OF assms(1-3), of 0] assms(4) by (auto intro: wf_pending_reopen)

lemma wf_packet:
  assumes "wf_pending st pts" and "st = None \<or> (\<exists>k n. st = Some (k, p, n))"
  shows "wf_pending st (takeWhile (in_packet p) pts) \<and> wf_pending None (dropWhile (in_packet p) pts)"
  using assms
proof (induction st pts rule: wf_pending.induct)
  case (2 st pt pts)
  show ?case
  proof (cases "in_packet p pt")
    case True
    then obtain k where k: "pt_key pt = Some k" "pt_plan pt = Some p" by (auto simp: in_packet_def)
    with 2 True show ?thesis by (auto simp: Let_def)
  next
    case False
    with 2 show ?thesis by (auto simp: in_packet_def Let_def split: option.splits)
  qed
qed simp

lemma enumerate_Nil_iff [simp]: "List.enumerate n xs = [] \<longleftrightarrow> xs = []"
  by (metis length_0_conv length_enumerate)

lemma last_map_enumerate: "xs \<noteq> [] \<Longrightarrow> last (map f (List.enumerate 0 xs)) = f (length xs - 1, last xs)"
  by (simp add: last_map last_conv_nth nth_enumerate_eq)

text \<open>What replanning may not change, and what it achieves.\<close>

definition same_text :: "pending_token list \<Rightarrow> pending_token list \<Rightarrow> bool" where
  "same_text xs ys \<longleftrightarrow>
     map pt_token ys = map pt_token xs \<and> map pt_before ys = map pt_before xs \<and> map pt_forced ys = map pt_forced xs \<and>
     map (\<lambda>pt. pt_key pt = None) ys = map (\<lambda>pt. pt_key pt = None) xs"

definition plans_within :: "int \<Rightarrow> pending_token list \<Rightarrow> bool" where
  "plans_within cap xs \<longleftrightarrow> (\<forall>pt \<in> set xs. \<forall>p. pt_plan pt = Some p \<longrightarrow> plan_cap p \<le> cap)"

lemma same_text_append: "same_text xs xs' \<Longrightarrow> same_text ys ys' \<Longrightarrow> same_text (xs @ ys) (xs' @ ys')"
  by (simp add: same_text_def)

lemma plans_within_append [simp]: "plans_within cap (xs @ ys) \<longleftrightarrow> plans_within cap xs \<and> plans_within cap ys"
  by (auto simp: plans_within_def)

lemma plan_groups_ok:
  assumes "\<forall>seg \<in> set segs. seg \<noteq> [] \<and> int (length seg) \<le> plan_cap plan"
  shows "\<exists>pts k. plan_groups plan key segs = Inr (pts, k) \<and> map pt_token pts = concat segs \<and> wf_pending None pts \<and>
           (\<forall>pt \<in> set pts. in_packet plan pt \<and> \<not> pt_before pt \<and> \<not> pt_forced pt)"
  using assms
proof (induction segs arbitrary: key)
  case (Cons seg segs)
  obtain pts k where pts: "plan_groups plan (key + 1) segs = Inr (pts, k)" "map pt_token pts = concat segs"
    "wf_pending None pts" "\<forall>pt \<in> set pts. in_packet plan pt \<and> \<not> pt_before pt \<and> \<not> pt_forced pt"
    using Cons.IH [of "key + 1"] Cons.prems by (auto simp del: plan_groups.simps)
  let ?f = "\<lambda>(i, t). planned_pending plan key (i = length seg - 1) t"
  let ?g = "map ?f (List.enumerate 0 seg)"
  have seg: "seg \<noteq> []" "int (length seg) \<le> plan_cap plan" using Cons.prems by auto
  have nth: "?g ! i = planned_pending plan key (i = length seg - 1) (seg ! i)" if "i < length seg" for i
    using that by (simp add: nth_enumerate_eq)
  have toks: "map pt_token ?g = seg" by (rule nth_equalityI) (simp_all add: nth planned_pending_def nth_enumerate_eq)
  have all: "\<forall>x \<in> set ?g. pt_key x = Some key \<and> pt_plan x = Some plan \<and> \<not> pt_before x \<and> \<not> pt_forced x"
    by (auto simp: planned_pending_def)
  have "pt_boundary (last ?g)" using seg(1) by (simp add: last_map_enumerate planned_pending_def)
  then have "wf_pending None ?g" using wf_group [of ?g key plan] seg all by auto
  with pts seg toks all show ?case by (auto intro: wf_pending_append simp: in_packet_def)
qed simp

lemma build_planned_ok:
  assumes "1 \<le> plan_cap plan"
  obtains pts k where "build_planned_pending plan key ts = Inr (pts, k)" "map pt_token pts = ts" "wf_pending None pts"
    "\<forall>pt \<in> set pts. in_packet plan pt \<and> \<not> pt_before pt \<and> \<not> pt_forced pt"
proof -
  have cap: "1 \<le> force_split_at (plan_thresholds plan)" using assms by (simp add: plan_cap_def)
  from plan_groups_ok [of "pre_split (plan_thresholds plan) ts" plan key] pre_split_exact [OF cap, of ts] that
  show thesis by (auto simp: build_planned_pending_def plan_cap_def)
qed

lemma carry_marks_ok:
  assumes "length olds = length news" and "map pt_token olds = map pt_token news"
    and "\<forall>pt \<in> set olds. pt_key pt \<noteq> None" and "\<forall>pt \<in> set news. pt_key pt \<noteq> None"
  shows "same_text olds (carry_marks olds news) \<and> list_all2 same_work news (carry_marks olds news)"
  using assms by (induction olds news rule: list_induct2) (auto simp: same_text_def same_work_def)

lemma regroup_ok:
  assumes "\<forall>pt \<in> set (cur @ pts). in_packet p pt"
    and "wf_pending (if cur = [] then None else Some (k, p, int (length cur))) pts"
  shows "\<exists>out k'. regroup p key cur pts = Inr (out, k') \<and> same_text (cur @ pts) out \<and> wf_pending None out \<and>
           (\<forall>pt \<in> set out. in_packet p pt)"
  using assms
proof (induction p key cur pts arbitrary: k rule: regroup.induct)
  case (1 plan key cur)
  then show ?case by (auto simp: same_text_def split: if_splits)
next
  case (2 plan key cur pt pts)
  let ?cur = "cur @ [pt]"
  obtain k1 where k1: "pt_key pt = Some k1" "pt_plan pt = Some plan" using "2.prems"(1) by (auto simp: in_packet_def)
  have len: "int (length ?cur) \<le> plan_cap plan" "cur \<noteq> [] \<Longrightarrow> k1 = k"
    using "2.prems"(2) k1 by (auto simp: Let_def split: if_splits)
  have wf: "wf_pending (if pt_boundary pt then None else Some (k1, plan, int (length ?cur))) pts"
    using "2.prems"(2) k1 by (auto simp: Let_def algebra_simps split: if_splits)
  show ?case
  proof (cases "pt_boundary pt")
    case False
    with "2.IH"(1) [OF refl, of k1] "2.prems"(1) wf show ?thesis by simp
  next
    case True
    obtain rest k' where rest: "regroup plan (key + 1) [] pts = Inr (rest, k')" "same_text pts rest" "wf_pending None rest"
      "\<forall>pt \<in> set rest. in_packet plan pt"
      using "2.IH"(2) [of ?cur] True wf "2.prems"(1) by auto
    let ?f = "\<lambda>(i, q). \<lparr>pt_token = pt_token q, pt_key = Some key, pt_boundary = (i = length ?cur - 1 \<or> pt_forced q),
        pt_before = pt_before q, pt_forced = pt_forced q, pt_plan = Some plan\<rparr>"
    let ?g = "map ?f (List.enumerate 0 ?cur)"
    have all: "\<forall>x \<in> set ?g. pt_key x = Some key \<and> pt_plan x = Some plan" by auto
    have "last ?g = ?f (length cur, pt)" by (simp add: last_map_enumerate)
    then have "wf_pending None ?g" using wf_group [of ?g key plan] len(1) all by simp
    moreover have "same_text ?cur ?g"
    proof -
      have "pt_key (cur ! i) \<noteq> None" if "i < length cur" for i
        using "2.prems"(1) nth_mem [OF that] by (fastforce simp: in_packet_def)
      then show ?thesis using k1 unfolding same_text_def
        by (intro conjI nth_equalityI) (simp_all add: nth_enumerate_eq nth_append)
    qed
    ultimately show ?thesis
      using True rest all same_text_append [of ?cur ?g pts rest]
      by (auto intro: wf_pending_append simp: in_packet_def Let_def)
  qed
qed

lemma replan_block_ok:
  assumes "\<forall>pt \<in> set block. in_packet old pt" and "wf_pending None block" and "1 \<le> plan_cap live"
  shows "\<exists>out k. replan_block live n key old block = Inr (out, k) \<and> same_text block out \<and> wf_pending None out \<and>
           plans_within (plan_cap live) out"
proof (cases "plan_cap live < plan_cap old")
  case True
  let ?plan = "live\<lparr>plan_id := n\<rparr>"
  have cap: "plan_cap ?plan = plan_cap live" by (simp add: plan_cap_def)
  obtain pts k where pts: "build_planned_pending ?plan key (map pt_token block) = Inr (pts, k)"
    "map pt_token pts = map pt_token block" "wf_pending None pts" "\<forall>pt \<in> set pts. in_packet ?plan pt"
    using build_planned_ok [of ?plan key "map pt_token block"] assms(3) cap by metis
  have "same_text block (carry_marks block pts) \<and> list_all2 same_work pts (carry_marks block pts)"
    using pts(2,4) assms(1) by (intro carry_marks_ok) (auto simp: in_packet_def dest: map_eq_imp_length_eq)
  then have ct: "same_text block (carry_marks block pts)" and cw: "list_all2 same_work pts (carry_marks block pts)" by auto
  have "\<forall>y \<in> set (carry_marks block pts). pt_plan y = Some ?plan"
    using cw pts(4) by (fastforce simp: list_all2_conv_all_nth in_set_conv_nth same_work_def in_packet_def)
  then have "plans_within (plan_cap live) (carry_marks block pts)" by (auto simp: plans_within_def cap)
  with True pts(1) ct wf_pending_mark [OF cw pts(3)] show ?thesis by (simp add: replan_block_def)
next
  case False
  obtain out k where "regroup old key [] block = Inr (out, k)" "same_text block out" "wf_pending None out"
    "\<forall>pt \<in> set out. in_packet old pt" using regroup_ok [of "[]" block old _ key] assms(1,2) by auto
  with False show ?thesis by (auto simp: replan_block_def plans_within_def in_packet_def)
qed

lemma replan_ok:
  assumes "wf_pending None pts" and "1 \<le> plan_cap live"
  shows "\<exists>out k n'. replan live n key pts = Inr (out, k, n') \<and> same_text pts out \<and> wf_pending None out \<and>
           plans_within (plan_cap live) out"
  using assms
proof (induction live n key pts rule: replan.induct)
  case (1 live n key)
  then show ?case by (simp add: same_text_def plans_within_def)
next
  case (2 live n key head rest)
  show ?case
  proof (cases "pt_key head")
    case None
    with 2 obtain out k n' where "replan live n key rest = Inr (out, k, n')" "same_text rest out" "wf_pending None out"
      "plans_within (plan_cap live) out" "pt_plan head = None" by auto
    with None show ?thesis by (auto simp: same_text_def plans_within_def)
  next
    case (Some k0)
    with "2.prems"(1) obtain old where old: "pt_plan head = Some old" by (auto split: option.splits)
    then have hd: "in_packet old head" using Some by (simp add: in_packet_def)
    let ?block = "head # takeWhile (in_packet old) rest" and ?rest = "dropWhile (in_packet old) rest"
    have "wf_pending None (takeWhile (in_packet old) (head # rest)) \<and> wf_pending None (dropWhile (in_packet old) (head # rest))"
      using "2.prems"(1) by (intro wf_packet) auto
    then have wf: "wf_pending None ?block" "wf_pending None ?rest" using hd by auto
    obtain out1 k1 where o1: "replan_block live n key old ?block = Inr (out1, k1)" "same_text ?block out1"
      "wf_pending None out1" "plans_within (plan_cap live) out1"
      using replan_block_ok [OF _ wf(1) "2.prems"(2)] hd by (metis set_ConsD set_takeWhileD)
    obtain out2 k2 n' where o2: "replan live (Suc n) k1 ?rest = Inr (out2, k2, n')" "same_text ?rest out2"
      "wf_pending None out2" "plans_within (plan_cap live) out2"
      using "2.IH"(2) [OF Some old o1(1) refl wf(2) "2.prems"(2)] by blast
    have "same_text (?block @ ?rest) (out1 @ out2)" by (rule same_text_append [OF o1(2) o2(2)])
    then have "same_text (head # rest) (out1 @ out2)" by simp
    with Some old o1 o2 show ?thesis by (auto intro: wf_pending_append)
  qed
qed

text \<open>
  Replanning after the safety ratio tightens repacks the queue without touching the text. On a
  well-formed queue it always succeeds; every token keeps its place and stays streamed or planned, and
  the boundaries that a caller forced before or after tokens stay where they were; the result is
  well-formed again and every planned group fits the tighter capacity.
\<close>

theorem replan_keeps_text:
  assumes "wf_pending None pts" and "1 \<le> plan_cap live"
  shows "\<exists>out k n'. replan live n key pts = Inr (out, k, n') \<and> map pt_token out = map pt_token pts \<and>
           map pt_before out = map pt_before pts \<and> map pt_forced out = map pt_forced pts \<and>
           map (\<lambda>pt. pt_key pt = None) out = map (\<lambda>pt. pt_key pt = None) pts \<and> wf_pending None out \<and>
           (\<forall>pt \<in> set out. \<forall>p. pt_plan pt = Some p \<longrightarrow> plan_cap p \<le> plan_cap live)"
  using replan_ok [OF assms, of n key] unfolding same_text_def plans_within_def by blast

definition ex_plan :: "nat \<Rightarrow> int \<Rightarrow> presplit_plan" where
  "ex_plan i cap = \<lparr>plan_id = i, plan_safety = 3, plan_thresholds = ex_thresholds\<lparr>force_split_at := cap\<rparr>\<rparr>"

definition ex_queue :: "pending_token list" where
  "ex_queue = (stream_pending (ex_token 1 0))\<lparr>pt_before := True\<rparr> #
     map (\<lambda>(i, b). planned_pending (ex_plan 0 3) 4 b (ex_token i 0)) [(2, False), (3, False), (4, True)] @
     [planned_pending (ex_plan 0 3) 5 True (ex_token 5 0)]"

theorem replan_keeps_text_witness:
  "wf_pending None ex_queue \<and>
   (\<exists>out k n. replan (ex_plan 1 2) 2 4 ex_queue = Inr (out, k, n) \<and> map pt_token out = map (\<lambda>i. ex_token i 0) [1, 2, 3, 4, 5])"
proof -
  have wf: "wf_pending None ex_queue" by code_simp
  have cap: "1 \<le> plan_cap (ex_plan 1 2)" by code_simp
  have "map pt_token ex_queue = map (\<lambda>i. ex_token i 0) [1, 2, 3, 4, 5]" by code_simp
  with replan_keeps_text [OF wf cap, of 2 4] wf show ?thesis by auto
qed

end
