(* ===== verification/Spliter.thy ===== *)
theory Spliter
  imports Pre_Split
begin

text \<open>
  The orchestrator of \<open>engine/frontend/spliter/spliter.py\<close>: one queue of pending tokens, streamed or
  planned, drives a chain of \<open>StreamingDriver\<close>s, one per segment, with at most \<open>max_concurrent\<close>
  segments in flight; engine feedback frees segments and moves the planning ratio.

  A method that drives returns \<open>None\<close> when it would not return, and otherwise the state it leaves and
  either the exception it raised or its actions. \<open>rnd\<close> is the rounding of float arithmetic and \<open>cat\<close>
  the Unicode category.
\<close>

section \<open>State\<close>

record segment_action =
  sa_segment :: int
  sa_action :: action_result
  sa_group :: int
  sa_local :: int
  sa_final :: bool
  sa_text :: pystr
  sa_nstart :: int
  sa_nend :: int
  sa_rstart :: int
  sa_rend :: int

record spliter =
  sp_engine_max :: int
  sp_prefill_len :: int
  sp_safety_margin :: int
  sp_max_concurrent :: int
  sp_ratios :: ratio_controller
  sp_l1_cap :: pyfloat
  sp_l2_cap :: pyfloat
  sp_l3_cap :: pyfloat
  sp_pending :: "pending_token list"
  sp_next_group_key :: int
  sp_next_output :: int
  sp_input_complete :: bool
  sp_drivers :: "(int \<times> driver) list"
  sp_next_segment :: int
  sp_coords :: "(int \<times> (int \<times> int)) list"
  sp_group_key :: "(int \<times> int option) list"
  sp_ema :: "(int \<times> rat) list"
  sp_safety :: "(int \<times> rat) list"
  sp_group_next_local :: "(int \<times> int) list"
  sp_group_output :: "(int \<times> int) list"
  sp_flushing :: "int set"
  sp_done :: "int set"
  sp_next_plan :: nat

definition new_spliter ::
  "int \<Rightarrow> int \<Rightarrow> pyfloat \<Rightarrow> pyfloat option \<Rightarrow> int \<Rightarrow> int \<Rightarrow> pyfloat \<Rightarrow> pyfloat \<Rightarrow> pyfloat \<Rightarrow> pyfloat \<Rightarrow> int \<Rightarrow> pyfloat \<Rightarrow>
   pyfloat \<Rightarrow> pyfloat \<Rightarrow> pyfloat \<Rightarrow> (py_error, spliter) result" where
  "new_spliter engine_max prefill_len ema safety0 margin max_concurrent alpha overflow_alpha lo hi min_tokens mult l1 l2 l3 =
     (case new_controller ema (case safety0 of None \<Rightarrow> ema | Some v \<Rightarrow> v) alpha overflow_alpha lo hi min_tokens mult of
        Inl e \<Rightarrow> Inl e
      | Inr rc \<Rightarrow>
          Inr \<lparr>sp_engine_max = engine_max, sp_prefill_len = prefill_len, sp_safety_margin = margin,
               sp_max_concurrent = max_concurrent, sp_ratios = rc, sp_l1_cap = l1, sp_l2_cap = l2, sp_l3_cap = l3,
               sp_pending = [], sp_next_group_key = 0, sp_next_output = 0, sp_input_complete = False,
               sp_drivers = [], sp_next_segment = 0, sp_coords = [], sp_group_key = [], sp_ema = [], sp_safety = [],
               sp_group_next_local = [], sp_group_output = [], sp_flushing = {}, sp_done = {}, sp_next_plan = 0\<rparr>)"

definition ema_ratio :: "spliter \<Rightarrow> rat" where
  "ema_ratio s = duration_ratio (sp_ratios s)"

definition sp_safety_ratio :: "spliter \<Rightarrow> rat" where
  "sp_safety_ratio s = safety_ratio (sp_ratios s)"

definition ema_ratio_for_segment :: "int \<Rightarrow> spliter \<Rightarrow> rat" where
  "ema_ratio_for_segment i s = (case map_of (sp_ema s) i of Some v \<Rightarrow> v | None \<Rightarrow> ema_ratio s)"

definition safety_ratio_for_segment :: "int \<Rightarrow> spliter \<Rightarrow> rat" where
  "safety_ratio_for_segment i s = (case map_of (sp_safety s) i of Some v \<Rightarrow> v | None \<Rightarrow> sp_safety_ratio s)"

definition active_segment_count :: "spliter \<Rightarrow> int" where
  "active_segment_count s = int (length (sp_drivers s))"

section \<open>Thresholds and drivers\<close>

definition make_thresholds :: "(rat \<Rightarrow> rat) \<Rightarrow> spliter \<Rightarrow> (py_error, split_thresholds) result" where
  "make_thresholds rnd s =
     compute_thresholds rnd (sp_engine_max s - sp_prefill_len s) (Fin (sp_safety_ratio s)) (sp_safety_margin s)
       (sp_l1_cap s) (sp_l2_cap s) (sp_l3_cap s)"

definition make_presplit_plan :: "(rat \<Rightarrow> rat) \<Rightarrow> spliter \<Rightarrow> spliter \<times> (py_error, presplit_plan) result" where
  "make_presplit_plan rnd s =
     (case make_thresholds rnd s of
        Inl e \<Rightarrow> (s, Inl e)
      | Inr th \<Rightarrow>
          (s\<lparr>sp_next_plan := Suc (sp_next_plan s)\<rparr>,
           Inr \<lparr>plan_id = sp_next_plan s, plan_safety = sp_safety_ratio s, plan_thresholds = th\<rparr>))"

definition create_driver :: "split_thresholds \<Rightarrow> spliter \<Rightarrow> spliter \<times> int \<times> driver" where
  "create_driver th s =
     (let idx = sp_next_segment s; d = new_driver th
      in (s\<lparr>sp_next_segment := idx + 1, sp_drivers := dict_set idx d (sp_drivers s)\<rparr>, idx, d))"

definition flush_action :: "action_result \<Rightarrow> bool" where
  "flush_action r \<longleftrightarrow> ar_type r = AFlushEos \<or> ar_type r = AFlushNop"

definition to_action :: "int \<Rightarrow> segment_token option \<Rightarrow> int \<times> int \<Rightarrow> bool \<Rightarrow> action_result \<Rightarrow> segment_action" where
  "to_action idx tok co final r =
     \<lparr>sa_segment = idx, sa_action = r, sa_group = fst co, sa_local = snd co, sa_final = final,
      sa_text = (if is_token r then case tok of Some t \<Rightarrow> st_text t | None \<Rightarrow> [] else []),
      sa_nstart = (case tok of Some t \<Rightarrow> normalized_start t | None \<Rightarrow> 0),
      sa_nend = (case tok of Some t \<Rightarrow> normalized_end t | None \<Rightarrow> 0),
      sa_rstart = (case tok of Some t \<Rightarrow> raw_start t | None \<Rightarrow> 0),
      sa_rend = (case tok of Some t \<Rightarrow> raw_end t | None \<Rightarrow> 0)\<rparr>"

definition results_to_actions ::
  "int \<Rightarrow> segment_token option \<Rightarrow> int \<times> int \<Rightarrow> bool \<Rightarrow> action_result list \<Rightarrow> spliter \<Rightarrow> spliter \<times> segment_action list \<times> bool" where
  "results_to_actions idx tok co final rs s =
     (let fl = list_ex flush_action rs
      in (if fl then s\<lparr>sp_flushing := insert idx (sp_flushing s)\<rparr> else s, map (to_action idx tok co final) rs, fl))"

text \<open>Feeding the driver of a segment: the driver is an object shared with \<open>_drivers\<close>.\<close>

definition feed_driver ::
  "int \<Rightarrow> spliter_event \<Rightarrow> segment_token option \<Rightarrow> int \<times> int \<Rightarrow> bool \<Rightarrow> driver \<Rightarrow> spliter \<Rightarrow>
   (driver \<times> spliter \<times> segment_action list \<times> bool) option" where
  "feed_driver idx e tok co final d s =
     (case driver_feed e d of
        None \<Rightarrow> None
      | Some (d', rs) \<Rightarrow>
          (case results_to_actions idx tok co final rs (s\<lparr>sp_drivers := dict_set idx d' (sp_drivers s)\<rparr>) of
             (s', acts, fl) \<Rightarrow> Some (d', s', acts, fl)))"

section \<open>The driving core\<close>

definition get_active_driver_idx :: "spliter \<Rightarrow> int option" where
  "get_active_driver_idx s =
     List.find (\<lambda>i. i \<notin> sp_flushing s \<and> i \<notin> sp_done s) (rev [0 .. sp_next_segment s - 1])"

text \<open>\<open>co\<close> and \<open>key\<close> are the entries of \<open>_seg_coords\<close> and \<open>_seg_group_key\<close> for the segment, which the
  caller has already read.\<close>

definition finalize_segment ::
  "int \<Rightarrow> int \<times> int \<Rightarrow> int option \<Rightarrow> bool \<Rightarrow> spliter \<Rightarrow> segment_action list \<Rightarrow> spliter \<times> segment_action list" where
  "finalize_segment idx co key group_exhausted s actions =
     (let final = (key = None \<or> group_exhausted);
          actions' = map (\<lambda>sa. if sa_segment sa = idx then sa\<lparr>sa_final := final\<rparr> else sa) actions
      in case key of
           None \<Rightarrow> (s, actions')
         | Some k \<Rightarrow>
             if \<not> group_exhausted
             then (s\<lparr>sp_group_next_local := dict_set k (snd co + 1) (sp_group_next_local s)\<rparr>, actions')
             else (s\<lparr>sp_group_next_local := dict_pop k (sp_group_next_local s),
                     sp_group_output := dict_pop k (sp_group_output s)\<rparr>, actions'))"

definition obey_thresholds :: "presplit_plan \<Rightarrow> split_thresholds" where
  "obey_thresholds plan =
     (let cap = plan_cap plan
      in \<lparr>min_tokens_l1 = cap, min_tokens_l2 = cap, min_tokens_l3 = cap, force_split_at = cap\<rparr>)"

text \<open>The public coordinate of the next segment of a group.\<close>

definition assign_coords :: "int option \<Rightarrow> spliter \<Rightarrow> spliter \<times> int \<times> int" where
  "assign_coords key s =
     (case key of
        None \<Rightarrow> (s\<lparr>sp_next_output := sp_next_output s + 1\<rparr>, sp_next_output s, 0)
      | Some k \<Rightarrow>
          (let local = (case map_of (sp_group_next_local s) k of Some l \<Rightarrow> l | None \<Rightarrow> 0)
           in case map_of (sp_group_output s) k of
                Some g \<Rightarrow> (s, g, local)
              | None \<Rightarrow>
                  (s\<lparr>sp_group_output := dict_set k (sp_next_output s) (sp_group_output s),
                     sp_next_output := sp_next_output s + 1\<rparr>, sp_next_output s, local)))"

definition segment_thresholds ::
  "(rat \<Rightarrow> rat) \<Rightarrow> pending_token \<Rightarrow> spliter \<Rightarrow> (py_error, split_thresholds \<times> rat) result" where
  "segment_thresholds rnd head s =
     (case pt_key head of
        Some _ \<Rightarrow>
          (case pt_plan head of
             None \<Rightarrow> Inl (RuntimeError ''pre-split group is missing its capacity contract'')
           | Some plan \<Rightarrow> Inr (obey_thresholds plan, plan_safety plan))
      | None \<Rightarrow>
          (case make_thresholds rnd s of
             Inl e \<Rightarrow> Inl e
           | Inr th \<Rightarrow> Inr (th, sp_safety_ratio s)))"

definition start_event :: spliter_event where
  "start_event = \<lparr>ev_type = START, ev_token = - 1, ev_text = [], punct_level = 0\<rparr>"

definition open_segment ::
  "(rat \<Rightarrow> rat) \<Rightarrow> pending_token \<Rightarrow> spliter \<Rightarrow> (spliter \<times> (py_error, int \<times> segment_action list) result) option" where
  "open_segment rnd head s =
     (let key = pt_key head
      in case segment_thresholds rnd head s of
           Inl e \<Rightarrow> Some (s, Inl e)
         | Inr (th, safety) \<Rightarrow>
             let (s1, idx, d) = create_driver th s;
                 s2 = s1\<lparr>sp_ema := dict_set idx (ema_ratio s1) (sp_ema s1), sp_safety := dict_set idx safety (sp_safety s1)\<rparr>;
                 (s3, co) = assign_coords key s2;
                 s4 = s3\<lparr>sp_coords := dict_set idx co (sp_coords s3), sp_group_key := dict_set idx key (sp_group_key s3)\<rparr>
             in case feed_driver idx start_event None co (key = None) d s4 of
                  None \<Rightarrow> None
                | Some (d', s5, acts, fl) \<Rightarrow> Some (s5, Inr (idx, acts)))"

text \<open>Closing the open segment: the END event and \<open>_finalize_segment\<close>, as the four places of
  \<open>_drive_one_segment\<close> do it.\<close>

definition close_segment ::
  "int \<Rightarrow> int \<times> int \<Rightarrow> int option \<Rightarrow> driver \<Rightarrow> spliter \<Rightarrow> segment_action list \<Rightarrow> (driver \<times> spliter \<times> segment_action list) option" where
  "close_segment idx co key d s out =
     (case feed_driver idx end_event None co (key = None) d s of
        None \<Rightarrow> None
      | Some (d', s', acts, fl) \<Rightarrow> Some (d', finalize_segment idx co key True s' (out @ acts)))"

text \<open>The token loop; its list is the queue of the state. The result says whether the segment was closed.\<close>

fun token_loop ::
  "int \<Rightarrow> int \<times> int \<Rightarrow> int option \<Rightarrow> pending_token list \<Rightarrow> driver \<Rightarrow> spliter \<Rightarrow> segment_action list \<Rightarrow>
   (driver \<times> spliter \<times> segment_action list \<times> bool) option" where
  "token_loop idx co key [] d s out = Some (d, s, out, False)"
| "token_loop idx co key (pt # pending) d s out =
     (if pt_key pt \<noteq> key then Some (d, s, out, False)
      else if pt_before pt \<and> 0 < token_count (snd d)
      then map_option (\<lambda>(d', s', out'). (d', s', out', True)) (close_segment idx co key d s out)
      else case feed_driver idx (make_event (pt_token pt)) (Some (pt_token pt)) co (key = None) d (s\<lparr>sp_pending := pending\<rparr>) of
             None \<Rightarrow> None
           | Some (d', s', acts, fl) \<Rightarrow>
               if fl
               then (case finalize_segment idx co key (pt_boundary pt) s' (out @ acts) of
                       (s'', out') \<Rightarrow> Some (d', s'', out', True))
               else if pt_boundary pt
               then map_option (\<lambda>(d'', s'', out'). (d'', s'', out', True)) (close_segment idx co key d' s' (out @ acts))
               else token_loop idx co key pending d' s' (out @ acts))"

definition drive_active :: "int \<Rightarrow> spliter \<Rightarrow> segment_action list \<Rightarrow> (spliter \<times> (py_error, segment_action list) result) option" where
  "drive_active idx s out =
     (case (map_of (sp_drivers s) idx, map_of (sp_coords s) idx, map_of (sp_group_key s) idx) of
        (Some d, Some co, Some key) \<Rightarrow>
          (case token_loop idx co key (sp_pending s) d s out of
             None \<Rightarrow> None
           | Some (d', s', out', fin) \<Rightarrow>
               if fin then Some (s', Inr out')
               else if (sp_pending s' \<noteq> [] \<and> pt_key (hd (sp_pending s')) \<noteq> key) \<or> (sp_input_complete s' \<and> sp_pending s' = [])
               then map_option (\<lambda>(d'', s'', out''). (s'', Inr out'')) (close_segment idx co key d' s' out')
               else Some (s', Inr out'))
      | _ \<Rightarrow> Some (s, Inl KeyError))"

definition drive_one_segment :: "(rat \<Rightarrow> rat) \<Rightarrow> spliter \<Rightarrow> (spliter \<times> (py_error, segment_action list) result) option" where
  "drive_one_segment rnd s =
     (case get_active_driver_idx s of
        Some idx \<Rightarrow> drive_active idx s []
      | None \<Rightarrow>
          if sp_pending s = [] \<or> sp_max_concurrent s \<le> active_segment_count s then Some (s, Inr [])
          else case open_segment rnd (hd (sp_pending s)) s of
                 None \<Rightarrow> None
               | Some (s', Inl e) \<Rightarrow> Some (s', Inl e)
               | Some (s', Inr (idx, out)) \<Rightarrow> drive_active idx s' out)"

partial_function (option) drive_events ::
  "(rat \<Rightarrow> rat) \<Rightarrow> spliter \<Rightarrow> (spliter \<times> (py_error, segment_action list) result) option" where
  "drive_events rnd s =
     Option.bind (drive_one_segment rnd s) (\<lambda>(s', r).
       case r of
         Inl e \<Rightarrow> Some (s', Inl e)
       | Inr acts \<Rightarrow>
           if acts = [] then Some (s', Inr [])
           else Option.bind (drive_events rnd s') (\<lambda>(s'', r').
                  Some (s'', case r' of Inl e \<Rightarrow> Inl e | Inr rest \<Rightarrow> Inr (acts @ rest))))"

section \<open>Queueing\<close>

definition enqueue_presplit_groups :: "(rat \<Rightarrow> rat) \<Rightarrow> segment_token list \<Rightarrow> spliter \<Rightarrow> spliter \<times> (py_error, unit) result" where
  "enqueue_presplit_groups rnd ts s =
     (case make_presplit_plan rnd s of
        (s1, Inl e) \<Rightarrow> (s1, Inl e)
      | (s1, Inr plan) \<Rightarrow>
          (case build_planned_pending plan (sp_next_group_key s1) ts of
             Inl e \<Rightarrow> (s1, Inl e)
           | Inr (pts, k) \<Rightarrow> (s1\<lparr>sp_pending := sp_pending s1 @ pts, sp_next_group_key := k\<rparr>, Inr ())))"

definition tighten_pending_presplit_plans :: "(rat \<Rightarrow> rat) \<Rightarrow> spliter \<Rightarrow> spliter \<times> (py_error, unit) result" where
  "tighten_pending_presplit_plans rnd s =
     (if sp_pending s = [] then (s, Inr ())
      else case make_presplit_plan rnd s of
        (s1, Inl e) \<Rightarrow> (s1, Inl e)
      | (s1, Inr live) \<Rightarrow>
          let pending = sp_pending s1;
              offline = filter (\<lambda>pt. pt_key pt \<noteq> None) pending
          in if offline = [] then (s1, Inr ())
             else if \<not> list_ex (\<lambda>pt. case pt_plan pt of Some p \<Rightarrow> plan_cap live < plan_cap p | None \<Rightarrow> False) offline
             then (s1, Inr ())
             else if list_ex (\<lambda>pt. the (pt_key pt) \<in> fst ` set (sp_group_next_local s1)) offline then (s1, Inr ())
             else case replan live (sp_next_plan s1) (Min (set (map (\<lambda>pt. the (pt_key pt)) offline))) pending of
                    Inl e \<Rightarrow> (s1, Inl e)
                  | Inr (rebuilt, next_key, n) \<Rightarrow>
                      (s1\<lparr>sp_pending := rebuilt, sp_next_group_key := max (sp_next_group_key s1) next_key, sp_next_plan := n\<rparr>,
                       Inr ()))"

text \<open>\<open>pending[start + index].boundary_before = True\<close>, and the forced boundary after a token.\<close>

definition mark_before :: "nat \<Rightarrow> pending_token list \<Rightarrow> pending_token list" where
  "mark_before i pts = pts[i := (pts ! i)\<lparr>pt_before := True\<rparr>]"

definition mark_after :: "nat \<Rightarrow> pending_token list \<Rightarrow> pending_token list" where
  "mark_after i pts = pts[i := (pts ! i)\<lparr>pt_boundary := True, pt_forced := True\<rparr>]"

definition mark_at :: "(nat \<Rightarrow> pending_token list \<Rightarrow> pending_token list) \<Rightarrow> nat \<Rightarrow> nat \<Rightarrow> int \<Rightarrow> pending_token list \<Rightarrow> pending_token list" where
  "mark_at mark start n i pts = (if 0 \<le> i \<and> i < int n then mark (start + nat i) pts else pts)"

definition mark_streaming_boundaries :: "nat \<Rightarrow> nat \<Rightarrow> int list \<Rightarrow> int list \<Rightarrow> pending_token list \<Rightarrow> pending_token list" where
  "mark_streaming_boundaries start n after before pts =
     (if n = 0 then pts else fold (mark_at mark_after start n) after (fold (mark_at mark_before start n) before pts))"

text \<open>The marks of one packet of \<open>n\<close> tokens at the end of the queue.\<close>

record marks =
  force_boundary :: bool
  force_boundary_before :: bool
  force_boundary_indices :: "int list"
  force_boundary_before_indices :: "int list"

definition mark_packet :: "marks \<Rightarrow> nat \<Rightarrow> nat \<Rightarrow> pending_token list \<Rightarrow> pending_token list" where
  "mark_packet m start n pts =
     (let pts1 = (if 0 < n \<and> force_boundary_before m then mark_before start pts else pts);
          pts2 = (if 0 < n \<and> force_boundary m then mark_after (length pts1 - 1) pts1 else pts1)
      in mark_streaming_boundaries start n (force_boundary_indices m) (force_boundary_before_indices m) pts2)"

section \<open>Public operations\<close>

type_synonym driven = "(spliter \<times> (py_error, segment_action list) result) option"

definition set_full_text :: "(rat \<Rightarrow> rat) \<Rightarrow> (nat \<Rightarrow> string) \<Rightarrow> token_arg list \<Rightarrow> int list \<Rightarrow> int list \<Rightarrow> spliter \<Rightarrow> driven" where
  "set_full_text rnd cat args after before s =
     (let s0 = s\<lparr>sp_pending := [], sp_next_group_key := 0, sp_next_output := 0, sp_group_output := []\<rparr>
      in case enqueue_presplit_groups rnd (coerce_tokens cat args) s0 of
           (s1, Inl e) \<Rightarrow> Some (s1, Inl e)
         | (s1, Inr _) \<Rightarrow>
             let n = length (sp_pending s1);
                 pts = fold (mark_at mark_before 0 n) before (fold (mark_at mark_after 0 n) after (sp_pending s1))
             in drive_events rnd (s1\<lparr>sp_pending := pts, sp_input_complete := True\<rparr>))"

definition push_group_tokens :: "(rat \<Rightarrow> rat) \<Rightarrow> (nat \<Rightarrow> string) \<Rightarrow> token_arg list \<Rightarrow> marks \<Rightarrow> spliter \<Rightarrow> driven" where
  "push_group_tokens rnd cat args m s =
     (if args = [] then Some (s, Inr [])
      else let start = length (sp_pending s)
           in case enqueue_presplit_groups rnd (coerce_tokens cat args) s of
                (s1, Inl e) \<Rightarrow> Some (s1, Inl e)
              | (s1, Inr _) \<Rightarrow>
                  drive_events rnd (s1\<lparr>sp_pending := mark_packet m start (length (sp_pending s1) - start) (sp_pending s1)\<rparr>))"

definition feed_tokens :: "(rat \<Rightarrow> rat) \<Rightarrow> (nat \<Rightarrow> string) \<Rightarrow> token_arg list \<Rightarrow> marks \<Rightarrow> spliter \<Rightarrow> driven" where
  "feed_tokens rnd cat args m s =
     (let ts = coerce_tokens cat args; start = length (sp_pending s)
      in drive_events rnd (s\<lparr>sp_pending := mark_packet m start (length ts) (sp_pending s @ map stream_pending ts)\<rparr>))"

definition feed_auto :: "(rat \<Rightarrow> rat) \<Rightarrow> (nat \<Rightarrow> string) \<Rightarrow> token_arg list \<Rightarrow> marks \<Rightarrow> spliter \<Rightarrow> driven" where
  "feed_auto rnd cat args m s =
     (let ts = coerce_tokens cat args; start = length (sp_pending s)
      in if ts = [] then Some (s, Inr [])
         else
           let room = (case get_active_driver_idx s of
                         None \<Rightarrow> (case make_thresholds rnd s of Inl e \<Rightarrow> Inl e | Inr th \<Rightarrow> Inr (force_split_at th))
                       | Some idx \<Rightarrow>
                           (case map_of (sp_drivers s) idx of
                              None \<Rightarrow> Inl KeyError
                            | Some d \<Rightarrow> Inr (force_split_at (thresholds (snd d)) - token_count (snd d))))
           in case room of
                Inl e \<Rightarrow> Some (s, Inl e)
              | Inr r \<Rightarrow>
                  (case (if r < int (length ts) then enqueue_presplit_groups rnd ts s
                         else (s\<lparr>sp_pending := sp_pending s @ map stream_pending ts\<rparr>, Inr ())) of
                     (s1, Inl e) \<Rightarrow> Some (s1, Inl e)
                   | (s1, Inr _) \<Rightarrow>
                       drive_events rnd (s1\<lparr>sp_pending := mark_packet m start (length ts) (sp_pending s1)\<rparr>)))"

definition input_done :: "(rat \<Rightarrow> rat) \<Rightarrow> spliter \<Rightarrow> driven" where
  "input_done rnd s = drive_events rnd (s\<lparr>sp_input_complete := True\<rparr>)"

definition on_segment_done :: "(rat \<Rightarrow> rat) \<Rightarrow> int \<Rightarrow> spliter \<Rightarrow> driven" where
  "on_segment_done rnd i s =
     drive_events rnd
       (s\<lparr>sp_done := insert i (sp_done s), sp_flushing := sp_flushing s - {i}, sp_drivers := dict_pop i (sp_drivers s),
          sp_coords := dict_pop i (sp_coords s), sp_group_key := dict_pop i (sp_group_key s),
          sp_ema := dict_pop i (sp_ema s), sp_safety := dict_pop i (sp_safety s)\<rparr>)"

definition spliter_set_duration_ratio :: "(rat \<Rightarrow> rat) \<Rightarrow> pyfloat \<Rightarrow> spliter \<Rightarrow> spliter \<times> (py_error, unit) result" where
  "spliter_set_duration_ratio rnd ratio s =
     (case set_duration_ratio ratio (sp_ratios s) of
        (rc, Inl e) \<Rightarrow> (s\<lparr>sp_ratios := rc\<rparr>, Inl e)
      | (rc, Inr _) \<Rightarrow>
          let s1 = s\<lparr>sp_ratios := rc\<rparr>
          in if sp_safety_ratio s < sp_safety_ratio s1 then tighten_pending_presplit_plans rnd s1 else (s1, Inr ()))"

definition observe_segment ::
  "(rat \<Rightarrow> rat) \<Rightarrow> int \<Rightarrow> int \<Rightarrow> ratio_outcome \<Rightarrow> int option \<Rightarrow> spliter \<Rightarrow> spliter \<times> (py_error, ratio_observation) result" where
  "observe_segment rnd steps tokens outcome segment_idx s =
     (let snapshot = map_option (\<lambda>i. Fin (safety_ratio_for_segment i s)) segment_idx;
          (rc, obs) = observe rnd steps tokens outcome snapshot (sp_ratios s);
          s1 = s\<lparr>sp_ratios := rc\<rparr>
      in if safety_tightened obs
         then (case tighten_pending_presplit_plans rnd s1 of
                 (s2, Inl e) \<Rightarrow> (s2, Inl e)
               | (s2, Inr _) \<Rightarrow> (s2, Inr obs))
         else (s1, Inr obs))"

definition update_ratio :: "(rat \<Rightarrow> rat) \<Rightarrow> int \<Rightarrow> int \<Rightarrow> bool \<Rightarrow> spliter \<Rightarrow> spliter \<times> (py_error, unit) result" where
  "update_ratio rnd steps tokens overflow s =
     (case observe_segment rnd steps tokens (if overflow then KV_OVERFLOW else CODEC_EOS) None s of
        (s', Inl e) \<Rightarrow> (s', Inl e)
      | (s', Inr _) \<Rightarrow> (s', Inr ()))"

definition spliter_reset :: "spliter \<Rightarrow> spliter" where
  "spliter_reset s =
     s\<lparr>sp_pending := [], sp_next_group_key := 0, sp_next_output := 0, sp_input_complete := False, sp_drivers := [],
       sp_next_segment := 0, sp_coords := [], sp_group_key := [], sp_ema := [], sp_safety := [],
       sp_group_next_local := [], sp_group_output := [], sp_flushing := {}, sp_done := {},
       sp_ratios := controller_reset (sp_ratios s)\<rparr>"

section \<open>What driving a segment emits\<close>

definition flush_eos :: action_result where
  "flush_eos = \<lparr>ar_type = AFlushEos, ar_token = - 1\<rparr>"

fun token_actions :: "int \<Rightarrow> int \<times> int \<Rightarrow> bool \<Rightarrow> bool \<Rightarrow> segment_token list \<Rightarrow> segment_action list" where
  "token_actions idx co final fresh [] = []"
| "token_actions idx co final fresh (t # ts) =
     to_action idx (Some t) co final \<lparr>ar_type = (if fresh then APrefill else ADecode), ar_token = token_id t\<rparr>
     # token_actions idx co final False ts"

datatype closing = StillOpen | ByEnd | ByToken segment_token

fun closing_actions :: "int \<Rightarrow> int \<times> int \<Rightarrow> bool \<Rightarrow> closing \<Rightarrow> segment_action list" where
  "closing_actions idx co final StillOpen = []"
| "closing_actions idx co final ByEnd = [to_action idx None co final flush_eos]"
| "closing_actions idx co final (ByToken t) = [to_action idx (Some t) co final flush_eos]"

lemma token_actions_append:
  "token_actions idx co final fresh (ts @ us) =
     token_actions idx co final fresh ts @ token_actions idx co final (fresh \<and> ts = []) us"
  by (induction ts arbitrary: fresh) auto

definition stamp :: "segment_action \<Rightarrow> segment_action" where
  "stamp a = a\<lparr>sa_final := True\<rparr>"

lemma stamp_to_action [simp]: "stamp (to_action idx tok co final r) = to_action idx tok co True r"
  by (simp add: stamp_def to_action_def)

lemma stamp_token_actions [simp]: "map stamp (token_actions idx co final fresh ts) = token_actions idx co True fresh ts"
  by (induction ts arbitrary: fresh) auto

lemma stamp_closing_actions [simp]: "map stamp (closing_actions idx co final cl) = closing_actions idx co True cl"
  by (cases cl) auto

lemma to_action_segment [simp]: "sa_segment (to_action idx tok co final r) = idx"
  by (simp add: to_action_def)

lemma emitted_segment:
  "a \<in> set (token_actions idx co final fresh ts) \<Longrightarrow> sa_segment a = idx"
  "a \<in> set (closing_actions idx co final cl) \<Longrightarrow> sa_segment a = idx"
  by (induction ts arbitrary: fresh) (auto, cases cl, auto)

subsection \<open>The driver of a segment\<close>

text \<open>A driver that can take tokens.\<close>

definition taking :: "split_thresholds \<Rightarrow> driver_ctx \<Rightarrow> driver \<Rightarrow> bool" where
  "taking th c d \<longleftrightarrow>
     d = driver_in (if token_count c = 0 then IDLE else TEXT_INPUTING) c \<and> thresholds c = th \<and> \<not> is_final c \<and>
     0 \<le> token_count c \<and> token_count c < force_split_at th"

definition put_driver :: "int \<Rightarrow> driver \<Rightarrow> spliter \<Rightarrow> spliter" where
  "put_driver idx d s = s\<lparr>sp_drivers := dict_set idx d (sp_drivers s)\<rparr>"

definition put_flushed :: "int \<Rightarrow> driver \<Rightarrow> spliter \<Rightarrow> spliter" where
  "put_flushed idx d s = s\<lparr>sp_drivers := dict_set idx d (sp_drivers s), sp_flushing := insert idx (sp_flushing s)\<rparr>"

lemma taking_counted:
  assumes "taking th c d"
  shows "segment_step (make_event t) (if token_count c = 0 then IDLE else TEXT_INPUTING, c) =
           take_token (if token_count c = 0 then APrefill else ADecode) (make_event t) (counted c)"
  using assms by (auto simp: taking_def make_event_def counted_def)

lemma feed_token:
  fixes t :: segment_token and idx :: int and co :: "int \<times> int" and final :: bool and c :: driver_ctx
  assumes "taking th c d"
  defines "tok \<equiv> token_actions idx co final (token_count c = 0) [t]"
  shows "if segment_full (make_event t) (counted c)
         then \<exists>d'. feed_driver idx (make_event t) (Some t) co final d s =
                Some (d', put_flushed idx d' s, tok @ closing_actions idx co final (ByToken t), True)
         else \<exists>d'. feed_driver idx (make_event t) (Some t) co final d s = Some (d', put_driver idx d' s, tok, False) \<and>
                taking th (counted c) d'"
proof -
  let ?st = "if token_count c = 0 then IDLE else TEXT_INPUTING"
  let ?e = "make_event t"
  have tok: "ev_token ?e = token_id t" by (simp add: make_event_def)
  have d: "d = driver_in ?st c" "\<not> is_final c" "0 \<le> token_count c" "thresholds c = th" using assms(1) by (simp_all add: taking_def)
  have feed: "driver_feed ?e d = (case take_token (if token_count c = 0 then APrefill else ADecode) ?e (counted c) of
      ((s', c'), rs) \<Rightarrow> Some (driver_in s' c', rs))"
    unfolding d(1) using driver_feed_eq [of ?st ?e c] taking_counted [OF assms(1), of t] by (simp split: if_splits)
  show ?thesis
  proof (cases "segment_full ?e (counted c)")
    case True
    then show ?thesis
      by (simp add: feed_driver_def feed take_token_def flushed_def results_to_actions_def flush_action_def tok tok_def
          put_flushed_def flush_eos_def)
  next
    case False
    then have "token_count c + 1 < force_split_at th" using d(4) by (auto simp: segment_full_def counted_def)
    then have "taking th (counted c) (driver_in TEXT_INPUTING (counted c))" using d by (simp add: taking_def counted_def)
    with False show ?thesis
      by (simp add: feed_driver_def feed take_token_def results_to_actions_def flush_action_def tok tok_def put_driver_def)
  qed
qed

lemma feed_end:
  assumes "taking th c d" and "0 < token_count c"
  shows "\<exists>d'. feed_driver idx end_event None co final d s =
     Some (d', put_flushed idx d' s, closing_actions idx co final ByEnd, True)"
proof -
  have d: "d = driver_in TEXT_INPUTING c" using assms by (simp add: taking_def)
  have "driver_feed end_event d = (case flushed AFlushEos (c\<lparr>is_final := True\<rparr>) of ((s', c'), rs) \<Rightarrow> Some (driver_in s' c', rs))"
    unfolding d by (simp add: driver_feed_eq end_event_def)
  then show ?thesis
    by (simp add: feed_driver_def flushed_def results_to_actions_def flush_action_def put_flushed_def flush_eos_def)
qed


subsection \<open>The token loop\<close>

definition release :: "int option \<Rightarrow> spliter \<Rightarrow> spliter" where
  "release key s =
     (case key of
        None \<Rightarrow> s
      | Some k \<Rightarrow> s\<lparr>sp_group_next_local := dict_pop k (sp_group_next_local s), sp_group_output := dict_pop k (sp_group_output s)\<rparr>)"

lemma finalize_exhausted:
  assumes "\<forall>a \<in> set acts. sa_segment a = idx" and "key = None \<or> ex"
  shows "finalize_segment idx co key ex s acts = (release key s, map stamp acts)"
proof -
  have "map (\<lambda>sa. if sa_segment sa = idx then sa\<lparr>sa_final := True\<rparr> else sa) acts = map stamp acts"
    using assms(1) by (auto simp: stamp_def)
  moreover have "(key = None \<or> ex) = True" using assms(2) by simp
  ultimately show ?thesis using assms(2) unfolding finalize_segment_def Let_def release_def by (auto split: option.splits)
qed

lemma close_effect:
  assumes "taking th c d" and "0 < token_count c" and "\<forall>a \<in> set out. sa_segment a = idx"
  shows "\<exists>d'. close_segment idx co key d s out =
     Some (d', release key (put_flushed idx d' s), map stamp (out @ closing_actions idx co (key = None) ByEnd))"
proof -
  obtain d' where "feed_driver idx end_event None co (key = None) d s =
      Some (d', put_flushed idx d' s, closing_actions idx co (key = None) ByEnd, True)" using feed_end [OF assms(1,2)] by blast
  moreover have "\<forall>a \<in> set (out @ closing_actions idx co (key = None) ByEnd). sa_segment a = idx" using assms(3) by auto
  ultimately have "close_segment idx co key d s out =
      Some (d', release key (put_flushed idx d' s), map stamp (out @ closing_actions idx co (key = None) ByEnd))"
    by (simp add: close_segment_def finalize_exhausted)
  then show ?thesis by blast
qed

text \<open>
  The queue a segment is driven from: for a streaming segment any well-formed queue, for a planned
  one the rest of its group under the thresholds of its plan.
\<close>

definition ready :: "int option \<Rightarrow> split_thresholds \<Rightarrow> int \<Rightarrow> pending_token list \<Rightarrow> bool" where
  "ready key th n pts \<longleftrightarrow>
     (case key of
        None \<Rightarrow> wf_pending None pts
      | Some k \<Rightarrow>
          \<exists>plan. th = obey_thresholds plan \<and>
            (if n = 0 then wf_pending None pts \<and> pts \<noteq> [] \<and> pt_key (hd pts) = Some k \<and> pt_plan (hd pts) = Some plan
             else wf_pending (Some (k, plan, n)) pts))"

lemma ready_wf: "ready key th n pts \<Longrightarrow> wf_pending None pts"
  by (auto simp: ready_def intro: wf_pending_reopen split: option.splits if_splits)

lemma ready_planned: "ready (Some k) th n pts \<Longrightarrow> pts \<noteq> [] \<and> pt_key (hd pts) = Some k"
  by (cases pts) (auto simp: ready_def Let_def split: option.splits if_splits)

lemma ready_step:
  assumes "ready key th n (pt # rest)" and "pt_key pt = key" and "0 \<le> n"
  shows "if pt_boundary pt then wf_pending None rest else ready key th (n + 1) rest"
  using assms by (auto simp: ready_def Let_def split: option.splits if_splits)

lemma obey_cap [simp]: "force_split_at (obey_thresholds plan) = plan_cap plan"
  by (simp add: obey_thresholds_def Let_def)

lemma ready_full_boundary:
  assumes "ready (Some k) th n (pt # rest)" and "0 \<le> n" and "taking th c d" and "token_count c = n"
    and "segment_full e (counted c)"
  shows "pt_boundary pt"
proof (rule ccontr)
  assume nb: "\<not> pt_boundary pt"
  have "ready (Some k) th (n + 1) rest" using ready_step [OF assms(1) _ assms(2)] ready_planned [OF assms(1)] nb by simp
  then obtain plan where th: "th = obey_thresholds plan" "wf_pending (Some (k, plan, n + 1)) rest"
    using assms(2) by (auto simp: ready_def)
  then have "n + 1 < plan_cap plan" by (cases rest) (auto simp: Let_def split: option.splits)
  moreover have "thresholds c = th" using assms(3) by (simp add: taking_def)
  ultimately show False
    using assms(4,5) th(1) by (auto simp: segment_full_def counted_def meets_split_threshold_def obey_thresholds_def Let_def)
qed

lemma dict_set_twice [simp]: "dict_set k v (dict_set k w xs) = dict_set k v xs"
proof (cases "k \<in> fst ` set xs")
  case True
  have "k \<in> fst ` set (dict_set k w xs)" by simp
  then show ?thesis using True by (auto simp: dict_set_def)
next
  case False
  then show ?thesis by (auto simp: dict_set_def image_iff intro!: map_idI)
qed

lemma put_driver_again:
  "put_driver idx d' ((put_driver idx d (s\<lparr>sp_pending := ps\<rparr>))\<lparr>sp_pending := qs\<rparr>) = put_driver idx d' (s\<lparr>sp_pending := qs\<rparr>)"
  "put_flushed idx d' ((put_driver idx d (s\<lparr>sp_pending := ps\<rparr>))\<lparr>sp_pending := qs\<rparr>) = put_flushed idx d' (s\<lparr>sp_pending := qs\<rparr>)"
  "put_flushed idx d' (put_driver idx d s) = put_flushed idx d' s"
  by (simp_all add: put_driver_def put_flushed_def)


text \<open>What a run of the token loop does: \<open>k\<close> tokens are taken and the segment is closed or not.\<close>

definition loop_result ::
  "int \<Rightarrow> int \<times> int \<Rightarrow> int option \<Rightarrow> pending_token list \<Rightarrow> spliter \<Rightarrow> segment_action list \<Rightarrow> bool \<Rightarrow> nat \<Rightarrow> driver \<Rightarrow> closing \<Rightarrow>
   driver \<times> spliter \<times> segment_action list \<times> bool" where
  "loop_result idx co key pts s out fresh k d cl =
     (let s' = s\<lparr>sp_pending := drop k pts\<rparr>;
          acts = out @ token_actions idx co (key = None) fresh (map pt_token (take k pts)) @ closing_actions idx co (key = None) cl
      in if cl = StillOpen then (d, put_driver idx d s', acts, False)
         else (d, release key (put_flushed idx d s'), map stamp acts, True))"

definition loop_ok :: "int option \<Rightarrow> split_thresholds \<Rightarrow> int \<Rightarrow> pending_token list \<Rightarrow> nat \<Rightarrow> driver \<Rightarrow> closing \<Rightarrow> bool" where
  "loop_ok key th n pts k d cl \<longleftrightarrow>
     k \<le> length pts \<and> n + int k \<le> force_split_at th \<and> wf_pending None (drop k pts) \<and>
     (case cl of
        StillOpen \<Rightarrow> key = None \<and> (\<exists>c. taking th c d \<and> token_count c = n + int k) \<and>
                     (drop k pts = [] \<or> pt_key (hd (drop k pts)) \<noteq> None)
      | ByEnd \<Rightarrow> 0 < n + int k
      | ByToken t \<Rightarrow> 0 < k \<and> t = pt_token (pts ! (k - 1)))"

lemma token_loop_effect:
  assumes "taking th c d" and "ready key th (token_count c) pts" and "sp_pending s = pts"
    and "\<forall>a \<in> set out. sa_segment a = idx" and "dict_set idx d (sp_drivers s) = sp_drivers s"
  shows "\<exists>k d' cl. token_loop idx co key pts d s out = Some (loop_result idx co key pts s out (token_count c = 0) k d' cl) \<and>
           loop_ok key th (token_count c) pts k d' cl"
  using assms
proof (induction pts arbitrary: c d s out)
  case Nil
  then have "key = None" using ready_planned [of _ th "token_count c" "[]"] by (cases key) auto
  moreover have "put_driver idx d (s\<lparr>sp_pending := []\<rparr>) = s" using Nil.prems(3,5) by (simp add: put_driver_def)
  moreover have "token_count c \<le> force_split_at th" using Nil.prems(1) by (simp add: taking_def)
  ultimately show ?case
    using Nil.prems(1) by (intro exI [of _ 0] exI [of _ d] exI [of _ StillOpen]) (auto simp: loop_result_def loop_ok_def)
next
  case (Cons pt rest)
  let ?n = "token_count c"
  note tk = Cons.prems(1) and rd = Cons.prems(2)
  have n: "0 \<le> ?n" "?n < force_split_at th" using tk by (simp_all add: taking_def)
  have sd: "snd d = c" using tk by (simp add: taking_def)
  have wf: "wf_pending None (pt # rest)" by (rule ready_wf [OF rd])
  have here: "put_driver idx d (s\<lparr>sp_pending := pt # rest\<rparr>) = s" "s\<lparr>sp_pending := pt # rest\<rparr> = s"
    using Cons.prems(3,5) by (simp_all add: put_driver_def)
  consider (other) "pt_key pt \<noteq> key" | (before) "pt_key pt = key" "pt_before pt" "0 < ?n"
    | (feed) "pt_key pt = key" "\<not> (pt_before pt \<and> 0 < ?n)" by blast
  then show ?case
  proof cases
    case other
    then have "key = None" using ready_planned [of _ th ?n "pt # rest"] rd by (cases key) auto
    with other tk n wf here(1) show ?thesis
      by (intro exI [of _ 0] exI [of _ d] exI [of _ StillOpen]) (auto simp: loop_result_def loop_ok_def)
  next
    case before
    obtain d' where "close_segment idx co key d s out =
        Some (d', release key (put_flushed idx d' s), map stamp (out @ closing_actions idx co (key = None) ByEnd))"
      using close_effect [OF tk before(3) Cons.prems(4)] by blast
    with before tk n wf here(2) show ?thesis
      by (intro exI [of _ 0] exI [of _ d'] exI [of _ ByEnd]) (auto simp: loop_result_def loop_ok_def taking_def)
  next
    case feed
    let ?t = "pt_token pt" and ?s = "s\<lparr>sp_pending := rest\<rparr>"
    let ?tok = "token_actions idx co (key = None) (?n = 0) [?t]"
    have tok: "\<forall>a \<in> set (out @ ?tok). sa_segment a = idx" using Cons.prems(4) by auto
    have cnt: "token_count (counted c) = ?n + 1" by (simp add: counted_def)
    note step = ready_step [OF rd feed(1) n(1)]
    have wf': "wf_pending None rest" using step ready_wf by (auto split: if_splits)
    show ?thesis
    proof (cases "segment_full (make_event ?t) (counted c)")
      case True
      obtain d' where fd: "feed_driver idx (make_event ?t) (Some ?t) co (key = None) d ?s =
          Some (d', put_flushed idx d' ?s, ?tok @ closing_actions idx co (key = None) (ByToken ?t), True)"
        using feed_token [OF tk, of ?t idx co "key = None" ?s] True by auto
      have "key = None \<or> pt_boundary pt" using ready_full_boundary [OF _ n(1) tk refl True] rd by (cases key) auto
      then have "finalize_segment idx co key (pt_boundary pt) (put_flushed idx d' ?s)
            (out @ ?tok @ closing_actions idx co (key = None) (ByToken ?t)) =
          (release key (put_flushed idx d' ?s), map stamp (out @ ?tok @ closing_actions idx co (key = None) (ByToken ?t)))"
        using tok by (intro finalize_exhausted) auto
      with feed fd tk n wf' sd show ?thesis
        by (intro exI [of _ 1] exI [of _ d'] exI [of _ "ByToken ?t"]) (auto simp: loop_result_def loop_ok_def taking_def)
    next
      case False
      obtain d' where fd: "feed_driver idx (make_event ?t) (Some ?t) co (key = None) d ?s = Some (d', put_driver idx d' ?s, ?tok, False)"
        and tk': "taking th (counted c) d'"
        using feed_token [OF tk, of ?t idx co "key = None" ?s] False by auto
      show ?thesis
      proof (cases "pt_boundary pt")
        case True
        obtain d'' where "close_segment idx co key d' (put_driver idx d' ?s) (out @ ?tok) =
            Some (d'', release key (put_flushed idx d'' (put_driver idx d' ?s)),
              map stamp ((out @ ?tok) @ closing_actions idx co (key = None) ByEnd))"
          using close_effect [OF tk' _ tok, of co key "put_driver idx d' ?s"] n(1) cnt by fastforce
        with True feed fd n wf' sd show ?thesis
          by (intro exI [of _ 1] exI [of _ d''] exI [of _ ByEnd]) (auto simp: loop_result_def loop_ok_def put_driver_again)
      next
        case nb: False
        have "ready key th (token_count (counted c)) rest" using step nb by (simp add: cnt)
        then obtain k d'' cl where IH: "token_loop idx co key rest d' (put_driver idx d' ?s) (out @ ?tok) =
            Some (loop_result idx co key rest (put_driver idx d' ?s) (out @ ?tok) (token_count (counted c) = 0) k d'' cl)"
          "loop_ok key th (token_count (counted c)) rest k d'' cl"
          using Cons.IH [OF tk' _ _ tok, of "put_driver idx d' ?s"] by (auto simp: put_driver_def)
        have "loop_result idx co key rest (put_driver idx d' ?s) (out @ ?tok) (token_count (counted c) = 0) k d'' cl =
            loop_result idx co key (pt # rest) s out (?n = 0) (Suc k) d'' cl"
          using n(1) by (auto simp: loop_result_def put_driver_again cnt Let_def)
        moreover have "loop_ok key th ?n (pt # rest) (Suc k) d'' cl"
          using IH(2) by (auto simp: loop_ok_def cnt algebra_simps nth_Cons' split: closing.splits)
        ultimately show ?thesis using feed fd nb sd IH(1) by (intro exI [of _ "Suc k"] exI [of _ d''] exI [of _ cl]) auto
      qed
    qed
  qed
qed

subsection \<open>One segment\<close>

definition after_drive :: "int \<Rightarrow> int option \<Rightarrow> nat \<Rightarrow> driver \<Rightarrow> closing \<Rightarrow> spliter \<Rightarrow> spliter" where
  "after_drive idx key k d cl s =
     (let s' = s\<lparr>sp_pending := drop k (sp_pending s)\<rparr>
      in if cl = StillOpen then put_driver idx d s' else release key (put_flushed idx d s'))"

definition segment_actions :: "int \<Rightarrow> bool \<Rightarrow> segment_token list \<Rightarrow> closing \<Rightarrow> segment_action list" where
  "segment_actions idx fresh ts cl = token_actions idx (idx, 0) True fresh ts @ closing_actions idx (idx, 0) True cl"

definition drive_ok :: "int option \<Rightarrow> split_thresholds \<Rightarrow> int \<Rightarrow> nat \<Rightarrow> driver \<Rightarrow> closing \<Rightarrow> spliter \<Rightarrow> bool" where
  "drive_ok key th n k d cl s \<longleftrightarrow>
     k \<le> length (sp_pending s) \<and> 0 < n + int k \<and> n + int k \<le> force_split_at th \<and> wf_pending None (drop k (sp_pending s)) \<and>
     (case cl of
        StillOpen \<Rightarrow> key = None \<and> (\<exists>c. taking th c d \<and> token_count c = n + int k) \<and>
                     drop k (sp_pending s) = [] \<and> \<not> sp_input_complete s
      | ByEnd \<Rightarrow> True
      | ByToken t \<Rightarrow> 0 < k \<and> t = pt_token (sp_pending s ! (k - 1)))"

lemma dict_set_same: "distinct (map fst xs) \<Longrightarrow> map_of xs k = Some v \<Longrightarrow> dict_set k v xs = xs"
proof -
  assume xs: "distinct (map fst xs)" "map_of xs k = Some v"
  have "k \<in> fst ` set xs" using map_of_SomeD [OF xs(2)] by force
  moreover have "v' = v" if "(k, v') \<in> set xs" for v' using xs that by simp
  ultimately show ?thesis by (auto simp: dict_set_def intro!: map_idI) metis
qed

lemma drive_active_effect:
  assumes d: "map_of (sp_drivers s) idx = Some d" "distinct (map fst (sp_drivers s))"
    and co: "map_of (sp_coords s) idx = Some (idx, 0)" and key: "map_of (sp_group_key s) idx = Some key"
    and tk: "taking th c d" and rd: "ready key th (token_count c) (sp_pending s)"
    and some: "0 < token_count c \<or> (sp_pending s \<noteq> [] \<and> pt_key (hd (sp_pending s)) = key)"
  shows "\<exists>k d' cl. drive_active idx s [] = Some (after_drive idx key k d' cl s,
             Inr (segment_actions idx (token_count c = 0) (map pt_token (take k (sp_pending s))) cl)) \<and>
           drive_ok key th (token_count c) k d' cl s"
proof -
  let ?n = "token_count c" and ?pts = "sp_pending s"
  have same: "dict_set idx d (sp_drivers s) = sp_drivers s" by (rule dict_set_same [OF d(2,1)])
  obtain k d' cl where loop: "token_loop idx (idx, 0) key ?pts d s [] = Some (loop_result idx (idx, 0) key ?pts s [] (?n = 0) k d' cl)"
    and ok: "loop_ok key th ?n ?pts k d' cl" using token_loop_effect [OF tk rd refl _ same, of "[]" "(idx, 0)"] by auto
  let ?toks = "map pt_token (take k ?pts)"
  have n: "0 \<le> ?n" using tk by (simp add: taking_def)
  show ?thesis
  proof (cases "cl = StillOpen")
    case False
    then have res: "loop_result idx (idx, 0) key ?pts s [] (?n = 0) k d' cl =
        (d', after_drive idx key k d' cl s, segment_actions idx (?n = 0) ?toks cl, True)"
      by (simp add: loop_result_def after_drive_def segment_actions_def Let_def)
    have "drive_ok key th ?n k d' cl s" using ok False n by (auto simp: loop_ok_def drive_ok_def split: closing.splits)
    moreover have "drive_active idx s [] = Some (after_drive idx key k d' cl s, Inr (segment_actions idx (?n = 0) ?toks cl))"
      using loop res d(1) co key by (simp add: drive_active_def)
    ultimately show ?thesis by blast
  next
    case True
    then have k0: "key = None" using ok by (simp add: loop_ok_def)
    let ?s = "s\<lparr>sp_pending := drop k ?pts\<rparr>"
    obtain c' where c': "taking th c' d'" "token_count c' = ?n + int k" using ok True by (auto simp: loop_ok_def)
    have res: "loop_result idx (idx, 0) key ?pts s [] (?n = 0) k d' cl =
        (d', put_driver idx d' ?s, token_actions idx (idx, 0) True (?n = 0) ?toks, False)"
      using True k0 by (simp add: loop_result_def)
    have pos: "0 < ?n + int k" using some ok True n k0 by (cases k) (auto simp: loop_ok_def)
    let ?more = "(drop k ?pts \<noteq> [] \<and> pt_key (hd (drop k ?pts)) \<noteq> key) \<or> (sp_input_complete s \<and> drop k ?pts = [])"
    have fields: "sp_pending (put_driver idx d' ?s) = drop k ?pts" "sp_input_complete (put_driver idx d' ?s) = sp_input_complete s"
      by (simp_all add: put_driver_def)
    show ?thesis
    proof (cases ?more)
      case False
      then have "drive_ok key th ?n k d' StillOpen s" using ok True pos c' k0 by (auto simp: loop_ok_def drive_ok_def)
      moreover have "drive_active idx s [] = Some (after_drive idx key k d' StillOpen s, Inr (segment_actions idx (?n = 0) ?toks StillOpen))"
        using loop res d(1) co key False fields by (auto simp: drive_active_def after_drive_def segment_actions_def)
      ultimately show ?thesis by blast
    next
      case more: True
      obtain d'' where close: "close_segment idx (idx, 0) key d' (put_driver idx d' ?s) (token_actions idx (idx, 0) True (?n = 0) ?toks) =
          Some (d'', release key (put_flushed idx d'' (put_driver idx d' ?s)),
            map stamp (token_actions idx (idx, 0) True (?n = 0) ?toks @ closing_actions idx (idx, 0) (key = None) ByEnd))"
        using close_effect [OF c'(1), of "token_actions idx (idx, 0) True (?n = 0) ?toks" idx "(idx, 0)" key "put_driver idx d' ?s"]
          c'(2) pos emitted_segment(1) by fastforce
      have "drive_active idx s [] = Some (after_drive idx key k d'' ByEnd s, Inr (segment_actions idx (?n = 0) ?toks ByEnd))"
        using loop res d(1) co key more fields close
        by (auto simp: drive_active_def after_drive_def segment_actions_def put_driver_again)
      moreover have "drive_ok key th ?n k d'' ByEnd s" using ok True pos by (auto simp: loop_ok_def drive_ok_def)
      ultimately show ?thesis by blast
    qed
  qed
qed

section \<open>The invariant of the orchestrator\<close>

definition live :: "spliter \<Rightarrow> int set" where
  "live s = {i. 0 \<le> i \<and> i < sp_next_segment s \<and> i \<notin> sp_flushing s \<and> i \<notin> sp_done s}"

text \<open>The segment that is taking tokens: a streaming segment, with its driver within the capacity.\<close>

definition taking_segment :: "int \<Rightarrow> spliter \<Rightarrow> int \<Rightarrow> int \<Rightarrow> bool" where
  "taking_segment cap s i n \<longleftrightarrow>
     (\<exists>th c d. map_of (sp_drivers s) i = Some d \<and> taking th c d \<and> token_count c = n \<and> 0 < n \<and> force_split_at th \<le> cap \<and>
        map_of (sp_coords s) i = Some (i, 0) \<and> map_of (sp_group_key s) i = Some None)"

definition segments_ok :: "spliter \<Rightarrow> bool" where
  "segments_ok s \<longleftrightarrow>
     0 \<le> sp_next_segment s \<and> sp_next_output s = sp_next_segment s \<and> live s \<subseteq> {sp_next_segment s - 1} \<and>
     sp_flushing s \<subseteq> {0..<sp_next_segment s} \<and> sp_done s \<subseteq> {0..<sp_next_segment s} \<and>
     distinct (map fst (sp_drivers s)) \<and> fst ` set (sp_drivers s) = {0..<sp_next_segment s} - sp_done s \<and>
     active_segment_count s \<le> max 0 (sp_max_concurrent s)"

definition queue_ok :: "int \<Rightarrow> spliter \<Rightarrow> bool" where
  "queue_ok cap s \<longleftrightarrow>
     wf_pending None (sp_pending s) \<and> plans_within cap (sp_pending s) \<and> sp_group_next_local s = [] \<and> sp_group_output s = []"

text \<open>Thresholds can be computed, and the capacity is at most \<open>cap\<close>.\<close>

definition budget_ok :: "(rat \<Rightarrow> rat) \<Rightarrow> int \<Rightarrow> spliter \<Rightarrow> bool" where
  "budget_ok rnd cap s \<longleftrightarrow> (\<exists>th. make_thresholds rnd s = Inr th \<and> force_split_at th \<le> cap)"

text \<open>The segments opened so far: their tokens and how they were closed.\<close>

type_synonym history = "(segment_token list \<times> closing) list"

definition history_ok :: "int \<Rightarrow> history \<Rightarrow> spliter \<Rightarrow> bool" where
  "history_ok cap segs s \<longleftrightarrow>
     int (length segs) = sp_next_segment s \<and>
     (\<forall>(ts, cl) \<in> set segs. ts \<noteq> [] \<and> int (length ts) \<le> cap \<and> (\<forall>t. cl = ByToken t \<longrightarrow> t = last ts)) \<and>
     (sp_next_segment s - 1 \<in> live s \<longrightarrow>
        snd (last segs) = StillOpen \<and> taking_segment cap s (sp_next_segment s - 1) (int (length (fst (last segs)))))"

fun render :: "int \<Rightarrow> history \<Rightarrow> segment_action list" where
  "render i [] = []"
| "render i ((ts, cl) # segs) = segment_actions i True ts cl @ render (i + 1) segs"

definition spliter_ok :: "(rat \<Rightarrow> rat) \<Rightarrow> int \<Rightarrow> history \<Rightarrow> spliter \<Rightarrow> bool" where
  "spliter_ok rnd cap segs s \<longleftrightarrow> segments_ok s \<and> queue_ok cap s \<and> budget_ok rnd cap s \<and> history_ok cap segs s"

lemma render_append: "render i (xs @ ys) = render i xs @ render (i + int (length xs)) ys"
  by (induction xs arbitrary: i) (auto simp: algebra_simps)

lemma segment_actions_more:
  "ts \<noteq> [] \<Longrightarrow> segment_actions i True (ts @ us) cl = segment_actions i True ts StillOpen @ segment_actions i False us cl"
  by (simp add: segment_actions_def token_actions_append)

lemma get_active_live:
  assumes "0 \<le> sp_next_segment s" and "live s \<subseteq> {sp_next_segment s - 1}"
  shows "get_active_driver_idx s = (if sp_next_segment s - 1 \<in> live s then Some (sp_next_segment s - 1) else None)"
proof -
  let ?n = "sp_next_segment s"
  have notin: "List.find (\<lambda>i. i \<notin> sp_flushing s \<and> i \<notin> sp_done s) (rev [0..?n - 2]) = None"
    using assms(2) by (auto simp: find_None_iff live_def)
  show ?thesis
  proof (cases "?n = 0")
    case True
    then show ?thesis by (simp add: get_active_driver_idx_def live_def)
  next
    case False
    then have "rev [0..?n - 1] = (?n - 1) # rev [0..?n - 2]" using assms(1) by (simp add: upto_rec2)
    then show ?thesis using notin assms(1) False by (simp add: get_active_driver_idx_def live_def)
  qed
qed

lemma make_thresholds_cap: "make_thresholds rnd s = Inr th \<Longrightarrow> 1 \<le> force_split_at th"
  unfolding make_thresholds_def by (erule compute_thresholds_Inr)

subsection \<open>Driving keeps the invariant\<close>

text \<open>The part of the state that driving never changes.\<close>

definition static :: "spliter \<Rightarrow> int \<times> int \<times> int \<times> int \<times> ratio_controller \<times> pyfloat \<times> pyfloat \<times> pyfloat" where
  "static s = (sp_engine_max s, sp_prefill_len s, sp_safety_margin s, sp_max_concurrent s, sp_ratios s,
     sp_l1_cap s, sp_l2_cap s, sp_l3_cap s)"

lemma after_drive_fields [simp]:
  "static (after_drive idx key k d cl s) = static s"
  "sp_pending (after_drive idx key k d cl s) = drop k (sp_pending s)"
  "sp_drivers (after_drive idx key k d cl s) = dict_set idx d (sp_drivers s)"
  "sp_flushing (after_drive idx key k d cl s) = (if cl = StillOpen then sp_flushing s else insert idx (sp_flushing s))"
  "sp_next_segment (after_drive idx key k d cl s) = sp_next_segment s"
  "sp_next_output (after_drive idx key k d cl s) = sp_next_output s"
  "sp_done (after_drive idx key k d cl s) = sp_done s"
  "sp_coords (after_drive idx key k d cl s) = sp_coords s"
  "sp_group_key (after_drive idx key k d cl s) = sp_group_key s"
  "sp_max_concurrent (after_drive idx key k d cl s) = sp_max_concurrent s"
  "sp_input_complete (after_drive idx key k d cl s) = sp_input_complete s"
  "sp_ratios (after_drive idx key k d cl s) = sp_ratios s"
  "make_thresholds rnd (after_drive idx key k d cl s) = make_thresholds rnd s"
  "sp_group_next_local (after_drive idx key k d cl s) =
     (case key of None \<Rightarrow> sp_group_next_local s
      | Some g \<Rightarrow> if cl = StillOpen then sp_group_next_local s else dict_pop g (sp_group_next_local s))"
  "sp_group_output (after_drive idx key k d cl s) =
     (case key of None \<Rightarrow> sp_group_output s | Some g \<Rightarrow> if cl = StillOpen then sp_group_output s else dict_pop g (sp_group_output s))"
  by (auto simp: after_drive_def put_driver_def put_flushed_def release_def make_thresholds_def sp_safety_ratio_def static_def Let_def
      split: option.splits)

text \<open>A state in which segment \<open>idx\<close>, the latest one, is being driven.\<close>

definition driving :: "(rat \<Rightarrow> rat) \<Rightarrow> int \<Rightarrow> int \<Rightarrow> int option \<Rightarrow> spliter \<Rightarrow> bool" where
  "driving rnd cap idx key s \<longleftrightarrow>
     sp_next_segment s = idx + 1 \<and> 0 \<le> idx \<and> sp_next_output s = sp_next_segment s \<and> live s = {idx} \<and>
     sp_flushing s \<subseteq> {0..<sp_next_segment s} \<and> sp_done s \<subseteq> {0..<sp_next_segment s} \<and>
     distinct (map fst (sp_drivers s)) \<and> fst ` set (sp_drivers s) = {0..<sp_next_segment s} - sp_done s \<and>
     active_segment_count s \<le> max 0 (sp_max_concurrent s) \<and> plans_within cap (sp_pending s) \<and> budget_ok rnd cap s \<and>
     map_of (sp_coords s) idx = Some (idx, 0) \<and> map_of (sp_group_key s) idx = Some key \<and>
     sp_group_next_local s = [] \<and> (case key of None \<Rightarrow> sp_group_output s = [] | Some k \<Rightarrow> \<exists>g. sp_group_output s = [(k, g)])"

lemma plans_within_drop: "plans_within cap xs \<Longrightarrow> plans_within cap (drop k xs)"
  by (auto simp: plans_within_def dest: in_set_dropD)

lemma after_drive_ok:
  assumes "driving rnd cap idx key s" and "drive_ok key th n k d cl s" and "force_split_at th \<le> cap"
  defines "s' \<equiv> after_drive idx key k d cl s"
  shows "segments_ok s' \<and> queue_ok cap s' \<and> budget_ok rnd cap s' \<and> live s' = (if cl = StillOpen then {idx} else {}) \<and>
         (cl = StillOpen \<longrightarrow> taking_segment cap s' idx (n + int k))"
proof -
  have idx: "idx \<in> live s" "idx \<in> fst ` set (sp_drivers s)" using assms(1) by (auto simp: driving_def live_def)
  have live: "live s' = (if cl = StillOpen then {idx} else {})"
    using assms(1) unfolding s'_def driving_def live_def by auto
  have len: "length (sp_drivers s') = length (sp_drivers s)" using idx(2) by (simp add: s'_def dict_set_length)
  have seg: "segments_ok s'"
    using assms(1) live len idx(2) by (auto simp: segments_ok_def driving_def s'_def active_segment_count_def)
  have "key \<noteq> None \<Longrightarrow> cl \<noteq> StillOpen" using assms(2) by (auto simp: drive_ok_def)
  then have q: "queue_ok cap s'"
    using assms(1,2) plans_within_drop [of cap "sp_pending s" k]
    by (auto simp: queue_ok_def s'_def driving_def drive_ok_def dict_pop_def split: option.splits)
  have b: "budget_ok rnd cap s'" using assms(1) by (simp add: budget_ok_def driving_def s'_def)
  have "taking_segment cap s' idx (n + int k)" if o: "cl = StillOpen"
  proof -
    obtain c where "taking th c d" "token_count c = n + int k" "key = None" "0 < n + int k"
      using assms(2) o by (auto simp: drive_ok_def)
    with assms(1,3) show ?thesis unfolding taking_segment_def s'_def driving_def by fastforce
  qed
  with seg q b live show ?thesis by blast
qed

lemma open_effect:
  assumes ok: "segments_ok s" "queue_ok cap s" "budget_ok rnd cap s" and idle: "live s = {}"
    and p: "sp_pending s = head # rest" and room: "active_segment_count s < sp_max_concurrent s"
  defines "idx \<equiv> sp_next_segment s"
  shows "\<exists>s' th c d. open_segment rnd head s = Some (s', Inr (idx, [])) \<and> driving rnd cap idx (pt_key head) s' \<and>
           map_of (sp_drivers s') idx = Some d \<and> taking th c d \<and> token_count c = 0 \<and> force_split_at th \<le> cap \<and>
           ready (pt_key head) th 0 (sp_pending s') \<and> sp_pending s' = sp_pending s \<and>
           sp_input_complete s' = sp_input_complete s \<and> sp_done s' = sp_done s \<and> static s' = static s"
proof -
  obtain th0 where th0: "make_thresholds rnd s = Inr th0" "force_split_at th0 \<le> cap" using ok(3) by (auto simp: budget_ok_def)
  have wf: "wf_pending None (head # rest)" using ok(2) p by (simp add: queue_ok_def)
  obtain th saf where th: "segment_thresholds rnd head s = Inr (th, saf)" "force_split_at th \<le> cap" "1 \<le> force_split_at th"
    and rd: "ready (pt_key head) th 0 (head # rest)"
  proof (cases "pt_key head")
    case None
    with th0 wf make_thresholds_cap [OF th0(1)] that [of th0 "sp_safety_ratio s"] show thesis
      by (simp add: segment_thresholds_def ready_def del: wf_pending.simps)
  next
    case (Some k)
    with wf obtain plan where plan: "pt_plan head = Some plan" "0 < plan_cap plan" by (auto simp: Let_def split: option.splits)
    have "plan_cap plan \<le> cap" using ok(2) p plan(1) by (simp add: queue_ok_def plans_within_def)
    with Some plan wf that [of "obey_thresholds plan" "plan_safety plan"] show thesis
      by (simp add: segment_thresholds_def ready_def del: wf_pending.simps)
  qed
  define c where "c = \<lparr>thresholds = th, is_final = False, token_count = 0\<rparr>"
  have tk: "taking th c (driver_in IDLE c)" using th(3) by (simp add: taking_def c_def)
  have feed: "driver_feed start_event (new_driver th) = Some (driver_in IDLE c, [])"
    unfolding new_driver_in c_def by (simp add: driver_feed_eq start_event_def)
  have keys: "idx \<notin> fst ` set (sp_drivers s)" using ok(1) by (auto simp: segments_ok_def idx_def)
  obtain s' where s': "open_segment rnd head s = Some (s', Inr (idx, []))"
    and f: "sp_pending s' = sp_pending s" "sp_drivers s' = dict_set idx (driver_in IDLE c) (sp_drivers s)"
      "sp_flushing s' = sp_flushing s" "sp_next_segment s' = idx + 1" "sp_next_output s' = idx + 1" "sp_done s' = sp_done s"
      "map_of (sp_coords s') idx = Some (idx, 0)" "map_of (sp_group_key s') idx = Some (pt_key head)"
      "sp_max_concurrent s' = sp_max_concurrent s" "sp_input_complete s' = sp_input_complete s" "static s' = static s"
      "make_thresholds rnd s' = make_thresholds rnd s" "sp_group_next_local s' = []"
      "sp_group_output s' = (case pt_key head of None \<Rightarrow> [] | Some k \<Rightarrow> [(k, idx)])"
    using ok(1,2)
    by (cases "pt_key head")
      (simp_all add: open_segment_def th(1) create_driver_def assign_coords_def feed_driver_def feed results_to_actions_def
        idx_def segments_ok_def queue_ok_def Let_def make_thresholds_def sp_safety_ratio_def static_def dict_set_def [of _ _ "[]"])
  have "live s' = {idx}"
    using idle ok(1) unfolding live_def f segments_ok_def idx_def by fastforce
  then have "driving rnd cap idx (pt_key head) s'"
    using ok room keys th0 unfolding driving_def segments_ok_def queue_ok_def budget_ok_def active_segment_count_def f
    by (auto simp: dict_set_length idx_def split: option.splits)
  with s' tk th(2) rd f p show ?thesis unfolding f(2)
    by (intro exI [of _ s'] exI [of _ th] exI [of _ c] exI [of _ "driver_in IDLE c"]) (simp add: f c_def)
qed

subsection \<open>Driving extends the history\<close>

definition good_segment :: "int \<Rightarrow> segment_token list \<times> closing \<Rightarrow> bool" where
  "good_segment cap seg \<longleftrightarrow>
     fst seg \<noteq> [] \<and> int (length (fst seg)) \<le> cap \<and> (\<forall>t. snd seg = ByToken t \<longrightarrow> t = last (fst seg))"

lemma history_ok_good:
  "history_ok cap segs s \<longleftrightarrow>
     int (length segs) = sp_next_segment s \<and> list_all (good_segment cap) segs \<and>
     (sp_next_segment s - 1 \<in> live s \<longrightarrow>
        snd (last segs) = StillOpen \<and> taking_segment cap s (sp_next_segment s - 1) (int (length (fst (last segs)))))"
  by (auto simp: history_ok_def good_segment_def list_all_iff)

definition spoken :: "history \<Rightarrow> segment_token list" where
  "spoken segs = concat (map fst segs)"

definition queued :: "spliter \<Rightarrow> segment_token list" where
  "queued s = map pt_token (sp_pending s)"

lemma driven_history:
  assumes drv: "driving rnd cap idx key s" and ok: "drive_ok key th (int (length ts)) k d cl s" and cap: "force_split_at th \<le> cap"
    and front: "int (length front) = idx" "list_all (good_segment cap) front"
  defines "new \<equiv> map pt_token (take k (sp_pending s))" and "s' \<equiv> after_drive idx key k d cl s"
  shows "spliter_ok rnd cap (front @ [(ts @ new, cl)]) s' \<and>
         render 0 (front @ [(ts @ new, cl)]) =
           render 0 front @ (if ts = [] then [] else segment_actions idx True ts StillOpen) @ segment_actions idx (ts = []) new cl \<and>
         new @ queued s' = queued s"
proof -
  note aft = after_drive_ok [OF drv ok cap, folded s'_def]
  have len: "int (length (ts @ new)) = int (length ts) + int k" using ok by (simp add: new_def drive_ok_def min_def)
  have "good_segment cap (ts @ new, cl)"
  proof -
    have "t = last (ts @ new)" if "cl = ByToken t" for t
    proof -
      have k: "0 < k" "k \<le> length (sp_pending s)" "t = pt_token (sp_pending s ! (k - 1))" using ok that by (auto simp: drive_ok_def)
      then have ne: "take k (sp_pending s) \<noteq> []" by auto
      then have "last new = pt_token (last (take k (sp_pending s)))" by (simp add: new_def last_map)
      also have "last (take k (sp_pending s)) = sp_pending s ! (k - 1)" using k ne by (simp add: last_conv_nth min_def)
      finally have "new \<noteq> []" "last new = t" using k(3) ne by (simp_all add: new_def)
      then show ?thesis by simp
    qed
    moreover have "ts @ new \<noteq> []" "int (length (ts @ new)) \<le> cap" using len ok cap by (auto simp: drive_ok_def)
    ultimately show ?thesis by (simp add: good_segment_def)
  qed
  moreover have "sp_next_segment s' = idx + 1" using drv by (simp add: s'_def driving_def)
  ultimately have "history_ok cap (front @ [(ts @ new, cl)]) s'"
    using front aft len by (auto simp: history_ok_good)
  then have "spliter_ok rnd cap (front @ [(ts @ new, cl)]) s'" using aft by (simp add: spliter_ok_def)
  moreover have "render 0 (front @ [(ts @ new, cl)]) =
      render 0 front @ (if ts = [] then [] else segment_actions idx True ts StillOpen) @ segment_actions idx (ts = []) new cl"
    using front(1) segment_actions_more [of ts idx new cl] by (simp add: render_append)
  moreover have "new @ queued s' = queued s"
    by (simp add: new_def queued_def s'_def flip: map_append)
  ultimately show ?thesis by blast
qed

definition settled :: "spliter \<Rightarrow> bool" where
  "settled s \<longleftrightarrow>
     (if live s = {} then sp_pending s = [] \<or> sp_max_concurrent s \<le> active_segment_count s
      else sp_pending s = [] \<and> \<not> sp_input_complete s)"

definition work :: "spliter \<Rightarrow> nat" where
  "work s = 2 * length (sp_pending s) + (if live s = {} then 0 else 1)"

text \<open>From one state and history to a later one, with the actions emitted in between.\<close>

definition advances :: "(rat \<Rightarrow> rat) \<Rightarrow> int \<Rightarrow> history \<Rightarrow> spliter \<Rightarrow> segment_action list \<Rightarrow> history \<Rightarrow> spliter \<Rightarrow> bool" where
  "advances rnd cap segs s acts segs' s' \<longleftrightarrow>
     spliter_ok rnd cap segs' s' \<and> render 0 segs' = render 0 segs @ acts \<and> spoken segs' @ queued s' = spoken segs @ queued s \<and>
     sp_input_complete s' = sp_input_complete s \<and> sp_done s' = sp_done s \<and> static s' = static s"

lemma advances_trans:
  "advances rnd cap segs s a segs1 s1 \<Longrightarrow> advances rnd cap segs1 s1 b segs2 s2 \<Longrightarrow> advances rnd cap segs s (a @ b) segs2 s2"
  by (auto simp: advances_def)

lemma live_last:
  assumes "segments_ok s" and "live s \<noteq> {}"
  shows "live s = {sp_next_segment s - 1}" "1 \<le> sp_next_segment s"
  using assms by (auto simp: segments_ok_def live_def)

lemma segment_actions_Nil: "segment_actions i b ts cl = [] \<longleftrightarrow> ts = [] \<and> cl = StillOpen"
  by (cases ts; cases cl) (auto simp: segment_actions_def)

lemma drive_one_active:
  assumes ok: "spliter_ok rnd cap segs s" and lv: "live s \<noteq> {}"
  shows "\<exists>s' acts segs'. drive_one_segment rnd s = Some (s', Inr acts) \<and> advances rnd cap segs s acts segs' s' \<and>
           (if acts = [] then settled s' else work s' < work s)"
proof -
  let ?i = "sp_next_segment s - 1"
  have seg: "segments_ok s" "queue_ok cap s" "budget_ok rnd cap s" "history_ok cap segs s" using ok by (auto simp: spliter_ok_def)
  note l = live_last [OF seg(1) lv]
  then have act: "get_active_driver_idx s = Some ?i"
    using get_active_live [of s] seg(1) by (simp add: segments_ok_def)
  have hist: "int (length segs) = ?i + 1" "list_all (good_segment cap) segs" "snd (last segs) = StillOpen"
    "taking_segment cap s ?i (int (length (fst (last segs))))" using seg(4) l by (auto simp: history_ok_good)
  have "segs \<noteq> []" using hist(1) l(2) by auto
  define front ts where "front = butlast segs" and "ts = fst (last segs)"
  have segs: "segs = front @ [(ts, StillOpen)]"
    using append_butlast_last_id [OF \<open>segs \<noteq> []\<close>] hist(3) unfolding front_def ts_def by (metis prod.collapse)
  have front: "int (length front) = ?i" "list_all (good_segment cap) front" "ts \<noteq> []"
    using hist(1,2) by (auto simp: segs good_segment_def)
  obtain th c d where d: "map_of (sp_drivers s) ?i = Some d" "taking th c d" "token_count c = int (length ts)"
    "force_split_at th \<le> cap" "map_of (sp_coords s) ?i = Some (?i, 0)" "map_of (sp_group_key s) ?i = Some None"
    using hist(4) by (auto simp: taking_segment_def segs)
  have drv: "driving rnd cap ?i None s"
    using seg l d by (auto simp: driving_def segments_ok_def queue_ok_def)
  have pos: "0 < token_count c" using d(3) front(3) by simp
  have "ready None th (token_count c) (sp_pending s)" using seg(2) by (simp add: ready_def queue_ok_def)
  moreover have "distinct (map fst (sp_drivers s))" using seg(1) by (simp add: segments_ok_def)
  ultimately obtain k d' cl where dr: "drive_active ?i s [] = Some (after_drive ?i None k d' cl s,
        Inr (segment_actions ?i (token_count c = 0) (map pt_token (take k (sp_pending s))) cl))"
    and dok: "drive_ok None th (token_count c) k d' cl s"
    using drive_active_effect [OF d(1) _ d(5,6,2)] pos by blast
  let ?s = "after_drive ?i None k d' cl s" and ?new = "map pt_token (take k (sp_pending s))"
  let ?acts = "segment_actions ?i False ?new cl" and ?segs = "front @ [(ts @ ?new, cl)]"
  note h = driven_history [OF drv dok [unfolded d(3)] d(4) front(1,2)]
  have "advances rnd cap segs s ?acts ?segs ?s"
    using h front(3) front(1) by (simp add: advances_def segs render_append spoken_def)
  moreover have "drive_one_segment rnd s = Some (?s, Inr ?acts)" using act dr pos by (simp add: drive_one_segment_def)
  moreover have "if ?acts = [] then settled ?s else work ?s < work s"
  proof -
    note a = after_drive_ok [OF drv dok d(4)]
    have k: "k \<le> length (sp_pending s)" using dok by (simp add: drive_ok_def)
    show ?thesis
    proof (cases "cl = StillOpen")
      case True
      then have "drop k (sp_pending s) = []" "\<not> sp_input_complete s" using dok by (auto simp: drive_ok_def)
      with True a l(1) k show ?thesis by (auto simp: settled_def work_def segment_actions_Nil)
    next
      case False
      with a lv show ?thesis by (auto simp: settled_def work_def segment_actions_Nil)
    qed
  qed
  ultimately show ?thesis by blast
qed

lemma drive_one_idle:
  assumes ok: "spliter_ok rnd cap segs s" and lv: "live s = {}"
  shows "\<exists>s' acts segs'. drive_one_segment rnd s = Some (s', Inr acts) \<and> advances rnd cap segs s acts segs' s' \<and>
           (if acts = [] then settled s' else work s' < work s)"
proof -
  have seg: "segments_ok s" "queue_ok cap s" "budget_ok rnd cap s" "history_ok cap segs s" using ok by (auto simp: spliter_ok_def)
  have act: "get_active_driver_idx s = None" using get_active_live [of s] seg(1) lv by (simp add: segments_ok_def)
  show ?thesis
  proof (cases "sp_pending s = [] \<or> sp_max_concurrent s \<le> active_segment_count s")
    case True
    then have "drive_one_segment rnd s = Some (s, Inr [])" using act by (simp add: drive_one_segment_def)
    moreover have "settled s" using True lv by (auto simp: settled_def)
    ultimately show ?thesis using ok by (intro exI [of _ s] exI [of _ "[]"] exI [of _ segs]) (simp add: advances_def)
  next
    case False
    then obtain head rest where p: "sp_pending s = head # rest" by (cases "sp_pending s") auto
    let ?i = "sp_next_segment s"
    obtain s1 th c d where o: "open_segment rnd head s = Some (s1, Inr (?i, []))" "driving rnd cap ?i (pt_key head) s1"
      "map_of (sp_drivers s1) ?i = Some d" "taking th c d" "token_count c = 0" "force_split_at th \<le> cap"
      "ready (pt_key head) th 0 (sp_pending s1)" and f: "sp_pending s1 = sp_pending s"
      "sp_input_complete s1 = sp_input_complete s" "sp_done s1 = sp_done s" "static s1 = static s"
      using open_effect [OF seg(1-3) lv p] False by auto
    have "distinct (map fst (sp_drivers s1))" "map_of (sp_coords s1) ?i = Some (?i, 0)"
      "map_of (sp_group_key s1) ?i = Some (pt_key head)" using o(2) by (auto simp: driving_def)
    then obtain k d' cl where dr: "drive_active ?i s1 [] = Some (after_drive ?i (pt_key head) k d' cl s1,
          Inr (segment_actions ?i (token_count c = 0) (map pt_token (take k (sp_pending s1))) cl))"
      and dok: "drive_ok (pt_key head) th (token_count c) k d' cl s1"
      using drive_active_effect [OF o(3) _ _ _ o(4)] o(5,7) p f(1) by (metis list.sel(1) list.distinct(1))
    let ?s = "after_drive ?i (pt_key head) k d' cl s1" and ?new = "map pt_token (take k (sp_pending s1))"
    let ?acts = "segment_actions ?i True ?new cl" and ?segs = "segs @ [(?new, cl)]"
    have dok': "drive_ok (pt_key head) th (int (length ([] :: segment_token list))) k d' cl s1" using dok o(5) by simp
    have front: "int (length segs) = ?i" "list_all (good_segment cap) segs" using seg(4) by (auto simp: history_ok_good)
    note h = driven_history [OF o(2) dok' o(6) front]
    have "advances rnd cap segs s ?acts ?segs ?s"
      using h f by (auto simp: advances_def spoken_def queued_def)
    moreover have "drive_one_segment rnd s = Some (?s, Inr ?acts)"
      using act dr o(1,5) p False by (simp add: drive_one_segment_def)
    moreover have "?acts \<noteq> [] \<and> work ?s < work s"
    proof -
      have k: "0 < k" "k \<le> length (sp_pending s)" using dok' f(1) by (auto simp: drive_ok_def)
      then have "?new \<noteq> []" using f(1) p by auto
      moreover have "work ?s < work s"
      proof -
        have "work ?s \<le> 2 * length (drop k (sp_pending s)) + 1" by (simp add: work_def f)
        moreover have "2 * length (drop k (sp_pending s)) + 1 < 2 * length (sp_pending s)" using k by simp
        ultimately show ?thesis by (simp add: work_def)
      qed
      ultimately show ?thesis by (simp add: segment_actions_Nil)
    qed
    ultimately show ?thesis by (metis (no_types))
  qed
qed

lemma drive_events_effect:
  assumes "spliter_ok rnd cap segs s"
  shows "\<exists>s' acts segs'. drive_events rnd s = Some (s', Inr acts) \<and> advances rnd cap segs s acts segs' s' \<and> settled s'"
  using assms
proof (induction "work s" arbitrary: s segs rule: less_induct)
  case less
  obtain s1 acts segs1 where one: "drive_one_segment rnd s = Some (s1, Inr acts)" "advances rnd cap segs s acts segs1 s1"
    "if acts = [] then settled s1 else work s1 < work s"
    using drive_one_active [OF less.prems] drive_one_idle [OF less.prems] by blast
  show ?case
  proof (cases "acts = []")
    case True
    with one show ?thesis by (subst drive_events.simps) auto
  next
    case False
    have "spliter_ok rnd cap segs1 s1" using one(2) by (simp add: advances_def)
    then obtain s2 rest segs2 where more: "drive_events rnd s1 = Some (s2, Inr rest)" "advances rnd cap segs1 s1 rest segs2 s2" "settled s2"
      using less.hyps [of s1 segs1] one(3) False by auto
    have "drive_events rnd s = Some (s2, Inr (acts @ rest))"
      using one(1) False more(1) by (subst drive_events.simps) simp
    with advances_trans [OF one(2) more(2)] more(3) show ?thesis by blast
  qed
qed

section \<open>The operations\<close>

subsection \<open>A budget that holds for every ratio\<close>

text \<open>
  A configuration under which thresholds can always be computed: even at the largest ratio the
  usable KV budget holds one token. \<open>rnd\<close> rounds as float arithmetic does on these values.
\<close>

definition config_ok :: "(rat \<Rightarrow> rat) \<Rightarrow> spliter \<Rightarrow> bool" where
  "config_ok rnd s \<longleftrightarrow>
     sound_rounding rnd \<and> controller_ok (sp_ratios s) \<and> 0 \<le> sp_safety_margin s \<and>
     (case (sp_l1_cap s, sp_l2_cap s, sp_l3_cap s) of
        (Fin q1, Fin q2, Fin q3) \<Rightarrow> 0 < q1 \<and> q1 \<le> q2 \<and> q2 \<le> q3 \<and> q3 \<le> 1
      | _ \<Rightarrow> False) \<and>
     max_ratio (sp_ratios s) \<le> of_int (sp_engine_max s - sp_prefill_len s - sp_safety_margin s) \<and>
     sp_engine_max s - sp_prefill_len s - sp_safety_margin s \<le> 2 ^ 53"

lemma config_thresholds:
  assumes "config_ok rnd s"
  shows "\<exists>th. make_thresholds rnd s = Inr th"
proof -
  let ?u = "sp_engine_max s - sp_prefill_len s - sp_safety_margin s" and ?r = "sp_safety_ratio s"
  have ratio: "1 \<le> ?r" "?r \<le> of_int ?u" using assms by (auto simp: config_ok_def controller_ok_def sp_safety_ratio_def)
  have "1 \<le> of_int ?u / ?r" using ratio by (simp add: le_divide_eq)
  moreover have "mono rnd" and exact: "\<forall>n. \<bar>n\<bar> \<le> 2 ^ 53 \<longrightarrow> rnd (of_int n) = of_int n"
    using assms by (auto simp: config_ok_def sound_rounding_def)
  moreover have "rnd 1 = 1" using spec [OF exact, of 1] by simp
  ultimately have "1 \<le> rnd (of_int ?u / ?r)" by (metis monoD)
  then have "\<not> \<lfloor>rnd (of_int ?u / ?r)\<rfloor> < 1" by (simp add: le_floor_iff not_less)
  with ratio(1) assms show ?thesis
    by (auto simp: make_thresholds_def compute_thresholds_def config_ok_def Let_def split: pyfloat.splits)
qed

lemma budget_tighten:
  assumes "budget_ok rnd cap s" and "config_ok rnd (s\<lparr>sp_ratios := rc\<rparr>)" and "sp_safety_ratio s \<le> safety_ratio rc"
  shows "budget_ok rnd cap (s\<lparr>sp_ratios := rc\<rparr>)"
proof -
  let ?s = "s\<lparr>sp_ratios := rc\<rparr>"
  obtain th where th: "make_thresholds rnd s = Inr th" "force_split_at th \<le> cap" using assms(1) by (auto simp: budget_ok_def)
  obtain th' where th': "make_thresholds rnd ?s = Inr th'" using config_thresholds [OF assms(2)] by blast
  have "sound_rounding rnd" "sp_engine_max s - sp_prefill_len s - sp_safety_margin s \<le> 2 ^ 53"
    using assms(2) by (auto simp: config_ok_def)
  from thresholds_ordered [OF this(1) th(1) [unfolded make_thresholds_def] this(2)] th' assms(3)
  have "force_split_at th' \<le> force_split_at th" by (auto simp: make_thresholds_def sp_safety_ratio_def)
  with th th' show ?thesis by (auto simp: budget_ok_def)
qed

lemma ratio_exec_bounds [simp]:
  "max_ratio (fst (set_duration_ratio v r)) = max_ratio r"
  "max_ratio (fst (observe rnd a t out snap r)) = max_ratio r"
  by (auto simp: set_duration_ratio_def observe_def Let_def split: pyfloat.splits)

lemma config_ratio:
  assumes "config_ok rnd s" and "rc = ratio_exec rnd op (sp_ratios s)"
  shows "config_ok rnd (s\<lparr>sp_ratios := rc\<rparr>)" "sp_safety_ratio s \<le> safety_ratio rc"
proof -
  have ok: "controller_ok (sp_ratios s)" using assms(1) by (simp add: config_ok_def)
  note e = ratio_exec_ok [OF ok, of rnd op, folded assms(2)]
  have "max_ratio rc = max_ratio (sp_ratios s)" unfolding assms(2) by (cases op) simp_all
  with assms(1) e(1) show "config_ok rnd (s\<lparr>sp_ratios := rc\<rparr>)" by (simp add: config_ok_def)
  show "sp_safety_ratio s \<le> safety_ratio rc" using e(2) by (simp add: sp_safety_ratio_def)
qed

subsection \<open>Queues\<close>

lemma same_work_refl [simp]: "same_work a a"
  by (simp add: same_work_def)

lemma same_work_mark:
  "list_all2 same_work pts (mark_before i pts)" "list_all2 same_work pts (mark_after i pts)"
proof -
  have "list_all2 same_work pts (pts[i := f (pts ! i)])" if "\<And>x. same_work x (f x)" for f
    unfolding list_all2_conv_all_nth
  proof (intro conjI allI impI)
    fix j assume "j < length pts"
    then show "same_work (pts ! j) (pts[i := f (pts ! i)] ! j)" using that by (cases "i = j") simp_all
  qed simp
  from this [of "\<lambda>x. x\<lparr>pt_before := True\<rparr>"] this [of "\<lambda>x. x\<lparr>pt_boundary := True, pt_forced := True\<rparr>"]
  show "list_all2 same_work pts (mark_before i pts)" "list_all2 same_work pts (mark_after i pts)"
    by (simp_all add: mark_before_def mark_after_def same_work_def)
qed

lemma same_work_trans: "list_all2 same_work xs ys \<Longrightarrow> list_all2 same_work ys zs \<Longrightarrow> list_all2 same_work xs zs"
  by (rule list_all2_trans [of same_work same_work same_work]) (auto simp: same_work_def)

lemma same_work_fold:
  assumes "\<And>i pts. list_all2 same_work pts (mark i pts)"
  shows "list_all2 same_work pts (fold (mark_at mark start n) ixs pts)"
proof (induction ixs arbitrary: pts)
  case (Cons i ixs)
  have "list_all2 same_work pts (mark_at mark start n i pts)" using assms by (simp add: mark_at_def list_all2_refl)
  from same_work_trans [OF this Cons.IH] show ?case by simp
qed (simp add: list_all2_refl)

lemma same_work_mark_packet: "list_all2 same_work pts (mark_packet m start n pts)"
proof -
  define p1 where "p1 = (if 0 < n \<and> force_boundary_before m then mark_before start pts else pts)"
  define p2 where "p2 = (if 0 < n \<and> force_boundary m then mark_after (length p1 - 1) p1 else p1)"
  have 1: "list_all2 same_work pts p1" by (simp add: p1_def same_work_mark list_all2_refl)
  have 2: "list_all2 same_work p1 p2" by (simp add: p2_def same_work_mark list_all2_refl)
  have 3: "list_all2 same_work p2 (mark_streaming_boundaries start n as bs p2)" for as bs
    using same_work_trans [OF same_work_fold [of mark_before p2 start n bs] same_work_fold [of mark_after _ start n as]]
    by (simp add: mark_streaming_boundaries_def same_work_mark list_all2_refl)
  show ?thesis
    unfolding mark_packet_def Let_def p1_def [symmetric] p2_def [symmetric]
    by (rule same_work_trans [OF same_work_trans [OF 1 2] 3])
qed

lemma same_work_queue:
  assumes "list_all2 same_work xs ys"
  shows "map pt_token ys = map pt_token xs" "plans_within cap ys \<longleftrightarrow> plans_within cap xs" "ys = [] \<longleftrightarrow> xs = []"
  using assms by (induction rule: list_all2_induct) (auto simp: same_work_def plans_within_def)

lemma wf_stream: "wf_pending None (map stream_pending ts)" "plans_within cap (map stream_pending ts)"
  "map pt_token (map stream_pending ts) = ts"
  by (induction ts) (auto simp: stream_pending_def plans_within_def)

text \<open>The queue may be replaced by a well-formed one at any time.\<close>

lemma spliter_ok_queue:
  assumes "spliter_ok rnd cap segs s" and "wf_pending None q" and "plans_within cap q"
  shows "spliter_ok rnd cap segs (s\<lparr>sp_pending := q, sp_next_group_key := k, sp_next_plan := p, sp_input_complete := b\<rparr>)"
proof -
  let ?s = "s\<lparr>sp_pending := q, sp_next_group_key := k, sp_next_plan := p, sp_input_complete := b\<rparr>"
  have lv: "live ?s = live s" "taking_segment cap ?s i n = taking_segment cap s i n" for i n
    by (simp_all add: live_def taking_segment_def)
  have "history_ok cap segs ?s = history_ok cap segs s" by (simp add: history_ok_good lv)
  moreover have "segments_ok ?s = segments_ok s" by (simp add: segments_ok_def lv active_segment_count_def)
  moreover have "budget_ok rnd cap ?s = budget_ok rnd cap s"
    by (simp add: budget_ok_def make_thresholds_def sp_safety_ratio_def)
  ultimately show ?thesis using assms by (simp add: spliter_ok_def queue_ok_def)
qed

definition requeue :: "pending_token list \<Rightarrow> int \<Rightarrow> nat \<Rightarrow> spliter \<Rightarrow> spliter" where
  "requeue q k p s = s\<lparr>sp_pending := q, sp_next_group_key := k, sp_next_plan := p\<rparr>"

lemma enqueue_effect:
  assumes "spliter_ok rnd cap segs s"
  shows "\<exists>pts k p. enqueue_presplit_groups rnd ts s = (requeue (sp_pending s @ pts) k p s, Inr ()) \<and> map pt_token pts = ts \<and>
           wf_pending None pts \<and> plans_within cap pts"
proof -
  obtain th where th: "make_thresholds rnd s = Inr th" "force_split_at th \<le> cap"
    using assms by (auto simp: spliter_ok_def budget_ok_def)
  let ?plan = "\<lparr>plan_id = sp_next_plan s, plan_safety = sp_safety_ratio s, plan_thresholds = th\<rparr>"
  have "1 \<le> plan_cap ?plan" using make_thresholds_cap [OF th(1)] by (simp add: plan_cap_def)
  then obtain pts k where p: "build_planned_pending ?plan (sp_next_group_key s) ts = Inr (pts, k)" "map pt_token pts = ts"
    "wf_pending None pts" "\<forall>pt \<in> set pts. in_packet ?plan pt \<and> \<not> pt_before pt \<and> \<not> pt_forced pt"
    by (rule build_planned_ok)
  have "plans_within cap pts" using p(4) th(2) by (auto simp: plans_within_def in_packet_def plan_cap_def)
  moreover have "enqueue_presplit_groups rnd ts s = (requeue (sp_pending s @ pts) k (Suc (sp_next_plan s)) s, Inr ())"
    using p(1) th(1) by (simp add: enqueue_presplit_groups_def make_presplit_plan_def requeue_def)
  ultimately show ?thesis using p(2,3) by blast
qed

lemma tighten_effect:
  assumes "spliter_ok rnd cap segs s"
  shows "\<exists>q k p. tighten_pending_presplit_plans rnd s = (requeue q k p s, Inr ()) \<and> same_text (sp_pending s) q \<and>
           wf_pending None q \<and> plans_within cap q"
proof -
  have wf: "wf_pending None (sp_pending s)" "plans_within cap (sp_pending s)" using assms by (auto simp: spliter_ok_def queue_ok_def)
  obtain th where th: "make_thresholds rnd s = Inr th" "force_split_at th \<le> cap"
    using assms by (auto simp: spliter_ok_def budget_ok_def)
  let ?live = "\<lparr>plan_id = sp_next_plan s, plan_safety = sp_safety_ratio s, plan_thresholds = th\<rparr>"
  have cap: "1 \<le> plan_cap ?live" "plan_cap ?live \<le> cap" using make_thresholds_cap [OF th(1)] th(2) by (simp_all add: plan_cap_def)
  let ?key = "Min (set (map (\<lambda>pt. the (pt_key pt)) (filter (\<lambda>pt. pt_key pt \<noteq> None) (sp_pending s))))"
  obtain q k n where r: "replan ?live (Suc (sp_next_plan s)) ?key (sp_pending s) = Inr (q, k, n)"
    "same_text (sp_pending s) q" "wf_pending None q" "plans_within (plan_cap ?live) q"
    using replan_ok [OF wf(1) cap(1), of "Suc (sp_next_plan s)" ?key] by auto
  have within: "plans_within cap q" using r(4) cap(2) by (auto simp: plans_within_def intro: order_trans)
  have unchanged: "requeue (sp_pending s) (sp_next_group_key s) (sp_next_plan s) s = s"
    "s\<lparr>sp_next_plan := p\<rparr> = requeue (sp_pending s) (sp_next_group_key s) p s" for p by (simp_all add: requeue_def)
  have "tighten_pending_presplit_plans rnd s \<in>
      {(requeue (sp_pending s) (sp_next_group_key s) (sp_next_plan s) s, Inr ()),
       (requeue (sp_pending s) (sp_next_group_key s) (Suc (sp_next_plan s)) s, Inr ()),
       (requeue q (max (sp_next_group_key s) k) n s, Inr ())}"
    unfolding tighten_pending_presplit_plans_def make_presplit_plan_def th(1) Let_def
    using r(1) by (simp add: unchanged(2) unchanged(1)) (simp add: requeue_def)
  moreover have "same_text (sp_pending s) (sp_pending s)" by (simp add: same_text_def)
  ultimately show ?thesis using r(2,3) within wf by blast
qed

subsection \<open>Runs\<close>

datatype spliter_op =
    SetFullText "token_arg list" "int list" "int list"
  | FeedTokens "token_arg list" marks
  | FeedAuto "token_arg list" marks
  | PushGroup "token_arg list" marks
  | InputDone
  | SegmentDone int
  | SetRatio pyfloat
  | ObserveSegment int int ratio_outcome "int option"
  | UpdateRatio int int bool

definition no_actions :: "spliter \<times> (py_error, 'a) result \<Rightarrow> driven" where
  "no_actions r = (case r of (s, Inl e) \<Rightarrow> Some (s, Inl e) | (s, Inr _) \<Rightarrow> Some (s, Inr []))"

fun spliter_exec :: "(rat \<Rightarrow> rat) \<Rightarrow> (nat \<Rightarrow> string) \<Rightarrow> spliter_op \<Rightarrow> spliter \<Rightarrow> driven" where
  "spliter_exec rnd cat (SetFullText args after before) s = set_full_text rnd cat args after before s"
| "spliter_exec rnd cat (FeedTokens args m) s = feed_tokens rnd cat args m s"
| "spliter_exec rnd cat (FeedAuto args m) s = feed_auto rnd cat args m s"
| "spliter_exec rnd cat (PushGroup args m) s = push_group_tokens rnd cat args m s"
| "spliter_exec rnd cat InputDone s = input_done rnd s"
| "spliter_exec rnd cat (SegmentDone i) s = on_segment_done rnd i s"
| "spliter_exec rnd cat (SetRatio v) s = no_actions (spliter_set_duration_ratio rnd v s)"
| "spliter_exec rnd cat (ObserveSegment steps toks outcome i) s = no_actions (observe_segment rnd steps toks outcome i s)"
| "spliter_exec rnd cat (UpdateRatio steps toks overflow) s = no_actions (update_ratio rnd steps toks overflow s)"

text \<open>
  The calls a session makes: the whole text is set before anything else, a segment that is reported
  done has been opened, and a duration ratio is a positive number.
\<close>

fun op_allowed :: "spliter_op \<Rightarrow> spliter \<Rightarrow> bool" where
  "op_allowed (SetFullText args after before) s \<longleftrightarrow> sp_next_segment s = 0 \<and> sp_pending s = []"
| "op_allowed (SegmentDone i) s \<longleftrightarrow> 0 \<le> i \<and> i < sp_next_segment s"
| "op_allowed (SetRatio v) s \<longleftrightarrow> (case v of Fin r \<Rightarrow> 0 < r | NonFin \<Rightarrow> False)"
| "op_allowed _ s \<longleftrightarrow> True"

fun op_text :: "(nat \<Rightarrow> string) \<Rightarrow> spliter_op \<Rightarrow> segment_token list" where
  "op_text cat (SetFullText args after before) = coerce_tokens cat args"
| "op_text cat (FeedTokens args m) = coerce_tokens cat args"
| "op_text cat (FeedAuto args m) = coerce_tokens cat args"
| "op_text cat (PushGroup args m) = coerce_tokens cat args"
| "op_text cat _ = []"

definition op_ok :: "(rat \<Rightarrow> rat) \<Rightarrow> int \<Rightarrow> history \<Rightarrow> segment_token list \<Rightarrow> spliter \<Rightarrow> driven \<Rightarrow> bool" where
  "op_ok rnd cap segs new s r \<longleftrightarrow>
     (\<exists>s' acts segs'. r = Some (s', Inr acts) \<and> spliter_ok rnd cap segs' s' \<and> config_ok rnd s' \<and> settled s' \<and>
        render 0 segs' = render 0 segs @ acts \<and> spoken segs' @ queued s' = spoken segs @ queued s @ new \<and>
        sp_max_concurrent s' = sp_max_concurrent s \<and> (sp_input_complete s \<longrightarrow> sp_input_complete s'))"

lemma config_ok_static: "static s' = static s \<Longrightarrow> config_ok rnd s' = config_ok rnd s"
  by (simp add: config_ok_def static_def)

lemma static_max: "static s' = static s \<Longrightarrow> sp_max_concurrent s' = sp_max_concurrent s"
  by (simp add: static_def)

text \<open>An operation that changes the queue and drives.\<close>

lemma drive_op_ok:
  assumes "spliter_ok rnd cap segs s1" and "config_ok rnd s1" and "queued s1 = queued s @ new"
    and "sp_max_concurrent s1 = sp_max_concurrent s" and "sp_input_complete s \<longrightarrow> sp_input_complete s1"
  shows "op_ok rnd cap segs new s (drive_events rnd s1)"
proof -
  obtain s' acts segs' where d: "drive_events rnd s1 = Some (s', Inr acts)" "advances rnd cap segs s1 acts segs' s'" "settled s'"
    using drive_events_effect [OF assms(1)] by blast
  have st: "static s' = static s1" using d(2) by (simp add: advances_def)
  have "config_ok rnd s'" using assms(2) config_ok_static [OF st] by simp
  moreover have "sp_max_concurrent s' = sp_max_concurrent s" using static_max [OF st] assms(4) by simp
  ultimately show ?thesis using d assms(3,5) unfolding op_ok_def advances_def by auto
qed

lemma requeue_ok:
  assumes "spliter_ok rnd cap segs s" and "config_ok rnd s" and "wf_pending None q" and "plans_within cap q"
  shows "spliter_ok rnd cap segs (requeue q k p s)" "config_ok rnd (requeue q k p s)"
    "spliter_ok rnd cap segs (s\<lparr>sp_pending := q\<rparr>)" "config_ok rnd (s\<lparr>sp_pending := q\<rparr>)"
proof -
  have r: "requeue q k p s = s\<lparr>sp_pending := q, sp_next_group_key := k, sp_next_plan := p, sp_input_complete := sp_input_complete s\<rparr>"
    "s\<lparr>sp_pending := q\<rparr> = s\<lparr>sp_pending := q, sp_next_group_key := sp_next_group_key s, sp_next_plan := sp_next_plan s,
       sp_input_complete := sp_input_complete s\<rparr>" by (simp_all add: requeue_def)
  show "spliter_ok rnd cap segs (requeue q k p s)" by (subst r(1)) (rule spliter_ok_queue [OF assms(1,3,4)])
  show "spliter_ok rnd cap segs (s\<lparr>sp_pending := q\<rparr>)" by (subst r(2)) (rule spliter_ok_queue [OF assms(1,3,4)])
  show "config_ok rnd (requeue q k p s)" "config_ok rnd (s\<lparr>sp_pending := q\<rparr>)"
    using assms(2) by (simp_all add: config_ok_def requeue_def)
qed

text \<open>Driving after a packet has been queued and marked.\<close>

lemma packet_op_ok:
  assumes "spliter_ok rnd cap segs s" and "config_ok rnd s" and "wf_pending None pts" and "plans_within cap pts"
    and "map pt_token pts = new" and "list_all2 same_work (sp_pending s @ pts) q"
  shows "op_ok rnd cap segs new s (drive_events rnd (s\<lparr>sp_pending := q\<rparr>))"
    and "op_ok rnd cap segs new s (drive_events rnd ((requeue (sp_pending s @ pts) k p s)\<lparr>sp_pending := q\<rparr>))"
proof -
  have "wf_pending None (sp_pending s @ pts)" "plans_within cap (sp_pending s @ pts)"
    using assms(1,3,4) by (auto simp: spliter_ok_def queue_ok_def intro: wf_pending_append)
  then have q: "wf_pending None q" "plans_within cap q" "map pt_token q = queued s @ new"
    using wf_pending_mark [OF assms(6)] same_work_queue [OF assms(6)] assms(5) by (auto simp: queued_def)
  note r = requeue_ok [OF assms(1,2) q(1,2)]
  show "op_ok rnd cap segs new s (drive_events rnd (s\<lparr>sp_pending := q\<rparr>))"
    by (rule drive_op_ok [OF r(3,4)]) (simp_all add: queued_def q(3))
  have "(requeue (sp_pending s @ pts) k p s)\<lparr>sp_pending := q\<rparr> = requeue q k p s" by (simp add: requeue_def)
  then show "op_ok rnd cap segs new s (drive_events rnd ((requeue (sp_pending s @ pts) k p s)\<lparr>sp_pending := q\<rparr>))"
    using drive_op_ok [OF r(1,2), where s = s and new = new] by (simp add: queued_def q(3)) (simp add: requeue_def q(3) queued_def)
qed

lemma no_op_ok: "spliter_ok rnd cap segs s \<Longrightarrow> config_ok rnd s \<Longrightarrow> settled s \<Longrightarrow> op_ok rnd cap segs [] s (Some (s, Inr []))"
  by (auto simp: op_ok_def)

lemma feed_tokens_ok:
  assumes "spliter_ok rnd cap segs s" and "config_ok rnd s"
  shows "op_ok rnd cap segs (coerce_tokens cat args) s (feed_tokens rnd cat args m s)"
  unfolding feed_tokens_def Let_def
  by (rule packet_op_ok(1) [OF assms wf_stream same_work_mark_packet])

lemma push_group_ok:
  assumes "spliter_ok rnd cap segs s" and "config_ok rnd s" and "settled s"
  shows "op_ok rnd cap segs (coerce_tokens cat args) s (push_group_tokens rnd cat args m s)"
proof (cases "args = []")
  case True
  then show ?thesis using no_op_ok [OF assms] by (simp add: push_group_tokens_def coerce_tokens_def)
next
  case False
  obtain pts k p where e: "enqueue_presplit_groups rnd (coerce_tokens cat args) s = (requeue (sp_pending s @ pts) k p s, Inr ())"
    "map pt_token pts = coerce_tokens cat args" "wf_pending None pts" "plans_within cap pts"
    using enqueue_effect [OF assms(1)] by blast
  let ?q = "mark_packet m (length (sp_pending s)) (length pts) (sp_pending s @ pts)"
  have "op_ok rnd cap segs (coerce_tokens cat args) s (drive_events rnd ((requeue (sp_pending s @ pts) k p s)\<lparr>sp_pending := ?q\<rparr>))"
    by (rule packet_op_ok(2) [OF assms(1,2) e(3,4,2) same_work_mark_packet])
  moreover have "sp_pending (requeue (sp_pending s @ pts) k p s) = sp_pending s @ pts" by (simp add: requeue_def)
  ultimately show ?thesis using False by (simp add: push_group_tokens_def e(1) Let_def)
qed

lemma feed_auto_ok:
  assumes "spliter_ok rnd cap segs s" and "config_ok rnd s" and "settled s"
  shows "op_ok rnd cap segs (coerce_tokens cat args) s (feed_auto rnd cat args m s)"
proof (cases "coerce_tokens cat args = []")
  case True
  then show ?thesis using no_op_ok [OF assms] by (simp add: feed_auto_def)
next
  case False
  let ?ts = "coerce_tokens cat args" and ?n = "length (sp_pending s)"
  define room where "room = (case get_active_driver_idx s of
        None \<Rightarrow> (case make_thresholds rnd s of Inl e \<Rightarrow> Inl e | Inr th \<Rightarrow> Inr (force_split_at th))
      | Some idx \<Rightarrow>
          (case map_of (sp_drivers s) idx of
             None \<Rightarrow> Inl KeyError
           | Some d \<Rightarrow> Inr (force_split_at (thresholds (snd d)) - token_count (snd d))))"
  have seg: "segments_ok s" "history_ok cap segs s" using assms(1) by (auto simp: spliter_ok_def)
  have "\<exists>r. room = Inr r"
  proof (cases "live s = {}")
    case True
    then have "get_active_driver_idx s = None" using get_active_live [of s] seg(1) by (simp add: segments_ok_def)
    then show ?thesis using config_thresholds [OF assms(2)] by (auto simp: room_def)
  next
    case False
    note l = live_last [OF seg(1) False]
    then have "get_active_driver_idx s = Some (sp_next_segment s - 1)"
      using get_active_live [of s] seg(1) by (simp add: segments_ok_def)
    moreover have "\<exists>d. map_of (sp_drivers s) (sp_next_segment s - 1) = Some d"
      using seg(2) l by (auto simp: history_ok_good taking_segment_def)
    ultimately show ?thesis by (auto simp: room_def)
  qed
  then obtain r where r: "room = Inr r" by blast
  show ?thesis
  proof (cases "r < int (length ?ts)")
    case True
    obtain pts k p where e: "enqueue_presplit_groups rnd ?ts s = (requeue (sp_pending s @ pts) k p s, Inr ())"
      "map pt_token pts = ?ts" "wf_pending None pts" "plans_within cap pts" using enqueue_effect [OF assms(1)] by blast
    let ?q = "mark_packet m ?n (length ?ts) (sp_pending s @ pts)"
    have "op_ok rnd cap segs ?ts s (drive_events rnd ((requeue (sp_pending s @ pts) k p s)\<lparr>sp_pending := ?q\<rparr>))"
      by (rule packet_op_ok(2) [OF assms(1,2) e(3,4,2) same_work_mark_packet])
    moreover have "sp_pending (requeue (sp_pending s @ pts) k p s) = sp_pending s @ pts" by (simp add: requeue_def)
    ultimately show ?thesis using False True r by (simp add: feed_auto_def room_def [symmetric] e(1) Let_def)
  next
    case nr: False
    have "op_ok rnd cap segs ?ts s
        (drive_events rnd (s\<lparr>sp_pending := mark_packet m ?n (length ?ts) (sp_pending s @ map stream_pending ?ts)\<rparr>))"
      by (rule packet_op_ok(1) [OF assms(1,2) wf_stream same_work_mark_packet])
    then show ?thesis using False nr r by (simp add: feed_auto_def room_def [symmetric] Let_def)
  qed
qed

lemma input_done_ok:
  assumes "spliter_ok rnd cap segs s" and "config_ok rnd s"
  shows "op_ok rnd cap segs [] s (input_done rnd s)"
proof -
  let ?s = "s\<lparr>sp_input_complete := True\<rparr>"
  have q: "wf_pending None (sp_pending s)" "plans_within cap (sp_pending s)" using assms(1) by (auto simp: spliter_ok_def queue_ok_def)
  have "spliter_ok rnd cap segs ?s"
    using spliter_ok_queue [OF assms(1) q, where k = "sp_next_group_key s" and p = "sp_next_plan s" and b = True] by simp
  moreover have "config_ok rnd ?s" using assms(2) by (simp add: config_ok_def)
  ultimately show ?thesis unfolding input_done_def by (rule drive_op_ok) (simp_all add: queued_def)
qed

lemma set_full_text_ok:
  assumes "spliter_ok rnd cap segs s" and "config_ok rnd s" and "sp_next_segment s = 0" and "sp_pending s = []"
  shows "op_ok rnd cap segs (coerce_tokens cat args) s (set_full_text rnd cat args after before s)"
proof -
  let ?s = "s\<lparr>sp_pending := [], sp_next_group_key := 0, sp_next_output := 0, sp_group_output := []\<rparr>"
  have s: "?s = s\<lparr>sp_next_group_key := 0\<rparr>"
    using assms(1,3,4) by (simp add: spliter_ok_def segments_ok_def queue_ok_def)
  have q: "wf_pending None (sp_pending s)" "plans_within cap (sp_pending s)" using assms(1) by (auto simp: spliter_ok_def queue_ok_def)
  have ok: "spliter_ok rnd cap segs ?s" "config_ok rnd ?s"
    using spliter_ok_queue [OF assms(1) q, where k = 0 and p = "sp_next_plan s" and b = "sp_input_complete s"] assms(2)
    unfolding s by (simp_all add: config_ok_def)
  obtain pts k p where e: "enqueue_presplit_groups rnd (coerce_tokens cat args) ?s = (requeue pts k p ?s, Inr ())"
    "map pt_token pts = coerce_tokens cat args" "wf_pending None pts" "plans_within cap pts"
    using enqueue_effect [OF ok(1), of "coerce_tokens cat args"] by auto
  let ?n = "length pts"
  let ?q = "fold (mark_at mark_before 0 ?n) before (fold (mark_at mark_after 0 ?n) after pts)"
  have sw: "list_all2 same_work pts ?q"
    by (rule same_work_trans [OF same_work_fold same_work_fold]) (rule same_work_mark)+
  let ?t = "(requeue pts k p ?s)\<lparr>sp_pending := ?q, sp_input_complete := True\<rparr>"
  have t: "?t = ?s\<lparr>sp_pending := ?q, sp_next_group_key := k, sp_next_plan := p, sp_input_complete := True\<rparr>" by (simp add: requeue_def)
  have "spliter_ok rnd cap segs ?t"
    unfolding t using wf_pending_mark [OF sw e(3)] same_work_queue(2) [OF sw] e(4) by (intro spliter_ok_queue [OF ok(1)]) auto
  moreover have "config_ok rnd ?t" using ok(2) by (simp add: config_ok_def requeue_def)
  moreover have "queued ?t = queued s @ coerce_tokens cat args" using same_work_queue(1) [OF sw] e(2) assms(4) by (simp add: queued_def)
  ultimately have "op_ok rnd cap segs (coerce_tokens cat args) s (drive_events rnd ?t)"
    by (rule drive_op_ok) (simp_all add: requeue_def)
  moreover have "sp_pending (requeue pts k p ?s) = pts" by (simp add: requeue_def)
  ultimately show ?thesis by (simp add: set_full_text_def e(1) Let_def)
qed

lemma segment_done_ok:
  assumes ok: "spliter_ok rnd cap segs s" and cfg: "config_ok rnd s" and i: "0 \<le> i" "i < sp_next_segment s"
  shows "op_ok rnd cap segs [] s (on_segment_done rnd i s)"
proof -
  let ?s = "s\<lparr>sp_done := insert i (sp_done s), sp_flushing := sp_flushing s - {i}, sp_drivers := dict_pop i (sp_drivers s),
          sp_coords := dict_pop i (sp_coords s), sp_group_key := dict_pop i (sp_group_key s),
          sp_ema := dict_pop i (sp_ema s), sp_safety := dict_pop i (sp_safety s)\<rparr>"
  let ?l = "sp_next_segment s - 1"
  have lv: "live ?s = live s - {i}" by (auto simp: live_def)
  have seg: "segments_ok s" "queue_ok cap s" "budget_ok rnd cap s" "history_ok cap segs s" using ok by (auto simp: spliter_ok_def)
  have "segments_ok ?s"
    using seg(1) i dict_pop_length [of i "sp_drivers s"]
    unfolding segments_ok_def lv active_segment_count_def by (auto simp: distinct_dict_pop)
  moreover have "queue_ok cap ?s" "budget_ok rnd cap ?s"
    using seg(2,3) by (simp_all add: queue_ok_def budget_ok_def make_thresholds_def sp_safety_ratio_def)
  moreover have "history_ok cap segs ?s"
  proof -
    have "taking_segment cap ?s ?l n" if "taking_segment cap s ?l n" "?l \<noteq> i" for n
      using that by (auto simp: taking_segment_def)
    then show ?thesis using seg(4) by (auto simp: history_ok_good lv)
  qed
  ultimately have "spliter_ok rnd cap segs ?s" by (simp add: spliter_ok_def)
  moreover have "config_ok rnd ?s" using cfg by (simp add: config_ok_def)
  ultimately show ?thesis unfolding on_segment_done_def by (rule drive_op_ok) (simp_all add: queued_def)
qed

text \<open>Feedback: the ratio moves, the queue may be replanned, and nothing else changes.\<close>

lemma ratio_ok:
  assumes "spliter_ok rnd cap segs s" and "config_ok rnd s" and "rc = ratio_exec rnd op (sp_ratios s)"
  shows "spliter_ok rnd cap segs (s\<lparr>sp_ratios := rc\<rparr>)" "config_ok rnd (s\<lparr>sp_ratios := rc\<rparr>)"
proof -
  let ?s = "s\<lparr>sp_ratios := rc\<rparr>"
  note c = config_ratio [OF assms(2,3)]
  have lv: "live ?s = live s" "taking_segment cap ?s i n = taking_segment cap s i n" for i n
    by (simp_all add: live_def taking_segment_def)
  have "budget_ok rnd cap ?s" using assms(1) c by (intro budget_tighten) (auto simp: spliter_ok_def)
  moreover have "history_ok cap segs ?s = history_ok cap segs s" by (simp add: history_ok_good lv)
  moreover have "segments_ok ?s = segments_ok s" by (simp add: segments_ok_def lv active_segment_count_def)
  ultimately show "spliter_ok rnd cap segs ?s" using assms(1) by (simp add: spliter_ok_def queue_ok_def)
  show "config_ok rnd ?s" by (rule c(1))
qed

lemma feedback_ok:
  assumes "spliter_ok rnd cap segs s" and "config_ok rnd s" and "settled s" and "rc = ratio_exec rnd op (sp_ratios s)"
  defines "s1 \<equiv> s\<lparr>sp_ratios := rc\<rparr>"
  shows "op_ok rnd cap segs [] s (Some (s1, Inr []))"
    and "\<exists>s2. tighten_pending_presplit_plans rnd s1 = (s2, Inr ()) \<and> op_ok rnd cap segs [] s (Some (s2, Inr []))"
proof -
  note r = ratio_ok [OF assms(1,2,4), folded s1_def]
  have lv: "live s1 = live s" "active_segment_count s1 = active_segment_count s"
    by (simp_all add: live_def s1_def active_segment_count_def)
  have st: "settled s1" using assms(3) unfolding settled_def lv by (simp add: s1_def)
  show "op_ok rnd cap segs [] s (Some (s1, Inr []))"
    using r st by (auto simp: op_ok_def s1_def queued_def)
  obtain q k p where t: "tighten_pending_presplit_plans rnd s1 = (requeue q k p s1, Inr ())" "same_text (sp_pending s1) q"
    "wf_pending None q" "plans_within cap q" using tighten_effect [OF r(1)] by blast
  note rq = requeue_ok [OF r t(3,4)]
  have q: "map pt_token q = map pt_token (sp_pending s)" using t(2) by (simp add: same_text_def s1_def)
  then have "q = [] \<longleftrightarrow> sp_pending s1 = []" by (auto simp: s1_def)
  moreover have "live (requeue q k p s1) = live s1" "active_segment_count (requeue q k p s1) = active_segment_count s1"
    by (simp_all add: live_def requeue_def active_segment_count_def)
  ultimately have "settled (requeue q k p s1)" using st unfolding settled_def by (simp add: requeue_def)
  with rq have "op_ok rnd cap segs [] s (Some (requeue q k p s1, Inr []))"
    unfolding op_ok_def using q by (intro exI [of _ "requeue q k p s1"] exI [of _ "[]"] exI [of _ segs]) (simp add: requeue_def queued_def s1_def)
  with t(1) show "\<exists>s2. tighten_pending_presplit_plans rnd s1 = (s2, Inr ()) \<and> op_ok rnd cap segs [] s (Some (s2, Inr []))" by blast
qed

lemma observe_segment_ok:
  assumes "spliter_ok rnd cap segs s" and "config_ok rnd s" and "settled s"
  shows "\<exists>s' obs. observe_segment rnd steps toks outcome i s = (s', Inr obs) \<and> op_ok rnd cap segs [] s (Some (s', Inr []))"
proof -
  let ?snap = "map_option (\<lambda>i. Fin (safety_ratio_for_segment i s)) i"
  obtain rc obs where o: "observe rnd steps toks outcome ?snap (sp_ratios s) = (rc, obs)" by fastforce
  then have "rc = ratio_exec rnd (Observe steps toks outcome ?snap) (sp_ratios s)" by simp
  note f = feedback_ok [OF assms this]
  from f(2) obtain s2 where "tighten_pending_presplit_plans rnd (s\<lparr>sp_ratios := rc\<rparr>) = (s2, Inr ())"
    "op_ok rnd cap segs [] s (Some (s2, Inr []))" by blast
  with f(1) show ?thesis by (cases "safety_tightened obs") (auto simp: observe_segment_def o)
qed

lemma set_ratio_ok:
  assumes "spliter_ok rnd cap segs s" and "config_ok rnd s" and "settled s" and "0 < v"
  shows "\<exists>s'. spliter_set_duration_ratio rnd (Fin v) s = (s', Inr ()) \<and> op_ok rnd cap segs [] s (Some (s', Inr []))"
proof -
  obtain rc where o: "set_duration_ratio (Fin v) (sp_ratios s) = (rc, Inr ())"
    using assms(4) by (auto simp: set_duration_ratio_def Let_def)
  then have "rc = ratio_exec rnd (SetDuration (Fin v)) (sp_ratios s)" by simp
  note f = feedback_ok [OF assms(1-3) this]
  from f(2) obtain s2 where "tighten_pending_presplit_plans rnd (s\<lparr>sp_ratios := rc\<rparr>) = (s2, Inr ())"
    "op_ok rnd cap segs [] s (Some (s2, Inr []))" by blast
  with f(1) show ?thesis by (auto simp: spliter_set_duration_ratio_def o Let_def)
qed

lemma spliter_exec_ok:
  assumes "spliter_ok rnd cap segs s" and "config_ok rnd s" and "settled s" and "op_allowed op s"
  shows "op_ok rnd cap segs (op_text cat op) s (spliter_exec rnd cat op s)"
proof (cases op)
  case (SetRatio v)
  with assms(4) obtain r where "v = Fin r" "0 < r" by (cases v) auto
  with SetRatio set_ratio_ok [OF assms(1-3), of r] show ?thesis by (auto simp: no_actions_def)
next
  case (ObserveSegment steps toks outcome i)
  with observe_segment_ok [OF assms(1-3), of steps toks outcome i] show ?thesis by (auto simp: no_actions_def)
next
  case (UpdateRatio steps toks overflow)
  with observe_segment_ok [OF assms(1-3), of steps toks "if overflow then KV_OVERFLOW else CODEC_EOS" None]
  show ?thesis by (auto simp: no_actions_def update_ratio_def)
qed (use assms in \<open>simp_all add: set_full_text_ok feed_tokens_ok feed_auto_ok push_group_ok input_done_ok segment_done_ok\<close>)

fun spliter_run :: "(rat \<Rightarrow> rat) \<Rightarrow> (nat \<Rightarrow> string) \<Rightarrow> spliter_op list \<Rightarrow> spliter \<Rightarrow> (spliter \<times> segment_action list) option" where
  "spliter_run rnd cat [] s = Some (s, [])"
| "spliter_run rnd cat (op # ops) s =
     (case spliter_exec rnd cat op s of
        Some (s', Inr acts) \<Rightarrow> map_option (\<lambda>(s'', rest). (s'', acts @ rest)) (spliter_run rnd cat ops s')
      | _ \<Rightarrow> None)"

fun run_allowed :: "(rat \<Rightarrow> rat) \<Rightarrow> (nat \<Rightarrow> string) \<Rightarrow> spliter_op list \<Rightarrow> spliter \<Rightarrow> bool" where
  "run_allowed rnd cat [] s \<longleftrightarrow> True"
| "run_allowed rnd cat (op # ops) s \<longleftrightarrow>
     op_allowed op s \<and> (case spliter_exec rnd cat op s of Some (s', _) \<Rightarrow> run_allowed rnd cat ops s' | None \<Rightarrow> True)"

lemma spliter_run_ok:
  assumes "spliter_ok rnd cap segs s" and "config_ok rnd s" and "settled s" and "run_allowed rnd cat ops s"
  shows "\<exists>s' log segs'. spliter_run rnd cat ops s = Some (s', log) \<and> spliter_ok rnd cap segs' s' \<and> config_ok rnd s' \<and>
           settled s' \<and> render 0 segs' = render 0 segs @ log \<and>
           spoken segs' @ queued s' = spoken segs @ queued s @ concat (map (op_text cat) ops) \<and>
           sp_max_concurrent s' = sp_max_concurrent s"
  using assms
proof (induction ops arbitrary: s segs)
  case Nil
  then show ?case by auto
next
  case (Cons op ops)
  have "op_ok rnd cap segs (op_text cat op) s (spliter_exec rnd cat op s)"
    using Cons.prems by (intro spliter_exec_ok) auto
  then obtain s1 acts segs1 where e: "spliter_exec rnd cat op s = Some (s1, Inr acts)" "spliter_ok rnd cap segs1 s1" "config_ok rnd s1"
    "settled s1" "render 0 segs1 = render 0 segs @ acts" "spoken segs1 @ queued s1 = spoken segs @ queued s @ op_text cat op"
    "sp_max_concurrent s1 = sp_max_concurrent s" by (auto simp: op_ok_def)
  have "run_allowed rnd cat ops s1" using Cons.prems(4) e(1) by simp
  from Cons.IH [OF e(2-4) this] obtain s' log segs' where r: "spliter_run rnd cat ops s1 = Some (s', log)" "spliter_ok rnd cap segs' s'"
    "config_ok rnd s'" "settled s'" "render 0 segs' = render 0 segs1 @ log"
    "spoken segs' @ queued s' = spoken segs1 @ queued s1 @ concat (map (op_text cat) ops)"
    "sp_max_concurrent s' = sp_max_concurrent s1" by blast
  have "spoken segs' @ queued s' = spoken segs @ queued s @ concat (map (op_text cat) (op # ops))"
    using r(6) e(6) by (metis append.assoc concat.simps(2) list.simps(9))
  with e r show ?case by (intro exI [of _ s'] exI [of _ "acts @ log"] exI [of _ segs']) simp
qed

lemma new_spliter_ok:
  assumes "new_spliter em pf ema saf mg mc al ov lo hi mt mu l1 l2 l3 = Inr s" and "make_thresholds rnd s = Inr th"
  shows "spliter_ok rnd (force_split_at th) [] s" "settled s" "queued s = []"
  using assms
  by (auto simp: new_spliter_def spliter_ok_def segments_ok_def queue_ok_def budget_ok_def history_ok_def live_def settled_def
      queued_def plans_within_def active_segment_count_def split: sum.splits)

section \<open>What the orchestrator promises\<close>

text \<open>
  C7. The splitter implements segmentation, whatever the order of text packets, completions and
  ratio feedback. From a new splitter whose budget holds one token even at the largest ratio,
  every sequence of calls of a session returns without an exception, and its actions are exactly
  those of a list of segments: segment \<open>i\<close> is one prefill and then decodes of its tokens, and at most
  one flush that is its last action. The segments' tokens followed by the queued ones are the tokens
  received, in order; no segment is empty and none exceeds the capacity computed from the initial
  safety ratio.
\<close>

theorem spliter_implements_segmentation:
  assumes "new_spliter em pf ema saf mg mc al ov lo hi mt mu l1 l2 l3 = Inr s0" and "config_ok rnd s0"
    and "make_thresholds rnd s0 = Inr th" and "run_allowed rnd cat ops s0"
  shows "\<exists>s log segs. spliter_run rnd cat ops s0 = Some (s, log) \<and> log = render 0 segs \<and>
           concat (map fst segs) @ map pt_token (sp_pending s) = concat (map (op_text cat) ops) \<and>
           list_all (good_segment (force_split_at th)) segs \<and> int (length segs) = sp_next_segment s"
proof -
  note n = new_spliter_ok [OF assms(1,3)]
  from spliter_run_ok [OF n(1) assms(2) n(2) assms(4)] obtain s log segs where
    "spliter_run rnd cat ops s0 = Some (s, log)" "spliter_ok rnd (force_split_at th) segs s" "render 0 segs = log"
    "spoken segs @ queued s = concat (map (op_text cat) ops)" by (auto simp: n(3) spoken_def)
  then show ?thesis by (auto simp: spliter_ok_def history_ok_good spoken_def queued_def)
qed

lemma segment_actions_coords:
  "a \<in> set (segment_actions i fresh ts cl) \<Longrightarrow> sa_segment a = i \<and> sa_group a = i \<and> sa_local a = 0 \<and> sa_final a"
proof -
  have t: "a \<in> set (token_actions i (i, 0) True f us) \<Longrightarrow> sa_segment a = i \<and> sa_group a = i \<and> sa_local a = 0 \<and> sa_final a" for f us
    by (induction us arbitrary: f) (auto simp: to_action_def)
  have c: "a \<in> set (closing_actions i (i, 0) True cl) \<Longrightarrow> sa_segment a = i \<and> sa_group a = i \<and> sa_local a = 0 \<and> sa_final a"
    by (cases cl) (auto simp: to_action_def)
  assume "a \<in> set (segment_actions i fresh ts cl)"
  then show ?thesis using t c by (auto simp: segment_actions_def)
qed

lemma render_coords:
  "a \<in> set (render i segs) \<Longrightarrow> i \<le> sa_segment a \<and> sa_group a = sa_segment a \<and> sa_local a = 0 \<and> sa_final a"
proof (induction i segs rule: render.induct)
  case (2 i ts cl segs)
  then show ?case using segment_actions_coords [of a i True ts cl] by fastforce
qed simp

lemma sorted_render: "sorted (map sa_segment (render i segs))"
proof (induction i segs rule: render.induct)
  case (2 i ts cl segs)
  have "map sa_segment (segment_actions i True ts cl) = replicate (length (segment_actions i True ts cl)) i"
    using segment_actions_coords by (intro replicate_eqI) auto
  moreover have "\<forall>x \<in> set (map sa_segment (render (i + 1) segs)). i \<le> x" using render_coords by fastforce
  ultimately show ?case using 2 by (simp add: sorted_append)
qed simp

text \<open>
  Public coordinates follow the text. Every action carries the coordinates of its segment: the
  group number is the segment number, the local number is 0 and the group is final, also for planned
  groups that are cut by forced boundaries or replanned; and segment numbers never decrease along the
  actions. So the reorder buffer sees the groups 0, 1, 2, \<open>\<dots>\<close> in text order with one segment each.
\<close>

theorem spliter_coordinates:
  assumes "new_spliter em pf ema saf mg mc al ov lo hi mt mu l1 l2 l3 = Inr s0" and "config_ok rnd s0"
    and "make_thresholds rnd s0 = Inr th" and "run_allowed rnd cat ops s0"
  shows "\<exists>s log. spliter_run rnd cat ops s0 = Some (s, log) \<and> sorted (map sa_segment log) \<and>
           (\<forall>a \<in> set log. sa_group a = sa_segment a \<and> sa_local a = 0 \<and> sa_final a)"
proof -
  note n = new_spliter_ok [OF assms(1,3)]
  from spliter_run_ok [OF n(1) assms(2) n(2) assms(4)] obtain s log segs where
    "spliter_run rnd cat ops s0 = Some (s, log)" "render 0 segs = log" by auto
  with sorted_render [of 0 segs] render_coords [of _ 0 segs] show ?thesis by auto
qed

text \<open>
  C19. The splitter respects its concurrency and never stalls. After every sequence of calls at most
  \<open>max_concurrent\<close> segments are in flight; text waits only when that many segments are in flight and all
  of them are closed, so that the engine can finish them, or, before the end of the input, in the
  open segment. In particular, once the input is complete and no segment is in flight every token
  received has been emitted.
\<close>

theorem spliter_never_stalls:
  assumes "new_spliter em pf ema saf mg mc al ov lo hi mt mu l1 l2 l3 = Inr s0" and "config_ok rnd s0"
    and "make_thresholds rnd s0 = Inr th" and "run_allowed rnd cat ops s0" and "1 \<le> mc"
  shows "\<exists>s log. spliter_run rnd cat ops s0 = Some (s, log) \<and> int (length (sp_drivers s)) \<le> mc \<and>
           (sp_pending s \<noteq> [] \<longrightarrow> int (length (sp_drivers s)) = mc \<and> fst ` set (sp_drivers s) \<subseteq> sp_flushing s) \<and>
           (sp_input_complete s \<longrightarrow> fst ` set (sp_drivers s) \<subseteq> sp_flushing s) \<and>
           (sp_input_complete s \<and> sp_drivers s = [] \<longrightarrow>
              (\<exists>segs. log = render 0 segs \<and> concat (map fst segs) = concat (map (op_text cat) ops)))"
proof -
  note n = new_spliter_ok [OF assms(1,3)]
  have mc: "sp_max_concurrent s0 = mc" using assms(1) by (auto simp: new_spliter_def split: sum.splits)
  from spliter_run_ok [OF n(1) assms(2) n(2) assms(4)] obtain s log segs where r:
    "spliter_run rnd cat ops s0 = Some (s, log)" "spliter_ok rnd (force_split_at th) segs s" "settled s" "render 0 segs = log"
    "spoken segs @ queued s = concat (map (op_text cat) ops)" "sp_max_concurrent s = mc" by (auto simp: n(3) spoken_def mc)
  have seg: "fst ` set (sp_drivers s) = {0..<sp_next_segment s} - sp_done s" "int (length (sp_drivers s)) \<le> mc"
    using r(2,6) assms(5) by (auto simp: spliter_ok_def segments_ok_def active_segment_count_def)
  have fl: "fst ` set (sp_drivers s) \<subseteq> sp_flushing s" if "live s = {}" using seg(1) that by (auto simp: live_def)
  have p: "live s = {} \<and> mc \<le> int (length (sp_drivers s))" if "sp_pending s \<noteq> []"
    using r(3,6) that by (auto simp: settled_def active_segment_count_def split: if_splits)
  have c: "live s = {}" if "sp_input_complete s" using r(3) that by (auto simp: settled_def split: if_splits)
  have "concat (map fst segs) = concat (map (op_text cat) ops)" if "sp_drivers s = []"
    using p that assms(5) r(5) by (cases "sp_pending s = []") (auto simp: spoken_def queued_def)
  with r(1,4) seg(2) fl p c show ?thesis by (intro exI [of _ s] exI [of _ log]) auto
qed

text \<open>A reset splitter is a new one, but for its plan counter.\<close>

lemma spliter_reset_new:
  assumes "new_spliter em pf ema saf mg mc al ov lo hi mt mu l1 l2 l3 = Inr s0"
    and "static s = static s0"
  shows "\<exists>p. spliter_reset s = s0\<lparr>sp_next_plan := p, sp_ratios := controller_reset (sp_ratios s0)\<rparr>"
  using assms by (intro exI [of _ "sp_next_plan s"]) (auto simp: new_spliter_def spliter_reset_def static_def split: sum.splits)

section \<open>Witnesses\<close>

lemma feed_loop_code [code]:
  "feed_loop e s d =
     (if transient s
      then case fsm_step e d of
             (d', s', r) \<Rightarrow>
               if s' = s then Some (d', result_list r)
               else (case feed_loop e s' d' of None \<Rightarrow> None | Some (d'', rs) \<Rightarrow> Some (d'', result_list r @ rs))
      else Some (d, []))"
  by (subst feed_loop.simps) (auto simp: Option.bind_eq_Some_conv split: prod.splits option.splits)

lemma drive_events_code [code]:
  "drive_events rnd s =
     (case drive_one_segment rnd s of
        None \<Rightarrow> None
      | Some (s', Inl e) \<Rightarrow> Some (s', Inl e)
      | Some (s', Inr acts) \<Rightarrow>
          if acts = [] then Some (s', Inr [])
          else (case drive_events rnd s' of
                  None \<Rightarrow> None
                | Some (s'', Inl e) \<Rightarrow> Some (s'', Inl e)
                | Some (s'', Inr rest) \<Rightarrow> Some (s'', Inr (acts @ rest))))"
  by (subst drive_events.simps) (auto split: prod.splits option.splits sum.splits)

definition ex_spliter :: spliter where
  "ex_spliter =
     \<lparr>sp_engine_max = 12, sp_prefill_len = 2, sp_safety_margin = 1, sp_max_concurrent = 2,
      sp_ratios = \<lparr>duration_initial = 3, safety_initial = 3, duration_alpha = 1 / 2, failure_alpha = 1 / 2, min_ratio = 1,
        max_ratio = 9, min_duration_tokens = 1, failure_multiplier = 2, duration_ratio = 3, safety_ratio = 3\<rparr>,
      sp_l1_cap = Fin (1 / 2), sp_l2_cap = Fin 1, sp_l3_cap = Fin 1,
      sp_pending = [], sp_next_group_key = 0, sp_next_output = 0, sp_input_complete = False,
      sp_drivers = [], sp_next_segment = 0, sp_coords = [], sp_group_key = [], sp_ema = [], sp_safety = [],
      sp_group_next_local = [], sp_group_output = [], sp_flushing = {}, sp_done = {}, sp_next_plan = 0\<rparr>"

definition no_marks :: marks where
  "no_marks = \<lparr>force_boundary = False, force_boundary_before = False, force_boundary_indices = [], force_boundary_before_indices = []\<rparr>"

text \<open>Two streamed tokens whose segment the engine ends, a planned packet with a forced boundary,
  overflow feedback, a packet in auto mode, and the end.\<close>

definition ex_calls :: "spliter_op list" where
  "ex_calls =
     [FeedTokens [TupleArg 1 [104] None, TupleArg 2 [105] None] no_marks, SegmentDone 0,
      PushGroup (map (\<lambda>i. TupleArg i [104] (Some 0)) [3, 4, 5, 6, 7]) (no_marks\<lparr>force_boundary_indices := [0]\<rparr>),
      ObserveSegment 9 1 KV_OVERFLOW (Some 0), FeedAuto [TupleArg 8 [46] None] no_marks, InputDone]"

definition ex_cat :: "nat \<Rightarrow> string" where
  "ex_cat c = ''Lo''"

lemma ex_spliter_new:
  "new_spliter 12 2 (Fin 3) None 1 2 (Fin (1 / 2)) (Fin (1 / 2)) (Fin 1) (Fin 9) 1 (Fin 2) (Fin (1 / 2)) (Fin 1) (Fin 1) = Inr ex_spliter"
  by (simp add: new_spliter_def new_controller_def float_val_def clamp_def ex_spliter_def Let_def)

lemma ex_spliter_config: "config_ok id ex_spliter"
  by (simp add: config_ok_def ex_spliter_def sound_rounding_def mono_def controller_ok_def)

definition ex_spliter_thresholds :: split_thresholds where
  "ex_spliter_thresholds = \<lparr>min_tokens_l1 = 2, min_tokens_l2 = 3, min_tokens_l3 = 3, force_split_at = 3\<rparr>"

lemma ex_spliter_th: "make_thresholds id ex_spliter = Inr ex_spliter_thresholds"
  by code_simp

fun always_allowed :: "spliter_op \<Rightarrow> bool" where
  "always_allowed (SetFullText args after before) = False"
| "always_allowed (SegmentDone i) = False"
| "always_allowed (SetRatio v) = False"
| "always_allowed _ = True"

lemma run_always_allowed: "list_all always_allowed ops \<Longrightarrow> run_allowed rnd cat ops s"
proof (induction ops arbitrary: s)
  case (Cons op ops)
  then have "op_allowed op s" for s by (cases op) auto
  with Cons show ?case by (auto split: option.splits)
qed simp

lemma ex_calls_allowed: "run_allowed id ex_cat ex_calls ex_spliter"
proof -
  have "case spliter_exec id ex_cat (hd ex_calls) ex_spliter of Some (s, _) \<Rightarrow> op_allowed (SegmentDone 0) s | None \<Rightarrow> False"
    by code_simp
  moreover have "run_allowed id ex_cat (drop 2 ex_calls) s" for s by (rule run_always_allowed) (simp add: ex_calls_def)
  ultimately show ?thesis by (auto simp: ex_calls_def split: option.splits)
qed

theorem spliter_implements_segmentation_witness:
  "\<exists>s log segs. spliter_run id ex_cat ex_calls ex_spliter = Some (s, log) \<and> log = render 0 segs \<and>
     concat (map fst segs) @ map pt_token (sp_pending s) = concat (map (op_text ex_cat) ex_calls) \<and>
     list_all (good_segment 3) segs"
  using spliter_implements_segmentation [OF ex_spliter_new ex_spliter_config ex_spliter_th ex_calls_allowed]
  by (auto simp: ex_spliter_thresholds_def)

theorem spliter_coordinates_witness:
  "\<exists>s log. spliter_run id ex_cat ex_calls ex_spliter = Some (s, log) \<and> sorted (map sa_segment log) \<and>
     (\<forall>a \<in> set log. sa_group a = sa_segment a \<and> sa_local a = 0 \<and> sa_final a)"
  by (rule spliter_coordinates [OF ex_spliter_new ex_spliter_config ex_spliter_th ex_calls_allowed])

theorem spliter_never_stalls_witness:
  "\<exists>s log. spliter_run id ex_cat ex_calls ex_spliter = Some (s, log) \<and> int (length (sp_drivers s)) \<le> 2"
  using spliter_never_stalls [OF ex_spliter_new ex_spliter_config ex_spliter_th ex_calls_allowed] by auto

end
