(* ===== verification/Dispatcher.thy ===== *)
theory Dispatcher
  imports Spliter Audio_Reorder
begin

text \<open>
  The frontend's way from splitter actions to engine requests: \<open>engine/frontend/dispatcher.py\<close>, the
  segment records and text events that \<open>engine/frontend/interface.py\<close> keeps around it, the routing of
  a token packet to the splitter, and the end of the input.

  The engine inbox is the list of requests put into it, the event callback the list of events it was
  called with. Timestamps, lifecycle logging and the payload of a new session are left out.
\<close>

section \<open>Requests and the session\<close>

datatype request_type =
  NEW_SESSION | START_TOKENS | APPEND_TOKENS | SEGMENT_TOKENS_DONE | SESSION_TOKENS_DONE | UPDATE_CURSOR_PLAN | CANCEL_SESSION

datatype request_priority = FIRST_SEGMENT | CONTINUATION | PREFETCHED

record engine_request =
  rq_type :: request_type
  rq_session :: string
  rq_segment :: int
  rq_priority :: request_priority
  rq_tokens :: "int list option"
  rq_append_eos :: bool
  rq_plan :: "cursor_label_plan option"
  rq_cancel_reason :: "string option"

definition request :: "request_type \<Rightarrow> string \<Rightarrow> engine_request" where
  "request t sid =
     \<lparr>rq_type = t, rq_session = sid, rq_segment = 0, rq_priority = FIRST_SEGMENT, rq_tokens = None, rq_append_eos = True,
      rq_plan = None, rq_cancel_reason = None\<rparr>"

datatype input_mode = AUTO | TOKEN | CLAUSE | LONG_SEGMENT | FULL_TEXT

datatype group_policy = GroupNone | GroupAuto

text \<open>The content of a plan without its revision counter.\<close>

type_synonym plan_payload = "int list \<times> cursor_owner_span list \<times> (int \<times> int) list \<times> bool"

definition cursor_plan_payload :: "cursor_label_plan \<Rightarrow> plan_payload" where
  "cursor_plan_payload p = (label_ids p, owner_spans p, label_normalized_spans p, plan_final p)"

type_synonym token_key = "int \<times> int \<times> pystr \<times> int \<times> int \<times> int \<times> int"

datatype frontend_event =
    TextToken int pystr "(string \<times> string) list"
  | TextBoundary int pystr "(string \<times> string) list"

record frontend =
  fs_session_id :: string
  fs_mode :: input_mode
  fs_policy :: group_policy
  fs_spliter :: spliter
  fs_callback :: bool
  fs_input_complete :: bool
  fs_tokens_done_sent :: bool
  fs_submitted :: int
  fs_order :: "(int \<times> order_meta) list"
  fs_plan :: "cursor_label_plan option"
  fs_plan_revision :: int
  fs_bounds :: "(int \<times> (int \<times> int)) list"
  fs_segment_plans :: "(int \<times> cursor_label_plan) list"
  fs_published :: "(int \<times> plan_payload) list"
  fs_texts :: "(int \<times> pystr) list"
  fs_token_keys :: "(int \<times> token_key list) list"
  fs_token_spans :: "(int \<times> (int \<times> int \<times> int \<times> int) list) list"
  fs_emitted_count :: "(int \<times> int) list"
  fs_boundary_emitted :: "int set"
  fs_inbox :: "engine_request list"
  fs_events :: "frontend_event list"

definition dict_get :: "'k \<Rightarrow> 'v \<Rightarrow> ('k \<times> 'v) list \<Rightarrow> 'v" where
  "dict_get k v d = (case map_of d k of Some x \<Rightarrow> x | None \<Rightarrow> v)"

definition put :: "engine_request \<Rightarrow> frontend \<Rightarrow> frontend" where
  "put r f = f\<lparr>fs_inbox := fs_inbox f @ [r]\<rparr>"

section \<open>Simple requests\<close>

definition submit_new_session :: "frontend \<Rightarrow> frontend" where
  "submit_new_session f = put (request NEW_SESSION (fs_session_id f)) f"

definition submit_cancel :: "string \<Rightarrow> frontend \<Rightarrow> frontend" where
  "submit_cancel reason f =
     put ((request CANCEL_SESSION (fs_session_id f))\<lparr>rq_cancel_reason := (if reason = [] then None else Some reason)\<rparr>) f"

definition submit_session_tokens_done :: "frontend \<Rightarrow> frontend" where
  "submit_session_tokens_done f = put (request SESSION_TOKENS_DONE (fs_session_id f)) f"

section \<open>Cursor plans\<close>

definition cursor_plan_for_segment :: "int \<Rightarrow> frontend \<Rightarrow> (py_error, cursor_label_plan option) result" where
  "cursor_plan_for_segment i f =
     (case fs_plan f of
        None \<Rightarrow> Inr None
      | Some plan \<Rightarrow>
          (case map_of (fs_bounds f) i of
             None \<Rightarrow> Inr (Some (empty_plan (plan_revision plan) (plan_final plan)))
           | Some (a, b) \<Rightarrow>
               (case slice_cursor_label_plan a b plan of
                  Inl e \<Rightarrow> Inl e
                | Inr None \<Rightarrow> Inr (Some (empty_plan (plan_revision plan) (plan_final plan)))
                | Inr (Some sliced) \<Rightarrow> Inr (Some sliced))))"

definition publish_segment_plan :: "int \<Rightarrow> frontend \<Rightarrow> frontend \<times> (py_error, unit) result" where
  "publish_segment_plan i f =
     (case cursor_plan_for_segment i f of
        Inl e \<Rightarrow> (f, Inl e)
      | Inr None \<Rightarrow> (f, Inr ())
      | Inr (Some plan) \<Rightarrow>
          let f1 = f\<lparr>fs_segment_plans := dict_set i plan (fs_segment_plans f)\<rparr>;
              payload = cursor_plan_payload plan
          in if map_of (fs_published f1) i = Some payload then (f1, Inr ())
             else (put ((request UPDATE_CURSOR_PLAN (fs_session_id f))\<lparr>rq_segment := i, rq_plan := Some plan\<rparr>)
                     (f1\<lparr>fs_published := dict_set i payload (fs_published f1)\<rparr>), Inr ()))"

fun publish_plans :: "int list \<Rightarrow> frontend \<Rightarrow> frontend \<times> (py_error, unit) result" where
  "publish_plans [] f = (f, Inr ())"
| "publish_plans (i # idxs) f =
     (case publish_segment_plan i f of
        (f', Inl e) \<Rightarrow> (f', Inl e)
      | (f', Inr _) \<Rightarrow> publish_plans idxs f')"

definition submit_cursor_plan :: "frontend \<Rightarrow> frontend \<times> (py_error, unit) result" where
  "submit_cursor_plan f = (if fs_plan f = None then (f, Inr ()) else publish_plans (map fst (fs_order f)) f)"

section \<open>Actions to requests\<close>

definition segment_priority :: "frontend \<Rightarrow> segment_action \<Rightarrow> request_priority" where
  "segment_priority f sa =
     (if sa_segment sa = 0 \<and> fs_submitted f = 0 then FIRST_SEGMENT
      else if 0 < sa_local sa then CONTINUATION
      else if 0 < sa_segment sa \<and> sa_segment sa - 1 \<in> sp_flushing (fs_spliter f) then CONTINUATION
      else PREFETCHED)"

definition dispatch_prefill :: "segment_action \<Rightarrow> frontend \<Rightarrow> frontend \<times> (py_error, unit) result" where
  "dispatch_prefill sa f =
     (let i = sa_segment sa;
          priority = segment_priority f sa;
          f1 = f\<lparr>fs_submitted := fs_submitted f + 1,
                 fs_order := dict_set i \<lparr>group_idx = sa_group sa, local_idx = sa_local sa, group_final = sa_final sa\<rparr> (fs_order f)\<rparr>
      in case cursor_plan_for_segment i f1 of
           Inl e \<Rightarrow> (f1, Inl e)
         | Inr plan \<Rightarrow>
             let f2 = (case plan of None \<Rightarrow> f1 | Some p \<Rightarrow> f1\<lparr>fs_segment_plans := dict_set i p (fs_segment_plans f1)\<rparr>)
             in (put ((request START_TOKENS (fs_session_id f))\<lparr>rq_segment := i, rq_priority := priority,
                        rq_tokens := Some [ar_token (sa_action sa)], rq_plan := plan\<rparr>) f2, Inr ()))"

definition same_batch :: "segment_action \<Rightarrow> segment_action \<Rightarrow> bool" where
  "same_batch sa c \<longleftrightarrow> sa_segment c = sa_segment sa \<and> sa_group c = sa_group sa \<and> ar_type (sa_action c) = ADecode"

definition dispatch_decode :: "segment_action \<Rightarrow> segment_action list \<Rightarrow> frontend \<Rightarrow> frontend" where
  "dispatch_decode sa batch f =
     put ((request APPEND_TOKENS (fs_session_id f))\<lparr>rq_segment := sa_segment sa, rq_priority := segment_priority f sa,
            rq_tokens := Some (map (\<lambda>a. ar_token (sa_action a)) (sa # batch))\<rparr>) f"

definition dispatch_flush :: "segment_action \<Rightarrow> frontend \<Rightarrow> frontend" where
  "dispatch_flush sa f =
     put ((request SEGMENT_TOKENS_DONE (fs_session_id f))\<lparr>rq_segment := sa_segment sa,
            rq_append_eos := (ar_type (sa_action sa) = AFlushEos)\<rparr>) f"

function dispatch_segment_actions :: "segment_action list \<Rightarrow> frontend \<Rightarrow> frontend \<times> (py_error, unit) result" where
  "dispatch_segment_actions [] f = (f, Inr ())"
| "dispatch_segment_actions (sa # rest) f =
     (case ar_type (sa_action sa) of
        APrefill \<Rightarrow>
          (case dispatch_prefill sa f of
             (f', Inl e) \<Rightarrow> (f', Inl e)
           | (f', Inr _) \<Rightarrow> dispatch_segment_actions rest f')
      | ADecode \<Rightarrow>
          dispatch_segment_actions (dropWhile (same_batch sa) rest) (dispatch_decode sa (takeWhile (same_batch sa) rest) f)
      | _ \<Rightarrow> dispatch_segment_actions rest (dispatch_flush sa f))"
  by pat_completeness auto

termination
  by (relation "measure (\<lambda>(actions, _). length actions)") (auto simp: le_imp_less_Suc length_dropWhile_le)

definition spliter_has_dispatched_all_input :: "frontend \<Rightarrow> bool" where
  "spliter_has_dispatched_all_input f \<longleftrightarrow>
     (let s = fs_spliter f
      in sp_pending s = [] \<and> list_all (\<lambda>i. i \<in> sp_flushing s \<or> i \<in> sp_done s) (map fst (sp_drivers s)))"

definition maybe_send_session_tokens_done :: "frontend \<Rightarrow> frontend" where
  "maybe_send_session_tokens_done f =
     (if fs_tokens_done_sent f \<or> \<not> fs_input_complete f \<or> \<not> spliter_has_dispatched_all_input f then f
      else (submit_session_tokens_done f)\<lparr>fs_tokens_done_sent := True\<rparr>)"

section \<open>Segment records and text events\<close>

definition token_action :: "segment_action \<Rightarrow> bool" where
  "token_action sa \<longleftrightarrow> sa_text sa \<noteq> [] \<and> is_token (sa_action sa)"

text \<open>A \<open>SegmentAction\<close> has no attribute \<open>token_id\<close>, so \<open>getattr\<close> gives the default.\<close>

definition token_key_of :: "segment_action \<Rightarrow> token_key" where
  "token_key_of sa = (sa_segment sa, - 1, sa_text sa, sa_nstart sa, sa_nend sa, sa_rstart sa, sa_rend sa)"

definition record_action :: "segment_action \<Rightarrow> frontend \<Rightarrow> frontend" where
  "record_action sa f =
     (if \<not> token_action sa then f
      else let i = sa_segment sa; keys = dict_get i [] (fs_token_keys f)
           in if token_key_of sa \<in> set keys then f
              else f\<lparr>fs_token_keys := dict_set i (token_key_of sa # keys) (fs_token_keys f),
                     fs_texts := dict_set i (dict_get i [] (fs_texts f) @ sa_text sa) (fs_texts f),
                     fs_token_spans := dict_set i
                       (dict_get i [] (fs_token_spans f) @ [(sa_nstart sa, sa_nend sa, sa_rstart sa, sa_rend sa)]) (fs_token_spans f),
                     fs_bounds := dict_set i
                       (case map_of (fs_bounds f) i of
                          None \<Rightarrow> (sa_nstart sa, sa_nend sa)
                        | Some (a, b) \<Rightarrow> (min a (sa_nstart sa), max b (sa_nend sa))) (fs_bounds f)\<rparr>)"

definition record_segment_text :: "segment_action list \<Rightarrow> frontend \<Rightarrow> frontend" where
  "record_segment_text actions f = fold record_action actions f"

definition segment_event_meta :: "segment_action \<Rightarrow> (string \<times> string) list" where
  "segment_event_meta sa =
     [(''group_idx'', int_str (sa_group sa)), (''local_idx'', int_str (sa_local sa)), (''group_final'', bool_str (sa_final sa)),
      (''raw_codepoint_start'', int_str (sa_rstart sa)), (''raw_codepoint_end'', int_str (sa_rend sa)),
      (''normalized_codepoint_start'', int_str (sa_nstart sa)), (''normalized_codepoint_end'', int_str (sa_nend sa))]"

definition emit_text_token :: "(nat \<Rightarrow> string) \<Rightarrow> segment_action \<Rightarrow> frontend \<Rightarrow> frontend" where
  "emit_text_token cat sa f =
     (if \<not> token_action sa then f
      else let i = sa_segment sa; n = dict_get i 0 (fs_emitted_count f)
           in f\<lparr>fs_emitted_count := dict_set i (n + 1) (fs_emitted_count f),
                fs_events := fs_events f @
                  [TextToken i (sa_text sa) (segment_event_meta sa @
                     [(''token_idx'', int_str n), (''punct_level'', int_str (classify_punct_level cat (sa_text sa))),
                      (''text_complete'', ''false'')])]\<rparr>)"

definition emit_text_token_events :: "(nat \<Rightarrow> string) \<Rightarrow> segment_action list \<Rightarrow> frontend \<Rightarrow> frontend" where
  "emit_text_token_events cat actions f = (if \<not> fs_callback f then f else fold (emit_text_token cat) actions f)"

definition flush_value :: "action_result \<Rightarrow> string" where
  "flush_value r = (if ar_type r = AFlushEos then ''flush_eos'' else ''flush_nop'')"

definition emit_text_boundary :: "segment_action \<Rightarrow> frontend \<Rightarrow> frontend" where
  "emit_text_boundary sa f =
     (let i = sa_segment sa
      in if \<not> flush_action (sa_action sa) \<or> i \<in> fs_boundary_emitted f then f
         else f\<lparr>fs_boundary_emitted := insert i (fs_boundary_emitted f),
                fs_events := fs_events f @
                  [TextBoundary i (dict_get i [] (fs_texts f)) (segment_event_meta sa @
                     [(''boundary_reason'', flush_value (sa_action sa)), (''text_complete'', ''true'')])]\<rparr>)"

definition emit_text_boundary_events :: "segment_action list \<Rightarrow> frontend \<Rightarrow> frontend" where
  "emit_text_boundary_events actions f = (if \<not> fs_callback f then f else fold emit_text_boundary actions f)"

section \<open>The frontend around the dispatcher\<close>

definition plan_changed :: "int \<times> cursor_label_plan \<Rightarrow> frontend \<Rightarrow> (py_error, bool) result" where
  "plan_changed ip f =
     (case cursor_plan_for_segment (fst ip) f of
        Inl e \<Rightarrow> Inl e
      | Inr p \<Rightarrow> Inr (map_option cursor_plan_payload p \<noteq> Some (cursor_plan_payload (snd ip))))"

fun any_plan_changed :: "(int \<times> cursor_label_plan) list \<Rightarrow> frontend \<Rightarrow> (py_error, bool) result" where
  "any_plan_changed [] f = Inr False"
| "any_plan_changed (ip # ips) f =
     (if fst ip \<notin> fst ` set (fs_order f) then any_plan_changed ips f
      else case plan_changed ip f of
             Inl e \<Rightarrow> Inl e
           | Inr b \<Rightarrow> if b then Inr True else any_plan_changed ips f)"

definition refresh_segment_plans :: "frontend \<Rightarrow> frontend \<times> (py_error, unit) result" where
  "refresh_segment_plans f =
     (case fs_plan f of
        None \<Rightarrow> (f, Inr ())
      | Some plan \<Rightarrow>
          (case any_plan_changed (fs_segment_plans f) f of
             Inl e \<Rightarrow> (f, Inl e)
           | Inr b \<Rightarrow>
               if b
               then submit_cursor_plan (f\<lparr>fs_plan_revision := fs_plan_revision f + 1,
                                          fs_plan := Some (plan\<lparr>plan_revision := fs_plan_revision f + 1\<rparr>)\<rparr>)
               else (f, Inr ())))"

definition frontend_dispatch :: "(nat \<Rightarrow> string) \<Rightarrow> segment_action list \<Rightarrow> frontend \<Rightarrow> frontend \<times> (py_error, unit) result" where
  "frontend_dispatch cat actions f =
     (if actions = [] then (f, Inr ())
      else case refresh_segment_plans (record_segment_text actions f) of
        (f1, Inl e) \<Rightarrow> (f1, Inl e)
      | (f1, Inr _) \<Rightarrow>
          (case dispatch_segment_actions actions f1 of
             (f2, Inl e) \<Rightarrow> (f2, Inl e)
           | (f2, Inr _) \<Rightarrow> (emit_text_boundary_events actions (emit_text_token_events cat actions f2), Inr ())))"

subsection \<open>Packets\<close>

text \<open>The token marked for a commit boundary given as a normalized offset.\<close>

definition boundary_index :: "segment_token list \<Rightarrow> int \<Rightarrow> int" where
  "boundary_index ts boundary =
     (case filter (\<lambda>(i, t). normalized_end t \<le> boundary) (List.enumerate 0 ts) of [] \<Rightarrow> 0 | x # xs \<Rightarrow> int (fst (last (x # xs))))"

definition boundary_before_index :: "segment_token list \<Rightarrow> int \<Rightarrow> int" where
  "boundary_before_index ts boundary =
     (case filter (\<lambda>(i, t). boundary \<le> normalized_start t) (List.enumerate 0 ts) of
        [] \<Rightarrow> int (length ts) - 1
      | x # _ \<Rightarrow> int (fst x))"

definition packet_marks :: "segment_token list \<Rightarrow> int list \<Rightarrow> int list \<Rightarrow> marks \<Rightarrow> marks" where
  "packet_marks ts offsets before_offsets m =
     m\<lparr>force_boundary_indices := force_boundary_indices m @ map (boundary_index ts) offsets,
       force_boundary_before_indices := force_boundary_before_indices m @ map (boundary_before_index ts) before_offsets\<rparr>"

definition route_packet :: "frontend \<Rightarrow> segment_token list \<Rightarrow> marks \<Rightarrow> spliter_op" where
  "route_packet f ts m =
     (if fs_mode f = AUTO then FeedAuto (map TokenArg ts) m
      else if fs_mode f = LONG_SEGMENT \<and> fs_policy f \<noteq> GroupNone then PushGroup (map TokenArg ts) m
      else FeedTokens (map TokenArg ts) m)"

text \<open>A splitter call whose actions are dispatched.\<close>

type_synonym outcome = "(frontend \<times> (py_error, unit) result) option"

definition with_spliter :: "(rat \<Rightarrow> rat) \<Rightarrow> (nat \<Rightarrow> string) \<Rightarrow> spliter_op \<Rightarrow> frontend \<Rightarrow> outcome" where
  "with_spliter rnd cat op f =
     (case spliter_exec rnd cat op (fs_spliter f) of
        None \<Rightarrow> None
      | Some (s, Inl e) \<Rightarrow> Some (f\<lparr>fs_spliter := s\<rparr>, Inl e)
      | Some (s, Inr actions) \<Rightarrow> Some (frontend_dispatch cat actions (f\<lparr>fs_spliter := s\<rparr>)))"

definition then_maybe_done :: "outcome \<Rightarrow> outcome" where
  "then_maybe_done r =
     (case r of
        Some (f, Inr _) \<Rightarrow> Some (maybe_send_session_tokens_done f, Inr ())
      | _ \<Rightarrow> r)"

definition ingest_tokens ::
  "(rat \<Rightarrow> rat) \<Rightarrow> (nat \<Rightarrow> string) \<Rightarrow> segment_token list \<Rightarrow> int list \<Rightarrow> int list \<Rightarrow> marks \<Rightarrow> frontend \<Rightarrow> outcome" where
  "ingest_tokens rnd cat ts offsets before_offsets m f =
     (if fs_input_complete f \<or> ts = [] then Some (f, Inr ())
      else with_spliter rnd cat (route_packet f ts (packet_marks ts offsets before_offsets m)) f)"

text \<open>The end of the input, after the text front end has been flushed; FULL_TEXT input is set as a whole.\<close>

definition finish_input :: "(rat \<Rightarrow> rat) \<Rightarrow> (nat \<Rightarrow> string) \<Rightarrow> frontend \<Rightarrow> outcome" where
  "finish_input rnd cat f =
     (if fs_input_complete f then Some (f, Inr ())
      else let f1 = f\<lparr>fs_input_complete := True\<rparr>
           in if fs_mode f = LONG_SEGMENT \<and> fs_policy f \<noteq> GroupNone then then_maybe_done (Some (f1, Inr ()))
              else then_maybe_done (with_spliter rnd cat InputDone f1))"

definition finish_full_text ::
  "(rat \<Rightarrow> rat) \<Rightarrow> (nat \<Rightarrow> string) \<Rightarrow> segment_token list \<Rightarrow> int list \<Rightarrow> int list \<Rightarrow> frontend \<Rightarrow> outcome" where
  "finish_full_text rnd cat ts after before f =
     (if fs_input_complete f then Some (f, Inr ())
      else let f1 = f\<lparr>fs_input_complete := True\<rparr>
           in if ts = [] then then_maybe_done (Some (f1, Inr ()))
              else then_maybe_done (with_spliter rnd cat (SetFullText (map TokenArg ts) after before) f1))"

text \<open>The part of a segment end that concerns the splitter and the dispatcher.\<close>

definition forget_segment :: "int \<Rightarrow> frontend \<Rightarrow> frontend" where
  "forget_segment i f =
     f\<lparr>fs_segment_plans := dict_pop i (fs_segment_plans f), fs_published := dict_pop i (fs_published f),
       fs_bounds := dict_pop i (fs_bounds f), fs_token_spans := dict_pop i (fs_token_spans f),
       fs_token_keys := dict_pop i (fs_token_keys f)\<rparr>"

definition segment_ended :: "(rat \<Rightarrow> rat) \<Rightarrow> (nat \<Rightarrow> string) \<Rightarrow> int \<Rightarrow> frontend \<Rightarrow> outcome" where
  "segment_ended rnd cat i f =
     (case spliter_exec rnd cat (SegmentDone i) (fs_spliter f) of
        None \<Rightarrow> None
      | Some (s, Inl e) \<Rightarrow> Some (f\<lparr>fs_spliter := s\<rparr>, Inl e)
      | Some (s, Inr actions) \<Rightarrow>
          then_maybe_done (Some (frontend_dispatch cat actions (forget_segment i (f\<lparr>fs_spliter := s\<rparr>)))))"

section \<open>Dispatch is exact\<close>

text \<open>What the engine is told: a token of a segment, or the end of a segment.\<close>

datatype engine_feed = Feed int int | FeedEnd int bool

definition request_feed :: "engine_request \<Rightarrow> engine_feed list" where
  "request_feed r =
     (case rq_type r of
        START_TOKENS \<Rightarrow> map (Feed (rq_segment r)) (the (rq_tokens r))
      | APPEND_TOKENS \<Rightarrow> map (Feed (rq_segment r)) (the (rq_tokens r))
      | SEGMENT_TOKENS_DONE \<Rightarrow> [FeedEnd (rq_segment r) (rq_append_eos r)]
      | _ \<Rightarrow> [])"

definition action_feed :: "segment_action \<Rightarrow> engine_feed" where
  "action_feed sa =
     (if is_token (sa_action sa) then Feed (sa_segment sa) (ar_token (sa_action sa))
      else FeedEnd (sa_segment sa) (ar_type (sa_action sa) = AFlushEos))"

definition feeds :: "engine_request list \<Rightarrow> engine_feed list" where
  "feeds rs = concat (map request_feed rs)"

lemma feeds_append [simp]: "feeds (xs @ ys) = feeds xs @ feeds ys"
  by (simp add: feeds_def)

lemma feeds_Nil [simp]: "feeds [] = []"
  by (simp add: feeds_def)

lemma feeds_Cons [simp]: "feeds (r # rs) = request_feed r @ feeds rs"
  by (simp add: feeds_def)

definition done_requests :: "engine_request list \<Rightarrow> nat" where
  "done_requests rs = length (filter (\<lambda>r. rq_type r = SESSION_TOKENS_DONE) rs)"

lemma done_requests_append [simp]: "done_requests (xs @ ys) = done_requests xs + done_requests ys"
  by (simp add: done_requests_def)

text \<open>The part of the state that requests depend on but that no request changes.\<close>

definition control :: "frontend \<Rightarrow> spliter \<times> bool \<times> bool \<times> input_mode \<times> group_policy \<times> string" where
  "control f = (fs_spliter f, fs_input_complete f, fs_tokens_done_sent f, fs_mode f, fs_policy f, fs_session_id f)"

definition spans_ok :: "(int \<times> (int \<times> int)) list \<Rightarrow> bool" where
  "spans_ok bs \<longleftrightarrow> list_all (\<lambda>(i, a, b). 0 \<le> a \<and> a \<le> b) bs"

text \<open>A session whose cursor plan, if any, has exact label offsets, and whose segment bounds are spans.\<close>

definition cursor_ready :: "frontend \<Rightarrow> bool" where
  "cursor_ready f \<longleftrightarrow>
     (case fs_plan f of
        None \<Rightarrow> True
      | Some p \<Rightarrow> plan_ok p \<and> (label_normalized_spans p \<noteq> [] \<or> owner_spans p = [])) \<and>
     0 \<le> fs_plan_revision f \<and> spans_ok (fs_bounds f)"

lemma cursor_ready_plan:
  assumes "cursor_ready f"
  shows "\<exists>p. cursor_plan_for_segment i f = Inr p"
proof (cases "fs_plan f")
  case (Some plan)
  then have ok: "plan_ok plan" "label_normalized_spans plan \<noteq> [] \<or> owner_spans plan = []" "spans_ok (fs_bounds f)"
    using assms by (auto simp: cursor_ready_def)
  show ?thesis
  proof (cases "map_of (fs_bounds f) i")
    case bnd: (Some ab)
    obtain a b where ab: "ab = (a, b)" by fastforce
    have v: "0 \<le> a" "a \<le> b" using ok(3) map_of_SomeD [OF bnd] by (auto simp: ab spans_ok_def list_all_iff)
    have "\<exists>q. slice_cursor_label_plan a b plan = Inr q"
    proof (cases "label_normalized_spans plan = []")
      case True
      then show ?thesis using ok(2) v by (simp add: slice_cursor_label_plan_def)
    next
      case False
      then show ?thesis using slice_plan_exact [OF ok(1) False v] by (auto simp: Let_def)
    qed
    then obtain q where "slice_cursor_label_plan a b plan = Inr q" by blast
    then show ?thesis using Some bnd by (cases q) (auto simp: cursor_plan_for_segment_def ab)
  qed (simp add: cursor_plan_for_segment_def Some)
qed (simp add: cursor_plan_for_segment_def)

text \<open>Steps that keep the control state and the cursor state and add requests.\<close>

definition sends :: "frontend \<Rightarrow> engine_feed list \<Rightarrow> frontend \<Rightarrow> bool" where
  "sends f fs f' \<longleftrightarrow>
     control f' = control f \<and> cursor_ready f' \<and>
     (\<exists>new. fs_inbox f' = fs_inbox f @ new \<and> feeds new = fs \<and> done_requests new = 0)"

lemma sends_refl: "cursor_ready f \<Longrightarrow> sends f [] f"
  by (auto simp: sends_def done_requests_def)

lemma sends_trans: "sends f a f1 \<Longrightarrow> sends f1 b f2 \<Longrightarrow> sends f (a @ b) f2"
  unfolding sends_def by force

lemma sends_put:
  assumes "cursor_ready f" and "control f1 = control f" and "fs_plan f1 = fs_plan f" and "fs_bounds f1 = fs_bounds f"
    and "fs_plan_revision f1 = fs_plan_revision f" and "fs_inbox f1 = fs_inbox f" and "rq_type r \<noteq> SESSION_TOKENS_DONE"
  shows "sends f (request_feed r) (put r f1)"
  using assms by (auto simp: sends_def put_def control_def cursor_ready_def done_requests_def)

lemma dispatch_prefill_sends:
  assumes "cursor_ready f" and "ar_type (sa_action sa) = APrefill"
  shows "\<exists>f'. dispatch_prefill sa f = (f', Inr ()) \<and> sends f [action_feed sa] f'"
proof -
  let ?f1 = "f\<lparr>fs_submitted := fs_submitted f + 1,
      fs_order := dict_set (sa_segment sa) \<lparr>group_idx = sa_group sa, local_idx = sa_local sa, group_final = sa_final sa\<rparr> (fs_order f)\<rparr>"
  have "cursor_ready ?f1" using assms(1) by (simp add: cursor_ready_def)
  then obtain p where p: "cursor_plan_for_segment (sa_segment sa) ?f1 = Inr p" using cursor_ready_plan by blast
  let ?f2 = "case p of None \<Rightarrow> ?f1 | Some q \<Rightarrow> ?f1\<lparr>fs_segment_plans := dict_set (sa_segment sa) q (fs_segment_plans ?f1)\<rparr>"
  let ?r = "(request START_TOKENS (fs_session_id f))\<lparr>rq_segment := sa_segment sa, rq_priority := segment_priority f sa,
      rq_tokens := Some [ar_token (sa_action sa)], rq_plan := p\<rparr>"
  have "sends f (request_feed ?r) (put ?r ?f2)"
    by (rule sends_put [OF assms(1)]) (cases p; simp add: control_def request_def)+
  moreover have "request_feed ?r = [action_feed sa]"
    using assms(2) by (simp add: request_feed_def request_def action_feed_def is_token_def)
  moreover have "dispatch_prefill sa f = (put ?r ?f2, Inr ())" using p by (simp add: dispatch_prefill_def Let_def)
  ultimately show ?thesis by simp
qed

lemma dispatch_decode_sends:
  assumes "cursor_ready f" and "ar_type (sa_action sa) = ADecode" and "list_all (same_batch sa) batch"
  shows "sends f (map action_feed (sa # batch)) (dispatch_decode sa batch f)"
proof -
  let ?r = "(request APPEND_TOKENS (fs_session_id f))\<lparr>rq_segment := sa_segment sa, rq_priority := segment_priority f sa,
            rq_tokens := Some (map (\<lambda>a. ar_token (sa_action a)) (sa # batch))\<rparr>"
  have "request_feed ?r = map action_feed (sa # batch)"
    using assms(2,3) by (auto simp: request_feed_def request_def action_feed_def is_token_def same_batch_def list_all_iff)
  moreover have "sends f (request_feed ?r) (put ?r f)" by (rule sends_put [OF assms(1)]) (simp_all add: request_def)
  ultimately show ?thesis by (simp add: dispatch_decode_def)
qed

lemma dispatch_flush_sends:
  assumes "cursor_ready f" and "\<not> is_token (sa_action sa)"
  shows "sends f [action_feed sa] (dispatch_flush sa f)"
proof -
  let ?r = "(request SEGMENT_TOKENS_DONE (fs_session_id f))\<lparr>rq_segment := sa_segment sa,
            rq_append_eos := (ar_type (sa_action sa) = AFlushEos)\<rparr>"
  have "request_feed ?r = [action_feed sa]" using assms(2) by (simp add: request_feed_def request_def action_feed_def)
  moreover have "sends f (request_feed ?r) (put ?r f)" by (rule sends_put [OF assms(1)]) (simp_all add: request_def)
  ultimately show ?thesis by (simp add: dispatch_flush_def)
qed

lemma dispatch_sends:
  assumes "cursor_ready f"
  shows "\<exists>f'. dispatch_segment_actions actions f = (f', Inr ()) \<and> sends f (map action_feed actions) f'"
  using assms
proof (induction actions f rule: dispatch_segment_actions.induct)
  case (1 f)
  then show ?case by (simp add: sends_refl)
next
  case (2 sa rest f)
  let ?b = "takeWhile (same_batch sa) rest" and ?r = "dropWhile (same_batch sa) rest"
  have ready: "cursor_ready g" if "sends f a g" for a g using that by (simp add: sends_def)
  consider (p) "ar_type (sa_action sa) = APrefill" | (d) "ar_type (sa_action sa) = ADecode"
    | (f) "ar_type (sa_action sa) = AFlushEos \<or> ar_type (sa_action sa) = AFlushNop" by (cases "ar_type (sa_action sa)") auto
  then show ?case
  proof cases
    case p
    obtain f1 where f1: "dispatch_prefill sa f = (f1, Inr ())" "sends f [action_feed sa] f1"
      using dispatch_prefill_sends [OF "2.prems" p] by blast
    from "2.IH"(1) [OF p f1(1) [symmetric] refl ready [OF f1(2)]] obtain f2
      where f2: "dispatch_segment_actions rest f1 = (f2, Inr ())" "sends f1 (map action_feed rest) f2" by blast
    show ?thesis using p f1(1) f2(1) sends_trans [OF f1(2) f2(2)] by simp
  next
    case d
    have "list_all (same_batch sa) ?b" by (auto simp: list_all_iff dest: set_takeWhileD)
    note s = dispatch_decode_sends [OF "2.prems" d this]
    from "2.IH"(2) [OF d ready [OF s]] obtain f2
      where f2: "dispatch_segment_actions ?r (dispatch_decode sa ?b f) = (f2, Inr ())"
        "sends (dispatch_decode sa ?b f) (map action_feed ?r) f2" by blast
    have "map action_feed (sa # ?b) @ map action_feed ?r = map action_feed (sa # rest)" by (simp flip: map_append)
    then show ?thesis using d f2(1) sends_trans [OF s f2(2)] by simp
  next
    case f
    then have "\<not> is_token (sa_action sa)" by (auto simp: is_token_def)
    note s = dispatch_flush_sends [OF "2.prems" this]
    have "\<exists>f2. dispatch_segment_actions rest (dispatch_flush sa f) = (f2, Inr ()) \<and>
        sends (dispatch_flush sa f) (map action_feed rest) f2"
      using f "2.IH"(3,4) ready [OF s] by blast
    then obtain f2 where f2: "dispatch_segment_actions rest (dispatch_flush sa f) = (f2, Inr ())"
        "sends (dispatch_flush sa f) (map action_feed rest) f2" by blast
    show ?thesis using f f2(1) sends_trans [OF s f2(2)] by auto
  qed
qed

text \<open>Recording, plan updates and events do not feed the engine.\<close>

definition action_span_ok :: "segment_action \<Rightarrow> bool" where
  "action_span_ok sa \<longleftrightarrow> 0 \<le> sa_nstart sa \<and> sa_nstart sa \<le> sa_nend sa"

lemma spans_ok_set:
  assumes "spans_ok bs" and "0 \<le> a" and "a \<le> b"
  shows "spans_ok (dict_set i (a, b) bs)"
  using assms by (auto simp: spans_ok_def dict_set_def list_all_iff split: if_splits)

lemma record_action_sends:
  assumes "cursor_ready f" and "action_span_ok sa"
  shows "sends f [] (record_action sa f)"
proof -
  let ?b = "case map_of (fs_bounds f) (sa_segment sa) of None \<Rightarrow> (sa_nstart sa, sa_nend sa)
      | Some (a, b) \<Rightarrow> (min a (sa_nstart sa), max b (sa_nend sa))"
  have b: "spans_ok (fs_bounds f)" using assms(1) by (simp add: cursor_ready_def)
  have "spans_ok (dict_set (sa_segment sa) ?b (fs_bounds f))"
  proof (cases "map_of (fs_bounds f) (sa_segment sa)")
    case None
    then show ?thesis using assms(2) by (auto simp: action_span_ok_def intro: spans_ok_set [OF b])
  next
    case (Some ab)
    then have "0 \<le> fst ab" "fst ab \<le> snd ab" using b map_of_SomeD [OF Some] by (auto simp: spans_ok_def list_all_iff)
    then show ?thesis using Some assms(2) by (cases ab) (auto simp: action_span_ok_def intro!: spans_ok_set [OF b])
  qed
  then show ?thesis
    using assms(1) by (auto simp: sends_def record_action_def control_def cursor_ready_def done_requests_def Let_def)
qed

lemma record_text_sends:
  assumes "cursor_ready f" and "list_all action_span_ok actions"
  shows "sends f [] (record_segment_text actions f)"
  using assms
proof (induction actions arbitrary: f)
  case Nil
  then show ?case by (simp add: record_segment_text_def sends_refl)
next
  case (Cons sa actions)
  have s: "sends f [] (record_action sa f)" using Cons.prems by (intro record_action_sends) auto
  then have "cursor_ready (record_action sa f)" by (simp add: sends_def)
  from sends_trans [OF s Cons.IH [OF this]] Cons.prems(2) show ?case by (simp add: record_segment_text_def)
qed

lemma publish_plans_sends:
  assumes "cursor_ready f"
  shows "\<exists>f'. publish_plans idxs f = (f', Inr ()) \<and> sends f [] f'"
  using assms
proof (induction idxs arbitrary: f)
  case Nil
  then show ?case by (simp add: sends_refl)
next
  case (Cons i idxs)
  have "\<exists>f1. publish_segment_plan i f = (f1, Inr ()) \<and> sends f [] f1"
  proof -
    obtain p where p: "cursor_plan_for_segment i f = Inr p" using cursor_ready_plan [OF Cons.prems] by blast
    show ?thesis
    proof (cases p)
      case None
      then show ?thesis using p Cons.prems by (simp add: publish_segment_plan_def sends_refl)
    next
      case (Some plan)
      let ?f1 = "f\<lparr>fs_segment_plans := dict_set i plan (fs_segment_plans f)\<rparr>"
      let ?f2 = "?f1\<lparr>fs_published := dict_set i (cursor_plan_payload plan) (fs_published ?f1)\<rparr>"
      let ?r = "(request UPDATE_CURSOR_PLAN (fs_session_id f))\<lparr>rq_segment := i, rq_plan := Some plan\<rparr>"
      have "sends f (request_feed ?r) (put ?r ?f2)"
        by (rule sends_put [OF Cons.prems]) (simp_all add: control_def request_def)
      then have "sends f [] (put ?r ?f2)" by (simp add: request_feed_def request_def)
      moreover have "sends f [] ?f1" using Cons.prems by (simp add: sends_def control_def cursor_ready_def done_requests_def)
      ultimately show ?thesis using p Some by (auto simp: publish_segment_plan_def Let_def)
    qed
  qed
  then obtain f1 where f1: "publish_segment_plan i f = (f1, Inr ())" "sends f [] f1" by blast
  then have "cursor_ready f1" by (simp add: sends_def)
  from Cons.IH [OF this] obtain f2 where "publish_plans idxs f1 = (f2, Inr ())" "sends f1 [] f2" by blast
  with f1 sends_trans [OF f1(2)] show ?case by fastforce
qed

lemma plan_ok_revision: "plan_ok p \<Longrightarrow> 0 \<le> n \<Longrightarrow> plan_ok (p\<lparr>plan_revision := n\<rparr>)"
  by (cases p) (auto simp: plan_ok_def plan_error_def label_count_def split: if_splits option.splits)

lemma refresh_sends:
  assumes "cursor_ready f"
  shows "\<exists>f'. refresh_segment_plans f = (f', Inr ()) \<and> sends f [] f'"
proof (cases "fs_plan f")
  case None
  then show ?thesis using assms by (simp add: refresh_segment_plans_def sends_refl)
next
  case (Some plan)
  have "\<exists>b. any_plan_changed ips f = Inr b" for ips
  proof (induction ips)
    case (Cons ip ips)
    obtain p where "cursor_plan_for_segment (fst ip) f = Inr p" using cursor_ready_plan [OF assms] by blast
    with Cons show ?case by (auto simp: plan_changed_def)
  qed (auto intro: exI [of _ False])
  then obtain b where b: "any_plan_changed (fs_segment_plans f) f = Inr b" by blast
  show ?thesis
  proof (cases b)
    case False
    then show ?thesis using Some b assms by (simp add: refresh_segment_plans_def sends_refl)
  next
    case True
    let ?f1 = "f\<lparr>fs_plan_revision := fs_plan_revision f + 1, fs_plan := Some (plan\<lparr>plan_revision := fs_plan_revision f + 1\<rparr>)\<rparr>"
    have r: "cursor_ready ?f1" using assms Some plan_ok_revision by (auto simp: cursor_ready_def)
    then have "sends f [] ?f1" by (simp add: sends_def control_def done_requests_def)
    moreover obtain f2 where "publish_plans (map fst (fs_order ?f1)) ?f1 = (f2, Inr ())" "sends ?f1 [] f2"
      using publish_plans_sends [OF r] by blast
    ultimately show ?thesis
      using Some b True sends_trans [of f "[]" ?f1 "[]" f2] by (auto simp: refresh_segment_plans_def submit_cursor_plan_def)
  qed
qed

lemma events_sends:
  assumes "cursor_ready f"
  shows "sends f [] (emit_text_boundary_events actions (emit_text_token_events cat actions f))"
proof -
  define same where "same f g \<longleftrightarrow> control g = control f \<and> cursor_ready g = cursor_ready f \<and> fs_inbox g = fs_inbox f" for f g
  have tok: "same f (emit_text_token cat sa f)" "same f (emit_text_boundary sa f)" for sa f
    by (simp_all add: same_def emit_text_token_def emit_text_boundary_def control_def cursor_ready_def Let_def)
  have fold: "same f (fold e actions f)" if "\<And>sa f. same f (e sa f)" for e f
  proof (induction actions arbitrary: f)
    case Nil
    then show ?case by (simp add: same_def)
  next
    case (Cons sa actions)
    with that [of f sa] show ?case by (simp add: same_def)
  qed
  have t: "same f (emit_text_token_events cat actions f)" for f
    using fold [OF tok(1)] by (simp add: emit_text_token_events_def) (simp add: same_def)
  have b: "same f (emit_text_boundary_events actions f)" for f
    using fold [OF tok(2)] by (simp add: emit_text_boundary_events_def) (simp add: same_def)
  have "same f (emit_text_boundary_events actions (emit_text_token_events cat actions f))"
    using t [of f] b [of "emit_text_token_events cat actions f"] by (simp add: same_def)
  then show ?thesis using assms by (simp add: same_def sends_def done_requests_def)
qed

lemma frontend_dispatch_sends:
  assumes "cursor_ready f" and "list_all action_span_ok actions"
  shows "\<exists>f'. frontend_dispatch cat actions f = (f', Inr ()) \<and> sends f (map action_feed actions) f'"
proof (cases "actions = []")
  case True
  then show ?thesis using assms by (simp add: frontend_dispatch_def sends_refl)
next
  case False
  have ready: "sends g a h \<Longrightarrow> cursor_ready h" for g a h by (simp add: sends_def)
  note s0 = record_text_sends [OF assms]
  obtain f1 where f1: "refresh_segment_plans (record_segment_text actions f) = (f1, Inr ())"
    "sends (record_segment_text actions f) [] f1" using refresh_sends [OF ready [OF s0]] by blast
  obtain f2 where f2: "dispatch_segment_actions actions f1 = (f2, Inr ())" "sends f1 (map action_feed actions) f2"
    using dispatch_sends [OF ready [OF f1(2)]] by blast
  note s = sends_trans [OF sends_trans [OF sends_trans [OF s0 f1(2)] f2(2)] events_sends [OF ready [OF f2(2)]]]
  show ?thesis using False f1(1) f2(1) s by (auto simp: frontend_dispatch_def)
qed

section \<open>Sessions\<close>

datatype frontend_call =
    Packet "segment_token list" "int list" "int list" marks
  | FinishInput
  | FinishFullText "segment_token list" "int list" "int list"
  | SegmentEnd int
  | RatioUpdate rat

text \<open>A ratio update of the engine.\<close>

definition ratio_update :: "(rat \<Rightarrow> rat) \<Rightarrow> (nat \<Rightarrow> string) \<Rightarrow> rat \<Rightarrow> frontend \<Rightarrow> outcome" where
  "ratio_update rnd cat v f = (if 0 < v then with_spliter rnd cat (SetRatio (Fin v)) f else Some (f, Inr ()))"

fun frontend_exec :: "(rat \<Rightarrow> rat) \<Rightarrow> (nat \<Rightarrow> string) \<Rightarrow> frontend_call \<Rightarrow> frontend \<Rightarrow> outcome" where
  "frontend_exec rnd cat (Packet ts offsets befores m) f = ingest_tokens rnd cat ts offsets befores m f"
| "frontend_exec rnd cat FinishInput f = finish_input rnd cat f"
| "frontend_exec rnd cat (FinishFullText ts after before) f = finish_full_text rnd cat ts after before f"
| "frontend_exec rnd cat (SegmentEnd i) f = segment_ended rnd cat i f"
| "frontend_exec rnd cat (RatioUpdate v) f = ratio_update rnd cat v f"

text \<open>The tokens a call brings: none once the input is complete.\<close>

fun call_text :: "frontend_call \<Rightarrow> frontend \<Rightarrow> segment_token list" where
  "call_text (Packet ts offsets befores m) f = (if fs_input_complete f then [] else ts)"
| "call_text (FinishFullText ts after before) f = (if fs_input_complete f then [] else ts)"
| "call_text _ f = []"

definition token_span_ok :: "segment_token \<Rightarrow> bool" where
  "token_span_ok t \<longleftrightarrow> 0 \<le> normalized_start t \<and> normalized_start t \<le> normalized_end t"

text \<open>The calls a session makes: tokens have spans, an ended segment has been opened, and a full text
  is set before anything else.\<close>

fun call_allowed :: "frontend_call \<Rightarrow> frontend \<Rightarrow> bool" where
  "call_allowed (Packet ts offsets befores m) f \<longleftrightarrow> list_all token_span_ok ts"
| "call_allowed (FinishFullText ts after before) f \<longleftrightarrow>
     list_all token_span_ok ts \<and> sp_next_segment (fs_spliter f) = 0 \<and> sp_pending (fs_spliter f) = []"
| "call_allowed (SegmentEnd i) f \<longleftrightarrow> 0 \<le> i \<and> i < sp_next_segment (fs_spliter f)"
| "call_allowed _ f \<longleftrightarrow> True"

text \<open>
  The session invariant: the engine has been fed the actions of the history, and the end of the
  tokens has been announced at most once, after the input was complete and everything was fed.
\<close>

definition announced :: "engine_request list \<Rightarrow> engine_feed list \<Rightarrow> bool" where
  "announced inbox fed \<longleftrightarrow>
     (\<exists>pre r post. inbox = pre @ r # post \<and> rq_type r = SESSION_TOKENS_DONE \<and> done_requests pre = 0 \<and> done_requests post = 0 \<and>
        feeds pre = fed \<and> feeds post = [])"

definition session_ok :: "(rat \<Rightarrow> rat) \<Rightarrow> int \<Rightarrow> history \<Rightarrow> frontend \<Rightarrow> bool" where
  "session_ok rnd cap segs f \<longleftrightarrow>
     spliter_ok rnd cap segs (fs_spliter f) \<and> config_ok rnd (fs_spliter f) \<and> settled (fs_spliter f) \<and> cursor_ready f \<and>
     list_all token_span_ok (spoken segs @ queued (fs_spliter f)) \<and>
     feeds (fs_inbox f) = map action_feed (render 0 segs) \<and>
     (if fs_tokens_done_sent f
      then fs_input_complete f \<and> spliter_has_dispatched_all_input f \<and> announced (fs_inbox f) (map action_feed (render 0 segs))
      else done_requests (fs_inbox f) = 0)"

lemma dispatched_all_idle:
  assumes "segments_ok (fs_spliter f)" and "spliter_has_dispatched_all_input f"
  shows "sp_pending (fs_spliter f) = []" "live (fs_spliter f) = {}"
proof -
  show "sp_pending (fs_spliter f) = []" using assms(2) by (simp add: spliter_has_dispatched_all_input_def Let_def)
  have "list_all (\<lambda>i. i \<in> sp_flushing (fs_spliter f) \<or> i \<in> sp_done (fs_spliter f)) (map fst (sp_drivers (fs_spliter f)))"
    using assms(2) by (simp add: spliter_has_dispatched_all_input_def Let_def)
  moreover have "set (map fst (sp_drivers (fs_spliter f))) = {0..<sp_next_segment (fs_spliter f)} - sp_done (fs_spliter f)"
    using assms(1) by (simp add: segments_ok_def)
  ultimately have "\<forall>i \<in> {0..<sp_next_segment (fs_spliter f)} - sp_done (fs_spliter f).
      i \<in> sp_flushing (fs_spliter f) \<or> i \<in> sp_done (fs_spliter f)" unfolding list_all_iff by (simp only:)
  then show "live (fs_spliter f) = {}" by (auto simp: live_def)
qed

text \<open>The spans of the actions of a history are those of its tokens.\<close>

lemma render_spans:
  assumes "list_all (good_segment cap) segs" and "list_all token_span_ok (spoken segs)"
  shows "list_all action_span_ok (render i segs)"
  using assms
proof (induction i segs rule: render.induct)
  case (2 i ts cl segs)
  have tok: "list_all action_span_ok (token_actions i (i, 0) True b us)" if "list_all token_span_ok us" for b us
    using that by (induction us arbitrary: b) (auto simp: action_span_ok_def token_span_ok_def to_action_def)
  have "list_all token_span_ok ts" "ts \<noteq> []" "\<forall>t. cl = ByToken t \<longrightarrow> t = last ts"
    using "2.prems" by (auto simp: good_segment_def spoken_def)
  then have "list_all action_span_ok (closing_actions i (i, 0) True cl)"
    by (cases cl) (auto simp: action_span_ok_def token_span_ok_def to_action_def list_all_iff)
  with 2 tok [OF \<open>list_all token_span_ok ts\<close>] show ?case by (simp add: segment_actions_def spoken_def)
qed simp

lemma session_parts:
  assumes "session_ok rnd cap segs f"
  shows "spliter_ok rnd cap segs (fs_spliter f)" "config_ok rnd (fs_spliter f)" "settled (fs_spliter f)" "cursor_ready f"
    "segments_ok (fs_spliter f)"
  using assms by (auto simp: session_ok_def spliter_ok_def)


lemma dispatch_step:
  assumes ok: "session_ok rnd cap segs f" and op: "op_ok rnd cap segs new (fs_spliter f) (Some (s', Inr acts))"
    and new: "list_all token_span_ok new" and g: "fs_spliter g = s'" "cursor_ready g" "fs_inbox g = fs_inbox f"
      "fs_tokens_done_sent g = fs_tokens_done_sent f" "fs_input_complete f \<longrightarrow> fs_input_complete g"
    and sent: "fs_tokens_done_sent f \<longrightarrow> acts = [] \<and> spliter_has_dispatched_all_input g"
  shows "\<exists>f' segs'. frontend_dispatch cat acts g = (f', Inr ()) \<and> session_ok rnd cap segs' f' \<and> control f' = control g \<and> fs_spliter f' = s' \<and>
           spoken segs' @ queued (fs_spliter f') = spoken segs @ queued (fs_spliter f) @ new"
proof -
  obtain segs' where o: "spliter_ok rnd cap segs' s'" "config_ok rnd s'" "settled s'" "render 0 segs' = render 0 segs @ acts"
    "spoken segs' @ queued s' = spoken segs @ queued (fs_spliter f) @ new" using op by (auto simp: op_ok_def)
  have f: "feeds (fs_inbox f) = map action_feed (render 0 segs)" "list_all token_span_ok (spoken segs @ queued (fs_spliter f))"
    using ok by (auto simp: session_ok_def)
  have v: "list_all token_span_ok (spoken segs' @ queued s')" unfolding o(5) using f(2) new by simp
  have "list_all (good_segment cap) segs'" using o(1) by (simp add: spliter_ok_def history_ok_good)
  then have "list_all action_span_ok (render 0 segs')" using v by (intro render_spans [of cap]) auto
  then have "list_all action_span_ok acts" unfolding o(4) by simp
  then obtain f' where f': "frontend_dispatch cat acts g = (f', Inr ())" "sends g (map action_feed acts) f'"
    using frontend_dispatch_sends [OF g(2)] by blast
  then have ctl: "control f' = control g" "cursor_ready f'" by (auto simp: sends_def)
  obtain more where more: "fs_inbox f' = fs_inbox f @ more" "feeds more = map action_feed acts" "done_requests more = 0"
    using f'(2) g(3) by (auto simp: sends_def)
  have c: "fs_spliter f' = s'" "fs_tokens_done_sent f' = fs_tokens_done_sent f" "fs_input_complete f' = fs_input_complete g"
    using ctl(1) g by (auto simp: control_def)
  have fd: "feeds (fs_inbox f') = map action_feed (render 0 segs')" by (simp add: more f(1) o(4))
  have "if fs_tokens_done_sent f'
      then fs_input_complete f' \<and> spliter_has_dispatched_all_input f' \<and> announced (fs_inbox f') (map action_feed (render 0 segs'))
      else done_requests (fs_inbox f') = 0"
  proof (cases "fs_tokens_done_sent f")
    case True
    then have s: "fs_input_complete f" "announced (fs_inbox f) (map action_feed (render 0 segs))"
      using ok by (auto simp: session_ok_def)
    have a: "acts = []" "spliter_has_dispatched_all_input g" using sent True by auto
    have "feeds more = []" using more(2) a(1) by simp
    then have "announced (fs_inbox f') (map action_feed (render 0 segs'))"
      using s(2) more o(4) a(1) unfolding announced_def by force
    moreover have "spliter_has_dispatched_all_input f'" using a(2) c(1) g(1) by (simp add: spliter_has_dispatched_all_input_def)
    ultimately show ?thesis using True s(1) g(5) c by simp
  next
    case False
    then show ?thesis using ok more c by (simp add: session_ok_def)
  qed
  then have "session_ok rnd cap segs' f'" using o c ctl v fd by (simp add: session_ok_def)
  with f'(1) ctl(1) o(5) c(1) show ?thesis by auto
qed

lemma maybe_done_ok:
  assumes "session_ok rnd cap segs f"
  shows "session_ok rnd cap segs (maybe_send_session_tokens_done f)" "fs_spliter (maybe_send_session_tokens_done f) = fs_spliter f"
    "fs_input_complete (maybe_send_session_tokens_done f) = fs_input_complete f" "fs_mode (maybe_send_session_tokens_done f) = fs_mode f"
    "fs_input_complete f \<Longrightarrow> spliter_has_dispatched_all_input f \<Longrightarrow> fs_tokens_done_sent (maybe_send_session_tokens_done f)"
proof -
  let ?r = "request SESSION_TOKENS_DONE (fs_session_id f)"
  have r: "request_feed ?r = []" "rq_type ?r = SESSION_TOKENS_DONE" by (simp_all add: request_feed_def request_def)
  have "announced (fs_inbox f @ [?r]) (map action_feed (render 0 segs))" if "\<not> fs_tokens_done_sent f"
    using assms that r unfolding announced_def session_ok_def
    by (intro exI [of _ "fs_inbox f"] exI [of _ ?r] exI [of _ "[]"]) (simp add: done_requests_def)
  then show "session_ok rnd cap segs (maybe_send_session_tokens_done f)"
    using assms r
    by (auto simp: maybe_send_session_tokens_done_def submit_session_tokens_done_def put_def session_ok_def cursor_ready_def
        spliter_has_dispatched_all_input_def)
qed (simp_all add: maybe_send_session_tokens_done_def submit_session_tokens_done_def put_def)

definition call_ok :: "(rat \<Rightarrow> rat) \<Rightarrow> int \<Rightarrow> history \<Rightarrow> segment_token list \<Rightarrow> frontend \<Rightarrow> outcome \<Rightarrow> bool" where
  "call_ok rnd cap segs new f r \<longleftrightarrow>
     (\<exists>f' segs'. r = Some (f', Inr ()) \<and> session_ok rnd cap segs' f' \<and>
        spoken segs' @ queued (fs_spliter f') = spoken segs @ queued (fs_spliter f) @ new \<and>
        sp_max_concurrent (fs_spliter f') = sp_max_concurrent (fs_spliter f) \<and> fs_mode f' = fs_mode f)"

lemma op_ok_max: "op_ok rnd cap segs new s (Some (s', Inr acts)) \<Longrightarrow> sp_max_concurrent s' = sp_max_concurrent s"
  by (auto simp: op_ok_def)

lemma call_ok_same: "session_ok rnd cap segs f \<Longrightarrow> call_ok rnd cap segs [] f (Some (f, Inr ()))"
  by (auto simp: call_ok_def)

lemma then_maybe_done_ok: "call_ok rnd cap segs new f r \<Longrightarrow> call_ok rnd cap segs new f (then_maybe_done r)"
  unfolding call_ok_def then_maybe_done_def using maybe_done_ok(1,2,4) by fastforce

lemma session_complete_ok: "session_ok rnd cap segs f \<Longrightarrow> session_ok rnd cap segs (f\<lparr>fs_input_complete := True\<rparr>)"
  by (auto simp: session_ok_def cursor_ready_def spliter_has_dispatched_all_input_def Let_def)

lemma with_spliter_ok:
  assumes ok: "session_ok rnd cap segs f" and "op_allowed op (fs_spliter f)" and "list_all token_span_ok (op_text cat op)"
    and "\<not> fs_tokens_done_sent f"
  shows "call_ok rnd cap segs (op_text cat op) f (with_spliter rnd cat op f)"
proof -
  note p = session_parts [OF ok]
  have op: "op_ok rnd cap segs (op_text cat op) (fs_spliter f) (spliter_exec rnd cat op (fs_spliter f))"
    by (rule spliter_exec_ok [OF p(1-3) assms(2)])
  then obtain s' acts where e: "spliter_exec rnd cat op (fs_spliter f) = Some (s', Inr acts)" by (auto simp: op_ok_def)
  have "cursor_ready (f\<lparr>fs_spliter := s'\<rparr>)" using p(4) by (simp add: cursor_ready_def)
  then obtain f' segs' where "frontend_dispatch cat acts (f\<lparr>fs_spliter := s'\<rparr>) = (f', Inr ())" "session_ok rnd cap segs' f'"
    "spoken segs' @ queued (fs_spliter f') = spoken segs @ queued (fs_spliter f) @ op_text cat op" "fs_spliter f' = s'"
    "fs_mode f' = fs_mode f" using dispatch_step [OF ok op [unfolded e] assms(3), of "f\<lparr>fs_spliter := s'\<rparr>" cat] assms(4) by (auto simp: control_def)
  then show ?thesis using op_ok_max [OF op [unfolded e]] by (auto simp: call_ok_def with_spliter_def e)
qed

lemma coerce_token_args [simp]: "coerce_tokens cat (map TokenArg ts) = ts"
  by (simp add: coerce_tokens_def coerce_token_def comp_def)

lemma sent_complete: "session_ok rnd cap segs f \<Longrightarrow> fs_tokens_done_sent f \<Longrightarrow> fs_input_complete f"
  by (simp add: session_ok_def)

lemma ingest_ok:
  assumes "session_ok rnd cap segs f" and "list_all token_span_ok ts"
  shows "call_ok rnd cap segs (if fs_input_complete f then [] else ts) f (ingest_tokens rnd cat ts offs befs m f)"
proof (cases "fs_input_complete f \<or> ts = []")
  case True
  then show ?thesis using call_ok_same [OF assms(1)] by (auto simp: ingest_tokens_def)
next
  case False
  let ?op = "route_packet f ts (packet_marks ts offs befs m)"
  have "op_text cat ?op = ts" "op_allowed ?op (fs_spliter f)" by (simp_all add: route_packet_def)
  with with_spliter_ok [OF assms(1), of ?op cat] assms False sent_complete [OF assms(1)] show ?thesis
    by (auto simp: ingest_tokens_def)
qed

lemma finish_input_ok:
  assumes "session_ok rnd cap segs f"
  shows "call_ok rnd cap segs [] f (finish_input rnd cat f)"
proof (cases "fs_input_complete f")
  case True
  then show ?thesis using call_ok_same [OF assms] by (simp add: finish_input_def)
next
  case False
  let ?f = "f\<lparr>fs_input_complete := True\<rparr>"
  have ok: "session_ok rnd cap segs ?f" by (rule session_complete_ok [OF assms])
  have "\<not> fs_tokens_done_sent ?f" using sent_complete [OF assms] False by auto
  then have "call_ok rnd cap segs [] ?f (with_spliter rnd cat InputDone ?f)"
    using with_spliter_ok [OF ok, of InputDone cat] by simp
  then have "call_ok rnd cap segs [] f (with_spliter rnd cat InputDone ?f)" "call_ok rnd cap segs [] f (Some (?f, Inr ()))"
    using call_ok_same [OF ok] by (simp_all add: call_ok_def)
  then show ?thesis using False by (auto simp: finish_input_def Let_def intro: then_maybe_done_ok)
qed

lemma finish_full_text_ok:
  assumes "session_ok rnd cap segs f" and "list_all token_span_ok ts"
    and "sp_next_segment (fs_spliter f) = 0" and "sp_pending (fs_spliter f) = []"
  shows "call_ok rnd cap segs (if fs_input_complete f then [] else ts) f (finish_full_text rnd cat ts after before f)"
proof (cases "fs_input_complete f")
  case True
  then show ?thesis using call_ok_same [OF assms(1)] by (simp add: finish_full_text_def)
next
  case False
  let ?f = "f\<lparr>fs_input_complete := True\<rparr>" and ?op = "SetFullText (map TokenArg ts) after before"
  have ok: "session_ok rnd cap segs ?f" by (rule session_complete_ok [OF assms(1)])
  have "\<not> fs_tokens_done_sent ?f" using sent_complete [OF assms(1)] False by auto
  then have "call_ok rnd cap segs ts ?f (with_spliter rnd cat ?op ?f)"
    using with_spliter_ok [OF ok, of ?op cat] assms(2-4) by simp
  then have "call_ok rnd cap segs ts f (with_spliter rnd cat ?op ?f)" "call_ok rnd cap segs [] f (Some (?f, Inr ()))"
    using call_ok_same [OF ok] by (simp_all add: call_ok_def)
  then show ?thesis using False by (auto simp: finish_full_text_def Let_def intro: then_maybe_done_ok)
qed

lemma drive_idle: "live s = {} \<Longrightarrow> sp_pending s = [] \<Longrightarrow> drive_events rnd s = Some (s, Inr [])"
proof -
  assume s: "live s = {}" "sp_pending s = []"
  have "get_active_driver_idx s = None" using s(1) by (auto simp: get_active_driver_idx_def find_None_iff live_def)
  then show ?thesis using s(2) by (subst drive_events.simps) (simp add: drive_one_segment_def)
qed

lemma forget_ready: "cursor_ready f \<Longrightarrow> cursor_ready (forget_segment i f)"
  by (auto simp: cursor_ready_def forget_segment_def spans_ok_def list_all_iff dict_pop_def split: option.splits)

lemma segment_end_ok:
  assumes ok: "session_ok rnd cap segs f" and i: "0 \<le> i" "i < sp_next_segment (fs_spliter f)"
  shows "call_ok rnd cap segs [] f (segment_ended rnd cat i f)"
proof -
  note p = session_parts [OF ok]
  let ?s = "fs_spliter f"
  have op: "op_ok rnd cap segs [] ?s (spliter_exec rnd cat (SegmentDone i) ?s)"
    using spliter_exec_ok [OF p(1-3), of "SegmentDone i" cat] i by simp
  then obtain s' acts where e: "spliter_exec rnd cat (SegmentDone i) ?s = Some (s', Inr acts)" by (auto simp: op_ok_def)
  let ?g = "forget_segment i (f\<lparr>fs_spliter := s'\<rparr>)"
  have g: "fs_spliter ?g = s'" "fs_inbox ?g = fs_inbox f" "fs_tokens_done_sent ?g = fs_tokens_done_sent f"
    "fs_input_complete ?g = fs_input_complete f" by (simp_all add: forget_segment_def)
  have "cursor_ready ?g" using p(4) by (intro forget_ready) (simp add: cursor_ready_def)
  moreover have "fs_mode ?g = fs_mode f" by (simp add: forget_segment_def)
  moreover have "acts = [] \<and> spliter_has_dispatched_all_input ?g" if sent: "fs_tokens_done_sent f"
  proof -
    have all: "spliter_has_dispatched_all_input f" using ok sent by (simp add: session_ok_def)
    note idle = dispatched_all_idle [OF p(5) all]
    let ?t = "?s\<lparr>sp_done := insert i (sp_done ?s), sp_flushing := sp_flushing ?s - {i}, sp_drivers := dict_pop i (sp_drivers ?s),
          sp_coords := dict_pop i (sp_coords ?s), sp_group_key := dict_pop i (sp_group_key ?s),
          sp_ema := dict_pop i (sp_ema ?s), sp_safety := dict_pop i (sp_safety ?s)\<rparr>"
    have "live ?t = {}" using idle(2) by (auto simp: live_def)
    then have "s' = ?t" "acts = []" using e drive_idle [of ?t rnd] idle(1) by (auto simp: on_segment_done_def)
    then show ?thesis using all g(1)
      by (auto simp: spliter_has_dispatched_all_input_def list_all_iff dict_pop_def Let_def)
  qed
  ultimately obtain f' segs' where "frontend_dispatch cat acts ?g = (f', Inr ())" "session_ok rnd cap segs' f'"
    "spoken segs' @ queued (fs_spliter f') = spoken segs @ queued ?s @ []" "fs_spliter f' = s'" "fs_mode f' = fs_mode f"
    using dispatch_step [OF ok op [unfolded e], of ?g cat] g by (auto simp: control_def)
  then have "call_ok rnd cap segs [] f (Some (frontend_dispatch cat acts ?g))"
    using op_ok_max [OF op [unfolded e]] by (auto simp: call_ok_def)
  then show ?thesis unfolding segment_ended_def e by (simp add: then_maybe_done_ok)
qed

lemma tighten_idle: "sp_pending s = [] \<Longrightarrow> tighten_pending_presplit_plans rnd s = (s, Inr ())"
  by (simp add: tighten_pending_presplit_plans_def)

lemma ratio_update_ok:
  assumes ok: "session_ok rnd cap segs f"
  shows "call_ok rnd cap segs [] f (ratio_update rnd cat v f)"
proof (cases "0 < v \<and> fs_tokens_done_sent f")
  case False
  then show ?thesis
    using call_ok_same [OF ok] with_spliter_ok [OF ok, of "SetRatio (Fin v)" cat] by (auto simp: ratio_update_def)
next
  case True
  note p = session_parts [OF ok]
  let ?s = "fs_spliter f"
  have op: "op_ok rnd cap segs [] ?s (spliter_exec rnd cat (SetRatio (Fin v)) ?s)"
    using spliter_exec_ok [OF p(1-3), of "SetRatio (Fin v)" cat] True by simp
  then obtain s' acts where e: "spliter_exec rnd cat (SetRatio (Fin v)) ?s = Some (s', Inr acts)" by (auto simp: op_ok_def)
  have all: "spliter_has_dispatched_all_input f" using ok True by (simp add: session_ok_def)
  note idle = dispatched_all_idle [OF p(5) all]
  have "acts = []" "sp_pending s' = sp_pending ?s" "sp_drivers s' = sp_drivers ?s" "sp_flushing s' = sp_flushing ?s" "sp_done s' = sp_done ?s"
    using e idle(1) by (auto simp: spliter_set_duration_ratio_def no_actions_def tighten_idle set_duration_ratio_def Let_def
        split: if_splits sum.splits)
  then have all': "spliter_has_dispatched_all_input (f\<lparr>fs_spliter := s'\<rparr>)" "acts = []"
    using all by (simp_all add: spliter_has_dispatched_all_input_def Let_def)
  have "cursor_ready (f\<lparr>fs_spliter := s'\<rparr>)" using p(4) by (simp add: cursor_ready_def)
  then obtain f' segs' where "frontend_dispatch cat acts (f\<lparr>fs_spliter := s'\<rparr>) = (f', Inr ())" "session_ok rnd cap segs' f'"
    "spoken segs' @ queued (fs_spliter f') = spoken segs @ queued ?s @ []" "fs_spliter f' = s'" "fs_mode f' = fs_mode f"
    using dispatch_step [OF ok op [unfolded e], of "f\<lparr>fs_spliter := s'\<rparr>" cat] all' by (auto simp: control_def)
  then show ?thesis using True e op_ok_max [OF op [unfolded e]] by (auto simp: call_ok_def ratio_update_def with_spliter_def)
qed

lemma frontend_exec_ok:
  assumes "session_ok rnd cap segs f" and "call_allowed call f"
  shows "call_ok rnd cap segs (call_text call f) f (frontend_exec rnd cat call f)"
  using assms by (cases call) (simp_all add: ingest_ok finish_input_ok finish_full_text_ok segment_end_ok ratio_update_ok)


fun frontend_run ::
  "(rat \<Rightarrow> rat) \<Rightarrow> (nat \<Rightarrow> string) \<Rightarrow> frontend_call list \<Rightarrow> frontend \<Rightarrow> (frontend \<times> segment_token list) option" where
  "frontend_run rnd cat [] f = Some (f, [])"
| "frontend_run rnd cat (call # calls) f =
     (case frontend_exec rnd cat call f of
        Some (f', Inr _) \<Rightarrow> map_option (\<lambda>(f'', ts). (f'', call_text call f @ ts)) (frontend_run rnd cat calls f')
      | _ \<Rightarrow> None)"

fun calls_allowed :: "(rat \<Rightarrow> rat) \<Rightarrow> (nat \<Rightarrow> string) \<Rightarrow> frontend_call list \<Rightarrow> frontend \<Rightarrow> bool" where
  "calls_allowed rnd cat [] f \<longleftrightarrow> True"
| "calls_allowed rnd cat (call # calls) f \<longleftrightarrow>
     call_allowed call f \<and> (case frontend_exec rnd cat call f of Some (f', _) \<Rightarrow> calls_allowed rnd cat calls f' | None \<Rightarrow> True)"

lemma frontend_run_ok:
  assumes "session_ok rnd cap segs f" and "calls_allowed rnd cat calls f"
  shows "\<exists>f' ts segs'. frontend_run rnd cat calls f = Some (f', ts) \<and> session_ok rnd cap segs' f' \<and>
           spoken segs' @ queued (fs_spliter f') = spoken segs @ queued (fs_spliter f) @ ts \<and>
           sp_max_concurrent (fs_spliter f') = sp_max_concurrent (fs_spliter f)"
  using assms
proof (induction calls arbitrary: f segs)
  case Nil
  then show ?case by auto
next
  case (Cons call calls)
  have "call_ok rnd cap segs (call_text call f) f (frontend_exec rnd cat call f)"
    using Cons.prems by (intro frontend_exec_ok) auto
  then obtain f1 segs1 where e: "frontend_exec rnd cat call f = Some (f1, Inr ())" "session_ok rnd cap segs1 f1"
    "spoken segs1 @ queued (fs_spliter f1) = spoken segs @ queued (fs_spliter f) @ call_text call f"
    "sp_max_concurrent (fs_spliter f1) = sp_max_concurrent (fs_spliter f)" by (auto simp: call_ok_def)
  have "calls_allowed rnd cat calls f1" using Cons.prems(2) e(1) by simp
  from Cons.IH [OF e(2) this] obtain f' ts segs' where r: "frontend_run rnd cat calls f1 = Some (f', ts)"
    "session_ok rnd cap segs' f'" "spoken segs' @ queued (fs_spliter f') = spoken segs1 @ queued (fs_spliter f1) @ ts"
    "sp_max_concurrent (fs_spliter f') = sp_max_concurrent (fs_spliter f1)" by blast
  have "spoken segs' @ queued (fs_spliter f') = spoken segs @ queued (fs_spliter f) @ call_text call f @ ts"
    using r(3) e(3) by (metis append.assoc)
  with e(1,4) r(1,2,4) show ?case by auto
qed

definition new_frontend :: "string \<Rightarrow> input_mode \<Rightarrow> group_policy \<Rightarrow> spliter \<Rightarrow> bool \<Rightarrow> frontend" where
  "new_frontend sid mode policy s callback =
     \<lparr>fs_session_id = sid, fs_mode = mode, fs_policy = policy, fs_spliter = s, fs_callback = callback, fs_input_complete = False,
      fs_tokens_done_sent = False, fs_submitted = 0, fs_order = [], fs_plan = None, fs_plan_revision = 0, fs_bounds = [],
      fs_segment_plans = [], fs_published = [], fs_texts = [], fs_token_keys = [], fs_token_spans = [], fs_emitted_count = [],
      fs_boundary_emitted = {}, fs_inbox = [], fs_events = []\<rparr>"

lemma new_frontend_ok:
  assumes "new_spliter em pf ema saf mg mc al ov lo hi mt mu l1 l2 l3 = Inr s" and "config_ok rnd s" and "make_thresholds rnd s = Inr th"
  shows "session_ok rnd (force_split_at th) [] (new_frontend sid mode policy s cb)"
  using new_spliter_ok [OF assms(1,3)] assms(2)
  by (simp add: session_ok_def new_frontend_def cursor_ready_def spans_ok_def spoken_def done_requests_def)

text \<open>
  C8. The engine receives the text. In a session that starts with a new splitter, whatever packets,
  segment ends, ratio updates and end of input occur in whatever order, every call returns without an
  exception, and the requests put into the engine's inbox, read in order, tell the engine the tokens
  of a list of segments, each segment with its tokens in order and then its end. The segments' tokens
  and then the queued ones are the tokens received before the end of the input. Batching decode
  tokens into one request loses, duplicates and reorders nothing.
\<close>

theorem engine_receives_text:
  assumes "new_spliter em pf ema saf mg mc al ov lo hi mt mu l1 l2 l3 = Inr s" and "config_ok rnd s"
    and "make_thresholds rnd s = Inr th" and "calls_allowed rnd cat calls (new_frontend sid mode policy s cb)"
  shows "\<exists>f ts segs. frontend_run rnd cat calls (new_frontend sid mode policy s cb) = Some (f, ts) \<and>
           concat (map request_feed (fs_inbox f)) = map action_feed (render 0 segs) \<and>
           concat (map fst segs) @ map pt_token (sp_pending (fs_spliter f)) = ts \<and>
           list_all (good_segment (force_split_at th)) segs"
proof -
  note n = new_frontend_ok [OF assms(1-3), of sid mode policy cb]
  have q: "queued (fs_spliter (new_frontend sid mode policy s cb)) = []"
    using new_spliter_ok(3) [OF assms(1,3)] by (simp add: new_frontend_def)
  from frontend_run_ok [OF n assms(4)] obtain f ts segs where
    "frontend_run rnd cat calls (new_frontend sid mode policy s cb) = Some (f, ts)" "session_ok rnd (force_split_at th) segs f"
    "spoken segs @ queued (fs_spliter f) = ts" by (auto simp: q spoken_def)
  then show ?thesis by (auto simp: session_ok_def spliter_ok_def history_ok_good feeds_def spoken_def queued_def)
qed

text \<open>
  C21. The end of the tokens is announced once, after all of them. In every session the inbox holds at
  most one SESSION_TOKENS_DONE request; when there is one, the requests before it have told the
  engine every token that was received and the end of every segment, and no request after it brings
  the engine a token or an end of segment.
\<close>

theorem tokens_done_is_last:
  assumes "new_spliter em pf ema saf mg mc al ov lo hi mt mu l1 l2 l3 = Inr s" and "config_ok rnd s"
    and "make_thresholds rnd s = Inr th" and "calls_allowed rnd cat calls (new_frontend sid mode policy s cb)"
  shows "\<exists>f ts. frontend_run rnd cat calls (new_frontend sid mode policy s cb) = Some (f, ts) \<and>
           ((\<forall>r \<in> set (fs_inbox f). rq_type r \<noteq> SESSION_TOKENS_DONE) \<or>
            (\<exists>pre r post segs. fs_inbox f = pre @ r # post \<and> rq_type r = SESSION_TOKENS_DONE \<and>
               (\<forall>r' \<in> set (pre @ post). rq_type r' \<noteq> SESSION_TOKENS_DONE) \<and>
               concat (map request_feed pre) = map action_feed (render 0 segs) \<and> concat (map fst segs) = ts \<and>
               concat (map request_feed post) = []))"
proof -
  note n = new_frontend_ok [OF assms(1-3), of sid mode policy cb]
  have q: "queued (fs_spliter (new_frontend sid mode policy s cb)) = []"
    using new_spliter_ok(3) [OF assms(1,3)] by (simp add: new_frontend_def)
  from frontend_run_ok [OF n assms(4)] obtain f ts segs where r:
    "frontend_run rnd cat calls (new_frontend sid mode policy s cb) = Some (f, ts)" "session_ok rnd (force_split_at th) segs f"
    "spoken segs @ queued (fs_spliter f) = ts" by (auto simp: q spoken_def)
  have z: "done_requests rs = 0 \<longleftrightarrow> (\<forall>r \<in> set rs. rq_type r \<noteq> SESSION_TOKENS_DONE)" for rs
    by (simp add: done_requests_def filter_empty_conv)
  show ?thesis
  proof (cases "fs_tokens_done_sent f")
    case False
    then show ?thesis using r(1,2) z by (auto simp: session_ok_def)
  next
    case True
    then have a: "announced (fs_inbox f) (map action_feed (render 0 segs))" "spliter_has_dispatched_all_input f"
      using r(2) by (auto simp: session_ok_def)
    have "queued (fs_spliter f) = []" using a(2) by (simp add: spliter_has_dispatched_all_input_def queued_def Let_def)
    then have "concat (map fst segs) = ts" using r(3) by (simp add: spoken_def)
    moreover from a(1) obtain pre rq post where "fs_inbox f = pre @ rq # post" "rq_type rq = SESSION_TOKENS_DONE"
      "done_requests pre = 0" "done_requests post = 0" "feeds pre = map action_feed (render 0 segs)" "feeds post = []"
      unfolding announced_def by blast
    ultimately show ?thesis using r(1) unfolding z feeds_def by (metis (no_types, lifting) UnE set_append)
  qed
qed

text \<open>The announcement is not forgotten: after every call it has been sent if it can be.\<close>

definition announces :: "frontend \<Rightarrow> bool" where
  "announces f \<longleftrightarrow> (fs_input_complete f \<and> spliter_has_dispatched_all_input f \<longrightarrow> fs_tokens_done_sent f)"

lemma maybe_done_announces: "announces (maybe_send_session_tokens_done f)"
  by (auto simp: announces_def maybe_send_session_tokens_done_def submit_session_tokens_done_def put_def
      spliter_has_dispatched_all_input_def)

lemma then_maybe_done_announces: "then_maybe_done r = Some (f, Inr ()) \<Longrightarrow> announces f"
  by (auto simp: then_maybe_done_def maybe_done_announces split: option.splits sum.splits)

lemma with_spliter_control:
  assumes ok: "session_ok rnd cap segs f" and "op_allowed op (fs_spliter f)" and "list_all token_span_ok (op_text cat op)"
    and "with_spliter rnd cat op f = Some (f', Inr ())" and "\<not> fs_tokens_done_sent f"
  shows "\<exists>s acts. spliter_exec rnd cat op (fs_spliter f) = Some (s, Inr acts) \<and> control f' = control (f\<lparr>fs_spliter := s\<rparr>)"
proof -
  note p = session_parts [OF ok]
  have op: "op_ok rnd cap segs (op_text cat op) (fs_spliter f) (spliter_exec rnd cat op (fs_spliter f))"
    by (rule spliter_exec_ok [OF p(1-3) assms(2)])
  then obtain s' acts where e: "spliter_exec rnd cat op (fs_spliter f) = Some (s', Inr acts)" by (auto simp: op_ok_def)
  have "cursor_ready (f\<lparr>fs_spliter := s'\<rparr>)" using p(4) by (simp add: cursor_ready_def)
  then have "\<exists>f1 segs1. frontend_dispatch cat acts (f\<lparr>fs_spliter := s'\<rparr>) = (f1, Inr ()) \<and> control f1 = control (f\<lparr>fs_spliter := s'\<rparr>)"
    using dispatch_step [OF ok op [unfolded e] assms(3), of "f\<lparr>fs_spliter := s'\<rparr>" cat] assms(5) by auto
  with assms(4) e show ?thesis by (auto simp: with_spliter_def)
qed

lemma set_ratio_keeps_segments:
  assumes "spliter_ok rnd cap segs s" and "config_ok rnd s" and "0 < v" and "spliter_set_duration_ratio rnd (Fin v) s = (s', Inr ())"
  shows "sp_pending s' = [] \<longleftrightarrow> sp_pending s = []" "sp_drivers s' = sp_drivers s" "sp_flushing s' = sp_flushing s" "sp_done s' = sp_done s"
proof -
  obtain rc where o: "set_duration_ratio (Fin v) (sp_ratios s) = (rc, Inr ())"
    using assms(3) by (auto simp: set_duration_ratio_def Let_def)
  then have "rc = ratio_exec rnd (SetDuration (Fin v)) (sp_ratios s)" by simp
  note r = ratio_ok [OF assms(1,2) this]
  obtain q k p where t: "tighten_pending_presplit_plans rnd (s\<lparr>sp_ratios := rc\<rparr>) = (requeue q k p (s\<lparr>sp_ratios := rc\<rparr>), Inr ())"
    "same_text (sp_pending s) q" using tighten_effect [OF r(1)] by auto
  have "q = [] \<longleftrightarrow> sp_pending s = []" using t(2) by (auto simp: same_text_def)
  moreover have "s' = requeue q k p (s\<lparr>sp_ratios := rc\<rparr>) \<or> s' = s\<lparr>sp_ratios := rc\<rparr>"
    using assms(4) t(1) by (auto simp: spliter_set_duration_ratio_def o Let_def split: if_splits)
  ultimately show "sp_pending s' = [] \<longleftrightarrow> sp_pending s = []" "sp_drivers s' = sp_drivers s" "sp_flushing s' = sp_flushing s"
    "sp_done s' = sp_done s" by (auto simp: requeue_def)
qed

lemma frontend_exec_announces:
  assumes ok: "session_ok rnd cap segs f" and al: "call_allowed call f" and ann: "announces f"
    and ex: "frontend_exec rnd cat call f = Some (f', Inr ())"
  shows "announces f'"
proof (cases call)
  case (Packet ts offs befs m)
  show ?thesis
  proof (cases "fs_input_complete f \<or> ts = []")
    case True
    then show ?thesis using ex ann Packet by (auto simp: ingest_tokens_def)
  next
    case False
    let ?op = "route_packet f ts (packet_marks ts offs befs m)"
    have "op_text cat ?op = ts" "op_allowed ?op (fs_spliter f)" by (simp_all add: route_packet_def)
    then have "fs_input_complete f' = fs_input_complete f"
      using with_spliter_control [OF ok, of ?op cat f'] ex al Packet False sent_complete [OF ok]
      by (auto simp: ingest_tokens_def control_def)
    then show ?thesis using False by (simp add: announces_def)
  qed
next
  case FinishInput
  then show ?thesis using ex ann
    by (auto simp: finish_input_def Let_def split: if_splits intro: then_maybe_done_announces)
next
  case (FinishFullText ts a b)
  then show ?thesis using ex ann
    by (auto simp: finish_full_text_def Let_def split: if_splits intro: then_maybe_done_announces)
next
  case (SegmentEnd i)
  then show ?thesis using ex by (auto simp: segment_ended_def split: option.splits sum.splits intro: then_maybe_done_announces)
next
  case (RatioUpdate v)
  show ?thesis
  proof (cases "0 < v")
    case True
    then obtain s where e: "spliter_set_duration_ratio rnd (Fin v) (fs_spliter f) = (s, Inr ())" "f' = f\<lparr>fs_spliter := s\<rparr>"
      using ex RatioUpdate
      by (auto simp: ratio_update_def with_spliter_def no_actions_def frontend_dispatch_def split: prod.splits sum.splits)
    note k = set_ratio_keeps_segments [OF session_parts(1,2) [OF ok] True e(1)]
    have "spliter_has_dispatched_all_input f' = spliter_has_dispatched_all_input f"
      using e(2) k by (simp add: spliter_has_dispatched_all_input_def Let_def)
    then show ?thesis using ann e(2) by (simp add: announces_def)
  next
    case False
    then show ?thesis using ex ann RatioUpdate by (simp add: ratio_update_def)
  qed
qed

lemma frontend_run_announces:
  assumes "session_ok rnd cap segs f" and "calls_allowed rnd cat calls f" and "announces f"
    and "frontend_run rnd cat calls f = Some (f', ts)"
  shows "announces f'"
  using assms
proof (induction calls arbitrary: f segs ts)
  case Nil
  then show ?case by simp
next
  case (Cons call calls)
  have "call_ok rnd cap segs (call_text call f) f (frontend_exec rnd cat call f)"
    using Cons.prems by (intro frontend_exec_ok) auto
  then obtain f1 segs1 where e: "frontend_exec rnd cat call f = Some (f1, Inr ())" "session_ok rnd cap segs1 f1"
    by (auto simp: call_ok_def)
  have "announces f1" using frontend_exec_announces [OF Cons.prems(1) _ Cons.prems(3) e(1)] Cons.prems(2) by simp
  then show ?case using Cons.IH [OF e(2)] Cons.prems(2,4) e(1) by auto
qed

text \<open>When every segment that was opened has ended, nothing is left to dispatch.\<close>

lemma no_segments_all_dispatched:
  assumes "session_ok rnd cap segs f" and "sp_drivers (fs_spliter f) = []" and "1 \<le> sp_max_concurrent (fs_spliter f)"
  shows "spliter_has_dispatched_all_input f"
proof -
  note p = session_parts [OF assms(1)]
  have "live (fs_spliter f) = {}" using p(5) assms(2) by (auto simp: segments_ok_def live_def)
  then have "sp_pending (fs_spliter f) = []" using p(3) assms(2,3) by (simp add: settled_def active_segment_count_def)
  then show ?thesis using assms(2) by (simp add: spliter_has_dispatched_all_input_def Let_def)
qed

text \<open>
  C29. The announcement is not forgotten. With at least one concurrent segment, in every session whose
  input is complete and whose opened segments the engine has ended, the inbox holds the
  SESSION_TOKENS_DONE request, and every token received has been sent: text is never left waiting
  behind segments that are already over.
\<close>

theorem tokens_done_announced:
  assumes "new_spliter em pf ema saf mg mc al ov lo hi mt mu l1 l2 l3 = Inr s" and "config_ok rnd s"
    and "make_thresholds rnd s = Inr th" and "1 \<le> mc" and "calls_allowed rnd cat calls (new_frontend sid mode policy s cb)"
  shows "\<exists>f ts. frontend_run rnd cat calls (new_frontend sid mode policy s cb) = Some (f, ts) \<and>
           (fs_input_complete f \<and> sp_drivers (fs_spliter f) = [] \<longrightarrow>
              (\<exists>r \<in> set (fs_inbox f). rq_type r = SESSION_TOKENS_DONE) \<and>
              (\<exists>segs. concat (map request_feed (fs_inbox f)) = map action_feed (render 0 segs) \<and> concat (map fst segs) = ts))"
proof -
  let ?f0 = "new_frontend sid mode policy s cb"
  note n = new_frontend_ok [OF assms(1-3), of sid mode policy cb]
  have q: "queued (fs_spliter ?f0) = []" using new_spliter_ok(3) [OF assms(1,3)] by (simp add: new_frontend_def)
  have mc: "sp_max_concurrent (fs_spliter ?f0) = mc"
    using assms(1) by (auto simp: new_frontend_def new_spliter_def split: sum.splits)
  from frontend_run_ok [OF n assms(5)] obtain f ts segs where r:
    "frontend_run rnd cat calls ?f0 = Some (f, ts)" "session_ok rnd (force_split_at th) segs f"
    "spoken segs @ queued (fs_spliter f) = ts" "sp_max_concurrent (fs_spliter f) = mc" by (auto simp: q mc spoken_def)
  have "announces ?f0" by (simp add: announces_def new_frontend_def)
  then have a: "announces f" by (rule frontend_run_announces [OF n assms(5) _ r(1)])
  have "(\<exists>r \<in> set (fs_inbox f). rq_type r = SESSION_TOKENS_DONE) \<and>
      concat (map request_feed (fs_inbox f)) = map action_feed (render 0 segs) \<and> concat (map fst segs) = ts"
    if "fs_input_complete f" "sp_drivers (fs_spliter f) = []"
  proof -
    have all: "spliter_has_dispatched_all_input f" using no_segments_all_dispatched [OF r(2) that(2)] r(4) assms(4) by simp
    then have "announced (fs_inbox f) (map action_feed (render 0 segs))"
      using a that(1) r(2) by (simp add: announces_def session_ok_def)
    then have "\<exists>r \<in> set (fs_inbox f). rq_type r = SESSION_TOKENS_DONE" by (auto simp: announced_def)
    moreover have "queued (fs_spliter f) = []" using all by (simp add: spliter_has_dispatched_all_input_def queued_def Let_def)
    ultimately show ?thesis using r(2,3) by (simp add: session_ok_def feeds_def spoken_def)
  qed
  with r(1) show ?thesis by blast
qed

section \<open>Witnesses\<close>

text \<open>A packet, a ratio update, a packet that forces a boundary, the end of the input, and a late packet.\<close>

definition ex_token :: "int \<Rightarrow> segment_token" where
  "ex_token i = coerce_token ex_cat (TupleArg i [104] None)"

definition ex_session :: "frontend_call list" where
  "ex_session =
     [Packet [ex_token 1, ex_token 2] [] [] no_marks, RatioUpdate 4, Packet (map ex_token [3, 4, 5]) [1] [] no_marks, FinishInput,
      Packet [ex_token 6] [] [] no_marks]"

fun plain_call :: "frontend_call \<Rightarrow> bool" where
  "plain_call (Packet ts offsets befores m) = list_all token_span_ok ts"
| "plain_call FinishInput = True"
| "plain_call (RatioUpdate v) = True"
| "plain_call _ = False"

lemma plain_calls_allowed: "list_all plain_call calls \<Longrightarrow> calls_allowed rnd cat calls f"
proof (induction calls arbitrary: f)
  case (Cons call calls)
  then have "call_allowed call f" for f by (cases call) auto
  with Cons show ?case by (auto split: option.splits)
qed simp

lemma ex_session_allowed: "calls_allowed id ex_cat ex_session (new_frontend ''s'' AUTO GroupAuto ex_spliter True)"
proof (rule plain_calls_allowed)
  have "token_span_ok (ex_token i)" for i by (simp add: ex_token_def token_span_ok_def coerce_token_def)
  then show "list_all plain_call ex_session" by (simp add: ex_session_def)
qed

theorem engine_receives_text_witness:
  "\<exists>f ts segs. frontend_run id ex_cat ex_session (new_frontend ''s'' AUTO GroupAuto ex_spliter True) = Some (f, ts) \<and>
     concat (map request_feed (fs_inbox f)) = map action_feed (render 0 segs) \<and>
     concat (map fst segs) @ map pt_token (sp_pending (fs_spliter f)) = ts \<and> list_all (good_segment 3) segs"
  using engine_receives_text [OF ex_spliter_new ex_spliter_config ex_spliter_th ex_session_allowed]
  by (auto simp: ex_spliter_thresholds_def)

theorem tokens_done_is_last_witness:
  "\<exists>f ts. frontend_run id ex_cat ex_session (new_frontend ''s'' AUTO GroupAuto ex_spliter True) = Some (f, ts) \<and>
     ((\<forall>r \<in> set (fs_inbox f). rq_type r \<noteq> SESSION_TOKENS_DONE) \<or>
      (\<exists>pre r post. fs_inbox f = pre @ r # post \<and> rq_type r = SESSION_TOKENS_DONE \<and> concat (map request_feed post) = []))"
  using tokens_done_is_last [OF ex_spliter_new ex_spliter_config ex_spliter_th ex_session_allowed] by blast

text \<open>
  A session with one segment at a time: four tokens, of which the segment takes three, the end of
  the input, and the ends of the two segments. The last token leaves when the first segment ends.
\<close>

definition ex_serial :: spliter where
  "ex_serial = ex_spliter\<lparr>sp_max_concurrent := 1\<rparr>"

definition ex_ended :: "frontend_call list" where
  "ex_ended =
     [Packet (map ex_token [1, 2, 3, 4]) [] [] no_marks, FinishInput, SegmentEnd 0, SegmentEnd 1]"

lemma ex_serial_new:
  "new_spliter 12 2 (Fin 3) None 1 1 (Fin (1 / 2)) (Fin (1 / 2)) (Fin 1) (Fin 9) 1 (Fin 2) (Fin (1 / 2)) (Fin 1) (Fin 1) = Inr ex_serial"
  by (simp add: new_spliter_def new_controller_def float_val_def clamp_def ex_serial_def ex_spliter_def Let_def)

lemma ex_serial_config: "config_ok id ex_serial"
  by (simp add: config_ok_def ex_serial_def ex_spliter_def sound_rounding_def mono_def controller_ok_def)

lemma ex_serial_th: "make_thresholds id ex_serial = Inr ex_spliter_thresholds"
  by code_simp

lemma ex_ended_allowed: "calls_allowed id ex_cat ex_ended (new_frontend ''s'' AUTO GroupAuto ex_serial True)"
  by code_simp

lemma ex_ended_ends:
  "case frontend_run id ex_cat ex_ended (new_frontend ''s'' AUTO GroupAuto ex_serial True) of
     Some (f, ts) \<Rightarrow> fs_input_complete f \<and> sp_drivers (fs_spliter f) = [] \<and> length ts = 4
   | None \<Rightarrow> False"
  by code_simp

theorem tokens_done_announced_witness:
  "\<exists>f ts. frontend_run id ex_cat ex_ended (new_frontend ''s'' AUTO GroupAuto ex_serial True) = Some (f, ts) \<and>
     fs_input_complete f \<and> sp_drivers (fs_spliter f) = [] \<and> length ts = 4 \<and>
     (\<exists>r \<in> set (fs_inbox f). rq_type r = SESSION_TOKENS_DONE) \<and>
     (\<exists>segs. concat (map request_feed (fs_inbox f)) = map action_feed (render 0 segs) \<and> concat (map fst segs) = ts)"
proof -
  have "(1 :: int) \<le> 1" by simp
  from tokens_done_announced [OF ex_serial_new ex_serial_config ex_serial_th this ex_ended_allowed]
  obtain f ts where r: "frontend_run id ex_cat ex_ended (new_frontend ''s'' AUTO GroupAuto ex_serial True) = Some (f, ts)"
    "fs_input_complete f \<and> sp_drivers (fs_spliter f) = [] \<longrightarrow>
       (\<exists>r \<in> set (fs_inbox f). rq_type r = SESSION_TOKENS_DONE) \<and>
       (\<exists>segs. concat (map request_feed (fs_inbox f)) = map action_feed (render 0 segs) \<and> concat (map fst segs) = ts)"
    by blast
  moreover have "fs_input_complete f \<and> sp_drivers (fs_spliter f) = [] \<and> length ts = 4"
    using ex_ended_ends unfolding r(1) by simp
  ultimately show ?thesis by blast
qed

end
