(* ===== verification/Tokenize.thy ===== *)
theory Tokenize
  imports Text_Journal Pre_Split
begin

text \<open>
  Tokens with coordinates: the offset stabilization of \<open>engine/frontend/spliter/tokenizer.py\<close> and
  \<open>_tokenize_segment_text\<close> of \<open>engine/frontend/interface.py\<close>.

  The byte-pair encoder of the tokenizers package is the parameter \<open>encode\<close>; a custom tokenizer that
  the frontend is given is a value of \<open>tokenizer\<close>. Debug snapshots are left out.
\<close>

section \<open>Stable offsets\<close>

text \<open>An \<open>Encoding\<close> of the tokenizers package, as far as it is read.\<close>

record encoding =
  enc_ids :: "int list"
  enc_tokens :: "pystr list"
  enc_offsets :: "(int \<times> int) list"

fun stable_from :: "int \<Rightarrow> int \<Rightarrow> (int \<times> int) list \<Rightarrow> (int \<times> int) list" where
  "stable_from text_len previous_end [] = []"
| "stable_from text_len previous_end ((_, stop) # rest) =
     (let start = min text_len previous_end;
          stop1 = (if rest = [] then text_len else min text_len (max start stop))
      in (start, stop1) # stable_from text_len stop1 rest)"

definition stable_offsets :: "pystr \<Rightarrow> (int \<times> int) list \<Rightarrow> (int \<times> int) list" where
  "stable_offsets t offsets = stable_from (int (length t)) 0 offsets"

definition substr :: "int \<Rightarrow> int \<Rightarrow> pystr \<Rightarrow> pystr" where
  "substr start stop t = take (nat stop - nat start) (drop (nat start) t)"

definition encode_with_offsets :: "(pystr \<Rightarrow> encoding) \<Rightarrow> pystr \<Rightarrow> int list \<times> (int \<times> int) list" where
  "encode_with_offsets encode t = (enc_ids (encode t), stable_offsets t (enc_offsets (encode t)))"

definition encode_with_tokens :: "(pystr \<Rightarrow> encoding) \<Rightarrow> pystr \<Rightarrow> int list \<times> pystr list" where
  "encode_with_tokens encode t = (enc_ids (encode t), enc_tokens (encode t))"

definition encode_with_text :: "(pystr \<Rightarrow> encoding) \<Rightarrow> pystr \<Rightarrow> int list \<times> pystr list" where
  "encode_with_text encode t =
     (enc_ids (encode t), map (\<lambda>(start, stop). substr start stop t) (stable_offsets t (enc_offsets (encode t))))"

section \<open>Tokens of a text\<close>

text \<open>\<open>str.find(piece, start)\<close> for a start inside the text.\<close>

definition py_find :: "pystr \<Rightarrow> pystr \<Rightarrow> int \<Rightarrow> int" where
  "py_find t piece start =
     (case List.find (\<lambda>i. take (length piece) (drop i t) = piece) [nat start ..< Suc (length t)] of
        Some i \<Rightarrow> int i
      | None \<Rightarrow> - 1)"

fun piece_offsets :: "pystr \<Rightarrow> int \<Rightarrow> pystr list \<Rightarrow> (int \<times> int) list" where
  "piece_offsets t cursor [] = []"
| "piece_offsets t cursor (piece # pieces) =
     (let found = py_find t piece cursor;
          start = (if found < 0 then cursor else found);
          stop = min (int (length t)) (start + int (length piece))
      in (start, stop) # piece_offsets t stop pieces)"

text \<open>A tokenizer that reports offsets, or a legacy one that only reports pieces of text.\<close>

datatype tokenizer =
    OffsetTokenizer "pystr \<Rightarrow> int list \<times> (int \<times> int) list"
  | PieceTokenizer "pystr \<Rightarrow> int list \<times> pystr list"

definition tokenizer_offsets :: "tokenizer \<Rightarrow> pystr \<Rightarrow> int list \<times> (int \<times> int) list" where
  "tokenizer_offsets tk t =
     (case tk of
        OffsetTokenizer f \<Rightarrow> f t
      | PieceTokenizer f \<Rightarrow> (case f t of (ids, pieces) \<Rightarrow> (ids, piece_offsets t 0 pieces)))"

definition make_token ::
  "(nat \<Rightarrow> string) \<Rightarrow> pystr \<Rightarrow> int \<Rightarrow> journal \<Rightarrow> int \<times> int \<times> int \<Rightarrow> (py_error, segment_token) result" where
  "make_token cat t normalized_offset j tok =
     (case tok of (i, start, stop) \<Rightarrow>
        (case journal_raw_span (normalized_offset + start) (normalized_offset + stop) j of
           Inl e \<Rightarrow> Inl e
         | Inr (rs, re) \<Rightarrow>
             Inr \<lparr>token_id = i, st_text = substr start stop t, st_level = classify_punct_level cat (substr start stop t),
                  normalized_start = normalized_offset + start, normalized_end = normalized_offset + stop,
                  raw_start = rs, raw_end = re\<rparr>))"

fun make_tokens ::
  "(nat \<Rightarrow> string) \<Rightarrow> pystr \<Rightarrow> int \<Rightarrow> journal \<Rightarrow> (int \<times> int \<times> int) list \<Rightarrow> (py_error, segment_token list) result" where
  "make_tokens cat t base j [] = Inr []"
| "make_tokens cat t base j (tok # toks) =
     (case make_token cat t base j tok of
        Inl e \<Rightarrow> Inl e
      | Inr a \<Rightarrow> (case make_tokens cat t base j toks of Inl e \<Rightarrow> Inl e | Inr as \<Rightarrow> Inr (a # as)))"

definition tokenize_segment_text ::
  "(nat \<Rightarrow> string) \<Rightarrow> tokenizer \<Rightarrow> pystr \<Rightarrow> int \<Rightarrow> journal \<Rightarrow> (py_error, segment_token list) result" where
  "tokenize_segment_text cat tk t normalized_offset j =
     (case tokenizer_offsets tk t of
        (ids, offsets) \<Rightarrow> make_tokens cat t normalized_offset j (zip ids (stable_offsets t offsets)))"

section \<open>Tokens partition the text\<close>

text \<open>Spans that follow each other from \<open>a\<close> to \<open>b\<close>.\<close>

fun tiles :: "int \<Rightarrow> int \<Rightarrow> (int \<times> int) list \<Rightarrow> bool" where
  "tiles a b [] \<longleftrightarrow> a = b"
| "tiles a b ((l, r) # spans) \<longleftrightarrow> l = a \<and> l \<le> r \<and> tiles r b spans"

lemma stable_from_tiles:
  assumes "0 \<le> p" and "p \<le> n" and "offs \<noteq> []"
  shows "tiles p n (stable_from n p offs)" "length (stable_from n p offs) = length offs"
proof -
  have "tiles p n (stable_from n p offs) \<and> length (stable_from n p offs) = length offs"
    using assms
  proof (induction offs arbitrary: p)
    case (Cons o1 offs)
    obtain s e where o: "o1 = (s, e)" by fastforce
    show ?case
    proof (cases "offs = []")
      case True
      then show ?thesis using Cons.prems by (simp add: o)
    next
      case False
      define q where "q = min n (max p e)"
      have "p \<le> q" "q \<le> n" "0 \<le> q" using Cons.prems by (auto simp: q_def)
      moreover have "min n p = p" using Cons.prems by simp
      ultimately show ?thesis using False Cons.IH [of q] by (simp add: o Let_def flip: q_def)
    qed
  qed simp
  then show "tiles p n (stable_from n p offs)" "length (stable_from n p offs) = length offs" by auto
qed

lemma tiles_bounds: "tiles a b spans \<Longrightarrow> a \<le> b"
  by (induction spans arbitrary: a) force+

text \<open>Stabilizing stable offsets changes nothing, so the frontend may stabilize them again.\<close>

lemma stable_from_tiled:
  assumes "tiles p n spans" and "0 \<le> p" and "spans \<noteq> []"
  shows "stable_from n p spans = spans"
  using assms
proof (induction spans arbitrary: p)
  case (Cons s spans)
  obtain l r where s: "s = (l, r)" by fastforce
  have b: "l = p" "p \<le> r" "tiles r n spans" "r \<le> n" using Cons.prems(1) tiles_bounds by (auto simp: s)
  show ?case
  proof (cases "spans = []")
    case True
    then show ?thesis using b by (simp add: s)
  next
    case False
    then show ?thesis using b Cons.IH [of r] Cons.prems(2) by (simp add: s Let_def)
  qed
qed simp

lemma substr_join:
  assumes "0 \<le> a" and "a \<le> b" and "b \<le> c"
  shows "substr a b t @ substr b c t = substr a c t"
proof -
  have "drop (nat b) t = drop (nat b - nat a) (drop (nat a) t)" using assms by (simp add: nat_le_eq_zle)
  then show ?thesis
    using assms take_add [of "nat b - nat a" "nat c - nat b" "drop (nat a) t"]
    by (simp add: substr_def nat_le_eq_zle)
qed

lemma substr_empty [simp]: "substr a a t = []"
  by (simp add: substr_def)

lemma tiles_concat:
  assumes "tiles a b spans" and "0 \<le> a"
  shows "concat (map (\<lambda>(l, r). substr l r t) spans) = substr a b t"
  using assms
proof (induction spans arbitrary: a)
  case (Cons s spans)
  obtain l r where s: "s = (l, r)" by fastforce
  then have "l = a" "a \<le> r" "tiles r b spans" "r \<le> b" using Cons.prems(1) tiles_bounds by auto
  then show ?case using Cons.IH [of r] Cons.prems(2) substr_join [of a r b t] by (simp add: s)
qed simp

lemma make_tokens_ok:
  assumes "journal_ok j"
  shows "\<exists>ts. make_tokens cat t base j toks = Inr ts \<and> map token_id ts = map fst toks \<and>
    map st_text ts = map (\<lambda>(i, l, r). substr l r t) toks \<and>
    map (\<lambda>t. (segment_token.normalized_start t, segment_token.normalized_end t)) ts = map (\<lambda>(i, l, r). (base + l, base + r)) toks \<and>
    list_all (\<lambda>u. st_text u = substr (segment_token.normalized_start u - base) (segment_token.normalized_end u - base) t) ts \<and>
    list_all (\<lambda>t. 0 \<le> segment_token.raw_start t \<and> segment_token.raw_start t \<le> segment_token.raw_end t \<and>
      segment_token.raw_end t \<le> int (length (raw_text j))) ts"
proof (induction toks)
  case (Cons tok toks)
  obtain i l r where tok: "tok = (i, l, r)" by (metis surj_pair)
  obtain rs re where "journal_raw_span (base + l) (base + r) j = Inr (rs, re)" "0 \<le> rs" "rs \<le> re" "re \<le> int (length (raw_text j))"
    using journal_raw_span_inside [OF assms] by blast
  with Cons show ?case by (auto simp: tok make_token_def)
qed simp

lemma tokenize_ok:
  assumes "journal_ok j" and "tokenizer_offsets tk t = (ids, offsets)" and "length ids = length offsets" and "ids \<noteq> []"
  shows "\<exists>ts. tokenize_segment_text cat tk t base j = Inr ts \<and> map token_id ts = ids \<and> concat (map st_text ts) = t \<and>
    tiles base (base + int (length t)) (map (\<lambda>t. (segment_token.normalized_start t, segment_token.normalized_end t)) ts) \<and>
    list_all (\<lambda>u. st_text u = substr (segment_token.normalized_start u - base) (segment_token.normalized_end u - base) t) ts \<and>
    list_all (\<lambda>t. 0 \<le> segment_token.raw_start t \<and> segment_token.raw_start t \<le> segment_token.raw_end t \<and>
      segment_token.raw_end t \<le> int (length (raw_text j))) ts"
proof -
  let ?st = "stable_offsets t offsets"
  have st: "tiles 0 (int (length t)) ?st" "length ?st = length ids"
    using stable_from_tiles [of 0 "int (length t)" offsets] assms(3,4) by (cases offsets; simp add: stable_offsets_def)+
  obtain ts where ts: "make_tokens cat t base j (zip ids ?st) = Inr ts" "map token_id ts = map fst (zip ids ?st)"
    "map st_text ts = map (\<lambda>(i, l, r). substr l r t) (zip ids ?st)"
    "map (\<lambda>t. (segment_token.normalized_start t, segment_token.normalized_end t)) ts = map (\<lambda>(i, l, r). (base + l, base + r)) (zip ids ?st)"
    "list_all (\<lambda>u. st_text u = substr (segment_token.normalized_start u - base) (segment_token.normalized_end u - base) t) ts"
    "list_all (\<lambda>t. 0 \<le> segment_token.raw_start t \<and> segment_token.raw_start t \<le> segment_token.raw_end t \<and>
      segment_token.raw_end t \<le> int (length (raw_text j))) ts" using make_tokens_ok [OF assms(1)] by blast
  have z: "map (\<lambda>(i, l, r). f l r) (zip ids ?st) = map (\<lambda>(l, r). f l r) ?st" for f :: "int \<Rightarrow> int \<Rightarrow> 'x"
  proof -
    have "map (\<lambda>(i, l, r). f l r) (zip ids ?st) = map (\<lambda>(l, r). f l r) (map snd (zip ids ?st))" by (simp add: case_prod_beta)
    then show ?thesis using st(2) by simp
  qed
  have "concat (map st_text ts) = substr 0 (int (length t)) t" unfolding ts(3) z by (rule tiles_concat [OF st(1)]) simp
  moreover have "tiles (base + a) (base + b) (map (\<lambda>(l, r). (base + l, base + r)) spans)" if "tiles a b spans" for a b spans
    using that by (induction spans arbitrary: a) auto
  from this [OF st(1)] have "tiles base (base + int (length t)) (map (\<lambda>(l, r). (base + l, base + r)) ?st)" by simp
  ultimately show ?thesis using assms(2) ts st(2) unfolding z
    by (auto simp: tokenize_segment_text_def substr_def)
qed

text \<open>
  C23. Tokens partition the text. Whatever offsets the tokenizers package reports, overlapping, with
  gaps or out of range, if it reports as many offsets as ids and at least one, the tokens the
  frontend makes of a text carry these ids in order, their texts are the pieces that
  \<open>encode_with_text\<close> returns and joined they are the text, their normalized spans follow each other
  without gap or overlap over exactly the place of the text in the canonical text, and each has an
  ordered raw span inside the raw text of the journal.
\<close>

theorem tokens_partition_text:
  assumes "journal_ok j" and "length (enc_ids (encode t)) = length (enc_offsets (encode t))" and "enc_ids (encode t) \<noteq> []"
  shows "\<exists>ts. tokenize_segment_text cat (OffsetTokenizer (encode_with_offsets encode)) t base j = Inr ts \<and>
    map token_id ts = enc_ids (encode t) \<and> map st_text ts = snd (encode_with_text encode t) \<and> concat (map st_text ts) = t \<and>
    tiles base (base + int (length t)) (map (\<lambda>t. (segment_token.normalized_start t, segment_token.normalized_end t)) ts) \<and>
    list_all (\<lambda>t. 0 \<le> segment_token.raw_start t \<and> segment_token.raw_start t \<le> segment_token.raw_end t \<and>
      segment_token.raw_end t \<le> int (length (raw_text j))) ts"
proof -
  let ?st = "stable_offsets t (enc_offsets (encode t))"
  have ne: "enc_offsets (encode t) \<noteq> []" using assms(2,3) by auto
  have st: "tiles 0 (int (length t)) ?st" "length ?st = length (enc_offsets (encode t))"
    using stable_from_tiles [of 0 "int (length t)", OF _ _ ne] by (simp_all add: stable_offsets_def)
  have "?st \<noteq> []" using st(2) ne by auto
  then have same: "stable_offsets t ?st = ?st"
    using stable_from_tiled [OF st(1)] by (simp add: stable_offsets_def [of t ?st])
  obtain ts where ts: "tokenize_segment_text cat (OffsetTokenizer (encode_with_offsets encode)) t base j = Inr ts"
    "map token_id ts = enc_ids (encode t)" "concat (map st_text ts) = t"
    "tiles base (base + int (length t)) (map (\<lambda>t. (segment_token.normalized_start t, segment_token.normalized_end t)) ts)"
    "list_all (\<lambda>t. 0 \<le> segment_token.raw_start t \<and> segment_token.raw_start t \<le> segment_token.raw_end t \<and>
      segment_token.raw_end t \<le> int (length (raw_text j))) ts"
    using tokenize_ok [OF assms(1), of "OffsetTokenizer (encode_with_offsets encode)" t "enc_ids (encode t)" ?st cat base] assms(2,3) st(2)
    by (auto simp: tokenizer_offsets_def encode_with_offsets_def)
  have "make_tokens cat t base j (zip (enc_ids (encode t)) ?st) = Inr ts"
    using ts(1) same by (simp add: tokenize_segment_text_def tokenizer_offsets_def encode_with_offsets_def)
  moreover obtain ts' where "make_tokens cat t base j (zip (enc_ids (encode t)) ?st) = Inr ts'"
    "map st_text ts' = map (\<lambda>(i, l, r). substr l r t) (zip (enc_ids (encode t)) ?st)" using make_tokens_ok [OF assms(1)] by blast
  ultimately have "map st_text ts = map (\<lambda>(l, r). substr l r t) (map snd (zip (enc_ids (encode t)) ?st))"
    by (simp add: case_prod_beta)
  then have "map st_text ts = snd (encode_with_text encode t)" using st(2) assms(2) by (simp add: encode_with_text_def)
  with ts show ?thesis by blast
qed

definition ex_encode :: "pystr \<Rightarrow> encoding" where
  "ex_encode t = \<lparr>enc_ids = [7, 8], enc_tokens = [], enc_offsets = [(0, 2), (1, 2)]\<rparr>"

theorem tokens_partition_text_witness:
  "\<exists>ts. tokenize_segment_text (\<lambda>_. ''Lo'') (OffsetTokenizer (encode_with_offsets ex_encode)) [104, 105, 46] 5 (new_journal True) = Inr ts \<and>
     map token_id ts = [7, 8] \<and> concat (map st_text ts) = [104, 105, 46] \<and>
     tiles 5 8 (map (\<lambda>t. (segment_token.normalized_start t, segment_token.normalized_end t)) ts)"
  using tokens_partition_text [OF new_journal_ok [of True], of ex_encode "[104, 105, 46]" "\<lambda>_. ''Lo''" 5] by (auto simp: ex_encode_def)

end
