(* ===== verification/Diagnostic_Text.thy ===== *)
theory Diagnostic_Text
  imports Py_Text "HOL-Library.Sublist"
begin

text \<open>
  The spoken version query of \<open>engine/frontend/diagnostic_text.py\<close>: a text that is exactly the
  configured query is answered with the version text. The router withholds packets only as long as
  they can still become the query.
\<close>

section \<open>The version query\<close>

definition DEFAULT_VERSION_QUERY_TEXT :: pystr where
  "DEFAULT_VERSION_QUERY_TEXT = [0x81EA, 0x53D8, 0x91CF, 0x8BED, 0x97F3, 0x5408, 0x6210, 0x7248, 0x672C, 0x53F7]"

definition format_engine_model_version :: "pystr \<Rightarrow> pystr \<Rightarrow> pystr \<Rightarrow> (py_error, pystr) result" where
  "format_engine_model_version engine_version model_version engine_build_version =
     (let engine = py_strip engine_version; model = py_strip model_version; build = py_strip engine_build_version
      in if engine = [] then Inl (ValueError ''engine version must not be empty'')
         else if model = [] then Inl (ValueError ''model version must not be empty'')
         else if build = [] then Inl (ValueError ''engine build version must not be empty'')
         else Inr ([0x5F15, 0x64CE, 0x7248, 0x672C, 0x53F7, 0xFF1A] @ engine @ [0xFF0C] @
                   [0x6A21, 0x578B, 0x7248, 0x672C, 0x53F7, 0xFF1A] @ model @ [0xFF0C] @
                   [0x5F15, 0x64CE, 0x7F16, 0x8BD1, 0x7248, 0x672C, 0x53F7, 0xFF1A] @ build))"

definition normalize_version_query_text :: "pystr \<Rightarrow> (py_error, pystr) result" where
  "normalize_version_query_text v =
     (if py_strip v = [] then Inl (ValueError ''version_query_text must not be empty'') else Inr (py_strip v))"

definition resolve_diagnostic_text :: "pystr \<Rightarrow> pystr \<Rightarrow> pystr \<Rightarrow> (py_error, pystr) result" where
  "resolve_diagnostic_text t version_text version_query_text =
     (case normalize_version_query_text version_query_text of
        Inl e \<Rightarrow> Inl e
      | Inr q \<Rightarrow> Inr (if t \<noteq> q then t else version_text))"

section \<open>The router\<close>

record router =
  rt_query :: pystr
  rt_pending :: "pystr list"
  rt_passthrough :: bool

definition new_router :: "pystr \<Rightarrow> (py_error, router) result" where
  "new_router query =
     (case normalize_version_query_text query of
        Inl e \<Rightarrow> Inl e
      | Inr q \<Rightarrow> Inr \<lparr>rt_query = q, rt_pending = [], rt_passthrough = False\<rparr>)"

definition pending_text :: "router \<Rightarrow> pystr" where
  "pending_text r = concat (rt_pending r)"

definition router_push :: "pystr \<Rightarrow> router \<Rightarrow> router \<times> pystr list" where
  "router_push t r =
     (if t = [] then (r, [])
      else if rt_passthrough r then (r, [t])
      else let candidate = concat (rt_pending r @ [t])
           in if prefix candidate (rt_query r) then (r\<lparr>rt_pending := rt_pending r @ [t]\<rparr>, [])
              else (r\<lparr>rt_passthrough := True, rt_pending := []\<rparr>, rt_pending r @ [t]))"

definition router_finish :: "pystr \<Rightarrow> router \<Rightarrow> router \<times> pystr list \<times> bool" where
  "router_finish version_text r =
     (if rt_passthrough r then (r, [], False)
      else let r1 = r\<lparr>rt_pending := [], rt_passthrough := True\<rparr>
           in if concat (rt_pending r) = rt_query r then (r1, [version_text], True)
              else (r1, rt_pending r, False))"

fun router_stream :: "pystr list \<Rightarrow> router \<Rightarrow> router \<times> pystr list" where
  "router_stream [] r = (r, [])"
| "router_stream (t # ts) r =
     (case router_push t r of (r1, out) \<Rightarrow> case router_stream ts r1 of (r2, rest) \<Rightarrow> (r2, out @ rest))"

text \<open>Nothing is pending once the router lets everything through, and what is pending begins the query.\<close>

definition router_ok :: "router \<Rightarrow> bool" where
  "router_ok r \<longleftrightarrow> (if rt_passthrough r then rt_pending r = [] else prefix (pending_text r) (rt_query r))"

lemma new_router_ok: "new_router q = Inr r \<Longrightarrow> router_ok r \<and> rt_query r = py_strip q \<and> rt_query r \<noteq> [] \<and> pending_text r = [] \<and> \<not> rt_passthrough r"
  by (auto simp: new_router_def normalize_version_query_text_def router_ok_def pending_text_def split: if_splits)

lemma router_push_ok:
  assumes "router_ok r" and "router_push t r = (r', out)"
  shows "router_ok r'" "rt_query r' = rt_query r" "concat out @ pending_text r' = pending_text r @ t"
    "rt_passthrough r' \<longrightarrow> rt_passthrough r \<or> \<not> prefix (pending_text r @ t) (rt_query r)"
    "rt_passthrough r \<longrightarrow> rt_passthrough r'" "\<not> rt_passthrough r' \<longrightarrow> out = []"
  using assms by (auto simp: router_ok_def router_push_def pending_text_def Let_def split: if_splits)

lemma router_stream_ok:
  assumes "router_ok r" and "router_stream ts r = (r', out)"
  shows "router_ok r' \<and> rt_query r' = rt_query r \<and> concat out @ pending_text r' = pending_text r @ concat ts \<and>
    (rt_passthrough r' \<longrightarrow> rt_passthrough r \<or> \<not> prefix (pending_text r @ concat ts) (rt_query r)) \<and>
    (\<not> rt_passthrough r' \<longrightarrow> out = []) \<and> (rt_passthrough r \<longrightarrow> rt_passthrough r')"
  using assms
proof (induction ts arbitrary: r out)
  case Nil
  then show ?case by simp
next
  case (Cons t ts)
  obtain r1 o1 where p: "router_push t r = (r1, o1)" by fastforce
  obtain o2 where s: "router_stream ts r1 = (r', o2)" "out = o1 @ o2" using Cons.prems(2) p by (auto split: prod.splits)
  note k = router_push_ok [OF Cons.prems(1) p]
  from Cons.IH [OF k(1) s(1)] have ih: "router_ok r'" "rt_query r' = rt_query r1" "concat o2 @ pending_text r' = pending_text r1 @ concat ts"
    "rt_passthrough r' \<longrightarrow> rt_passthrough r1 \<or> \<not> prefix (pending_text r1 @ concat ts) (rt_query r1)"
    "\<not> rt_passthrough r' \<longrightarrow> o2 = []" "rt_passthrough r1 \<longrightarrow> rt_passthrough r'" by auto
  have "concat out @ pending_text r' = pending_text r @ concat (t # ts)"
    using ih(3) k(3) s(2) by (metis append.assoc concat.simps(2) concat_append)
  moreover have "rt_passthrough r \<or> \<not> prefix (pending_text r @ concat (t # ts)) (rt_query r)" if "rt_passthrough r'"
  proof (cases "rt_passthrough r1")
    case True
    then show ?thesis using k(4) append_prefixD [of "pending_text r @ t" "concat ts" "rt_query r"] by auto
  next
    case False
    then have "pending_text r1 = pending_text r @ t" using k(3,6) by simp
    then show ?thesis using ih(4) that False k(2) by auto
  qed
  ultimately show ?case using ih k s(2) by auto
qed

text \<open>
  The router speaks what it is given, unless it is exactly the query. For every configured
  query and every sequence of packets: if the packets together are the query, nothing is released
  before the end and the end releases the version text alone; in every other case the released
  packets, those of the end included, spell the input unchanged. At any time the released and the
  withheld text together are the input so far.
\<close>

theorem router_is_exact:
  assumes "new_router query = Inr r" and "router_stream ts r = (r1, out)" and "router_finish version r1 = (r2, chunks, matched)"
  shows "concat out @ pending_text r1 = concat ts \<and> (matched \<longleftrightarrow> concat ts = py_strip query) \<and>
    concat out @ concat chunks = (if matched then version else concat ts) \<and> (matched \<longrightarrow> out = [])"
proof (intro conjI)
  note n = new_router_ok [OF assms(1)]
  have s: "router_ok r1" "rt_query r1 = py_strip query" "concat out @ pending_text r1 = concat ts"
    "rt_passthrough r1 \<longrightarrow> \<not> prefix (concat ts) (py_strip query)" "\<not> rt_passthrough r1 \<longrightarrow> out = []"
    using router_stream_ok [OF _ assms(2)] n by auto
  show "concat out @ pending_text r1 = concat ts" by (rule s(3))
  show "matched \<longleftrightarrow> concat ts = py_strip query"
    using assms(3) s by (auto simp: router_finish_def pending_text_def Let_def split: if_splits)
  show "concat out @ concat chunks = (if matched then version else concat ts)"
    using assms(3) s by (auto simp: router_finish_def pending_text_def router_ok_def Let_def split: if_splits)
  show "matched \<longrightarrow> out = []" using assms(3) s by (auto simp: router_finish_def split: if_splits)
qed

theorem router_is_exact_witness:
  "\<exists>r r1 r2. new_router [32, 97, 98] = Inr r \<and> router_stream [[97], [], [98]] r = (r1, []) \<and>
     router_finish [118] r1 = (r2, [[118]], True) \<and> concat [[97], [], [98]] = py_strip [32, 97, 98]"
proof -
  let ?r = "\<lparr>rt_query = [97, 98], rt_pending = [], rt_passthrough = False\<rparr>"
  let ?r1 = "?r\<lparr>rt_pending := [[97], [98]]\<rparr>" and ?r2 = "?r\<lparr>rt_passthrough := True\<rparr>"
  have e: "new_router [32, 97, 98] = Inr ?r" "router_stream [[97], [], [98]] ?r = (?r1, [])"
    "router_finish [118] ?r1 = (?r2, [[118]], True)" by code_simp+
  show ?thesis using e router_is_exact [OF e] by blast
qed

end
