(* ===== verification/Text_Input.thy ===== *)
theory Text_Input
  imports Dispatcher Text_Coordinates Tokenize Diagnostic_Text
begin

text \<open>
  The text path of \<open>engine/frontend/interface.py\<close>: a packet passes the emoji carry and the version
  router, the text normalizer turns it into commits, a batch of commits extends the journal and the
  cursor plan, and its spoken text is tokenized, given to the splitter and dispatched to the engine.
  Streaming sessions do this packet by packet, a FULL_TEXT session once at the end.

  The text normalizer (\<open>IncrementalTextCommitter\<close> under its span driver) and the commitment policy are
  parameters: the results hold for whatever commits they decide on, and for their exceptions. Log
  records and the notifications of commit events are left out.
\<close>


section \<open>Steps\<close>

text \<open>A coroutine that keeps its session and may raise; \<open>None\<close> stands for one that does not return.\<close>

type_synonym 's step = "'s \<Rightarrow> ('s \<times> (py_error, unit) result) option"

definition skip :: "'s step" where
  "skip s = Some (s, Inr ())"

definition then_do :: "'s step \<Rightarrow> 's step \<Rightarrow> 's step" where
  "then_do f g s =
     (case f s of
        None \<Rightarrow> None
      | Some (s', Inl e) \<Rightarrow> Some (s', Inl e)
      | Some (s', Inr _) \<Rightarrow> g s')"

fun for_each :: "('a \<Rightarrow> 's step) \<Rightarrow> 'a list \<Rightarrow> 's step" where
  "for_each f [] s = Some (s, Inr ())"
| "for_each f (x # xs) s = then_do (f x) (for_each f xs) s"

definition keeps :: "('s \<Rightarrow> bool) \<Rightarrow> 's step \<Rightarrow> bool" where
  "keeps P f \<longleftrightarrow> (\<forall>s. P s \<longrightarrow> (\<exists>s' r. f s = Some (s', r) \<and> P s'))"

lemma keeps_skip [intro]: "keeps P skip"
  by (simp add: keeps_def skip_def)

lemma keeps_then [intro]: "keeps P f \<Longrightarrow> keeps P g \<Longrightarrow> keeps P (then_do f g)"
  unfolding keeps_def then_do_def by (fastforce split: option.splits sum.splits)

lemma keeps_for_each [intro]: "(\<And>x. keeps P (f x)) \<Longrightarrow> keeps P (for_each f xs)"
proof (induction xs)
  case (Cons x xs)
  have "for_each f (x # xs) = then_do (f x) (for_each f xs)" by (rule ext) simp
  with Cons keeps_then show ?case by metis
qed (simp add: keeps_def)

section \<open>The session\<close>

text \<open>What the optional commitment policy answers to a commit.\<close>

record observation =
  ob_accepted :: bool
  ob_boundary :: bool
  ob_boundary_before :: bool

record commit_item =
  ci_commit :: text_commit
  ci_output :: "output_item list"

text \<open>
  What the session is built with. The text normalizer with its deadlines and the commitment policy
  are a machine with states \<open>'c\<close>; the clock it reads is part of its state. \<open>'m\<close> is the type of packet
  metadata, which is only compared and handed to the normalizer.
\<close>

record ('c, 'm) text_env =
  te_rnd :: "rat \<Rightarrow> rat"
  te_cat :: "nat \<Rightarrow> string"
  te_tokenizer :: tokenizer
  te_labelizer :: labelizer
  te_feed :: "pystr \<Rightarrow> 'm option \<Rightarrow> bool \<Rightarrow> 'c \<Rightarrow> 'c \<times> (py_error, commit_item list) result"
  te_poll :: "'c \<Rightarrow> 'c \<times> (py_error, commit_item list) result"
  te_raw :: "'c \<Rightarrow> pystr"
  te_observe :: "text_commit \<Rightarrow> pystr \<Rightarrow> 'c \<Rightarrow> 'c \<times> observation option"
  te_policy_live :: "'c \<Rightarrow> bool"
  te_finish :: "'c \<Rightarrow> 'c"
  te_version :: pystr
  te_query :: pystr

record 'c text_session =
  tx_frontend :: frontend
  tx_journal :: journal
  tx_committer :: 'c
  tx_router :: router
  tx_carry :: pystr
  tx_buffer :: pystr
  tx_commits :: "text_commit list"
  tx_spoken :: "pystr list"
  tx_adapter :: "plan_adapter option"
  tx_disabled :: bool
  tx_done :: bool

definition on_frontend :: "(frontend \<Rightarrow> outcome) \<Rightarrow> 'c text_session step" where
  "on_frontend g s = map_option (\<lambda>(f, r). (s\<lparr>tx_frontend := f\<rparr>, r)) (g (tx_frontend s))"

section \<open>Cursor plans\<close>

text \<open>
  \<open>_refresh_cursor_plan\<close> with \<open>_disable_native_cursor\<close>. A plan other than the one the adapter cached
  has a later revision, so the identity test on the previous plan is an equality.
\<close>

definition refresh_cursor_plan :: "('c, 'm) text_env \<Rightarrow> bool \<Rightarrow> 'c text_session step" where
  "refresh_cursor_plan E final s =
     (case tx_adapter s of
        None \<Rightarrow> skip s
      | Some a \<Rightarrow>
          if tx_disabled s then skip s
          else
            let f = tx_frontend s;
                revision = fs_plan_revision f + 1;
                committed = (case fs_plan f of None \<Rightarrow> 0 | Some p \<Rightarrow> label_count p)
            in case plan_build (te_labelizer E) (tx_commits s) (Some (tx_spoken s)) 0 revision final (fs_plan f)
                      (fs_plan f = cached_plan a) committed a of
                 (_, Inl e) \<Rightarrow>
                   Some (s\<lparr>tx_disabled := True, tx_adapter := None, tx_frontend := f\<lparr>fs_segment_plans := []\<rparr>\<rparr>, Inr ())
               | (a', Inr plan) \<Rightarrow>
                   on_frontend (\<lambda>f. Some (submit_cursor_plan f))
                     (s\<lparr>tx_adapter := Some a', tx_frontend := f\<lparr>fs_plan_revision := revision, fs_plan := Some plan\<rparr>\<rparr>))"

section \<open>Commits to tokens\<close>

definition ingest_streaming_text ::
  "('c, 'm) text_env \<Rightarrow> pystr \<Rightarrow> bool \<Rightarrow> int option \<Rightarrow> int list \<Rightarrow> int list \<Rightarrow> marks \<Rightarrow> 'c text_session step" where
  "ingest_streaming_text E body journaled normalized_base offsets before_offsets m s =
     (let appended =
            (if journaled
             then (tx_journal s,
                   Inr (body, case normalized_base of
                                None \<Rightarrow> int (length (normalized_text (tx_journal s))) - int (length body)
                              | Some b \<Rightarrow> b))
             else case journal_append normalize_tts_text body (tx_journal s) of
                    (j, Inl e) \<Rightarrow> (j, Inl e)
                  | (j, Inr (t, n)) \<Rightarrow> (j, Inr (t, int n)));
          s1 = s\<lparr>tx_journal := fst appended\<rparr>
      in case snd appended of
           Inl e \<Rightarrow> Some (s1, Inl e)
         | Inr (t, base) \<Rightarrow>
             if t = [] \<or> (fs_mode (tx_frontend s) \<noteq> TOKEN \<and> py_strip t = []) then skip s1
             else (case tokenize_segment_text (te_cat E) (te_tokenizer E) t base (tx_journal s1) of
                     Inl e \<Rightarrow> Some (s1, Inl e)
                   | Inr ts \<Rightarrow>
                       if ts = [] then skip s1
                       else on_frontend
                              (\<lambda>f. with_spliter (te_rnd E) (te_cat E) (route_packet f ts (packet_marks ts offsets before_offsets m)) f) s1))"

type_synonym pending_spoken = "(pystr \<times> int \<times> observation option) list"

fun append_commits ::
  "('c, 'm) text_env \<Rightarrow> commit_item list \<Rightarrow> 'c text_session \<Rightarrow> 'c text_session \<times> (py_error, pending_spoken) result" where
  "append_commits E [] s = (s, Inr [])"
| "append_commits E (it # its) s =
     (let c = ci_commit it
      in case append_spoken normalize_tts_text (te_raw E (tx_committer s)) (tc_raw_start c) (tc_raw_end c) (tc_tts_text c)
                (Some (tc_mapping c)) (Some (ci_output it)) (tx_journal s) of
           (j, Inl e) \<Rightarrow> (s\<lparr>tx_journal := j\<rparr>, Inl e)
         | (j, Inr (sp, base)) \<Rightarrow>
             (case te_observe E c sp (tx_committer s) of
                (cm, ob) \<Rightarrow>
                  (case append_commits E its
                          (s\<lparr>tx_journal := j, tx_commits := tx_commits s @ [c], tx_spoken := tx_spoken s @ [sp], tx_committer := cm\<rparr>) of
                     (s2, Inl e) \<Rightarrow> (s2, Inl e)
                   | (s2, Inr ps) \<Rightarrow> (s2, Inr ((sp, int base, ob) # ps)))))"

definition boundary_offsets :: "pending_spoken \<Rightarrow> int list" where
  "boundary_offsets ps =
     concat (map (\<lambda>(sp, base, ob). case ob of Some o1 \<Rightarrow> if ob_boundary o1 then [base + int (length sp)] else [] | None \<Rightarrow> []) ps)"

definition boundary_before_offsets :: "pending_spoken \<Rightarrow> int list" where
  "boundary_before_offsets ps =
     concat (map (\<lambda>(sp, base, ob). case ob of Some o1 \<Rightarrow> if ob_boundary_before o1 then [base] else [] | None \<Rightarrow> []) ps)"

definition speak_batch :: "('c, 'm) text_env \<Rightarrow> pending_spoken \<Rightarrow> 'c text_session step" where
  "speak_batch E ps s =
     (case ps of
        [] \<Rightarrow> skip s
      | (_, base, _) # _ \<Rightarrow>
          let batch = concat (map fst ps);
              after = boundary_offsets ps;
              before = boundary_before_offsets ps
          in ingest_streaming_text E batch True (Some base) after before
               \<lparr>force_boundary = (after \<noteq> [] \<and> last after = base + int (length batch)),
                force_boundary_before = (before \<noteq> [] \<and> hd before = base),
                force_boundary_indices = [], force_boundary_before_indices = []\<rparr> s)"

definition ingest_commits :: "('c, 'm) text_env \<Rightarrow> commit_item list \<Rightarrow> 'c text_session step" where
  "ingest_commits E items s =
     (case append_commits E items s of
        (s1, Inl e) \<Rightarrow> Some (s1, Inl e)
      | (s1, Inr ps) \<Rightarrow>
          then_do (if items = [] then skip else refresh_cursor_plan E False)
            (speak_batch E (filter (\<lambda>p. fst p \<noteq> []) ps)) s1)"

section \<open>Packets\<close>

definition tn_raw_source :: "('c, 'm) text_env \<Rightarrow> 'c text_session \<Rightarrow> pystr" where
  "tn_raw_source E s = te_raw E (tx_committer s) @ pending_text (tx_router s) @ tx_carry s"

definition update_source :: "('c, 'm) text_env \<Rightarrow> 'c text_session step" where
  "update_source E s =
     (case update_raw_source (tn_raw_source E s) (tx_journal s) of (j, r) \<Rightarrow> Some (s\<lparr>tx_journal := j\<rparr>, r))"

definition decide :: "('c \<Rightarrow> 'c \<times> (py_error, commit_item list) result) \<Rightarrow> ('c, 'm) text_env \<Rightarrow> 'c text_session step" where
  "decide d E s =
     (case d (tx_committer s) of
        (c, Inl e) \<Rightarrow> Some (s\<lparr>tx_committer := c\<rparr>, Inl e)
      | (c, Inr items) \<Rightarrow> ingest_commits E items (s\<lparr>tx_committer := c\<rparr>))"

definition feed_text :: "('c, 'm) text_env \<Rightarrow> 'm option \<Rightarrow> pystr \<Rightarrow> 'c text_session step" where
  "feed_text E meta t = then_do (decide (te_feed E t meta False) E) (update_source E)"

definition push_streaming :: "('c, 'm) text_env \<Rightarrow> pystr \<Rightarrow> 'm option \<Rightarrow> 'c text_session step" where
  "push_streaming E t meta s =
     (case split_pending_emoji (tx_carry s @ t) of
        (body, carry) \<Rightarrow>
          (case router_push body (tx_router s) of
             (router, released) \<Rightarrow> for_each (feed_text E meta) released (s\<lparr>tx_carry := carry, tx_router := router\<rparr>)))"

definition push_buffered :: "pystr \<Rightarrow> 'c text_session step" where
  "push_buffered t s =
     (case journal_append normalize_tts_text t (tx_journal s) of
        (j, Inl e) \<Rightarrow> Some (s\<lparr>tx_journal := j\<rparr>, Inl e)
      | (j, Inr _) \<Rightarrow> Some (s\<lparr>tx_journal := j, tx_buffer := tx_buffer s @ t\<rparr>, Inr ()))"

definition push_text_input_locked :: "('c, 'm) text_env \<Rightarrow> pystr \<Rightarrow> 'm option \<Rightarrow> 'c text_session step" where
  "push_text_input_locked E t meta s =
     then_do (decide (te_poll E) E)
       (if fs_mode (tx_frontend s) = FULL_TEXT then push_buffered t
        else then_do (update_source E) (push_streaming E t meta)) s"

text \<open>One round of the deadline ticker.\<close>

definition poll_deadline :: "('c, 'm) text_env \<Rightarrow> 'c text_session step" where
  "poll_deadline E s =
     (if tx_done s \<or> fs_input_complete (tx_frontend s) then skip s
      else then_do (decide (te_poll E) E) (update_source E) s)"

text \<open>The text actor: adjacent packets with equal metadata are joined, and each group is pushed on its own.\<close>

fun coalesce :: "(pystr \<times> 'm option) list \<Rightarrow> (pystr \<times> 'm option) list" where
  "coalesce [] = []"
| "coalesce [x] = [x]"
| "coalesce ((t, m) # (t', m') # xs) =
     (if m' = m then coalesce ((t @ t', m) # xs) else (t, m) # coalesce ((t', m') # xs))"

definition caught :: "'s step \<Rightarrow> 's step" where
  "caught f s = map_option (\<lambda>(s', _). (s', Inr ())) (f s)"

definition text_actor_batch :: "('c, 'm) text_env \<Rightarrow> (pystr \<times> 'm option) list \<Rightarrow> 'c text_session step" where
  "text_actor_batch E batch s =
     (if tx_done s then skip s
      else for_each (\<lambda>(t, m). caught (push_text_input_locked E t m)) (coalesce batch) s)"

section \<open>The end of the input\<close>

definition finish_chunk :: "('c, 'm) text_env \<Rightarrow> pystr \<Rightarrow> 'c text_session step" where
  "finish_chunk E t s =
     (case split_pending_emoji (tx_carry s @ t) of
        (body, carry) \<Rightarrow>
          if body = [] then skip (s\<lparr>tx_carry := carry\<rparr>) else feed_text E None body (s\<lparr>tx_carry := carry\<rparr>))"

definition flush_router :: "('c, 'm) text_env \<Rightarrow> pystr list \<Rightarrow> bool \<Rightarrow> 'c text_session step" where
  "flush_router E chunks matched s =
     (if matched then for_each (feed_text E None) chunks (s\<lparr>tx_carry := []\<rparr>) else for_each (finish_chunk E) chunks s)"

definition flush_carry :: "('c, 'm) text_env \<Rightarrow> 'c text_session step" where
  "flush_carry E s = (if tx_carry s = [] then skip s else feed_text E None (tx_carry s) (s\<lparr>tx_carry := []\<rparr>))"

definition final_decision :: "('c, 'm) text_env \<Rightarrow> bool \<Rightarrow> 'c text_session step" where
  "final_decision E matched =
     then_do (decide (te_feed E [] None True) E)
       (then_do (\<lambda>s. if fs_plan (tx_frontend s) = None then skip s else refresh_cursor_plan E True s)
          (if matched then skip else update_source E))"

definition close_input :: "('c, 'm) text_env \<Rightarrow> 'c text_session step" where
  "close_input E s =
     on_frontend (finish_input (te_rnd E) (te_cat E))
       (s\<lparr>tx_committer := te_finish E (tx_committer s), tx_journal := finalize_projection (tx_journal s)\<rparr>)"

text \<open>The complete raw text of a FULL_TEXT session.\<close>

definition full_raw_text :: "pystr \<Rightarrow> pystr \<Rightarrow> pystr \<Rightarrow> pystr" where
  "full_raw_text explicit buffered journaled =
     (let raw = (if explicit \<noteq> [] \<and> buffered \<noteq> []
                 then if prefix buffered explicit then explicit
                      else if prefix explicit buffered then buffered
                      else buffered @ explicit
                 else if explicit \<noteq> [] then explicit else buffered)
      in if raw = [] then journaled else raw)"

record full_tokens =
  ft_tokens :: "segment_token list"
  ft_parts :: "pystr list"
  ft_offset :: int
  ft_after :: "int list"
  ft_before :: "int list"

definition no_full_tokens :: full_tokens where
  "no_full_tokens = \<lparr>ft_tokens = [], ft_parts = [], ft_offset = 0, ft_after = [], ft_before = []\<rparr>"

fun commitment_tokens ::
  "('c, 'm) text_env \<Rightarrow> (text_commit \<times> pystr) list \<Rightarrow> full_tokens \<Rightarrow> 'c text_session \<Rightarrow>
   'c text_session \<times> (py_error, full_tokens) result" where
  "commitment_tokens E [] acc s = (s, Inr acc)"
| "commitment_tokens E ((c, sp) # cs) acc s =
     (case te_observe E c sp (tx_committer s) of
        (cm, None) \<Rightarrow> commitment_tokens E cs acc (s\<lparr>tx_committer := cm\<rparr>)
      | (cm, Some ob) \<Rightarrow>
          (case tokenize_segment_text (te_cat E) (te_tokenizer E) sp (ft_offset acc) (tx_journal s) of
             Inl e \<Rightarrow> (s\<lparr>tx_committer := cm\<rparr>, Inl e)
           | Inr ts \<Rightarrow>
               let n = int (length (ft_tokens acc)); marked = (ob_accepted ob \<and> ts \<noteq> [])
               in commitment_tokens E cs
                    \<lparr>ft_tokens = ft_tokens acc @ ts, ft_parts = ft_parts acc @ [sp], ft_offset = ft_offset acc + int (length sp),
                     ft_after = ft_after acc @ (if marked \<and> ob_boundary ob then [n + int (length ts) - 1] else []),
                     ft_before = ft_before acc @ (if marked \<and> ob_boundary_before ob then [n] else [])\<rparr>
                    (s\<lparr>tx_committer := cm\<rparr>)))"

definition speak_full_text :: "('c, 'm) text_env \<Rightarrow> pystr \<Rightarrow> full_tokens \<Rightarrow> 'c text_session step" where
  "speak_full_text E t acc s =
     (if t = [] then on_frontend (finish_full_text (te_rnd E) (te_cat E) [] [] []) s
      else if te_policy_live E (tx_committer s) \<and> concat (ft_parts acc) = t
      then on_frontend (finish_full_text (te_rnd E) (te_cat E) (ft_tokens acc) (ft_after acc) (ft_before acc)) s
      else case tokenize_segment_text (te_cat E) (te_tokenizer E) t 0 (tx_journal s) of
             Inl e \<Rightarrow> Some (s, Inl e)
           | Inr ts \<Rightarrow> on_frontend (finish_full_text (te_rnd E) (te_cat E) ts [] []) s)"

text \<open>The input counts as complete from here on, also when the rest raises.\<close>

definition completing :: "'c text_session step \<Rightarrow> 'c text_session step" where
  "completing f s =
     map_option (\<lambda>(s', r). (case r of Inl _ \<Rightarrow> s'\<lparr>tx_frontend := (tx_frontend s')\<lparr>fs_input_complete := True\<rparr>\<rparr> | Inr _ \<Rightarrow> s', r)) (f s)"

definition apply_full_decision :: "('c, 'm) text_env \<Rightarrow> pystr \<Rightarrow> pystr \<Rightarrow> commit_item list \<Rightarrow> 'c text_session step" where
  "apply_full_decision E raw tn_input items s =
     (let commits = map ci_commit items; parts = map (normalize_tts_text \<circ> tc_tts_text) commits
      in case spoken_projection tn_input commits of
           Inl e \<Rightarrow> Some (s, Inl e)
         | Inr (t, bs) \<Rightarrow>
             (case install_projection raw t (Some (if tn_input = raw then bs else map (min (int (length raw))) bs)) (tx_journal s) of
                (j, Inl e) \<Rightarrow> Some (s\<lparr>tx_journal := j\<rparr>, Inl e)
              | (j, Inr _) \<Rightarrow>
                  (case commitment_tokens E (zip commits parts) no_full_tokens
                          (s\<lparr>tx_journal := j, tx_commits := tx_commits s @ commits, tx_spoken := tx_spoken s @ parts\<rparr>) of
                     (s1, Inl e) \<Rightarrow> Some (s1, Inl e)
                   | (s1, Inr acc) \<Rightarrow>
                       completing (then_do (if tx_commits s1 = [] then skip else refresh_cursor_plan E True) (speak_full_text E t acc))
                         (s1\<lparr>tx_committer := te_finish E (tx_committer s1)\<rparr>))))"

definition feed_full_text_locked :: "('c, 'm) text_env \<Rightarrow> pystr \<Rightarrow> 'c text_session step" where
  "feed_full_text_locked E explicit s =
     (if tx_done s then skip s
      else let raw = full_raw_text explicit (tx_buffer s) (raw_text (tx_journal s));
               s1 = s\<lparr>tx_buffer := []\<rparr>
           in case resolve_diagnostic_text raw (te_version E) (te_query E) of
                Inl e \<Rightarrow> Some (s1, Inl e)
              | Inr tn_input \<Rightarrow>
                  (case te_feed E tn_input None True (tx_committer s1) of
                     (c, Inl e) \<Rightarrow> Some (s1\<lparr>tx_committer := c\<rparr>, Inl e)
                   | (c, Inr items) \<Rightarrow> apply_full_decision E raw tn_input items (s1\<lparr>tx_committer := c\<rparr>)))"

definition mark_input_complete_locked :: "('c, 'm) text_env \<Rightarrow> 'c text_session step" where
  "mark_input_complete_locked E s =
     (if fs_input_complete (tx_frontend s) then skip s
      else if fs_mode (tx_frontend s) = FULL_TEXT
      then feed_full_text_locked E (if tx_buffer s = [] then raw_text (tx_journal s) else tx_buffer s) (s\<lparr>tx_buffer := []\<rparr>)
      else case router_finish (te_version E) (tx_router s) of
             (router, chunks, matched) \<Rightarrow>
               then_do (flush_router E chunks matched)
                 (then_do (flush_carry E) (then_do (final_decision E matched) (close_input E)))
                 (s\<lparr>tx_router := router\<rparr>))"

definition cancel_session :: "'c text_session step" where
  "cancel_session s =
     (if tx_done s then skip s
      else Some (s\<lparr>tx_done := True, tx_frontend := submit_cancel [] (tx_frontend s)\<rparr>, Inr ()))"

section \<open>Tokens of the canonical text\<close>

definition token_at :: "pystr \<Rightarrow> segment_token \<Rightarrow> bool" where
  "token_at canon t \<longleftrightarrow>
     0 \<le> segment_token.normalized_start t \<and> segment_token.normalized_start t \<le> segment_token.normalized_end t \<and>
     segment_token.normalized_end t \<le> int (length canon) \<and>
     st_text t = substr (segment_token.normalized_start t) (segment_token.normalized_end t) canon"

lemma substr_append: "0 \<le> a \<Longrightarrow> a \<le> b \<Longrightarrow> b \<le> int (length x) \<Longrightarrow> substr a b (x @ y) = substr a b x"
  by (simp add: substr_def nat_le_iff)

lemma substr_shift: "0 \<le> a \<Longrightarrow> a \<le> b \<Longrightarrow> substr (int (length x) + a) (int (length x) + b) (x @ y) = substr a b y"
  by (simp add: substr_def nat_add_distrib)

lemma token_at_append: "token_at x t \<Longrightarrow> token_at (x @ y) t"
  by (auto simp: token_at_def substr_append)

lemma token_at_span: "token_at canon t \<Longrightarrow> token_span_ok t"
  by (simp add: token_at_def token_span_ok_def)

lemma tiles_inside: "tiles a b spans \<Longrightarrow> (l, r) \<in> set spans \<Longrightarrow> a \<le> l \<and> l \<le> r \<and> r \<le> b"
proof (induction spans arbitrary: a)
  case (Cons s spans)
  then show ?case using tiles_bounds by (cases s) fastforce
qed simp

definition tokenizer_ok :: "tokenizer \<Rightarrow> bool" where
  "tokenizer_ok tk \<longleftrightarrow>
     (\<forall>t. t \<noteq> [] \<longrightarrow> (case tokenizer_offsets tk t of (ids, offsets) \<Rightarrow> length ids = length offsets \<and> ids \<noteq> []))"

lemma tokenize_batch:
  assumes "tokenizer_ok tk" and "journal_ok j" and "t \<noteq> []" and "normalized_text j = x @ t" and "base = int (length x)"
  shows "\<exists>ts. tokenize_segment_text cat tk t base j = Inr ts \<and> ts \<noteq> [] \<and> concat (map st_text ts) = t \<and> list_all (token_at (x @ t)) ts"
proof -
  obtain ids offs where o: "tokenizer_offsets tk t = (ids, offs)" by fastforce
  then have "length ids = length offs" "ids \<noteq> []" using assms(1,3) by (auto simp: tokenizer_ok_def)
  from tokenize_ok [OF assms(2) o this, of cat base] obtain ts where ts:
    "tokenize_segment_text cat tk t base j = Inr ts" "concat (map st_text ts) = t"
    "tiles base (base + int (length t)) (map (\<lambda>t. (segment_token.normalized_start t, segment_token.normalized_end t)) ts)"
    "list_all (\<lambda>u. st_text u = substr (segment_token.normalized_start u - base) (segment_token.normalized_end u - base) t) ts" by blast
  have "token_at (x @ t) u" if u: "u \<in> set ts" for u
  proof -
    let ?s = "segment_token.normalized_start u" and ?e = "segment_token.normalized_end u"
    have b: "base \<le> ?s" "?s \<le> ?e" "?e \<le> base + int (length t)" using tiles_inside [OF ts(3), of ?s ?e] u by force+
    have "st_text u = substr (?s - base) (?e - base) t" using ts(4) u by (auto simp: list_all_iff)
    also have "\<dots> = substr ?s ?e (x @ t)" using substr_shift [of "?s - base" "?e - base" x t] b assms(5) by simp
    finally show ?thesis using b assms(5) by (simp add: token_at_def)
  qed
  moreover have "ts \<noteq> []" using ts(2) assms(3) by auto
  ultimately show ?thesis using ts(1,2) by (auto simp: list_all_iff)
qed

section \<open>Appending commits\<close>

lemma append_spoken_open:
  assumes "journal_ok j" and "\<not> input_final j"
  shows "\<exists>j' d. append_spoken nrm src a b sp mp om j = (j', Inr (d, length (normalized_text j))) \<and> journal_ok j' \<and> \<not> input_final j' \<and>
    normalized_text j' = normalized_text j @ d"
proof -
  have l: "length (normalized_to_raw j) = Suc (length (normalized_text j))" using assms(1) by (simp add: journal_ok_def map_ok_def)
  then have ne: "normalized_to_raw j \<noteq> []" by auto
  obtain j' r where e: "append_spoken nrm src a b sp mp om j = (j', r)" by fastforce
  have "journal_ok j'" using append_spoken_ok [OF assms(1), of nrm src a b sp mp om] e by simp
  then show ?thesis using assms(2) l ne e by (auto simp: append_spoken_def Let_def split: prod.splits)
qed

text \<open>The parts of a session that appending commits leaves alone.\<close>

definition untouched :: "'c text_session \<Rightarrow> frontend \<times> router \<times> pystr \<times> pystr \<times> plan_adapter option \<times> bool \<times> bool" where
  "untouched s = (tx_frontend s, tx_router s, tx_carry s, tx_buffer s, tx_adapter s, tx_disabled s, tx_done s)"

fun chained :: "int \<Rightarrow> pending_spoken \<Rightarrow> bool" where
  "chained n [] \<longleftrightarrow> True"
| "chained n ((sp, base, ob) # ps) \<longleftrightarrow> base = n \<and> chained (n + int (length sp)) ps"

lemma chained_first: "chained n ps \<Longrightarrow> filter (\<lambda>p. fst p \<noteq> []) ps = (sp, base, ob) # qs \<Longrightarrow> base = n"
  by (induction n ps rule: chained.induct) (auto split: if_splits)

lemma append_commits_open:
  assumes "journal_ok (tx_journal s)" and "\<not> input_final (tx_journal s)" and "length (tx_commits s) = length (tx_spoken s)"
  shows "\<exists>s' ps. append_commits E items s = (s', Inr ps) \<and> untouched s' = untouched s \<and> journal_ok (tx_journal s') \<and> \<not> input_final (tx_journal s') \<and>
    length (tx_commits s') = length (tx_spoken s') \<and> normalized_text (tx_journal s') = normalized_text (tx_journal s) @ concat (map fst ps) \<and>
    chained (int (length (normalized_text (tx_journal s)))) ps"
  using assms
proof (induction items arbitrary: s)
  case Nil
  then show ?case by simp
next
  case (Cons it items)
  let ?c = "ci_commit it"
  obtain j d where a: "append_spoken normalize_tts_text (te_raw E (tx_committer s)) (tc_raw_start ?c) (tc_raw_end ?c) (tc_tts_text ?c)
      (Some (tc_mapping ?c)) (Some (ci_output it)) (tx_journal s) = (j, Inr (d, length (normalized_text (tx_journal s))))"
    "journal_ok j" "\<not> input_final j" "normalized_text j = normalized_text (tx_journal s) @ d"
    using append_spoken_open [OF Cons.prems(1,2)] by blast
  obtain cm ob where ob: "te_observe E ?c d (tx_committer s) = (cm, ob)" by fastforce
  let ?s = "s\<lparr>tx_journal := j, tx_commits := tx_commits s @ [?c], tx_spoken := tx_spoken s @ [d], tx_committer := cm\<rparr>"
  obtain s' ps where ih: "append_commits E items ?s = (s', Inr ps)" "untouched s' = untouched ?s" "journal_ok (tx_journal s')"
    "\<not> input_final (tx_journal s')" "length (tx_commits s') = length (tx_spoken s')"
    "normalized_text (tx_journal s') = normalized_text j @ concat (map fst ps)" "chained (int (length (normalized_text j))) ps"
    using Cons.IH [of ?s] a(2,3) Cons.prems(3) by auto
  have "append_commits E (it # items) s = (s', Inr ((d, int (length (normalized_text (tx_journal s))), ob) # ps))"
    using a(1) ob ih(1) by (simp add: Let_def)
  then show ?case using ih a(4) by (simp add: untouched_def)
qed

lemma append_commits_closed:
  assumes "input_final (tx_journal s)"
  shows "append_commits E items s = (s, if items = [] then Inr [] else Inl (ValueError ''cannot append to a finalized text projection''))"
  using assms by (cases items) (simp_all add: append_spoken_def Let_def)

section \<open>Plans stay exact\<close>

definition exact_plan :: "cursor_label_plan \<Rightarrow> bool" where
  "exact_plan p \<longleftrightarrow> length (label_normalized_spans p) = length (label_ids p)"

definition adapter_exact :: "plan_adapter \<Rightarrow> bool" where
  "adapter_exact a \<longleftrightarrow> (case cached_plan a of None \<Rightarrow> True | Some p \<Rightarrow> exact_plan p)"

lemma full_plan_exact:
  assumes "full_plan (WithSpans lf) cs sp base r f = Inr p"
  shows "exact_plan p"
proof -
  obtain L S W out where o: "project_commits (WithSpans lf) 0 (zip cs sp) base 0 {} = Inr (L, S, W, out)"
    "p = \<lparr>label_ids = L, owner_spans = W, plan_revision = r, plan_final = f, label_normalized_spans = S\<rparr>" "plan_ok p"
    by (rule full_planD [OF assms])
  then show ?thesis using project_spans [OF o(1)] by (simp add: exact_plan_def)
qed

lemma build_exact:
  assumes "adapter_exact a" and "plan_build (WithSpans lf) cs sp base r f prev same n a = (a', Inr p)"
  shows "adapter_exact a'" "exact_plan p"
proof -
  let ?sp = "effective_spoken cs sp"
  obtain a1 res where inc: "build_incremental (WithSpans lf) cs ?sp r f prev same n a = (a1, res)" by fastforce
  have "adapter_exact a' \<and> exact_plan p"
  proof (cases "\<exists>q. res = Inr (Some q)")
    case True
    then obtain q where q: "res = Inr (Some q)" by blast
    then have e: "a' = a1" "p = q" using assms(2) inc by (auto simp: plan_build_def Let_def split: if_splits)
    have "cached_plan a1 = Some q \<and> exact_plan q"
      using inc q assms(1)
      by (auto simp: build_incremental_def Let_def cache_projection_def adapter_exact_def exact_plan_def
          split: option.splits if_splits sum.splits dest!: make_plan_valid full_plan_exact)
    then show ?thesis using e by (simp add: adapter_exact_def)
  next
    case False
    then have "\<exists>b. full_plan (WithSpans lf) cs ?sp base r f = Inr p \<and> cached_plan a' = Some p"
      using assms(2) inc
      by (auto simp: plan_build_def Let_def cache_projection_def split: if_splits option.splits sum.splits)
    then show ?thesis using full_plan_exact by (auto simp: adapter_exact_def)
  qed
  then show "adapter_exact a'" "exact_plan p" by auto
qed

lemma exact_plan_ready: "plan_ok p \<Longrightarrow> exact_plan p \<Longrightarrow> label_normalized_spans p \<noteq> [] \<or> owner_spans p = []"
proof -
  assume p: "plan_ok p" "exact_plan p"
  have "owner_spans p = []" if "label_ids p = []"
  proof (cases "owner_spans p")
    case (Cons w ws)
    then show ?thesis using cover_bounds [OF plan_okD(3) [OF p(1)]] that by (auto simp: label_count_def)
  qed simp
  with p(2) show ?thesis by (auto simp: exact_plan_def)
qed

lemma session_ok_sends:
  assumes "session_ok rnd cap segs f" and "sends f [] f'"
  shows "session_ok rnd cap segs f'"
proof -
  obtain more where m: "fs_inbox f' = fs_inbox f @ more" "feeds more = []" "done_requests more = 0" and c: "control f' = control f" "cursor_ready f'"
    using assms(2) by (auto simp: sends_def)
  then have e: "fs_spliter f' = fs_spliter f" "fs_input_complete f' = fs_input_complete f" "fs_tokens_done_sent f' = fs_tokens_done_sent f"
    by (simp_all add: control_def)
  have "announced (fs_inbox f') x" if "announced (fs_inbox f) x" for x
    using that m unfolding announced_def by force
  then show ?thesis using assms(1) m c(2) e by (auto simp: session_ok_def spliter_has_dispatched_all_input_def)
qed

text \<open>The parts that a plan update leaves alone, and what it keeps.\<close>

definition text_part :: "'c text_session \<Rightarrow> journal \<times> 'c \<times> router \<times> pystr \<times> pystr \<times> text_commit list \<times> pystr list \<times> bool" where
  "text_part s = (tx_journal s, tx_committer s, tx_router s, tx_carry s, tx_buffer s, tx_commits s, tx_spoken s, tx_done s)"

definition plans_ok :: "'c text_session \<Rightarrow> bool" where
  "plans_ok s \<longleftrightarrow> (case tx_adapter s of None \<Rightarrow> True | Some a \<Rightarrow> adapter_exact a)"

lemma refresh_ok:
  assumes "session_ok rnd cap segs (tx_frontend s)" and "plans_ok s" and lab: "te_labelizer E = WithSpans lf"
  shows "\<exists>s'. refresh_cursor_plan E final s = Some (s', Inr ()) \<and> session_ok rnd cap segs (tx_frontend s') \<and> plans_ok s' \<and>
    text_part s' = text_part s \<and> control (tx_frontend s') = control (tx_frontend s)"
proof (cases "tx_adapter s = None \<or> tx_disabled s")
  case True
  then show ?thesis using assms by (auto simp: refresh_cursor_plan_def skip_def split: option.splits)
next
  case False
  then obtain a where a: "tx_adapter s = Some a" "\<not> tx_disabled s" by auto
  let ?f = "tx_frontend s"
  let ?rev = "fs_plan_revision ?f + 1" and ?n = "case fs_plan ?f of None \<Rightarrow> 0 | Some p \<Rightarrow> label_count p"
  obtain a' res where b: "plan_build (te_labelizer E) (tx_commits s) (Some (tx_spoken s)) 0 ?rev final (fs_plan ?f)
      (fs_plan ?f = cached_plan a) ?n a = (a', res)" by fastforce
  have ready: "cursor_ready ?f" by (rule session_parts(4) [OF assms(1)])
  show ?thesis
  proof (cases res)
    case (Inl e)
    have "sends ?f [] (?f\<lparr>fs_segment_plans := []\<rparr>)" using ready by (simp add: sends_def control_def cursor_ready_def done_requests_def)
    then have "session_ok rnd cap segs (?f\<lparr>fs_segment_plans := []\<rparr>)" by (rule session_ok_sends [OF assms(1)])
    then show ?thesis using a b Inl by (simp add: refresh_cursor_plan_def Let_def plans_ok_def text_part_def control_def)
  next
    case (Inr plan)
    note bk = build_keeps_committed_prefix [OF b [unfolded Inr]]
    have ex: "adapter_exact a'" "exact_plan plan"
      using build_exact [OF _ b [unfolded Inr lab]] assms(2) a(1) by (auto simp: plans_ok_def)
    let ?g = "?f\<lparr>fs_plan_revision := ?rev, fs_plan := Some plan\<rparr>"
    have rg: "cursor_ready ?g" using ready bk exact_plan_ready [OF _ ex(2)] by (simp add: cursor_ready_def)
    then have "sends ?f [] ?g" by (simp add: sends_def control_def done_requests_def)
    moreover obtain f' where f': "submit_cursor_plan ?g = (f', Inr ())" "sends ?g [] f'"
      using publish_plans_sends [OF rg] by (auto simp: submit_cursor_plan_def)
    ultimately have s: "sends ?f [] f'" using sends_trans [of ?f "[]" ?g "[]" f'] by simp
    then have "session_ok rnd cap segs f'" "control f' = control ?f" using session_ok_sends [OF assms(1)] by (auto simp: sends_def)
    then show ?thesis using a b Inr f'(1) ex(1)
      by (simp add: refresh_cursor_plan_def on_frontend_def Let_def plans_ok_def text_part_def)
  qed
qed

section \<open>The stream invariant\<close>

text \<open>
  In TOKEN mode everything is spoken, else a batch that is all white space is not. The canonical text
  is a list of batches, and the tokens in segments and in the queue are those of the voiced batches,
  each at its place in the canonical text.
\<close>

definition voiced :: "input_mode \<Rightarrow> pystr \<Rightarrow> bool" where
  "voiced mode batch \<longleftrightarrow> mode = TOKEN \<or> py_strip batch \<noteq> []"

definition tells :: "history \<Rightarrow> frontend \<Rightarrow> journal \<Rightarrow> bool" where
  "tells segs f j \<longleftrightarrow>
     (\<exists>batches. normalized_text j = concat batches \<and>
        concat (map st_text (spoken segs @ queued (fs_spliter f))) = concat (filter (voiced (fs_mode f)) batches)) \<and>
     list_all (token_at (normalized_text j)) (spoken segs @ queued (fs_spliter f))"

definition stream_ok :: "('c, 'm) text_env \<Rightarrow> input_mode \<Rightarrow> int \<Rightarrow> 'c text_session \<Rightarrow> bool" where
  "stream_ok E mode cap s \<longleftrightarrow>
     (\<exists>segs. session_ok (te_rnd E) cap segs (tx_frontend s) \<and> tells segs (tx_frontend s) (tx_journal s)) \<and>
     journal_ok (tx_journal s) \<and> plans_ok s \<and> length (tx_commits s) = length (tx_spoken s) \<and>
     fs_mode (tx_frontend s) = mode \<and> mode \<noteq> FULL_TEXT \<and> (input_final (tx_journal s) \<longleftrightarrow> fs_input_complete (tx_frontend s))"

definition env_ok :: "('c, 'm) text_env \<Rightarrow> bool" where
  "env_ok E \<longleftrightarrow> tokenizer_ok (te_tokenizer E) \<and> (case te_labelizer E of WithSpans _ \<Rightarrow> True | Plain _ \<Rightarrow> False)"

lemma tells_silent:
  assumes "tells segs f j" and "normalized_text j' = normalized_text j @ batch" and "batch = [] \<or> \<not> voiced (fs_mode f) batch"
  shows "tells segs f j'"
proof -
  obtain batches where b: "normalized_text j = concat batches"
    "concat (map st_text (spoken segs @ queued (fs_spliter f))) = concat (filter (voiced (fs_mode f)) batches)"
    using assms(1) by (auto simp: tells_def)
  have "normalized_text j' = concat (batches @ [batch])" "concat (filter (voiced (fs_mode f)) (batches @ [batch])) = concat (filter (voiced (fs_mode f)) batches)"
    using assms(2,3) b(1) by auto
  moreover have "list_all (token_at (normalized_text j')) (spoken segs @ queued (fs_spliter f))"
    using assms(1,2) token_at_append by (auto simp: tells_def list_all_iff)
  ultimately show ?thesis using b(2) unfolding tells_def by metis
qed

lemma tells_voiced:
  assumes "tells segs f j" and "normalized_text j' = normalized_text j @ batch" and "voiced (fs_mode f) batch"
    and "concat (map st_text ts) = batch" and "list_all (token_at (normalized_text j')) ts"
    and "spoken segs' @ queued (fs_spliter f') = spoken segs @ queued (fs_spliter f) @ ts" and "fs_mode f' = fs_mode f"
  shows "tells segs' f' j'"
proof -
  obtain batches where b: "normalized_text j = concat batches"
    "concat (map st_text (spoken segs @ queued (fs_spliter f))) = concat (filter (voiced (fs_mode f)) batches)"
    using assms(1) by (auto simp: tells_def)
  have e: "spoken segs' @ queued (fs_spliter f') = (spoken segs @ queued (fs_spliter f)) @ ts" using assms(6) by simp
  have "normalized_text j' = concat (batches @ [batch])"
    "concat (map st_text (spoken segs' @ queued (fs_spliter f'))) = concat (filter (voiced (fs_mode f')) (batches @ [batch]))"
    unfolding e map_append concat_append using assms(2-4,7) b by auto
  moreover have "list_all (token_at (normalized_text j')) (spoken segs' @ queued (fs_spliter f'))"
    unfolding e using assms(1,2,5) token_at_append by (auto simp: tells_def list_all_iff)
  ultimately show ?thesis unfolding tells_def by blast
qed

lemma ingest_streaming_ok:
  assumes E: "env_ok E" and ok: "session_ok (te_rnd E) cap segs (tx_frontend s)" and j: "journal_ok (tx_journal s)"
    and open': "\<not> fs_input_complete (tx_frontend s)" and told: "tells segs (tx_frontend s) j0"
    and n: "normalized_text (tx_journal s) = normalized_text j0 @ batch" and batch: "batch \<noteq> []" and base: "base = int (length (normalized_text j0))"
  shows "\<exists>f' segs'. ingest_streaming_text E batch True (Some base) offs befs m s = Some (s\<lparr>tx_frontend := f'\<rparr>, Inr ()) \<and>
    session_ok (te_rnd E) cap segs' f' \<and> tells segs' f' (tx_journal s) \<and> fs_mode f' = fs_mode (tx_frontend s) \<and> \<not> fs_input_complete f'"
proof (cases "voiced (fs_mode (tx_frontend s)) batch")
  case False
  then have "ingest_streaming_text E batch True (Some base) offs befs m s = Some (s\<lparr>tx_frontend := tx_frontend s\<rparr>, Inr ())"
    by (simp add: ingest_streaming_text_def voiced_def skip_def)
  moreover have "tells segs (tx_frontend s) (tx_journal s)" using tells_silent [OF told n] False by blast
  ultimately show ?thesis using ok open' by blast
next
  case True
  obtain ts where ts: "tokenize_segment_text (te_cat E) (te_tokenizer E) batch base (tx_journal s) = Inr ts" "ts \<noteq> []"
    "concat (map st_text ts) = batch" "list_all (token_at (normalized_text (tx_journal s))) ts"
    using tokenize_batch [of "te_tokenizer E" "tx_journal s" batch "normalized_text j0" base] E j n batch base by (auto simp: env_ok_def)
  let ?f = "tx_frontend s"
  let ?op = "route_packet ?f ts (packet_marks ts offs befs m)"
  have op: "op_text (te_cat E) ?op = ts" "op_allowed ?op (fs_spliter ?f)" by (simp_all add: route_packet_def)
  have span: "list_all token_span_ok ts" using ts(4) token_at_span by (auto simp: list_all_iff)
  have ns: "\<not> fs_tokens_done_sent ?f" using sent_complete [OF ok] open' by blast
  have "call_ok (te_rnd E) cap segs ts ?f (with_spliter (te_rnd E) (te_cat E) ?op ?f)"
    using with_spliter_ok [OF ok op(2), of "te_cat E"] op(1) span ns by simp
  then obtain f' segs' where w: "with_spliter (te_rnd E) (te_cat E) ?op ?f = Some (f', Inr ())" "session_ok (te_rnd E) cap segs' f'"
    "spoken segs' @ queued (fs_spliter f') = spoken segs @ queued (fs_spliter ?f) @ ts" "fs_mode f' = fs_mode ?f" by (auto simp: call_ok_def)
  have "fs_input_complete f' = fs_input_complete ?f"
    using with_spliter_control [OF ok op(2) _ w(1) ns] op(1) span by (auto simp: control_def)
  moreover have "ingest_streaming_text E batch True (Some base) offs befs m s = Some (s\<lparr>tx_frontend := f'\<rparr>, Inr ())"
    using True batch ts(1,2) w(1) by (auto simp: ingest_streaming_text_def voiced_def on_frontend_def)
  moreover have "tells segs' f' (tx_journal s)" by (rule tells_voiced [OF told n True ts(3,4) w(3,4)])
  ultimately show ?thesis using w(2,4) open' by blast
qed

lemma ingest_commits_open:
  assumes E: "env_ok E" and ok: "stream_ok E mode cap s" and op: "\<not> input_final (tx_journal s)"
  shows "\<exists>s'. ingest_commits E items s = Some (s', Inr ()) \<and> stream_ok E mode cap s' \<and> \<not> input_final (tx_journal s') \<and>
    tx_router s' = tx_router s \<and> tx_carry s' = tx_carry s \<and> tx_done s' = tx_done s"
proof -
  obtain segs where segs: "session_ok (te_rnd E) cap segs (tx_frontend s)" "tells segs (tx_frontend s) (tx_journal s)"
    using ok by (auto simp: stream_ok_def)
  obtain s1 ps where a: "append_commits E items s = (s1, Inr ps)" "untouched s1 = untouched s" "journal_ok (tx_journal s1)"
    "\<not> input_final (tx_journal s1)" "length (tx_commits s1) = length (tx_spoken s1)"
    "normalized_text (tx_journal s1) = normalized_text (tx_journal s) @ concat (map fst ps)"
    "chained (int (length (normalized_text (tx_journal s)))) ps"
    using append_commits_open [of s E items] ok op by (auto simp: stream_ok_def)
  have r1: "tx_frontend s1 = tx_frontend s" "plans_ok s1" "tx_router s1 = tx_router s" "tx_carry s1 = tx_carry s" "tx_done s1 = tx_done s"
    using a(2) ok by (auto simp: untouched_def plans_ok_def stream_ok_def)
  have "\<exists>s2. (if items = [] then skip else refresh_cursor_plan E False) s1 = Some (s2, Inr ()) \<and>
      session_ok (te_rnd E) cap segs (tx_frontend s2) \<and> plans_ok s2 \<and> text_part s2 = text_part s1 \<and>
      control (tx_frontend s2) = control (tx_frontend s1)"
  proof (cases "te_labelizer E")
    case (WithSpans lf)
    then show ?thesis using refresh_ok [OF _ r1(2) WithSpans, of _ cap segs False] segs(1) r1(1,2) by (auto simp: skip_def)
  qed (use E in \<open>simp add: env_ok_def\<close>)
  then obtain s2 where r2: "(if items = [] then skip else refresh_cursor_plan E False) s1 = Some (s2, Inr ())"
    "session_ok (te_rnd E) cap segs (tx_frontend s2)" "plans_ok s2" "text_part s2 = text_part s1"
    "control (tx_frontend s2) = control (tx_frontend s)" using r1(1) by auto
  have t2: "tx_journal s2 = tx_journal s1" "tx_commits s2 = tx_commits s1" "tx_spoken s2 = tx_spoken s1" "tx_router s2 = tx_router s"
    "tx_carry s2 = tx_carry s" "tx_done s2 = tx_done s" using r2(4) r1 by (auto simp: text_part_def)
  have c2: "fs_mode (tx_frontend s2) = fs_mode (tx_frontend s)" "fs_spliter (tx_frontend s2) = fs_spliter (tx_frontend s)"
    "fs_input_complete (tx_frontend s2) = fs_input_complete (tx_frontend s)" using r2(5) by (auto simp: control_def)
  have incomplete: "\<not> fs_input_complete (tx_frontend s2)" using ok op c2(3) by (simp add: stream_ok_def)
  have told2: "tells segs (tx_frontend s2) (tx_journal s)" using segs(2) c2 by (simp add: tells_def)
  let ?qs = "filter (\<lambda>p. fst p \<noteq> []) ps"
  have cc: "concat (map fst ?qs) = concat (map fst ps)" by (induction ps) auto
  have "\<exists>f' segs'. speak_batch E ?qs s2 = Some (s2\<lparr>tx_frontend := f'\<rparr>, Inr ()) \<and> session_ok (te_rnd E) cap segs' f' \<and>
      tells segs' f' (tx_journal s2) \<and> fs_mode f' = fs_mode (tx_frontend s2) \<and> \<not> fs_input_complete f'"
  proof (cases ?qs)
    case Nil
    then have "concat (map fst ps) = []" using cc by simp
    then have "tells segs (tx_frontend s2) (tx_journal s2)" using tells_silent [OF told2, of "tx_journal s2" "[]"] a(6) t2(1) by simp
    then show ?thesis using Nil r2(2) incomplete by (intro exI [of _ "tx_frontend s2"]) (auto simp: speak_batch_def skip_def)
  next
    case (Cons q qs)
    obtain sp base ob where q: "q = (sp, base, ob)" by (metis surj_pair)
    have b: "base = int (length (normalized_text (tx_journal s)))" using chained_first [OF a(7)] Cons q by simp
    have "sp \<noteq> []" using filter_eq_ConsD [OF Cons] q by auto
    then have ne: "concat (map fst ps) \<noteq> []" using cc Cons q by (metis concat.simps(2) append_is_Nil_conv fst_conv list.simps(9))
    have n2: "normalized_text (tx_journal s2) = normalized_text (tx_journal s) @ concat (map fst ps)" using a(6) t2(1) by simp
    have j2: "journal_ok (tx_journal s2)" using a(3) t2(1) by simp
    note ingest = ingest_streaming_ok [OF E r2(2) j2 incomplete told2 n2 ne b]
    show ?thesis unfolding Cons q speak_batch_def list.case prod.case Let_def
      using ingest cc [unfolded Cons q] by simp
  qed
  then obtain f' segs' where sp: "speak_batch E ?qs s2 = Some (s2\<lparr>tx_frontend := f'\<rparr>, Inr ())" "session_ok (te_rnd E) cap segs' f'"
    "tells segs' f' (tx_journal s2)" "fs_mode f' = fs_mode (tx_frontend s2)" "\<not> fs_input_complete f'" by blast
  have "ingest_commits E items s = Some (s2\<lparr>tx_frontend := f'\<rparr>, Inr ())"
    using a(1) r2(1) sp(1) by (simp add: ingest_commits_def then_do_def)
  moreover have "stream_ok E mode cap (s2\<lparr>tx_frontend := f'\<rparr>)"
    using sp(2-5) a(3-5) t2 r2(3) c2(1) ok by (auto simp: stream_ok_def plans_ok_def)
  ultimately show ?thesis using t2 a(4) by auto
qed

lemma tells_cong:
  assumes "tells segs f j" and "normalized_text j' = normalized_text j"
    and "spoken segs' @ queued (fs_spliter f') = spoken segs @ queued (fs_spliter f)" and "fs_mode f' = fs_mode f"
  shows "tells segs' f' j'"
  using assms unfolding tells_def by simp

lemma update_source_keeps: "keeps (stream_ok E mode cap) (update_source E)"
  unfolding keeps_def
proof (intro allI impI)
  fix s
  assume ok: "stream_ok E mode cap s"
  let ?u = "update_raw_source (tn_raw_source E s) (tx_journal s)"
  have "journal_ok (fst ?u)" using ok by (intro update_raw_source_ok) (simp add: stream_ok_def)
  moreover have "normalized_text (fst ?u) = normalized_text (tx_journal s)" "input_final (fst ?u) = input_final (tx_journal s)"
    by (auto simp: update_raw_source_def Let_def)
  moreover have "update_source E s = Some (s\<lparr>tx_journal := fst ?u\<rparr>, snd ?u)" by (simp add: update_source_def split: prod.splits)
  ultimately show "\<exists>s' r. update_source E s = Some (s', r) \<and> stream_ok E mode cap s'"
    using ok by (auto simp: stream_ok_def plans_ok_def intro: tells_cong)
qed

lemma ingest_commits_closed:
  assumes "input_final (tx_journal s)"
  shows "ingest_commits E items s =
    Some (s, if items = [] then Inr () else Inl (ValueError ''cannot append to a finalized text projection''))"
  using append_commits_closed [OF assms, of E items]
  by (simp add: ingest_commits_def then_do_def skip_def speak_batch_def)

lemma stream_ok_committer: "stream_ok E mode cap (s\<lparr>tx_committer := c\<rparr>) \<longleftrightarrow> stream_ok E mode cap s"
  by (simp add: stream_ok_def plans_ok_def)

lemma stream_ok_carry: "stream_ok E mode cap (s\<lparr>tx_carry := c\<rparr>) \<longleftrightarrow> stream_ok E mode cap s"
  by (simp add: stream_ok_def plans_ok_def)

lemma stream_ok_router: "stream_ok E mode cap (s\<lparr>tx_router := r\<rparr>) \<longleftrightarrow> stream_ok E mode cap s"
  by (simp add: stream_ok_def plans_ok_def)

lemmas stream_ok_parts = stream_ok_committer stream_ok_carry stream_ok_router

lemma decide_keeps:
  assumes "env_ok E"
  shows "keeps (stream_ok E mode cap) (decide d E)"
  unfolding keeps_def
proof (intro allI impI)
  fix s
  assume ok: "stream_ok E mode cap s"
  obtain c r where d: "d (tx_committer s) = (c, r)" by fastforce
  let ?s = "s\<lparr>tx_committer := c\<rparr>"
  have ok': "stream_ok E mode cap ?s" using ok by (simp add: stream_ok_parts)
  show "\<exists>s' r. decide d E s = Some (s', r) \<and> stream_ok E mode cap s'"
  proof (cases r)
    case (Inr items)
    have "\<exists>s' r. ingest_commits E items ?s = Some (s', r) \<and> stream_ok E mode cap s'"
    proof (cases "input_final (tx_journal ?s)")
      case True
      then show ?thesis using ingest_commits_closed [OF True] ok' by auto
    next
      case False
      then show ?thesis using ingest_commits_open [OF assms ok' False] by blast
    qed
    then show ?thesis by (simp add: decide_def d Inr)
  qed (use ok' in \<open>simp add: decide_def d\<close>)
qed

lemma keeps_at: "keeps P f \<Longrightarrow> P s \<Longrightarrow> \<exists>s' r. f s = Some (s', r) \<and> P s'"
  by (simp add: keeps_def)

lemma keepsI: "(\<And>s. P s \<Longrightarrow> \<exists>s' r. f s = Some (s', r) \<and> P s') \<Longrightarrow> keeps P f"
  by (simp add: keeps_def)

lemma keeps_caught: "keeps P f \<Longrightarrow> keeps P (caught f)"
  unfolding keeps_def caught_def by fastforce

lemma feed_text_keeps: "env_ok E \<Longrightarrow> keeps (stream_ok E mode cap) (feed_text E meta t)"
  unfolding feed_text_def using decide_keeps update_source_keeps by (intro keeps_then)

text \<open>A step that first changes parts the invariant does not read.\<close>

lemma keeps_after: "keeps P f \<Longrightarrow> (\<And>s. P s \<Longrightarrow> P (g s)) \<Longrightarrow> keeps P (\<lambda>s. f (g s))"
  by (simp add: keeps_def)

lemma push_streaming_keeps:
  assumes "env_ok E"
  shows "keeps (stream_ok E mode cap) (push_streaming E t meta)"
proof (rule keepsI)
  fix s :: "'a text_session"
  assume ok: "stream_ok E mode cap s"
  obtain body carry where b: "split_pending_emoji (tx_carry s @ t) = (body, carry)" by fastforce
  obtain r released where r: "router_push body (tx_router s) = (r, released)" by fastforce
  have "keeps (stream_ok E mode cap) (for_each (feed_text E meta) released)" using feed_text_keeps [OF assms] by (rule keeps_for_each)
  then show "\<exists>s' x. push_streaming E t meta s = Some (s', x) \<and> stream_ok E mode cap s'"
    using keeps_at [of "stream_ok E mode cap" _ "s\<lparr>tx_carry := carry, tx_router := r\<rparr>"] ok by (simp add: push_streaming_def b r stream_ok_parts)
qed

lemma push_text_keeps:
  assumes "env_ok E"
  shows "keeps (stream_ok E mode cap) (push_text_input_locked E t meta)"
proof (rule keepsI)
  fix s
  assume ok: "stream_ok E mode cap s"
  let ?f = "then_do (decide (te_poll E) E) (then_do (update_source E) (push_streaming E t meta))"
  have k: "keeps (stream_ok E mode cap) ?f"
    using decide_keeps [OF assms] update_source_keeps push_streaming_keeps [OF assms] by (intro keeps_then)
  have "push_text_input_locked E t meta s = ?f s" using ok by (simp add: push_text_input_locked_def stream_ok_def)
  then show "\<exists>s' r. push_text_input_locked E t meta s = Some (s', r) \<and> stream_ok E mode cap s'"
    using keeps_at [OF k ok] by simp
qed

lemma poll_keeps:
  assumes "env_ok E"
  shows "keeps (stream_ok E mode cap) (poll_deadline E)"
proof -
  have "keeps (stream_ok E mode cap) (then_do (decide (te_poll E) E) (update_source E))"
    using decide_keeps [OF assms] update_source_keeps by (rule keeps_then)
  then show ?thesis unfolding keeps_def poll_deadline_def skip_def by simp
qed

lemma actor_keeps:
  assumes "env_ok E"
  shows "keeps (stream_ok E mode cap) (text_actor_batch E batch)"
proof -
  have "keeps (stream_ok E mode cap) (case x of (t, m) \<Rightarrow> caught (push_text_input_locked E t m))" for x
    using keeps_caught [OF push_text_keeps [OF assms]] by (simp split: prod.split)
  then have "keeps (stream_ok E mode cap) (for_each (\<lambda>(t, m). caught (push_text_input_locked E t m)) (coalesce batch))"
    by (rule keeps_for_each)
  then show ?thesis unfolding keeps_def text_actor_batch_def skip_def by simp
qed

lemma finish_chunk_keeps:
  assumes "env_ok E"
  shows "keeps (stream_ok E mode cap) (finish_chunk E t)"
proof (rule keepsI)
  fix s
  assume ok: "stream_ok E mode cap s"
  obtain body carry where b: "split_pending_emoji (tx_carry s @ t) = (body, carry)" by fastforce
  show "\<exists>s' r. finish_chunk E t s = Some (s', r) \<and> stream_ok E mode cap s'"
    using keeps_at [OF feed_text_keeps [OF assms], of mode cap "s\<lparr>tx_carry := carry\<rparr>" None body] ok
    by (simp add: finish_chunk_def b skip_def stream_ok_parts)
qed

lemma flush_router_keeps:
  assumes "env_ok E"
  shows "keeps (stream_ok E mode cap) (flush_router E chunks matched)"
proof -
  have a: "keeps (stream_ok E mode cap) (for_each (feed_text E None) chunks)" "keeps (stream_ok E mode cap) (for_each (finish_chunk E) chunks)"
    using feed_text_keeps [OF assms] finish_chunk_keeps [OF assms] by (auto intro: keeps_for_each)
  have "keeps (stream_ok E mode cap) (\<lambda>s. for_each (feed_text E None) chunks (s\<lparr>tx_carry := []\<rparr>))"
    by (rule keeps_after [OF a(1)]) (simp add: stream_ok_parts)
  with a(2) show ?thesis unfolding flush_router_def [abs_def] by (cases matched) simp_all
qed

lemma flush_carry_keeps:
  assumes "env_ok E"
  shows "keeps (stream_ok E mode cap) (flush_carry E)"
proof (rule keepsI)
  fix s
  assume "stream_ok E mode cap s"
  then show "\<exists>s' r. flush_carry E s = Some (s', r) \<and> stream_ok E mode cap s'"
    using keeps_at [OF feed_text_keeps [OF assms], of mode cap "s\<lparr>tx_carry := []\<rparr>" None "tx_carry s"]
    by (simp add: flush_carry_def skip_def stream_ok_parts)
qed

lemma refresh_keeps:
  assumes "env_ok E"
  shows "keeps (stream_ok E mode cap) (refresh_cursor_plan E final)"
proof (rule keepsI)
  fix s
  assume ok: "stream_ok E mode cap s"
  obtain lf where lf: "te_labelizer E = WithSpans lf" using assms by (cases "te_labelizer E") (auto simp: env_ok_def)
  obtain segs where segs: "session_ok (te_rnd E) cap segs (tx_frontend s)" "tells segs (tx_frontend s) (tx_journal s)" "plans_ok s"
    using ok by (auto simp: stream_ok_def)
  obtain s' where r: "refresh_cursor_plan E final s = Some (s', Inr ())" "session_ok (te_rnd E) cap segs (tx_frontend s')" "plans_ok s'"
    "text_part s' = text_part s" "control (tx_frontend s') = control (tx_frontend s)" using refresh_ok [OF segs(1,3) lf] by blast
  have "tells segs (tx_frontend s') (tx_journal s')" using r(4,5) by (intro tells_cong [OF segs(2)]) (auto simp: text_part_def control_def)
  then have "stream_ok E mode cap s'" using ok r(2-5) by (auto simp: stream_ok_def text_part_def control_def)
  with r(1) show "\<exists>s' r. refresh_cursor_plan E final s = Some (s', r) \<and> stream_ok E mode cap s'" by blast
qed

lemma final_decision_keeps:
  assumes "env_ok E"
  shows "keeps (stream_ok E mode cap) (final_decision E matched)"
proof -
  have "keeps (stream_ok E mode cap) (\<lambda>s. if fs_plan (tx_frontend s) = None then skip s else refresh_cursor_plan E True s)"
    using refresh_keeps [OF assms] unfolding keeps_def skip_def by simp
  moreover have "keeps (stream_ok E mode cap) (if matched then skip else update_source E)"
    using update_source_keeps by (cases matched) auto
  ultimately show ?thesis unfolding final_decision_def using decide_keeps [OF assms] by (intro keeps_then)
qed

lemma finish_input_completes:
  assumes ok: "session_ok rnd cap segs f" and e: "finish_input rnd cat f = Some (f', Inr ())"
  shows "fs_input_complete f'"
proof (cases "fs_input_complete f")
  case True
  then show ?thesis using e by (simp add: finish_input_def)
next
  case False
  let ?f = "f\<lparr>fs_input_complete := True\<rparr>"
  have ok1: "session_ok rnd cap segs ?f" by (rule session_complete_ok [OF ok])
  have ns: "\<not> fs_tokens_done_sent ?f" using sent_complete [OF ok] False by auto
  have done': "fs_input_complete g" if "then_maybe_done (Some (h, Inr ())) = Some (g, Inr ())" "fs_input_complete h" for g h
    using that by (auto simp: then_maybe_done_def maybe_send_session_tokens_done_def submit_session_tokens_done_def put_def)
  show ?thesis
  proof (cases "fs_mode f = LONG_SEGMENT \<and> fs_policy f \<noteq> GroupNone")
    case True
    then show ?thesis using e False done' [of ?f f'] by (simp add: finish_input_def)
  next
    case other: False
    have "call_ok rnd cap segs [] ?f (with_spliter rnd cat InputDone ?f)" using with_spliter_ok [OF ok1, of InputDone cat] ns by simp
    then obtain h where h: "with_spliter rnd cat InputDone ?f = Some (h, Inr ())" by (auto simp: call_ok_def)
    then have "fs_input_complete h" using with_spliter_control [OF ok1, of InputDone cat h] ns by (auto simp: control_def)
    then show ?thesis using e False other h done' [of h f'] by (auto simp: finish_input_def Let_def)
  qed
qed

lemma close_input_keeps: "keeps (stream_ok E mode cap) (close_input E)"
proof (rule keepsI)
  fix s
  assume ok: "stream_ok E mode cap s"
  obtain segs where segs: "session_ok (te_rnd E) cap segs (tx_frontend s)" "tells segs (tx_frontend s) (tx_journal s)"
    using ok by (auto simp: stream_ok_def)
  from finish_input_ok [OF segs(1), of "te_cat E"] obtain f' segs' where f:
    "finish_input (te_rnd E) (te_cat E) (tx_frontend s) = Some (f', Inr ())" "session_ok (te_rnd E) cap segs' f'"
    "spoken segs' @ queued (fs_spliter f') = spoken segs @ queued (fs_spliter (tx_frontend s))" "fs_mode f' = fs_mode (tx_frontend s)"
    by (auto simp: call_ok_def)
  let ?j = "finalize_projection (tx_journal s)"
  let ?s = "s\<lparr>tx_committer := te_finish E (tx_committer s), tx_journal := ?j, tx_frontend := f'\<rparr>"
  have j: "journal_ok ?j" "normalized_text ?j = normalized_text (tx_journal s)" "input_final ?j"
    using finalize_projection_ok ok by (auto simp: stream_ok_def finalize_projection_def Let_def)
  have "tells segs' f' ?j" by (rule tells_cong [OF segs(2) j(2) f(3,4)])
  moreover have "fs_input_complete f'" by (rule finish_input_completes [OF segs(1) f(1)])
  ultimately have "stream_ok E mode cap ?s" using ok f(2,4) j by (auto simp: stream_ok_def plans_ok_def)
  moreover have "close_input E s = Some (?s, Inr ())" by (simp add: close_input_def on_frontend_def f(1))
  ultimately show "\<exists>s' r. close_input E s = Some (s', r) \<and> stream_ok E mode cap s'" by blast
qed

lemma mark_complete_keeps:
  assumes "env_ok E"
  shows "keeps (stream_ok E mode cap) (mark_input_complete_locked E)"
proof (rule keepsI)
  fix s
  assume ok: "stream_ok E mode cap s"
  obtain r chunks matched where r: "router_finish (te_version E) (tx_router s) = (r, chunks, matched)" by (metis surj_pair)
  let ?f = "then_do (flush_router E chunks matched) (then_do (flush_carry E) (then_do (final_decision E matched) (close_input E)))"
  have k: "keeps (stream_ok E mode cap) ?f"
    using flush_router_keeps [OF assms] flush_carry_keeps [OF assms] final_decision_keeps [OF assms] close_input_keeps
    by (intro keeps_then)
  have "stream_ok E mode cap (s\<lparr>tx_router := r\<rparr>)" using ok by (simp add: stream_ok_parts)
  from keeps_at [OF k this] show "\<exists>s' r. mark_input_complete_locked E s = Some (s', r) \<and> stream_ok E mode cap s'"
    using ok by (simp add: mark_input_complete_locked_def r skip_def stream_ok_def)
qed

section \<open>Sessions of a client and the engine\<close>

text \<open>
  A batch that the text actor takes from its queue, a deadline, the end of the input, a segment end
  or a ratio update from the engine, and a cancellation. Exceptions go to the caller of the operation;
  the session goes on with the state they leave behind.
\<close>

datatype 'm text_call =
    TextBatch "(pystr \<times> 'm option) list"
  | Deadline
  | EndOfInput
  | EngineEnd int
  | EngineRatio rat
  | Cancel

fun text_exec :: "('c, 'm) text_env \<Rightarrow> 'm text_call \<Rightarrow> 'c text_session step" where
  "text_exec E (TextBatch batch) s = text_actor_batch E batch s"
| "text_exec E Deadline s = poll_deadline E s"
| "text_exec E EndOfInput s = (if tx_done s then skip s else mark_input_complete_locked E s)"
| "text_exec E (EngineEnd i) s = (if tx_done s then skip s else on_frontend (segment_ended (te_rnd E) (te_cat E) i) s)"
| "text_exec E (EngineRatio v) s = (if tx_done s then skip s else on_frontend (ratio_update (te_rnd E) (te_cat E) v) s)"
| "text_exec E Cancel s = cancel_session s"

fun text_run :: "('c, 'm) text_env \<Rightarrow> 'm text_call list \<Rightarrow> 'c text_session \<Rightarrow> 'c text_session option" where
  "text_run E [] s = Some s"
| "text_run E (call # calls) s = (case text_exec E call s of None \<Rightarrow> None | Some (s', _) \<Rightarrow> text_run E calls s')"

text \<open>The engine ends only segments that were opened.\<close>

fun text_call_allowed :: "'m text_call \<Rightarrow> 'c text_session \<Rightarrow> bool" where
  "text_call_allowed (EngineEnd i) s \<longleftrightarrow> 0 \<le> i \<and> i < sp_next_segment (fs_spliter (tx_frontend s))"
| "text_call_allowed _ s \<longleftrightarrow> True"

fun text_run_allowed :: "('c, 'm) text_env \<Rightarrow> 'm text_call list \<Rightarrow> 'c text_session \<Rightarrow> bool" where
  "text_run_allowed E [] s \<longleftrightarrow> True"
| "text_run_allowed E (call # calls) s \<longleftrightarrow>
     text_call_allowed call s \<and> (case text_exec E call s of Some (s', _) \<Rightarrow> text_run_allowed E calls s' | None \<Rightarrow> True)"

lemma on_frontend_ok:
  assumes ok: "stream_ok E mode cap s" and c: "\<And>segs. session_ok (te_rnd E) cap segs (tx_frontend s) \<Longrightarrow> call_ok (te_rnd E) cap segs [] (tx_frontend s) (g (tx_frontend s))"
    and k: "\<And>f'. g (tx_frontend s) = Some (f', Inr ()) \<Longrightarrow> fs_input_complete f' = fs_input_complete (tx_frontend s)"
  shows "\<exists>s' r. on_frontend g s = Some (s', r) \<and> stream_ok E mode cap s'"
proof -
  obtain segs where segs: "session_ok (te_rnd E) cap segs (tx_frontend s)" "tells segs (tx_frontend s) (tx_journal s)"
    using ok by (auto simp: stream_ok_def)
  from c [OF segs(1)] obtain f' segs' where f: "g (tx_frontend s) = Some (f', Inr ())" "session_ok (te_rnd E) cap segs' f'"
    "spoken segs' @ queued (fs_spliter f') = spoken segs @ queued (fs_spliter (tx_frontend s))" "fs_mode f' = fs_mode (tx_frontend s)"
    by (auto simp: call_ok_def)
  have "tells segs' f' (tx_journal s)" by (rule tells_cong [OF segs(2) refl f(3,4)])
  then have "stream_ok E mode cap (s\<lparr>tx_frontend := f'\<rparr>)" using ok f(2,4) k [OF f(1)] by (auto simp: stream_ok_def plans_ok_def)
  then show ?thesis using f(1) by (auto simp: on_frontend_def)
qed

text \<open>Dispatching never changes the control state, even when it raises.\<close>

lemma fold_control:
  assumes "\<And>x f. control (g x f) = control f"
  shows "control (fold g xs f) = control f"
  using assms by (induction xs arbitrary: f) simp_all

lemma publish_plans_control: "control (fst (publish_plans idxs f)) = control f"
proof (induction idxs arbitrary: f)
  case (Cons i idxs)
  have "control (fst (publish_segment_plan i f)) = control f"
    by (auto simp: publish_segment_plan_def put_def control_def Let_def split: sum.splits option.splits)
  then show ?case using Cons by (auto split: prod.splits sum.splits)
qed simp

lemma refresh_plans_control: "control (fst (refresh_segment_plans f)) = control f"
proof (cases "fs_plan f")
  case (Some p)
  have "control (f\<lparr>fs_plan_revision := a, fs_plan := b\<rparr>) = control f" for a b by (simp add: control_def)
  then show ?thesis using Some publish_plans_control
    by (auto simp: refresh_segment_plans_def submit_cursor_plan_def split: sum.splits)
qed (simp add: refresh_segment_plans_def)

lemma dispatch_actions_control: "control (fst (dispatch_segment_actions actions f)) = control f"
proof (induction actions f rule: dispatch_segment_actions.induct)
  case (2 sa rest f)
  have p: "control (fst (dispatch_prefill sa f)) = control f"
    by (auto simp: dispatch_prefill_def put_def control_def Let_def split: sum.splits option.splits)
  have d: "control (dispatch_decode sa b f) = control f" "control (dispatch_flush sa f) = control f" for b
    by (simp_all add: dispatch_decode_def dispatch_flush_def put_def control_def)
  show ?case
  proof (cases "ar_type (sa_action sa)")
    case APrefill
    obtain f1 r where e: "dispatch_prefill sa f = (f1, r)" by fastforce
    then have "control f1 = control f" using p by simp
    then show ?thesis using APrefill e "2.IH"(1) [OF APrefill e [symmetric]] by (cases r) auto
  next
    case ADecode
    then show ?thesis using d "2.IH"(2) by simp
  next
    case AFlushEos
    then show ?thesis using d "2.IH"(3) by simp
  next
    case AFlushNop
    then show ?thesis using d "2.IH"(4) by simp
  qed
qed simp

lemma events_control: "control (emit_text_boundary_events actions (emit_text_token_events cat actions f)) = control f"
proof -
  have "control (emit_text_token cat sa f) = control f" "control (emit_text_boundary sa f) = control f" for sa f
    by (simp_all add: emit_text_token_def emit_text_boundary_def control_def Let_def)
  then show ?thesis by (simp add: emit_text_boundary_events_def emit_text_token_events_def fold_control)
qed

lemma frontend_dispatch_control: "control (fst (frontend_dispatch cat actions f)) = control f"
proof -
  have r: "control (record_segment_text actions f) = control f"
    unfolding record_segment_text_def by (rule fold_control) (simp add: record_action_def control_def Let_def)
  obtain f1 x where a: "refresh_segment_plans (record_segment_text actions f) = (f1, x)" by fastforce
  then have c1: "control f1 = control f" using refresh_plans_control [of "record_segment_text actions f"] r by simp
  obtain f2 y where b: "dispatch_segment_actions actions f1 = (f2, y)" by fastforce
  then have c2: "control f2 = control f" using dispatch_actions_control [of actions f1] c1 by simp
  show ?thesis using a b c1 c2 events_control by (cases x; cases y) (auto simp: frontend_dispatch_def)
qed

lemma then_done_complete: "then_maybe_done (Some (f, r)) = Some (f', r') \<Longrightarrow> fs_input_complete f' = fs_input_complete f"
proof -
  have "fs_input_complete (maybe_send_session_tokens_done f) = fs_input_complete f"
    by (simp add: maybe_send_session_tokens_done_def submit_session_tokens_done_def put_def)
  then show "then_maybe_done (Some (f, r)) = Some (f', r') \<Longrightarrow> fs_input_complete f' = fs_input_complete f"
    by (auto simp: then_maybe_done_def split: sum.splits)
qed

lemma segment_ended_complete:
  assumes "segment_ended rnd cat i f = Some (f', Inr ())"
  shows "fs_input_complete f' = fs_input_complete f"
proof -
  from assms obtain s acts where e: "spliter_exec rnd cat (SegmentDone i) (fs_spliter f) = Some (s, Inr acts)"
    "then_maybe_done (Some (frontend_dispatch cat acts (forget_segment i (f\<lparr>fs_spliter := s\<rparr>)))) = Some (f', Inr ())"
    by (auto simp: segment_ended_def split: option.splits sum.splits)
  obtain g r where g: "frontend_dispatch cat acts (forget_segment i (f\<lparr>fs_spliter := s\<rparr>)) = (g, r)" by fastforce
  have "fs_input_complete g = fs_input_complete f"
    using frontend_dispatch_control [of cat acts "forget_segment i (f\<lparr>fs_spliter := s\<rparr>)"] g by (simp add: control_def forget_segment_def)
  then show ?thesis using then_done_complete e(2) g by metis
qed

lemma ratio_update_complete:
  assumes "ratio_update rnd cat v f = Some (f', Inr ())"
  shows "fs_input_complete f' = fs_input_complete f"
  using assms frontend_dispatch_control
  by (auto simp: ratio_update_def with_spliter_def no_actions_def frontend_dispatch_def split: if_splits prod.splits sum.splits)

lemma cancel_keeps: "keeps (stream_ok E mode cap) cancel_session"
proof (rule keepsI)
  fix s
  assume ok: "stream_ok E mode cap s"
  let ?f = "tx_frontend s" and ?g = "submit_cancel [] (tx_frontend s)"
  obtain segs where segs: "session_ok (te_rnd E) cap segs ?f" "tells segs ?f (tx_journal s)" using ok by (auto simp: stream_ok_def)
  let ?r = "(request CANCEL_SESSION (fs_session_id ?f))\<lparr>rq_cancel_reason := None\<rparr>"
  have "sends ?f (request_feed ?r) (put ?r ?f)"
    by (rule sends_put [OF session_parts(4) [OF segs(1)]]) (simp_all add: request_def)
  then have s: "sends ?f [] ?g" by (simp add: submit_cancel_def request_feed_def request_def)
  then have c: "control ?g = control ?f" by (simp add: sends_def)
  have "tells segs ?g (tx_journal s)" using c by (intro tells_cong [OF segs(2)]) (auto simp: control_def)
  then have "stream_ok E mode cap (s\<lparr>tx_done := True, tx_frontend := ?g\<rparr>)"
    using ok session_ok_sends [OF segs(1) s] c by (auto simp: stream_ok_def plans_ok_def control_def)
  then show "\<exists>s' r. cancel_session s = Some (s', r) \<and> stream_ok E mode cap s'" using ok by (auto simp: cancel_session_def skip_def)
qed

lemma text_exec_ok:
  assumes E: "env_ok E" and ok: "stream_ok E mode cap s" and al: "text_call_allowed call s"
  shows "\<exists>s' r. text_exec E call s = Some (s', r) \<and> stream_ok E mode cap s'"
proof (cases call)
  case (EngineEnd i)
  then have i: "0 \<le> i" "i < sp_next_segment (fs_spliter (tx_frontend s))" using al by auto
  have "\<exists>s' r. on_frontend (segment_ended (te_rnd E) (te_cat E) i) s = Some (s', r) \<and> stream_ok E mode cap s'"
    by (rule on_frontend_ok [OF ok]) (use i segment_end_ok segment_ended_complete in auto)
  then show ?thesis using EngineEnd ok by (auto simp: skip_def)
next
  case (EngineRatio v)
  have "\<exists>s' r. on_frontend (ratio_update (te_rnd E) (te_cat E) v) s = Some (s', r) \<and> stream_ok E mode cap s'"
    by (rule on_frontend_ok [OF ok]) (use ratio_update_ok ratio_update_complete in auto)
  then show ?thesis using EngineRatio ok by (auto simp: skip_def)
next
  case (TextBatch batch)
  then show ?thesis using keeps_at [OF actor_keeps [OF E] ok] by simp
next
  case Deadline
  then show ?thesis using keeps_at [OF poll_keeps [OF E] ok] by simp
next
  case EndOfInput
  then show ?thesis using keeps_at [OF mark_complete_keeps [OF E] ok] ok by (simp add: skip_def)
next
  case Cancel
  then show ?thesis using keeps_at [OF cancel_keeps ok] by simp
qed

lemma text_run_ok:
  assumes "env_ok E" and "stream_ok E mode cap s" and "text_run_allowed E calls s"
  shows "\<exists>s'. text_run E calls s = Some s' \<and> stream_ok E mode cap s'"
  using assms(2,3)
proof (induction calls arbitrary: s)
  case (Cons call calls)
  obtain s1 r where e: "text_exec E call s = Some (s1, r)" "stream_ok E mode cap s1"
    using text_exec_ok [OF assms(1) Cons.prems(1), of call] Cons.prems(2) by auto
  then show ?case using Cons.IH [of s1] Cons.prems(2) by simp
qed simp

definition new_text_session :: "frontend \<Rightarrow> 'c \<Rightarrow> router \<Rightarrow> plan_adapter option \<Rightarrow> 'c text_session" where
  "new_text_session f c r a =
     \<lparr>tx_frontend = f, tx_journal = new_journal True, tx_committer = c, tx_router = r, tx_carry = [], tx_buffer = [],
      tx_commits = [], tx_spoken = [], tx_adapter = a, tx_disabled = False, tx_done = False\<rparr>"

text \<open>
  C3. The engine speaks the canonical text. A streaming session with a new splitter, any text
  normalizer, any commitment policy, any tokenizer that reports an offset per id and any labelizer
  with spans goes through packets, deadlines, engine events, the end of the input and cancellation in
  any order. Every operation returns. At the end the canonical text of the journal is a sequence of
  batches, the requests in the engine's inbox tell the engine the tokens of a list of segments, and
  the texts of these tokens and of the waiting ones, joined, are the batches, in TOKEN mode all of
  them and else those that are not white space; every token carries the coordinates of its place in
  the canonical text.
\<close>

theorem engine_speaks_canonical_text:
  assumes "new_spliter em pf ema saf mg mc al ov lo hi mt mu l1 l2 l3 = Inr sp" and "config_ok (te_rnd E) sp"
    and "make_thresholds (te_rnd E) sp = Inr th" and "env_ok E" and "mode \<noteq> FULL_TEXT" and "a = None \<or> a = Some new_adapter"
    and "s = new_text_session (new_frontend sid mode policy sp cb) c r a" and "text_run_allowed E calls s"
  shows "\<exists>s' segs batches tokens. text_run E calls s = Some s' \<and>
     concat (map request_feed (fs_inbox (tx_frontend s'))) = map action_feed (render 0 segs) \<and>
     tokens = concat (map fst segs) @ map pt_token (sp_pending (fs_spliter (tx_frontend s'))) \<and>
     normalized_text (tx_journal s') = concat batches \<and>
     concat (map st_text tokens) = concat (filter (voiced mode) batches) \<and>
     list_all (token_at (normalized_text (tx_journal s'))) tokens"
proof -
  note n = new_frontend_ok [OF assms(1-3), of sid mode policy cb]
  have q: "queued (fs_spliter (new_frontend sid mode policy sp cb)) = []"
    using new_spliter_ok(3) [OF assms(1,3)] by (simp add: new_frontend_def)
  have "tells [] (new_frontend sid mode policy sp cb) (new_journal True)"
    using q by (auto simp: tells_def spoken_def new_journal_def intro: exI [of _ "[]"])
  then have "stream_ok E mode (force_split_at th) s"
    using n assms(5,6) new_journal_ok
    by (auto simp: stream_ok_def assms(7) new_text_session_def plans_ok_def adapter_exact_def new_adapter_def new_frontend_def new_journal_def)
  from text_run_ok [OF assms(4) this assms(8)] obtain s' segs where r: "text_run E calls s = Some s'"
    "session_ok (te_rnd E) (force_split_at th) segs (tx_frontend s')" "tells segs (tx_frontend s') (tx_journal s')"
    "fs_mode (tx_frontend s') = mode" by (auto simp: stream_ok_def)
  let ?tokens = "concat (map fst segs) @ map pt_token (sp_pending (fs_spliter (tx_frontend s')))"
  have "concat (map request_feed (fs_inbox (tx_frontend s'))) = map action_feed (render 0 segs)"
    using r(2) by (simp add: session_ok_def feeds_def)
  moreover obtain batches where "normalized_text (tx_journal s') = concat batches"
    "concat (map st_text ?tokens) = concat (filter (voiced mode) batches)"
    using r(3) unfolding tells_def r(4) spoken_def queued_def by blast
  moreover have "list_all (token_at (normalized_text (tx_journal s'))) ?tokens"
    using r(3) by (simp add: tells_def spoken_def queued_def)
  ultimately show ?thesis using r(1) by blast
qed

section \<open>Text that arrives with the end of the input\<close>

text \<open>
  The text actor beside the session: the packets queued for it, the batch it has taken and not yet
  pushed, and its idle event. A packet is queued while the input is open; the end of the input waits for
  the idle event only.
\<close>

record ('c, 'm) actor =
  ac_queue :: "(pystr \<times> 'm option) list"
  ac_batch :: "(pystr \<times> 'm option) list option"
  ac_idle :: bool
  ac_session :: "'c text_session"

inductive actor_step :: "('c, 'm) text_env \<Rightarrow> ('c, 'm) actor \<Rightarrow> ('c, 'm) actor \<Rightarrow> bool" for E where
  enqueue: "\<lbrakk>\<not> tx_done (ac_session a); \<not> fs_input_complete (tx_frontend (ac_session a))\<rbrakk> \<Longrightarrow>
     actor_step E a (a\<lparr>ac_queue := ac_queue a @ [x]\<rparr>)"
| take: "\<lbrakk>ac_batch a = None; ac_queue a = x # xs\<rbrakk> \<Longrightarrow>
     actor_step E a (a\<lparr>ac_queue := xs, ac_batch := Some [x], ac_idle := False\<rparr>)"
| drain: "ac_batch a = Some batch \<Longrightarrow>
     actor_step E a (a\<lparr>ac_queue := [], ac_batch := Some (batch @ ac_queue a)\<rparr>)"
| push: "\<lbrakk>ac_batch a = Some batch; text_actor_batch E batch (ac_session a) = Some (s, r)\<rbrakk> \<Longrightarrow>
     actor_step E a (a\<lparr>ac_batch := None, ac_idle := (ac_queue a = [] \<or> ac_idle a), ac_session := s\<rparr>)"
| finish: "\<lbrakk>ac_idle a; mark_input_complete_locked E (ac_session a) = Some (s, r)\<rbrakk> \<Longrightarrow>
     actor_step E a (a\<lparr>ac_session := s\<rparr>)"

lemma mark_complete_final:
  assumes "mark_input_complete_locked E s = Some (s', Inr ())" and "\<not> fs_input_complete (tx_frontend s)" and "fs_mode (tx_frontend s) \<noteq> FULL_TEXT"
  shows "input_final (tx_journal s')"
proof -
  obtain r chunks matched where r: "router_finish (te_version E) (tx_router s) = (r, chunks, matched)" by (metis surj_pair)
  have last: "\<exists>s1. g s1 = Some (s2, Inr ())" if "then_do f g s0 = Some (s2, Inr ())" for f g :: "'a text_session step" and s0 s2
    using that by (auto simp: then_do_def split: option.splits sum.splits)
  have "\<exists>s1. close_input E s1 = Some (s', Inr ())"
    using assms r last [of _ _ _ s'] by (auto simp: mark_input_complete_locked_def dest!: last)
  then show ?thesis by (auto simp: close_input_def on_frontend_def finalize_projection_def Let_def)
qed

lemma closed_push:
  assumes "input_final (tx_journal s)" and "fs_mode (tx_frontend s) \<noteq> FULL_TEXT"
  shows "\<exists>c e. push_text_input_locked E t meta s = Some (s\<lparr>tx_committer := c\<rparr>, Inl e)"
proof -
  obtain c r where p: "te_poll E (tx_committer s) = (c, r)" by fastforce
  let ?s = "s\<lparr>tx_committer := c\<rparr>"
  have f: "input_final (tx_journal ?s)" using assms(1) by simp
  have "decide (te_poll E) E s = Some (?s, Inr ()) \<or> (\<exists>e. decide (te_poll E) E s = Some (?s, Inl e))"
    using p ingest_commits_closed [OF f, of E] by (cases r) (auto simp: decide_def)
  moreover have "update_source E ?s = Some (?s, Inl (ValueError ''cannot update a finalized text projection''))"
    using f by (simp add: update_source_def update_raw_source_def)
  ultimately show ?thesis using assms(2) by (auto simp: push_text_input_locked_def then_do_def)
qed

text \<open>
  C38. A packet can be lost at the end of the input. The gateway queues the text of a plain stream
  without waiting for it, and the end of the input waits for the idle event of the text actor, which
  stays set until the actor wakes up. In every open streaming session whose end of input would
  succeed there is an interleaving in which a packet that was accepted before the end is pushed after
  it: pushing raises, the exception is only logged, and the requests sent to the engine and the
  canonical text are those of the session ended without the packet.
\<close>

theorem text_lost_at_end:
  assumes "\<not> tx_done s" and "\<not> fs_input_complete (tx_frontend s)" and "fs_mode (tx_frontend s) \<noteq> FULL_TEXT"
    and "mark_input_complete_locked E s = Some (s', Inr ())" and "fs_mode (tx_frontend s') \<noteq> FULL_TEXT"
    and "a = \<lparr>ac_queue = [], ac_batch = None, ac_idle = True, ac_session = s\<rparr>"
  shows "actor_step E a (a\<lparr>ac_queue := [(t, meta)]\<rparr>) \<and>
     (\<exists>a'. (actor_step E)\<^sup>*\<^sup>* (a\<lparr>ac_queue := [(t, meta)]\<rparr>) a' \<and> ac_queue a' = [] \<and> ac_batch a' = None \<and>
        tx_frontend (ac_session a') = tx_frontend s' \<and> tx_journal (ac_session a') = tx_journal s' \<and> input_final (tx_journal s'))"
proof -
  have fin: "input_final (tx_journal s')" by (rule mark_complete_final [OF assms(4,2,3)])
  let ?a1 = "a\<lparr>ac_queue := [(t, meta)]\<rparr>"
  let ?a2 = "?a1\<lparr>ac_session := s'\<rparr>"
  let ?a3 = "?a2\<lparr>ac_queue := [], ac_batch := Some [(t, meta)], ac_idle := False\<rparr>"
  obtain c e where "push_text_input_locked E t meta s' = Some (s'\<lparr>tx_committer := c\<rparr>, Inl e)"
    using closed_push [OF fin assms(5)] by blast
  then have "text_actor_batch E [(t, meta)] s' = Some (if tx_done s' then s' else s'\<lparr>tx_committer := c\<rparr>, Inr ())"
    by (simp add: text_actor_batch_def skip_def caught_def then_do_def)
  then obtain s2 r where p: "text_actor_batch E [(t, meta)] s' = Some (s2, r)" "tx_frontend s2 = tx_frontend s'" "tx_journal s2 = tx_journal s'"
    by auto
  let ?a4 = "?a3\<lparr>ac_batch := None, ac_idle := True, ac_session := s2\<rparr>"
  have 1: "actor_step E a ?a1" using enqueue [of a E "(t, meta)"] assms(1,2,6) by simp
  have 2: "actor_step E ?a1 ?a2" using finish [of ?a1 E s' "Inr ()"] assms(4,6) by simp
  have 3: "actor_step E ?a2 ?a3" using actor_step.take [of ?a2 "(t, meta)" "[]" E] assms(6) by simp
  have 4: "actor_step E ?a3 ?a4" using push [of ?a3 "[(t, meta)]" E s2 r] p(1) assms(6) by simp
  have "(actor_step E)\<^sup>*\<^sup>* ?a1 ?a4" using 2 3 4 by (meson converse_rtranclp_into_rtranclp rtranclp.rtrancl_refl)
  then show ?thesis using 1 p(2,3) fin by (intro conjI exI [of _ ?a4]) simp_all
qed

section \<open>Witnesses\<close>

text \<open>A normalizer that commits every packet as it is, a token per character, a label per character.\<close>

definition ex_commit_item :: "nat \<Rightarrow> pystr \<Rightarrow> commit_item" where
  "ex_commit_item pos t = \<lparr>ci_commit = ex_commit (int pos + 1) (int pos) t, ci_output = []\<rparr>"

definition ex_env :: "(pystr, unit) text_env" where
  "ex_env =
     \<lparr>te_rnd = id, te_cat = ex_cat,
      te_tokenizer = OffsetTokenizer (\<lambda>t. (map int t, map (\<lambda>i. (int i, int i + 1)) [0 ..< length t])),
      te_labelizer = ex_labelizer,
      te_feed = (\<lambda>t meta final c. (c @ t, Inr (if t = [] then [] else [ex_commit_item (length c) t]))),
      te_poll = (\<lambda>c. (c, Inr [])), te_raw = id, te_observe = (\<lambda>c sp st. (st, None)), te_policy_live = (\<lambda>_. False), te_finish = id,
      te_version = [118], te_query = [113]\<rparr>"

lemma ex_env_ok: "env_ok ex_env"
  by (simp add: env_ok_def ex_env_def tokenizer_ok_def tokenizer_offsets_def ex_labelizer_def)

definition ex_router :: router where
  "ex_router = \<lparr>rt_query = [113], rt_pending = [], rt_passthrough = False\<rparr>"

definition ex_text_session :: "pystr text_session" where
  "ex_text_session = new_text_session (new_frontend ''s'' TOKEN GroupAuto ex_spliter True) [] ex_router (Some new_adapter)"

definition ex_text_calls :: "unit text_call list" where
  "ex_text_calls = [TextBatch [([104, 105], None), ([46], None), ([104], Some ())], Deadline, EngineRatio 4, EndOfInput, Cancel]"

lemma engine_free_allowed:
  fixes E :: "('c, 'm) text_env" and s :: "'c text_session"
  assumes "list_all (\<lambda>call. case call of EngineEnd _ \<Rightarrow> False | _ \<Rightarrow> True) calls"
  shows "text_run_allowed E calls s"
  using assms
proof (induction calls arbitrary: s)
  case (Cons call calls)
  then have "text_call_allowed call s" for s :: "'c text_session" by (cases call) auto
  with Cons show ?case by (auto split: option.splits)
qed simp

theorem engine_speaks_canonical_text_witness:
  "\<exists>s' segs batches tokens. text_run ex_env ex_text_calls ex_text_session = Some s' \<and>
     concat (map request_feed (fs_inbox (tx_frontend s'))) = map action_feed (render 0 segs) \<and>
     tokens = concat (map fst segs) @ map pt_token (sp_pending (fs_spliter (tx_frontend s'))) \<and>
     normalized_text (tx_journal s') = concat batches \<and>
     concat (map st_text tokens) = concat (filter (voiced TOKEN) batches) \<and>
     list_all (token_at (normalized_text (tx_journal s'))) tokens"
proof (rule engine_speaks_canonical_text [OF ex_spliter_new _ _ ex_env_ok])
  show "config_ok (te_rnd ex_env) ex_spliter" using ex_spliter_config by (simp add: ex_env_def)
  show "make_thresholds (te_rnd ex_env) ex_spliter = Inr ex_spliter_thresholds" using ex_spliter_th by (simp add: ex_env_def)
  show "text_run_allowed ex_env ex_text_calls ex_text_session" by (rule engine_free_allowed) (simp add: ex_text_calls_def)
  show "ex_text_session = new_text_session (new_frontend ''s'' TOKEN GroupAuto ex_spliter True) [] ex_router (Some new_adapter)"
    by (rule ex_text_session_def)
qed simp_all

lemma ex_finish: "\<exists>s'. mark_input_complete_locked ex_env ex_text_session = Some (s', Inr ()) \<and> fs_mode (tx_frontend s') = TOKEN"
proof -
  have "case mark_input_complete_locked ex_env ex_text_session of Some (s', r) \<Rightarrow> r = Inr () \<and> fs_mode (tx_frontend s') = TOKEN | None \<Rightarrow> False"
    by code_simp
  then show ?thesis by (auto split: option.splits sum.splits)
qed

theorem text_lost_at_end_witness:
  "\<exists>s' a'. mark_input_complete_locked ex_env ex_text_session = Some (s', Inr ()) \<and>
     (actor_step ex_env)\<^sup>*\<^sup>* \<lparr>ac_queue = [([104], None)], ac_batch = None, ac_idle = True, ac_session = ex_text_session\<rparr> a' \<and>
     ac_queue a' = [] \<and> tx_frontend (ac_session a') = tx_frontend s' \<and> tx_journal (ac_session a') = tx_journal s'"
proof -
  obtain s' where s': "mark_input_complete_locked ex_env ex_text_session = Some (s', Inr ())" "fs_mode (tx_frontend s') \<noteq> FULL_TEXT"
    using ex_finish by auto
  have "\<not> tx_done ex_text_session" "\<not> fs_input_complete (tx_frontend ex_text_session)" "fs_mode (tx_frontend ex_text_session) \<noteq> FULL_TEXT"
    by (simp_all add: ex_text_session_def new_text_session_def new_frontend_def)
  from text_lost_at_end [OF this s' refl, of "[104]" None] s'(1) show ?thesis by auto
qed

section \<open>Full text\<close>

lemma stable_from_empty: "stable_from 0 0 offs = replicate (length offs) (0, 0)"
  by (induction offs) (auto simp: Let_def max_def)

lemma tokenize_full:
  assumes "tokenizer_ok tk" and "journal_ok j" and "0 \<le> base"
  shows "\<exists>ts. tokenize_segment_text cat tk t base j = Inr ts \<and> concat (map st_text ts) = t \<and> list_all token_span_ok ts"
proof -
  obtain ids offs where o: "tokenizer_offsets tk t = (ids, offs)" by fastforce
  show ?thesis
  proof (cases "t = []")
    case True
    let ?st = "stable_offsets t offs"
    have st: "p = (0, 0)" if "p \<in> set ?st" for p using that True by (auto simp: stable_offsets_def stable_from_empty)
    obtain ts where ts: "make_tokens cat t base j (zip ids ?st) = Inr ts" "map st_text ts = map (\<lambda>(i, l, r). substr l r t) (zip ids ?st)"
      "map (\<lambda>t. (segment_token.normalized_start t, segment_token.normalized_end t)) ts = map (\<lambda>(i, l, r). (base + l, base + r)) (zip ids ?st)"
      using make_tokens_ok [OF assms(2)] by blast
    have "concat (map st_text ts) = []" unfolding ts(2) using True by (auto simp: substr_def)
    moreover have "(segment_token.normalized_start u, segment_token.normalized_end u) = (base, base)" if "u \<in> set ts" for u
    proof -
      have "(segment_token.normalized_start u, segment_token.normalized_end u) \<in> set (map (\<lambda>(i, l, r). (base + l, base + r)) (zip ids ?st))"
        using that unfolding ts(3) [symmetric] by auto
      then show ?thesis using st set_zip_rightD by fastforce
    qed
    then have "list_all token_span_ok ts" using assms(3) by (auto simp: list_all_iff token_span_ok_def)
    ultimately show ?thesis using o ts(1) True by (auto simp: tokenize_segment_text_def)
  next
    case False
    then have "length ids = length offs" "ids \<noteq> []" using assms(1) o by (auto simp: tokenizer_ok_def)
    from tokenize_ok [OF assms(2) o this, of cat base] obtain ts where ts: "tokenize_segment_text cat tk t base j = Inr ts"
      "concat (map st_text ts) = t"
      "tiles base (base + int (length t)) (map (\<lambda>t. (segment_token.normalized_start t, segment_token.normalized_end t)) ts)" by blast
    have "token_span_ok u" if "u \<in> set ts" for u
      using tiles_inside [OF ts(3), of "segment_token.normalized_start u" "segment_token.normalized_end u"] that assms(3)
      by (force simp: token_span_ok_def)
    with ts show ?thesis by (auto simp: list_all_iff)
  qed
qed

definition full_tokens_ok :: "full_tokens \<Rightarrow> bool" where
  "full_tokens_ok acc \<longleftrightarrow>
     concat (map st_text (ft_tokens acc)) = concat (ft_parts acc) \<and> list_all token_span_ok (ft_tokens acc) \<and> 0 \<le> ft_offset acc"

lemma commitment_tokens_ok:
  assumes "tokenizer_ok (te_tokenizer E)" and "journal_ok (tx_journal s)" and "full_tokens_ok acc"
  shows "\<exists>c acc'. commitment_tokens E cs acc s = (s\<lparr>tx_committer := c\<rparr>, Inr acc') \<and> full_tokens_ok acc'"
  using assms(2,3)
proof (induction cs arbitrary: s acc)
  case Nil
  have "s = s\<lparr>tx_committer := tx_committer s\<rparr>" by simp
  then show ?case using Nil by (metis commitment_tokens.simps(1))
next
  case (Cons p cs)
  obtain c sp where p: "p = (c, sp)" by fastforce
  obtain cm ob where ob: "te_observe E c sp (tx_committer s) = (cm, ob)" by fastforce
  let ?s = "s\<lparr>tx_committer := cm\<rparr>"
  have j: "journal_ok (tx_journal ?s)" using Cons.prems(1) by simp
  have upd: "?s\<lparr>tx_committer := d\<rparr> = s\<lparr>tx_committer := d\<rparr>" for d by simp
  show ?case
  proof (cases ob)
    case None
    then show ?thesis using Cons.IH [OF j Cons.prems(2)] p ob upd by simp
  next
    case (Some o1)
    obtain ts where ts: "tokenize_segment_text (te_cat E) (te_tokenizer E) sp (ft_offset acc) (tx_journal s) = Inr ts"
      "concat (map st_text ts) = sp" "list_all token_span_ok ts"
      using tokenize_full [OF assms(1) Cons.prems(1), of "ft_offset acc" "te_cat E" sp] Cons.prems(2) by (auto simp: full_tokens_ok_def)
    let ?acc = "\<lparr>ft_tokens = ft_tokens acc @ ts, ft_parts = ft_parts acc @ [sp], ft_offset = ft_offset acc + int (length sp),
         ft_after = ft_after acc @ (if (ob_accepted o1 \<and> ts \<noteq> []) \<and> ob_boundary o1 then [int (length (ft_tokens acc)) + int (length ts) - 1] else []),
         ft_before = ft_before acc @ (if (ob_accepted o1 \<and> ts \<noteq> []) \<and> ob_boundary_before o1 then [int (length (ft_tokens acc))] else [])\<rparr>"
    have "full_tokens_ok ?acc" using Cons.prems(2) ts by (simp add: full_tokens_ok_def)
    from Cons.IH [OF j this] obtain c' acc' where ih: "commitment_tokens E cs ?acc ?s = (s\<lparr>tx_committer := c'\<rparr>, Inr acc')" "full_tokens_ok acc'"
      using upd by auto
    have "commitment_tokens E (p # cs) acc s = commitment_tokens E cs ?acc ?s" using p ob Some ts(1) by (simp add: Let_def)
    then show ?thesis using ih by auto
  qed
qed

lemma min_map_ok: "map_ok n m bs \<Longrightarrow> map_ok k m (map (min (int k)) bs)"
  unfolding map_ok_def by (auto simp: sorted_iff_nth_mono min_le_iff_disj)

lemma full_install:
  assumes "spoken_projection src commits = Inr (t, bs)"
  shows "\<exists>j'. install_projection raw t (Some (if src = raw then bs else map (min (int (length raw))) bs)) j = (j', Inr ()) \<and>
    journal_ok j' \<and> normalized_text j' = t \<and> raw_text j' = raw"
proof -
  obtain j1 where j1: "install_projection src t (Some bs) (new_journal True) = (j1, Inr ())" "journal_ok j1" "normalized_text j1 = t" "raw_text j1 = src"
    using spoken_projection_installs [of src commits "new_journal True"] assms by auto
  have "bs \<noteq> []" using j1(1) by (auto simp: install_projection_def Let_def split: if_splits)
  then have "normalized_to_raw j1 = bs" using j1(1) by (auto simp: install_projection_def Let_def split: if_splits)
  then have m: "map_ok (length src) (length t) bs" using j1(2-4) by (simp add: journal_ok_def)
  have "map_ok (length raw) (length t) (if src = raw then bs else map (min (int (length raw))) bs)"
    using m min_map_ok [OF m] by auto
  from install_projection_accepts [OF this] show ?thesis by blast
qed

lemma finish_full_text_step:
  assumes "session_ok rnd cap [] f" and "sp_next_segment (fs_spliter f) = 0" and "sp_pending (fs_spliter f) = []"
    and "\<not> fs_input_complete f" and "list_all token_span_ok ts"
  shows "\<exists>f' segs. finish_full_text rnd cat ts after before f = Some (f', Inr ()) \<and> session_ok rnd cap segs f' \<and>
    spoken segs @ queued (fs_spliter f') = ts"
  using finish_full_text_ok [OF assms(1,5,2,3), of cat after before] assms(3,4)
  by (auto simp: call_ok_def spoken_def queued_def)

lemma speak_full_text_ok:
  assumes "env_ok E" and "journal_ok (tx_journal s)" and "full_tokens_ok acc" and "session_ok (te_rnd E) cap [] (tx_frontend s)"
    and "sp_next_segment (fs_spliter (tx_frontend s)) = 0" and "sp_pending (fs_spliter (tx_frontend s)) = []"
    and "\<not> fs_input_complete (tx_frontend s)"
  shows "\<exists>f' segs. speak_full_text E t acc s = Some (s\<lparr>tx_frontend := f'\<rparr>, Inr ()) \<and> session_ok (te_rnd E) cap segs f' \<and>
    concat (map st_text (spoken segs @ queued (fs_spliter f'))) = t"
proof -
  have tk: "tokenizer_ok (te_tokenizer E)" using assms(1) by (simp add: env_ok_def)
  obtain ts where ts: "tokenize_segment_text (te_cat E) (te_tokenizer E) t 0 (tx_journal s) = Inr ts" "concat (map st_text ts) = t"
    "list_all token_span_ok ts" using tokenize_full [OF tk assms(2), of 0 "te_cat E" t] by auto
  have fin: "\<exists>f' segs. on_frontend (finish_full_text (te_rnd E) (te_cat E) us x y) s = Some (s\<lparr>tx_frontend := f'\<rparr>, Inr ()) \<and>
      session_ok (te_rnd E) cap segs f' \<and> concat (map st_text (spoken segs @ queued (fs_spliter f'))) = concat (map st_text us)"
    if us: "list_all token_span_ok us" for us x y
  proof -
    obtain f' segs where f: "finish_full_text (te_rnd E) (te_cat E) us x y (tx_frontend s) = Some (f', Inr ())"
      "session_ok (te_rnd E) cap segs f'" "spoken segs @ queued (fs_spliter f') = us"
      using finish_full_text_step [OF assms(4-7) us] by blast
    have "on_frontend (finish_full_text (te_rnd E) (te_cat E) us x y) s = Some (s\<lparr>tx_frontend := f'\<rparr>, Inr ())"
      by (simp add: on_frontend_def f(1))
    with f(2,3) show ?thesis by blast
  qed
  consider "t = []" | "t \<noteq> []" "te_policy_live E (tx_committer s) \<and> concat (ft_parts acc) = t"
    | "t \<noteq> []" "\<not> (te_policy_live E (tx_committer s) \<and> concat (ft_parts acc) = t)" by blast
  then show ?thesis
  proof cases
    case 1
    then show ?thesis using fin [of "[]" "[]" "[]"] by (simp add: speak_full_text_def)
  next
    case 2
    then show ?thesis using fin [of "ft_tokens acc" "ft_after acc" "ft_before acc"] assms(3)
      by (simp add: speak_full_text_def full_tokens_ok_def)
  next
    case 3
    then have "speak_full_text E t acc s = on_frontend (finish_full_text (te_rnd E) (te_cat E) ts [] []) s"
      using ts(1) by (auto simp: speak_full_text_def)
    then show ?thesis using fin [of ts "[]" "[]"] ts(2,3) by simp
  qed
qed

lemma apply_full_ok:
  assumes E: "env_ok E" and proj: "spoken_projection src (map ci_commit items) = Inr (t, bs)" and ok: "session_ok (te_rnd E) cap [] (tx_frontend s)"
    and f: "sp_next_segment (fs_spliter (tx_frontend s)) = 0" "sp_pending (fs_spliter (tx_frontend s)) = []" "\<not> fs_input_complete (tx_frontend s)"
    and pl: "plans_ok s"
  shows "\<exists>s' segs. apply_full_decision E raw src items s = Some (s', Inr ()) \<and> session_ok (te_rnd E) cap segs (tx_frontend s') \<and>
    concat (map st_text (spoken segs @ queued (fs_spliter (tx_frontend s')))) = t \<and> normalized_text (tx_journal s') = t \<and> raw_text (tx_journal s') = raw"
proof -
  let ?cs = "map ci_commit items"
  let ?parts = "map (normalize_tts_text \<circ> tc_tts_text) ?cs"
  obtain j where j: "install_projection raw t (Some (if src = raw then bs else map (min (int (length raw))) bs)) (tx_journal s) = (j, Inr ())"
    "journal_ok j" "normalized_text j = t" "raw_text j = raw" using full_install [OF proj] by blast
  let ?s1 = "s\<lparr>tx_journal := j, tx_commits := tx_commits s @ ?cs, tx_spoken := tx_spoken s @ ?parts\<rparr>"
  have tk: "tokenizer_ok (te_tokenizer E)" using E by (simp add: env_ok_def)
  have "full_tokens_ok no_full_tokens" by (simp add: full_tokens_ok_def no_full_tokens_def)
  moreover have "journal_ok (tx_journal ?s1)" using j(2) by simp
  ultimately obtain c acc where acc: "commitment_tokens E (zip ?cs ?parts) no_full_tokens ?s1 = (?s1\<lparr>tx_committer := c\<rparr>, Inr acc)"
    "full_tokens_ok acc" using commitment_tokens_ok [OF tk] by blast
  let ?s2 = "?s1\<lparr>tx_committer := te_finish E c\<rparr>"
  have o2: "session_ok (te_rnd E) cap [] (tx_frontend ?s2)" "plans_ok ?s2" using ok pl by (simp_all add: plans_ok_def)
  obtain lf where lf: "te_labelizer E = WithSpans lf" using E by (cases "te_labelizer E") (auto simp: env_ok_def)
  obtain s3 where r: "(if tx_commits ?s1 = [] then skip else refresh_cursor_plan E True) ?s2 = Some (s3, Inr ())"
    "session_ok (te_rnd E) cap [] (tx_frontend s3)" "text_part s3 = text_part ?s2" "control (tx_frontend s3) = control (tx_frontend s)"
  proof (cases "tx_commits ?s1 = []")
    case True
    then show ?thesis using that [of ?s2] o2(1) by (simp add: skip_def)
  next
    case False
    obtain s3 where "refresh_cursor_plan E True ?s2 = Some (s3, Inr ())" "session_ok (te_rnd E) cap [] (tx_frontend s3)"
      "text_part s3 = text_part ?s2" "control (tx_frontend s3) = control (tx_frontend ?s2)" using refresh_ok [OF o2 lf] by blast
    with False show ?thesis by (intro that [of s3]) auto
  qed
  have j3: "journal_ok (tx_journal s3)" "tx_journal s3 = j" using r(3) j(2) by (auto simp: text_part_def)
  have f3: "sp_next_segment (fs_spliter (tx_frontend s3)) = 0" "sp_pending (fs_spliter (tx_frontend s3)) = []"
    "\<not> fs_input_complete (tx_frontend s3)" using r(4) f by (auto simp: control_def)
  obtain f' segs where sp: "speak_full_text E t acc s3 = Some (s3\<lparr>tx_frontend := f'\<rparr>, Inr ())" "session_ok (te_rnd E) cap segs f'"
    "concat (map st_text (spoken segs @ queued (fs_spliter f'))) = t" using speak_full_text_ok [OF E j3(1) acc(2) r(2) f3] by blast
  have upd: "?s1\<lparr>tx_committer := c\<rparr>\<lparr>tx_committer := te_finish E (tx_committer (?s1\<lparr>tx_committer := c\<rparr>))\<rparr> = ?s2" by simp
  have td: "then_do (if tx_commits ?s1 = [] then skip else refresh_cursor_plan E True) (speak_full_text E t acc) ?s2
      = Some (s3\<lparr>tx_frontend := f'\<rparr>, Inr ())" unfolding then_do_def r(1) by (simp add: sp(1))
  have "apply_full_decision E raw src items s =
      completing (then_do (if tx_commits ?s1 = [] then skip else refresh_cursor_plan E True) (speak_full_text E t acc)) ?s2"
    unfolding apply_full_decision_def Let_def proj j(1) sum.case prod.case acc(1) by simp
  then have "apply_full_decision E raw src items s = Some (s3\<lparr>tx_frontend := f'\<rparr>, Inr ())"
    unfolding completing_def td by simp
  then show ?thesis using sp(2,3) j(3,4) j3(2) by auto
qed

text \<open>
  C10. A full text is spoken completely. In a new session, whatever was buffered before, if the
  normalizer decides the complete text into commits, feeding the full text returns without an
  exception; the canonical text of the journal is then the spoken projection of the commits over the
  raw text, and the requests in the engine's inbox and the waiting tokens spell exactly that canonical
  text, whether the tokens were made commit by commit for a commitment policy or in one go.
\<close>

theorem full_text_is_spoken:
  assumes "new_spliter em pf ema saf mg mc al ov lo hi mt mu l1 l2 l3 = Inr sp" and "config_ok (te_rnd E) sp"
    and "make_thresholds (te_rnd E) sp = Inr th" and "env_ok E" and "a = None \<or> a = Some new_adapter"
    and "s = (new_text_session (new_frontend sid mode policy sp cb) c r a)\<lparr>tx_buffer := buffered, tx_journal := j\<rparr>"
    and "raw = full_raw_text explicit buffered (raw_text j)" and "resolve_diagnostic_text raw (te_version E) (te_query E) = Inr src"
    and "te_feed E src None True c = (c', Inr items)"
  shows "\<exists>s' t bs segs. feed_full_text_locked E explicit s = Some (s', Inr ()) \<and>
     spoken_projection src (map ci_commit items) = Inr (t, bs) \<and> normalized_text (tx_journal s') = t \<and> raw_text (tx_journal s') = raw \<and>
     concat (map request_feed (fs_inbox (tx_frontend s'))) = map action_feed (render 0 segs) \<and>
     concat (map st_text (concat (map fst segs) @ map pt_token (sp_pending (fs_spliter (tx_frontend s'))))) = t"
proof -
  let ?s = "s\<lparr>tx_buffer := [], tx_committer := c'\<rparr>"
  note n = new_frontend_ok [OF assms(1-3), of sid mode policy cb]
  have ns: "sp_next_segment sp = 0" "sp_pending sp = []" using assms(1) by (auto simp: new_spliter_def split: sum.splits)
  have s: "session_ok (te_rnd E) (force_split_at th) [] (tx_frontend ?s)" "sp_next_segment (fs_spliter (tx_frontend ?s)) = 0"
    "sp_pending (fs_spliter (tx_frontend ?s)) = []" "\<not> fs_input_complete (tx_frontend ?s)" "plans_ok ?s"
    using n ns assms(5) by (auto simp: assms(6) new_text_session_def new_frontend_def plans_ok_def adapter_exact_def new_adapter_def)
  obtain t bs where p: "spoken_projection src (map ci_commit items) = Inr (t, bs)"
    using spoken_projection_installs [of src "map ci_commit items"] by blast
  from apply_full_ok [OF assms(4) p s, of raw] obtain s' segs where r: "apply_full_decision E raw src items ?s = Some (s', Inr ())"
    "session_ok (te_rnd E) (force_split_at th) segs (tx_frontend s')"
    "concat (map st_text (spoken segs @ queued (fs_spliter (tx_frontend s')))) = t" "normalized_text (tx_journal s') = t" "raw_text (tx_journal s') = raw"
    by blast
  have "feed_full_text_locked E explicit s = Some (s', Inr ())"
    using assms(7-9) r(1) by (simp add: feed_full_text_locked_def assms(6) new_text_session_def Let_def)
  moreover have "concat (map request_feed (fs_inbox (tx_frontend s'))) = map action_feed (render 0 segs)"
    using r(2) by (simp add: session_ok_def feeds_def)
  ultimately show ?thesis using p r(3-5) unfolding spoken_def queued_def by blast
qed

theorem full_text_is_spoken_witness:
  "\<exists>s' t bs segs. feed_full_text_locked ex_env [104, 105, 46]
       ((new_text_session (new_frontend ''s'' FULL_TEXT GroupAuto ex_spliter True) [] ex_router None)
          \<lparr>tx_buffer := [104], tx_journal := new_journal True\<rparr>) = Some (s', Inr ()) \<and>
     spoken_projection [104, 105, 46] [ex_commit 1 0 [104, 105, 46]] = Inr (t, bs) \<and> normalized_text (tx_journal s') = t \<and>
     concat (map request_feed (fs_inbox (tx_frontend s'))) = map action_feed (render 0 segs) \<and>
     concat (map st_text (concat (map fst segs) @ map pt_token (sp_pending (fs_spliter (tx_frontend s'))))) = t"
proof -
  have c: "config_ok (te_rnd ex_env) ex_spliter" "make_thresholds (te_rnd ex_env) ex_spliter = Inr ex_spliter_thresholds"
    using ex_spliter_config ex_spliter_th by (simp_all add: ex_env_def)
  have q: "[104, 105, 46] = full_raw_text [104, 105, 46] [104] (raw_text (new_journal True))"
    "resolve_diagnostic_text [104, 105, 46] (te_version ex_env) (te_query ex_env) = Inr [104, 105, 46]"
    "te_feed ex_env [104, 105, 46] None True [] = ([104, 105, 46], Inr [ex_commit_item 0 [104, 105, 46]])"
    by (simp add: full_raw_text_def, code_simp, simp add: ex_env_def)
  from full_text_is_spoken [OF ex_spliter_new c ex_env_ok _ refl q, where a = None and mode = FULL_TEXT and sid = "''s''" and policy = GroupAuto
      and cb = True and r = ex_router] show ?thesis by (auto simp: ex_commit_item_def)
qed

text \<open>
  The query followed by a digit counts as the query: the digit may begin a keycap emoji and waits in
  the carry, the router sees the bare query, and the end of the input drops the carry and speaks the
  version text alone.
\<close>

lemma query_then_digit_matches:
  assumes "tx_router s = \<lparr>rt_query = DEFAULT_VERSION_QUERY_TEXT, rt_pending = [], rt_passthrough = False\<rparr>" and "tx_carry s = []"
  shows "\<exists>s' r. push_streaming E (DEFAULT_VERSION_QUERY_TEXT @ [49]) meta s = Some (s', Inr ()) \<and> tx_carry s' = [49] \<and>
    router_finish (te_version E) (tx_router s') = (r, [te_version E], True) \<and>
    flush_router E [te_version E] True s' = for_each (feed_text E None) [te_version E] (s'\<lparr>tx_carry := []\<rparr>)"
proof -
  have "split_pending_emoji (DEFAULT_VERSION_QUERY_TEXT @ [49]) = (DEFAULT_VERSION_QUERY_TEXT, [49])" by code_simp
  moreover have "DEFAULT_VERSION_QUERY_TEXT \<noteq> []" by (simp add: DEFAULT_VERSION_QUERY_TEXT_def)
  ultimately show ?thesis using assms
    by (simp add: push_streaming_def router_push_def router_finish_def flush_router_def Let_def)
qed

end
