(* ===== verification/Prefix_Cache.thy ===== *)
theory Prefix_Cache
  imports Complex_Main Prelude
begin

text \<open>
  The prefix cache, \<open>engine/backend/prefix_cache.py\<close>: an ordered dictionary of prompt prefixes with a
  bounded number of entries, as an association list in order of use. A cached tensor is the list of its
  columns. Shown are the bounds and the least-recently-used guarantee
  (\<open>recent_prefix_survives\<close>).
\<close>

section \<open>Entries and the cache\<close>

record 'k prefix_cache_entry =
  pe_key :: string
  pe_talker_kv :: "'k list"
  pe_prefix_len :: nat
  pe_created_at :: rat
  pe_hit_count :: nat

text \<open>The ordered dictionary, least recently used entry first.\<close>

record 'k prefix_kv_cache =
  pc_max_entries :: int
  pc_max_prefix_len :: nat
  pc_cache :: "(string \<times> 'k prefix_cache_entry) list"
  pc_hits :: nat
  pc_misses :: nat

definition new_prefix_cache :: "int \<Rightarrow> nat \<Rightarrow> 'k prefix_kv_cache" where
  "new_prefix_cache n len = \<lparr>pc_max_entries = n, pc_max_prefix_len = len, pc_cache = [], pc_hits = 0, pc_misses = 0\<rparr>"

definition prefix_size :: "'k prefix_kv_cache \<Rightarrow> nat" where
  "prefix_size c = length (pc_cache c)"

definition prefix_hit_rate :: "'k prefix_kv_cache \<Rightarrow> rat" where
  "prefix_hit_rate c = of_nat (pc_hits c) / of_nat (max 1 (pc_hits c + pc_misses c))"

definition prefix_contains :: "string option \<Rightarrow> 'k prefix_kv_cache \<Rightarrow> bool" where
  "prefix_contains key c = (case key of None \<Rightarrow> False | Some k \<Rightarrow> k \<in> fst ` set (pc_cache c))"

text \<open>\<open>OrderedDict.move_to_end\<close> with the value found.\<close>

definition move_to_end :: "'a \<Rightarrow> 'b \<Rightarrow> ('a \<times> 'b) list \<Rightarrow> ('a \<times> 'b) list" where
  "move_to_end k v d = dict_pop k d @ [(k, v)]"

definition prefix_get :: "string option \<Rightarrow> 'k prefix_kv_cache \<Rightarrow> 'k prefix_kv_cache \<times> 'k prefix_cache_entry option" where
  "prefix_get key c =
     (case key of
        None \<Rightarrow> (c\<lparr>pc_misses := Suc (pc_misses c)\<rparr>, None)
      | Some k \<Rightarrow>
          (case map_of (pc_cache c) k of
             None \<Rightarrow> (c\<lparr>pc_misses := Suc (pc_misses c)\<rparr>, None)
           | Some e \<Rightarrow>
               let e' = e\<lparr>pe_hit_count := Suc (pe_hit_count e)\<rparr>
               in (c\<lparr>pc_cache := move_to_end k e' (pc_cache c), pc_hits := Suc (pc_hits c)\<rparr>, Some e')))"

text \<open>\<open>while len(cache) >= max_entries: cache.popitem(last=False)\<close> for a positive bound.\<close>

fun evict_oldest :: "nat \<Rightarrow> ('a \<times> 'b) list \<Rightarrow> ('a \<times> 'b) list" where
  "evict_oldest m [] = []"
| "evict_oldest m (e # d) = (if m \<le> Suc (length d) then evict_oldest m d else e # d)"

definition prefix_put :: "rat \<Rightarrow> string option \<Rightarrow> 'k list \<Rightarrow> nat \<Rightarrow> 'k prefix_kv_cache \<Rightarrow> 'k prefix_kv_cache" where
  "prefix_put now key kv prefix_len c =
     (case key of
        None \<Rightarrow> c
      | Some k \<Rightarrow>
          if pc_max_entries c \<le> 0 then c
          else if pc_max_prefix_len c < prefix_len then c
          else case map_of (pc_cache c) k of
              Some e \<Rightarrow> c\<lparr>pc_cache := move_to_end k e (pc_cache c)\<rparr>
            | None \<Rightarrow>
                c\<lparr>pc_cache := evict_oldest (nat (pc_max_entries c)) (pc_cache c) @
                    [(k, \<lparr>pe_key = k, pe_talker_kv = kv, pe_prefix_len = prefix_len, pe_created_at = now, pe_hit_count = 0\<rparr>)]\<rparr>)"

definition prefix_invalidate :: "string \<Rightarrow> 'k prefix_kv_cache \<Rightarrow> 'k prefix_kv_cache \<times> bool" where
  "prefix_invalidate k c = (c\<lparr>pc_cache := dict_pop k (pc_cache c)\<rparr>, k \<in> fst ` set (pc_cache c))"

definition prefix_clear :: "'k prefix_kv_cache \<Rightarrow> 'k prefix_kv_cache" where
  "prefix_clear c = c\<lparr>pc_cache := []\<rparr>"

datatype 'k prefix_op =
    PGet "string option"
  | PPut rat "string option" "'k list" nat
  | PInvalidate string
  | PClear

fun prefix_exec :: "'k prefix_op \<Rightarrow> 'k prefix_kv_cache \<Rightarrow> 'k prefix_kv_cache" where
  "prefix_exec (PGet key) c = fst (prefix_get key c)"
| "prefix_exec (PPut now key kv n) c = prefix_put now key kv n c"
| "prefix_exec (PInvalidate k) c = fst (prefix_invalidate k c)"
| "prefix_exec PClear c = prefix_clear c"

section \<open>The invariant\<close>

definition prefix_ok :: "'k prefix_kv_cache \<Rightarrow> bool" where
  "prefix_ok c \<longleftrightarrow>
     distinct (map fst (pc_cache c)) \<and> int (length (pc_cache c)) \<le> max 0 (pc_max_entries c) \<and>
     (\<forall>(k, e) \<in> set (pc_cache c). pe_key e = k \<and> pe_prefix_len e \<le> pc_max_prefix_len c)"

lemma evict_oldest_drop: "0 < m \<Longrightarrow> evict_oldest m d = drop (Suc (length d) - m) d"
proof (induction d)
  case (Cons e d)
  then show ?case by (auto simp: Suc_diff_le)
qed simp

lemma move_to_end_length: "k \<in> fst ` set d \<Longrightarrow> distinct (map fst d) \<Longrightarrow> length (move_to_end k v d) = length d"
proof (induction d)
  case (Cons x d)
  obtain a b where x: "x = (a, b)" by force
  show ?case
  proof (cases "a = k")
    case True
    then have "dict_pop k d = d" using Cons.prems(2) x by (force simp: dict_pop_def filter_id_conv)
    then show ?thesis using True x by (simp add: move_to_end_def dict_pop_def)
  next
    case False
    then show ?thesis using Cons x by (simp add: move_to_end_def dict_pop_def)
  qed
qed simp

lemma move_to_end_distinct: "distinct (map fst d) \<Longrightarrow> distinct (map fst (move_to_end k v d))"
proof -
  assume "distinct (map fst d)"
  then have "distinct (map fst (dict_pop k d))" by simp
  moreover have "k \<notin> fst ` set (dict_pop k d)" by simp
  ultimately show ?thesis by (auto simp: move_to_end_def)
qed

lemma lookup_key: "map_of d k = Some e \<Longrightarrow> k \<in> fst ` set d"
  by (metis map_of_eq_None_iff option.distinct(1))

lemma prefix_exec_ok:
  assumes "prefix_ok c"
  shows "prefix_ok (prefix_exec op c)"
proof (cases op)
  case (PGet key)
  show ?thesis
  proof (cases "key = None \<or> map_of (pc_cache c) (the key) = None")
    case True
    then show ?thesis using assms PGet by (auto simp: prefix_get_def prefix_ok_def split: option.splits)
  next
    case False
    then obtain k e where k: "key = Some k" "map_of (pc_cache c) k = Some e" by auto
    have "(k, e) \<in> set (pc_cache c)" using k(2) by (rule map_of_SomeD)
    then show ?thesis
      using assms PGet k move_to_end_length [of k "pc_cache c"] move_to_end_distinct [of "pc_cache c" k] lookup_key [OF k(2)]
        dict_pop_subset [of k "pc_cache c"]
      by (auto simp: prefix_get_def prefix_ok_def Let_def move_to_end_def)
  qed
next
  case (PPut now key kv n)
  show ?thesis
  proof (cases "key = None \<or> pc_max_entries c \<le> 0 \<or> pc_max_prefix_len c < n")
    case True
    then show ?thesis using assms PPut by (auto simp: prefix_put_def split: option.splits)
  next
    case False
    then obtain k where k: "key = Some k" and g: "0 < pc_max_entries c" "n \<le> pc_max_prefix_len c" by auto
    let ?m = "nat (pc_max_entries c)"
    show ?thesis
    proof (cases "map_of (pc_cache c) k")
      case None
      then have nk: "k \<notin> fst ` set (pc_cache c)" by (simp add: map_of_eq_None_iff)
      have e: "evict_oldest ?m (pc_cache c) = drop (Suc (length (pc_cache c)) - ?m) (pc_cache c)"
        using g by (simp add: evict_oldest_drop)
      have "distinct (map fst (evict_oldest ?m (pc_cache c)))" "set (evict_oldest ?m (pc_cache c)) \<subseteq> set (pc_cache c)"
        "length (evict_oldest ?m (pc_cache c)) < ?m"
        unfolding e using assms g by (auto simp: prefix_ok_def drop_map [symmetric] dest: in_set_dropD)
      then show ?thesis
        using assms PPut k g None nk by (auto simp: prefix_put_def prefix_ok_def image_iff)
    next
      case (Some e)
      have "(k, e) \<in> set (pc_cache c)" using Some by (rule map_of_SomeD)
      then show ?thesis
        using assms PPut k g Some move_to_end_length [of k "pc_cache c"] move_to_end_distinct [of "pc_cache c" k] lookup_key [OF Some]
          dict_pop_subset [of k "pc_cache c"]
        by (auto simp: prefix_put_def prefix_ok_def move_to_end_def)
    qed
  qed
next
  case (PInvalidate k)
  then show ?thesis
    using assms dict_pop_length [of k "pc_cache c"] dict_pop_subset [of k "pc_cache c"]
    by (auto simp: prefix_invalidate_def prefix_ok_def)
next
  case PClear
  then show ?thesis using assms by (simp add: prefix_clear_def prefix_ok_def)
qed

interpretation prefix: op_system prefix_exec prefix_ok
  by unfold_locales (rule prefix_exec_ok)
section \<open>Least recently used\<close>

fun named_keys :: "'k prefix_op \<Rightarrow> string set" where
  "named_keys (PGet key) = set_option key"
| "named_keys (PPut now key kv n) = set_option key"
| "named_keys _ = {}"

fun drops :: "string \<Rightarrow> 'k prefix_op \<Rightarrow> bool" where
  "drops k (PInvalidate k') = (k' = k)"
| "drops k PClear = True"
| "drops k _ = False"

text \<open>Key \<open>k\<close> is cached with the given prefix, and only keys of \<open>S\<close> were used after it.\<close>

definition placed :: "string \<Rightarrow> 'k list \<Rightarrow> nat \<Rightarrow> string set \<Rightarrow> 'k prefix_kv_cache \<Rightarrow> bool" where
  "placed k kv n S c \<longleftrightarrow>
     (\<exists>before e after. pc_cache c = before @ (k, e) # after \<and> pe_talker_kv e = kv \<and> pe_prefix_len e = n \<and> fst ` set after \<subseteq> S)"

lemma placed_lookup: "prefix_ok c \<Longrightarrow> placed k kv n S c \<Longrightarrow>
    \<exists>e. map_of (pc_cache c) k = Some e \<and> pe_talker_kv e = kv \<and> pe_prefix_len e = n"
proof -
  assume "prefix_ok c" and "placed k kv n S c"
  then obtain before e after where p: "pc_cache c = before @ (k, e) # after" "pe_talker_kv e = kv" "pe_prefix_len e = n"
      "distinct (map fst (pc_cache c))"
    by (auto simp: placed_def prefix_ok_def)
  then have "map_of (pc_cache c) k = Some e" by (intro map_of_is_SomeI) auto
  with p show ?thesis by blast
qed

lemma placed_mono: "placed k kv n S c \<Longrightarrow> S \<subseteq> T \<Longrightarrow> placed k kv n T c"
  unfolding placed_def by blast

lemma dict_pop_append [simp]: "dict_pop k (xs @ ys) = dict_pop k xs @ dict_pop k ys"
  by (simp add: dict_pop_def)

lemma dict_pop_cons_other: "k' \<noteq> k \<Longrightarrow> dict_pop k' ((k, e) # after) = (k, e) # dict_pop k' after"
  by (simp add: dict_pop_def)

lemma placed_move:
  assumes "placed k kv n S c" and "k' \<noteq> k" and "pc_cache c' = move_to_end k' e' (pc_cache c)"
  shows "placed k kv n (insert k' S) c'"
proof -
  obtain before e after where p: "pc_cache c = before @ (k, e) # after" "pe_talker_kv e = kv" "pe_prefix_len e = n" "fst ` set after \<subseteq> S"
    using assms(1) by (auto simp: placed_def)
  have "pc_cache c' = dict_pop k' before @ (k, e) # (dict_pop k' after @ [(k', e')])"
    using assms(2,3) p(1) by (simp add: move_to_end_def dict_pop_cons_other)
  moreover have "fst ` set (dict_pop k' after @ [(k', e')]) \<subseteq> insert k' S" using p(4) by auto
  ultimately show ?thesis using p(2,3) unfolding placed_def by blast
qed

lemma placed_self:
  assumes "prefix_ok c" and "placed k kv n S c" and "map_of (pc_cache c) k = Some e"
    and "pe_talker_kv e' = pe_talker_kv e" "pe_prefix_len e' = pe_prefix_len e" and "pc_cache c' = move_to_end k e' (pc_cache c)"
  shows "placed k kv n {} c'"
  using placed_lookup [OF assms(1,2)] assms(3-6)
  by (auto simp: placed_def move_to_end_def intro!: exI [of _ "dict_pop k (pc_cache c)"] exI [of _ e'])

lemma placed_insert:
  assumes "prefix_ok c" and "placed k kv n S c" and "k' \<noteq> k" and "k' \<notin> fst ` set (pc_cache c)" and "finite S"
    and "card (insert k' (S - {k})) < m" and "length (pc_cache c) \<le> m"
    and "pc_cache c' = evict_oldest m (pc_cache c) @ [(k', e')]"
  shows "placed k kv n (insert k' S) c'"
proof -
  obtain before e after where p: "pc_cache c = before @ (k, e) # after" "pe_talker_kv e = kv" "pe_prefix_len e = n" "fst ` set after \<subseteq> S"
    using assms(2) by (auto simp: placed_def)
  have d: "distinct (map fst after)" "k \<notin> fst ` set after" "k' \<notin> fst ` set after"
    using assms(1,4) p(1) by (auto simp: prefix_ok_def)
  have "fst ` set after \<subseteq> S - {k} - {k'}" using d p(4) by auto
  then have "insert k' (fst ` set after) \<subseteq> insert k' (S - {k})" by auto
  then have "card (insert k' (fst ` set after)) \<le> card (insert k' (S - {k}))"
    using assms(5) by (intro card_mono) auto
  moreover have "card (fst ` set after) = length after" using distinct_card [OF d(1)] by simp
  ultimately have la: "Suc (length after) < m" using assms(6) d(3) by simp
  let ?n = "Suc (length (pc_cache c)) - m"
  have "?n \<le> length before" using la assms(7) by (simp add: p(1))
  then have "evict_oldest m (pc_cache c) = drop ?n before @ (k, e) # after"
    using la by (simp add: evict_oldest_drop p(1))
  then have "pc_cache c' = drop ?n before @ (k, e) # (after @ [(k', e')])" using assms(8) by simp
  moreover have "fst ` set (after @ [(k', e')]) \<subseteq> insert k' S" using p(4) by auto
  ultimately show ?thesis using p(2,3) unfolding placed_def by blast
qed

lemma placed_exec:
  assumes "prefix_ok c" and "placed k kv n S c" and "\<not> drops k op" and "finite S"
    and "card ((S \<union> named_keys op) - {k}) < nat (pc_max_entries c)"
  shows "placed k kv n (S \<union> named_keys op) (prefix_exec op c)"
proof (cases op)
  case (PGet key)
  show ?thesis
  proof (cases "key = None \<or> map_of (pc_cache c) (the key) = None")
    case True
    then have "pc_cache (prefix_exec op c) = pc_cache c" using PGet by (auto simp: prefix_get_def split: option.splits)
    then have "placed k kv n S (prefix_exec op c)" using assms(2) by (simp add: placed_def)
    then show ?thesis by (rule placed_mono) simp
  next
    case False
    then obtain k' e where k: "key = Some k'" "map_of (pc_cache c) k' = Some e" by auto
    have c': "pc_cache (prefix_exec op c) = move_to_end k' (e\<lparr>pe_hit_count := Suc (pe_hit_count e)\<rparr>) (pc_cache c)"
      by (simp add: PGet k prefix_get_def Let_def)
    show ?thesis
    proof (cases "k' = k")
      case True
      have "placed k kv n {} (prefix_exec op c)" by (rule placed_self [OF assms(1,2) _ _ _ c' [unfolded True]]) (use k True in auto)
      then show ?thesis by (rule placed_mono) simp
    next
      case False
      from placed_move [OF assms(2) False c'] show ?thesis using PGet k by simp
    qed
  qed
next
  case (PPut now key kv' n')
  show ?thesis
  proof (cases "key = None \<or> pc_max_entries c \<le> 0 \<or> pc_max_prefix_len c < n'")
    case True
    then show ?thesis using placed_mono [OF assms(2)] PPut by (auto simp: prefix_put_def split: option.splits)
  next
    case False
    then obtain k' where k: "key = Some k'" and g: "0 < pc_max_entries c" "n' \<le> pc_max_prefix_len c" by auto
    show ?thesis
    proof (cases "map_of (pc_cache c) k'")
      case None
      then have nk: "k' \<notin> fst ` set (pc_cache c)" by (simp add: map_of_eq_None_iff)
      have "k' \<noteq> k" using placed_lookup [OF assms(1,2)] None by auto
      then have "insert k' (S - {k}) = (S \<union> named_keys op) - {k}" by (auto simp: PPut k)
      moreover have "length (pc_cache c) \<le> nat (pc_max_entries c)"
        using assms(1) g nat_mono [of "int (length (pc_cache c))" "pc_max_entries c"] by (simp add: prefix_ok_def)
      moreover obtain e' where "pc_cache (prefix_exec op c) = evict_oldest (nat (pc_max_entries c)) (pc_cache c) @ [(k', e')]"
        using PPut k g None by (simp add: prefix_put_def)
      ultimately show ?thesis
        using placed_insert [OF assms(1,2) \<open>k' \<noteq> k\<close> nk assms(4)] assms(5) PPut k by simp
    next
      case (Some e)
      then have c': "pc_cache (prefix_exec op c) = move_to_end k' e (pc_cache c)" using PPut k g by (simp add: prefix_put_def)
      show ?thesis
      proof (cases "k' = k")
        case True
        have "placed k kv n {} (prefix_exec op c)" by (rule placed_self [OF assms(1,2) _ _ _ c' [unfolded True]]) (use Some True in auto)
        then show ?thesis by (rule placed_mono) simp
      next
        case False
        from placed_move [OF assms(2) False c'] show ?thesis using PPut k by simp
      qed
    qed
  qed
next
  case (PInvalidate k')
  then have "k' \<noteq> k" using assms(3) by simp
  obtain before e after where p: "pc_cache c = before @ (k, e) # after" "pe_talker_kv e = kv" "pe_prefix_len e = n" "fst ` set after \<subseteq> S"
    using assms(2) by (auto simp: placed_def)
  have "pc_cache (prefix_exec op c) = dict_pop k' before @ (k, e) # dict_pop k' after"
    using \<open>k' \<noteq> k\<close> by (simp add: PInvalidate prefix_invalidate_def p(1) dict_pop_cons_other)
  moreover have "fst ` set (dict_pop k' after) \<subseteq> S \<union> named_keys op" using p(4) by auto
  ultimately show ?thesis using p(2,3) unfolding placed_def by blast
next
  case PClear
  then show ?thesis using assms(3) by simp
qed

lemma prefix_exec_bounds: "pc_max_entries (prefix_exec op c) = pc_max_entries c"
  by (cases op) (auto simp: prefix_get_def prefix_put_def prefix_invalidate_def prefix_clear_def Let_def split: option.splits)

lemma placed_run:
  "prefix_ok c \<Longrightarrow> placed k kv n S c \<Longrightarrow> \<forall>op \<in> set ops. \<not> drops k op \<Longrightarrow> finite S \<Longrightarrow>
   card ((S \<union> \<Union> (named_keys ` set ops)) - {k}) < nat (pc_max_entries c) \<Longrightarrow>
   placed k kv n (S \<union> \<Union> (named_keys ` set ops)) (fold prefix_exec ops c)"
proof (induction ops arbitrary: S c)
  case (Cons op ops)
  have fin: "finite (named_keys o')" for o' :: "'a prefix_op" by (cases o') auto
  have "card ((S \<union> named_keys op) - {k}) \<le> card ((S \<union> \<Union> (named_keys ` set (op # ops))) - {k})"
    using Cons.prems(4) fin by (intro card_mono) auto
  then have "placed k kv n (S \<union> named_keys op) (prefix_exec op c)"
    using Cons.prems by (intro placed_exec) auto
  then have "placed k kv n ((S \<union> named_keys op) \<union> \<Union> (named_keys ` set ops)) (fold prefix_exec ops (prefix_exec op c))"
    using Cons.prems fin by (intro Cons.IH) (auto simp: prefix_exec_ok prefix_exec_bounds Un_assoc)
  then show ?case by (simp add: Un_assoc)
qed simp

text \<open>
  C26. The prefix cache is a bounded least-recently-used cache. It never holds more than the configured
  number of entries, nor one longer than the prefix limit. A prefix that is stored under a key that was
  absent is found again, unchanged, after any further operations that neither invalidate the key nor
  clear the cache, as long as those operations name fewer than \<open>max_entries\<close> other keys; every lookup
  of it counts as a hit.
\<close>

theorem recent_prefix_survives:
  assumes "prefix_ok c" and "n \<le> pc_max_prefix_len c" and "k \<notin> fst ` set (pc_cache c)"
    and "\<forall>op \<in> set ops. \<not> drops k op"
    and "int (card (\<Union> (named_keys ` set ops) - {k})) < pc_max_entries c"
  shows "\<exists>c' e. prefix_get (Some k) (fold prefix_exec ops (prefix_put now (Some k) kv n c)) = (c', Some e) \<and>
    pe_talker_kv e = kv \<and> pe_prefix_len e = n \<and>
    pc_hits c' = Suc (pc_hits (fold prefix_exec ops (prefix_put now (Some k) kv n c))) \<and>
    prefix_ok c' \<and> int (prefix_size c') \<le> max 0 (pc_max_entries c')"
proof -
  let ?c1 = "prefix_put now (Some k) kv n c" and ?c2 = "fold prefix_exec ops (prefix_put now (Some k) kv n c)"
  have pos: "0 < pc_max_entries c" using assms(5) by (meson of_nat_0_le_iff order.strict_trans1)
  have none: "map_of (pc_cache c) k = None" using assms(3) by (simp add: map_of_eq_None_iff)
  have ok1: "prefix_ok ?c1" using prefix_exec_ok [OF assms(1), of "PPut now (Some k) kv n"] by simp
  have "placed k kv n {} ?c1"
    using pos none assms(2) by (auto simp: prefix_put_def placed_def)
  then have "placed k kv n ({} \<union> \<Union> (named_keys ` set ops)) ?c2"
    using ok1 assms(4,5) prefix_exec_bounds [of "PPut now (Some k) kv n" c] by (intro placed_run) auto
  moreover have ok2: "prefix_ok ?c2" by (rule prefix.run_inv [OF ok1])
  ultimately obtain e where e: "map_of (pc_cache ?c2) k = Some e" "pe_talker_kv e = kv" "pe_prefix_len e = n"
    using placed_lookup by blast
  have "prefix_ok (prefix_exec (PGet (Some k)) ?c2)" by (rule prefix_exec_ok [OF ok2])
  then show ?thesis using e by (auto simp: prefix_get_def Let_def prefix_ok_def prefix_size_def)
qed

definition ex_lru :: "int prefix_op list" where
  "ex_lru = [PPut 2 (Some ''b'') [2] 1, PGet (Some ''a''), PPut 3 (Some ''b'') [9] 1]"

theorem recent_prefix_survives_witness:
  "\<exists>c' e. prefix_get (Some ''a'') (fold prefix_exec ex_lru (prefix_put 1 (Some ''a'') [5, 6] 2 (new_prefix_cache 2 512))) =
     (c', Some e) \<and> pe_talker_kv e = [5 :: int, 6]"
proof -
  have "prefix_ok (new_prefix_cache 2 512 :: int prefix_kv_cache)" by (simp add: prefix_ok_def new_prefix_cache_def)
  moreover have "\<Union> (named_keys ` set ex_lru) - {''a''} = {''b''}" by (auto simp: ex_lru_def)
  ultimately show ?thesis
    using recent_prefix_survives [of "new_prefix_cache 2 512 :: int prefix_kv_cache" 2 "''a''" ex_lru 1 "[5, 6]"]
    by (auto simp: new_prefix_cache_def ex_lru_def)
qed
end
