(* ===== verification/Kv_Pool.thy ===== *)
theory Kv_Pool
  imports Complex_Main Prelude
begin

text \<open>
  The pool of KV cache slots, \<open>engine/backend/kv_cache_pool.py\<close>: the slots with their bookkeeping, the
  free list, allocation and release with allocation epochs, eviction candidates, and the cache rows as
  lists of columns. The tensors of the batch paths appear as one list of columns per batch row; data
  type, device and layer dimensions are not part of the model.

  Shown are the pool invariant, the protection of a slot by its epoch
  (\<open>stale_release_is_harmless\<close>), the sliding window of the Code2Wav rows
  (\<open>c2w_row_is_recent_history\<close>) and the round trip of a detached snapshot.
\<close>

section \<open>Slots\<close>

text \<open>
  A slot keeps its bookkeeping; \<open>'e\<close> are embedding vectors. The optional tensors of a slot (the
  Talker and Code2Wav states, the cursor state, the token counts, the random generator) are the
  attributes of \<open>sl_tensors\<close> that are set, by name.
\<close>

record 'e slot_kv_state =
  slot_id :: nat
  allocation_epoch :: nat
  sl_session_id :: "string option"
  sl_segment_idx :: int
  sl_retry_idx :: nat
  is_free :: bool
  prefill_source :: string
  past_len :: nat
  frame_idx :: nat
  text_idx :: nat
  sl_trailing :: "'e list"
  token_queue :: "int list"
  next_embed :: "'e option"
  last_codec_sum :: "'e option"
  sampling_identity :: "string option"
  sl_tensors :: "(string \<times> 'e) list"
  extension_state :: "(string \<times> 'e) list"
  pad_start_frame :: int
  pad_consecutive_silence :: nat
  c2w_len :: nat
  c2w_pooled :: bool
  c2w_arena_backed :: bool
  c2w_write_in_a :: bool
  last_active_time :: rat

definition new_slot :: "rat \<Rightarrow> nat \<Rightarrow> 'e slot_kv_state" where
  "new_slot now i =
     \<lparr>slot_id = i, allocation_epoch = 0, sl_session_id = None, sl_segment_idx = -1, sl_retry_idx = 0, is_free = True,
      prefill_source = [], past_len = 0, frame_idx = 0, text_idx = 0, sl_trailing = [], token_queue = [],
      next_embed = None, last_codec_sum = None, sampling_identity = None, sl_tensors = [], extension_state = [],
      pad_start_frame = -1, pad_consecutive_silence = 0, c2w_len = 0, c2w_pooled = False, c2w_arena_backed = False,
      c2w_write_in_a = False, last_active_time = now\<rparr>"

text \<open>The assignments that allocation and release share.\<close>

definition clear_slot :: "'e slot_kv_state \<Rightarrow> 'e slot_kv_state" where
  "clear_slot s =
     s\<lparr>sl_segment_idx := -1, sl_retry_idx := 0, prefill_source := [], past_len := 0, frame_idx := 0, text_idx := 0,
       sl_trailing := [], token_queue := [], extension_state := [], pad_start_frame := -1,
       pad_consecutive_silence := 0, sampling_identity := None, next_embed := None, last_codec_sum := None,
       sl_tensors := [], c2w_arena_backed := False, c2w_write_in_a := False, c2w_len := 0, c2w_pooled := False\<rparr>"

definition touch :: "rat \<Rightarrow> 'e slot_kv_state \<Rightarrow> 'e slot_kv_state" where
  "touch now s = s\<lparr>last_active_time := now\<rparr>"

definition idle_seconds :: "rat \<Rightarrow> 'e slot_kv_state \<Rightarrow> rat" where
  "idle_seconds now s = now - last_active_time s"

definition reset_for_new_segment :: "'e slot_kv_state \<Rightarrow> 'e slot_kv_state" where
  "reset_for_new_segment s =
     s\<lparr>sl_retry_idx := 0, text_idx := 0, sl_trailing := [], next_embed := None, last_codec_sum := None,
       token_queue := [], pad_start_frame := -1, pad_consecutive_silence := 0,
       sl_tensors := filter (\<lambda>(n, _). n \<notin> {''sampling_seed'', ''sampling_generator''}) (sl_tensors s)\<rparr>"

section \<open>The pool\<close>

text \<open>
  \<open>'k\<close> is one column of a cache: all layers, heads and dimensions at one position. A preallocated pool
  has one row of columns per slot and cache. \<open>kp_talker_numel\<close> and \<open>kp_c2w_numel\<close> are the elements of
  a column, \<open>kp_element_size\<close> their bytes.
\<close>

record ('e, 'k) kv_pool =
  kp_max_slots :: nat
  kp_max_seq_len :: nat
  kp_window :: nat
  kp_talker_numel :: nat
  kp_c2w_numel :: nat
  kp_element_size :: nat
  kp_slots :: "'e slot_kv_state list"
  kp_free :: "nat list"
  kp_talker :: "'k list list option"
  kp_c2w :: "'k list list option"

definition new_pool :: "rat \<Rightarrow> nat \<Rightarrow> nat \<Rightarrow> nat \<Rightarrow> nat \<Rightarrow> nat \<Rightarrow> nat \<Rightarrow> bool \<Rightarrow> ('e, 'k::zero) kv_pool" where
  "new_pool now n max_seq window tn cn es preallocate =
     \<lparr>kp_max_slots = n, kp_max_seq_len = max_seq, kp_window = window, kp_talker_numel = tn, kp_c2w_numel = cn,
      kp_element_size = es, kp_slots = map (new_slot now) [0..<n], kp_free = [0..<n],
      kp_talker = (if preallocate then Some (replicate n (replicate max_seq 0)) else None),
      kp_c2w = (if preallocate then Some (replicate n (replicate window 0)) else None)\<rparr>"

definition free_count :: "('e, 'k) kv_pool \<Rightarrow> nat" where
  "free_count p = length (kp_free p)"

definition used_count :: "('e, 'k) kv_pool \<Rightarrow> int" where
  "used_count p = int (kp_max_slots p) - int (length (kp_free p))"

definition utilization :: "('e, 'k) kv_pool \<Rightarrow> rat" where
  "utilization p = (if kp_max_slots p = 0 then 0 else of_int (used_count p) / of_nat (kp_max_slots p))"

definition map_slot :: "nat \<Rightarrow> ('e slot_kv_state \<Rightarrow> 'e slot_kv_state) \<Rightarrow> ('e, 'k) kv_pool \<Rightarrow> ('e, 'k) kv_pool" where
  "map_slot i f p = p\<lparr>kp_slots := (kp_slots p)[i := f (kp_slots p ! i)]\<rparr>"

definition zero_row :: "nat \<Rightarrow> 'k::zero list list \<Rightarrow> 'k list list" where
  "zero_row i rows = rows[i := replicate (length (rows ! i)) 0]"

definition allocate :: "rat \<Rightarrow> string \<Rightarrow> ('e, 'k::zero) kv_pool \<Rightarrow> ('e, 'k) kv_pool \<times> nat option" where
  "allocate now sid p =
     (if kp_free p = [] then (p, None)
      else let i = last (kp_free p);
               p1 = map_slot i (\<lambda>s. (clear_slot s)\<lparr>allocation_epoch := Suc (allocation_epoch s), sl_session_id := Some sid,
                                                  is_free := False, last_active_time := now\<rparr>) p
           in (p1\<lparr>kp_free := butlast (kp_free p), kp_talker := map_option (zero_row i) (kp_talker p),
                  kp_c2w := map_option (zero_row i) (kp_c2w p)\<rparr>, Some i))"

definition release :: "nat \<Rightarrow> nat option \<Rightarrow> ('e, 'k) kv_pool \<Rightarrow> ('e, 'k) kv_pool \<times> (py_error, unit) result" where
  "release i expected p =
     (if length (kp_slots p) \<le> i then (p, Inl IndexError)
      else if expected \<noteq> None \<and> expected \<noteq> Some (allocation_epoch (kp_slots p ! i))
      then (p, Inl (ValueError ''allocation epoch mismatch''))
      else if is_free (kp_slots p ! i) then (p, Inr ())
      else ((map_slot i (\<lambda>s. (clear_slot s)\<lparr>sl_session_id := None, is_free := True\<rparr>) p)\<lparr>kp_free := kp_free p @ [i]\<rparr>, Inr ()))"

definition get_by_session :: "string \<Rightarrow> ('e, 'k) kv_pool \<Rightarrow> 'e slot_kv_state option" where
  "get_by_session sid p = List.find (\<lambda>s. \<not> is_free s \<and> sl_session_id s = Some sid) (kp_slots p)"

definition active_slots :: "('e, 'k) kv_pool \<Rightarrow> 'e slot_kv_state list" where
  "active_slots p = filter (\<lambda>s. \<not> is_free s) (kp_slots p)"

text \<open>All idle times of one search are taken at the same instant.\<close>

fun eviction_scan :: "rat \<Rightarrow> rat \<Rightarrow> 'e slot_kv_state option \<Rightarrow> 'e slot_kv_state list \<Rightarrow> 'e slot_kv_state option" where
  "eviction_scan now limit best [] = best"
| "eviction_scan now limit best (s # ss) =
     eviction_scan now limit
       (if is_free s \<or> idle_seconds now s < limit then best
        else case best of None \<Rightarrow> Some s | Some b \<Rightarrow> if idle_seconds now b < idle_seconds now s then Some s else best) ss"

definition find_eviction_candidate :: "rat \<Rightarrow> rat \<Rightarrow> ('e, 'k) kv_pool \<Rightarrow> 'e slot_kv_state option" where
  "find_eviction_candidate now max_idle_sec p = eviction_scan now max_idle_sec None (kp_slots p)"

definition force_evict :: "nat \<Rightarrow> ('e, 'k) kv_pool \<Rightarrow> ('e, 'k) kv_pool \<times> (py_error, string option) result" where
  "force_evict i p =
     (if length (kp_slots p) \<le> i then (p, Inl IndexError)
      else let s = kp_slots p ! i in
        if is_free s then (p, Inr None)
        else case release i (Some (allocation_epoch s)) p of
            (p', Inl e) \<Rightarrow> (p', Inl e)
          | (p', Inr _) \<Rightarrow> (p', Inr (sl_session_id s)))"

section \<open>Columns of the cache rows\<close>

text \<open>\<open>row[a : a + n] = src\<close> on tensors: the lengths must agree, or the source has one column and is repeated.\<close>

definition assign_cols :: "nat \<Rightarrow> nat \<Rightarrow> 'k list \<Rightarrow> 'k list \<Rightarrow> (py_error, 'k list) result" where
  "assign_cols a n src row =
     (let m = length (take n (drop a row)) in
      if length src = m then Inr (take a row @ src @ drop (a + m) row)
      else if length src = 1 then Inr (take a row @ replicate m (hd src) @ drop (a + m) row)
      else Inl (RuntimeError ''shape mismatch''))"

definition not_preallocated :: py_error where
  "not_preallocated = RuntimeError ''Pool not pre-allocated''"

text \<open>A loop over rows that stops at the first failing assignment.\<close>

fun write_rows :: "(nat \<times> ('k list \<Rightarrow> (py_error, 'k list) result)) list \<Rightarrow> 'k list list \<Rightarrow>
    'k list list \<times> (py_error, unit) result" where
  "write_rows [] rows = (rows, Inr ())"
| "write_rows ((i, f) # ws) rows =
     (if length rows \<le> i then (rows, Inl IndexError)
      else case f (rows ! i) of
          Inl e \<Rightarrow> (rows, Inl e)
        | Inr row \<Rightarrow> write_rows ws (rows[i := row]))"

definition on_talker :: "('k list list \<Rightarrow> 'k list list \<times> (py_error, 'r) result) \<Rightarrow> ('e, 'k) kv_pool \<Rightarrow>
    ('e, 'k) kv_pool \<times> (py_error, 'r) result" where
  "on_talker f p =
     (case kp_talker p of
        None \<Rightarrow> (p, Inl not_preallocated)
      | Some rows \<Rightarrow> (case f rows of (rows', r) \<Rightarrow> (p\<lparr>kp_talker := Some rows'\<rparr>, r)))"

definition on_c2w :: "('k list list \<Rightarrow> 'k list list \<times> (py_error, 'r) result) \<Rightarrow> ('e, 'k) kv_pool \<Rightarrow>
    ('e, 'k) kv_pool \<times> (py_error, 'r) result" where
  "on_c2w f p =
     (case kp_c2w p of
        None \<Rightarrow> (p, Inl not_preallocated)
      | Some rows \<Rightarrow> (case f rows of (rows', r) \<Rightarrow> (p\<lparr>kp_c2w := Some rows'\<rparr>, r)))"

definition scatter_prefill_kv :: "nat \<Rightarrow> 'k list \<Rightarrow> nat \<Rightarrow> ('e, 'k) kv_pool \<Rightarrow> ('e, 'k) kv_pool \<times> (py_error, unit) result" where
  "scatter_prefill_kv i kv seq_len = on_talker (write_rows [(i, assign_cols 0 seq_len (take seq_len kv))])"

definition restore_prefix_batch ::
    "nat list \<Rightarrow> 'k list \<Rightarrow> nat \<Rightarrow> ('e, 'k) kv_pool \<Rightarrow> ('e, 'k) kv_pool \<times> (py_error, unit) result" where
  "restore_prefix_batch ids kv prefix_len =
     on_talker (\<lambda>rows. case write_rows (map (\<lambda>i. (i, assign_cols 0 prefix_len (take prefix_len kv))) ids) rows of
                         (rows', Inr u) \<Rightarrow> (rows', Inr u)
                       | (_, Inl e) \<Rightarrow> (rows, Inl e))"

definition gather_talker_kv :: "nat list \<Rightarrow> nat \<Rightarrow> ('e, 'k) kv_pool \<Rightarrow> (py_error, 'k list list) result" where
  "gather_talker_kv ids max_past_len p =
     (case kp_talker p of
        None \<Rightarrow> Inl not_preallocated
      | Some rows \<Rightarrow> if \<exists>i \<in> set ids. length rows \<le> i then Inl IndexError
                     else Inr (map (\<lambda>i. take max_past_len (rows ! i)) ids))"

definition talker_delta :: "nat \<Rightarrow> nat \<Rightarrow> 'k list \<Rightarrow> 'k list \<Rightarrow> (py_error, 'k list) result" where
  "talker_delta cap orig_pl delta row =
     (if cap \<le> orig_pl \<or> delta = [] then Inr row
      else let write_len = min (length delta) (cap - orig_pl) in
        assign_cols orig_pl write_len (take write_len delta) row)"

definition scatter_talker_kv_delta ::
    "nat list \<Rightarrow> 'k list list \<Rightarrow> nat list \<Rightarrow> ('e, 'k) kv_pool \<Rightarrow> ('e, 'k) kv_pool \<times> (py_error, unit) result" where
  "scatter_talker_kv_delta ids deltas original_past_lens p =
     on_talker (write_rows (map (\<lambda>((i, orig_pl), delta). (i, talker_delta (kp_max_seq_len p) orig_pl delta))
                              (zip (zip ids original_past_lens) deltas))) p"

definition talker_present :: "nat \<Rightarrow> bool \<Rightarrow> nat \<Rightarrow> nat \<Rightarrow> nat \<Rightarrow> 'k list \<Rightarrow> 'k list \<Rightarrow> (py_error, 'k list) result" where
  "talker_present cap uniform padded_past_len n orig_pl present row =
     (let new_total = min (orig_pl + n) cap in
      if new_total \<le> orig_pl then Inr row
      else if uniform \<or> padded_past_len \<le> orig_pl then assign_cols 0 new_total (take new_total present) row
      else case assign_cols 0 orig_pl (take orig_pl present) row of
          Inl e \<Rightarrow> Inl e
        | Inr row1 \<Rightarrow> assign_cols orig_pl (new_total - orig_pl) (take n (drop padded_past_len present)) row1)"

definition scatter_talker_kv ::
    "nat list \<Rightarrow> 'k list list \<Rightarrow> nat list \<Rightarrow> nat \<Rightarrow> nat \<Rightarrow> ('e, 'k) kv_pool \<Rightarrow> ('e, 'k) kv_pool \<times> (py_error, unit) result" where
  "scatter_talker_kv ids present original_past_lens padded_past_len n p =
     on_talker (write_rows (map (\<lambda>((i, orig_pl), kv).
         (i, talker_present (kp_max_seq_len p) (length (remdups original_past_lens) \<le> 1) padded_past_len n orig_pl kv))
       (zip (zip ids original_past_lens) present))) p"

definition right_align :: "nat \<Rightarrow> 'k::zero list \<Rightarrow> 'k list" where
  "right_align width kv = replicate (width - length kv) 0 @ kv"

definition last_cols :: "nat \<Rightarrow> 'k list \<Rightarrow> 'k list" where
  "last_cols n xs = drop (length xs - n) xs"

definition write_c2w_right_aligned :: "nat \<Rightarrow> 'k::zero list \<Rightarrow> ('e, 'k) kv_pool \<Rightarrow> ('e, 'k) kv_pool \<times> (py_error, int) result" where
  "write_c2w_right_aligned i kv =
     on_c2w (\<lambda>rows.
       if length rows \<le> i then (rows, Inl IndexError)
       else let width = length (rows ! i); s_len = min (int (length kv)) (int width - 1) in
         (rows[i := right_align width (last_cols (nat s_len) kv)], Inr s_len))"

definition read_c2w_right_aligned :: "int \<Rightarrow> int \<Rightarrow> ('e, 'k) kv_pool \<Rightarrow> (py_error, 'k list) result" where
  "read_c2w_right_aligned i len p =
     (case kp_c2w p of
        None \<Rightarrow> Inl not_preallocated
      | Some rows \<Rightarrow>
          if i < 0 \<or> int (kp_max_slots p) \<le> i then Inl (ValueError ''slot_id is outside the pool'')
          else let row = rows ! nat i; valid = min (max 0 len) (max 0 (int (length row) - 1)) in
            Inr (last_cols (nat valid) row))"

definition shift_in :: "'k \<Rightarrow> 'k list \<Rightarrow> 'k list" where
  "shift_in f row = (if row = [] then [] else tl row @ [f])"

definition append_c2w_frames :: "nat list \<Rightarrow> 'k list \<Rightarrow> ('e, 'k) kv_pool \<Rightarrow> ('e, 'k) kv_pool \<times> (py_error, unit) result" where
  "append_c2w_frames ids frames =
     on_c2w (\<lambda>rows.
       if \<exists>i \<in> set ids. length rows \<le> i then (rows, Inl IndexError)
       else if length frames \<noteq> length ids \<and> length frames \<noteq> 1 then (rows, Inl (RuntimeError ''shape mismatch''))
       else (fold (\<lambda>(i, f) rs. rs[i := shift_in f (rows ! i)])
               (zip ids (if length frames = length ids then frames else replicate (length ids) (hd frames))) rows, Inr ()))"

section \<open>Snapshots of pooled rows\<close>

definition validate_pooled_state_contract ::
    "int \<Rightarrow> int \<Rightarrow> bool \<Rightarrow> ('e, 'k) kv_pool \<Rightarrow> (py_error, 'e slot_kv_state) result" where
  "validate_pooled_state_contract i expected storage_missing p =
     (if i < 0 \<or> int (kp_max_slots p) \<le> i then Inl (ValueError ''slot_id must be an in-range integer'')
      else if expected < 0 then Inl (ValueError ''allocation epoch must be a non-negative integer'')
      else let s = kp_slots p ! nat i in
        if is_free s \<or> int (allocation_epoch s) \<noteq> expected then Inl (ValueError ''owner mismatch'')
        else if storage_missing then Inl (ValueError ''storage is unavailable'')
        else Inr s)"

text \<open>The bytes counted are those of the history length in \<^emph>\<open>every\<close> row of the pool.\<close>

definition validate_snapshot_budget :: "int option \<Rightarrow> (nat \<times> nat \<times> nat) option \<Rightarrow> nat \<Rightarrow> (py_error, unit) result" where
  "validate_snapshot_budget budget shape valid =
     (case budget of
        None \<Rightarrow> Inr ()
      | Some b \<Rightarrow>
          if b < 0 then Inl (ValueError ''snapshot byte budget must be a non-negative integer'')
          else case shape of
              None \<Rightarrow> Inr ()
            | Some (slots, numel, element_size) \<Rightarrow>
                if b < int (slots * numel * valid * element_size) then Inl (ValueError ''snapshot exceeds byte budget'')
                else Inr ())"

definition snapshot_pooled_talker_kv ::
    "int \<Rightarrow> int \<Rightarrow> int option \<Rightarrow> ('e, 'k) kv_pool \<Rightarrow> (py_error, 'k list option) result" where
  "snapshot_pooled_talker_kv i expected budget p =
     (case validate_pooled_state_contract i expected False p of
        Inl e \<Rightarrow> Inl e
      | Inr s \<Rightarrow>
          (case kp_talker p of
             None \<Rightarrow> (case validate_snapshot_budget budget None 0 of Inl e \<Rightarrow> Inl e | Inr _ \<Rightarrow> Inr None)
           | Some rows \<Rightarrow>
               let row = rows ! nat i in
               if length row < past_len s then Inl (ValueError ''history length is out of range'')
               else case validate_snapshot_budget budget (Some (length rows, kp_talker_numel p, kp_element_size p)) (past_len s) of
                   Inl e \<Rightarrow> Inl e
                 | Inr _ \<Rightarrow> Inr (Some (take (past_len s) row))))"

definition snapshot_pooled_c2w_kv ::
    "int \<Rightarrow> int \<Rightarrow> int option \<Rightarrow> ('e, 'k) kv_pool \<Rightarrow> (py_error, 'k list option) result" where
  "snapshot_pooled_c2w_kv i expected budget p =
     (case validate_pooled_state_contract i expected False p of
        Inl e \<Rightarrow> Inl e
      | Inr s \<Rightarrow>
          let shape = map_option (\<lambda>rows. (length rows, kp_c2w_numel p, kp_element_size p)) (kp_c2w p) in
          if \<not> c2w_pooled s
          then (case validate_snapshot_budget budget shape 0 of Inl e \<Rightarrow> Inl e | Inr _ \<Rightarrow> Inr None)
          else case kp_c2w p of
              None \<Rightarrow> Inl (ValueError ''pooled C2W storage is unavailable'')
            | Some rows \<Rightarrow>
                let row = rows ! nat i in
                if length row < c2w_len s then Inl (ValueError ''history length is out of range'')
                else case validate_snapshot_budget budget shape (c2w_len s) of
                    Inl e \<Rightarrow> Inl e
                  | Inr _ \<Rightarrow> Inr (Some (last_cols (c2w_len s) row)))"

definition restore_pooled_talker_kv ::
    "int \<Rightarrow> 'k::zero list \<Rightarrow> int \<Rightarrow> ('e, 'k) kv_pool \<Rightarrow> ('e, 'k) kv_pool \<times> (py_error, nat) result" where
  "restore_pooled_talker_kv i kv expected p =
     (case validate_pooled_state_contract i expected (kp_talker p = None) p of
        Inl e \<Rightarrow> (p, Inl e)
      | Inr _ \<Rightarrow>
          let rows = the (kp_talker p); width = length (rows ! nat i) in
          if width < length kv then (p, Inl (ValueError ''payload exceeds capacity''))
          else ((map_slot (nat i) (\<lambda>s. s\<lparr>past_len := length kv, sl_tensors := dict_pop ''talker_kv'' (sl_tensors s)\<rparr>) p)
                  \<lparr>kp_talker := Some (rows[nat i := kv @ replicate (width - length kv) 0])\<rparr>, Inr (length kv)))"

definition restore_pooled_c2w_kv ::
    "int \<Rightarrow> 'k::zero list \<Rightarrow> int \<Rightarrow> ('e, 'k) kv_pool \<Rightarrow> ('e, 'k) kv_pool \<times> (py_error, nat) result" where
  "restore_pooled_c2w_kv i kv expected p =
     (case validate_pooled_state_contract i expected (kp_c2w p = None) p of
        Inl e \<Rightarrow> (p, Inl e)
      | Inr _ \<Rightarrow>
          let rows = the (kp_c2w p); width = length (rows ! nat i) in
          if width < length kv then (p, Inl (ValueError ''payload exceeds capacity''))
          else ((map_slot (nat i) (\<lambda>s. s\<lparr>c2w_len := length kv, c2w_pooled := True,
                                          sl_tensors := dict_pop ''c2w_kv'' (sl_tensors s)\<rparr>) p)
                  \<lparr>kp_c2w := Some (rows[nat i := right_align width kv])\<rparr>, Inr (length kv)))"

section \<open>The pool invariant\<close>

text \<open>The free list holds every free slot exactly once; slots and rows keep their number and widths.\<close>

definition pool_ok :: "('e, 'k) kv_pool \<Rightarrow> bool" where
  "pool_ok p \<longleftrightarrow>
     length (kp_slots p) = kp_max_slots p \<and> (\<forall>i < kp_max_slots p. slot_id (kp_slots p ! i) = i) \<and>
     distinct (kp_free p) \<and> set (kp_free p) = {i. i < kp_max_slots p \<and> is_free (kp_slots p ! i)} \<and>
     (\<forall>rows. kp_talker p = Some rows \<longrightarrow> length rows = kp_max_slots p \<and> (\<forall>row \<in> set rows. length row = kp_max_seq_len p)) \<and>
     (\<forall>rows. kp_c2w p = Some rows \<longrightarrow> length rows = kp_max_slots p \<and> (\<forall>row \<in> set rows. length row = kp_window p))"

definition owned :: "('e, 'k) kv_pool \<Rightarrow> nat set" where
  "owned p = {i. i < kp_max_slots p \<and> \<not> is_free (kp_slots p ! i)}"

lemma new_pool_ok: "pool_ok (new_pool now n max_seq window tn cn es pre)"
  by (auto simp: pool_ok_def new_pool_def new_slot_def)

lemma owned_count:
  assumes "pool_ok p"
  shows "free_count p + card (owned p) = kp_max_slots p"
proof -
  have u: "set (kp_free p) \<union> owned p = {..<kp_max_slots p}" and d: "set (kp_free p) \<inter> owned p = {}"
    using assms by (auto simp: pool_ok_def owned_def)
  have "card (set (kp_free p)) + card (owned p) = card {..<kp_max_slots p}"
    using card_Un_disjoint [OF _ _ d] u by (metis finite_Un finite_lessThan)
  moreover have "card (set (kp_free p)) = free_count p"
    using assms distinct_card [of "kp_free p"] by (simp add: pool_ok_def free_count_def del: distinct_card)
  ultimately show ?thesis by simp
qed

lemma used_is_owned: "pool_ok p \<Longrightarrow> used_count p = int (card (owned p))"
  using owned_count [of p] by (simp add: used_count_def free_count_def)

lemma zero_row_ok: "row \<in> set (zero_row i rows) \<Longrightarrow> (\<forall>row \<in> set rows. length row = w) \<Longrightarrow> length row = w"
  unfolding zero_row_def
  by (cases "i < length rows") (auto dest!: set_update_subset_insert [THEN subsetD] simp: list_update_beyond)

lemma zero_row_length [simp]: "length (zero_row i rows) = length rows"
  by (simp add: zero_row_def)

lemma allocate_free:
  assumes "pool_ok p" and "kp_free p \<noteq> []"
  shows "last (kp_free p) < kp_max_slots p" "is_free (kp_slots p ! last (kp_free p))"
    "last (kp_free p) \<notin> set (butlast (kp_free p))" "set (kp_free p) = insert (last (kp_free p)) (set (butlast (kp_free p)))"
proof -
  obtain xs x where x: "kp_free p = xs @ [x]" using assms(2) by (cases "kp_free p" rule: rev_cases) auto
  have "last (kp_free p) \<in> set (kp_free p)" using assms(2) by simp
  then show "last (kp_free p) < kp_max_slots p" "is_free (kp_slots p ! last (kp_free p))"
    using assms(1) unfolding pool_ok_def by blast+
  have "distinct (xs @ [x])" using assms(1) x by (simp add: pool_ok_def)
  then show "last (kp_free p) \<notin> set (butlast (kp_free p))" by (simp add: x)
  show "set (kp_free p) = insert (last (kp_free p)) (set (butlast (kp_free p)))" by (simp add: x)
qed

lemma allocate_spec:
  assumes "pool_ok p" and "allocate now sid p = (p', Some i)"
  shows "pool_ok p' \<and> i < kp_max_slots p \<and> is_free (kp_slots p ! i) \<and> owned p' = insert i (owned p) \<and>
    kp_max_slots p' = kp_max_slots p \<and> allocation_epoch (kp_slots p' ! i) = Suc (allocation_epoch (kp_slots p ! i)) \<and>
    sl_session_id (kp_slots p' ! i) = Some sid \<and> (\<forall>j. j \<noteq> i \<longrightarrow> kp_slots p' ! j = kp_slots p ! j)"
proof -
  have ne: "kp_free p \<noteq> []" and i: "i = last (kp_free p)" and p': "p' = fst (allocate now sid p)"
    using assms(2) by (auto simp: allocate_def Let_def split: if_splits)
  note f = allocate_free [OF assms(1) ne, folded i]
  have len: "length (kp_slots p) = kp_max_slots p" using assms(1) by (simp add: pool_ok_def)
  have slots: "kp_slots p' ! j = (if j = i then (clear_slot (kp_slots p ! i))\<lparr>allocation_epoch := Suc (allocation_epoch (kp_slots p ! i)),
      sl_session_id := Some sid, is_free := False, last_active_time := now\<rparr> else kp_slots p ! j)" for j
    using ne f(1) len by (simp add: p' allocate_def Let_def map_slot_def i nth_list_update)
  have rest: "length (kp_slots p') = kp_max_slots p" "kp_max_slots p' = kp_max_slots p" "kp_free p' = butlast (kp_free p)"
    "kp_talker p' = map_option (zero_row i) (kp_talker p)" "kp_c2w p' = map_option (zero_row i) (kp_c2w p)"
    "kp_max_seq_len p' = kp_max_seq_len p" "kp_window p' = kp_window p"
    using ne len by (simp_all add: p' allocate_def Let_def map_slot_def i)
  have fs: "set (butlast (kp_free p)) = {j. j < kp_max_slots p \<and> is_free (kp_slots p' ! j)}"
  proof -
    have "set (butlast (kp_free p)) = set (kp_free p) - {i}" using f(3,4) by blast
    also have "\<dots> = {j. j < kp_max_slots p \<and> is_free (kp_slots p ! j)} - {i}" using assms(1) by (simp add: pool_ok_def)
    also have "\<dots> = {j. j < kp_max_slots p \<and> is_free (kp_slots p' ! j)}" by (auto simp: slots)
    finally show ?thesis .
  qed
  have "pool_ok p'"
    unfolding pool_ok_def rest fs
    using assms(1) by (auto simp: pool_ok_def slots clear_slot_def distinct_butlast dest: zero_row_ok)
  moreover have "owned p' = insert i (owned p)"
    using f(1) by (auto simp: owned_def rest slots)
  ultimately show ?thesis using f(1,2) rest by (simp add: slots)
qed

lemma allocate_none: "allocate now sid p = (p', None) \<Longrightarrow> p' = p \<and> free_count p = 0"
  by (auto simp: allocate_def free_count_def Let_def split: if_splits)

lemma release_spec:
  assumes "pool_ok p" and "release i expected p = (p', r)"
  shows "pool_ok p' \<and> kp_max_slots p' = kp_max_slots p \<and> (\<forall>j. allocation_epoch (kp_slots p' ! j) = allocation_epoch (kp_slots p ! j)) \<and>
    (r = Inr () \<longrightarrow> owned p' = owned p - {i}) \<and> (r \<noteq> Inr () \<longrightarrow> p' = p) \<and> (\<forall>j. j \<noteq> i \<longrightarrow> kp_slots p' ! j = kp_slots p ! j)"
proof (cases "r = Inr () \<and> \<not> is_free (kp_slots p ! i)")
  case False
  then show ?thesis using assms by (auto simp: release_def owned_def split: if_splits)
next
  case True
  have len: "length (kp_slots p) = kp_max_slots p" using assms(1) by (simp add: pool_ok_def)
  have i: "i < kp_max_slots p" and p': "p' = (map_slot i (\<lambda>s. (clear_slot s)\<lparr>sl_session_id := None, is_free := True\<rparr>) p)\<lparr>kp_free := kp_free p @ [i]\<rparr>"
    using assms(2) True len by (auto simp: release_def split: if_splits)
  have slots: "kp_slots p' ! j = (if j = i then (clear_slot (kp_slots p ! i))\<lparr>sl_session_id := None, is_free := True\<rparr>
      else kp_slots p ! j)" for j
    using i len by (simp add: p' map_slot_def nth_list_update)
  have rest: "length (kp_slots p') = kp_max_slots p" "kp_max_slots p' = kp_max_slots p" "kp_free p' = kp_free p @ [i]"
    "kp_talker p' = kp_talker p" "kp_c2w p' = kp_c2w p" "kp_max_seq_len p' = kp_max_seq_len p" "kp_window p' = kp_window p"
    using len by (simp_all add: p' map_slot_def)
  have "i \<notin> set (kp_free p)" using True assms(1) by (simp add: pool_ok_def)
  then have "pool_ok p'"
    unfolding pool_ok_def rest using assms(1) i by (auto simp: pool_ok_def slots clear_slot_def)
  then show ?thesis using True rest by (auto simp: slots owned_def clear_slot_def)
qed
section \<open>Runs of pool operations\<close>

datatype 'k pool_op =
    PAllocate rat string
  | PRelease nat "nat option"
  | PForceEvict nat
  | PTouch rat nat
  | PResetSegment nat
  | PScatterPrefill nat "'k list" nat
  | PRestorePrefix "nat list" "'k list" nat
  | PTalkerDelta "nat list" "'k list list" "nat list"
  | PTalkerPresent "nat list" "'k list list" "nat list" nat nat
  | PWriteC2w nat "'k list"
  | PAppendC2w "nat list" "'k list"
  | PRestoreTalker int "'k list" int
  | PRestoreC2w int "'k list" int

fun pool_exec :: "'k::zero pool_op \<Rightarrow> ('e, 'k) kv_pool \<Rightarrow> ('e, 'k) kv_pool" where
  "pool_exec (PAllocate now sid) p = fst (allocate now sid p)"
| "pool_exec (PRelease i e) p = fst (release i e p)"
| "pool_exec (PForceEvict i) p = fst (force_evict i p)"
| "pool_exec (PTouch now i) p = map_slot i (touch now) p"
| "pool_exec (PResetSegment i) p = map_slot i reset_for_new_segment p"
| "pool_exec (PScatterPrefill i kv n) p = fst (scatter_prefill_kv i kv n p)"
| "pool_exec (PRestorePrefix ids kv n) p = fst (restore_prefix_batch ids kv n p)"
| "pool_exec (PTalkerDelta ids ds lens) p = fst (scatter_talker_kv_delta ids ds lens p)"
| "pool_exec (PTalkerPresent ids kvs lens padded n) p = fst (scatter_talker_kv ids kvs lens padded n p)"
| "pool_exec (PWriteC2w i kv) p = fst (write_c2w_right_aligned i kv p)"
| "pool_exec (PAppendC2w ids fs) p = fst (append_c2w_frames ids fs p)"
| "pool_exec (PRestoreTalker i kv e) p = fst (restore_pooled_talker_kv i kv e p)"
| "pool_exec (PRestoreC2w i kv e) p = fst (restore_pooled_c2w_kv i kv e p)"

text \<open>The slot an operation hands out.\<close>

fun handed_out :: "'k::zero pool_op \<Rightarrow> ('e, 'k) kv_pool \<Rightarrow> nat option" where
  "handed_out (PAllocate now sid) p = snd (allocate now sid p)"
| "handed_out _ p = None"

fun reallocated :: "nat \<Rightarrow> 'k::zero pool_op list \<Rightarrow> ('e, 'k) kv_pool \<Rightarrow> bool" where
  "reallocated i [] p = False"
| "reallocated i (op # ops) p = (handed_out op p = Some i \<or> reallocated i ops (pool_exec op p))"

text \<open>Owners, epochs and the shape of the rows in one view.\<close>

definition same_owners :: "('e, 'k) kv_pool \<Rightarrow> ('e, 'k) kv_pool \<Rightarrow> bool" where
  "same_owners p p' \<longleftrightarrow>
     length (kp_slots p') = length (kp_slots p) \<and> kp_free p' = kp_free p \<and> kp_max_slots p' = kp_max_slots p \<and>
     kp_max_seq_len p' = kp_max_seq_len p \<and> kp_window p' = kp_window p \<and>
     (\<forall>j. slot_id (kp_slots p' ! j) = slot_id (kp_slots p ! j) \<and> is_free (kp_slots p' ! j) = is_free (kp_slots p ! j) \<and>
          allocation_epoch (kp_slots p' ! j) = allocation_epoch (kp_slots p ! j))"

lemma same_owners_map_slot:
  "(\<And>s. slot_id (f s) = slot_id s \<and> is_free (f s) = is_free s \<and> allocation_epoch (f s) = allocation_epoch s) \<Longrightarrow>
   same_owners p (map_slot i f p)"
  by (cases "i < length (kp_slots p)") (auto simp: same_owners_def map_slot_def nth_list_update list_update_beyond)

lemma assign_cols_length: "assign_cols a n src row = Inr row' \<Longrightarrow> a \<le> length row \<Longrightarrow> length row' = length row"
  by (auto simp: assign_cols_def Let_def split: if_splits)

lemma write_rows_length: "length (fst (write_rows ws rows)) = length rows"
  by (induction ws rows rule: write_rows.induct) (auto split: sum.splits)

definition keeps_width :: "nat \<Rightarrow> ('k list \<Rightarrow> (py_error, 'k list) result) \<Rightarrow> bool" where
  "keeps_width w f \<longleftrightarrow> (\<forall>row row'. length row = w \<longrightarrow> f row = Inr row' \<longrightarrow> length row' = w)"

lemma write_rows_widths:
  "(\<forall>x \<in> set ws. keeps_width w (snd x)) \<Longrightarrow>
   (\<forall>row \<in> set rows. length row = w) \<Longrightarrow> (\<forall>row \<in> set (fst (write_rows ws rows)). length row = w)"
proof (induction ws rows rule: write_rows.induct)
  case (2 i f ws rows)
  show ?case
  proof (cases "length rows \<le> i")
    case False
    show ?thesis
    proof (cases "f (rows ! i)")
      case (Inr row)
      have "length (rows ! i) = w" using 2(3) False by simp
      then have r: "length row = w" using 2(2) Inr by (simp add: keeps_width_def)
      have "\<forall>x \<in> set (rows[i := row]). length x = w"
        using 2(3) r set_update_subset_insert [of rows i row] by auto
      then have "\<forall>x \<in> set (fst (write_rows ws (rows[i := row]))). length x = w"
        by (intro 2(1) [OF False Inr]) (use 2(2) in simp_all)
      then show ?thesis using False Inr by simp
    qed (use 2(3) False in simp)
  qed (use 2(3) in simp)
qed simp

lemma talker_delta_width: "keeps_width cap (talker_delta cap pl d)"
  unfolding keeps_width_def
  by (auto simp: talker_delta_def Let_def split: if_splits dest: assign_cols_length)

lemma talker_present_width: "keeps_width cap (talker_present cap u padded n pl kv)"
  unfolding keeps_width_def
  by (auto simp: talker_present_def Let_def split: if_splits sum.splits dest!: assign_cols_length)

definition widths_ok :: "nat \<Rightarrow> nat \<Rightarrow> 'k list list option \<Rightarrow> bool" where
  "widths_ok n w rs \<longleftrightarrow> (\<forall>rows. rs = Some rows \<longrightarrow> length rows = n \<and> (\<forall>row \<in> set rows. length row = w))"

lemma pool_ok_widths:
  "pool_ok p \<longleftrightarrow>
     length (kp_slots p) = kp_max_slots p \<and> (\<forall>i < kp_max_slots p. slot_id (kp_slots p ! i) = i) \<and>
     distinct (kp_free p) \<and> set (kp_free p) = {i. i < kp_max_slots p \<and> is_free (kp_slots p ! i)} \<and>
     widths_ok (kp_max_slots p) (kp_max_seq_len p) (kp_talker p) \<and> widths_ok (kp_max_slots p) (kp_window p) (kp_c2w p)"
  by (simp add: pool_ok_def widths_ok_def)

lemma same_owners_ok:
  "pool_ok p \<Longrightarrow> same_owners p p' \<Longrightarrow> widths_ok (kp_max_slots p) (kp_max_seq_len p) (kp_talker p') \<Longrightarrow>
   widths_ok (kp_max_slots p) (kp_window p) (kp_c2w p') \<Longrightarrow> pool_ok p'"
  by (simp add: pool_ok_widths same_owners_def)

lemma widths_ok_update:
  "widths_ok n w (Some rows) \<Longrightarrow> length row = w \<Longrightarrow> widths_ok n w (Some (rows[i := row]))"
  unfolding widths_ok_def using set_update_subset_insert [of rows i row] by auto

lemma on_talker_ok:
  assumes "pool_ok p"
    and "\<And>rows. kp_talker p = Some rows \<Longrightarrow> widths_ok (kp_max_slots p) (kp_max_seq_len p) (Some (fst (f rows)))"
  shows "pool_ok (fst (on_talker f p)) \<and> same_owners p (fst (on_talker f p))"
proof (cases "kp_talker p")
  case (Some rows)
  have so: "same_owners p (fst (on_talker f p))"
    by (simp add: on_talker_def Some same_owners_def split: prod.split)
  moreover have "kp_talker (fst (on_talker f p)) = Some (fst (f rows))" "kp_c2w (fst (on_talker f p)) = kp_c2w p"
    by (simp_all add: on_talker_def Some split: prod.split)
  ultimately show ?thesis using same_owners_ok [OF assms(1) so] assms(2) [OF Some] assms(1) by (simp add: pool_ok_widths)
qed (use assms(1) in \<open>simp add: on_talker_def same_owners_def\<close>)

lemma on_c2w_ok:
  assumes "pool_ok p"
    and "\<And>rows. kp_c2w p = Some rows \<Longrightarrow> widths_ok (kp_max_slots p) (kp_window p) (Some (fst (f rows)))"
  shows "pool_ok (fst (on_c2w f p)) \<and> same_owners p (fst (on_c2w f p))"
proof (cases "kp_c2w p")
  case (Some rows)
  have so: "same_owners p (fst (on_c2w f p))"
    by (simp add: on_c2w_def Some same_owners_def split: prod.split)
  moreover have "kp_c2w (fst (on_c2w f p)) = Some (fst (f rows))" "kp_talker (fst (on_c2w f p)) = kp_talker p"
    by (simp_all add: on_c2w_def Some split: prod.split)
  ultimately show ?thesis using same_owners_ok [OF assms(1) so] assms(2) [OF Some] assms(1) by (simp add: pool_ok_widths)
qed (use assms(1) in \<open>simp add: on_c2w_def same_owners_def\<close>)

lemma write_rows_ok:
  "(\<forall>x \<in> set ws. keeps_width w (snd x)) \<Longrightarrow>
   widths_ok n w (Some rows) \<Longrightarrow> widths_ok n w (Some (fst (write_rows ws rows)))"
  using write_rows_widths [of ws w rows] by (simp add: widths_ok_def write_rows_length)

lemma assign_front_width: "keeps_width w (assign_cols 0 n src)"
  by (simp add: keeps_width_def assign_cols_length)

lemma append_fold_ok:
  "widths_ok n w (Some rs) \<Longrightarrow> (\<forall>(i, f) \<in> set ws. length (g f i) = w) \<Longrightarrow>
   widths_ok n w (Some (fold (\<lambda>(i, f) rs. rs[i := g f i]) ws rs))"
  by (induction ws arbitrary: rs) (auto intro: widths_ok_update)

lemma shift_in_length [simp]: "length (shift_in f row) = length row"
  by (simp add: shift_in_def)

lemma right_align_length: "length kv \<le> w \<Longrightarrow> length (right_align w kv) = w"
  by (simp add: right_align_def)

lemma last_cols_length [simp]: "length (last_cols n xs) = min n (length xs)"
  by (simp add: last_cols_def)

lemma row_width: "widths_ok n w (Some rows) \<Longrightarrow> i < n \<Longrightarrow> length (rows ! i) = w"
  by (simp add: widths_ok_def)

lemma talker_ops_ok:
  assumes "pool_ok p"
  shows "pool_ok (fst (scatter_prefill_kv i kv n p)) \<and> same_owners p (fst (scatter_prefill_kv i kv n p))"
    and "pool_ok (fst (restore_prefix_batch ids kv n p)) \<and> same_owners p (fst (restore_prefix_batch ids kv n p))"
    and "pool_ok (fst (scatter_talker_kv_delta ids ds lens p)) \<and> same_owners p (fst (scatter_talker_kv_delta ids ds lens p))"
    and "pool_ok (fst (scatter_talker_kv ids ds lens padded n p)) \<and> same_owners p (fst (scatter_talker_kv ids ds lens padded n p))"
proof -
  have w: "widths_ok (kp_max_slots p) (kp_max_seq_len p) (Some rows)" if "kp_talker p = Some rows" for rows
    using assms that by (simp add: pool_ok_widths)
  show "pool_ok (fst (scatter_prefill_kv i kv n p)) \<and> same_owners p (fst (scatter_prefill_kv i kv n p))"
    unfolding scatter_prefill_kv_def by (intro on_talker_ok assms write_rows_ok w) (simp add: assign_front_width)
  show "pool_ok (fst (scatter_talker_kv_delta ids ds lens p)) \<and> same_owners p (fst (scatter_talker_kv_delta ids ds lens p))"
    unfolding scatter_talker_kv_delta_def
    by (intro on_talker_ok assms write_rows_ok w) (auto simp: talker_delta_width)
  show "pool_ok (fst (scatter_talker_kv ids ds lens padded n p)) \<and> same_owners p (fst (scatter_talker_kv ids ds lens padded n p))"
    unfolding scatter_talker_kv_def
    by (intro on_talker_ok assms write_rows_ok w) (auto simp: talker_present_width)
  have "widths_ok (kp_max_slots p) (kp_max_seq_len p) (Some (fst (case write_rows (map (\<lambda>i. (i, assign_cols 0 n (take n kv))) ids) rows of
      (rows', Inr u) \<Rightarrow> (rows', Inr u) | (_, Inl e) \<Rightarrow> (rows, Inl e))))" if r: "kp_talker p = Some rows" for rows
  proof (cases "write_rows (map (\<lambda>i. (i, assign_cols 0 n (take n kv))) ids) rows")
    case (Pair rows' res)
    have "widths_ok (kp_max_slots p) (kp_max_seq_len p) (Some (fst (rows', res)))"
      unfolding Pair [symmetric] by (rule write_rows_ok [OF _ w [OF r]]) (simp add: assign_front_width)
    then show ?thesis using w [OF r] Pair by (simp split: sum.split)
  qed
  then show "pool_ok (fst (restore_prefix_batch ids kv n p)) \<and> same_owners p (fst (restore_prefix_batch ids kv n p))"
    unfolding restore_prefix_batch_def by (intro on_talker_ok assms)
qed

lemma c2w_ops_ok:
  assumes "pool_ok p"
  shows "pool_ok (fst (write_c2w_right_aligned i kv p)) \<and> same_owners p (fst (write_c2w_right_aligned i kv p))"
    and "pool_ok (fst (append_c2w_frames ids fs p)) \<and> same_owners p (fst (append_c2w_frames ids fs p))"
proof -
  have w: "widths_ok (kp_max_slots p) (kp_window p) (Some rows)" if "kp_c2w p = Some rows" for rows
    using assms that by (simp add: pool_ok_widths)
  show "pool_ok (fst (write_c2w_right_aligned i kv p)) \<and> same_owners p (fst (write_c2w_right_aligned i kv p))"
    unfolding write_c2w_right_aligned_def
  proof (rule on_c2w_ok [OF assms], goal_cases)
    case (1 rows)
    have "i < length rows \<Longrightarrow> length (rows ! i) = kp_window p"
      using w [OF 1] by (simp add: widths_ok_def)
    then show ?case using w [OF 1] by (auto simp: Let_def intro!: widths_ok_update right_align_length)
  qed
  show "pool_ok (fst (append_c2w_frames ids fs p)) \<and> same_owners p (fst (append_c2w_frames ids fs p))"
    unfolding append_c2w_frames_def
  proof (rule on_c2w_ok [OF assms], goal_cases)
    case (1 rows)
    show ?case
    proof (cases "\<exists>i \<in> set ids. length rows \<le> i")
      case False
      then have "length (rows ! j) = kp_window p" if "j \<in> set ids" for j
        using w [OF 1] that by (simp add: widths_ok_def not_le)
      then have "\<forall>(j, f) \<in> set (zip ids gs). length (shift_in f (rows ! j)) = kp_window p" for gs
        by (auto dest: set_zip_leftD)
      then have "widths_ok (kp_max_slots p) (kp_window p) (Some (fold (\<lambda>(i, f) rs. rs[i := shift_in f (rows ! i)]) (zip ids gs) rows))" for gs
        by (rule append_fold_ok [OF w [OF 1]])
      then show ?thesis using False w [OF 1] by simp
    qed (use w [OF 1] in simp)
  qed
qed

lemma contract_slot:
  "validate_pooled_state_contract i e b p = Inr s \<Longrightarrow> nat i < kp_max_slots p \<and> 0 \<le> i \<and> \<not> b \<and> s = kp_slots p ! nat i \<and>
     \<not> is_free s \<and> e = int (allocation_epoch s)"
  by (auto simp: validate_pooled_state_contract_def Let_def split: if_splits)

lemma restore_ops_ok:
  assumes "pool_ok p"
  shows "pool_ok (fst (restore_pooled_talker_kv i kv e p)) \<and> same_owners p (fst (restore_pooled_talker_kv i kv e p))"
    and "pool_ok (fst (restore_pooled_c2w_kv i kv e p)) \<and> same_owners p (fst (restore_pooled_c2w_kv i kv e p))"
proof -
  have refl: "same_owners p p" by (simp add: same_owners_def)
  show "pool_ok (fst (restore_pooled_talker_kv i kv e p)) \<and> same_owners p (fst (restore_pooled_talker_kv i kv e p))"
  proof (cases "validate_pooled_state_contract i e (kp_talker p = None) p")
    case (Inr s)
    then obtain rows where r: "kp_talker p = Some rows" using contract_slot [OF Inr] by auto
    let ?f = "\<lambda>s. s\<lparr>past_len := length kv, sl_tensors := dict_pop ''talker_kv'' (sl_tensors s)\<rparr>"
    have w: "widths_ok (kp_max_slots p) (kp_max_seq_len p) (Some rows)" using assms r by (simp add: pool_ok_widths)
    have so: "same_owners p (map_slot (nat i) ?f p)" by (rule same_owners_map_slot) simp
    let ?q = "(map_slot (nat i) ?f p)\<lparr>kp_talker := Some (rows[nat i := kv @ replicate (length (rows ! nat i) - length kv) 0])\<rparr>"
    have so': "same_owners p ?q" using so by (simp add: same_owners_def)
    have "pool_ok ?q" if "length kv \<le> length (rows ! nat i)"
      using that row_width [OF w] contract_slot [OF Inr] assms
      by (intro same_owners_ok [OF assms so']) (auto simp: pool_ok_widths map_slot_def intro!: widths_ok_update w)
    then show ?thesis using so' refl assms Inr by (simp add: restore_pooled_talker_kv_def r Let_def)
  qed (use assms refl in \<open>simp add: restore_pooled_talker_kv_def\<close>)
  show "pool_ok (fst (restore_pooled_c2w_kv i kv e p)) \<and> same_owners p (fst (restore_pooled_c2w_kv i kv e p))"
  proof (cases "validate_pooled_state_contract i e (kp_c2w p = None) p")
    case (Inr s)
    then obtain rows where r: "kp_c2w p = Some rows" using contract_slot [OF Inr] by auto
    let ?f = "\<lambda>s. s\<lparr>c2w_len := length kv, c2w_pooled := True, sl_tensors := dict_pop ''c2w_kv'' (sl_tensors s)\<rparr>"
    have w: "widths_ok (kp_max_slots p) (kp_window p) (Some rows)" using assms r by (simp add: pool_ok_widths)
    have so: "same_owners p (map_slot (nat i) ?f p)" by (rule same_owners_map_slot) simp
    let ?q = "(map_slot (nat i) ?f p)\<lparr>kp_c2w := Some (rows[nat i := right_align (length (rows ! nat i)) kv])\<rparr>"
    have so': "same_owners p ?q" using so by (simp add: same_owners_def)
    have "pool_ok ?q" if "length kv \<le> length (rows ! nat i)"
      using that row_width [OF w] contract_slot [OF Inr] assms
      by (intro same_owners_ok [OF assms so']) (auto simp: pool_ok_widths map_slot_def right_align_length intro!: widths_ok_update w)
    then show ?thesis using so' refl assms Inr by (simp add: restore_pooled_c2w_kv_def r Let_def)
  qed (use assms refl in \<open>simp add: restore_pooled_c2w_kv_def\<close>)
qed

lemma map_slot_ok:
  assumes "pool_ok p" and "\<And>s. slot_id (f s) = slot_id s \<and> is_free (f s) = is_free s \<and> allocation_epoch (f s) = allocation_epoch s"
  shows "pool_ok (map_slot i f p) \<and> same_owners p (map_slot i f p)"
  using same_owners_ok [OF assms(1) same_owners_map_slot [OF assms(2)], of i] same_owners_map_slot [OF assms(2), of p i] assms(1)
  by (simp add: pool_ok_widths map_slot_def)

lemma force_evict_release: "fst (force_evict i p) = (if length (kp_slots p) \<le> i then p else fst (release i (Some (allocation_epoch (kp_slots p ! i))) p))"
  by (auto simp: force_evict_def Let_def release_def split: prod.split sum.split)
text \<open>What an operation does to owners and epochs.\<close>

lemma pool_exec_spec:
  assumes "pool_ok p"
  shows "pool_ok (pool_exec op p) \<and> kp_max_slots (pool_exec op p) = kp_max_slots p \<and>
    (\<forall>j. allocation_epoch (kp_slots (pool_exec op p) ! j) =
         allocation_epoch (kp_slots p ! j) + (if handed_out op p = Some j then 1 else 0))"
proof (cases op)
  case (PAllocate now sid)
  obtain p' r where a: "allocate now sid p = (p', r)" by force
  show ?thesis
  proof (cases r)
    case None
    then show ?thesis using allocate_none [of now sid p p'] a assms PAllocate by simp
  next
    case (Some i)
    then show ?thesis using allocate_spec [OF assms, of now sid p' i] a PAllocate by auto
  qed
next
  case (PRelease i e)
  obtain p' r where "release i e p = (p', r)" by force
  then show ?thesis using release_spec [OF assms, of i e p' r] PRelease by simp
next
  case (PForceEvict i)
  obtain p' r where "release i (Some (allocation_epoch (kp_slots p ! i))) p = (p', r)" by force
  then show ?thesis
    using release_spec [OF assms, of i _ p' r] assms PForceEvict by (simp add: force_evict_release)
next
  case (PTouch now i)
  then show ?thesis using map_slot_ok [OF assms, of "touch now" i] by (simp add: touch_def same_owners_def)
next
  case (PResetSegment i)
  then show ?thesis
    using map_slot_ok [OF assms, of reset_for_new_segment i] by (simp add: reset_for_new_segment_def same_owners_def)
qed (use talker_ops_ok [OF assms] c2w_ops_ok [OF assms] restore_ops_ok [OF assms] in \<open>simp_all add: same_owners_def\<close>)

interpretation pool: op_system pool_exec pool_ok
  by unfold_locales (simp add: pool_exec_spec)

lemma run_epoch:
  "pool_ok p \<Longrightarrow> allocation_epoch (kp_slots p ! i) \<le> allocation_epoch (kp_slots (fold pool_exec ops p) ! i) \<and>
     (reallocated i ops p \<longleftrightarrow> allocation_epoch (kp_slots p ! i) \<noteq> allocation_epoch (kp_slots (fold pool_exec ops p) ! i)) \<and>
     kp_max_slots (fold pool_exec ops p) = kp_max_slots p"
proof (induction ops arbitrary: p)
  case (Cons op ops)
  note s = pool_exec_spec [OF Cons.prems, of op]
  have "pool_ok (pool_exec op p)" using s by blast
  from Cons.IH [OF this] show ?case using s by (cases "handed_out op p = Some i") auto
qed simp

text \<open>
  C24. The allocation epoch protects a slot against a late owner. A client is handed slot \<open>i\<close> and
  remembers the epoch; after any further pool operations it releases with that epoch. If the slot was
  handed out again in the meantime, the release raises and leaves the pool as it is; otherwise it
  succeeds, the slot is free afterwards, and no other slot changes owner. In both cases every other
  slot is untouched, and the free list keeps holding each free slot exactly once.
\<close>

theorem stale_release_is_harmless:
  assumes "pool_ok p" and "allocate now sid p = (p1, Some i)"
    and "release i (Some (allocation_epoch (kp_slots p1 ! i))) (fold pool_exec ops p1) = (p3, r)"
  shows "(reallocated i ops p1 \<longrightarrow> r = Inl (ValueError ''allocation epoch mismatch'') \<and> p3 = fold pool_exec ops p1) \<and>
    (\<not> reallocated i ops p1 \<longrightarrow> r = Inr () \<and> owned p3 = owned (fold pool_exec ops p1) - {i}) \<and>
    (\<forall>j. j \<noteq> i \<longrightarrow> kp_slots p3 ! j = kp_slots (fold pool_exec ops p1) ! j) \<and>
    pool_ok p3 \<and> free_count p3 + card (owned p3) = kp_max_slots p"
proof -
  note a = allocate_spec [OF assms(1,2)]
  then have ok1: "pool_ok p1" by blast
  have ok2: "pool_ok (fold pool_exec ops p1)" by (rule pool.run_inv [OF ok1])
  note e = run_epoch [OF ok1, of i ops]
  note rel = release_spec [OF ok2 assms(3)]
  have "length (kp_slots (fold pool_exec ops p1)) = kp_max_slots p" using ok2 e a by (simp add: pool_ok_def)
  then have i: "i < length (kp_slots (fold pool_exec ops p1))" using a by simp
  have "r = Inl (ValueError ''allocation epoch mismatch'')" if "reallocated i ops p1"
    using that e assms(3) i by (auto simp: release_def split: if_splits)
  moreover have "r = Inr ()" if "\<not> reallocated i ops p1"
    using that e assms(3) i by (auto simp: release_def split: if_splits)
  ultimately show ?thesis using rel owned_count [of p3] e a by auto
qed

section \<open>The Code2Wav window\<close>

lemma last_cols_shift:
  "m < length row \<Longrightarrow> last_cols (Suc m) (shift_in f row) = last_cols m row @ [f]"
  by (cases row) (auto simp: last_cols_def shift_in_def Suc_diff_le)

lemma last_cols_append: "last_cols (Suc m) (h @ [f]) = last_cols m h @ [f]"
  by (simp add: last_cols_def Suc_diff_le)

lemma last_cols_last_cols: "m \<le> n \<Longrightarrow> last_cols m (last_cols n xs) = last_cols m xs"
proof -
  assume "m \<le> n"
  then have "length xs - (length xs - n) - m + (length xs - n) = length xs - m" by simp
  then show ?thesis by (simp add: last_cols_def)
qed

lemma last_cols_right_align: "length kv \<le> w \<Longrightarrow> m \<le> length kv \<Longrightarrow> last_cols m (right_align w kv) = last_cols m kv"
  by (simp add: last_cols_def right_align_def)

text \<open>The last columns of a row are the last frames of a history.\<close>

definition holds_history :: "nat \<Rightarrow> 'k list \<Rightarrow> 'k list \<Rightarrow> bool" where
  "holds_history cap row h \<longleftrightarrow> last_cols (min (length h) cap) row = last_cols cap h"

lemma holds_history_shift:
  assumes "holds_history cap row h" and "cap < length row"
  shows "holds_history cap (shift_in f row) (h @ [f])"
proof (cases cap)
  case (Suc m)
  let ?k = "min (length h) m"
  have e: "min (length (h @ [f])) cap = Suc ?k" using Suc by simp
  have h: "last_cols (min (length h) (Suc m)) row = last_cols (Suc m) h"
    using assms(1) by (simp add: holds_history_def Suc)
  have "last_cols ?k row = last_cols ?k (last_cols (min (length h) (Suc m)) row)"
    by (simp add: last_cols_last_cols)
  also have "\<dots> = last_cols ?k h" by (simp add: h last_cols_last_cols)
  also have "\<dots> = last_cols m h" by (simp add: last_cols_def min_def)
  finally have "last_cols ?k row = last_cols m h" .
  moreover have "?k < length row" using assms(2) Suc by simp
  ultimately show ?thesis unfolding holds_history_def e by (simp add: last_cols_shift Suc last_cols_append)
qed (simp add: holds_history_def last_cols_def)
text \<open>The frames that a run of operations appends to slot \<open>i\<close>.\<close>

fun frames_to :: "nat \<Rightarrow> 'k pool_op \<Rightarrow> 'k list" where
  "frames_to i (PAppendC2w ids fs) = map snd (filter (\<lambda>(j, _). j = i) (zip ids fs))"
| "frames_to i _ = []"

text \<open>
  The operations that may run while slot \<open>i\<close> decodes: a batch names each slot once, has one frame per
  slot and only slots of the pool; nothing else writes the row of slot \<open>i\<close>.
\<close>

fun decode_allowed :: "nat \<Rightarrow> 'k::zero pool_op \<Rightarrow> ('e, 'k) kv_pool \<Rightarrow> bool" where
  "decode_allowed i (PAppendC2w ids fs) p = (distinct ids \<and> length fs = length ids \<and> (\<forall>j \<in> set ids. j < kp_max_slots p))"
| "decode_allowed i (PAllocate now sid) p = (snd (allocate now sid p) \<noteq> Some i)"
| "decode_allowed i (PWriteC2w j kv) p = (j \<noteq> i)"
| "decode_allowed i (PRestoreC2w j kv e) p = (nat j \<noteq> i)"
| "decode_allowed i _ p = True"

fun decodes_allowed :: "nat \<Rightarrow> 'k::zero pool_op list \<Rightarrow> ('e, 'k) kv_pool \<Rightarrow> bool" where
  "decodes_allowed i [] p = True"
| "decodes_allowed i (op # ops) p = (decode_allowed i op p \<and> decodes_allowed i ops (pool_exec op p))"

definition c2w_row :: "nat \<Rightarrow> ('e, 'k) kv_pool \<Rightarrow> 'k list option" where
  "c2w_row i p = map_option (\<lambda>rows. rows ! i) (kp_c2w p)"

lemma append_fold_row:
  "distinct ids \<Longrightarrow> length fs = length ids \<Longrightarrow> (\<forall>j \<in> set ids. j < length rs) \<Longrightarrow> i < length rs \<Longrightarrow>
   fold (\<lambda>(j, f) rs. rs[j := shift_in f (rows ! j)]) (zip ids fs) rs ! i =
     (case map snd (filter (\<lambda>(j, _). j = i) (zip ids fs)) of [] \<Rightarrow> rs ! i | f # _ \<Rightarrow> shift_in f (rows ! i)) \<and>
   length (map snd (filter (\<lambda>(j, _). j = i) (zip ids fs))) \<le> 1"
proof (induction ids arbitrary: fs rs)
  case (Cons j ids)
  obtain f gs where fs: "fs = f # gs" "length gs = length ids" using Cons.prems(2) by (cases fs) auto
  have none: "filter (\<lambda>(k, _). k = j) (zip ids gs) = []"
    using Cons.prems(1) by (auto simp: filter_empty_conv dest: set_zip_leftD)
  have "fold (\<lambda>(j, f) rs. rs[j := shift_in f (rows ! j)]) (zip ids gs) (rs[j := shift_in f (rows ! j)]) ! i =
     (case map snd (filter (\<lambda>(k, _). k = i) (zip ids gs)) of [] \<Rightarrow> rs[j := shift_in f (rows ! j)] ! i
      | f # _ \<Rightarrow> shift_in f (rows ! i)) \<and> length (map snd (filter (\<lambda>(k, _). k = i) (zip ids gs))) \<le> 1"
    by (rule Cons.IH) (use Cons.prems fs in auto)
  then show ?case using none Cons.prems by (cases "j = i") (auto simp: fs split: list.splits)
qed simp

lemma append_keeps_history:
  assumes "pool_ok p" and "c2w_row i p = Some row" and "i < kp_max_slots p" and "decode_allowed i (PAppendC2w ids fs) p"
    and "holds_history (kp_window p - 1) row h" and "0 < kp_window p"
  shows "\<exists>row'. c2w_row i (pool_exec (PAppendC2w ids fs) p) = Some row' \<and>
    holds_history (kp_window p - 1) row' (h @ frames_to i (PAppendC2w ids fs))"
proof -
  obtain rows where r: "kp_c2w p = Some rows" "row = rows ! i" using assms(2) by (auto simp: c2w_row_def)
  have w: "widths_ok (kp_max_slots p) (kp_window p) (Some rows)" using assms(1) r by (simp add: pool_ok_widths)
  have len: "length rows = kp_max_slots p" "length row = kp_window p"
    using w row_width [OF w assms(3)] r by (auto simp: widths_ok_def)
  have d: "distinct ids" "length fs = length ids" "\<forall>j \<in> set ids. j < length rows" using assms(4) len by auto
  let ?new = "fold (\<lambda>(j, f) rs. rs[j := shift_in f (rows ! j)]) (zip ids fs) rows"
  have "\<not> (\<exists>j \<in> set ids. length rows \<le> j)" using d(3) by (auto simp: not_le)
  then have q: "c2w_row i (pool_exec (PAppendC2w ids fs) p) = Some (?new ! i)"
    using d(2) by (simp add: append_c2w_frames_def on_c2w_def r c2w_row_def)
  note row = append_fold_row [OF d(1,2,3), of i rows]
  show ?thesis
  proof (cases "frames_to i (PAppendC2w ids fs)")
    case Nil
    then show ?thesis using q row assms(3,5) len r by auto
  next
    case (Cons f gs)
    then have "gs = []" "?new ! i = shift_in f row" using row assms(3) len r by auto
    moreover have "holds_history (kp_window p - 1) (shift_in f row) (h @ [f])"
      by (rule holds_history_shift [OF assms(5)]) (use len assms(6) in simp)
    ultimately show ?thesis using q Cons by auto
  qed
qed

lemma other_ops_keep_row:
  assumes "pool_ok p" and "i < kp_max_slots p" and "decode_allowed i op p" and "\<And>ids fs. op \<noteq> PAppendC2w ids fs"
  shows "c2w_row i (pool_exec op p) = c2w_row i p"
proof (cases op)
  case (PAllocate now sid)
  have "last (kp_free p) \<noteq> i \<or> kp_free p = []"
    using assms(3) PAllocate by (auto simp: allocate_def Let_def split: if_splits)
  then show ?thesis
    by (auto simp: PAllocate allocate_def Let_def c2w_row_def map_slot_def zero_row_def option.map_comp comp_def)
next
  case (PRelease j e)
  then show ?thesis by (simp add: release_def c2w_row_def map_slot_def)
next
  case (PForceEvict j)
  then show ?thesis by (simp add: force_evict_release release_def c2w_row_def map_slot_def)
next
  case (PRestoreC2w j kv e)
  then show ?thesis
    using assms(3) by (auto simp: restore_pooled_c2w_kv_def c2w_row_def map_slot_def Let_def split: sum.split dest!: contract_slot)
next
  case (PRestoreTalker j kv e)
  then show ?thesis by (simp add: restore_pooled_talker_kv_def c2w_row_def map_slot_def Let_def split: sum.split)
next
  case (PWriteC2w j kv)
  then show ?thesis
    using assms(3) by (simp add: write_c2w_right_aligned_def on_c2w_def c2w_row_def Let_def split: option.split)
qed (use assms(4) in \<open>simp_all add: c2w_row_def map_slot_def scatter_prefill_kv_def restore_prefix_batch_def
      scatter_talker_kv_delta_def scatter_talker_kv_def on_talker_def split: option.split prod.split\<close>)

lemma pool_exec_window: "kp_window (pool_exec op p) = kp_window p"
proof (cases op)
  case (PForceEvict j)
  then show ?thesis by (simp add: force_evict_release release_def map_slot_def)
qed (simp_all add: allocate_def release_def map_slot_def Let_def scatter_prefill_kv_def restore_prefix_batch_def
      scatter_talker_kv_delta_def scatter_talker_kv_def write_c2w_right_aligned_def append_c2w_frames_def
      restore_pooled_talker_kv_def restore_pooled_c2w_kv_def on_talker_def on_c2w_def
      split: option.split prod.split sum.split)

lemma run_history:
  "pool_ok p \<Longrightarrow> i < kp_max_slots p \<Longrightarrow> 0 < kp_window p \<Longrightarrow> c2w_row i p = Some row \<Longrightarrow>
   holds_history (kp_window p - 1) row h \<Longrightarrow> decodes_allowed i ops p \<Longrightarrow>
   \<exists>row'. c2w_row i (fold pool_exec ops p) = Some row' \<and> kp_max_slots (fold pool_exec ops p) = kp_max_slots p \<and>
     kp_window (fold pool_exec ops p) = kp_window p \<and> pool_ok (fold pool_exec ops p) \<and>
     holds_history (kp_window p - 1) row' (h @ concat (map (frames_to i) ops))"
proof (induction ops arbitrary: p row h)
  case (Cons op ops)
  note s = pool_exec_spec [OF Cons.prems(1), of op]
  have w: "kp_window (pool_exec op p) = kp_window p" by (rule pool_exec_window)
  have al: "decode_allowed i op p" using Cons.prems(6) by simp
  have "\<exists>row'. c2w_row i (pool_exec op p) = Some row' \<and> holds_history (kp_window p - 1) row' (h @ frames_to i op)"
  proof (cases "\<exists>ids fs. op = PAppendC2w ids fs")
    case True
    then show ?thesis using append_keeps_history [OF Cons.prems(1,4,2) _ Cons.prems(5,3)] al by blast
  next
    case False
    then have "frames_to i op = []" by (cases op) auto
    then show ?thesis using other_ops_keep_row [OF Cons.prems(1,2) al] False Cons.prems(4,5) by auto
  qed
  then obtain row' where r: "c2w_row i (pool_exec op p) = Some row'" "holds_history (kp_window p - 1) row' (h @ frames_to i op)"
    by blast
  have "\<exists>row''. c2w_row i (fold pool_exec ops (pool_exec op p)) = Some row'' \<and>
      kp_max_slots (fold pool_exec ops (pool_exec op p)) = kp_max_slots (pool_exec op p) \<and>
      kp_window (fold pool_exec ops (pool_exec op p)) = kp_window (pool_exec op p) \<and>
      pool_ok (fold pool_exec ops (pool_exec op p)) \<and>
      holds_history (kp_window (pool_exec op p) - 1) row'' ((h @ frames_to i op) @ concat (map (frames_to i) ops))"
    by (rule Cons.IH) (use s w r Cons.prems in auto)
  then show ?case using s w by simp
qed simp

lemma write_holds_history:
  assumes "pool_ok p" and "i < kp_max_slots p" and "kp_c2w p \<noteq> None" and "0 < kp_window p"
  shows "\<exists>row p'. write_c2w_right_aligned i kv p = (p', Inr (int (min (length kv) (kp_window p - 1)))) \<and>
    c2w_row i p' = Some row \<and> holds_history (kp_window p - 1) row kv \<and> kp_window p' = kp_window p"
proof -
  obtain rows where r: "kp_c2w p = Some rows" using assms(3) by auto
  have w: "widths_ok (kp_max_slots p) (kp_window p) (Some rows)" using assms(1) r by (simp add: pool_ok_widths)
  have len: "length rows = kp_max_slots p" "length (rows ! i) = kp_window p"
    using w row_width [OF w assms(2)] by (auto simp: widths_ok_def)
  let ?n = "min (length kv) (kp_window p - 1)"
  have n: "min (int (length kv)) (int (kp_window p) - 1) = int ?n" using assms(4) by (simp add: of_nat_diff)
  let ?row = "right_align (kp_window p) (last_cols ?n kv)"
  have "last_cols ?n ?row = last_cols ?n (last_cols ?n kv)" by (rule last_cols_right_align) auto
  also have "\<dots> = last_cols (kp_window p - 1) kv" by (simp add: last_cols_def min_def)
  finally have "holds_history (kp_window p - 1) ?row kv" by (simp add: holds_history_def)
  then show ?thesis
    using assms(2) len by (simp add: write_c2w_right_aligned_def on_c2w_def r Let_def n c2w_row_def)
qed

text \<open>
  C25. The right-aligned Code2Wav rows are a sliding window over the frame history. After a prefill has
  stored its frames \<open>kv\<close> in slot \<open>i\<close>, let any operations run on the pool that decoding slot \<open>i\<close> allows:
  batched appends to this slot and to others, allocations, releases, evictions and restores of other
  slots. Then the stored length is the history length up to the window, and reading that many frames
  returns exactly the most recent frames of \<open>kv\<close> followed by all frames appended to slot \<open>i\<close>: the value
  of the per-slot layout that concatenates every frame and crops to the window.
\<close>

theorem c2w_row_is_recent_history:
  assumes "pool_ok p" and "i < kp_max_slots p" and "kp_c2w p \<noteq> None" and "0 < kp_window p"
    and "write_c2w_right_aligned i kv p = (p1, r)" and "decodes_allowed i ops p1"
  defines "history \<equiv> kv @ concat (map (frames_to i) ops)"
  shows "r = Inr (int (min (length kv) (kp_window p - 1))) \<and>
    read_c2w_right_aligned (int i) (int (min (length history) (kp_window p - 1))) (fold pool_exec ops p1) =
      Inr (last_cols (kp_window p - 1) history)"
proof -
  obtain row where w: "r = Inr (int (min (length kv) (kp_window p - 1)))" "c2w_row i p1 = Some row"
      "holds_history (kp_window p - 1) row kv" "kp_window p1 = kp_window p"
    using write_holds_history [OF assms(1-4), of kv] assms(5) by auto
  have p1: "p1 = fst (write_c2w_right_aligned i kv p)" by (simp add: assms(5))
  have ok: "pool_ok p1" "kp_max_slots p1 = kp_max_slots p"
    using c2w_ops_ok(1) [OF assms(1), of i kv] by (simp_all add: p1 same_owners_def)
  obtain row' where e: "c2w_row i (fold pool_exec ops p1) = Some row'" "kp_max_slots (fold pool_exec ops p1) = kp_max_slots p"
      "kp_window (fold pool_exec ops p1) = kp_window p" "pool_ok (fold pool_exec ops p1)" "holds_history (kp_window p - 1) row' history"
    using run_history [OF ok(1), of i row kv ops] ok w assms(2,4,6) by (auto simp: history_def)
  obtain rows where rows: "kp_c2w (fold pool_exec ops p1) = Some rows" "rows ! i = row'" using e(1) by (auto simp: c2w_row_def)
  have "widths_ok (kp_max_slots p) (kp_window p) (Some rows)" using e(2-4) rows by (simp add: pool_ok_widths)
  then have len: "length row' = kp_window p" using row_width [OF _ assms(2)] rows by blast
  have "min (max 0 (int (min (length history) (kp_window p - 1)))) (max 0 (int (length row') - 1)) =
      int (min (length history) (kp_window p - 1))" using assms(4) len by simp
  then show ?thesis
    using w(1) e(2,5) rows assms(2) by (simp add: read_c2w_right_aligned_def holds_history_def)
qed
section \<open>Snapshots\<close>

lemma zero_budget_ok: "validate_snapshot_budget None shape n = Inr ()"
  by (simp add: validate_snapshot_budget_def)

text \<open>A detached Code2Wav payload restored into any live slot is what a snapshot of that slot returns.\<close>

lemma c2w_snapshot_after_restore:
  assumes "pool_ok p" and "restore_pooled_c2w_kv i kv e p = (p', Inr n)"
  shows "snapshot_pooled_c2w_kv i e None p' = Inr (Some kv) \<and> n = length kv \<and>
    (\<forall>j. j \<noteq> nat i \<longrightarrow> c2w_row j p' = c2w_row j p)"
proof -
  obtain s where v: "validate_pooled_state_contract i e (kp_c2w p = None) p = Inr s"
    using assms(2) by (cases "validate_pooled_state_contract i e (kp_c2w p = None) p") (auto simp: restore_pooled_c2w_kv_def)
  note c = contract_slot [OF v]
  obtain rows where r: "kp_c2w p = Some rows" using c by auto
  have w: "widths_ok (kp_max_slots p) (kp_window p) (Some rows)" using assms(1) r by (simp add: pool_ok_widths)
  have len: "nat i < length rows" "nat i < length (kp_slots p)" using w c assms(1) by (auto simp: widths_ok_def pool_ok_def)
  have kv: "length kv \<le> length (rows ! nat i)" and n: "n = length kv"
    using assms(2) v by (auto simp: restore_pooled_c2w_kv_def r Let_def split: if_splits)
  let ?f = "\<lambda>s. s\<lparr>c2w_len := length kv, c2w_pooled := True, sl_tensors := dict_pop ''c2w_kv'' (sl_tensors s)\<rparr>"
  have p': "p' = (map_slot (nat i) ?f p)\<lparr>kp_c2w := Some (rows[nat i := right_align (length (rows ! nat i)) kv])\<rparr>"
    using assms(2) v kv by (auto simp: restore_pooled_c2w_kv_def r Let_def not_less split: if_splits)
  have "validate_pooled_state_contract i e False p' = Inr (?f s)"
    using v c len by (auto simp: validate_pooled_state_contract_def p' map_slot_def Let_def split: if_splits)
  moreover have "last_cols (length kv) (right_align (length (rows ! nat i)) kv) = kv"
    using last_cols_right_align [OF kv, of "length kv"] by (simp add: last_cols_def)
  ultimately show ?thesis
    using len kv n by (auto simp: snapshot_pooled_c2w_kv_def p' Let_def zero_budget_ok right_align_def c2w_row_def r)
qed

text \<open>
  The byte budget of a snapshot is charged for the row of every slot, although one row is copied: the
  snapshot of a live slot succeeds exactly if the budget covers the whole pool.
\<close>

lemma snapshot_budget_counts_every_slot:
  assumes "pool_ok p" and "kp_talker p = Some rows" and "i < kp_max_slots p" and "\<not> is_free (kp_slots p ! i)"
    and "past_len (kp_slots p ! i) \<le> kp_max_seq_len p" and "0 \<le> b"
  shows "(\<exists>kv. snapshot_pooled_talker_kv (int i) (int (allocation_epoch (kp_slots p ! i))) (Some b) p = Inr (Some kv)) \<longleftrightarrow>
    int (kp_max_slots p * kp_talker_numel p * past_len (kp_slots p ! i) * kp_element_size p) \<le> b"
proof -
  have w: "widths_ok (kp_max_slots p) (kp_max_seq_len p) (Some rows)" using assms(1,2) by (simp add: pool_ok_widths)
  have "length rows = kp_max_slots p" "length (rows ! i) = kp_max_seq_len p"
    using w row_width [OF w assms(3)] by (auto simp: widths_ok_def)
  moreover have "validate_pooled_state_contract (int i) (int (allocation_epoch (kp_slots p ! i))) False p = Inr (kp_slots p ! i)"
    using assms(3,4) by (simp add: validate_pooled_state_contract_def Let_def)
  ultimately show ?thesis
    using assms(2,5,6) by (simp add: snapshot_pooled_talker_kv_def Let_def validate_snapshot_budget_def not_less)
qed

text \<open>
  The shift of a full row moves the frame that leaves the window into the column left of it: the
  columns left of the window do not stay zero. No reader returns that column.
\<close>

lemma frame_left_of_window:
  "hd (shift_in (3 :: int) (right_align 3 [1, 2])) = 1"
  by (simp add: shift_in_def right_align_def)

section \<open>Instances\<close>

definition ex_pool :: "(int, int) kv_pool" where
  "ex_pool = new_pool 0 2 4 3 1 1 2 True"

definition ex_reuse :: "int pool_op list" where
  "ex_reuse = [PRelease 1 None, PAllocate 2 ''late'']"

theorem stale_release_is_harmless_witness:
  "reallocated 1 ex_reuse (fst (allocate 1 ''early'' ex_pool)) \<and>
   release 1 (Some 1) (fold pool_exec ex_reuse (fst (allocate 1 ''early'' ex_pool))) =
     (fold pool_exec ex_reuse (fst (allocate 1 ''early'' ex_pool)), Inl (ValueError ''allocation epoch mismatch''))"
proof -
  let ?p1 = "fst (allocate 1 ''early'' ex_pool)"
  have ok: "pool_ok ex_pool" unfolding ex_pool_def by (rule new_pool_ok)
  have a: "allocate 1 ''early'' ex_pool = (?p1, Some 1)" by (simp add: ex_pool_def new_pool_def allocate_def Let_def upt_rec)
  have e: "allocation_epoch (kp_slots ?p1 ! 1) = 1"
    by (simp add: ex_pool_def new_pool_def allocate_def Let_def upt_rec map_slot_def new_slot_def clear_slot_def)
  have r: "reallocated 1 ex_reuse ?p1"
    by (simp add: ex_reuse_def ex_pool_def new_pool_def allocate_def Let_def upt_rec map_slot_def new_slot_def clear_slot_def release_def)
  obtain p3 r' where rel: "release 1 (Some 1) (fold pool_exec ex_reuse ?p1) = (p3, r')" by force
  show ?thesis
    using stale_release_is_harmless [OF ok a, of ex_reuse p3 r'] rel e r by simp
qed

definition ex_decode :: "int pool_op list" where
  "ex_decode = [PAppendC2w [0, 1] [7, 8], PTouch 5 0, PAppendC2w [1] [9]]"

theorem c2w_row_is_recent_history_witness:
  "read_c2w_right_aligned 1 2 (fold pool_exec ex_decode (fst (write_c2w_right_aligned 1 [4, 5, 6] ex_pool))) = Inr [8, 9]"
proof -
  let ?p1 = "fst (write_c2w_right_aligned 1 [4, 5, 6] ex_pool)"
  have ok: "pool_ok ex_pool" unfolding ex_pool_def by (rule new_pool_ok)
  have s: "kp_max_slots ex_pool = 2" "kp_window ex_pool = 3" "kp_c2w ex_pool \<noteq> None" by (simp_all add: ex_pool_def new_pool_def)
  obtain r where w: "write_c2w_right_aligned 1 [4, 5, 6] ex_pool = (?p1, r)" by (metis prod.collapse)
  have "decodes_allowed 1 ex_decode ?p1"
    by (simp add: ex_decode_def ex_pool_def new_pool_def write_c2w_right_aligned_def on_c2w_def Let_def append_c2w_frames_def map_slot_def numeral_2_eq_2)
  from c2w_row_is_recent_history [OF ok _ s(3) _ w this] show ?thesis
    by (simp add: s ex_decode_def last_cols_def)
qed
end
