(* ===== verification/Engine_Loop.thy ===== *)
theory Engine_Loop
  imports Dispatcher Mlfq Kv_Pool
begin

text \<open>
  The control plane of the engine thread, \<open>engine/backend/engine_loop.py\<close>: session groups and
  segments, the handling of requests, admission to KV slots, the batch of a decode step, the judgement
  of its output, retries, evictions and timeouts.

  The numerical side is supplied: what the executor leaves after a prefill, the rows of a decode step, the
  health of a PCM chunk and the fade of a last chunk are arguments; a vector is kept symbolic. The plan
  of a prompt, \<open>engine/backend/prefill.py\<close>, is built from its head and the reference of a cloned voice. The results sent to
  the sessions' queues are the list \<open>el_out\<close> in the order of sending; every session has a queue, and a
  prompt builder and a preallocated pool are configured. A decode step returns rows for slots of the
  pool, so writing its columns does not raise.

  Left out: the optional continuity extension and the migration of speech states (switched off), log
  lines, timing records and warnings about a reference voice, cursor outputs of a frame, and the values
  that only repeat others in a result (ratios are kept unrounded, messages without their limits).
  Clocks are read once per phase.

  \<open>Engine_Steps\<close> lists elementary steps with their invariants, \<open>Engine_Phases\<close> decomposes the phases
  into them, \<open>Engine_Runs\<close> states the properties of runs.
\<close>

section \<open>Segments, groups and results\<close>

text \<open>
  Embedding vectors are kept symbolic: what matters to the loop is which text token a vector embeds.
  \<open>Codec n\<close> is a vector the executor returned or a frame of the reference voice, \<open>BosEmbed\<close> and
  \<open>CodecPadEmbed\<close> are the codec's begin and pad vectors.
\<close>

datatype embed = TextEmbed int | EosEmbed | PadEmbed | BosEmbed | CodecPadEmbed | Codec nat | Plus embed embed

datatype task_type = VOICE_CLONE_ICL | VOICE_CLONE_XVEC | CUSTOM_VOICE | VOICE_DESIGN

record prefill_plan =
  prefill_embeds :: "embed list"
  plan_trailing :: "embed list"
  cacheable_prefix_embeds :: "embed list option"
  request_prefill_embeds :: "embed list option"

datatype seg_state = PendingPrefill | Active | SegDone | SegError | SegEvicted

datatype audio_health = Audible | Silence | InvalidAudio

record engine_segment =
  es_session_id :: string
  es_segment_idx :: int
  es_slot :: "nat option"
  es_state :: seg_state
  es_priority :: request_priority
  es_input_complete :: bool
  es_prefill_plan :: "prefill_plan option"
  text_tokens_consumed :: nat
  decode_start_frame :: nat
  es_meta :: nat
  pending_token_ids :: "int list"
  deferred_token_ids :: "int list"
  eos_trailing_added :: bool
  first_raw_audio_sent :: bool
  loop_token :: int
  loop_run :: nat
  loop_max_run :: nat
  loop_suspect_count :: nat
  loop_recovery_count :: nat
  es_retry_idx :: nat
  audio_frames_seen :: nat
  audible_frame_seen :: bool
  es_cache_hit :: bool
  cache_tokens_reused :: nat
  max_decode_batch :: nat
  es_cursor_plan :: "cursor_label_plan option"
  cursor_plan_revision :: int
  cursor_progress_disabled :: bool

definition new_segment :: "string \<Rightarrow> int \<Rightarrow> request_priority \<Rightarrow> nat \<Rightarrow> engine_segment" where
  "new_segment sid idx prio meta =
     \<lparr>es_session_id = sid, es_segment_idx = idx, es_slot = None, es_state = PendingPrefill, es_priority = prio,
      es_input_complete = False, es_prefill_plan = None, text_tokens_consumed = 0, decode_start_frame = 0, es_meta = meta,
      pending_token_ids = [], deferred_token_ids = [], eos_trailing_added = False, first_raw_audio_sent = False,
      loop_token = -1, loop_run = 0, loop_max_run = 0, loop_suspect_count = 0, loop_recovery_count = 0,
      es_retry_idx = 0, audio_frames_seen = 0, audible_frame_seen = False, es_cache_hit = False,
      cache_tokens_reused = 0, max_decode_batch = 0, es_cursor_plan = None, cursor_plan_revision = -1,
      cursor_progress_disabled = False\<rparr>"

record engine_group =
  eg_session_id :: string
  eg_segments :: "(int \<times> engine_segment) list"
  input_complete_all :: bool
  eg_created_at :: rat
  overflow_token_ids :: "int list"

definition active_slot_count :: "engine_group \<Rightarrow> nat" where
  "active_slot_count g =
     length (filter (\<lambda>(_, s). es_state s \<in> {PendingPrefill, Active} \<and> es_slot s \<noteq> None) (eg_segments g))"

record eos_metrics =
  mt_audio_steps :: int
  mt_text_tokens :: nat
  mt_overflow :: bool
  mt_eos_reason :: string
  mt_batch_size_seen :: nat
  mt_cache_hit :: bool
  mt_retry_idx :: nat
  mt_audio_frames_seen :: nat
  mt_audible_frame_seen :: bool
  mt_loop_max_run :: nat
  mt_loop_suspect_count :: nat
  mt_loop_recovery_count :: nat
  mt_abort_tail_frames :: "nat option"
  mt_discard_all_audio :: bool
  mt_guard_mode :: string

record retry_metrics =
  rt_retry_idx :: nat
  rt_reason :: string
  rt_audio_steps :: int
  rt_text_tokens :: nat
  rt_loop :: "(string \<times> rat \<times> nat \<times> nat \<times> nat) option"

text \<open>A result with the session it is for. An audio chunk carries its source frames and the token count.\<close>

datatype loop_result =
    PrefillDone string int
  | AudioChunk string int "byte list" "nat \<times> nat \<times> nat"
  | SegmentEnd string int eos_metrics
  | SegmentRetry string int retry_metrics
  | LoopDone string "string option option"
  | LoopError string int string

fun result_session :: "loop_result \<Rightarrow> string" where
  "result_session (PrefillDone sid _) = sid"
| "result_session (AudioChunk sid _ _ _) = sid"
| "result_session (SegmentEnd sid _ _) = sid"
| "result_session (SegmentRetry sid _ _) = sid"
| "result_session (LoopDone sid _) = sid"
| "result_session (LoopError sid _ _) = sid"

section \<open>The loop's state\<close>

record loop_config =
  lc_max_batch :: int
  lc_max_idle_sec :: rat
  lc_max_queue_size :: int
  lc_session_timeout_sec :: rat
  lc_min_pad_steps :: int
  lc_suspect_frames :: nat
  lc_abort_frames :: nat
  lc_min_audio_text_ratio :: rat
  lc_emergency_frames :: nat
  lc_max_retries :: nat
  lc_runaway_ratio :: rat
  lc_max_slots_per_session :: nat
  lc_drain_max :: int
  lc_pcm_health :: "byte list \<Rightarrow> audio_health"

text \<open>The constructor's normalization of the guard thresholds.\<close>

definition new_loop_config ::
    "int \<Rightarrow> rat \<Rightarrow> int \<Rightarrow> rat \<Rightarrow> int \<Rightarrow> int \<Rightarrow> int \<Rightarrow> rat \<Rightarrow> int \<Rightarrow> int \<Rightarrow> rat \<Rightarrow> int \<Rightarrow> int \<Rightarrow>
     (byte list \<Rightarrow> audio_health) \<Rightarrow> loop_config" where
  "new_loop_config max_batch max_idle max_queue timeout min_pad suspect abort ratio emergency retries runaway slots drain pcm =
     (let abort' = nat (max 0 abort); suspect' = nat (max 0 suspect); emergency' = nat (max 0 emergency) in
      \<lparr>lc_max_batch = max_batch, lc_max_idle_sec = max_idle, lc_max_queue_size = max_queue, lc_session_timeout_sec = timeout,
       lc_min_pad_steps = min_pad,
       lc_suspect_frames = (if 0 < suspect' \<and> 0 < abort' then min suspect' abort' else 0),
       lc_abort_frames = abort', lc_min_audio_text_ratio = max 0 ratio,
       lc_emergency_frames = (if 0 < emergency' \<and> 0 < abort' then max emergency' abort' else 0),
       lc_max_retries = nat (max 0 retries), lc_runaway_ratio = max 1 runaway,
       lc_max_slots_per_session = nat (max 1 slots), lc_drain_max = max 1 drain, lc_pcm_health = pcm\<rparr>)"

type_synonym seg_key = "string \<times> int"

record 'k engine_loop =
  el_cfg :: loop_config
  el_inbox :: "engine_request list"
  el_groups :: "(string \<times> engine_group) list"
  el_seg_by_slot :: "(nat \<times> seg_key) list"
  el_pool :: "(embed, 'k) kv_pool"
  el_mlfq :: mlfq_scheduler
  el_next_meta :: nat
  el_defer :: bool
  el_last_eviction_check :: rat
  el_total_steps :: nat
  el_total_prefills :: nat
  el_total_sessions :: nat
  el_total_eos :: nat
  el_total_timeouts :: nat
  el_total_evictions :: nat
  el_out :: "loop_result list"

definition new_loop :: "loop_config \<Rightarrow> mlfq_config option \<Rightarrow> (embed, 'k) kv_pool \<Rightarrow> 'k engine_loop" where
  "new_loop cfg mc pool =
     \<lparr>el_cfg = cfg, el_inbox = [], el_groups = [], el_seg_by_slot = [], el_pool = pool, el_mlfq = new_scheduler mc,
      el_next_meta = 0, el_defer = False, el_last_eviction_check = 0, el_total_steps = 0, el_total_prefills = 0,
      el_total_sessions = 0, el_total_eos = 0, el_total_timeouts = 0, el_total_evictions = 0, el_out = []\<rparr>"

text \<open>
  References to a session group or a segment object are its key; the mutation of an object is the
  update of the entry with that key.
\<close>

definition upd_entry :: "'a \<Rightarrow> ('b \<Rightarrow> 'b) \<Rightarrow> ('a \<times> 'b) list \<Rightarrow> ('a \<times> 'b) list" where
  "upd_entry k f d = map (\<lambda>(k', v). (k', if k' = k then f v else v)) d"

definition seg_of :: "seg_key \<Rightarrow> 'k engine_loop \<Rightarrow> engine_segment option" where
  "seg_of k e = (case map_of (el_groups e) (fst k) of None \<Rightarrow> None | Some g \<Rightarrow> map_of (eg_segments g) (snd k))"

definition upd_group :: "string \<Rightarrow> (engine_group \<Rightarrow> engine_group) \<Rightarrow> 'k engine_loop \<Rightarrow> 'k engine_loop" where
  "upd_group sid f e = e\<lparr>el_groups := upd_entry sid f (el_groups e)\<rparr>"

definition upd_seg :: "seg_key \<Rightarrow> (engine_segment \<Rightarrow> engine_segment) \<Rightarrow> 'k engine_loop \<Rightarrow> 'k engine_loop" where
  "upd_seg k f e = upd_group (fst k) (\<lambda>g. g\<lparr>eg_segments := upd_entry (snd k) f (eg_segments g)\<rparr>) e"

definition upd_slot :: "nat \<Rightarrow> (embed slot_kv_state \<Rightarrow> embed slot_kv_state) \<Rightarrow> 'k engine_loop \<Rightarrow> 'k engine_loop" where
  "upd_slot i f e = e\<lparr>el_pool := map_slot i f (el_pool e)\<rparr>"

definition slot_at :: "nat \<Rightarrow> 'k engine_loop \<Rightarrow> embed slot_kv_state" where
  "slot_at i e = kp_slots (el_pool e) ! i"

definition all_segments :: "'k engine_loop \<Rightarrow> (seg_key \<times> engine_segment) list" where
  "all_segments e = concat (map (\<lambda>(sid, g). map (\<lambda>(idx, s). ((sid, idx), s)) (eg_segments g)) (el_groups e))"

definition send_result :: "loop_result \<Rightarrow> 'k engine_loop \<Rightarrow> 'k engine_loop" where
  "send_result r e = e\<lparr>el_out := el_out e @ [r]\<rparr>"

section \<open>Cleanup\<close>

text \<open>
  The expected epoch is read from the slot itself, so the pool never raises here.
\<close>

definition release_slot_id :: "nat \<Rightarrow> 'k engine_loop \<Rightarrow> 'k engine_loop" where
  "release_slot_id i e =
     e\<lparr>el_pool := fst (release i (Some (allocation_epoch (slot_at i e))) (el_pool e)),
       el_seg_by_slot := dict_pop i (el_seg_by_slot e)\<rparr>"

definition release_segment_slot :: "seg_key \<Rightarrow> 'k engine_loop \<Rightarrow> 'k engine_loop" where
  "release_segment_slot k e =
     (let e1 = upd_seg k (\<lambda>s. s\<lparr>cursor_plan_revision := -1, cursor_progress_disabled := False\<rparr>) e in
      case seg_of k e of
        None \<Rightarrow> e1
      | Some s \<Rightarrow> (case es_slot s of
                     None \<Rightarrow> e1
                   | Some i \<Rightarrow> upd_seg k (\<lambda>s. s\<lparr>es_slot := None\<rparr>) (release_slot_id i e1)))"

definition release_held :: "engine_segment \<Rightarrow> 'k engine_loop \<Rightarrow> 'k engine_loop" where
  "release_held s e = (case es_slot s of None \<Rightarrow> e | Some i \<Rightarrow> release_slot_id i e)"

definition remove_session :: "string \<Rightarrow> 'k engine_loop \<Rightarrow> 'k engine_loop" where
  "remove_session sid e =
     (case map_of (el_groups e) sid of
        None \<Rightarrow> e
      | Some g \<Rightarrow> fold (\<lambda>(_, s). release_held s) (eg_segments g) (e\<lparr>el_groups := dict_pop sid (el_groups e)\<rparr>))"

definition check_session_done :: "string \<Rightarrow> 'k engine_loop \<Rightarrow> 'k engine_loop" where
  "check_session_done sid e =
     (case map_of (el_groups e) sid of
        None \<Rightarrow> e
      | Some g \<Rightarrow>
          if \<not> input_complete_all g then e
          else if overflow_token_ids g \<noteq> [] then e
          else if \<exists>(_, s) \<in> set (eg_segments g). es_state s \<noteq> SegDone then e
          else remove_session sid (send_result (LoopDone sid None) e))"

section \<open>Text of an active segment\<close>

definition resume_streaming_segment_if_ready :: "seg_key \<Rightarrow> 'k engine_loop \<Rightarrow> 'k engine_loop" where
  "resume_streaming_segment_if_ready k e =
     (case seg_of k e of
        None \<Rightarrow> e
      | Some s \<Rightarrow>
          (case es_slot s of
             None \<Rightarrow> e
           | Some i \<Rightarrow>
               let sl = slot_at i e in
               (case last_codec_sum sl of
                  None \<Rightarrow> e
                | Some c \<Rightarrow>
                    if next_embed sl \<noteq> None \<or> length (sl_trailing sl) \<le> text_idx sl then e
                    else upd_slot i (\<lambda>sl. sl\<lparr>next_embed := Some (Plus c (sl_trailing sl ! text_idx sl)),
                                              text_idx := Suc (text_idx sl), last_codec_sum := None,
                                              pad_start_frame := -1, pad_consecutive_silence := 0\<rparr>) e)))"

definition append_trailing_tokens :: "nat \<Rightarrow> int list \<Rightarrow> 'k engine_loop \<Rightarrow> 'k engine_loop" where
  "append_trailing_tokens i ids e = upd_slot i (\<lambda>sl. sl\<lparr>sl_trailing := sl_trailing sl @ map TextEmbed ids\<rparr>) e"

definition flush_deferred_appends_for_segment :: "seg_key \<Rightarrow> 'k engine_loop \<Rightarrow> 'k engine_loop" where
  "flush_deferred_appends_for_segment k e =
     (case seg_of k e of
        None \<Rightarrow> e
      | Some s \<Rightarrow>
          (case es_slot s of
             None \<Rightarrow> e
           | Some i \<Rightarrow>
               if deferred_token_ids s = [] then e
               else resume_streaming_segment_if_ready k
                      (append_trailing_tokens i (deferred_token_ids s) (upd_seg k (\<lambda>s. s\<lparr>deferred_token_ids := []\<rparr>) e))))"

definition flush_deferred_appends :: "'k engine_loop \<Rightarrow> 'k engine_loop" where
  "flush_deferred_appends e = fold flush_deferred_appends_for_segment (map fst (all_segments e)) e"

definition append_eos_trailing :: "seg_key \<Rightarrow> nat \<Rightarrow> 'k engine_loop \<Rightarrow> 'k engine_loop" where
  "append_eos_trailing k i e =
     upd_seg k (\<lambda>s. s\<lparr>eos_trailing_added := True\<rparr>) (upd_slot i (\<lambda>sl. sl\<lparr>sl_trailing := sl_trailing sl @ [EosEmbed]\<rparr>) e)"

definition apply_cursor_plan :: "seg_key \<Rightarrow> 'k engine_loop \<Rightarrow> 'k engine_loop" where
  "apply_cursor_plan k e =
     upd_seg k (\<lambda>s. case es_cursor_plan s of
         None \<Rightarrow> s
       | Some p \<Rightarrow> if es_slot s = None \<or> plan_revision p \<le> cursor_plan_revision s then s
                   else s\<lparr>cursor_plan_revision := plan_revision p\<rparr>) e"

section \<open>Requests\<close>

definition tokens_of :: "engine_request \<Rightarrow> int list" where
  "tokens_of r = (case rq_tokens r of None \<Rightarrow> [] | Some ts \<Rightarrow> ts)"

definition handle_new_session :: "rat \<Rightarrow> string \<Rightarrow> 'k engine_loop \<Rightarrow> 'k engine_loop" where
  "handle_new_session now sid e =
     (let replacing = (sid \<in> fst ` set (el_groups e)) in
      if \<not> replacing \<and> lc_max_queue_size (el_cfg e) \<le> int (length (el_groups e))
      then send_result (LoopError sid 0 ''Server overloaded, please retry later'') e
      else let e1 = (if replacing then remove_session sid e else e) in
        e1\<lparr>el_groups := dict_set sid \<lparr>eg_session_id = sid, eg_segments = [], input_complete_all = False,
                                      eg_created_at = now, overflow_token_ids = []\<rparr> (el_groups e1),
           el_total_sessions := Suc (el_total_sessions e1)\<rparr>)"

definition fresh_meta :: "'k engine_loop \<Rightarrow> 'k engine_loop" where
  "fresh_meta e = e\<lparr>el_mlfq := map_meta (el_next_meta e) (\<lambda>_. default_meta) (el_mlfq e), el_next_meta := Suc (el_next_meta e)\<rparr>"

definition handle_start_tokens :: "engine_request \<Rightarrow> 'k engine_loop \<Rightarrow> 'k engine_loop" where
  "handle_start_tokens r e =
     (let sid = rq_session r; idx = rq_segment r in
      case map_of (el_groups e) sid of
        None \<Rightarrow> e
      | Some g \<Rightarrow>
          let text = overflow_token_ids g @ tokens_of r;
              s = (new_segment sid idx (rq_priority r) (el_next_meta e))
                    \<lparr>pending_token_ids := text, text_tokens_consumed := length text, es_cursor_plan := rq_plan r\<rparr>;
              e1 = upd_group sid (\<lambda>g. g\<lparr>overflow_token_ids := []\<rparr>) (fresh_meta e);
              e2 = (if idx \<in> fst ` set (eg_segments g) then release_segment_slot (sid, idx) e1 else e1)
          in upd_group sid (\<lambda>g. g\<lparr>eg_segments := dict_set idx s (eg_segments g)\<rparr>) e2)"

definition handle_update_cursor_plan :: "engine_request \<Rightarrow> 'k engine_loop \<Rightarrow> 'k engine_loop" where
  "handle_update_cursor_plan r e =
     (let k = (rq_session r, rq_segment r) in
      case (rq_plan r, seg_of k e) of
        (Some p, Some s) \<Rightarrow>
          if es_state s = SegDone then e
          else if (case es_cursor_plan s of None \<Rightarrow> True | Some q \<Rightarrow> plan_revision q \<le> plan_revision p)
          then apply_cursor_plan k (upd_seg k (\<lambda>s. s\<lparr>es_cursor_plan := Some p\<rparr>) e)
          else e
      | _ \<Rightarrow> e)"

definition handle_append_tokens :: "engine_request \<Rightarrow> 'k engine_loop \<Rightarrow> 'k engine_loop" where
  "handle_append_tokens r e =
     (let sid = rq_session r; k = (sid, rq_segment r); ids = tokens_of r in
      if sid \<notin> fst ` set (el_groups e) \<or> ids = [] then e
      else case seg_of k e of
          None \<Rightarrow> upd_group sid (\<lambda>g. g\<lparr>overflow_token_ids := overflow_token_ids g @ ids\<rparr>) e
        | Some s \<Rightarrow>
            if es_state s = SegDone
            then upd_group sid (\<lambda>g. g\<lparr>overflow_token_ids := overflow_token_ids g @ ids\<rparr>) e
            else
              let e1 = upd_seg k (\<lambda>s. s\<lparr>pending_token_ids := pending_token_ids s @ ids,
                                        text_tokens_consumed := text_tokens_consumed s + length ids\<rparr>) e in
              (case es_slot s of
                 Some i \<Rightarrow>
                   if es_state s \<noteq> Active then e1
                   else if el_defer e then upd_seg k (\<lambda>s. s\<lparr>deferred_token_ids := deferred_token_ids s @ ids\<rparr>) e1
                   else resume_streaming_segment_if_ready k (append_trailing_tokens i ids e1)
               | None \<Rightarrow> e1))"

definition handle_segment_tokens_done :: "engine_request \<Rightarrow> 'k engine_loop \<Rightarrow> 'k engine_loop" where
  "handle_segment_tokens_done r e =
     (let k = (rq_session r, rq_segment r) in
      case seg_of k e of
        None \<Rightarrow> e
      | Some s \<Rightarrow>
          let e1 = upd_seg k (\<lambda>s. s\<lparr>es_input_complete := True\<rparr>) (flush_deferred_appends_for_segment k e);
              e2 = (case es_slot s of
                      Some i \<Rightarrow>
                        if rq_append_eos r \<and> es_state s = Active \<and> \<not> eos_trailing_added s
                        then resume_streaming_segment_if_ready k (append_eos_trailing k i e1)
                        else if rq_append_eos r then upd_seg k (\<lambda>s. s\<lparr>eos_trailing_added := False\<rparr>) e1 else e1
                    | None \<Rightarrow> if rq_append_eos r then upd_seg k (\<lambda>s. s\<lparr>eos_trailing_added := False\<rparr>) e1 else e1)
          in if es_state s = SegDone then check_session_done (rq_session r) e2 else e2)"

definition handle_session_tokens_done :: "string \<Rightarrow> 'k engine_loop \<Rightarrow> 'k engine_loop" where
  "handle_session_tokens_done sid e =
     (if sid \<in> fst ` set (el_groups e)
      then check_session_done sid (upd_group sid (\<lambda>g. g\<lparr>input_complete_all := True\<rparr>) e) else e)"

definition handle_cancel_session :: "engine_request \<Rightarrow> 'k engine_loop \<Rightarrow> 'k engine_loop" where
  "handle_cancel_session r e =
     (let sid = rq_session r in
      if sid \<in> fst ` set (el_groups e)
      then remove_session sid (send_result (LoopDone sid (Some (if rq_cancel_reason r = Some [] then None else rq_cancel_reason r))) e)
      else e)"

definition handle_request :: "rat \<Rightarrow> engine_request \<Rightarrow> 'k engine_loop \<Rightarrow> 'k engine_loop" where
  "handle_request now r e =
     (case rq_type r of
        NEW_SESSION \<Rightarrow> handle_new_session now (rq_session r) e
      | START_TOKENS \<Rightarrow> handle_start_tokens r e
      | UPDATE_CURSOR_PLAN \<Rightarrow> handle_update_cursor_plan r e
      | APPEND_TOKENS \<Rightarrow> handle_append_tokens r e
      | SEGMENT_TOKENS_DONE \<Rightarrow> handle_segment_tokens_done r e
      | SESSION_TOKENS_DONE \<Rightarrow> handle_session_tokens_done (rq_session r) e
      | CANCEL_SESSION \<Rightarrow> handle_cancel_session r e)"

text \<open>
  How many requests one drain takes: \<open>elapsed d\<close> is the time since its start when \<open>d\<close> requests are done.
\<close>

fun drain_count :: "int option \<Rightarrow> rat option \<Rightarrow> (nat \<Rightarrow> rat) \<Rightarrow> nat \<Rightarrow> 'r list \<Rightarrow> nat" where
  "drain_count max_requests budget elapsed d [] = d"
| "drain_count max_requests budget elapsed d (r # rs) =
     (if (case max_requests of None \<Rightarrow> False | Some m \<Rightarrow> max 0 m \<le> int d) \<or>
         (case budget of None \<Rightarrow> False | Some b \<Rightarrow> 0 < b \<and> 0 < d \<and> b \<le> elapsed d)
      then d else drain_count max_requests budget elapsed (Suc d) rs)"

definition drain_inbox :: "int option \<Rightarrow> rat option \<Rightarrow> (nat \<Rightarrow> rat) \<Rightarrow> rat \<Rightarrow> 'k engine_loop \<Rightarrow> 'k engine_loop" where
  "drain_inbox max_requests budget elapsed now e =
     (let n = drain_count max_requests budget elapsed 0 (el_inbox e);
          e1 = fold (handle_request now) (take n (el_inbox e)) (e\<lparr>el_defer := True, el_inbox := drop n (el_inbox e)\<rparr>)
      in flush_deferred_appends (e1\<lparr>el_defer := False\<rparr>))"

section \<open>End and retry of a segment\<close>

definition audio_steps_of :: "engine_segment \<Rightarrow> 'k engine_loop \<Rightarrow> int" where
  "audio_steps_of s e = (case es_slot s of None \<Rightarrow> 0 | Some i \<Rightarrow> int (frame_idx (slot_at i e)) - int (decode_start_frame s))"

definition eos_metrics_of :: "engine_segment \<Rightarrow> int \<Rightarrow> bool \<Rightarrow> string \<Rightarrow> nat \<Rightarrow> bool \<Rightarrow> string \<Rightarrow> eos_metrics" where
  "eos_metrics_of s steps overflow reason tail drop_all guard =
     \<lparr>mt_audio_steps = steps, mt_text_tokens = text_tokens_consumed s, mt_overflow = overflow, mt_eos_reason = reason,
      mt_batch_size_seen = max_decode_batch s, mt_cache_hit = es_cache_hit s, mt_retry_idx = es_retry_idx s,
      mt_audio_frames_seen = audio_frames_seen s, mt_audible_frame_seen = audible_frame_seen s,
      mt_loop_max_run = loop_max_run s, mt_loop_suspect_count = loop_suspect_count s,
      mt_loop_recovery_count = loop_recovery_count s, mt_abort_tail_frames = (if 0 < tail then Some tail else None),
      mt_discard_all_audio = drop_all, mt_guard_mode = guard\<rparr>"

definition handle_segment_eos ::
    "seg_key \<Rightarrow> bool \<Rightarrow> string option \<Rightarrow> nat \<Rightarrow> bool \<Rightarrow> string \<Rightarrow> 'k engine_loop \<Rightarrow> 'k engine_loop" where
  "handle_segment_eos k overflow eos_reason tail drop_all guard e =
     (case seg_of k e of
        None \<Rightarrow> e
      | Some s \<Rightarrow>
          let reason = (case eos_reason of Some r \<Rightarrow> r | None \<Rightarrow> if overflow then ''kv_overflow'' else ''codec_eos'');
              m = eos_metrics_of s (audio_steps_of s e) overflow reason tail drop_all guard;
              e1 = upd_seg k (\<lambda>s. s\<lparr>es_state := SegDone\<rparr>) (e\<lparr>el_total_eos := Suc (el_total_eos e)\<rparr>)
          in check_session_done (fst k) (send_result (SegmentEnd (fst k) (snd k) m) (release_segment_slot k e1)))"

definition earlier_live :: "seg_key \<Rightarrow> 'k engine_loop \<Rightarrow> bool" where
  "earlier_live k e =
     (case map_of (el_groups e) (fst k) of
        None \<Rightarrow> False
      | Some g \<Rightarrow> \<exists>(_, s) \<in> set (eg_segments g). es_segment_idx s < snd k \<and> es_state s \<noteq> SegDone)"

definition reset_attempt :: "nat \<Rightarrow> engine_segment \<Rightarrow> engine_segment" where
  "reset_attempt meta s =
     s\<lparr>es_state := PendingPrefill, es_prefill_plan := None, loop_token := -1, loop_run := 0, loop_max_run := 0, loop_suspect_count := 0,
       loop_recovery_count := 0, first_raw_audio_sent := False, eos_trailing_added := False, decode_start_frame := 0,
       audio_frames_seen := 0, audible_frame_seen := False, es_cache_hit := False, cache_tokens_reused := 0,
       es_meta := meta\<rparr>"

definition try_segment_retry ::
    "seg_key \<Rightarrow> string \<Rightarrow> string \<Rightarrow> rat \<Rightarrow> 'k engine_loop \<Rightarrow> 'k engine_loop \<times> bool" where
  "try_segment_retry k reason guard ratio e =
     (case seg_of k e of
        None \<Rightarrow> (e, False)
      | Some s \<Rightarrow>
          if lc_max_retries (el_cfg e) \<le> es_retry_idx s \<or> \<not> earlier_live k e then (e, False)
          else let steps = (if es_slot s = None then int (audio_frames_seen s) else max 0 (audio_steps_of s e));
                   m = \<lparr>rt_retry_idx = Suc (es_retry_idx s), rt_reason = reason, rt_audio_steps = steps,
                        rt_text_tokens = text_tokens_consumed s,
                        rt_loop = (if reason = ''loop''
                                   then Some (guard, ratio, loop_max_run s, loop_suspect_count s, loop_recovery_count s)
                                   else None)\<rparr>;
                   e1 = release_segment_slot k (upd_seg k (\<lambda>s. s\<lparr>es_retry_idx := Suc (es_retry_idx s)\<rparr>) e);
                   e2 = upd_seg k (reset_attempt (el_next_meta e1)) (fresh_meta e1)
               in (send_result (SegmentRetry (fst k) (snd k) m) e2, True))"

text \<open>Reroll the attempt, or end the segment with the given reason.\<close>

definition retry_or_end ::
    "seg_key \<Rightarrow> string \<Rightarrow> string \<Rightarrow> nat \<Rightarrow> bool \<Rightarrow> 'k engine_loop \<Rightarrow> 'k engine_loop" where
  "retry_or_end k retry_reason eos_reason tail drop_all e =
     (case try_segment_retry k retry_reason [] 0 e of
        (e1, True) \<Rightarrow> e1
      | (e1, False) \<Rightarrow> handle_segment_eos k False (Some eos_reason) tail drop_all [] e1)"

definition handle_natural_eos :: "seg_key \<Rightarrow> 'k engine_loop \<Rightarrow> 'k engine_loop" where
  "handle_natural_eos k e =
     (case seg_of k e of
        None \<Rightarrow> e
      | Some s \<Rightarrow>
          if 0 < text_tokens_consumed s \<and> \<not> audible_frame_seen s
          then retry_or_end k ''silence'' ''silent_audio_abort'' 0 True e
          else handle_segment_eos k False None 0 False [] e)"

section \<open>Audio health\<close>

definition classify_audio_chunk :: "loop_config \<Rightarrow> byte list \<Rightarrow> audio_health" where
  "classify_audio_chunk cfg a = (if a = [] \<or> length a mod 4 \<noteq> 0 then InvalidAudio else lc_pcm_health cfg a)"

definition record_audio_health :: "seg_key \<Rightarrow> byte list \<Rightarrow> 'k engine_loop \<Rightarrow> 'k engine_loop" where
  "record_audio_health k a e =
     upd_seg k (\<lambda>s. s\<lparr>audio_frames_seen := Suc (audio_frames_seen s),
                      audible_frame_seen := (audible_frame_seen s \<or> classify_audio_chunk (el_cfg e) a = Audible)\<rparr>) e"

definition audio_progress_metrics :: "engine_segment \<Rightarrow> nat \<times> nat \<times> nat" where
  "audio_progress_metrics s = (audio_frames_seen s - 1, audio_frames_seen s, text_tokens_consumed s)"

definition send_audio :: "seg_key \<Rightarrow> byte list \<Rightarrow> 'k engine_loop \<Rightarrow> 'k engine_loop" where
  "send_audio k a e =
     (case seg_of k e of
        None \<Rightarrow> e
      | Some s \<Rightarrow> send_result (AudioChunk (fst k) (snd k) a (audio_progress_metrics s)) e)"
section \<open>Prefill\<close>

text \<open>
  The prompt of a segment, \<open>engine/backend/prefill.py\<close>. The head of the prompt (role, instruction,
  language and speaker tags) is an argument, as are the reference text and the reference codec frames of
  a cloned voice, which \<open>ref_codec_sum_vec\<close> brings or \<open>ref_codes\<close> sums up to. The checks of tensor shapes
  are left out.
\<close>

record prompt_inputs =
  pi_task :: task_type
  pi_head :: "embed list"
  pi_ref_ids :: "int list"
  pi_ref_codec :: "embed list option"

text \<open>
  With a reference voice text and codec frames run side by side: the reference text and the tokens go
  into the prompt as far as there are frames, the rest of the text is left behind.
\<close>

definition build_icl_path ::
    "embed list \<Rightarrow> int list \<Rightarrow> embed list \<Rightarrow> int list \<Rightarrow> bool \<Rightarrow> (py_error, embed list \<times> embed list) result" where
  "build_icl_path talker_input_embed text_ids ref_codec_sum_vec ref_ids include_eos =
     (let codec_embed_icl = BosEmbed # ref_codec_sum_vec;
          text_embed_icl = map TextEmbed (ref_ids @ text_ids) @ (if include_eos then [EosEmbed] else []);
          codec_lens = length codec_embed_icl;
          text_lens = length text_embed_icl
      in if ref_ids \<noteq> [] \<and> codec_lens \<le> length ref_ids then Inl (ValueError ''icl_ref_codec_collapsed'')
         else if codec_lens < text_lens
         then Inr (talker_input_embed @ map2 Plus (take codec_lens text_embed_icl) codec_embed_icl, drop codec_lens text_embed_icl)
         else Inr (talker_input_embed @
                     map2 Plus (text_embed_icl @ replicate (codec_lens - text_lens) PadEmbed) codec_embed_icl,
                   if include_eos then [PadEmbed] else []))"

definition split_plan :: "task_type \<Rightarrow> embed list \<Rightarrow> embed list \<Rightarrow> embed list \<Rightarrow> prefill_plan" where
  "split_plan task head req trailing =
     (let cacheable = (task \<noteq> VOICE_CLONE_ICL \<and> head \<noteq> [] \<and> req \<noteq> [])
      in \<lparr>prefill_embeds = head @ req, plan_trailing = trailing,
          cacheable_prefix_embeds = (if cacheable then Some head else None),
          request_prefill_embeds = (if cacheable then Some req else None)\<rparr>)"

definition build_plan_from_ids :: "prompt_inputs \<Rightarrow> int list \<Rightarrow> bool \<Rightarrow> (py_error, prefill_plan) result" where
  "build_plan_from_ids inp text_ids include_eos =
     (case (pi_task inp, pi_ref_codec inp) of
        (VOICE_CLONE_ICL, Some codec) \<Rightarrow>
          (case build_icl_path (pi_head inp) text_ids codec (pi_ref_ids inp) include_eos of
             Inl err \<Rightarrow> Inl err
           | Inr (prefill, trailing) \<Rightarrow>
               Inr \<lparr>prefill_embeds = prefill, plan_trailing = trailing,
                    cacheable_prefix_embeds = None, request_prefill_embeds = None\<rparr>)
      | (VOICE_DESIGN, _) \<Rightarrow>
          Inr (split_plan VOICE_DESIGN (pi_head inp)
                 (map (\<lambda>t. Plus t CodecPadEmbed) (map TextEmbed text_ids @ [EosEmbed]) @ [Plus PadEmbed BosEmbed]) [PadEmbed])
      | (task, _) \<Rightarrow>
          Inr (split_plan task (pi_head inp)
                 [Plus (case text_ids of [] \<Rightarrow> PadEmbed | t # _ \<Rightarrow> TextEmbed t) BosEmbed]
                 (map TextEmbed (tl text_ids) @ (if include_eos then [EosEmbed] else []))))"

definition splits_prefix :: "task_type \<Rightarrow> prefill_plan \<Rightarrow> bool" where
  "splits_prefix task plan \<longleftrightarrow> task \<noteq> VOICE_CLONE_ICL \<and>
     (case (cacheable_prefix_embeds plan, request_prefill_embeds plan) of
        (Some _, Some req) \<Rightarrow> length req = 1
      | _ \<Rightarrow> False)"

text \<open>
  What one prefill meets: the task type is invalid, something raised, the prefix of the prompt is in the
  cache (with its length), or the prompt is built from the given inputs and run, whole or as far as the
  request; the executor then leaves a sequence length, a frame number and a vector, perhaps with audio
  and the end of the segment.
\<close>

datatype prefill_outcome =
    PfBadTask string
  | PfRaised py_error
  | PfHit nat
  | PfCold prompt_inputs nat nat "embed option" "byte list option" bool

definition build_suffix :: "int list \<Rightarrow> bool \<Rightarrow> embed \<times> embed list" where
  "build_suffix ids include_eos =
     (Plus (TextEmbed (hd ids)) BosEmbed, map TextEmbed (tl ids) @ (if include_eos then [EosEmbed] else []))"

definition prime_decode :: "string \<Rightarrow> nat \<Rightarrow> embed \<times> embed list \<Rightarrow> embed slot_kv_state \<Rightarrow> embed slot_kv_state" where
  "prime_decode source prefix_len sx sl =
     sl\<lparr>past_len := prefix_len, prefill_source := source, frame_idx := 0, pad_start_frame := -1,
        pad_consecutive_silence := 0, c2w_len := 0, c2w_pooled := True, next_embed := Some (fst sx),
        last_codec_sum := None, sl_trailing := snd sx, text_idx := 0\<rparr>"

definition attach_trailing :: "embed list \<Rightarrow> embed slot_kv_state \<Rightarrow> embed slot_kv_state" where
  "attach_trailing trailing sl =
     (case (next_embed sl, trailing) of
        (Some x, t # _) \<Rightarrow> sl\<lparr>sl_trailing := trailing, next_embed := Some (Plus x t), text_idx := 1\<rparr>
      | _ \<Rightarrow> sl\<lparr>sl_trailing := trailing\<rparr>)"

definition complete_prefill :: "seg_key \<Rightarrow> nat \<Rightarrow> byte list option \<Rightarrow> bool \<Rightarrow> 'k engine_loop \<Rightarrow> 'k engine_loop" where
  "complete_prefill k i audio eos e =
     (let e1 = upd_seg k (\<lambda>s. s\<lparr>es_state := Active, decode_start_frame := frame_idx (slot_at i e),
                                es_cache_hit := (prefill_source (slot_at i e) = ''prefix_cache_prefix_only'')\<rparr>)
                 (e\<lparr>el_total_prefills := Suc (el_total_prefills e)\<rparr>);
          e2 = send_result (PrefillDone (fst k) (snd k)) e1
      in case audio of
           Some (a # as) \<Rightarrow>
             let e3 = record_audio_health k (a # as) e2 in
             if classify_audio_chunk (el_cfg e) (a # as) = InvalidAudio
             then retry_or_end k ''invalid_audio'' ''invalid_audio_abort'' 0
                    (case seg_of k e3 of None \<Rightarrow> True | Some s \<Rightarrow> \<not> audible_frame_seen s) e3
             else let e4 = send_audio k (a # as) e3 in if eos then handle_natural_eos k e4 else e4
         | _ \<Rightarrow> if eos then handle_natural_eos k e2 else e2)"

definition priority_value :: "request_priority \<Rightarrow> nat" where
  "priority_value p = (case p of FIRST_SEGMENT \<Rightarrow> 0 | CONTINUATION \<Rightarrow> 1 | PREFETCHED \<Rightarrow> 2)"

text \<open>The pending segments that may be admitted, in the order of the dictionaries.\<close>

definition pending_segments :: "'k engine_loop \<Rightarrow> (seg_key \<times> engine_segment) list" where
  "pending_segments e =
     concat (map (\<lambda>(sid, g).
         if lc_max_slots_per_session (el_cfg e) \<le> active_slot_count g then []
         else map (\<lambda>(idx, s). ((sid, idx), s))
                (filter (\<lambda>(_, s). es_state s = PendingPrefill \<and> pending_token_ids s \<noteq> []) (eg_segments g)))
       (el_groups e))"

fun pick_best :: "(seg_key \<times> engine_segment) option \<Rightarrow> (seg_key \<times> engine_segment) list \<Rightarrow> (seg_key \<times> engine_segment) option" where
  "pick_best best [] = best"
| "pick_best best (c # cs) =
     pick_best (case best of None \<Rightarrow> Some c
                | Some b \<Rightarrow> if priority_value (es_priority (snd c)) < priority_value (es_priority (snd b)) then Some c else best) cs"

text \<open>The name a slot carries, \<open>f"{session_id}:{segment_idx}"\<close>; \<open>show_idx\<close> prints the number.\<close>

definition seg_key_name :: "(int \<Rightarrow> string) \<Rightarrow> seg_key \<Rightarrow> string" where
  "seg_key_name show_idx k = fst k @ '':'' @ show_idx (snd k)"

definition admit_slot :: "(int \<Rightarrow> string) \<Rightarrow> rat \<Rightarrow> seg_key \<Rightarrow> 'k::zero engine_loop \<Rightarrow> 'k engine_loop \<times> nat option" where
  "admit_slot show_idx now k e =
     (case allocate now (seg_key_name show_idx k) (el_pool e) of
        (_, None) \<Rightarrow> (e, None)
      | (p, Some i) \<Rightarrow>
          (case seg_of k e of
             None \<Rightarrow> (e\<lparr>el_pool := p\<rparr>, Some i)
           | Some s \<Rightarrow>
               let e1 = e\<lparr>el_pool := map_slot i (\<lambda>sl. sl\<lparr>sl_segment_idx := snd k, sl_retry_idx := es_retry_idx s\<rparr>) p,
                          el_seg_by_slot := dict_set i k (el_seg_by_slot e)\<rparr>;
                   e2 = upd_seg k (\<lambda>s. s\<lparr>es_slot := Some i\<rparr>) e1
               in (apply_cursor_plan k (e2\<lparr>el_mlfq := on_segment_created (es_meta s) (el_mlfq e2)\<rparr>), Some i)))"

text \<open>\<open>Inl\<close> is an exception that leaves the pass, \<open>Inr b\<close> the returned value.\<close>

definition try_prefill_one ::
    "(int \<Rightarrow> string) \<Rightarrow> rat \<Rightarrow> (seg_key \<Rightarrow> prefill_outcome) \<Rightarrow> 'k::zero engine_loop \<Rightarrow> 'k engine_loop \<times> (py_error, bool) result" where
  "try_prefill_one show_idx now pf e =
     (if kp_free (el_pool e) = [] then (e, Inr False)
      else case pick_best None (pending_segments e) of
          None \<Rightarrow> (e, Inr False)
        | Some (k, s) \<Rightarrow>
            (case admit_slot show_idx now k e of
               (e1, None) \<Rightarrow> (e1, Inr False)
             | (e1, Some i) \<Rightarrow>
                 (case pf k of
                    PfBadTask msg \<Rightarrow>
                      let e2 = upd_seg k (\<lambda>s. s\<lparr>es_state := SegError\<rparr>) e1;
                          e3 = upd_seg k (\<lambda>s. s\<lparr>es_slot := None\<rparr>) (release_slot_id i e2)
                      in (remove_session (fst k) (send_result (LoopError (fst k) (snd k) msg) e3), Inr False)
                  | PfRaised err \<Rightarrow> (e1, Inl err)
                  | PfHit n \<Rightarrow>
                      let sx = build_suffix (pending_token_ids s) (es_input_complete s);
                          e2 = upd_slot i (prime_decode ''prefix_cache_prefix_only'' n sx) e1;
                          e3 = upd_seg k (\<lambda>s. s\<lparr>cache_tokens_reused := n, eos_trailing_added := es_input_complete s\<rparr>) e2
                      in (complete_prefill k i None False e3, Inr True)
                  | PfCold inp n frames x audio eos \<Rightarrow>
                      (case build_plan_from_ids inp (pending_token_ids s) (es_input_complete s) of
                         Inl err \<Rightarrow> (e1, Inl err)
                       | Inr plan \<Rightarrow>
                           let e2 = upd_seg k (\<lambda>s. s\<lparr>es_prefill_plan := Some plan, eos_trailing_added := es_input_complete s\<rparr>) e1
                           in if splits_prefix (pi_task inp) plan
                              then (complete_prefill k i None False
                                      (upd_slot i (prime_decode ''full_prefill_prefix_only'' n
                                         (hd (the (request_prefill_embeds plan)), plan_trailing plan)) e2), Inr True)
                              else (complete_prefill k i audio eos
                                      (upd_slot i (\<lambda>sl. attach_trailing (plan_trailing plan)
                                         (sl\<lparr>prefill_source := ''full_prefill'', past_len := n, frame_idx := frames, next_embed := x\<rparr>)) e2),
                                    Inr True)))))"

text \<open>
  Admission of cached prefixes in one batch: \<open>hit sid\<close> is the length of the prefix cached for the
  session, if there is one.
\<close>

fun pick_batch :: "nat \<Rightarrow> (string \<Rightarrow> nat option) \<Rightarrow> (string \<Rightarrow> nat) \<Rightarrow> nat \<Rightarrow> (string \<times> nat) list \<Rightarrow>
    (seg_key \<times> engine_segment) list \<Rightarrow> seg_key list" where
  "pick_batch per_session hit busy budget counts [] = []"
| "pick_batch per_session hit busy budget counts ((k, s) # cs) =
     (if budget = 0 then []
      else let n = (case map_of counts (fst k) of None \<Rightarrow> 0 | Some n \<Rightarrow> n) in
        if per_session \<le> busy (fst k) + n then pick_batch per_session hit busy budget counts cs
        else if hit (fst k) = None then pick_batch per_session hit busy (budget - 1) counts cs
        else k # pick_batch per_session hit busy (budget - 1) (dict_set (fst k) (Suc n) counts) cs)"

fun admit_all :: "(int \<Rightarrow> string) \<Rightarrow> rat \<Rightarrow> seg_key list \<Rightarrow> 'k::zero engine_loop \<Rightarrow> 'k engine_loop \<times> (seg_key \<times> nat) list" where
  "admit_all show_idx now [] e = (e, [])"
| "admit_all show_idx now (k # ks) e =
     (case admit_slot show_idx now k e of
        (e1, None) \<Rightarrow> (e1, [])
      | (e1, Some i) \<Rightarrow> (case admit_all show_idx now ks e1 of (e2, rest) \<Rightarrow> (e2, (k, i) # rest)))"

definition activate_hit :: "(string \<Rightarrow> nat option) \<Rightarrow> seg_key \<times> nat \<Rightarrow> 'k engine_loop \<Rightarrow> 'k engine_loop" where
  "activate_hit hit ki e =
     (case ki of (k, i) \<Rightarrow>
        (case (seg_of k e, hit (fst k)) of
           (Some s, Some n) \<Rightarrow>
             let e1 = upd_slot i (prime_decode ''prefix_cache_prefix_only'' n (build_suffix (pending_token_ids s) (es_input_complete s))) e;
                 e2 = upd_seg k (\<lambda>s. s\<lparr>es_cache_hit := True, cache_tokens_reused := n, eos_trailing_added := es_input_complete s\<rparr>) e1
             in complete_prefill k i None False e2
         | _ \<Rightarrow> e))"

definition admit_cache_hit_batch ::
    "(int \<Rightarrow> string) \<Rightarrow> rat \<Rightarrow> (string \<Rightarrow> nat option) \<Rightarrow> 'k::zero engine_loop \<Rightarrow> 'k engine_loop \<times> nat" where
  "admit_cache_hit_batch show_idx now hit e =
     (let budget = min (int (free_count (el_pool e))) (lc_max_batch (el_cfg e)) in
      if budget \<le> 0 then (e, 0)
      else let cands = sort_key (\<lambda>(_, s). priority_value (es_priority s)) (pending_segments e);
               busy = (\<lambda>sid. case map_of (el_groups e) sid of None \<Rightarrow> 0 | Some g \<Rightarrow> active_slot_count g);
               picked = pick_batch (lc_max_slots_per_session (el_cfg e)) hit busy (nat budget) [] cands
           in case admit_all show_idx now picked e of
                (e1, admitted) \<Rightarrow> (fold (activate_hit hit) admitted e1, length admitted))"

fun prefill_pass :: "(int \<Rightarrow> string) \<Rightarrow> rat \<Rightarrow> (seg_key \<Rightarrow> prefill_outcome) \<Rightarrow> nat \<Rightarrow> 'k::zero engine_loop \<Rightarrow>
    'k engine_loop \<times> (py_error, unit) result" where
  "prefill_pass show_idx now pf 0 e = (e, Inr ())"
| "prefill_pass show_idx now pf (Suc n) e =
     (case try_prefill_one show_idx now pf e of
        (e1, Inl err) \<Rightarrow> (e1, Inl err)
      | (e1, Inr False) \<Rightarrow> (e1, Inr ())
      | (e1, Inr True) \<Rightarrow> prefill_pass show_idx now pf n e1)"

definition try_prefill_pending ::
    "(int \<Rightarrow> string) \<Rightarrow> rat \<Rightarrow> (string \<Rightarrow> nat option) \<Rightarrow> (seg_key \<Rightarrow> prefill_outcome) \<Rightarrow> 'k::zero engine_loop \<Rightarrow>
     'k engine_loop \<times> (py_error, unit) result" where
  "try_prefill_pending show_idx now hit pf e =
     prefill_pass show_idx now pf (nat (lc_max_batch (el_cfg e))) (fst (admit_cache_hit_batch show_idx now hit e))"

definition failed_prefill :: "engine_group \<Rightarrow> engine_segment option" where
  "failed_prefill g =
     map_option snd (List.find (\<lambda>(_, s). es_state s = PendingPrefill \<and> es_slot s \<noteq> None) (eg_segments g))"

definition report_failed_prefill :: "string \<times> engine_group \<Rightarrow> 'k engine_loop \<Rightarrow> 'k engine_loop" where
  "report_failed_prefill sg e =
     (case failed_prefill (snd sg) of
        None \<Rightarrow> e
      | Some s \<Rightarrow> send_result (LoopError (fst sg) (es_segment_idx s) ''Prefill failed unexpectedly'') e)"

definition cleanup_failed_prefills :: "'k engine_loop \<Rightarrow> 'k engine_loop" where
  "cleanup_failed_prefills e =
     (let failed = map fst (filter (\<lambda>(_, g). failed_prefill g \<noteq> None) (el_groups e))
      in fold remove_session failed (fold report_failed_prefill (el_groups e) e))"

definition prefill_phase ::
    "(int \<Rightarrow> string) \<Rightarrow> rat \<Rightarrow> (string \<Rightarrow> nat option) \<Rightarrow> (seg_key \<Rightarrow> prefill_outcome) \<Rightarrow> 'k::zero engine_loop \<Rightarrow> 'k engine_loop" where
  "prefill_phase show_idx now hit pf e =
     (case try_prefill_pending show_idx now hit pf e of
        (e1, Inl _) \<Rightarrow> cleanup_failed_prefills e1
      | (e1, Inr _) \<Rightarrow> e1)"
section \<open>Choosing the decode batch\<close>

definition is_waiting_for_text :: "engine_segment \<Rightarrow> 'k engine_loop \<Rightarrow> bool" where
  "is_waiting_for_text s e =
     (es_state s = Active \<and> \<not> es_input_complete s \<and>
      (case es_slot s of
         None \<Rightarrow> False
       | Some i \<Rightarrow> last_codec_sum (slot_at i e) \<noteq> None \<and> next_embed (slot_at i e) = None \<and>
                   length (sl_trailing (slot_at i e)) \<le> text_idx (slot_at i e)))"

definition has_work :: "'k engine_loop \<Rightarrow> bool" where
  "has_work e = (\<exists>(_, s) \<in> set (all_segments e).
     es_state s = PendingPrefill \<or> (es_state s = Active \<and> \<not> is_waiting_for_text s e))"

text \<open>A full slot is set aside; a slot without a next vector takes its next text vector, if it has one.\<close>

fun scan_active :: "(seg_key \<times> engine_segment) list \<Rightarrow> seg_key list \<Rightarrow> (seg_key \<times> engine_segment) list \<Rightarrow> 'k engine_loop \<Rightarrow>
    'k engine_loop \<times> seg_key list \<times> (seg_key \<times> engine_segment) list" where
  "scan_active [] full cands e = (e, full, cands)"
| "scan_active ((k, s) # ks) full cands e =
     (case (es_state s, es_slot s) of
        (Active, Some i) \<Rightarrow>
          let sl = slot_at i e in
          if kp_max_seq_len (el_pool e) \<le> past_len sl then scan_active ks (full @ [k]) cands e
          else if next_embed sl \<noteq> None then scan_active ks full (cands @ [(k, s)]) e
          else if text_idx sl < length (sl_trailing sl)
          then scan_active ks full (cands @ [(k, s)])
                 (upd_slot i (\<lambda>sl. sl\<lparr>next_embed := Some (sl_trailing sl ! text_idx sl), text_idx := Suc (text_idx sl)\<rparr>) e)
          else scan_active ks full cands e
      | _ \<Rightarrow> scan_active ks full cands e)"

definition end_full_segment :: "seg_key \<Rightarrow> 'k engine_loop \<Rightarrow> 'k engine_loop" where
  "end_full_segment k e =
     (case seg_of k e of
        None \<Rightarrow> e
      | Some s \<Rightarrow>
          let steps = audio_steps_of s e; tokens = max 1 (text_tokens_consumed s);
              r = lc_runaway_ratio (el_cfg e) in
          if r \<le> of_int steps / of_nat tokens
          then retry_or_end k ''length'' ''length_abort'' (nat (max 1 (steps - \<lfloor>r * of_nat tokens\<rfloor>))) (\<not> audible_frame_seen s) e
          else handle_segment_eos k True None 0 False [] e)"

definition get_active_slots_mlfq :: "'k engine_loop \<Rightarrow> 'k engine_loop \<times> nat list" where
  "get_active_slots_mlfq e =
     (case scan_active (all_segments e) [] [] e of
        (e1, full, cands) \<Rightarrow>
          let e2 = fold end_full_segment full e1 in
          if cands = [] then (e2, [])
          else case select_batch (\<lambda>(_, s). es_meta s) cands (lc_max_batch (el_cfg e)) (el_mlfq e2) of
              (q, ordered) \<Rightarrow> (e2\<lparr>el_mlfq := q\<rparr>, List.map_filter (\<lambda>(k, _). case seg_of k e2 of None \<Rightarrow> None | Some s \<Rightarrow> es_slot s) ordered))"

section \<open>The output of a decode step\<close>

text \<open>One row of the output: the codec vector, the codebook-0 token, the end flag, the audio, the cache columns.\<close>

record 'k step_row =
  sr_slot :: nat
  sr_eos :: bool
  sr_token :: "int option"
  sr_audio :: "byte list option"
  sr_codec :: "nat option"
  sr_past_len :: nat
  sr_talker :: "'k list"
  sr_c2w :: 'k

definition note_token :: "loop_config \<Rightarrow> int \<Rightarrow> engine_segment \<Rightarrow> engine_segment" where
  "note_token cfg token s =
     (let s1 = (if token = loop_token s then s\<lparr>loop_run := Suc (loop_run s)\<rparr>
                else s\<lparr>loop_recovery_count := (if 0 < lc_suspect_frames cfg \<and> lc_suspect_frames cfg \<le> loop_run s
                                               then Suc (loop_recovery_count s) else loop_recovery_count s),
                       loop_token := token, loop_run := 1\<rparr>);
          s2 = s1\<lparr>loop_max_run := max (loop_max_run s1) (loop_run s1)\<rparr>
      in if 0 < lc_suspect_frames cfg \<and> loop_run s2 = lc_suspect_frames cfg
         then s2\<lparr>loop_suspect_count := Suc (loop_suspect_count s2)\<rparr> else s2)"

definition loop_ratio :: "nat \<Rightarrow> engine_segment \<Rightarrow> rat" where
  "loop_ratio frames s =
     (if 0 < text_tokens_consumed s then of_nat (frames - decode_start_frame s) / of_nat (text_tokens_consumed s) else 0)"

definition progress_ready :: "loop_config \<Rightarrow> nat \<Rightarrow> engine_segment \<Rightarrow> bool" where
  "progress_ready cfg frames s =
     (lc_min_audio_text_ratio cfg \<le> 0 \<or>
      (es_input_complete s \<and> (text_tokens_consumed s = 0 \<or> lc_min_audio_text_ratio cfg \<le> loop_ratio frames s)))"

definition loop_verdict :: "loop_config \<Rightarrow> nat \<Rightarrow> engine_segment \<Rightarrow> string option" where
  "loop_verdict cfg frames s =
     (if lc_abort_frames cfg \<le> loop_run s \<and> progress_ready cfg frames s then Some ''progress''
      else if 0 < lc_emergency_frames cfg \<and> lc_emergency_frames cfg \<le> loop_run s then Some ''emergency''
      else None)"

definition dynamic_silence_limit :: "nat \<Rightarrow> nat" where
  "dynamic_silence_limit remaining_kv =
     (if 100 < remaining_kv then 12 else if 50 < remaining_kv then 6 else if 20 < remaining_kv then 3 else 1)"

text \<open>The slot after a step: lengths, and the vector of the next step.\<close>

definition advance_slot :: "rat \<Rightarrow> bool \<Rightarrow> embed slot_kv_state \<Rightarrow> embed slot_kv_state" where
  "advance_slot now eos sl =
     sl\<lparr>past_len := Suc (past_len sl), frame_idx := (if eos then frame_idx sl else Suc (frame_idx sl)), last_active_time := now\<rparr>"

definition in_pad :: "bool \<Rightarrow> bool \<Rightarrow> nat option \<Rightarrow> embed slot_kv_state \<Rightarrow> bool" where
  "in_pad input_complete eos codec sl = (\<not> eos \<and> codec \<noteq> None \<and> length (sl_trailing sl) \<le> text_idx sl \<and> input_complete)"

definition feed_slot :: "bool \<Rightarrow> bool \<Rightarrow> nat option \<Rightarrow> embed slot_kv_state \<Rightarrow> embed slot_kv_state" where
  "feed_slot input_complete eos codec sl =
     (if eos then sl\<lparr>next_embed := None, last_codec_sum := None\<rparr>
      else case codec of
          None \<Rightarrow> sl\<lparr>next_embed := None\<rparr>
        | Some c \<Rightarrow>
            if text_idx sl < length (sl_trailing sl)
            then sl\<lparr>next_embed := Some (Plus (Codec c) (sl_trailing sl ! text_idx sl)), text_idx := Suc (text_idx sl),
                    pad_start_frame := -1, pad_consecutive_silence := 0, last_codec_sum := None\<rparr>
            else if \<not> input_complete
            then sl\<lparr>last_codec_sum := Some (Codec c), next_embed := None, pad_start_frame := -1, pad_consecutive_silence := 0\<rparr>
            else sl\<lparr>next_embed := Some (Plus (Codec c) PadEmbed), last_codec_sum := None,
                    pad_start_frame := (if pad_start_frame sl < 0 then int (frame_idx sl) else pad_start_frame sl)\<rparr>)"

definition loop_abort ::
    "(byte list \<Rightarrow> byte list) \<Rightarrow> seg_key \<Rightarrow> string \<Rightarrow> rat \<Rightarrow> byte list option \<Rightarrow> 'k engine_loop \<Rightarrow> 'k engine_loop" where
  "loop_abort fade k mode ratio audio e =
     (case try_segment_retry k ''loop'' mode ratio e of
        (e1, True) \<Rightarrow> e1
      | (e1, False) \<Rightarrow>
          let e2 = (case audio of Some (a # as) \<Rightarrow> send_audio k (fade (a # as)) e1 | _ \<Rightarrow> e1) in
          (case seg_of k e2 of
             None \<Rightarrow> e2
           | Some s \<Rightarrow> handle_segment_eos k False (Some ''loop_abort'') (loop_run s) (\<not> audible_frame_seen s) mode e2))"

text \<open>The pad phase: count silent frames, and whether the run is over the limit.\<close>

definition count_silence :: "loop_config \<Rightarrow> byte list option \<Rightarrow> embed slot_kv_state \<Rightarrow> embed slot_kv_state" where
  "count_silence cfg audio sl =
     (case audio of
        Some (a # as) \<Rightarrow>
          sl\<lparr>pad_consecutive_silence :=
               (if classify_audio_chunk cfg (a # as) = Silence then Suc (pad_consecutive_silence sl) else 0)\<rparr>
      | _ \<Rightarrow> sl)"

definition silence_over :: "loop_config \<Rightarrow> nat \<Rightarrow> embed slot_kv_state \<Rightarrow> bool" where
  "silence_over cfg max_seq sl =
     (lc_min_pad_steps cfg \<le> (if 0 \<le> pad_start_frame sl then int (frame_idx sl) - pad_start_frame sl else 0) \<and>
      dynamic_silence_limit (max_seq - past_len sl) < pad_consecutive_silence sl)"

definition silence_abort :: "seg_key \<Rightarrow> nat \<Rightarrow> 'k engine_loop \<Rightarrow> 'k engine_loop" where
  "silence_abort k silent e =
     (case seg_of k e of
        None \<Rightarrow> e
      | Some s \<Rightarrow>
          if \<not> audible_frame_seen s then retry_or_end k ''silence'' ''silent_audio_abort'' 0 True e
          else handle_segment_eos k False (Some ''silence_abort'') (silent - 1) False [] e)"

definition deliver_audio :: "seg_key \<Rightarrow> byte list option \<Rightarrow> 'k engine_loop \<Rightarrow> 'k engine_loop" where
  "deliver_audio k audio e =
     (case audio of
        Some (a # as) \<Rightarrow> send_audio k (a # as) (upd_seg k (\<lambda>s. s\<lparr>first_raw_audio_sent := True\<rparr>) e)
      | _ \<Rightarrow> e)"

text \<open>The pad controls and the delivery of the frame.\<close>

definition finish_frame :: "seg_key \<Rightarrow> nat \<Rightarrow> bool \<Rightarrow> byte list option \<Rightarrow> 'k engine_loop \<Rightarrow> 'k engine_loop" where
  "finish_frame k i pad audio e =
     (if pad
      then let e1 = upd_slot i (count_silence (el_cfg e) audio) e in
        if silence_over (el_cfg e) (kp_max_seq_len (el_pool e)) (slot_at i e1)
        then silence_abort k (pad_consecutive_silence (slot_at i e1)) e1
        else deliver_audio k audio e1
      else deliver_audio k audio e)"

definition guard_frame ::
    "(byte list \<Rightarrow> byte list) \<Rightarrow> seg_key \<Rightarrow> nat \<Rightarrow> bool \<Rightarrow> int option \<Rightarrow> byte list option \<Rightarrow> 'k engine_loop \<Rightarrow> 'k engine_loop" where
  "guard_frame fade k i pad token audio e =
     (case token of
        Some t \<Rightarrow>
          if lc_abort_frames (el_cfg e) = 0 then finish_frame k i pad audio e
          else let e1 = upd_seg k (note_token (el_cfg e) t) e in
            (case seg_of k e1 of
               None \<Rightarrow> e1
             | Some s \<Rightarrow>
                 (case loop_verdict (el_cfg e) (frame_idx (slot_at i e1)) s of
                    Some mode \<Rightarrow> loop_abort fade k mode (loop_ratio (frame_idx (slot_at i e1)) s) audio e1
                  | None \<Rightarrow> finish_frame k i pad audio e1))
      | None \<Rightarrow> finish_frame k i pad audio e)"

definition judge_frame ::
    "(byte list \<Rightarrow> byte list) \<Rightarrow> seg_key \<Rightarrow> nat \<Rightarrow> bool \<Rightarrow> 'k step_row \<Rightarrow> 'k engine_loop \<Rightarrow> 'k engine_loop" where
  "judge_frame fade k i pad row e =
     (if sr_eos row then handle_natural_eos k e
      else case sr_audio row of
          Some (a # as) \<Rightarrow>
            let e1 = record_audio_health k (a # as) e in
            if classify_audio_chunk (el_cfg e) (a # as) = InvalidAudio
            then retry_or_end k ''invalid_audio'' ''invalid_audio_abort'' 0
                   (case seg_of k e1 of None \<Rightarrow> True | Some s \<Rightarrow> \<not> audible_frame_seen s) e1
            else guard_frame fade k i pad (sr_token row) (sr_audio row) e1
        | _ \<Rightarrow> guard_frame fade k i pad (sr_token row) (sr_audio row) e)"

definition process_row :: "(byte list \<Rightarrow> byte list) \<Rightarrow> rat \<Rightarrow> nat \<Rightarrow> 'k step_row \<Rightarrow> 'k engine_loop \<Rightarrow> 'k engine_loop" where
  "process_row fade now batch_size row e =
     (let i = sr_slot row in
      case map_of (el_seg_by_slot e) i of
        None \<Rightarrow> e
      | Some k \<Rightarrow>
          (case seg_of k e of
             None \<Rightarrow> e
           | Some s \<Rightarrow>
               let e1 = upd_seg k (\<lambda>s. s\<lparr>max_decode_batch := max (max_decode_batch s) batch_size\<rparr>) e;
                   e2 = upd_slot i (advance_slot now (sr_eos row)) e1;
                   e3 = e2\<lparr>el_mlfq := on_step_done (es_meta s) (el_mlfq e2)\<rparr>;
                   pad = in_pad (es_input_complete s) (sr_eos row) (sr_codec row) (slot_at i e3);
                   e4 = upd_slot i (feed_slot (es_input_complete s) (sr_eos row) (sr_codec row)) e3
               in judge_frame fade k i pad row e4))"

text \<open>
  The step's cache columns: the Talker columns of the whole batch before the rows are judged, the
  Code2Wav frames of the slots that are still in use afterwards.
\<close>

definition c2w_rows :: "'k step_row list \<Rightarrow> 'k engine_loop \<Rightarrow> 'k step_row list" where
  "c2w_rows rows e =
     filter (\<lambda>r. \<not> sr_eos r \<and> sr_slot r \<in> fst ` set (el_seg_by_slot e) \<and> c2w_pooled (slot_at (sr_slot r) e)) rows"

definition process_step_output ::
    "(byte list \<Rightarrow> byte list) \<Rightarrow> rat \<Rightarrow> 'k::zero step_row list \<Rightarrow> 'k engine_loop \<Rightarrow> 'k engine_loop" where
  "process_step_output fade now rows e =
     (let e1 = e\<lparr>el_pool := fst (scatter_talker_kv_delta (map sr_slot rows) (map sr_talker rows) (map sr_past_len rows) (el_pool e))\<rparr>;
          e2 = fold (process_row fade now (length rows)) rows e1;
          live = filter (\<lambda>r. c2w_pooled (slot_at (sr_slot r) e2) \<and> \<not> is_free (slot_at (sr_slot r) e2)) (c2w_rows rows e1)
      in if live = [] then e2
         else fold (\<lambda>r. upd_slot (sr_slot r) (\<lambda>sl. sl\<lparr>c2w_len := min (Suc (c2w_len sl)) (kp_window (el_pool e2) - 1)\<rparr>)) live
                (e2\<lparr>el_pool := fst (append_c2w_frames (map sr_slot live) (map sr_c2w live) (el_pool e2))\<rparr>))"
section \<open>Idle slots and timeouts\<close>

text \<open>
  The eviction loop; \<open>None\<close> means that the fuel did not suffice. A session that waits for text keeps
  its slot. All times of one pass are the same instant.
\<close>

fun evict_loop :: "nat \<Rightarrow> rat \<Rightarrow> 'k engine_loop \<Rightarrow> 'k engine_loop option" where
  "evict_loop fuel now e =
     (case find_eviction_candidate now (lc_max_idle_sec (el_cfg e)) (el_pool e) of
        None \<Rightarrow> Some e
      | Some c \<Rightarrow>
          (case fuel of
             0 \<Rightarrow> None
           | Suc n \<Rightarrow>
               let i = slot_id c; key = map_of (el_seg_by_slot e) i in
               (case (case key of None \<Rightarrow> None | Some k \<Rightarrow> map_option (Pair k) (seg_of k e)) of
                  None \<Rightarrow>
                    evict_loop n now (e\<lparr>el_pool := fst (force_evict i (el_pool e)), el_seg_by_slot := dict_pop i (el_seg_by_slot e)\<rparr>)
                | Some (k, s) \<Rightarrow>
                    if is_waiting_for_text s e then evict_loop n now (upd_slot i (touch now) e)
                    else
                      let e1 = e\<lparr>el_pool := fst (force_evict i (el_pool e)), el_seg_by_slot := dict_pop i (el_seg_by_slot e)\<rparr>;
                          e2 = upd_seg k (\<lambda>s. s\<lparr>es_state := SegEvicted, es_slot := None\<rparr>) e1;
                          e3 = send_result (LoopError (fst k) (snd k) ''Slot evicted: idle'') e2
                      in evict_loop n now (remove_session (fst k) (e3\<lparr>el_total_evictions := Suc (el_total_evictions e3)\<rparr>)))))"

declare evict_loop.simps [simp del]

definition try_evict_idle_slots :: "nat \<Rightarrow> rat \<Rightarrow> 'k engine_loop \<Rightarrow> 'k engine_loop option" where
  "try_evict_idle_slots fuel now e =
     (if now - el_last_eviction_check e < 1 then Some e
      else evict_loop fuel now (e\<lparr>el_last_eviction_check := now\<rparr>))"

definition timeout_session :: "string \<Rightarrow> 'k engine_loop \<Rightarrow> 'k engine_loop" where
  "timeout_session sid e =
     (if sid \<in> fst ` set (el_groups e)
      then remove_session sid (send_result (LoopError sid 0 ''Session timeout'') (e\<lparr>el_total_timeouts := Suc (el_total_timeouts e)\<rparr>))
      else e)"

definition try_timeout_sessions :: "rat \<Rightarrow> 'k engine_loop \<Rightarrow> 'k engine_loop" where
  "try_timeout_sessions now e =
     (if lc_session_timeout_sec (el_cfg e) \<le> 0 then e
      else fold timeout_session
             (map fst (filter (\<lambda>(_, g). lc_session_timeout_sec (el_cfg e) < now - eg_created_at g) (el_groups e))) e)"

definition all_active_metas :: "'k engine_loop \<Rightarrow> nat list" where
  "all_active_metas e = map (es_meta \<circ> snd) (filter (\<lambda>(_, s). es_state s = Active) (all_segments e))"

section \<open>Runs of the loop\<close>

text \<open>
  The phases of \<open>_run_inner\<close> with what their environment supplies: requests put into the inbox, the
  clock, the outcome of prefills, the rows of a decode step. The loop runs them in a fixed order; the
  properties below hold for every order.
\<close>

datatype 'k loop_phase =
    Submit engine_request
  | Drain "int option" "rat option" "nat \<Rightarrow> rat" rat
  | Prefill "int \<Rightarrow> string" rat "string \<Rightarrow> nat option" "seg_key \<Rightarrow> prefill_outcome"
  | Launch
  | StepDone "byte list \<Rightarrow> byte list" rat "'k step_row list"
  | EvictIdle rat
  | Timeouts rat
  | Tick

fun loop_exec :: "'k::zero loop_phase \<Rightarrow> 'k engine_loop \<Rightarrow> 'k engine_loop" where
  "loop_exec (Submit r) e = e\<lparr>el_inbox := el_inbox e @ [r]\<rparr>"
| "loop_exec (Drain m b elapsed now) e = drain_inbox m b elapsed now e"
| "loop_exec (Prefill show_idx now hit pf) e = prefill_phase show_idx now hit pf e"
| "loop_exec Launch e = fst (get_active_slots_mlfq e)"
| "loop_exec (StepDone fade now rows) e = process_step_output fade now rows e"
| "loop_exec (EvictIdle now) e =
     (case try_evict_idle_slots (Suc (kp_max_slots (el_pool e))) now e of None \<Rightarrow> e | Some e' \<Rightarrow> e')"
| "loop_exec (Timeouts now) e = try_timeout_sessions now e"
| "loop_exec Tick e = e\<lparr>el_total_steps := Suc (el_total_steps e), el_mlfq := fst (tick (all_active_metas e) (el_mlfq e))\<rparr>"
section \<open>Views of the state\<close>

definition slot_of :: "seg_key \<Rightarrow> 'k engine_loop \<Rightarrow> nat option" where
  "slot_of k e = (case seg_of k e of None \<Rightarrow> None | Some s \<Rightarrow> es_slot s)"

definition registered :: "string \<Rightarrow> 'k engine_loop \<Rightarrow> bool" where
  "registered sid e \<longleftrightarrow> sid \<in> fst ` set (el_groups e)"

lemma upd_entry_lookup [simp]: "map_of (upd_entry k f d) x = (if x = k then map_option f (map_of d k) else map_of d x)"
  unfolding upd_entry_def by (induction d) auto

lemma upd_entry_keys [simp]: "map fst (upd_entry k f d) = map fst d" "fst ` set (upd_entry k f d) = fst ` set d"
  unfolding upd_entry_def by (induction d) auto

lemma upd_entry_absent: "k \<notin> fst ` set d \<Longrightarrow> upd_entry k f d = d"
  unfolding upd_entry_def by (induction d) auto

lemma upd_entry_comp: "upd_entry k f (upd_entry k g d) = upd_entry k (f \<circ> g) d"
  unfolding upd_entry_def by (induction d) auto

lemma registered_lookup: "registered sid e \<longleftrightarrow> map_of (el_groups e) sid \<noteq> None"
  by (simp add: registered_def map_of_eq_None_iff)

lemma upd_group_fields [simp]:
  "el_seg_by_slot (upd_group sid f e) = el_seg_by_slot e" "el_pool (upd_group sid f e) = el_pool e"
  "el_out (upd_group sid f e) = el_out e" "el_cfg (upd_group sid f e) = el_cfg e" "el_defer (upd_group sid f e) = el_defer e"
  "el_mlfq (upd_group sid f e) = el_mlfq e" "el_next_meta (upd_group sid f e) = el_next_meta e"
  "map fst (el_groups (upd_group sid f e)) = map fst (el_groups e)" "registered x (upd_group sid f e) = registered x e"
  "el_inbox (upd_group sid f e) = el_inbox e"
  by (simp_all add: upd_group_def registered_def)

lemma upd_seg_fields [simp]:
  "el_seg_by_slot (upd_seg k f e) = el_seg_by_slot e" "el_pool (upd_seg k f e) = el_pool e"
  "el_out (upd_seg k f e) = el_out e" "el_cfg (upd_seg k f e) = el_cfg e" "el_defer (upd_seg k f e) = el_defer e"
  "el_mlfq (upd_seg k f e) = el_mlfq e" "el_next_meta (upd_seg k f e) = el_next_meta e"
  "map fst (el_groups (upd_seg k f e)) = map fst (el_groups e)" "registered x (upd_seg k f e) = registered x e"
  "slot_at i (upd_seg k f e) = slot_at i e" "el_inbox (upd_seg k f e) = el_inbox e"
  by (simp_all add: upd_seg_def slot_at_def)

lemma upd_slot_fields [simp]:
  "el_seg_by_slot (upd_slot i f e) = el_seg_by_slot e" "el_groups (upd_slot i f e) = el_groups e"
  "el_out (upd_slot i f e) = el_out e" "el_cfg (upd_slot i f e) = el_cfg e" "el_defer (upd_slot i f e) = el_defer e"
  "el_mlfq (upd_slot i f e) = el_mlfq e" "el_pool (upd_slot i f e) = map_slot i f (el_pool e)"
  "registered x (upd_slot i f e) = registered x e" "seg_of k (upd_slot i f e) = seg_of k e" "slot_of k (upd_slot i f e) = slot_of k e"
  by (simp_all add: upd_slot_def registered_def seg_of_def slot_of_def)

lemma send_fields [simp]:
  "el_seg_by_slot (send_result r e) = el_seg_by_slot e" "el_groups (send_result r e) = el_groups e"
  "el_pool (send_result r e) = el_pool e" "el_cfg (send_result r e) = el_cfg e" "el_out (send_result r e) = el_out e @ [r]"
  "seg_of k (send_result r e) = seg_of k e" "registered x (send_result r e) = registered x e" "slot_of k (send_result r e) = slot_of k e"
  "slot_at i (send_result r e) = slot_at i e" "el_defer (send_result r e) = el_defer e"
  by (simp_all add: send_result_def seg_of_def registered_def slot_of_def slot_at_def)

lemma seg_of_upd_seg [simp]: "seg_of x (upd_seg k f e) = (if x = k then map_option f (seg_of k e) else seg_of x e)"
  by (cases x; cases k) (auto simp: seg_of_def upd_seg_def upd_group_def split: option.split)

lemma seg_of_upd_group:
  "(\<And>g. eg_segments (f g) = eg_segments g) \<Longrightarrow> seg_of x (upd_group sid f e) = seg_of x e"
  by (auto simp: seg_of_def upd_group_def split: option.split)

lemma slot_of_upd_seg_keep:
  "(\<And>s. es_slot (f s) = es_slot s) \<Longrightarrow> slot_of x (upd_seg k f e) = slot_of x e"
  by (simp add: slot_of_def split: option.split)

lemma slot_of_upd_seg_set:
  "slot_of x (upd_seg k f e) = (if x = k then (case seg_of k e of None \<Rightarrow> None | Some s \<Rightarrow> es_slot (f s)) else slot_of x e)"
  by (simp add: slot_of_def split: option.split)

lemma upd_seg_comp: "upd_seg k f (upd_seg k g e) = upd_seg k (f \<circ> g) e"
proof -
  have "upd_entry sid (\<lambda>g. g\<lparr>eg_segments := F (eg_segments g)\<rparr>) (upd_entry sid (\<lambda>g. g\<lparr>eg_segments := G (eg_segments g)\<rparr>) d) =
      upd_entry sid (\<lambda>g. g\<lparr>eg_segments := F (G (eg_segments g))\<rparr>) d" for sid F G and d :: "(string \<times> engine_group) list"
    by (simp add: upd_entry_comp comp_def)
  then show ?thesis by (simp add: upd_seg_def upd_group_def upd_entry_comp)
qed

section \<open>Ownership of slots\<close>

text \<open>\<open>holds k = Some i\<close>: segment \<open>k\<close> holds slot \<open>i\<close>; \<open>owner\<close> is the table by slot, \<open>taken\<close> the slots in use.\<close>

definition own_ok :: "(seg_key \<Rightarrow> nat option) \<Rightarrow> (nat \<Rightarrow> seg_key option) \<Rightarrow> nat set \<Rightarrow> bool" where
  "own_ok holds owner taken \<longleftrightarrow> (\<forall>i k. owner i = Some k \<longleftrightarrow> holds k = Some i) \<and> dom owner = taken"

lemma own_ok_drop:
  "own_ok holds owner taken \<Longrightarrow> holds k = Some i \<Longrightarrow> own_ok (holds(k := None)) (owner(i := None)) (taken - {i})"
proof -
  assume a: "own_ok holds owner taken" and k: "holds k = Some i"
  have o: "owner j = Some k' \<longleftrightarrow> holds k' = Some j" for j k' using a unfolding own_ok_def by blast
  have "(owner(i := None)) j = Some k' \<longleftrightarrow> (holds(k := None)) k' = Some j" for j k'
    using o [of j k'] o [of i k'] o [of j k] o [of i k] k by (cases "j = i"; cases "k' = k") auto
  moreover have "dom (owner(i := None)) = taken - {i}" using a by (auto simp: own_ok_def)
  ultimately show ?thesis unfolding own_ok_def by blast
qed

lemma own_ok_take:
  "own_ok holds owner taken \<Longrightarrow> holds k = None \<Longrightarrow> i \<notin> taken \<Longrightarrow> own_ok (holds(k := Some i)) (owner(i \<mapsto> k)) (insert i taken)"
  unfolding own_ok_def by (auto simp: dom_def)

lemma own_ok_taken: "own_ok holds owner taken \<Longrightarrow> holds k = Some i \<Longrightarrow> i \<in> taken"
  unfolding own_ok_def by (metis domI)

lemma own_ok_inj: "own_ok holds owner taken \<Longrightarrow> holds k = Some i \<Longrightarrow> holds k' = Some i \<Longrightarrow> k = k'"
  unfolding own_ok_def by (metis option.inject)

definition dicts_ok :: "'k engine_loop \<Rightarrow> bool" where
  "dicts_ok e \<longleftrightarrow> distinct (map fst (el_groups e)) \<and> (\<forall>(sid, g) \<in> set (el_groups e). distinct (map fst (eg_segments g)))"

definition slots_ok :: "'k engine_loop \<Rightarrow> bool" where
  "slots_ok e \<longleftrightarrow> pool_ok (el_pool e) \<and> dicts_ok e \<and>
     own_ok (\<lambda>k. slot_of k e) (map_of (el_seg_by_slot e)) (owned (el_pool e))"

lemma slots_ok_frame:
  "slots_ok e \<Longrightarrow> el_groups e' = el_groups e \<Longrightarrow> el_seg_by_slot e' = el_seg_by_slot e \<Longrightarrow> el_pool e' = el_pool e \<Longrightarrow> slots_ok e'"
  by (simp add: slots_ok_def dicts_ok_def slot_of_def seg_of_def)

lemma same_owners_owned: "same_owners p p' \<Longrightarrow> owned p' = owned p"
  by (simp add: same_owners_def owned_def)

lemma slots_ok_pool:
  "slots_ok e \<Longrightarrow> pool_ok p \<Longrightarrow> same_owners (el_pool e) p \<Longrightarrow> slots_ok (e\<lparr>el_pool := p\<rparr>)"
  by (simp add: slots_ok_def dicts_ok_def slot_of_def seg_of_def same_owners_owned)

definition keeps_owner :: "('e slot_kv_state \<Rightarrow> 'e slot_kv_state) \<Rightarrow> bool" where
  "keeps_owner f \<longleftrightarrow> (\<forall>s. slot_id (f s) = slot_id s \<and> is_free (f s) = is_free s \<and> allocation_epoch (f s) = allocation_epoch s)"

lemma slots_ok_upd_slot: "slots_ok e \<Longrightarrow> keeps_owner f \<Longrightarrow> slots_ok (upd_slot i f e)"
proof -
  assume a: "slots_ok e" and "keeps_owner f"
  then have "pool_ok (map_slot i f (el_pool e)) \<and> same_owners (el_pool e) (map_slot i f (el_pool e))"
    by (intro map_slot_ok) (auto simp: slots_ok_def keeps_owner_def)
  with a show ?thesis unfolding upd_slot_def by (intro slots_ok_pool) auto
qed

lemma dicts_ok_upd_group:
  "dicts_ok e \<Longrightarrow> (\<And>g. distinct (map fst (eg_segments g)) \<Longrightarrow> distinct (map fst (eg_segments (f g)))) \<Longrightarrow> dicts_ok (upd_group sid f e)"
proof -
  assume a: "dicts_ok e" and f: "\<And>g. distinct (map fst (eg_segments g)) \<Longrightarrow> distinct (map fst (eg_segments (f g)))"
  have "\<forall>(x, g) \<in> set (upd_entry sid f (el_groups e)). distinct (map fst (eg_segments g))"
    using a f by (auto simp: dicts_ok_def upd_entry_def)
  then show ?thesis using a by (simp add: dicts_ok_def upd_group_def)
qed

lemma dicts_ok_upd_seg: "dicts_ok e \<Longrightarrow> dicts_ok (upd_seg k f e)"
  unfolding upd_seg_def by (rule dicts_ok_upd_group) auto

lemma slots_ok_upd_seg: "slots_ok e \<Longrightarrow> (\<And>s. es_slot (f s) = es_slot s) \<Longrightarrow> slots_ok (upd_seg k f e)"
  by (simp add: slots_ok_def dicts_ok_upd_seg slot_of_upd_seg_keep)

lemma slots_ok_upd_group: "slots_ok e \<Longrightarrow> (\<And>g. eg_segments (f g) = eg_segments g) \<Longrightarrow> slots_ok (upd_group sid f e)"
  by (simp add: slots_ok_def dicts_ok_upd_group slot_of_def seg_of_upd_group)

lemma release_slot_id_fields [simp]:
  "el_groups (release_slot_id i e) = el_groups e" "el_out (release_slot_id i e) = el_out e" "el_cfg (release_slot_id i e) = el_cfg e"
  "seg_of k (release_slot_id i e) = seg_of k e" "slot_of k (release_slot_id i e) = slot_of k e" "registered x (release_slot_id i e) = registered x e"
  "map_of (el_seg_by_slot (release_slot_id i e)) = (map_of (el_seg_by_slot e))(i := None)" "el_defer (release_slot_id i e) = el_defer e"
  by (simp_all add: release_slot_id_def seg_of_def slot_of_def registered_def)

lemma release_slot_id_pool:
  assumes "pool_ok (el_pool e)" and "i \<in> owned (el_pool e)"
  shows "pool_ok (el_pool (release_slot_id i e)) \<and> owned (el_pool (release_slot_id i e)) = owned (el_pool e) - {i} \<and>
    kp_max_slots (el_pool (release_slot_id i e)) = kp_max_slots (el_pool e) \<and>
    (\<forall>j. j \<noteq> i \<longrightarrow> slot_at j (release_slot_id i e) = slot_at j e)"
proof -
  obtain p r where r: "release i (Some (allocation_epoch (slot_at i e))) (el_pool e) = (p, r)" by force
  have "i < length (kp_slots (el_pool e))" using assms by (simp add: pool_ok_def owned_def)
  then have "r = Inr ()" using r by (auto simp: release_def slot_at_def split: if_splits)
  then show ?thesis using release_spec [OF assms(1) r] r by (simp add: release_slot_id_def slot_at_def)
qed

lemma slots_ok_release:
  assumes "slots_ok e" and "seg_of k e = Some s" and "es_slot s = Some i" and "\<And>s. es_slot (f s) = None"
  shows "slots_ok (upd_seg k f (release_slot_id i e))"
proof -
  have h: "slot_of k e = Some i" using assms(2,3) by (simp add: slot_of_def)
  have ok: "pool_ok (el_pool e)" "own_ok (\<lambda>k. slot_of k e) (map_of (el_seg_by_slot e)) (owned (el_pool e))" "dicts_ok e"
    using assms(1) by (auto simp: slots_ok_def)
  note p = release_slot_id_pool [OF ok(1) own_ok_taken [OF ok(2) h]]
  have "(\<lambda>x. slot_of x (upd_seg k f (release_slot_id i e))) = (\<lambda>x. slot_of x e)(k := None)"
    using assms(2,4) by (auto simp: fun_eq_iff slot_of_upd_seg_set)
  moreover have "dicts_ok (upd_seg k f (release_slot_id i e))"
    using ok(3) by (intro dicts_ok_upd_seg) (simp add: dicts_ok_def)
  ultimately show ?thesis using p own_ok_drop [OF ok(2) h] by (simp add: slots_ok_def)
qed

lemma release_all_held:
  "pool_ok (el_pool e) \<Longrightarrow> own_ok holds (map_of (el_seg_by_slot e)) (owned (el_pool e)) \<Longrightarrow>
   distinct (map fst xs) \<Longrightarrow> (\<forall>(idx, s) \<in> set xs. holds (sid, idx) = es_slot s) \<Longrightarrow>
   (let e' = fold (\<lambda>(_, s). release_held s) xs e in
     pool_ok (el_pool e') \<and> kp_max_slots (el_pool e') = kp_max_slots (el_pool e) \<and>
     own_ok (\<lambda>k. if fst k = sid \<and> snd k \<in> fst ` set xs then None else holds k) (map_of (el_seg_by_slot e')) (owned (el_pool e')) \<and>
     (\<forall>k i. \<not> (fst k = sid \<and> snd k \<in> fst ` set xs) \<longrightarrow> holds k = Some i \<longrightarrow> slot_at i e' = slot_at i e) \<and>
     el_groups e' = el_groups e \<and> el_out e' = el_out e \<and> el_cfg e' = el_cfg e \<and> el_defer e' = el_defer e)"
proof (induction xs arbitrary: e holds)
  case (Cons x xs)
  obtain idx s where x: "x = (idx, s)" by force
  have hx: "holds (sid, idx) = es_slot s" using Cons.prems(4) x by simp
  have ni: "idx \<notin> fst ` set xs" using Cons.prems(3) x by simp
  let ?h = "holds((sid, idx) := None)" and ?e = "release_held s e"
  have step: "pool_ok (el_pool ?e) \<and> kp_max_slots (el_pool ?e) = kp_max_slots (el_pool e) \<and>
      own_ok ?h (map_of (el_seg_by_slot ?e)) (owned (el_pool ?e)) \<and>
      (\<forall>k i. k \<noteq> (sid, idx) \<longrightarrow> holds k = Some i \<longrightarrow> slot_at i ?e = slot_at i e) \<and>
      el_groups ?e = el_groups e \<and> el_out ?e = el_out e \<and> el_cfg ?e = el_cfg e \<and> el_defer ?e = el_defer e"
  proof (cases "es_slot s")
    case None
    then have "?h = holds" using hx by auto
    then show ?thesis using Cons.prems None by (simp add: release_held_def)
  next
    case (Some i)
    have h: "holds (sid, idx) = Some i" using hx Some by simp
    note p = release_slot_id_pool [OF Cons.prems(1) own_ok_taken [OF Cons.prems(2) h]]
    have "j \<noteq> i" if "k \<noteq> (sid, idx)" "holds k = Some j" for k j
      using own_ok_inj [OF Cons.prems(2) h] that by blast
    then show ?thesis using Some p own_ok_drop [OF Cons.prems(2) h] by (auto simp: release_held_def)
  qed
  have "\<forall>(idx', s') \<in> set xs. ?h (sid, idx') = es_slot s'" using Cons.prems(4) ni by force
  then have ih: "let e' = fold (\<lambda>(_, s). release_held s) xs ?e in
     pool_ok (el_pool e') \<and> kp_max_slots (el_pool e') = kp_max_slots (el_pool ?e) \<and>
     own_ok (\<lambda>k. if fst k = sid \<and> snd k \<in> fst ` set xs then None else ?h k) (map_of (el_seg_by_slot e')) (owned (el_pool e')) \<and>
     (\<forall>k i. \<not> (fst k = sid \<and> snd k \<in> fst ` set xs) \<longrightarrow> ?h k = Some i \<longrightarrow> slot_at i e' = slot_at i ?e) \<and>
     el_groups e' = el_groups ?e \<and> el_out e' = el_out ?e \<and> el_cfg e' = el_cfg ?e \<and> el_defer e' = el_defer ?e"
    by (intro Cons.IH) (use step Cons.prems(3) x in \<open>simp_all del: fun_upd_apply\<close>)
  have heq: "(\<lambda>k. if fst k = sid \<and> snd k \<in> fst ` set xs then None else ?h k) =
      (\<lambda>k. if fst k = sid \<and> snd k \<in> fst ` set (x # xs) then None else holds k)"
    by (auto simp: fun_eq_iff x prod_eq_iff)
  let ?e' = "fold (\<lambda>(_, s). release_held s) xs ?e"
  have "slot_at i ?e' = slot_at i e" if k: "\<not> (fst k = sid \<and> snd k \<in> fst ` set (x # xs))" "holds k = Some i" for k i
  proof -
    have n: "k \<noteq> (sid, idx)" "\<not> (fst k = sid \<and> snd k \<in> fst ` set xs)" using k(1) x by auto
    from n(1) k(2) have h: "?h k = Some i" by simp
    have "slot_at i ?e' = slot_at i ?e" using ih [unfolded Let_def] n(2) h by blast
    also have "\<dots> = slot_at i e" using step n(1) k(2) by blast
    finally show ?thesis .
  qed
  then show ?case
    using ih step unfolding Let_def heq by (simp add: x)
qed simp
end
