(* ===== verification/Engine_Steps.thy ===== *)
theory Engine_Steps
  imports Engine_Loop
begin

text \<open>
  The engine loop as a transition system: \<open>micro\<close> lists the elementary steps its phases are made of,
  rule induction over them gives the invariants of slots, text and results, and each phase of
  \<open>Engine_Loop\<close> is shown to be a sequence of such steps.
\<close>

section \<open>Elementary steps\<close>

declare split_paired_All [simp del] split_paired_Ex [simp del]

lemma seg_of_updates [simp]:
  "seg_of k (e\<lparr>el_pool := p\<rparr>) = seg_of k e" "seg_of k (e\<lparr>el_pool := p, el_seg_by_slot := m\<rparr>) = seg_of k e"
  "seg_of k (e\<lparr>el_mlfq := q\<rparr>) = seg_of k e" "seg_of k (e\<lparr>el_out := rs\<rparr>) = seg_of k e"
  "seg_of k (e\<lparr>el_total_eos := n\<rparr>) = seg_of k e" "seg_of k (e\<lparr>el_total_prefills := n\<rparr>) = seg_of k e"
  "registered x (e\<lparr>el_pool := p\<rparr>) = registered x e" "registered x (e\<lparr>el_pool := p, el_seg_by_slot := m\<rparr>) = registered x e"
  "seg_of k (e\<lparr>el_defer := d\<rparr>) = seg_of k e" "seg_of k (e\<lparr>el_mlfq := q, el_next_meta := n\<rparr>) = seg_of k e"
  by (simp_all add: seg_of_def registered_def)

fun terminal :: "loop_result \<Rightarrow> bool" where
  "terminal (LoopDone _ _) = True"
| "terminal (LoopError _ _ _) = True"
| "terminal _ = False"

definition texts :: "embed list \<Rightarrow> int list" where
  "texts xs = List.map_filter (\<lambda>x. case x of TextEmbed t \<Rightarrow> Some t | _ \<Rightarrow> None) xs"

text \<open>The text in a prompt: the tokens embedded alone or side by side with codec vectors.\<close>

fun text_of :: "embed \<Rightarrow> int list" where
  "text_of (TextEmbed t) = [t]"
| "text_of (Plus (TextEmbed t) x) = [t]"
| "text_of x = []"

definition text_track :: "embed list \<Rightarrow> int list" where
  "text_track xs = concat (map text_of xs)"

text \<open>
  The text in front of the tokens of a segment: that of the prompt's head and, when a reference voice is
  replayed, the reference text.
\<close>

definition prompt_lead :: "prompt_inputs \<Rightarrow> int list" where
  "prompt_lead inp =
     text_track (pi_head inp) @ (if pi_task inp = VOICE_CLONE_ICL \<and> pi_ref_codec inp \<noteq> None then pi_ref_ids inp else [])"

text \<open>
  The plan was built from the first tokens of \<open>ids\<close>, and its prompt continued by \<open>rest\<close> speaks, behind the
  lead, exactly \<open>ids\<close>.
\<close>

definition prompt_covers :: "prefill_plan \<Rightarrow> int list \<Rightarrow> int list \<Rightarrow> bool" where
  "prompt_covers plan rest ids \<longleftrightarrow>
     (\<exists>inp m eos. m \<le> length ids \<and> build_plan_from_ids inp (take m ids) eos = Inr plan \<and>
        text_track (prefill_embeds plan) @ rest = prompt_lead inp @ ids)"

definition keeps_text :: "(engine_segment \<Rightarrow> engine_segment) \<Rightarrow> bool" where
  "keeps_text f \<longleftrightarrow> (\<forall>s. es_slot (f s) = es_slot s \<and> es_state (f s) = es_state s \<and> es_prefill_plan (f s) = es_prefill_plan s \<and>
     pending_token_ids (f s) = pending_token_ids s \<and> deferred_token_ids (f s) = deferred_token_ids s)"

definition keeps_trailing :: "(embed slot_kv_state \<Rightarrow> embed slot_kv_state) \<Rightarrow> bool" where
  "keeps_trailing f \<longleftrightarrow> (\<forall>s. sl_trailing (f s) = sl_trailing s \<and> prefill_source (f s) = prefill_source s \<and>
     (text_idx s \<le> length (sl_trailing s) \<longrightarrow> text_idx (f s) \<le> length (sl_trailing s)))"

text \<open>The text a slot has left to speak belongs to the tokens of its segment.\<close>

definition fed_exactly :: "engine_segment \<Rightarrow> embed slot_kv_state \<Rightarrow> bool" where
  "fed_exactly s sl \<longleftrightarrow> text_idx sl \<le> length (sl_trailing sl) \<and>
     (if prefill_source sl = ''full_prefill''
      then \<exists>plan. es_prefill_plan s = Some plan \<and>
             prompt_covers plan (texts (sl_trailing sl) @ deferred_token_ids s) (pending_token_ids s)
      else pending_token_ids s \<noteq> [] \<and> texts (sl_trailing sl) @ deferred_token_ids s = tl (pending_token_ids s))"

lemma prompt_covers_append: "prompt_covers plan rest ids \<Longrightarrow> prompt_covers plan (rest @ new) (ids @ new)"
proof -
  assume "prompt_covers plan rest ids"
  then obtain inp m eos where "m \<le> length ids" "build_plan_from_ids inp (take m ids) eos = Inr plan"
    "text_track (prefill_embeds plan) @ rest = prompt_lead inp @ ids" unfolding prompt_covers_def by blast
  then have "m \<le> length (ids @ new) \<and> build_plan_from_ids inp (take m (ids @ new)) eos = Inr plan \<and>
      text_track (prefill_embeds plan) @ rest @ new = prompt_lead inp @ ids @ new"
    by (simp flip: append_assoc)
  then show ?thesis unfolding prompt_covers_def by blast
qed

text \<open>
  What the phases of the loop are made of. \<open>N\<close> are the sessions that may be registered, \<open>b\<close> says
  whether appended tokens may be deferred, \<open>A\<close> are the segments that may be given a slot.
\<close>

inductive micro :: "string set \<Rightarrow> bool \<Rightarrow> seg_key set \<Rightarrow> 'k::zero engine_loop \<Rightarrow> 'k engine_loop \<Rightarrow> bool" for N b A where
  frame: "el_groups e' = el_groups e \<Longrightarrow> el_seg_by_slot e' = el_seg_by_slot e \<Longrightarrow> el_pool e' = el_pool e \<Longrightarrow>
    el_out e' = el_out e \<Longrightarrow> el_inbox e' = el_inbox e \<Longrightarrow> el_defer e' = el_defer e \<Longrightarrow> micro N b A e e'"
| seg_note: "keeps_text f \<Longrightarrow> micro N b A e (upd_seg k f e)"
| slot_note: "keeps_owner f \<Longrightarrow> keeps_trailing f \<Longrightarrow> micro N b A e (upd_slot i f e)"
| rows: "pool_ok p \<Longrightarrow> same_owners (el_pool e) p \<Longrightarrow> kp_slots p = kp_slots (el_pool e) \<Longrightarrow> micro N b A e (e\<lparr>el_pool := p\<rparr>)"
| group_note: "(\<And>g. eg_segments (f g) = eg_segments g) \<Longrightarrow> micro N b A e (upd_group sid f e)"
| send: "registered (result_session r) e \<Longrightarrow> \<not> terminal r \<Longrightarrow> micro N b A e (send_result r e)"
| finish: "distinct (map result_session rs) \<Longrightarrow> \<forall>r \<in> set rs. registered (result_session r) e \<Longrightarrow>
    micro N b A e (fold remove_session (map result_session rs) (e\<lparr>el_out := el_out e @ rs\<rparr>))"
| drop_session: "sid \<in> N \<Longrightarrow> micro N b A e (remove_session sid e)"
| reject: "result_session r \<in> N \<Longrightarrow> \<not> registered (result_session r) e \<Longrightarrow> micro N b A e (send_result r e)"
| register: "sid \<in> N \<Longrightarrow> \<not> registered sid e \<Longrightarrow> eg_segments g = [] \<Longrightarrow>
    micro N b A e (e\<lparr>el_groups := dict_set sid g (el_groups e)\<rparr>)"
| start: "e0 = e \<or> e0 = release_segment_slot (sid, idx) e \<Longrightarrow> slot_of (sid, idx) e0 = None \<Longrightarrow>
    es_slot s = None \<Longrightarrow> es_state s = PendingPrefill \<Longrightarrow> deferred_token_ids s = [] \<Longrightarrow>
    micro N b A e (upd_group sid (\<lambda>g. g\<lparr>eg_segments := dict_set idx s (eg_segments g)\<rparr>) e0)"
| append_waiting: "seg_of k e = Some s \<Longrightarrow> es_state s \<noteq> Active \<or> es_slot s = None \<Longrightarrow>
    micro N b A e (upd_seg k (\<lambda>s. s\<lparr>pending_token_ids := pending_token_ids s @ ids, text_tokens_consumed := text_tokens_consumed s + length ids\<rparr>) e)"
| append_defer: "b \<Longrightarrow> seg_of k e = Some s \<Longrightarrow> es_state s = Active \<Longrightarrow> es_slot s \<noteq> None \<Longrightarrow>
    micro N b A e (upd_seg k (\<lambda>s. s\<lparr>pending_token_ids := pending_token_ids s @ ids, text_tokens_consumed := text_tokens_consumed s + length ids,
                                deferred_token_ids := deferred_token_ids s @ ids\<rparr>) e)"
| flush: "seg_of k e = Some s \<Longrightarrow> es_slot s = Some i \<Longrightarrow>
    micro N b A e (append_trailing_tokens i (deferred_token_ids s) (upd_seg k (\<lambda>s. s\<lparr>deferred_token_ids := []\<rparr>) e))"
| add_eos: "micro N b A e (upd_slot i (\<lambda>sl. sl\<lparr>sl_trailing := sl_trailing sl @ [EosEmbed]\<rparr>) e)"
| admit: "k \<in> A \<Longrightarrow> seg_of k e = Some s \<Longrightarrow> es_slot s = None \<Longrightarrow> es_state s \<noteq> Active \<Longrightarrow> allocate now name (el_pool e) = (p, Some i) \<Longrightarrow>
    micro N b A e (upd_seg k (\<lambda>s. s\<lparr>es_slot := Some i\<rparr>) (e\<lparr>el_pool := p, el_seg_by_slot := dict_set i k (el_seg_by_slot e)\<rparr>))"
| set_slot: "seg_of k e = Some s \<Longrightarrow> es_slot s = Some i \<Longrightarrow> es_state s \<noteq> Active \<Longrightarrow> keeps_owner f \<Longrightarrow> micro N b A e (upd_slot i f e)"
| set_plan: "seg_of k e = Some s \<Longrightarrow> es_state s \<noteq> Active \<Longrightarrow>
    (\<And>s. es_slot (f s) = es_slot s \<and> es_state (f s) = es_state s \<and> pending_token_ids (f s) = pending_token_ids s \<and>
      deferred_token_ids (f s) = deferred_token_ids s) \<Longrightarrow>
    micro N b A e (upd_seg k f e)"
| activate: "seg_of k e = Some s \<Longrightarrow> es_slot s = Some i \<Longrightarrow> fed_exactly s (slot_at i e) \<Longrightarrow>
    (\<And>s. es_slot (f s) = es_slot s \<and> es_state (f s) = Active \<and> es_prefill_plan (f s) = es_prefill_plan s \<and> pending_token_ids (f s) = pending_token_ids s \<and>
      deferred_token_ids (f s) = deferred_token_ids s) \<Longrightarrow>
    micro N b A e (upd_seg k f e)"
| deactivate: "slot_of k e = None \<Longrightarrow> (\<And>s. es_slot (f s) = es_slot s \<and> es_state (f s) \<noteq> Active \<and> pending_token_ids (f s) = pending_token_ids s \<and>
      deferred_token_ids (f s) = deferred_token_ids s) \<Longrightarrow> micro N b A e (upd_seg k f e)"
| release: "seg_of k e = Some s \<Longrightarrow> es_slot s = Some i \<Longrightarrow> deferred_token_ids s = [] \<Longrightarrow>
    (\<And>s. es_slot (f s) = None \<and> deferred_token_ids (f s) = deferred_token_ids s) \<Longrightarrow>
    micro N b A e (upd_seg k f (release_slot_id i e))"

lemma micro_mono: "micro N b A e e' \<Longrightarrow> N \<subseteq> M \<Longrightarrow> micro M b A e e'"
  by (induction rule: micro.induct) (auto intro: micro.intros)

lemma remove_session_spec:
  assumes "slots_ok e"
  shows "slots_ok (remove_session sid e) \<and> (\<forall>k. seg_of k (remove_session sid e) = (if fst k = sid then None else seg_of k e)) \<and>
    (\<forall>x. registered x (remove_session sid e) \<longleftrightarrow> registered x e \<and> x \<noteq> sid) \<and> el_out (remove_session sid e) = el_out e \<and>
    el_cfg (remove_session sid e) = el_cfg e \<and> el_defer (remove_session sid e) = el_defer e \<and>
    kp_max_slots (el_pool (remove_session sid e)) = kp_max_slots (el_pool e) \<and>
    (\<forall>k i. fst k \<noteq> sid \<longrightarrow> slot_of k e = Some i \<longrightarrow> slot_at i (remove_session sid e) = slot_at i e)"
proof (cases "map_of (el_groups e) sid")
  case None
  then have "\<not> registered sid e" by (simp add: registered_lookup)
  then show ?thesis using assms None by (auto simp: remove_session_def seg_of_def)
next
  case (Some g)
  let ?e0 = "e\<lparr>el_groups := dict_pop sid (el_groups e)\<rparr>"
  let ?e' = "remove_session sid e"
  have ok: "pool_ok (el_pool e)" "dicts_ok e" "own_ok (\<lambda>k. slot_of k e) (map_of (el_seg_by_slot e)) (owned (el_pool e))"
    using assms by (auto simp: slots_ok_def)
  have dg: "distinct (map fst (eg_segments g))" using ok(2) map_of_SomeD [OF Some] by (auto simp: dicts_ok_def)
  have "slot_of (sid, idx) e = es_slot s" if "(idx, s) \<in> set (eg_segments g)" for idx s
    using map_of_is_SomeI [OF dg that] Some by (simp add: slot_of_def seg_of_def)
  then have "\<forall>(idx, s) \<in> set (eg_segments g). slot_of (sid, idx) e = es_slot s" by blast
  from release_all_held [of ?e0 "\<lambda>k. slot_of k e", OF _ _ dg this]
  have R: "pool_ok (el_pool ?e') \<and> kp_max_slots (el_pool ?e') = kp_max_slots (el_pool e) \<and>
     own_ok (\<lambda>k. if fst k = sid \<and> snd k \<in> fst ` set (eg_segments g) then None else slot_of k e)
       (map_of (el_seg_by_slot ?e')) (owned (el_pool ?e')) \<and>
     (\<forall>k i. \<not> (fst k = sid \<and> snd k \<in> fst ` set (eg_segments g)) \<longrightarrow> slot_of k e = Some i \<longrightarrow> slot_at i ?e' = slot_at i ?e0) \<and>
     el_groups ?e' = dict_pop sid (el_groups e) \<and> el_out ?e' = el_out e \<and> el_cfg ?e' = el_cfg e \<and> el_defer ?e' = el_defer e"
    using ok by (simp add: remove_session_def Some Let_def)
  have segs: "seg_of k ?e' = (if fst k = sid then None else seg_of k e)" for k
    using R by (auto simp: seg_of_def)
  have "slot_of k ?e' = (if fst k = sid \<and> snd k \<in> fst ` set (eg_segments g) then None else slot_of k e)" for k
  proof (cases "fst k = sid")
    case True
    then have "seg_of k e = map_of (eg_segments g) (snd k)" using Some by (simp add: seg_of_def)
    then have "slot_of k e = None" if "snd k \<notin> fst ` set (eg_segments g)"
      using that by (simp add: slot_of_def map_of_eq_None_iff [THEN iffD2])
    then show ?thesis using True segs [of k] by (auto simp: slot_of_def)
  qed (simp add: slot_of_def segs)
  then have sl: "(\<lambda>k. slot_of k ?e') = (\<lambda>k. if fst k = sid \<and> snd k \<in> fst ` set (eg_segments g) then None else slot_of k e)"
    by (rule ext)
  have "dicts_ok ?e'" using ok(2) R dict_pop_subset [of sid "el_groups e"] by (auto simp: dicts_ok_def)
  then have "slots_ok ?e'" using R by (simp add: slots_ok_def sl)
  moreover have "registered x ?e' \<longleftrightarrow> registered x e \<and> x \<noteq> sid" for x using R by (auto simp: registered_def)
  moreover have "slot_at i ?e' = slot_at i e" if "fst k \<noteq> sid" "slot_of k e = Some i" for k i
  proof -
    have "slot_at i ?e' = slot_at i ?e0" using R that by blast
    then show ?thesis by (simp add: slot_at_def)
  qed
  ultimately show ?thesis using R segs by blast
qed

lemma remove_sessions_spec:
  "slots_ok e \<Longrightarrow>
   slots_ok (fold remove_session sids e) \<and> (\<forall>k. seg_of k (fold remove_session sids e) = (if fst k \<in> set sids then None else seg_of k e)) \<and>
    (\<forall>x. registered x (fold remove_session sids e) \<longleftrightarrow> registered x e \<and> x \<notin> set sids) \<and> el_out (fold remove_session sids e) = el_out e \<and>
    el_cfg (fold remove_session sids e) = el_cfg e \<and> el_defer (fold remove_session sids e) = el_defer e \<and>
    kp_max_slots (el_pool (fold remove_session sids e)) = kp_max_slots (el_pool e) \<and>
    (\<forall>k i. fst k \<notin> set sids \<longrightarrow> slot_of k e = Some i \<longrightarrow> slot_at i (fold remove_session sids e) = slot_at i e)"
proof (induction sids arbitrary: e)
  case (Cons sid sids)
  note r = remove_session_spec [OF Cons.prems, of sid]
  have ok: "slots_ok (remove_session sid e)" using r by blast
  note ih = Cons.IH [OF ok]
  have sl: "slot_of k (remove_session sid e) = slot_of k e" if "fst k \<noteq> sid" for k
  proof -
    have "seg_of k (remove_session sid e) = seg_of k e" using r that by presburger
    then show ?thesis by (simp add: slot_of_def)
  qed
  have "slot_at i (fold remove_session sids (remove_session sid e)) = slot_at i e"
    if "fst k \<notin> set (sid # sids)" "slot_of k e = Some i" for k i
  proof -
    have "slot_at i (fold remove_session sids (remove_session sid e)) = slot_at i (remove_session sid e)"
    proof -
      have "slot_of k (remove_session sid e) = Some i" "fst k \<notin> set sids" using that sl [of k] by simp_all
      then show ?thesis using ih by blast
    qed
    also have "\<dots> = slot_at i e" using r that by simp blast
    finally show ?thesis .
  qed
  then show ?case using ih r by auto
qed simp
lemma release_segment_slot_spec:
  assumes "slots_ok e"
  shows "slots_ok (release_segment_slot k e) \<and> slot_of k (release_segment_slot k e) = None \<and>
    (\<forall>x. x \<noteq> k \<longrightarrow> seg_of x (release_segment_slot k e) = seg_of x e) \<and>
    seg_of k (release_segment_slot k e) =
      map_option (\<lambda>s. s\<lparr>cursor_plan_revision := -1, cursor_progress_disabled := False, es_slot := None\<rparr>) (seg_of k e) \<and>
    (\<forall>x. registered x (release_segment_slot k e) = registered x e) \<and> el_out (release_segment_slot k e) = el_out e \<and>
    (\<forall>x i. x \<noteq> k \<longrightarrow> slot_of x e = Some i \<longrightarrow> slot_at i (release_segment_slot k e) = slot_at i e) \<and>
    kp_max_slots (el_pool (release_segment_slot k e)) = kp_max_slots (el_pool e)"
proof -
  let ?g = "\<lambda>s. s\<lparr>cursor_plan_revision := -1, cursor_progress_disabled := False\<rparr>"
  let ?e1 = "upd_seg k ?g e"
  have ok1: "slots_ok ?e1" by (rule slots_ok_upd_seg [OF assms]) simp
  show ?thesis
  proof (cases "slot_of k e")
    case None
    have "release_segment_slot k e = ?e1"
      using None by (simp add: release_segment_slot_def slot_of_def Let_def split: option.splits)
    moreover have "map_option ?g (seg_of k e) = map_option (\<lambda>s. s\<lparr>cursor_plan_revision := -1, cursor_progress_disabled := False, es_slot := None\<rparr>) (seg_of k e)"
      using None by (auto simp: slot_of_def split: option.splits)
    ultimately show ?thesis using ok1 None by (simp add: slot_of_def split: option.splits)
  next
    case (Some i)
    then obtain s where s: "seg_of k e = Some s" "es_slot s = Some i" by (auto simp: slot_of_def split: option.splits)
    have r: "release_segment_slot k e = upd_seg k (\<lambda>s. s\<lparr>es_slot := None\<rparr>) (release_slot_id i ?e1)"
      using s by (simp add: release_segment_slot_def Let_def)
    have ok2: "slots_ok (upd_seg k (\<lambda>s. s\<lparr>es_slot := None\<rparr>) (release_slot_id i ?e1))"
      by (rule slots_ok_release [OF ok1, of k "?g s"]) (use s in simp_all)
    have own: "own_ok (\<lambda>x. slot_of x e) (map_of (el_seg_by_slot e)) (owned (el_pool e))" "pool_ok (el_pool ?e1)"
      using assms by (simp_all add: slots_ok_def)
    have p: "kp_max_slots (el_pool (release_slot_id i ?e1)) = kp_max_slots (el_pool e) \<and>
        (\<forall>j. j \<noteq> i \<longrightarrow> slot_at j (release_slot_id i ?e1) = slot_at j ?e1)"
      using release_slot_id_pool [OF own(2), of i] own_ok_taken [OF own(1) Some] by simp
    have "slot_at j (release_segment_slot k e) = slot_at j e" if "x \<noteq> k" "slot_of x e = Some j" for x j
      using p own_ok_inj [OF own(1) Some, of x] that r by auto
    then show ?thesis using ok2 r s p by (auto simp: slot_of_upd_seg_set)
  qed
qed

lemma register_seg_of: "\<not> registered sid e \<Longrightarrow> eg_segments g = [] \<Longrightarrow> seg_of k (e\<lparr>el_groups := dict_set sid g (el_groups e)\<rparr>) = seg_of k e"
  by (cases "fst k = sid") (simp_all add: seg_of_def registered_lookup)

lemma set_segment_seg_of:
  "registered sid e \<Longrightarrow> seg_of k (upd_group sid (\<lambda>g. g\<lparr>eg_segments := dict_set idx s (eg_segments g)\<rparr>) e) =
     (if k = (sid, idx) then Some s else seg_of k e)"
  by (cases k) (auto simp: seg_of_def upd_group_def registered_lookup)

lemma set_segment_absent:
  "\<not> registered sid e \<Longrightarrow> upd_group sid f e = e"
  by (simp add: upd_group_def registered_def upd_entry_absent)

lemma slots_ok_set_segment:
  assumes "slots_ok e" and "slot_of (sid, idx) e = None" and "es_slot s = None"
  shows "slots_ok (upd_group sid (\<lambda>g. g\<lparr>eg_segments := dict_set idx s (eg_segments g)\<rparr>) e)"
proof (cases "registered sid e")
  case True
  have "slot_of k (upd_group sid (\<lambda>g. g\<lparr>eg_segments := dict_set idx s (eg_segments g)\<rparr>) e) = slot_of k e" for k
    using assms(2,3) by (simp add: slot_of_def set_segment_seg_of [OF True] split: option.splits)
  then show ?thesis using assms(1) by (simp add: slots_ok_def dicts_ok_upd_group)
qed (use assms(1) set_segment_absent in metis)

lemma slots_ok_admit:
  assumes "slots_ok e" and "seg_of k e = Some s" and "es_slot s = None" and "allocate now name (el_pool e) = (p, Some i)"
  shows "slots_ok (upd_seg k (\<lambda>s. s\<lparr>es_slot := Some i\<rparr>) (e\<lparr>el_pool := p, el_seg_by_slot := dict_set i k (el_seg_by_slot e)\<rparr>))"
proof -
  have ok: "pool_ok (el_pool e)" "own_ok (\<lambda>k. slot_of k e) (map_of (el_seg_by_slot e)) (owned (el_pool e))" "dicts_ok e"
    using assms(1) by (auto simp: slots_ok_def)
  note a = allocate_spec [OF ok(1) assms(4)]
  have h: "slot_of k e = None" using assms(2,3) by (simp add: slot_of_def)
  have i: "i \<notin> owned (el_pool e)" using a by (simp add: owned_def)
  let ?e' = "upd_seg k (\<lambda>s. s\<lparr>es_slot := Some i\<rparr>) (e\<lparr>el_pool := p, el_seg_by_slot := dict_set i k (el_seg_by_slot e)\<rparr>)"
  have "slot_of x ?e' = ((\<lambda>x. slot_of x e)(k := Some i)) x" for x
    using assms(2) by (simp add: slot_of_upd_seg_set) (simp add: slot_of_def seg_of_def)
  moreover have "dicts_ok ?e'" using ok(3) by (intro dicts_ok_upd_seg) (simp add: dicts_ok_def)
  moreover have "(\<lambda>x. slot_of x ?e') = (\<lambda>x. slot_of x e)(k := Some i)" using calculation(1) by (rule ext)
  ultimately show ?thesis using a own_ok_take [OF ok(2) h i] by (simp add: slots_ok_def del: fun_upd_apply)
qed

lemma micro_slots_ok: "micro N b A e e' \<Longrightarrow> slots_ok e \<Longrightarrow> slots_ok e'"
proof (induction rule: micro.induct)
  case (frame e' e)
  then show ?case by (intro slots_ok_frame [of e e'])
next
  case (seg_note f e k)
  then show ?case by (intro slots_ok_upd_seg) (auto simp: keeps_text_def)
next
  case (finish rs e)
  have "slots_ok (e\<lparr>el_out := el_out e @ rs\<rparr>)" by (rule slots_ok_frame [OF finish.prems]) simp_all
  then show ?case using remove_sessions_spec by blast
next
  case (drop_session sid e)
  then show ?case using remove_session_spec by blast
next
  case (register sid e g)
  then have "slot_of k (e\<lparr>el_groups := dict_set sid g (el_groups e)\<rparr>) = slot_of k e" for k
    by (simp add: slot_of_def register_seg_of)
  moreover have "dicts_ok (e\<lparr>el_groups := dict_set sid g (el_groups e)\<rparr>)"
    using register by (auto simp: slots_ok_def dicts_ok_def dict_set_def registered_def image_iff)
  ultimately show ?case using register by (simp add: slots_ok_def)
next
  case (start e0 e sid idx s)
  then have "slots_ok e0" using release_segment_slot_spec by blast
  then show ?case using start by (intro slots_ok_set_segment)
next
  case (flush k e s i)
  have "slots_ok (upd_seg k (\<lambda>s. s\<lparr>deferred_token_ids := []\<rparr>) e)" by (rule slots_ok_upd_seg [OF flush.prems]) simp
  then show ?case unfolding append_trailing_tokens_def by (rule slots_ok_upd_slot) (simp add: keeps_owner_def)
next
  case (add_eos e i)
  then show ?case by (rule slots_ok_upd_slot) (simp add: keeps_owner_def)
next
  case (admit k e s now name p i)
  then show ?case by (intro slots_ok_admit)
next
  case (activate k e s i f)
  then show ?case by (intro slots_ok_upd_seg) auto
next
  case (deactivate k e f)
  then show ?case by (intro slots_ok_upd_seg) auto
next
  case (release k e s i f)
  then show ?case by (intro slots_ok_release) auto
next
  case (rows p e)
  then show ?case by (intro slots_ok_pool)
next
  case (send r e)
  then show ?case by (intro slots_ok_frame [OF send.prems]) simp_all
next
  case (reject r e)
  then show ?case by (intro slots_ok_frame [OF reject.prems]) simp_all
qed (auto intro: slots_ok_upd_slot slots_ok_upd_group slots_ok_upd_seg)
section \<open>Text\<close>

definition text_ok :: "'k engine_loop \<Rightarrow> bool" where
  "text_ok e \<longleftrightarrow> (\<forall>k s i. seg_of k e = Some s \<longrightarrow> es_state s = Active \<longrightarrow> es_slot s = Some i \<longrightarrow> fed_exactly s (slot_at i e))"

definition drained :: "'k engine_loop \<Rightarrow> bool" where
  "drained e \<longleftrightarrow> (\<forall>k s. seg_of k e = Some s \<longrightarrow> deferred_token_ids s = [])"

definition deferred_held :: "'k engine_loop \<Rightarrow> bool" where
  "deferred_held e \<longleftrightarrow> (\<forall>k s. seg_of k e = Some s \<longrightarrow> deferred_token_ids s \<noteq> [] \<longrightarrow> es_slot s \<noteq> None)"

lemma texts_simps [simp]:
  "texts [] = []" "texts (xs @ ys) = texts xs @ texts ys" "texts (map TextEmbed ts) = ts" "texts [EosEmbed] = []"
  by (induction ts) (simp_all add: texts_def map_filter_def)

text \<open>Every plan covers the tokens it was built from: the prompt, and what it leaves behind.\<close>

lemma text_track_simps [simp]: "text_track [] = []" "text_track (x # xs) = text_of x @ text_track xs"
  "text_track (xs @ ys) = text_track xs @ text_track ys"
  by (simp_all add: text_track_def)

lemma texts_Cons [simp]:
  "texts (TextEmbed t # xs) = t # texts xs" "texts (EosEmbed # xs) = texts xs" "texts (PadEmbed # xs) = texts xs"
  by (simp_all add: texts_def map_filter_def)

definition plain_text :: "embed list \<Rightarrow> bool" where
  "plain_text xs \<longleftrightarrow> list_all (\<lambda>x. (\<exists>t. x = TextEmbed t) \<or> x = EosEmbed \<or> x = PadEmbed) xs"

lemma text_track_zip:
  "plain_text xs \<Longrightarrow> length xs = length ys \<Longrightarrow> text_track (map2 Plus xs ys) = texts xs"
  by (induction xs ys rule: list_induct2') (auto simp: plain_text_def)

lemma text_track_pads [simp]: "text_track (map (\<lambda>t. Plus (TextEmbed t) c) ts) = ts"
  by (induction ts) auto

lemma texts_replicate_pad [simp]: "texts (replicate n PadEmbed) = []"
  by (induction n) auto

lemma plain_text_icl: "plain_text (map TextEmbed ts @ (if eos then [EosEmbed] else []))"
  by (auto simp: plain_text_def list_all_iff)

lemma texts_take_drop: "texts (take n xs) @ texts (drop n xs) = texts xs"
  by (metis append_take_drop_id texts_simps(2))

lemma build_icl_path_text:
  assumes "build_icl_path head ids codec ref eos = Inr (prefill, trailing)"
  shows "text_track prefill @ texts trailing = text_track head @ ref @ ids"
proof -
  define te where "te = map TextEmbed (ref @ ids) @ (if eos then [EosEmbed] else [])"
  define cd where "cd = BosEmbed # codec"
  have plain: "plain_text te" unfolding te_def by (rule plain_text_icl)
  have all: "texts te = ref @ ids" by (simp add: te_def del: map_append)
  show ?thesis
  proof (cases "length cd < length te")
    case True
    then have o: "prefill = head @ map2 Plus (take (length cd) te) cd" "trailing = drop (length cd) te"
      using assms unfolding build_icl_path_def Let_def te_def [symmetric] cd_def [symmetric] by (auto split: if_splits)
    have "plain_text (take (length cd) te)" using plain by (auto simp: plain_text_def list_all_iff dest: in_set_takeD)
    then have "text_track (map2 Plus (take (length cd) te) cd) = texts (take (length cd) te)"
      using True by (intro text_track_zip) simp_all
    then show ?thesis using o all texts_take_drop [of "length cd" te] by simp
  next
    case False
    define pads where "pads = replicate (length cd - length te) PadEmbed"
    have o: "prefill = head @ map2 Plus (te @ pads) cd" "texts trailing = []"
      using assms False unfolding build_icl_path_def Let_def te_def [symmetric] cd_def [symmetric] pads_def by (auto split: if_splits)
    have "plain_text (te @ pads)" using plain by (auto simp: plain_text_def list_all_iff pads_def)
    then have "text_track (map2 Plus (te @ pads) cd) = texts (te @ pads)"
      using False by (intro text_track_zip) (simp_all add: pads_def)
    then show ?thesis using o all by (simp add: pads_def)
  qed
qed

lemma build_plan_text:
  assumes "build_plan_from_ids inp ids eos = Inr plan"
  shows "text_track (prefill_embeds plan) @ texts (plan_trailing plan) = prompt_lead inp @ ids"
proof (cases "pi_task inp = VOICE_CLONE_ICL \<and> pi_ref_codec inp \<noteq> None")
  case True
  then show ?thesis using assms build_icl_path_text
    by (auto simp: build_plan_from_ids_def prompt_lead_def split: sum.splits)
next
  case False
  then show ?thesis using assms
    by (auto simp: build_plan_from_ids_def prompt_lead_def split_plan_def Let_def comp_def split: task_type.splits option.splits list.split)
qed

lemma plan_covers:
  assumes "build_plan_from_ids inp ids eos = Inr plan"
  shows "prompt_covers plan (texts (plan_trailing plan)) ids"
  unfolding prompt_covers_def
  using build_plan_text [OF assms] assms by (intro exI [of _ inp] exI [of _ "length ids"] exI [of _ eos]) simp

lemma split_plan_rest:
  assumes "build_plan_from_ids inp ids eos = Inr plan" and "splits_prefix (pi_task inp) plan"
  shows "texts (plan_trailing plan) = tl ids"
  using assms by (auto simp: build_plan_from_ids_def splits_prefix_def split_plan_def Let_def split: task_type.splits option.splits sum.splits if_splits)

lemma map_slot_at: "pool_ok (el_pool e) \<Longrightarrow> i \<in> owned (el_pool e) \<Longrightarrow>
    slot_at j (upd_slot i f e) = (if j = i then f (slot_at i e) else slot_at j e)"
  by (simp add: slot_at_def upd_slot_def map_slot_def pool_ok_def owned_def nth_list_update)

lemma upd_slot_at_cases:
  "slot_at j (upd_slot i f e) = slot_at j e \<or> (j = i \<and> slot_at j (upd_slot i f e) = f (slot_at i e))"
  by (cases "i < length (kp_slots (el_pool e))") (auto simp: slot_at_def map_slot_def nth_list_update list_update_beyond)

lemma held_slot: "slots_ok e \<Longrightarrow> seg_of k e = Some s \<Longrightarrow> es_slot s = Some i \<Longrightarrow> i \<in> owned (el_pool e) \<and>
    (\<forall>k' s'. seg_of k' e = Some s' \<longrightarrow> es_slot s' = Some i \<longrightarrow> k' = k)"
  unfolding slots_ok_def
  by (metis (mono_tags, lifting) option.simps(5) own_ok_inj own_ok_taken slot_of_def)

lemma text_okD: "text_ok e \<Longrightarrow> seg_of k e = Some s \<Longrightarrow> es_state s = Active \<Longrightarrow> es_slot s = Some i \<Longrightarrow> fed_exactly s (slot_at i e)"
  by (simp add: text_ok_def)

lemma text_ok_frame:
  "text_ok e \<Longrightarrow> (\<And>k. seg_of k e' = seg_of k e) \<Longrightarrow> (\<And>i. slot_at i e' = slot_at i e) \<Longrightarrow> text_ok e'"
  by (simp add: text_ok_def)

lemma text_ok_restrict:
  "text_ok e \<Longrightarrow> (\<And>k s. seg_of k e' = Some s \<Longrightarrow> seg_of k e = Some s) \<Longrightarrow>
   (\<And>k s i. seg_of k e' = Some s \<Longrightarrow> es_slot s = Some i \<Longrightarrow> slot_at i e' = slot_at i e) \<Longrightarrow> text_ok e'"
  unfolding text_ok_def by metis

lemma fed_exactly_cong:
  "fed_exactly s sl \<Longrightarrow> es_prefill_plan s' = es_prefill_plan s \<Longrightarrow> pending_token_ids s' = pending_token_ids s \<Longrightarrow> deferred_token_ids s' = deferred_token_ids s \<Longrightarrow>
   sl_trailing sl' = sl_trailing sl \<Longrightarrow> prefill_source sl' = prefill_source sl \<Longrightarrow>
   text_idx sl' \<le> length (sl_trailing sl) \<Longrightarrow> fed_exactly s' sl'"
  by (simp add: fed_exactly_def)

lemma text_ok_upd_slot:
  assumes "text_ok e" and "\<And>k s. seg_of k e = Some s \<Longrightarrow> es_state s = Active \<Longrightarrow> es_slot s = Some i \<Longrightarrow> fed_exactly s (f (slot_at i e))"
  shows "text_ok (upd_slot i f e)"
  unfolding text_ok_def
proof (intro allI impI)
  fix k s j
  assume a: "seg_of k (upd_slot i f e) = Some s" "es_state s = Active" "es_slot s = Some j"
  then have "fed_exactly s (slot_at j e)" using assms(1) by (auto intro: text_okD)
  moreover have "j = i \<Longrightarrow> fed_exactly s (f (slot_at i e))" using assms(2) [of k s] a by simp
  ultimately show "fed_exactly s (slot_at j (upd_slot i f e))" using upd_slot_at_cases [of j i f e] by metis
qed

lemma text_ok_upd_seg:
  assumes "text_ok e" and "\<And>s i. seg_of k e = Some s \<Longrightarrow> es_state (f s) = Active \<Longrightarrow> es_slot (f s) = Some i \<Longrightarrow> fed_exactly (f s) (slot_at i e)"
  shows "text_ok (upd_seg k f e)"
  unfolding text_ok_def
proof (intro allI impI)
  fix x s i
  assume a: "seg_of x (upd_seg k f e) = Some s" "es_state s = Active" "es_slot s = Some i"
  show "fed_exactly s (slot_at i (upd_seg k f e))"
  proof (cases "x = k")
    case True
    then obtain s0 where "seg_of k e = Some s0" "s = f s0" using a(1) by auto
    then show ?thesis using assms(2) a by simp
  next
    case False
    then show ?thesis using a text_okD [OF assms(1), of x s i] by simp
  qed
qed

lemma text_ok_release:
  assumes "slots_ok e" and "text_ok e"
  shows "text_ok (release_segment_slot k e)"
  unfolding text_ok_def
proof (intro allI impI)
  note R = release_segment_slot_spec [OF assms(1), of k]
  fix x s i
  assume a: "seg_of x (release_segment_slot k e) = Some s" "es_state s = Active" "es_slot s = Some i"
  then have "x \<noteq> k" using R by (auto simp: slot_of_def)
  then have x: "seg_of x e = Some s" using R a(1) by metis
  then have "slot_of x e = Some i" using a(3) by (simp add: slot_of_def)
  then have "slot_at i (release_segment_slot k e) = slot_at i e" using R \<open>x \<noteq> k\<close> by blast
  then show "fed_exactly s (slot_at i (release_segment_slot k e))" using text_okD [OF assms(2) x a(2,3)] by simp
qed

lemma text_ok_set_segment:
  assumes "text_ok e" and "es_state s \<noteq> Active"
  shows "text_ok (upd_group sid (\<lambda>g. g\<lparr>eg_segments := dict_set idx s (eg_segments g)\<rparr>) e)"
proof (cases "registered sid e")
  case True
  then show ?thesis
    using assms unfolding text_ok_def by (auto simp: set_segment_seg_of slot_at_def split: if_splits)
qed (use assms(1) set_segment_absent in metis)

lemma text_ok_move_slot:
  assumes "slots_ok e" and "text_ok e" and "seg_of k e = Some s"
    and "\<And>x. x \<noteq> k \<Longrightarrow> seg_of x e' = seg_of x e"
    and "\<And>j. (\<exists>x s'. x \<noteq> k \<and> seg_of x e = Some s' \<and> es_slot s' = Some j) \<Longrightarrow> slot_at j e' = slot_at j e"
    and "\<And>s' j. seg_of k e' = Some s' \<Longrightarrow> es_state s' = Active \<Longrightarrow> es_slot s' = Some j \<Longrightarrow> fed_exactly s' (slot_at j e')"
  shows "text_ok e'"
  unfolding text_ok_def
proof (intro allI impI)
  fix x s' j
  assume a: "seg_of x e' = Some s'" "es_state s' = Active" "es_slot s' = Some j"
  show "fed_exactly s' (slot_at j e')"
  proof (cases "x = k")
    case False
    then have x: "seg_of x e = Some s'" using a(1) assms(4) by simp
    then have "slot_at j e' = slot_at j e" using assms(5) False a(3) by blast
    then show ?thesis using text_okD [OF assms(2) x a(2,3)] by simp
  qed (use assms(6) a in blast)
qed

lemma micro_text_ok:
  assumes "micro N b A e e'" and "slots_ok e" and "text_ok e"
  shows "text_ok e'"
  using assms
proof (induction rule: micro.induct)
  case (frame e' e)
  then show ?case by (intro text_ok_frame [OF frame.prems(2)]) (simp_all add: seg_of_def slot_at_def)
next
  case (seg_note f e k)
  then show ?case
    by (intro text_ok_upd_seg) (auto simp: keeps_text_def intro: fed_exactly_cong [OF text_okD] dest: text_okD simp: fed_exactly_def)
next
  case (slot_note f e i)
  show ?case
  proof (rule text_ok_upd_slot [OF slot_note.prems(2)])
    fix k s
    assume "seg_of k e = Some s" "es_state s = Active" "es_slot s = Some i"
    then have "fed_exactly s (slot_at i e)" using slot_note.prems(2) by (auto intro: text_okD)
    then show "fed_exactly s (f (slot_at i e))" using slot_note.hyps(2) by (auto simp: fed_exactly_def keeps_trailing_def)
  qed
next
  case (rows p e)
  then show ?case by (intro text_ok_frame [OF rows.prems(2)]) (simp_all add: seg_of_def slot_at_def)
next
  case (group_note f e sid)
  then show ?case by (intro text_ok_frame [OF group_note.prems(2)]) (simp_all add: seg_of_upd_group slot_at_def)
next
  case (send r e)
  then show ?case by (intro text_ok_frame [OF send.prems(2)]) simp_all
next
  case (reject r e)
  then show ?case by (intro text_ok_frame [OF reject.prems(2)]) simp_all
next
  case (finish rs e)
  let ?e1 = "e\<lparr>el_out := el_out e @ rs\<rparr>"
  have ok: "slots_ok ?e1" by (rule slots_ok_frame [OF finish.prems(1)]) simp_all
  have t: "text_ok ?e1" by (rule text_ok_frame [OF finish.prems(2)]) (simp_all add: seg_of_def slot_at_def)
  note R = remove_sessions_spec [OF ok, of "map result_session rs"]
  show ?case
  proof (rule text_ok_restrict [OF t])
    fix k s i
    assume a: "seg_of k (fold remove_session (map result_session rs) ?e1) = Some s"
    then have n: "fst k \<notin> set (map result_session rs)" "seg_of k ?e1 = Some s" using R by (metis option.distinct(1))+
    then show "seg_of k ?e1 = Some s" by blast
    assume "es_slot s = Some i"
    then have "slot_of k ?e1 = Some i" using n by (simp add: slot_of_def)
    then show "slot_at i (fold remove_session (map result_session rs) ?e1) = slot_at i ?e1" using R n(1) by blast
  qed
next
  case (drop_session sid e)
  note R = remove_session_spec [OF drop_session.prems(1), of sid]
  show ?case
  proof (rule text_ok_restrict [OF drop_session.prems(2)])
    fix k s i
    assume a: "seg_of k (remove_session sid e) = Some s"
    then have n: "fst k \<noteq> sid" "seg_of k e = Some s" using R by (metis option.distinct(1))+
    then show "seg_of k e = Some s" by blast
    assume "es_slot s = Some i"
    then have "slot_of k e = Some i" using n by (simp add: slot_of_def)
    then show "slot_at i (remove_session sid e) = slot_at i e" using R n(1) by blast
  qed
next
  case (register sid e g)
  then show ?case by (intro text_ok_frame [OF register.prems(2)]) (simp_all add: register_seg_of slot_at_def)
next
  case (start e0 e sid idx s)
  then have "text_ok e0" using text_ok_release by blast
  then show ?case using start.hyps by (intro text_ok_set_segment) simp_all
next
  case (append_waiting k e s ids)
  then show ?case by (intro text_ok_upd_seg) auto
next
  case (append_defer k e s ids)
  show ?case
  proof (rule text_ok_upd_seg [OF append_defer.prems(2)], goal_cases)
    case (1 s' i)
    then have "fed_exactly s' (slot_at i e)" using append_defer.prems(2) by (auto intro: text_okD)
    then show ?case using prompt_covers_append [of _ "texts (sl_trailing (slot_at i e)) @ deferred_token_ids s'" "pending_token_ids s'" ids]
      by (auto simp: fed_exactly_def split: if_splits)
  qed
next
  case (flush k e s i)
  note h = held_slot [OF flush.prems(1) flush.hyps]
  have ok: "pool_ok (el_pool e)" using flush.prems(1) by (simp add: slots_ok_def)
  let ?e1 = "upd_seg k (\<lambda>s. s\<lparr>deferred_token_ids := []\<rparr>) e"
  have sl: "slot_at j (append_trailing_tokens i (deferred_token_ids s) ?e1) =
      (if j = i then (slot_at i e)\<lparr>sl_trailing := sl_trailing (slot_at i e) @ map TextEmbed (deferred_token_ids s)\<rparr> else slot_at j e)" for j
    unfolding append_trailing_tokens_def using ok h by (subst map_slot_at) simp_all
  show ?case
  proof (rule text_ok_move_slot [OF flush.prems flush.hyps(1)])
    fix j
    assume "\<exists>x s'. x \<noteq> k \<and> seg_of x e = Some s' \<and> es_slot s' = Some j"
    then have "j \<noteq> i" using h by blast
    then show "slot_at j (append_trailing_tokens i (deferred_token_ids s) ?e1) = slot_at j e" by (simp add: sl)
  next
    fix s' j
    assume a: "seg_of k (append_trailing_tokens i (deferred_token_ids s) ?e1) = Some s'" "es_state s' = Active" "es_slot s' = Some j"
    then have s': "s' = s\<lparr>deferred_token_ids := []\<rparr>" "j = i" using flush.hyps by (auto simp: append_trailing_tokens_def)
    then have "fed_exactly s (slot_at i e)" using a flush by (auto intro: text_okD)
    then show "fed_exactly s' (slot_at j (append_trailing_tokens i (deferred_token_ids s) ?e1))"
      by (simp add: sl s' fed_exactly_def)
  qed (simp add: append_trailing_tokens_def)
next
  case (add_eos e i)
  show ?case
  proof (rule text_ok_upd_slot [OF add_eos.prems(2)], goal_cases)
    case (1 k s)
    then have "fed_exactly s (slot_at i e)" using add_eos.prems(2) by (auto intro: text_okD)
    then show ?case by (simp add: fed_exactly_def)
  qed
next
  case (admit k e s now name p i)
  have ok: "pool_ok (el_pool e)" using admit.prems(1) by (simp add: slots_ok_def)
  note a = allocate_spec [OF ok admit.hyps(5)]
  show ?case
  proof (rule text_ok_move_slot [OF admit.prems admit.hyps(2)])
    fix x
    assume "x \<noteq> k"
    then show "seg_of x (upd_seg k (\<lambda>s. s\<lparr>es_slot := Some i\<rparr>) (e\<lparr>el_pool := p, el_seg_by_slot := dict_set i k (el_seg_by_slot e)\<rparr>)) = seg_of x e"
      by simp
  next
    fix j
    assume "\<exists>x s'. x \<noteq> k \<and> seg_of x e = Some s' \<and> es_slot s' = Some j"
    then have "j \<in> owned (el_pool e)" using held_slot [OF admit.prems(1)] by blast
    then have "j \<noteq> i" using a by (auto simp: owned_def)
    then show "slot_at j (upd_seg k (\<lambda>s. s\<lparr>es_slot := Some i\<rparr>) (e\<lparr>el_pool := p, el_seg_by_slot := dict_set i k (el_seg_by_slot e)\<rparr>)) = slot_at j e"
      using a by simp (simp add: slot_at_def)
  next
    fix s' j
    assume "seg_of k (upd_seg k (\<lambda>s. s\<lparr>es_slot := Some i\<rparr>) (e\<lparr>el_pool := p, el_seg_by_slot := dict_set i k (el_seg_by_slot e)\<rparr>)) = Some s'"
      and "es_state s' = Active"
    then have "es_state s = Active" using admit.hyps(2) by auto
    then show "fed_exactly s' (slot_at j (upd_seg k (\<lambda>s. s\<lparr>es_slot := Some i\<rparr>) (e\<lparr>el_pool := p, el_seg_by_slot := dict_set i k (el_seg_by_slot e)\<rparr>)))"
      using admit.hyps(4) by simp
  qed
next
  case (set_slot k e s i f)
  note h = held_slot [OF set_slot.prems(1) set_slot.hyps(1,2)]
  show ?case
    by (rule text_ok_upd_slot [OF set_slot.prems(2)]) (use h set_slot.hyps(1,3) in fastforce)
next
  case (activate k e s i f)
  show ?case
  proof (rule text_ok_upd_seg [OF activate.prems(2)], goal_cases)
    case (1 s' j)
    then have "s' = s" "j = i" using activate.hyps by auto
    then show ?case using activate.hyps(3,4) by (auto simp: fed_exactly_def)
  qed
next
  case (set_plan k e s f)
  then show ?case by (intro text_ok_upd_seg) auto
next
  case (deactivate k e f)
  then show ?case by (intro text_ok_upd_seg) auto
next
  case (release k e s i f)
  note h = held_slot [OF release.prems(1) release.hyps(1,2)]
  have ok: "pool_ok (el_pool e)" using release.prems(1) by (simp add: slots_ok_def)
  have p: "slot_at j (release_slot_id i e) = slot_at j e" if "j \<noteq> i" for j
    using release_slot_id_pool [OF ok, of i] h that by blast
  show ?case
  proof (rule text_ok_move_slot [OF release.prems release.hyps(1)])
    fix j
    assume "\<exists>x s'. x \<noteq> k \<and> seg_of x e = Some s' \<and> es_slot s' = Some j"
    then have "j \<noteq> i" using h by blast
    then show "slot_at j (upd_seg k f (release_slot_id i e)) = slot_at j e" using p by simp
  qed (use release.hyps in auto)
qed
lemma drainedD: "drained e \<Longrightarrow> seg_of k e = Some s \<Longrightarrow> deferred_token_ids s = []"
  by (simp add: drained_def)

lemma drained_restrict:
  "drained e \<Longrightarrow> (\<And>k s. seg_of k e' = Some s \<Longrightarrow> (\<exists>s0. seg_of k e = Some s0 \<and> deferred_token_ids s = deferred_token_ids s0) \<or>
     deferred_token_ids s = []) \<Longrightarrow> drained e'"
  unfolding drained_def by metis

lemma micro_deferred:
  assumes "micro N b A e e'" and "slots_ok e" and "seg_of k e' = Some s'"
  shows "(\<exists>s. seg_of k e = Some s \<and> deferred_token_ids s' = deferred_token_ids s \<and>
            (es_slot s' = es_slot s \<or> deferred_token_ids s' = [] \<or> es_slot s' \<noteq> None)) \<or>
    deferred_token_ids s' = [] \<or> (b \<and> es_slot s' \<noteq> None)"
  using assms
proof (induction rule: micro.induct)
  case (frame e' e)
  then show ?case by (simp add: seg_of_def)
next
  case (group_note f e sid)
  then show ?case by (simp add: seg_of_upd_group)
next
  case (finish rs e)
  let ?e1 = "e\<lparr>el_out := el_out e @ rs\<rparr>"
  have "slots_ok ?e1" by (rule slots_ok_frame [OF finish.prems(1)]) simp_all
  note R = remove_sessions_spec [OF this, of "map result_session rs"]
  from R finish.prems(2) have "seg_of k ?e1 = Some s'" by (metis option.distinct(1))
  then show ?case by simp
next
  case (drop_session sid e)
  note R = remove_session_spec [OF drop_session.prems(1), of sid]
  from R drop_session.prems(2) have "seg_of k e = Some s'" by (metis option.distinct(1))
  then show ?case by simp
next
  case (register sid e g)
  then show ?case by (simp add: register_seg_of)
next
  case (start e0 e sid idx s)
  show ?case
  proof (cases "k = (sid, idx)")
    case True
    show ?thesis
    proof (cases "registered sid e0")
      case True
      then show ?thesis using start.prems(2) start.hyps \<open>k = (sid, idx)\<close> by (auto simp: set_segment_seg_of)
    next
      case False
      then have n: "seg_of k e0 = Some s'" using start.prems(2) set_segment_absent [OF False] by metis
      then show ?thesis using False True by (auto simp: seg_of_def registered_lookup)
    qed
  next
    case False
    have "seg_of k e0 = Some s'"
      using start.prems(2) False set_segment_absent [of sid e0] by (cases "registered sid e0") (auto simp: set_segment_seg_of)
    moreover have "seg_of k e0 = seg_of k e" using start.hyps(1) release_segment_slot_spec [OF start.prems(1), of "(sid, idx)"] False by auto
    ultimately show ?thesis by simp
  qed
qed (auto simp: keeps_text_def append_trailing_tokens_def split: if_splits)

lemma micro_drained: "micro N False A e e' \<Longrightarrow> slots_ok e \<Longrightarrow> drained e \<Longrightarrow> drained e'"
  unfolding drained_def using micro_deferred by metis

lemma micro_deferred_held: "micro N b A e e' \<Longrightarrow> slots_ok e \<Longrightarrow> deferred_held e \<Longrightarrow> deferred_held e'"
  unfolding deferred_held_def using micro_deferred by metis

text \<open>Outside \<open>A\<close> only active segments hold slots.\<close>

definition idle_free :: "seg_key set \<Rightarrow> 'k engine_loop \<Rightarrow> bool" where
  "idle_free A e \<longleftrightarrow> (\<forall>k s. seg_of k e = Some s \<longrightarrow> k \<notin> A \<longrightarrow> es_state s \<noteq> Active \<longrightarrow> es_slot s = None)"

lemma micro_idle_free:
  assumes "micro N b A e e'" and "slots_ok e" and "idle_free A e"
  shows "idle_free A e'"
  unfolding idle_free_def
proof (intro allI impI)
  fix k s'
  assume "seg_of k e' = Some s'" and "k \<notin> A" and "es_state s' \<noteq> Active"
  with assms show "es_slot s' = None"
  proof (induction rule: micro.induct)
    case (frame e' e)
    then show ?case by (auto simp: idle_free_def seg_of_def)
  next
    case (group_note f e sid)
    then show ?case by (auto simp: idle_free_def seg_of_upd_group)
  next
    case (finish rs e)
    let ?e1 = "e\<lparr>el_out := el_out e @ rs\<rparr>"
    have "slots_ok ?e1" by (rule slots_ok_frame [OF finish.prems(1)]) simp_all
    note R = remove_sessions_spec [OF this, of "map result_session rs"]
    from R finish.prems(3) have "seg_of k ?e1 = Some s'" by (metis option.distinct(1))
    then show ?case using finish.prems by (simp add: idle_free_def)
  next
    case (drop_session sid e)
    note R = remove_session_spec [OF drop_session.prems(1), of sid]
    from R drop_session.prems(3) have "seg_of k e = Some s'" by (metis option.distinct(1))
    then show ?case using drop_session.prems by (simp add: idle_free_def)
  next
    case (register sid e g)
    then show ?case by (auto simp: register_seg_of idle_free_def)
  next
    case (start e0 e sid idx s)
    have old: "seg_of k e0 = Some s' \<Longrightarrow> es_slot s' = None"
    proof -
      assume a: "seg_of k e0 = Some s'"
      show ?thesis
      proof (cases "k = (sid, idx)")
        case True
        then show ?thesis using a start.hyps(2) by (simp add: slot_of_def)
      next
        case False
        then have "seg_of k e = Some s'" using a start.hyps(1) release_segment_slot_spec [OF start.prems(1), of "(sid, idx)"] by metis
        then show ?thesis using start.prems by (simp add: idle_free_def)
      qed
    qed
    show ?case
      using start.prems(3) start.hyps(3) old set_segment_absent [of sid e0]
      by (cases "registered sid e0") (auto simp: set_segment_seg_of split: if_splits)
  qed (auto simp: idle_free_def keeps_text_def append_trailing_tokens_def slot_of_def split: if_splits)
qed

section \<open>Results\<close>

definition results :: "string \<Rightarrow> 'k engine_loop \<Rightarrow> loop_result list" where
  "results sid e = filter (\<lambda>r. result_session r = sid) (el_out e)"

lemma results_frame [simp]:
  "results sid (upd_seg k fs e) = results sid e" "results sid (upd_slot i f e) = results sid e"
  "results sid (upd_group x f' e) = results sid e" "results sid (e\<lparr>el_pool := p\<rparr>) = results sid e"
  "results sid (e\<lparr>el_groups := gs\<rparr>) = results sid e" "results sid (release_slot_id j e) = results sid e"
  "results sid (e\<lparr>el_pool := p, el_seg_by_slot := m\<rparr>) = results sid e"
  by (simp_all add: results_def)

lemma single_session:
  "distinct (map result_session rs) \<Longrightarrow> r \<in> set rs \<Longrightarrow> filter (\<lambda>x. result_session x = result_session r) rs = [r]"
proof (induction rs)
  case (Cons x rs)
  show ?case
  proof (cases "x = r")
    case True
    then have "filter (\<lambda>y. result_session y = result_session r) rs = []"
      using Cons.prems(1) by (auto simp: filter_empty_conv image_iff)
    then show ?thesis using True by simp
  next
    case False
    then show ?thesis using Cons by (auto simp: image_iff)
  qed
qed simp

lemma micro_log:
  assumes "micro N b A e e'" and "slots_ok e" and "sid \<notin> N"
  shows "(results sid e' = results sid e \<and> (registered sid e' \<longrightarrow> registered sid e)) \<or>
    (registered sid e \<and> (\<exists>r. results sid e' = results sid e @ [r] \<and> (\<not> terminal r \<or> \<not> registered sid e')))"
  using assms
proof (induction rule: micro.induct)
  case (frame e' e)
  then show ?case by (simp add: results_def registered_def)
next
  case (finish rs e)
  let ?e1 = "e\<lparr>el_out := el_out e @ rs\<rparr>"
  have "slots_ok ?e1" by (rule slots_ok_frame [OF finish.prems(1)]) simp_all
  note R = remove_sessions_spec [OF this, of "map result_session rs"]
  have o: "results sid (fold remove_session (map result_session rs) ?e1) = results sid e @ filter (\<lambda>r. result_session r = sid) rs"
    using R by (simp add: results_def)
  show ?case
  proof (cases "\<exists>r \<in> set rs. result_session r = sid")
    case True
    then obtain r where r: "r \<in> set rs" "result_session r = sid" by blast
    have "filter (\<lambda>r. result_session r = sid) rs = [r]" using single_session [OF finish.hyps(1) r(1)] r(2) by simp
    moreover have "registered sid e" using finish.hyps(2) r by blast
    moreover have "\<not> registered sid (fold remove_session (map result_session rs) ?e1)" using R r by auto
    ultimately show ?thesis using o by auto
  next
    case False
    then have "filter (\<lambda>r. result_session r = sid) rs = []" by (auto simp: filter_empty_conv)
    then show ?thesis using o R by (auto simp: registered_def)
  qed
next
  case (drop_session x e)
  then show ?case using remove_session_spec [OF drop_session.prems(1), of x] by (auto simp: results_def)
next
  case (register x e g)
  then show ?case by (auto simp: registered_def results_def)
next
  case (start e0 e x idx s)
  have "el_out e0 = el_out e \<and> registered sid e0 = registered sid e"
    using start.hyps(1) release_segment_slot_spec [OF start.prems(1), of "(x, idx)"] by auto
  then show ?case by (simp add: results_def)
qed (auto simp: results_def append_trailing_tokens_def)

definition ended_once :: "string \<Rightarrow> 'k engine_loop \<Rightarrow> bool" where
  "ended_once sid e \<longleftrightarrow> (\<forall>r \<in> set (butlast (results sid e)). \<not> terminal r) \<and>
     (registered sid e \<longrightarrow> (\<forall>r \<in> set (results sid e). \<not> terminal r))"

definition untouched :: "string \<Rightarrow> 'k engine_loop \<Rightarrow> bool" where
  "untouched sid e \<longleftrightarrow> \<not> registered sid e \<and> results sid e = []"

lemma micro_ended_once: "micro N b A e e' \<Longrightarrow> slots_ok e \<Longrightarrow> sid \<notin> N \<Longrightarrow> ended_once sid e \<Longrightarrow> ended_once sid e'"
  using micro_log [of N b A e e' sid] by (auto simp: ended_once_def)

lemma micro_untouched: "micro N b A e e' \<Longrightarrow> slots_ok e \<Longrightarrow> sid \<notin> N \<Longrightarrow> untouched sid e \<Longrightarrow> untouched sid e'"
  using micro_log [of N b A e e' sid] by (auto simp: untouched_def)

section \<open>Sequences of elementary steps\<close>

definition micros :: "string set \<Rightarrow> bool \<Rightarrow> seg_key set \<Rightarrow> 'k::zero engine_loop \<Rightarrow> 'k engine_loop \<Rightarrow> bool" where
  "micros N b A = (micro N b A)\<^sup>*\<^sup>*"

lemma micros_refl [simp, intro]: "micros N b A e e"
  by (simp add: micros_def)

lemma micros_step [intro]: "micro N b A e e' \<Longrightarrow> micros N b A e e'"
  by (simp add: micros_def)

lemma micros_trans [trans]: "micros N b A e e' \<Longrightarrow> micros N b A e' e'' \<Longrightarrow> micros N b A e e''"
  by (simp add: micros_def)

lemma micros_inv:
  "micros N b A e e' \<Longrightarrow> slots_ok e \<Longrightarrow>
   slots_ok e' \<and> (text_ok e \<longrightarrow> text_ok e') \<and> (b = False \<longrightarrow> drained e \<longrightarrow> drained e') \<and> (deferred_held e \<longrightarrow> deferred_held e') \<and>
   (idle_free A e \<longrightarrow> idle_free A e') \<and>
   (sid \<notin> N \<longrightarrow> (ended_once sid e \<longrightarrow> ended_once sid e') \<and> (untouched sid e \<longrightarrow> untouched sid e'))"
  unfolding micros_def
proof (induction rule: rtranclp_induct)
  case (step e' e'')
  then have ok: "slots_ok e'" by blast
  from step micro_slots_ok [OF step.hyps(2) ok] micro_text_ok [OF step.hyps(2) ok] micro_drained [OF _ ok] micro_deferred_held [OF step.hyps(2) ok]
    micro_idle_free [OF step.hyps(2) ok]
    micro_ended_once [OF step.hyps(2) ok] micro_untouched [OF step.hyps(2) ok]
  show ?case by blast
qed simp

lemma micros_mono: "micros N b A e e' \<Longrightarrow> N \<subseteq> M \<Longrightarrow> micros M b A e e'"
  unfolding micros_def by (induction rule: rtranclp_induct) (auto intro: micro_mono rtranclp.rtrancl_into_rtrancl)

lemma micros_mono_admit: "micros N b A e e' \<Longrightarrow> A \<subseteq> B \<Longrightarrow> micros N b B e e'"
  unfolding micros_def
proof (induction rule: rtranclp_induct)
  case (step e' e'')
  have "micro N b B e' e''" using step.hyps(2) step.prems by (induction rule: micro.induct) (auto intro: micro.intros)
  with step show ?case by simp
qed simp

lemma micros_fold:
  "(\<And>x e. x \<in> set xs \<Longrightarrow> P e \<Longrightarrow> micros N b A e (f x e) \<and> P (f x e)) \<Longrightarrow> P e \<Longrightarrow> micros N b A e (fold f xs e) \<and> P (fold f xs e)"
proof (induction xs arbitrary: e)
  case (Cons x xs)
  from Cons.prems(1) [of x e] Cons.prems(2) have "micros N b A e (f x e)" "P (f x e)" by auto
  with Cons.IH [of "f x e"] Cons.prems(1) show ?case by (auto intro: micros_trans)
qed simp
end
