(* ===== verification/Engine_Phases.thy ===== *)
theory Engine_Phases
  imports Engine_Steps
begin

text \<open>
  Every phase of the engine loop is a sequence of the elementary steps of \<open>Engine_Steps\<close>: the end
  and the retry of a segment, prefill, the choice of a batch, the output of a decode step, evictions
  and timeouts, and the handling of requests. The invariants of the elementary steps therefore hold
  after every run of the loop.
\<close>

section \<open>Segments: end and retry\<close>

definition at_rest :: "seg_key set \<Rightarrow> 'k engine_loop \<Rightarrow> bool" where
  "at_rest A e \<longleftrightarrow> slots_ok e \<and> drained e \<and> idle_free A e"

lemma at_rest_micros: "micros N False A e e' \<Longrightarrow> at_rest A e \<Longrightarrow> at_rest A e'"
  using micros_inv [of N False A e e'] by (auto simp: at_rest_def)

lemma seg_registered: "seg_of k e = Some s \<Longrightarrow> registered (fst k) e"
  by (auto simp: seg_of_def registered_lookup split: option.splits)

lemma registered_updates [simp]:
  "registered x (e\<lparr>el_total_eos := n\<rparr>) = registered x e" "registered x (fresh_meta e) = registered x e"
  "registered x (e\<lparr>el_total_prefills := n\<rparr>) = registered x e" "registered x (e\<lparr>el_mlfq := q\<rparr>) = registered x e"
  by (simp_all add: registered_def fresh_meta_def)

lemma registered_release: "slots_ok e \<Longrightarrow> registered x (release_segment_slot k e) = registered x e"
  using release_segment_slot_spec by blast

lemma micros_frame:
  "el_groups e' = el_groups e \<Longrightarrow> el_seg_by_slot e' = el_seg_by_slot e \<Longrightarrow> el_pool e' = el_pool e \<Longrightarrow> el_out e' = el_out e \<Longrightarrow>
   el_inbox e' = el_inbox e \<Longrightarrow> el_defer e' = el_defer e \<Longrightarrow> micros N b A e e'"
  by (intro micros_step frame)

lemma micros_note: "keeps_text f \<Longrightarrow> micros N b A e (upd_seg k f e)"
  by (intro micros_step seg_note)

lemma micros_slot_note: "keeps_owner f \<Longrightarrow> keeps_trailing f \<Longrightarrow> micros N b A e (upd_slot i f e)"
  by (intro micros_step slot_note)

lemma micros_send: "registered (result_session r) e \<Longrightarrow> \<not> terminal r \<Longrightarrow> micros N b A e (send_result r e)"
  by (intro micros_step send)

lemma micros_end_session: "registered (result_session r) e \<Longrightarrow> micros N b A e (remove_session (result_session r) (send_result r e))"
  using finish [of "[r]" e N b A] by (auto simp: send_result_def)

lemma check_session_done_micros: "micros N b A e (check_session_done sid e)"
proof -
  have "micros N b A e (remove_session sid (send_result (LoopDone sid None) e))" if "map_of (el_groups e) sid \<noteq> None"
    using micros_end_session [of "LoopDone sid None" e] that by (simp add: registered_lookup)
  then show ?thesis by (auto simp: check_session_done_def split: option.split)
qed

lemma release_segment_slot_micros: "drained e \<Longrightarrow> micros N b A e (release_segment_slot k e)"
proof -
  assume d: "drained e"
  let ?g = "\<lambda>s. s\<lparr>cursor_plan_revision := -1, cursor_progress_disabled := False\<rparr>"
  have g: "micros N b A e (upd_seg k ?g e)" by (rule micros_note) (simp add: keeps_text_def)
  show ?thesis
  proof (cases "slot_of k e")
    case None
    then have "release_segment_slot k e = upd_seg k ?g e" by (simp add: release_segment_slot_def slot_of_def Let_def split: option.splits)
    then show ?thesis using g by simp
  next
    case (Some i)
    then obtain s where s: "seg_of k e = Some s" "es_slot s = Some i" by (auto simp: slot_of_def split: option.splits)
    have "micro N b A (upd_seg k ?g e) (upd_seg k (\<lambda>s. s\<lparr>es_slot := None\<rparr>) (release_slot_id i (upd_seg k ?g e)))"
      by (rule release [of k _ "?g s"]) (use s drainedD [OF d s(1)] in simp_all)
    then show ?thesis using g s by (auto simp: release_segment_slot_def Let_def intro: micros_trans)
  qed
qed

lemma release_upd_seg: "release_slot_id i (upd_seg k f e) = upd_seg k f (release_slot_id i e)"
  by (cases e) (simp add: release_slot_id_def upd_seg_def upd_group_def slot_at_def)

lemma close_micros:
  assumes "drained e" and "\<And>s. es_slot (f s) = es_slot s \<and> es_state (f s) \<noteq> Active \<and> pending_token_ids (f s) = pending_token_ids s \<and>
      deferred_token_ids (f s) = deferred_token_ids s"
  shows "micros N b A e (release_segment_slot k (upd_seg k f e))"
proof -
  let ?g = "\<lambda>s. s\<lparr>cursor_plan_revision := -1, cursor_progress_disabled := False\<rparr>"
  have sl: "slot_of k (upd_seg k f e) = slot_of k e" using assms(2) by (intro slot_of_upd_seg_keep) blast
  show ?thesis
  proof (cases "slot_of k e")
    case None
    have "micros N b A e (upd_seg k f e)" by (intro micros_step deactivate None assms(2))
    also have "micros N b A (upd_seg k f e) (upd_seg k ?g (upd_seg k f e))" by (rule micros_note) (simp add: keeps_text_def)
    also have "upd_seg k ?g (upd_seg k f e) = release_segment_slot k (upd_seg k f e)"
      using sl None unfolding release_segment_slot_def slot_of_def Let_def by (auto split: option.splits)
    finally show ?thesis .
  next
    case (Some i)
    then obtain s where s: "seg_of k e = Some s" "es_slot s = Some i" by (auto simp: slot_of_def split: option.splits)
    let ?h = "(\<lambda>s. s\<lparr>es_slot := None\<rparr>) \<circ> (?g \<circ> f)"
    have "micros N b A e (upd_seg k ?h (release_slot_id i e))"
      by (intro micros_step release [of k _ s]) (use s drainedD [OF assms(1) s(1)] assms(2) in simp_all)
    also have "upd_seg k ?h (release_slot_id i e) = release_segment_slot k (upd_seg k f e)"
      using s assms(2) [of s] by (simp add: release_segment_slot_def Let_def release_upd_seg upd_seg_comp del: o_apply)
    finally show ?thesis .
  qed
qed

lemma handle_segment_eos_micros:
  assumes "at_rest A e"
  shows "micros N False A e (handle_segment_eos k ov reason tail dall guard e)"
proof (cases "seg_of k e")
  case (Some s)
  let ?e0 = "e\<lparr>el_total_eos := Suc (el_total_eos e)\<rparr>"
  let ?e1 = "upd_seg k (\<lambda>s. s\<lparr>es_state := SegDone\<rparr>) ?e0"
  let ?e2 = "release_segment_slot k ?e1"
  have m0: "micros N False A e ?e0" by (rule micros_frame) simp_all
  have s0: "at_rest A ?e0" by (rule at_rest_micros [OF m0 assms])
  have m2: "micros N False A ?e0 ?e2" by (rule close_micros) (use s0 in \<open>simp_all add: at_rest_def\<close>)
  have "slots_ok ?e1" using s0 by (intro slots_ok_upd_seg) (simp_all add: at_rest_def)
  then have reg: "registered (fst k) ?e2" using seg_registered [OF Some] by (simp add: registered_release)
  have "micros N False A ?e2 (send_result (SegmentEnd (fst k) (snd k) m) ?e2)" for m by (rule micros_send) (simp_all add: reg)
  then have "micros N False A e (check_session_done (fst k) (send_result (SegmentEnd (fst k) (snd k) m) ?e2))" for m
    using m0 m2 check_session_done_micros micros_trans by meson
  then show ?thesis by (simp add: handle_segment_eos_def Some Let_def)
qed (simp add: handle_segment_eos_def)

lemma try_segment_retry_micros:
  assumes "at_rest A e"
  shows "micros N False A e (fst (try_segment_retry k reason guard ratio e))"
proof (cases "seg_of k e")
  case (Some s)
  let ?e0 = "upd_seg k (\<lambda>s. s\<lparr>es_retry_idx := Suc (es_retry_idx s)\<rparr>) e"
  let ?e1 = "release_segment_slot k ?e0"
  let ?e2 = "upd_seg k (reset_attempt (el_next_meta ?e1)) (fresh_meta ?e1)"
  have m0: "micros N False A e ?e0" by (rule micros_note) (simp add: keeps_text_def)
  have s0: "at_rest A ?e0" by (rule at_rest_micros [OF m0 assms])
  have m1: "micros N False A ?e0 ?e1" using s0 by (intro release_segment_slot_micros) (simp add: at_rest_def)
  have mf: "micros N False A ?e1 (fresh_meta ?e1)" by (rule micros_frame) (simp_all add: fresh_meta_def)
  have "slot_of k (fresh_meta ?e1) = None"
  proof -
    have "slot_of k ?e1 = None" using release_segment_slot_spec [of ?e0 k] s0 unfolding at_rest_def by blast
    then show ?thesis by (simp add: slot_of_def fresh_meta_def)
  qed
  then have "micros N False A (fresh_meta ?e1) ?e2" by (intro micros_step deactivate) (simp_all add: reset_attempt_def)
  with mf have m2: "micros N False A ?e1 ?e2" by (rule micros_trans)
  have "registered (fst k) ?e1"
    using s0 seg_registered [OF Some] by (simp add: at_rest_def registered_release)
  then have "registered (fst k) ?e2" by simp
  then have "micros N False A ?e2 (send_result (SegmentRetry (fst k) (snd k) m) ?e2)" for m by (intro micros_send) simp_all
  then have "micros N False A e (send_result (SegmentRetry (fst k) (snd k) m) ?e2)" for m
    using m0 m1 m2 micros_trans by meson
  then show ?thesis by (simp add: try_segment_retry_def Some Let_def)
qed (simp add: try_segment_retry_def)

lemma retry_or_end_micros:
  assumes "at_rest A e"
  shows "micros N False A e (retry_or_end k rr er tail dall e)"
proof -
  obtain e1 b where r: "try_segment_retry k rr [] 0 e = (e1, b)" by force
  then have m: "micros N False A e e1" using try_segment_retry_micros [OF assms, of N k rr "[]" 0] by simp
  then have "micros N False A e1 (handle_segment_eos k False (Some er) tail dall [] e1)"
    by (intro handle_segment_eos_micros at_rest_micros [OF _ assms])
  then show ?thesis using m r by (auto simp: retry_or_end_def intro: micros_trans split: bool.split)
qed

lemma handle_natural_eos_micros: "at_rest A e \<Longrightarrow> micros N False A e (handle_natural_eos k e)"
  by (simp add: handle_natural_eos_def retry_or_end_micros handle_segment_eos_micros split: option.split)

lemma record_audio_health_micros: "micros N b A e (record_audio_health k a e)"
  unfolding record_audio_health_def by (rule micros_note) (simp add: keeps_text_def)

lemma send_audio_micros: "micros N b A e (send_audio k a e)"
proof (cases "seg_of k e")
  case (Some s)
  then show ?thesis using seg_registered [OF Some] by (simp add: send_audio_def micros_send)
qed (simp add: send_audio_def)
section \<open>Prefill\<close>

lemma complete_prefill_micros:
  assumes "at_rest A e" and "seg_of k e = Some s" and "es_slot s = Some i" and "fed_exactly s (slot_at i e)"
  shows "micros N False A e (complete_prefill k i audio eos e) \<and> at_rest (A - {k}) (complete_prefill k i audio eos e)"
proof -
  let ?f = "\<lambda>s. s\<lparr>es_state := Active, decode_start_frame := frame_idx (slot_at i e),
      es_cache_hit := (prefill_source (slot_at i e) = ''prefix_cache_prefix_only'')\<rparr>"
  let ?e0 = "e\<lparr>el_total_prefills := Suc (el_total_prefills e)\<rparr>"
  let ?e1 = "upd_seg k ?f ?e0"
  let ?e2 = "send_result (PrefillDone (fst k) (snd k)) ?e1"
  have "micros N False A e ?e0" by (rule micros_frame) simp_all
  also have "micros N False A ?e0 ?e1"
    by (intro micros_step activate [of k _ s i]) (use assms(2-4) in \<open>simp_all add: slot_at_def\<close>)
  also have "micros N False A ?e1 ?e2" by (rule micros_send) (use seg_registered [OF assms(2)] in simp_all)
  finally have m2: "micros N False A e ?e2" .
  have k2: "seg_of k ?e2 = Some (?f s)" using assms(2) by simp
  have "idle_free (A - {k}) ?e2"
    unfolding idle_free_def
  proof (intro allI impI)
    fix x s'
    assume x: "seg_of x ?e2 = Some s'" "x \<notin> A - {k}" "es_state s' \<noteq> Active"
    then have "x \<noteq> k" using k2 by auto
    then have "x \<notin> A" using x(2) by blast
    moreover have "idle_free A ?e2" using at_rest_micros [OF m2 assms(1)] unfolding at_rest_def by blast
    ultimately show "es_slot s' = None" using x(1,3) unfolding idle_free_def by blast
  qed
  then have s2: "at_rest (A - {k}) ?e2" using at_rest_micros [OF m2 assms(1)] by (simp add: at_rest_def)
  have fin: "micros N False A e x \<and> at_rest (A - {k}) x" if "micros N False (A - {k}) ?e2 x" for x
    using micros_trans [OF m2 micros_mono_admit [OF that]] at_rest_micros [OF that s2] by blast
  show ?thesis
  proof (cases "\<exists>a as. audio = Some (a # as)")
    case False
    then have r: "complete_prefill k i audio eos e = (if eos then handle_natural_eos k ?e2 else ?e2)"
      by (auto simp: complete_prefill_def Let_def split: option.split list.split)
    have "micros N False (A - {k}) ?e2 (if eos then handle_natural_eos k ?e2 else ?e2)"
      using handle_natural_eos_micros [OF s2] by simp
    then show ?thesis unfolding r by (rule fin)
  next
    case True
    then obtain a as where a: "audio = Some (a # as)" by blast
    let ?e3 = "record_audio_health k (a # as) ?e2"
    have m3: "micros N False (A - {k}) ?e2 ?e3" by (rule record_audio_health_micros)
    have s3: "at_rest (A - {k}) ?e3" by (rule at_rest_micros [OF m3 s2])
    let ?e4 = "send_audio k (a # as) ?e3"
    have m4: "micros N False (A - {k}) ?e2 ?e4" by (rule micros_trans [OF m3 send_audio_micros])
    have s4: "at_rest (A - {k}) ?e4" by (rule at_rest_micros [OF m4 s2])
    let ?bad = "retry_or_end k ''invalid_audio'' ''invalid_audio_abort'' 0
                    (case seg_of k ?e3 of None \<Rightarrow> True | Some s \<Rightarrow> \<not> audible_frame_seen s) ?e3"
    let ?r = "if classify_audio_chunk (el_cfg e) (a # as) = InvalidAudio then ?bad else if eos then handle_natural_eos k ?e4 else ?e4"
    have r: "complete_prefill k i audio eos e = ?r" by (simp only: complete_prefill_def Let_def a option.case list.case)
    have "micros N False (A - {k}) ?e2 ?r"
      using micros_trans [OF m3 retry_or_end_micros [OF s3]] micros_trans [OF m4 handle_natural_eos_micros [OF s4]] m4 by simp
    then show ?thesis unfolding r by (rule fin)
  qed
qed

lemma apply_cursor_plan_micros: "micros N b A e (apply_cursor_plan k e)"
  unfolding apply_cursor_plan_def by (rule micros_note) (simp add: keeps_text_def split: option.split)

lemma admit_regroup:
  "upd_seg k f (e\<lparr>el_pool := map_slot i g p, el_seg_by_slot := m\<rparr>) = upd_slot i g (upd_seg k f (e\<lparr>el_pool := p, el_seg_by_slot := m\<rparr>))"
  by (cases e) (simp add: upd_seg_def upd_group_def upd_slot_def)

lemma allocate_text_idx:
  assumes "pool_ok p" and "allocate now name p = (p', Some i)"
  shows "text_idx (kp_slots p' ! i) = 0"
proof -
  have "last (kp_free p) < length (kp_slots p)" if "kp_free p \<noteq> []"
    using allocate_free(1) [OF assms(1) that] assms(1) by (simp add: pool_ok_def)
  then show ?thesis using assms(2) by (auto simp: allocate_def Let_def map_slot_def clear_slot_def split: if_splits)
qed

lemma admit_slot_micros:
  assumes "at_rest A e" and "k \<in> A" and "seg_of k e = Some s" and "es_slot s = None" and "es_state s \<noteq> Active"
    and "admit_slot show_idx now k e = (e', r)"
  shows "micros N False A e e' \<and>
    (\<forall>i. r = Some i \<longrightarrow> (\<exists>s'. seg_of k e' = Some s' \<and> es_slot s' = Some i \<and> es_state s' = es_state s \<and>
       pending_token_ids s' = pending_token_ids s \<and> deferred_token_ids s' = []) \<and> text_idx (slot_at i e') = 0)"
proof -
  obtain p r' where a: "allocate now (seg_key_name show_idx k) (el_pool e) = (p, r')" by force
  show ?thesis
  proof (cases r')
    case None
    then show ?thesis using assms(6) a by (auto simp: admit_slot_def)
  next
    case (Some i)
    let ?e1 = "upd_seg k (\<lambda>s. s\<lparr>es_slot := Some i\<rparr>) (e\<lparr>el_pool := p, el_seg_by_slot := dict_set i k (el_seg_by_slot e)\<rparr>)"
    let ?g = "\<lambda>sl. sl\<lparr>sl_segment_idx := snd k, sl_retry_idx := es_retry_idx s\<rparr>"
    let ?e2 = "upd_slot i ?g ?e1"
    let ?e3 = "?e2\<lparr>el_mlfq := on_segment_created (es_meta s) (el_mlfq ?e2)\<rparr>"
    have "micros N False A e ?e1" by (intro micros_step admit) (use assms(2-5) a Some in auto)
    also have "micros N False A ?e1 ?e2" by (rule micros_slot_note) (simp_all add: keeps_owner_def keeps_trailing_def)
    also have "micros N False A ?e2 ?e3" by (rule micros_frame) simp_all
    also have "micros N False A ?e3 (apply_cursor_plan k ?e3)" by (rule apply_cursor_plan_micros)
    finally have m: "micros N False A e (apply_cursor_plan k ?e3)" .
    have e': "e' = apply_cursor_plan k ?e3" "r = Some i"
      using assms(3,6) a Some
      by (auto simp: admit_slot_def Let_def admit_regroup)
    have "deferred_token_ids s = []" using assms(1,3) by (auto simp: at_rest_def intro: drainedD)
    then have "\<exists>s'. seg_of k (apply_cursor_plan k ?e3) = Some s' \<and> es_slot s' = Some i \<and> es_state s' = es_state s \<and>
       pending_token_ids s' = pending_token_ids s \<and> deferred_token_ids s' = []"
      using assms(3) by (simp add: apply_cursor_plan_def split: option.split)
    moreover have "text_idx (slot_at i (apply_cursor_plan k ?e3)) = 0"
    proof -
      have ok: "pool_ok (el_pool e)" using assms(1) by (simp add: at_rest_def slots_ok_def)
      have "i < length (kp_slots p)" using allocate_spec [OF ok a [unfolded Some]] by (simp add: pool_ok_def)
      then show ?thesis
        using allocate_text_idx [OF ok a [unfolded Some]] by (simp add: apply_cursor_plan_def) (simp add: slot_at_def map_slot_def)
    qed
    ultimately show ?thesis using m e' by simp
  qed
qed

lemma prime_micros:
  assumes "at_rest A e" and "seg_of k e = Some s" and "es_slot s = Some i" and "es_state s \<noteq> Active"
    and "pending_token_ids s = ids" and "ids \<noteq> []" and "keeps_text f" and "source \<noteq> ''full_prefill''"
    and r_def: "r = complete_prefill k i None False (upd_seg k f (upd_slot i (prime_decode source n (build_suffix ids eos)) e))"
  shows "micros N False A e r \<and> at_rest (A - {k}) r"
proof -
  let ?e1 = "upd_slot i (prime_decode source n (build_suffix ids eos)) e"
  let ?e2 = "upd_seg k f ?e1"
  have "micros N False A e ?e1"
    by (intro micros_step set_slot [of k _ s]) (use assms(2-4) in \<open>simp_all add: keeps_owner_def prime_decode_def\<close>)
  also have "micros N False A ?e1 ?e2" by (rule micros_note [OF assms(7)])
  finally have m: "micros N False A e ?e2" .
  have ok: "pool_ok (el_pool e)" "i \<in> owned (el_pool e)"
    using assms(1) held_slot [OF _ assms(2,3)] by (auto simp: at_rest_def slots_ok_def)
  have d: "deferred_token_ids s = []" using assms(1,2) by (auto simp: at_rest_def intro: drainedD)
  have "slot_at i ?e2 = prime_decode source n (build_suffix ids eos) (slot_at i e)"
    using map_slot_at [OF ok] by simp
  then have "fed_exactly (f s) (slot_at i ?e2)"
    using assms(5-8) d by (simp add: fed_exactly_def prime_decode_def build_suffix_def keeps_text_def)
  moreover have "seg_of k ?e2 = Some (f s)" "es_slot (f s) = Some i" using assms(2,3,7) by (simp_all add: keeps_text_def)
  ultimately have "micros N False A ?e2 r \<and> at_rest (A - {k}) r"
    unfolding r_def by (intro complete_prefill_micros at_rest_micros [OF m assms(1)])
  with m show ?thesis by (blast intro: micros_trans)
qed

text \<open>A prompt that was built and run: the plan is noted, the slot is filled from it, the segment becomes active.\<close>

lemma cold_micros:
  assumes "at_rest A e" and "seg_of k e = Some s" and "es_slot s = Some i" and "es_state s \<noteq> Active"
    and h: "\<And>s. es_slot (h s) = es_slot s \<and> es_state (h s) = es_state s \<and> pending_token_ids (h s) = pending_token_ids s \<and>
      deferred_token_ids (h s) = deferred_token_ids s"
    and g: "keeps_owner g" and fed: "fed_exactly (h s) (g (slot_at i e))"
    and r_def: "r = complete_prefill k i audio eos (upd_slot i g (upd_seg k h e))"
  shows "micros N False A e r \<and> at_rest (A - {k}) r"
proof -
  let ?e1 = "upd_seg k h e"
  let ?e2 = "upd_slot i g ?e1"
  have s1: "seg_of k ?e1 = Some (h s)" "es_slot (h s) = Some i" "es_state (h s) \<noteq> Active" using assms(2-4) h by simp_all
  have "micros N False A e ?e1" by (intro micros_step set_plan [OF assms(2,4)] h)
  also have "micros N False A ?e1 ?e2" by (intro micros_step set_slot [OF s1] g)
  finally have m: "micros N False A e ?e2" .
  have ok: "pool_ok (el_pool ?e1)" "i \<in> owned (el_pool ?e1)"
    using assms(1) held_slot [OF _ assms(2,3)] by (auto simp: at_rest_def slots_ok_def)
  have "slot_at i ?e2 = g (slot_at i e)" using map_slot_at [OF ok] by simp
  moreover have "seg_of k ?e2 = Some (h s)" using s1 by simp
  ultimately have "micros N False A ?e2 r \<and> at_rest (A - {k}) r"
    unfolding r_def using fed s1(2) by (intro complete_prefill_micros at_rest_micros [OF m assms(1)]) simp_all
  with m show ?thesis by (blast intro: micros_trans)
qed

lemma split_fed:
  assumes "build_plan_from_ids inp (pending_token_ids s) eos = Inr plan" and "splits_prefix (pi_task inp) plan"
    and "pending_token_ids s \<noteq> []" and "deferred_token_ids s = []"
  shows "fed_exactly s (prime_decode ''full_prefill_prefix_only'' n (x, plan_trailing plan) sl)"
  using split_plan_rest [OF assms(1,2)] assms(3,4) by (simp add: fed_exactly_def prime_decode_def)

lemma whole_fed:
  assumes "build_plan_from_ids inp (pending_token_ids s) eos = Inr plan" and "es_prefill_plan s = Some plan"
    and "deferred_token_ids s = []" and "text_idx sl = 0"
  shows "fed_exactly s (attach_trailing (plan_trailing plan)
           (sl\<lparr>prefill_source := ''full_prefill'', past_len := n, frame_idx := m, next_embed := x\<rparr>))"
proof -
  let ?sl = "attach_trailing (plan_trailing plan)
      (sl\<lparr>prefill_source := ''full_prefill'', past_len := n, frame_idx := m, next_embed := x\<rparr>)"
  have "sl_trailing ?sl = plan_trailing plan" "prefill_source ?sl = ''full_prefill''" "text_idx ?sl \<le> length (plan_trailing plan)"
    using assms(4) by (auto simp: attach_trailing_def split: option.split list.split)
  then show ?thesis using plan_covers [OF assms(1)] assms(2,3) by (simp add: fed_exactly_def)
qed

lemma pending_segments_seg:
  assumes "dicts_ok e" and "(k, s) \<in> set (pending_segments e)"
  shows "seg_of k e = Some s \<and> es_state s = PendingPrefill \<and> pending_token_ids s \<noteq> []"
proof -
  obtain sid g idx where g: "(sid, g) \<in> set (el_groups e)" "(idx, s) \<in> set (eg_segments g)" "k = (sid, idx)"
    "es_state s = PendingPrefill" "pending_token_ids s \<noteq> []"
    using assms(2) by (auto simp: pending_segments_def split: if_splits)
  have "map_of (el_groups e) sid = Some g" using assms(1) g(1) by (intro map_of_is_SomeI) (auto simp: dicts_ok_def)
  moreover have "map_of (eg_segments g) idx = Some s" using assms(1) g(1,2) by (intro map_of_is_SomeI) (auto simp: dicts_ok_def)
  ultimately show ?thesis using g by (simp add: seg_of_def)
qed

lemma pick_best_mem: "pick_best best cs = Some c \<Longrightarrow> c \<in> set cs \<or> best = Some c"
  by (induction cs arbitrary: best) (auto split: option.splits if_splits)

lemma at_rest_mono: "at_rest A e \<Longrightarrow> A \<subseteq> B \<Longrightarrow> at_rest B e"
  by (auto simp: at_rest_def idle_free_def)

lemma at_rest_gone: "at_rest A e \<Longrightarrow> \<forall>k \<in> A. seg_of k e = None \<Longrightarrow> at_rest {} e"
  unfolding at_rest_def idle_free_def by fastforce

lemma remove_session_seg: "slots_ok e \<Longrightarrow> seg_of k (remove_session sid e) = (if fst k = sid then None else seg_of k e)"
  using remove_session_spec by blast

lemma remove_session_gone: "slots_ok e \<Longrightarrow> seg_of k (remove_session (fst k) e) = None"
  by (simp add: remove_session_seg)

lemma bad_task_micros:
  assumes "at_rest A e" and "seg_of k e = Some s" and "es_slot s = Some i"
    and r_def: "r = remove_session (fst k) (send_result (LoopError (fst k) (snd k) msg)
        (upd_seg k (\<lambda>s. s\<lparr>es_slot := None\<rparr>) (release_slot_id i (upd_seg k (\<lambda>s. s\<lparr>es_state := SegError\<rparr>) e))))"
  shows "micros N False A e r \<and> seg_of k r = None"
proof -
  let ?e1 = "upd_seg k (\<lambda>s. s\<lparr>es_slot := None\<rparr>) (release_slot_id i (upd_seg k (\<lambda>s. s\<lparr>es_state := SegError\<rparr>) e))"
  have "?e1 = upd_seg k ((\<lambda>s. s\<lparr>es_slot := None\<rparr>) \<circ> (\<lambda>s. s\<lparr>es_state := SegError\<rparr>)) (release_slot_id i e)"
    by (simp add: release_upd_seg upd_seg_comp)
  moreover have "micros N False A e (upd_seg k ((\<lambda>s. s\<lparr>es_slot := None\<rparr>) \<circ> (\<lambda>s. s\<lparr>es_state := SegError\<rparr>)) (release_slot_id i e))"
  proof (intro micros_step release [of k _ s] assms(2,3))
    show "deferred_token_ids s = []" using assms(1,2) by (auto simp: at_rest_def intro: drainedD)
  qed simp
  ultimately have m1: "micros N False A e ?e1" by simp
  have reg: "registered (fst k) ?e1" using seg_registered [OF assms(2)] by simp
  then have "micros N False A ?e1 r"
    using micros_end_session [of "LoopError (fst k) (snd k) msg" ?e1] by (simp add: r_def)
  moreover have "slots_ok (send_result (LoopError (fst k) (snd k) msg) ?e1)"
    by (rule slots_ok_frame [of ?e1]) (use at_rest_micros [OF m1 assms(1)] in \<open>simp_all add: at_rest_def\<close>)
  then have "seg_of k r = None" unfolding r_def by (rule remove_session_gone)
  ultimately show ?thesis using micros_trans [OF m1] by blast
qed

definition half_admitted :: "'k engine_loop \<Rightarrow> bool" where
  "half_admitted e \<longleftrightarrow> (\<forall>k s. seg_of k e = Some s \<longrightarrow> es_slot s \<noteq> None \<longrightarrow> es_state s = Active \<or> es_state s = PendingPrefill)"

lemma at_rest_active: "at_rest A e \<Longrightarrow> seg_of k e = Some s \<Longrightarrow> k \<notin> A \<Longrightarrow> es_slot s \<noteq> None \<Longrightarrow> es_state s = Active"
  by (rule ccontr) (simp add: at_rest_def idle_free_def)

lemma half_admitted_rest: "at_rest {} e \<Longrightarrow> half_admitted e"
  by (simp add: half_admitted_def at_rest_active)

lemma try_prefill_one_micros:
  assumes "at_rest {} e" and "try_prefill_one show_idx now pf e = (e', r)"
  shows "micros N False UNIV e e' \<and> slots_ok e' \<and> drained e' \<and> half_admitted e' \<and> ((\<exists>b. r = Inr b) \<longrightarrow> at_rest {} e')"
proof -
  have sU: "at_rest UNIV e" using assms(1) by (rule at_rest_mono) simp
  have done_: ?thesis if "e' = e"
    using that assms(1) half_admitted_rest by (auto simp: at_rest_def)
  show ?thesis
  proof (cases "kp_free (el_pool e) = [] \<or> pick_best None (pending_segments e) = None")
    case True
    then have "try_prefill_one show_idx now pf e = (e, Inr False)" by (auto simp: try_prefill_one_def)
    then show ?thesis using assms(2) done_ by simp
  next
    case False
    then obtain k s where b: "pick_best None (pending_segments e) = Some (k, s)" by auto
    have mem: "(k, s) \<in> set (pending_segments e)" using pick_best_mem [OF b] by simp
    have dk: "dicts_ok e" using assms(1) by (simp add: at_rest_def slots_ok_def)
    note s = pending_segments_seg [OF dk mem]
    have free: "es_slot s = None" using assms(1) s by (auto simp: at_rest_def idle_free_def)
    have sk: "at_rest {k} e" using assms(1) by (rule at_rest_mono) simp
    obtain e1 o1 where a: "admit_slot show_idx now k e = (e1, o1)" by force
    have A: "micros N False {k} e e1 \<and>
      (\<forall>i. o1 = Some i \<longrightarrow> (\<exists>s'. seg_of k e1 = Some s' \<and> es_slot s' = Some i \<and> es_state s' = es_state s \<and>
         pending_token_ids s' = pending_token_ids s \<and> deferred_token_ids s' = []) \<and> text_idx (slot_at i e1) = 0)"
      by (rule admit_slot_micros [OF sk _ _ free _ a]) (use s in simp_all)
    have m1: "micros N False UNIV e e1" using A by (blast intro: micros_mono_admit)
    have s1: "at_rest {k} e1" using at_rest_micros [OF conjunct1 [OF A] sk] .
    have fin: ?thesis if "micros N False {k} e1 e'" "at_rest {} e'" 
      using micros_trans [OF m1 micros_mono_admit [OF that(1)]] that(2) half_admitted_rest [OF that(2)] by (simp add: at_rest_def)
    show ?thesis
    proof (cases o1)
      case None
      then have "e1 = e" using a by (auto simp: admit_slot_def Let_def split: prod.splits option.splits)
      then show ?thesis using assms(2) False b a None done_ by (simp add: try_prefill_one_def)
    next
      case (Some i)
      then obtain s' where s': "seg_of k e1 = Some s'" "es_slot s' = Some i" "es_state s' = es_state s"
          "pending_token_ids s' = pending_token_ids s" "deferred_token_ids s' = []" and t: "text_idx (slot_at i e1) = 0" using A by blast
      have na: "es_state s' \<noteq> Active" using s s'(3) by simp
      have raised: ?thesis if "e' = e1" and "r = Inl err" for err
      proof -
        have "half_admitted e1"
          unfolding half_admitted_def
        proof (intro allI impI)
          fix x t
          assume "seg_of x e1 = Some t" "es_slot t \<noteq> None"
          then show "es_state t = Active \<or> es_state t = PendingPrefill"
          proof (cases "x = k")
            case False
            then show ?thesis using at_rest_active [OF s1 \<open>seg_of x e1 = Some t\<close>] \<open>es_slot t \<noteq> None\<close> by simp
          qed (use \<open>seg_of x e1 = Some t\<close> s'(1,3) s in simp)
        qed
        then show ?thesis using that m1 s1 by (simp add: at_rest_def)
      qed
      have r: "(e', r) = (case pf k of
                    PfBadTask msg \<Rightarrow>
                      let e2 = upd_seg k (\<lambda>s. s\<lparr>es_state := SegError\<rparr>) e1;
                          e3 = upd_seg k (\<lambda>s. s\<lparr>es_slot := None\<rparr>) (release_slot_id i e2)
                      in (remove_session (fst k) (send_result (LoopError (fst k) (snd k) msg) e3), Inr False)
                  | PfRaised err \<Rightarrow> (e1, Inl err)
                  | PfHit n \<Rightarrow>
                      let sx = build_suffix (pending_token_ids s) (es_input_complete s);
                          e2 = upd_slot i (prime_decode ''prefix_cache_prefix_only'' n sx) e1;
                          e3 = upd_seg k (\<lambda>s. s\<lparr>cache_tokens_reused := n, eos_trailing_added := es_input_complete s\<rparr>) e2
                      in (complete_prefill k i None False e3, Inr True)
                  | PfCold inp n frames x audio eos \<Rightarrow>
                      (case build_plan_from_ids inp (pending_token_ids s) (es_input_complete s) of
                         Inl err \<Rightarrow> (e1, Inl err)
                       | Inr plan \<Rightarrow>
                           let e2 = upd_seg k (\<lambda>s. s\<lparr>es_prefill_plan := Some plan, eos_trailing_added := es_input_complete s\<rparr>) e1
                           in if splits_prefix (pi_task inp) plan
                              then (complete_prefill k i None False
                                      (upd_slot i (prime_decode ''full_prefill_prefix_only'' n
                                         (hd (the (request_prefill_embeds plan)), plan_trailing plan)) e2), Inr True)
                              else (complete_prefill k i audio eos
                                      (upd_slot i (\<lambda>sl. attach_trailing (plan_trailing plan)
                                         (sl\<lparr>prefill_source := ''full_prefill'', past_len := n, frame_idx := frames, next_embed := x\<rparr>)) e2),
                                    Inr True)))"
        using assms(2) False b a Some by (simp add: try_prefill_one_def)
      show ?thesis
      proof (cases "pf k")
        case (PfBadTask msg)
        then have e': "micros N False {k} e1 e' \<and> seg_of k e' = None"
          using r by (intro bad_task_micros [OF s1 s'(1,2), of _ msg]) (simp add: Let_def)
        then have "at_rest {} e'" using at_rest_gone [OF at_rest_micros [OF conjunct1 [OF e'] s1]] by simp
        then show ?thesis using fin e' by blast
      next
        case (PfRaised err)
        then show ?thesis using raised r by simp
      next
        case (PfHit n)
        then have "micros N False {k} e1 e' \<and> at_rest ({k} - {k}) e'"
          using r s by (intro prime_micros [OF s1 s'(1,2) na s'(4), where source = "''prefix_cache_prefix_only''"]) (auto simp: Let_def keeps_text_def)
        then show ?thesis using fin by simp
      next
        case (PfCold inp n frames x audio eos)
        show ?thesis
        proof (cases "build_plan_from_ids inp (pending_token_ids s) (es_input_complete s)")
          case (Inl err)
          then show ?thesis using raised r PfCold by simp
        next
          case (Inr plan)
          let ?h = "\<lambda>s. s\<lparr>es_prefill_plan := Some plan, eos_trailing_added := es_input_complete s\<rparr>"
          have p: "build_plan_from_ids inp (pending_token_ids (?h s')) (es_input_complete s) = Inr plan"
            "pending_token_ids (?h s') \<noteq> []" "deferred_token_ids (?h s') = []" using Inr s s'(4,5) by simp_all
          have "micros N False {k} e1 e' \<and> at_rest ({k} - {k}) e'"
          proof (cases "splits_prefix (pi_task inp) plan")
            case True
            have o: "keeps_owner (prime_decode src m sx)" for src m sx by (simp add: keeps_owner_def prime_decode_def)
            show ?thesis
            proof (rule cold_micros [OF s1 s'(1,2) na, where h = ?h and audio = None and eos = False and
                g = "prime_decode ''full_prefill_prefix_only'' n (hd (the (request_prefill_embeds plan)), plan_trailing plan)"])
              show "fed_exactly (?h s') (prime_decode ''full_prefill_prefix_only'' n
                  (hd (the (request_prefill_embeds plan)), plan_trailing plan) (slot_at i e1))"
                by (rule split_fed [OF p(1) True p(2,3)])
            qed (use True r PfCold Inr o in \<open>simp_all add: Let_def\<close>)
          next
            case False
            have o: "keeps_owner (\<lambda>sl. attach_trailing ts (sl\<lparr>prefill_source := src, past_len := n, frame_idx := m, next_embed := x\<rparr>))" for ts src n m x
              by (simp add: keeps_owner_def attach_trailing_def split: option.split list.split)
            show ?thesis
            proof (rule cold_micros [OF s1 s'(1,2) na, where h = ?h and audio = audio and eos = eos and
                g = "\<lambda>sl. attach_trailing (plan_trailing plan)
                  (sl\<lparr>prefill_source := ''full_prefill'', past_len := n, frame_idx := frames, next_embed := x\<rparr>)"])
              show "fed_exactly (?h s') (attach_trailing (plan_trailing plan)
                  ((slot_at i e1)\<lparr>prefill_source := ''full_prefill'', past_len := n, frame_idx := frames, next_embed := x\<rparr>))"
                by (rule whole_fed [OF p(1) _ p(3) t]) simp
            qed (use False r PfCold Inr o in \<open>simp_all add: Let_def\<close>)
          qed
          then show ?thesis using fin by simp
        qed
      qed
    qed
  qed
qed
lemma admit_slot_other: "admit_slot show_idx now k e = (e', r) \<Longrightarrow> x \<noteq> k \<Longrightarrow> seg_of x e' = seg_of x e"
  by (auto simp: admit_slot_def Let_def apply_cursor_plan_def split: prod.splits option.splits)

definition admissible :: "seg_key \<Rightarrow> 'k engine_loop \<Rightarrow> bool" where
  "admissible k e \<longleftrightarrow> (\<exists>s. seg_of k e = Some s \<and> es_slot s = None \<and> es_state s = PendingPrefill \<and> pending_token_ids s \<noteq> [])"

definition admitted :: "seg_key \<times> nat \<Rightarrow> 'k engine_loop \<Rightarrow> bool" where
  "admitted ki e \<longleftrightarrow> (\<exists>s. seg_of (fst ki) e = Some s \<and> es_slot s = Some (snd ki) \<and> es_state s = PendingPrefill \<and> pending_token_ids s \<noteq> [])"

lemma admit_all_micros:
  "at_rest A e \<Longrightarrow> distinct ks \<Longrightarrow> \<forall>k \<in> set ks. admissible k e \<Longrightarrow> admit_all show_idx now ks e = (e', adm) \<Longrightarrow>
   micros N False (A \<union> fst ` set adm) e e' \<and> (\<forall>ki \<in> set adm. admitted ki e') \<and> distinct (map fst adm) \<and> fst ` set adm \<subseteq> set ks \<and>
   (\<forall>x. x \<notin> set ks \<longrightarrow> seg_of x e' = seg_of x e)"
proof (induction ks arbitrary: e A e' adm)
  case (Cons k ks)
  obtain s where s: "seg_of k e = Some s" "es_slot s = None" "es_state s = PendingPrefill" "pending_token_ids s \<noteq> []"
    using Cons.prems(3) by (auto simp: admissible_def)
  obtain e1 r where a: "admit_slot show_idx now k e = (e1, r)" by force
  have rk: "at_rest (insert k A) e" using Cons.prems(1) by (rule at_rest_mono) auto
  have M: "micros N False (insert k A) e e1 \<and>
      (\<forall>i. r = Some i \<longrightarrow> (\<exists>s'. seg_of k e1 = Some s' \<and> es_slot s' = Some i \<and> es_state s' = es_state s \<and>
         pending_token_ids s' = pending_token_ids s \<and> deferred_token_ids s' = []) \<and> text_idx (slot_at i e1) = 0)"
    by (rule admit_slot_micros [OF rk _ s(1,2) _ a]) (use s in simp_all)
  show ?case
  proof (cases r)
    case None
    then have "e1 = e" using a by (auto simp: admit_slot_def Let_def split: prod.splits option.splits)
    then show ?thesis using Cons.prems(4) a None by simp
  next
    case (Some i)
    obtain e2 adm' where rest: "admit_all show_idx now ks e1 = (e2, adm')" by force
    then have e': "e' = e2" "adm = (k, i) # adm'" using Cons.prems(4) a Some by simp_all
    have r1: "at_rest (insert k A) e1" using at_rest_micros [OF conjunct1 [OF M] rk] .
    have "\<forall>k' \<in> set ks. admissible k' e1"
    proof
      fix k'
      assume m: "k' \<in> set ks"
      then have "k' \<noteq> k" using Cons.prems(2) by auto
      then have "seg_of k' e1 = seg_of k' e" by (rule admit_slot_other [OF a])
      then show "admissible k' e1" using Cons.prems(3) m by (simp add: admissible_def)
    qed
    then have ih: "micros N False (insert k A \<union> fst ` set adm') e1 e2 \<and> (\<forall>ki \<in> set adm'. admitted ki e2) \<and>
        distinct (map fst adm') \<and> fst ` set adm' \<subseteq> set ks \<and> (\<forall>x. x \<notin> set ks \<longrightarrow> seg_of x e2 = seg_of x e1)"
      using Cons.IH [OF r1 _ _ rest] Cons.prems(2) by simp
    have "admitted (k, i) e2"
    proof -
      have "seg_of k e2 = seg_of k e1" using ih Cons.prems(2) by simp
      then show ?thesis using M Some s by (auto simp: admitted_def)
    qed
    moreover have "k \<notin> fst ` set adm'" using ih Cons.prems(2) by auto
    moreover have "micros N False (A \<union> fst ` set adm) e e2"
      using micros_trans [OF micros_mono_admit [OF conjunct1 [OF M]] micros_mono_admit [OF conjunct1 [OF ih]]] e' by auto
    moreover have "\<forall>x. x \<notin> set (k # ks) \<longrightarrow> seg_of x e2 = seg_of x e" using ih admit_slot_other [OF a] by auto
    ultimately show ?thesis using ih e' by auto
  qed
qed simp

lemma complete_prefill_plain: "complete_prefill k i None False e =
    send_result (PrefillDone (fst k) (snd k)) (upd_seg k (\<lambda>s. s\<lparr>es_state := Active, decode_start_frame := frame_idx (slot_at i e),
                                es_cache_hit := (prefill_source (slot_at i e) = ''prefix_cache_prefix_only'')\<rparr>)
                 (e\<lparr>el_total_prefills := Suc (el_total_prefills e)\<rparr>))"
  by (simp add: complete_prefill_def Let_def)

lemma activate_hit_micros:
  assumes "at_rest A e" and "admitted (k, i) e" and "hit (fst k) \<noteq> None"
  shows "micros N False A e (activate_hit hit (k, i) e) \<and> at_rest (A - {k}) (activate_hit hit (k, i) e) \<and>
    (\<forall>x. x \<noteq> k \<longrightarrow> seg_of x (activate_hit hit (k, i) e) = seg_of x e)"
proof -
  obtain s where s: "seg_of k e = Some s" "es_slot s = Some i" "es_state s = PendingPrefill" "pending_token_ids s \<noteq> []"
    using assms(2) by (auto simp: admitted_def)
  obtain n where n: "hit (fst k) = Some n" using assms(3) by auto
  let ?f = "\<lambda>s. s\<lparr>es_cache_hit := True, cache_tokens_reused := n, eos_trailing_added := es_input_complete s\<rparr>"
  have r: "activate_hit hit (k, i) e = complete_prefill k i None False (upd_seg k ?f
      (upd_slot i (prime_decode ''prefix_cache_prefix_only'' n (build_suffix (pending_token_ids s) (es_input_complete s))) e))"
    by (simp add: activate_hit_def s n Let_def)
  have "es_state s \<noteq> Active" using s(3) by simp
  then have "micros N False A e (activate_hit hit (k, i) e) \<and> at_rest (A - {k}) (activate_hit hit (k, i) e)"
    by (rule prime_micros [OF assms(1) s(1,2) _ refl s(4) _ _ r]) (simp_all add: s(3) keeps_text_def)
  then show ?thesis by (simp add: r complete_prefill_plain)
qed

lemma activate_all_micros:
  "at_rest (A \<union> fst ` set adm) e \<Longrightarrow> distinct (map fst adm) \<Longrightarrow> \<forall>ki \<in> set adm. admitted ki e \<and> hit (fst (fst ki)) \<noteq> None \<Longrightarrow>
   A \<inter> fst ` set adm = {} \<Longrightarrow>
   micros N False UNIV e (fold (activate_hit hit) adm e) \<and> at_rest A (fold (activate_hit hit) adm e)"
proof (induction adm arbitrary: e)
  case (Cons ki adm)
  obtain k i where ki: "ki = (k, i)" by (cases ki)
  let ?e1 = "activate_hit hit ki e"
  have step: "micros N False (A \<union> fst ` set (ki # adm)) e ?e1 \<and> at_rest ((A \<union> fst ` set (ki # adm)) - {k}) ?e1 \<and>
      (\<forall>x. x \<noteq> k \<longrightarrow> seg_of x ?e1 = seg_of x e)"
    unfolding ki by (rule activate_hit_micros) (use Cons.prems ki in auto)
  have "(A \<union> fst ` set (ki # adm)) - {k} = A \<union> fst ` set adm" using Cons.prems(2,4) ki by auto
  then have r1: "at_rest (A \<union> fst ` set adm) ?e1" using step by simp
  have "\<forall>ki' \<in> set adm. admitted ki' ?e1 \<and> hit (fst (fst ki')) \<noteq> None"
  proof
    fix ki'
    assume m: "ki' \<in> set adm"
    then have "fst ki' \<noteq> k" using Cons.prems(2) ki by (auto simp: image_iff)
    then have "seg_of (fst ki') ?e1 = seg_of (fst ki') e" using step by blast
    then show "admitted ki' ?e1 \<and> hit (fst (fst ki')) \<noteq> None" using Cons.prems(3) m by (simp add: admitted_def)
  qed
  then have "micros N False UNIV ?e1 (fold (activate_hit hit) adm ?e1) \<and> at_rest A (fold (activate_hit hit) adm ?e1)"
    using Cons.IH [OF r1] Cons.prems(2,4) by auto
  then show ?case using step by (auto intro: micros_trans micros_mono_admit [OF _ subset_UNIV])
qed simp

lemma keyed_concat_distinct:
  "distinct (map fst gs) \<Longrightarrow> \<forall>g \<in> set gs. distinct (map fst (eg_segments (snd g))) \<Longrightarrow>
   distinct (map fst (concat (map (\<lambda>(sid, g). if P g then [] else map (\<lambda>(idx, s). ((sid, idx), s)) (filter Q (eg_segments g))) gs)))"
proof (induction gs)
  case (Cons x gs)
  obtain sid g where x: "x = (sid, g)" by (cases x)
  let ?part = "\<lambda>(sid, g). if P g then [] else map (\<lambda>(idx, s). ((sid, idx), s)) (filter Q (eg_segments g))"
  have "distinct (map fst (filter Q (eg_segments g)))" using Cons.prems(2) x by (simp add: distinct_map_filter)
  then have "distinct (map (Pair sid) (map fst (filter Q (eg_segments g))))" by (rule distinct_map [THEN iffD2, OF conjI]) (simp add: inj_on_def)
  moreover have "map fst (map (\<lambda>(idx, s). ((sid, idx), s)) ys) = map (Pair sid) (map fst ys)" for ys :: "(int \<times> engine_segment) list"
    by (induction ys) auto
  ultimately have "distinct (map fst (?part x))" using x by (simp del: map_map)
  moreover have "fst k = sid" if "k \<in> fst ` set (?part x)" for k using that x by (auto split: if_splits)
  moreover have "fst k \<in> fst ` set gs" if "k \<in> fst ` set (concat (map ?part gs))" for k
    using that by (force split: if_splits)
  moreover have "sid \<notin> fst ` set gs" using Cons.prems(1) x by simp
  ultimately have "distinct (map fst (?part x)) \<and> fst ` set (?part x) \<inter> fst ` set (concat (map ?part gs)) = {}" by blast
  then show ?case using Cons by simp
qed simp

lemma pending_segments_distinct: "dicts_ok e \<Longrightarrow> distinct (map fst (pending_segments e))"
  unfolding pending_segments_def by (rule keyed_concat_distinct) (auto simp: dicts_ok_def)

lemma all_segments_distinct: "dicts_ok e \<Longrightarrow> distinct (map fst (all_segments e))"
  using keyed_concat_distinct [of "el_groups e" "\<lambda>_. False" "\<lambda>_. True"] by (fastforce simp: dicts_ok_def all_segments_def)

lemma all_segments_seg:
  assumes "dicts_ok e"
  shows "(k, s) \<in> set (all_segments e) \<longleftrightarrow> seg_of k e = Some s"
proof -
  obtain sid idx where k: "k = (sid, idx)" by (cases k)
  have g: "map_of (el_groups e) sid = Some g \<longleftrightarrow> (sid, g) \<in> set (el_groups e)" for g
    using assms by (intro map_of_eq_Some_iff) (simp add: dicts_ok_def)
  have "map_of (eg_segments g) idx = Some s \<longleftrightarrow> (idx, s) \<in> set (eg_segments g)" if "(sid, g) \<in> set (el_groups e)" for g
    using assms that by (intro map_of_eq_Some_iff) (auto simp: dicts_ok_def)
  moreover have "seg_of k e = Some s \<longleftrightarrow> (\<exists>g. map_of (el_groups e) sid = Some g \<and> map_of (eg_segments g) idx = Some s)"
    by (simp add: seg_of_def k split: option.split)
  ultimately have "seg_of k e = Some s \<longleftrightarrow> (\<exists>g. (sid, g) \<in> set (el_groups e) \<and> (idx, s) \<in> set (eg_segments g))"
    unfolding g by blast
  moreover have "(k, s) \<in> set (all_segments e) \<longleftrightarrow> (\<exists>g. (sid, g) \<in> set (el_groups e) \<and> (idx, s) \<in> set (eg_segments g))"
    unfolding k all_segments_def by force
  ultimately show ?thesis by blast
qed

lemma pick_batch_keys:
  "distinct (map fst cs) \<Longrightarrow>
   distinct (pick_batch per hit busy n counts cs) \<and> set (pick_batch per hit busy n counts cs) \<subseteq> fst ` set cs \<and>
   (\<forall>k \<in> set (pick_batch per hit busy n counts cs). hit (fst k) \<noteq> None)"
proof (induction cs arbitrary: n counts)
  case (Cons c cs)
  obtain k s where c: "c = (k, s)" by (cases c)
  let ?good = "\<lambda>ks. distinct ks \<and> set ks \<subseteq> fst ` set cs \<and> (\<forall>k \<in> set ks. hit (fst k) \<noteq> None)"
  have good: "?good (pick_batch per hit busy n' counts' cs)" for n' counts' using Cons by simp
  have more: "fst ` set cs \<subseteq> fst ` set (c # cs)" by auto
  have k: "k \<notin> fst ` set cs" using Cons.prems c by simp
  consider "pick_batch per hit busy n counts (c # cs) = []"
    | n' counts' where "pick_batch per hit busy n counts (c # cs) = pick_batch per hit busy n' counts' cs"
    | n' counts' where "pick_batch per hit busy n counts (c # cs) = k # pick_batch per hit busy n' counts' cs" "hit (fst k) \<noteq> None"
    unfolding c pick_batch.simps Let_def by (metis (full_types))
  then show ?case
  proof cases
    case (2 n' counts')
    then show ?thesis using good [of n' counts'] more by auto
  next
    case (3 n' counts')
    then show ?thesis using good [of n' counts'] more k c by auto
  qed simp
qed simp

lemma admit_cache_hit_batch_micros:
  assumes "at_rest {} e"
  shows "micros N False UNIV e (fst (admit_cache_hit_batch show_idx now hit e)) \<and> at_rest {} (fst (admit_cache_hit_batch show_idx now hit e))"
proof (cases "min (int (free_count (el_pool e))) (lc_max_batch (el_cfg e)) \<le> 0")
  case False
  let ?cands = "sort_key (\<lambda>(_, s). priority_value (es_priority s)) (pending_segments e)"
  let ?picked = "pick_batch (lc_max_slots_per_session (el_cfg e)) hit
      (\<lambda>sid. case map_of (el_groups e) sid of None \<Rightarrow> 0 | Some g \<Rightarrow> active_slot_count g)
      (nat (min (int (free_count (el_pool e))) (lc_max_batch (el_cfg e)))) [] ?cands"
  have dk: "dicts_ok e" using assms by (simp add: at_rest_def slots_ok_def)
  have "distinct (map fst ?cands)" using pending_segments_distinct [OF dk] by (simp add: distinct_map)
  from pick_batch_keys [OF this]
  have p: "distinct ?picked" "set ?picked \<subseteq> fst ` set (pending_segments e)" "\<forall>k \<in> set ?picked. hit (fst k) \<noteq> None" by simp_all
  have adm: "\<forall>k \<in> set ?picked. admissible k e"
  proof
    fix k
    assume "k \<in> set ?picked"
    then obtain s where "(k, s) \<in> set (pending_segments e)" using p(2) by fastforce
    from pending_segments_seg [OF dk this] show "admissible k e"
      using assms by (auto simp: admissible_def at_rest_def idle_free_def)
  qed
  obtain e1 ad where a: "admit_all show_idx now ?picked e = (e1, ad)" by force
  note A = admit_all_micros [OF assms p(1) adm a, of N]
  have "at_rest ({} \<union> fst ` set ad) e" using assms by (rule at_rest_mono) simp
  then have r1: "at_rest ({} \<union> fst ` set ad) e1" by (rule at_rest_micros [OF conjunct1 [OF A]])
  have "\<forall>ki \<in> set ad. admitted ki e1 \<and> hit (fst (fst ki)) \<noteq> None" using A p(3) by blast
  from activate_all_micros [OF r1 _ this, of N]
  have B: "micros N False UNIV e1 (fold (activate_hit hit) ad e1) \<and> at_rest {} (fold (activate_hit hit) ad e1)" using A by simp
  have "micros N False UNIV e (fold (activate_hit hit) ad e1)"
    using micros_trans [OF micros_mono_admit [OF conjunct1 [OF A]] conjunct1 [OF B]] by simp
  moreover have "fst (admit_cache_hit_batch show_idx now hit e) = fold (activate_hit hit) ad e1"
    using False a by (simp add: admit_cache_hit_batch_def Let_def)
  ultimately show ?thesis using B by simp
qed (use assms in \<open>simp add: admit_cache_hit_batch_def\<close>)

lemma prefill_pass_micros:
  "at_rest {} e \<Longrightarrow> prefill_pass show_idx now pf n e = (e', r) \<Longrightarrow>
   micros N False UNIV e e' \<and> slots_ok e' \<and> drained e' \<and> half_admitted e' \<and> ((\<exists>b. r = Inr b) \<longrightarrow> at_rest {} e')"
proof (induction n arbitrary: e)
  case 0
  then show ?case using half_admitted_rest by (auto simp: at_rest_def)
next
  case (Suc n)
  obtain e1 r1 where o: "try_prefill_one show_idx now pf e = (e1, r1)" by force
  note T = try_prefill_one_micros [OF Suc.prems(1) o, of N]
  show ?case
  proof (cases "r1 = Inr True")
    case True
    then have "prefill_pass show_idx now pf n e1 = (e', r)" using Suc.prems(2) o by simp
    with Suc.IH [of e1] T True show ?thesis using micros_trans by blast
  next
    case False
    then show ?thesis using Suc.prems(2) o T by (cases r1) (auto split: bool.splits)
  qed
qed

lemma reports_fold:
  "fold report_failed_prefill gs e =
   e\<lparr>el_out := el_out e @ List.map_filter (\<lambda>sg. map_option (\<lambda>s. LoopError (fst sg) (es_segment_idx s) ''Prefill failed unexpectedly'')
     (failed_prefill (snd sg))) gs\<rparr>"
proof (induction gs arbitrary: e)
  case (Cons x gs)
  then show ?case by (simp add: report_failed_prefill_def send_result_def map_filter_simps split: option.split)
qed simp

lemma failed_sessions:
  "map result_session (List.map_filter (\<lambda>sg. map_option (\<lambda>s. LoopError (fst sg) (es_segment_idx s) msg) (failed_prefill (snd sg))) gs) =
   map fst (filter (\<lambda>(_, g). failed_prefill g \<noteq> None) gs)"
  by (induction gs) (auto simp: map_filter_simps split: option.split)

lemma cleanup_failed_prefills_micros:
  assumes "slots_ok e" and "drained e" and "half_admitted e"
  shows "micros N False A e (cleanup_failed_prefills e) \<and> at_rest {} (cleanup_failed_prefills e)"
proof -
  let ?failed = "map fst (filter (\<lambda>(_, g). failed_prefill g \<noteq> None) (el_groups e))"
  let ?rs = "List.map_filter (\<lambda>sg. map_option (\<lambda>s. LoopError (fst sg) (es_segment_idx s) ''Prefill failed unexpectedly'')
     (failed_prefill (snd sg))) (el_groups e)"
  let ?e1 = "e\<lparr>el_out := el_out e @ ?rs\<rparr>"
  let ?e2 = "fold remove_session ?failed ?e1"
  have dk: "dicts_ok e" using assms(1) by (simp add: slots_ok_def)
  have r: "cleanup_failed_prefills e = ?e2" by (simp add: cleanup_failed_prefills_def reports_fold)
  have "micro N False A e (fold remove_session (map result_session ?rs) ?e1)"
  proof (rule finish)
    show "distinct (map result_session ?rs)"
      unfolding failed_sessions using dk by (intro distinct_map_filter) (simp add: dicts_ok_def)
    have "result_session r \<in> set ?failed" if "r \<in> set ?rs" for r
      using imageI [OF that, of result_session] unfolding set_map [symmetric] failed_sessions .
    then show "\<forall>r \<in> set ?rs. registered (result_session r) e" by (fastforce simp: registered_def)
  qed
  then have m: "micros N False A e ?e2" unfolding failed_sessions by (rule micros_step)
  have "slots_ok ?e1" by (rule slots_ok_frame [OF assms(1)]) simp_all
  note R = remove_sessions_spec [OF this, of ?failed]
  have "idle_free {} ?e2"
    unfolding idle_free_def
  proof (intro allI impI)
    fix k s
    assume k: "seg_of k ?e2 = Some s" "es_state s \<noteq> Active"
    have se: "seg_of k e = Some s" "fst k \<notin> set ?failed" using R k(1) by (auto split: if_splits)
    show "es_slot s = None"
    proof (rule ccontr)
      assume h: "es_slot s \<noteq> None"
      then have p: "es_state s = PendingPrefill" using assms(3) se(1) k(2) by (auto simp: half_admitted_def)
      obtain g where g: "map_of (el_groups e) (fst k) = Some g" "map_of (eg_segments g) (snd k) = Some s"
        using se(1) by (auto simp: seg_of_def split: option.splits)
      have "failed_prefill g \<noteq> None"
        using map_of_SomeD [OF g(2)] p h by (auto simp: failed_prefill_def find_None_iff)
      then have "fst k \<in> set ?failed" using map_of_SomeD [OF g(1)] by force
      then show False using se(2) by blast
    qed
  qed
  moreover have "slots_ok ?e2 \<and> drained ?e2" using micros_inv [OF m assms(1)] assms(2) by blast
  ultimately show ?thesis using m r by (simp add: at_rest_def)
qed

lemma prefill_phase_micros:
  assumes "at_rest {} e"
  shows "micros N False UNIV e (prefill_phase show_idx now hit pf e) \<and> at_rest {} (prefill_phase show_idx now hit pf e)"
proof -
  note B = admit_cache_hit_batch_micros [OF assms, of N show_idx now hit]
  obtain e1 r where t: "try_prefill_pending show_idx now hit pf e = (e1, r)" by force
  note P = prefill_pass_micros [OF conjunct2 [OF B] t [unfolded try_prefill_pending_def], of N]
  have m1: "micros N False UNIV e e1" using B P by (blast intro: micros_trans)
  show ?thesis
  proof (cases r)
    case (Inl err)
    then have "prefill_phase show_idx now hit pf e = cleanup_failed_prefills e1" using t by (simp add: prefill_phase_def)
    then show ?thesis using cleanup_failed_prefills_micros [of e1 N UNIV] P m1 by (auto intro: micros_trans)
  next
    case (Inr u)
    then have "prefill_phase show_idx now hit pf e = e1" using t by (simp add: prefill_phase_def)
    then show ?thesis using P Inr m1 by auto
  qed
qed
section \<open>The decode batch and its output\<close>

lemma upd_slot_guard: "P (slot_at i e) \<Longrightarrow> upd_slot i f e = upd_slot i (\<lambda>sl. if P sl then f sl else sl) e"
  by (simp add: upd_slot_def map_slot_def slot_at_def)

lemma take_text_micros:
  assumes "text_idx (slot_at i e) < length (sl_trailing (slot_at i e))" and "keeps_owner f"
    and "\<And>sl. sl_trailing (f sl) = sl_trailing sl \<and> prefill_source (f sl) = prefill_source sl \<and> text_idx (f sl) = Suc (text_idx sl)"
  shows "micros N b A e (upd_slot i f e)"
proof -
  let ?f = "\<lambda>sl. if text_idx sl < length (sl_trailing sl) then f sl else sl"
  have "upd_slot i f e = upd_slot i ?f e" using upd_slot_guard [of "\<lambda>sl. text_idx sl < length (sl_trailing sl)"] assms(1) by blast
  moreover have "micros N b A e (upd_slot i ?f e)"
    by (rule micros_slot_note) (use assms(2,3) in \<open>simp_all add: keeps_owner_def keeps_trailing_def\<close>)
  ultimately show ?thesis by simp
qed

lemma scan_active_micros: "micros N b A e (fst (scan_active xs full cands e))"
proof (induction xs arbitrary: full cands e)
  case (Cons x xs)
  obtain k s where x: "x = (k, s)" by (cases x)
  show ?case
  proof (cases "es_state s = Active \<and> es_slot s \<noteq> None")
    case True
    then obtain i where i: "es_state s = Active" "es_slot s = Some i" by auto
    let ?e1 = "upd_slot i (\<lambda>sl. sl\<lparr>next_embed := Some (sl_trailing sl ! text_idx sl), text_idx := Suc (text_idx sl)\<rparr>) e"
    have "micros N b A e ?e1" if "text_idx (slot_at i e) < length (sl_trailing (slot_at i e))"
      by (rule take_text_micros [OF that]) (simp_all add: keeps_owner_def)
    then have "micros N b A e (fst (scan_active xs f c ?e1))" if "text_idx (slot_at i e) < length (sl_trailing (slot_at i e))" for f c
      using that Cons.IH micros_trans by blast
    then show ?thesis using i Cons.IH by (simp add: x Let_def)
  next
    case False
    then have "scan_active (x # xs) full cands e = scan_active xs full cands e"
      by (cases "es_state s"; cases "es_slot s") (simp_all add: x)
    then show ?thesis using Cons.IH by simp
  qed
qed simp

lemma end_full_segment_micros: "at_rest A e \<Longrightarrow> micros N False A e (end_full_segment k e)"
  by (simp add: end_full_segment_def Let_def retry_or_end_micros handle_segment_eos_micros split: option.split)

lemma get_active_slots_micros:
  assumes "at_rest A e"
  shows "micros N False A e (fst (get_active_slots_mlfq e))"
proof -
  obtain e1 full cands where s: "scan_active (all_segments e) [] [] e = (e1, full, cands)" by (metis prod_cases3)
  have m1: "micros N False A e e1" using scan_active_micros [of N False A e "all_segments e" "[]" "[]"] s by simp
  let ?e2 = "fold end_full_segment full e1"
  have m2: "micros N False A e1 ?e2"
    using micros_fold [where P = "at_rest A" and f = end_full_segment and xs = full, OF _ at_rest_micros [OF m1 assms], of N]
      end_full_segment_micros at_rest_micros by blast
  have "micros N False A ?e2 (?e2\<lparr>el_mlfq := q\<rparr>)" for q by (rule micros_frame) simp_all
  then have "micros N False A e (?e2\<lparr>el_mlfq := q\<rparr>)" "micros N False A e ?e2" for q using m1 m2 micros_trans by blast+
  then show ?thesis by (simp add: get_active_slots_mlfq_def s Let_def split: prod.split)
qed

lemma deliver_audio_micros: "micros N b A e (deliver_audio k audio e)"
proof -
  have "micros N b A e (upd_seg k (\<lambda>s. s\<lparr>first_raw_audio_sent := True\<rparr>) e)" by (rule micros_note) (simp add: keeps_text_def)
  then have "micros N b A e (send_audio k a (upd_seg k (\<lambda>s. s\<lparr>first_raw_audio_sent := True\<rparr>) e))" for a
    using send_audio_micros micros_trans by blast
  then show ?thesis by (simp add: deliver_audio_def split: option.split list.split)
qed

lemma silence_abort_micros: "at_rest A e \<Longrightarrow> micros N False A e (silence_abort k n e)"
  by (simp add: silence_abort_def retry_or_end_micros handle_segment_eos_micros split: option.split)

lemma finish_frame_micros:
  assumes "at_rest A e"
  shows "micros N False A e (finish_frame k i pad audio e)"
proof -
  let ?e1 = "upd_slot i (count_silence (el_cfg e) audio) e"
  have m: "micros N False A e ?e1"
    by (rule micros_slot_note) (simp_all add: keeps_owner_def keeps_trailing_def count_silence_def split: option.split list.split)
  have "micros N False A ?e1 (silence_abort k n ?e1)" "micros N False A ?e1 (deliver_audio k audio ?e1)" for n
    by (rule silence_abort_micros [OF at_rest_micros [OF m assms]], rule deliver_audio_micros)
  then have "micros N False A e (silence_abort k n ?e1)" "micros N False A e (deliver_audio k audio ?e1)" for n
    using m micros_trans by blast+
  then show ?thesis by (simp add: finish_frame_def Let_def deliver_audio_micros)
qed

lemma loop_abort_micros:
  assumes "at_rest A e"
  shows "micros N False A e (loop_abort fade k mode ratio audio e)"
proof -
  obtain e1 r where t: "try_segment_retry k ''loop'' mode ratio e = (e1, r)" by force
  then have m1: "micros N False A e e1" using try_segment_retry_micros [OF assms, of N k "''loop''" mode ratio] by simp
  let ?e2 = "case audio of Some (a # as) \<Rightarrow> send_audio k (fade (a # as)) e1 | _ \<Rightarrow> e1"
  have "micros N False A e1 ?e2" by (simp add: send_audio_micros split: option.split list.split)
  with m1 have m2: "micros N False A e ?e2" by (rule micros_trans)
  have "micros N False A ?e2 (handle_segment_eos k False (Some ''loop_abort'') n d mode ?e2)" for n d
    by (rule handle_segment_eos_micros [OF at_rest_micros [OF m2 assms]])
  then have "micros N False A e (handle_segment_eos k False (Some ''loop_abort'') n d mode ?e2)" for n d
    using m2 micros_trans by blast
  then have "micros N False A e (case seg_of k ?e2 of None \<Rightarrow> ?e2
      | Some s \<Rightarrow> handle_segment_eos k False (Some ''loop_abort'') (loop_run s) (\<not> audible_frame_seen s) mode ?e2)"
    using m2 by (simp split: option.split)
  then show ?thesis using m1 by (simp only: loop_abort_def t Let_def prod.case split: bool.split) simp
qed

lemma guard_frame_micros:
  assumes "at_rest A e"
  shows "micros N False A e (guard_frame fade k i pad token audio e)"
proof (cases token)
  case None
  then show ?thesis by (simp add: guard_frame_def finish_frame_micros [OF assms])
next
  case (Some t)
  let ?e1 = "upd_seg k (note_token (el_cfg e) t) e"
  have m: "micros N False A e ?e1" by (rule micros_note) (simp add: keeps_text_def note_token_def Let_def)
  have r: "at_rest A ?e1" by (rule at_rest_micros [OF m assms])
  have "micros N False A e (loop_abort fade k mode ratio audio ?e1)" "micros N False A e (finish_frame k i pad audio ?e1)" for mode ratio
    using loop_abort_micros [OF r] finish_frame_micros [OF r] micros_trans [OF m] by blast+
  then show ?thesis using m finish_frame_micros [OF assms] by (simp add: guard_frame_def Some Let_def split: option.split)
qed

lemma judge_frame_micros:
  assumes "at_rest A e"
  shows "micros N False A e (judge_frame fade k i pad row e)"
proof -
  have m: "micros N False A e (record_audio_health k a e)" for a by (rule record_audio_health_micros)
  note r = at_rest_micros [OF m assms]
  have "micros N False A e (retry_or_end k x y z w (record_audio_health k a e))"
    "micros N False A e (guard_frame fade k i pad t u (record_audio_health k a e))" for a x y z w t u
    using retry_or_end_micros [OF r] guard_frame_micros [OF r] micros_trans [OF m] by blast+
  then show ?thesis
    by (simp add: judge_frame_def Let_def handle_natural_eos_micros guard_frame_micros assms split: option.split list.split)
qed

lemma process_row_micros:
  assumes "at_rest A e"
  shows "micros N False A e (process_row fade now n row e)"
proof -
  have "micros N False A e (judge_frame fade k (sr_slot row) pad row e4)"
    if e1: "e1 = upd_seg k (\<lambda>s. s\<lparr>max_decode_batch := max (max_decode_batch s) n\<rparr>) e"
      and e2: "e2 = upd_slot (sr_slot row) (advance_slot now (sr_eos row)) e1"
      and e3: "e3 = e2\<lparr>el_mlfq := q\<rparr>"
      and e4: "e4 = upd_slot (sr_slot row) (feed_slot ic (sr_eos row) (sr_codec row)) e3" for k pad e1 e2 e3 e4 ic q
  proof -
    have "micros N False A e e1" unfolding e1 by (rule micros_note) (simp add: keeps_text_def)
    also have "micros N False A e1 e2" unfolding e2
      by (rule micros_slot_note) (simp_all add: keeps_owner_def keeps_trailing_def advance_slot_def)
    also have "micros N False A e2 e3" unfolding e3 by (rule micros_frame) simp_all
    also have "micros N False A e3 e4" unfolding e4
      by (rule micros_slot_note) (simp_all add: keeps_owner_def keeps_trailing_def feed_slot_def split: option.split)
    finally have m: "micros N False A e e4" .
    then show ?thesis using judge_frame_micros [OF at_rest_micros [OF m assms]] micros_trans by blast
  qed
  then show ?thesis by (simp add: process_row_def Let_def split: option.split)
qed

lemma cache_columns_slots [simp]:
  "kp_slots (fst (scatter_talker_kv_delta ids ds lens p)) = kp_slots p" "kp_slots (fst (append_c2w_frames ids fs p)) = kp_slots p"
  by (simp_all add: scatter_talker_kv_delta_def append_c2w_frames_def on_talker_def on_c2w_def split: option.split prod.split)

lemma process_step_output_micros:
  assumes "at_rest A e"
  shows "micros N False A e (process_step_output fade now rows e)"
proof -
  let ?e1 = "e\<lparr>el_pool := fst (scatter_talker_kv_delta (map sr_slot rows) (map sr_talker rows) (map sr_past_len rows) (el_pool e))\<rparr>"
  let ?e2 = "fold (process_row fade now (length rows)) rows ?e1"
  have ok: "pool_ok (el_pool e)" using assms by (simp add: at_rest_def slots_ok_def)
  have m1: "micros N False A e ?e1" by (intro micros_step micro.rows) (use talker_ops_ok(3) [OF ok] in simp_all)
  have m2: "micros N False A ?e1 ?e2 \<and> at_rest A ?e2"
    by (rule micros_fold [where P = "at_rest A", OF _ at_rest_micros [OF m1 assms]]) (use process_row_micros at_rest_micros in blast)
  have ok2: "pool_ok (el_pool ?e2)" using m2 by (simp add: at_rest_def slots_ok_def)
  have m3: "micros N False A ?e2 (?e2\<lparr>el_pool := fst (append_c2w_frames ids fs (el_pool ?e2))\<rparr>)" for ids fs
    by (intro micros_step micro.rows) (use c2w_ops_ok(2) [OF ok2] in simp_all)
  have m4: "micros N False A e' (fold (\<lambda>r. upd_slot (sr_slot r) (\<lambda>sl. sl\<lparr>c2w_len := min (Suc (c2w_len sl)) w\<rparr>)) live e')"
    for e' :: "'a engine_loop" and live :: "'a step_row list" and w
    by (rule conjunct1 [OF micros_fold [where P = "\<lambda>_. True"]]) (simp_all add: micros_slot_note keeps_owner_def keeps_trailing_def)
  have "micros N False A e ?e2" using micros_trans [OF m1 conjunct1 [OF m2]] .
  moreover have "micros N False A e (fold (\<lambda>r. upd_slot (sr_slot r) (\<lambda>sl. sl\<lparr>c2w_len := min (Suc (c2w_len sl)) w\<rparr>)) live
      (?e2\<lparr>el_pool := fst (append_c2w_frames ids fs (el_pool ?e2))\<rparr>))" for live :: "'a step_row list" and w ids fs
    by (rule micros_trans [OF calculation micros_trans [OF m3 m4]])
  ultimately show ?thesis by (simp add: process_step_output_def Let_def)
qed

section \<open>Idle slots and timeouts\<close>

lemma timeout_session_micros: "micros N b A e (timeout_session sid e)"
proof -
  let ?e1 = "e\<lparr>el_total_timeouts := Suc (el_total_timeouts e)\<rparr>"
  have "micros N b A e ?e1" by (rule micros_frame) simp_all
  also have "micros N b A ?e1 (remove_session sid (send_result (LoopError sid 0 ''Session timeout'') ?e1))" if "registered sid e"
    using micros_end_session [of "LoopError sid 0 ''Session timeout''" ?e1] that by (simp add: registered_def)
  finally show ?thesis by (auto simp: timeout_session_def registered_def)
qed

lemma try_timeout_sessions_micros: "micros N b A e (try_timeout_sessions now e)"
  unfolding try_timeout_sessions_def
  using micros_fold [where P = "\<lambda>_. True" and f = timeout_session] timeout_session_micros by (simp split: if_split) blast

definition idle_slots :: "rat \<Rightarrow> rat \<Rightarrow> ('e, 'k) kv_pool \<Rightarrow> nat set" where
  "idle_slots now limit p = {i \<in> owned p. limit \<le> idle_seconds now (kp_slots p ! i)}"

lemma eviction_scan_mem:
  "eviction_scan now limit best ss = Some c \<Longrightarrow> (c \<in> set ss \<and> \<not> is_free c \<and> limit \<le> idle_seconds now c) \<or> best = Some c"
proof (induction ss arbitrary: best)
  case (Cons s ss)
  let ?best = "if is_free s \<or> idle_seconds now s < limit then best
     else case best of None \<Rightarrow> Some s | Some b \<Rightarrow> if idle_seconds now b < idle_seconds now s then Some s else best"
  have "(c \<in> set ss \<and> \<not> is_free c \<and> limit \<le> idle_seconds now c) \<or> ?best = Some c" using Cons by simp
  moreover have "(c = s \<and> \<not> is_free s \<and> limit \<le> idle_seconds now s) \<or> best = Some c" if "?best = Some c"
    using that by (simp split: if_splits option.splits)
  ultimately show ?case by auto
qed simp

lemma eviction_candidate:
  assumes "pool_ok p" and "find_eviction_candidate now limit p = Some c"
  shows "slot_id c \<in> idle_slots now limit p"
proof -
  have c: "c \<in> set (kp_slots p)" "\<not> is_free c" "limit \<le> idle_seconds now c"
    using eviction_scan_mem [of now limit None "kp_slots p" c] assms(2) by (auto simp: find_eviction_candidate_def)
  then obtain i where "i < kp_max_slots p" "kp_slots p ! i = c" using assms(1) by (auto simp: in_set_conv_nth pool_ok_def)
  then show ?thesis using c assms(1) by (auto simp: idle_slots_def owned_def pool_ok_def)
qed

lemma idle_slots_finite [simp]: "finite (idle_slots now limit p)" "card (idle_slots now limit p) \<le> kp_max_slots p"
proof -
  have s: "idle_slots now limit p \<subseteq> {..<kp_max_slots p}" by (auto simp: idle_slots_def owned_def)
  then show "finite (idle_slots now limit p)" by (rule finite_subset) simp
  show "card (idle_slots now limit p) \<le> kp_max_slots p" using card_mono [OF _ s] by simp
qed

lemma slot_owner:
  assumes "slots_ok e" and "i \<in> owned (el_pool e)"
  obtains k s where "map_of (el_seg_by_slot e) i = Some k" "seg_of k e = Some s" "es_slot s = Some i"
proof -
  have own: "own_ok (\<lambda>k. slot_of k e) (map_of (el_seg_by_slot e)) (owned (el_pool e))" using assms(1) by (simp add: slots_ok_def)
  then have "i \<in> dom (map_of (el_seg_by_slot e))" using assms(2) unfolding own_ok_def by simp
  then obtain k where k: "map_of (el_seg_by_slot e) i = Some k" by (meson domD)
  moreover have "slot_of k e = Some i" using own k by (simp add: own_ok_def)
  ultimately show ?thesis using that by (auto simp: slot_of_def split: option.splits)
qed

text \<open>One round of the eviction loop: the owner of the candidate is kept or its session ends.\<close>

definition evicted :: "seg_key \<Rightarrow> nat \<Rightarrow> 'k engine_loop \<Rightarrow> 'k engine_loop" where
  "evicted k i e = remove_session (fst k) (send_result (LoopError (fst k) (snd k) ''Slot evicted: idle'')
     (upd_seg k (\<lambda>s. s\<lparr>es_state := SegEvicted, es_slot := None\<rparr>)
       (release_slot_id i (e\<lparr>el_total_evictions := Suc (el_total_evictions e)\<rparr>))))"

lemma evict_round:
  assumes "slots_ok e" and "find_eviction_candidate now (lc_max_idle_sec (el_cfg e)) (el_pool e) = Some c"
  obtains k s where "seg_of k e = Some s" "es_slot s = Some (slot_id c)"
    "evict_loop (Suc n) now e =
       (if is_waiting_for_text s e then evict_loop n now (upd_slot (slot_id c) (touch now) e) else evict_loop n now (evicted k (slot_id c) e))"
proof -
  let ?i = "slot_id c"
  have ok: "pool_ok (el_pool e)" using assms(1) by (simp add: slots_ok_def)
  have i: "?i \<in> owned (el_pool e)" using eviction_candidate [OF ok assms(2)] by (simp add: idle_slots_def)
  obtain k s where k: "map_of (el_seg_by_slot e) ?i = Some k" "seg_of k e = Some s" "es_slot s = Some ?i"
    by (rule slot_owner [OF assms(1) i])
  have "?i < length (kp_slots (el_pool e))" using i ok by (simp add: owned_def pool_ok_def)
  then have "e\<lparr>el_pool := fst (force_evict ?i (el_pool e)), el_seg_by_slot := dict_pop ?i (el_seg_by_slot e)\<rparr> = release_slot_id ?i e"
    by (simp add: force_evict_release release_slot_id_def slot_at_def)
  moreover have "(send_result r (upd_seg k f (release_slot_id ?i e)))\<lparr>el_total_evictions := Suc (el_total_evictions
      (send_result r (upd_seg k f (release_slot_id ?i e))))\<rparr> =
      send_result r (upd_seg k f (release_slot_id ?i (e\<lparr>el_total_evictions := Suc (el_total_evictions e)\<rparr>)))" for r f
    by (cases e) (simp add: send_result_def upd_seg_def upd_group_def release_slot_id_def slot_at_def)
  ultimately have "evict_loop (Suc n) now e =
       (if is_waiting_for_text s e then evict_loop n now (upd_slot ?i (touch now) e) else evict_loop n now (evicted k ?i e))"
    by (subst evict_loop.simps) (simp add: assms(2) k Let_def evicted_def)
  with k(2,3) show ?thesis by (rule that)
qed

lemma evicted_micros:
  assumes "at_rest A e" and "seg_of k e = Some s" and "es_slot s = Some i"
  shows "micros N False A e (evicted k i e)"
proof -
  let ?f = "\<lambda>s. s\<lparr>es_state := SegEvicted, es_slot := None\<rparr>"
  let ?e1 = "e\<lparr>el_total_evictions := Suc (el_total_evictions e)\<rparr>"
  let ?e2 = "upd_seg k ?f (release_slot_id i ?e1)"
  have s1: "seg_of k ?e1 = Some s" using assms(2) by (simp add: seg_of_def)
  have "micros N False A e ?e1" by (rule micros_frame) simp_all
  also have "micros N False A ?e1 ?e2"
    using s1 assms(3) drainedD [OF _ assms(2)] assms(1) by (intro micros_step release [of k _ s]) (simp_all add: at_rest_def)
  also have "micros N False A ?e2 (evicted k i e)"
    using micros_end_session [of "LoopError (fst k) (snd k) ''Slot evicted: idle''" ?e2] seg_registered [OF s1] by (simp add: evicted_def)
  finally show ?thesis .
qed

lemma evict_loop_micros: "at_rest A e \<Longrightarrow> evict_loop n now e = Some e' \<Longrightarrow> micros N False A e e'"
proof (induction n arbitrary: e)
  case 0
  then show ?case by (simp add: evict_loop.simps split: option.splits)
next
  case (Suc n)
  have ok: "slots_ok e" using Suc.prems(1) by (simp add: at_rest_def)
  show ?case
  proof (cases "find_eviction_candidate now (lc_max_idle_sec (el_cfg e)) (el_pool e)")
    case None
    then show ?thesis using Suc.prems(2) by (simp add: evict_loop.simps)
  next
    case (Some c)
    obtain k s where k: "seg_of k e = Some s" "es_slot s = Some (slot_id c)"
      and r: "evict_loop (Suc n) now e =
       (if is_waiting_for_text s e then evict_loop n now (upd_slot (slot_id c) (touch now) e) else evict_loop n now (evicted k (slot_id c) e))"
      by (rule evict_round [OF ok Some])
    have "micros N False A e (upd_slot (slot_id c) (touch now) e)"
      by (rule micros_slot_note) (simp_all add: keeps_owner_def keeps_trailing_def touch_def)
    moreover note evicted_micros [OF Suc.prems(1) k, of N]
    ultimately obtain e1 where e1: "micros N False A e e1" "evict_loop n now e1 = Some e'"
      using r Suc.prems(2) by (auto split: if_splits)
    then show ?thesis using Suc.IH [OF at_rest_micros [OF e1(1) Suc.prems(1)]] micros_trans by blast
  qed
qed

lemma evict_idle_micros:
  assumes "at_rest A e"
  shows "micros N False A e (loop_exec (EvictIdle now) e)"
proof -
  let ?e1 = "e\<lparr>el_last_eviction_check := now\<rparr>"
  have m: "micros N False A e ?e1" by (rule micros_frame) simp_all
  then have "micros N False A e e'" if "evict_loop n now ?e1 = Some e'" for n e'
    using evict_loop_micros [OF at_rest_micros [OF m assms] that] micros_trans by blast
  then show ?thesis by (simp add: try_evict_idle_slots_def split: option.split)
qed

text \<open>The eviction loop ends: every round leaves one idle slot less.\<close>

lemma evicted_idle:
  assumes "slots_ok e" and "seg_of k e = Some s" and "es_slot s = Some i"
  shows "slots_ok (evicted k i e) \<and> el_cfg (evicted k i e) = el_cfg e \<and>
    idle_slots now limit (el_pool (evicted k i e)) \<subseteq> idle_slots now limit (el_pool e) - {i}"
proof -
  let ?e1 = "e\<lparr>el_total_evictions := Suc (el_total_evictions e)\<rparr>"
  let ?e2 = "upd_seg k (\<lambda>s. s\<lparr>es_state := SegEvicted, es_slot := None\<rparr>) (release_slot_id i ?e1)"
  let ?e3 = "send_result (LoopError (fst k) (snd k) ''Slot evicted: idle'') ?e2"
  have i: "i \<in> owned (el_pool e)" using held_slot [OF assms] by blast
  have ok1: "slots_ok ?e1" by (rule slots_ok_frame [OF assms(1)]) simp_all
  have s1: "seg_of x ?e1 = seg_of x e" for x by (simp add: seg_of_def)
  have ok2: "slots_ok ?e2" by (rule slots_ok_release [OF ok1, of k s]) (simp_all add: s1 assms(2,3))
  have "pool_ok (el_pool ?e1)" "i \<in> owned (el_pool ?e1)" using ok1 i by (simp_all add: slots_ok_def)
  note p = release_slot_id_pool [OF this]
  have ok3: "slots_ok ?e3" by (rule slots_ok_frame [OF ok2]) simp_all
  note R = remove_session_spec [OF ok3, of "fst k", folded evicted_def]
  have "j \<in> idle_slots now limit (el_pool e) - {i}" if j: "j \<in> idle_slots now limit (el_pool (evicted k i e))" for j
  proof -
    have ok: "slots_ok (evicted k i e)" using R by blast
    have jo: "j \<in> owned (el_pool (evicted k i e))" using j by (simp add: idle_slots_def)
    obtain k' s' where k': "seg_of k' (evicted k i e) = Some s'" "es_slot s' = Some j" by (rule slot_owner [OF ok jo])
    have n: "fst k' \<noteq> fst k" using R k'(1) by force
    then have "seg_of k' ?e3 = Some s'" using R k'(1) by (metis (no_types))
    then have k3: "seg_of k' e = Some s'" "slot_of k' ?e3 = Some j" using n k'(2) s1 by (auto simp: slot_of_def split: if_splits)
    have je: "j \<in> owned (el_pool e)" "j \<noteq> i" using held_slot [OF assms(1) k3(1) k'(2)] assms(2,3) n by auto
    have "slot_at j (evicted k i e) = slot_at j ?e3" using R n k3(2) by blast
    also have "\<dots> = slot_at j ?e1" using p je(2) by simp
    also have "\<dots> = slot_at j e" by (simp add: slot_at_def)
    finally show ?thesis using j je by (simp add: idle_slots_def slot_at_def)
  qed
  then show ?thesis using R by auto
qed

lemma touched_idle:
  assumes "pool_ok (el_pool e)" and "i \<in> owned (el_pool e)" and "0 < limit"
  shows "idle_slots now limit (el_pool (upd_slot i (touch now) e)) \<subseteq> idle_slots now limit (el_pool e) - {i}"
  using assms by (auto simp: idle_slots_def owned_def pool_ok_def map_slot_def nth_list_update touch_def idle_seconds_def split: if_splits)

lemma evict_loop_ends:
  "slots_ok e \<Longrightarrow> 0 < lc_max_idle_sec (el_cfg e) \<Longrightarrow> card (idle_slots now (lc_max_idle_sec (el_cfg e)) (el_pool e)) \<le> n \<Longrightarrow>
   \<exists>e'. evict_loop n now e = Some e'"
proof (induction n arbitrary: e)
  case 0
  then have "find_eviction_candidate now (lc_max_idle_sec (el_cfg e)) (el_pool e) = None"
    using eviction_candidate [of "el_pool e" now "lc_max_idle_sec (el_cfg e)"] by (fastforce simp: slots_ok_def)
  then show ?case by (simp add: evict_loop.simps)
next
  case (Suc n)
  let ?l = "lc_max_idle_sec (el_cfg e)"
  show ?case
  proof (cases "find_eviction_candidate now ?l (el_pool e)")
    case None
    then show ?thesis by (simp add: evict_loop.simps)
  next
    case (Some c)
    let ?i = "slot_id c"
    have ok: "pool_ok (el_pool e)" using Suc.prems(1) by (simp add: slots_ok_def)
    have i: "?i \<in> idle_slots now ?l (el_pool e)" by (rule eviction_candidate [OF ok Some])
    obtain k s where k: "seg_of k e = Some s" "es_slot s = Some ?i"
      and r: "evict_loop (Suc n) now e =
       (if is_waiting_for_text s e then evict_loop n now (upd_slot ?i (touch now) e) else evict_loop n now (evicted k ?i e))"
      by (rule evict_round [OF Suc.prems(1) Some])
    have less: "card S \<le> n" if "S \<subseteq> idle_slots now ?l (el_pool e) - {?i}" for S
    proof -
      have "card S \<le> card (idle_slots now ?l (el_pool e) - {?i})" using that by (intro card_mono) simp_all
      then show ?thesis using Suc.prems(3) i by (simp add: card_Diff_singleton)
    qed
    have "slots_ok (upd_slot ?i (touch now) e)" by (rule slots_ok_upd_slot [OF Suc.prems(1)]) (simp add: keeps_owner_def touch_def)
    then have a: "\<exists>e'. evict_loop n now (upd_slot ?i (touch now) e) = Some e'"
      using Suc.IH less [OF touched_idle [OF ok _ Suc.prems(2)]] Suc.prems(2) i by (simp add: idle_slots_def)
    note E = evicted_idle [OF Suc.prems(1) k, of now ?l]
    then have b: "\<exists>e'. evict_loop n now (evicted k ?i e) = Some e'" using Suc.IH [of "evicted k ?i e"] less Suc.prems(2) by simp
    show ?thesis using a b by (simp add: r)
  qed
qed

section \<open>Requests\<close>

lemma resume_micros: "micros N b A e (resume_streaming_segment_if_ready k e)"
proof -
  have "micros N b A e (upd_slot i (\<lambda>sl. sl\<lparr>next_embed := Some (Plus c (sl_trailing sl ! text_idx sl)), text_idx := Suc (text_idx sl),
      last_codec_sum := None, pad_start_frame := -1, pad_consecutive_silence := 0\<rparr>) e)"
    if "text_idx (slot_at i e) < length (sl_trailing (slot_at i e))" for i c
    by (rule take_text_micros [OF that]) (simp_all add: keeps_owner_def)
  then show ?thesis by (simp add: resume_streaming_segment_if_ready_def Let_def split: option.split)
qed

lemma flush_micros: "micros N b A e (flush_deferred_appends_for_segment k e)"
proof -
  have "micros N b A e (resume_streaming_segment_if_ready k
      (append_trailing_tokens i (deferred_token_ids s) (upd_seg k (\<lambda>s. s\<lparr>deferred_token_ids := []\<rparr>) e)))"
    if "seg_of k e = Some s" "es_slot s = Some i" for s i
    by (rule micros_trans [OF micros_step [OF flush [OF that]] resume_micros])
  then show ?thesis by (simp add: flush_deferred_appends_for_segment_def split: option.split)
qed

lemma resume_seg [simp]: "seg_of x (resume_streaming_segment_if_ready k e) = seg_of x e"
  by (simp add: resume_streaming_segment_if_ready_def Let_def split: option.split)

lemma flush_seg:
  "seg_of x (flush_deferred_appends_for_segment k e) =
   (if x = k then map_option (\<lambda>s. if es_slot s = None then s else s\<lparr>deferred_token_ids := []\<rparr>) (seg_of k e) else seg_of x e)"
  by (simp add: flush_deferred_appends_for_segment_def append_trailing_tokens_def split: option.split)

lemma flush_all_seg:
  "seg_of x (fold flush_deferred_appends_for_segment ks e) =
   (if x \<in> set ks then map_option (\<lambda>s. if es_slot s = None then s else s\<lparr>deferred_token_ids := []\<rparr>) (seg_of x e) else seg_of x e)"
proof (induction ks arbitrary: e)
  case (Cons k ks)
  then show ?case by (auto simp: flush_seg option.map_comp comp_def intro!: option.map_cong)
qed simp

lemma flush_deferred_appends_micros: "micros N b A e (flush_deferred_appends e)"
  unfolding flush_deferred_appends_def
  by (rule conjunct1 [OF micros_fold [where P = "\<lambda>_. True"]]) (simp_all add: flush_micros)

lemma deferred_heldD: "deferred_held e \<Longrightarrow> seg_of k e = Some s \<Longrightarrow> deferred_token_ids s \<noteq> [] \<Longrightarrow> es_slot s \<noteq> None"
  by (simp add: deferred_held_def)

lemma flush_deferred_appends_drained:
  assumes "slots_ok e" and "deferred_held e"
  shows "drained (flush_deferred_appends e)"
  unfolding drained_def
proof (intro allI impI)
  fix k s
  assume a: "seg_of k (flush_deferred_appends e) = Some s"
  have dk: "dicts_ok e" using assms(1) by (simp add: slots_ok_def)
  let ?f = "\<lambda>s. if es_slot s = None then s else s\<lparr>deferred_token_ids := []\<rparr>"
  have mem: "k \<in> set (map fst (all_segments e))" if "seg_of k e = Some t" for t
    using all_segments_seg [OF dk, of k t] that by force
  have "seg_of k e \<noteq> None" using a by (auto simp: flush_deferred_appends_def flush_all_seg split: if_splits)
  then obtain t where t: "seg_of k e = Some t" by auto
  then have "s = ?f t" using a mem [OF t] by (simp add: flush_deferred_appends_def flush_all_seg)
  moreover have "deferred_token_ids t = []" if "es_slot t = None"
    using deferred_heldD [OF assms(2) t] that by blast
  ultimately show "deferred_token_ids s = []" by simp
qed

lemma handle_new_session_micros:
  assumes "slots_ok e" and "sid \<in> N"
  shows "micros N b A e (handle_new_session now sid e)"
proof -
  have reg: "micros N b A e1 (e1\<lparr>el_groups := dict_set sid g (el_groups e1), el_total_sessions := n\<rparr>)"
    if "\<not> registered sid e1" "eg_segments g = []" for e1 :: "'a engine_loop" and g n
  proof -
    have "micros N b A e1 (e1\<lparr>el_groups := dict_set sid g (el_groups e1)\<rparr>)"
      by (intro micros_step register assms(2) that)
    also have "micros N b A \<dots> (e1\<lparr>el_groups := dict_set sid g (el_groups e1), el_total_sessions := n\<rparr>)"
      by (rule micros_frame) simp_all
    finally show ?thesis .
  qed
  have drop: "micros N b A e (remove_session sid e)" by (intro micros_step drop_session assms(2))
  have gone: "\<not> registered sid (remove_session sid e)" using remove_session_spec [OF assms(1), of sid] by blast
  have "micros N b A e (send_result (LoopError sid 0 m) e)" if "\<not> registered sid e" for m
    by (intro micros_step reject) (use that assms(2) in simp_all)
  then show ?thesis
    using reg micros_trans [OF drop reg [OF gone]] by (simp add: handle_new_session_def Let_def registered_def)
qed

lemma handle_start_tokens_micros:
  assumes "slots_ok e"
  shows "micros N b A e (handle_start_tokens r e)"
proof (cases "map_of (el_groups e) (rq_session r)")
  case (Some g)
  let ?sid = "rq_session r" and ?idx = "rq_segment r"
  let ?text = "overflow_token_ids g @ tokens_of r"
  let ?s = "(new_segment ?sid ?idx (rq_priority r) (el_next_meta e))
     \<lparr>pending_token_ids := ?text, text_tokens_consumed := length ?text, es_cursor_plan := rq_plan r\<rparr>"
  let ?e0 = "fresh_meta e"
  let ?e1 = "upd_group ?sid (\<lambda>g. g\<lparr>overflow_token_ids := []\<rparr>) ?e0"
  let ?e2 = "if ?idx \<in> fst ` set (eg_segments g) then release_segment_slot (?sid, ?idx) ?e1 else ?e1"
  have "micros N b A e ?e0" by (rule micros_frame) (simp_all add: fresh_meta_def)
  also have "micros N b A ?e0 ?e1" by (intro micros_step group_note) simp
  finally have m: "micros N b A e ?e1" .
  then have ok: "slots_ok ?e1" using micros_inv assms by blast
  have "slot_of (?sid, ?idx) ?e2 = None"
  proof (cases "?idx \<in> fst ` set (eg_segments g)")
    case True
    have "slot_of (?sid, ?idx) (release_segment_slot (?sid, ?idx) ?e1) = None"
      using release_segment_slot_spec [OF ok, of "(?sid, ?idx)"] by blast
    then show ?thesis using True by simp
  next
    case False
    then have "map_of (eg_segments g) ?idx = None" by (simp add: map_of_eq_None_iff)
    then show ?thesis using False Some by (simp add: slot_of_def seg_of_def upd_group_def fresh_meta_def)
  qed
  then have "micro N b A ?e1 (upd_group ?sid (\<lambda>g. g\<lparr>eg_segments := dict_set ?idx ?s (eg_segments g)\<rparr>) ?e2)"
    by (intro start) (simp_all add: new_segment_def)
  then have "micros N b A e (upd_group ?sid (\<lambda>g. g\<lparr>eg_segments := dict_set ?idx ?s (eg_segments g)\<rparr>) ?e2)"
    using m micros_trans by blast
  then show ?thesis by (simp only: handle_start_tokens_def Let_def Some option.case)
qed (simp add: handle_start_tokens_def Let_def)

lemma handle_update_cursor_plan_micros: "micros N b A e (handle_update_cursor_plan r e)"
proof -
  have "micros N b A e (upd_seg k (\<lambda>s. s\<lparr>es_cursor_plan := Some p\<rparr>) e)" for k p by (rule micros_note) (simp add: keeps_text_def)
  then have "micros N b A e (apply_cursor_plan k (upd_seg k (\<lambda>s. s\<lparr>es_cursor_plan := Some p\<rparr>) e))" for k p
    using apply_cursor_plan_micros micros_trans by blast
  then show ?thesis by (simp add: handle_update_cursor_plan_def Let_def split: option.split)
qed

lemma handle_append_tokens_micros:
  assumes "el_defer e"
  shows "micros N True A e (handle_append_tokens r e)"
proof -
  let ?k = "(rq_session r, rq_segment r)" and ?ids = "tokens_of r"
  let ?add = "\<lambda>s. s\<lparr>pending_token_ids := pending_token_ids s @ ?ids, text_tokens_consumed := text_tokens_consumed s + length ?ids\<rparr>"
  have over: "micros N True A e (upd_group (rq_session r) (\<lambda>g. g\<lparr>overflow_token_ids := overflow_token_ids g @ ?ids\<rparr>) e)"
    by (intro micros_step group_note) simp
  show ?thesis
  proof (cases "seg_of ?k e")
    case None
    then show ?thesis using over by (simp add: handle_append_tokens_def Let_def)
  next
    case (Some s)
    have wait: "micros N True A e (upd_seg ?k ?add e)" if "es_state s \<noteq> Active \<or> es_slot s = None"
      by (intro micros_step append_waiting [OF Some that])
    have later: "micros N True A e (upd_seg ?k (\<lambda>s. s\<lparr>deferred_token_ids := deferred_token_ids s @ ?ids\<rparr>) (upd_seg ?k ?add e))"
      if "es_state s = Active" "es_slot s \<noteq> None"
    proof -
      have "micros N True A e (upd_seg ?k (\<lambda>s. s\<lparr>pending_token_ids := pending_token_ids s @ ?ids, text_tokens_consumed := text_tokens_consumed s + length ?ids,
               deferred_token_ids := deferred_token_ids s @ ?ids\<rparr>) e)"
        by (intro micros_step append_defer [OF _ Some that]) simp
      then show ?thesis by (simp add: upd_seg_comp comp_def)
    qed
    show ?thesis using over wait later assms Some by (simp add: handle_append_tokens_def Let_def split: option.split)
  qed
qed

lemma handle_segment_tokens_done_micros: "micros N b A e (handle_segment_tokens_done r e)"
proof (cases "seg_of (rq_session r, rq_segment r) e")
  case (Some s)
  let ?k = "(rq_session r, rq_segment r)"
  let ?e1 = "upd_seg ?k (\<lambda>s. s\<lparr>es_input_complete := True\<rparr>) (flush_deferred_appends_for_segment ?k e)"
  have "micros N b A (flush_deferred_appends_for_segment ?k e) ?e1" by (rule micros_note) (simp add: keeps_text_def)
  with flush_micros have m1: "micros N b A e ?e1" by (rule micros_trans)
  have n: "micros N b A ?e1 (upd_seg ?k (\<lambda>s. s\<lparr>eos_trailing_added := False\<rparr>) ?e1)" by (rule micros_note) (simp add: keeps_text_def)
  have eos: "micros N b A ?e1 (resume_streaming_segment_if_ready ?k (append_eos_trailing ?k i ?e1))" for i
  proof -
    have "micros N b A ?e1 (append_eos_trailing ?k i ?e1)"
      unfolding append_eos_trailing_def
      by (rule micros_trans [OF micros_step [OF add_eos] micros_note]) (simp add: keeps_text_def)
    then show ?thesis using resume_micros by (rule micros_trans)
  qed
  let ?e2 = "case es_slot s of
      Some i \<Rightarrow>
        if rq_append_eos r \<and> es_state s = Active \<and> \<not> eos_trailing_added s
        then resume_streaming_segment_if_ready ?k (append_eos_trailing ?k i ?e1)
        else if rq_append_eos r then upd_seg ?k (\<lambda>s. s\<lparr>eos_trailing_added := False\<rparr>) ?e1 else ?e1
    | None \<Rightarrow> if rq_append_eos r then upd_seg ?k (\<lambda>s. s\<lparr>eos_trailing_added := False\<rparr>) ?e1 else ?e1"
  have "micros N b A ?e1 ?e2" using n eos by (simp split: option.split)
  with m1 have m2: "micros N b A e ?e2" by (rule micros_trans)
  then have "micros N b A e (check_session_done (rq_session r) ?e2)" using check_session_done_micros by (rule micros_trans)
  then have "micros N b A e (if es_state s = SegDone then check_session_done (rq_session r) ?e2 else ?e2)" using m2 by simp
  then show ?thesis by (simp only: handle_segment_tokens_done_def Let_def Some option.case)
qed (simp add: handle_segment_tokens_done_def Let_def)

lemma handle_session_tokens_done_micros: "micros N b A e (handle_session_tokens_done sid e)"
proof -
  have "micros N b A e (upd_group sid (\<lambda>g. g\<lparr>input_complete_all := True\<rparr>) e)" by (intro micros_step group_note) simp
  then show ?thesis by (simp add: handle_session_tokens_done_def micros_trans [OF _ check_session_done_micros])
qed

lemma handle_cancel_session_micros: "micros N b A e (handle_cancel_session r e)"
  using micros_end_session [of "LoopDone (rq_session r) (Some (if rq_cancel_reason r = Some [] then None else rq_cancel_reason r))" e]
  by (simp add: handle_cancel_session_def Let_def registered_def)

definition news :: "engine_request \<Rightarrow> string set" where
  "news r = (if rq_type r = NEW_SESSION then {rq_session r} else {})"

lemma handle_request_micros:
  assumes "slots_ok e" and "el_defer e"
  shows "micros (news r) True A e (handle_request now r e)"
  unfolding handle_request_def
proof (cases "rq_type r")
  case NEW_SESSION
  then show "micros (news r) True A e (case rq_type r of
        NEW_SESSION \<Rightarrow> handle_new_session now (rq_session r) e
      | START_TOKENS \<Rightarrow> handle_start_tokens r e
      | UPDATE_CURSOR_PLAN \<Rightarrow> handle_update_cursor_plan r e
      | APPEND_TOKENS \<Rightarrow> handle_append_tokens r e
      | SEGMENT_TOKENS_DONE \<Rightarrow> handle_segment_tokens_done r e
      | SESSION_TOKENS_DONE \<Rightarrow> handle_session_tokens_done (rq_session r) e
      | CANCEL_SESSION \<Rightarrow> handle_cancel_session r e)"
    using handle_new_session_micros [OF assms(1)] by (simp add: news_def)
qed (use assms in \<open>simp_all add: handle_start_tokens_micros handle_update_cursor_plan_micros handle_append_tokens_micros
    handle_segment_tokens_done_micros handle_session_tokens_done_micros handle_cancel_session_micros\<close>)

end
