(* ===== verification/Engine_Runs.thy ===== *)
theory Engine_Runs
  imports Engine_Phases
begin

text \<open>
  Runs of the engine loop: any sequence of its phases from a loop with a new pool. Between two phases
  the slots in use are those of the active segments, the prompt and the text vectors of a slot are the
  tokens of its segment, and a session is ended at most once.
\<close>

section \<open>Runs\<close>

lemma fold_release_held_control: 
  "el_inbox (fold (\<lambda>(_, s). release_held s) xs e) = el_inbox e \<and> el_defer (fold (\<lambda>(_, s). release_held s) xs e) = el_defer e"
proof (induction xs arbitrary: e)
  case (Cons x xs)
  have "el_inbox (release_held (snd x) e) = el_inbox e \<and> el_defer (release_held (snd x) e) = el_defer e"
    by (simp add: release_held_def release_slot_id_def split: option.split)
  then show ?case using Cons [of "release_held (snd x) e"] by (simp add: case_prod_beta)
qed simp

lemma remove_session_control [simp]: "el_inbox (remove_session sid e) = el_inbox e" "el_defer (remove_session sid e) = el_defer e"
  by (simp_all add: remove_session_def fold_release_held_control split: option.split)

lemma remove_sessions_control: "el_inbox (fold remove_session sids e) = el_inbox e \<and> el_defer (fold remove_session sids e) = el_defer e"
  by (induction sids arbitrary: e) simp_all

lemma release_segment_slot_control [simp]:
  "el_inbox (release_segment_slot k e) = el_inbox e" "el_defer (release_segment_slot k e) = el_defer e"
  by (simp_all add: release_segment_slot_def release_slot_id_def Let_def split: option.split)

lemma micro_control: "micro N b A e e' \<Longrightarrow> el_inbox e' = el_inbox e \<and> el_defer e' = el_defer e"
  by (induction rule: micro.induct)
    (auto simp: remove_sessions_control upd_slot_def send_result_def append_trailing_tokens_def release_slot_id_def)

lemma micros_control: "micros N b A e e' \<Longrightarrow> el_inbox e' = el_inbox e \<and> el_defer e' = el_defer e"
  unfolding micros_def by (induction rule: rtranclp_induct) (simp_all add: micro_control)

text \<open>Inbox and deferral do not matter to the invariants.\<close>

lemma control_irrelevant [simp]:
  "slots_ok (e\<lparr>el_inbox := rs\<rparr>) = slots_ok e" "text_ok (e\<lparr>el_inbox := rs\<rparr>) = text_ok e" "drained (e\<lparr>el_inbox := rs\<rparr>) = drained e"
  "deferred_held (e\<lparr>el_inbox := rs\<rparr>) = deferred_held e" "idle_free A (e\<lparr>el_inbox := rs\<rparr>) = idle_free A e"
  "ended_once sid (e\<lparr>el_inbox := rs\<rparr>) = ended_once sid e" "untouched sid (e\<lparr>el_inbox := rs\<rparr>) = untouched sid e"
  "slots_ok (e\<lparr>el_defer := d\<rparr>) = slots_ok e" "text_ok (e\<lparr>el_defer := d\<rparr>) = text_ok e"
  "deferred_held (e\<lparr>el_defer := d\<rparr>) = deferred_held e" "idle_free A (e\<lparr>el_defer := d\<rparr>) = idle_free A e"
  "ended_once sid (e\<lparr>el_defer := d\<rparr>) = ended_once sid e" "untouched sid (e\<lparr>el_defer := d\<rparr>) = untouched sid e"
  "slots_ok (e\<lparr>el_defer := d, el_inbox := rs\<rparr>) = slots_ok e" "text_ok (e\<lparr>el_defer := d, el_inbox := rs\<rparr>) = text_ok e"
  "deferred_held (e\<lparr>el_defer := d, el_inbox := rs\<rparr>) = deferred_held e" "idle_free A (e\<lparr>el_defer := d, el_inbox := rs\<rparr>) = idle_free A e"
  "ended_once sid (e\<lparr>el_defer := d, el_inbox := rs\<rparr>) = ended_once sid e" "untouched sid (e\<lparr>el_defer := d, el_inbox := rs\<rparr>) = untouched sid e"
  by (simp_all add: slots_ok_def dicts_ok_def text_ok_def drained_def deferred_held_def idle_free_def ended_once_def untouched_def
      slot_of_def seg_of_def slot_at_def results_def registered_def)

lemma drained_held: "drained e \<Longrightarrow> deferred_held e"
  by (simp add: drained_def deferred_held_def)

definition ready :: "'k engine_loop \<Rightarrow> bool" where
  "ready e \<longleftrightarrow> at_rest {} e \<and> text_ok e"

lemma ready_micros: "micros N False {} e e' \<Longrightarrow> ready e \<Longrightarrow> ready e'"
  using micros_inv [of N False "{}" e e'] by (auto simp: ready_def at_rest_def)

definition draining :: "'k engine_loop \<Rightarrow> bool" where
  "draining e \<longleftrightarrow> slots_ok e \<and> deferred_held e \<and> idle_free {} e \<and> text_ok e \<and> el_defer e"

lemma handle_request_draining: "draining (e :: 'k::zero engine_loop) \<Longrightarrow> draining (handle_request now r e)"
proof -
  assume d: "draining e"
  then have m: "micros (news r) True {} e (handle_request now r e)" by (simp add: draining_def handle_request_micros)
  show ?thesis using micros_inv [OF m] micros_control [OF m] d unfolding draining_def by blast
qed

lemma handle_requests_draining: "draining (e :: 'k::zero engine_loop) \<Longrightarrow> draining (fold (handle_request now) rs e)"
  by (induction rs arbitrary: e) (simp_all add: handle_request_draining)

lemma drain_inbox_ready:
  fixes e :: "'k::zero engine_loop"
  assumes "ready e"
  shows "ready (drain_inbox m b elapsed now e)"
proof -
  define n where "n = drain_count m b elapsed 0 (el_inbox e)"
  let ?e0 = "e\<lparr>el_defer := True, el_inbox := drop n (el_inbox e)\<rparr>"
  let ?e1 = "fold (handle_request now) (take n (el_inbox e)) ?e0"
  let ?e2 = "?e1\<lparr>el_defer := False\<rparr>"
  have "draining ?e0" using assms by (simp add: ready_def at_rest_def draining_def drained_held)
  then have "draining ?e1" by (rule handle_requests_draining)
  then have i: "slots_ok ?e2" "deferred_held ?e2" "idle_free {} ?e2" "text_ok ?e2" by (simp_all add: draining_def)
  have "ready (flush_deferred_appends ?e2)"
    using micros_inv [OF flush_deferred_appends_micros [of "{}" False "{}"] i(1)] i flush_deferred_appends_drained [OF i(1,2)]
    by (simp add: ready_def at_rest_def)
  then show ?thesis by (simp add: drain_inbox_def n_def Let_def)
qed

lemma prefill_phase_ready:
  assumes "ready e"
  shows "ready (prefill_phase show_idx now hit pf e)"
proof -
  have r: "at_rest {} e" "slots_ok e" "text_ok e" using assms by (simp_all add: ready_def at_rest_def)
  note P = prefill_phase_micros [OF r(1), of "{}" show_idx now hit pf]
  have "text_ok (prefill_phase show_idx now hit pf e)" using micros_inv [OF conjunct1 [OF P] r(2)] r(3) by blast
  then show ?thesis using P by (simp add: ready_def)
qed

lemma loop_exec_micros:
  assumes "ready e" and "\<not> (\<exists>r. p = Submit r)" and "\<not> (\<exists>m b t now. p = Drain m b t now)"
  shows "micros {} False UNIV e (loop_exec p e)"
proof -
  have r: "at_rest {} e" using assms(1) by (simp add: ready_def)
  note mono = micros_mono_admit [OF _ subset_UNIV]
  show ?thesis
  proof (cases p)
    case (Prefill show_idx now hit pf)
    then show ?thesis using prefill_phase_micros [OF r] by simp
  next
    case Launch
    then show ?thesis using mono [OF get_active_slots_micros [OF r]] by simp
  next
    case (StepDone fade now rows)
    then show ?thesis using mono [OF process_step_output_micros [OF r]] by simp
  next
    case (EvictIdle now)
    show ?thesis unfolding EvictIdle by (rule mono [OF evict_idle_micros [OF r]])
  next
    case (Timeouts now)
    then show ?thesis using try_timeout_sessions_micros by simp
  next
    case Tick
    show ?thesis unfolding Tick by (rule micros_frame) simp_all
  qed (use assms(2,3) in simp_all)
qed

lemma loop_exec_ready:
  assumes "ready e"
  shows "ready (loop_exec p e)"
proof -
  have r: "at_rest {} e" using assms by (simp add: ready_def)
  show ?thesis
  proof (cases p)
    case (Submit q)
    then show ?thesis using assms by (simp add: ready_def at_rest_def)
  next
    case (Drain m b t now)
    then show ?thesis using drain_inbox_ready [OF assms] by simp
  next
    case (Prefill show_idx now hit pf)
    then show ?thesis using prefill_phase_ready [OF assms] by simp
  next
    case Launch
    then show ?thesis using ready_micros [OF get_active_slots_micros [OF r] assms] by simp
  next
    case (StepDone fade now rows)
    then show ?thesis using ready_micros [OF process_step_output_micros [OF r] assms] by simp
  next
    case (EvictIdle now)
    show ?thesis unfolding EvictIdle by (rule ready_micros [OF evict_idle_micros [OF r] assms])
  next
    case (Timeouts now)
    then show ?thesis using ready_micros [OF try_timeout_sessions_micros assms] by simp
  next
    case Tick
    have "micros {} False {} e (loop_exec Tick e)" by (rule micros_frame) simp_all
    then show ?thesis unfolding Tick by (rule ready_micros [OF _ assms])
  qed
qed

definition engine_run :: "'k::zero loop_phase list \<Rightarrow> 'k engine_loop \<Rightarrow> 'k engine_loop" where
  "engine_run ps e = fold loop_exec ps e"

interpretation engine: op_system loop_exec ready
  by unfold_locales (rule loop_exec_ready)

lemma engine_run_ready: "ready e \<Longrightarrow> ready (engine_run ps e)"
  unfolding engine_run_def by (rule engine.run_inv)

text \<open>The loop starts with every slot of its pool free.\<close>

definition fresh_pool :: "('e, 'k) kv_pool \<Rightarrow> bool" where
  "fresh_pool p \<longleftrightarrow> pool_ok p \<and> owned p = {}"

lemma new_pool_fresh: "fresh_pool (new_pool now n max_seq window tn cn es pre)"
  unfolding fresh_pool_def by (intro conjI new_pool_ok) (simp add: owned_def new_pool_def new_slot_def)

lemma new_loop_ready: "fresh_pool p \<Longrightarrow> ready (new_loop cfg mc p)"
  by (simp add: ready_def at_rest_def slots_ok_def dicts_ok_def own_ok_def fresh_pool_def drained_def idle_free_def text_ok_def
      new_loop_def slot_of_def seg_of_def)

lemma allocate_max: "allocate now sid p = (p', r) \<Longrightarrow> kp_max_slots p' = kp_max_slots p"
  by (auto simp: allocate_def Let_def map_slot_def split: if_splits)

lemma release_max [simp]: "kp_max_slots (el_pool (release_slot_id i e)) = kp_max_slots (el_pool e)"
  by (simp add: release_slot_id_def release_def map_slot_def)

lemma fold_release_held_max: "kp_max_slots (el_pool (fold (\<lambda>(_, s). release_held s) xs e)) = kp_max_slots (el_pool e)"
  by (induction xs arbitrary: e) (auto simp: release_held_def split: option.split)

lemma remove_session_max [simp]: "kp_max_slots (el_pool (remove_session sid e)) = kp_max_slots (el_pool e)"
  by (simp add: remove_session_def fold_release_held_max split: option.split)

lemma remove_sessions_max: "kp_max_slots (el_pool (fold remove_session sids e)) = kp_max_slots (el_pool e)"
  by (induction sids arbitrary: e) simp_all

lemma release_segment_max [simp]: "kp_max_slots (el_pool (release_segment_slot k e)) = kp_max_slots (el_pool e)"
  by (simp add: release_segment_slot_def Let_def split: option.split)

lemma micro_max: "micro N b A e e' \<Longrightarrow> kp_max_slots (el_pool e') = kp_max_slots (el_pool e)"
  by (induction rule: micro.induct)
    (auto simp: remove_sessions_max map_slot_def same_owners_def append_trailing_tokens_def dest: allocate_max)

lemma micros_max: "micros N b A e e' \<Longrightarrow> kp_max_slots (el_pool e') = kp_max_slots (el_pool e)"
  unfolding micros_def by (induction rule: rtranclp_induct) (simp_all add: micro_max)

lemma handle_requests_max:
  fixes e :: "'k::zero engine_loop"
  shows "draining e \<Longrightarrow> kp_max_slots (el_pool (fold (handle_request now) rs e)) = kp_max_slots (el_pool e)"
proof (induction rs arbitrary: e)
  case (Cons r rs)
  have "micros (news r) True {} e (handle_request now r e)" using Cons.prems by (simp add: draining_def handle_request_micros)
  then show ?case using Cons.IH [OF handle_request_draining [OF Cons.prems]] by (simp add: micros_max)
qed simp

text \<open>A drain handles a part of the inbox with appends deferred, then flushes.\<close>

lemma drain_inbox_cases:
  fixes e :: "'k::zero engine_loop"
  assumes "ready e"
  obtains n e1 where "e1 = fold (handle_request now) (take n (el_inbox e)) (e\<lparr>el_defer := True, el_inbox := drop n (el_inbox e)\<rparr>)"
    "draining (e\<lparr>el_defer := True, el_inbox := drop n (el_inbox e)\<rparr>)" "slots_ok (e1\<lparr>el_defer := False\<rparr>)"
    "micros {} False {} (e1\<lparr>el_defer := False\<rparr>) (drain_inbox m b elapsed now e)"
proof -
  define n where "n = drain_count m b elapsed 0 (el_inbox e)"
  let ?e0 = "e\<lparr>el_defer := True, el_inbox := drop n (el_inbox e)\<rparr>"
  let ?e1 = "fold (handle_request now) (take n (el_inbox e)) ?e0"
  have d: "draining ?e0" using assms by (simp add: ready_def at_rest_def draining_def drained_held)
  have "slots_ok (?e1\<lparr>el_defer := False\<rparr>)" using handle_requests_draining [OF d] by (simp add: draining_def)
  moreover have "drain_inbox m b elapsed now e = flush_deferred_appends (?e1\<lparr>el_defer := False\<rparr>)"
    by (simp add: drain_inbox_def n_def Let_def)
  ultimately show ?thesis using that [OF refl d] flush_deferred_appends_micros by metis
qed

lemma loop_exec_max: "ready e \<Longrightarrow> kp_max_slots (el_pool (loop_exec p e)) = kp_max_slots (el_pool e)"
proof -
  assume r: "ready e"
  consider q where "p = Submit q" | m b t now where "p = Drain m b t now"
    | "\<not> (\<exists>r. p = Submit r)" "\<not> (\<exists>m b t now. p = Drain m b t now)" by blast
  then show ?thesis
  proof cases
    case (2 m b t now)
    obtain n e1 where d: "e1 = fold (handle_request now) (take n (el_inbox e)) (e\<lparr>el_defer := True, el_inbox := drop n (el_inbox e)\<rparr>)"
      "draining (e\<lparr>el_defer := True, el_inbox := drop n (el_inbox e)\<rparr>)"
      "micros {} False {} (e1\<lparr>el_defer := False\<rparr>) (drain_inbox m b t now e)" by (rule drain_inbox_cases [OF r])
    show ?thesis using micros_max [OF d(3)] handle_requests_max [OF d(2), of now "take n (el_inbox e)"] by (simp add: 2 d(1))
  next
    case 3
    show ?thesis by (rule micros_max [OF loop_exec_micros [OF r 3]])
  qed simp
qed

lemma engine_run_max: "ready e \<Longrightarrow> kp_max_slots (el_pool (engine_run ps e)) = kp_max_slots (el_pool e)"
  unfolding engine_run_def by (induction ps arbitrary: e) (simp_all add: loop_exec_ready loop_exec_max)

text \<open>The requests that open a session.\<close>

definition opens :: "string \<Rightarrow> engine_request list \<Rightarrow> nat" where
  "opens sid rs = length (filter (\<lambda>r. rq_type r = NEW_SESSION \<and> rq_session r = sid) rs)"

fun submitted :: "'k loop_phase list \<Rightarrow> engine_request list" where
  "submitted [] = []"
| "submitted (Submit r # ps) = r # submitted ps"
| "submitted (_ # ps) = submitted ps"

lemma opens_simps [simp]:
  "opens sid [] = 0" "opens sid (r # rs) = (if sid \<in> news r then Suc (opens sid rs) else opens sid rs)"
  "opens sid (xs @ ys) = opens sid xs + opens sid ys"
  by (auto simp: opens_def news_def)

lemma new_session_ended: "untouched sid e \<Longrightarrow> ended_once sid (handle_new_session now sid e)"
  by (auto simp: untouched_def registered_def handle_new_session_def Let_def ended_once_def results_def filter_empty_conv)

lemma handle_requests_session:
  fixes e :: "'k::zero engine_loop"
  shows "draining e \<Longrightarrow> ended_once sid e \<Longrightarrow> opens sid rs \<le> 1 \<Longrightarrow> (0 < opens sid rs \<longrightarrow> untouched sid e) \<Longrightarrow>
   ended_once sid (fold (handle_request now) rs e) \<and>
   (opens sid rs = 0 \<longrightarrow> untouched sid e \<longrightarrow> untouched sid (fold (handle_request now) rs e))"
proof (induction rs arbitrary: e)
  case (Cons r rs)
  let ?e1 = "handle_request now r e"
  have d1: "draining ?e1" by (rule handle_request_draining [OF Cons.prems(1)])
  show ?case
  proof (cases "sid \<in> news r")
    case True
    then have "?e1 = handle_new_session now sid e" by (auto simp: news_def handle_request_def split: if_splits)
    then have "ended_once sid ?e1" using new_session_ended Cons.prems(4) True by simp
    then show ?thesis using Cons.IH [OF d1] Cons.prems(3) True by simp
  next
    case False
    have ok: "slots_ok e" "el_defer e" using Cons.prems(1) by (simp_all add: draining_def)
    have "ended_once sid ?e1" "untouched sid e \<longrightarrow> untouched sid ?e1"
      using micros_inv [OF handle_request_micros [OF ok, of r UNIV now] ok(1), of sid] False Cons.prems(2) by simp_all
    then show ?thesis using Cons.IH [OF d1] Cons.prems(3,4) False by simp
  qed
qed simp

lemma handle_requests_inbox:
  fixes e :: "'k::zero engine_loop"
  shows "draining e \<Longrightarrow> el_inbox (fold (handle_request now) rs e) = el_inbox e"
proof (induction rs arbitrary: e)
  case (Cons r rs)
  have "micros (news r) True {} e (handle_request now r e)" using Cons.prems by (simp add: draining_def handle_request_micros)
  then show ?case using Cons.IH [OF handle_request_draining [OF Cons.prems]] micros_control by fastforce
qed simp

lemma drain_session:
  fixes e :: "'k::zero engine_loop"
  assumes "ready e" and "ended_once sid e" and "opens sid (el_inbox e @ rs) \<le> 1"
    and "0 < opens sid (el_inbox e @ rs) \<longrightarrow> untouched sid e"
  shows "ended_once sid (drain_inbox m b t now e) \<and> opens sid (el_inbox (drain_inbox m b t now e) @ rs) \<le> 1 \<and>
    (0 < opens sid (el_inbox (drain_inbox m b t now e) @ rs) \<longrightarrow> untouched sid (drain_inbox m b t now e))"
proof -
  obtain n e1 where d: "e1 = fold (handle_request now) (take n (el_inbox e)) (e\<lparr>el_defer := True, el_inbox := drop n (el_inbox e)\<rparr>)"
    "draining (e\<lparr>el_defer := True, el_inbox := drop n (el_inbox e)\<rparr>)" "slots_ok (e1\<lparr>el_defer := False\<rparr>)"
    "micros {} False {} (e1\<lparr>el_defer := False\<rparr>) (drain_inbox m b t now e)" by (rule drain_inbox_cases [OF assms(1)])
  have split: "opens sid (el_inbox e) = opens sid (take n (el_inbox e)) + opens sid (drop n (el_inbox e))"
    by (metis append_take_drop_id opens_simps(3))
  have inbox: "el_inbox (drain_inbox m b t now e) = drop n (el_inbox e)"
    using micros_control [OF d(4)] handle_requests_inbox [OF d(2)] d(1) by simp
  have s: "ended_once sid e1 \<and> (opens sid (take n (el_inbox e)) = 0 \<longrightarrow> untouched sid e \<longrightarrow> untouched sid e1)"
    using handle_requests_session [OF d(2), of sid "take n (el_inbox e)" now] assms(2-4) split unfolding d(1) by simp
  have "ended_once sid (drain_inbox m b t now e)" "untouched sid e1 \<longrightarrow> untouched sid (drain_inbox m b t now e)"
    using micros_inv [OF d(4,3), of sid] s by simp_all
  then show ?thesis using s assms(3,4) split inbox by auto
qed

lemma run_session:
  "ready e \<Longrightarrow> ended_once sid e \<Longrightarrow> opens sid (el_inbox e @ submitted ps) \<le> 1 \<Longrightarrow>
   (0 < opens sid (el_inbox e @ submitted ps) \<longrightarrow> untouched sid e) \<Longrightarrow> ended_once sid (engine_run ps e)"
proof (induction ps arbitrary: e)
  case Nil
  then show ?case by (simp add: engine_run_def)
next
  case (Cons p ps)
  let ?e1 = "loop_exec p e"
  have r1: "ready ?e1" by (rule loop_exec_ready [OF Cons.prems(1)])
  have run: "engine_run (p # ps) e = engine_run ps ?e1" by (simp add: engine_run_def)
  consider q where "p = Submit q" | m b t now where "p = Drain m b t now"
    | "\<not> (\<exists>r. p = Submit r)" "\<not> (\<exists>m b t now. p = Drain m b t now)" by blast
  then show ?case
  proof cases
    case (1 q)
    then show ?thesis unfolding run using Cons.prems by (intro Cons.IH r1) (simp_all add: add.assoc)
  next
    case (2 m b t now)
    then show ?thesis
      unfolding run using drain_session [OF Cons.prems(1,2), of "submitted ps" m b t now] Cons.prems(3,4)
      by (intro Cons.IH r1) simp_all
  next
    case 3
    have m: "micros {} False UNIV e ?e1" by (rule loop_exec_micros [OF Cons.prems(1) 3])
    have ok: "slots_ok e" using Cons.prems(1) by (simp add: ready_def at_rest_def)
    have s: "submitted (p # ps) = submitted ps" using 3 by (cases p) auto
    show ?thesis
      unfolding run using micros_inv [OF m ok, of sid] micros_control [OF m] Cons.prems s by (intro Cons.IH r1) simp_all
  qed
qed

lemma own_ok_card:
  assumes "own_ok holds owner taken"
  shows "card {k. holds k \<noteq> None} = card taken"
proof (rule bij_betw_same_card [of "\<lambda>k. the (holds k)"], rule bij_betwI')
  fix k k'
  assume "k \<in> {k. holds k \<noteq> None}" "k' \<in> {k. holds k \<noteq> None}"
  then obtain i i' where "holds k = Some i" "holds k' = Some i'" by auto
  then show "(the (holds k) = the (holds k')) = (k = k')" using own_ok_inj [OF assms, of k i k'] by auto
next
  fix k
  assume "k \<in> {k. holds k \<noteq> None}"
  then show "the (holds k) \<in> taken" using own_ok_taken [OF assms, of k] by auto
next
  fix i
  assume "i \<in> taken"
  then have "i \<in> dom owner" using assms by (simp add: own_ok_def)
  then obtain k where "owner i = Some k" by (meson domD)
  then have "holds k = Some i" using assms by (simp add: own_ok_def)
  then show "\<exists>k \<in> {k. holds k \<noteq> None}. i = the (holds k)" by force
qed

lemma evict_loop_done: "evict_loop n now e = Some e' \<Longrightarrow> find_eviction_candidate now (lc_max_idle_sec (el_cfg e')) (el_pool e') = None"
proof (induction n arbitrary: e)
  case 0
  then show ?case by (simp add: evict_loop.simps split: option.splits)
next
  case (Suc n)
  show ?case
  proof (cases "find_eviction_candidate now (lc_max_idle_sec (el_cfg e)) (el_pool e)")
    case None
    then show ?thesis using Suc.prems by (simp add: evict_loop.simps)
  next
    case (Some c)
    then have "\<exists>e1. evict_loop n now e1 = Some e'"
      using Suc.prems by (subst (asm) evict_loop.simps) (auto simp: Let_def split: option.splits if_splits prod.splits)
    then show ?thesis using Suc.IH by blast
  qed
qed

lemma new_loop_untouched: "untouched sid (new_loop cfg mc p)" "ended_once sid (new_loop cfg mc p)" "el_inbox (new_loop cfg mc p) = []"
  by (simp_all add: untouched_def ended_once_def registered_def results_def new_loop_def)

text \<open>A run used below: a session is opened with two tokens, prefilled, and given a third one.\<close>

definition demo_loop :: "nat engine_loop" where
  "demo_loop = new_loop (new_loop_config 4 10 8 60 3 5 10 1 20 1 4 2 8 (\<lambda>_. Audible)) None (new_pool 0 2 8 4 1 1 4 True)"

lemma demo_run:
  "engine_run ps demo_loop =
     engine_run ps (new_loop (new_loop_config 4 10 8 60 3 5 10 1 20 1 4 2 8 (\<lambda>_. Audible)) None (new_pool 0 2 8 4 1 1 4 True))"
  by (simp add: demo_loop_def)

text \<open>The inputs of two prompts: a named voice, and a cloned one with two tokens of reference text and three reference frames.\<close>

definition demo_voice :: prompt_inputs where
  "demo_voice = \<lparr>pi_task = CUSTOM_VOICE, pi_head = [TextEmbed 1, Plus PadEmbed (Codec 0)], pi_ref_ids = [], pi_ref_codec = None\<rparr>"

definition demo_clone :: prompt_inputs where
  "demo_clone = \<lparr>pi_task = VOICE_CLONE_ICL, pi_head = [TextEmbed 1, Plus PadEmbed (Codec 0)], pi_ref_ids = [101, 102],
     pi_ref_codec = Some [Codec 1, Codec 2, Codec 3]\<rparr>"

definition demo_phases :: "nat loop_phase list" where
  "demo_phases =
     [Submit (request NEW_SESSION ''s''), Submit ((request START_TOKENS ''s'')\<lparr>rq_tokens := Some [7, 8]\<rparr>),
      Drain None None (\<lambda>_. 0) 1, Prefill (\<lambda>_. ''0'') 1 (\<lambda>_. None) (\<lambda>_. PfCold demo_voice 2 0 None None False),
      Submit ((request APPEND_TOKENS ''s'')\<lparr>rq_tokens := Some [9]\<rparr>), Drain None None (\<lambda>_. 0) 2]"

lemma demo_slot: "slot_of (''s'', 0) (engine_run demo_phases demo_loop) = Some 1"
  by code_simp
section \<open>Properties of every run\<close>

text \<open>C4. Slots follow segments. In every run of the loop from a new pool, between two phases, a segment that holds a slot is
  active, its slot is in use and no other segment holds it; every slot in use is held by a segment; so the free slots and the holding
  segments add up to the size of the pool: no slot is lost through rejected, failed, cancelled, evicted or timed-out sessions.\<close>

theorem slots_follow_segments:
  assumes "e = engine_run ps (new_loop cfg mc (new_pool now n max_seq window tn cn es True))"
  shows "(\<forall>k s i. seg_of k e = Some s \<longrightarrow> es_slot s = Some i \<longrightarrow>
       es_state s = Active \<and> i < n \<and> \<not> is_free (slot_at i e) \<and> (\<forall>k' s'. seg_of k' e = Some s' \<longrightarrow> es_slot s' = Some i \<longrightarrow> k' = k)) \<and>
    (\<forall>i < n. \<not> is_free (slot_at i e) \<longrightarrow> (\<exists>k s. seg_of k e = Some s \<and> es_slot s = Some i)) \<and>
    free_count (el_pool e) + card {k. slot_of k e \<noteq> None} = n"
proof -
  let ?e0 = "new_loop cfg mc (new_pool now n max_seq window tn cn es True)"
  have r0: "ready ?e0" by (rule new_loop_ready [OF new_pool_fresh])
  have r: "at_rest {} e" "slots_ok e" using engine_run_ready [OF r0, of ps] assms by (simp_all add: ready_def at_rest_def)
  have n: "kp_max_slots (el_pool e) = n" using engine_run_max [OF r0, of ps] assms by (simp add: new_loop_def new_pool_def)
  show ?thesis
  proof (intro conjI allI impI)
    fix k s i
    assume k: "seg_of k e = Some s" and i: "es_slot s = Some i"
    note h = held_slot [OF r(2) k i]
    show "es_state s = Active" using at_rest_active [OF r(1) k] i by simp
    show "i < n" "\<not> is_free (slot_at i e)" using h n by (simp_all add: owned_def slot_at_def)
    fix k' s'
    assume "seg_of k' e = Some s'" "es_slot s' = Some i"
    then show "k' = k" using h by blast
  next
    fix i
    assume "i < n" "\<not> is_free (slot_at i e)"
    then have "i \<in> owned (el_pool e)" using n by (simp add: owned_def slot_at_def)
    then show "\<exists>k s. seg_of k e = Some s \<and> es_slot s = Some i" using slot_owner [OF r(2)] by metis
  next
    have "free_count (el_pool e) + card (owned (el_pool e)) = n" using owned_count [of "el_pool e"] r(2) n by (simp add: slots_ok_def)
    moreover have "card {k. slot_of k e \<noteq> None} = card (owned (el_pool e))"
      using own_ok_card r(2) unfolding slots_ok_def by blast
    ultimately show "free_count (el_pool e) + card {k. slot_of k e \<noteq> None} = n" by simp
  qed
qed

theorem slots_follow_segments_witness:
  "slot_of (''s'', 0) (engine_run demo_phases demo_loop) = Some 1 \<and> \<not> is_free (slot_at 1 (engine_run demo_phases demo_loop))"
proof -
  obtain s where "seg_of (''s'', 0) (engine_run demo_phases demo_loop) = Some s" "es_slot s = Some 1"
    using demo_slot by (auto simp: slot_of_def split: option.splits)
  then show ?thesis using slots_follow_segments [OF demo_run, of demo_phases] demo_slot by blast
qed

text \<open>C6. The text of an active segment is fed exactly. In every run, between two phases, an active segment with a slot has no
  deferred tokens and its text pointer is within the text vectors of the slot. If only the prompt's prefix was prefilled or restored from
  the cache, these vectors are, in order and without loss or repetition, the segment's tokens after the first one, which the decode
  consumes first. If the whole prompt was prefilled, as with a replayed reference voice, the segment keeps the plan of that prompt, built
  from the tokens it had then, and the text in the prompt followed by the vectors is the lead of the prompt (its head and the reference
  text) followed by exactly the segment's tokens.\<close>

theorem active_text_is_fed_exactly:
  assumes "e = engine_run ps (new_loop cfg mc (new_pool now n max_seq window tn cn es True))"
    and "seg_of k e = Some s" and "es_state s = Active" and "es_slot s = Some i"
  shows "deferred_token_ids s = [] \<and> text_idx (slot_at i e) \<le> length (sl_trailing (slot_at i e)) \<and>
    (if prefill_source (slot_at i e) = ''full_prefill''
     then \<exists>plan inp m eos. es_prefill_plan s = Some plan \<and> m \<le> length (pending_token_ids s) \<and>
            build_plan_from_ids inp (take m (pending_token_ids s)) eos = Inr plan \<and>
            text_track (prefill_embeds plan) @ texts (sl_trailing (slot_at i e)) = prompt_lead inp @ pending_token_ids s
     else pending_token_ids s = hd (pending_token_ids s) # texts (sl_trailing (slot_at i e)))"
proof -
  let ?e0 = "new_loop cfg mc (new_pool now n max_seq window tn cn es True)"
  have r0: "ready ?e0" by (rule new_loop_ready [OF new_pool_fresh])
  have r: "drained e" "text_ok e" using engine_run_ready [OF r0, of ps] assms(1) by (simp_all add: ready_def at_rest_def)
  have d: "deferred_token_ids s = []" by (rule drainedD [OF r(1) assms(2)])
  have "fed_exactly s (slot_at i e)" using r(2) assms(2-4) by (rule text_okD)
  then show ?thesis using d by (auto simp: fed_exactly_def prompt_covers_def)
qed

lemma demo_segment:
  "map_option (\<lambda>s. (es_state s, es_slot s, pending_token_ids s)) (seg_of (''s'', 0) (engine_run demo_phases demo_loop)) =
     Some (Active, Some 1, [7, 8, 9]) \<and>
   prefill_source (slot_at 1 (engine_run demo_phases demo_loop)) = ''full_prefill_prefix_only''"
  by code_simp

text \<open>A cloned voice: four tokens meet three reference frames, a fifth token comes while the segment speaks.\<close>

definition demo_clone_phases :: "nat loop_phase list" where
  "demo_clone_phases =
     [Submit (request NEW_SESSION ''s''), Submit ((request START_TOKENS ''s'')\<lparr>rq_tokens := Some [7, 8, 9, 10]\<rparr>),
      Drain None None (\<lambda>_. 0) 1, Prefill (\<lambda>_. ''0'') 1 (\<lambda>_. None) (\<lambda>_. PfCold demo_clone 6 1 (Some (Codec 4)) None False),
      Submit ((request APPEND_TOKENS ''s'')\<lparr>rq_tokens := Some [11]\<rparr>), Drain None None (\<lambda>_. 0) 2]"

lemma demo_clone_segment:
  "map_option (\<lambda>s. (es_state s, es_slot s, pending_token_ids s, map_option (\<lambda>p. text_track (prefill_embeds p)) (es_prefill_plan s)))
     (seg_of (''s'', 0) (engine_run demo_clone_phases demo_loop)) =
     Some (Active, Some 1, [7, 8, 9, 10, 11], Some [1, 101, 102, 7, 8]) \<and>
   prefill_source (slot_at 1 (engine_run demo_clone_phases demo_loop)) = ''full_prefill''"
  by code_simp

theorem active_text_is_fed_exactly_witness:
  "prefill_source (slot_at 1 (engine_run demo_phases demo_loop)) = ''full_prefill_prefix_only'' \<and>
   [7, 8, 9] = 7 # texts (sl_trailing (slot_at 1 (engine_run demo_phases demo_loop))) \<and>
   prefill_source (slot_at 1 (engine_run demo_clone_phases demo_loop)) = ''full_prefill'' \<and>
   (\<exists>inp. [1, 101, 102, 7, 8] @ texts (sl_trailing (slot_at 1 (engine_run demo_clone_phases demo_loop))) =
      prompt_lead inp @ [7, 8, 9, 10, 11])"
proof -
  obtain s where s: "seg_of (''s'', 0) (engine_run demo_phases demo_loop) = Some s" "es_state s = Active" "es_slot s = Some 1"
    "pending_token_ids s = [7, 8, 9]"
    using demo_segment by auto
  obtain t p where t: "seg_of (''s'', 0) (engine_run demo_clone_phases demo_loop) = Some t" "es_state t = Active" "es_slot t = Some 1"
    "pending_token_ids t = [7, 8, 9, 10, 11]" "es_prefill_plan t = Some p" "text_track (prefill_embeds p) = [1, 101, 102, 7, 8]"
    using demo_clone_segment by auto
  show ?thesis
    using active_text_is_fed_exactly [OF demo_run s(1-3)] demo_segment s(4)
      active_text_is_fed_exactly [OF demo_run t(1-3)] demo_clone_segment t(4-6) by auto
qed

text \<open>C11. A session ends once. In every run in which at most one request opens the session, at most one result of the session is
  final (done or error), nothing follows it, and while the session is registered none has been sent.\<close>

theorem session_ends_once:
  assumes "e = engine_run ps (new_loop cfg mc (new_pool now n max_seq window tn cn es True))" and "opens sid (submitted ps) \<le> 1"
  shows "(\<forall>r \<in> set (butlast (results sid e)). \<not> terminal r) \<and> (registered sid e \<longrightarrow> (\<forall>r \<in> set (results sid e). \<not> terminal r))"
proof -
  have "ended_once sid e"
    unfolding assms(1) using assms(2)
    by (intro run_session new_loop_ready [OF new_pool_fresh]) (simp_all add: new_loop_untouched)
  then show ?thesis by (simp add: ended_once_def)
qed

definition demo_end :: "nat loop_phase list" where
  "demo_end = demo_phases @ [Submit (request CANCEL_SESSION ''s''), Submit (request CANCEL_SESSION ''s''), Drain None None (\<lambda>_. 0) 3]"

lemma demo_results: "results ''s'' (engine_run demo_end demo_loop) = [PrefillDone ''s'' 0, LoopDone ''s'' (Some None)] \<and>
    opens ''s'' (submitted demo_end) = 1"
  by code_simp

theorem session_ends_once_witness:
  "results ''s'' (engine_run demo_end demo_loop) = [PrefillDone ''s'' 0, LoopDone ''s'' (Some None)] \<and>
   \<not> registered ''s'' (engine_run demo_end demo_loop)"
  using session_ends_once [OF demo_run, of "''s''" demo_end] demo_results by auto

text \<open>C34. The search for idle slots ends. In every run with a positive idle limit, one pass of the eviction loop needs no more
  rounds than the pool has slots, and a pass that is due leaves no slot over the limit: its owner was told and removed, or it waits
  for text and was touched.\<close>

theorem eviction_pass_ends:
  assumes "e = engine_run ps (new_loop cfg mc (new_pool now n max_seq window tn cn es True))" and "0 < lc_max_idle_sec (el_cfg e)"
  shows "\<exists>e'. try_evict_idle_slots n t e = Some e' \<and>
    (1 \<le> t - el_last_eviction_check e \<longrightarrow> find_eviction_candidate t (lc_max_idle_sec (el_cfg e')) (el_pool e') = None)"
proof -
  let ?e0 = "new_loop cfg mc (new_pool now n max_seq window tn cn es True)"
  have r0: "ready ?e0" by (rule new_loop_ready [OF new_pool_fresh])
  have ok: "slots_ok e" using engine_run_ready [OF r0, of ps] assms(1) by (simp add: ready_def at_rest_def)
  have n: "kp_max_slots (el_pool e) = n" using engine_run_max [OF r0, of ps] assms(1) by (simp add: new_loop_def new_pool_def)
  let ?e1 = "e\<lparr>el_last_eviction_check := t\<rparr>"
  have "slots_ok ?e1" by (rule slots_ok_frame [OF ok]) simp_all
  then obtain e' where "evict_loop n t ?e1 = Some e'"
    using evict_loop_ends [of ?e1 t n] assms(2) idle_slots_finite(2) [of t _ "el_pool e"] n by fastforce
  then show ?thesis using evict_loop_done [of n t ?e1 e'] by (simp add: try_evict_idle_slots_def)
qed

theorem eviction_pass_ends_witness:
  "\<exists>e'. try_evict_idle_slots 2 50 (engine_run demo_phases demo_loop) = Some e' \<and>
    find_eviction_candidate 50 (lc_max_idle_sec (el_cfg e')) (el_pool e') = None"
proof -
  have "lc_max_idle_sec (el_cfg (engine_run demo_phases demo_loop)) = 10 \<and> el_last_eviction_check (engine_run demo_phases demo_loop) = 0"
    by code_simp
  then show ?thesis using eviction_pass_ends [OF demo_run, of demo_phases 50] by simp
qed

end
