(* ===== verification/Spec2Isabelle.thy ===== *)
theory Spec2Isabelle
  imports Resumable_Session Mlfq Text_Coordinates Result_Consumer Text_Input Prefix_Cache Engine_Runs
begin

text \<open>
  A verification library for the streaming text-to-speech engine. The program takes text from a client
  packet by packet, normalizes it, splits it into segments that the GPU backend decodes in parallel, and
  streams the audio back in text order over connections that may break and resume. The library
  models the CPU side of this path, from the packet to the engine's inbox, through the control plane of
  the engine thread, and from the engine's results to the client, as pure functions on explicit states, and proves that text and audio are
  neither lost nor duplicated nor reordered on the way.

  \<^bold>\<open>Parts and how they interact.\<close> Paths are relative to \<open>src/engine\<close>.

  \<^item> Text in. \<open>Text_Input\<close> models the text path of \<open>frontend/interface.py\<close> (\<open>_text_actor\<close>,
    \<open>_push_text_input_locked\<close>, \<open>_ingest_commits\<close>, \<open>_ingest_streaming_text\<close>, \<open>_mark_input_complete_locked\<close>,
    \<open>_feed_full_text_locked\<close>). It calls \<open>Text_Normalization\<close> (\<open>text_normalization.py\<close>: emoji and white space),
    \<open>Diagnostic_Text\<close> (\<open>frontend/diagnostic_text.py\<close>), \<open>Text_Journal\<close> (\<open>core/text_journal.py\<close>: canonical text with
    boundary maps to the raw text), \<open>Text_Coordinates\<close> (\<open>core/text_coordinates.py\<close> and \<open>_spoken_projection\<close>),
    \<open>Tokenize\<close> (\<open>frontend/spliter/tokenizer.py\<close> and \<open>_tokenize_segment_text\<close>) and \<open>Cursor_Plan\<close> over
    \<open>Native_Cursor\<close> (\<open>core/cursor_plan_adapter.py\<close>, \<open>core/native_cursor.py\<close>).
  \<^item> Splitting. \<open>Split_Driver\<close> (\<open>frontend/spliter/driver.py\<close>, \<open>core.py\<close>: the state machine of one segment),
    \<open>Split_Ratio\<close> (\<open>ratio.py\<close>), \<open>Pre_Split\<close> and \<open>Spliter\<close> (\<open>spliter.py\<close>: plans, queue, concurrency).
  \<^item> To the engine. \<open>Dispatcher\<close> (\<open>frontend/dispatcher.py\<close> and the dispatch half of \<open>interface.py\<close>) turns the
    splitter's actions into engine requests; \<open>Mlfq\<close> (\<open>core/mlfq.py\<close>) is the queue that picks segments
    for a decode step.
  \<^item> The engine thread. \<open>Engine_Loop\<close> models the control plane of \<open>backend/engine_loop.py\<close>: session groups and
    segments as records, one function per request (\<open>handle_request\<close>), the phases of \<open>_run_inner\<close>
    (\<open>drain_inbox\<close>, \<open>prefill_phase\<close>, \<open>get_active_slots_mlfq\<close>, \<open>process_step_output\<close>, \<open>try_evict_idle_slots\<close>,
    \<open>try_timeout_sessions\<close>), the guards against loops, silence and runaway length, and the plan of a prompt
    (\<open>build_plan_from_ids\<close>, \<open>build_icl_path\<close> of \<open>backend/prefill.py\<close>: which text goes into the prompt, side by side
    with reference frames or not, and which is left to feed). It runs on \<open>Kv_Pool\<close>
    (\<open>backend/kv_cache_pool.py\<close>: slots, epochs, cached columns), \<open>Mlfq\<close> and the requests of \<open>Dispatcher\<close>.
    \<open>Engine_Steps\<close> lists the elementary steps as an inductive relation with its invariants,
    \<open>Engine_Phases\<close> shows that every phase is a sequence of them, \<open>Engine_Runs\<close> draws the conclusions for
    runs. \<open>Prefix_Cache\<close> (\<open>backend/prefix_cache.py\<close>) is the cache of prompt prefixes.
  \<^item> Audio out. \<open>Audio_Reorder\<close> (\<open>frontend/spliter/reorder.py\<close>) restores text order; \<open>Guarded_Delivery\<close>
    (\<open>frontend/hold_window.py\<close>, \<open>text_commitment/start_gate.py\<close>, \<open>throughput.py\<close>) holds and gates audio;
    \<open>Result_Consumer\<close> (\<open>_consume_results\<close> of \<open>interface.py\<close>) composes them; \<open>Text_Progress\<close>
    (\<open>core/text_progress.py\<close>) reports how far the audio has spoken.
  \<^item> Sessions. \<open>Session_Service\<close> and \<open>Session_Registry\<close> (\<open>session/service.py\<close>, \<open>types.py\<close>), \<open>Delivery_Ledger\<close> and
    \<open>Delivery_Stream\<close> (\<open>session/reliability.py\<close>: numbered outputs, acknowledgement, replay) and
    \<open>Resumable_Session\<close> (\<open>session/resumable.py\<close>) carry the outputs to a client that may reconnect.

  \<open>Prelude\<close> and \<open>Py_Text\<close> hold the shared vocabulary: Python values, dictionaries as association lists in
  insertion order, strings of code points, number formats.

  \<^bold>\<open>How code becomes definitions.\<close> A class is a record, an enumeration a datatype, a method a function
  from the state to the state it leaves and either the exception it raised or its result; the state is
  there in both cases because a Python method that raises keeps its assignments. A coroutine that
  holds a lock is one step; what may interleave is a sequence of such steps or, for the text actor,
  the relation \<open>actor_step\<close>. Python integers are \<open>int\<close>, floats are rationals with infinities and NaN where
  the code tests for them, bytes are words of 8 bits.

  \<^bold>\<open>Parameters.\<close> What the program calls and the library does not model is an argument: the rounding of
  float operations (\<open>rnd\<close>, assumed monotone and exact on small integers), the Unicode category (\<open>cat\<close>), the
  byte-pair encoder, the labelizer, the clock and the callbacks of the delivery path (\<open>delivery_env\<close>), the
  voice detector, the head of a prompt and the reference of a cloned voice (\<open>prompt_inputs\<close>), what the executor
  leaves after a prefill, the rows of a decode step and the health of its PCM
  (\<open>loop_phase\<close>, \<open>prefill_outcome\<close>, \<open>step_row\<close>), and the text normalizer with the commitment policy (\<open>text_env\<close>), about which nothing is
  assumed.

  \<^bold>\<open>Interfaces.\<close> \<open>op_system\<close> (operations keep an invariant) and \<open>watermark_system\<close> (and a mark never goes
  back) are interpreted on the ledger, the session registries, the journal and the commit projection, the
  resumable session, the scheduler, the ratio controller, the progress projector, the KV pool, the
  prefix cache and the engine loop; \<open>fifo_stage\<close> (a stage emits what it received, in order) on the stages of the delivery path.
  The steps of the text path have the rules \<open>keeps_then\<close>, \<open>keeps_for_each\<close> and \<open>keeps_caught\<close>.

  \<^bold>\<open>Loops.\<close> The driver's \<open>feed_loop\<close> and the splitter's \<open>drive_events\<close> run until a state repeats or no action
  comes out; they are partial functions into \<open>option\<close> and proved to return. The eviction loop \<open>evict_loop\<close> takes fuel, the
  number of slots, because every round leaves one idle slot less; that this is enough is proved. Every
  other loop is a total function.

  \<^bold>\<open>What is shown.\<close>

  \<^item> Text in: the requests in the engine's inbox spell the canonical text of the journal, token by
    token and with coordinates, in streaming sessions and for full texts; tokens partition the text;
    boundary maps stay valid until a trim loses them, which is characterized; incremental cursor plans
    are the full ones.
  \<^item> Splitting: the splitter's actions are a segmentation of the received tokens within the capacity,
    it respects its concurrency and never stalls; the driver always returns; \<open>pre_split\<close> is the greedy
    packing.
  \<^item> To the engine: SESSION_TOKENS_DONE comes once, last, and eventually; a waiting segment is boosted.
  \<^item> The engine thread: in every run, slots in use and active segments correspond one to one and no
    slot leaks; prompt and text vectors of a slot spell its segment's tokens, whether the prefix or the
    whole prompt was prefilled; a session gets at most one final result,
    its last; an eviction pass ends. A late release cannot take a slot from its next owner, the sliding
    row of a slot is its recent history, a recent prefix stays cached.
  \<^item> Audio out: audio leaves in text order and completely, less exactly the chunks that verdicts
    condemned; a verdict condemns only its own segment, in the gate and in the window, and no more than
    it says; holding is tight. The theorem of this root theory composes the reorder buffer and the delivery path.
  \<^item> Sessions: a resumed client receives exactly the outputs it has not seen, the terminal one included,
    unless the ledger refused one; acknowledgements trim
    exactly what was played, buffers stay bounded, accepted text is pushed once.
  \<^item> Defects: theorems of the kind error exhibit behaviour that the code does not intend, such as
    text lost at the end of the input, and are listed as findings.

  \<^bold>\<open>Not modelled.\<close> The executor, the embeddings and reference audio work on GPU tensors, and so do the engine
  loop's continuity extension and speech state migration, both switched off in the model; the
  incremental text normalizer is a large body of grammars over the WeText package; gateways, server and
  client move messages over sockets; post-processing, metrics, configuration and deployment scripts hold
  no state of the text and audio path. In the modelled parts, log records, timestamps and metrics are
  left out.
\<close>

section \<open>The reorder buffer and the delivery path together\<close>

text \<open>
  C2. The client hears the whole text, in order. The segments of a text decode in parallel; their
  chunks and completions reach the consumer in any interleaving, with ticks of the hold and gate
  tickers anywhere in between. If each segment's chunks come before its completion, every segment
  completes and no verdict condemns audio, then after the terminal result the audible chunks sent
  to the client are those of all segments, segment by segment in text order.
\<close>

theorem session_audio_complete:
  assumes "h = None \<or> h = Some (new_hold w bps)" and "g = semantic_start_gate_for (b \<noteq> None) opts"
    and "b = None \<or> b = Some new_bypass" and "new_reorder timeout = Inr r"
    and "s = fold (consumer_step E) ops (new_consumer r h g b e)" and "\<not> cs_finished s"
    and "rops = run_reorder_ops E ops (new_consumer r h g b e)" and "list_all (clean_op E) ops"
    and "list_all (\<lambda>n. 0 < n) sizes" and "run_ok sizes [] rops" and "set (done_keys rops) = set (text_keys sizes)"
  shows "filter audible (sent (consumer_step E (Result SessionDone) s)) =
         filter audible (concat (map (\<lambda>k. chunks_of k (pushes rops)) (text_keys sizes)))"
proof -
  note n = new_consumer_ok [OF assms(1-3), of r e]
  have run: "step_ok (list_all (clean_op E) ops) rops (new_consumer r h g b e) s"
    unfolding assms(5,7) by (rule run_consumer_ok [OF n(1)])
  have r: "cs_reorder (new_consumer r h g b e) = r" by (simp add: new_consumer_def)
  have ok: "stages_ok s" "filter audible (stream s) = filter audible (reorder_outputs rops r)"
    using run n(2,3) assms(8) by (simp_all add: step_ok_def follows_def r)
  have "consumer_step E (Result SessionDone) s = finish_delivery E SendDone s" using assms(6) by simp
  then have "filter audible (sent (consumer_step E (Result SessionDone) s)) = filter audible (stream s)"
    using finish_delivery_moves [OF ok(1), of SendDone "''''" E] by (auto simp: moves_def stream_def)
  with ok(2) complete_run_in_order [OF assms(4,9-11)] show ?thesis by simp
qed

theorem session_audio_complete_witness:
  "map chunk_segment (filter audible (sent (consumer_step ex_still (Result SessionDone)
     (fold (consumer_step ex_still) (butlast (ex_ops ''codec_eos'')) ex_start)))) = [0, 1, 1]"
proof -
  define ops where "ops = butlast (ex_ops ''codec_eos'')"
  define rops where "rops = run_reorder_ops ex_still ops ex_start"
  have ev: "\<not> cs_finished (fold (consumer_step ex_still) ops ex_start)" "list_all (clean_op ex_still) ops"
    "list_all (\<lambda>n. 0 < n) [2 :: nat]" "run_ok [2] [] rops" "set (done_keys rops) = set (text_keys [2])"
    unfolding ops_def rops_def by code_simp+
  have o: "map chunk_segment (filter audible (concat (map (\<lambda>k. chunks_of k (pushes rops)) (text_keys [2])))) = [0, 1, 1]"
    unfolding ops_def rops_def by code_simp
  have "filter audible (sent (consumer_step ex_still (Result SessionDone) (fold (consumer_step ex_still) ops ex_start))) =
      filter audible (concat (map (\<lambda>k. chunks_of k (pushes rops)) (text_keys [2])))"
    using session_audio_complete [where h = "Some (new_hold (1 / 10) 40)" and w = "1 / 10" and bps = 40 and g = None and
        b = None and opts = "ex_options\<lparr>opt_gate := False\<rparr>" and timeout = "FloatOf (Fin 10)" and r = ex_r and
        s = "fold (consumer_step ex_still) ops ex_start" and E = ex_still and ops = ops and e = None and
        rops = rops and sizes = "[2]"] ev ex_start_new
    by (simp add: ex_start_def rops_def)
  with o show ?thesis by (simp add: ops_def)
qed

end
